(* ===== verification/Prelude.thy ===== *)
theory Prelude
  imports Main "HOL-Library.Word" "HOL-Library.Monad_Syntax"
begin

text \<open>
  Shared vocabulary of the development.

  \<^item> \<open>u32\<close> and \<open>s32\<close> are the conversions of C on the target (a 32-bit
    Cortex-M3): an unsigned value is a \<open>nat\<close> below \<open>2 ^ 32\<close>, a signed \<open>int\<close> is an
    Isabelle \<open>int\<close>, and the wrap-around of every conversion is written out.
  \<^item> A computation that may not return, or that C leaves undefined, has an
    \<open>option\<close> type and \<open>None\<close> is that case; sequences of such steps are written with
    the \<open>do\<close> notation of \<open>HOL-Library.Monad_Syntax\<close>.
  \<^item> The theorem collections \<open>mem_simps\<close> (byte memory) and \<open>list_frame\<close> (facts that
    carry an operation over an unrelated change of the store) are filled by the
    theories that own the facts.
\<close>

named_theorems mem_simps "reads of a byte memory after writes"
named_theorems list_frame "a structure in memory is unchanged by writes elsewhere"

unbundle bit_operations_syntax

type_synonym u8 = "8 word"
type_synonym u16 = "16 word"

section \<open>The integer conversions of the target\<close>

definition u32 :: "int \<Rightarrow> nat" where
  "u32 i = nat (i mod 2 ^ 32)"

definition s32 :: "nat \<Rightarrow> int" where
  "s32 n = (let m = n mod 2 ^ 32 in if m < 2 ^ 31 then int m else int m - 2 ^ 32)"

definition wrap32 :: "int \<Rightarrow> int" where
  "wrap32 i = s32 (u32 i)"

lemma u32_less [simplified, simp]: "u32 i < 2 ^ 32"
  by (simp add: u32_def nat_less_iff)

lemma u32_mod [simp]: "u32 i mod 4294967296 = u32 i"
  by simp

lemma u32_of_nat [simplified, simp]: "n < 2 ^ 32 \<Longrightarrow> u32 (int n) = n"
  by (simp add: u32_def)

lemma s32_small [simplified, simp]: "n < 2 ^ 31 \<Longrightarrow> s32 n = int n"
  by (simp add: s32_def)

lemma wrap32_small [simplified, simp]: "- (2 ^ 31) \<le> i \<Longrightarrow> i < 2 ^ 31 \<Longrightarrow> wrap32 i = i"
proof -
  assume a: "- (2 ^ 31) \<le> i" "i < 2 ^ 31"
  show ?thesis
  proof (cases "0 \<le> i")
    case True
    with a show ?thesis by (simp add: wrap32_def u32_def)
  next
    case False
    have "i mod 2 ^ 32 = (i + 2 ^ 32) mod 2 ^ 32" by simp
    also have "\<dots> = i + 2 ^ 32" using a False by (intro mod_pos_pos_trivial) auto
    finally have "u32 i = nat (i + 2 ^ 32)" by (simp add: u32_def)
    with a False show ?thesis by (simp add: wrap32_def s32_def Let_def)
  qed
qed

text \<open>Adding a C \<open>int\<close> to a byte pointer.\<close>

definition ptr_add :: "nat \<Rightarrow> int \<Rightarrow> nat" where
  "ptr_add p i = u32 (int p + i)"

lemma ptr_add_nat [simplified, simp]: "p + n < 2 ^ 32 \<Longrightarrow> ptr_add p (int n) = p + n"
  by (auto simp: ptr_add_def u32_def nat_add_distrib)

text \<open>Arithmetic on unsigned 32-bit values and addresses.\<close>

definition add32 :: "nat \<Rightarrow> nat \<Rightarrow> nat" where
  "add32 a b = (a + b) mod 2 ^ 32"

definition sub32 :: "nat \<Rightarrow> nat \<Rightarrow> nat" where
  "sub32 a b = (a + (2 ^ 32 - b)) mod 2 ^ 32"

lemma add32_small [simplified, simp]: "a + b < 2 ^ 32 \<Longrightarrow> add32 a b = a + b"
  by (simp add: add32_def)

lemma sub32_small [simplified, simp]: "b \<le> a \<Longrightarrow> a < 2 ^ 32 \<Longrightarrow> sub32 a b = a - b"
proof -
  assume a: "b \<le> a" "a < 2 ^ 32"
  then have "a + (2 ^ 32 - b) = (a - b) + 2 ^ 32" by simp
  with a show ?thesis by (simp only: sub32_def mod_add_self2) simp
qed

text \<open>\<open>a & ~b\<close> on unsigned 32-bit values.\<close>

definition andnot32 :: "nat \<Rightarrow> nat \<Rightarrow> nat" where
  "andnot32 a b = unat ((word_of_nat a :: 32 word) AND NOT (word_of_nat b))"

section \<open>Rounding up to a power of two\<close>

text \<open>The macro \<open>(x + (pad - 1)) & ~(pad - 1)\<close> on \<open>w\<close>-bit words, for \<open>pad = 8\<close>.\<close>

lemma and_not7_word: "unat ((w :: 32 word) AND NOT 7) = (unat w div 8) * 8"
proof -
  have e: "w AND 7 = take_bit 3 w"
    by (simp add: take_bit_eq_mask mask_eq_exp_minus_1)
  have "w - (w AND 7) = w AND NOT (w AND 7)"
    by (rule disjunctive_diff_eq_and_not) (simp add: bit_eq_iff bit_simps)
  also have "\<dots> = w AND NOT 7"
    by (rule bit_word_eqI) (auto simp: bit_simps)
  finally have "w AND NOT 7 = w - take_bit 3 w"
    by (simp add: e)
  moreover have "unat (take_bit 3 w) = unat w mod 8"
    by (simp only: unsigned_take_bit_eq) (simp add: take_bit_eq_mod)
  moreover from this have "unat (w - take_bit 3 w) = unat w - unat (take_bit 3 w)"
    by (intro unat_sub) (simp add: word_le_nat_alt)
  ultimately show ?thesis
    by (metis minus_mod_eq_div_mult)
qed

lemma andnot32_7 [simplified]: "a < 2 ^ 32 \<Longrightarrow> andnot32 a 7 = a div 8 * 8"
proof -
  assume a: "a < 2 ^ 32"
  have "unat (word_of_nat a :: 32 word) = a" using a by (simp add: unat_of_nat)
  then show ?thesis
    using and_not7_word [of "word_of_nat a"] by (simp add: andnot32_def)
qed

text \<open>The top bit of an unsigned 32-bit value.\<close>

lemma and_top_bit: "a < 2 ^ 31 \<Longrightarrow> a AND (2 ^ 31 :: nat) = 0"
  unfolding and_exp_eq_0_iff_not_bit bit_iff_odd by (simp only: div_less) simp

lemma or_top_bit: "a < 2 ^ 31 \<Longrightarrow> a OR (2 ^ 31 :: nat) = a + 2 ^ 31"
  using disjunctive_add_eq_or [OF and_top_bit] by (rule sym)

lemma or_and_top_bit: "(a + 2 ^ 31) AND (2 ^ 31 :: nat) = 2 ^ 31" if "a < 2 ^ 31"
proof -
  have "(a OR 2 ^ 31) AND (2 ^ 31 :: nat) = 2 ^ 31"
    by (rule bit_eqI) (simp only: bit_simps, blast)
  then show ?thesis using or_top_bit [OF that] by (simp only:)
qed

lemma andnot_top_bit: "a < 2 ^ 31 \<Longrightarrow> andnot32 (a + 2 ^ 31) (2 ^ 31) = a"
proof -
  assume a: "a < 2 ^ 31"
  let ?t = "word_of_nat (2 ^ 31) :: 32 word"
  have "(word_of_nat a :: 32 word) AND ?t = word_of_nat (a AND 2 ^ 31)"
    by (simp only: of_nat_and_eq)
  then have z: "(word_of_nat a :: 32 word) AND ?t = 0" using and_top_bit [OF a] by (simp only:) simp
  have "(word_of_nat (a + 2 ^ 31) :: 32 word) = word_of_nat a OR ?t"
    using disjunctive_add_eq_or [OF z] by (simp only: of_nat_add)
  then have "(word_of_nat (a + 2 ^ 31) :: 32 word) AND NOT ?t = word_of_nat a AND NOT ?t"
    by (simp only: bit.conj_disj_distrib2 bit.conj_cancel_right) simp
  also have "\<dots> = word_of_nat a"
  proof (rule bit_eqI)
    fix n
    have "bit ((word_of_nat a :: 32 word) AND ?t) n = bit (0 :: 32 word) n" by (simp only: z)
    then show "bit (word_of_nat a AND NOT ?t) n = bit (word_of_nat a :: 32 word) n"
      by (simp add: bit_simps) metis
  qed
  finally show ?thesis using a unfolding andnot32_def by (simp only: unat_of_nat) simp
qed

lemmas top_bit_simps [simplified, simp] = and_top_bit or_top_bit or_and_top_bit andnot_top_bit

end
