(* ===== verification/Memory.thy ===== *)
theory Memory
  imports Prelude
begin

text \<open>
  The byte-addressed memory of the microcontroller. An address is a \<open>nat\<close>; a C object of
  32 bits is read and written little-endian (\<open>ld32\<close>, \<open>st32\<close>), as the Cortex-M3 does. The
  memory is total: on this device every address the modelled code may form can be
  read, address 0 included (it is the boot ROM), so no read faults.
  The lemmas say what a read returns after a write, and when the two do not meet.
\<close>

type_synonym mem = "nat \<Rightarrow> u8"

definition ld32 :: "mem \<Rightarrow> nat \<Rightarrow> nat" where
  "ld32 m a = unat (m a) + 256 * unat (m (a + 1)) + 65536 * unat (m (a + 2))
     + 16777216 * unat (m (a + 3))"

definition st32 :: "mem \<Rightarrow> nat \<Rightarrow> nat \<Rightarrow> mem" where
  "st32 m a v = m(a := of_nat v, a + 1 := of_nat (v div 256),
     a + 2 := of_nat (v div 65536), a + 3 := of_nat (v div 16777216))"

text \<open>A signed \<open>int\<close> in memory.\<close>

definition ld_int :: "mem \<Rightarrow> nat \<Rightarrow> int" where
  "ld_int m a = s32 (ld32 m a)"

definition st_int :: "mem \<Rightarrow> nat \<Rightarrow> int \<Rightarrow> mem" where
  "st_int m a i = st32 m a (u32 i)"

text \<open>\<open>memset\<close> and \<open>memcpy\<close>, byte by byte in address order.\<close>

primrec mem_set :: "mem \<Rightarrow> nat \<Rightarrow> u8 \<Rightarrow> nat \<Rightarrow> mem" where
  "mem_set m a c 0 = m"
| "mem_set m a c (Suc n) = mem_set (m(a := c)) (a + 1) c n"

primrec mem_cpy :: "mem \<Rightarrow> nat \<Rightarrow> nat \<Rightarrow> nat \<Rightarrow> mem" where
  "mem_cpy m d s 0 = m"
| "mem_cpy m d s (Suc n) = mem_cpy (m(d := m s)) (d + 1) (s + 1) n"

section \<open>Reads after writes\<close>

lemma ld32_less [simplified, simp]: "ld32 m a < 2 ^ 32"
proof -
  have b: "unat (x :: u8) \<le> 255" for x
    using unsigned_less [of x, where 'a = nat] by simp
  show ?thesis
    using b [of "m a"] b [of "m (a + 1)"] b [of "m (a + 2)"] b [of "m (a + 3)"]
    by (simp add: ld32_def)
qed

lemma byte_of_nat: "unat (of_nat v :: u8) = v mod 256"
  by (simp add: unat_of_nat)

lemma bytes_of_32:
  "v mod 256 + 256 * (v div 256 mod 256) + 65536 * (v div 65536 mod 256)
     + 16777216 * (v div 16777216 mod 256) = (v::nat) mod 2 ^ 32"
proof -
  have "v mod 2 ^ 32 = v mod (65536 * 65536)" by simp
  also have "\<dots> = v mod 65536 + 65536 * (v div 65536 mod 65536)"
    by (simp only: mod_mult2_eq add.commute)
  also have "v mod 65536 = v mod 256 + 256 * (v div 256 mod 256)"
    using mod_mult2_eq [of v 256 256] by (simp add: add.commute)
  also have "v div 65536 mod 65536
      = v div 65536 mod 256 + 256 * (v div 16777216 mod 256)"
    using mod_mult2_eq [of "v div 65536" 256 256] by (simp add: add.commute div_mult2_eq [symmetric])
  finally show ?thesis by simp
qed

lemma ld32_st32_same [simplified, mem_simps, simp]: "ld32 (st32 m a v) a = v mod 2 ^ 32"
  using bytes_of_32 [of v] by (simp add: ld32_def st32_def byte_of_nat)

lemma st32_other [mem_simps]: "x < a \<or> a + 4 \<le> x \<Longrightarrow> st32 m a v x = m x"
  by (auto simp: st32_def)

lemma ld32_cong: "(\<And>x. a \<le> x \<Longrightarrow> x < a + 4 \<Longrightarrow> m x = m' x) \<Longrightarrow> ld32 m a = ld32 m' a"
  by (simp add: ld32_def)

text \<open>\<open>same_outside F m m'\<close>: the two memories differ at most on the bytes of \<open>F\<close>.\<close>

definition same_outside :: "nat set \<Rightarrow> mem \<Rightarrow> mem \<Rightarrow> bool" where
  "same_outside F m m' \<longleftrightarrow> (\<forall>x. x \<notin> F \<longrightarrow> m' x = m x)"

lemma same_outside_refl [intro, simp]: "same_outside F m m"
  by (simp add: same_outside_def)

lemma same_outside_trans [trans]:
  "same_outside F m m' \<Longrightarrow> same_outside G m' m'' \<Longrightarrow> same_outside (F \<union> G) m m''"
  by (simp add: same_outside_def)

lemma same_outside_mono: "same_outside F m m' \<Longrightarrow> F \<subseteq> G \<Longrightarrow> same_outside G m m'"
  by (auto simp: same_outside_def)

lemma same_outside_st32 [intro]: "{a..<a + 4} \<subseteq> F \<Longrightarrow> same_outside F m (st32 m a v)"
  unfolding same_outside_def by (metis atLeastLessThan_iff not_less st32_other subsetD)

lemma same_outside_st_int [intro]: "{a..<a + 4} \<subseteq> F \<Longrightarrow> same_outside F m (st_int m a v)"
  by (auto simp: st_int_def)

lemma ld32_frame [list_frame]:
  "same_outside F m m' \<Longrightarrow> {b..<b + 4} \<inter> F = {} \<Longrightarrow> ld32 m' b = ld32 m b"
  by (rule ld32_cong) (fastforce simp: same_outside_def)

lemma ld32_st32_other [mem_simps]:
  "b + 4 \<le> a \<or> a + 4 \<le> b \<Longrightarrow> ld32 (st32 m a v) b = ld32 m b"
  by (rule ld32_cong) (auto simp: st32_other)

lemma ld_int_st_int_same [mem_simps]: "ld_int (st_int m a i) a = wrap32 i"
  by (simp add: ld_int_def st_int_def wrap32_def)

lemma ld32_st_int [mem_simps]: "ld32 (st_int m a i) a = u32 i"
  by (simp add: st_int_def)

lemma ld32_st_int_other [mem_simps]:
  "b + 4 \<le> a \<or> a + 4 \<le> b \<Longrightarrow> ld32 (st_int m a i) b = ld32 m b"
  by (simp add: st_int_def ld32_st32_other)

lemma mem_set_other [mem_simps]: "x < a \<or> a + n \<le> x \<Longrightarrow> mem_set m a c n x = m x"
  by (induction n arbitrary: m a) auto

lemma mem_set_in [mem_simps]: "a \<le> x \<Longrightarrow> x < a + n \<Longrightarrow> mem_set m a c n x = c"
proof (induction n arbitrary: m a)
  case (Suc n)
  show ?case
  proof (cases "x = a")
    case True
    then show ?thesis using mem_set_other [of x "a + 1" n "m(a := c)" c] by simp
  next
    case False
    with Suc.prems have "mem_set (m(a := c)) (a + 1) c n x = c" by (intro Suc.IH) auto
    then show ?thesis by (simp del: fun_upd_apply)
  qed
qed simp

lemma mem_cpy_other [mem_simps]: "x < d \<or> d + n \<le> x \<Longrightarrow> mem_cpy m d s n x = m x"
  by (induction n arbitrary: m d s) auto

text \<open>Copying between areas that do not overlap moves the bytes unchanged.\<close>

lemma mem_cpy_in [mem_simps]:
  "i < n \<Longrightarrow> s + n \<le> d \<or> d + n \<le> s \<Longrightarrow> mem_cpy m d s n (d + i) = m (s + i)"
proof (induction n arbitrary: m d s i)
  case (Suc n)
  show ?case
  proof (cases i)
    case 0
    then show ?thesis using mem_cpy_other [of d "d + 1" n "m(d := m s)" "s + 1"] by simp
  next
    case (Suc j)
    with Suc.prems have "mem_cpy (m(d := m s)) (d + 1) (s + 1) n (d + 1 + j) = (m(d := m s)) (s + 1 + j)"
      by (intro Suc.IH) auto
    moreover from Suc Suc.prems have "s + 1 + j \<noteq> d" by auto
    ultimately show ?thesis using Suc by simp
  qed
qed simp

end
