(* ===== verification/FreeList.thy ===== *)
theory FreeList
  imports Memory
begin

text \<open>
  The abstract free list shared by the two allocators of the firmware, \<open>tcm_heap.c\<close> and
  \<open>heap_5.c\<close>. Both keep the free blocks in a singly linked list threaded through the free
  memory itself: the first word of a block is the next pointer, the second its size.

  \<^item> \<open>chain m p bs q\<close>: following next pointers from \<open>p\<close> meets exactly the blocks \<open>bs\<close>
    (address, size) and ends at \<open>q\<close>.
  \<^item> \<open>fl lo bs hi\<close>: the blocks are in address order between \<open>lo\<close> and \<open>hi\<close> and do not
    overlap. A block takes at least the 8 bytes of its header (\<open>ext\<close>), even when its
    size is 0, as the region markers of \<open>heap_5.c\<close> are.
  \<^item> \<open>coalesced bs\<close>: no block ends where the next one begins.
  \<^item> \<open>fl_insert\<close>: the effect of giving a block back, with both merges.
\<close>

type_synonym block = "nat \<times> nat"

abbreviation ext :: "nat \<Rightarrow> nat" where
  "ext s \<equiv> max 8 s"

fun chain :: "mem \<Rightarrow> nat \<Rightarrow> block list \<Rightarrow> nat \<Rightarrow> bool" where
  "chain m p [] q \<longleftrightarrow> p = q"
| "chain m p ((a, s) # bs) q \<longleftrightarrow> p = a \<and> ld32 m (a + 4) = s \<and> chain m (ld32 m a) bs q"

fun fl :: "nat \<Rightarrow> block list \<Rightarrow> nat \<Rightarrow> bool" where
  "fl lo [] hi \<longleftrightarrow> lo \<le> hi"
| "fl lo ((a, s) # bs) hi \<longleftrightarrow> lo \<le> a \<and> fl (a + ext s) bs hi"

fun coalesced :: "block list \<Rightarrow> bool" where
  "coalesced ((a, s) # (b, t) # bs) \<longleftrightarrow> a + s \<noteq> b \<and> coalesced ((b, t) # bs)"
| "coalesced _ \<longleftrightarrow> True"

definition glue :: "block \<Rightarrow> block list \<Rightarrow> block list" where
  "glue b bs = (case bs of [] \<Rightarrow> [b]
     | (a, s) # bs' \<Rightarrow> if fst b + snd b = a then (fst b, snd b + s) # bs' else b # bs)"

fun fl_insert :: "block \<Rightarrow> block list \<Rightarrow> block list" where
  "fl_insert (p, n) [] = [(p, n)]"
| "fl_insert (p, n) ((a, s) # bs) =
     (if p < a then glue (p, n) ((a, s) # bs)
      else if a + s = p then glue (a, s + n) bs
      else (a, s) # fl_insert (p, n) bs)"

text \<open>The bytes of a block, of a list of blocks, and their number.\<close>

definition bytes :: "block list \<Rightarrow> nat set" where
  "bytes bs = (\<Union>(a, s)\<in>set bs. {a..<a + s})"

definition headers :: "block list \<Rightarrow> nat set" where
  "headers bs = (\<Union>(a, s)\<in>set bs. {a..<a + 8})"

definition extents :: "block list \<Rightarrow> nat set" where
  "extents bs = (\<Union>(a, s)\<in>set bs. {a..<a + ext s})"

definition total :: "block list \<Rightarrow> nat" where
  "total bs = sum_list (map snd bs)"

lemma bytes_simps [simp]:
  "bytes [] = {}"
  "bytes ((a, s) # bs) = {a..<a + s} \<union> bytes bs"
  "bytes (bs @ cs) = bytes bs \<union> bytes cs"
  by (auto simp: bytes_def)

lemma headers_simps [simp]:
  "headers [] = {}"
  "headers ((a, s) # bs) = {a..<a + 8} \<union> headers bs"
  "headers (bs @ cs) = headers bs \<union> headers cs"
  by (auto simp: headers_def)

lemma extents_simps [simp]:
  "extents [] = {}"
  "extents ((a, s) # bs) = {a..<a + ext s} \<union> extents bs"
  "extents (bs @ cs) = extents bs \<union> extents cs"
  by (auto simp: extents_def)

lemma total_simps [simp]:
  "total [] = 0" "total ((a, s) # bs) = s + total bs" "total (bs @ cs) = total bs + total cs"
  by (auto simp: total_def)

lemma headers_extents: "headers bs \<subseteq> extents bs"
  by (induction bs) auto

lemma bytes_extents: "bytes bs \<subseteq> extents bs"
  by (induction bs) auto

section \<open>Chains in memory\<close>

lemma chain_append: "chain m p (bs @ cs) q \<longleftrightarrow> (\<exists>r. chain m p bs r \<and> chain m r cs q)"
  by (induction m p bs q rule: chain.induct) auto

lemma chain_cong [list_frame]:
  "(\<And>x. x \<in> headers bs \<Longrightarrow> m' x = m x) \<Longrightarrow> chain m' p bs q \<longleftrightarrow> chain m p bs q"
proof (induction bs arbitrary: p)
  case (Cons b bs)
  obtain a s where b: "b = (a, s)" by (cases b)
  have "ld32 m' a = ld32 m a" "ld32 m' (a + 4) = ld32 m (a + 4)"
    by (rule ld32_cong; use Cons.prems b in simp)+
  moreover have "chain m' r bs q \<longleftrightarrow> chain m r bs q" for r
    using Cons.prems b by (intro Cons.IH) auto
  ultimately show ?case using b by simp
qed simp

lemma chain_st32 [list_frame]:
  "{a..<a + 4} \<inter> headers bs = {} \<Longrightarrow> chain (st32 m a v) p bs q \<longleftrightarrow> chain m p bs q"
  by (rule chain_cong, rule st32_other) (metis IntI atLeastLessThan_iff empty_iff not_less)

lemma chain_frame [list_frame]:
  "same_outside F m m' \<Longrightarrow> headers bs \<inter> F = {} \<Longrightarrow> chain m' p bs q \<longleftrightarrow> chain m p bs q"
  by (rule chain_cong) (auto simp: same_outside_def)

lemma chain_unique: "chain m p bs q \<Longrightarrow> chain m p cs q \<Longrightarrow> q \<notin> fst ` set bs
   \<Longrightarrow> q \<notin> fst ` set cs \<Longrightarrow> bs = cs"
proof (induction bs arbitrary: p cs)
  case Nil
  then show ?case by (cases cs) auto
next
  case (Cons b bs)
  then show ?case by (cases b; cases cs) auto
qed

section \<open>Ordered, disjoint block lists\<close>

lemma fl_le: "fl lo bs hi \<Longrightarrow> lo \<le> hi"
  by (induction lo bs hi rule: fl.induct) auto

lemma fl_mono_lo: "fl lo bs hi \<Longrightarrow> lo' \<le> lo \<Longrightarrow> fl lo' bs hi"
  by (cases bs) auto

lemma fl_append: "fl lo (bs @ (a, s) # cs) hi \<longleftrightarrow> fl lo bs a \<and> fl a ((a, s) # cs) hi"
  by (induction lo bs a rule: fl.induct) auto

lemma fl_extents: "fl lo bs hi \<Longrightarrow> extents bs \<subseteq> {lo..<hi}"
proof (induction lo bs hi rule: fl.induct)
  case (2 lo a s bs hi)
  then have "extents bs \<subseteq> {a + ext s..<hi}" "a + ext s \<le> hi" by (auto dest: fl_le)
  with 2(2) show ?case by fastforce
qed auto

lemma fl_headers: "fl lo bs hi \<Longrightarrow> headers bs \<subseteq> {lo..<hi}"
  using fl_extents headers_extents by blast

lemma fl_bytes: "fl lo bs hi \<Longrightarrow> bytes bs \<subseteq> {lo..<hi}"
  using fl_extents bytes_extents by blast

lemma fl_starts: "fl lo bs hi \<Longrightarrow> (a, s) \<in> set bs \<Longrightarrow> lo \<le> a \<and> a + ext s \<le> hi"
proof (induction lo bs hi rule: fl.induct)
  case (2 lo b t bs hi)
  then show ?case by (auto dest: fl_le)
qed simp

section \<open>Taking a block: first fit, from the end\<close>

text \<open>The abstract \<open>tcm_heap_allocmem\<close>: the first block large enough is used up, or
  shortened by its last \<open>n\<close> bytes.\<close>

definition sized :: "block list \<Rightarrow> bool" where
  "sized bs \<longleftrightarrow> (\<forall>(a, s)\<in>set bs. 8 \<le> s \<and> 8 dvd s)"

lemma sized_simps [simp]:
  "sized []" "sized ((a, s) # bs) \<longleftrightarrow> 8 \<le> s \<and> 8 dvd s \<and> sized bs"
  by (auto simp: sized_def)

fun fl_alloc :: "nat \<Rightarrow> block list \<Rightarrow> (nat \<times> block list) option" where
  "fl_alloc n [] = None"
| "fl_alloc n ((a, s) # bs) =
     (if n \<le> s then if s = n then Some (a, bs) else Some (a + (s - n), (a, s - n) # bs)
      else map_option (\<lambda>(p, cs). (p, (a, s) # cs)) (fl_alloc n bs))"

lemma fl_alloc_None: "fl_alloc n bs = None \<longleftrightarrow> (\<forall>(a, s)\<in>set bs. s < n)"
  by (induction n bs rule: fl_alloc.induct) auto

lemma fl_alloc_bytes:
  "fl_alloc n bs = Some (p, cs) \<Longrightarrow> {p..<p + n} \<subseteq> bytes bs \<and> total bs = n + total cs"
  by (induction n bs arbitrary: p cs rule: fl_alloc.induct) (auto split: if_splits)

lemma fl_alloc_sized:
  "fl_alloc n bs = Some (p, cs) \<Longrightarrow> sized bs \<Longrightarrow> 8 dvd n \<Longrightarrow> sized cs"
proof (induction n bs arbitrary: p cs rule: fl_alloc.induct)
  case (2 n a s bs)
  then show ?case
    using dvd_imp_le [of 8 "s - n"] by (auto split: if_splits)
qed simp

lemma fl_alloc_fl:
  "fl_alloc n bs = Some (p, cs) \<Longrightarrow> fl lo bs hi \<Longrightarrow> sized bs \<Longrightarrow> 8 dvd n \<Longrightarrow> fl lo cs hi"
proof (induction n bs arbitrary: lo p cs rule: fl_alloc.induct)
  case (2 n a s bs)
  have "8 dvd (s - n)" using 2 by auto
  with 2 show ?case
    using dvd_imp_le [of 8 "s - n"]
    by (fastforce split: if_splits simp: max_def elim!: fl_mono_lo)
qed simp

lemma fl_alloc_avail:
  "fl_alloc n bs = Some (p, cs) \<Longrightarrow> fl lo bs hi \<Longrightarrow> bytes cs = bytes bs - {p..<p + n}"
proof (induction n bs arbitrary: lo p cs rule: fl_alloc.induct)
  case (2 n a s bs)
  have d: "\<forall>x\<in>bytes bs. a + s \<le> x"
    using 2(3) fl_bytes [of "a + ext s" bs hi] by fastforce
  show ?case
  proof (cases "n \<le> s")
    case True
    with 2 d show ?thesis by (fastforce split: if_splits)
  next
    case False
    with 2 obtain ds where ds: "fl_alloc n bs = Some (p, ds)" "cs = (a, s) # ds" by auto
    with False 2 have "bytes ds = bytes bs - {p..<p + n}" by auto
    moreover have "{p..<p + n} \<subseteq> bytes bs" using ds fl_alloc_bytes by blast
    ultimately show ?thesis using ds d by fastforce
  qed
qed simp

section \<open>Giving a block back\<close>

lemma glue_simps [simp]:
  "glue b [] = [b]"
  "glue (p, n) ((a, s) # bs) = (if p + n = a then (p, n + s) # bs else (p, n) # (a, s) # bs)"
  by (simp_all add: glue_def)

lemma bytes_glue [simp]: "bytes (glue (p, n) bs) = {p..<p + n} \<union> bytes bs"
  by (cases bs) (auto split: if_splits)

lemma total_glue [simp]: "total (glue (p, n) bs) = n + total bs"
  by (cases bs) auto

lemma bytes_fl_insert: "bytes (fl_insert (p, n) bs) = {p..<p + n} \<union> bytes bs"
  by (induction "(p, n)" bs rule: fl_insert.induct) (auto simp del: glue_simps)

lemma total_fl_insert: "total (fl_insert (p, n) bs) = n + total bs"
  by (induction "(p, n)" bs rule: fl_insert.induct) (auto simp del: glue_simps)

lemma fl_glue: "p + ext n \<le> q \<Longrightarrow> fl q bs hi \<Longrightarrow> 8 \<le> n \<Longrightarrow> fl p (glue (p, n) bs) hi"
  by (cases bs) (auto simp: max_def split: if_splits elim!: fl_mono_lo)

lemma extents_glue: "8 \<le> n \<Longrightarrow> extents (glue (p, n) bs) \<subseteq> {p..<p + n} \<union> extents bs"
  by (cases bs) (auto simp: max_def split: if_splits)

lemma extents_fl_insert: "8 \<le> n \<Longrightarrow> extents (fl_insert (p, n) bs) \<subseteq> {p..<p + n} \<union> extents bs"
proof (induction "(p, n)" bs rule: fl_insert.induct)
  case (2 a s bs)
  then show ?case
    using extents_glue [of n p "(a, s) # bs"] extents_glue [of "s + n" a bs]
    by (auto simp: max_def simp del: glue_simps split: if_splits)
qed (auto simp: max_def)

lemma fl_raise: "fl p bs hi \<Longrightarrow> {p..<p + n} \<inter> extents bs = {} \<Longrightarrow> p + n \<le> hi \<Longrightarrow> fl (p + n) bs hi"
proof (cases bs)
  case (Cons b cs)
  assume a: "fl p bs hi" "{p..<p + n} \<inter> extents bs = {}"
  obtain x s where b: "b = (x, s)" by (cases b)
  have "x \<in> extents bs" using Cons b by (simp add: max_def)
  with a(2) have "x \<notin> {p..<p + n}" by blast
  with a Cons b show ?thesis by auto
qed auto

lemma fl_fl_insert:
  "fl lo bs hi \<Longrightarrow> lo \<le> p \<Longrightarrow> p + n \<le> hi \<Longrightarrow> 8 \<le> n \<Longrightarrow> {p..<p + n} \<inter> extents bs = {}
   \<Longrightarrow> fl lo (fl_insert (p, n) bs) hi"
proof (induction "(p, n)" bs arbitrary: lo rule: fl_insert.induct)
  case 1
  then show ?case by auto
next
  case (2 a s bs)
  have out: "p < a \<or> a + ext s \<le> p"
  proof -
    have "p \<in> {p..<p + n}" using 2 by simp
    moreover have "{p..<p + n} \<inter> {a..<a + ext s} = {}" using 2 by (simp add: Int_Un_distrib)
    ultimately have "p \<notin> {a..<a + ext s}" by blast
    then show ?thesis by (simp only: atLeastLessThan_iff) linarith
  qed
  show ?case
  proof (cases "p < a")
    case True
    have "a \<in> extents ((a, s) # bs)" by (simp add: max_def)
    with 2 have "a \<notin> {p..<p + n}" by blast
    with True 2 have "fl p (glue (p, n) ((a, s) # bs)) hi"
      by (intro fl_glue [where q = a]) auto
    with True 2 show ?thesis by (auto elim: fl_mono_lo simp del: glue_simps)
  next
    case False
    with out have le: "a + ext s \<le> p" by simp
    show ?thesis
    proof (cases "a + s = p")
      case True
      with le have s: "ext s = s" by simp
      with True 2 have "fl (p + n) bs hi" by (intro fl_raise) auto
      with True 2 s have "fl a (glue (a, s + n) bs) hi" by (intro fl_glue [where q = "p + n"]) auto
      with True False 2 show ?thesis by (auto elim: fl_mono_lo)
    next
      case ne: False
      with False le 2 have "fl (a + ext s) (fl_insert (p, n) bs) hi" by (intro 2(1)) auto
      with False ne 2 show ?thesis by simp
    qed
  qed
qed

definition next_ne :: "nat \<Rightarrow> block list \<Rightarrow> bool" where
  "next_ne e bs = (case bs of [] \<Rightarrow> True | (b, t) # _ \<Rightarrow> e \<noteq> b)"

lemma coalesced_Cons: "coalesced ((a, s) # bs) \<longleftrightarrow> next_ne (a + s) bs \<and> coalesced bs"
  by (cases bs) (auto simp: next_ne_def)

lemma next_ne_glue: "next_ne e (glue (p, n) bs) \<longleftrightarrow> e \<noteq> p"
  by (cases bs) (auto simp: next_ne_def split: if_splits)

lemma next_ne_fl_insert: "e \<noteq> p \<Longrightarrow> next_ne e bs \<Longrightarrow> next_ne e (fl_insert (p, n) bs)"
  by (induction "(p, n)" bs rule: fl_insert.induct)
    (auto simp: next_ne_glue simp del: glue_simps, auto simp: next_ne_def)

lemma coalesced_glue: "coalesced bs \<Longrightarrow> coalesced (glue (p, n) bs)"
  by (cases bs) (auto simp: coalesced_Cons next_ne_def add.assoc [symmetric])

lemma coalesced_fl_insert: "coalesced bs \<Longrightarrow> coalesced (fl_insert (p, n) bs)"
proof (induction "(p, n)" bs rule: fl_insert.induct)
  case (2 a s bs)
  then show ?case
    using coalesced_glue [of "(a, s) # bs"] coalesced_glue [of bs a "s + n"]
      next_ne_fl_insert [of "a + s" p bs n]
    by (auto simp: coalesced_Cons simp del: glue_simps)
qed simp

lemma next_ne_fl: "fl lo bs hi \<Longrightarrow> e < lo \<Longrightarrow> next_ne e bs"
  by (cases bs) (auto simp: next_ne_def)

lemma next_ne_le_fl_alloc:
  "fl_alloc n bs = Some (p, cs) \<Longrightarrow> fl lo bs hi \<Longrightarrow> next_ne e bs \<Longrightarrow> e \<le> lo \<Longrightarrow> next_ne e cs"
  by (cases bs) (auto simp: next_ne_def split: if_splits list.splits)

lemma fl_alloc_coalesced:
  "fl_alloc n bs = Some (p, cs) \<Longrightarrow> fl lo bs hi \<Longrightarrow> coalesced bs \<Longrightarrow> 0 < n \<Longrightarrow> sized bs
   \<Longrightarrow> coalesced cs"
proof (induction n bs arbitrary: lo p cs rule: fl_alloc.induct)
  case (2 n a s bs)
  show ?case
  proof (cases "n \<le> s")
    case True
    with 2 show ?thesis
      using next_ne_fl [of "a + ext s" bs hi "a + (s - n)"]
      by (auto simp: coalesced_Cons max_def split: if_splits)
  next
    case False
    with 2 obtain ds where ds: "fl_alloc n bs = Some (p, ds)" "cs = (a, s) # ds" by auto
    with False 2 show ?thesis
      using next_ne_le_fl_alloc [of n bs p ds "a + ext s" hi "a + s"]
      by (auto simp: coalesced_Cons)
  qed
qed simp

lemma sized_glue: "sized bs \<Longrightarrow> 8 \<le> n \<Longrightarrow> 8 dvd n \<Longrightarrow> sized (glue (p, n) bs)"
  by (cases bs) auto

lemma sized_fl_insert: "sized bs \<Longrightarrow> 8 \<le> n \<Longrightarrow> 8 dvd n \<Longrightarrow> sized (fl_insert (p, n) bs)"
proof (induction "(p, n)" bs rule: fl_insert.induct)
  case (2 a s bs)
  then show ?case
    using sized_glue [of "(a, s) # bs" n p] sized_glue [of bs "s + n" a]
    by (auto simp del: glue_simps)
qed simp

lemma extents_Cons_disjoint: "fl lo ((a, s) # bs) hi \<Longrightarrow> {a..<a + ext s} \<inter> extents bs = {}"
  using fl_extents [of "a + ext s" bs hi] by fastforce

lemma fl_insert_before:
  "(\<forall>b u zs. ys = (b, u) # zs \<longrightarrow> p < b) \<Longrightarrow> fl_insert (p, n) ys = glue (p, n) ys"
  by (cases ys) auto

lemma fl_insert_at:
  "fl lo (xs @ (q, t) # ys) hi \<Longrightarrow> q < p \<Longrightarrow> (\<forall>b u zs. ys = (b, u) # zs \<longrightarrow> p < b)
   \<Longrightarrow> fl_insert (p, n) (xs @ (q, t) # ys)
     = xs @ (if q + t = p then glue (q, t + n) ys else (q, t) # glue (p, n) ys)"
proof (induction xs arbitrary: lo)
  case Nil
  then show ?case by (simp add: fl_insert_before)
next
  case (Cons x xs)
  obtain a s where x: "x = (a, s)" by (cases x)
  from Cons.prems x have f: "fl (a + ext s) (xs @ (q, t) # ys) hi" by simp
  then have "a + ext s \<le> q" by (simp add: fl_append) (metis fl_le)
  with Cons.prems(2) have "\<not> p < a" "a + s \<noteq> p" by auto
  with Cons.IH [OF f Cons.prems(2,3)] x show ?case by simp
qed

lemma fl_after:
  assumes "\<forall>x u zs. ys = (x, u) # zs \<longrightarrow> b \<le> x" "fl y ys e" "b + n \<le> e"
    "{b..<b + n} \<inter> extents ys = {}" "0 < n"
  shows "fl (b + n) ys e \<and> (\<forall>x u zs. ys = (x, u) # zs \<longrightarrow> b < x)"
proof (cases ys)
  case Nil
  then show ?thesis using assms by simp
next
  case (Cons c zs)
  obtain x u where c: "c = (x, u)" by (cases c)
  have "x \<in> extents ys" using Cons c by (simp add: max_def)
  then have "x \<notin> {b..<b + n}" using assms(4) by blast
  with assms Cons c show ?thesis by auto
qed

text \<open>Replacing the tail of a list from one of its nodes on.\<close>

lemma chain_replace_tail:
  assumes "chain m c (xs @ (q, t) # ys) r" "fl lo (xs @ (q, t) # ys) hi"
    "same_outside F m m'" "headers xs \<inter> F = {}" "chain m' q zs r"
  shows "chain m' c (xs @ zs) r"
  using assms by (auto simp: chain_append chain_frame [OF assms(3,4)])

lemma sized_extents: "sized bs \<Longrightarrow> extents bs = bytes bs"
  by (induction bs) (auto simp: max_def)

lemma headers_bytes: "sized bs \<Longrightarrow> headers bs \<subseteq> bytes bs"
  using sized_extents headers_extents [of bs] by simp

lemma fl_total: "fl lo bs hi \<Longrightarrow> total bs + lo \<le> hi"
  by (induction lo bs hi rule: fl.induct) (auto simp: max_def split: if_splits)

lemma fl_card: "fl lo bs hi \<Longrightarrow> card (bytes bs) = total bs"
proof (induction lo bs hi rule: fl.induct)
  case (2 lo a s bs hi)
  have "bytes bs \<subseteq> {a + ext s..<hi}" using 2 fl_bytes by auto
  then have "{a..<a + s} \<inter> bytes bs = {}" "finite (bytes bs)"
    by (fastforce, meson finite_atLeastLessThan finite_subset)
  with 2 show ?case by (simp add: card_Un_disjoint)
qed simp

end
