(* ===== verification/Allocator.thy ===== *)
theory Allocator
  imports Memory
begin

text \<open>
  The contract a heap gives to the code that calls it, as a locale, and what a client may
  rely on. A client issues commands: allocate, release one of its blocks, write a byte
  inside one of its blocks. \<open>heap_step\<close> runs one command of a client that holds the
  live blocks \<open>L\<close> (pointer, requested length); it is defined over any allocator, the
  locale gives its meaning. Both \<open>tcm_heap.c\<close> and \<open>heap_5.c\<close> interpret it.
\<close>

datatype heap_cmd = Malloc nat | Free nat | Write nat nat u8

type_synonym lives = "(nat \<times> nat) list"

fun heap_step ::
    "('s \<Rightarrow> nat \<Rightarrow> ('s \<times> nat) option) \<Rightarrow> ('s \<Rightarrow> nat \<Rightarrow> 's option) \<Rightarrow> ('s \<Rightarrow> nat \<Rightarrow> u8 \<Rightarrow> 's)
     \<Rightarrow> 's \<times> lives \<Rightarrow> heap_cmd \<Rightarrow> ('s \<times> lives) option" where
  "heap_step alloc free poke (s, L) (Malloc n) = do {
     (s', p) \<leftarrow> alloc s n;
     Some (s', if p = 0 then L else (p, n) # L) }"
| "heap_step alloc free poke (s, L) (Free i) =
     (if i < length L then do {
        s' \<leftarrow> free s (fst (L ! i));
        Some (s', take i L @ drop (Suc i) L) }
      else Some (s, L))"
| "heap_step alloc free poke (s, L) (Write i k b) =
     (if i < length L \<and> k < snd (L ! i) then Some (poke s (fst (L ! i) + k) b, L)
      else Some (s, L))"

fun heap_run ::
    "('s \<Rightarrow> nat \<Rightarrow> ('s \<times> nat) option) \<Rightarrow> ('s \<Rightarrow> nat \<Rightarrow> 's option) \<Rightarrow> ('s \<Rightarrow> nat \<Rightarrow> u8 \<Rightarrow> 's)
     \<Rightarrow> 's \<times> lives \<Rightarrow> heap_cmd list \<Rightarrow> ('s \<times> lives) option" where
  "heap_run alloc free poke c [] = Some c"
| "heap_run alloc free poke c (x # xs) = do {
     c' \<leftarrow> heap_step alloc free poke c x;
     heap_run alloc free poke c' xs }"

text \<open>Live blocks, as the client sees them, are pairwise disjoint.\<close>

definition payloads_disjoint :: "lives \<Rightarrow> bool" where
  "payloads_disjoint L \<longleftrightarrow>
     sorted_wrt (\<lambda>e f. {fst e..<fst e + snd e} \<inter> {fst f..<fst f + snd f} = {}) L"

text \<open>A command whose request is one the allocator promises to handle.\<close>

fun cmd_ok :: "(nat \<Rightarrow> bool) \<Rightarrow> heap_cmd \<Rightarrow> bool" where
  "cmd_ok req_ok (Malloc n) \<longleftrightarrow> req_ok n"
| "cmd_ok req_ok _ \<longleftrightarrow> True"

locale heap_allocator =
  fixes alloc :: "'s \<Rightarrow> nat \<Rightarrow> ('s \<times> nat) option"
    and free :: "'s \<Rightarrow> nat \<Rightarrow> 's option"
    and peek :: "'s \<Rightarrow> nat \<Rightarrow> u8"
    and poke :: "'s \<Rightarrow> nat \<Rightarrow> u8 \<Rightarrow> 's"
    and inv :: "'s \<Rightarrow> bool"
    and site :: "'s \<Rightarrow> 'c"
    and avail :: "'s \<Rightarrow> nat set"
    and meta :: "'s \<Rightarrow> nat set"
    and wf :: "'s \<Rightarrow> nat \<Rightarrow> bool"
    and blk :: "'s \<Rightarrow> nat \<Rightarrow> nat set"
    and hdr :: "nat \<Rightarrow> nat set"
    and req_ok :: "nat \<Rightarrow> bool"
  assumes alloc_ok: "inv s \<Longrightarrow> req_ok n \<Longrightarrow> \<exists>s' p. alloc s n = Some (s', p) \<and> inv s' \<and> site s' = site s
      \<and> (\<forall>x. x \<notin> meta s \<longrightarrow> peek s' x = peek s x)
      \<and> (p = 0 \<longrightarrow> avail s' = avail s \<and> meta s' = meta s)
      \<and> (p \<noteq> 0 \<longrightarrow> wf s' p \<and> {p..<p + n} \<subseteq> blk s' p \<and> blk s' p \<subseteq> avail s
          \<and> avail s' = avail s - blk s' p \<and> meta s' \<subseteq> meta s - blk s' p)"
    and free_ok: "inv s \<Longrightarrow> wf s p \<Longrightarrow> blk s p \<inter> meta s = {} \<Longrightarrow> p \<noteq> 0 \<Longrightarrow>
      \<exists>s'. free s p = Some s' \<and> inv s' \<and> site s' = site s
        \<and> (\<forall>x. x \<notin> meta s \<union> blk s p \<longrightarrow> peek s' x = peek s x)
        \<and> avail s' = avail s \<union> blk s p \<and> meta s' \<subseteq> meta s \<union> blk s p"
    and poke_ok: "inv s \<Longrightarrow> x \<notin> meta s \<Longrightarrow> inv (poke s x b) \<and> site (poke s x b) = site s
      \<and> avail (poke s x b) = avail s \<and> meta (poke s x b) = meta s
      \<and> peek (poke s x b) = (peek s)(x := b)"
    and blk_local: "wf s p \<Longrightarrow> site s' = site s \<Longrightarrow> (\<forall>x\<in>hdr p. peek s' x = peek s x) \<Longrightarrow>
      wf s' p \<and> blk s' p = blk s p"
    and hdr_blk: "wf s p \<Longrightarrow> hdr p \<subseteq> blk s p"
    and hdr_below: "x \<in> hdr p \<Longrightarrow> x < p"
    and avail_meta: "inv s \<Longrightarrow> avail s \<subseteq> meta s"
begin

definition live :: "'s \<Rightarrow> nat \<times> nat \<Rightarrow> bool" where
  "live s e \<longleftrightarrow> fst e \<noteq> 0 \<and> wf s (fst e) \<and> {fst e..<fst e + snd e} \<subseteq> blk s (fst e)
     \<and> blk s (fst e) \<inter> meta s = {}"

definition lives_ok :: "'s \<Rightarrow> lives \<Rightarrow> bool" where
  "lives_ok s L \<longleftrightarrow> (\<forall>e\<in>set L. live s e)
     \<and> sorted_wrt (\<lambda>e f. blk s (fst e) \<inter> blk s (fst f) = {}) L"

definition owned :: "'s \<Rightarrow> lives \<Rightarrow> nat set" where
  "owned s L = (\<Union>e\<in>set L. blk s (fst e))"

lemma lives_ok_Nil [simp]: "lives_ok s []"
  by (simp add: lives_ok_def)

lemma owned_simps [simp]:
  "owned s [] = {}" "owned s (e # L) = blk s (fst e) \<union> owned s L"
  "owned s (L @ M) = owned s L \<union> owned s M"
  by (auto simp: owned_def)

text \<open>A change of the state that leaves the headers of the live blocks alone and does not
  claim their bytes keeps them live.\<close>

lemma lives_ok_frame:
  assumes L: "lives_ok s L" and site: "site s' = site s"
    and hd: "\<And>e x. e \<in> set L \<Longrightarrow> x \<in> hdr (fst e) \<Longrightarrow> peek s' x = peek s x"
    and mt: "\<And>e. e \<in> set L \<Longrightarrow> blk s (fst e) \<inter> meta s' = {}"
  shows "lives_ok s' L \<and> owned s' L = owned s L"
proof -
  have same: "wf s' (fst e) \<and> blk s' (fst e) = blk s (fst e)" if "e \<in> set L" for e
    using L that site hd [OF that] by (intro blk_local) (auto simp: lives_ok_def live_def)
  have "live s' e" if "e \<in> set L" for e
    using L that same [OF that] mt [OF that] by (auto simp: lives_ok_def live_def)
  moreover have "sorted_wrt (\<lambda>e f. blk s' (fst e) \<inter> blk s' (fst f) = {}) L"
  proof -
    have "sorted_wrt (\<lambda>e f. blk s (fst e) \<inter> blk s (fst f) = {}) L"
      using L by (simp add: lives_ok_def)
    then show ?thesis by (rule sorted_wrt_mono_rel [rotated]) (simp add: same)
  qed
  ultimately show ?thesis using same by (auto simp: lives_ok_def owned_def)
qed

lemma payloads: "lives_ok s L \<Longrightarrow> payloads_disjoint L"
  unfolding payloads_disjoint_def lives_ok_def live_def
  by (elim conjE, erule sorted_wrt_mono_rel [rotated]) blast

lemma malloc_step:
  assumes "inv s" "lives_ok s L" "req_ok n"
  shows "\<exists>s' L'. heap_step alloc free poke (s, L) (Malloc n) = Some (s', L') \<and> inv s'
    \<and> site s' = site s \<and> lives_ok s' L' \<and> avail s' \<union> owned s' L' = avail s \<union> owned s L
    \<and> (\<forall>x\<in>owned s L. peek s' x = peek s x)"
proof -
  from alloc_ok [OF assms(1,3)] obtain s' p where a: "alloc s n = Some (s', p)" "inv s'"
    "site s' = site s"
    and fr: "\<forall>x. x \<notin> meta s \<longrightarrow> peek s' x = peek s x"
    and n: "p = 0 \<longrightarrow> avail s' = avail s \<and> meta s' = meta s"
    and b: "p \<noteq> 0 \<longrightarrow> wf s' p \<and> {p..<p + n} \<subseteq> blk s' p \<and> blk s' p \<subseteq> avail s
          \<and> avail s' = avail s - blk s' p \<and> meta s' \<subseteq> meta s - blk s' p" by blast
  have am: "avail s \<subseteq> meta s" by (rule avail_meta [OF assms(1)])
  have nm: "x \<notin> meta s" if "e \<in> set L" "x \<in> blk s (fst e)" for e x
    using assms(2) that by (auto simp: lives_ok_def live_def)
  have pk: "peek s' x = peek s x" if "x \<in> owned s L" for x
  proof -
    have "x \<notin> meta s" using that nm by (auto simp: owned_def)
    then show ?thesis using fr by blast
  qed
  have F: "lives_ok s' L \<and> owned s' L = owned s L"
  proof (rule lives_ok_frame [OF assms(2) a(3)])
    fix e x assume e: "e \<in> set L" "x \<in> hdr (fst e)"
    have "x \<in> blk s (fst e)"
      using hdr_blk [of s "fst e"] e assms(2) by (auto simp: lives_ok_def live_def)
    with e show "peek s' x = peek s x" by (intro pk) (auto simp: owned_def)
  next
    fix e assume "e \<in> set L"
    then show "blk s (fst e) \<inter> meta s' = {}"
      using nm n b by (cases "p = 0") blast+
  qed
  show ?thesis
  proof (cases "p = 0")
    case True
    with a F n pk show ?thesis by auto
  next
    case False
    with b have b': "wf s' p" "{p..<p + n} \<subseteq> blk s' p" "blk s' p \<subseteq> avail s"
      "avail s' = avail s - blk s' p" "meta s' \<subseteq> meta s - blk s' p" by auto
    have "blk s' p \<inter> blk s' (fst e) = {}" if "e \<in> set L" for e
    proof -
      have "blk s' (fst e) = blk s (fst e)"
      proof -
        have w: "wf s (fst e)" using assms(2) that by (auto simp: lives_ok_def live_def)
        have "\<forall>x\<in>hdr (fst e). peek s' x = peek s x"
          using hdr_blk [OF w] that pk unfolding owned_def by blast
        then show ?thesis using blk_local [OF w a(3)] by simp
      qed
      then show ?thesis using nm [OF that] b' am by blast
    qed
    then have "lives_ok s' ((p, n) # L)"
      using F b' False by (auto simp: lives_ok_def live_def)
    with a F False b' pk show ?thesis by auto
  qed
qed

lemma free_step:
  assumes "inv s" "lives_ok s L"
  shows "\<exists>s' L'. heap_step alloc free poke (s, L) (Free i) = Some (s', L') \<and> inv s'
    \<and> site s' = site s \<and> lives_ok s' L' \<and> avail s' \<union> owned s' L' = avail s \<union> owned s L
    \<and> (\<forall>x\<in>owned s' L'. peek s' x = peek s x)"
proof (cases "i < length L")
  case False
  with assms show ?thesis by auto
next
  case True
  define xs ys e where "xs = take i L" and "ys = drop (Suc i) L" and "e = L ! i"
  have L: "L = xs @ e # ys"
    using id_take_nth_drop [OF True] by (simp add: xs_def ys_def e_def)
  have le: "live s e" using assms(2) L by (simp add: lives_ok_def)
  then obtain s' where f: "free s (fst e) = Some s'" "inv s'" "site s' = site s"
    and fr: "\<forall>x. x \<notin> meta s \<union> blk s (fst e) \<longrightarrow> peek s' x = peek s x"
    and av: "avail s' = avail s \<union> blk s (fst e)" "meta s' \<subseteq> meta s \<union> blk s (fst e)"
    using free_ok [OF assms(1), of "fst e"] by (auto simp: live_def)
  have sub: "lives_ok s (xs @ ys)"
    using assms(2) by (simp add: L lives_ok_def sorted_wrt_append)
  have dj: "blk s (fst f) \<inter> (meta s \<union> blk s (fst e)) = {}" if "f \<in> set (xs @ ys)" for f
    using assms(2) that by (auto simp: L lives_ok_def live_def sorted_wrt_append)
  have pk: "peek s' x = peek s x" if "f \<in> set (xs @ ys)" "x \<in> blk s (fst f)" for f x
    using dj [OF that(1)] that(2) fr by blast
  have F: "lives_ok s' (xs @ ys) \<and> owned s' (xs @ ys) = owned s (xs @ ys)"
  proof (rule lives_ok_frame [OF sub f(3)])
    fix f x assume e: "f \<in> set (xs @ ys)" "x \<in> hdr (fst f)"
    then have "x \<in> blk s (fst f)"
      using hdr_blk [of s "fst f"] sub by (auto simp: lives_ok_def live_def)
    with e show "peek s' x = peek s x" by (intro pk)
  next
    fix f assume "f \<in> set (xs @ ys)"
    then show "blk s (fst f) \<inter> meta s' = {}" using dj av(2) by blast
  qed
  have pk2: "\<forall>x\<in>owned s' (xs @ ys). peek s' x = peek s x"
    using F pk by (auto simp: owned_def)
  have "heap_step alloc free poke (s, L) (Free i) = Some (s', xs @ ys)"
    using True f by (simp add: xs_def ys_def e_def)
  moreover have "avail s' \<union> owned s' (xs @ ys) = avail s \<union> owned s L"
    using F av by (auto simp: L)
  ultimately show ?thesis using F f pk2 by blast
qed

lemma write_step:
  assumes "inv s" "lives_ok s L"
  shows "\<exists>s'. heap_step alloc free poke (s, L) (Write i k b) = Some (s', L) \<and> inv s'
    \<and> site s' = site s \<and> lives_ok s' L \<and> avail s' \<union> owned s' L = avail s \<union> owned s L
    \<and> (i < length L \<longrightarrow> k < snd (L ! i) \<longrightarrow> peek s' = (peek s)(fst (L ! i) + k := b))"
proof (cases "i < length L \<and> k < snd (L ! i)")
  case False
  with assms show ?thesis by auto
next
  case True
  define e where "e = L ! i"
  have e: "e \<in> set L" "live s e"
    using True assms(2) by (auto simp: e_def lives_ok_def)
  let ?x = "fst e + k"
  have "?x \<in> blk s (fst e)"
    using e True by (auto simp: live_def e_def)
  with e have x: "?x \<in> blk s (fst e)" "?x \<notin> meta s"
    by (auto simp: live_def)
  note P = poke_ok [OF assms(1) x(2), of b]
  have own: "f = e \<or> blk s (fst f) \<inter> blk s (fst e) = {}" if f: "f \<in> set L" for f
  proof -
    obtain j where j: "j < length L" "f = L ! j" using f by (auto simp: in_set_conv_nth)
    have srt: "sorted_wrt (\<lambda>e f. blk s (fst e) \<inter> blk s (fst f) = {}) L"
      using assms(2) by (simp add: lives_ok_def)
    consider "i < j" | "j < i" | "i = j" by linarith
    then show ?thesis
    proof cases
      case 1
      then show ?thesis using sorted_wrt_nth_less [OF srt 1 j(1)] j e_def by auto
    next
      case 2
      then show ?thesis using sorted_wrt_nth_less [OF srt 2] True j e_def by auto
    next
      case 3
      then show ?thesis using j e_def by simp
    qed
  qed
  have F: "lives_ok (poke s ?x b) L \<and> owned (poke s ?x b) L = owned s L"
  proof (rule lives_ok_frame [OF assms(2)])
    show "site (poke s ?x b) = site s" using P by simp
  next
    fix f x assume f: "f \<in> set L" "x \<in> hdr (fst f)"
    have "wf s (fst f)" using f assms(2) by (auto simp: lives_ok_def live_def)
    then have "x \<in> blk s (fst f)" "x < fst f" using hdr_blk hdr_below f by blast+
    then have "x \<noteq> ?x" using own [OF f(1)] x(1) by auto
    with P show "peek (poke s ?x b) x = peek s x" by simp
  next
    fix f assume "f \<in> set L"
    then show "blk s (fst f) \<inter> meta (poke s ?x b) = {}"
      using P assms(2) by (auto simp: lives_ok_def live_def)
  qed
  with P True show ?thesis by (auto simp: e_def)
qed

lemma step_ok:
  "inv s \<Longrightarrow> lives_ok s L \<Longrightarrow> cmd_ok req_ok c \<Longrightarrow>
   \<exists>s' L'. heap_step alloc free poke (s, L) c = Some (s', L') \<and> inv s' \<and> site s' = site s
     \<and> lives_ok s' L' \<and> avail s' \<union> owned s' L' = avail s \<union> owned s L"
proof (cases c)
  case (Malloc n)
  assume a: "inv s" "lives_ok s L" "cmd_ok req_ok c"
  with Malloc show ?thesis using malloc_step [of s L n] by auto
next
  case (Free i)
  assume a: "inv s" "lives_ok s L" "cmd_ok req_ok c"
  with Free show ?thesis using free_step [of s L i] by blast
next
  case (Write i k b)
  assume a: "inv s" "lives_ok s L" "cmd_ok req_ok c"
  with Write show ?thesis using write_step [of s L i k b] by blast
qed

lemma run_ok:
  "inv s \<Longrightarrow> lives_ok s L \<Longrightarrow> list_all (cmd_ok req_ok) cs \<Longrightarrow>
   \<exists>s' L'. heap_run alloc free poke (s, L) cs = Some (s', L') \<and> inv s' \<and> site s' = site s
     \<and> lives_ok s' L' \<and> avail s' \<union> owned s' L' = avail s \<union> owned s L"
proof (induction cs arbitrary: s L)
  case (Cons c cs)
  then obtain s1 L1 where 1: "heap_step alloc free poke (s, L) c = Some (s1, L1)" "inv s1"
    "site s1 = site s" "lives_ok s1 L1" "avail s1 \<union> owned s1 L1 = avail s \<union> owned s L"
    using step_ok [of s L c] by auto
  with Cons.IH [of s1 L1] Cons.prems(3) show ?case by auto
qed simp

end

end
