(* ===== verification/TcmHeap.thy ===== *)
theory TcmHeap
  imports FreeList Allocator
begin

text \<open>
  \<open>component/os/os_dep/tcm_heap.c\<close>: the heap in tightly coupled memory, from which task
  stacks are taken. State: the memory (which holds the list head \<open>g_tcm_heap.FreeList\<close> and
  the buffer \<open>tcm_heap\<close>), the initialised flag, and the nesting depth of critical sections.
  The addresses of the two static objects are chosen by the linker; they are the fields
  \<open>p_heap\<close> and \<open>p_buf\<close> of the state.

  \<open>tcm_heap_allocmem\<close> leaves its critical section before it evaluates the pointer it
  returns, so its model has two parts: what happens inside the critical section
  (\<open>tcm_alloc_crit\<close>) and the evaluation of the return expression afterwards
  (\<open>tcm_alloc_ret\<close>); the function is their composition.
\<close>

record tcm =
  tmem :: mem
  p_heap :: nat
  p_buf :: nat
  g_heap_inited :: int
  crit :: nat
  ext_reg :: "(nat \<times> nat) option"

definition TCM_HEAP_SIZE :: nat where
  "TCM_HEAP_SIZE = 40 * 1024"

text \<open>\<open>sizeof(tcm_heap)\<close>: \<open>HEAP_DEFINE_BUF\<close> declares an array of 8-byte chunks.\<close>

definition tcm_heap_sizeof :: nat where
  "tcm_heap_sizeof = (TCM_HEAP_SIZE + 8 - 1) div 8 * 8"

definition ROUND_UP2 :: "int \<Rightarrow> 32 word \<Rightarrow> int" where
  "ROUND_UP2 x pad = s32 (unat ((word_of_int x + (pad - 1)) AND NOT (pad - 1)))"

text \<open>The fields of a \<open>MemChunk\<close>.\<close>

abbreviation chunk_next :: "mem \<Rightarrow> nat \<Rightarrow> nat" where
  "chunk_next m c \<equiv> ld32 m c"

abbreviation chunk_size :: "mem \<Rightarrow> nat \<Rightarrow> int" where
  "chunk_size m c \<equiv> ld_int m (c + 4)"

definition rtw_enter_critical :: "tcm \<Rightarrow> tcm" where
  "rtw_enter_critical st = st\<lparr>crit := crit st + 1\<rparr>"

definition rtw_exit_critical :: "tcm \<Rightarrow> tcm" where
  "rtw_exit_critical st = st\<lparr>crit := crit st - 1\<rparr>"

definition tcm_heap_init :: "tcm \<Rightarrow> tcm" where
  "tcm_heap_init st =
     (let m = st32 (tmem st) (p_heap st) (p_buf st);
          m = st32 m (ld32 m (p_heap st)) 0;
          m = st_int m (ld32 m (p_heap st) + 4) (int tcm_heap_sizeof)
      in st\<lparr>tmem := m, g_heap_inited := 1, ext_reg := Some (0x20000000, 0x1fff0000)\<rparr>)"

text \<open>The pointer a call will return, before its expression is evaluated.\<close>

datatype alloc_ret = RetNull | RetChunk nat | RetEnd nat

partial_function (option) alloc_walk ::
    "mem \<Rightarrow> nat \<Rightarrow> nat \<Rightarrow> int \<Rightarrow> (mem \<times> alloc_ret) option" where
  "alloc_walk m prev chunk sz =
     (if chunk = 0 then Some (m, RetNull)
      else if sz \<le> chunk_size m chunk then
        if chunk_size m chunk = sz then
          Some (st32 m prev (chunk_next m chunk), RetChunk chunk)
        else
          Some (st_int m (chunk + 4) (wrap32 (chunk_size m chunk - sz)), RetEnd chunk)
      else alloc_walk m chunk (chunk_next m chunk) sz)"

definition tcm_alloc_crit :: "tcm \<Rightarrow> int \<Rightarrow> (tcm \<times> alloc_ret) option" where
  "tcm_alloc_crit st sz = do {
     let st = rtw_enter_critical st;
     let st = (if g_heap_inited st = 0 then tcm_heap_init st else st);
     let sz = ROUND_UP2 sz 8;
     let sz = (if sz = 0 then 8 else sz);
     (m, r) \<leftarrow> alloc_walk (tmem st) (p_heap st) (ld32 (tmem st) (p_heap st)) sz;
     Some (rtw_exit_critical (st\<lparr>tmem := m\<rparr>), r)
   }"

fun tcm_alloc_ret :: "tcm \<Rightarrow> alloc_ret \<Rightarrow> nat" where
  "tcm_alloc_ret st RetNull = 0"
| "tcm_alloc_ret st (RetChunk c) = c"
| "tcm_alloc_ret st (RetEnd c) = ptr_add c (chunk_size (tmem st) c)"

definition tcm_heap_allocmem :: "tcm \<Rightarrow> int \<Rightarrow> (tcm \<times> nat) option" where
  "tcm_heap_allocmem st sz = do {
     (st, r) \<leftarrow> tcm_alloc_crit st sz;
     Some (st, tcm_alloc_ret st r)
   }"

partial_function (option) free_walk :: "mem \<Rightarrow> nat \<Rightarrow> nat \<Rightarrow> nat option" where
  "free_walk m prev p =
     (if chunk_next m prev < p \<and> chunk_next m prev \<noteq> 0
      then free_walk m (chunk_next m prev) p else Some prev)"

definition tcm_heap_freemem :: "tcm \<Rightarrow> nat \<Rightarrow> int \<Rightarrow> tcm option" where
  "tcm_heap_freemem st p sz = do {
     let st = rtw_enter_critical st;
     let st = (if g_heap_inited st = 0 then tcm_heap_init st else st);
     let sz = ROUND_UP2 sz 8;
     let sz = (if sz = 0 then 8 else sz);
     let m = tmem st;
     let FreeList = ld32 m (p_heap st);
     (m, prev) \<leftarrow>
       (if p < FreeList \<or> FreeList = 0 then
          Some (st32 (st_int (st32 m p FreeList) (p + 4) sz) (p_heap st) p, p)
        else do {
          prev \<leftarrow> free_walk m FreeList p;
          if ptr_add prev (chunk_size m prev) = p then
            Some (st_int m (prev + 4) (wrap32 (chunk_size m prev + sz)), prev)
          else
            Some (st32 (st_int (st32 m p (chunk_next m prev)) (p + 4) sz) prev p, p)
        });
     let m = (if ptr_add prev (chunk_size m prev) = chunk_next m prev then
                let m = st_int m (prev + 4)
                          (wrap32 (chunk_size m prev + chunk_size m (chunk_next m prev)))
                in st32 m prev (chunk_next m (chunk_next m prev))
              else m);
     Some (rtw_exit_critical (st\<lparr>tmem := m\<rparr>))
   }"

partial_function (option) space_walk :: "mem \<Rightarrow> nat \<Rightarrow> int \<Rightarrow> int option" where
  "space_walk m chunk free_mem =
     (if chunk = 0 then Some free_mem
      else space_walk m (chunk_next m chunk) (wrap32 (free_mem + chunk_size m chunk)))"

definition tcm_heap_freeSpace :: "tcm \<Rightarrow> (tcm \<times> int) option" where
  "tcm_heap_freeSpace st = do {
     let st = rtw_enter_critical st;
     let st = (if g_heap_inited st = 0 then tcm_heap_init st else st);
     n \<leftarrow> space_walk (tmem st) (ld32 (tmem st) (p_heap st)) 0;
     Some (rtw_exit_critical st, n)
   }"

definition tcm_heap_malloc :: "tcm \<Rightarrow> int \<Rightarrow> (tcm \<times> nat) option" where
  "tcm_heap_malloc st sz = do {
     let sz = wrap32 (sz + 4);
     (st, p) \<leftarrow> tcm_heap_allocmem st sz;
     if p \<noteq> 0 then Some (st\<lparr>tmem := st_int (tmem st) p sz\<rparr>, p + 4)
     else Some (st, 0)
   }"

definition tcm_heap_calloc :: "tcm \<Rightarrow> int \<Rightarrow> (tcm \<times> nat) option" where
  "tcm_heap_calloc st sz = do {
     (st, p) \<leftarrow> tcm_heap_malloc st sz;
     if p \<noteq> 0 then Some (st\<lparr>tmem := mem_set (tmem st) p 0 (u32 sz)\<rparr>, p)
     else Some (st, 0)
   }"

definition tcm_heap_free :: "tcm \<Rightarrow> nat \<Rightarrow> tcm option" where
  "tcm_heap_free st p =
     (if p \<noteq> 0 then tcm_heap_freemem st (p - 4) (ld_int (tmem st) (p - 4)) else Some st)"

section \<open>The walk over the free list implements \<open>fl_alloc\<close>\<close>

definition small :: "block list \<Rightarrow> bool" where
  "small bs \<longleftrightarrow> (\<forall>(a, s)\<in>set bs. s < 2 ^ 31)"

lemma small_simps [simp]:
  "small []" "small ((a, s) # bs) \<longleftrightarrow> s < 2147483648 \<and> small bs"
  by (auto simp: small_def)

definition away :: "nat \<Rightarrow> nat \<Rightarrow> nat \<Rightarrow> bool" where
  "away q lo hi \<longleftrightarrow> q + 4 \<le> lo \<or> hi \<le> q"

lemma away_headers: "away q lo hi \<Longrightarrow> fl lo bs hi \<Longrightarrow> {q..<q + 4} \<inter> headers bs = {}"
  using fl_headers [of lo bs hi] by (fastforce simp: away_def)

lemma away_step: "away q lo hi \<Longrightarrow> lo \<le> a \<Longrightarrow> a + ext s \<le> hi \<Longrightarrow> q + 4 \<le> a \<or> a + 8 \<le> q"
  by (auto simp: away_def)

lemma alloc_walk_refines:
  assumes "chain m c bs 0" "fl lo bs hi" "ld32 m prev = c" "away prev lo hi"
    "hi < 2 ^ 32" "0 < lo" "sized bs" "small bs" "0 < n"
  shows "case fl_alloc n bs of
      None \<Rightarrow> alloc_walk m prev c (int n) = Some (m, RetNull)
    | Some (p, cs) \<Rightarrow> \<exists>m' r. alloc_walk m prev c (int n) = Some (m', r)
        \<and> chain m' (ld32 m' prev) cs 0 \<and> same_outside ({prev..<prev + 4} \<union> headers bs) m m'
        \<and> (r = RetChunk p \<or> (\<exists>e. r = RetEnd e \<and> ptr_add e (chunk_size m' e) = p))"
  using assms
proof (induction bs arbitrary: prev c lo)
  case Nil
  then show ?case by (simp add: alloc_walk.simps)
next
  case (Cons b bs)
  obtain a s where b: "b = (a, s)" by (cases b)
  note p = Cons.prems [unfolded b]
  from p have c: "c = a" and sz: "ld32 m (a + 4) = s" and ch: "chain m (ld32 m a) bs 0"
    and lo: "lo \<le> a" and fl: "fl (a + ext s) bs hi" and a0: "a \<noteq> 0"
    and s: "8 \<le> s" "s < 2147483648" by auto
  have cs: "chunk_size m a = int s" using sz s by (simp add: ld_int_def)
  have le: "a + s \<le> hi" using fl_le [OF fl] by simp
  have aw: "prev + 4 \<le> a \<or> a + 8 \<le> prev"
    using away_step [OF p(4) lo] fl_le [OF fl] by simp
  have hd: "{prev..<prev + 4} \<inter> headers bs = {}"
    using away_headers [OF p(4), of "(a, s) # bs"] p(2) by auto
  note unf = alloc_walk.simps [of m prev a "int n"]
  show ?case
  proof (cases "n \<le> s")
    case True
    show ?thesis
    proof (cases "s = n")
      case eq: True
      have "chain (st32 m prev (ld32 m a)) (ld32 m a) bs 0"
        using ch hd by (simp add: chain_st32)
      then show ?thesis using eq True a0 cs c b
        by (auto simp: unf)
    next
      case ne: False
      let ?m = "st_int m (a + 4) (int s - int n)"
      have st: "?m = st32 m (a + 4) (s - n)"
        using True s by (simp add: st_int_def flip: of_nat_diff)
      have "{a + 4..<a + 4 + 4} \<inter> headers bs = {}"
        using fl_headers [OF fl] by fastforce
      then have "chain ?m (ld32 m a) bs 0"
        using ch by (simp add: st chain_st32)
      moreover have "ld32 ?m prev = a" using aw p(3) c
        by (simp add: st) (subst ld32_st32_other; auto)
      moreover have "ld32 ?m a = ld32 m a" by (simp add: st ld32_st32_other)
      moreover have "ld32 ?m (a + 4) = s - n" using s by (simp add: st)
      moreover from this have "ptr_add a (chunk_size ?m a) = a + (s - n)"
        using s le p(5) by (simp add: ld_int_def)
      moreover have "wrap32 (int s - int n) = int s - int n" using s True by simp
      ultimately show ?thesis using ne True a0 cs c b
        by (auto simp: unf)
    qed
  next
    case False
    then have step: "alloc_walk m prev a (int n) = alloc_walk m a (ld32 m a) (int n)"
      using cs a0 by (simp add: unf)
    have IH: "case fl_alloc n bs of
      None \<Rightarrow> alloc_walk m a (ld32 m a) (int n) = Some (m, RetNull)
    | Some (p, cs) \<Rightarrow> \<exists>m' r. alloc_walk m a (ld32 m a) (int n) = Some (m', r)
        \<and> chain m' (ld32 m' a) cs 0 \<and> same_outside ({a..<a + 4} \<union> headers bs) m m'
        \<and> (r = RetChunk p \<or> (\<exists>e. r = RetEnd e \<and> ptr_add e (chunk_size m' e) = p))"
      by (rule Cons.IH [OF ch fl refl]) (use p a0 in \<open>auto simp: away_def\<close>)
    show ?thesis
    proof (cases "fl_alloc n bs")
      case None
      with IH False step c b show ?thesis by simp
    next
      case (Some pc)
      then obtain q ds where q: "fl_alloc n bs = Some (q, ds)" by (cases pc) auto
      with IH obtain m' r where m': "alloc_walk m a (ld32 m a) (int n) = Some (m', r)"
        "chain m' (ld32 m' a) ds 0" "same_outside ({a..<a + 4} \<union> headers bs) m m'"
        "r = RetChunk q \<or> (\<exists>e. r = RetEnd e \<and> ptr_add e (chunk_size m' e) = q)" by auto
      have "{prev..<prev + 4} \<inter> ({a..<a + 4} \<union> headers bs) = {}"
        using hd aw by (auto simp: Int_Un_distrib)
      then have "ld32 m' prev = a"
        using ld32_frame [OF m'(3), of prev] p(3) c by simp
      moreover have "ld32 m' (a + 4) = s"
        using ld32_frame [OF m'(3), of "a + 4"] fl_headers [OF fl] sz by fastforce
      moreover have "same_outside ({prev..<prev + 4} \<union> headers ((a, s) # bs)) m m'"
        using m'(3) by (rule same_outside_mono) auto
      ultimately show ?thesis using m' q False step c b by auto
    qed
  qed
qed


section \<open>Giving a block back implements \<open>fl_insert\<close>\<close>

lemma free_walk_finds:
  "chain m a ((a, s) # bs) 0 \<Longrightarrow> fl lo ((a, s) # bs) hi \<Longrightarrow> 0 < lo \<Longrightarrow> a < p \<Longrightarrow>
   \<exists>xs q t ys. (a, s) # bs = xs @ (q, t) # ys \<and> free_walk m a p = Some q \<and> q < p
     \<and> (\<forall>b u zs. ys = (b, u) # zs \<longrightarrow> p \<le> b)"
proof (induction bs arbitrary: a s lo)
  case Nil
  then show ?case
    by (intro exI [of _ "[]"] exI [of _ a] exI [of _ s]) (simp add: free_walk.simps [of m a p])
next
  case (Cons b bs)
  obtain x u where b: "b = (x, u)" by (cases b)
  have nx: "ld32 m a = x" "x \<noteq> 0" using Cons.prems b by auto
  show ?case
  proof (cases "x < p")
    case True
    have "\<exists>xs q t ys. (x, u) # bs = xs @ (q, t) # ys \<and> free_walk m x p = Some q \<and> q < p
       \<and> (\<forall>b u zs. ys = (b, u) # zs \<longrightarrow> p \<le> b)"
      using Cons.prems b nx True by (intro Cons.IH [where lo = "a + ext s"]) auto
    then obtain xs q t ys where "(x, u) # bs = xs @ (q, t) # ys" "free_walk m x p = Some q"
      "q < p" "\<forall>b u zs. ys = (b, u) # zs \<longrightarrow> p \<le> b" by blast
    with nx True b show ?thesis
      by (intro exI [of _ "(a, s) # xs"] exI [of _ q] exI [of _ t] exI [of _ ys])
        (simp add: free_walk.simps [of m a p])
  next
    case False
    with nx Cons.prems b show ?thesis
      by (intro exI [of _ "[]"] exI [of _ a] exI [of _ s] exI [of _ "b # bs"])
        (simp add: free_walk.simps [of m a p])
  qed
qed

definition merge_next :: "mem \<Rightarrow> nat \<Rightarrow> mem" where
  "merge_next m prev = (if ptr_add prev (chunk_size m prev) = chunk_next m prev then
     let m = st_int m (prev + 4) (wrap32 (chunk_size m prev + chunk_size m (chunk_next m prev)))
     in st32 m prev (chunk_next m (chunk_next m prev))
   else m)"

lemma merge_next_glue:
  assumes "chain m r ((r, k) # ys) 0" "fl r ((r, k) # ys) hi" "hi < 2 ^ 31 + r" "0 < r"
    "hi < 2 ^ 32" "8 \<le> k"
  shows "chain (merge_next m r) r (glue (r, k) ys) 0 \<and> same_outside {r..<r + 8} m (merge_next m r)"
proof -
  have le: "r + k \<le> hi" using assms(2) fl_le [of "r + ext k" ys hi] by simp
  have k: "chunk_size m r = int k" using assms le by (simp add: ld_int_def)
  have nx: "ptr_add r (chunk_size m r) = r + k" using k le assms(5) by simp
  show ?thesis
  proof (cases ys)
    case Nil
    with assms nx show ?thesis by (auto simp: merge_next_def)
  next
    case (Cons b zs)
    obtain a u where b: "b = (a, u)" by (cases b)
    show ?thesis
    proof (cases "r + k = a")
      case False
      with assms nx Cons b show ?thesis by (simp add: merge_next_def)
    next
      case True
      have flz: "fl (a + ext u) zs hi" and lu: "a + ext u \<le> hi"
        using assms(2) Cons b fl_le [of "a + ext u" zs hi] by auto
      have na: "ld32 m r = a" "ld32 m (a + 4) = u" "chain m (ld32 m a) zs 0"
        using assms(1) Cons b by auto
      have u: "chunk_size m a = int u" using na lu True assms by (simp add: ld_int_def)
      let ?m1 = "st_int m (r + 4) (int k + int u)"
      have m1: "?m1 = st32 m (r + 4) (k + u)"
          using True lu assms(3,5) by (simp add: st_int_def flip: of_nat_add)
      have w: "wrap32 (int k + int u) = int (k + u)"
        using True lu assms(3) by simp
      have "ld32 ?m1 r = a" using na by (simp add: m1 ld32_st32_other)
      moreover have "ld32 ?m1 a = ld32 m a"
        using True assms(6) by (simp add: m1 ld32_st32_other)
      ultimately have mn: "merge_next m r = st32 ?m1 r (ld32 m a)"
        using nx na True k u w by (simp add: merge_next_def)
      have so: "same_outside {r..<r + 8} m (merge_next m r)"
        by (auto simp: mn m1 same_outside_def st32_other)
      have "ld32 (merge_next m r) r = ld32 m a"
        "ld32 (merge_next m r) (r + 4) = k + u"
        using True lu assms(3) le assms(5) by (simp_all add: mn m1 ld32_st32_other)
      moreover have "headers zs \<inter> {r..<r + 8} = {}"
        using fl_headers [OF flz] True assms(6) by fastforce
      then have "chain (merge_next m r) (ld32 m a) zs 0"
        using chain_frame [OF so] na by simp
      ultimately show ?thesis using so True Cons b by simp
    qed
  qed
qed


definition free_link :: "mem \<Rightarrow> nat \<Rightarrow> nat \<Rightarrow> int \<Rightarrow> (mem \<times> nat) option" where
  "free_link m h p sz =
     (if p < ld32 m h \<or> ld32 m h = 0 then
        Some (st32 (st_int (st32 m p (ld32 m h)) (p + 4) sz) h p, p)
      else do {
        prev \<leftarrow> free_walk m (ld32 m h) p;
        if ptr_add prev (chunk_size m prev) = p then
          Some (st_int m (prev + 4) (wrap32 (chunk_size m prev + sz)), prev)
        else
          Some (st32 (st_int (st32 m p (chunk_next m prev)) (p + 4) sz) prev p, p)
      })"

text \<open>Linking a new node \<open>p\<close> in front of the list that starts at \<open>c\<close>, behind the pointer
  at \<open>q\<close>.\<close>

lemma link_node:
  assumes ch: "chain m c bs 0" and hb: "headers bs \<inter> ({p..<p + 8} \<union> {q..<q + 4}) = {}"
    and q: "q + 4 \<le> p \<or> p + 8 \<le> q" and n: "n < 2 ^ 31" and p: "p < 2 ^ 32" and c: "c < 2 ^ 32"
  defines "m' \<equiv> st32 (st_int (st32 m p c) (p + 4) (int n)) q p"
  shows "chain m' (ld32 m' q) ((p, n) # bs) 0 \<and> same_outside ({p..<p + 8} \<union> {q..<q + 4}) m m'"
proof -
  have so: "same_outside ({p..<p + 8} \<union> {q..<q + 4}) m m'"
    by (auto simp: m'_def st_int_def same_outside_def st32_other)
  have "ld32 m' q = p" using p by (simp add: m'_def)
  moreover have "ld32 m' p = c" using q c
    by (auto simp: m'_def st_int_def ld32_st32_other)
  moreover have "ld32 m' (p + 4) = n" using q n
    by (auto simp: m'_def st_int_def ld32_st32_other)
  moreover have "chain m' c bs 0" using chain_frame [OF so hb] ch by simp
  ultimately show ?thesis using so by simp
qed

lemma free_link_refines:
  assumes ch: "chain m (ld32 m h) bs 0" and fl: "fl lo bs hi" and hi: "hi < 2 ^ 32" "0 < lo"
    and hi2: "hi < 2 ^ 31 + lo"
    and aw: "away h lo hi" and sd: "sized bs"
    and p: "lo \<le> p" "p + n \<le> hi" "8 \<le> n" "{p..<p + n} \<inter> extents bs = {}"
  shows "\<exists>m' r k xs ys. free_link m h p (int n) = Some (m', r)
    \<and> chain m' (ld32 m' h) (xs @ (r, k) # ys) 0 \<and> fl lo (xs @ (r, k) # ys) hi
    \<and> fl_insert (p, n) bs = xs @ glue (r, k) ys \<and> 8 \<le> k \<and> {r..<r + 8} \<subseteq> {p..<p + 8} \<union> headers bs
    \<and> same_outside ({h..<h + 4} \<union> headers bs \<union> {p..<p + 8}) m m'"
proof -
  let ?F = "{h..<h + 4} \<union> headers bs \<union> {p..<p + 8}"
  have hp: "h + 4 \<le> p \<or> p + 8 \<le> h" using aw p by (auto simp: away_def)
  have hh: "{h..<h + 4} \<inter> headers bs = {}" by (rule away_headers [OF aw fl])
  have "{p..<p + 8} \<subseteq> {p..<p + n}" using p(3) by auto
  then have ph: "{p..<p + 8} \<inter> headers bs = {}"
    using p(4) headers_extents [of bs] by blast
  show ?thesis
  proof (cases "p < ld32 m h \<or> ld32 m h = 0")
    case True
    have lt: "\<forall>b u zs. bs = (b, u) # zs \<longrightarrow> p < b"
      using True ch fl hi(2) by (cases bs) auto
    let ?m = "st32 (st_int (st32 m p (ld32 m h)) (p + 4) (int n)) h p"
    have L: "chain ?m (ld32 ?m h) ((p, n) # bs) 0
        \<and> same_outside ({p..<p + 8} \<union> {h..<h + 4}) m ?m"
      by (rule link_node [OF ch]) (use hh ph hp p hi hi2 in \<open>auto simp: Int_commute\<close>)
    have "fl p ((p, n) # bs) hi"
    proof (cases bs)
      case (Cons b zs)
      obtain x u where b: "b = (x, u)" by (cases b)
      have "x \<in> extents bs" using Cons b by (simp add: max_def)
      then have "x \<notin> {p..<p + n}" using p(4) by blast
      with lt Cons b fl p(3) show ?thesis by auto
    qed (use p in auto)
    then have "fl lo ([] @ (p, n) # bs) hi" using p by auto
    moreover have "fl_insert (p, n) bs = [] @ glue (p, n) bs"
      using lt by (simp add: fl_insert_before)
    moreover have "same_outside ?F m ?m"
      using L by (auto elim!: same_outside_mono)
    ultimately show ?thesis using True L p(3)
      by (intro exI [of _ ?m] exI [of _ p] exI [of _ n] exI [of _ "[]"] exI [of _ bs])
        (auto simp: free_link_def)
  next
    case False
    then obtain a s cs where bs: "bs = (a, s) # cs" and a: "ld32 m h = a" "a \<le> p"
      using ch by (cases bs) auto
    have "a \<noteq> p"
    proof
      assume "a = p"
      then have "p \<in> extents bs" "p \<in> {p..<p + n}" using bs p(3) by (auto simp: max_def)
      with p(4) show False by blast
    qed
    with a have "a < p" by simp
    with free_walk_finds [of m a s cs lo hi p] ch fl hi bs a obtain xs q t ys
      where split: "bs = xs @ (q, t) # ys" and w: "free_walk m a p = Some q" and qp: "q < p"
        and after: "\<forall>b u zs. ys = (b, u) # zs \<longrightarrow> p \<le> b" by auto
    have after': "\<forall>b u zs. ys = (b, u) # zs \<longrightarrow> p + n \<le> b"
    proof (intro allI impI)
      fix b u zs assume e: "ys = (b, u) # zs"
      then have "b \<in> extents bs" using split by (simp add: max_def)
      then have "b \<notin> {p..<p + n}" using p(4) by blast
      with after e show "p + n \<le> b" by auto
    qed
    then have after2: "\<forall>b u zs. ys = (b, u) # zs \<longrightarrow> p < b" using p(3) by fastforce
    from fl split have flq: "fl lo xs q" "fl (q + ext t) ys hi" by (auto simp: fl_append)
    have "8 \<le> t" using sd split by (auto simp: sized_def)
    have "{p..<p + n} \<inter> {q..<q + ext t} = {}" using p(4) split by (auto simp: Int_Un_distrib)
    then have "p \<notin> {q..<q + ext t}" using p(3) by (metis IntI atLeastLessThan_iff empty_iff less_add_same_cancel1 le_refl less_le_trans zero_less_numeral)
    with qp have qt: "q + t \<le> p" by (simp add: max_def split: if_splits)
    have chq: "chain m (ld32 m h) xs q" and ldq: "ld32 m (q + 4) = t" and chy: "chain m (ld32 m q) ys 0"
      using ch split by (auto simp: chain_append)
    have cq: "chunk_size m q = int t" "ptr_add q (chunk_size m q) = q + t"
      using ldq qt p hi hi2 fl_le [OF flq(1)] by (auto simp: ld_int_def)
    have ins: "fl_insert (p, n) bs
        = xs @ (if q + t = p then glue (q, t + n) ys else (q, t) # glue (p, n) ys)"
      unfolding split by (rule fl_insert_at [OF _ qp after2]) (use fl split in auto)
    have ys: "headers ys \<inter> {p..<p + 8} = {}" "headers xs \<inter> {p..<p + 8} = {}"
      using ph split by auto
    have disj: "headers xs \<inter> {q..<q + 8} = {}" "headers ys \<inter> {q..<q + 8} = {}"
      using fl_headers [OF flq(1)] fl_headers [OF flq(2)] by fastforce+
    show ?thesis
    proof (cases "q + t = p")
      case True
      let ?m = "st_int m (q + 4) (wrap32 (chunk_size m q + int n))"
      have e: "?m = st32 m (q + 4) (t + n)"
        using True p hi2 cq fl_le [OF flq(1)] by (simp add: st_int_def flip: of_nat_add)
      have so: "same_outside {q..<q + 8} m ?m" by (auto simp: e same_outside_def st32_other)
      have "chain ?m q ((q, t + n) # ys) 0"
        using True p hi chy chain_frame [OF so disj(2)]
        by (simp add: e ld32_st32_other)
      moreover have "chain ?m (ld32 m h) xs q" using chq chain_frame [OF so disj(1)] by simp
      moreover have "{h..<h + 4} \<inter> {q..<q + 8} = {}" using hh split by (simp add: Int_Un_distrib)
      then have "ld32 ?m h = ld32 m h" by (rule ld32_frame [OF so])
      moreover have "fl lo (xs @ (q, t + n) # ys) hi"
      proof -
        have "fl (p + n) ys hi"
          using flq after' True p(2) \<open>8 \<le> t\<close> by (cases ys) auto
        moreover have "q + (t + n) = p + n" using True by simp
        ultimately have "fl (q + (t + n)) ys hi" by (simp only:)
        then show ?thesis using flq \<open>8 \<le> t\<close> by (simp add: fl_append)
      qed
      moreover have "same_outside ?F m ?m" using so by (rule same_outside_mono) (use split in auto)
      moreover have "free_link m h p (int n) = Some (?m, q)"
        using False w a cq True by (simp add: free_link_def)
      ultimately show ?thesis using ins True \<open>8 \<le> t\<close> split
        by (intro exI [of _ ?m] exI [of _ q] exI [of _ "t + n"] exI [of _ xs] exI [of _ ys])
          (auto simp: chain_append)
    next
      case ne: False
      let ?m = "st32 (st_int (st32 m p (ld32 m q)) (p + 4) (int n)) q p"
      have L: "chain ?m (ld32 ?m q) ((p, n) # ys) 0
          \<and> same_outside ({p..<p + 8} \<union> {q..<q + 4}) m ?m"
        by (rule link_node [OF chy])
          (use ys disj qt \<open>8 \<le> t\<close> p hi hi2 in \<open>auto simp: Int_Un_distrib\<close>)
      then have so: "same_outside ({p..<p + 8} \<union> {q..<q + 4}) m ?m" by simp
      have "headers xs \<inter> ({p..<p + 8} \<union> {q..<q + 4}) = {}" using ys disj by auto
      then have "chain ?m (ld32 m h) xs q" using chq chain_frame [OF so] by simp
      moreover have "{h..<h + 4} \<inter> {q..<q + 8} = {}" using hh split by (simp add: Int_Un_distrib)
      then have "{h..<h + 4} \<inter> ({p..<p + 8} \<union> {q..<q + 4}) = {}"
        using hp by (auto simp: Int_Un_distrib)
      then have "ld32 ?m h = ld32 m h" by (rule ld32_frame [OF so])
      moreover have "ld32 ?m (q + 4) = t"
        using ldq qt \<open>8 \<le> t\<close> ld32_frame [OF so, of "q + 4"] by fastforce
      moreover have "fl lo (xs @ (q, t) # (p, n) # ys) hi"
      proof -
        have "fl (p + n) ys hi" using flq after' p(2) by (cases ys) auto
        then show ?thesis using flq qt \<open>8 \<le> t\<close> p(3) by (simp add: fl_append)
      qed
      moreover have "same_outside ?F m ?m" using so by (rule same_outside_mono) (use split in auto)
      moreover have "free_link m h p (int n) = Some (?m, p)"
        using False w a cq ne by (simp add: free_link_def)
      ultimately show ?thesis using ins ne L p(3)
        by (intro exI [of _ ?m] exI [of _ p] exI [of _ n] exI [of _ "xs @ [(q, t)]"] exI [of _ ys])
          (auto simp: chain_append)
    qed
  qed
qed

section \<open>The state invariant\<close>

text \<open>Where the linker put the two objects: the buffer is not at address 0, it does not
  wrap around the address space, and the list head is outside it.\<close>

definition tcm_layout :: "tcm \<Rightarrow> bool" where
  "tcm_layout st \<longleftrightarrow> 0 < p_buf st \<and> p_buf st + tcm_heap_sizeof < 2 ^ 32
     \<and> away (p_heap st) (p_buf st) (p_buf st + tcm_heap_sizeof)"

abbreviation tcm_end :: "tcm \<Rightarrow> nat" where
  "tcm_end st \<equiv> p_buf st + tcm_heap_sizeof"

definition tcm_rep :: "tcm \<Rightarrow> block list \<Rightarrow> bool" where
  "tcm_rep st bs \<longleftrightarrow> g_heap_inited st \<noteq> 0 \<and> tcm_layout st
     \<and> chain (tmem st) (ld32 (tmem st) (p_heap st)) bs 0
     \<and> fl (p_buf st) bs (tcm_end st) \<and> sized bs \<and> coalesced bs"

definition rup :: "nat \<Rightarrow> nat" where
  "rup k = (if k = 0 then 8 else (k + 7) div 8 * 8)"

lemma rup_props: "8 dvd rup k" "8 \<le> rup k" "k \<le> rup k" "rup k \<le> k + 8"
  by (simp_all add: rup_def) presburger+

lemma ROUND_UP2_8: "k + 7 < 2 ^ 31 \<Longrightarrow> ROUND_UP2 (int k) 8 = int ((k + 7) div 8 * 8)"
proof -
  assume k: "k + 7 < 2 ^ 31"
  have w: "(word_of_int (int k) + (8 - 1) :: 32 word) = word_of_nat (k + 7)" by simp
  have "unat (word_of_nat (k + 7) :: 32 word) = k + 7"
    by (simp only: unat_of_nat) (use k in simp)
  then have "unat ((word_of_nat (k + 7) :: 32 word) AND NOT 7) = (k + 7) div 8 * 8"
    by (simp only: and_not7_word)
  moreover have "(8 - 1 :: 32 word) = 7" by simp
  ultimately have "ROUND_UP2 (int k) 8 = s32 ((k + 7) div 8 * 8)"
    unfolding ROUND_UP2_def w by (simp only:)
  moreover have "(k + 7) div 8 * 8 \<le> k + 7" by simp
  ultimately show ?thesis using k by (simp del: times_div_less_eq_dividend)
qed

lemma rounded: "k + 7 < 2 ^ 31 \<Longrightarrow>
    (if ROUND_UP2 (int k) 8 = 0 then 8 else ROUND_UP2 (int k) 8) = int (rup k)"
  by (auto simp: ROUND_UP2_8 rup_def)

lemma tcm_rep_small: "tcm_rep st bs \<Longrightarrow> small bs"
proof -
  assume r: "tcm_rep st bs"
  have "s < 2 ^ 31" if "(a, s) \<in> set bs" for a s
    using fl_starts [of "p_buf st" bs "tcm_end st", OF _ that] r
    by (auto simp: tcm_rep_def tcm_heap_sizeof_def TCM_HEAP_SIZE_def)
  then show ?thesis by (auto simp: small_def)
qed

lemma layout_update [simp]: "tcm_layout (st\<lparr>tmem := m\<rparr>) \<longleftrightarrow> tcm_layout st"
  by (simp add: tcm_layout_def)

lemma tcm_init_rep:
  assumes "tcm_layout st"
  shows "tcm_rep (tcm_heap_init st) [(p_buf st, tcm_heap_sizeof)]"
proof -
  let ?h = "p_heap st" and ?b = "p_buf st"
  have aw: "?h + 4 \<le> ?b \<or> ?b + 8 \<le> ?h" "?b < 2 ^ 32"
    using assms by (auto simp: tcm_layout_def away_def tcm_heap_sizeof_def TCM_HEAP_SIZE_def)
  let ?m1 = "st32 (tmem st) ?h ?b"
  let ?m2 = "st32 ?m1 ?b 0"
  let ?m3 = "st_int ?m2 (?b + 4) (int tcm_heap_sizeof)"
  have 1: "ld32 ?m1 ?h = ?b" using aw by simp
  have 2: "ld32 ?m2 ?h = ?b" using aw 1 by (subst ld32_st32_other) auto
  have m: "tmem (tcm_heap_init st) = ?m3"
    by (simp only: tcm_heap_init_def Let_def 1 2 tcm.simps) simp
  have 3: "ld32 ?m3 ?h = ?b" using aw 2 by (subst ld32_st_int_other) auto
  have 4: "ld32 ?m3 ?b = 0" by (subst ld32_st_int_other) auto
  have 5: "ld32 ?m3 (?b + 4) = tcm_heap_sizeof"
    by (simp add: ld32_st_int tcm_heap_sizeof_def TCM_HEAP_SIZE_def u32_def)
  have "p_heap (tcm_heap_init st) = ?h" "p_buf (tcm_heap_init st) = ?b"
    "g_heap_inited (tcm_heap_init st) = 1"
    by (simp_all add: tcm_heap_init_def Let_def)
  moreover from this assms have "tcm_layout (tcm_heap_init st)" by (simp add: tcm_layout_def)
  ultimately show ?thesis
    unfolding tcm_rep_def m
    by (simp add: 3 4 5, simp add: tcm_heap_sizeof_def TCM_HEAP_SIZE_def)
qed

section \<open>The operations on the abstract free list\<close>

lemma tcm_heap_allocmem_refines:
  assumes rep: "tcm_rep st bs" and k: "k + 7 < 2 ^ 31"
  shows "case fl_alloc (rup k) bs of
      None \<Rightarrow> tcm_heap_allocmem st (int k) = Some (st, 0)
    | Some (p, cs) \<Rightarrow> \<exists>m'. tcm_heap_allocmem st (int k) = Some (st\<lparr>tmem := m'\<rparr>, p)
        \<and> tcm_rep (st\<lparr>tmem := m'\<rparr>) cs
        \<and> same_outside ({p_heap st..<p_heap st + 4} \<union> headers bs) (tmem st) m'"
proof -
  let ?c = "ld32 (tmem st) (p_heap st)"
  note R = rep [unfolded tcm_rep_def tcm_layout_def]
  have W: "case fl_alloc (rup k) bs of
      None \<Rightarrow> alloc_walk (tmem st) (p_heap st) ?c (int (rup k)) = Some (tmem st, RetNull)
    | Some (p, cs) \<Rightarrow> \<exists>m' r. alloc_walk (tmem st) (p_heap st) ?c (int (rup k)) = Some (m', r)
        \<and> chain m' (ld32 m' (p_heap st)) cs 0
        \<and> same_outside ({p_heap st..<p_heap st + 4} \<union> headers bs) (tmem st) m'
        \<and> (r = RetChunk p \<or> (\<exists>e. r = RetEnd e \<and> ptr_add e (chunk_size m' e) = p))"
    by (rule alloc_walk_refines [where lo = "p_buf st" and hi = "tcm_end st"])
      (use R tcm_rep_small [OF rep] rup_props(2) [of k] in auto)
  have crit: "tcm_alloc_crit st (int k) = do {
      (m, r) \<leftarrow> alloc_walk (tmem st) (p_heap st) ?c (int (rup k));
      Some (st\<lparr>tmem := m\<rparr>, r) }"
    using R rounded [OF k]
    by (simp add: tcm_alloc_crit_def rtw_enter_critical_def rtw_exit_critical_def)
  show ?thesis
  proof (cases "fl_alloc (rup k) bs")
    case None
    with W crit show ?thesis by (simp add: tcm_heap_allocmem_def)
  next
    case (Some pc)
    then obtain p cs where pc: "fl_alloc (rup k) bs = Some (p, cs)" by (cases pc) auto
    with W obtain m' r where m': "alloc_walk (tmem st) (p_heap st) ?c (int (rup k)) = Some (m', r)"
      "chain m' (ld32 m' (p_heap st)) cs 0"
      "same_outside ({p_heap st..<p_heap st + 4} \<union> headers bs) (tmem st) m'"
      "r = RetChunk p \<or> (\<exists>e. r = RetEnd e \<and> ptr_add e (chunk_size m' e) = p)" by auto
    then have "tcm_heap_allocmem st (int k) = Some (st\<lparr>tmem := m'\<rparr>, p)"
      using crit by (auto simp: tcm_heap_allocmem_def)
    moreover have "fl (p_buf st) cs (tcm_end st)" "sized cs" "coalesced cs"
      using R pc rup_props [of k] fl_alloc_fl fl_alloc_sized fl_alloc_coalesced
      by (fastforce+)
    ultimately show ?thesis using m' pc R by (auto simp: tcm_rep_def tcm_layout_def)
  qed
qed

lemma tcm_heap_freemem_eq:
  assumes "g_heap_inited st \<noteq> 0" "k + 7 < 2 ^ 31"
  shows "tcm_heap_freemem st p (int k) = do {
    (m, prev) \<leftarrow> free_link (tmem st) (p_heap st) p (int (rup k));
    Some (st\<lparr>tmem := merge_next m prev\<rparr>) }"
  using assms(1)
  unfolding tcm_heap_freemem_def free_link_def merge_next_def Let_def rounded [OF assms(2)]
    rtw_enter_critical_def rtw_exit_critical_def
  by (simp cong: if_cong)

lemma tcm_heap_freemem_refines:
  assumes rep: "tcm_rep st bs" and k: "k + 7 < 2 ^ 31"
    and p: "p_buf st \<le> p" "p + rup k \<le> tcm_end st" "{p..<p + rup k} \<inter> bytes bs = {}"
  shows "\<exists>m'. tcm_heap_freemem st p (int k) = Some (st\<lparr>tmem := m'\<rparr>)
    \<and> tcm_rep (st\<lparr>tmem := m'\<rparr>) (fl_insert (p, rup k) bs)
    \<and> same_outside ({p_heap st..<p_heap st + 4} \<union> headers bs \<union> {p..<p + 8}) (tmem st) m'"
proof -
  let ?lo = "p_buf st" and ?hi = "tcm_end st" and ?h = "p_heap st"
  note R = rep [unfolded tcm_rep_def tcm_layout_def]
  have sz: "tcm_end st < 2 ^ 31 + p_buf st"
    by (simp add: tcm_heap_sizeof_def TCM_HEAP_SIZE_def)
  have "extents bs = bytes bs" using R sized_extents by blast
  with free_link_refines [of "tmem st" ?h bs ?lo ?hi p "rup k"] R sz p rup_props [of k]
  obtain m1 r n xs ys where L: "free_link (tmem st) ?h p (int (rup k)) = Some (m1, r)"
    and ch: "chain m1 (ld32 m1 ?h) (xs @ (r, n) # ys) 0" and f: "fl ?lo (xs @ (r, n) # ys) ?hi"
    and ins: "fl_insert (p, rup k) bs = xs @ glue (r, n) ys" and n: "8 \<le> n"
    and sub: "{r..<r + 8} \<subseteq> {p..<p + 8} \<union> headers bs"
    and so: "same_outside ({?h..<?h + 4} \<union> headers bs \<union> {p..<p + 8}) (tmem st) m1"
    by auto
  have fr: "fl ?lo xs r" "fl r ((r, n) # ys) ?hi" using f by (auto simp: fl_append)
  have lr: "?lo \<le> r" "r + 8 \<le> ?hi" using fl_le [OF fr(1)] fr(2) fl_le [of "r + ext n" ys ?hi] n by auto
  have M: "chain (merge_next m1 r) r (glue (r, n) ys) 0 \<and> same_outside {r..<r + 8} m1 (merge_next m1 r)"
    by (rule merge_next_glue [where hi = ?hi]) (use ch fr lr R sz n in \<open>auto simp: chain_append\<close>)
  let ?m = "merge_next m1 r"
  have "headers xs \<inter> {r..<r + 8} = {}" using fl_headers [OF fr(1)] by fastforce
  then have "chain ?m (ld32 m1 ?h) (xs @ glue (r, n) ys) 0"
    using chain_replace_tail [OF ch f] M by blast
  moreover have "{?h..<?h + 4} \<inter> {r..<r + 8} = {}"
    using R lr by (auto simp: away_def)
  then have "ld32 ?m ?h = ld32 m1 ?h" using M by (intro ld32_frame) auto
  moreover have "fl ?lo (fl_insert (p, rup k) bs) ?hi"
    using R p rup_props [of k] \<open>extents bs = bytes bs\<close> by (intro fl_fl_insert) auto
  moreover have "sized (fl_insert (p, rup k) bs)" "coalesced (fl_insert (p, rup k) bs)"
    using R rup_props [of k] by (auto intro: sized_fl_insert coalesced_fl_insert)
  moreover have "same_outside ({?h..<?h + 4} \<union> headers bs \<union> {p..<p + 8}) (tmem st) ?m"
  proof -
    have "same_outside ({?h..<?h + 4} \<union> headers bs \<union> {p..<p + 8} \<union> {r..<r + 8}) (tmem st) ?m"
      using same_outside_trans [OF so] M by blast
    then show ?thesis by (rule same_outside_mono) (use sub in blast)
  qed
  moreover have "tcm_heap_freemem st p (int k) = Some (st\<lparr>tmem := ?m\<rparr>)"
    using R L by (simp add: tcm_heap_freemem_eq [OF _ k])
  ultimately show ?thesis using R ins
    by (intro exI [of _ ?m]) (simp add: tcm_rep_def tcm_layout_def)
qed

lemma tcm_rep_frame [list_frame]:
  assumes "tcm_rep st bs" "same_outside F (tmem st) m" "F \<inter> (bytes bs \<union> {p_heap st..<p_heap st + 4}) = {}"
  shows "tcm_rep (st\<lparr>tmem := m\<rparr>) bs"
proof -
  have "headers bs \<subseteq> bytes bs"
    using assms(1) sized_extents headers_extents by (auto simp: tcm_rep_def)
  then have "headers bs \<inter> F = {}" "{p_heap st..<p_heap st + 4} \<inter> F = {}" using assms(3) by auto
  then show ?thesis
    using assms(1) chain_frame [OF assms(2)] ld32_frame [OF assms(2)]
    by (simp add: tcm_rep_def)
qed

lemma tcm_rep_unique: "tcm_rep st bs \<Longrightarrow> tcm_rep st cs \<Longrightarrow> bs = cs"
proof -
  assume b: "tcm_rep st bs" and c: "tcm_rep st cs"
  have "0 \<notin> fst ` set xs" if "tcm_rep st xs" for xs
    using that fl_starts [of "p_buf st" xs "tcm_end st"] by (fastforce simp: tcm_rep_def tcm_layout_def)
  with b c show ?thesis by (intro chain_unique) (auto simp: tcm_rep_def)
qed

section \<open>The contract of the heap\<close>

definition tcm_avail :: "tcm \<Rightarrow> nat set" where
  "tcm_avail st = {x. \<exists>bs. tcm_rep st bs \<and> x \<in> bytes bs}"

definition tcm_meta :: "tcm \<Rightarrow> nat set" where
  "tcm_meta st = tcm_avail st \<union> {p_heap st..<p_heap st + 4}"

definition tcm_site :: "tcm \<Rightarrow> nat \<times> nat" where
  "tcm_site st = (p_heap st, p_buf st)"

definition tcm_block_size :: "tcm \<Rightarrow> nat \<Rightarrow> nat" where
  "tcm_block_size st p = rup (nat (ld_int (tmem st) (p - 4)))"

definition tcm_blk :: "tcm \<Rightarrow> nat \<Rightarrow> nat set" where
  "tcm_blk st p = {p - 4..<p - 4 + tcm_block_size st p}"

definition tcm_wf :: "tcm \<Rightarrow> nat \<Rightarrow> bool" where
  "tcm_wf st p \<longleftrightarrow> p_buf st + 4 \<le> p \<and> 0 < ld_int (tmem st) (p - 4)
     \<and> p - 4 + tcm_block_size st p \<le> tcm_end st
     \<and> {p_heap st..<p_heap st + 4} \<inter> tcm_blk st p = {}"

definition tcm_poke :: "tcm \<Rightarrow> nat \<Rightarrow> u8 \<Rightarrow> tcm" where
  "tcm_poke st x b = st\<lparr>tmem := (tmem st)(x := b)\<rparr>"

lemma tcm_avail_eq: "tcm_rep st bs \<Longrightarrow> tcm_avail st = bytes bs"
  using tcm_rep_unique by (auto simp: tcm_avail_def)

lemma tcm_malloc_ok:
  assumes rep: "tcm_rep st bs" and n: "n + 11 < 2 ^ 31"
  shows "case fl_alloc (rup (n + 4)) bs of
      None \<Rightarrow> tcm_heap_malloc st (int n) = Some (st, 0)
    | Some (q, cs) \<Rightarrow> \<exists>m'. tcm_heap_malloc st (int n) = Some (st\<lparr>tmem := m'\<rparr>, q + 4)
        \<and> tcm_rep (st\<lparr>tmem := m'\<rparr>) cs \<and> ld_int m' q = int (n + 4)
        \<and> {q..<q + rup (n + 4)} \<subseteq> bytes bs \<and> bytes cs = bytes bs - {q..<q + rup (n + 4)}
        \<and> p_buf st \<le> q \<and> q + rup (n + 4) \<le> tcm_end st
        \<and> same_outside ({p_heap st..<p_heap st + 4} \<union> bytes bs) (tmem st) m'"
proof -
  note R = rep [unfolded tcm_rep_def tcm_layout_def]
  have w: "wrap32 (int n + 4) = int (n + 4)" using n by simp
  have A: "case fl_alloc (rup (n + 4)) bs of
      None \<Rightarrow> tcm_heap_allocmem st (int (n + 4)) = Some (st, 0)
    | Some (p, cs) \<Rightarrow> \<exists>m'. tcm_heap_allocmem st (int (n + 4)) = Some (st\<lparr>tmem := m'\<rparr>, p)
        \<and> tcm_rep (st\<lparr>tmem := m'\<rparr>) cs
        \<and> same_outside ({p_heap st..<p_heap st + 4} \<union> headers bs) (tmem st) m'"
    by (rule tcm_heap_allocmem_refines [OF rep]) (use n in simp)
  show ?thesis
  proof (cases "fl_alloc (rup (n + 4)) bs")
    case None
    with A w show ?thesis by (simp add: tcm_heap_malloc_def)
  next
    case (Some qc)
    then obtain q cs where qc: "fl_alloc (rup (n + 4)) bs = Some (q, cs)" by (cases qc) auto
    with A obtain m' where m': "tcm_heap_allocmem st (int (n + 4)) = Some (st\<lparr>tmem := m'\<rparr>, q)"
      "tcm_rep (st\<lparr>tmem := m'\<rparr>) cs"
      "same_outside ({p_heap st..<p_heap st + 4} \<union> headers bs) (tmem st) m'" by auto
    have in_bs: "{q..<q + rup (n + 4)} \<subseteq> bytes bs" using fl_alloc_bytes [OF qc] by simp
    have cs: "bytes cs = bytes bs - {q..<q + rup (n + 4)}"
      using fl_alloc_avail [OF qc] R by blast
    have q4: "{q..<q + 4} \<subseteq> {q..<q + rup (n + 4)}" using rup_props(2) [of "n + 4"] by auto
    have fb: "bytes bs \<subseteq> {p_buf st..<tcm_end st}" using R fl_bytes by blast
    have "q \<in> {q..<q + rup (n + 4)}" "q + rup (n + 4) - 1 \<in> {q..<q + rup (n + 4)}"
      using rup_props(2) [of "n + 4"] by auto
    then have q: "p_buf st \<le> q" "q + rup (n + 4) \<le> tcm_end st"
      using in_bs fb rup_props(2) [of "n + 4"] by fastforce+
    let ?m = "st_int m' q (int (n + 4))"
    have so2: "same_outside {q..<q + 4} m' ?m" by auto
    have "{q..<q + 4} \<inter> {p_heap st..<p_heap st + 4} = {}"
      using R q rup_props(2) [of "n + 4"] by (auto simp: away_def)
    then have "tcm_rep (st\<lparr>tmem := m', tmem := ?m\<rparr>) cs"
      using so2 cs q4 by (intro tcm_rep_frame [OF m'(2), where F = "{q..<q + 4}"]) auto
    moreover have "same_outside ({p_heap st..<p_heap st + 4} \<union> bytes bs) (tmem st) ?m"
      using same_outside_trans [OF m'(3) so2]
    proof (rule same_outside_mono)
      have "headers bs \<subseteq> bytes bs"
        using R sized_extents headers_extents [of bs] by simp
      then show "{p_heap st..<p_heap st + 4} \<union> headers bs \<union> {q..<q + 4}
          \<subseteq> {p_heap st..<p_heap st + 4} \<union> bytes bs"
        using in_bs q4 by blast
    qed
    moreover have "ld_int ?m q = int (n + 4)" using n by (simp add: ld_int_st_int_same)
    moreover have "tcm_heap_malloc st (int n) = Some (st\<lparr>tmem := ?m\<rparr>, q + 4)"
      using m'(1) w q R by (simp add: tcm_heap_malloc_def)
    ultimately show ?thesis using qc in_bs cs q by auto
  qed
qed

definition tcm_inv :: "tcm \<Rightarrow> bool" where
  "tcm_inv st \<longleftrightarrow> (\<exists>bs. tcm_rep st bs)"

definition tcm_malloc :: "tcm \<Rightarrow> nat \<Rightarrow> (tcm \<times> nat) option" where
  "tcm_malloc st n = tcm_heap_malloc st (int n)"

lemma rup_ge: "rup k \<le> n \<Longrightarrow> k \<le> n"
  using rup_props(3) [of k] by simp

lemma tcm_meta_eq: "tcm_rep st bs \<Longrightarrow> tcm_meta st = bytes bs \<union> {p_heap st..<p_heap st + 4}"
  by (simp add: tcm_meta_def tcm_avail_eq)

lemma tcm_head_meta: "x \<in> {p_heap s..<p_heap s + 4} \<Longrightarrow> x \<in> tcm_meta s"
  by (simp add: tcm_meta_def)

definition tcm_req_ok :: "nat \<Rightarrow> bool" where
  "tcm_req_ok n \<longleftrightarrow> n + 11 < 2 ^ 31"

lemma tcm_alloc_law:
  assumes inv: "tcm_inv s" and req: "tcm_req_ok n"
  shows "\<exists>s' p. tcm_malloc s n = Some (s', p) \<and> tcm_inv s' \<and> tcm_site s' = tcm_site s
      \<and> (\<forall>x. x \<notin> tcm_meta s \<longrightarrow> tmem s' x = tmem s x)
      \<and> (p = 0 \<longrightarrow> tcm_avail s' = tcm_avail s \<and> tcm_meta s' = tcm_meta s)
      \<and> (p \<noteq> 0 \<longrightarrow> tcm_wf s' p \<and> {p..<p + n} \<subseteq> tcm_blk s' p \<and> tcm_blk s' p \<subseteq> tcm_avail s
          \<and> tcm_avail s' = tcm_avail s - tcm_blk s' p \<and> tcm_meta s' \<subseteq> tcm_meta s - tcm_blk s' p)"
proof -
  have n: "n + 11 < 2 ^ 31" using req by (simp add: tcm_req_ok_def)
  obtain bs where rep: "tcm_rep s bs" using inv by (auto simp: tcm_inv_def)
  note R = rep [unfolded tcm_rep_def tcm_layout_def]
  show ?thesis
  proof (cases "fl_alloc (rup (n + 4)) bs")
    case None
    with tcm_malloc_ok [OF rep n] inv show ?thesis by (simp add: tcm_malloc_def)
  next
    case (Some qc)
    then obtain q cs where qc: "fl_alloc (rup (n + 4)) bs = Some (q, cs)" by (cases qc) auto
    with tcm_malloc_ok [OF rep n] obtain m where
      m: "tcm_heap_malloc s (int n) = Some (s\<lparr>tmem := m\<rparr>, q + 4)"
      and rep': "tcm_rep (s\<lparr>tmem := m\<rparr>) cs" and h: "ld_int m q = int (n + 4)"
      and sub: "{q..<q + rup (n + 4)} \<subseteq> bytes bs" "bytes cs = bytes bs - {q..<q + rup (n + 4)}"
      and q: "p_buf s \<le> q" "q + rup (n + 4) \<le> tcm_end s"
      and so: "same_outside ({p_heap s..<p_heap s + 4} \<union> bytes bs) (tmem s) m" by auto
    let ?s = "s\<lparr>tmem := m\<rparr>"
    have "nat (int (n + 4)) = n + 4" by (rule nat_int)
    then have sz: "tcm_block_size ?s (q + 4) = rup (n + 4)"
      using h by (simp add: tcm_block_size_def)
    then have blk: "tcm_blk ?s (q + 4) = {q..<q + rup (n + 4)}"
      by (simp add: tcm_blk_def)
    have hd: "{p_heap s..<p_heap s + 4} \<inter> {q..<q + rup (n + 4)} = {}"
      using R q by (auto simp: away_def)
    have "tcm_wf ?s (q + 4)"
      unfolding tcm_wf_def blk sz using q h hd by simp
    moreover have "{q + 4..<q + 4 + n} \<subseteq> {q..<q + rup (n + 4)}"
      using rup_props(3) [of "n + 4"] by simp
    moreover have "tcm_avail ?s = tcm_avail s - {q..<q + rup (n + 4)}"
      by (simp add: tcm_avail_eq [OF rep] tcm_avail_eq [OF rep'] sub(2))
    moreover have "tcm_meta ?s \<subseteq> tcm_meta s - {q..<q + rup (n + 4)}"
      using hd by (auto simp: tcm_meta_eq [OF rep] tcm_meta_eq [OF rep'] sub(2))
    moreover have "\<forall>x. x \<notin> tcm_meta s \<longrightarrow> m x = tmem s x"
      using so unfolding tcm_meta_eq [OF rep] same_outside_def by (simp add: Un_commute)
    moreover have "tcm_inv ?s" using rep' by (auto simp: tcm_inv_def)
    moreover have "{q..<q + rup (n + 4)} \<subseteq> tcm_avail s" using sub by (simp add: tcm_avail_eq [OF rep])
    ultimately show ?thesis
      using m blk by (intro exI [of _ ?s] exI [of _ "q + 4"]) (simp add: tcm_malloc_def tcm_site_def)
  qed
qed

lemma tcm_free_law:
  assumes inv: "tcm_inv s" and wf: "tcm_wf s p" and dis: "tcm_blk s p \<inter> tcm_meta s = {}"
  shows "\<exists>s'. tcm_heap_free s p = Some s' \<and> tcm_inv s' \<and> tcm_site s' = tcm_site s
        \<and> (\<forall>x. x \<notin> tcm_meta s \<union> tcm_blk s p \<longrightarrow> tmem s' x = tmem s x)
        \<and> tcm_avail s' = tcm_avail s \<union> tcm_blk s p \<and> tcm_meta s' \<subseteq> tcm_meta s \<union> tcm_blk s p"
proof -
  obtain bs where rep: "tcm_rep s bs" using inv by (auto simp: tcm_inv_def)
  note R = rep [unfolded tcm_rep_def tcm_layout_def]
  define k where "k = nat (ld_int (tmem s) (p - 4))"
  have k: "ld_int (tmem s) (p - 4) = int k" and p4: "p_buf s \<le> p - 4" "4 \<le> p"
    and e: "p - 4 + rup k \<le> tcm_end s"
    using wf by (auto simp: tcm_wf_def k_def tcm_block_size_def)
  have blk: "tcm_blk s p = {p - 4..<p - 4 + rup k}"
    by (simp add: tcm_blk_def tcm_block_size_def k_def)
  have "rup k \<le> tcm_heap_sizeof" using e p4(1) by simp
  then have "k \<le> tcm_heap_sizeof" by (rule rup_ge)
  then have k31: "k + 7 < 2 ^ 31" by (simp add: tcm_heap_sizeof_def TCM_HEAP_SIZE_def)
  have dj: "{p - 4..<p - 4 + rup k} \<inter> bytes bs = {}"
    using dis unfolding blk tcm_meta_eq [OF rep] by blast
  from tcm_heap_freemem_refines [OF rep k31 p4(1) e dj] obtain m where
    m: "tcm_heap_freemem s (p - 4) (int k) = Some (s\<lparr>tmem := m\<rparr>)"
    and rep': "tcm_rep (s\<lparr>tmem := m\<rparr>) (fl_insert (p - 4, rup k) bs)"
    and so: "same_outside ({p_heap s..<p_heap s + 4} \<union> headers bs \<union> {p - 4..<p - 4 + 8}) (tmem s) m"
    by blast
  have hb: "headers bs \<subseteq> bytes bs" using R headers_bytes by blast
  have hp: "{p - 4..<p - 4 + 8} \<subseteq> tcm_blk s p"
    unfolding blk using rup_props(2) [of k] by simp
  have sub: "{p_heap s..<p_heap s + 4} \<union> headers bs \<union> {p - 4..<p - 4 + 8} \<subseteq> tcm_meta s \<union> tcm_blk s p"
    unfolding tcm_meta_eq [OF rep] using hb hp by blast
  have "\<forall>x. x \<notin> tcm_meta s \<union> tcm_blk s p \<longrightarrow> m x = tmem s x"
    using same_outside_mono [OF so sub] by (simp add: same_outside_def)
  moreover have "tcm_heap_free s p = Some (s\<lparr>tmem := m\<rparr>)"
    using m k p4 by (simp add: tcm_heap_free_def)
  moreover have "tcm_avail (s\<lparr>tmem := m\<rparr>) = tcm_avail s \<union> tcm_blk s p"
    unfolding tcm_avail_eq [OF rep] tcm_avail_eq [OF rep'] bytes_fl_insert blk by blast
  moreover have "tcm_meta (s\<lparr>tmem := m\<rparr>) \<subseteq> tcm_meta s \<union> tcm_blk s p"
    unfolding tcm_meta_eq [OF rep] tcm_meta_eq [OF rep'] bytes_fl_insert blk by auto
  moreover have "tcm_inv (s\<lparr>tmem := m\<rparr>)" using rep' by (auto simp: tcm_inv_def)
  ultimately show ?thesis by (intro exI [of _ "s\<lparr>tmem := m\<rparr>"]) (simp add: tcm_site_def)
qed

lemma tcm_poke_law:
  assumes inv: "tcm_inv s" and x: "x \<notin> tcm_meta s"
  shows "tcm_inv (tcm_poke s x b) \<and> tcm_site (tcm_poke s x b) = tcm_site s
      \<and> tcm_avail (tcm_poke s x b) = tcm_avail s \<and> tcm_meta (tcm_poke s x b) = tcm_meta s
      \<and> tmem (tcm_poke s x b) = (tmem s)(x := b)"
proof -
  obtain bs where rep: "tcm_rep s bs" using inv by (auto simp: tcm_inv_def)
  have "{x} \<inter> (bytes bs \<union> {p_heap s..<p_heap s + 4}) = {}"
    using x unfolding tcm_meta_eq [OF rep] by blast
  then have rep': "tcm_rep (tcm_poke s x b) bs" unfolding tcm_poke_def
    by (intro tcm_rep_frame [OF rep, where F = "{x}"]) (auto simp: same_outside_def)
  show ?thesis
    unfolding tcm_meta_eq [OF rep] tcm_meta_eq [OF rep'] tcm_avail_eq [OF rep] tcm_avail_eq [OF rep']
    using rep' by (auto simp: tcm_inv_def tcm_poke_def tcm_site_def)
qed

lemma tcm_blk_local:
  assumes "tcm_wf s p" "tcm_site s' = tcm_site s" "\<forall>x\<in>{p - 4..<p}. tmem s' x = tmem s x"
  shows "tcm_wf s' p \<and> tcm_blk s' p = tcm_blk s p"
proof -
  have "4 \<le> p" using assms(1) by (auto simp: tcm_wf_def)
  then have "ld32 (tmem s') (p - 4) = ld32 (tmem s) (p - 4)"
    using assms(3) by (intro ld32_cong) auto
  then have e: "tcm_block_size s' p = tcm_block_size s p"
    "ld_int (tmem s') (p - 4) = ld_int (tmem s) (p - 4)"
    by (simp_all add: tcm_block_size_def ld_int_def)
  then have b: "tcm_blk s' p = tcm_blk s p" by (simp add: tcm_blk_def)
  have "p_heap s' = p_heap s" "p_buf s' = p_buf s" using assms(2) by (simp_all add: tcm_site_def)
  with e b have "tcm_wf s' p = tcm_wf s p" by (simp only: tcm_wf_def)
  with assms(1) b show ?thesis by blast
qed

lemma tcm_hdr_blk: "tcm_wf s p \<Longrightarrow> {p - 4..<p} \<subseteq> tcm_blk s p"
  using rup_props(2) [of "nat (ld_int (tmem s) (p - 4))"]
  unfolding tcm_wf_def tcm_blk_def tcm_block_size_def ivl_subset by linarith

interpretation tcm_alloc: heap_allocator tcm_malloc tcm_heap_free tmem tcm_poke tcm_inv tcm_site
  tcm_avail tcm_meta tcm_wf tcm_blk "\<lambda>p. {p - 4..<p}" tcm_req_ok
  by (rule heap_allocator.intro, rule tcm_alloc_law, assumption+, rule tcm_free_law, assumption+,
      erule (1) tcm_poke_law, rule tcm_blk_local, assumption+, erule tcm_hdr_blk,
      simp, simp add: tcm_meta_def)

section \<open>Facts for the properties\<close>

text \<open>A linker's choice of the two addresses, used in the examples.\<close>

definition tcm_sample :: tcm where
  "tcm_sample = \<lparr>tmem = (\<lambda>_. 0), p_heap = 0x10000000, p_buf = 0x1fff0000, g_heap_inited = 0,
     crit = 0, ext_reg = None\<rparr>"

lemma tcm_sample_layout [simp]: "tcm_layout tcm_sample"
  by (simp add: tcm_layout_def tcm_sample_def away_def tcm_heap_sizeof_def TCM_HEAP_SIZE_def)

lemma tcm_init_inv: "tcm_layout st \<Longrightarrow> tcm_inv (tcm_heap_init st)"
  using tcm_init_rep by (auto simp: tcm_inv_def)

lemma tcm_init_site [simp]: "tcm_site (tcm_heap_init st) = tcm_site st"
  by (simp add: tcm_site_def tcm_heap_init_def Let_def)

lemma tcm_init_avail: "tcm_layout st \<Longrightarrow> tcm_avail (tcm_heap_init st) = {p_buf st..<tcm_end st}"
  using tcm_avail_eq [OF tcm_init_rep] by simp

lemma tcm_run:
  assumes "tcm_layout st" "list_all (cmd_ok tcm_req_ok) cs"
  shows "\<exists>s L. heap_run tcm_malloc tcm_heap_free tcm_poke (tcm_heap_init st, []) cs = Some (s, L)
    \<and> tcm_inv s \<and> tcm_site s = tcm_site st \<and> tcm_alloc.lives_ok s L
    \<and> tcm_avail s \<union> tcm_alloc.owned s L = {p_buf st..<tcm_end st}"
  using tcm_alloc.run_ok [OF tcm_init_inv [OF assms(1)] tcm_alloc.lives_ok_Nil [of "tcm_heap_init st"] assms(2)] tcm_init_avail [OF assms(1)]
  by simp

lemma space_walk_total:
  "chain m c bs 0 \<Longrightarrow> fl lo bs hi \<Longrightarrow> 0 < lo \<Longrightarrow> small bs \<Longrightarrow> k + total bs < 2 ^ 31
   \<Longrightarrow> space_walk m c (int k) = Some (int (k + total bs))"
proof (induction bs arbitrary: c lo k)
  case Nil
  then show ?case by (simp add: space_walk.simps)
next
  case (Cons b bs)
  obtain a s where b: "b = (a, s)" by (cases b)
  from Cons.prems b have p: "c = a" "a \<noteq> 0" "ld32 m (a + 4) = s" "chain m (ld32 m a) bs 0"
    "fl (a + ext s) bs hi" "s < 2 ^ 31" "small bs" by auto
  have "wrap32 (int k + int s) = int (k + s)" using Cons.prems b by simp
  then have "space_walk m c (int k) = space_walk m (ld32 m a) (int (k + s))"
    using p by (subst space_walk.simps) (simp add: ld_int_def del: of_nat_add)
  also have "\<dots> = Some (int (k + s + total bs))"
    by (rule Cons.IH [OF p(4,5)]) (use p Cons.prems b in auto)
  finally show ?case using b by (simp add: add.assoc)
qed

lemma fl_covers_single:
  "fl lo bs hi \<Longrightarrow> coalesced bs \<Longrightarrow> sized bs \<Longrightarrow> bytes bs = {lo..<hi} \<Longrightarrow> lo < hi \<Longrightarrow> bs = [(lo, hi - lo)]"
proof (cases bs)
  case (Cons b cs)
  assume a: "fl lo bs hi" "coalesced bs" "sized bs" "bytes bs = {lo..<hi}" "lo < hi"
  obtain x s where b: "b = (x, s)" by (cases b)
  from a Cons b have f: "lo \<le> x" "fl (x + s) cs hi" "8 \<le> s" by (auto simp: max_def)
  have "lo \<in> bytes bs" using a by simp
  moreover have "lo \<notin> bytes cs" using fl_bytes [OF f(2)] f by fastforce
  ultimately have x: "x = lo" using Cons b f by auto
  have "cs = []"
  proof (cases cs)
    case (Cons c ds)
    obtain y t where c: "c = (y, t)" by (cases c)
    have ne: "x + s \<noteq> y" using a(2) \<open>bs = b # cs\<close> b Cons c by simp
    have y: "x + s \<le> y" "fl (y + ext t) ds hi" using f(2) Cons c by auto
    have "y < hi" using fl_le [OF y(2)] by simp
    then have "x + s \<in> bytes bs" using a(4) x y ne by auto
    moreover have "x + s \<notin> bytes ds" using fl_bytes [OF y(2)] y by fastforce
    ultimately show ?thesis using \<open>bs = b # cs\<close> b Cons c y ne by auto
  qed
  moreover from this have "x + s = hi"
    using a Cons b x f by auto
  ultimately show ?thesis using Cons b x by auto
qed simp

lemma tcm_crit_single:
  assumes rep: "tcm_rep st [(b, s)]" and k: "k + 7 < 2 ^ 31" and lt: "rup k < s"
  shows "\<exists>m. tcm_alloc_crit st (int k) = Some (st\<lparr>tmem := m\<rparr>, RetEnd b)
    \<and> tcm_rep (st\<lparr>tmem := m\<rparr>) [(b, s - rup k)]"
proof -
  note R = rep [unfolded tcm_rep_def tcm_layout_def]
  have s: "chunk_size (tmem st) b = int s"
    using R tcm_rep_small [OF rep] by (simp add: ld_int_def)
  define m where "m = st_int (tmem st) (b + 4) (wrap32 (int s - int (rup k)))"
  have "alloc_walk (tmem st) (p_heap st) b (int (rup k)) = Some (m, RetEnd b)"
    using lt s R by (subst alloc_walk.simps) (simp add: m_def)
  then have crit: "tcm_alloc_crit st (int k) = Some (st\<lparr>tmem := m\<rparr>, RetEnd b)"
    using R rounded [OF k]
    by (simp add: tcm_alloc_crit_def rtw_enter_critical_def rtw_exit_critical_def)
  then have "\<exists>p. tcm_heap_allocmem st (int k) = Some (st\<lparr>tmem := m\<rparr>, p)"
    by (simp add: tcm_heap_allocmem_def)
  with tcm_heap_allocmem_refines [OF rep k] lt crit show ?thesis
    by (fastforce simp del: of_nat_add)
qed

section \<open>Properties\<close>

text \<open>C1: A client of the TCM heap that allocates (requests below \<open>2 ^ 31 - 11\<close>), frees its own
  blocks and writes anywhere inside its own blocks, in any order and number, never makes the heap
  run into an endless list walk; the blocks it holds are disjoint and lie inside the buffer; and
  the free bytes together with the bytes of the blocks handed out are the whole buffer again.\<close>

theorem tcm_client_safe:
  assumes "tcm_layout st" "list_all (cmd_ok tcm_req_ok) cs"
  shows "\<exists>s L. heap_run tcm_malloc tcm_heap_free tcm_poke (tcm_heap_init st, []) cs = Some (s, L)
    \<and> payloads_disjoint L
    \<and> (\<forall>(p, n)\<in>set L. p_buf st + 4 \<le> p \<and> p + n \<le> tcm_end st)
    \<and> tcm_avail s \<union> (\<Union>(p, n)\<in>set L. tcm_blk s p) = {p_buf st..<tcm_end st}
    \<and> (\<forall>(p, n)\<in>set L. {p..<p + n} \<subseteq> tcm_blk s p \<and> tcm_blk s p \<inter> tcm_avail s = {})"
proof -
  from tcm_run [OF assms] obtain s L where
    r: "heap_run tcm_malloc tcm_heap_free tcm_poke (tcm_heap_init st, []) cs = Some (s, L)"
    and i: "tcm_inv s" "tcm_site s = tcm_site st" "tcm_alloc.lives_ok s L"
    and a: "tcm_avail s \<union> tcm_alloc.owned s L = {p_buf st..<tcm_end st}" by blast
  have l: "p_buf st + 4 \<le> p \<and> p + n \<le> tcm_end st \<and> {p..<p + n} \<subseteq> tcm_blk s p
      \<and> tcm_blk s p \<inter> tcm_avail s = {}" if "(p, n) \<in> set L" for p n
  proof -
    have v: "tcm_alloc.live s (p, n)" using i(3) that by (auto simp: tcm_alloc.lives_ok_def)
    then have w: "tcm_wf s p" "{p..<p + n} \<subseteq> tcm_blk s p" "tcm_blk s p \<inter> tcm_meta s = {}"
      by (auto simp: tcm_alloc.live_def)
    have s: "p_buf s = p_buf st" using i(2) by (simp add: tcm_site_def)
    have "p_buf st + 4 \<le> p" "p \<le> tcm_end st" "{p..<p + n} \<subseteq> {..<tcm_end st}"
      using w s tcm_hdr_blk [OF w(1)] by (auto simp: tcm_wf_def tcm_blk_def)
    moreover have "n = 0 \<or> p + n - 1 \<in> {p..<p + n}" by auto
    ultimately have "p_buf st + 4 \<le> p" "p + n \<le> tcm_end st" by fastforce+
    then show ?thesis using w by (auto simp: tcm_meta_def)
  qed
  moreover have "tcm_avail s \<union> (\<Union>(p, n)\<in>set L. tcm_blk s p) = {p_buf st..<tcm_end st}"
    using a by (simp add: tcm_alloc.owned_def case_prod_beta)
  ultimately show ?thesis using r tcm_alloc.payloads [OF i(3)] by (intro exI) blast
qed

lemma tcm_client_safe_witness:
  "\<exists>s L. heap_run tcm_malloc tcm_heap_free tcm_poke (tcm_heap_init tcm_sample, [])
      [Malloc 100, Malloc 50000, Malloc 3, Write 0 2 7, Free 1, Malloc 0] = Some (s, L)
    \<and> payloads_disjoint L"
  using tcm_client_safe [of tcm_sample "[Malloc 100, Malloc 50000, Malloc 3, Write 0 2 7, Free 1, Malloc 0]"]
  by (force simp: tcm_req_ok_def)

text \<open>C2: No leak and no permanent fragmentation: whenever a client has given back every block
  it got, the free list is again one single block that is the whole buffer, whatever the
  order of the calls was.\<close>

theorem tcm_all_freed:
  assumes "tcm_layout st" "list_all (cmd_ok tcm_req_ok) cs"
    "heap_run tcm_malloc tcm_heap_free tcm_poke (tcm_heap_init st, []) cs = Some (s, [])"
  shows "ld32 (tmem s) (p_heap st) = p_buf st \<and> chunk_next (tmem s) (p_buf st) = 0
    \<and> chunk_size (tmem s) (p_buf st) = 40 * 1024"
proof -
  from tcm_run [OF assms(1,2)] assms(3) have i: "tcm_inv s" "tcm_site s = tcm_site st"
    "tcm_avail s = {p_buf st..<tcm_end st}" by auto
  then obtain bs where rep: "tcm_rep s bs" by (auto simp: tcm_inv_def)
  note R = rep [unfolded tcm_rep_def]
  have s: "p_buf s = p_buf st" "p_heap s = p_heap st" using i(2) by (simp_all add: tcm_site_def)
  have "bs = [(p_buf st, tcm_heap_sizeof)]"
    using fl_covers_single [of "p_buf st" bs "tcm_end st"] R s i(3) tcm_avail_eq [OF rep]
    by (simp add: tcm_heap_sizeof_def TCM_HEAP_SIZE_def)
  then show ?thesis
    using R s by (simp add: ld_int_def tcm_heap_sizeof_def TCM_HEAP_SIZE_def)
qed

lemma tcm_all_freed_witness:
  "\<exists>s. heap_run tcm_malloc tcm_heap_free tcm_poke (tcm_heap_init tcm_sample, [])
      [Malloc 100, Write 0 5 1, Free 0] = Some (s, []) \<and> chunk_size (tmem s) 0x1fff0000 = 40 * 1024"
proof -
  let ?cs = "[Malloc 100, Write 0 5 1, Free 0]"
  have ok: "list_all (cmd_ok tcm_req_ok) ?cs" by (simp add: tcm_req_ok_def)
  obtain s L where r: "heap_run tcm_malloc tcm_heap_free tcm_poke (tcm_heap_init tcm_sample, []) ?cs
      = Some (s, L)"
    using tcm_run [OF tcm_sample_layout ok] by blast
  then have "L = []" by (auto split: bind_splits if_splits)
  with tcm_all_freed [OF tcm_sample_layout ok] r show ?thesis by (auto simp: tcm_sample_def)
qed

text \<open>C3: Allocation is complete: in every well-formed state (\<open>tcm_rep\<close>), for a request of at most \<open>2 ^ 31 - 12\<close> bytes (above which the rounding wraps around)
  \<open>tcm_heap_malloc\<close> returns \<open>NULL\<close> exactly when no free block
  holds the request with its 4-byte size word, rounded up to 8, and then it changes nothing; otherwise it takes exactly that
  many bytes off the free list.\<close>

theorem tcm_malloc_complete:
  assumes "tcm_rep st bs" "tcm_req_ok n"
  shows "\<exists>s p cs. tcm_heap_malloc st (int n) = Some (s, p) \<and> tcm_rep s cs
    \<and> (p = 0 \<longleftrightarrow> (\<forall>(a, sz)\<in>set bs. sz < rup (n + 4)))
    \<and> (p = 0 \<longrightarrow> s = st) \<and> (p \<noteq> 0 \<longrightarrow> total bs = total cs + rup (n + 4))"
proof (cases "fl_alloc (rup (n + 4)) bs")
  case None
  with tcm_malloc_ok [OF assms(1), of n] assms show ?thesis
    by (auto simp: tcm_req_ok_def fl_alloc_None)
next
  case (Some qc)
  then obtain q cs where qc: "fl_alloc (rup (n + 4)) bs = Some (q, cs)" by (cases qc) auto
  then have "\<not> (\<forall>(a, sz)\<in>set bs. sz < rup (n + 4))" using fl_alloc_None [of "rup (n + 4)" bs] by simp
  moreover have "total bs = total cs + rup (n + 4)" using fl_alloc_bytes [OF qc] by simp
  ultimately show ?thesis
    using tcm_malloc_ok [OF assms(1), of n] assms(2) qc unfolding tcm_req_ok_def
    by (fastforce simp del: of_nat_add)
qed

lemma tcm_malloc_complete_witness:
  "\<exists>s p cs. tcm_heap_malloc (tcm_heap_init tcm_sample) 100 = Some (s, p) \<and> p \<noteq> 0
    \<and> total cs + 104 = 40 * 1024 \<and> tcm_rep s cs"
  using tcm_malloc_complete [OF tcm_init_rep [OF tcm_sample_layout], of 100]
  by (fastforce simp: tcm_req_ok_def rup_def tcm_heap_sizeof_def TCM_HEAP_SIZE_def)

text \<open>\<open>tcm_heap_freeSpace\<close> returns, and returns the number of free bytes.\<close>

theorem tcm_freeSpace_correct:
  assumes "tcm_rep st bs"
  shows "tcm_heap_freeSpace st = Some (st, int (card (tcm_avail st)))"
proof -
  note R = assms [unfolded tcm_rep_def tcm_layout_def]
  have f: "fl (p_buf st) bs (tcm_end st)" using R by blast
  have "total bs < 2 ^ 31" using fl_total [OF f] by (simp add: tcm_heap_sizeof_def TCM_HEAP_SIZE_def)
  then have "space_walk (tmem st) (ld32 (tmem st) (p_heap st)) (int 0) = Some (int (0 + total bs))"
    by (intro space_walk_total [where lo = "p_buf st" and hi = "tcm_end st"])
      (use R tcm_rep_small [OF assms] in auto)
  then show ?thesis
    using R fl_card [OF f] tcm_avail_eq [OF assms]
    by (simp add: tcm_heap_freeSpace_def rtw_enter_critical_def rtw_exit_critical_def)
qed

lemma tcm_freeSpace_correct_witness:
  "tcm_heap_freeSpace (tcm_heap_init tcm_sample) = Some (tcm_heap_init tcm_sample, 40960)"
  using tcm_freeSpace_correct [OF tcm_init_rep [OF tcm_sample_layout]]
  by (simp add: tcm_init_avail tcm_heap_sizeof_def TCM_HEAP_SIZE_def)

text \<open>The block \<open>tcm_heap_calloc\<close> returns is zeroed, and nothing outside the block and the
  heap's own bookkeeping is written.\<close>

theorem tcm_calloc_zeroed:
  assumes "tcm_inv st" "tcm_req_ok n" "tcm_heap_calloc st (int n) = Some (s, p)" "p \<noteq> 0"
  shows "(\<forall>i<n. tmem s (p + i) = 0) \<and> (\<forall>x. x \<notin> tcm_meta st \<longrightarrow> tmem s x = tmem st x)"
proof -
  from tcm_alloc_law [OF assms(1,2)] obtain s1 q where
    m: "tcm_heap_malloc st (int n) = Some (s1, q)"
    and fr: "\<forall>x. x \<notin> tcm_meta st \<longrightarrow> tmem s1 x = tmem st x"
    and c: "q \<noteq> 0 \<longrightarrow> {q..<q + n} \<subseteq> tcm_blk s1 q \<and> tcm_blk s1 q \<subseteq> tcm_avail st"
    unfolding tcm_malloc_def by blast
  have q: "q = p" and s: "s = s1\<lparr>tmem := mem_set (tmem s1) p 0 n\<rparr>"
    using assms(2,3,4) m by (auto simp: tcm_heap_calloc_def tcm_req_ok_def split: if_splits)
  have b: "{p..<p + n} \<subseteq> tcm_blk s1 p" "tcm_blk s1 p \<subseteq> tcm_avail st" using c q assms(4) by auto
  have "tmem s x = tmem st x" if "x \<notin> tcm_meta st" for x
  proof -
    have "x \<notin> {p..<p + n}" using that b by (auto simp: tcm_meta_def)
    then have "x < p \<or> p + n \<le> x" by auto
    then show ?thesis using fr that by (simp add: s mem_set_other)
  qed
  then show ?thesis by (simp add: s mem_set_in)
qed

lemma tcm_calloc_zeroed_witness:
  "\<exists>s p. tcm_heap_calloc (tcm_heap_init tcm_sample) 100 = Some (s, p) \<and> p \<noteq> 0 \<and> tmem s (p + 99) = 0"
proof -
  let ?t = "tcm_heap_init tcm_sample"
  have inv: "tcm_inv ?t" by (simp add: tcm_init_inv)
  have req: "tcm_req_ok 100" by (simp add: tcm_req_ok_def)
  have "fl_alloc (rup (100 + 4)) [(p_buf tcm_sample, tcm_heap_sizeof)] \<noteq> None"
    by (simp add: rup_def tcm_heap_sizeof_def TCM_HEAP_SIZE_def)
  then obtain s q where "tcm_heap_malloc ?t 100 = Some (s, q + 4)"
    using tcm_malloc_ok [OF tcm_init_rep [OF tcm_sample_layout], of 100] by auto
  then have c: "\<exists>s. tcm_heap_calloc ?t (int 100) = Some (s, q + 4)"
    by (simp add: tcm_heap_calloc_def)
  then obtain s' where c: "tcm_heap_calloc ?t (int 100) = Some (s', q + 4)" by blast
  have "\<forall>i<100. tmem s' (q + 4 + i) = 0"
    using tcm_calloc_zeroed [OF inv req c] by simp
  then have "tmem s' (q + 4 + 99) = 0" by (rule allE [of _ 99]) simp
  with c show ?thesis by (intro exI [of _ s'] exI [of _ "q + 4"]) simp
qed

text \<open>C4: The pointer returned is computed after the critical section has been left. Two tasks
  that both allocate from the single initial block, the second one entering between the two
  steps of the first, get the same pointer.\<close>

theorem tcm_alloc_race:
  assumes "tcm_layout st" "i + 7 < 2 ^ 31" "j + 7 < 2 ^ 31" "rup i + rup j < 40 * 1024"
  shows "\<exists>s1 s2 ra rb. tcm_alloc_crit (tcm_heap_init st) (int i) = Some (s1, ra)
    \<and> tcm_alloc_crit s1 (int j) = Some (s2, rb)
    \<and> tcm_alloc_ret s2 ra = tcm_alloc_ret s2 rb \<and> tcm_alloc_ret s2 ra \<noteq> 0
    \<and> tcm_alloc_ret s1 ra = tcm_alloc_ret s2 ra + rup j"
proof -
  let ?b = "p_buf st"
  have S: "tcm_heap_sizeof = 40 * 1024" by (simp add: tcm_heap_sizeof_def TCM_HEAP_SIZE_def)
  from tcm_crit_single [OF tcm_init_rep [OF assms(1)] assms(2)] obtain m1 where
    1: "tcm_alloc_crit (tcm_heap_init st) (int i) = Some ((tcm_heap_init st)\<lparr>tmem := m1\<rparr>, RetEnd ?b)"
    and r1: "tcm_rep ((tcm_heap_init st)\<lparr>tmem := m1\<rparr>) [(?b, tcm_heap_sizeof - rup i)]"
    using assms(4) S by auto
  obtain m2 where
    2: "tcm_alloc_crit ((tcm_heap_init st)\<lparr>tmem := m1\<rparr>) (int j)
        = Some ((tcm_heap_init st)\<lparr>tmem := m1, tmem := m2\<rparr>, RetEnd ?b)"
    and r2: "tcm_rep ((tcm_heap_init st)\<lparr>tmem := m1, tmem := m2\<rparr>) [(?b, tcm_heap_sizeof - rup i - rup j)]"
  proof -
    have "rup j < tcm_heap_sizeof - rup i" using assms(4) S by simp
    with that show ?thesis using tcm_crit_single [OF r1 assms(3)] by blast
  qed
  have b: "0 < ?b" "?b + 40 * 1024 < 2 ^ 32" using assms(1) S by (auto simp: tcm_layout_def)
  have "ptr_add ?b (chunk_size m1 ?b) = ?b + (tcm_heap_sizeof - rup i)"
    using r1 S b by (simp add: tcm_rep_def ld_int_def)
  moreover have "ptr_add ?b (chunk_size m2 ?b) = ?b + (tcm_heap_sizeof - rup i - rup j)"
    using r2 S b by (simp add: tcm_rep_def ld_int_def)
  ultimately show ?thesis using b assms(4) S
    by (intro exI [of _ "(tcm_heap_init st)\<lparr>tmem := m1\<rparr>"] exI [of _ "(tcm_heap_init st)\<lparr>tmem := m1, tmem := m2\<rparr>"]
        exI [of _ "RetEnd ?b"] conjI 1 2) simp_all
qed

lemma tcm_alloc_race_witness:
  "\<exists>s1 s2 ra rb. tcm_alloc_crit (tcm_heap_init tcm_sample) 100 = Some (s1, ra)
    \<and> tcm_alloc_crit s1 200 = Some (s2, rb)
    \<and> tcm_alloc_ret s2 ra = tcm_alloc_ret s2 rb \<and> tcm_alloc_ret s2 ra \<noteq> 0"
  using tcm_alloc_race [OF tcm_sample_layout, of 100 200] by (auto simp: rup_def)

text \<open>The self test asks for 59 KB, more than the 40 KB buffer: the call always returns
  \<open>NULL\<close>, the pointer \<open>tcm_heap_testRun\<close> then writes through.\<close>

theorem tcm_testRun_alloc_fails:
  assumes "tcm_rep st bs"
  shows "tcm_heap_allocmem st (59 * 1024) = Some (st, 0)"
proof -
  have "sz < rup (59 * 1024)" if "(a, sz) \<in> set bs" for a sz
    using fl_starts [of "p_buf st" bs "tcm_end st", OF _ that] assms
    by (auto simp: tcm_rep_def tcm_heap_sizeof_def TCM_HEAP_SIZE_def rup_def)
  then have "fl_alloc (rup (59 * 1024)) bs = None" by (auto simp: fl_alloc_None)
  with tcm_heap_allocmem_refines [OF assms, of "59 * 1024"] show ?thesis by simp
qed

lemma tcm_testRun_alloc_fails_witness:
  "tcm_heap_allocmem (tcm_heap_init tcm_sample) (59 * 1024) = Some (tcm_heap_init tcm_sample, 0)"
  by (rule tcm_testRun_alloc_fails [OF tcm_init_rep [OF tcm_sample_layout]])

end
