(* ===== verification/Heap5.thy ===== *)
theory Heap5
  imports FreeList Allocator
begin

text \<open>
  \<open>Source/portable/MemMang/heap_5.c\<close>, the heap of the RTOS as this firmware ships it: FreeRTOS's
  allocator over several memory regions, with Realtek's changes (initialisation on the first
  call, an external free function for one address range, \<open>pvPortReAlloc\<close>).

  State: the memory, the address of the static list head \<open>xStart\<close> and of the array \<open>ucHeap\<close>
  (chosen by the linker), the static variables, and the scheduler's suspension depth. The
  external free function may work on a state of its own, of type \<open>'w\<close>; it shares the memory.

  The free list starts at \<open>xStart\<close> and ends at \<open>pxEnd\<close>; between two regions it passes through a
  marker block of size 0. \<open>h5_rep\<close> relates the memory to a list of blocks (theory \<open>FreeList\<close>).
\<close>

record 'w heap5 =
  hmem :: mem
  a_xStart :: nat
  a_ucHeap :: nat
  pxEnd :: nat
  xFreeBytesRemaining :: nat
  xMinimumEverFreeBytesRemaining :: nat
  xBlockAllocatedBit :: nat
  ext_free :: "(nat \<Rightarrow> mem \<times> 'w \<Rightarrow> (mem \<times> 'w) option) option"
  ext_upper :: nat
  ext_lower :: nat
  ext_world :: 'w
  uxSchedulerSuspended :: nat

definition portBYTE_ALIGNMENT :: nat where "portBYTE_ALIGNMENT = 8"

definition portBYTE_ALIGNMENT_MASK :: nat where "portBYTE_ALIGNMENT_MASK = 7"

definition uxHeapStructSize :: nat where
  "uxHeapStructSize = andnot32 (8 + (portBYTE_ALIGNMENT - 1)) portBYTE_ALIGNMENT_MASK"

definition heapMINIMUM_BLOCK_SIZE :: nat where
  "heapMINIMUM_BLOCK_SIZE = push_bit 1 uxHeapStructSize"

definition configTOTAL_HEAP_SIZE :: nat where "configTOTAL_HEAP_SIZE = 60 * 1024"

text \<open>The fields of a \<open>BlockLink_t\<close>.\<close>

abbreviation pxNextFreeBlock :: "mem \<Rightarrow> nat \<Rightarrow> nat" where
  "pxNextFreeBlock m b \<equiv> ld32 m b"

abbreviation xBlockSize :: "mem \<Rightarrow> nat \<Rightarrow> nat" where
  "xBlockSize m b \<equiv> ld32 m (b + 4)"

definition vTaskSuspendAll :: "'w heap5 \<Rightarrow> 'w heap5" where
  "vTaskSuspendAll st = st\<lparr>uxSchedulerSuspended := uxSchedulerSuspended st + 1\<rparr>"

text \<open>Of \<open>xTaskResumeAll\<close> only the counter is kept.\<close>

definition xTaskResumeAll :: "'w heap5 \<Rightarrow> 'w heap5" where
  "xTaskResumeAll st = st\<lparr>uxSchedulerSuspended := uxSchedulerSuspended st - 1\<rparr>"

text \<open>The regions: start address and size, ended by an entry of size 0.\<close>

definition xHeapRegions :: "'w heap5 \<Rightarrow> (nat \<times> nat) list" where
  "xHeapRegions st = [(0x10002300, 0x3D00), (a_ucHeap st, configTOTAL_HEAP_SIZE), (0, 0)]"

text \<open>The loop of \<open>vPortDefineHeapRegions\<close>, over the entries from the current one on.\<close>

fun define_regions ::
    "'w heap5 \<Rightarrow> nat \<Rightarrow> nat \<Rightarrow> (nat \<times> nat) list \<Rightarrow> 'w heap5 \<times> nat" where
  "define_regions st xDefinedRegions xTotalHeapSize ((pucStartAddress, xSizeInBytes) # rs) =
     (if xSizeInBytes = 0 then (st, xTotalHeapSize)
      else
        let ulAddress = pucStartAddress;
            (ulAddress, xTotalRegionSize) =
              (if ulAddress AND portBYTE_ALIGNMENT_MASK \<noteq> 0 then
                 let u = andnot32 (add32 ulAddress (portBYTE_ALIGNMENT - 1)) portBYTE_ALIGNMENT_MASK
                 in (u, sub32 xSizeInBytes (sub32 u pucStartAddress))
               else (ulAddress, xSizeInBytes));
            pucAlignedHeap = ulAddress;
            m = (if xDefinedRegions = 0 then
                   st32 (st32 (hmem st) (a_xStart st) pucAlignedHeap) (a_xStart st + 4) 0
                 else hmem st);
            pxPreviousFreeBlock = pxEnd st;
            ulAddress = andnot32 (sub32 (add32 pucAlignedHeap xTotalRegionSize) uxHeapStructSize)
                          portBYTE_ALIGNMENT_MASK;
            m = st32 (st32 m (ulAddress + 4) 0) ulAddress 0;
            m = st32 m (pucAlignedHeap + 4) (sub32 ulAddress pucAlignedHeap);
            m = st32 m pucAlignedHeap ulAddress;
            m = (if pxPreviousFreeBlock \<noteq> 0 then st32 m pxPreviousFreeBlock pucAlignedHeap else m)
        in define_regions (st\<lparr>hmem := m, pxEnd := ulAddress\<rparr>) (xDefinedRegions + 1)
             (add32 xTotalHeapSize (xBlockSize m pucAlignedHeap)) rs)"
| "define_regions st xDefinedRegions xTotalHeapSize [] = (st, xTotalHeapSize)"

definition vPortDefineHeapRegions :: "'w heap5 \<Rightarrow> (nat \<times> nat) list \<Rightarrow> 'w heap5" where
  "vPortDefineHeapRegions st pxHeapRegions =
     (let (st, xTotalHeapSize) = define_regions st 0 0 pxHeapRegions
      in st\<lparr>xMinimumEverFreeBytesRemaining := xTotalHeapSize, xFreeBytesRemaining := xTotalHeapSize,
            xBlockAllocatedBit := push_bit (4 * 8 - 1) 1\<rparr>)"

section \<open>Inserting a block\<close>

partial_function (option) insert_iter :: "mem \<Rightarrow> nat \<Rightarrow> nat \<Rightarrow> nat option" where
  "insert_iter m pxIterator pxBlockToInsert =
     (if pxNextFreeBlock m pxIterator < pxBlockToInsert
      then insert_iter m (pxNextFreeBlock m pxIterator) pxBlockToInsert
      else Some pxIterator)"

text \<open>The merge with the following block.\<close>

definition insert_next :: "nat \<Rightarrow> mem \<Rightarrow> nat \<Rightarrow> nat \<Rightarrow> mem" where
  "insert_next px_end m pxIterator pxBlockToInsert =
     (if add32 pxBlockToInsert (xBlockSize m pxBlockToInsert) = pxNextFreeBlock m pxIterator then
        if pxNextFreeBlock m pxIterator \<noteq> px_end then
          let m = st32 m (pxBlockToInsert + 4)
                    (add32 (xBlockSize m pxBlockToInsert) (xBlockSize m (pxNextFreeBlock m pxIterator)))
          in st32 m pxBlockToInsert (pxNextFreeBlock m (pxNextFreeBlock m pxIterator))
        else st32 m pxBlockToInsert px_end
      else st32 m pxBlockToInsert (pxNextFreeBlock m pxIterator))"

definition prvInsertBlockIntoFreeList :: "'w heap5 \<Rightarrow> nat \<Rightarrow> 'w heap5 option" where
  "prvInsertBlockIntoFreeList st pxBlockToInsert = do {
     let m = hmem st;
     pxIterator \<leftarrow> insert_iter m (a_xStart st) pxBlockToInsert;
     let (m, pxBlockToInsert) =
       (if add32 pxIterator (xBlockSize m pxIterator) = pxBlockToInsert then
          (st32 m (pxIterator + 4) (add32 (xBlockSize m pxIterator) (xBlockSize m pxBlockToInsert)),
           pxIterator)
        else (m, pxBlockToInsert));
     let m = insert_next (pxEnd st) m pxIterator pxBlockToInsert;
     let m = (if pxIterator \<noteq> pxBlockToInsert then st32 m pxIterator pxBlockToInsert else m);
     Some (st\<lparr>hmem := m\<rparr>)
   }"

section \<open>Allocation and release\<close>

partial_function (option) malloc_walk :: "mem \<Rightarrow> nat \<Rightarrow> nat \<Rightarrow> nat \<Rightarrow> (nat \<times> nat) option" where
  "malloc_walk m pxPreviousBlock pxBlock xWantedSize =
     (if xBlockSize m pxBlock < xWantedSize \<and> pxNextFreeBlock m pxBlock \<noteq> 0
      then malloc_walk m pxBlock (pxNextFreeBlock m pxBlock) xWantedSize
      else Some (pxPreviousBlock, pxBlock))"

text \<open>The request with the header added, rounded up.\<close>

definition malloc_size :: "nat \<Rightarrow> nat" where
  "malloc_size xWantedSize =
     (if xWantedSize > 0 then
        let w = add32 xWantedSize uxHeapStructSize
        in if w AND portBYTE_ALIGNMENT_MASK \<noteq> 0
           then add32 w (portBYTE_ALIGNMENT - (w AND portBYTE_ALIGNMENT_MASK)) else w
      else xWantedSize)"

text \<open>What happens to a block found by the walk.\<close>

definition malloc_take :: "'w heap5 \<Rightarrow> nat \<Rightarrow> nat \<Rightarrow> nat \<Rightarrow> ('w heap5 \<times> nat) option" where
  "malloc_take st pxPreviousBlock pxBlock xWantedSize = do {
     let m = hmem st;
     let pvReturn = add32 (pxNextFreeBlock m pxPreviousBlock) uxHeapStructSize;
     let m = st32 m pxPreviousBlock (pxNextFreeBlock m pxBlock);
     st \<leftarrow> (if heapMINIMUM_BLOCK_SIZE < sub32 (xBlockSize m pxBlock) xWantedSize then
              let pxNewBlockLink = add32 pxBlock xWantedSize;
                  m = st32 m (pxNewBlockLink + 4) (sub32 (xBlockSize m pxBlock) xWantedSize);
                  m = st32 m (pxBlock + 4) xWantedSize
              in prvInsertBlockIntoFreeList (st\<lparr>hmem := m\<rparr>) pxNewBlockLink
            else Some (st\<lparr>hmem := m\<rparr>));
     let left = sub32 (xFreeBytesRemaining st) (xBlockSize (hmem st) pxBlock);
     let st = st\<lparr>xFreeBytesRemaining := left,
                 xMinimumEverFreeBytesRemaining := min left (xMinimumEverFreeBytesRemaining st)\<rparr>;
     let m = st32 (hmem st) (pxBlock + 4) (xBlockSize (hmem st) pxBlock OR xBlockAllocatedBit st);
     let m = st32 m pxBlock 0;
     Some (st\<lparr>hmem := m\<rparr>, pvReturn)
   }"

definition pvPortMalloc :: "'w heap5 \<Rightarrow> nat \<Rightarrow> ('w heap5 \<times> nat) option" where
  "pvPortMalloc st xWantedSize = do {
     let st = (if pxEnd st = 0 then vPortDefineHeapRegions st (xHeapRegions st) else st);
     let st = vTaskSuspendAll st;
     (st, pvReturn) \<leftarrow>
       (if xWantedSize AND xBlockAllocatedBit st = 0 then do {
          let xWantedSize = malloc_size xWantedSize;
          if xWantedSize > 0 \<and> xWantedSize \<le> xFreeBytesRemaining st then do {
            (pxPreviousBlock, pxBlock) \<leftarrow>
              malloc_walk (hmem st) (a_xStart st) (pxNextFreeBlock (hmem st) (a_xStart st)) xWantedSize;
            if pxBlock \<noteq> pxEnd st then malloc_take st pxPreviousBlock pxBlock xWantedSize
            else Some (st, 0)
          } else Some (st, 0)
        } else Some (st, 0));
     Some (xTaskResumeAll st, pvReturn)
   }"

definition vPortFree_internal :: "'w heap5 \<Rightarrow> nat \<Rightarrow> 'w heap5 option" where
  "vPortFree_internal st pv =
     (if pv \<noteq> 0 then
        let pxLink = sub32 pv uxHeapStructSize;
            m = hmem st
        in if xBlockSize m pxLink AND xBlockAllocatedBit st \<noteq> 0 then
             if pxNextFreeBlock m pxLink = 0 then do {
               let m = st32 m (pxLink + 4) (andnot32 (xBlockSize m pxLink) (xBlockAllocatedBit st));
               let st = vTaskSuspendAll (st\<lparr>hmem := m\<rparr>);
               let st = st\<lparr>xFreeBytesRemaining := add32 (xFreeBytesRemaining st) (xBlockSize m pxLink)\<rparr>;
               st \<leftarrow> prvInsertBlockIntoFreeList st pxLink;
               Some (xTaskResumeAll st)
             } else Some st
           else Some st
      else Some st)"

definition vPortSetExtFree ::
    "'w heap5 \<Rightarrow> (nat \<Rightarrow> mem \<times> 'w \<Rightarrow> (mem \<times> 'w) option) option \<Rightarrow> nat \<Rightarrow> nat \<Rightarrow> 'w heap5" where
  "vPortSetExtFree st f upper lower = st\<lparr>ext_free := f, ext_upper := upper, ext_lower := lower\<rparr>"

text \<open>A call of the external free function, on the shared memory.\<close>

definition call_ext_free :: "'w heap5 \<Rightarrow> nat \<Rightarrow> 'w heap5 option" where
  "call_ext_free st pv = (case ext_free st of
       None \<Rightarrow> Some st
     | Some f \<Rightarrow> map_option (\<lambda>(m, w). st\<lparr>hmem := m, ext_world := w\<rparr>) (f pv (hmem st, ext_world st)))"

definition vPortFree :: "'w heap5 \<Rightarrow> nat \<Rightarrow> 'w heap5 option" where
  "vPortFree st pv =
     (if ext_lower st \<le> pv \<and> pv < ext_upper st then call_ext_free st pv
      else vPortFree_internal st pv)"

definition xPortGetFreeHeapSize :: "'w heap5 \<Rightarrow> nat" where
  "xPortGetFreeHeapSize st = xFreeBytesRemaining st"

definition xPortGetMinimumEverFreeHeapSize :: "'w heap5 \<Rightarrow> nat" where
  "xPortGetMinimumEverFreeHeapSize st = xMinimumEverFreeBytesRemaining st"

definition pvPortReAlloc :: "'w heap5 \<Rightarrow> nat \<Rightarrow> nat \<Rightarrow> ('w heap5 \<times> nat) option" where
  "pvPortReAlloc st pv xWantedSize = do {
     (st, pv) \<leftarrow> (if ext_lower st \<le> pv \<and> pv < ext_upper st then do {
                     st \<leftarrow> call_ext_free st pv;
                     Some (st, 0)
                   } else Some (st, pv));
     if pv \<noteq> 0 then
       if xWantedSize = 0 then do {
         st \<leftarrow> vPortFree st pv;
         Some (st, 0)
       } else do {
         (st, newArea) \<leftarrow> pvPortMalloc st xWantedSize;
         if newArea \<noteq> 0 then do {
           let pxLink = sub32 pv uxHeapStructSize;
           let oldSize = s32 (sub32 (andnot32 (xBlockSize (hmem st) pxLink) (xBlockAllocatedBit st))
                                uxHeapStructSize);
           let copySize = (if u32 oldSize < xWantedSize then oldSize else s32 xWantedSize);
           let m = mem_cpy (hmem st) newArea pv (u32 copySize);
           let st = vTaskSuspendAll (st\<lparr>hmem := m\<rparr>);
           let m = st32 m (pxLink + 4) (andnot32 (xBlockSize m pxLink) (xBlockAllocatedBit st));
           let st = st\<lparr>hmem := m,
                       xFreeBytesRemaining := add32 (xFreeBytesRemaining st) (xBlockSize m pxLink)\<rparr>;
           st \<leftarrow> prvInsertBlockIntoFreeList st pxLink;
           Some (xTaskResumeAll st, newArea)
         } else Some (st, 0)
       }
     else if xWantedSize \<noteq> 0 then pvPortMalloc st xWantedSize
     else Some (st, 0)
   }"

section \<open>Constants\<close>

lemma struct_size [simp]: "uxHeapStructSize = 8"
  by (simp add: uxHeapStructSize_def portBYTE_ALIGNMENT_def portBYTE_ALIGNMENT_MASK_def
      andnot32_7 [of 15, simplified])

lemma min_block_size [simp]: "heapMINIMUM_BLOCK_SIZE = 16"
  by (simp add: heapMINIMUM_BLOCK_SIZE_def push_bit_eq_mult)

lemmas h5_consts [simp] = portBYTE_ALIGNMENT_def portBYTE_ALIGNMENT_MASK_def

definition hrup :: "nat \<Rightarrow> nat" where
  "hrup n = (if n = 0 then 0 else (n + 8 + 7) div 8 * 8)"

lemma hrup_props: "8 dvd hrup n" "0 < n \<Longrightarrow> 16 \<le> hrup n" "0 < n \<Longrightarrow> n + 8 \<le> hrup n" "hrup n \<le> n + 15"
  "0 < hrup n \<longleftrightarrow> 0 < n"
proof -
  have n: "n + 8 + 7 = n + 15" by simp
  have "n + 8 \<le> (n + 15) div 8 * 8" "(n + 15) div 8 * 8 \<le> n + 15" by linarith+
  then show "0 < n \<Longrightarrow> n + 8 \<le> hrup n" "hrup n \<le> n + 15"
    unfolding hrup_def n by (simp_all split: if_splits)
  have "n = 0 \<or> 2 \<le> (n + 15) div 8" by linarith
  then show "0 < n \<Longrightarrow> 16 \<le> hrup n" "0 < hrup n \<longleftrightarrow> 0 < n" unfolding hrup_def n by auto
qed (simp add: hrup_def)

lemma malloc_size_eq: "n < 2 ^ 31 \<Longrightarrow> malloc_size n = hrup n"
proof (cases "n = 0")
  case False
  assume n: "n < 2 ^ 31"
  have m: "(n + 8) AND 7 = (n + 8) mod 8"
    using take_bit_eq_mask [of 3 "n + 8"] by (simp add: mask_eq_exp_minus_1 take_bit_eq_mod)
  have r: "(n + 8) mod 8 = n mod 8" "n mod 8 < 8" by simp_all
  have e: "n = 8 * (n div 8) + n mod 8" by simp
  show ?thesis
  proof (cases "n mod 8 = 0")
    case True
    then obtain q where "n = 8 * q" by (auto simp: mod_eq_0_iff_dvd)
    then have "(n + 8 + 7) div 8 * 8 = n + 8" by simp
    with n False m r True show ?thesis by (simp add: malloc_size_def hrup_def Let_def)
  next
    case ne: False
    define q t where "q = n div 8" and "t = n mod 8"
    have t: "n = 8 * q + t" "0 < t" "t < 8" using e ne by (simp_all add: q_def t_def)
    have "(n + 8 + 7) div 8 = q + 2 + (t - 1) div 8"
    proof -
      have "n + 8 + 7 = (t - 1) + 8 * (q + 2)" using t by simp
      then show ?thesis by (simp only: div_mult_self4) simp
    qed
    then have "(n + 8 + 7) div 8 * 8 = n + 8 + (8 - t)" using t by simp
    with n False m r ne show ?thesis by (simp add: malloc_size_def hrup_def Let_def t_def)
  qed
qed (simp add: malloc_size_def hrup_def)

section \<open>The free list in memory\<close>

lemma insert_iter_finds:
  "chain m (ld32 m q0) bs e \<Longrightarrow> fl lo bs e \<Longrightarrow> b < e \<Longrightarrow>
   (insert_iter m q0 b = Some q0 \<and> (\<forall>x u zs. bs = (x, u) # zs \<longrightarrow> b \<le> x))
   \<or> (\<exists>xs q t ys. bs = xs @ (q, t) # ys \<and> insert_iter m q0 b = Some q \<and> q < b
        \<and> (\<forall>x u zs. ys = (x, u) # zs \<longrightarrow> b \<le> x))"
proof (induction bs arbitrary: q0 lo)
  case Nil
  then show ?case by (simp add: insert_iter.simps)
next
  case (Cons c bs)
  obtain a s where c: "c = (a, s)" by (cases c)
  have a: "ld32 m q0 = a" using Cons.prems c by simp
  show ?case
  proof (cases "a < b")
    case True
    then have i: "insert_iter m q0 b = insert_iter m a b" using a by (simp add: insert_iter.simps [of m q0])
    from Cons.IH [of a "a + ext s"] Cons.prems c consider
      (here) "insert_iter m a b = Some a" "\<forall>x u zs. bs = (x, u) # zs \<longrightarrow> b \<le> x"
      | (later) xs q t ys where "bs = xs @ (q, t) # ys" "insert_iter m a b = Some q" "q < b"
        "\<forall>x u zs. ys = (x, u) # zs \<longrightarrow> b \<le> x" by auto
    then show ?thesis
    proof cases
      case here
      with i c True show ?thesis
        by (intro disjI2 exI [of _ "[]"] exI [of _ a] exI [of _ s] exI [of _ bs]) simp
    next
      case later
      with i c show ?thesis
        by (intro disjI2 exI [of _ "c # xs"] exI [of _ q] exI [of _ t] exI [of _ ys]) simp
    qed
  next
    case False
    with a c show ?thesis by (auto simp: insert_iter.simps [of m q0])
  qed
qed

lemma insert_next_glue:
  assumes ch: "chain m (ld32 m it) ys e" and f: "fl (b + n) ys e" and sz: "ld32 m (b + 4) = n"
    and n: "8 \<le> n" and e: "e < 2 ^ 32" and away: "it = b \<or> it + 4 \<le> b \<or> b + 8 \<le> it"
  shows "chain (insert_next e m it b) b (glue (b, n) ys) e
    \<and> same_outside {b..<b + 8} m (insert_next e m it b)
    \<and> (it \<noteq> b \<longrightarrow> ld32 (insert_next e m it b) it = ld32 m it)"
proof -
  have hd: "headers ys \<inter> {b..<b + 8} = {}" using fl_headers [OF f] n by fastforce
  have le: "b + n \<le> e" by (rule fl_le [OF f])
  then have ad: "add32 b (ld32 m (b + 4)) = b + n" using sz e by simp
  have frame: "chain m' p zs r \<longleftrightarrow> chain m p zs r"
    if "same_outside {b..<b + 8} m m'" "set zs \<subseteq> set ys" for m' p zs r
    using that hd by (intro chain_frame) (auto simp: headers_def)
  have it: "ld32 m' it = ld32 m it" if "same_outside {b..<b + 8} m m'" "it \<noteq> b" for m'
    using ld32_frame [OF that(1), of it] away that(2) by fastforce
  show ?thesis
  proof (cases ys)
    case Nil
    then have x: "insert_next e m it b = st32 m b e" using ch sz ad by (simp add: insert_next_def)
    have so: "same_outside {b..<b + 8} m (st32 m b e)" by auto
    have "ld32 (st32 m b e) (b + 4) = n" using sz by (simp add: ld32_st32_other)
    with Nil x so it [OF so] e show ?thesis by simp
  next
    case (Cons y zs)
    obtain x u where y: "y = (x, u)" by (cases y)
    from ch Cons y have c: "ld32 m it = x" "ld32 m (x + 4) = u" "chain m (ld32 m x) zs e" by auto
    from f Cons y have g: "b + n \<le> x" "fl (x + ext u) zs e" by auto
    have xe: "x + u \<le> e" "x \<noteq> e" using fl_le [OF g(2)] by auto
    show ?thesis
    proof (cases "b + n = x")
      case True
      let ?m1 = "st32 m (b + 4) (n + u)"
      let ?m2 = "st32 ?m1 b (ld32 m x)"
      have s1: "same_outside {b..<b + 8} m ?m1" by auto
      have "same_outside {b..<b + 8} ?m1 ?m2" by auto
      from same_outside_trans [OF s1 this] have so: "same_outside {b..<b + 8} m ?m2" by simp
      have i1: "ld32 ?m1 it = x"
        using c(1) away by (subst ld32_st32_other) auto
      have x1: "ld32 ?m1 x = ld32 m x" using True n by (subst ld32_st32_other) auto
      have "insert_next e m it b = ?m2"
        using True c ad sz xe e i1 x1 by (simp add: insert_next_def)
      moreover have "ld32 ?m2 (b + 4) = n + u"
        using True xe e by (subst ld32_st32_other) auto
      moreover have "ld32 ?m2 b = ld32 m x" by simp
      moreover have "chain ?m2 (ld32 m x) zs e" using c(3) frame [OF so, of zs] Cons by auto
      ultimately show ?thesis using True so it [OF so] Cons y by simp
    next
      case False
      have so: "same_outside {b..<b + 8} m (st32 m b x)" by auto
      have xm: "x < 2 ^ 32" using xe e by simp
      have "insert_next e m it b = st32 m b x" using False c ad sz by (simp add: insert_next_def)
      moreover have "ld32 (st32 m b x) (b + 4) = n" using sz by (simp add: ld32_st32_other)
      moreover have "chain (st32 m b x) x ys e" using ch c(1) frame [OF so, of ys] by simp
      ultimately show ?thesis using False so it [OF so] Cons y xm by simp
    qed
  qed
qed

text \<open>The header of the free list: \<open>xStart\<close> is a block of size 0 that overlaps neither a free
  block nor the end marker. It may lie between two regions.\<close>

definition start_ok :: "mem \<Rightarrow> nat \<Rightarrow> block list \<Rightarrow> nat \<Rightarrow> bool" where
  "start_ok m xs bs e \<longleftrightarrow> ld32 m (xs + 4) = 0 \<and> xs < 2 ^ 32
     \<and> {xs..<xs + 8} \<inter> extents bs = {} \<and> {xs..<xs + 8} \<inter> {e..<e + 8} = {}"

definition h5_list :: "'w heap5 \<Rightarrow> nat \<Rightarrow> block list \<Rightarrow> bool" where
  "h5_list st lo bs \<longleftrightarrow> chain (hmem st) (ld32 (hmem st) (a_xStart st)) bs (pxEnd st)
     \<and> fl lo bs (pxEnd st) \<and> start_ok (hmem st) (a_xStart st) bs (pxEnd st)
     \<and> 0 < lo \<and> pxEnd st < 2 ^ 32"

text \<open>A block of \<open>n\<close> bytes at \<open>b\<close> that may join the list.\<close>

definition joins :: "'w heap5 \<Rightarrow> nat \<Rightarrow> block list \<Rightarrow> nat \<Rightarrow> nat \<Rightarrow> bool" where
  "joins st lo bs b n \<longleftrightarrow> lo \<le> b \<and> b + n \<le> pxEnd st \<and> {b..<b + n} \<inter> extents bs = {}
     \<and> {b..<b + n} \<inter> {a_xStart st..<a_xStart st + 8} = {} \<and> 8 \<le> n \<and> ld32 (hmem st) (b + 4) = n"

definition inserted :: "'w heap5 \<Rightarrow> block list \<Rightarrow> nat \<Rightarrow> nat \<Rightarrow> mem \<Rightarrow> bool" where
  "inserted st bs b n m \<longleftrightarrow> prvInsertBlockIntoFreeList st b = Some (st\<lparr>hmem := m\<rparr>)
    \<and> chain m (ld32 m (a_xStart st)) (fl_insert (b, n) bs) (pxEnd st)
    \<and> same_outside ({a_xStart st..<a_xStart st + 4} \<union> headers bs \<union> {b..<b + 8}) (hmem st) m"

lemma start_headers: "start_ok m xs bs e \<Longrightarrow> {xs..<xs + 8} \<inter> headers bs = {}"
  using headers_extents [of bs] by (auto simp: start_ok_def)

lemma ivl_disjoint: "{a..<a + k} \<inter> {b..<b + l} = {} \<Longrightarrow> 0 < k \<Longrightarrow> 0 < l \<Longrightarrow> a + k \<le> b \<or> b + l \<le> (a :: nat)"
proof (rule ccontr)
  assume a: "{a..<a + k} \<inter> {b..<b + l} = {}" "0 < k" "0 < l" "\<not> (a + k \<le> b \<or> b + l \<le> a)"
  then have "max a b \<in> {a..<a + k} \<inter> {b..<b + l}" by auto
  with a(1) show False by simp
qed

lemma joins_start: "joins st lo bs b n \<Longrightarrow> a_xStart st + 8 \<le> b \<or> b + 8 \<le> a_xStart st"
  using ivl_disjoint [of b n "a_xStart st" 8] by (auto simp: joins_def)

lemma insert_first:
  assumes L: "h5_list st lo bs" and J: "joins st lo bs b n"
    and it: "insert_iter (hmem st) (a_xStart st) b = Some (a_xStart st)"
    and hd: "\<forall>x u zs. bs = (x, u) # zs \<longrightarrow> b \<le> x"
  shows "\<exists>m. inserted st bs b n m"
proof -
  let ?m = "hmem st" and ?xs = "a_xStart st" and ?e = "pxEnd st"
  note L' = L [unfolded h5_list_def] and J' = J [unfolded joins_def]
  have xb: "?xs + 8 \<le> b \<or> b + 8 \<le> ?xs" by (rule joins_start [OF J])
  have g: "fl (b + n) bs ?e" "\<forall>x u zs. bs = (x, u) # zs \<longrightarrow> b < x"
    using fl_after [OF hd, of lo ?e n] L' J' by auto
  let ?m1 = "insert_next ?e ?m ?xs b"
  have N: "chain ?m1 b (glue (b, n) bs) ?e \<and> same_outside {b..<b + 8} ?m ?m1"
    using insert_next_glue [of ?m ?xs bs ?e b n] L' J' g(1) xb by auto
  let ?m2 = "st32 ?m1 ?xs b"
  have "add32 ?xs (ld32 ?m (?xs + 4)) \<noteq> b" "?xs \<noteq> b" using L' xb by (auto simp: start_ok_def)
  then have r: "prvInsertBlockIntoFreeList st b = Some (st\<lparr>hmem := ?m2\<rparr>)"
    using it by (simp add: prvInsertBlockIntoFreeList_def)
  have gl: "headers (glue (b, n) bs) \<subseteq> headers bs \<union> {b..<b + 8}"
    by (cases bs) (auto split: if_splits)
  have "{?xs..<?xs + 4} \<subseteq> {?xs..<?xs + 8}" "{?xs..<?xs + 4} \<inter> {b..<b + 8} = {}" using xb by auto
  then have "{?xs..<?xs + 4} \<inter> (headers bs \<union> {b..<b + 8}) = {}"
    using start_headers [of ?m ?xs bs ?e] L' by blast
  then have "{?xs..<?xs + 4} \<inter> headers (glue (b, n) bs) = {}" using gl by blast
  then have "chain ?m2 b (glue (b, n) bs) ?e" using N by (simp add: chain_st32)
  moreover have "ld32 ?m2 ?xs = b" using L' J' by simp
  moreover have "fl_insert (b, n) bs = glue (b, n) bs" by (rule fl_insert_before [OF g(2)])
  moreover have "same_outside ({?xs..<?xs + 4} \<union> headers bs \<union> {b..<b + 8}) ?m ?m2"
  proof -
    have "same_outside {?xs..<?xs + 4} ?m1 ?m2" by auto
    with N have "same_outside ({b..<b + 8} \<union> {?xs..<?xs + 4}) ?m ?m2"
      using same_outside_trans by blast
    then show ?thesis by (rule same_outside_mono) auto
  qed
  ultimately show ?thesis using r by (auto simp: inserted_def)
qed

text \<open>The situation when the walk stops at a block \<open>q\<close> before the place of \<open>b\<close>.\<close>

lemma later_facts:
  assumes L: "h5_list st lo bs" and J: "joins st lo bs b n"
    and bs: "bs = xs @ (q, t) # ys" and q: "q < b" and hd: "\<forall>x u zs. ys = (x, u) # zs \<longrightarrow> b \<le> x"
  shows "fl lo xs q" "q + ext t \<le> b" "fl (b + n) ys (pxEnd st)" "\<forall>x u zs. ys = (x, u) # zs \<longrightarrow> b < x"
    "chain (hmem st) (ld32 (hmem st) (a_xStart st)) xs q" "ld32 (hmem st) (q + 4) = t"
    "chain (hmem st) (ld32 (hmem st) q) ys (pxEnd st)"
    "headers xs \<inter> {q..<q + 8} = {}" "headers xs \<inter> {b..<b + 8} = {}" "{q..<q + 8} \<subseteq> headers bs"
    "{a_xStart st..<a_xStart st + 4} \<inter> {q..<q + 8} = {}"
    "{a_xStart st..<a_xStart st + 4} \<inter> {b..<b + 8} = {}"
proof -
  note L' = L [unfolded h5_list_def] and J' = J [unfolded joins_def]
  have fq: "fl lo xs q" "fl q ((q, t) # ys) (pxEnd st)" using L' bs by (simp_all add: fl_append)
  show "fl lo xs q" by (rule fq)
  have "{q..<q + ext t} \<subseteq> extents bs" "b \<in> {b..<b + n}" using bs J' by auto
  then have "b \<notin> {q..<q + ext t}" using J' by blast
  with q show "q + ext t \<le> b" by (simp only: atLeastLessThan_iff) linarith
  have "extents ys \<subseteq> extents bs" using bs by auto
  then have "{b..<b + n} \<inter> extents ys = {}" using J' by blast
  then show "fl (b + n) ys (pxEnd st)" "\<forall>x u zs. ys = (x, u) # zs \<longrightarrow> b < x"
    using fl_after [OF hd, of "q + ext t" "pxEnd st" n] fq(2) J' by auto
  show "chain (hmem st) (ld32 (hmem st) (a_xStart st)) xs q" "ld32 (hmem st) (q + 4) = t"
    "chain (hmem st) (ld32 (hmem st) q) ys (pxEnd st)"
    using L' bs by (auto simp: chain_append)
  show "headers xs \<inter> {q..<q + 8} = {}" "headers xs \<inter> {b..<b + 8} = {}"
    using fl_headers [OF fq(1)] q by fastforce+
  show h: "{q..<q + 8} \<subseteq> headers bs" using bs by auto
  have "{a_xStart st..<a_xStart st + 8} \<inter> headers bs = {}"
    using start_headers L' by blast
  then show "{a_xStart st..<a_xStart st + 4} \<inter> {q..<q + 8} = {}" using h by fastforce
  show "{a_xStart st..<a_xStart st + 4} \<inter> {b..<b + 8} = {}"
    using joins_start [OF J] by auto
qed

lemma insert_merge:
  assumes L: "h5_list st lo bs" and J: "joins st lo bs b n"
    and bs: "bs = xs @ (q, t) # ys" and q: "q < b" and hd: "\<forall>x u zs. ys = (x, u) # zs \<longrightarrow> b \<le> x"
    and it: "insert_iter (hmem st) (a_xStart st) b = Some q" and adj: "q + t = b"
  shows "\<exists>m. inserted st bs b n m"
proof -
  let ?m = "hmem st" and ?xs = "a_xStart st" and ?e = "pxEnd st"
  note L' = L [unfolded h5_list_def] and J' = J [unfolded joins_def]
  note F = later_facts [OF L J bs q hd]
  let ?m1 = "st32 ?m (q + 4) (t + n)"
  have sz: "t + n < 2 ^ 32" using adj J' L' by simp
  have hy: "headers ys \<inter> {q..<q + 8} = {}" using fl_headers [OF F(3)] F(2) J' by fastforce
  have so1: "same_outside {q..<q + 8} ?m ?m1" by auto
  have c1: "chain ?m1 (ld32 ?m1 q) ys ?e" "ld32 ?m1 (q + 4) = t + n"
    using F(7) chain_frame [OF so1 hy] sz by (simp_all add: ld32_st32_other)
  let ?m2 = "insert_next ?e ?m1 q q"
  have N: "chain ?m2 q (glue (q, t + n) ys) ?e \<and> same_outside {q..<q + 8} ?m1 ?m2"
  proof -
    have "fl (q + (t + n)) ys ?e" using F(3) adj by (simp flip: add.assoc)
    then show ?thesis using insert_next_glue [OF c1(1) _ c1(2)] J' L' by simp
  qed
  have so2: "same_outside {q..<q + 8} ?m ?m2" using same_outside_trans [OF so1] N by fastforce
  have "add32 q (ld32 ?m (q + 4)) = b" using F(6) adj J' L' by simp
  moreover have "add32 (ld32 ?m (q + 4)) (ld32 ?m (b + 4)) = t + n" using F(6) J' sz by simp
  ultimately have r: "prvInsertBlockIntoFreeList st b = Some (st\<lparr>hmem := ?m2\<rparr>)"
    using it by (simp add: prvInsertBlockIntoFreeList_def)
  have "ld32 ?m2 ?xs = ld32 ?m ?xs" by (rule ld32_frame [OF so2 F(11)])
  moreover have "chain ?m2 (ld32 ?m ?xs) xs q" using F(5) chain_frame [OF so2 F(8)] by simp
  moreover have "fl_insert (b, n) bs = xs @ glue (q, t + n) ys"
    using fl_insert_at [of lo xs q t ys ?e b n] L' bs q F(4) adj by simp
  ultimately have "chain ?m2 (ld32 ?m2 ?xs) (fl_insert (b, n) bs) ?e"
    using N by (auto simp: chain_append)
  moreover have "same_outside ({?xs..<?xs + 4} \<union> headers bs \<union> {b..<b + 8}) ?m ?m2"
    by (rule same_outside_mono [OF so2]) (use F(10) in blast)
  ultimately show ?thesis using r unfolding inserted_def by blast
qed

lemma insert_link:
  assumes L: "h5_list st lo bs" and J: "joins st lo bs b n"
    and bs: "bs = xs @ (q, t) # ys" and q: "q < b" and hd: "\<forall>x u zs. ys = (x, u) # zs \<longrightarrow> b \<le> x"
    and it: "insert_iter (hmem st) (a_xStart st) b = Some q" and adj: "q + t \<noteq> b"
  shows "\<exists>m. inserted st bs b n m"
proof -
  let ?m = "hmem st" and ?xs = "a_xStart st" and ?e = "pxEnd st"
  note L' = L [unfolded h5_list_def] and J' = J [unfolded joins_def]
  note F = later_facts [OF L J bs q hd]
  let ?m1 = "insert_next ?e ?m q b"
  have N: "chain ?m1 b (glue (b, n) ys) ?e \<and> same_outside {b..<b + 8} ?m ?m1"
  proof -
    have "q = b \<or> q + 4 \<le> b \<or> b + 8 \<le> q"
      using F(2) max.cobounded1 [of 8 t] by linarith
    then show ?thesis using insert_next_glue [OF F(7) F(3)] J' L' by blast
  qed
  let ?m2 = "st32 ?m1 q b"
  have qb: "{q..<q + 8} \<inter> {b..<b + 8} = {}" using F(2) by auto
  have so1: "same_outside {b..<b + 8} ?m ?m1" and so2: "same_outside {q..<q + 8} ?m1 ?m2"
    using N by auto
  have so3: "same_outside ({q..<q + 8} \<union> {b..<b + 8}) ?m ?m2"
    using same_outside_trans [OF so1 so2] by (simp add: Un_commute)
  have gl: "headers (glue (b, n) ys) \<subseteq> headers ys \<union> {b..<b + 8}"
    by (cases ys) (auto split: if_splits)
  have "headers ys \<inter> {q..<q + 8} = {}" using fl_headers [OF F(3)] F(2) J' by fastforce
  then have "{q..<q + 4} \<inter> headers (glue (b, n) ys) = {}" using gl qb by fastforce
  then have k1: "chain ?m2 b (glue (b, n) ys) ?e" using N by (simp add: chain_st32)
  have k2: "ld32 ?m2 q = b" using J' L' by simp
  have k3: "ld32 ?m2 (q + 4) = t"
    using F(6) ld32_frame [OF so1, of "q + 4"] F(2) by (simp add: ld32_st32_other)
  have k4: "chain ?m2 (ld32 ?m ?xs) xs q"
    using F(5) chain_frame [OF so3, of xs] F(8,9) by (simp add: Int_Un_distrib)
  have k5: "ld32 ?m2 ?xs = ld32 ?m ?xs"
    using ld32_frame [OF so3, of ?xs] F(11,12) by (simp add: Int_Un_distrib)
  have "q + t < 2 ^ 32" using F(2) J' L' max.cobounded2 [of t 8] by linarith
  then have "add32 q (ld32 ?m (q + 4)) \<noteq> b" using F(6) adj by simp
  then have r: "prvInsertBlockIntoFreeList st b = Some (st\<lparr>hmem := ?m2\<rparr>)"
    using it q by (auto simp: prvInsertBlockIntoFreeList_def)
  moreover have "fl_insert (b, n) bs = xs @ (q, t) # glue (b, n) ys"
    using fl_insert_at [of lo xs q t ys ?e b n] L' bs q F(4) adj by simp
  then have "chain ?m2 (ld32 ?m2 ?xs) (fl_insert (b, n) bs) ?e"
    using k1 k2 k3 k4 k5 by (auto simp: chain_append)
  moreover have "same_outside ({?xs..<?xs + 4} \<union> headers bs \<union> {b..<b + 8}) ?m ?m2"
    by (rule same_outside_mono [OF so3]) (use F(10) in blast)
  ultimately show ?thesis unfolding inserted_def by blast
qed

lemma insert_refines:
  assumes L: "h5_list st lo bs" and J: "joins st lo bs b n"
  shows "\<exists>m. inserted st bs b n m"
proof -
  have "b < pxEnd st" using J by (simp add: joins_def)
  with insert_iter_finds [of "hmem st" "a_xStart st" bs "pxEnd st" lo b] L consider
      (first) "insert_iter (hmem st) (a_xStart st) b = Some (a_xStart st)"
        "\<forall>x u zs. bs = (x, u) # zs \<longrightarrow> b \<le> x"
    | (later) xs q t ys where "bs = xs @ (q, t) # ys" "q < b"
        "\<forall>x u zs. ys = (x, u) # zs \<longrightarrow> b \<le> x" "insert_iter (hmem st) (a_xStart st) b = Some q"
    unfolding h5_list_def by blast
  then show ?thesis
  proof cases
    case first
    then show ?thesis by (rule insert_first [OF L J])
  next
    case later
    then show ?thesis using insert_merge [OF L J] insert_link [OF L J] by blast
  qed
qed

section \<open>Allocation on the abstract list\<close>

definition hok :: "block list \<Rightarrow> bool" where
  "hok bs \<longleftrightarrow> (\<forall>(a, s)\<in>set bs. 8 dvd a \<and> 8 dvd s)"

lemma hok_simps [simp]:
  "hok []" "hok ((a, s) # bs) \<longleftrightarrow> 8 dvd a \<and> 8 dvd s \<and> hok bs" "hok (bs @ cs) \<longleftrightarrow> hok bs \<and> hok cs"
  by (auto simp: hok_def)

lemma hok_glue: "hok bs \<Longrightarrow> 8 dvd p \<Longrightarrow> 8 dvd n \<Longrightarrow> hok (glue (p, n) bs)"
  by (cases bs) auto

lemma hok_fl_insert: "hok bs \<Longrightarrow> 8 dvd p \<Longrightarrow> 8 dvd n \<Longrightarrow> hok (fl_insert (p, n) bs)"
proof (induction "(p, n)" bs rule: fl_insert.induct)
  case (2 a s bs)
  then show ?case
    using hok_glue [of "(a, s) # bs" p n] hok_glue [of bs a "s + n"] by (auto simp del: glue_simps)
qed simp

lemma headers_fl_insert: "headers (fl_insert (p, n) bs) \<subseteq> headers bs \<union> {p..<p + 8}"
proof (induction "(p, n)" bs rule: fl_insert.induct)
  case (2 a s bs)
  have "headers (glue (x, k) cs) \<subseteq> headers cs \<union> {x..<x + 8}" for x k cs
    by (cases cs) (auto split: if_splits)
  note g = this [of p n "(a, s) # bs"] this [of a "s + n" bs]
  with 2 show ?case by (auto simp del: glue_simps)
qed auto

lemma fl_remove: "fl lo (xs @ (b, s) # ys) hi \<Longrightarrow> fl lo (xs @ ys) hi"
proof (induction xs arbitrary: lo)
  case Nil
  then show ?case by (auto elim: fl_mono_lo)
next
  case (Cons x xs)
  then show ?case by (cases x) auto
qed

lemma fl_middle:
  assumes "fl lo (xs @ (b, s) # ys) hi"
  shows "lo \<le> b" "b + ext s \<le> hi" "extents (xs @ ys) \<inter> {b..<b + ext s} = {}"
proof -
  have f: "fl lo xs b" "fl (b + ext s) ys hi" using assms by (simp_all add: fl_append)
  show "lo \<le> b" "b + ext s \<le> hi" using fl_le [OF f(1)] fl_le [OF f(2)] by auto
  show "extents (xs @ ys) \<inter> {b..<b + ext s} = {}"
    using fl_extents [OF f(1)] fl_extents [OF f(2)] by fastforce
qed

text \<open>What is left when the block \<open>(b, s)\<close> serves a request of \<open>w\<close> bytes, and how much it takes.\<close>

definition taken :: "nat \<Rightarrow> nat \<Rightarrow> nat" where
  "taken w s = (if 16 < s - w then w else s)"

definition fl_take :: "nat \<Rightarrow> nat \<Rightarrow> nat \<Rightarrow> block list \<Rightarrow> block list" where
  "fl_take w b s bs = (if 16 < s - w then fl_insert (b + w, s - w) bs else bs)"

lemma taken_props: "w \<le> s \<Longrightarrow> w \<le> taken w s \<and> taken w s \<le> s" "8 dvd w \<Longrightarrow> 8 dvd s \<Longrightarrow> 8 dvd taken w s"
  by (auto simp: taken_def)

lemma fl_take_bytes:
  assumes "fl lo (xs @ (b, s) # ys) hi" "w \<le> s"
  shows "bytes (fl_take w b s (xs @ ys)) = bytes (xs @ (b, s) # ys) - {b..<b + taken w s}"
    "{b..<b + taken w s} \<subseteq> bytes (xs @ (b, s) # ys)"
    "total (fl_take w b s (xs @ ys)) + taken w s = total (xs @ (b, s) # ys)"
proof -
  have d: "bytes (xs @ ys) \<inter> {b..<b + s} = {}"
    using fl_middle(3) [OF assms(1)] bytes_extents [of "xs @ ys"] by fastforce
  have tk: "taken w s \<le> s" using taken_props assms(2) by blast
  have "bytes (fl_take w b s (xs @ ys)) = bytes (xs @ ys) \<union> {b + taken w s..<b + s}"
    using assms(2) by (auto simp: fl_take_def taken_def bytes_fl_insert)
  moreover have "{b..<b + s} = {b..<b + taken w s} \<union> {b + taken w s..<b + s}" using tk by auto
  moreover have "{b..<b + taken w s} \<inter> {b + taken w s..<b + s} = {}" by auto
  moreover have "bytes (xs @ (b, s) # ys) = bytes (xs @ ys) \<union> {b..<b + s}" by auto
  ultimately show "bytes (fl_take w b s (xs @ ys)) = bytes (xs @ (b, s) # ys) - {b..<b + taken w s}"
    "{b..<b + taken w s} \<subseteq> bytes (xs @ (b, s) # ys)"
    using d by blast+
  show "total (fl_take w b s (xs @ ys)) + taken w s = total (xs @ (b, s) # ys)"
    using assms(2) by (simp add: fl_take_def taken_def total_fl_insert)
qed

lemma fl_take_extents:
  assumes "fl lo (xs @ (b, s) # ys) hi" "w \<le> s"
  shows "extents (fl_take w b s (xs @ ys)) \<subseteq> extents (xs @ (b, s) # ys) - {b..<b + taken w s}"
proof -
  have "extents (fl_take w b s (xs @ ys)) \<subseteq> extents (xs @ ys) \<union> {b + taken w s..<b + s}"
  proof (cases "16 < s - w")
    case True
    then show ?thesis
      using assms(2) extents_fl_insert [of "s - w" "b + w" "xs @ ys"]
      by (simp add: fl_take_def taken_def Un_commute)
  qed (simp add: fl_take_def)
  moreover have "extents (xs @ ys) \<inter> {b..<b + s} = {}"
    using fl_middle(3) [OF assms(1)] by fastforce
  moreover have "{b..<b + taken w s} \<subseteq> {b..<b + s}" using taken_props assms(2) by fastforce
  moreover have "{b + taken w s..<b + s} \<subseteq> {b..<b + ext s}" by auto
  moreover have "extents (xs @ (b, s) # ys) = extents (xs @ ys) \<union> {b..<b + ext s}" by auto
  moreover have "{b..<b + taken w s} \<inter> {b + taken w s..<b + s} = {}" by auto
  ultimately show ?thesis by blast
qed

section \<open>The walk for a block\<close>

lemma malloc_walk_finds:
  "chain m (ld32 m p0) bs e \<Longrightarrow> fl lo bs e \<Longrightarrow> 0 < lo \<Longrightarrow> ld32 m e = 0 \<Longrightarrow> ld32 m (e + 4) = 0 \<Longrightarrow> 0 < w \<Longrightarrow>
   (\<exists>p. malloc_walk m p0 (ld32 m p0) w = Some (p, e) \<and> (\<forall>(a, s)\<in>set bs. s < w))
   \<or> (\<exists>p b s xs ys. malloc_walk m p0 (ld32 m p0) w = Some (p, b) \<and> bs = xs @ (b, s) # ys \<and> w \<le> s
        \<and> b \<noteq> e \<and> ld32 m p = b \<and> (xs = [] \<and> p = p0 \<or> (\<exists>us t. xs = us @ [(p, t)])))"
proof (induction bs arbitrary: p0 lo)
  case Nil
  then show ?case by (simp add: malloc_walk.simps)
next
  case (Cons c bs)
  obtain a s where c: "c = (a, s)" by (cases c)
  note P = Cons.prems [unfolded c]
  from P have a: "ld32 m p0 = a" "ld32 m (a + 4) = s" "chain m (ld32 m a) bs e" "fl (a + ext s) bs e"
    "0 < a" by auto
  have ae: "a < e" using fl_le [OF a(4)] by (simp add: max_def split: if_splits)
  show ?case
  proof (cases "s < w")
    case False
    then have "malloc_walk m p0 a w = Some (p0, a)" using a by (simp add: malloc_walk.simps [of m p0])
    with a False c ae show ?thesis by (intro disjI2) fastforce
  next
    case True
    have "ld32 m a \<noteq> 0" using a(3,4) ae by (cases bs) auto
    then have st: "malloc_walk m p0 a w = malloc_walk m a (ld32 m a) w"
      using True a by (simp add: malloc_walk.simps [of m p0])
    have "(\<exists>p. malloc_walk m a (ld32 m a) w = Some (p, e) \<and> (\<forall>(a, s)\<in>set bs. s < w))
      \<or> (\<exists>p b s xs ys. malloc_walk m a (ld32 m a) w = Some (p, b) \<and> bs = xs @ (b, s) # ys \<and> w \<le> s
        \<and> b \<noteq> e \<and> ld32 m p = b \<and> (xs = [] \<and> p = a \<or> (\<exists>us t. xs = us @ [(p, t)])))"
      by (rule Cons.IH [OF a(3,4) _ P(4-6)]) (simp add: a(5))
    then consider
      (none) p where "malloc_walk m a (ld32 m a) w = Some (p, e)" "\<forall>(a, s)\<in>set bs. s < w"
    | (found) p b s' xs ys where "malloc_walk m a (ld32 m a) w = Some (p, b)" "bs = xs @ (b, s') # ys"
        "w \<le> s'" "b \<noteq> e" "ld32 m p = b" "xs = [] \<and> p = a \<or> (\<exists>us t. xs = us @ [(p, t)])" by blast
    then show ?thesis
    proof cases
      case none
      with st a c True show ?thesis by auto
    next
      case found
      have "\<exists>us t. c # xs = us @ [(p, t)]" using found(6) c by (metis append_Cons append_Nil)
      with found(1-5) st a c show ?thesis
        by (intro disjI2 exI [of _ p] exI [of _ b] exI [of _ s'] exI [of _ "c # xs"] exI [of _ ys]) simp
    qed
  qed
qed

lemma unlink:
  assumes ch: "chain m (ld32 m x) (xs @ (b, s) # ys) e" and f: "fl lo (xs @ (b, s) # ys) e"
    and p: "xs = [] \<and> p = x \<or> (\<exists>us t. xs = us @ [(p, t)])"
    and x: "{x..<x + 8} \<inter> extents (xs @ (b, s) # ys) = {}" "e < 2 ^ 32"
  shows "chain (st32 m p (ld32 m b)) (ld32 (st32 m p (ld32 m b)) x) (xs @ ys) e"
    "{p..<p + 4} \<inter> {b..<b + ext s} = {}" "{p..<p + 4} \<subseteq> {x..<x + 4} \<union> headers xs"
proof -
  have fs: "fl lo xs b" "fl (b + ext s) ys e" using f by (simp_all add: fl_append)
  have c: "chain m (ld32 m x) xs b" "chain m (ld32 m b) ys e" using ch by (auto simp: chain_append)
  let ?m = "st32 m p (ld32 m b)"
  have be: "ld32 m b mod 2 ^ 32 = ld32 m b" by simp
  have "chain ?m (ld32 ?m x) (xs @ ys) e \<and> {p..<p + 4} \<inter> {b..<b + ext s} = {}
    \<and> {p..<p + 4} \<subseteq> {x..<x + 4} \<union> headers xs"
  proof (cases "xs = []")
    case True
    with p have px: "p = x" by simp
    have sub: "{x..<x + 4} \<subseteq> {x..<x + 8}" "headers ys \<subseteq> extents (xs @ (b, s) # ys)"
      "{b..<b + ext s} \<subseteq> extents (xs @ (b, s) # ys)" using headers_extents [of ys] by auto
    then have "{x..<x + 4} \<inter> headers ys = {}" using x by blast
    then have "chain ?m (ld32 m b) ys e" using c px by (simp add: chain_st32)
    moreover have "{x..<x + 4} \<inter> {b..<b + ext s} = {}" using x sub by blast
    ultimately show ?thesis using px True be by auto
  next
    case False
    then obtain us t where xs: "xs = us @ [(p, t)]" using p by blast
    have g: "fl lo us p" "p + ext t \<le> b" using fs(1) xs by (simp_all add: fl_append)
    have d: "{p..<p + 4} \<inter> headers us = {}" "{p..<p + 4} \<inter> headers ys = {}"
      using fl_headers [OF g(1)] fl_headers [OF fs(2)] g(2) by fastforce+
    have cu: "chain m (ld32 m x) us p" "ld32 m (p + 4) = t" using c xs by (auto simp: chain_append)
    have "ld32 ?m x = ld32 m x"
    proof (rule ld32_frame)
      show "same_outside {p..<p + 4} m ?m" by auto
      have "{p..<p + 4} \<subseteq> extents (xs @ (b, s) # ys)" using xs by (auto simp: max_def)
      then show "{x..<x + 4} \<inter> {p..<p + 4} = {}" using x(1) by fastforce
    qed
    moreover have "chain ?m (ld32 m x) us p" using cu d by (simp add: chain_st32)
    moreover have "chain ?m (ld32 m b) ys e" using c d by (simp add: chain_st32)
    moreover have "ld32 ?m (p + 4) = t" using cu by (simp add: ld32_st32_other)
    moreover have "ld32 ?m p = ld32 m b" by simp
    moreover have "{p..<p + 4} \<inter> {b..<b + ext s} = {}" using g(2) by auto
    ultimately show ?thesis using xs by (auto simp: chain_append)
  qed
  then show "chain ?m (ld32 ?m x) (xs @ ys) e" "{p..<p + 4} \<inter> {b..<b + ext s} = {}"
    "{p..<p + 4} \<subseteq> {x..<x + 4} \<union> headers xs" by blast+
qed

section \<open>The heap in memory\<close>

definition h5_rep :: "'w heap5 \<Rightarrow> nat \<Rightarrow> block list \<Rightarrow> bool" where
  "h5_rep st lo bs \<longleftrightarrow> h5_list st lo bs \<and> hok bs \<and> pxEnd st < lo + 2 ^ 31
     \<and> ld32 (hmem st) (pxEnd st) = 0 \<and> ld32 (hmem st) (pxEnd st + 4) = 0
     \<and> xFreeBytesRemaining st = total bs \<and> xBlockAllocatedBit st = 2 ^ 31"

lemma h5_list_frame [list_frame]:
  assumes L: "h5_list st lo bs" and so: "same_outside F (hmem st) m"
    and d: "F \<inter> headers bs = {}" "F \<inter> {a_xStart st..<a_xStart st + 8} = {}"
  shows "h5_list (st\<lparr>hmem := m\<rparr>) lo bs"
proof -
  have "{a_xStart st..<a_xStart st + 4} \<subseteq> {a_xStart st..<a_xStart st + 8}"
    "{a_xStart st + 4..<a_xStart st + 4 + 4} \<subseteq> {a_xStart st..<a_xStart st + 8}" by auto
  then have "ld32 m (a_xStart st) = ld32 (hmem st) (a_xStart st)"
    "ld32 m (a_xStart st + 4) = ld32 (hmem st) (a_xStart st + 4)"
    using d(2) by (intro ld32_frame [OF so]; blast)+
  moreover have "headers bs \<inter> F = {}" using d(1) by blast
  ultimately show ?thesis
    using L chain_frame [OF so] by (simp add: h5_list_def start_ok_def)
qed

lemma start_extents: "h5_list st lo bs \<Longrightarrow> {a_xStart st..<a_xStart st + 8} \<inter> extents bs = {}"
  by (simp add: h5_list_def start_ok_def)

lemma end_extents: "h5_list st lo bs \<Longrightarrow> {pxEnd st..<pxEnd st + 8} \<inter> extents bs = {}"
  using fl_extents [of lo bs "pxEnd st"] by (fastforce simp: h5_list_def)

lemma start_end: "h5_list st lo bs \<Longrightarrow> {a_xStart st..<a_xStart st + 8} \<inter> {pxEnd st..<pxEnd st + 8} = {}"
  by (simp add: h5_list_def start_ok_def)

text \<open>What a found block becomes: the memory written by \<open>malloc_take\<close>, before the free count.\<close>

definition take_link :: "'w heap5 \<Rightarrow> nat \<Rightarrow> nat \<Rightarrow> nat \<Rightarrow> 'w heap5 option" where
  "take_link st p b w = (
     let m = st32 (hmem st) p (ld32 (hmem st) b)
     in if 16 < sub32 (ld32 m (b + 4)) w then
          let m' = st32 (st32 m (add32 b w + 4) (sub32 (ld32 m (b + 4)) w)) (b + 4) w
          in prvInsertBlockIntoFreeList (st\<lparr>hmem := m'\<rparr>) (add32 b w)
        else Some (st\<lparr>hmem := m\<rparr>))"

lemma malloc_take_eq:
  "malloc_take st p b w = do {
     st' \<leftarrow> take_link st p b w;
     let left = sub32 (xFreeBytesRemaining st') (ld32 (hmem st') (b + 4));
     let m = st32 (hmem st') (b + 4) (ld32 (hmem st') (b + 4) OR xBlockAllocatedBit st');
     Some (st'\<lparr>xFreeBytesRemaining := left,
                xMinimumEverFreeBytesRemaining := min left (xMinimumEverFreeBytesRemaining st'),
                hmem := st32 m b 0\<rparr>, add32 (ld32 (hmem st) p) 8) }"
  by (simp add: malloc_take_def take_link_def Let_def)

lemma take_link_refines:
  assumes L: "h5_list st lo bs" and bs: "bs = xs @ (b, s) # ys" and w: "16 \<le> w" "w \<le> s"
    and p: "xs = [] \<and> p = a_xStart st \<or> (\<exists>us t. xs = us @ [(p, t)])"
  shows "\<exists>m. take_link st p b w = Some (st\<lparr>hmem := m\<rparr>) \<and> h5_list (st\<lparr>hmem := m\<rparr>) lo (fl_take w b s (xs @ ys))
    \<and> ld32 m (b + 4) = taken w s
    \<and> same_outside ({a_xStart st..<a_xStart st + 4} \<union> extents bs) (hmem st) m"
proof -
  let ?x = "a_xStart st" and ?e = "pxEnd st" and ?m = "hmem st"
  note L' = L [unfolded h5_list_def bs]
  let ?m1 = "st32 ?m p (ld32 ?m b)"
  have U: "chain ?m1 (ld32 ?m1 ?x) (xs @ ys) ?e" "{p..<p + 4} \<inter> {b..<b + ext s} = {}"
    "{p..<p + 4} \<subseteq> {?x..<?x + 4} \<union> headers xs"
    using unlink [of ?m ?x xs b s ys ?e lo p] L' p start_extents [OF L] bs by auto
  have so1: "same_outside {p..<p + 4} ?m ?m1" by auto
  have xx: "{?x + 4..<?x + 8} \<inter> {p..<p + 4} = {}"
  proof -
    have "{?x + 4..<?x + 8} \<subseteq> {?x..<?x + 8}" "headers xs \<subseteq> extents bs"
      using headers_extents [of xs] bs by auto
    then have "{?x + 4..<?x + 8} \<inter> headers xs = {}" using start_extents [OF L] by blast
    then show ?thesis using U(3) by fastforce
  qed
  have "ld32 ?m1 (?x + 4) = ld32 ?m (?x + 4)"
    by (rule ld32_frame [OF so1]) (use xx in simp)
  moreover have "extents (xs @ ys) \<subseteq> extents bs" using bs by auto
  then have "{?x..<?x + 8} \<inter> extents (xs @ ys) = {}" using start_extents [OF L] by blast
  ultimately have L1: "h5_list (st\<lparr>hmem := ?m1\<rparr>) lo (xs @ ys)"
    using L' U(1) fl_remove [of lo xs b s ys ?e] by (simp add: h5_list_def start_ok_def)
  have sz: "ld32 ?m1 (b + 4) = s"
  proof -
    have "{b + 4..<b + 4 + 4} \<subseteq> {b..<b + ext s}" by auto
    then have "ld32 ?m1 (b + 4) = ld32 ?m (b + 4)"
      using U(2) by (intro ld32_frame [OF so1]) blast
    then show ?thesis using L' by (auto simp: chain_append)
  qed
  have f: "fl lo (xs @ (b, s) # ys) ?e" using L' by blast
  note M = fl_middle [OF f]
  have be: "b + s \<le> ?e" "?e < 2 ^ 32" using M(2) L' by auto
  have sub1: "{p..<p + 4} \<subseteq> {?x..<?x + 4} \<union> extents bs"
    using U(3) headers_extents [of xs] bs by auto
  show ?thesis
  proof (cases "16 < s - w")
    case False
    then have "take_link st p b w = Some (st\<lparr>hmem := ?m1\<rparr>)"
      using sz w be by (simp add: take_link_def Let_def)
    with False L1 sz so1 sub1 show ?thesis
      by (auto simp: fl_take_def taken_def intro: same_outside_mono)
  next
    case True
    let ?m2 = "st32 ?m1 (b + w + 4) (s - w)"
    let ?m3 = "st32 ?m2 (b + 4) w"
    let ?st = "st\<lparr>hmem := ?m3\<rparr>"
    have blk: "{b..<b + s} \<subseteq> {b..<b + ext s}" by auto
    have so2: "same_outside {b..<b + s} ?m1 ?m3"
    proof -
      have "same_outside {b..<b + s} ?m1 ?m2" "same_outside {b..<b + s} ?m2 ?m3"
        by (rule same_outside_st32; use True w in simp)+
      from same_outside_trans [OF this] show ?thesis by simp
    qed
    have "{b..<b + s} \<inter> headers (xs @ ys) = {}"
      using M(3) headers_extents [of "xs @ ys"] blk by blast
    moreover have "{b..<b + s} \<subseteq> extents bs" using bs by auto
    then have xbs: "{b..<b + s} \<inter> {?x..<?x + 8} = {}"
      using start_extents [OF L] by blast
    ultimately have L2: "h5_list ?st lo (xs @ ys)"
      using h5_list_frame [OF L1, of "{b..<b + s}" ?m3] so2 by simp
    have "ld32 ?m3 (b + w + 4) = s - w" using w be by (subst ld32_st32_other) auto
    moreover have "{b + w..<b + w + (s - w)} \<inter> extents (xs @ ys) = {}"
    proof -
      have "{b + w..<b + w + (s - w)} \<subseteq> {b..<b + ext s}" using w by auto
      then show ?thesis using M(3) by blast
    qed
    moreover have xdj: "{b + w..<b + w + (s - w)} \<inter> {?x..<?x + 8} = {}"
    proof -
      have "{b + w..<b + w + (s - w)} \<subseteq> {b..<b + s}" using w by auto
      then show ?thesis using xbs by blast
    qed
    ultimately have J: "joins ?st lo (xs @ ys) (b + w) (s - w)"
      using True w be M(1) by (simp add: joins_def)
    from insert_refines [OF L2 J] obtain m4 where
      I: "inserted ?st (xs @ ys) (b + w) (s - w) m4" by blast
    have "take_link st p b w = prvInsertBlockIntoFreeList ?st (b + w)"
      using True sz w be by (simp add: take_link_def Let_def)
    then have "take_link st p b w = Some (st\<lparr>hmem := m4\<rparr>)" using I by (simp add: inserted_def)
    moreover have so3: "same_outside ({?x..<?x + 4} \<union> headers (xs @ ys) \<union> {b + w..<b + w + 8}) ?m3 m4"
      using I by (simp add: inserted_def)
    have "{b + 4..<b + 4 + 4} \<inter> ({?x..<?x + 4} \<union> headers (xs @ ys) \<union> {b + w..<b + w + 8}) = {}"
    proof -
      have "{b + 4..<b + 4 + 4} \<subseteq> {b..<b + ext s}" "{b..<b + ext s} \<subseteq> extents bs" "{?x..<?x + 4} \<subseteq> {?x..<?x + 8}"
        using bs by auto
      moreover have "{b + 4..<b + 4 + 4} \<inter> {b + w..<b + w + 8} = {}" using w by auto
      ultimately show ?thesis
        using M(3) headers_extents [of "xs @ ys"] start_extents [OF L] by blast
    qed
    then have "ld32 m4 (b + 4) = ld32 ?m3 (b + 4)" by (rule ld32_frame [OF so3])
    then have "ld32 m4 (b + 4) = w" using w be by simp
    moreover have "h5_list (st\<lparr>hmem := m4\<rparr>) lo (fl_insert (b + w, s - w) (xs @ ys))"
    proof -
      have "{?x + 4..<?x + 4 + 4} \<inter> ({?x..<?x + 4} \<union> headers (xs @ ys) \<union> {b + w..<b + w + 8}) = {}"
      proof -
        have "{?x + 4..<?x + 4 + 4} \<subseteq> {?x..<?x + 8}" "{b + w..<b + w + 8} \<subseteq> {b..<b + s}"
          using True w by auto
        moreover have "headers (xs @ ys) \<subseteq> extents bs" using headers_extents [of "xs @ ys"] bs by auto
        moreover have "{?x + 4..<?x + 4 + 4} \<inter> {?x..<?x + 4} = {}" by auto
        ultimately show ?thesis using start_extents [OF L] \<open>{b..<b + s} \<subseteq> extents bs\<close> by blast
      qed
      then have "ld32 m4 (?x + 4) = ld32 ?m3 (?x + 4)" by (rule ld32_frame [OF so3])
      moreover have "fl lo (fl_insert (b + w, s - w) (xs @ ys)) ?e"
        using L2 J by (intro fl_fl_insert) (auto simp: h5_list_def joins_def)
      moreover have "{?x..<?x + 8} \<inter> extents (fl_insert (b + w, s - w) (xs @ ys)) = {}"
        using L2 xdj extents_fl_insert [of "s - w" "b + w" "xs @ ys"] True
        by (simp only: h5_list_def start_ok_def heap5.simps) auto
      ultimately show ?thesis using L2 I by (simp add: h5_list_def start_ok_def inserted_def)
    qed
    moreover have "same_outside ({?x..<?x + 4} \<union> extents bs) ?m m4"
      using same_outside_trans [OF same_outside_trans [OF so1 so2] so3]
    proof (rule same_outside_mono)
      have "{b + w..<b + w + 8} \<subseteq> {b..<b + s}" using True w by auto
      moreover have "headers (xs @ ys) \<subseteq> extents bs" using headers_extents [of "xs @ ys"] bs by auto
      ultimately show "{p..<p + 4} \<union> {b..<b + s} \<union> ({?x..<?x + 4} \<union> headers (xs @ ys) \<union> {b + w..<b + w + 8})
        \<subseteq> {?x..<?x + 4} \<union> extents bs"
        using sub1 \<open>{b..<b + s} \<subseteq> extents bs\<close> by blast
    qed
    ultimately show ?thesis using True by (intro exI [of _ m4]) (simp add: fl_take_def taken_def)
  qed
qed

lemma h5_repD:
  assumes "h5_rep st lo bs"
  shows "h5_list st lo bs" "hok bs" "fl lo bs (pxEnd st)" "0 < lo" "pxEnd st < 2 ^ 32" "lo \<le> pxEnd st"
    "xFreeBytesRemaining st = total bs" "xBlockAllocatedBit st = 2 ^ 31" "total bs < 2 ^ 31"
    "ld32 (hmem st) (pxEnd st) = 0" "ld32 (hmem st) (pxEnd st + 4) = 0" "pxEnd st < lo + 2 ^ 31"
proof -
  note R = assms [unfolded h5_rep_def h5_list_def]
  show "h5_list st lo bs" "hok bs" using assms by (simp_all add: h5_rep_def)
  show f: "fl lo bs (pxEnd st)" and "0 < lo" "pxEnd st < 2 ^ 32" and e: "pxEnd st < lo + 2 ^ 31"
    and "xFreeBytesRemaining st = total bs" "xBlockAllocatedBit st = 2 ^ 31"
    "ld32 (hmem st) (pxEnd st) = 0" "ld32 (hmem st) (pxEnd st + 4) = 0"
    using R by auto
  show "lo \<le> pxEnd st" by (rule fl_le [OF f])
  show "total bs < 2 ^ 31" using fl_total [OF f] e by linarith
qed

lemma end_frame:
  assumes L: "h5_list st lo bs" and so: "same_outside F (hmem st) m"
    and sub: "F \<subseteq> {a_xStart st..<a_xStart st + 4} \<union> extents bs"
  shows "ld32 m (pxEnd st) = ld32 (hmem st) (pxEnd st)"
    "ld32 m (pxEnd st + 4) = ld32 (hmem st) (pxEnd st + 4)"
proof -
  have i: "{pxEnd st..<pxEnd st + 4} \<subseteq> {pxEnd st..<pxEnd st + 8}"
    "{pxEnd st + 4..<pxEnd st + 4 + 4} \<subseteq> {pxEnd st..<pxEnd st + 8}"
    "{a_xStart st..<a_xStart st + 4} \<subseteq> {a_xStart st..<a_xStart st + 8}" by auto
  show "ld32 m (pxEnd st) = ld32 (hmem st) (pxEnd st)"
    "ld32 m (pxEnd st + 4) = ld32 (hmem st) (pxEnd st + 4)"
    by (rule ld32_frame [OF so]; use i sub end_extents [OF L] start_end [OF L] in blast)+
qed

lemma malloc_take_refines:
  assumes rep: "h5_rep st lo bs" and bs: "bs = xs @ (b, s) # ys" and w: "16 \<le> w" "w \<le> s" "8 dvd w"
    and p: "xs = [] \<and> p = a_xStart st \<or> (\<exists>us t. xs = us @ [(p, t)])" "ld32 (hmem st) p = b"
  shows "\<exists>m. let st' = st\<lparr>hmem := m, xFreeBytesRemaining := total (fl_take w b s (xs @ ys)),
        xMinimumEverFreeBytesRemaining := min (total (fl_take w b s (xs @ ys))) (xMinimumEverFreeBytesRemaining st)\<rparr>
      in malloc_take st p b w = Some (st', b + 8)
    \<and> h5_rep st' lo (fl_take w b s (xs @ ys)) \<and> ld32 m b = 0 \<and> ld32 m (b + 4) = taken w s + 2 ^ 31
    \<and> same_outside ({a_xStart st..<a_xStart st + 4} \<union> extents bs) (hmem st) m"
proof -
  let ?cs = "fl_take w b s (xs @ ys)" and ?x = "a_xStart st" and ?e = "pxEnd st"
  note D = h5_repD [OF rep]
  from take_link_refines [OF D(1) bs w(1,2) p(1)] obtain m1 where
    t: "take_link st p b w = Some (st\<lparr>hmem := m1\<rparr>)" and L1: "h5_list (st\<lparr>hmem := m1\<rparr>) lo ?cs"
    and sz: "ld32 m1 (b + 4) = taken w s"
    and so1: "same_outside ({?x..<?x + 4} \<union> extents bs) (hmem st) m1" by blast
  have f: "fl lo (xs @ (b, s) # ys) ?e" using D(3) bs by simp
  note B = fl_take_bytes [OF f w(2)] and M = fl_middle [OF f]
  have tk: "w \<le> taken w s" "taken w s \<le> s" using taken_props w(2) by blast+
  have lt: "taken w s < 2 ^ 31" using B(3) D(9) bs by simp
  have cs: "total ?cs = total bs - taken w s" "taken w s \<le> total bs" using B(3) bs by simp_all
  let ?m2 = "st32 m1 (b + 4) (taken w s + 2 ^ 31)"
  let ?m3 = "st32 ?m2 b 0"
  let ?st = "st\<lparr>hmem := ?m3, xFreeBytesRemaining := total ?cs,
    xMinimumEverFreeBytesRemaining := min (total ?cs) (xMinimumEverFreeBytesRemaining st)\<rparr>"
  have "taken w s OR 2 ^ 31 = taken w s + 2 ^ 31" by (rule or_top_bit [OF lt])
  then have "malloc_take st p b w = Some (?st, b + 8)"
    using t sz D(5,7,8,9) cs p(2) M(2) by (simp add: malloc_take_eq Let_def)
  moreover have so2: "same_outside {b..<b + 8} m1 ?m3"
  proof -
    have "same_outside {b..<b + 8} m1 ?m2" "same_outside {b..<b + 8} ?m2 ?m3" by auto
    from same_outside_trans [OF this] show ?thesis by simp
  qed
  have b8: "{b..<b + 8} \<subseteq> {b..<b + taken w s}" using tk w by auto
  have blk: "{b..<b + 8} \<subseteq> extents bs" using bs by auto
  have so3: "same_outside ({?x..<?x + 4} \<union> extents bs) (hmem st) ?m3"
    by (rule same_outside_mono [OF same_outside_trans [OF so1 so2]]) (use blk in blast)
  have "h5_list (st\<lparr>hmem := m1, hmem := ?m3\<rparr>) lo ?cs"
  proof (rule h5_list_frame [OF L1, where F = "{b..<b + 8}"])
    show "same_outside {b..<b + 8} (hmem (st\<lparr>hmem := m1\<rparr>)) ?m3" using so2 by simp
    show "{b..<b + 8} \<inter> headers ?cs = {}"
      using fl_take_extents [OF f w(2)] headers_extents [of ?cs] b8 by blast
    have e: "a_xStart (st\<lparr>hmem := m1\<rparr>) = ?x" by simp
    have "{b..<b + 8} \<inter> {?x..<?x + 8} = {}" using start_extents [OF D(1)] blk by blast
    then show "{b..<b + 8} \<inter> {a_xStart (st\<lparr>hmem := m1\<rparr>)..<a_xStart (st\<lparr>hmem := m1\<rparr>) + 8} = {}"
      unfolding e .
  qed
  then have "h5_list ?st lo ?cs" by (simp add: h5_list_def)
  moreover have "hok ?cs"
  proof -
    have h: "hok (xs @ ys)" "8 dvd b" "8 dvd s" using D(2) bs by simp_all
    then have "8 dvd b + w" "8 dvd s - w" using w(3) by (simp_all add: dvd_diff_nat)
    then show ?thesis using h(1) hok_fl_insert by (simp add: fl_take_def)
  qed
  ultimately have "h5_rep ?st lo ?cs"
    using end_frame [OF D(1) so3 subset_refl] D by (simp add: h5_rep_def)
  moreover have "ld32 ?m3 b = 0" by simp
  moreover have "ld32 ?m3 (b + 4) = taken w s + 2 ^ 31" using lt by (simp add: ld32_st32_other)
  ultimately show ?thesis
    using so3 \<open>malloc_take st p b w = _\<close> by (intro exI [of _ ?m3]) (simp add: Let_def)
qed

lemma total_member: "(a, s) \<in> set bs \<Longrightarrow> s \<le> total bs"
  by (induction bs) (fastforce simp: total_def)+

lemma pvPortMalloc_none:
  assumes rep: "h5_rep st lo bs" and n: "n < 2 ^ 31" "n = 0 \<or> (\<forall>(a, s)\<in>set bs. s < hrup n)"
  shows "pvPortMalloc st n = Some (st, 0)"
proof -
  note D = h5_repD [OF rep]
  have e: "pxEnd st \<noteq> 0" using D by auto
  have "malloc_size n = hrup n" "n AND 2 ^ 31 = 0"
    using malloc_size_eq and_top_bit n(1) by blast+
  moreover have "\<exists>p. malloc_walk (hmem st) (a_xStart st) (ld32 (hmem st) (a_xStart st)) (hrup n) = Some (p, pxEnd st)"
    if "0 < hrup n"
  proof -
    have c: "chain (hmem st) (ld32 (hmem st) (a_xStart st)) bs (pxEnd st)" using D(1) by (simp add: h5_list_def)
    have "0 < n" using that hrup_props(5) by blast
    with n(2) have "\<forall>(a, s)\<in>set bs. s < hrup n" by simp
    then show ?thesis
      using malloc_walk_finds [OF c D(3,4,10,11) that] by fastforce
  qed
  ultimately show ?thesis
    using e D(8) by (auto simp: pvPortMalloc_def Let_def vTaskSuspendAll_def xTaskResumeAll_def)
qed

lemma pvPortMalloc_some:
  assumes rep: "h5_rep st lo bs" and n: "0 < n" "n < 2 ^ 31" "\<not> (\<forall>(a, s)\<in>set bs. s < hrup n)"
  shows "\<exists>xs b s ys m. let cs = fl_take (hrup n) b s (xs @ ys); st' = st\<lparr>hmem := m,
        xFreeBytesRemaining := total cs,
        xMinimumEverFreeBytesRemaining := min (total cs) (xMinimumEverFreeBytesRemaining st)\<rparr>
      in bs = xs @ (b, s) # ys \<and> hrup n \<le> s \<and> pvPortMalloc st n = Some (st', b + 8)
    \<and> h5_rep st' lo cs \<and> ld32 m b = 0 \<and> ld32 m (b + 4) = taken (hrup n) s + 2 ^ 31
    \<and> same_outside ({a_xStart st..<a_xStart st + 4} \<union> extents bs) (hmem st) m"
proof -
  note D = h5_repD [OF rep]
  have e: "pxEnd st \<noteq> 0" using D by auto
  have H: "0 < hrup n" "16 \<le> hrup n" "8 dvd hrup n" using hrup_props n(1) by auto
  have c: "chain (hmem st) (ld32 (hmem st) (a_xStart st)) bs (pxEnd st)" using D(1) by (simp add: h5_list_def)
  from malloc_walk_finds [OF c D(3,4,10,11) H(1)] n(3) obtain p b s xs ys where
    w: "malloc_walk (hmem st) (a_xStart st) (ld32 (hmem st) (a_xStart st)) (hrup n) = Some (p, b)"
    and bs: "bs = xs @ (b, s) # ys" and hs: "hrup n \<le> s" and be: "b \<noteq> pxEnd st"
    and p: "ld32 (hmem st) p = b" "xs = [] \<and> p = a_xStart st \<or> (\<exists>us t. xs = us @ [(p, t)])" by blast
  have tot: "hrup n \<le> total bs" using total_member [of b s bs] bs hs by simp
  let ?s1 = "vTaskSuspendAll st"
  have rep1: "h5_rep ?s1 lo bs" using rep by (simp add: h5_rep_def h5_list_def vTaskSuspendAll_def)
  have ax: "a_xStart ?s1 = a_xStart st" "hmem ?s1 = hmem st" by (simp_all add: vTaskSuspendAll_def)
  from malloc_take_refines [OF rep1 bs H(2) hs H(3), of p, unfolded ax, OF p(2,1)] obtain m where
    M: "malloc_take ?s1 p b (hrup n) = Some (?s1\<lparr>hmem := m, xFreeBytesRemaining := total (fl_take (hrup n) b s (xs @ ys)),
        xMinimumEverFreeBytesRemaining := min (total (fl_take (hrup n) b s (xs @ ys))) (xMinimumEverFreeBytesRemaining ?s1)\<rparr>, b + 8)"
    and R: "h5_rep (?s1\<lparr>hmem := m, xFreeBytesRemaining := total (fl_take (hrup n) b s (xs @ ys)),
        xMinimumEverFreeBytesRemaining := min (total (fl_take (hrup n) b s (xs @ ys))) (xMinimumEverFreeBytesRemaining ?s1)\<rparr>) lo (fl_take (hrup n) b s (xs @ ys))"
    and m: "ld32 m b = 0" "ld32 m (b + 4) = taken (hrup n) s + 2 ^ 31"
      "same_outside ({a_xStart st..<a_xStart st + 4} \<union> extents bs) (hmem st) m"
    by (auto simp: Let_def)
  have "malloc_size n = hrup n" "n AND 2 ^ 31 = 0"
    using malloc_size_eq and_top_bit n(2) by blast+
  then have "pvPortMalloc st n = Some (st\<lparr>hmem := m, xFreeBytesRemaining := total (fl_take (hrup n) b s (xs @ ys)),
        xMinimumEverFreeBytesRemaining := min (total (fl_take (hrup n) b s (xs @ ys))) (xMinimumEverFreeBytesRemaining st)\<rparr>, b + 8)"
    using w be tot H(1) D(7,8) e M ax
    by (simp add: pvPortMalloc_def Let_def vTaskSuspendAll_def xTaskResumeAll_def)
  with R bs hs m show ?thesis
    by (intro exI [of _ xs] exI [of _ b] exI [of _ s] exI [of _ ys] exI [of _ m])
      (simp add: Let_def h5_rep_def h5_list_def vTaskSuspendAll_def)
qed

section \<open>Release\<close>

lemma vPortFree_internal_refines:
  assumes rep: "h5_rep st lo bs" and p: "lo + 8 \<le> p" "p - 8 + k \<le> pxEnd st"
    and k: "8 \<le> k" "8 dvd k" "8 dvd p"
    and h: "ld32 (hmem st) (p - 8) = 0" "ld32 (hmem st) (p - 4) = k + 2 ^ 31"
    and dj: "{p - 8..<p - 8 + k} \<inter> extents bs = {}"
    and xb: "{p - 8..<p - 8 + k} \<inter> {a_xStart st..<a_xStart st + 8} = {}"
  shows "\<exists>m. vPortFree_internal st p
      = Some (st\<lparr>hmem := m, xFreeBytesRemaining := total (fl_insert (p - 8, k) bs)\<rparr>)
    \<and> h5_rep (st\<lparr>hmem := m, xFreeBytesRemaining := total (fl_insert (p - 8, k) bs)\<rparr>) lo (fl_insert (p - 8, k) bs)
    \<and> same_outside ({a_xStart st..<a_xStart st + 4} \<union> headers bs \<union> {p - 8..<p}) (hmem st) m"
proof -
  let ?b = "p - 8" and ?x = "a_xStart st" and ?e = "pxEnd st"
  note D = h5_repD [OF rep]
  have lt: "k < 2 ^ 31" using p D(12) by linarith
  have p8: "p - 8 + 4 = p - 4" "p - 8 + 8 = p" "8 \<le> p" using p(1) by auto
  have pm: "p < 2 ^ 32" using p(2) p8 k(1) D(5) by linarith
  let ?m1 = "st32 (hmem st) (?b + 4) k"
  let ?s1 = "st\<lparr>hmem := ?m1, uxSchedulerSuspended := uxSchedulerSuspended st + 1,
    xFreeBytesRemaining := total bs + k\<rparr>"
  have b8: "{?b..<?b + 8} \<subseteq> {?b..<?b + k}" using k by auto
  have so1: "same_outside {?b..<?b + 8} (hmem st) ?m1" by auto
  have "h5_list (st\<lparr>hmem := ?m1\<rparr>) lo bs"
  proof (rule h5_list_frame [OF D(1) so1])
    show "{?b..<?b + 8} \<inter> headers bs = {}" using dj b8 headers_extents [of bs] by blast
    show "{?b..<?b + 8} \<inter> {?x..<?x + 8} = {}" using xb b8 by blast
  qed
  then have L1: "h5_list ?s1 lo bs" by (simp add: h5_list_def)
  have J: "joins ?s1 lo bs ?b k"
    using p k dj lt xb by (simp add: joins_def)
  from insert_refines [OF L1 J] obtain m where I: "inserted ?s1 bs ?b k m" by blast
  have fin: "total (fl_insert (?b, k) bs) = total bs + k" by (simp add: total_fl_insert)
  have fl: "fl lo (fl_insert (?b, k) bs) ?e"
    using D(3) p k dj by (intro fl_fl_insert) auto
  have tb: "total bs + k < 2 ^ 31" using fl_total [OF fl] D(12) fin by linarith
  have "sub32 p 8 = ?b" using p8 pm by simp
  moreover have "ld32 (hmem st) (?b + 4) AND 2 ^ 31 \<noteq> 0"
    using or_and_top_bit [OF lt] h(2) by (simp only: p8) simp
  moreover have "andnot32 (ld32 (hmem st) (?b + 4)) (2 ^ 31) = k"
    using andnot_top_bit [OF lt] h(2) by (simp only: p8)
  moreover have "ld32 ?m1 (?b + 4) = k" using lt by simp
  moreover have "p \<noteq> 0" using p8 by simp
  ultimately have r: "vPortFree_internal st p = Some (st\<lparr>hmem := m, xFreeBytesRemaining := total (fl_insert (?b, k) bs)\<rparr>)"
    using h(1) D(7,8) tb I fin
    by (simp add: vPortFree_internal_def Let_def vTaskSuspendAll_def xTaskResumeAll_def inserted_def)
  have so2: "same_outside ({?x..<?x + 4} \<union> headers bs \<union> {?b..<?b + 8}) ?m1 m"
    using I by (simp add: inserted_def)
  have so: "same_outside ({?x..<?x + 4} \<union> headers bs \<union> {?b..<p}) (hmem st) m"
    by (rule same_outside_mono [OF same_outside_trans [OF so1 so2]]) (use p8 in auto)
  let ?F = "{?x..<?x + 4} \<union> headers bs \<union> {?b..<p}"
  have pe: "{?b..<p} \<subseteq> {?b..<?b + k}" using p8 k by auto
  have eb: "{?e..<?e + 8} \<inter> {?b..<?b + k} = {}" using p by auto
  have i: "{?e..<?e + 4} \<subseteq> {?e..<?e + 8}" "{?e + 4..<?e + 4 + 4} \<subseteq> {?e..<?e + 8}"
    "{?x..<?x + 4} \<subseteq> {?x..<?x + 8}" "{?x + 4..<?x + 4 + 4} \<subseteq> {?x..<?x + 8}"
    "{?x + 4..<?x + 4 + 4} \<inter> {?x..<?x + 4} = {}" by auto
  have "{?e..<?e + 8} \<inter> ?F = {}"
    using end_extents [OF D(1)] start_end [OF D(1)] headers_extents [of bs] eb pe i(3) by blast
  then have "{?e..<?e + 4} \<inter> ?F = {}" "{?e + 4..<?e + 4 + 4} \<inter> ?F = {}" using i(1,2) by blast+
  then have "ld32 m ?e = 0" "ld32 m (?e + 4) = 0"
    using ld32_frame [OF so, of ?e] ld32_frame [OF so, of "?e + 4"] D(10,11) by simp_all
  moreover have "{?x + 4..<?x + 4 + 4} \<inter> ?F = {}"
    using start_extents [OF D(1)] headers_extents [of bs] xb pe i by blast
  then have "ld32 m (?x + 4) = ld32 (hmem st) (?x + 4)" by (rule ld32_frame [OF so])
  moreover have "chain m (ld32 m ?x) (fl_insert (?b, k) bs) ?e" using I by (simp add: inserted_def)
  moreover have "hok (fl_insert (?b, k) bs)"
    using D(2) k by (intro hok_fl_insert) (simp_all add: dvd_diff_nat)
  moreover have "{?x..<?x + 8} \<inter> extents (fl_insert (?b, k) bs) = {}"
    using extents_fl_insert [of k ?b bs] k start_extents [OF D(1)] xb by blast
  ultimately have "h5_rep (st\<lparr>hmem := m, xFreeBytesRemaining := total (fl_insert (?b, k) bs)\<rparr>) lo (fl_insert (?b, k) bs)"
    using D fl by (simp add: h5_rep_def h5_list_def start_ok_def)
  with r so show ?thesis by blast
qed

section \<open>Setting up the regions\<close>

definition align8 :: "nat \<Rightarrow> nat" where
  "align8 a = (a + 7) div 8 * 8"

definition region_end :: "nat \<Rightarrow> nat \<Rightarrow> nat" where
  "region_end a z = (a + z - 8) div 8 * 8"

text \<open>The entries are in address order, apart from each other and from \<open>xStart\<close>, large enough
  and below \<open>2 ^ 32\<close>; an entry of size 0 ends the list.\<close>

fun regions_ok :: "nat \<Rightarrow> nat \<Rightarrow> (nat \<times> nat) list \<Rightarrow> bool" where
  "regions_ok x e [] \<longleftrightarrow> False"
| "regions_ok x e ((a, z) # rs) \<longleftrightarrow> z = 0 \<or>
     e \<le> a \<and> 24 \<le> z \<and> a + z < 2 ^ 32 \<and> (x + 8 \<le> a \<or> a + z \<le> x) \<and> regions_ok x (a + z) rs"

text \<open>The blocks added by the entries, given the marker \<open>e\<close> of the region before; and the last marker.\<close>

fun region_blocks :: "nat \<Rightarrow> (nat \<times> nat) list \<Rightarrow> block list \<times> nat" where
  "region_blocks e [] = ([], e)"
| "region_blocks e ((a, z) # rs) = (if z = 0 then ([], e)
     else let (bs, e') = region_blocks (region_end a z) rs
       in ((e, 0) # (align8 a, region_end a z - align8 a) # bs, e'))"

lemma align8_props: "a \<le> align8 a" "align8 a \<le> a + 7" "8 dvd align8 a"
proof -
  show "a \<le> align8 a" "align8 a \<le> a + 7" unfolding align8_def by linarith+
qed (simp add: align8_def)

lemma region_end_props: "24 \<le> z \<Longrightarrow> align8 a + 8 \<le> region_end a z" "region_end a z + 8 \<le> a + z \<or> z < 8"
  "8 dvd region_end a z" "15 \<le> z \<Longrightarrow> a + z \<le> region_end a z + 15"
proof -
  have "(a + 7) div 8 * 8 + 8 = (a + 7 + 8) div 8 * 8" by (simp only: div_add_self2) simp
  moreover have "24 \<le> z \<Longrightarrow> (a + 7 + 8) div 8 \<le> (a + z - 8) div 8" by (rule div_le_mono) simp
  ultimately show "24 \<le> z \<Longrightarrow> align8 a + 8 \<le> region_end a z"
    unfolding align8_def region_end_def by simp
  show "region_end a z + 8 \<le> a + z \<or> z < 8" "15 \<le> z \<Longrightarrow> a + z \<le> region_end a z + 15"
    unfolding region_end_def by linarith+
qed (simp add: region_end_def)

lemma and_7_mod: "a AND 7 = (a mod 8 :: nat)"
  using take_bit_eq_mask [of 3 a] by (simp add: mask_eq_exp_minus_1 take_bit_eq_mod)

definition region_mem :: "mem \<Rightarrow> nat \<Rightarrow> nat \<Rightarrow> nat \<Rightarrow> mem" where
  "region_mem m prev u e =
     (let m = st32 (st32 m (e + 4) 0) e 0;
          m = st32 m (u + 4) (sub32 e u);
          m = st32 m u e
      in if prev \<noteq> 0 then st32 m prev u else m)"

lemma define_regions_step:
  assumes z: "24 \<le> z" "a + z < 2 ^ 32"
  shows "define_regions st k tot ((a, z) # rs) =
    (let m = (if k = 0 then st32 (st32 (hmem st) (a_xStart st) (align8 a)) (a_xStart st + 4) 0 else hmem st);
         m = region_mem m (pxEnd st) (align8 a) (region_end a z)
     in define_regions (st\<lparr>hmem := m, pxEnd := region_end a z\<rparr>) (k + 1) (add32 tot (ld32 m (align8 a + 4))) rs)"
proof -
  let ?u = "align8 a" and ?e = "region_end a z"
  have m: "(a AND portBYTE_ALIGNMENT_MASK = 0) = (8 dvd a)" by (simp add: and_7_mod mod_eq_0_iff_dvd)
  have al: "8 dvd a \<Longrightarrow> ?u = a" unfolding align8_def by auto
  have u: "andnot32 (add32 a (portBYTE_ALIGNMENT - 1)) portBYTE_ALIGNMENT_MASK = ?u"
    using andnot32_7 [of "a + 7"] z by (simp add: align8_def)
  have s: "sub32 z (sub32 ?u a) = z - (?u - a)"
    using align8_props(1,2) [of a] z by simp
  have "?u + (z - (?u - a)) = a + z" using align8_props(1,2) [of a] z by simp
  then have "add32 ?u (z - (?u - a)) = a + z" using z by (simp add: add32_def)
  then have "sub32 (add32 ?u (z - (?u - a))) uxHeapStructSize = a + z - 8" using z by simp
  then have e: "andnot32 (sub32 (add32 ?u (z - (?u - a))) uxHeapStructSize) portBYTE_ALIGNMENT_MASK = ?e"
    using andnot32_7 [of "a + z - 8"] z by (simp only: region_end_def portBYTE_ALIGNMENT_MASK_def) simp
  have e2: "8 dvd a \<Longrightarrow> andnot32 (sub32 (add32 a z) uxHeapStructSize) portBYTE_ALIGNMENT_MASK = ?e"
    using e al by simp
  show ?thesis
  proof (cases "8 dvd a")
    case True
    with z m al e2 show ?thesis
      by (simp add: region_mem_def Let_def del: h5_consts struct_size)
  next
    case False
    with z m s u e show ?thesis
      by (simp add: region_mem_def Let_def del: h5_consts struct_size)
  qed
qed

lemma region_mem_facts:
  assumes u: "u + 8 \<le> e" "e < 2 ^ 32" and p: "prev = 0 \<or> prev + 8 \<le> u"
  shows "ld32 (region_mem m prev u e) e = 0" "ld32 (region_mem m prev u e) (e + 4) = 0"
    "ld32 (region_mem m prev u e) u = e" "ld32 (region_mem m prev u e) (u + 4) = e - u"
    "prev \<noteq> 0 \<Longrightarrow> ld32 (region_mem m prev u e) prev = u"
    "same_outside ({u..<u + 8} \<union> {e..<e + 8} \<union> (if prev = 0 then {} else {prev..<prev + 4})) m (region_mem m prev u e)"
proof -
  let ?m1 = "st32 (st32 m (e + 4) 0) e 0"
  let ?m2 = "st32 ?m1 (u + 4) (e - u)"
  let ?m3 = "st32 ?m2 u e"
  have r: "region_mem m prev u e = (if prev \<noteq> 0 then st32 ?m3 prev u else ?m3)"
    using u by (simp add: region_mem_def Let_def)
  have 1: "ld32 ?m1 e = 0" "ld32 ?m1 (e + 4) = 0" by (simp, subst ld32_st32_other) simp_all
  have so: "same_outside {u..<u + 8} ?m1 ?m3"
  proof -
    have "same_outside {u..<u + 8} ?m1 ?m2" "same_outside {u..<u + 8} ?m2 ?m3" by auto
    from same_outside_trans [OF this] show ?thesis by simp
  qed
  have 2: "ld32 ?m3 e = 0" "ld32 ?m3 (e + 4) = 0"
    using 1 ld32_frame [OF so, of e] ld32_frame [OF so, of "e + 4"] u by (auto simp: ivl_disj_un)
  have 3: "ld32 ?m3 u = e" "ld32 ?m3 (u + 4) = e - u" using u by (simp_all add: ld32_st32_other)
  show "ld32 (region_mem m prev u e) e = 0" "ld32 (region_mem m prev u e) (e + 4) = 0"
    "ld32 (region_mem m prev u e) u = e" "ld32 (region_mem m prev u e) (u + 4) = e - u"
    "prev \<noteq> 0 \<Longrightarrow> ld32 (region_mem m prev u e) prev = u"
    using 2 3 u p by (auto simp: r ld32_st32_other)
  have "same_outside {e..<e + 8} m (st32 m (e + 4) 0)" "same_outside {e..<e + 8} (st32 m (e + 4) 0) ?m1" by auto
  from same_outside_trans [OF this] have "same_outside {e..<e + 8} m ?m1" by simp
  from same_outside_trans [OF this so] have s3: "same_outside ({u..<u + 8} \<union> {e..<e + 8}) m ?m3"
    by (simp add: Un_commute)
  have "same_outside {prev..<prev + 4} ?m3 (st32 ?m3 prev u)" by auto
  from same_outside_trans [OF s3 this] s3
  show "same_outside ({u..<u + 8} \<union> {e..<e + 8} \<union> (if prev = 0 then {} else {prev..<prev + 4})) m (region_mem m prev u e)"
    by (simp add: r)
qed

text \<open>What holds after some regions have been set up.\<close>

definition regions_built :: "'w heap5 \<Rightarrow> nat \<Rightarrow> block list \<Rightarrow> bool" where
  "regions_built st lo bs \<longleftrightarrow> h5_list st lo bs \<and> hok bs \<and> 8 dvd pxEnd st
     \<and> ld32 (hmem st) (pxEnd st) = 0 \<and> ld32 (hmem st) (pxEnd st + 4) = 0"

lemma fl_snoc: "fl lo bs e \<Longrightarrow> e + 8 \<le> u \<Longrightarrow> u + 8 \<le> e' \<Longrightarrow> fl lo (bs @ [(e, 0), (u, e' - u)]) e'"
  by (induction lo bs e rule: fl.induct) auto

lemma region_next:
  assumes B: "regions_built st lo bs" and u: "pxEnd st + 8 \<le> u" "u + 8 \<le> e" "e + 8 < 2 ^ 32" "8 dvd u" "8 dvd e"
    and x: "a_xStart st + 8 \<le> u \<or> e + 8 \<le> a_xStart st"
  shows "regions_built (st\<lparr>hmem := region_mem (hmem st) (pxEnd st) u e, pxEnd := e\<rparr>) lo (bs @ [(pxEnd st, 0), (u, e - u)])"
proof -
  let ?p = "pxEnd st" and ?x = "a_xStart st" and ?m = "region_mem (hmem st) (pxEnd st) u e"
  note L = B [unfolded regions_built_def h5_list_def]
  have pe: "?p \<noteq> 0" using L fl_le [of lo bs ?p] by auto
  have e32: "e < 2 ^ 32" using u by simp
  note F = region_mem_facts [OF u(2) e32 disjI2 [OF u(1)], of "hmem st"]
  have so: "same_outside ({u..<u + 8} \<union> {e..<e + 8} \<union> {?p..<?p + 4}) (hmem st) ?m"
    using F(6) pe by simp
  have sx: "{?x..<?x + 8} \<inter> ({u..<u + 8} \<union> {e..<e + 8} \<union> {?p..<?p + 4}) = {}"
  proof -
    have "{?x..<?x + 8} \<inter> {u..<u + 8} = {}" "{?x..<?x + 8} \<inter> {e..<e + 8} = {}"
      "{?p..<?p + 4} \<subseteq> {?p..<?p + 8}" using x u by auto
    then show ?thesis using start_end [of st lo bs] B unfolding regions_built_def by blast
  qed
  have sub: "{?x..<?x + 4} \<subseteq> {?x..<?x + 8}" "{?x + 4..<?x + 4 + 4} \<subseteq> {?x..<?x + 8}" by auto
  have "{?x..<?x + 4} \<inter> ({u..<u + 8} \<union> {e..<e + 8} \<union> {?p..<?p + 4}) = {}"
    "{?x + 4..<?x + 4 + 4} \<inter> ({u..<u + 8} \<union> {e..<e + 8} \<union> {?p..<?p + 4}) = {}"
    using sx sub by blast+
  from ld32_frame [OF so this(1)] ld32_frame [OF so this(2)]
  have k1: "ld32 ?m ?x = ld32 (hmem st) ?x" "ld32 ?m (?x + 4) = 0" using L by (simp_all add: start_ok_def)
  have "headers bs \<subseteq> {..<?p}" using fl_headers [of lo bs ?p] L by auto
  then have "headers bs \<inter> ({u..<u + 8} \<union> {e..<e + 8} \<union> {?p..<?p + 4}) = {}" using u by fastforce
  then have k2: "chain ?m (ld32 (hmem st) ?x) bs ?p" using chain_frame [OF so] L by blast
  have "ld32 (hmem st) (?p + 4) = 0" using L by simp
  moreover have "{?p + 4..<?p + 4 + 4} \<inter> ({u..<u + 8} \<union> {e..<e + 8} \<union> {?p..<?p + 4}) = {}"
    using u by auto
  ultimately have k3: "ld32 ?m (?p + 4) = 0" using ld32_frame [OF so, of "?p + 4"] by simp
  have "chain ?m (ld32 ?m ?x) (bs @ [(?p, 0), (u, e - u)]) e"
    using k1 k2 k3 F(3,4) F(5) [OF pe] by (simp add: chain_append)
  moreover have "fl lo (bs @ [(?p, 0), (u, e - u)]) e" using L u by (intro fl_snoc) auto
  moreover have "{?x..<?x + 8} \<inter> extents (bs @ [(?p, 0), (u, e - u)]) = {}"
  proof -
    have "{?x..<?x + 8} \<inter> {u..<u + ext (e - u)} = {}" using x u by (auto simp: max_def)
    moreover have "{?x..<?x + 8} \<inter> extents bs = {}" "{?x..<?x + 8} \<inter> {?p..<?p + 8} = {}"
      using L by (simp_all add: start_ok_def)
    ultimately show ?thesis by (simp add: Int_Un_distrib)
  qed
  moreover have "{?x..<?x + 8} \<inter> {e..<e + 8} = {}" using x u by auto
  moreover have "8 dvd e - u" using u by (simp add: dvd_diff_nat)
  ultimately show ?thesis
    using L F(1,2) k1 u by (simp add: regions_built_def h5_list_def start_ok_def)
qed

lemma region_first:
  assumes p: "pxEnd st = 0" and u: "u + 8 \<le> e" "e + 8 < 2 ^ 32" "8 dvd u" "8 dvd e" "0 < u"
    and x: "a_xStart st + 8 \<le> u \<or> e + 8 \<le> a_xStart st" "a_xStart st < 2 ^ 32"
  shows "regions_built (st\<lparr>hmem := region_mem (st32 (st32 (hmem st) (a_xStart st) u) (a_xStart st + 4) 0) 0 u e,
    pxEnd := e\<rparr>) u [(u, e - u)]"
proof -
  let ?x = "a_xStart st"
  let ?mz = "st32 (st32 (hmem st) ?x u) (?x + 4) 0"
  let ?m = "region_mem ?mz 0 u e"
  have e32: "e < 2 ^ 32" using u by simp
  note F = region_mem_facts [OF u(1) e32 disjI1 [OF refl], of ?mz]
  have so: "same_outside ({u..<u + 8} \<union> {e..<e + 8}) ?mz ?m" using F(6) by simp
  have i: "{?x..<?x + 4} \<inter> ({u..<u + 8} \<union> {e..<e + 8}) = {}"
    "{?x + 4..<?x + 4 + 4} \<inter> ({u..<u + 8} \<union> {e..<e + 8}) = {}" using x u by auto
  have z: "ld32 ?mz ?x = u" "ld32 ?mz (?x + 4) = 0" using u e32 by (simp_all add: ld32_st32_other)
  have "ld32 ?m ?x = u" "ld32 ?m (?x + 4) = 0"
    by (rule trans [OF ld32_frame [OF so i(1)] z(1)], rule trans [OF ld32_frame [OF so i(2)] z(2)])
  moreover have "{?x..<?x + 8} \<inter> {e..<e + 8} = {}" "{?x..<?x + 8} \<inter> {u..<u + ext (e - u)} = {}"
    using x(1) u(1) by (auto simp: max_def)
  ultimately show ?thesis
    using F(1-4) u e32 x by (simp add: regions_built_def h5_list_def start_ok_def dvd_diff_nat)
qed

lemma define_regions_built:
  "regions_built st lo bs \<Longrightarrow> regions_ok (a_xStart st) (pxEnd st + 8) rs \<Longrightarrow> 0 < k \<Longrightarrow>
   \<exists>m. let (cs, e) = region_blocks (pxEnd st) rs; st' = st\<lparr>hmem := m, pxEnd := e\<rparr>
     in define_regions st k (total bs) rs = (st', total (bs @ cs)) \<and> regions_built st' lo (bs @ cs)"
proof (induction rs arbitrary: st bs k)
  case Nil
  then show ?case by simp
next
  case (Cons r rs)
  obtain a z where r: "r = (a, z)" by (cases r)
  show ?case
  proof (cases "z = 0")
    case True
    then show ?thesis using Cons.prems r by (intro exI [of _ "hmem st"]) simp
  next
    case False
    let ?u = "align8 a" and ?e = "region_end a z" and ?x = "a_xStart st"
    from Cons.prems r False have ok: "pxEnd st + 8 \<le> a" "24 \<le> z" "a + z < 2 ^ 32"
      "?x + 8 \<le> a \<or> a + z \<le> ?x" "regions_ok ?x (a + z) rs" by auto
    have ue: "a \<le> ?u" "?u + 8 \<le> ?e" "?e + 8 \<le> a + z" "8 dvd ?u" "8 dvd ?e"
      using align8_props [of a] region_end_props [where a = a and z = z] ok(2) by auto
    let ?m = "region_mem (hmem st) (pxEnd st) ?u ?e"
    let ?st = "st\<lparr>hmem := ?m, pxEnd := ?e\<rparr>"
    let ?bs = "bs @ [(pxEnd st, 0), (?u, ?e - ?u)]"
    have B: "regions_built ?st lo ?bs"
      by (rule region_next [OF Cons.prems(1)]) (use ok ue in auto)
    have "ld32 ?m (?u + 4) = ?e - ?u" using region_mem_facts(4) [OF ue(2), of "pxEnd st"] ok ue by simp
    moreover have "total ?bs < 2 ^ 32"
      using fl_total [of lo ?bs ?e] B ue ok by (simp add: regions_built_def h5_list_def)
    ultimately have "add32 (total bs) (ld32 ?m (?u + 4)) = total ?bs" by simp
    then have d: "define_regions st k (total bs) ((a, z) # rs) = define_regions ?st (k + 1) (total ?bs) rs"
      unfolding define_regions_step [OF ok(2,3)] using Cons.prems(3) by (simp add: Let_def)
    have "regions_ok (a_xStart ?st) (pxEnd ?st + 8) rs"
    proof -
      have "regions_ok x e rs \<Longrightarrow> e' \<le> e \<Longrightarrow> regions_ok x e' rs" for x e e'
        by (cases rs) auto
      then show ?thesis using ok(5) ue by simp
    qed
    from Cons.IH [OF B this, of "k + 1"] obtain m where
      "let (cs, e) = region_blocks ?e rs; st' = ?st\<lparr>hmem := m, pxEnd := e\<rparr>
       in define_regions ?st (k + 1) (total ?bs) rs = (st', total (?bs @ cs)) \<and> regions_built st' lo (?bs @ cs)"
      by auto
    then show ?thesis using d r False
      by (intro exI [of _ m]) (auto simp: Let_def split: prod.splits)
  qed
qed

text \<open>\<open>vPortDefineHeapRegions\<close> builds one free block per region.\<close>

lemma define_heap_rep:
  assumes ok: "regions_ok (a_xStart st) 1 ((a, z) # rs)" and z: "z \<noteq> 0" and p: "pxEnd st = 0"
    and x: "a_xStart st < 2 ^ 32"
    and e: "(cs, e) = region_blocks (region_end a z) rs" "e < align8 a + 2 ^ 31"
  shows "\<exists>m. h5_rep (vPortDefineHeapRegions st ((a, z) # rs)) (align8 a) ((align8 a, region_end a z - align8 a) # cs)
    \<and> vPortDefineHeapRegions st ((a, z) # rs) = st\<lparr>hmem := m, pxEnd := e,
        xFreeBytesRemaining := total ((align8 a, region_end a z - align8 a) # cs),
        xMinimumEverFreeBytesRemaining := total ((align8 a, region_end a z - align8 a) # cs),
        xBlockAllocatedBit := 2 ^ 31\<rparr>"
proof -
  let ?u = "align8 a" and ?e = "region_end a z" and ?x = "a_xStart st"
  from ok z have o: "1 \<le> a" "24 \<le> z" "a + z < 2 ^ 32" "?x + 8 \<le> a \<or> a + z \<le> ?x" "regions_ok ?x (a + z) rs" by auto
  have ue: "a \<le> ?u" "?u + 8 \<le> ?e" "?e + 8 \<le> a + z" "8 dvd ?u" "8 dvd ?e"
    using align8_props [of a] region_end_props [where a = a and z = z] o(2) by auto
  let ?m = "region_mem (st32 (st32 (hmem st) ?x ?u) (?x + 4) 0) 0 ?u ?e"
  let ?st = "st\<lparr>hmem := ?m, pxEnd := ?e\<rparr>"
  have B: "regions_built ?st ?u [(?u, ?e - ?u)]"
    by (rule region_first [OF p]) (use o ue x in auto)
  have "ld32 ?m (?u + 4) = ?e - ?u" using region_mem_facts(4) [OF ue(2), of 0] o ue by simp
  then have d: "define_regions st 0 0 ((a, z) # rs) = define_regions ?st 1 (total [(?u, ?e - ?u)]) rs"
    unfolding define_regions_step [OF o(2,3), of st 0 0] using p o(3) ue by (simp add: Let_def)
  have "regions_ok (a_xStart ?st) (pxEnd ?st + 8) rs"
  proof -
    have "regions_ok x e rs \<Longrightarrow> e' \<le> e \<Longrightarrow> regions_ok x e' rs" for x e e' by (cases rs) auto
    then show ?thesis using o(5) ue by simp
  qed
  from define_regions_built [OF B this, of 1] e(1) obtain m where
    D: "define_regions ?st 1 (total [(?u, ?e - ?u)]) rs = (?st\<lparr>hmem := m, pxEnd := e\<rparr>, total ((?u, ?e - ?u) # cs))"
    and R: "regions_built (?st\<lparr>hmem := m, pxEnd := e\<rparr>) ?u ((?u, ?e - ?u) # cs)"
    by (cases "region_blocks ?e rs") (auto simp: Let_def)
  have v: "vPortDefineHeapRegions st ((a, z) # rs) = st\<lparr>hmem := m, pxEnd := e,
        xFreeBytesRemaining := total ((?u, ?e - ?u) # cs),
        xMinimumEverFreeBytesRemaining := total ((?u, ?e - ?u) # cs), xBlockAllocatedBit := 2 ^ 31\<rparr>"
    by (simp only: vPortDefineHeapRegions_def d D) (simp add: push_bit_eq_mult)
  have "h5_rep (vPortDefineHeapRegions st ((a, z) # rs)) ?u ((?u, ?e - ?u) # cs)"
    unfolding v using R e(2) by (simp add: h5_rep_def regions_built_def h5_list_def)
  with v show ?thesis by blast
qed

section \<open>The contract of the heap\<close>

definition heap_lo :: nat where "heap_lo = 0x10002300"

text \<open>The range of the external free function does not meet the regions.\<close>

definition ext_apart :: "'w heap5 \<Rightarrow> nat \<Rightarrow> bool" where
  "ext_apart st hi \<longleftrightarrow> ext_upper st \<le> heap_lo \<or> hi \<le> ext_lower st \<or> ext_upper st \<le> ext_lower st"

definition h5_inv :: "'w heap5 \<Rightarrow> bool" where
  "h5_inv st \<longleftrightarrow> (\<exists>bs. h5_rep st heap_lo bs) \<and> ext_apart st (pxEnd st)
     \<and> xMinimumEverFreeBytesRemaining st \<le> xFreeBytesRemaining st"

definition h5_avail :: "'w heap5 \<Rightarrow> nat set" where
  "h5_avail st = {x. \<exists>bs. h5_rep st heap_lo bs \<and> x \<in> bytes bs}"

definition h5_meta :: "'w heap5 \<Rightarrow> nat set" where
  "h5_meta st = {x. \<exists>bs. h5_rep st heap_lo bs \<and> x \<in> extents bs}
     \<union> {a_xStart st..<a_xStart st + 8} \<union> {pxEnd st..<pxEnd st + 8}"

definition h5_site :: "'w heap5 \<Rightarrow> nat \<times> nat \<times> nat \<times> nat" where
  "h5_site st = (a_xStart st, pxEnd st, ext_lower st, ext_upper st)"

definition h5_bsize :: "'w heap5 \<Rightarrow> nat \<Rightarrow> nat" where
  "h5_bsize st p = ld32 (hmem st) (p - 4) - 2 ^ 31"

definition h5_blk :: "'w heap5 \<Rightarrow> nat \<Rightarrow> nat set" where
  "h5_blk st p = {p - 8..<p - 8 + h5_bsize st p}"

definition h5_wf :: "'w heap5 \<Rightarrow> nat \<Rightarrow> bool" where
  "h5_wf st p \<longleftrightarrow> heap_lo + 8 \<le> p \<and> p - 8 + h5_bsize st p \<le> pxEnd st \<and> 16 \<le> h5_bsize st p
     \<and> 8 dvd h5_bsize st p \<and> 8 dvd p \<and> ld32 (hmem st) (p - 8) = 0
     \<and> ld32 (hmem st) (p - 4) = h5_bsize st p + 2 ^ 31 \<and> ext_apart st (pxEnd st)"

definition h5_poke :: "'w heap5 \<Rightarrow> nat \<Rightarrow> u8 \<Rightarrow> 'w heap5" where
  "h5_poke st x b = st\<lparr>hmem := (hmem st)(x := b)\<rparr>"

definition h5_req_ok :: "nat \<Rightarrow> bool" where
  "h5_req_ok n \<longleftrightarrow> n < 2 ^ 31"

lemma h5_rep_unique: "h5_rep st lo bs \<Longrightarrow> h5_rep st lo cs \<Longrightarrow> bs = cs"
proof -
  assume b: "h5_rep st lo bs" and c: "h5_rep st lo cs"
  have "pxEnd st \<notin> fst ` set xs" if "h5_rep st lo xs" for xs
  proof
    assume "pxEnd st \<in> fst ` set xs"
    then obtain s where "(pxEnd st, s) \<in> set xs" by auto
    from fl_starts [OF h5_repD(3) [OF that] this] show False by (simp add: max_def split: if_splits)
  qed
  with b c have "pxEnd st \<notin> fst ` set bs" "pxEnd st \<notin> fst ` set cs" by blast+
  with b c show ?thesis unfolding h5_rep_def h5_list_def by (blast intro: chain_unique)
qed

lemma h5_avail_eq: "h5_rep st heap_lo bs \<Longrightarrow> h5_avail st = bytes bs"
  using h5_rep_unique by (auto simp: h5_avail_def)

lemma h5_meta_eq: "h5_rep st heap_lo bs \<Longrightarrow> h5_meta st
    = extents bs \<union> {a_xStart st..<a_xStart st + 8} \<union> {pxEnd st..<pxEnd st + 8}"
  using h5_rep_unique by (auto simp: h5_meta_def)

lemma h5_alloc_law:
  assumes inv: "h5_inv s" and req: "h5_req_ok n"
  shows "\<exists>s' p. pvPortMalloc s n = Some (s', p) \<and> h5_inv s' \<and> h5_site s' = h5_site s
      \<and> (\<forall>x. x \<notin> h5_meta s \<longrightarrow> hmem s' x = hmem s x)
      \<and> (p = 0 \<longrightarrow> h5_avail s' = h5_avail s \<and> h5_meta s' = h5_meta s)
      \<and> (p \<noteq> 0 \<longrightarrow> h5_wf s' p \<and> {p..<p + n} \<subseteq> h5_blk s' p \<and> h5_blk s' p \<subseteq> h5_avail s
          \<and> h5_avail s' = h5_avail s - h5_blk s' p \<and> h5_meta s' \<subseteq> h5_meta s - h5_blk s' p)"
proof -
  obtain bs where rep: "h5_rep s heap_lo bs" and ext: "ext_apart s (pxEnd s)" using inv by (auto simp: h5_inv_def)
  have n: "n < 2 ^ 31" using req by (simp add: h5_req_ok_def)
  note D = h5_repD [OF rep]
  show ?thesis
  proof (cases "n = 0 \<or> (\<forall>(a, s)\<in>set bs. s < hrup n)")
    case True
    from pvPortMalloc_none [OF rep n this] inv show ?thesis by simp
  next
    case False
    then have f: "0 < n" "\<not> (\<forall>(a, s)\<in>set bs. s < hrup n)" by auto
    from pvPortMalloc_some [OF rep f(1) n f(2)] obtain xs b k ys m where
      bs: "bs = xs @ (b, k) # ys" and k: "hrup n \<le> k"
      and r: "\<exists>s'. s' = s\<lparr>hmem := m, xFreeBytesRemaining := total (fl_take (hrup n) b k (xs @ ys)),
        xMinimumEverFreeBytesRemaining := min (total (fl_take (hrup n) b k (xs @ ys))) (xMinimumEverFreeBytesRemaining s)\<rparr>
        \<and> pvPortMalloc s n = Some (s', b + 8) \<and> h5_rep s' heap_lo (fl_take (hrup n) b k (xs @ ys))"
      and h: "ld32 m b = 0" "ld32 m (b + 4) = taken (hrup n) k + 2 ^ 31"
      and so: "same_outside ({a_xStart s..<a_xStart s + 4} \<union> extents bs) (hmem s) m"
      by (auto simp: Let_def)
    let ?t = "taken (hrup n) k"
    obtain s' where s': "pvPortMalloc s n = Some (s', b + 8)" "h5_rep s' heap_lo (fl_take (hrup n) b k (xs @ ys))"
      "hmem s' = m" "a_xStart s' = a_xStart s" "pxEnd s' = pxEnd s" "ext_lower s' = ext_lower s" "ext_upper s' = ext_upper s"
      "xMinimumEverFreeBytesRemaining s' \<le> xFreeBytesRemaining s'"
      using r by auto
    have fl: "fl heap_lo (xs @ (b, k) # ys) (pxEnd s)" using D(3) bs by simp
    note B = fl_take_bytes [OF fl k] and E = fl_take_extents [OF fl k] and M = fl_middle [OF fl]
    note H = hrup_props [of n]
    have t: "hrup n \<le> ?t" "?t \<le> k" "8 dvd ?t"
      using taken_props [of "hrup n" k] k H(1) D(2) bs by auto
    have pm: "b + 8 - 4 = b + 4" "b + 8 - 8 = b" by simp_all
    have sz: "h5_bsize s' (b + 8) = ?t" unfolding h5_bsize_def s'(3) pm h(2) by simp
    then have blk: "h5_blk s' (b + 8) = {b..<b + ?t}" by (simp add: h5_blk_def)
    have ext': "ext_apart s' (pxEnd s')" using ext s' by (simp add: ext_apart_def)
    have "heap_lo \<le> b" "b + ?t \<le> pxEnd s" using M t by auto
    moreover have "8 dvd b" using D(2) bs by simp
    ultimately have wf: "h5_wf s' (b + 8)"
      unfolding h5_wf_def sz s'(3) pm h using t f(1) H(2) s'(5) ext' by simp
    have pn: "{b + 8..<b + 8 + n} \<subseteq> {b..<b + ?t}" using H(3) f(1) t by simp
    have av: "h5_avail s' = h5_avail s - {b..<b + ?t}" "{b..<b + ?t} \<subseteq> h5_avail s"
      using B bs by (simp_all add: h5_avail_eq [OF rep] h5_avail_eq [OF s'(2)])
    have blx: "{b..<b + ?t} \<subseteq> extents bs" using B(2) bytes_extents [of bs] bs by blast
    have mt: "h5_meta s' \<subseteq> h5_meta s - {b..<b + ?t}"
      unfolding h5_meta_eq [OF rep] h5_meta_eq [OF s'(2)] s'(4,5)
      using E blx start_extents [OF D(1)] end_extents [OF D(1)] bs by blast
    have "{a_xStart s..<a_xStart s + 4} \<union> extents bs \<subseteq> h5_meta s"
      unfolding h5_meta_eq [OF rep] by fastforce
    then have "\<forall>x. x \<notin> h5_meta s \<longrightarrow> m x = hmem s x"
      using same_outside_mono [OF so] by (simp add: same_outside_def)
    then show ?thesis
      using s' wf pn av mt blk ext' by (intro exI [of _ s'] exI [of _ "b + 8"]) (auto simp: h5_inv_def h5_site_def)
  qed
qed

lemma ext_apart_skip: "ext_apart st hi \<Longrightarrow> heap_lo \<le> p \<Longrightarrow> p < hi \<Longrightarrow> \<not> (ext_lower st \<le> p \<and> p < ext_upper st)"
  by (auto simp: ext_apart_def)

lemma h5_free_law:
  assumes inv: "h5_inv s" and wf: "h5_wf s p" and dis: "h5_blk s p \<inter> h5_meta s = {}"
  shows "\<exists>s'. vPortFree s p = Some s' \<and> h5_inv s' \<and> h5_site s' = h5_site s
        \<and> (\<forall>x. x \<notin> h5_meta s \<union> h5_blk s p \<longrightarrow> hmem s' x = hmem s x)
        \<and> h5_avail s' = h5_avail s \<union> h5_blk s p \<and> h5_meta s' \<subseteq> h5_meta s \<union> h5_blk s p"
proof -
  obtain bs where rep: "h5_rep s heap_lo bs" and ext: "ext_apart s (pxEnd s)" using inv by (auto simp: h5_inv_def)
  note D = h5_repD [OF rep]
  let ?k = "h5_bsize s p" and ?b = "p - 8"
  note W = wf [unfolded h5_wf_def]
  have dj: "{?b..<?b + ?k} \<inter> extents bs = {}" "{?b..<?b + ?k} \<inter> {a_xStart s..<a_xStart s + 8} = {}"
    using dis unfolding h5_blk_def h5_meta_eq [OF rep] by blast+
  have p: "8 \<le> p" "8 \<le> ?k" "heap_lo \<le> p" "p < pxEnd s" "8 dvd ?k" "8 dvd p"
    "heap_lo + 8 \<le> p" "p - 8 + ?k \<le> pxEnd s" "ld32 (hmem s) (p - 8) = 0" "ld32 (hmem s) (p - 4) = ?k + 2 ^ 31"
    using W by linarith+
  from vPortFree_internal_refines [OF rep p(7,8,2,5,6,9,10) dj] obtain m where
    f: "vPortFree_internal s p = Some (s\<lparr>hmem := m, xFreeBytesRemaining := total (fl_insert (?b, ?k) bs)\<rparr>)"
    and R: "h5_rep (s\<lparr>hmem := m, xFreeBytesRemaining := total (fl_insert (?b, ?k) bs)\<rparr>) heap_lo (fl_insert (?b, ?k) bs)"
    and so: "same_outside ({a_xStart s..<a_xStart s + 4} \<union> headers bs \<union> {?b..<p}) (hmem s) m" by blast
  let ?s = "s\<lparr>hmem := m, xFreeBytesRemaining := total (fl_insert (?b, ?k) bs)\<rparr>"
  have "\<not> (ext_lower s \<le> p \<and> p < ext_upper s)" by (rule ext_apart_skip [OF ext p(3,4)])
  then have r1: "vPortFree s p = Some ?s" using f by (auto simp: vPortFree_def)
  have "xMinimumEverFreeBytesRemaining s \<le> total (fl_insert (?b, ?k) bs)"
    using inv D(7) by (simp add: h5_inv_def total_fl_insert)
  then have r2: "h5_inv ?s" using R ext by (auto simp: h5_inv_def ext_apart_def)
  have "{a_xStart s..<a_xStart s + 4} \<union> headers bs \<union> {?b..<p} \<subseteq> h5_meta s \<union> h5_blk s p"
  proof -
    have "{?b..<p} \<subseteq> h5_blk s p" using p by (auto simp: h5_blk_def)
    moreover have "{a_xStart s..<a_xStart s + 4} \<subseteq> {a_xStart s..<a_xStart s + 8}" by auto
    ultimately show ?thesis unfolding h5_meta_eq [OF rep] using headers_extents [of bs] by blast
  qed
  then have r3: "\<forall>x. x \<notin> h5_meta s \<union> h5_blk s p \<longrightarrow> m x = hmem s x"
    using same_outside_mono [OF so] by (simp add: same_outside_def)
  have r4: "h5_avail ?s = h5_avail s \<union> h5_blk s p"
    unfolding h5_avail_eq [OF rep] h5_avail_eq [OF R] bytes_fl_insert h5_blk_def by blast
  have "extents (fl_insert (?b, ?k) bs) \<subseteq> {?b..<?b + ?k} \<union> extents bs"
    by (rule extents_fl_insert [OF p(2)])
  moreover have ax: "a_xStart ?s = a_xStart s" "pxEnd ?s = pxEnd s" by simp_all
  ultimately have "h5_meta ?s \<subseteq> h5_meta s \<union> h5_blk s p"
    unfolding h5_meta_eq [OF rep] h5_meta_eq [OF R] h5_blk_def ax by blast
  then show ?thesis using r1 r2 r3 r4 by (intro exI [of _ ?s]) (simp add: h5_site_def)
qed

text \<open>A write that avoids the bookkeeping leaves the heap as it is.\<close>

lemma h5_frame [list_frame]:
  assumes inv: "h5_inv s" and so: "same_outside F (hmem s) m" and F: "F \<inter> h5_meta s = {}"
  shows "h5_inv (s\<lparr>hmem := m\<rparr>) \<and> h5_avail (s\<lparr>hmem := m\<rparr>) = h5_avail s \<and> h5_meta (s\<lparr>hmem := m\<rparr>) = h5_meta s"
proof -
  obtain bs where rep: "h5_rep s heap_lo bs" and ext: "ext_apart s (pxEnd s)" using inv by (auto simp: h5_inv_def)
  note D = h5_repD [OF rep]
  have F': "F \<inter> extents bs = {}" "F \<inter> {a_xStart s..<a_xStart s + 8} = {}" "F \<inter> {pxEnd s..<pxEnd s + 8} = {}"
    using F unfolding h5_meta_eq [OF rep] by blast+
  have "F \<inter> headers bs = {}" using F'(1) headers_extents [of bs] by blast
  then have L: "h5_list (s\<lparr>hmem := m\<rparr>) heap_lo bs" by (rule h5_list_frame [OF D(1) so _ F'(2)])
  have "{pxEnd s..<pxEnd s + 4} \<subseteq> {pxEnd s..<pxEnd s + 8}"
    "{pxEnd s + 4..<pxEnd s + 4 + 4} \<subseteq> {pxEnd s..<pxEnd s + 8}" by auto
  then have "{pxEnd s..<pxEnd s + 4} \<inter> F = {}" "{pxEnd s + 4..<pxEnd s + 4 + 4} \<inter> F = {}"
    using F'(3) by blast+
  then have "ld32 m (pxEnd s) = 0" "ld32 m (pxEnd s + 4) = 0"
    using ld32_frame [OF so] D(10,11) by simp_all
  with L have rep': "h5_rep (s\<lparr>hmem := m\<rparr>) heap_lo bs" using D by (simp add: h5_rep_def)
  show ?thesis
    unfolding h5_meta_eq [OF rep] h5_meta_eq [OF rep'] h5_avail_eq [OF rep] h5_avail_eq [OF rep']
    using rep' ext inv by (auto simp: h5_inv_def ext_apart_def)
qed

lemma h5_poke_law:
  assumes inv: "h5_inv s" and x: "x \<notin> h5_meta s"
  shows "h5_inv (h5_poke s x b) \<and> h5_site (h5_poke s x b) = h5_site s
      \<and> h5_avail (h5_poke s x b) = h5_avail s \<and> h5_meta (h5_poke s x b) = h5_meta s
      \<and> hmem (h5_poke s x b) = (hmem s)(x := b)"
  using h5_frame [OF inv, of "{x}" "(hmem s)(x := b)"] x
  by (simp add: same_outside_def h5_poke_def h5_site_def)

lemma h5_blk_local:
  assumes "h5_wf s p" "h5_site s' = h5_site s" "\<forall>x\<in>{p - 8..<p}. hmem s' x = hmem s x"
  shows "h5_wf s' p \<and> h5_blk s' p = h5_blk s p"
proof -
  have p: "8 \<le> p" using assms(1) by (auto simp: h5_wf_def)
  have e: "ld32 (hmem s') (p - 8) = ld32 (hmem s) (p - 8)" "ld32 (hmem s') (p - 4) = ld32 (hmem s) (p - 4)"
    using assms(3) p by (intro ld32_cong; auto)+
  then have b: "h5_bsize s' p = h5_bsize s p" by (simp only: h5_bsize_def)
  have site: "pxEnd s' = pxEnd s" "ext_lower s' = ext_lower s" "ext_upper s' = ext_upper s"
    using assms(2) by (simp_all add: h5_site_def)
  then have "ext_apart s' (pxEnd s') = ext_apart s (pxEnd s)" by (simp only: ext_apart_def)
  with e b site have "h5_wf s' p = h5_wf s p" by (simp only: h5_wf_def)
  with assms(1) b show ?thesis by (simp only: h5_blk_def)
qed

lemma h5_hdr_blk: "h5_wf s p \<Longrightarrow> {p - 8..<p} \<subseteq> h5_blk s p"
  unfolding h5_wf_def h5_blk_def ivl_subset by linarith

lemma h5_avail_meta: "h5_inv s \<Longrightarrow> h5_avail s \<subseteq> h5_meta s"
proof -
  assume "h5_inv s"
  then obtain bs where rep: "h5_rep s heap_lo bs" by (auto simp: h5_inv_def)
  show ?thesis unfolding h5_avail_eq [OF rep] h5_meta_eq [OF rep] using bytes_extents by blast
qed

interpretation h5_alloc: heap_allocator pvPortMalloc vPortFree hmem h5_poke h5_inv h5_site
  h5_avail h5_meta h5_wf h5_blk "\<lambda>p. {p - 8..<p}" h5_req_ok
  by (rule heap_allocator.intro, rule h5_alloc_law, assumption+, rule h5_free_law, assumption+,
      erule (1) h5_poke_law, rule h5_blk_local, assumption+, erule h5_hdr_blk,
      simp, erule h5_avail_meta)

end
