(* ===== verification/Heaps.thy ===== *)
theory Heaps
  imports TcmHeap Heap5
begin

text \<open>
  The properties of the RTOS heap \<open>heap_5.c\<close> with the regions this firmware defines, and of its
  interplay with the TCM heap, which registers itself as the external free function.
\<close>

section \<open>The heap after its first use\<close>

definition h5_layout :: "'w heap5 \<Rightarrow> bool" where
  "h5_layout st \<longleftrightarrow> pxEnd st = 0 \<and> a_xStart st < 2 ^ 32 \<and> regions_ok (a_xStart st) 1 (xHeapRegions st)
     \<and> a_ucHeap st + 60 * 1024 \<le> heap_lo + 2 ^ 31 \<and> ext_apart st (a_ucHeap st + 60 * 1024)"

definition h5_start :: "'w heap5 \<Rightarrow> 'w heap5" where
  "h5_start st = vPortDefineHeapRegions st (xHeapRegions st)"

text \<open>The bytes of the two regions, less their end markers.\<close>

definition h5_pool :: "'w heap5 \<Rightarrow> nat set" where
  "h5_pool st = {heap_lo..<heap_lo + 0x3CF8}
     \<union> {align8 (a_ucHeap st)..<region_end (a_ucHeap st) (60 * 1024)}"

lemma h5_start_facts:
  assumes "h5_layout st"
  shows "h5_inv (h5_start st)" "h5_avail (h5_start st) = h5_pool st"
    "a_xStart (h5_start st) = a_xStart st" "ext_lower (h5_start st) = ext_lower st"
    "ext_upper (h5_start st) = ext_upper st" "pxEnd (h5_start st) = region_end (a_ucHeap st) (60 * 1024)"
    "h5_rep (h5_start st) heap_lo [(heap_lo, 0x3CF8), (heap_lo + 0x3CF8, 0),
      (align8 (a_ucHeap st), region_end (a_ucHeap st) (60 * 1024) - align8 (a_ucHeap st))]"
proof -
  let ?uc = "a_ucHeap st"
  note L = assms [unfolded h5_layout_def]
  have a: "align8 0x10002300 = heap_lo" "region_end 0x10002300 0x3D00 = heap_lo + 0x3CF8"
    by (simp_all add: align8_def region_end_def heap_lo_def)
  let ?cs = "[(heap_lo + 0x3CF8, 0), (align8 ?uc, region_end ?uc (60 * 1024) - align8 ?uc)]"
  have rb: "(?cs, region_end ?uc (60 * 1024))
      = region_blocks (region_end 0x10002300 0x3D00) [(?uc, 60 * 1024), (0, 0)]"
    by (simp add: a)
  have e: "region_end ?uc (60 * 1024) + 8 \<le> ?uc + 60 * 1024"
    using region_end_props(2) [of ?uc "60 * 1024"] by simp
  then have e31: "region_end ?uc (60 * 1024) < align8 0x10002300 + 2 ^ 31" using L a by simp
  have rg: "xHeapRegions st = (0x10002300, 0x3D00) # [(?uc, 60 * 1024), (0, 0)]"
    by (simp add: xHeapRegions_def configTOTAL_HEAP_SIZE_def)
  have "regions_ok (a_xStart st) 1 ((0x10002300, 0x3D00) # [(?uc, 60 * 1024), (0, 0)])"
    using L rg by simp
  from define_heap_rep [OF this _ _ _ rb e31] L obtain m where
    R: "h5_rep (h5_start st) heap_lo ((heap_lo, 0x3CF8) # ?cs)"
    and v: "h5_start st = st\<lparr>hmem := m, pxEnd := region_end ?uc (60 * 1024),
      xFreeBytesRemaining := total ((heap_lo, 0x3CF8) # ?cs),
      xMinimumEverFreeBytesRemaining := total ((heap_lo, 0x3CF8) # ?cs), xBlockAllocatedBit := 2 ^ 31\<rparr>"
    unfolding h5_start_def rg a by auto
  from R show "h5_rep (h5_start st) heap_lo [(heap_lo, 0x3CF8), (heap_lo + 0x3CF8, 0),
      (align8 ?uc, region_end ?uc (60 * 1024) - align8 ?uc)]" by simp
  show "a_xStart (h5_start st) = a_xStart st" "ext_lower (h5_start st) = ext_lower st"
    "ext_upper (h5_start st) = ext_upper st" "pxEnd (h5_start st) = region_end ?uc (60 * 1024)"
    by (simp_all add: v)
  have "ext_apart (h5_start st) (pxEnd (h5_start st))"
    using L e by (auto simp: v ext_apart_def)
  with R show "h5_inv (h5_start st)" by (auto simp: h5_inv_def v)
  have "bytes ((heap_lo, 0x3CF8) # ?cs) = h5_pool st"
    using align8_props(1,2) [of ?uc] region_end_props(1) [of "60 * 1024" ?uc] by (simp add: h5_pool_def)
  with h5_avail_eq [OF R] show "h5_avail (h5_start st) = h5_pool st" by simp
qed

lemma h5_run:
  assumes "h5_layout st" "list_all (cmd_ok h5_req_ok) cs"
  shows "\<exists>s L. heap_run pvPortMalloc vPortFree h5_poke (h5_start st, []) cs = Some (s, L)
    \<and> h5_inv s \<and> h5_site s = h5_site (h5_start st) \<and> h5_alloc.lives_ok s L
    \<and> h5_avail s \<union> h5_alloc.owned s L = h5_pool st"
  using h5_alloc.run_ok [OF h5_start_facts(1) [OF assms(1)] h5_alloc.lives_ok_Nil [of "h5_start st"] assms(2)]
    h5_start_facts(2) [OF assms(1)]
  by simp

lemma h5_free_count: "h5_inv s \<Longrightarrow> xPortGetFreeHeapSize s = card (h5_avail s)"
proof -
  assume "h5_inv s"
  then obtain bs where rep: "h5_rep s heap_lo bs" by (auto simp: h5_inv_def)
  show ?thesis
    using fl_card [OF h5_repD(3) [OF rep]] h5_avail_eq [OF rep] h5_repD(7) [OF rep]
    by (simp add: xPortGetFreeHeapSize_def)
qed

text \<open>A linker's choice of addresses with \<open>xStart\<close> between the two regions.\<close>

definition h5_sample :: "'w \<Rightarrow> 'w heap5" where
  "h5_sample w = \<lparr>hmem = (\<lambda>_. 0), a_xStart = 0x10006000, a_ucHeap = 0x10007004, pxEnd = 0,
     xFreeBytesRemaining = 0, xMinimumEverFreeBytesRemaining = 0, xBlockAllocatedBit = 0,
     ext_free = None, ext_upper = 0x20000000, ext_lower = 0x1fff0000, ext_world = w,
     uxSchedulerSuspended = 0\<rparr>"

lemma h5_sample_layout [simp]: "h5_layout (h5_sample w)"
  by (simp add: h5_layout_def h5_sample_def xHeapRegions_def configTOTAL_HEAP_SIZE_def heap_lo_def
      ext_apart_def)

lemma h5_blk_card: "card (h5_blk s p) = h5_bsize s p"
  by (simp add: h5_blk_def)

lemma realloc_tail:
  assumes p: "8 \<le> p" "p < 2 ^ 32" and k: "16 \<le> k" "k < 2 ^ 31" and n: "0 < n" "n < 2 ^ 31"
    and nx: "\<not> (ext_lower s \<le> p \<and> p < ext_upper s)"
    and a: "pvPortMalloc s n = Some (s1, q)" "q \<noteq> 0"
    and h: "ld32 (hmem s1) (p - 4) = k + 2 ^ 31" "xBlockAllocatedBit s1 = 2 ^ 31"
    and h2: "ld32 (mem_cpy (hmem s1) q p (min (k - 8) n)) (p - 4) = k + 2 ^ 31"
      "ld32 (mem_cpy (hmem s1) q p (min (k - 8) n)) (p - 8) = 0"
  shows "pvPortReAlloc s p n = map_option (\<lambda>s. (s, q))
    (vPortFree_internal (s1\<lparr>hmem := mem_cpy (hmem s1) q p (min (k - 8) n)\<rparr>) p)"
proof -
  let ?m = "mem_cpy (hmem s1) q p (min (k - 8) n)"
  have p8: "p - 8 + 4 = p - 4" "sub32 p 8 = p - 8" "p \<noteq> 0" using p by auto
  have z: "andnot32 (k + 2 ^ 31) (2 ^ 31) = k" "(k + 2 ^ 31) AND 2 ^ 31 = (2 ^ 31 :: nat)"
    using andnot_top_bit [OF k(2)] or_and_top_bit [OF k(2)] by blast+
  have r: "pvPortReAlloc s p n = do {
      let st = vTaskSuspendAll (s1\<lparr>hmem := ?m\<rparr>);
      let m = st32 ?m (p - 8 + 4) k;
      let st = st\<lparr>hmem := m, xFreeBytesRemaining := add32 (xFreeBytesRemaining st) (ld32 m (p - 8 + 4))\<rparr>;
      st \<leftarrow> prvInsertBlockIntoFreeList st (p - 8);
      Some (xTaskResumeAll st, q) }"
  proof -
    have i: "s32 (k - 8) = int (k - 8)" "u32 (int (k - 8)) = k - 8" "u32 (s32 n) = n" "sub32 k 8 = k - 8"
      using k n by (simp_all del: of_nat_diff)
    have e: "xBlockSize (hmem s1) (p - 8) = k + 2 ^ 31" "xBlockSize ?m (p - 8) = k + 2 ^ 31"
      by (simp_all only: p8(1) h h2)
    show ?thesis
    proof (cases "k - 8 < n")
      case True
      then have "min (k - 8) n = k - 8" by simp
      then show ?thesis using nx a n(1) p8(3) True e h(2) k
        by (auto simp: pvPortReAlloc_def p8(2) vTaskSuspendAll_def Let_def i simp del: of_nat_diff)
    next
      case False
      then have "min (k - 8) n = n" by simp
      then show ?thesis using nx a n(1) p8(3) False e h(2) k
        by (auto simp: pvPortReAlloc_def p8(2) vTaskSuspendAll_def Let_def i simp del: of_nat_diff)
    qed
  qed
  have f: "vPortFree_internal (s1\<lparr>hmem := ?m\<rparr>) p = do {
      let m = st32 ?m (p - 8 + 4) k;
      let st = vTaskSuspendAll (s1\<lparr>hmem := m\<rparr>);
      let st = st\<lparr>xFreeBytesRemaining := add32 (xFreeBytesRemaining st) (ld32 m (p - 8 + 4))\<rparr>;
      st \<leftarrow> prvInsertBlockIntoFreeList st (p - 8);
      Some (xTaskResumeAll st) }"
    unfolding vPortFree_internal_def struct_size p8(2) using p8(3) h2 z h(2)
    by (simp add: Let_def p8(1) del: top_bit_simps)
  have e: "s1\<lparr>uxSchedulerSuspended := u, hmem := m, xFreeBytesRemaining := v\<rparr>
    = s1\<lparr>hmem := m, uxSchedulerSuspended := u, xFreeBytesRemaining := v\<rparr>" for u m v by simp
  show ?thesis unfolding r f
    by (simp add: Let_def vTaskSuspendAll_def map_conv_bind_option e)
qed

section \<open>Properties\<close>

text \<open>C5: A client of the RTOS heap that allocates (requests below \<open>2 ^ 31\<close>), frees its own
  blocks and writes anywhere inside them never sends the heap into an endless list walk. Its
  blocks are 8-byte aligned, pairwise disjoint and inside the regions, no byte is
  lost or handed out twice, and the free-byte counter is exact, with the recorded minimum below it.\<close>

theorem h5_client_safe:
  assumes "h5_layout st" "list_all (cmd_ok h5_req_ok) cs"
  shows "\<exists>s L. heap_run pvPortMalloc vPortFree h5_poke (h5_start st, []) cs = Some (s, L)
    \<and> payloads_disjoint L
    \<and> (\<forall>(p, n)\<in>set L. 8 dvd p \<and> {p..<p + n} \<subseteq> h5_blk s p \<and> h5_blk s p \<subseteq> h5_pool st
         \<and> h5_blk s p \<inter> h5_avail s = {})
    \<and> h5_avail s \<union> (\<Union>(p, n)\<in>set L. h5_blk s p) = h5_pool st
    \<and> xPortGetFreeHeapSize s = card (h5_avail s)
    \<and> xPortGetMinimumEverFreeHeapSize s \<le> xPortGetFreeHeapSize s"
proof -
  from h5_run [OF assms] obtain s L where
    r: "heap_run pvPortMalloc vPortFree h5_poke (h5_start st, []) cs = Some (s, L)"
    and i: "h5_inv s" "h5_alloc.lives_ok s L"
    and a: "h5_avail s \<union> h5_alloc.owned s L = h5_pool st" by blast
  have l: "8 dvd p \<and> {p..<p + n} \<subseteq> h5_blk s p \<and> h5_blk s p \<subseteq> h5_pool st
      \<and> h5_blk s p \<inter> h5_avail s = {}" if "(p, n) \<in> set L" for p n
  proof -
    have v: "h5_alloc.live s (p, n)" using i(2) that by (auto simp: h5_alloc.lives_ok_def)
    have "h5_blk s p \<subseteq> h5_alloc.owned s L"
      using UN_upper [OF that, of "\<lambda>e. h5_blk s (fst e)"] by (simp add: h5_alloc.owned_def)
    then have "h5_blk s p \<subseteq> h5_pool st" using a by blast
    moreover have "h5_wf s p" "{p..<p + n} \<subseteq> h5_blk s p" "h5_blk s p \<inter> h5_meta s = {}"
      using v by (simp_all add: h5_alloc.live_def)
    moreover from this have "8 dvd p" by (simp add: h5_wf_def)
    ultimately show ?thesis using h5_avail_meta [OF i(1)] by blast
  qed
  have "h5_avail s \<union> (\<Union>(p, n)\<in>set L. h5_blk s p) = h5_pool st"
    using a by (simp add: h5_alloc.owned_def case_prod_beta)
  moreover have "xPortGetMinimumEverFreeHeapSize s \<le> xPortGetFreeHeapSize s"
    using i by (simp add: h5_inv_def xPortGetMinimumEverFreeHeapSize_def xPortGetFreeHeapSize_def)
  moreover have "\<forall>(p, n)\<in>set L. 8 dvd p \<and> {p..<p + n} \<subseteq> h5_blk s p \<and> h5_blk s p \<subseteq> h5_pool st
      \<and> h5_blk s p \<inter> h5_avail s = {}" using l by blast
  ultimately show ?thesis
    using r h5_alloc.payloads [OF i(2)] h5_free_count [OF i(1)] by blast
qed

lemma h5_client_safe_witness:
  "\<exists>s L. heap_run pvPortMalloc vPortFree h5_poke (h5_start (h5_sample ()), [])
      [Malloc 100, Malloc 50000, Malloc 3, Write 0 2 7, Free 1, Malloc 0] = Some (s, L)
    \<and> payloads_disjoint L \<and> xPortGetFreeHeapSize s = card (h5_avail s)"
  using h5_client_safe [of "h5_sample ()" "[Malloc 100, Malloc 50000, Malloc 3, Write 0 2 7, Free 1, Malloc 0]"]
  by (force simp: h5_req_ok_def)

text \<open>The first call of \<open>pvPortMalloc\<close> sets the regions up; it behaves as a call on the heap
  set up before.\<close>

theorem h5_lazy_init:
  assumes "h5_layout st"
  shows "pvPortMalloc st n = pvPortMalloc (h5_start st) n"
proof -
  obtain bs where "h5_rep (h5_start st) heap_lo bs"
    using h5_start_facts(1) [OF assms] by (auto simp: h5_inv_def)
  then have "pxEnd (h5_start st) \<noteq> 0" using h5_repD(4,6) by fastforce
  with assms show ?thesis by (simp add: pvPortMalloc_def h5_start_def h5_layout_def)
qed

lemma h5_lazy_init_witness: "pvPortMalloc (h5_sample ()) 100 = pvPortMalloc (h5_start (h5_sample ())) 100"
  by (rule h5_lazy_init) simp

text \<open>C8: \<open>pvPortMalloc\<close> fails exactly for a request of 0 bytes or when no free block holds the
  request with its header, rounded up to 8; a refused request changes nothing.\<close>

theorem h5_malloc_complete:
  assumes "h5_rep st lo bs" "n < 2 ^ 31"
  shows "\<exists>s p. pvPortMalloc st n = Some (s, p)
    \<and> (p = 0 \<longleftrightarrow> n = 0 \<or> (\<forall>(a, sz)\<in>set bs. sz < hrup n)) \<and> (p = 0 \<longrightarrow> s = st)
    \<and> (p \<noteq> 0 \<longrightarrow> 8 dvd p \<and> (\<exists>cs. h5_rep s lo cs \<and> total cs + hrup n \<le> total bs \<and> total bs \<le> total cs + hrup n + 16))"
proof (cases "n = 0 \<or> (\<forall>(a, s)\<in>set bs. s < hrup n)")
  case True
  from pvPortMalloc_none [OF assms this] True show ?thesis by auto
next
  case False
  then have f: "0 < n" "\<not> (\<forall>(a, s)\<in>set bs. s < hrup n)" by auto
  from pvPortMalloc_some [OF assms(1) f(1) assms(2) f(2)] obtain xs b k ys s' where
    bs: "bs = xs @ (b, k) # ys" and k: "hrup n \<le> k" and r: "pvPortMalloc st n = Some (s', b + 8)"
    and rep: "h5_rep s' lo (fl_take (hrup n) b k (xs @ ys))"
    by (auto simp: Let_def)
  have fl: "fl lo (xs @ (b, k) # ys) (pxEnd st)" using h5_repD(3) [OF assms(1)] bs by simp
  have "8 dvd b" using h5_repD(2) [OF assms(1)] bs by simp
  moreover have "hrup n \<le> taken (hrup n) k" "taken (hrup n) k \<le> hrup n + 16"
    using k by (auto simp: taken_def)
  ultimately show ?thesis using r rep fl_take_bytes(3) [OF fl k] bs False
    by (intro exI [of _ s'] exI [of _ "b + 8"]) fastforce
qed

lemma h5_malloc_complete_witness:
  "\<exists>s p. pvPortMalloc (h5_start (h5_sample ())) 100 = Some (s, p) \<and> p \<noteq> 0 \<and> 8 dvd p"
  using h5_malloc_complete [OF h5_start_facts(7) [OF h5_sample_layout], of 100]
  by (fastforce simp: hrup_def)

text \<open>C6: \<open>pvPortReAlloc\<close> of a block from the regions to a positive size returns; either it fails
  and the old block stays as it was, or the new block starts with the bytes of the old one, as many
  as both hold, and the old block is free again.\<close>

theorem h5_realloc_copies:
  assumes inv: "h5_inv s" and wf: "h5_wf s p" and dis: "h5_blk s p \<inter> h5_meta s = {}"
    and n: "0 < n" "n < 2 ^ 31"
  shows "\<exists>s' q. pvPortReAlloc s p n = Some (s', q) \<and> h5_inv s'
    \<and> (q = 0 \<longrightarrow> h5_avail s' = h5_avail s \<and> (\<forall>x\<in>h5_blk s p. hmem s' x = hmem s x))
    \<and> (q \<noteq> 0 \<longrightarrow> (\<forall>i < min (h5_bsize s p - 8) n. hmem s' (q + i) = hmem s (p + i))
         \<and> h5_avail s' \<inter> {q..<q + n} = {} \<and> h5_blk s p \<subseteq> h5_avail s')"
proof -
  note W = wf [unfolded h5_wf_def]
  have p: "p \<noteq> 0" "8 \<le> p" using W by auto
  obtain bs where rep: "h5_rep s heap_lo bs" and ext: "ext_apart s (pxEnd s)" using inv by (auto simp: h5_inv_def)
  have "p < pxEnd s" using W by linarith
  then have nx: "\<not> (ext_lower s \<le> p \<and> p < ext_upper s)" using ext_apart_skip [OF ext] W by auto
  have req: "h5_req_ok n" using n by (simp add: h5_req_ok_def)
  from h5_alloc_law [OF inv req] obtain s1 q where
    a: "pvPortMalloc s n = Some (s1, q)" "h5_inv s1" "h5_site s1 = h5_site s"
    and fr: "\<forall>x. x \<notin> h5_meta s \<longrightarrow> hmem s1 x = hmem s x"
    and z: "q = 0 \<longrightarrow> h5_avail s1 = h5_avail s \<and> h5_meta s1 = h5_meta s"
    and nz: "q \<noteq> 0 \<longrightarrow> h5_wf s1 q \<and> {q..<q + n} \<subseteq> h5_blk s1 q \<and> h5_blk s1 q \<subseteq> h5_avail s
          \<and> h5_avail s1 = h5_avail s - h5_blk s1 q \<and> h5_meta s1 \<subseteq> h5_meta s - h5_blk s1 q" by blast
  have keep: "\<forall>x\<in>h5_blk s p. hmem s1 x = hmem s x" using fr dis by blast
  show ?thesis
  proof (cases "q = 0")
    case True
    then have "pvPortReAlloc s p n = Some (s1, 0)" using a nx p n by (auto simp: pvPortReAlloc_def)
    with True a z keep show ?thesis by auto
  next
    case False
    with nz have N: "h5_wf s1 q" "{q..<q + n} \<subseteq> h5_blk s1 q" "h5_blk s1 q \<subseteq> h5_avail s"
      "h5_avail s1 = h5_avail s - h5_blk s1 q" "h5_meta s1 \<subseteq> h5_meta s - h5_blk s1 q" by auto
    let ?k = "h5_bsize s p"
    define c where "c = min (?k - 8) n"
    let ?m = "mem_cpy (hmem s1) q p c"
    let ?s2 = "s1\<lparr>hmem := ?m\<rparr>"
    have hd: "{p - 8..<p} \<subseteq> h5_blk s p" by (rule h5_hdr_blk [OF wf])
    have am: "h5_avail s \<subseteq> h5_meta s" by (rule h5_avail_meta [OF inv])
    have cq: "{q..<q + c} \<subseteq> h5_blk s1 q" using N(2) by (fastforce simp: c_def)
    have so: "same_outside {q..<q + c} (hmem s1) ?m"
      by (auto simp: same_outside_def mem_cpy_other not_less)
    have F: "h5_inv ?s2 \<and> h5_avail ?s2 = h5_avail s1 \<and> h5_meta ?s2 = h5_meta s1"
      by (rule h5_frame [OF a(2) so]) (use cq N(5) in blast)
    have pq: "h5_blk s p \<inter> h5_blk s1 q = {}" using dis N(3) am by blast
    have same: "\<forall>x\<in>h5_blk s p. ?m x = hmem s x"
    proof
      fix x assume x: "x \<in> h5_blk s p"
      then have "x \<notin> {q..<q + c}" using pq cq by blast
      then show "?m x = hmem s x" using so keep x by (simp add: same_outside_def)
    qed
    have "h5_site ?s2 = h5_site s" using a(3) by (simp add: h5_site_def)
    then have w2: "h5_wf ?s2 p" "h5_blk ?s2 p = h5_blk s p"
      using h5_blk_local [OF wf, of ?s2] same hd by auto
    have d2: "h5_blk ?s2 p \<inter> h5_meta ?s2 = {}" using w2 F N(5) dis by blast
    from h5_free_law [OF _ w2(1) d2] F obtain s3 where
      f: "vPortFree ?s2 p = Some s3" "h5_inv s3"
      "\<forall>x. x \<notin> h5_meta ?s2 \<union> h5_blk ?s2 p \<longrightarrow> hmem s3 x = ?m x"
      "h5_avail s3 = h5_avail ?s2 \<union> h5_blk ?s2 p" by auto
    have w1: "h5_wf s1 p" "h5_blk s1 p = h5_blk s p"
      using h5_blk_local [OF wf a(3)] keep hd by blast+
    have k: "h5_bsize ?s2 p = ?k" "h5_bsize s1 p = ?k"
      using w1(2) w2(2) h5_blk_card [of s p] h5_blk_card [of s1 p] h5_blk_card [of ?s2 p] by simp_all
    have "\<exists>bs. h5_rep s1 heap_lo bs" using a(2) by (simp add: h5_inv_def)
    then have bit: "xBlockAllocatedBit s1 = 2 ^ 31" using h5_repD(8) by blast
    have k31: "?k < 2 ^ 31" "p < 2 ^ 32" using W p h5_repD(5,12) [OF rep] by linarith+
    have "pvPortReAlloc s p n = map_option (\<lambda>s. (s, q)) (vPortFree_internal ?s2 p)"
      unfolding c_def
      by (rule realloc_tail [OF p(2) k31(2) _ k31(1) n nx a(1) False _ bit])
        (use W w1(1) w2(1) k in \<open>auto simp: h5_wf_def c_def\<close>)
    moreover have "vPortFree ?s2 p = vPortFree_internal ?s2 p"
      using nx a(3) by (auto simp: vPortFree_def h5_site_def)
    ultimately have "pvPortReAlloc s p n = Some (s3, q)" using f(1) by simp
    moreover have "hmem s3 (q + i) = hmem s (p + i)" if i: "i < c" for i
    proof -
      have "q + i \<in> h5_blk s1 q" using cq i by auto
      then have "q + i \<notin> h5_meta ?s2 \<union> h5_blk ?s2 p" using F N(5) pq w2 by blast
      then have "hmem s3 (q + i) = ?m (q + i)" using f(3) by blast
      also have "\<dots> = hmem s1 (p + i)"
      proof (rule mem_cpy_in [OF i])
        have pc: "{p..<p + c} \<subseteq> h5_blk s p" using W p by (auto simp: c_def h5_blk_def)
        then have "{q..<q + c} \<inter> {p..<p + c} = {}" using cq pq by blast
        then show "p + c \<le> q \<or> q + c \<le> p" using ivl_disjoint [of q c p c] i by auto
      qed
      also have "p + i \<in> h5_blk s p" using W p i by (auto simp: c_def h5_blk_def)
      then have "hmem s1 (p + i) = hmem s (p + i)" using keep by blast
      finally show ?thesis .
    qed
    moreover have "h5_avail s3 \<inter> {q..<q + n} = {}" using f(4) F N pq w2 by blast
    moreover have "h5_blk s p \<subseteq> h5_avail s3" using f(4) w2 by blast
    ultimately show ?thesis using f(2) False by (intro exI [of _ s3] exI [of _ q]) (simp add: c_def)
  qed
qed

lemma h5_sample_block:
  "\<exists>s p. pvPortMalloc (h5_start (h5_sample ())) 100 = Some (s, p) \<and> p \<noteq> 0 \<and> h5_inv s \<and> h5_wf s p
    \<and> h5_blk s p \<inter> h5_meta s = {} \<and> ext_lower s = 0x1fff0000 \<and> p < 0x1fff0000"
proof -
  let ?s = "h5_start (h5_sample ())"
  note F = h5_start_facts [OF h5_sample_layout [of "()"]]
  from pvPortMalloc_some [OF F(7), of 100] obtain s b where
    "pvPortMalloc ?s 100 = Some (s, b + 8)" by (fastforce simp: hrup_def Let_def)
  with h5_alloc_law [OF F(1), of 100] have
    a: "h5_inv s" "h5_site s = h5_site ?s" "h5_wf s (b + 8)" "h5_meta s \<subseteq> h5_meta ?s - h5_blk s (b + 8)"
    by (auto simp: h5_req_ok_def)
  have "region_end (a_ucHeap (h5_sample ())) (60 * 1024) < 0x1fff0000"
    by (simp add: h5_sample_def region_end_def)
  then have "b + 8 < 0x1fff0000" "ext_lower s = 0x1fff0000"
    using a(2,3) F(4,6) by (auto simp: h5_site_def h5_wf_def h5_sample_def)
  with a \<open>pvPortMalloc ?s 100 = Some (s, b + 8)\<close> show ?thesis
    by (intro exI [of _ s] exI [of _ "b + 8"]) auto
qed

lemma h5_realloc_copies_witness:
  "\<exists>s p s' q. pvPortMalloc (h5_start (h5_sample ())) 100 = Some (s, p) \<and> pvPortReAlloc s p 50 = Some (s', q)
    \<and> h5_inv s' \<and> (q \<noteq> 0 \<longrightarrow> h5_blk s p \<subseteq> h5_avail s')"
proof -
  obtain s p where b: "pvPortMalloc (h5_start (h5_sample ())) 100 = Some (s, p)" "h5_inv s" "h5_wf s p"
    "h5_blk s p \<inter> h5_meta s = {}" using h5_sample_block by blast
  from h5_realloc_copies [OF b(2,3,4), of 50] b(1) show ?thesis by (simp, blast)
qed

text \<open>The other branches of \<open>pvPortReAlloc\<close>: a null pointer makes it \<open>pvPortMalloc\<close>, size 0
  makes it \<open>vPortFree\<close>, and for a block in the range of the external free function it is that
  function followed by a fresh allocation: nothing is copied from the old block to the new one.\<close>

theorem h5_realloc_other:
  assumes "ext_lower s \<noteq> 0" "0 < n"
  shows "pvPortReAlloc s 0 n = pvPortMalloc s n \<and> pvPortReAlloc s 0 0 = Some (s, 0)
    \<and> (p \<noteq> 0 \<and> \<not> (ext_lower s \<le> p \<and> p < ext_upper s) \<longrightarrow>
         pvPortReAlloc s p 0 = map_option (\<lambda>s'. (s', 0)) (vPortFree s p))
    \<and> (ext_lower s \<le> p \<and> p < ext_upper s \<longrightarrow>
         pvPortReAlloc s p n = Option.bind (vPortFree s p) (\<lambda>s'. pvPortMalloc s' n))"
  using assms by (auto simp: pvPortReAlloc_def vPortFree_def map_conv_bind_option o_def)

lemma h5_realloc_other_witness:
  "pvPortReAlloc (h5_sample ()) 0 100 = pvPortMalloc (h5_sample ()) 100
   \<and> pvPortReAlloc (h5_sample ()) 0x1fff0004 100
     = Option.bind (vPortFree (h5_sample ()) 0x1fff0004) (\<lambda>s'. pvPortMalloc s' 100)"
  using h5_realloc_other [where s = "h5_sample ()" and n = 100 and p = "0x1fff0004"]
  by (simp add: h5_sample_def)

section \<open>The TCM heap as the external free function\<close>

text \<open>What \<open>tcm_heap_init\<close> registers with \<open>vPortSetExtFree\<close>: \<open>tcm_heap_free\<close> on the shared memory.\<close>

definition tcm_ext_free :: "nat \<Rightarrow> mem \<times> tcm \<Rightarrow> (mem \<times> tcm) option" where
  "tcm_ext_free p mt = map_option (\<lambda>t. (tmem t, t)) (tcm_heap_free ((snd mt)\<lparr>tmem := fst mt\<rparr>) p)"

definition tcm_register :: "tcm heap5 \<Rightarrow> tcm heap5" where
  "tcm_register st = (case ext_reg (ext_world st) of
     None \<Rightarrow> st | Some (upper, lower) \<Rightarrow> vPortSetExtFree st (Some tcm_ext_free) upper lower)"

text \<open>The TCM heap as it sees the shared memory.\<close>

definition tcm_view :: "tcm heap5 \<Rightarrow> tcm" where
  "tcm_view s = (ext_world s)\<lparr>tmem := hmem s\<rparr>"

text \<open>C7: Once the TCM heap has registered itself, \<open>vPortFree\<close> of a block of the TCM heap (a
  task stack) gives it back to the TCM heap and leaves the RTOS heap as it was.\<close>

theorem tcm_block_freed_by_rtos:
  assumes inv: "h5_inv s" and reg: "ext_reg (ext_world s) = Some (0x20000000, 0x1fff0000)"
    and t: "tcm_inv (tcm_view s)" "tcm_wf (tcm_view s) p" "tcm_blk (tcm_view s) p \<inter> tcm_meta (tcm_view s) = {}"
    and range: "0x1fff0000 \<le> p_buf (ext_world s)" "tcm_end (ext_world s) \<le> 0x20000000"
    and apart: "(tcm_meta (tcm_view s) \<union> tcm_blk (tcm_view s) p) \<inter> h5_meta s = {}"
  shows "\<exists>s'. vPortFree (tcm_register s) p = Some s' \<and> tcm_inv (tcm_view s')
    \<and> tcm_avail (tcm_view s') = tcm_avail (tcm_view s) \<union> tcm_blk (tcm_view s) p
    \<and> h5_avail s' = h5_avail s \<and> xPortGetFreeHeapSize s' = xPortGetFreeHeapSize s"
proof -
  let ?t = "tcm_view s"
  from tcm_free_law [OF t] obtain t' where f: "tcm_heap_free ?t p = Some t'" "tcm_inv t'"
    "\<forall>x. x \<notin> tcm_meta ?t \<union> tcm_blk ?t p \<longrightarrow> tmem t' x = tmem ?t x"
    "tcm_avail t' = tcm_avail ?t \<union> tcm_blk ?t p" by blast
  have pr: "0x1fff0000 \<le> p" "p < 0x20000000"
    using t(2) range rup_props(2) [of "nat (ld_int (tmem ?t) (p - 4))"]
    by (auto simp: tcm_wf_def tcm_view_def tcm_block_size_def)
  let ?r = "tcm_register s"
  have r: "?r = s\<lparr>ext_free := Some tcm_ext_free, ext_upper := 0x20000000, ext_lower := 0x1fff0000\<rparr>"
    using reg by (simp add: tcm_register_def vPortSetExtFree_def)
  let ?s = "?r\<lparr>hmem := tmem t', ext_world := t'\<rparr>"
  have e: "vPortFree ?r p = Some ?s"
    using pr f(1) by (simp add: vPortFree_def call_ext_free_def tcm_ext_free_def r tcm_view_def)
  have "same_outside (tcm_meta ?t \<union> tcm_blk ?t p) (hmem s) (tmem t')"
    using f(3) by (simp add: same_outside_def tcm_view_def)
  from h5_frame [OF inv this apart] have F: "h5_avail (s\<lparr>hmem := tmem t'\<rparr>) = h5_avail s" by simp
  have rp: "h5_rep ?s lo bs = h5_rep (s\<lparr>hmem := tmem t'\<rparr>) lo bs" for lo bs
    by (simp add: h5_rep_def h5_list_def r)
  have "h5_avail ?s = h5_avail s"
    using F by (simp add: h5_avail_def rp)
  moreover have "tcm_view ?s = t'" by (simp add: tcm_view_def)
  ultimately show ?thesis
    using e f by (intro exI [of _ ?s]) (simp add: xPortGetFreeHeapSize_def r)
qed

lemma tcm_init_frame:
  assumes "tcm_layout st"
  shows "same_outside ({p_heap st..<p_heap st + 4} \<union> {p_buf st..<tcm_end st}) (tmem st) (tmem (tcm_heap_init st))"
proof -
  let ?h = "p_heap st" and ?b = "p_buf st" and ?F = "{p_heap st..<p_heap st + 4} \<union> {p_buf st..<tcm_end st}"
  let ?m1 = "st32 (tmem st) ?h ?b"
  let ?m2 = "st32 ?m1 ?b 0"
  let ?m3 = "st_int ?m2 (?b + 4) (int tcm_heap_sizeof)"
  have sz: "8 \<le> tcm_heap_sizeof" by (simp add: tcm_heap_sizeof_def TCM_HEAP_SIZE_def)
  have aw: "?h + 4 \<le> ?b \<or> ?b + 8 \<le> ?h" "?b < 2 ^ 32"
    using assms by (auto simp: tcm_layout_def away_def tcm_heap_sizeof_def TCM_HEAP_SIZE_def)
  have 1: "ld32 ?m1 ?h = ?b" using aw by simp
  have 2: "ld32 ?m2 ?h = ?b" using aw 1 by (subst ld32_st32_other) auto
  have m: "tmem (tcm_heap_init st) = ?m3" by (simp only: tcm_heap_init_def Let_def 1 2 tcm.simps) simp
  have "same_outside ?F (tmem st) ?m1" by auto
  moreover have "same_outside ?F ?m1 ?m2" "same_outside ?F ?m2 ?m3"
    by (rule same_outside_st32 same_outside_st_int; use sz in auto)+
  ultimately have "same_outside (?F \<union> ?F \<union> ?F) (tmem st) ?m3"
    using same_outside_trans by blast
  then show ?thesis by (simp add: m)
qed

lemma h5_meta_sample:
  "h5_meta (h5_start (h5_sample w)) \<subseteq> {0x10002300..<0x1fff0000}"
proof -
  note F = h5_start_facts [OF h5_sample_layout [of w]]
  have "region_end (a_ucHeap (h5_sample w)) (60 * 1024) + 8 \<le> 0x1fff0000"
    by (simp add: h5_sample_def region_end_def)
  moreover have "extents bs \<subseteq> {heap_lo..<pxEnd (h5_start (h5_sample w))}" if "h5_rep (h5_start (h5_sample w)) heap_lo bs" for bs
    by (rule fl_extents [OF h5_repD(3) [OF that]])
  moreover have "h5_rep (h5_start (h5_sample w)) heap_lo bs \<Longrightarrow> heap_lo \<le> pxEnd (h5_start (h5_sample w))" for bs
    by (rule h5_repD(6))
  ultimately show ?thesis
    unfolding h5_meta_eq [OF F(7)] F(3)
    using F(6,7) by (fastforce simp: heap_lo_def h5_sample_def)
qed

lemma tcm_block_freed_by_rtos_witness:
  "\<exists>s p s'. p \<noteq> 0 \<and> vPortFree (tcm_register s) p = Some s' \<and> h5_avail s' = h5_avail s
    \<and> tcm_avail (tcm_view s') = tcm_avail (tcm_view s) \<union> tcm_blk (tcm_view s) p"
proof -
  let ?sa = "h5_start (h5_sample tcm_sample)"
  let ?t0 = "tcm_sample\<lparr>tmem := hmem ?sa\<rparr>"
  let ?t1 = "tcm_heap_init ?t0"
  let ?F = "{p_heap ?t0..<p_heap ?t0 + 4} \<union> {p_buf ?t0..<tcm_end ?t0}"
  have l: "tcm_layout ?t0" by simp
  have i1: "tcm_inv ?t1" by (rule tcm_init_inv [OF l])
  have "fl_alloc (rup (100 + 4)) [(p_buf ?t0, tcm_heap_sizeof)] \<noteq> None"
    by (simp add: rup_def tcm_heap_sizeof_def TCM_HEAP_SIZE_def)
  then obtain q m where m: "tcm_malloc ?t1 100 = Some (?t1\<lparr>tmem := m\<rparr>, q + 4)"
    using tcm_malloc_ok [OF tcm_init_rep [OF l], of 100] by (auto simp: tcm_malloc_def)
  let ?t2 = "?t1\<lparr>tmem := m\<rparr>"
  have req: "tcm_req_ok 100" by (simp add: tcm_req_ok_def)
  from tcm_alloc_law [OF i1 req] m have a: "tcm_inv ?t2" "tcm_wf ?t2 (q + 4)"
    "\<forall>x. x \<notin> tcm_meta ?t1 \<longrightarrow> m x = tmem ?t1 x" "tcm_meta ?t2 \<subseteq> tcm_meta ?t1 - tcm_blk ?t2 (q + 4)"
    "tcm_blk ?t2 (q + 4) \<subseteq> tcm_avail ?t1" by auto
  have mt: "tcm_meta ?t1 = ?F"
  proof -
    have "p_heap ?t1 = p_heap ?t0" by (simp add: tcm_heap_init_def Let_def)
    then show ?thesis unfolding tcm_meta_def tcm_init_avail [OF l] by (simp only: Un_commute)
  qed
  have "same_outside ?F (tmem ?t1) m" using a(3) mt by (simp add: same_outside_def)
  from same_outside_trans [OF tcm_init_frame [OF l] this] have so: "same_outside ?F (hmem ?sa) m" by simp
  have F: "?F \<subseteq> {0x10000000..<0x10000004} \<union> {0x1fff0000..<0x20000000}"
    by (auto simp: tcm_sample_def tcm_heap_sizeof_def TCM_HEAP_SIZE_def)
  then have dj: "?F \<inter> h5_meta ?sa = {}" using h5_meta_sample [of tcm_sample] by fastforce
  note s0 = h5_start_facts [OF h5_sample_layout [of tcm_sample]]
  let ?s1 = "?sa\<lparr>hmem := m\<rparr>"
  let ?s = "?s1\<lparr>ext_world := ?t2\<rparr>"
  have fr: "h5_inv ?s1 \<and> h5_meta ?s1 = h5_meta ?sa" using h5_frame [OF s0(1) so dj] by blast
  have rp: "h5_rep ?s lo bs = h5_rep ?s1 lo bs" for lo bs by (simp add: h5_rep_def h5_list_def)
  have inv: "h5_inv ?s" "h5_meta ?s = h5_meta ?sa"
    using fr by (simp_all add: h5_inv_def h5_meta_def rp ext_apart_def)
  have v: "tcm_view ?s = ?t2" by (simp add: tcm_view_def)
  have av: "tcm_avail ?t1 \<subseteq> tcm_meta ?t1" by (simp add: tcm_meta_def)
  have "(tcm_meta ?t2 \<union> tcm_blk ?t2 (q + 4)) \<inter> h5_meta ?s = {}"
    using a(4,5) mt dj inv av by blast
  moreover have "tcm_blk ?t2 (q + 4) \<inter> tcm_meta ?t2 = {}" using a(4) by blast
  moreover have "ext_reg ?t2 = Some (0x20000000, 0x1fff0000)" by (simp add: tcm_heap_init_def Let_def)
  moreover have "0x1fff0000 \<le> p_buf ?t2" "tcm_end ?t2 \<le> 0x20000000"
    by (simp_all add: tcm_heap_init_def Let_def tcm_sample_def tcm_heap_sizeof_def TCM_HEAP_SIZE_def)
  ultimately obtain s' where "vPortFree (tcm_register ?s) (q + 4) = Some s'" "h5_avail s' = h5_avail ?s"
    "tcm_avail (tcm_view s') = tcm_avail (tcm_view ?s) \<union> tcm_blk (tcm_view ?s) (q + 4)"
    using tcm_block_freed_by_rtos [OF inv(1), of "q + 4"] a(1,2) v by auto
  then show ?thesis by (intro exI [of _ ?s] exI [of _ "q + 4"] exI [of _ s']) simp
qed

end
