(* ===== verification/Bytes.thy ===== *)
theory Bytes
  imports Prelude
begin

text \<open>
  Byte buffers of known length, as the network and file-transfer code uses them: a packet or a
  block is a list of bytes, and a read or write that would leave it gives \<open>None\<close> (C leaves it
  undefined).
\<close>

type_synonym buf = "u8 list"

definition rd :: "buf \<Rightarrow> nat \<Rightarrow> u8 option" where
  "rd b i = (if i < length b then Some (b ! i) else None)"

definition rdn :: "buf \<Rightarrow> nat \<Rightarrow> nat \<Rightarrow> buf option" where
  "rdn b i n = (if i + n \<le> length b then Some (take n (drop i b)) else None)"

definition wrn :: "buf \<Rightarrow> nat \<Rightarrow> buf \<Rightarrow> buf option" where
  "wrn b i xs = (if i + length xs \<le> length b then Some (take i b @ xs @ drop (i + length xs) b) else None)"

lemma rd_Some: "rd b i = Some x \<longleftrightarrow> i < length b \<and> b ! i = x"
  by (auto simp: rd_def)

lemma rdn_Some: "rdn b i n = Some xs \<longleftrightarrow> i + n \<le> length b \<and> xs = take n (drop i b)"
  by (auto simp: rdn_def)

lemma wrn_length: "wrn b i xs = Some b' \<Longrightarrow> length b' = length b"
  by (auto simp: wrn_def split: if_splits)

lemma wrn_total: "i + length xs \<le> length b \<Longrightarrow> \<exists>b'. wrn b i xs = Some b' \<and> length b' = length b"
  unfolding wrn_def by simp

lemma wrn_None [simp]: "wrn b i xs = None \<longleftrightarrow> length b < i + length xs"
  by (simp add: wrn_def)

text \<open>Reading back what was written, and what was not touched.\<close>

lemma take_drop_wrn:
  assumes "wrn b i xs = Some b'"
  shows "take (length xs) (drop i b') = xs"
    "j + n \<le> i \<Longrightarrow> take n (drop j b') = take n (drop j b)"
    "i + length xs \<le> j \<Longrightarrow> take n (drop j b') = take n (drop j b)"
proof -
  have b: "i + length xs \<le> length b" "b' = take i b @ xs @ drop (i + length xs) b"
    using assms by (auto simp: wrn_def split: if_splits)
  then show "take (length xs) (drop i b') = xs" by simp
  show "take n (drop j b') = take n (drop j b)" if "j + n \<le> i"
  proof -
    have "take n (drop j b') = take n (take (i - j) (drop j b'))" using that by (simp add: min_def)
    also have "take (i - j) (drop j b') = take (i - j) (drop j b)" using b that by (simp add: drop_take)
    finally show ?thesis using that by simp
  qed
  show "take n (drop j b') = take n (drop j b)" if "i + length xs \<le> j"
    using b that by simp
qed

lemma rdn_wrn_same: "wrn b i xs = Some b' \<Longrightarrow> n = length xs \<Longrightarrow> rdn b' i n = Some xs"
  using take_drop_wrn(1) [of b i xs b'] by (auto simp: rdn_def wrn_def split: if_splits)

lemma rdn_wrn_other: "wrn b i xs = Some b' \<Longrightarrow> j + n \<le> i \<or> i + length xs \<le> j \<Longrightarrow> rdn b' j n = rdn b j n"
  using take_drop_wrn(2,3) [of b i xs b'] wrn_length [of b i xs b'] by (auto simp: rdn_def)

text \<open>Two adjacent writes are one.\<close>

lemma wrn_append:
  "Option.bind (wrn b i xs) (\<lambda>b'. wrn b' (i + length xs) ys) = wrn b i (xs @ ys)"
  by (auto simp: wrn_def add.assoc add.left_commute add.commute)

text \<open>The four bytes of a 32-bit value in memory (little-endian), and back.\<close>

definition bytes_of :: "32 word \<Rightarrow> buf" where
  "bytes_of a = [ucast a, ucast (drop_bit 8 a), ucast (drop_bit 16 a), ucast (drop_bit 24 a)]"

definition word_of :: "buf \<Rightarrow> 32 word" where
  "word_of b = ucast (b ! 0) OR push_bit 8 (ucast (b ! 1)) OR push_bit 16 (ucast (b ! 2))
     OR push_bit 24 (ucast (b ! 3))"

lemma length_bytes_of [simp]: "length (bytes_of a) = 4"
  by (simp add: bytes_of_def)

lemma word_of_bytes_of [simp]: "word_of (bytes_of a) = a"
  unfolding word_of_def
proof (rule bit_word_eqI)
  fix n assume "n < LENGTH(32)"
  then show "bit (ucast (bytes_of a ! 0) OR push_bit 8 (ucast (bytes_of a ! 1))
      OR push_bit 16 (ucast (bytes_of a ! 2)) OR push_bit 24 (ucast (bytes_of a ! 3)) :: 32 word) n = bit a n"
    by (cases "24 \<le> n"; cases "16 \<le> n") (auto simp: bit_simps bytes_of_def)
qed

lemma byte_high [simp]: "8 \<le> k \<Longrightarrow> \<not> bit (x :: u8) k"
  using bit_imp_le_length [of x k] by auto

lemma bytes_of_word_of: "length b = 4 \<Longrightarrow> bytes_of (word_of b) = b"
proof -
  assume "length b = 4"
  then obtain w x y z where b: "b = [w, x, y, z]"
    by (auto simp: eval_nat_numeral length_Suc_conv)
  show ?thesis unfolding b word_of_def bytes_of_def
    by (auto intro!: bit_word_eqI simp: bit_simps)
qed

end
