(* ===== verification/Dhcps.thy ===== *)
theory Dhcps
  imports Bytes
begin

text \<open>
  \<open>common/network/dhcp/dhcps.c\<close>, the DHCP server of the soft access point, in the
  configuration of the repository (\<open>IS_USE_FIXED_IP\<close> is 0, \<open>DHCPS_IP_RANGE_FROM_1_to_255\<close> is 1).

  State: the static variables. A packet is the payload of its first buffer; the reply is
  written into it in place and sent, and the packets sent are recorded in \<open>sent\<close>. An IPv4 address
  is a 32-bit word whose lowest byte is the first part, as lwIP stores it. lwIP itself is
  outside: whether \<open>udp_new\<close> succeeds is an argument, the buffer-chain operation
  \<open>pbuf_coalesce\<close> a parameter.
\<close>

type_synonym ip = "32 word"

record dhcps =
  dhcp_server_state_machine :: u8
  dhcp_recorded_xid :: buf
  dhcps_pcb :: bool
  dhcps_send_broadcast_address :: ip
  dhcps_local_address :: ip
  dhcps_local_mask :: ip
  dhcps_local_gateway :: ip
  dhcps_network_id :: ip
  dhcps_subnet_broadcast :: ip
  dhcps_allocated_client_address :: ip
  dhcps_addr_pool_set :: int
  dhcps_addr_pool_start :: ip
  dhcps_addr_pool_end :: ip
  dhcp_message_total_options_lenth :: int
  ip_table :: "32 word list"
  client_request_ip :: ip
  dhcp_client_ethernet_address :: buf
  bound_client_ethernet_address :: buf
  dhcps_ip_table_semaphore :: "bool option"
  bytes_at_null :: buf
  sent :: "buf list"

text \<open>\<open>bytes_at_null\<close> is what a read through a null pointer gives on this device.\<close>

abbreviation (input) "DHCP_SERVER_STATE_OFFER \<equiv> 1 :: u8"
abbreviation (input) "DHCP_SERVER_STATE_DECLINE \<equiv> 2 :: u8"
abbreviation (input) "DHCP_SERVER_STATE_ACK \<equiv> 3 :: u8"
abbreviation (input) "DHCP_SERVER_STATE_NAK \<equiv> 4 :: u8"
abbreviation (input) "DHCP_SERVER_STATE_IDLE \<equiv> 5 :: u8"
abbreviation (input) "DHCP_MESSAGE_TYPE_DISCOVER \<equiv> 1 :: u8"
abbreviation (input) "DHCP_MESSAGE_TYPE_OFFER \<equiv> 2 :: u8"
abbreviation (input) "DHCP_MESSAGE_TYPE_REQUEST \<equiv> 3 :: u8"
abbreviation (input) "DHCP_MESSAGE_TYPE_DECLINE \<equiv> 4 :: u8"
abbreviation (input) "DHCP_MESSAGE_TYPE_ACK \<equiv> 5 :: u8"
abbreviation (input) "DHCP_MESSAGE_TYPE_NAK \<equiv> 6 :: u8"
abbreviation (input) "DHCP_MESSAGE_TYPE_RELEASE \<equiv> 7 :: u8"
abbreviation (input) "DHCP_OPTION_CODE_REQUEST_IP_ADDRESS \<equiv> 50 :: u8"
abbreviation (input) "DHCP_OPTION_CODE_MSG_TYPE \<equiv> 53 :: u8"
abbreviation (input) "DHCP_OPTION_CODE_END \<equiv> 255 :: u8"
abbreviation (input) "DHCP_CLIENT_PORT \<equiv> 68 :: nat"

definition dhcp_magic_cookie :: buf where "dhcp_magic_cookie = [99, 130, 83, 99]"
definition dhcp_option_lease_time_one_day :: buf where
  "dhcp_option_lease_time_one_day = [0x00, 0x01, 0x51, 0x80]"
definition dhcp_option_interface_mtu_576 :: buf where "dhcp_option_interface_mtu_576 = [0x02, 0x40]"

text \<open>Offsets of the fields of \<open>struct dhcp_msg\<close>.\<close>

abbreviation (input) "off_xid \<equiv> 4 :: nat"
abbreviation (input) "off_secs \<equiv> 8 :: nat"
abbreviation (input) "off_flags \<equiv> 10 :: nat"
abbreviation (input) "off_ciaddr \<equiv> 12 :: nat"
abbreviation (input) "off_yiaddr \<equiv> 16 :: nat"
abbreviation (input) "off_siaddr \<equiv> 20 :: nat"
abbreviation (input) "off_giaddr \<equiv> 24 :: nat"
abbreviation (input) "off_chaddr \<equiv> 28 :: nat"
abbreviation (input) "off_sname \<equiv> 44 :: nat"
abbreviation (input) "off_file \<equiv> 108 :: nat"
abbreviation (input) "off_options \<equiv> 236 :: nat"

text \<open>lwIP's accessors.\<close>

definition ip4_addr1 :: "ip \<Rightarrow> u8" where "ip4_addr1 a = ucast a"
definition ip4_addr2 :: "ip \<Rightarrow> u8" where "ip4_addr2 a = ucast (drop_bit 8 a)"
definition ip4_addr3 :: "ip \<Rightarrow> u8" where "ip4_addr3 a = ucast (drop_bit 16 a)"
definition ip4_addr4 :: "ip \<Rightarrow> u8" where "ip4_addr4 a = ucast (drop_bit 24 a)"

definition IP4_ADDR :: "u8 \<Rightarrow> u8 \<Rightarrow> u8 \<Rightarrow> u8 \<Rightarrow> ip" where
  "IP4_ADDR a b c d = push_bit 24 (ucast d) OR push_bit 16 (ucast c) OR push_bit 8 (ucast b) OR ucast a"

section \<open>The address table\<close>

definition sem_take :: "dhcps \<Rightarrow> dhcps" where
  "sem_take st = st\<lparr>dhcps_ip_table_semaphore := map_option (\<lambda>_. True) (dhcps_ip_table_semaphore st)\<rparr>"

definition sem_give :: "dhcps \<Rightarrow> dhcps" where
  "sem_give st = st\<lparr>dhcps_ip_table_semaphore := map_option (\<lambda>_. False) (dhcps_ip_table_semaphore st)\<rparr>"

text \<open>\<open>MARK_RANGEn_IP_BIT\<close>: \<open>1 << (ip - 1)\<close> on the target, where a shift by 32 or more gives 0.\<close>

definition MARK_RANGE_IP_BIT :: "32 word list \<Rightarrow> nat \<Rightarrow> nat \<Rightarrow> 32 word" where
  "MARK_RANGE_IP_BIT table n ip = table ! n OR push_bit (ip - 1) 1"

definition mark_range :: "dhcps \<Rightarrow> nat \<Rightarrow> nat \<Rightarrow> dhcps" where
  "mark_range st n ip = st\<lparr>ip_table := (ip_table st)[n := MARK_RANGE_IP_BIT (ip_table st) n ip]\<rparr>"

definition mark_ip_in_table :: "dhcps \<Rightarrow> u8 \<Rightarrow> dhcps" where
  "mark_ip_in_table st d8 = (
     let d = unat d8;
         st = sem_take st;
         st = (if 0 < d \<and> d \<le> 32 then mark_range st 0 d
               else if 32 < d \<and> d \<le> 64 then mark_range st 1 (d - 32)
               else if 64 < d \<and> d \<le> 96 then mark_range st 2 (d - 64)
               else if 96 < d \<and> d \<le> 128 then mark_range st 3 (d - 96)
               else if 128 < d \<and> d \<le> 160 then mark_range st 4 d
               else if 160 < d \<and> d \<le> 192 then mark_range st 5 (d - 160)
               else if 192 < d \<and> d \<le> 224 then mark_range st 6 (d - 192)
               else if 224 < d then mark_range st 7 (d - 224)
               else st)
     in sem_give st)"

definition search_next_ip :: "dhcps \<Rightarrow> dhcps \<times> u8" where
  "search_next_ip st = (
     let (start, stop) = (if dhcps_addr_pool_set st \<noteq> 0
           then (unat (ip4_addr4 (dhcps_addr_pool_start st)), unat (ip4_addr4 (dhcps_addr_pool_end st)))
           else (0, 255));
         st = sem_take st
     in case List.find (\<lambda>(range_count, offset_count).
            drop_bit offset_count (ip_table st ! range_count) AND 1 = 0
            \<and> start \<le> range_count * 32 + (offset_count + 1)
            \<and> range_count * 32 + (offset_count + 1) \<le> stop)
          (List.product [0..<8] [0..<32]) of
        Some (range_count, offset_count) \<Rightarrow>
          (sem_give st, of_nat (range_count * 32 + (offset_count + 1)))
      | None \<Rightarrow> (sem_give st, 0))"

section \<open>Building the reply\<close>

definition add_msg_type :: "buf \<Rightarrow> nat \<Rightarrow> u8 \<Rightarrow> (buf \<times> nat) option" where
  "add_msg_type b base message_type = do {
     b \<leftarrow> wrn b base [DHCP_OPTION_CODE_MSG_TYPE, 1, message_type];
     if message_type = DHCP_MESSAGE_TYPE_NAK then do {
       b \<leftarrow> wrn b (base + 3) [DHCP_OPTION_CODE_END];
       Some (b, base + 3 + 1)
     } else Some (b, base + 3)
   }"

text \<open>\<open>memcpy\<close> of \<open>n\<close> bytes from an object with the bytes \<open>copy_info\<close>. For a length other than 1,
  2 and 4 the function returns a null pointer.\<close>

definition fill_one_option_content ::
    "buf \<Rightarrow> nat \<Rightarrow> u8 \<Rightarrow> u8 \<Rightarrow> buf \<Rightarrow> (buf \<times> nat option) option" where
  "fill_one_option_content b base option_code option_length copy_info = do {
     b \<leftarrow> wrn b base [option_code, option_length];
     if option_length = 4 then do {
       xs \<leftarrow> rdn copy_info 0 4; b \<leftarrow> wrn b (base + 2) xs; Some (b, Some (base + 2 + 4))
     } else if option_length = 2 then do {
       xs \<leftarrow> rdn copy_info 0 2; b \<leftarrow> wrn b (base + 2) xs; Some (b, Some (base + 2 + 2))
     } else if option_length = 1 then do {
       xs \<leftarrow> rdn copy_info 0 1; b \<leftarrow> wrn b (base + 2) xs; Some (b, Some (base + 2 + 1))
     } else Some (b, None)
   }"

text \<open>The next option goes where the last one ended.\<close>

definition fill_next ::
    "(buf \<times> nat option) option \<Rightarrow> u8 \<Rightarrow> u8 \<Rightarrow> buf \<Rightarrow> (buf \<times> nat option) option" where
  "fill_next r code len info = do {
     (b, base) \<leftarrow> r;
     base \<leftarrow> base;
     fill_one_option_content b base code len info
   }"

definition add_offer_options :: "dhcps \<Rightarrow> buf \<Rightarrow> nat \<Rightarrow> buf option" where
  "add_offer_options st b option_start_address = do {
     let r = fill_one_option_content b option_start_address 1 4 (bytes_of (dhcps_local_mask st));
     let r = fill_next r 3 4 (bytes_of (dhcps_local_address st));
     let r = fill_next r 6 4 (bytes_of (dhcps_local_address st));
     let r = fill_next r 51 4 dhcp_option_lease_time_one_day;
     let r = fill_next r 54 4 (bytes_of (dhcps_local_address st));
     let r = fill_next r 28 4 (bytes_of (dhcps_subnet_broadcast st));
     let r = fill_next r 26 2 dhcp_option_interface_mtu_576;
     let r = fill_next r 31 1 (bytes_at_null st);
     (b, base) \<leftarrow> r;
     base \<leftarrow> base;
     wrn b base [DHCP_OPTION_CODE_END]
   }"

definition dhcps_initialize_message :: "dhcps \<Rightarrow> buf \<Rightarrow> ip \<Rightarrow> (dhcps \<times> buf) option" where
  "dhcps_initialize_message st m yiaddr = do {
     m \<leftarrow> wrn m 0 [2];
     m \<leftarrow> wrn m 1 [1];
     m \<leftarrow> wrn m 2 [6];
     m \<leftarrow> wrn m 3 [0];
     xid \<leftarrow> rdn m off_xid 4;
     let st = st\<lparr>dhcp_recorded_xid := xid\<rparr>;
     m \<leftarrow> wrn m off_secs [0, 0];
     m \<leftarrow> wrn m off_flags [0x80, 0x00];
     m \<leftarrow> wrn m off_yiaddr (bytes_of yiaddr);
     m \<leftarrow> wrn m off_ciaddr (replicate 4 0);
     m \<leftarrow> wrn m off_siaddr (replicate 4 0);
     m \<leftarrow> wrn m off_giaddr (replicate 4 0);
     m \<leftarrow> wrn m off_chaddr (dhcp_client_ethernet_address st);
     m \<leftarrow> wrn m off_sname (replicate 64 0);
     m \<leftarrow> wrn m off_file (replicate 128 0);
     m \<leftarrow> wrn m off_options (replicate (u32 (dhcp_message_total_options_lenth st)) 0);
     m \<leftarrow> wrn m off_options dhcp_magic_cookie;
     Some (st, m)
   }"

definition udp_sendto_if :: "dhcps \<Rightarrow> buf \<Rightarrow> dhcps" where
  "udp_sendto_if st m = st\<lparr>sent := sent st @ [m]\<rparr>"

section \<open>The three replies\<close>

text \<open>Whether the last byte \<open>h\<close> of an address is one of the first 128 and not marked.\<close>

definition request_free :: "dhcps \<Rightarrow> u8 \<Rightarrow> bool" where
  "request_free st request_ip4 \<longleftrightarrow> request_ip4 \<noteq> 0
     \<and> (int (unat request_ip4) - 1) div 32 \<ge> 0 \<and> (int (unat request_ip4) - 1) div 32 \<le> 3
     \<and> drop_bit ((unat request_ip4 - 1) mod 32) (ip_table st ! ((unat request_ip4 - 1) div 32)) AND 1 = 0"

text \<open>The two conditions shared by the offer and the request.\<close>

definition known_client :: "dhcps \<Rightarrow> bool" where
  "known_client st \<longleftrightarrow> ip4_addr4 (dhcps_allocated_client_address st) \<noteq> 0
     \<and> bytes_of (dhcps_allocated_client_address st) = bytes_of (client_request_ip st)
     \<and> bound_client_ethernet_address st = dhcp_client_ethernet_address st"

definition in_network :: "dhcps \<Rightarrow> bool" where
  "in_network st \<longleftrightarrow> ip4_addr1 (client_request_ip st) = ip4_addr1 (dhcps_network_id st)
     \<and> ip4_addr2 (client_request_ip st) = ip4_addr2 (dhcps_network_id st)
     \<and> ip4_addr3 (client_request_ip st) = ip4_addr3 (dhcps_network_id st)"

definition dhcps_send_offer :: "dhcps \<Rightarrow> buf \<Rightarrow> (dhcps \<times> buf) option" where
  "dhcps_send_offer st payload = do {
     let temp_ip = (if known_client st then ip4_addr4 (client_request_ip st)
                    else if in_network st then
                      let request_ip4 = ip4_addr4 (client_request_ip st)
                      in if request_free st request_ip4 then request_ip4 else 0
                    else 0);
     let (st, temp_ip) = (if temp_ip = 0 then search_next_ip st else (st, temp_ip));
     let st = st\<lparr>dhcps_allocated_client_address :=
                IP4_ADDR (ip4_addr1 (dhcps_network_id st)) (ip4_addr2 (dhcps_network_id st))
                  (ip4_addr3 (dhcps_network_id st)) temp_ip,
                bound_client_ethernet_address := dhcp_client_ethernet_address st\<rparr>;
     (st, m) \<leftarrow> dhcps_initialize_message st payload (dhcps_allocated_client_address st);
     (m, p) \<leftarrow> add_msg_type m (off_options + 4) DHCP_MESSAGE_TYPE_OFFER;
     m \<leftarrow> add_offer_options st m p;
     Some (udp_sendto_if st m, m)
   }"

definition dhcps_send_nak :: "dhcps \<Rightarrow> buf \<Rightarrow> (dhcps \<times> buf) option" where
  "dhcps_send_nak st payload = do {
     (st, m) \<leftarrow> dhcps_initialize_message st payload (IP4_ADDR 0 0 0 0);
     (m, p) \<leftarrow> add_msg_type m (off_options + 4) DHCP_MESSAGE_TYPE_NAK;
     Some (udp_sendto_if st m, m)
   }"

definition dhcps_send_ack :: "dhcps \<Rightarrow> buf \<Rightarrow> (dhcps \<times> buf) option" where
  "dhcps_send_ack st payload = do {
     (st, m) \<leftarrow> dhcps_initialize_message st payload (dhcps_allocated_client_address st);
     (m, p) \<leftarrow> add_msg_type m (off_options + 4) DHCP_MESSAGE_TYPE_ACK;
     m \<leftarrow> add_offer_options st m p;
     Some (udp_sendto_if st m, m)
   }"

section \<open>Receiving\<close>

definition dhcps_handle_state_machine_change :: "dhcps \<Rightarrow> u8 \<Rightarrow> dhcps \<times> u8" where
  "dhcps_handle_state_machine_change st option_message_type = (
     let to = (\<lambda>st s. st\<lparr>dhcp_server_state_machine := s\<rparr>);
         st =
       (if option_message_type = DHCP_MESSAGE_TYPE_DECLINE then to st DHCP_SERVER_STATE_IDLE
        else if option_message_type = DHCP_MESSAGE_TYPE_DISCOVER then
          (if dhcp_server_state_machine st = DHCP_SERVER_STATE_IDLE
           then to st DHCP_SERVER_STATE_OFFER else st)
        else if option_message_type = DHCP_MESSAGE_TYPE_REQUEST then
          (if dhcp_server_state_machine st = DHCP_SERVER_STATE_OFFER then
             if ip4_addr4 (dhcps_allocated_client_address st) \<noteq> 0 then
               if bytes_of (dhcps_allocated_client_address st) = bytes_of (client_request_ip st)
               then to st DHCP_SERVER_STATE_ACK else to st DHCP_SERVER_STATE_NAK
             else to st DHCP_SERVER_STATE_NAK
           else if dhcp_server_state_machine st = DHCP_SERVER_STATE_IDLE then
             if known_client st then to st DHCP_SERVER_STATE_ACK
             else if in_network st then
               let request_ip4 = ip4_addr4 (client_request_ip st)
               in if request_free st request_ip4 then
                    to (st\<lparr>dhcps_allocated_client_address :=
                            IP4_ADDR (ip4_addr1 (dhcps_network_id st)) (ip4_addr2 (dhcps_network_id st))
                              (ip4_addr3 (dhcps_network_id st)) request_ip4,
                          bound_client_ethernet_address := dhcp_client_ethernet_address st\<rparr>)
                       DHCP_SERVER_STATE_ACK
                  else to st DHCP_SERVER_STATE_NAK
             else to st DHCP_SERVER_STATE_NAK
           else to st DHCP_SERVER_STATE_NAK)
        else if option_message_type = DHCP_MESSAGE_TYPE_RELEASE then to st DHCP_SERVER_STATE_IDLE
        else st)
     in (st, dhcp_server_state_machine st))"

text \<open>The loop over the options, from index \<open>i\<close> up to \<open>stop\<close>.\<close>

function options_loop :: "dhcps \<Rightarrow> buf \<Rightarrow> nat \<Rightarrow> int \<Rightarrow> u8 \<Rightarrow> (dhcps \<times> u8) option" where
  "options_loop st b i stop ty =
     (if int i < stop then
        (case rd b i of None \<Rightarrow> None | Some code \<Rightarrow>
        (case (if code = DHCP_OPTION_CODE_MSG_TYPE then map_option (Pair st) (rd b (i + 2))
               else if code = DHCP_OPTION_CODE_REQUEST_IP_ADDRESS then
                 map_option (\<lambda>xs. (st\<lparr>client_request_ip := word_of xs\<rparr>, ty)) (rdn b (i + 2) 4)
               else Some (st, ty)) of
          None \<Rightarrow> None
        | Some (st, ty) \<Rightarrow>
          (case rd b (i + 1) of None \<Rightarrow> None
           | Some len \<Rightarrow> options_loop st b (i + (unat len + 2)) stop ty)))
      else Some (st, ty))"
  by pat_completeness auto

termination
proof (relation "measure (\<lambda>(st, b, i, stop, ty). nat (stop - int i))", goal_cases)
  case (2 st b i stop ty code r st' ty' len)
  have "int i < int (i + (unat len + 2))" by (simp only: of_nat_less_iff)
  with 2 show ?case unfolding in_measure case_prod_conv by linarith
qed simp

declare options_loop.simps [simp del]

definition dhcps_handle_msg_options :: "dhcps \<Rightarrow> buf \<Rightarrow> nat \<Rightarrow> int \<Rightarrow> (dhcps \<times> u8) option" where
  "dhcps_handle_msg_options st b option_start total_option_length = do {
     (st, option_message_type) \<leftarrow> options_loop st b option_start (int option_start + total_option_length) 0;
     Some (dhcps_handle_state_machine_change st option_message_type)
   }"

text \<open>An \<open>int\<close> passed as \<open>int16_t\<close>.\<close>

definition int16 :: "int \<Rightarrow> int" where
  "int16 i = sint (word_of_int i :: 16 word)"

definition dhcps_check_msg_and_handle_options :: "dhcps \<Rightarrow> buf \<Rightarrow> (dhcps \<times> u8) option" where
  "dhcps_check_msg_and_handle_options st payload = do {
     chaddr \<leftarrow> rdn payload off_chaddr 16;
     let total = int (length payload) - int off_options;
     let st = st\<lparr>dhcp_client_ethernet_address := chaddr, dhcp_message_total_options_lenth := total\<rparr>;
     cookie \<leftarrow> rdn payload off_options 4;
     if cookie = dhcp_magic_cookie
     then dhcps_handle_msg_options st payload (off_options + 4) (int16 (total - 4))
     else Some (st, 0)
   }"

text \<open>A chain of buffers is the list of their payloads; the null pointer is the empty list.
  \<open>coalesced\<close> says whether \<open>pbuf_coalesce\<close> finds the memory for the merged buffer: then it
  releases the chain, and the code goes on with the released one (undefined); otherwise
  it returns the chain itself.\<close>

definition dhcps_receive_udp_packet_handler ::
    "bool \<Rightarrow> dhcps \<Rightarrow> buf list \<Rightarrow> nat \<Rightarrow> dhcps option" where
  "dhcps_receive_udp_packet_handler coalesced st udp_packet_buffer sender_port =
     (case udp_packet_buffer of
        [] \<Rightarrow> Some st
      | payload # next_ \<Rightarrow>
        if sender_port = DHCP_CLIENT_PORT then
          let tot_len = sum_list (map length udp_packet_buffer)
          in if next_ \<noteq> [] \<and> coalesced then None
             else if next_ \<noteq> [] \<and> int16 (int tot_len) \<noteq> int tot_len then Some st
             else do {
               (st, r) \<leftarrow> dhcps_check_msg_and_handle_options st payload;
               if r = DHCP_SERVER_STATE_OFFER then do {
                 (st, m) \<leftarrow> dhcps_send_offer st payload;
                 Some st
               } else if r = DHCP_SERVER_STATE_ACK then do {
                 (st, m) \<leftarrow> dhcps_send_ack st payload;
                 let st = mark_ip_in_table st (ip4_addr4 (dhcps_allocated_client_address st));
                 Some (st\<lparr>dhcp_server_state_machine := DHCP_SERVER_STATE_IDLE\<rparr>)
               } else if r = DHCP_SERVER_STATE_NAK then do {
                 (st, m) \<leftarrow> dhcps_send_nak st payload;
                 Some (st\<lparr>dhcp_server_state_machine := DHCP_SERVER_STATE_IDLE\<rparr>)
               } else Some st
             }
        else Some st)"

section \<open>Configuration\<close>

definition dhcps_set_addr_pool :: "dhcps \<Rightarrow> int \<Rightarrow> ip \<Rightarrow> ip \<Rightarrow> dhcps" where
  "dhcps_set_addr_pool st addr_pool_set addr_pool_start addr_pool_end =
     (if addr_pool_set \<noteq> 0
      then st\<lparr>dhcps_addr_pool_set := 1, dhcps_addr_pool_start := addr_pool_start,
              dhcps_addr_pool_end := addr_pool_end\<rparr>
      else st\<lparr>dhcps_addr_pool_set := 0\<rparr>)"

record netif =
  ip_addr :: ip
  netmask :: ip
  gw :: ip

text \<open>\<open>new_ok\<close>: \<open>udp_new\<close> found a control block.\<close>

definition dhcps_init :: "bool \<Rightarrow> dhcps \<Rightarrow> netif \<Rightarrow> dhcps" where
  "dhcps_init new_ok st pnetif = (
     let st = st\<lparr>dhcps_pcb := new_ok\<rparr>
     in if \<not> new_ok then st
        else
          let st = st\<lparr>dhcps_send_broadcast_address := IP4_ADDR 255 255 255 255,
                      dhcps_local_address := ip_addr pnetif,
                      dhcps_local_mask := netmask pnetif,
                      dhcps_local_gateway := gw pnetif\<rparr>;
              st = st\<lparr>dhcps_network_id := ip_addr pnetif AND netmask pnetif\<rparr>;
              st = st\<lparr>dhcps_subnet_broadcast := dhcps_network_id st OR NOT (netmask pnetif)\<rparr>;
              st = st\<lparr>dhcps_ip_table_semaphore := Some False\<rparr>;
              st = st\<lparr>ip_table := replicate 8 0, dhcps_allocated_client_address := 0,
                      bound_client_ethernet_address := replicate 16 0\<rparr>;
              st = mark_ip_in_table st (ip4_addr4 (dhcps_local_address st))
          in mark_ip_in_table st (ip4_addr4 (dhcps_local_gateway st)))"

definition dhcps_deinit :: "dhcps \<Rightarrow> dhcps" where
  "dhcps_deinit st = st\<lparr>dhcps_pcb := False, dhcps_ip_table_semaphore := None\<rparr>"

section \<open>The address table as a set\<close>

text \<open>The addresses (last bytes) marked in the table.\<close>

definition marked :: "dhcps \<Rightarrow> nat set" where
  "marked st = {d. 0 < d \<and> d \<le> 256 \<and> bit (ip_table st ! ((d - 1) div 32)) ((d - 1) mod 32)}"

definition pool_range :: "dhcps \<Rightarrow> nat set" where
  "pool_range st = (if dhcps_addr_pool_set st \<noteq> 0
     then {unat (ip4_addr4 (dhcps_addr_pool_start st))..unat (ip4_addr4 (dhcps_addr_pool_end st))}
     else {..255})"

lemma marked_simps [simp]:
  "marked (sem_take st) = marked st" "marked (sem_give st) = marked st"
  by (simp_all add: marked_def sem_take_def sem_give_def)

definition mbit :: "32 word list \<Rightarrow> nat \<Rightarrow> bool" where
  "mbit t y \<longleftrightarrow> bit (t ! (y div 32)) (y mod 32)"

lemma marked_mbit: "marked st = {d. 0 < d \<and> d \<le> 256 \<and> mbit (ip_table st) (d - 1)}"
  by (simp add: marked_def mbit_def)

lemma mbit_update:
  assumes n: "n < length t" and k: "k < 32"
  shows "mbit (t[n := t ! n OR push_bit k 1]) y \<longleftrightarrow> mbit t y \<or> y = 32 * n + k"
proof -
  obtain q r where y: "y = 32 * q + r" "r < 32"
    using mod_less_divisor [of 32 y] mult_div_mod_eq [of 32 y] by (metis zero_less_numeral)
  have d: "y div 32 = q" "y mod 32 = r" using y by simp_all
  have b: "bit (t ! n OR push_bit k 1) r \<longleftrightarrow> bit (t ! n) r \<or> r = k"
  proof -
    have "bit (push_bit k (1 :: 32 word)) r \<longleftrightarrow> r = k"
      unfolding bit_push_bit_iff bit_1_iff using y(2) by auto
    then show ?thesis unfolding bit_or_iff by blast
  qed
  have e: "y = 32 * n + k \<longleftrightarrow> q = n \<and> r = k"
  proof
    assume "y = 32 * n + k"
    then have "y div 32 = n" "y mod 32 = k" using k by simp_all
    with d show "q = n \<and> r = k" by simp
  qed (use y in simp)
  show ?thesis unfolding mbit_def d e using n b by (cases "q = n") simp_all
qed

lemma marked_range:
  assumes "length (ip_table st) = 8" "n < 8" "0 < d" "d \<le> 32"
  shows "marked (mark_range st n d) = insert (32 * n + d) (marked st)"
proof -
  have k: "d - 1 < 32" using assms by simp
  have u: "mbit (ip_table (mark_range st n d)) y \<longleftrightarrow> mbit (ip_table st) y \<or> y = 32 * n + (d - 1)" for y
    using mbit_update [OF _ k, of n "ip_table st" y] assms(1,2) by (simp add: mark_range_def MARK_RANGE_IP_BIT_def)
  have i: "32 * n + d \<le> 256" using assms(2,4) by linarith
  have "x \<in> marked (mark_range st n d) \<longleftrightarrow> x \<in> insert (32 * n + d) (marked st)" for x
  proof (cases "0 < x")
    case True
    have "x - 1 = 32 * n + (d - 1) \<longleftrightarrow> x = 32 * n + d" using True assms(3) by linarith
    then show ?thesis using i assms(3) unfolding marked_mbit u by auto
  qed (use assms(3) in \<open>simp add: marked_mbit\<close>)
  then show ?thesis by blast
qed

lemma mark_range_far:
  assumes "length (ip_table st) = 8" "32 < d" "n < 8"
  shows "mark_range st n d = st"
proof -
  have "push_bit (d - 1) 1 = (0 :: 32 word)"
    using assms(2) by (intro bit_word_eqI) (auto simp: bit_simps)
  then have "ip_table st ! n OR push_bit (d - 1) 1 = ip_table st ! n" by (simp only: or.right_neutral)
  then show ?thesis unfolding mark_range_def MARK_RANGE_IP_BIT_def by (simp only: list_update_id) simp
qed

lemma marked_mark_ip:
  assumes "length (ip_table st) = 8"
  shows "marked (mark_ip_in_table st d) =
    (if d = 0 \<or> 128 < unat d \<and> unat d \<le> 160 then marked st else insert (unat d) (marked st))"
proof -
  have l: "length (ip_table (sem_take st)) = 8" using assms by (simp add: sem_take_def)
  have u: "unat d = 0 \<longleftrightarrow> d = 0" "unat d < 256" using unsigned_less [of d, where 'a = nat] by (simp_all add: unat_eq_0)
  have r: "marked (mark_range (sem_take st) n (unat d - 32 * n)) = insert (unat d) (marked st)"
    if "n < 8" "32 * n < unat d" "unat d \<le> 32 * n + 32" for n
    using marked_range [OF l that(1), of "unat d - 32 * n"] that by simp
  define e where "e = unat d"
  have e: "unat d = e" "e < 256" "d = 0 \<longleftrightarrow> e = 0" using u by (auto simp: e_def)
  have r': "marked (sem_give (mark_range (sem_take st) n (e - 32 * n))) = insert e (marked st)"
    if "n < 8" "32 * n < e" "e \<le> 32 * n + 32" for n
    using r [of n] that e by simp
  note m = mark_ip_in_table_def [of st d, unfolded Let_def e(1)]
  consider "e = 0" | "0 < e" "e \<le> 32" | "32 < e" "e \<le> 64" | "64 < e" "e \<le> 96"
    | "96 < e" "e \<le> 128" | "128 < e" "e \<le> 160" | "160 < e" "e \<le> 192"
    | "192 < e" "e \<le> 224" | "224 < e" by linarith
  then show ?thesis
  proof cases
    case 1
    then show ?thesis unfolding m using e by simp
  next
    case 2
    then show ?thesis using e r' [of 0] by (simp add: m)
  next
    case 3
    then show ?thesis using e r' [of 1] by (simp add: m)
  next
    case 4
    then show ?thesis using e r' [of 2] by (simp add: m)
  next
    case 5
    then show ?thesis using e r' [of 3] by (simp add: m)
  next
    case 6
    then show ?thesis using e mark_range_far [OF l, of e 4] by (simp add: m)
  next
    case 7
    then show ?thesis using e r' [of 5] by (simp add: m)
  next
    case 8
    then show ?thesis using e r' [of 6] by (simp add: m)
  next
    case 9
    then show ?thesis using e r' [of 7] by (simp add: m)
  qed
qed

end
