(* ===== verification/DhcpsSpec.thy ===== *)
theory DhcpsSpec
  imports Dhcps
begin

text \<open>
  What the DHCP server does, over the definitions of \<open>Dhcps\<close>: the choice of an address
  (the least free one), the exact bytes of a reply, the options of a request, the invariants of the
  server over any sequence of packets, and where the code leaves the buffer or gives one
  address to two clients.
\<close>

section \<open>The least free address\<close>

lemma find_map: "List.find P (map f xs) = map_option f (List.find (P \<circ> f) xs)"
  by (induction xs) auto

lemma product_upt: "0 < n \<Longrightarrow> List.product [0..<m] [0..<n] = map (\<lambda>k. (k div n, k mod n)) [0..<m * n]"
proof (induction m)
  case (Suc m)
  have "List.product [0..<Suc m] [0..<n] = List.product [0..<m] [0..<n] @ map (Pair m) [0..<n]"
    by (simp add: product_concat_map)
  also have "map (Pair m) [0..<n] = map (\<lambda>k. (k div n, k mod n)) [m * n..<m * n + n]"
  proof (rule nth_equalityI)
    fix i assume "i < length (map (Pair m) [0..<n])"
    then have "i < n" by simp
    then show "map (Pair m) [0..<n] ! i = map (\<lambda>k. (k div n, k mod n)) [m * n..<m * n + n] ! i"
      using Suc.prems by simp
  qed simp
  also have "List.product [0..<m] [0..<n] @ map (\<lambda>k. (k div n, k mod n)) [m * n..<m * n + n]
      = map (\<lambda>k. (k div n, k mod n)) [0..<Suc m * n]"
  proof -
    have "[0..<Suc m * n] = [0..<m * n] @ [m * n..<m * n + n]"
      using upt_add_eq_append [of 0 "m * n" n] by (simp add: add.commute)
    then show ?thesis using Suc by (simp only: map_append)
  qed
  finally show ?case .
qed simp

lemma wrn_Cons:
  "wrn b 0 [] = Some b"
  "wrn (x # b) 0 (y # ys) = map_option ((#) y) (wrn b 0 ys)"
  "0 < i \<Longrightarrow> wrn (x # b) i ys = map_option ((#) x) (wrn b (i - 1) ys)"
  by (auto simp: wrn_def take_Cons' drop_Cons')

text \<open>The address with table position \<open>k\<close> is \<open>k + 1\<close>.\<close>

definition ip_free :: "dhcps \<Rightarrow> nat \<Rightarrow> bool" where
  "ip_free st d \<longleftrightarrow> 0 < d \<and> d \<in> pool_range st \<and> d \<notin> marked st"

lemma bit_of_drop: "drop_bit k (w :: 32 word) AND 1 = 0 \<longleftrightarrow> \<not> bit w k"
  by (simp add: bit_iff_odd_drop_bit and_one_eq even_iff_mod_2_eq_zero [symmetric])

lemma search_position:
  assumes "k < 256"
  shows "drop_bit (k mod 32) (ip_table st ! (k div 32)) AND 1 = 0 \<longleftrightarrow> k + 1 \<notin> marked st"
  using assms by (simp add: bit_of_drop marked_def)

lemma search_next_ip_eq:
  "search_next_ip st = (sem_give (sem_take st),
     case List.find (\<lambda>k. ip_free st (k + 1)) [0..<256] of Some k \<Rightarrow> of_nat (k + 1) | None \<Rightarrow> 0)"
proof -
  define lo hi where "lo = (if dhcps_addr_pool_set st \<noteq> 0 then unat (ip4_addr4 (dhcps_addr_pool_start st)) else 0)"
    and "hi = (if dhcps_addr_pool_set st \<noteq> 0 then unat (ip4_addr4 (dhcps_addr_pool_end st)) else 255)"
  let ?P = "\<lambda>(range_count, offset_count).
            drop_bit offset_count (ip_table st ! range_count) AND 1 = 0
            \<and> lo \<le> range_count * 32 + (offset_count + 1)
            \<and> range_count * 32 + (offset_count + 1) \<le> hi"
  let ?f = "\<lambda>k :: nat. (k div 32, k mod 32)"
  have q: "List.product [0..<8] [0..<32] = map ?f [0..<256]" using product_upt [of 32 8] by simp
  have e: "k div 32 * 32 + (k mod 32 + 1) = k + 1" for k :: nat
    using div_mult_mod_eq [of k 32] by linarith
  have r: "x \<in> pool_range st \<longleftrightarrow> lo \<le> x \<and> x \<le> hi" for x
    by (simp add: pool_range_def lo_def hi_def)
  have "?P (?f k) = ip_free st (k + 1)" if "k \<in> set [0..<256]" for k
    using search_position [of k st] e [of k] that r [of "k + 1"] by (auto simp: ip_free_def)
  then have "List.find (?P \<circ> ?f) [0..<256] = List.find (\<lambda>k. ip_free st (k + 1)) [0..<256]"
    by (intro find_cong) (auto simp del: upt_Suc)
  then have f: "List.find ?P (List.product [0..<8] [0..<32])
      = map_option ?f (List.find (\<lambda>k. ip_free st (k + 1)) [0..<256])"
    unfolding q find_map by simp
  have t: "ip_table (sem_take st) = ip_table st" by (simp add: sem_take_def)
  have s: "search_next_ip st = (case List.find ?P (List.product [0..<8] [0..<32]) of
        Some (range_count, offset_count) \<Rightarrow>
          (sem_give (sem_take st), of_nat (range_count * 32 + (offset_count + 1)))
      | None \<Rightarrow> (sem_give (sem_take st), 0))"
    unfolding search_next_ip_def lo_def hi_def Let_def t by (simp only: if_distrib [of "case_prod _"] split: if_split) simp
  show ?thesis unfolding s f
  proof (cases "List.find (\<lambda>k. ip_free st (k + 1)) [0..<256]")
    case (Some k)
    then show "(case map_option ?f (List.find (\<lambda>k. ip_free st (k + 1)) [0..<256]) of
        Some (range_count, offset_count) \<Rightarrow>
          (sem_give (sem_take st), of_nat (range_count * 32 + (offset_count + 1)))
      | None \<Rightarrow> (sem_give (sem_take st), 0)) = (sem_give (sem_take st),
     case List.find (\<lambda>k. ip_free st (k + 1)) [0..<256] of Some k \<Rightarrow> of_nat (k + 1) | None \<Rightarrow> 0)"
      by (simp only: option.map option.case case_prod_conv e)
  qed simp
qed

lemma find_upt_Some: "List.find P [0..<n] = Some k \<longleftrightarrow> k < n \<and> P k \<and> (\<forall>j<k. \<not> P j)"
  by (auto simp: find_Some_iff)

lemma find_upt_None: "List.find P [0..<n] = None \<longleftrightarrow> (\<forall>k<n. \<not> P k)"
  by (auto simp: find_None_iff)

lemma pool_range_255: "d \<in> pool_range st \<Longrightarrow> d \<le> 255"
  using unsigned_less [of "ip4_addr4 (dhcps_addr_pool_end st)", where 'a = nat]
  by (auto simp: pool_range_def split: if_splits)

lemma search_next_ip_spec:
  "if \<exists>d. ip_free st d then unat (snd (search_next_ip st)) = (LEAST d. ip_free st d)
   else snd (search_next_ip st) = 0"
proof (cases "List.find (\<lambda>k. ip_free st (k + 1)) [0..<256]")
  case None
  have "\<not> ip_free st d" for d
  proof
    assume f: "ip_free st d"
    then have "0 < d" "d \<le> 255" using pool_range_255 by (auto simp: ip_free_def)
    moreover have "\<not> ip_free st (d - 1 + 1)"
    proof -
      have "d - 1 < 256" using f pool_range_255 [of d st] by (simp add: ip_free_def)
      with None [unfolded find_upt_None] show ?thesis by blast
    qed
    ultimately show False using f by simp
  qed
  then show ?thesis using None by (simp add: search_next_ip_eq)
next
  case (Some k)
  then have k: "k < 256" "ip_free st (k + 1)" "\<forall>j<k. \<not> ip_free st (j + 1)" unfolding find_upt_Some by auto
  have l: "(LEAST d. ip_free st d) = k + 1"
  proof (rule Least_equality)
    show "ip_free st (k + 1)" by (rule k(2))
  next
    fix d assume f: "ip_free st d"
    then have "0 < d" by (simp add: ip_free_def)
    then have "d - 1 + 1 = d" by simp
    then have "\<not> d - 1 < k" using k(3) [rule_format, of "d - 1"] f by (metis (full_types))
    then show "k + 1 \<le> d" using \<open>0 < d\<close> by linarith
  qed
  have "k + 1 \<le> 255" using k(2) pool_range_255 [of "k + 1" st] by (simp add: ip_free_def)
  then have "unat (of_nat (k + 1) :: u8) = k + 1" by (simp add: unat_of_nat del: of_nat_add of_nat_Suc)
  then show ?thesis using Some k(2) l by (auto simp: search_next_ip_eq)
qed

section \<open>The bytes of a reply\<close>

lemma wrn_skip: "length a \<le> i \<Longrightarrow> wrn (a @ b) i xs = map_option ((@) a) (wrn b (i - length a) xs)"
  by (auto simp: wrn_def)

lemma wrn_here: "length a = length xs \<Longrightarrow> wrn (a @ b) 0 xs = Some (xs @ b)"
  by (simp add: wrn_def)

lemma wrn_all: "length a = length xs \<Longrightarrow> wrn a 0 xs = Some xs"
  by (simp add: wrn_def)

definition reply_header :: "buf \<Rightarrow> ip \<Rightarrow> buf \<Rightarrow> buf" where
  "reply_header xid yiaddr chaddr = [2, 1, 6, 0] @ xid @ [0, 0, 0x80, 0] @ replicate 4 0
     @ bytes_of yiaddr @ replicate 4 0 @ replicate 4 0 @ chaddr @ replicate 64 0 @ replicate 128 0
     @ dhcp_magic_cookie"

lemma split_at: "n \<le> length m \<Longrightarrow> \<exists>a b. m = a @ b \<and> length a = n"
  by (rule exI [of _ "take n m"], rule exI [of _ "drop n m"]) simp

lemma initialize_message_fields:
  assumes len: "length xid = 4" "length ci = 4" "length y = 4" "length si = 4" "length gi = 4"
      "length c = 16" "length sn = 64" "length fl = 128" "4 \<le> length op" "length op < 2 ^ 31"
    and tot: "dhcp_message_total_options_lenth st = int (length op)"
    and ch: "length (dhcp_client_ethernet_address st) = 16"
  shows "dhcps_initialize_message st ([a1] @ [a2] @ [a3] @ [a4] @ xid @ s1 # s2 # f1 # f2 # ci @ y @ si @ gi @ c @ sn @ fl @ op) yi
    = Some (st\<lparr>dhcp_recorded_xid := xid\<rparr>,
       reply_header xid yi (dhcp_client_ethernet_address st) @ replicate (length op - 4) 0)"
proof -
  have u: "u32 (int (length op)) = length op" using len(10) by simp
  have "op = take 4 op @ drop 4 op" by simp
  have sp: "[a1] @ [a2] @ [a3] @ [a4] @ xid @ s1 # s2 # f1 # f2 # ci @ y @ si @ gi @ c @ sn @ fl @ op
     = [a1] @ [a2] @ [a3] @ [a4] @ xid @ [s1, s2] @ [f1, f2] @ ci @ y @ si @ gi @ c @ sn @ fl @ op" by simp
  have r: "rdn ([2 :: u8] @ [1] @ [6] @ [0] @ xid @ r) off_xid 4 = Some xid" for r
    using len by (simp add: rdn_def)
  have o: "replicate (length op) (0 :: u8) = replicate 4 0 @ replicate (length op - 4) 0"
    using len by (simp only: replicate_add [symmetric]) simp
  have w: "wrn op 0 (replicate (length op) 0) = Some (replicate 4 0 @ replicate (length op - 4) 0)"
    unfolding o by (rule wrn_all) (use len in simp)
  show ?thesis
    by (simp add: dhcps_initialize_message_def wrn_skip wrn_here wrn_Cons len rdn_def w ch tot u
       dhcp_magic_cookie_def reply_header_def)
qed

lemma fields: "length m = m0 \<Longrightarrow> n \<le> m0 \<Longrightarrow> \<exists>a b. m = a @ b \<and> length a = n \<and> length b = m0 - n"
  by (rule exI [of _ "take n m"], rule exI [of _ "drop n m"]) simp

lemma initialize_message_eq:
  assumes len: "240 \<le> length m" "length m < 2 ^ 31" and tot: "dhcp_message_total_options_lenth st = int (length m) - 236"
    and ch: "length (dhcp_client_ethernet_address st) = 16"
  shows "dhcps_initialize_message st m yi = Some (st\<lparr>dhcp_recorded_xid := take 4 (drop 4 m)\<rparr>,
    reply_header (take 4 (drop 4 m)) yi (dhcp_client_ethernet_address st) @ replicate (length m - 240) 0)"
proof -
  define n where "n = length m - 236"
  have n: "length m = 236 + n" "4 \<le> n" using len by (simp_all add: n_def)
  obtain hd4 r0 where h: "m = hd4 @ r0" "length hd4 = 4" and r0: "length r0 = 232 + n"
    using fields [OF n(1), of 4] by auto
  obtain a1 a2 a3 a4 where h4: "hd4 = [a1, a2, a3, a4]" using h(2) by (auto simp: numeral_eq_Suc length_Suc_conv)
  have m0: "m = a1 # a2 # a3 # a4 # r0" using h(1) h4 by simp
  obtain xid r1 where m1: "r0 = xid @ r1" "length xid = 4" "length r1 = 228 + n" using fields [OF r0, of 4] by auto
  obtain sf r2 where m2: "r1 = sf @ r2" "length sf = 4" "length r2 = 224 + n" using fields [OF m1(3), of 4] by auto
  obtain s1 s2 f1 f2 where sf: "sf = [s1, s2, f1, f2]" using m2(2) by (auto simp: numeral_eq_Suc length_Suc_conv)
  obtain ci r3 where m3: "r2 = ci @ r3" "length ci = 4" "length r3 = 220 + n" using fields [OF m2(3), of 4] by auto
  obtain y r4 where m4: "r3 = y @ r4" "length y = 4" "length r4 = 216 + n" using fields [OF m3(3), of 4] by auto
  obtain si r5 where m5: "r4 = si @ r5" "length si = 4" "length r5 = 212 + n" using fields [OF m4(3), of 4] by auto
  obtain gi r6 where m6: "r5 = gi @ r6" "length gi = 4" "length r6 = 208 + n" using fields [OF m5(3), of 4] by auto
  obtain c r7 where m7: "r6 = c @ r7" "length c = 16" "length r7 = 192 + n" using fields [OF m6(3), of 16] by auto
  obtain sn r8 where m8: "r7 = sn @ r8" "length sn = 64" "length r8 = 128 + n" using fields [OF m7(3), of 64] by auto
  obtain fl op where m9: "r8 = fl @ op" "length fl = 128" "length op = n" using fields [OF m8(3), of 128] by auto
  have m: "m = [a1] @ [a2] @ [a3] @ [a4] @ xid @ s1 # s2 # f1 # f2 # ci @ y @ si @ gi @ c @ sn @ fl @ op"
    using m0 m1(1) m2(1) m3(1) m4(1) m5(1) m6(1) m7(1) m8(1) m9(1) sf by simp
  have x: "take 4 (drop 4 m) = xid" unfolding m using m1(2) by simp
  have "length m - 240 = length op - 4" using n m9(3) by simp
  moreover have "dhcp_message_total_options_lenth st = int (length op)" using tot n m9(3) by simp
  moreover have "length op < 2 ^ 31" using len(2) n m9(3) by simp
  moreover have "4 \<le> length op" using n(2) m9(3) by simp
  moreover note initialize_message_fields [OF m1(2) m3(2) m4(2) m5(2) m6(2) m7(2) m8(2) m9(2) _ _ _ ch]
  ultimately show ?thesis unfolding x unfolding m by (simp only:)
qed

text \<open>The options of an offer or an acknowledgement after the message type.\<close>

definition offer_options :: "dhcps \<Rightarrow> buf" where
  "offer_options st = [1, 4] @ bytes_of (dhcps_local_mask st) @ [3, 4] @ bytes_of (dhcps_local_address st)
     @ [6, 4] @ bytes_of (dhcps_local_address st) @ [51, 4] @ dhcp_option_lease_time_one_day
     @ [54, 4] @ bytes_of (dhcps_local_address st) @ [28, 4] @ bytes_of (dhcps_subnet_broadcast st)
     @ [26, 2] @ dhcp_option_interface_mtu_576 @ [31, 1] @ take 1 (bytes_at_null st) @ [255]"

lemma fill_one: "n = 1 \<or> n = 2 \<or> n = 4 \<Longrightarrow> length info = n \<Longrightarrow> len = of_nat n \<Longrightarrow>
   fill_one_option_content b base code len info
     = map_option (\<lambda>b. (b, Some (base + 2 + n))) (wrn b base ([code, len] @ info))"
proof -
  assume n: "n = 1 \<or> n = 2 \<or> n = 4" and i: "length info = n" and l: "len = of_nat n"
  have r: "rdn info 0 n = Some info" using i by (simp add: rdn_def)
  have e: "Option.bind (wrn b base [code, len]) (\<lambda>b. wrn b (base + 2) info) = wrn b base ([code, len] @ info)"
    using wrn_append [of b base "[code, len]" info] by simp
  have f: "fill_one_option_content b base code len info
    = map_option (\<lambda>b. (b, Some (base + 2 + n))) (Option.bind (wrn b base [code, len]) (\<lambda>b. wrn b (base + 2) info))"
    using n r unfolding fill_one_option_content_def l
    by (elim disjE; cases "wrn b base [code, of_nat n]") (simp_all add: map_conv_bind_option o_def del: wrn_None)
  show ?thesis unfolding f e ..
qed

lemma fill_next_wrn: "n = 1 \<or> n = 2 \<or> n = 4 \<Longrightarrow> length info = n \<Longrightarrow> len = of_nat n \<Longrightarrow> e = i + length xs \<Longrightarrow>
   fill_next (map_option (\<lambda>b. (b, Some e)) (wrn b i xs)) code len info
     = map_option (\<lambda>b. (b, Some (i + length xs + 2 + n))) (wrn b i (xs @ [code, len] @ info))"
  using wrn_append [of b i xs "[code, len] @ info", symmetric]
  by (cases "wrn b i xs") (auto simp: fill_one fill_next_def simp del: wrn_None)

lemma fill_one': "length (bytes_at_null st) \<ge> 1 \<Longrightarrow> fill_one_option_content b base code 1 (bytes_at_null st)
   = fill_one_option_content b base code 1 (take 1 (bytes_at_null st))"
  by (simp add: fill_one_option_content_def rdn_def)

lemma add_offer_options_wrn:
  assumes "1 \<le> length (bytes_at_null st)"
  shows "add_offer_options st b i = wrn b i (offer_options st)"
proof -
  have n: "fill_next r c 1 (bytes_at_null st) = fill_next r c 1 (take 1 (bytes_at_null st))" for r c
    unfolding fill_next_def using fill_one' [OF assms] by simp
  have l: "length dhcp_option_lease_time_one_day = 4" "length dhcp_option_interface_mtu_576 = 2"
    by (simp_all add: dhcp_option_lease_time_one_day_def dhcp_option_interface_mtu_576_def)
  have e: "Option.bind (map_option (\<lambda>b. (b, Some e)) (wrn b i xs)) (\<lambda>(b, base). Option.bind base (\<lambda>base. wrn b base ys))
      = wrn b i (xs @ ys)" if "e = i + length xs" for e xs ys
    using wrn_append [of b i xs ys] that by (cases "wrn b i xs") (auto simp del: wrn_None)
  show ?thesis unfolding add_offer_options_def n Let_def
    using assms by (simp add: fill_one [of 4] fill_next_wrn [of 4] fill_next_wrn [of 2] fill_next_wrn [of 1]
        l e offer_options_def)
qed

section \<open>The options of a request\<close>

type_synonym tlv = "u8 \<times> buf"

definition tlv_ok :: "tlv \<Rightarrow> bool" where
  "tlv_ok x \<longleftrightarrow> length (snd x) \<le> 255 \<and> (fst x = DHCP_OPTION_CODE_MSG_TYPE \<longrightarrow> 1 \<le> length (snd x))
     \<and> (fst x = DHCP_OPTION_CODE_REQUEST_IP_ADDRESS \<longrightarrow> 4 \<le> length (snd x))"

definition enc_tlv :: "tlv \<Rightarrow> buf" where
  "enc_tlv x = [fst x, of_nat (length (snd x))] @ snd x"

definition enc_tlvs :: "tlv list \<Rightarrow> buf" where
  "enc_tlvs opts = concat (map enc_tlv opts)"

definition read_tlv :: "dhcps \<times> u8 \<Rightarrow> tlv \<Rightarrow> dhcps \<times> u8" where
  "read_tlv s x = (if fst x = DHCP_OPTION_CODE_MSG_TYPE then (fst s, snd x ! 0)
     else if fst x = DHCP_OPTION_CODE_REQUEST_IP_ADDRESS
     then ((fst s)\<lparr>client_request_ip := word_of (take 4 (snd x))\<rparr>, snd s) else s)"

lemma enc_tlvs_simps [simp]: "enc_tlvs [] = []" "enc_tlvs (x # xs) = enc_tlv x @ enc_tlvs xs"
  by (simp_all add: enc_tlvs_def)

lemma word_of_take4: "length d \<ge> 4 \<Longrightarrow> word_of (take 4 d) = word_of d"
  by (simp add: word_of_def)

lemma options_loop_step:
  assumes "tlv_ok x"
  shows "options_loop st (pre @ enc_tlv x @ post) (length pre) stop ty
    = (if int (length pre) < stop
       then case read_tlv (st, ty) x of (st', ty') \<Rightarrow>
          options_loop st' (pre @ enc_tlv x @ post) (length (pre @ enc_tlv x)) stop ty'
       else Some (st, ty))"
proof -
  obtain c d where x: "x = (c, d)" by (cases x)
  have l: "unat (of_nat (length d) :: u8) = length d"
    using assms by (simp add: x tlv_ok_def unat_of_nat)
  have r: "rd (pre @ enc_tlv x @ post) (length pre) = Some c"
    "rd (pre @ enc_tlv x @ post) (length pre + 1) = Some (of_nat (length d))"
    "c = 53 \<Longrightarrow> rd (pre @ enc_tlv x @ post) (length pre + 2) = Some (d ! 0)"
    "c = 50 \<Longrightarrow> rdn (pre @ enc_tlv x @ post) (length pre + 2) 4 = Some (take 4 d)"
    using assms by (auto simp: x rd_def rdn_def enc_tlv_def tlv_ok_def nth_append)
  have s: "length pre + (unat (of_nat (length d) :: u8) + 2) = length (pre @ enc_tlv x)"
    unfolding l by (simp add: x enc_tlv_def)
  show ?thesis unfolding options_loop.simps [of st "pre @ enc_tlv x @ post" "length pre"]
    using r s by (cases "c = 53"; cases "c = 50") (simp_all add: read_tlv_def x)
qed

lemma options_loop_enc:
  assumes "list_all tlv_ok opts"
  shows "options_loop st (pre @ enc_tlvs opts @ post) (length pre)
      (int (length pre) + int (length (enc_tlvs opts))) ty = Some (foldl read_tlv (st, ty) opts)"
  using assms
proof (induction opts arbitrary: pre st ty)
  case Nil
  then show ?case by (simp add: options_loop.simps)
next
  case (Cons x opts)
  have l: "0 < int (length (enc_tlv x)) + int k" for k by (simp add: enc_tlv_def)
  obtain st' ty' where r: "read_tlv (st, ty) x = (st', ty')" by (cases "read_tlv (st, ty) x")
  have "options_loop st (pre @ enc_tlv x @ enc_tlvs opts @ post) (length pre)
      (int (length pre) + int (length (enc_tlvs (x # opts)))) ty
    = options_loop st' ((pre @ enc_tlv x) @ enc_tlvs opts @ post) (length (pre @ enc_tlv x))
      (int (length (pre @ enc_tlv x)) + int (length (enc_tlvs opts))) ty'"
    using options_loop_step [of x st pre "enc_tlvs opts @ post" _ ty] Cons.prems l r by (simp add: add.assoc)
  also have "\<dots> = Some (foldl read_tlv (st', ty') opts)"
    using Cons.IH [of st' "pre @ enc_tlv x" ty'] Cons.prems by simp
  finally show ?case using r by simp
qed

text \<open>An option that has no room for its length byte is read past the packet, \<open>END\<close> included.\<close>

lemma options_loop_last_byte:
  assumes "list_all tlv_ok opts" "c \<noteq> DHCP_OPTION_CODE_MSG_TYPE" "c \<noteq> DHCP_OPTION_CODE_REQUEST_IP_ADDRESS"
  shows "options_loop st (pre @ enc_tlvs opts @ [c]) (length pre)
      (int (length pre) + int (length (enc_tlvs opts)) + 1) ty = None"
  using assms(1)
proof (induction opts arbitrary: pre st ty)
  case Nil
  then show ?case using assms(2,3) by (simp add: options_loop.simps rd_def)
next
  case (Cons x opts)
  have l: "0 < int (length (enc_tlv x)) + int k" for k by (simp add: enc_tlv_def)
  obtain st' ty' where r: "read_tlv (st, ty) x = (st', ty')" by (cases "read_tlv (st, ty) x")
  have "options_loop st (pre @ enc_tlv x @ enc_tlvs opts @ [c]) (length pre)
      (int (length pre) + int (length (enc_tlvs (x # opts))) + 1) ty
    = options_loop st' ((pre @ enc_tlv x) @ enc_tlvs opts @ [c]) (length (pre @ enc_tlv x))
      (int (length (pre @ enc_tlv x)) + int (length (enc_tlvs opts)) + 1) ty'"
    using options_loop_step [of x st pre "enc_tlvs opts @ [c]" _ ty] Cons.prems l r by (simp add: add.assoc)
  then show ?case using Cons.IH [of st' "pre @ enc_tlv x" ty'] Cons.prems by simp
qed

text \<open>A request: a packet whose options are a sequence of well-formed ones.\<close>

definition chaddr_of :: "buf \<Rightarrow> buf" where "chaddr_of p = take 16 (drop 28 p)"
definition xid_of :: "buf \<Rightarrow> buf" where "xid_of p = take 4 (drop 4 p)"

definition request :: "buf \<Rightarrow> tlv list \<Rightarrow> bool" where
  "request p opts \<longleftrightarrow> (\<exists>h. length h = 236 \<and> p = h @ dhcp_magic_cookie @ enc_tlvs opts)
     \<and> list_all tlv_ok opts \<and> length p < 32768"

definition received :: "dhcps \<Rightarrow> buf \<Rightarrow> dhcps" where
  "received st p = st\<lparr>dhcp_client_ethernet_address := chaddr_of p,
     dhcp_message_total_options_lenth := int (length p) - 236\<rparr>"

lemma int16_small: "0 \<le> i \<Longrightarrow> i < 32768 \<Longrightarrow> int16 i = i"
  unfolding int16_def by (simp add: sint_sbintrunc' signed_take_bit_eq_if_positive take_bit_eq_mod bit_iff_odd)

lemma check_msg_request:
  assumes "request p opts"
  shows "dhcps_check_msg_and_handle_options st p =
    Some (case foldl read_tlv (received st p, 0) opts of (st, ty) \<Rightarrow> dhcps_handle_state_machine_change st ty)"
proof -
  obtain h where p: "length h = 236" "p = (h @ dhcp_magic_cookie) @ enc_tlvs opts @ []" and o: "list_all tlv_ok opts"
    and l: "length p < 32768"
    using assms by (auto simp: request_def)
  have c: "length dhcp_magic_cookie = 4" by (simp add: dhcp_magic_cookie_def)
  have n: "length (h @ dhcp_magic_cookie) = 240" using p c by simp
  have r: "rdn p 28 16 = Some (chaddr_of p)" "rdn p 236 4 = Some dhcp_magic_cookie"
    using p c by (simp_all add: rdn_def chaddr_of_def)
  have t: "int (length p) - 236 - 4 = int (length (enc_tlvs opts))" using p c by simp
  have s: "int16 (int (length (enc_tlvs opts))) = int (length (enc_tlvs opts))"
    by (rule int16_small) (use l p in simp_all)
  have "options_loop (received st p) p 240 (240 + int (length (enc_tlvs opts))) 0
     = Some (foldl read_tlv (received st p, 0) opts)"
    using options_loop_enc [OF o, of "received st p" "h @ dhcp_magic_cookie" "[]" 0] unfolding p(2) n by simp
  then show ?thesis
    unfolding dhcps_check_msg_and_handle_options_def dhcps_handle_msg_options_def
    by (simp add: r t s received_def [symmetric] split: prod.split)
qed

section \<open>The replies\<close>

definition dhcps_wf :: "dhcps \<Rightarrow> bool" where
  "dhcps_wf st \<longleftrightarrow> length (ip_table st) = 8 \<and> length (dhcp_client_ethernet_address st) = 16
     \<and> length (bound_client_ethernet_address st) = 16
     \<and> 1 \<le> length (bytes_at_null st)
     \<and> dhcp_server_state_machine st \<in> {DHCP_SERVER_STATE_IDLE, DHCP_SERVER_STATE_OFFER}"

text \<open>The bytes of an offer or acknowledgement of the address \<open>yi\<close>, and of a refusal.\<close>

definition reply :: "dhcps \<Rightarrow> buf \<Rightarrow> ip \<Rightarrow> u8 \<Rightarrow> buf" where
  "reply st p yi ty = reply_header (xid_of p) yi (chaddr_of p) @ [DHCP_OPTION_CODE_MSG_TYPE, 1, ty]
     @ offer_options st @ replicate (length p - 287) 0"

definition nak_reply :: "buf \<Rightarrow> buf" where
  "nak_reply p = reply_header (xid_of p) 0 (chaddr_of p)
     @ [DHCP_OPTION_CODE_MSG_TYPE, 1, DHCP_MESSAGE_TYPE_NAK, DHCP_OPTION_CODE_END]
     @ replicate (length p - 244) 0"

definition for_packet :: "dhcps \<Rightarrow> buf \<Rightarrow> bool" where
  "for_packet st p \<longleftrightarrow> 240 \<le> length p \<and> length p < 2 ^ 31 \<and> 1 \<le> length (bytes_at_null st)
     \<and> dhcp_message_total_options_lenth st = int (length p) - 236
     \<and> dhcp_client_ethernet_address st = chaddr_of p"

lemma length_chaddr: "44 \<le> length p \<Longrightarrow> length (chaddr_of p) = 16"
  by (simp add: chaddr_of_def)

lemma length_xid: "44 \<le> length p \<Longrightarrow> length (xid_of p) = 4"
  by (simp add: xid_of_def)

lemma length_header: "44 \<le> length p \<Longrightarrow> length (reply_header (xid_of p) yi (chaddr_of p)) = 240"
  by (simp add: reply_header_def length_chaddr length_xid dhcp_magic_cookie_def)

lemma length_offer_options: "1 \<le> length (bytes_at_null st) \<Longrightarrow> length (offer_options st) = 44"
  by (simp add: offer_options_def dhcp_option_lease_time_one_day_def dhcp_option_interface_mtu_576_def)

lemma init_message:
  "for_packet st p \<Longrightarrow> dhcps_initialize_message st p yi = Some (st\<lparr>dhcp_recorded_xid := xid_of p\<rparr>,
     reply_header (xid_of p) yi (chaddr_of p) @ replicate (length p - 240) 0)"
  using initialize_message_eq [of p st yi] length_chaddr [of p] by (simp add: for_packet_def xid_of_def)

text \<open>Writing \<open>xs\<close> over the zeroed options.\<close>

lemma wrn_options:
  assumes "length h = i"
  shows "wrn (h @ replicate n 0) i xs
    = (if length xs \<le> n then Some (h @ xs @ replicate (n - length xs) 0) else None)"
  using assms by (simp add: wrn_skip wrn_def)

lemma add_type_options:
  assumes "1 \<le> length (bytes_at_null st)" "ty \<noteq> DHCP_MESSAGE_TYPE_NAK"
  shows "Option.bind (add_msg_type m 240 ty) (\<lambda>(m, i). add_offer_options st m i)
    = wrn m 240 ([DHCP_OPTION_CODE_MSG_TYPE, 1, ty] @ offer_options st)"
  using wrn_append [of m 240 "[DHCP_OPTION_CODE_MSG_TYPE, 1, ty]" "offer_options st"] assms
  by (cases "wrn m 240 [DHCP_OPTION_CODE_MSG_TYPE, 1, ty]")
    (auto simp: add_msg_type_def add_offer_options_wrn simp del: wrn_None)

lemma add_nak: "add_msg_type m 240 DHCP_MESSAGE_TYPE_NAK = map_option (\<lambda>m. (m, 244))
     (wrn m 240 [DHCP_OPTION_CODE_MSG_TYPE, 1, DHCP_MESSAGE_TYPE_NAK, DHCP_OPTION_CODE_END])"
  using wrn_append [of m 240 "[DHCP_OPTION_CODE_MSG_TYPE, 1, DHCP_MESSAGE_TYPE_NAK]" "[DHCP_OPTION_CODE_END]"]
  by (cases "wrn m 240 [DHCP_OPTION_CODE_MSG_TYPE, 1, DHCP_MESSAGE_TYPE_NAK]")
    (auto simp: add_msg_type_def map_conv_bind_option o_def simp del: wrn_None)

lemma offer_options_cong [simp]:
  "offer_options (st\<lparr>dhcp_recorded_xid := x\<rparr>) = offer_options st"
  "offer_options (sem_give s) = offer_options s" "offer_options (sem_take s) = offer_options s"
  by (simp_all add: offer_options_def sem_give_def sem_take_def)

text \<open>What an offer or an acknowledgement sends, for every packet length from 240 bytes on.\<close>

lemma build_reply:
  assumes f: "for_packet st p" and ty: "ty \<noteq> DHCP_MESSAGE_TYPE_NAK"
  shows "Option.bind (dhcps_initialize_message st p yi) (\<lambda>(st, m).
      Option.bind (add_msg_type m (off_options + 4) ty) (\<lambda>(m, i).
      Option.bind (add_offer_options st m i) (\<lambda>m. Some (udp_sendto_if st m, m))))
    = (if 287 \<le> length p
       then Some (udp_sendto_if (st\<lparr>dhcp_recorded_xid := xid_of p\<rparr>) (reply st p yi ty), reply st p yi ty) else None)"
proof -
  let ?st = "st\<lparr>dhcp_recorded_xid := xid_of p\<rparr>"
  let ?h = "reply_header (xid_of p) yi (chaddr_of p)"
  have n: "1 \<le> length (bytes_at_null ?st)" and l: "44 \<le> length p" "240 \<le> length p" using f by (auto simp: for_packet_def)
  have o: "length (offer_options ?st) = 44" by (rule length_offer_options [OF n])
  have "Option.bind (add_msg_type m 240 ty) (\<lambda>(m, i). Option.bind (add_offer_options ?st m i) (\<lambda>m. Some (udp_sendto_if ?st m, m)))
    = map_option (\<lambda>m. (udp_sendto_if ?st m, m)) (wrn m 240 ([DHCP_OPTION_CODE_MSG_TYPE, 1, ty] @ offer_options ?st))" for m
    unfolding add_type_options [OF n ty, symmetric] map_conv_bind_option
    by (cases "add_msg_type m 240 ty") (auto simp: o_def)
  moreover have "47 \<le> length p - 240 \<longleftrightarrow> 287 \<le> length p" using l by linarith
  ultimately show ?thesis using l o
    by (simp add: init_message [OF f] wrn_options length_header [OF l(1)] reply_def)
qed

lemma send_ack:
  "for_packet st p \<Longrightarrow> dhcps_send_ack st p = (let m = reply st p (dhcps_allocated_client_address st) DHCP_MESSAGE_TYPE_ACK
    in if 287 \<le> length p then Some (udp_sendto_if (st\<lparr>dhcp_recorded_xid := xid_of p\<rparr>) m, m) else None)"
  using build_reply [of st p DHCP_MESSAGE_TYPE_ACK "dhcps_allocated_client_address st"]
  unfolding dhcps_send_ack_def Let_def by simp

lemma send_nak:
  assumes "for_packet st p"
  shows "dhcps_send_nak st p
    = (if 244 \<le> length p then Some (udp_sendto_if (st\<lparr>dhcp_recorded_xid := xid_of p\<rparr>) (nak_reply p), nak_reply p) else None)"
proof -
  have l: "44 \<le> length p" "240 \<le> length p" using assms by (auto simp: for_packet_def)
  have k: "Suc (Suc (Suc (Suc 0))) \<le> length p - 240 \<longleftrightarrow> 244 \<le> length p" using l by linarith
  have z: "IP4_ADDR 0 0 0 0 = 0" by (simp add: IP4_ADDR_def)
  show ?thesis using l unfolding dhcps_send_nak_def z
    by (simp add: init_message [OF assms] add_nak wrn_options length_header [OF l(1)] nak_reply_def k)
qed

section \<open>The choice of an address\<close>

lemma unat_eq_of_nat8: "unat (x :: u8) < 256"
  using unsigned_less [of x, where 'a = nat] by simp

lemma request_free_iff: "request_free st d \<longleftrightarrow> d \<noteq> 0 \<and> unat d \<le> 128 \<and> unat d \<notin> marked st"
proof (cases "d = 0")
  case False
  then have p: "0 < unat d" by (simp add: unat_gt_0)
  then have "int (unat d) - 1 = int (unat d - 1)" by (simp only: of_nat_diff of_nat_1)
  then have i: "(int (unat d) - 1) div 32 = int ((unat d - 1) div 32)" by (simp only: zdiv_int of_nat_numeral)
  have r: "(unat d - 1) div 32 \<le> 3 \<longleftrightarrow> unat d \<le> 128" using p by linarith
  have "unat d - 1 < 256" using unat_eq_of_nat8 [of d] by linarith
  from search_position [OF this, of st] show ?thesis
    using False p r unfolding request_free_def i by simp
qed (simp add: request_free_def)

definition offer_choice :: "dhcps \<Rightarrow> u8" where
  "offer_choice st = (if known_client st then ip4_addr4 (client_request_ip st)
     else if in_network st \<and> request_free st (ip4_addr4 (client_request_ip st))
     then ip4_addr4 (client_request_ip st)
     else if \<exists>x. ip_free st x then of_nat (LEAST x. ip_free st x) else 0)"

definition server_ip :: "dhcps \<Rightarrow> u8 \<Rightarrow> ip" where
  "server_ip st d = IP4_ADDR (ip4_addr1 (dhcps_network_id st)) (ip4_addr2 (dhcps_network_id st))
     (ip4_addr3 (dhcps_network_id st)) d"

lemma ip_free_least:
  assumes "ip_free st x"
  shows "snd (search_next_ip st) = of_nat (LEAST x. ip_free st x)"
    "ip_free st (LEAST x. ip_free st x)" "(LEAST x. ip_free st x) \<le> 255"
proof -
  have "unat (snd (search_next_ip st)) = (LEAST x. ip_free st x)"
    using search_next_ip_spec [of st] assms by (auto split: if_splits)
  moreover have "of_nat (unat (snd (search_next_ip st))) = snd (search_next_ip st)" by simp
  ultimately show "snd (search_next_ip st) = of_nat (LEAST x. ip_free st x)" by (simp only:)
  show f: "ip_free st (LEAST x. ip_free st x)" using assms by (rule LeastI)
  then show "(LEAST x. ip_free st x) \<le> 255" unfolding ip_free_def using pool_range_255 by blast
qed

lemma offer_choice_free:
  assumes "\<not> known_client st" "offer_choice st \<noteq> 0"
  shows "unat (offer_choice st) \<notin> marked st"
proof (cases "in_network st \<and> request_free st (ip4_addr4 (client_request_ip st))")
  case True
  then show ?thesis using assms by (simp add: offer_choice_def request_free_iff)
next
  case False
  then obtain x where x: "ip_free st x" using assms by (auto simp: offer_choice_def split: if_splits)
  then have "unat (of_nat (LEAST x. ip_free st x) :: u8) = (LEAST x. ip_free st x)"
    using ip_free_least(3) [OF x] by (simp add: unat_of_nat)
  moreover have "(LEAST x. ip_free st x) \<notin> marked st" using ip_free_def [of st "LEAST x. ip_free st x"] ip_free_least(2) [OF x] by blast
  moreover have "offer_choice st = of_nat (LEAST x. ip_free st x)" using False assms x by (auto simp: offer_choice_def)
  ultimately show ?thesis by simp
qed

lemma search_next_ip_fst: "fst (search_next_ip st) = sem_give (sem_take st)"
  by (simp add: search_next_ip_eq)

lemma sem_twice: "sem_give (sem_take st) = sem_give st"
  by (simp add: sem_give_def sem_take_def option.map_comp o_def)

lemma choose_eq:
  fixes st
  defines "t \<equiv> (if known_client st then ip4_addr4 (client_request_ip st)
                else if in_network st then
                  let request_ip4 = ip4_addr4 (client_request_ip st)
                  in if request_free st request_ip4 then request_ip4 else 0
                else 0)"
  shows "(if t = 0 then search_next_ip st else (st, t))
    = (if t = 0 then sem_give st else st, offer_choice st)"
proof (cases "t = 0")
  case False
  then show ?thesis by (auto simp: t_def offer_choice_def Let_def split: if_splits)
next
  case True
  have k: "\<not> known_client st" if "ip4_addr4 (client_request_ip st) = 0"
  proof
    assume k: "known_client st"
    then have "dhcps_allocated_client_address st = client_request_ip st"
      unfolding known_client_def by (metis word_of_bytes_of)
    with k that show False by (simp add: known_client_def)
  qed
  have "offer_choice st = (if \<exists>x. ip_free st x then of_nat (LEAST x. ip_free st x) else 0)"
    using True k by (auto simp: t_def offer_choice_def Let_def request_free_def split: if_splits)
  moreover have "snd (search_next_ip st) = (if \<exists>x. ip_free st x then of_nat (LEAST x. ip_free st x) else 0)"
    using ip_free_least(1) search_next_ip_spec [of st] by (auto split: if_splits)
  ultimately show ?thesis using True search_next_ip_fst [of st] sem_twice [of st]
    by (cases "search_next_ip st") simp
qed

section \<open>What a request gets\<close>

lemma bytes_of_inject [simp]: "bytes_of a = bytes_of b \<longleftrightarrow> a = b"
  by (metis word_of_bytes_of)

lemma IP4_ADDR_parts: "IP4_ADDR (ip4_addr1 a) (ip4_addr2 a) (ip4_addr3 a) (ip4_addr4 a) = a"
proof (rule bit_word_eqI)
  fix n assume "n < LENGTH(32)"
  then show "bit (IP4_ADDR (ip4_addr1 a) (ip4_addr2 a) (ip4_addr3 a) (ip4_addr4 a)) n = bit a n"
    by (cases "24 \<le> n"; cases "16 \<le> n")
      (auto simp: IP4_ADDR_def ip4_addr1_def ip4_addr2_def ip4_addr3_def ip4_addr4_def bit_simps)
qed

lemma ip4_addr4_IP4_ADDR [simp]: "ip4_addr4 (IP4_ADDR a b c d) = d"
  by (rule bit_word_eqI) (auto simp: IP4_ADDR_def ip4_addr4_def bit_simps)

lemma server_ip_request: "in_network st \<Longrightarrow> server_ip st (ip4_addr4 (client_request_ip st)) = client_request_ip st"
  using IP4_ADDR_parts [of "client_request_ip st"] by (simp add: server_ip_def in_network_def)

text \<open>The state after the options of \<open>p\<close> have been read, and the message type.\<close>

definition parsed :: "dhcps \<Rightarrow> buf \<Rightarrow> tlv list \<Rightarrow> dhcps \<times> u8" where
  "parsed st p opts = foldl read_tlv (received st p, 0) opts"

lemma read_tlvs_frame:
  "\<exists>ip. fst (foldl read_tlv (st, ty) opts) = st\<lparr>client_request_ip := ip\<rparr>"
proof (induction opts arbitrary: st ty)
  case Nil
  show ?case by (rule exI [of _ "client_request_ip st"]) simp
next
  case (Cons x opts)
  define ip where "ip = (if fst x = 50 then word_of (take 4 (snd x)) else client_request_ip st)"
  define ty' where "ty' = (if fst x = 53 then snd x ! 0 else ty)"
  have r: "read_tlv (st, ty) x = (st\<lparr>client_request_ip := ip\<rparr>, ty')"
    by (simp add: read_tlv_def ip_def ty'_def)
  obtain ip' where "fst (foldl read_tlv (st\<lparr>client_request_ip := ip\<rparr>, ty') opts)
      = (st\<lparr>client_request_ip := ip\<rparr>)\<lparr>client_request_ip := ip'\<rparr>" using Cons.IH by blast
  then show ?case using r by auto
qed

lemma parsed_frame:
  assumes "parsed st p opts = (st1, ty)"
  obtains ip where "st1 = (received st p)\<lparr>client_request_ip := ip\<rparr>"
  using read_tlvs_frame [of "received st p" 0 opts] assms by (auto simp: parsed_def)

lemma parsed_for_packet:
  assumes "parsed st p opts = (st1, ty)" "request p opts" "dhcps_wf st"
  shows "for_packet st1 p" "dhcps_wf st1" "ip_table st1 = ip_table st"
    "dhcp_server_state_machine st1 = dhcp_server_state_machine st" "sent st1 = sent st"
    "dhcp_client_ethernet_address st1 = chaddr_of p"
    "dhcps_allocated_client_address st1 = dhcps_allocated_client_address st"
    "bound_client_ethernet_address st1 = bound_client_ethernet_address st"
    "dhcps_network_id st1 = dhcps_network_id st" "offer_options st1 = offer_options st"
    "marked st1 = marked st" "dhcps_local_address st1 = dhcps_local_address st"
    "dhcps_local_gateway st1 = dhcps_local_gateway st"
proof -
  obtain ip where s: "st1 = (received st p)\<lparr>client_request_ip := ip\<rparr>" using assms(1) by (rule parsed_frame)
  have l: "240 \<le> length p" "length p < 32768" using assms(2) by (auto simp: request_def dhcp_magic_cookie_def)
  then show "for_packet st1 p" "dhcps_wf st1" "ip_table st1 = ip_table st"
    "dhcp_server_state_machine st1 = dhcp_server_state_machine st" "sent st1 = sent st"
    "dhcp_client_ethernet_address st1 = chaddr_of p"
    "dhcps_allocated_client_address st1 = dhcps_allocated_client_address st"
    "bound_client_ethernet_address st1 = bound_client_ethernet_address st"
    "dhcps_network_id st1 = dhcps_network_id st" "offer_options st1 = offer_options st"
    "marked st1 = marked st" "dhcps_local_address st1 = dhcps_local_address st"
    "dhcps_local_gateway st1 = dhcps_local_gateway st"
    using assms(3) length_chaddr [of p]
    by (auto simp: s received_def for_packet_def dhcps_wf_def offer_options_def marked_def)
qed

lemma handler_request:
  assumes "request p opts" "parsed st p opts = (st1, ty)"
  shows "dhcps_receive_udp_packet_handler c st [p] DHCP_CLIENT_PORT =
    (let (st2, r) = dhcps_handle_state_machine_change st1 ty in
     if r = DHCP_SERVER_STATE_OFFER then map_option fst (dhcps_send_offer st2 p)
     else if r = DHCP_SERVER_STATE_ACK then
       map_option (\<lambda>(st, m). (mark_ip_in_table st (ip4_addr4 (dhcps_allocated_client_address st)))
          \<lparr>dhcp_server_state_machine := DHCP_SERVER_STATE_IDLE\<rparr>) (dhcps_send_ack st2 p)
     else if r = DHCP_SERVER_STATE_NAK then
       map_option (\<lambda>(st, m). st\<lparr>dhcp_server_state_machine := DHCP_SERVER_STATE_IDLE\<rparr>) (dhcps_send_nak st2 p)
     else Some st2)"
proof -
  obtain st2 r where h: "dhcps_handle_state_machine_change st1 ty = (st2, r)" by fastforce
  have k: "dhcps_check_msg_and_handle_options st p = Some (st2, r)"
    using check_msg_request [OF assms(1), of st] assms(2) h by (simp add: parsed_def)
  show ?thesis unfolding dhcps_receive_udp_packet_handler_def h
    by (simp add: k map_conv_bind_option o_def Let_def split_def)
qed


lemma for_packet_cong:
  "for_packet st p \<Longrightarrow> bytes_at_null st' = bytes_at_null st \<Longrightarrow>
   dhcp_message_total_options_lenth st' = dhcp_message_total_options_lenth st \<Longrightarrow>
   dhcp_client_ethernet_address st' = dhcp_client_ethernet_address st \<Longrightarrow> for_packet st' p"
  by (simp add: for_packet_def)

lemma send_offer:
  assumes f: "for_packet st p"
  defines "yi \<equiv> server_ip st (offer_choice st)"
  shows "if 287 \<le> length p then
    (\<exists>st2. dhcps_send_offer st p = Some (st2, reply st p yi DHCP_MESSAGE_TYPE_OFFER)
       \<and> sent st2 = sent st @ [reply st p yi DHCP_MESSAGE_TYPE_OFFER]
       \<and> dhcps_allocated_client_address st2 = yi \<and> bound_client_ethernet_address st2 = chaddr_of p
       \<and> dhcp_server_state_machine st2 = dhcp_server_state_machine st \<and> ip_table st2 = ip_table st
       \<and> dhcps_network_id st2 = dhcps_network_id st \<and> bytes_at_null st2 = bytes_at_null st
       \<and> dhcp_client_ethernet_address st2 = dhcp_client_ethernet_address st)
   else dhcps_send_offer st p = None"
proof -
  define t where "t = (if known_client st then ip4_addr4 (client_request_ip st)
     else if in_network st then
       if request_free st (ip4_addr4 (client_request_ip st)) then ip4_addr4 (client_request_ip st) else 0
     else 0)"
  define s where "s = (if t = 0 then sem_give st else st)"
  have c: "(if t = 0 then search_next_ip st else (st, t)) = (s, offer_choice st)"
    unfolding s_def t_def by (rule choose_eq [unfolded Let_def])
  define s' where "s' = s\<lparr>dhcps_allocated_client_address := yi,
     bound_client_ethernet_address := dhcp_client_ethernet_address st\<rparr>"
  have n: "dhcps_network_id s = dhcps_network_id st" "dhcp_client_ethernet_address s = dhcp_client_ethernet_address st"
    by (simp_all add: s_def sem_give_def)
  have "for_packet s' p" by (rule for_packet_cong [OF f]) (simp_all add: s'_def s_def sem_give_def)
  note b = build_reply [OF this, of DHCP_MESSAGE_TYPE_OFFER yi]
  have o: "reply s' p yi ty = reply st p yi ty" for ty
    by (simp add: reply_def offer_options_def s'_def s_def sem_give_def)
  have "dhcps_send_offer st p = (if 287 \<le> length p
       then Some (udp_sendto_if (s'\<lparr>dhcp_recorded_xid := xid_of p\<rparr>) (reply st p yi 2), reply st p yi 2) else None)"
    using b c n unfolding dhcps_send_offer_def Let_def o
    unfolding t_def [symmetric] by (simp add: s'_def yi_def server_ip_def cong: if_cong)
  moreover have "dhcp_client_ethernet_address st = chaddr_of p" using f by (simp add: for_packet_def)
  ultimately show ?thesis by (simp add: udp_sendto_if_def s'_def s_def sem_give_def)
qed

lemma state_machine_discover:
  "dhcp_server_state_machine st \<in> {DHCP_SERVER_STATE_IDLE, DHCP_SERVER_STATE_OFFER} \<Longrightarrow>
   dhcps_handle_state_machine_change st DHCP_MESSAGE_TYPE_DISCOVER
     = (st\<lparr>dhcp_server_state_machine := DHCP_SERVER_STATE_OFFER\<rparr>, DHCP_SERVER_STATE_OFFER)"
  by (auto simp: dhcps_handle_state_machine_change_def)

lemma in_state_cong [simp]:
  "known_client (st\<lparr>dhcp_server_state_machine := s\<rparr>) = known_client st"
  "in_network (st\<lparr>dhcp_server_state_machine := s\<rparr>) = in_network st"
  "request_free (st\<lparr>dhcp_server_state_machine := s\<rparr>) d = request_free st d"
  "marked (st\<lparr>dhcp_server_state_machine := s\<rparr>) = marked st"
  "ip_free (st\<lparr>dhcp_server_state_machine := s\<rparr>) = ip_free st"
  "server_ip (st\<lparr>dhcp_server_state_machine := s\<rparr>) d = server_ip st d"
  "offer_options (st\<lparr>dhcp_server_state_machine := s\<rparr>) = offer_options st"
  "reply (st\<lparr>dhcp_server_state_machine := s\<rparr>) p yi ty = reply st p yi ty"
  "for_packet (st\<lparr>dhcp_server_state_machine := s\<rparr>) p = for_packet st p"
  by (simp_all add: known_client_def in_network_def request_free_def marked_def
    server_ip_def offer_options_def reply_def for_packet_def fun_eq_iff ip_free_def pool_range_def)

lemma offer_choice_in_state [simp]:
  "offer_choice (st\<lparr>dhcp_server_state_machine := s\<rparr>) = offer_choice st"
  by (auto simp: offer_choice_def)

lemma handler_discover:
  assumes r: "request p opts" and w: "dhcps_wf st" and p: "parsed st p opts = (st1, DHCP_MESSAGE_TYPE_DISCOVER)"
    and l: "287 \<le> length p"
  defines "yi \<equiv> server_ip st (offer_choice st1)"
  shows "\<exists>st2. dhcps_receive_udp_packet_handler c st [p] DHCP_CLIENT_PORT = Some st2
    \<and> sent st2 = sent st @ [reply st p yi DHCP_MESSAGE_TYPE_OFFER]
    \<and> dhcp_server_state_machine st2 = DHCP_SERVER_STATE_OFFER
    \<and> dhcps_allocated_client_address st2 = yi \<and> bound_client_ethernet_address st2 = chaddr_of p
    \<and> marked st2 = marked st
    \<and> (known_client st1 \<or> offer_choice st1 = 0 \<or> unat (offer_choice st1) \<notin> marked st)"
proof -
  note f = parsed_for_packet [OF p r w]
  let ?s = "st1\<lparr>dhcp_server_state_machine := DHCP_SERVER_STATE_OFFER\<rparr>"
  have h: "dhcps_handle_state_machine_change st1 1 = (?s, 1)"
    using state_machine_discover [of st1] f(2) by (simp add: dhcps_wf_def)
  have "for_packet ?s p" using f(1) by simp
  from send_offer [OF this] l obtain st2 where o: "dhcps_send_offer ?s p
      = Some (st2, reply ?s p (server_ip ?s (offer_choice ?s)) DHCP_MESSAGE_TYPE_OFFER)"
      "sent st2 = sent ?s @ [reply ?s p (server_ip ?s (offer_choice ?s)) DHCP_MESSAGE_TYPE_OFFER]"
      "dhcps_allocated_client_address st2 = server_ip ?s (offer_choice ?s)"
      "bound_client_ethernet_address st2 = chaddr_of p"
      "dhcp_server_state_machine st2 = dhcp_server_state_machine ?s" "ip_table st2 = ip_table ?s"
    by auto
  have y: "server_ip st1 d = server_ip st d" "reply st1 p a ty = reply st p a ty" for d a ty
    using f(9,10) by (simp_all add: server_ip_def reply_def)
  have "marked st2 = marked st" using o(6) f(3) by (simp add: marked_def)
  moreover have "known_client st1 \<or> offer_choice st1 = 0 \<or> unat (offer_choice st1) \<notin> marked st"
    using offer_choice_free [of st1] f(11) by auto
  ultimately show ?thesis
    using handler_request [OF r p, of c] o h f(5) by (simp add: yi_def y)
qed

text \<open>The condition under which a \<open>REQUEST\<close> is acknowledged.\<close>

definition ack_ok :: "dhcps \<Rightarrow> bool" where
  "ack_ok st \<longleftrightarrow> (if dhcp_server_state_machine st = DHCP_SERVER_STATE_OFFER
     then ip4_addr4 (dhcps_allocated_client_address st) \<noteq> 0
       \<and> dhcps_allocated_client_address st = client_request_ip st
     else known_client st \<or> in_network st \<and> request_free st (ip4_addr4 (client_request_ip st)))"

definition ack_state :: "dhcps \<Rightarrow> dhcps" where
  "ack_state st = st\<lparr>dhcp_server_state_machine := DHCP_SERVER_STATE_ACK,
     dhcps_allocated_client_address := client_request_ip st,
     bound_client_ethernet_address :=
       (if dhcp_server_state_machine st = DHCP_SERVER_STATE_OFFER \<or> known_client st
        then bound_client_ethernet_address st else dhcp_client_ethernet_address st)\<rparr>"

lemma state_machine_request:
  assumes "dhcp_server_state_machine st \<in> {DHCP_SERVER_STATE_IDLE, DHCP_SERVER_STATE_OFFER}"
  shows "dhcps_handle_state_machine_change st DHCP_MESSAGE_TYPE_REQUEST
     = (if ack_ok st then (ack_state st, DHCP_SERVER_STATE_ACK)
        else (st\<lparr>dhcp_server_state_machine := DHCP_SERVER_STATE_NAK\<rparr>, DHCP_SERVER_STATE_NAK))"
proof -
  have u: "st\<lparr>dhcps_allocated_client_address := x, bound_client_ethernet_address := y, dhcp_server_state_machine := z\<rparr>
     = st\<lparr>dhcp_server_state_machine := z, dhcps_allocated_client_address := x, bound_client_ethernet_address := y\<rparr>"
    for x y z by simp
  have k: "st\<lparr>dhcp_server_state_machine := z, dhcps_allocated_client_address := client_request_ip st\<rparr>
      = st\<lparr>dhcp_server_state_machine := z\<rparr>" if "dhcps_allocated_client_address st = client_request_ip st" for z
    unfolding that [symmetric] by simp
  consider "dhcp_server_state_machine st = DHCP_SERVER_STATE_OFFER" | "dhcp_server_state_machine st = DHCP_SERVER_STATE_IDLE"
    using assms by auto
  then show ?thesis
  proof cases
    case 1
    then show ?thesis
      by (auto simp: dhcps_handle_state_machine_change_def ack_ok_def ack_state_def k)
  next
    case 2
    show ?thesis
    proof (cases "known_client st")
      case True
      then have a: "dhcps_allocated_client_address st = client_request_ip st" by (simp add: known_client_def)
      show ?thesis using 2 True k [OF a, of 3]
        by (simp add: dhcps_handle_state_machine_change_def ack_ok_def ack_state_def)
    next
      case False
      have "in_network st \<Longrightarrow> IP4_ADDR (ip4_addr1 (dhcps_network_id st)) (ip4_addr2 (dhcps_network_id st))
         (ip4_addr3 (dhcps_network_id st)) (ip4_addr4 (client_request_ip st)) = client_request_ip st"
        using server_ip_request [of st] by (simp add: server_ip_def)
      then show ?thesis using 2 False
        by (simp add: dhcps_handle_state_machine_change_def ack_ok_def ack_state_def Let_def u)
    qed
  qed
qed

lemma handler_request_answer:
  assumes r: "request p opts" and w: "dhcps_wf st" and p: "parsed st p opts = (st1, DHCP_MESSAGE_TYPE_REQUEST)"
    and l: "287 \<le> length p"
  shows "\<exists>st2. dhcps_receive_udp_packet_handler c st [p] DHCP_CLIENT_PORT = Some st2
    \<and> dhcp_server_state_machine st2 = DHCP_SERVER_STATE_IDLE
    \<and> (if ack_ok st1
       then sent st2 = sent st @ [reply st p (client_request_ip st1) DHCP_MESSAGE_TYPE_ACK]
         \<and> dhcps_allocated_client_address st2 = client_request_ip st1
         \<and> bound_client_ethernet_address st2 = bound_client_ethernet_address (ack_state st1)
         \<and> marked st2 = marked (mark_ip_in_table st (ip4_addr4 (client_request_ip st1)))
       else sent st2 = sent st @ [nak_reply p]
         \<and> dhcps_allocated_client_address st2 = dhcps_allocated_client_address st
         \<and> bound_client_ethernet_address st2 = bound_client_ethernet_address st
         \<and> marked st2 = marked st)"
proof -
  note f = parsed_for_packet [OF p r w]
  have h: "dhcps_handle_state_machine_change st1 3 = (if ack_ok st1 then (ack_state st1, 3)
      else (st1\<lparr>dhcp_server_state_machine := 4\<rparr>, 4))"
    using state_machine_request [of st1] f(2) by (simp add: dhcps_wf_def)
  show ?thesis
  proof (cases "ack_ok st1")
    case True
    let ?s = "(ack_state st1)\<lparr>dhcp_recorded_xid := xid_of p\<rparr>"
    let ?m = "reply st p (client_request_ip st1) 5"
    have fs: "for_packet (ack_state st1) p"
      by (rule for_packet_cong [OF f(1)]) (simp_all add: ack_state_def)
    have y: "reply (ack_state st1) p a ty = reply st p a ty" for a ty
      using f(10) by (simp add: reply_def offer_options_def ack_state_def)
    have a: "dhcps_send_ack (ack_state st1) p = Some (udp_sendto_if ?s ?m, ?m)"
      using send_ack [OF fs] l by (simp add: y Let_def) (simp add: ack_state_def)
    define st3 where "st3 = mark_ip_in_table (udp_sendto_if ?s ?m) (ip4_addr4 (client_request_ip st1))"
    have t: "ip_table (udp_sendto_if ?s ?m) = ip_table st" using f(3) by (simp add: udp_sendto_if_def ack_state_def)
    have fr: "sent (mark_ip_in_table s d) = sent s" "dhcps_allocated_client_address (mark_ip_in_table s d)
        = dhcps_allocated_client_address s" "bound_client_ethernet_address (mark_ip_in_table s d) = bound_client_ethernet_address s" for s d
      by (simp_all add: mark_ip_in_table_def Let_def mark_range_def sem_take_def sem_give_def)
    have m: "marked st3 = marked (mark_ip_in_table st (ip4_addr4 (client_request_ip st1)))"
    proof -
      have "length (ip_table st) = 8" using w by (simp add: dhcps_wf_def)
      moreover have "marked (udp_sendto_if ?s ?m) = marked st" using t by (simp add: marked_def)
      ultimately show ?thesis unfolding st3_def by (simp add: marked_mark_ip t)
    qed
    show ?thesis using handler_request [OF r p, of c] h True a m fr f(5)
      by (simp add: st3_def udp_sendto_if_def ack_state_def)
  next
    case False
    let ?s = "st1\<lparr>dhcp_server_state_machine := 4\<rparr>"
    have fs: "for_packet ?s p" using f(1) by simp
    show ?thesis using handler_request [OF r p, of c] h False send_nak [OF fs] l f
      by (simp add: udp_sendto_if_def marked_def)
  qed
qed

end
