(* ===== verification/DhcpsProps.thy ===== *)
theory DhcpsProps
  imports DhcpsSpec
begin

text \<open>
  The DHCP server over whole runs: the step relation of the server (a packet of any content, a
  change of the address pool), the invariant of every reachable state, and the properties
  of \<open>dhcps.c\<close> with their witnesses.
\<close>

section \<open>Packets of any content\<close>

lemma options_loop_frame:
  "options_loop st b i stop ty = Some (st', ty') \<Longrightarrow> \<exists>ip. st' = st\<lparr>client_request_ip := ip\<rparr>"
proof (induction st b i stop ty rule: options_loop.induct)
  case (1 st b i stop ty)
  show ?case
  proof (cases "int i < stop")
    case False
    then have "st' = st\<lparr>client_request_ip := client_request_ip st\<rparr>"
      using 1(2) by (simp add: options_loop.simps [of st b i stop ty])
    then show ?thesis ..
  next
    case True
    obtain code where c: "rd b i = Some code"
      using 1(2) True by (cases "rd b i") (simp_all add: options_loop.simps [of st b i stop ty])
    define r where "r = (if code = 53 then map_option (Pair st) (rd b (i + 2))
               else if code = 50 then
                 map_option (\<lambda>xs. (st\<lparr>client_request_ip := word_of xs\<rparr>, ty)) (rdn b (i + 2) 4)
               else Some (st, ty))"
    note e = 1(2) [unfolded options_loop.simps [of st b i stop ty]]
    obtain st1 ty1 where r1: "r = Some (st1, ty1)"
      using e True c by (cases r) (auto simp: r_def)
    obtain len where l: "rd b (i + 1) = Some len"
      using e True c r1 by (cases "rd b (i + 1)") (auto simp: r_def)
    have n: "options_loop st1 b (i + (unat len + 2)) stop ty1 = Some (st', ty')"
      using e True c r1 l by (simp add: r_def)
    obtain ip where "st' = st1\<lparr>client_request_ip := ip\<rparr>"
      using 1(1) [OF True c r1 [unfolded r_def] refl l n] by blast
    moreover obtain ip' where "st1 = st\<lparr>client_request_ip := ip'\<rparr>"
    proof -
      have "st1 = st\<lparr>client_request_ip := client_request_ip st1\<rparr>"
        using r1 by (auto simp: r_def split: if_splits)
      then show thesis by (rule that)
    qed
    ultimately show ?thesis by auto
  qed
qed

lemma initialize_frame:
  "dhcps_initialize_message st m yi = Some (st', m') \<Longrightarrow> \<exists>x. st' = st\<lparr>dhcp_recorded_xid := x\<rparr>"
  by (auto simp: dhcps_initialize_message_def Let_def bind_eq_Some_conv)

text \<open>What every reply leaves alone.\<close>

definition same_config :: "dhcps \<Rightarrow> dhcps \<Rightarrow> bool" where
  "same_config st st' \<longleftrightarrow> dhcps_local_address st' = dhcps_local_address st
     \<and> dhcps_local_gateway st' = dhcps_local_gateway st \<and> dhcps_network_id st' = dhcps_network_id st
     \<and> dhcps_local_mask st' = dhcps_local_mask st
     \<and> dhcps_subnet_broadcast st' = dhcps_subnet_broadcast st \<and> bytes_at_null st' = bytes_at_null st"

lemma same_config_refl [simp]: "same_config st st" by (simp add: same_config_def)

lemma same_config_trans: "same_config a b \<Longrightarrow> same_config b c \<Longrightarrow> same_config a c"
  by (simp add: same_config_def)

lemma send_nak_frame:
  "dhcps_send_nak st p = Some (st', m) \<Longrightarrow> \<exists>x. st' = st\<lparr>dhcp_recorded_xid := x, sent := sent st @ [m]\<rparr>"
  by (auto simp: dhcps_send_nak_def udp_sendto_if_def bind_eq_Some_conv dest!: initialize_frame)

lemma send_ack_frame:
  "dhcps_send_ack st p = Some (st', m) \<Longrightarrow> \<exists>x. st' = st\<lparr>dhcp_recorded_xid := x, sent := sent st @ [m]\<rparr>"
  by (auto simp: dhcps_send_ack_def udp_sendto_if_def bind_eq_Some_conv dest!: initialize_frame)

lemma send_offer_frame:
  assumes "dhcps_send_offer st p = Some (st', m)"
  shows "same_config st st' \<and> ip_table st' = ip_table st \<and> dhcp_server_state_machine st' = dhcp_server_state_machine st
    \<and> dhcp_client_ethernet_address st' = dhcp_client_ethernet_address st
    \<and> bound_client_ethernet_address st' = dhcp_client_ethernet_address st
    \<and> (\<exists>d. dhcps_allocated_client_address st' = server_ip st d)"
proof -
  define t where "t = (if known_client st then ip4_addr4 (client_request_ip st)
     else if in_network st then
       if request_free st (ip4_addr4 (client_request_ip st)) then ip4_addr4 (client_request_ip st) else 0
     else 0)"
  define s where "s = (if t = 0 then sem_give st else st)"
  have c: "(if t = 0 then search_next_ip st else (st, t)) = (s, offer_choice st)"
    unfolding s_def t_def by (rule choose_eq [unfolded Let_def])
  obtain st2 m2 where i: "dhcps_initialize_message (s\<lparr>dhcps_allocated_client_address := server_ip s (offer_choice st),
     bound_client_ethernet_address := dhcp_client_ethernet_address s\<rparr>) p (server_ip s (offer_choice st)) = Some (st2, m2)"
     and o: "st' = st2\<lparr>sent := sent st2 @ [m]\<rparr>"
    using assms unfolding dhcps_send_offer_def Let_def
    unfolding t_def [symmetric] c server_ip_def
    by (auto simp: bind_eq_Some_conv udp_sendto_if_def)
  obtain x where "st2 = s\<lparr>dhcps_allocated_client_address := server_ip s (offer_choice st),
     bound_client_ethernet_address := dhcp_client_ethernet_address s, dhcp_recorded_xid := x\<rparr>"
    using initialize_frame [OF i] by auto
  then show ?thesis unfolding o by (auto simp: same_config_def s_def sem_give_def server_ip_def)
qed

section \<open>The server as a transition system\<close>

inductive dhcps_step :: "dhcps \<Rightarrow> dhcps \<Rightarrow> bool" where
  packet: "dhcps_receive_udp_packet_handler c st pbuf port = Some st' \<Longrightarrow> dhcps_step st st'"
| pool: "dhcps_step st (dhcps_set_addr_pool st b lo hi)"

inductive dhcps_reach :: "dhcps \<Rightarrow> netif \<Rightarrow> dhcps \<Rightarrow> bool" for st0 nif where
  start: "dhcps_reach st0 nif (dhcps_init True st0 nif)"
| step: "dhcps_reach st0 nif st \<Longrightarrow> dhcps_step st st' \<Longrightarrow> dhcps_reach st0 nif st'"

text \<open>The handler on a packet of one buffer, by the state that the state machine reached.\<close>

lemma handler_cases:
  assumes "dhcps_receive_udp_packet_handler c st pbuf port = Some st'"
  obtains "st' = st"
  | p st1 r where "dhcps_check_msg_and_handle_options st p = Some (st1, r)"
      "r = 1 \<and> (\<exists>m. dhcps_send_offer st1 p = Some (st', m))
       \<or> r = 3 \<and> (\<exists>st2 m. dhcps_send_ack st1 p = Some (st2, m)
           \<and> st' = (mark_ip_in_table st2 (ip4_addr4 (dhcps_allocated_client_address st2)))\<lparr>dhcp_server_state_machine := 5\<rparr>)
       \<or> r = 4 \<and> (\<exists>st2 m. dhcps_send_nak st1 p = Some (st2, m) \<and> st' = st2\<lparr>dhcp_server_state_machine := 5\<rparr>)
       \<or> r \<notin> {1, 3, 4} \<and> st' = st1"
proof (cases "pbuf = [] \<or> port \<noteq> 68")
  case True
  then show thesis using that(1) assms by (auto simp: dhcps_receive_udp_packet_handler_def split: list.splits)
next
  case False
  then obtain p ps where pb: "pbuf = p # ps" by (cases pbuf) auto
  obtain st1 r where "dhcps_check_msg_and_handle_options st p = Some (st1, r) \<or> st' = st"
    using assms False unfolding pb dhcps_receive_udp_packet_handler_def
    by (auto simp: Let_def bind_eq_Some_conv split: if_splits)
  then show thesis
  proof
    assume k: "dhcps_check_msg_and_handle_options st p = Some (st1, r)"
    show thesis
    proof (cases "st' = st")
      case True
      then show thesis by (rule that(1))
    next
      case d: False
      show thesis
        by (rule that(2) [OF k]) (use assms False d in \<open>auto simp: pb dhcps_receive_udp_packet_handler_def
          Let_def bind_eq_Some_conv k split: if_splits\<close>)
    qed
  qed (rule that(1))
qed

lemma state_machine_frame:
  assumes "dhcps_handle_state_machine_change st ty = (st', r)"
  shows "same_config st st'" "ip_table st' = ip_table st" "sent st' = sent st"
    "dhcp_server_state_machine st' = r"
    "dhcp_client_ethernet_address st' = dhcp_client_ethernet_address st"
    "bound_client_ethernet_address st' \<in> {bound_client_ethernet_address st, dhcp_client_ethernet_address st}"
    "dhcps_allocated_client_address st' = dhcps_allocated_client_address st
     \<or> (\<exists>d. dhcps_allocated_client_address st' = server_ip st d)"
    "r \<in> {1, 3, 4, 5} \<or> r = dhcp_server_state_machine st"
  using assms unfolding dhcps_handle_state_machine_change_def Let_def
  by (auto simp: same_config_def server_ip_def split: if_splits)

text \<open>The invariant.\<close>

definition dhcps_inv :: "dhcps \<Rightarrow> netif \<Rightarrow> dhcps \<Rightarrow> bool" where
  "dhcps_inv st0 nif st \<longleftrightarrow> dhcps_wf st
     \<and> same_config (dhcps_init True st0 nif) st
     \<and> marked (dhcps_init True st0 nif) \<subseteq> marked st
     \<and> (dhcps_allocated_client_address st = 0 \<or> (\<exists>d. dhcps_allocated_client_address st = server_ip st d))"

lemma check_msg_frame:
  assumes "dhcps_check_msg_and_handle_options st p = Some (st1, r)"
  shows "same_config st st1" "ip_table st1 = ip_table st"
    "length (dhcp_client_ethernet_address st1) = 16"
    "bound_client_ethernet_address st1 \<in> {bound_client_ethernet_address st, dhcp_client_ethernet_address st1}"
    "dhcps_allocated_client_address st1 = dhcps_allocated_client_address st
     \<or> (\<exists>d. dhcps_allocated_client_address st1 = server_ip st d)"
    "r = 0 \<and> dhcp_server_state_machine st1 = dhcp_server_state_machine st
     \<or> dhcp_server_state_machine st1 = r \<and> (r \<in> {1, 3, 4, 5} \<or> r = dhcp_server_state_machine st)"
proof -
  define sr where "sr = st\<lparr>dhcp_client_ethernet_address := take 16 (drop 28 p), dhcp_message_total_options_lenth := int (length p) - 236\<rparr>"
  have l: "44 \<le> length p" using assms by (auto simp: dhcps_check_msg_and_handle_options_def bind_eq_Some_conv rdn_Some)
  consider "st1 = sr" "r = 0"
    | st2 ty where "options_loop sr p 240 (240 + int16 (int (length p) - 236 - 4)) 0 = Some (st2, ty)"
      "dhcps_handle_state_machine_change st2 ty = (st1, r)"
    using assms by (auto simp: dhcps_check_msg_and_handle_options_def Let_def dhcps_handle_msg_options_def bind_eq_Some_conv
        rdn_Some sr_def split: if_splits)
  then have "same_config st st1 \<and> ip_table st1 = ip_table st \<and> length (dhcp_client_ethernet_address st1) = 16
    \<and> bound_client_ethernet_address st1 \<in> {bound_client_ethernet_address st, dhcp_client_ethernet_address st1}
    \<and> (dhcps_allocated_client_address st1 = dhcps_allocated_client_address st
     \<or> (\<exists>d. dhcps_allocated_client_address st1 = server_ip st d))
    \<and> (r = 0 \<and> dhcp_server_state_machine st1 = dhcp_server_state_machine st
     \<or> dhcp_server_state_machine st1 = r \<and> (r \<in> {1, 3, 4, 5} \<or> r = dhcp_server_state_machine st))"
  proof cases
    case 1
    then show ?thesis using l by (simp add: sr_def same_config_def)
  next
    case (2 st2 ty)
    obtain ip where s2: "st2 = sr\<lparr>client_request_ip := ip\<rparr>" using options_loop_frame [OF 2(1)] by blast
    note f = state_machine_frame [OF 2(2)]
    show ?thesis using f l by (auto simp: s2 sr_def same_config_def server_ip_def)
  qed
  then show "same_config st st1" "ip_table st1 = ip_table st"
    "length (dhcp_client_ethernet_address st1) = 16"
    "bound_client_ethernet_address st1 \<in> {bound_client_ethernet_address st, dhcp_client_ethernet_address st1}"
    "dhcps_allocated_client_address st1 = dhcps_allocated_client_address st
     \<or> (\<exists>d. dhcps_allocated_client_address st1 = server_ip st d)"
    "r = 0 \<and> dhcp_server_state_machine st1 = dhcp_server_state_machine st
     \<or> dhcp_server_state_machine st1 = r \<and> (r \<in> {1, 3, 4, 5} \<or> r = dhcp_server_state_machine st)"
    by blast+
qed

lemma marked_table: "ip_table st' = ip_table st \<Longrightarrow> marked st' = marked st"
  by (simp add: marked_def)

lemma server_ip_config: "same_config st st' \<Longrightarrow> server_ip st' d = server_ip st d"
  by (simp add: same_config_def server_ip_def)

lemma mark_ip_frame:
  "same_config st (mark_ip_in_table st d)" "length (ip_table (mark_ip_in_table st d)) = length (ip_table st)"
  "dhcp_client_ethernet_address (mark_ip_in_table st d) = dhcp_client_ethernet_address st"
  "bound_client_ethernet_address (mark_ip_in_table st d) = bound_client_ethernet_address st"
  "dhcps_allocated_client_address (mark_ip_in_table st d) = dhcps_allocated_client_address st"
  "dhcp_server_state_machine (mark_ip_in_table st d) = dhcp_server_state_machine st"
  "sent (mark_ip_in_table st d) = sent st"
  by (simp_all add: mark_ip_in_table_def Let_def mark_range_def sem_take_def sem_give_def same_config_def)

lemma marked_mark_ip_mono: "length (ip_table st) = 8 \<Longrightarrow> marked st \<subseteq> marked (mark_ip_in_table st d)"
  by (auto simp: marked_mark_ip)

text \<open>What one packet changes: the state is idle or offering again, the table only grows, and
  the address on offer is zero, unchanged or one of the server's network.\<close>

definition packet_ok :: "dhcps \<Rightarrow> dhcps \<Rightarrow> bool" where
  "packet_ok st st' \<longleftrightarrow> dhcps_wf st' \<and> same_config st st' \<and> marked st \<subseteq> marked st'
     \<and> (dhcps_allocated_client_address st' = dhcps_allocated_client_address st
        \<or> (\<exists>d. dhcps_allocated_client_address st' = server_ip st d))"

lemma handler_packet_ok:
  assumes w: "dhcps_wf st" and h: "dhcps_receive_udp_packet_handler c st pbuf port = Some st'"
  shows "packet_ok st st'"
  using h
proof (cases rule: handler_cases)
  case 1
  then show ?thesis using w by (simp add: packet_ok_def)
next
  case (2 p st1 r)
  note f = check_msg_frame [OF 2(1)]
  have t: "length (ip_table st) = 8" "length (bound_client_ethernet_address st) = 16" "1 \<le> length (bytes_at_null st)"
    "dhcp_server_state_machine st \<in> {5, 1}" using w by (auto simp: dhcps_wf_def)
  have b: "length (bound_client_ethernet_address st1) = 16" using f(3,4) t by auto
  have n: "bytes_at_null st1 = bytes_at_null st" using f(1) by (simp add: same_config_def)
  have m: "marked st1 = marked st" by (rule marked_table [OF f(2)])
  from 2(2) show ?thesis
  proof (elim disjE conjE exE)
    fix mm assume "r = 1" and o: "dhcps_send_offer st1 p = Some (st', mm)"
    then have "dhcp_server_state_machine st1 = 1" using f(6) by auto
    then show ?thesis using send_offer_frame [OF o] f(1-3) t n m same_config_trans [OF f(1)] server_ip_config [OF f(1)]
      marked_table [of st' st1] by (auto simp: packet_ok_def dhcps_wf_def same_config_def)
  next
    fix st2 mm assume a: "dhcps_send_ack st1 p = Some (st2, mm)"
      and s: "st' = (mark_ip_in_table st2 (ip4_addr4 (dhcps_allocated_client_address st2)))\<lparr>dhcp_server_state_machine := 5\<rparr>"
    obtain x where x: "st2 = st1\<lparr>dhcp_recorded_xid := x, sent := sent st1 @ [mm]\<rparr>"
      using send_ack_frame [OF a] by blast
    have "length (ip_table st2) = 8" using f(2) t by (simp add: x)
    then have "marked st \<subseteq> marked st'"
      using marked_mark_ip_mono [of st2] m marked_table [of st2 st1] by (simp add: s x)
    moreover have "same_config st2 (mark_ip_in_table st2 d)" for d by (rule mark_ip_frame)
    ultimately show ?thesis using f(1-3,5) t b n
      by (auto simp: packet_ok_def dhcps_wf_def s mark_ip_frame x same_config_def)
  next
    fix st2 mm assume a: "dhcps_send_nak st1 p = Some (st2, mm)" and s: "st' = st2\<lparr>dhcp_server_state_machine := 5\<rparr>"
    obtain x where x: "st2 = st1\<lparr>dhcp_recorded_xid := x, sent := sent st1 @ [mm]\<rparr>"
      using send_nak_frame [OF a] by blast
    show ?thesis using f(1-3,5) t b n m marked_table [of st' st1]
      by (auto simp: packet_ok_def dhcps_wf_def s x same_config_def)
  next
    assume "r \<notin> {1, 3, 4}" "st' = st1"
    then show ?thesis using f t b n m by (auto simp: packet_ok_def dhcps_wf_def)
  qed
qed

lemma dhcps_init_inv:
  assumes "dhcps_wf st0"
  shows "dhcps_inv st0 nif (dhcps_init True st0 nif)"
proof -
  have "dhcps_wf (dhcps_init True st0 nif)" "dhcps_allocated_client_address (dhcps_init True st0 nif) = 0"
    using assms by (simp_all add: dhcps_wf_def dhcps_init_def Let_def mark_ip_frame
       mark_ip_frame(1) [unfolded same_config_def, THEN conjunct2, THEN conjunct2, THEN conjunct2, THEN conjunct2, THEN conjunct2])
  then show ?thesis by (simp add: dhcps_inv_def)
qed

lemma dhcps_inv_step:
  assumes i: "dhcps_inv st0 nif st" and s: "dhcps_step st st'"
  shows "dhcps_inv st0 nif st'"
  using s
proof (cases rule: dhcps_step.cases)
  case (packet c pbuf port)
  then have p: "packet_ok st st'" using handler_packet_ok i by (simp add: dhcps_inv_def)
  then have "server_ip st' d = server_ip st d" for d by (simp add: packet_ok_def server_ip_config)
  then show ?thesis using p i same_config_trans by (fastforce simp: dhcps_inv_def packet_ok_def)
next
  case (pool b lo hi)
  then show ?thesis using i
    by (auto simp: dhcps_inv_def dhcps_set_addr_pool_def dhcps_wf_def same_config_def marked_def server_ip_def)
qed

lemma dhcps_reach_inv: "dhcps_reach st0 nif st \<Longrightarrow> dhcps_wf st0 \<Longrightarrow> dhcps_inv st0 nif st"
  by (induction rule: dhcps_reach.induct) (auto intro: dhcps_init_inv dhcps_inv_step)

section \<open>Sample packets\<close>

definition sample_packet :: "buf \<Rightarrow> tlv list \<Rightarrow> buf" where
  "sample_packet mac opts = (replicate 28 0 @ mac @ replicate 192 0) @ dhcp_magic_cookie @ enc_tlvs opts"

definition sample_server :: dhcps where
  "sample_server = \<lparr>dhcp_server_state_machine = 5, dhcp_recorded_xid = [], dhcps_pcb = True,
     dhcps_send_broadcast_address = 0, dhcps_local_address = 0x0101A8C0, dhcps_local_mask = 0x00FFFFFF,
     dhcps_local_gateway = 0x0101A8C0, dhcps_network_id = 0x0001A8C0, dhcps_subnet_broadcast = 0xFF01A8C0,
     dhcps_allocated_client_address = 0, dhcps_addr_pool_set = 0, dhcps_addr_pool_start = 0, dhcps_addr_pool_end = 0,
     dhcp_message_total_options_lenth = 0, ip_table = replicate 8 0, client_request_ip = 0,
     dhcp_client_ethernet_address = replicate 16 0, bound_client_ethernet_address = replicate 16 0,
     dhcps_ip_table_semaphore = Some False, bytes_at_null = [0], sent = []\<rparr>"

definition sample_options :: "u8 \<Rightarrow> ip \<Rightarrow> tlv list" where
  "sample_options ty ip = [(53, [ty]), (50, bytes_of ip), (0, replicate 60 0)]"

lemma sample_request:
  assumes "length mac = 16"
  shows "request (sample_packet mac (sample_options ty ip)) (sample_options ty ip)"
    "chaddr_of (sample_packet mac (sample_options ty ip)) = mac"
    "287 \<le> length (sample_packet mac (sample_options ty ip))"
proof -
  have l: "length (enc_tlvs (sample_options ty ip)) = 71" by (simp add: sample_options_def enc_tlv_def)
  have k: "length (replicate 28 0 @ mac @ replicate 192 (0 :: u8)) = 236" using assms by simp
  have "length (sample_packet mac (sample_options ty ip)) < 32768"
    using assms l by (simp add: sample_packet_def dhcp_magic_cookie_def)
  moreover have "list_all tlv_ok (sample_options ty ip)" by (simp add: sample_options_def tlv_ok_def)
  ultimately show "request (sample_packet mac (sample_options ty ip)) (sample_options ty ip)"
    using k unfolding request_def sample_packet_def by blast
  show "chaddr_of (sample_packet mac (sample_options ty ip)) = mac"
    using assms by (simp add: chaddr_of_def sample_packet_def)
  show "287 \<le> length (sample_packet mac (sample_options ty ip))"
    using assms l by (simp add: sample_packet_def dhcp_magic_cookie_def)
qed

lemma sample_parsed:
  "parsed st p (sample_options ty ip) = ((received st p)\<lparr>client_request_ip := ip\<rparr>, ty)"
  by (simp add: parsed_def sample_options_def read_tlv_def)

lemma sample_server_wf: "dhcps_wf sample_server"
  by (simp add: dhcps_wf_def sample_server_def)

section \<open>The properties\<close>

text \<open>\<open>search_next_ip\<close> returns the least address of the pool that is not marked in the table, and 0 exactly
  when every address of the pool is marked.\<close>

theorem dhcps_search_least:
  "if \<exists>d. ip_free st d then unat (snd (search_next_ip st)) = (LEAST d. ip_free st d)
   else snd (search_next_ip st) = 0"
  by (rule search_next_ip_spec)

text \<open>\<open>mark_ip_in_table\<close> marks exactly the given address, except that the addresses 129 to 160 (and 0) are
  never marked: the code shifts by the address itself instead of the offset in its table word.\<close>

theorem dhcps_mark_exact:
  assumes "length (ip_table st) = 8"
  shows "marked (mark_ip_in_table st d) =
    (if d = 0 \<or> 128 < unat d \<and> unat d \<le> 160 then marked st else insert (unat d) (marked st))"
  using assms by (rule marked_mark_ip)

theorem dhcps_mark_exact_witness:
  "marked (mark_ip_in_table sample_server 130) = marked sample_server
   \<and> marked (mark_ip_in_table sample_server 100) = insert 100 (marked sample_server)"
  using dhcps_mark_exact [of sample_server 130] dhcps_mark_exact [of sample_server 100]
  by (simp add: sample_server_def)

text \<open>C22: a well-formed \<open>DISCOVER\<close> of at least 287 bytes is answered with exactly one packet, an \<open>OFFER\<close> with the
  bytes of \<open>reply\<close> for an address of the server's network; the address is bound to the client, and unless the
  client asks for the address it already holds, it is 0 or one that is not marked in the table.\<close>

theorem dhcps_discover_offers:
  assumes "request p opts" "dhcps_wf st" "parsed st p opts = (st1, DHCP_MESSAGE_TYPE_DISCOVER)" "287 \<le> length p"
  shows "\<exists>st2. dhcps_receive_udp_packet_handler c st [p] DHCP_CLIENT_PORT = Some st2
    \<and> sent st2 = sent st @ [reply st p (server_ip st (offer_choice st1)) DHCP_MESSAGE_TYPE_OFFER]
    \<and> dhcp_server_state_machine st2 = DHCP_SERVER_STATE_OFFER
    \<and> dhcps_allocated_client_address st2 = server_ip st (offer_choice st1)
    \<and> bound_client_ethernet_address st2 = chaddr_of p \<and> marked st2 = marked st
    \<and> (known_client st1 \<or> offer_choice st1 = 0 \<or> unat (offer_choice st1) \<notin> marked st)"
  using assms by (rule handler_discover)

theorem dhcps_discover_offers_witness:
  "\<exists>st2. dhcps_receive_udp_packet_handler False sample_server
      [sample_packet (replicate 16 7) (sample_options 1 0x6401A8C0)] DHCP_CLIENT_PORT = Some st2
    \<and> dhcps_allocated_client_address st2 = 0x6401A8C0
    \<and> bound_client_ethernet_address st2 = replicate 16 7"
proof -
  let ?p = "sample_packet (replicate 16 7) (sample_options 1 0x6401A8C0)"
  let ?s1 = "(received sample_server ?p)\<lparr>client_request_ip := 0x6401A8C0\<rparr>"
  have m: "length (replicate 16 (7 :: u8)) = 16" by simp
  note s = sample_request [OF m, of 1 "0x6401A8C0"]
  have "offer_choice ?s1 = 0x64" "server_ip sample_server 0x64 = 0x6401A8C0"
    by (simp_all add: offer_choice_def known_client_def in_network_def request_free_def received_def sample_server_def
       ip4_addr1_def ip4_addr2_def ip4_addr3_def ip4_addr4_def server_ip_def IP4_ADDR_def)
  then show ?thesis
    using dhcps_discover_offers [OF s(1) sample_server_wf sample_parsed [of sample_server ?p 1] s(3), of False] s(2) by auto
qed

text \<open>C21: a well-formed \<open>REQUEST\<close> of at least 287 bytes is answered with exactly one packet and the server is
  idle again. It is an \<open>ACK\<close> of the requested address exactly when \<open>ack_ok\<close> holds (the address on offer, the
  client's own binding, or a free address of the network), and then the address is marked in the table as
  \<open>mark_ip_in_table\<close> does; otherwise it is a \<open>NAK\<close> and neither the bindings nor the table change.\<close>

theorem dhcps_request_answered:
  assumes "request p opts" "dhcps_wf st" "parsed st p opts = (st1, DHCP_MESSAGE_TYPE_REQUEST)" "287 \<le> length p"
  shows "\<exists>st2. dhcps_receive_udp_packet_handler c st [p] DHCP_CLIENT_PORT = Some st2
    \<and> dhcp_server_state_machine st2 = DHCP_SERVER_STATE_IDLE
    \<and> (if ack_ok st1
       then sent st2 = sent st @ [reply st p (client_request_ip st1) DHCP_MESSAGE_TYPE_ACK]
         \<and> dhcps_allocated_client_address st2 = client_request_ip st1
         \<and> bound_client_ethernet_address st2 = bound_client_ethernet_address (ack_state st1)
         \<and> marked st2 = marked (mark_ip_in_table st (ip4_addr4 (client_request_ip st1)))
       else sent st2 = sent st @ [nak_reply p]
         \<and> dhcps_allocated_client_address st2 = dhcps_allocated_client_address st
         \<and> bound_client_ethernet_address st2 = bound_client_ethernet_address st
         \<and> marked st2 = marked st)"
  using assms by (rule handler_request_answer)

theorem dhcps_request_answered_witness:
  "\<exists>st2. dhcps_receive_udp_packet_handler False sample_server
      [sample_packet (replicate 16 7) (sample_options 3 0x6401A8C0)] DHCP_CLIENT_PORT = Some st2
    \<and> dhcps_allocated_client_address st2 = 0x6401A8C0 \<and> length (sent st2) = 1"
proof -
  let ?p = "sample_packet (replicate 16 7) (sample_options 3 0x6401A8C0)"
  let ?s1 = "(received sample_server ?p)\<lparr>client_request_ip := 0x6401A8C0\<rparr>"
  have m: "length (replicate 16 (7 :: u8)) = 16" by simp
  note s = sample_request [OF m, of 3 "0x6401A8C0"]
  have "ack_ok ?s1" "sent sample_server = []"
    by (simp_all add: ack_ok_def in_network_def request_free_def received_def sample_server_def
       ip4_addr1_def ip4_addr2_def ip4_addr3_def ip4_addr4_def)
  then show ?thesis
    using dhcps_request_answered [OF s(1) sample_server_wf sample_parsed [of sample_server ?p 3] s(3), of False] by auto
qed

text \<open>The handler ends on every well-formed packet that has room for the reply, whatever its message type.\<close>

lemma handler_total:
  assumes p: "request p opts" "287 \<le> length p" and w: "dhcps_wf st"
  shows "\<exists>st'. dhcps_receive_udp_packet_handler c st [p] DHCP_CLIENT_PORT = Some st'"
proof -
  obtain st1 ty where st1: "parsed st p opts = (st1, ty)" by fastforce
  obtain st2 r where st2: "dhcps_handle_state_machine_change st1 ty = (st2, r)" by fastforce
  have k: "bytes_at_null st2 = bytes_at_null st1" "dhcp_message_total_options_lenth st2 = dhcp_message_total_options_lenth st1"
    using st2 unfolding dhcps_handle_state_machine_change_def Let_def by (auto split: if_splits)
  have f: "for_packet st2 p"
    using for_packet_cong [OF parsed_for_packet(1) [OF st1 p(1) w] k] state_machine_frame(5) [OF st2] by blast
  have "\<exists>x. dhcps_send_offer st2 p = Some x" using send_offer [OF f] p(2) by auto
  moreover have "\<exists>x. dhcps_send_ack st2 p = Some x" using send_ack [OF f] p(2) by (simp add: Let_def)
  moreover have "\<exists>x. dhcps_send_nak st2 p = Some x" using send_nak [OF f] p(2) by simp
  ultimately show ?thesis unfolding handler_request [OF p(1) st1] st2 by auto
qed

text \<open>C23: the server keeps its state in order for as long as it runs. In every state it reaches after \<open>dhcps_init\<close>, over changes of the
  pool and packets of any content and length, in one buffer or several, that the handler processes without leaving its buffers, the
  state machine is idle or offering, the configuration is the one read from the interface, the addresses marked by \<open>dhcps_init\<close>
  are still marked, and the address on offer is 0 or an address of the server's own network. And there every
  packet of well-formed options, with at least 287 bytes and of any message type, is processed; a packet that ends with the
  option byte END, or a shorter DISCOVER, can make the handler leave its buffers, and says nothing about what is then.\<close>

theorem dhcps_reachable_states:
  assumes "dhcps_reach st0 nif st" "dhcps_wf st0"
  shows "dhcps_inv st0 nif st \<and> (\<forall>p opts c. request p opts \<and> 287 \<le> length p \<longrightarrow>
    (\<exists>st'. dhcps_receive_udp_packet_handler c st [p] DHCP_CLIENT_PORT = Some st' \<and> dhcps_inv st0 nif st'))"
proof -
  have i: "dhcps_inv st0 nif st" using assms by (rule dhcps_reach_inv)
  moreover have "\<exists>st'. dhcps_receive_udp_packet_handler c st [p] DHCP_CLIENT_PORT = Some st' \<and> dhcps_inv st0 nif st'"
    if "request p opts" "287 \<le> length p" for p opts c
    using handler_total [OF that, of st c] i dhcps_inv_step [OF i dhcps_step.packet] by (auto simp: dhcps_inv_def)
  ultimately show ?thesis by blast
qed

definition sample_nif :: netif where
  "sample_nif = \<lparr>ip_addr = 0x0101A8C0, netmask = 0x00FFFFFF, gw = 0x0101A8C0\<rparr>"

theorem dhcps_reachable_states_witness:
  "\<exists>st1 st2. dhcps_receive_udp_packet_handler False (dhcps_init True sample_server sample_nif)
      [sample_packet (replicate 16 7) (sample_options 1 0x6401A8C0)] DHCP_CLIENT_PORT = Some st1
    \<and> dhcps_receive_udp_packet_handler False st1
      [sample_packet (replicate 16 7) (sample_options 3 0x6401A8C0)] DHCP_CLIENT_PORT = Some st2
    \<and> dhcps_inv sample_server sample_nif st2"
proof -
  let ?i = "dhcps_init True sample_server sample_nif"
  have m: "length (replicate 16 (7 :: u8)) = 16" by simp
  note r1 = sample_request [OF m, of 1 "0x6401A8C0"] and r3 = sample_request [OF m, of 3 "0x6401A8C0"]
  have i: "dhcps_reach sample_server sample_nif ?i" by (rule dhcps_reach.start)
  obtain st1 where 1: "dhcps_receive_udp_packet_handler False ?i
      [sample_packet (replicate 16 7) (sample_options 1 0x6401A8C0)] DHCP_CLIENT_PORT = Some st1"
    using dhcps_reachable_states [OF i sample_server_wf] r1(1,3) by blast
  have "dhcps_reach sample_server sample_nif st1" using dhcps_reach.step [OF i dhcps_step.packet [OF 1]] .
  from dhcps_reachable_states [OF this sample_server_wf] 1 r3(1,3) show ?thesis by blast
qed

text \<open>the option parser inverts the encoding of options: over the bytes of any well-formed options it
  returns the last message type and the last requested address among them, wherever the options stand in the
  buffer.\<close>

theorem dhcps_options_roundtrip:
  assumes "list_all tlv_ok opts"
  shows "options_loop st (pre @ enc_tlvs opts @ post) (length pre)
      (int (length pre) + int (length (enc_tlvs opts))) ty = Some (foldl read_tlv (st, ty) opts)"
  using assms by (rule options_loop_enc)

theorem dhcps_options_roundtrip_witness:
  "options_loop sample_server (enc_tlvs (sample_options 3 9)) 0 71 0
     = Some (sample_server\<lparr>client_request_ip := 9\<rparr>, 3)"
proof -
  have o: "list_all tlv_ok (sample_options 3 9)" by (simp add: sample_options_def tlv_ok_def)
  have "length (enc_tlvs (sample_options 3 9)) = 71" by (simp add: sample_options_def enc_tlv_def)
  then show ?thesis using dhcps_options_roundtrip [OF o, of sample_server "[]" "[]" 0]
    by (simp add: sample_options_def read_tlv_def)
qed

text \<open>the parser does not stop at the \<open>END\<close> option: when \<open>END\<close> (or a padding byte) is the last byte of
  the packet, as the DHCP standard allows, the loop reads the length byte behind the packet.\<close>

theorem dhcps_end_option_overread:
  assumes "list_all tlv_ok opts" "c \<noteq> DHCP_OPTION_CODE_MSG_TYPE" "c \<noteq> DHCP_OPTION_CODE_REQUEST_IP_ADDRESS"
  shows "options_loop st (pre @ enc_tlvs opts @ [c]) (length pre)
      (int (length pre) + int (length (enc_tlvs opts)) + 1) ty = None"
  using assms by (rule options_loop_last_byte)

theorem dhcps_end_option_overread_witness:
  "options_loop sample_server (enc_tlvs [(53, [1])] @ [DHCP_OPTION_CODE_END]) 0 4 0 = None"
  using dhcps_end_option_overread [of "[(53, [1])]" DHCP_OPTION_CODE_END sample_server "[]" 0]
  by (simp add: tlv_ok_def enc_tlv_def)

text \<open>the reply is written into the received packet without a check of its length: a well-formed
  \<open>DISCOVER\<close> of 240 to 286 bytes makes the server write past the end of the packet.\<close>

theorem dhcps_short_discover_overwrites:
  assumes "request p opts" "dhcps_wf st" "parsed st p opts = (st1, DHCP_MESSAGE_TYPE_DISCOVER)" "length p < 287"
  shows "dhcps_receive_udp_packet_handler c st [p] DHCP_CLIENT_PORT = None"
proof -
  note f = parsed_for_packet [OF assms(3,1,2)]
  let ?s = "st1\<lparr>dhcp_server_state_machine := DHCP_SERVER_STATE_OFFER\<rparr>"
  have h: "dhcps_handle_state_machine_change st1 1 = (?s, 1)"
    using state_machine_discover [of st1] f(2) by (simp add: dhcps_wf_def)
  have "for_packet ?s p" using f(1) by simp
  then have "dhcps_send_offer ?s p = None" using send_offer [of ?s p] assms(4) by simp
  then show ?thesis using handler_request [OF assms(1,3), of c] h by simp
qed

theorem dhcps_short_discover_overwrites_witness:
  "dhcps_receive_udp_packet_handler False sample_server
     [sample_packet (replicate 16 7) [(53, [1])]] DHCP_CLIENT_PORT = None"
proof -
  let ?p = "sample_packet (replicate 16 7) [(53, [1])]"
  have l: "length ?p = 243" by (simp add: sample_packet_def dhcp_magic_cookie_def enc_tlv_def)
  have k: "length (replicate 28 0 @ replicate 16 7 @ replicate 192 (0 :: u8)) = 236" by simp
  have "list_all tlv_ok [(53, [1])]" "length ?p < 32768" using l by (simp_all add: tlv_ok_def)
  then have r: "request ?p [(53, [1])]" using k unfolding request_def sample_packet_def by blast
  show ?thesis
    by (rule dhcps_short_discover_overwrites [OF r sample_server_wf, of "received sample_server ?p"])
      (use l in \<open>simp_all add: parsed_def read_tlv_def\<close>)
qed

text \<open>C24: while an address is on offer to one client, the server acknowledges it to any client that
  requests it, without comparing the hardware address, and then again to the client it was offered to: two
  clients hold the same address.\<close>

theorem dhcps_double_ack:
  assumes st: "dhcps_wf st" "dhcp_server_state_machine st = DHCP_SERVER_STATE_OFFER"
      "ip4_addr4 (dhcps_allocated_client_address st) \<noteq> 0"
    and b: "request pB oB" "parsed st pB oB = (stB, DHCP_MESSAGE_TYPE_REQUEST)" "287 \<le> length pB"
      "client_request_ip stB = dhcps_allocated_client_address st" "chaddr_of pB \<noteq> bound_client_ethernet_address st"
    and a: "request pA oA" "\<And>s. \<exists>t. parsed s pA oA = (t, DHCP_MESSAGE_TYPE_REQUEST)
        \<and> client_request_ip t = dhcps_allocated_client_address st" "287 \<le> length pA"
      "chaddr_of pA = bound_client_ethernet_address st"
  shows "\<exists>st1 st2. dhcps_receive_udp_packet_handler c st [pB] DHCP_CLIENT_PORT = Some st1
    \<and> dhcps_receive_udp_packet_handler c st1 [pA] DHCP_CLIENT_PORT = Some st2
    \<and> sent st2 = sent st @ [reply st pB (dhcps_allocated_client_address st) DHCP_MESSAGE_TYPE_ACK,
        reply st1 pA (dhcps_allocated_client_address st) DHCP_MESSAGE_TYPE_ACK]"
proof -
  let ?ip = "dhcps_allocated_client_address st"
  note fb = parsed_for_packet [OF b(2,1) st(1)]
  have "ack_ok stB" using st b(4) fb by (simp add: ack_ok_def)
  then obtain st1 where s1: "dhcps_receive_udp_packet_handler c st [pB] 68 = Some st1"
      "dhcp_server_state_machine st1 = 5" "sent st1 = sent st @ [reply st pB ?ip 5]"
      "dhcps_allocated_client_address st1 = ?ip" "bound_client_ethernet_address st1 = bound_client_ethernet_address (ack_state stB)"
    using handler_request_answer [OF b(1) st(1) b(2,3), of c] b(4) by auto
  have w1: "dhcps_wf st1" using handler_packet_ok [OF st(1) s1(1)] by (simp add: packet_ok_def)
  have bd: "bound_client_ethernet_address st1 = bound_client_ethernet_address st"
    using s1(5) st(2) fb by (simp add: ack_state_def)
  obtain stA where pa: "parsed st1 pA oA = (stA, 3)" "client_request_ip stA = ?ip" using a(2) by blast
  note fa = parsed_for_packet [OF pa(1) a(1) w1]
  have "ack_ok stA" using st(3) pa(2) s1(2,4) bd a(4) fa by (simp add: ack_ok_def known_client_def)
  then show ?thesis using handler_request_answer [OF a(1) w1 pa(1) a(3), of c] s1 pa(2) by auto
qed

theorem dhcps_double_ack_witness:
  "\<exists>st1 st2. let st = sample_server\<lparr>dhcp_server_state_machine := DHCP_SERVER_STATE_OFFER,
        dhcps_allocated_client_address := 0x6401A8C0, bound_client_ethernet_address := replicate 16 7\<rparr>
    in dhcps_receive_udp_packet_handler False st
         [sample_packet (replicate 16 8) (sample_options 3 0x6401A8C0)] DHCP_CLIENT_PORT = Some st1
    \<and> dhcps_receive_udp_packet_handler False st1
         [sample_packet (replicate 16 7) (sample_options 3 0x6401A8C0)] DHCP_CLIENT_PORT = Some st2
    \<and> length (sent st2) = 2"
proof -
  let ?st = "sample_server\<lparr>dhcp_server_state_machine := 1,
        dhcps_allocated_client_address := 0x6401A8C0, bound_client_ethernet_address := replicate 16 7\<rparr>"
  let ?pB = "sample_packet (replicate 16 8) (sample_options 3 0x6401A8C0)"
  have mB: "length (replicate 16 (8 :: u8)) = 16" and mA: "length (replicate 16 (7 :: u8)) = 16" by simp_all
  note sB = sample_request [OF mB, of 3 "0x6401A8C0"] and sA = sample_request [OF mA, of 3 "0x6401A8C0"]
  have "dhcps_wf ?st" "ip4_addr4 0x6401A8C0 \<noteq> 0" by (simp_all add: dhcps_wf_def sample_server_def ip4_addr4_def)
  moreover have "replicate 16 (8 :: u8) \<noteq> replicate 16 7" by (simp add: numeral_eq_Suc)
  ultimately show ?thesis
    using dhcps_double_ack [OF _ _ _ sB(1) sample_parsed [of ?st ?pB 3] sB(3) _ _ sA(1) _ sA(3), of False]
    by (simp add: sample_parsed sB(2) sA(2)) (auto simp: sample_server_def)
qed

end
