(* ===== verification/XmlStr.thy ===== *)
theory XmlStr
  imports Prelude
begin

text \<open>
  The string routines of \<open>common/utilities/xml.c\<close>: \<open>xml_strstr\<close>, \<open>str_strip\<close> and \<open>_parse_tag\<close>.

  A zero-terminated string is the list of its characters (which has no zero), a pointer into it an
  index, a null pointer \<open>None\<close> (for a \<open>char *\<close> result of type \<open>string option\<close>). The outer
  \<open>option\<close> of an operation is \<open>None\<close> where the code uses a null pointer. Allocation does not fail
  (the code never checks it), so a buffer that is filled and returned is its string.
\<close>

section \<open>Searching\<close>

fun index_of :: "char \<Rightarrow> string \<Rightarrow> nat option" where
  "index_of c [] = None"
| "index_of c (x # xs) = (if x = c then Some 0 else map_option Suc (index_of c xs))"

text \<open>\<open>strchr(s + i, c)\<close>, as an index into \<open>s\<close>.\<close>

definition strchr :: "string \<Rightarrow> nat \<Rightarrow> char \<Rightarrow> nat option" where
  "strchr s i c = map_option ((+) i) (index_of c (drop i s))"

text \<open>The inner loop of \<open>xml_strstr\<close>, comparing from \<open>a\<close> until the pattern ends or differs.\<close>

fun strstr_match :: "string \<Rightarrow> string \<Rightarrow> bool" where
  "strstr_match a [] = True"
| "strstr_match [] (b # bs) = False"
| "strstr_match (a # as) (b # bs) = (if a \<noteq> b then False else strstr_match as bs)"

fun strstr_scan :: "string \<Rightarrow> string \<Rightarrow> nat option" where
  "strstr_scan [] str2 = None"
| "strstr_scan (x # xs) str2 =
    (if x \<noteq> hd str2 then map_option Suc (strstr_scan xs str2)
     else if strstr_match (x # xs) str2 then Some 0
     else map_option Suc (strstr_scan xs str2))"

definition xml_strstr :: "string \<Rightarrow> nat \<Rightarrow> string \<Rightarrow> nat option" where
  "xml_strstr s i str2 = (if str2 = [] then Some i else map_option ((+) i) (strstr_scan (drop i s) str2))"

text \<open>Reference: the first position where the pattern stands.\<close>

definition occurs_at :: "string \<Rightarrow> string \<Rightarrow> nat \<Rightarrow> bool" where
  "occurs_at s p i \<longleftrightarrow> i \<le> length s \<and> take (length p) (drop i s) = p"

lemma index_of_Some: "index_of c xs = Some k \<longleftrightarrow> k < length xs \<and> xs ! k = c \<and> c \<notin> set (take k xs)"
proof (induction xs arbitrary: k)
  case (Cons x xs)
  then show ?case by (cases k) auto
qed simp

lemma index_of_None: "index_of c xs = None \<longleftrightarrow> c \<notin> set xs"
  by (induction xs) auto

lemma index_of_append: "c \<notin> set xs \<Longrightarrow> index_of c (xs @ c # ys) = Some (length xs)"
  by (induction xs) auto

lemma strchr_Some: "strchr s i c = Some k \<Longrightarrow> i \<le> k \<and> k < length s \<and> s ! k = c \<and> c \<notin> set (take (k - i) (drop i s))"
  by (auto simp: strchr_def index_of_Some)

lemma strchr_None: "strchr s i c = None \<longleftrightarrow> c \<notin> set (drop i s)"
  by (simp add: strchr_def index_of_None)

lemma strchr_at: "i = length a \<Longrightarrow> c \<notin> set b \<Longrightarrow> strchr (a @ b @ c # r) i c = Some (length a + length b)"
  by (simp add: strchr_def index_of_append)

lemma strstr_match_iff: "strstr_match a b \<longleftrightarrow> take (length b) a = b"
  by (induction a b rule: strstr_match.induct) auto

lemma strstr_scan_Some:
  assumes "p \<noteq> []"
  shows "strstr_scan s p = Some k \<longleftrightarrow> occurs_at s p k \<and> (\<forall>j<k. \<not> occurs_at s p j)"
proof (induction s arbitrary: k)
  case Nil
  then show ?case using assms by (simp add: occurs_at_def)
next
  case (Cons x xs)
  have h: "x \<noteq> hd p \<Longrightarrow> \<not> strstr_match (x # xs) p" using assms by (cases p) auto
  have z: "occurs_at (x # xs) p 0 \<longleftrightarrow> strstr_match (x # xs) p" by (simp add: occurs_at_def strstr_match_iff)
  have s: "occurs_at (x # xs) p (Suc j) \<longleftrightarrow> occurs_at xs p j" for j by (simp add: occurs_at_def)
  have e: "strstr_scan (x # xs) p = (if strstr_match (x # xs) p then Some 0 else map_option Suc (strstr_scan xs p))"
    using h by auto
  show ?case unfolding e using Cons z s by (cases k) (auto simp: less_Suc_eq_0_disj)
qed

lemma strstr_scan_None: "p \<noteq> [] \<Longrightarrow> strstr_scan s p = None \<longleftrightarrow> (\<forall>k. \<not> occurs_at s p k)"
proof (induction s)
  case Nil
  then show ?case by (simp add: occurs_at_def)
next
  case (Cons x xs)
  have h: "x \<noteq> hd p \<Longrightarrow> \<not> strstr_match (x # xs) p" using Cons.prems by (cases p) auto
  have "(\<forall>k. \<not> occurs_at (x # xs) p k) \<longleftrightarrow> \<not> occurs_at (x # xs) p 0 \<and> (\<forall>k. \<not> occurs_at (x # xs) p (Suc k))"
    by (metis not0_implies_Suc)
  also have "\<dots> \<longleftrightarrow> \<not> strstr_match (x # xs) p \<and> (\<forall>k. \<not> occurs_at xs p k)"
    by (simp add: occurs_at_def strstr_match_iff)
  finally show ?case using Cons h by auto
qed

section \<open>Stripping\<close>

text \<open>\<open>str_strip(str + i, n)\<close>: both loops as they stand; a null result when there is nothing but spaces.\<close>

fun strip_front :: "string \<Rightarrow> nat \<Rightarrow> nat \<Rightarrow> nat" where
  "strip_front s i 0 = i"
| "strip_front s i (Suc n) = (if s ! i \<noteq> CHR '' '' then i else strip_front s (Suc i) n)"

fun strip_rear :: "string \<Rightarrow> nat \<Rightarrow> nat \<Rightarrow> nat" where
  "strip_rear s front 0 = 0"
| "strip_rear s front (Suc r) = (if Suc r < front then Suc r else if s ! Suc r \<noteq> CHR '' '' then Suc r else strip_rear s front r)"

definition str_strip :: "string \<Rightarrow> nat \<Rightarrow> nat \<Rightarrow> string option" where
  "str_strip s i n =
     (if n = 0 then None
      else let front = strip_front s i n
           in if front = i + n then None
              else let rear = strip_rear s front (i + n - 1)
                   in Some (take (rear + 1 - front) (drop front s)))"

text \<open>Reference: drop the spaces at both ends.\<close>

definition trim :: "string \<Rightarrow> string" where
  "trim s = rev (dropWhile (\<lambda>c. c = CHR '' '') (rev (dropWhile (\<lambda>c. c = CHR '' '') s)))"

lemma strip_front_eq:
  "i + n \<le> length s \<Longrightarrow> i \<le> strip_front s i n \<and> strip_front s i n \<le> i + n
   \<and> drop (strip_front s i n - i) (take n (drop i s)) = dropWhile (\<lambda>c. c = CHR '' '') (take n (drop i s))"
proof (induction n arbitrary: i)
  case (Suc n)
  have t: "take (Suc n) (drop i s) = s ! i # take n (drop (Suc i) s)"
    using Suc.prems by (simp add: Cons_nth_drop_Suc [symmetric])
  show ?case
  proof (cases "s ! i = CHR '' ''")
    case True
    have f: "Suc i \<le> strip_front s (Suc i) n" "strip_front s (Suc i) n \<le> Suc i + n"
       "drop (strip_front s (Suc i) n - Suc i) (take n (drop (Suc i) s)) = dropWhile (\<lambda>c. c = CHR '' '') (take n (drop (Suc i) s))"
      using Suc.IH [of "Suc i"] Suc.prems by auto
    then have "strip_front s (Suc i) n - i = Suc (strip_front s (Suc i) n - Suc i)" by simp
    then show ?thesis unfolding t using True f by simp
  qed (simp add: t)
qed simp

lemma strip_rear_eq:
  assumes "front \<le> r" "r < length s" "s ! front \<noteq> CHR '' ''"
  shows "front \<le> strip_rear s front r
    \<and> take (strip_rear s front r + 1 - front) (drop front s)
      = rev (dropWhile (\<lambda>c. c = CHR '' '') (rev (take (r + 1 - front) (drop front s))))"
  using assms
proof (induction r)
  case 0
  then show ?case by (cases s) auto
next
  case (Suc r)
  have t: "take (Suc r + 1 - front) (drop front s) = take (Suc r - front) (drop front s) @ [s ! Suc r]"
    using Suc.prems by (simp add: Suc_diff_le take_Suc_conv_app_nth)
  show ?case
  proof (cases "s ! Suc r = CHR '' ''")
    case True
    then have "front \<le> r" using Suc.prems(1,3) by (cases "front = Suc r") auto
    then show ?thesis using Suc.IH Suc.prems True t by simp
  next
    case False
    then show ?thesis using Suc.prems(1) t by simp
  qed
qed

lemma dropWhile_take_nonempty:
  "x \<in> set xs \<Longrightarrow> \<not> P x \<Longrightarrow> dropWhile P xs \<noteq> []"
  by auto

lemma str_strip_trim:
  assumes "i + n \<le> length s"
  shows "str_strip s i n = (let t = trim (take n (drop i s)) in if t = [] then None else Some t)"
proof (cases "n = 0")
  case True
  then show ?thesis by (simp add: str_strip_def trim_def)
next
  case False
  define f where "f = strip_front s i n"
  define u where "u = dropWhile (\<lambda>c. c = CHR '' '') (take n (drop i s))"
  have f: "i \<le> f" "f \<le> i + n" "drop (f - i) (take n (drop i s)) = u"
    using strip_front_eq [OF assms] by (auto simp: f_def u_def)
  have ue: "u = take (i + n - f) (drop f s)"
    using f(1) by (simp add: f(3) [symmetric] drop_take add.commute)
  have ul: "length u = i + n - f" using assms f(2) by (simp add: ue)
  have tr: "trim (take n (drop i s)) = rev (dropWhile (\<lambda>c. c = CHR '' '') (rev u))" by (simp add: trim_def u_def)
  show ?thesis
  proof (cases "f = i + n")
    case True
    then show ?thesis using False tr ul by (simp add: str_strip_def f_def [symmetric])
  next
    case n: False
    then have l: "f < i + n" using f(2) by simp
    have h: "s ! f \<noteq> CHR '' ''"
    proof -
      have "u \<noteq> []" using ul l by auto
      then have "hd u \<noteq> CHR '' ''" unfolding u_def using hd_dropWhile [of "\<lambda>c. c = CHR '' ''"] by fastforce
      moreover have "hd u = s ! f" using l assms by (simp add: ue hd_drop_conv_nth)
      ultimately show ?thesis by simp
    qed
    have "f \<le> i + n - 1" "i + n - 1 < length s" using l assms by auto
    note r = strip_rear_eq [OF this h]
    have e: "i + n - 1 + 1 - f = i + n - f" using l by simp
    have "s ! f \<in> set (rev u)" using l assms by (simp add: ue in_set_conv_nth) (rule exI [of _ 0], simp)
    then have "dropWhile (\<lambda>c. c = CHR '' '') (rev u) \<noteq> []" using h by (intro dropWhile_take_nonempty [of "s ! f"]) auto
    then have "trim (take n (drop i s)) \<noteq> []" using tr by simp
    then show ?thesis using False n r unfolding e ue [symmetric] tr
      by (simp add: str_strip_def f_def [symmetric] Let_def)
  qed
qed

lemma trim_no_space: "CHR '' '' \<notin> set s \<Longrightarrow> trim s = s"
proof -
  assume s: "CHR '' '' \<notin> set s"
  have d: "dropWhile (\<lambda>c. c = CHR '' '') xs = xs" if "CHR '' '' \<notin> set xs" for xs
    using that by (cases xs) auto
  show ?thesis using s d [of s] d [of "rev s"] by (simp add: trim_def)
qed

section \<open>Tags\<close>

text \<open>The character at index \<open>i\<close>, the terminating zero included.\<close>

definition char_at :: "string \<Rightarrow> nat \<Rightarrow> char" where
  "char_at s i = (if i < length s then s ! i else CHR 0x00)"

text \<open>The value of the namespace attribute at \<open>ns_front\<close>. Without the expected separators the code
  goes on with a null pointer.\<close>

definition ns_value :: "string \<Rightarrow> nat \<Rightarrow> string option" where
  "ns_value tag ns_front = do {
     eq \<leftarrow> strchr tag ns_front CHR ''='';
     let ns_sep = (if char_at tag (eq + 1) = CHR 0x27 then CHR 0x27 else CHR 0x22);
     uri_front \<leftarrow> map_option Suc (strchr tag ns_front ns_sep);
     uri_rear \<leftarrow> strchr tag uri_front ns_sep;
     Some (take (uri_rear - uri_front) (drop uri_front tag))
   }"

type_synonym tag = "string option \<times> string option \<times> string option \<times> string option"

text \<open>\<open>_parse_tag\<close>: the prefix, name, namespace and attributes of a tag, each possibly null.\<close>

definition parse_tag_attr :: "string \<Rightarrow> tag option" where
  "parse_tag_attr tag = do {
     let prefix_char = strchr tag 0 CHR '':'';
     let have_prefix = (case prefix_char of None \<Rightarrow> False
           | Some p \<Rightarrow> (case strchr tag 0 CHR '' '' of None \<Rightarrow> True | Some tag_sep \<Rightarrow> p < tag_sep));
     let p1 = (case prefix_char of None \<Rightarrow> 0 | Some p \<Rightarrow> p + 1);
     (prefix, ns_front) \<leftarrow>
       (if have_prefix then do {
          let prefix = str_strip tag 0 (p1 - 1);
          x \<leftarrow> prefix;
          Some (prefix, xml_strstr tag 0 ('' xmlns:'' @ x))
        } else Some (None, xml_strstr tag 0 '' xmlns''));
     (if have_prefix \<and> ns_front \<noteq> None then do {
        tag_sep \<leftarrow> strchr tag p1 CHR '' '';
        front \<leftarrow> ns_front;
        let name = str_strip tag p1 (tag_sep - p1);
        let attr = str_strip tag tag_sep (length tag - tag_sep);
        uri \<leftarrow> ns_value tag front;
        Some (prefix, name, Some uri, attr)
      } else if have_prefix then
        (case strchr tag p1 CHR '' '' of
           Some tag_sep \<Rightarrow> Some (prefix, str_strip tag p1 (tag_sep - p1), None,
             str_strip tag tag_sep (length tag - tag_sep))
         | None \<Rightarrow> Some (prefix, str_strip tag p1 (length tag - p1), None, None))
      else if ns_front \<noteq> None then do {
        tag_sep \<leftarrow> strchr tag 0 CHR '' '';
        front \<leftarrow> ns_front;
        let name = str_strip tag 0 tag_sep;
        let attr = str_strip tag tag_sep (length tag - tag_sep);
        uri \<leftarrow> ns_value tag front;
        Some (None, name, Some uri, attr)
      } else
        (case strchr tag 0 CHR '' '' of
           Some tag_sep \<Rightarrow> Some (None, str_strip tag 0 tag_sep, None,
             str_strip tag tag_sep (length tag - tag_sep))
         | None \<Rightarrow> Some (None, str_strip tag 0 (length tag), None, None)))
   }"

definition parse_tag :: "string \<Rightarrow> (string option \<times> string option \<times> string option) option" where
  "parse_tag tag = map_option (\<lambda>(prefix, name, uri, attr). (prefix, name, uri)) (parse_tag_attr tag)"

definition start_tag_text :: "string option \<Rightarrow> string \<Rightarrow> string option \<Rightarrow> string" where
  "start_tag_text prefix name attr = (case prefix of None \<Rightarrow> '''' | Some p \<Rightarrow> p @ '':'') @ name
     @ (case attr of None \<Rightarrow> '''' | Some a \<Rightarrow> '' '' @ a)"

definition plain :: "string \<Rightarrow> bool" where
  "plain s \<longleftrightarrow> s \<noteq> [] \<and> set s \<inter> {CHR '' '', CHR '':'', CHR ''<'', CHR ''>'', CHR ''/''} = {}"

lemma plainD:
  assumes "plain s"
  shows "s \<noteq> []" "CHR '' '' \<notin> set s" "CHR '':'' \<notin> set s" "CHR ''<'' \<notin> set s" "CHR ''>'' \<notin> set s" "CHR ''/'' \<notin> set s"
  using assms by (auto simp: plain_def)

lemma strstr_no_head:
  assumes "c \<notin> set s"
  shows "xml_strstr s 0 (c # p) = None"
proof -
  have "\<not> occurs_at s (c # p) k" for k
  proof
    assume o: "occurs_at s (c # p) k"
    then have "c \<in> set (take (length (c # p)) (drop k s))" by (simp add: occurs_at_def)
    then show False using assms by (meson in_set_dropD in_set_takeD)
  qed
  then have "strstr_scan s (c # p) = None" by (subst strstr_scan_None) auto
  then show ?thesis by (simp add: xml_strstr_def)
qed

lemma strip_plain: "plain s \<Longrightarrow> str_strip (a @ s @ b) (length a) (length s) = Some s"
  using plainD [of s] by (simp add: str_strip_trim trim_no_space)

lemma parse_tag_plain:
  assumes n: "plain name"
  shows "parse_tag_attr name = Some (None, Some name, None, None)"
  using plainD [OF n] strip_plain [OF n, of "[]" "[]"]
  by (simp add: parse_tag_attr_def strchr_def index_of_None [THEN iffD2] strstr_no_head)

lemma parse_tag_prefixed:
  assumes p: "plain prefix" and n: "plain name"
  shows "parse_tag_attr (prefix @ '':'' @ name) = Some (Some prefix, Some name, None, None)"
proof -
  let ?t = "prefix @ '':'' @ name"
  have c: "strchr ?t 0 CHR '':'' = Some (length prefix)"
    using strchr_at [of 0 "[]" "CHR '':''" prefix name] plainD [OF p] by simp
  have s: "strchr ?t i CHR '' '' = None" for i
    using plainD [OF p] plainD [OF n] by (auto simp: strchr_None dest: in_set_dropD)
  have sp: "str_strip ?t 0 (length prefix) = Some prefix" using strip_plain [OF p, of "[]"] by simp
  have sn: "str_strip ?t (Suc (length prefix)) (length ?t - Suc (length prefix)) = Some name"
    using strip_plain [OF n, of "prefix @ '':''" "[]"] by simp
  have x: "xml_strstr ?t 0 ('' xmlns:'' @ prefix) = None"
    using strstr_no_head [of "CHR '' ''" ?t] plainD [OF p] plainD [OF n] by simp
  show ?thesis unfolding parse_tag_attr_def using c s sp sn x by simp
qed

end
