(* ===== verification/Xml.thy ===== *)
theory Xml
  imports XmlStr
begin

text \<open>
  The node store of \<open>common/utilities/xml.c\<close> and the operations on it: nodes linked to their parent, first
  child and siblings by pointers. An address is a number (0 is the null pointer), the store a
  partial map; a node that has been freed is not in it, so that a use of it, as of a null pointer,
  gives \<open>None\<close>. Every string field is a copy of its own. Allocation gives an address that was
  never used before and does not fail (the code does not check it).

  Recursion and loops over the links are \<open>partial_function (option)\<close>: \<open>None\<close> also where they would not end.
  A function with a loop over the children is one recursive function with a flag that says whether
  it stands for the call on a node (\<open>False\<close>) or for the loop from a child on (\<open>True\<close>).
\<close>

record xml_node =
  n_name :: "string option"
  n_text :: "string option"
  n_prefix :: "string option"
  n_uri :: "string option"
  n_attr :: "string option"
  n_parent :: nat
  n_child :: nat
  n_prev :: nat
  n_next :: nat

record xml =
  nodes :: "nat \<Rightarrow> xml_node option"
  brk :: nat

definition upd :: "xml \<Rightarrow> nat \<Rightarrow> (xml_node \<Rightarrow> xml_node) \<Rightarrow> xml option" where
  "upd st p f = do { n \<leftarrow> nodes st p; Some (st\<lparr>nodes := (nodes st)(p \<mapsto> f n)\<rparr>) }"

section \<open>Creating nodes\<close>

definition xml_new_node :: "xml \<Rightarrow> xml \<times> nat" where
  "xml_new_node st = (st\<lparr>nodes := (nodes st)(brk st \<mapsto>
       \<lparr>n_name = None, n_text = None, n_prefix = None, n_uri = None, n_attr = None,
        n_parent = 0, n_child = 0, n_prev = 0, n_next = 0\<rparr>), brk := brk st + 1\<rparr>, brk st)"

text \<open>\<open>_xml_new_element\<close>; the name is copied without a check for null.\<close>

definition xml_new_element_attr ::
    "xml \<Rightarrow> string option \<Rightarrow> string option \<Rightarrow> string option \<Rightarrow> string option \<Rightarrow> (xml \<times> nat) option" where
  "xml_new_element_attr st prefix name uri attr = do {
     let (st, node) = xml_new_node st;
     s \<leftarrow> name;
     st \<leftarrow> upd st node (n_name_update (\<lambda>_. Some s));
     st \<leftarrow> (case prefix of Some s \<Rightarrow> upd st node (n_prefix_update (\<lambda>_. Some s)) | None \<Rightarrow> Some st);
     st \<leftarrow> (case uri of Some s \<Rightarrow> upd st node (n_uri_update (\<lambda>_. Some s)) | None \<Rightarrow> Some st);
     st \<leftarrow> (case attr of Some s \<Rightarrow> upd st node (n_attr_update (\<lambda>_. Some s)) | None \<Rightarrow> Some st);
     Some (st, node)
   }"

definition xml_new_element ::
    "xml \<Rightarrow> string option \<Rightarrow> string option \<Rightarrow> string option \<Rightarrow> (xml \<times> nat) option" where
  "xml_new_element st prefix name uri =
     (let attr = (case (prefix, uri) of
          (Some p, Some u) \<Rightarrow> Some (''xmlns:'' @ p @ ''=\"'' @ u @ ''\"'')
        | (None, Some u) \<Rightarrow> Some (''xmlns=\"'' @ u @ ''\"'')
        | _ \<Rightarrow> None)
      in xml_new_element_attr st prefix name uri attr)"

definition xml_new_text :: "xml \<Rightarrow> string \<Rightarrow> (xml \<times> nat) option" where
  "xml_new_text st s = do {
     let (st, node) = xml_new_node st;
     st \<leftarrow> upd st node (n_text_update (\<lambda>_. Some s));
     Some (st, node)
   }"

section \<open>Kinds of nodes\<close>

definition is_element :: "xml_node \<Rightarrow> bool" where
  "is_element n \<longleftrightarrow> n_name n \<noteq> None \<and> n_text n = None"

definition is_text :: "xml_node \<Rightarrow> bool" where
  "is_text n \<longleftrightarrow> n_name n = None \<and> n_text n \<noteq> None"

definition xml_is_element :: "xml \<Rightarrow> nat \<Rightarrow> bool option" where
  "xml_is_element st node = map_option is_element (nodes st node)"

definition xml_is_text :: "xml \<Rightarrow> nat \<Rightarrow> bool option" where
  "xml_is_text st node = map_option is_text (nodes st node)"

section \<open>Linking\<close>

partial_function (option) last_child :: "xml \<Rightarrow> nat \<Rightarrow> nat option" where
  "last_child st p = do {
     n \<leftarrow> nodes st p;
     if n_next n \<noteq> 0 then last_child st (n_next n) else Some p
   }"

definition xml_add_child :: "xml \<Rightarrow> nat \<Rightarrow> nat \<Rightarrow> xml option" where
  "xml_add_child st node child = do {
     n \<leftarrow> nodes st node;
     if is_element n then do {
       st \<leftarrow> (if n_child n \<noteq> 0 then do {
                last \<leftarrow> last_child st (n_child n);
                st \<leftarrow> upd st last (n_next_update (\<lambda>_. child));
                upd st child (n_prev_update (\<lambda>_. last))
              } else upd st node (n_child_update (\<lambda>_. child)));
       upd st child (n_parent_update (\<lambda>_. node))
     } else Some st
   }"

section \<open>Deleting\<close>

definition unlink :: "xml \<Rightarrow> nat \<Rightarrow> xml option" where
  "unlink st root = do {
     n \<leftarrow> nodes st root;
     if n_prev n \<noteq> 0 then do {
       st \<leftarrow> upd st (n_prev n) (n_next_update (\<lambda>_. n_next n));
       if n_next n \<noteq> 0 then upd st (n_next n) (n_prev_update (\<lambda>_. n_prev n)) else Some st
     } else if n_parent n \<noteq> 0 then do {
       st \<leftarrow> upd st (n_parent n) (n_child_update (\<lambda>_. n_next n));
       if n_next n \<noteq> 0 then upd st (n_next n) (n_prev_update (\<lambda>_. 0)) else Some st
     } else Some st
   }"

text \<open>\<open>xml_free(root)\<close>; the strings of a node are freed with it.\<close>

definition free_node :: "xml \<Rightarrow> nat \<Rightarrow> xml option" where
  "free_node st p = (case nodes st p of None \<Rightarrow> None | Some n \<Rightarrow> Some (st\<lparr>nodes := (nodes st)(p := None)\<rparr>))"

text \<open>\<open>loop\<close>: \<open>while(root->child) xml_delete_tree(root->child)\<close>.\<close>

partial_function (option) delete_rec :: "bool \<Rightarrow> xml \<Rightarrow> nat \<Rightarrow> xml option" where
  "delete_rec loop st root =
     (if loop then do {
        n \<leftarrow> nodes st root;
        if n_child n \<noteq> 0 then do {
          st \<leftarrow> delete_rec False st (n_child n);
          delete_rec True st root
        } else Some st
      } else do {
        st \<leftarrow> delete_rec True st root;
        st \<leftarrow> unlink st root;
        free_node st root
      })"

definition xml_delete_tree :: "xml \<Rightarrow> nat \<Rightarrow> xml option" where
  "xml_delete_tree st root = delete_rec False st root"

definition xml_clear_child :: "xml \<Rightarrow> nat \<Rightarrow> xml option" where
  "xml_clear_child st node = delete_rec True st node"

section \<open>Copying\<close>

text \<open>\<open>_xml_copy_tree\<close> with its loop (\<open>p\<close> is then the child the loop has reached).\<close>

partial_function (option) copy_rec :: "bool \<Rightarrow> xml \<Rightarrow> nat \<Rightarrow> nat \<Rightarrow> xml option" where
  "copy_rec loop st p parent =
     (if loop then
        if p \<noteq> 0 then do {
          st \<leftarrow> copy_rec False st p parent;
          n \<leftarrow> nodes st p;
          copy_rec True st (n_next n) parent
        } else Some st
      else do {
        n \<leftarrow> nodes st p;
        if is_text n then do {
          s \<leftarrow> n_text n;
          (st, copy) \<leftarrow> xml_new_text st s;
          xml_add_child st parent copy
        } else if is_element n then do {
          (st, copy) \<leftarrow> xml_new_element_attr st (n_prefix n) (n_name n) (n_uri n) (n_attr n);
          st \<leftarrow> copy_rec True st (n_child n) copy;
          xml_add_child st parent copy
        } else Some st
      })"

definition xml_copy_tree :: "xml \<Rightarrow> nat \<Rightarrow> (xml \<times> nat) option" where
  "xml_copy_tree st root = do {
     n \<leftarrow> nodes st root;
     if is_text n then do { s \<leftarrow> n_text n; xml_new_text st s }
     else if is_element n then do {
       (st, copy) \<leftarrow> xml_new_element_attr st (n_prefix n) (n_name n) (n_uri n) (n_attr n);
       st \<leftarrow> copy_rec True st (n_child n) copy;
       Some (st, copy)
     } else Some (st, 0)
   }"

section \<open>Text\<close>

definition xml_text_child :: "xml \<Rightarrow> nat \<Rightarrow> nat option" where
  "xml_text_child st node = do {
     n \<leftarrow> nodes st node;
     if n_child n \<noteq> 0 then do {
       t \<leftarrow> xml_is_text st (n_child n);
       Some (if t then n_child n else 0)
     } else Some 0
   }"

definition xml_set_text :: "xml \<Rightarrow> nat \<Rightarrow> string \<Rightarrow> xml option" where
  "xml_set_text st node s = do {
     t \<leftarrow> xml_is_text st node;
     if t then upd st node (n_text_update (\<lambda>_. Some s)) else Some st
   }"

section \<open>Finding elements\<close>

partial_function (option) element_count :: "bool \<Rightarrow> xml \<Rightarrow> nat \<Rightarrow> string \<Rightarrow> nat \<Rightarrow> nat option" where
  "element_count loop st p name count =
     (if loop then
        if p \<noteq> 0 then do {
          count \<leftarrow> element_count False st p name count;
          n \<leftarrow> nodes st p;
          element_count True st (n_next n) name count
        } else Some count
      else do {
        n \<leftarrow> nodes st p;
        if is_element n
        then element_count True st (n_child n) name (if n_name n = Some name then count + 1 else count)
        else Some count
      })"

definition xml_element_count :: "xml \<Rightarrow> nat \<Rightarrow> string \<Rightarrow> nat option" where
  "xml_element_count st root name = element_count False st root name 0"

text \<open>A set of nodes is the list of those found, in an array of \<open>cap\<close> pointers.\<close>

definition add_node :: "nat \<Rightarrow> nat list \<Rightarrow> nat \<Rightarrow> nat list option" where
  "add_node cap found p = (if length found < cap then Some (found @ [p]) else None)"

partial_function (option) find_element :: "bool \<Rightarrow> nat \<Rightarrow> xml \<Rightarrow> nat \<Rightarrow> string \<Rightarrow> nat list \<Rightarrow> nat list option" where
  "find_element loop cap st p name found =
     (if loop then
        if p \<noteq> 0 then do {
          found \<leftarrow> find_element False cap st p name found;
          n \<leftarrow> nodes st p;
          find_element True cap st (n_next n) name found
        } else Some found
      else do {
        n \<leftarrow> nodes st p;
        if is_element n then do {
          found \<leftarrow> (if n_name n = Some name then add_node cap found p else Some found);
          find_element True cap st (n_child n) name found
        } else Some found
      })"

definition xml_find_element :: "xml \<Rightarrow> nat \<Rightarrow> string \<Rightarrow> nat list option" where
  "xml_find_element st root name = do {
     node_count \<leftarrow> xml_element_count st root name;
     find_element False node_count st root name []
   }"

section \<open>Finding paths\<close>

text \<open>The first step \<open>/prefix:name\<close> of a path and, when there is another one, the rest from its slash on.\<close>

definition path_step :: "string \<Rightarrow> (string option \<times> string \<times> string option) option" where
  "path_step path = (case strchr path 0 CHR ''/'' of None \<Rightarrow> None
   | Some f \<Rightarrow>
     let front = f + 1; prefix_char = strchr path front CHR '':''
     in Some (case strchr path front CHR ''/'' of
          Some rear \<Rightarrow>
            (case prefix_char of
               Some p \<Rightarrow> if p < rear
                 then (Some (take (p - front) (drop front path)), take (rear - (p + 1)) (drop (p + 1) path), Some (drop rear path))
                 else (None, take (rear - front) (drop front path), Some (drop rear path))
             | None \<Rightarrow> (None, take (rear - front) (drop front path), Some (drop rear path)))
        | None \<Rightarrow>
            (case prefix_char of
               Some p \<Rightarrow> (Some (take (p - front) (drop front path)), drop (p + 1) path, None)
             | None \<Rightarrow> (None, drop front path, None))))"

definition step_matches :: "xml_node \<Rightarrow> string option \<Rightarrow> string \<Rightarrow> bool" where
  "step_matches n prefix name \<longleftrightarrow> n_prefix n = prefix \<and> n_name n = Some name"

partial_function (option) path_count :: "bool \<Rightarrow> xml \<Rightarrow> nat \<Rightarrow> string \<Rightarrow> nat \<Rightarrow> nat option" where
  "path_count loop st p path count =
     (if loop then
        if p \<noteq> 0 then do {
          count \<leftarrow> path_count False st p path count;
          n \<leftarrow> nodes st p;
          path_count True st (n_next n) path count
        } else Some count
      else do {
        n \<leftarrow> nodes st p;
        if is_element n then
          (case path_step path of None \<Rightarrow> Some count
           | Some (prefix, name, rear) \<Rightarrow>
             if step_matches n prefix name then
               (case rear of Some rest \<Rightarrow> path_count True st (n_child n) rest count
                | None \<Rightarrow> Some (count + 1))
             else Some count)
        else Some count
      })"

definition xml_path_count :: "xml \<Rightarrow> nat \<Rightarrow> string \<Rightarrow> nat option" where
  "xml_path_count st root path = path_count False st root path 0"

partial_function (option) find_path :: "bool \<Rightarrow> nat \<Rightarrow> xml \<Rightarrow> nat \<Rightarrow> string \<Rightarrow> nat list \<Rightarrow> nat list option" where
  "find_path loop cap st p path found =
     (if loop then
        if p \<noteq> 0 then do {
          found \<leftarrow> find_path False cap st p path found;
          n \<leftarrow> nodes st p;
          find_path True cap st (n_next n) path found
        } else Some found
      else do {
        n \<leftarrow> nodes st p;
        if is_element n then
          (case path_step path of None \<Rightarrow> Some found
           | Some (prefix, name, rear) \<Rightarrow>
             if step_matches n prefix name then
               (case rear of Some rest \<Rightarrow> find_path True cap st (n_child n) rest found
                | None \<Rightarrow> add_node cap found p)
             else Some found)
        else Some found
      })"

definition xml_find_path :: "xml \<Rightarrow> nat \<Rightarrow> string \<Rightarrow> nat list option" where
  "xml_find_path st root path = do {
     node_count \<leftarrow> xml_path_count st root path;
     find_path False node_count st root path []
   }"

section \<open>Writing a tree\<close>

definition opt_len :: "string option \<Rightarrow> int" where
  "opt_len s = (case s of None \<Rightarrow> 0 | Some s \<Rightarrow> int (length s))"

definition start_size :: "xml_node \<Rightarrow> int" where
  "start_size n =
     (if n_prefix n \<noteq> None \<and> n_attr n \<noteq> None then opt_len (n_prefix n) + opt_len (n_name n) + opt_len (n_attr n) + 4
      else if n_prefix n \<noteq> None then opt_len (n_prefix n) + opt_len (n_name n) + 3
      else if n_attr n \<noteq> None then opt_len (n_name n) + opt_len (n_attr n) + 3
      else opt_len (n_name n) + 2)"

definition end_size :: "xml_node \<Rightarrow> int" where
  "end_size n = (if n_prefix n \<noteq> None then opt_len (n_prefix n) + opt_len (n_name n) + 4 else opt_len (n_name n) + 3)"

definition next_level :: "int \<Rightarrow> int" where
  "next_level level = (if level \<noteq> 0 then level + 1 else 0)"

text \<open>\<open>xml_tree_size\<close>; the loop carries the size and whether the last child was an element.\<close>

partial_function (option) tree_size ::
    "bool \<Rightarrow> xml \<Rightarrow> nat \<Rightarrow> int \<Rightarrow> int \<Rightarrow> int \<times> bool \<Rightarrow> (int \<times> bool) option" where
  "tree_size loop st p level space acc =
     (if loop then
        if p \<noteq> 0 then do {
          n \<leftarrow> nodes st p;
          let is_element_child = is_element n;
          let size' = fst acc + (if is_element_child \<and> level \<noteq> 0 then 1 + level * space else 0);
          r \<leftarrow> tree_size False st p (next_level level) space (0, False);
          tree_size True st (n_next n) level space (size' + fst r, is_element_child)
        } else Some acc
      else do {
        n \<leftarrow> nodes st p;
        if is_text n then Some (opt_len (n_text n), False)
        else if is_element n then do {
          (size', is_element_child) \<leftarrow> tree_size True st (n_child n) level space (start_size n, False);
          let size' = size' + (if is_element_child \<and> level \<noteq> 0 then 1 + (level - 1) * space else 0);
          Some (size' + end_size n, False)
        } else Some (0, False)
      })"

definition xml_tree_size :: "xml \<Rightarrow> nat \<Rightarrow> int \<Rightarrow> int \<Rightarrow> int option" where
  "xml_tree_size st root level space = map_option fst (tree_size False st root level space (0, False))"

text \<open>\<open>strcat\<close> into a buffer of \<open>cap\<close> bytes.\<close>

definition strcat :: "nat \<Rightarrow> string \<Rightarrow> string \<Rightarrow> string option" where
  "strcat cap buf s = (if length buf + length s < cap then Some (buf @ s) else None)"

fun strcats :: "nat \<Rightarrow> string \<Rightarrow> string list \<Rightarrow> string option" where
  "strcats cap buf [] = Some buf"
| "strcats cap buf (s # ss) = do { buf \<leftarrow> strcat cap buf s; strcats cap buf ss }"

text \<open>The line break and \<open>n\<close> times \<open>space\<close> blanks; \<open>space_buf\<close> has 11 bytes.\<close>

definition indent :: "nat \<Rightarrow> string \<Rightarrow> nat \<Rightarrow> int \<Rightarrow> string option" where
  "indent cap buf n space = do {
     buf \<leftarrow> strcat cap buf [CHR 0x0A];
     if 0 \<le> space \<and> space \<le> 10
     then strcats cap buf (replicate n (replicate (nat space) CHR '' ''))
     else None
   }"

definition opt_str :: "string option \<Rightarrow> string" where
  "opt_str s = (case s of None \<Rightarrow> '''' | Some s \<Rightarrow> s)"

definition start_tag :: "xml_node \<Rightarrow> string list" where
  "start_tag n =
     (if n_prefix n \<noteq> None \<and> n_attr n \<noteq> None
      then [''<'', opt_str (n_prefix n), '':'', opt_str (n_name n), '' '', opt_str (n_attr n), ''>'']
      else if n_prefix n \<noteq> None then [''<'', opt_str (n_prefix n), '':'', opt_str (n_name n), ''>'']
      else if n_attr n \<noteq> None then [''<'', opt_str (n_name n), '' '', opt_str (n_attr n), ''>'']
      else [''<'', opt_str (n_name n), ''>''])"

definition end_tag :: "xml_node \<Rightarrow> string list" where
  "end_tag n = (if n_prefix n \<noteq> None then [''</'', opt_str (n_prefix n), '':'', opt_str (n_name n), ''>'']
     else [''</'', opt_str (n_name n), ''>''])"

partial_function (option) dump_rec ::
    "bool \<Rightarrow> nat \<Rightarrow> xml \<Rightarrow> nat \<Rightarrow> int \<Rightarrow> int \<Rightarrow> string \<times> bool \<Rightarrow> (string \<times> bool) option" where
  "dump_rec loop cap st p level space acc =
     (if loop then
        if p \<noteq> 0 then do {
          n \<leftarrow> nodes st p;
          let is_element_child = is_element n;
          buf \<leftarrow> (if is_element_child \<and> level \<noteq> 0 then indent cap (fst acc) (nat level) space else Some (fst acc));
          r \<leftarrow> dump_rec False cap st p (next_level level) space (buf, False);
          dump_rec True cap st (n_next n) level space (fst r, is_element_child)
        } else Some acc
      else do {
        n \<leftarrow> nodes st p;
        if is_text n then map_option (\<lambda>b. (b, False)) (strcat cap (fst acc) (opt_str (n_text n)))
        else if is_element n then do {
          buf \<leftarrow> strcats cap (fst acc) (start_tag n);
          (buf, is_element_child) \<leftarrow> dump_rec True cap st (n_child n) level space (buf, False);
          buf \<leftarrow> (if is_element_child \<and> level \<noteq> 0 then indent cap buf (nat (level - 1)) space else Some buf);
          map_option (\<lambda>b. (b, False)) (strcats cap buf (end_tag n))
        } else Some (fst acc, False)
      })"

definition xml_dump_tree :: "xml \<Rightarrow> nat \<Rightarrow> string option" where
  "xml_dump_tree st root = do {
     xml_size \<leftarrow> xml_tree_size st root 0 0;
     map_option fst (dump_rec False (nat (xml_size + 1)) st root 0 0 ('''', False))
   }"

definition xml_dump_tree_ex :: "xml \<Rightarrow> nat \<Rightarrow> string option \<Rightarrow> int \<Rightarrow> int \<Rightarrow> string option" where
  "xml_dump_tree_ex st root prolog new_line space = do {
     let space = (if space > 10 then 10 else space);
     xml_size \<leftarrow> xml_tree_size st root 1 space;
     (case prolog of
        Some pl \<Rightarrow>
          if new_line \<noteq> 0 then do {
            let cap = nat (int (length pl) + xml_size + 2);
            buf \<leftarrow> strcat cap '''' (pl @ [CHR 0x0A]);
            map_option fst (dump_rec False cap st root new_line space (buf, False))
          } else do {
            let cap = nat (int (length pl) + xml_size + 1);
            buf \<leftarrow> strcat cap '''' pl;
            map_option fst (dump_rec False cap st root new_line space (buf, False))
          }
      | None \<Rightarrow> map_option fst (dump_rec False (nat (xml_size + 1)) st root new_line space ('''', False)))
   }"

section \<open>Attributes\<close>

text \<open>Where \<open> attr=q\<close> stands in the attribute string: a position behind another attribute (the first one), or
  the start of the string; with the index of the value.\<close>

definition attr_at :: "string \<Rightarrow> string \<Rightarrow> (nat option \<times> nat) option" where
  "attr_at a pat = (case xml_strstr a 0 pat of
       Some attr_pos \<Rightarrow> Some (Some attr_pos, attr_pos + length pat)
     | None \<Rightarrow> if xml_strstr a 0 (tl pat) = Some 0 then Some (None, length pat - 1) else None)"

definition xml_get_attribute :: "xml \<Rightarrow> nat \<Rightarrow> string \<Rightarrow> string option option" where
  "xml_get_attribute st node attr = do {
     n \<leftarrow> nodes st node;
     (case n_attr n of None \<Rightarrow> Some None
      | Some a \<Rightarrow>
        (case attr_at a ('' '' @ attr @ [CHR ''='', CHR 0x27]) of
           Some (_, value_front) \<Rightarrow> do {
             value_rear \<leftarrow> strchr a value_front CHR 0x27;
             Some (Some (take (value_rear - value_front) (drop value_front a)))
           }
         | None \<Rightarrow>
           (case attr_at a ('' '' @ attr @ [CHR ''='', CHR 0x22]) of
              Some (_, value_front) \<Rightarrow> do {
                value_rear \<leftarrow> strchr a value_front CHR 0x22;
                Some (Some (take (value_rear - value_front) (drop value_front a)))
              }
            | None \<Rightarrow> Some None)))
   }"

text \<open>The attribute string around an attribute that is replaced.\<close>

definition attr_around :: "string \<Rightarrow> nat option \<Rightarrow> nat \<Rightarrow> char \<Rightarrow> (string option \<times> string option) option" where
  "attr_around a attr_pos value_front q = do {
     rear \<leftarrow> map_option Suc (strchr a value_front q);
     Some (case attr_pos of Some p \<Rightarrow> str_strip a 0 p | None \<Rightarrow> None, str_strip a rear (length a - rear))
   }"

definition replace_attr :: "string \<Rightarrow> string \<Rightarrow> string \<Rightarrow> string option" where
  "replace_attr a attr new_attr = do {
     (attr_existed, attr_p1, attr_p2) \<leftarrow>
       (case attr_at a ('' '' @ attr @ [CHR ''='', CHR 0x27]) of
          Some (attr_pos, front) \<Rightarrow> map_option (Pair True) (attr_around a attr_pos front CHR 0x27)
        | None \<Rightarrow>
          (case attr_at a ('' '' @ attr @ [CHR ''='', CHR 0x22]) of
             Some (attr_pos, front) \<Rightarrow> map_option (Pair True) (attr_around a attr_pos front CHR 0x22)
           | None \<Rightarrow> Some (False, None, None)));
     Some (case (attr_p1, attr_p2) of
         (Some p1, Some p2) \<Rightarrow> p1 @ '' '' @ new_attr @ '' '' @ p2
       | (Some p1, None) \<Rightarrow> p1 @ '' '' @ new_attr
       | (None, Some p2) \<Rightarrow> new_attr @ '' '' @ p2
       | (None, None) \<Rightarrow> if attr_existed then new_attr else a @ '' '' @ new_attr)
   }"

definition new_attr_text :: "string \<Rightarrow> string \<Rightarrow> string" where
  "new_attr_text attr val = (if strchr val 0 CHR 0x22 \<noteq> None
     then attr @ [CHR ''='', CHR 0x27] @ val @ [CHR 0x27]
     else attr @ [CHR ''='', CHR 0x22] @ val @ [CHR 0x22])"

definition xml_set_attribute :: "xml \<Rightarrow> nat \<Rightarrow> string \<Rightarrow> string \<Rightarrow> xml option" where
  "xml_set_attribute st node attr val = do {
     n \<leftarrow> nodes st node;
     let ns_tag = (case n_prefix n of Some p \<Rightarrow> ''xmlns:'' @ p | None \<Rightarrow> ''xmlns'');
     st \<leftarrow> (if ns_tag = attr then upd st node (n_uri_update (\<lambda>_. Some val)) else Some st);
     let new_attr = new_attr_text attr val;
     (case n_attr n of
        Some a \<Rightarrow> do { all_attr \<leftarrow> replace_attr a attr new_attr; upd st node (n_attr_update (\<lambda>_. Some all_attr)) }
      | None \<Rightarrow> upd st node (n_attr_update (\<lambda>_. Some new_attr)))
   }"

end
