(* ===== verification/XmlTree.thy ===== *)
theory XmlTree
  imports Xml
begin

text \<open>
  The contract of the node operations of \<open>xml.c\<close>: a linked node represents a tree (\<open>rep\<close>), and every
  operation is the plain operation on the tree. The nodes carry their addresses, so that what an
  operation frees, allocates and leaves alone is part of the statement.
\<close>

datatype xtree =
    XText nat string
  | XElem nat "string option" string "string option" "string option" "xtree list"

fun addr :: "xtree \<Rightarrow> nat" where
  "addr (XText a s) = a"
| "addr (XElem a pf nm ur at ks) = a"

fun addrs :: "xtree \<Rightarrow> nat list" where
  "addrs (XText a s) = [a]"
| "addrs (XElem a pf nm ur at ks) = a # concat (map addrs ks)"

definition first :: "xtree list \<Rightarrow> nat" where
  "first ks = (case ks of [] \<Rightarrow> 0 | k # _ \<Rightarrow> addr k)"

lemma first_simps [simp]: "first [] = 0" "first (k # ks) = addr k"
  by (simp_all add: first_def)

text \<open>The node of a tree, given its links.\<close>

fun node_of :: "nat \<Rightarrow> nat \<Rightarrow> nat \<Rightarrow> xtree \<Rightarrow> xml_node" where
  "node_of par prv nxt (XText a s) = \<lparr>n_name = None, n_text = Some s, n_prefix = None, n_uri = None,
     n_attr = None, n_parent = par, n_child = 0, n_prev = prv, n_next = nxt\<rparr>"
| "node_of par prv nxt (XElem a pf nm ur at ks) = \<lparr>n_name = Some nm, n_text = None, n_prefix = pf, n_uri = ur,
     n_attr = at, n_parent = par, n_child = first ks, n_prev = prv, n_next = nxt\<rparr>"

fun kids :: "xtree \<Rightarrow> xtree list" where
  "kids (XText a s) = []"
| "kids (XElem a pf nm ur at ks) = ks"

fun rep :: "xml \<Rightarrow> nat \<Rightarrow> nat \<Rightarrow> nat \<Rightarrow> xtree \<Rightarrow> bool"
  and reps :: "xml \<Rightarrow> nat \<Rightarrow> nat \<Rightarrow> xtree list \<Rightarrow> bool" where
  "rep st par prv nxt (XText a s) \<longleftrightarrow> a \<noteq> 0 \<and> nodes st a = Some (node_of par prv nxt (XText a s))"
| "rep st par prv nxt (XElem a pf nm ur at ks) \<longleftrightarrow>
     a \<noteq> 0 \<and> nodes st a = Some (node_of par prv nxt (XElem a pf nm ur at ks)) \<and> reps st a 0 ks"
| "reps st par prv [] \<longleftrightarrow> True"
| "reps st par prv (k # ks) \<longleftrightarrow> rep st par prv (first ks) k \<and> reps st par (addr k) ks"

text \<open>A well-formed store: addresses below \<open>brk\<close> only, 0 unused.\<close>

definition store_ok :: "xml \<Rightarrow> bool" where
  "store_ok st \<longleftrightarrow> 0 < brk st \<and> nodes st 0 = None \<and> (\<forall>p. nodes st p \<noteq> None \<longrightarrow> p < brk st)"

text \<open>The tree \<open>t\<close> with its root linked to nothing.\<close>

definition tree_at :: "xml \<Rightarrow> xtree \<Rightarrow> bool" where
  "tree_at st t \<longleftrightarrow> rep st 0 0 0 t \<and> distinct (addrs t)"

lemma rep_node: "rep st par prv nxt t \<Longrightarrow> nodes st (addr t) = Some (node_of par prv nxt t) \<and> addr t \<noteq> 0"
  by (cases t) auto

lemma rep_iff:
  "rep st par prv nxt t \<longleftrightarrow> addr t \<noteq> 0 \<and> nodes st (addr t) = Some (node_of par prv nxt t) \<and> reps st (addr t) 0 (kids t)"
  by (cases t) auto

lemma addr_in [simp]: "addr t \<in> set (addrs t)"
  by (cases t) auto

lemma addrs_kids: "addrs t = addr t # concat (map addrs (kids t))"
  by (cases t) auto

lemma rep_cong:
  "(\<And>a. a \<in> set (addrs t) \<Longrightarrow> nodes st' a = nodes st a) \<Longrightarrow> rep st' par prv nxt t = rep st par prv nxt t"
  "(\<And>a. a \<in> set (concat (map addrs ks)) \<Longrightarrow> nodes st' a = nodes st a) \<Longrightarrow> reps st' par prv ks = reps st par prv ks"
proof (induction st par prv nxt t and st par prv ks rule: rep_reps.induct)
  case (2 st par prv nxt a pf nm ur at ks)
  then show ?case by simp
next
  case (4 st par prv k ks)
  then show ?case by simp
qed simp_all


text \<open>A list of siblings whose last one is followed by \<open>nxt\<close>.\<close>

fun seg :: "xml \<Rightarrow> nat \<Rightarrow> nat \<Rightarrow> nat \<Rightarrow> xtree list \<Rightarrow> bool" where
  "seg st par prv nxt [] \<longleftrightarrow> True"
| "seg st par prv nxt (k # ks) \<longleftrightarrow> rep st par prv (if ks = [] then nxt else first ks) k \<and> seg st par (addr k) nxt ks"

lemma reps_seg: "reps st par prv ks \<longleftrightarrow> seg st par prv 0 ks"
  by (induction ks arbitrary: prv) (auto simp: first_def split: list.splits)

lemma seg_append:
  "seg st par prv nxt (ks @ ls) \<longleftrightarrow> seg st par prv (if ls = [] then nxt else first ls) ks
     \<and> seg st par (if ks = [] then prv else addr (last ks)) nxt ls"
  by (induction ks arbitrary: prv) (auto simp: first_def split: list.splits)

section \<open>Adding a child\<close>

lemma upd_Some: "nodes st p = Some n \<Longrightarrow> upd st p f = Some (st\<lparr>nodes := (nodes st)(p \<mapsto> f n)\<rparr>)"
  by (simp add: upd_def)

lemma last_child_seg:
  "seg st par prv 0 (k # ks) \<Longrightarrow> last_child st (addr k) = Some (addr (last (k # ks)))"
proof (induction ks arbitrary: k prv)
  case Nil
  then have n: "nodes st (addr k) = Some (node_of par prv 0 k)" using rep_node by auto
  have "n_next (node_of par prv 0 k) = 0" by (cases k) simp_all
  with n show ?case by (subst last_child.simps) simp
next
  case (Cons k' ks)
  then have n: "nodes st (addr k) = Some (node_of par prv (addr k') k)" and s: "seg st par (addr k) 0 (k' # ks)"
    using rep_node by auto
  have "addr k' \<noteq> 0" using s rep_node by auto
  moreover have "n_next (node_of par prv (addr k') k) = addr k'" by (cases k) simp_all
  ultimately show ?case using n Cons.IH [OF s] by (subst last_child.simps) simp
qed

lemma rep_relink:
  assumes "rep st par prv nxt t" "distinct (addrs t)"
    "nodes st' (addr t) = Some (node_of par' prv' nxt' t)"
    "\<And>x. x \<in> set (addrs t) \<Longrightarrow> x \<noteq> addr t \<Longrightarrow> nodes st' x = nodes st x"
  shows "rep st' par' prv' nxt' t"
proof -
  have "reps st' (addr t) 0 (kids t) = reps st (addr t) 0 (kids t)"
  proof (rule rep_cong(2))
    fix x assume x: "x \<in> set (concat (map addrs (kids t)))"
    then have "x \<noteq> addr t" "x \<in> set (addrs t)" using assms(2) unfolding addrs_kids [of t] by auto
    then show "nodes st' x = nodes st x" by (rule assms(4) [rotated])
  qed
  then show ?thesis using assms(1,3) by (simp add: rep_iff)
qed

lemma seg_cong:
  "(\<And>a. a \<in> set (concat (map addrs ks)) \<Longrightarrow> nodes st' a = nodes st a) \<Longrightarrow> seg st' par prv nxt ks = seg st par prv nxt ks"
proof (induction ks arbitrary: prv)
  case (Cons k ks)
  then have "rep st' par prv (if ks = [] then nxt else first ks) k = rep st par prv (if ks = [] then nxt else first ks) k"
    by (intro rep_cong(1)) simp
  then show ?case using Cons by simp
qed simp

lemma rep_parts: "rep st par prv nxt (XElem a pf nm ur at ks) \<longleftrightarrow>
  a \<noteq> 0 \<and> nodes st a = Some (node_of par prv nxt (XElem a pf nm ur at ks)) \<and> seg st a 0 0 ks"
  by (simp add: reps_seg)

text \<open>Siblings whose last node gets another successor, or whose first one another predecessor.\<close>

lemma seg_relast:
  assumes s: "seg st par prv nxt ks" and d: "distinct (concat (map addrs ks))"
    and l: "ks \<noteq> [] \<Longrightarrow> nodes st' (addr (last ks)) = map_option (n_next_update (\<lambda>_. nxt')) (nodes st (addr (last ks)))"
    and o: "\<And>x. x \<in> set (concat (map addrs ks)) \<Longrightarrow> x \<noteq> addr (last ks) \<Longrightarrow> nodes st' x = nodes st x"
  shows "seg st' par prv nxt' ks"
proof (cases ks rule: rev_cases)
  case (snoc js k)
  have d': "distinct (addrs k)" "set (concat (map addrs js)) \<inter> set (addrs k) = {}"
    using d by (auto simp: snoc)
  have k: "rep st par (if js = [] then prv else addr (last js)) nxt k" and j: "seg st par prv (addr k) js"
    using s by (simp_all add: snoc seg_append)
  have "seg st' par prv (addr k) js = seg st par prv (addr k) js"
  proof (rule seg_cong)
    fix x assume x: "x \<in> set (concat (map addrs js))"
    then have "x \<noteq> addr k" using d'(2) addr_in [of k] by blast
    then show "nodes st' x = nodes st x" using o [of x] x by (simp add: snoc)
  qed
  moreover have "rep st' par (if js = [] then prv else addr (last js)) nxt' k"
  proof (rule rep_relink [OF k d'(1)])
    show "nodes st' (addr k) = Some (node_of par (if js = [] then prv else addr (last js)) nxt' k)"
      using l rep_node [OF k] by (cases k) (auto simp: snoc)
  qed (use o snoc in auto)
  ultimately show ?thesis using j by (simp add: snoc seg_append)
qed simp

lemma seg_refirst:
  assumes s: "seg st par prv nxt ks" and d: "distinct (concat (map addrs ks))"
    and f: "ks \<noteq> [] \<Longrightarrow> nodes st' (first ks) = map_option (n_prev_update (\<lambda>_. prv')) (nodes st (first ks))"
    and o: "\<And>x. x \<in> set (concat (map addrs ks)) \<Longrightarrow> x \<noteq> first ks \<Longrightarrow> nodes st' x = nodes st x"
  shows "seg st' par prv' nxt ks"
proof (cases ks)
  case (Cons k js)
  have k: "rep st par prv (if js = [] then nxt else first js) k" "seg st par (addr k) nxt js"
    using s unfolding Cons seg.simps by blast+
  have d': "distinct (addrs k)" "set (addrs k) \<inter> set (concat (map addrs js)) = {}" using d by (auto simp: Cons)
  have "rep st' par prv' (if js = [] then nxt else first js) k"
  proof (rule rep_relink [OF k(1) d'(1)])
    show "nodes st' (addr k) = Some (node_of par prv' (if js = [] then nxt else first js) k)"
      using f rep_node [OF k(1)] by (cases k) (auto simp: Cons)
  qed (use o Cons in auto)
  moreover have "seg st' par (addr k) nxt js = seg st par (addr k) nxt js"
  proof (rule seg_cong)
    fix x assume x: "x \<in> set (concat (map addrs js))"
    then have "x \<noteq> addr k" using d'(2) addr_in [of k] by blast
    then show "nodes st' x = nodes st x" using o [of x] x by (simp add: Cons)
  qed
  ultimately show ?thesis using k(2) unfolding Cons seg.simps by blast
qed simp

lemma seg_ends:
  "seg st par prv nxt ks \<Longrightarrow> ks \<noteq> [] \<Longrightarrow> nodes st (first ks) \<noteq> None \<and> first ks \<noteq> 0
     \<and> nodes st (addr (last ks)) \<noteq> None \<and> addr (last ks) \<noteq> 0"
proof (induction ks arbitrary: prv)
  case (Cons k ks)
  have k: "rep st par prv (if ks = [] then nxt else first ks) k" "seg st par (addr k) nxt ks"
    using Cons.prems(1) unfolding seg.simps by blast+
  show ?case using rep_node [OF k(1)] Cons.IH [OF k(2)] by auto
qed simp

lemma ends_in: "ks \<noteq> [] \<Longrightarrow> first ks \<in> set (concat (map addrs ks)) \<and> addr (last ks) \<in> set (concat (map addrs ks))"
  by (cases ks) (auto intro!: bexI [of _ "last ks"])

lemma add_child_rep:
  assumes r: "rep st par prv nxt (XElem a pf nm ur at ks)" and c: "rep st 0 0 0 c"
    and d: "distinct (addrs (XElem a pf nm ur at (ks @ [c])))"
  shows "\<exists>st'. xml_add_child st a (addr c) = Some st' \<and> rep st' par prv nxt (XElem a pf nm ur at (ks @ [c]))
    \<and> (\<forall>x. x \<notin> set (addrs (XElem a pf nm ur at (ks @ [c]))) \<longrightarrow> nodes st' x = nodes st x) \<and> brk st' = brk st"
proof -
  let ?l = "addr (last ks)"
  have a: "a \<noteq> 0" "nodes st a = Some (node_of par prv nxt (XElem a pf nm ur at ks))" "seg st a 0 0 ks"
    using r unfolding rep_parts by simp_all
  have cn: "nodes st (addr c) = Some (node_of 0 0 0 c)" "addr c \<noteq> 0" using rep_node [OF c] by auto
  have ne: "addr c \<noteq> a" "ks \<noteq> [] \<Longrightarrow> ?l \<noteq> a" "ks \<noteq> [] \<Longrightarrow> ?l \<noteq> addr c" "ks \<noteq> [] \<Longrightarrow> ?l \<in> set (concat (map addrs ks))"
  proof -
    show "ks \<noteq> [] \<Longrightarrow> ?l \<in> set (concat (map addrs ks))" by (auto intro!: bexI [of _ "last ks"])
    then show "ks \<noteq> [] \<Longrightarrow> ?l \<noteq> a" "ks \<noteq> [] \<Longrightarrow> ?l \<noteq> addr c" "addr c \<noteq> a" using d addr_in [of c] by auto
  qed
  have in_c: "x \<noteq> a" "x \<noteq> ?l \<or> ks = []" if "x \<in> set (addrs c)" for x using d ne that by auto
  define P where "P = (if ks = [] then 0 else ?l)"
  define m where "m = (if ks = [] then (nodes st)(a \<mapsto> (node_of par prv nxt (XElem a pf nm ur at [c])))
     else (nodes st)(?l := map_option (n_next_update (\<lambda>_. addr c)) (nodes st ?l)))"
  define st' where "st' = st\<lparr>nodes := m(addr c \<mapsto> node_of a P 0 c)\<rparr>"
  have e: "xml_add_child st a (addr c) = Some st'"
  proof (cases ks)
    case Nil
    then show ?thesis using a cn ne unfolding xml_add_child_def st'_def m_def P_def
      by (cases c) (auto simp: is_element_def upd_def fun_upd_def cong: if_cong)
  next
    case (Cons k ks')
    then have "rep st a 0 (if ks' = [] then 0 else first ks') k"
      using a(3) unfolding Cons seg.simps by blast
    from rep_node [OF this] Cons have f: "first ks \<noteq> 0" "first ks = addr k" by simp_all
    have lc: "last_child st (addr k) = Some ?l" using last_child_seg [of st a 0 k ks'] a(3) unfolding Cons by blast
    obtain nl where nl: "nodes st ?l = Some nl"
      using seg_ends [OF a(3)] Cons by blast
    show ?thesis using a cn ne lc f nl Cons unfolding xml_add_child_def st'_def m_def P_def
      by (cases c) (auto simp: is_element_def upd_def fun_upd_def cong: if_cong)
  qed
  have o: "nodes st' x = nodes st x" if "x \<noteq> addr c" "ks = [] \<Longrightarrow> x \<noteq> a" "ks \<noteq> [] \<Longrightarrow> x \<noteq> ?l" for x
    using that by (auto simp: st'_def m_def)
  have "rep st' a P 0 c"
  proof (rule rep_relink [OF c])
    show "distinct (addrs c)" using d by simp
    show "nodes st' (addr c) = Some (node_of a P 0 c)" by (simp add: st'_def)
    show "nodes st' x = nodes st x" if "x \<in> set (addrs c)" "x \<noteq> addr c" for x
      using that(2) in_c [OF that(1)] by (intro o) auto
  qed
  moreover have "seg st' a 0 (addr c) ks"
  proof (rule seg_relast [OF a(3)])
    show "distinct (concat (map addrs ks))" using d by simp
    show "nodes st' ?l = map_option (n_next_update (\<lambda>_. addr c)) (nodes st ?l)" if "ks \<noteq> []"
      using that ne(3) by (simp add: st'_def m_def)
    fix x assume x: "x \<in> set (concat (map addrs ks))" "x \<noteq> ?l"
    have "ks \<noteq> []" using x(1) by auto
    moreover have "x \<noteq> addr c" using x(1) d addr_in [of c] by auto
    ultimately show "nodes st' x = nodes st x" using x(2) o by blast
  qed
  ultimately have "seg st' a 0 0 (ks @ [c])" by (simp add: P_def seg_append)
  moreover have "nodes st' a = Some (node_of par prv nxt (XElem a pf nm ur at (ks @ [c])))"
    using ne a(2) by (auto simp: st'_def m_def first_def split: list.splits)
  ultimately have "rep st' par prv nxt (XElem a pf nm ur at (ks @ [c]))" using a(1) unfolding rep_parts by blast
  moreover have "nodes st' x = nodes st x" if "x \<notin> set (addrs (XElem a pf nm ur at (ks @ [c])))" for x
    using that ne(4) addr_in [of c] by (intro o) auto
  ultimately show ?thesis using e by (auto simp: st'_def)
qed

section \<open>Deleting\<close>

text \<open>The store without the nodes \<open>A\<close>.\<close>

definition drop_nodes :: "nat set \<Rightarrow> xml \<Rightarrow> xml" where
  "drop_nodes A st = st\<lparr>nodes := \<lambda>x. if x \<in> A then None else nodes st x\<rparr>"

lemma drop_nodes_upd: "drop_nodes A (st\<lparr>nodes := f\<rparr>) = st\<lparr>nodes := \<lambda>x. if x \<in> A then None else f x\<rparr>"
  by (simp add: drop_nodes_def cong: if_cong)

abbreviation "kid_addrs ks \<equiv> set (concat (map addrs ks))"

text \<open>The state after the first child \<open>k\<close> of \<open>a\<close> (node \<open>n\<close>) is deleted, with the siblings \<open>ks\<close> left.\<close>

definition drop_first :: "nat \<Rightarrow> xml_node \<Rightarrow> xtree \<Rightarrow> xtree list \<Rightarrow> xml \<Rightarrow> xml" where
  "drop_first a n k ks st = drop_nodes (set (addrs k)) (st\<lparr>nodes :=
     (\<lambda>x. if x = a then Some (n\<lparr>n_child := first ks\<rparr>)
          else if ks \<noteq> [] \<and> x = first ks then map_option (n_prev_update (\<lambda>_. 0)) (nodes st x)
          else nodes st x)\<rparr>)"

lemma delete_first:
  assumes d: "delete_rec True st (addr k) = Some (drop_nodes (set (tl (addrs k)))
      (st\<lparr>nodes := (nodes st)(addr k \<mapsto> (node_of a 0 (first ks) k)\<lparr>n_child := 0\<rparr>)\<rparr>))"
    and n: "nodes st a = Some n" and a: "a \<noteq> 0" "a \<notin> set (addrs k)" "a \<notin> kid_addrs ks"
    and s: "seg st a 0 0 (k # ks)" and ds: "distinct (concat (map addrs (k # ks)))"
  shows "delete_rec False st (addr k) = Some (drop_first a n k ks st)"
proof -
  let ?n = "(node_of a 0 (first ks) k)\<lparr>n_child := 0\<rparr>"
  let ?st1 = "drop_nodes (set (tl (addrs k))) (st\<lparr>nodes := (nodes st)(addr k \<mapsto> ?n)\<rparr>)"
  have l: "n_prev ?n = 0" "n_parent ?n = a" "n_next ?n = first ks" by (cases k; simp)+
  have t: "addr k \<notin> set (tl (addrs k))" "set (addrs k) = insert (addr k) (set (tl (addrs k)))"
    using ds by (simp_all add: addrs_kids [of k])
  have k: "nodes ?st1 (addr k) = Some ?n" using t by (simp add: drop_nodes_def)
  have na: "nodes ?st1 a = Some n" "addr k \<noteq> a" using n a t by (auto simp: drop_nodes_def)
  have f: "first ks \<noteq> 0" "nodes ?st1 (first ks) = nodes st (first ks)" "nodes st (first ks) \<noteq> None"
      "first ks \<noteq> a" "first ks \<notin> set (addrs k)" if ne: "ks \<noteq> []"
  proof -
    obtain k' ks' where e: "ks = k' # ks'" using ne by (cases ks) auto
    have "rep st a (addr k) (if ks' = [] then 0 else first ks') k'" using s unfolding e seg.simps by blast
    then show "first ks \<noteq> 0" "nodes st (first ks) \<noteq> None" using rep_node e by auto
    show "first ks \<notin> set (addrs k)" using ds e addr_in [of k'] by auto
    then show "nodes ?st1 (first ks) = nodes st (first ks)" using t by (auto simp: drop_nodes_def)
    show "first ks \<noteq> a" using a(3) e addr_in [of k'] by auto
  qed
  have u: "unlink ?st1 (addr k) = Some (?st1\<lparr>nodes :=
     (\<lambda>x. if x = a then Some (n\<lparr>n_child := first ks\<rparr>)
          else if ks \<noteq> [] \<and> x = first ks then map_option (n_prev_update (\<lambda>_. 0)) (nodes st x)
          else nodes ?st1 x)\<rparr>)"
  proof (cases "ks = []")
    case True
    then show ?thesis using l a na unfolding unlink_def k Option.bind.bind_lunit by (simp add: upd_def fun_upd_def cong: if_cong)
  next
    case False
    then obtain m where m: "nodes st (first ks) = Some m" using f by auto
    show ?thesis using False l a na f [OF False] m unfolding unlink_def k Option.bind.bind_lunit
      by (simp add: upd_def fun_upd_def fun_eq_iff)
  qed
  have "delete_rec False st (addr k) = free_node (?st1\<lparr>nodes :=
     (\<lambda>x. if x = a then Some (n\<lparr>n_child := first ks\<rparr>)
          else if ks \<noteq> [] \<and> x = first ks then map_option (n_prev_update (\<lambda>_. 0)) (nodes st x)
          else nodes ?st1 x)\<rparr>) (addr k)"
    by (subst delete_rec.simps) (simp add: d u)
  also have "\<dots> = Some (drop_first a n k ks st)"
  proof -
    have "\<not> (ks \<noteq> [] \<and> addr k = first ks)" using f(5) addr_in [of k] by metis
    then show ?thesis using na(2) k t a(2) f(5)
      by (auto simp: free_node_def drop_first_def drop_nodes_def fun_eq_iff)
  qed
  finally show ?thesis .
qed

lemma delete_children:
  assumes IH: "\<And>k st par prv nxt. k \<in> set ks \<Longrightarrow> rep st par prv nxt k \<Longrightarrow> distinct (addrs k) \<Longrightarrow>
      delete_rec True st (addr k) = Some (drop_nodes (set (tl (addrs k)))
        (st\<lparr>nodes := (nodes st)(addr k \<mapsto> (node_of par prv nxt k)\<lparr>n_child := 0\<rparr>)\<rparr>))"
    and s: "seg st a 0 0 ks" and n: "nodes st a = Some n" "n_child n = first ks" "a \<noteq> 0"
    and d: "distinct (a # concat (map addrs ks))"
  shows "delete_rec True st a = Some (drop_nodes (kid_addrs ks) (st\<lparr>nodes := (nodes st)(a \<mapsto> n\<lparr>n_child := 0\<rparr>)\<rparr>))"
  using IH s n d
proof (induction ks arbitrary: st n)
  case Nil
  have "st\<lparr>nodes := (nodes st)(a \<mapsto> n\<lparr>n_child := 0\<rparr>)\<rparr> = st" using Nil(3,4) by (simp add: fun_upd_idem)
  then show ?case using Nil by (subst delete_rec.simps) (simp add: drop_nodes_def)
next
  case (Cons k ks)
  let ?st = "drop_first a n k ks st"
  have r: "rep st a 0 (first ks) k"
  proof -
    have "rep st a 0 (if ks = [] then 0 else first ks) k" using Cons.prems(2) unfolding seg.simps by blast
    then show ?thesis by (cases ks) simp_all
  qed
  have nz: "addr k \<noteq> 0" using rep_node [OF r] by simp
  have a: "a \<notin> set (addrs k)" "a \<notin> kid_addrs ks" "set (addrs k) \<inter> kid_addrs ks = {}"
    "distinct (concat (map addrs ks))" using Cons.prems(6) by auto
  have f: "delete_rec False st (addr k) = Some ?st"
  proof (rule delete_first)
    show "delete_rec True st (addr k) = Some (drop_nodes (set (tl (addrs k)))
        (st\<lparr>nodes := (nodes st)(addr k \<mapsto> (node_of a 0 (first ks) k)\<lparr>n_child := 0\<rparr>)\<rparr>))"
      by (rule Cons.prems(1) [OF _ r]) (use Cons.prems(6) in simp_all)
  qed (use Cons.prems a in simp_all)
  have s': "seg ?st a 0 0 ks"
  proof (rule seg_refirst [where prv = "addr k"])
    show "seg st a (addr k) 0 ks" using Cons.prems(2) unfolding seg.simps by blast
    show "distinct (concat (map addrs ks))" by (rule a(4))
    show "nodes ?st (first ks) = map_option (n_prev_update (\<lambda>_. 0)) (nodes st (first ks))" if "ks \<noteq> []"
      using a ends_in [OF that] that by (auto simp: drop_first_def drop_nodes_def)
    show "nodes ?st x = nodes st x" if "x \<in> kid_addrs ks" "x \<noteq> first ks" for x
      using that a by (auto simp: drop_first_def drop_nodes_def)
  qed
  have n': "nodes ?st a = Some (n\<lparr>n_child := first ks\<rparr>)" using a by (simp add: drop_first_def drop_nodes_def)
  have "delete_rec True ?st a = Some (drop_nodes (kid_addrs ks) (?st\<lparr>nodes := (nodes ?st)(a \<mapsto> n\<lparr>n_child := 0\<rparr>)\<rparr>))"
    using Cons.IH [OF Cons.prems(1) s' n'] Cons.prems(5,6) by (simp add: fun_upd_def)
  moreover have "delete_rec True st a = delete_rec True ?st a"
    using Cons.prems(3,4) nz f by (subst delete_rec.simps) simp
  moreover have "drop_nodes (kid_addrs ks) (?st\<lparr>nodes := (nodes ?st)(a \<mapsto> n\<lparr>n_child := 0\<rparr>)\<rparr>)
      = drop_nodes (kid_addrs (k # ks)) (st\<lparr>nodes := (nodes st)(a \<mapsto> n\<lparr>n_child := 0\<rparr>)\<rparr>)"
  proof -
    have "ks \<noteq> [] \<Longrightarrow> first ks \<in> kid_addrs ks" by (cases ks) auto
    then have "(if x \<in> kid_addrs ks then None else ((nodes ?st)(a \<mapsto> n\<lparr>n_child := 0\<rparr>)) x)
      = (if x \<in> kid_addrs (k # ks) then None else ((nodes st)(a \<mapsto> n\<lparr>n_child := 0\<rparr>)) x)" for x
      using a by (auto simp: drop_first_def drop_nodes_def)
    moreover have "?st\<lparr>nodes := f\<rparr> = st\<lparr>nodes := f\<rparr>" for f by (simp add: drop_first_def drop_nodes_def)
    ultimately show ?thesis by (simp only: drop_nodes_upd)
  qed
  ultimately show ?case by (simp add: fun_upd_def)
qed

lemma delete_kids:
  "rep st par prv nxt t \<Longrightarrow> distinct (addrs t) \<Longrightarrow> delete_rec True st (addr t) = Some (drop_nodes (set (tl (addrs t)))
     (st\<lparr>nodes := (nodes st)(addr t \<mapsto> (node_of par prv nxt t)\<lparr>n_child := 0\<rparr>)\<rparr>))"
proof (induction t arbitrary: st par prv nxt)
  case (XText a s)
  then have "st\<lparr>nodes := (nodes st)(a \<mapsto> (node_of par prv nxt (XText a s))\<lparr>n_child := 0\<rparr>)\<rparr> = st"
    by (simp add: fun_upd_idem)
  then show ?case using XText by (subst delete_rec.simps) (simp add: drop_nodes_def)
next
  case (XElem a pf nm ur at ks)
  have r: "a \<noteq> 0" "nodes st a = Some (node_of par prv nxt (XElem a pf nm ur at ks))" "seg st a 0 0 ks"
    using XElem.prems(1) unfolding rep_parts by simp_all
  show ?case unfolding addr.simps addrs.simps list.sel
    by (rule delete_children [OF XElem.IH r(3,2) _ r(1)]) (use XElem.prems(2) in simp_all)
qed

text \<open>A tree among its siblings: deleting it frees exactly its nodes and closes the gap.\<close>

lemma delete_child_rep:
  assumes r: "rep st par prv nxt (XElem a pf nm ur at (ks @ t # ls))"
    and d: "distinct (addrs (XElem a pf nm ur at (ks @ t # ls)))"
  shows "\<exists>st'. xml_delete_tree st (addr t) = Some st' \<and> rep st' par prv nxt (XElem a pf nm ur at (ks @ ls))
     \<and> (\<forall>x\<in>set (addrs t). nodes st' x = None) \<and> brk st' = brk st
     \<and> (\<forall>x. x \<notin> set (addrs (XElem a pf nm ur at (ks @ t # ls))) \<longrightarrow> nodes st' x = nodes st x)"
proof -
  let ?l = "addr (last ks)" let ?f = "first ls"
  define P where "P = (if ks = [] then 0 else ?l)"
  have a: "a \<noteq> 0" "nodes st a = Some (node_of par prv nxt (XElem a pf nm ur at (ks @ t # ls)))"
    "seg st a 0 0 (ks @ t # ls)" using r unfolding rep_parts by simp_all
  have sk: "seg st a 0 (addr t) ks" and sl: "seg st a (addr t) 0 ls" using a(3) by (simp_all add: seg_append)
  have rt: "rep st a P ?f t"
    using a(3) unfolding seg_append seg.simps P_def by (cases ls) (simp_all add: if_distrib)
  have dd: "distinct (addrs t)" "distinct (concat (map addrs ks))" "distinct (concat (map addrs ls))"
    "a \<notin> set (addrs t)" "a \<notin> kid_addrs ks" "a \<notin> kid_addrs ls" "kid_addrs ks \<inter> set (addrs t) = {}"
    "kid_addrs ls \<inter> set (addrs t) = {}" "kid_addrs ks \<inter> kid_addrs ls = {}" using d by auto
  let ?n = "(node_of a P ?f t)\<lparr>n_child := 0\<rparr>"
  define st1 where "st1 = drop_nodes (set (tl (addrs t))) (st\<lparr>nodes := (nodes st)(addr t \<mapsto> ?n)\<rparr>)"
  define m where "m x = (if ks = [] \<and> x = a then Some (node_of par prv nxt (XElem a pf nm ur at ls))
     else if ks \<noteq> [] \<and> x = ?l then map_option (n_next_update (\<lambda>_. ?f)) (nodes st x)
     else if ls \<noteq> [] \<and> x = ?f then map_option (n_prev_update (\<lambda>_. P)) (nodes st x)
     else nodes st1 x)" for x
  define st' where "st' = drop_nodes (set (addrs t)) (st\<lparr>nodes := m\<rparr>)"
  have lt: "n_prev ?n = P" "n_parent ?n = a" "n_next ?n = ?f" by (cases t; simp)+
  have tt: "addr t \<notin> set (tl (addrs t))" "set (addrs t) = insert (addr t) (set (tl (addrs t)))"
    using dd(1) by (simp_all add: addrs_kids [of t])
  have s1: "nodes st1 (addr t) = Some ?n" "\<And>x. x \<notin> set (addrs t) \<Longrightarrow> nodes st1 x = nodes st x" "brk st1 = brk st"
    using tt by (auto simp: st1_def drop_nodes_def)
  have l: "?l \<notin> set (addrs t)" "?l \<noteq> 0" "nodes st ?l \<noteq> None" "?l \<noteq> a" "?l \<notin> kid_addrs ls" "?l \<in> kid_addrs ks" if "ks \<noteq> []"
    using seg_ends [OF sk that] ends_in [OF that] dd by auto
  have f: "?f \<notin> set (addrs t)" "?f \<noteq> 0" "nodes st ?f \<noteq> None" "?f \<noteq> a" "?f \<notin> kid_addrs ks" "?f \<in> kid_addrs ls" if "ls \<noteq> []"
    using seg_ends [OF sl that] ends_in [OF that] dd by auto
  have f0: "ls = [] \<Longrightarrow> ?f = 0" by simp
  have kids: "delete_rec True st (addr t) = Some st1"
    using delete_kids [OF rt dd(1)] by (simp add: st1_def)
  have u: "unlink st1 (addr t) = Some (st1\<lparr>nodes := m\<rparr>)"
  proof -
    have na: "nodes st1 a = Some (node_of par prv nxt (XElem a pf nm ur at (ks @ t # ls)))" using s1(2) dd(4) a(2) by simp
    have nl: "nodes st1 ?l = nodes st ?l" if "ks \<noteq> []" using s1(2) l(1) [OF that] by simp
    have nf: "nodes st1 ?f = nodes st ?f" if "ls \<noteq> []" using s1(2) f(1) [OF that] by simp
    show ?thesis
    proof (cases "ks = []"; cases "ls = []")
      assume e: "ks = []" "ls = []"
      then show ?thesis using a(1) lt na unfolding unlink_def s1(1) Option.bind.bind_lunit
        by (auto simp: upd_def fun_eq_iff m_def P_def)
    next
      assume e: "ks = []" "ls \<noteq> []"
      then show ?thesis using a(1) lt na nf f unfolding unlink_def s1(1) Option.bind.bind_lunit
        by (auto simp: upd_def fun_eq_iff m_def P_def)
    next
      assume e: "ks \<noteq> []" "ls = []"
      then show ?thesis using a(1) lt nl l unfolding unlink_def s1(1) Option.bind.bind_lunit
        by (auto simp: upd_def fun_eq_iff m_def P_def)
    next
      assume e: "ks \<noteq> []" "ls \<noteq> []"
      have "?f \<noteq> ?l" using l(5) [OF e(1)] f(6) [OF e(2)] by metis
      then show ?thesis using e a(1) lt nl l nf f unfolding unlink_def s1(1) Option.bind.bind_lunit
        by (auto simp: upd_def fun_eq_iff m_def P_def)
    qed
  qed
  have mt: "m x = nodes st1 x" if "x \<in> set (addrs t)" for x
  proof -
    have "x \<noteq> a" "\<not> (ks \<noteq> [] \<and> x = ?l)" "\<not> (ls \<noteq> [] \<and> x = ?f)" using that dd(4) l(1) f(1) by auto
    then show ?thesis unfolding m_def by auto
  qed
  then have "m (addr t) = Some ?n" using s1(1) by simp
  then have fr: "free_node (st1\<lparr>nodes := m\<rparr>) (addr t) = Some (st1\<lparr>nodes := m(addr t := None)\<rparr>)"
    by (simp add: free_node_def)
  have e: "xml_delete_tree st (addr t) = Some st'"
  proof -
    have "m x = None" if "x \<in> set (tl (addrs t))" for x
      using that tt mt [of x] by (auto simp: st1_def drop_nodes_def)
    then have "m(addr t := None) = (\<lambda>x. if x \<in> set (addrs t) then None else m x)" using tt(2) by (auto simp: fun_eq_iff)
    then have "st1\<lparr>nodes := m(addr t := None)\<rparr> = st'" by (simp add: st'_def drop_nodes_upd) (simp add: drop_nodes_def st1_def)
    then show ?thesis unfolding xml_delete_tree_def by (subst delete_rec.simps) (simp add: kids u fr)
  qed
  have n': "nodes st' x = (if x \<in> set (addrs t) then None else m x)" for x by (simp add: st'_def drop_nodes_def)
  have "seg st' a 0 ?f ks"
  proof (rule seg_relast [OF sk dd(2)])
    show "nodes st' ?l = map_option (n_next_update (\<lambda>_. ?f)) (nodes st ?l)" if "ks \<noteq> []"
      using that l by (simp add: n' m_def)
    fix x assume x: "x \<in> kid_addrs ks" "x \<noteq> ?l"
    then have "x \<noteq> a" "x \<notin> set (addrs t)" "ls \<noteq> [] \<Longrightarrow> x \<noteq> ?f" using dd f(5) by auto
    then show "nodes st' x = nodes st x" using x s1(2) by (auto simp: n' m_def)
  qed
  moreover have "seg st' a P 0 ls"
  proof (rule seg_refirst [OF sl dd(3)])
    show "nodes st' ?f = map_option (n_prev_update (\<lambda>_. P)) (nodes st ?f)" if "ls \<noteq> []"
    proof -
      have "\<not> (ks \<noteq> [] \<and> ?f = ?l)" using l(6) f(5) [OF that] by metis
      then show ?thesis using that f by (auto simp: n' m_def)
    qed
    fix x assume x: "x \<in> kid_addrs ls" "x \<noteq> ?f"
    then have "x \<noteq> a" "x \<notin> set (addrs t)" "ks \<noteq> [] \<Longrightarrow> x \<noteq> ?l" using dd l(5) by auto
    then show "nodes st' x = nodes st x" using x s1(2) by (auto simp: n' m_def)
  qed
  ultimately have "seg st' a 0 0 (ks @ ls)" by (cases "ls = []") (simp_all add: seg_append P_def)
  moreover have "nodes st' a = Some (node_of par prv nxt (XElem a pf nm ur at (ks @ ls)))"
    using dd(4) a(2) s1(2) l(4) f(4) by (auto simp: n' m_def first_def split: list.splits)
  ultimately have "rep st' par prv nxt (XElem a pf nm ur at (ks @ ls))" using a(1) unfolding rep_parts by blast
  moreover have "nodes st' x = nodes st x" if "x \<notin> set (addrs (XElem a pf nm ur at (ks @ t # ls)))" for x
  proof -
    have "x \<notin> set (addrs t)" "x \<noteq> a" "ks \<noteq> [] \<Longrightarrow> x \<noteq> ?l" "ls \<noteq> [] \<Longrightarrow> x \<noteq> ?f" using that l(6) f(6) by auto
    then show ?thesis using s1(2) by (auto simp: n' m_def)
  qed
  moreover have "brk st' = brk st" "\<forall>x\<in>set (addrs t). nodes st' x = None" by (simp_all add: st'_def drop_nodes_def)
  ultimately show ?thesis using e by blast
qed

text \<open>A whole tree, and the children of a node.\<close>

lemma delete_root_rep:
  assumes "rep st 0 0 0 t" "distinct (addrs t)"
  shows "xml_delete_tree st (addr t) = Some (drop_nodes (set (addrs t)) st)"
proof -
  let ?st1 = "drop_nodes (set (tl (addrs t))) (st\<lparr>nodes := (nodes st)(addr t \<mapsto> (node_of 0 0 0 t)\<lparr>n_child := 0\<rparr>)\<rparr>)"
  have k: "delete_rec True st (addr t) = Some ?st1" by (rule delete_kids [OF assms])
  have tt: "addr t \<notin> set (tl (addrs t))" "set (addrs t) = insert (addr t) (set (tl (addrs t)))"
    using assms(2) by (simp_all add: addrs_kids [of t])
  then have n: "nodes ?st1 (addr t) = Some ((node_of 0 0 0 t)\<lparr>n_child := 0\<rparr>)" by (simp add: drop_nodes_def)
  have "unlink ?st1 (addr t) = Some ?st1" unfolding unlink_def n Option.bind.bind_lunit by (cases t) simp_all
  moreover have "free_node ?st1 (addr t) = Some (drop_nodes (set (addrs t)) st)"
    using tt n by (auto simp: free_node_def drop_nodes_def fun_eq_iff)
  ultimately show ?thesis unfolding xml_delete_tree_def using k by (subst delete_rec.simps) simp
qed

end
