(* ===== verification/XmlCopy.thy ===== *)
theory XmlCopy
  imports XmlTree
begin

text \<open>Creating nodes, and copying a tree: the copy is a new tree of the same shape in fresh nodes.\<close>

definition alloc_node :: "xml \<Rightarrow> xml_node \<Rightarrow> xml" where
  "alloc_node st n = st\<lparr>nodes := (nodes st)(brk st \<mapsto> n), brk := brk st + 1\<rparr>"

lemma new_text_eq:
  "xml_new_text st s = Some (alloc_node st (node_of 0 0 0 (XText (brk st) s)), brk st)"
  by (simp add: xml_new_text_def xml_new_node_def upd_def alloc_node_def)

lemma new_element_eq:
  "xml_new_element_attr st pf (Some nm) ur at
    = Some (alloc_node st (node_of 0 0 0 (XElem (brk st) pf nm ur at [])), brk st)"
  by (cases pf; cases ur; cases at)
    (simp_all add: xml_new_element_attr_def xml_new_node_def upd_def alloc_node_def)

lemma alloc_node_simps [simp]:
  "nodes (alloc_node st n) = (nodes st)(brk st \<mapsto> n)" "brk (alloc_node st n) = brk st + 1"
  by (simp_all add: alloc_node_def)

lemma store_ok_alloc: "store_ok st \<Longrightarrow> store_ok (alloc_node st n)"
  by (auto simp: store_ok_def less_Suc_eq)

lemma rep_defined:
  "rep st par prv nxt t \<Longrightarrow> x \<in> set (addrs t) \<Longrightarrow> nodes st x \<noteq> None"
  "reps st par prv ks \<Longrightarrow> x \<in> set (concat (map addrs ks)) \<Longrightarrow> nodes st x \<noteq> None"
  by (induction st par prv nxt t and st par prv ks rule: rep_reps.induct) auto

lemma rep_below: "rep st par prv nxt t \<Longrightarrow> store_ok st \<Longrightarrow> x \<in> set (addrs t) \<Longrightarrow> x < brk st"
  using rep_defined(1) by (auto simp: store_ok_def)

fun erase :: "xtree \<Rightarrow> xtree" where
  "erase (XText a s) = XText 0 s"
| "erase (XElem a pf nm ur at ks) = XElem 0 pf nm ur at (map erase ks)"

text \<open>What adding new children of the shapes \<open>ks\<close> to the element \<open>dest js\<close> (with the links
  \<open>(par, prv, nxt)\<close> and the children \<open>js\<close>) does to the store.\<close>

definition copied :: "xml \<Rightarrow> xml \<Rightarrow> nat \<times> nat \<times> nat \<Rightarrow> (xtree list \<Rightarrow> xtree) \<Rightarrow> xtree list \<Rightarrow> xtree list \<Rightarrow> bool" where
  "copied st st' l dest js ks \<longleftrightarrow> (\<exists>ks'. rep st' (fst l) (fst (snd l)) (snd (snd l)) (dest (js @ ks')) \<and> map erase ks' = map erase ks
     \<and> distinct (addrs (dest (js @ ks'))) \<and> set (concat (map addrs ks')) \<subseteq> {brk st..<brk st'}
     \<and> store_ok st' \<and> brk st \<le> brk st'
     \<and> (\<forall>x. x < brk st \<longrightarrow> x \<notin> set (addrs (dest js)) \<longrightarrow> nodes st' x = nodes st x))"

text \<open>The new node of a text or an element is linked in last.\<close>

lemma link_copy:
  assumes ok: "store_ok st1" and d: "rep st1 par prv nxt (XElem c pf nm ur at js)" "distinct (addrs (XElem c pf nm ur at js))"
    and t: "rep st1 0 0 0 t'" "distinct (addrs t')" "set (addrs t') \<subseteq> {b..<brk st1}"
    and l: "\<And>x. x \<in> set (addrs (XElem c pf nm ur at js)) \<Longrightarrow> x < b" and b: "b \<le> brk st1"
    and e: "erase t' = erase t"
    and same: "\<And>x. x < b \<Longrightarrow> nodes st1 x = nodes st x" and bs: "b = brk st"
  shows "\<exists>st'. xml_add_child st1 c (addr t') = Some st' \<and> copied st st' (par, prv, nxt) (XElem c pf nm ur at) js [t]"
proof -
  have dj: "set (addrs t') \<inter> set (addrs (XElem c pf nm ur at js)) = {}" using t(3) l by fastforce
  have dd: "distinct (addrs (XElem c pf nm ur at (js @ [t'])))" using dj d(2) t(2) by auto
  obtain st' where s: "xml_add_child st1 c (addr t') = Some st'" "rep st' par prv nxt (XElem c pf nm ur at (js @ [t']))"
    "\<And>x. x \<notin> set (addrs (XElem c pf nm ur at (js @ [t']))) \<Longrightarrow> nodes st' x = nodes st1 x" "brk st' = brk st1"
    using add_child_rep [OF d(1) t(1) dd] by blast
  have ok': "store_ok st'"
    unfolding store_ok_def
  proof (intro conjI allI impI)
    show "0 < brk st'" using ok s(4) by (simp add: store_ok_def)
    have z: "0 \<notin> set (addrs (XElem c pf nm ur at (js @ [t'])))"
    proof -
      have n: "nodes st1 0 = None" using ok by (simp add: store_ok_def)
      have "0 \<notin> set (addrs (XElem c pf nm ur at js))" "0 \<notin> set (addrs t')"
        using rep_defined(1) [OF d(1)] rep_defined(1) [OF t(1)] n by blast+
      then show ?thesis by auto
    qed
    then show "nodes st' 0 = None" using s(3) [OF z] ok by (simp add: store_ok_def)
    fix p assume p: "nodes st' p \<noteq> None"
    show "p < brk st'"
    proof (cases "p \<in> set (addrs (XElem c pf nm ur at (js @ [t'])))")
      case True
      then show ?thesis using rep_below [OF d(1) ok, of p] rep_below [OF t(1) ok, of p] s(4) by auto
    next
      case False
      then show ?thesis using s(3,4) p ok by (simp add: store_ok_def)
    qed
  qed
  have "nodes st' x = nodes st x" if "x < b" "x \<notin> set (addrs (XElem c pf nm ur at js))" for x
  proof -
    have "x \<notin> set (addrs t')" using that(1) t(3) by auto
    then have "x \<notin> set (addrs (XElem c pf nm ur at (js @ [t'])))" using that(2) by auto
    then show ?thesis using s(3) same that(1) by simp
  qed
  then have "copied st st' (par, prv, nxt) (XElem c pf nm ur at) js [t]"
    using s(2,4) e dd t(3) ok' b bs unfolding copied_def by (intro exI [of _ "[t']"]) auto
  then show ?thesis using s(1) by blast
qed

lemma copied_Nil: "store_ok st \<Longrightarrow> rep st par prv nxt (dest js) \<Longrightarrow> distinct (addrs (dest js))
  \<Longrightarrow> copied st st (par, prv, nxt) dest js []"
  by (auto simp: copied_def)

lemma copied_trans:
  assumes "copied st st1 (par, prv, nxt) (XElem c pf nm ur at) js [k]"
    and "\<And>k'. rep st1 par prv nxt (XElem c pf nm ur at (js @ [k'])) \<Longrightarrow> distinct (addrs (XElem c pf nm ur at (js @ [k']))) \<Longrightarrow>
      set (addrs k') \<subseteq> {brk st..<brk st1} \<Longrightarrow> copied st1 st2 (par, prv, nxt) (XElem c pf nm ur at) (js @ [k']) ks"
  shows "copied st st2 (par, prv, nxt) (XElem c pf nm ur at) js (k # ks)"
proof -
  obtain ks0 where c1: "rep st1 par prv nxt (XElem c pf nm ur at (js @ ks0))" "map erase ks0 = map erase [k]"
      "distinct (addrs (XElem c pf nm ur at (js @ ks0)))" "set (concat (map addrs ks0)) \<subseteq> {brk st..<brk st1}"
      "brk st \<le> brk st1" "\<forall>x. x < brk st \<longrightarrow> x \<notin> set (addrs (XElem c pf nm ur at js)) \<longrightarrow> nodes st1 x = nodes st x"
    using assms(1) by (auto simp: copied_def)
  obtain k' where k: "ks0 = [k']" "erase k' = erase k" using c1(2) by auto
  have kk: "set (addrs k') \<subseteq> {brk st..<brk st1}" using c1(4) k by simp
  have "copied st1 st2 (par, prv, nxt) (XElem c pf nm ur at) (js @ [k']) ks"
    using assms(2) [OF c1(1,3) [unfolded k] kk] .
  then obtain ks' where c2: "rep st2 par prv nxt (XElem c pf nm ur at ((js @ [k']) @ ks'))" "map erase ks' = map erase ks"
      "distinct (addrs (XElem c pf nm ur at ((js @ [k']) @ ks')))" "set (concat (map addrs ks')) \<subseteq> {brk st1..<brk st2}"
      "store_ok st2" "brk st1 \<le> brk st2"
      "\<forall>x. x < brk st1 \<longrightarrow> x \<notin> set (addrs (XElem c pf nm ur at (js @ [k']))) \<longrightarrow> nodes st2 x = nodes st1 x"
    unfolding copied_def fst_conv snd_conv by blast
  show ?thesis unfolding copied_def fst_conv snd_conv
  proof (intro exI [of _ "k' # ks'"] conjI allI impI)
    show "rep st2 par prv nxt (XElem c pf nm ur at (js @ k' # ks'))" "map erase (k' # ks') = map erase (k # ks)"
      "distinct (addrs (XElem c pf nm ur at (js @ k' # ks')))" "store_ok st2" "brk st \<le> brk st2"
      using c2 k c1(5) by simp_all
    show "set (concat (map addrs (k' # ks'))) \<subseteq> {brk st..<brk st2}" using kk c2(4,6) c1(5) by fastforce
    fix x assume x: "x < brk st" "x \<notin> set (addrs (XElem c pf nm ur at js))"
    then have "x \<notin> set (addrs k')" using kk by auto
    then have "x \<notin> set (addrs (XElem c pf nm ur at (js @ [k'])))" using x(2) by simp
    then show "nodes st2 x = nodes st x" using c2(7) x c1(5,6) by simp
  qed
qed

text \<open>The recursion.\<close>

lemma copy_children:
  assumes IH: "\<And>k st par prv nxt js. k \<in> set ks \<Longrightarrow> rep st par prv nxt k \<Longrightarrow> store_ok st \<Longrightarrow>
      rep st 0 0 0 (XElem c pf nm ur at js) \<Longrightarrow> distinct (addrs (XElem c pf nm ur at js)) \<Longrightarrow>
      set (addrs k) \<inter> set (addrs (XElem c pf nm ur at js)) = {} \<Longrightarrow>
      \<exists>st'. copy_rec False st (addr k) c = Some st' \<and> copied st st' (0, 0, 0) (XElem c pf nm ur at) js [k]"
    and s: "seg st par prv 0 ks" and ok: "store_ok st"
    and d: "rep st 0 0 0 (XElem c pf nm ur at js)" "distinct (addrs (XElem c pf nm ur at js))"
      "set (concat (map addrs ks)) \<inter> set (addrs (XElem c pf nm ur at js)) = {}"
  shows "\<exists>st'. copy_rec True st (first ks) c = Some st' \<and> copied st st' (0, 0, 0) (XElem c pf nm ur at) js ks"
  using IH s ok d
proof (induction ks arbitrary: st prv js)
  case Nil
  then show ?case using copied_Nil by (subst copy_rec.simps) auto
next
  case (Cons k ks)
  let ?D = "XElem c pf nm ur at"
  have k: "rep st par prv (first ks) k" "seg st par (addr k) 0 ks"
  proof -
    have "rep st par prv (if ks = [] then 0 else first ks) k" using Cons.prems(2) unfolding seg.simps by blast
    then show "rep st par prv (first ks) k" by (cases ks) simp_all
    show "seg st par (addr k) 0 ks" using Cons.prems(2) unfolding seg.simps by blast
  qed
  have dk: "set (addrs k) \<inter> set (addrs (?D js)) = {}" "set (concat (map addrs ks)) \<inter> set (addrs (?D js)) = {}"
    using Cons.prems(6) by auto
  obtain st1 where s1: "copy_rec False st (addr k) c = Some st1" "copied st st1 (0, 0, 0) ?D js [k]"
    using Cons.prems(1) [OF _ k(1) Cons.prems(3,4,5) dk(1)] by auto
  have same: "nodes st1 x = nodes st x" if "x \<in> set (addrs k) \<union> set (concat (map addrs ks))" for x
  proof -
    have "nodes st x \<noteq> None"
      using that rep_defined(1) [OF k(1)] rep_defined(2) [of st par "addr k" ks] k(2) by (auto simp: reps_seg)
    then have "x < brk st" using Cons.prems(3) by (simp add: store_ok_def)
    moreover have "x \<notin> set (addrs (?D js))" using that dk by blast
    ultimately show ?thesis using s1(2) unfolding copied_def fst_conv snd_conv by blast
  qed
  have "nodes st1 (addr k) = Some (node_of par prv (first ks) k)" "addr k \<noteq> 0"
    using rep_node [OF k(1)] same [of "addr k"] by simp_all
  moreover have "n_next (node_of par prv (first ks) k) = first ks" by (cases k) simp_all
  ultimately have step: "copy_rec True st (addr k) c = copy_rec True st1 (first ks) c"
    using s1(1) by (subst copy_rec.simps) simp
  have seg1: "seg st1 par (addr k) 0 ks"
  proof -
    have "seg st1 par (addr k) 0 ks = seg st par (addr k) 0 ks" by (rule seg_cong) (simp add: same)
    then show ?thesis using k(2) by simp
  qed
  obtain ks0 where "rep st1 0 0 0 (?D (js @ ks0))" "map erase ks0 = map erase [k]" "distinct (addrs (?D (js @ ks0)))"
      "set (concat (map addrs ks0)) \<subseteq> {brk st..<brk st1}" and ok1: "store_ok st1"
    using s1(2) by (auto simp: copied_def)
  then obtain k0 where k0: "rep st1 0 0 0 (?D (js @ [k0]))" "distinct (addrs (?D (js @ [k0])))"
    "set (addrs k0) \<subseteq> {brk st..<brk st1}" by auto
  have below: "x < brk st" if "x \<in> set (concat (map addrs ks))" for x
    using rep_defined(2) [of st par "addr k" ks x] that k(2) Cons.prems(3) by (simp add: reps_seg store_ok_def)
  have IH: "\<exists>st2. copy_rec True st1 (first ks) c = Some st2 \<and> copied st1 st2 (0, 0, 0) ?D (js @ [k']) ks"
    if "rep st1 0 0 0 (?D (js @ [k']))" "distinct (addrs (?D (js @ [k'])))" "set (addrs k') \<subseteq> {brk st..<brk st1}" for k'
  proof -
    have "set (concat (map addrs ks)) \<inter> set (addrs k') = {}" using below that(3) by fastforce
    then have "set (concat (map addrs ks)) \<inter> set (addrs (?D (js @ [k']))) = {}" using dk(2) by auto
    then show ?thesis using Cons.IH [OF Cons.prems(1) seg1 ok1 that(1,2)] by auto
  qed
  obtain st2 where s2: "copy_rec True st1 (first ks) c = Some st2" using IH [OF k0] by blast
  have "copied st st2 (0, 0, 0) ?D js (k # ks)"
    by (rule copied_trans [OF s1(2)]) (use IH s2 in auto)
  then show ?case using step s2 by auto
qed

lemma copy_tree_rec:
  "rep st par prv nxt t \<Longrightarrow> store_ok st \<Longrightarrow> rep st 0 0 0 (XElem c pf nm ur at js) \<Longrightarrow>
   distinct (addrs (XElem c pf nm ur at js)) \<Longrightarrow> set (addrs t) \<inter> set (addrs (XElem c pf nm ur at js)) = {} \<Longrightarrow>
   \<exists>st'. copy_rec False st (addr t) c = Some st' \<and> copied st st' (0, 0, 0) (XElem c pf nm ur at) js [t]"
proof (induction t arbitrary: st par prv nxt c pf nm ur at js)
  case (XText a s)
  let ?t = "XText (brk st) s"
  let ?st = "alloc_node st (node_of 0 0 0 ?t)"
  let ?D = "XElem c pf nm ur at js"
  have l: "x < brk st" if "x \<in> set (addrs ?D)" for x using rep_below [OF XText.prems(3,2) that] .
  have b: "0 < brk st" using XText.prems(2) by (simp add: store_ok_def)
  have "rep ?st 0 0 0 ?D = rep st 0 0 0 ?D" by (rule rep_cong(1)) (use l in fastforce)
  then have d: "rep ?st 0 0 0 ?D" using XText.prems(3) by simp
  obtain st' where s': "xml_add_child ?st c (addr ?t) = Some st'" "copied st st' (0, 0, 0) (XElem c pf nm ur at) js [XText a s]"
    using link_copy [of ?st 0 0 0 c pf nm ur at js ?t "brk st" "XText a s" st] store_ok_alloc [OF XText.prems(2)] d XText.prems(4) l b
    by auto
  have "copy_rec False st a c = Some st'"
    using XText.prems(1) s'(1) by (subst copy_rec.simps) (simp add: is_text_def new_text_eq)
  then show ?case using s'(2) by auto
next
  case (XElem a pf' nm' ur' at' ks)
  let ?n = "XElem (brk st) pf' nm' ur' at'"
  let ?st = "alloc_node st (node_of 0 0 0 (?n []))"
  let ?D = "XElem c pf nm ur at js"
  note r = XElem.prems(1) [unfolded rep_parts]
  have l: "x < brk st" if "x \<in> set (addrs ?D)" for x using rep_below [OF XElem.prems(3,2) that] .
  have lk: "x < brk st" if "x \<in> set (concat (map addrs ks))" for x
    using rep_below [OF XElem.prems(1,2)] that by simp
  have b: "0 < brk st" using XElem.prems(2) by (simp add: store_ok_def)
  have sk: "seg ?st a 0 0 ks"
  proof -
    have "seg ?st a 0 0 ks = seg st a 0 0 ks" by (rule seg_cong) (use lk in fastforce)
    then show ?thesis using r by simp
  qed
  have dn: "rep ?st 0 0 0 (?n [])" using b by simp
  have "\<exists>st1. copy_rec True ?st (first ks) (brk st) = Some st1 \<and> copied ?st st1 (0, 0, 0) ?n [] ks"
  proof (rule copy_children [OF _ sk store_ok_alloc [OF XElem.prems(2)] dn])
    show "set (concat (map addrs ks)) \<inter> set (addrs (?n [])) = {}" using lk by fastforce
  qed (use XElem.IH in auto)
  then obtain st1 ks' where s1: "copy_rec True ?st (first ks) (brk st) = Some st1"
      "rep st1 0 0 0 (?n ks')" "map erase ks' = map erase ks" "distinct (addrs (?n ks'))"
      "set (concat (map addrs ks')) \<subseteq> {brk ?st..<brk st1}" "store_ok st1" "brk ?st \<le> brk st1"
      "\<forall>x. x < brk ?st \<longrightarrow> x \<notin> set (addrs (?n [])) \<longrightarrow> nodes st1 x = nodes ?st x"
    by (auto simp: copied_def)
  have same: "nodes st1 x = nodes st x" if "x < brk st" for x using s1(8) that by auto
  have "rep st1 0 0 0 ?D = rep st 0 0 0 ?D" by (rule rep_cong(1)) (use l same in blast)
  then have d: "rep st1 0 0 0 ?D" using XElem.prems(3) by simp
  have sub: "set (addrs (?n ks')) \<subseteq> {brk st..<brk st1}" using s1(5,7) by auto
  have e: "erase (?n ks') = erase (XElem a pf' nm' ur' at' ks)" using s1(3) by simp
  have bb: "brk st \<le> brk st1" using s1(7) by simp
  obtain st' where s': "xml_add_child st1 c (addr (?n ks')) = Some st'"
      "copied st st' (0, 0, 0) (XElem c pf nm ur at) js [XElem a pf' nm' ur' at' ks]"
    using link_copy [OF s1(6) d XElem.prems(4) s1(2,4) sub l bb e same refl] by blast
  have "copy_rec False st a c = Some st'"
    using r s1(1) s'(1) by (subst copy_rec.simps) (simp add: is_element_def is_text_def new_element_eq)
  then show ?case using s'(2) by auto
qed

lemma copy_tree_rep:
  assumes r: "rep st par prv nxt t" and ok: "store_ok st"
  shows "\<exists>st' t'. xml_copy_tree st (addr t) = Some (st', addr t') \<and> tree_at st' t' \<and> erase t' = erase t
    \<and> set (addrs t') \<subseteq> {brk st..<brk st'} \<and> store_ok st' \<and> (\<forall>x<brk st. nodes st' x = nodes st x)"
proof (cases t)
  case (XText a s)
  let ?t = "XText (brk st) s"
  let ?st = "alloc_node st (node_of 0 0 0 ?t)"
  have "xml_copy_tree st a = Some (?st, brk st)"
    using r by (simp add: XText xml_copy_tree_def is_text_def new_text_eq)
  moreover have "tree_at ?st ?t" using ok by (simp add: tree_at_def store_ok_def)
  ultimately show ?thesis using store_ok_alloc [OF ok]
    by (intro exI [of _ ?st] exI [of _ ?t]) (simp add: XText)
next
  case (XElem a pf nm ur at ks)
  let ?n = "XElem (brk st) pf nm ur at"
  let ?st = "alloc_node st (node_of 0 0 0 (?n []))"
  note r' = r [unfolded XElem rep_parts]
  have b: "0 < brk st" using ok by (simp add: store_ok_def)
  have lk: "x < brk st" if "x \<in> set (concat (map addrs ks))" for x
    using rep_below [OF r ok] that by (simp add: XElem)
  have sk: "seg ?st a 0 0 ks"
  proof -
    have "seg ?st a 0 0 ks = seg st a 0 0 ks" by (rule seg_cong) (use lk in fastforce)
    then show ?thesis using r' by simp
  qed
  have dn: "rep ?st 0 0 0 (?n [])" using b by simp
  have "\<exists>st1. copy_rec True ?st (first ks) (brk st) = Some st1 \<and> copied ?st st1 (0, 0, 0) ?n [] ks"
  proof (rule copy_children [OF _ sk store_ok_alloc [OF ok] dn])
    show "set (concat (map addrs ks)) \<inter> set (addrs (?n [])) = {}" using lk by fastforce
  qed (use copy_tree_rec in auto)
  then obtain st1 ks' where s1: "copy_rec True ?st (first ks) (brk st) = Some st1"
      "rep st1 0 0 0 (?n ks')" "map erase ks' = map erase ks" "distinct (addrs (?n ks'))"
      "set (concat (map addrs ks')) \<subseteq> {brk ?st..<brk st1}" "store_ok st1" "brk ?st \<le> brk st1"
      "\<forall>x. x < brk ?st \<longrightarrow> x \<notin> set (addrs (?n [])) \<longrightarrow> nodes st1 x = nodes ?st x"
    by (auto simp: copied_def)
  have c: "xml_copy_tree st a = Some (st1, brk st)"
    using r' s1(1) by (simp add: xml_copy_tree_def is_element_def is_text_def new_element_eq)
  have same: "nodes st1 x = nodes st x" if "x < brk st" for x using s1(8) that by auto
  have sub: "set (addrs (?n ks')) \<subseteq> {brk st..<brk st1}" using s1(5,7) by auto
  have "xml_copy_tree st (addr t) = Some (st1, addr (?n ks'))" using c by (simp add: XElem)
  moreover have "tree_at st1 (?n ks')" using s1(2,4) unfolding tree_at_def by blast
  moreover have "erase (?n ks') = erase t" using s1(3) by (simp add: XElem)
  ultimately show ?thesis using sub s1(6) same by blast
qed

end
