(* ===== verification/XmlParse.thy ===== *)
theory XmlParse
  imports XmlCopy
begin

text \<open>
  The parser of \<open>common/utilities/xml.c\<close>: \<open>xml_doc_name\<close>, \<open>_xml_parse_doc\<close>, \<open>xml_parse_doc\<close> and \<open>xml_parse\<close>.

  Every one copies the document into a zero-terminated buffer first; a position in it is an
  index. The recursion of \<open>_xml_parse_doc\<close> runs on a shorter buffer and its loop moves forward, so
  that the parser terminates on every input; \<open>None\<close> is the use of a null pointer.
\<close>

abbreviation (input) "sub_str s i j \<equiv> take (j - i) (drop i s)"

lemma xml_strstr_ge: "xml_strstr s i p = Some k \<Longrightarrow> i \<le> k"
  by (auto simp: xml_strstr_def split: if_splits)

definition end_tag1 :: "string option \<Rightarrow> string \<Rightarrow> string" where
  "end_tag1 prefix name = ''</'' @ (case prefix of None \<Rightarrow> '''' | Some p \<Rightarrow> p @ '':'') @ name @ ''>''"

definition end_tag2 :: "string option \<Rightarrow> string \<Rightarrow> string" where
  "end_tag2 prefix name = ''</'' @ (case prefix of None \<Rightarrow> '''' | Some p \<Rightarrow> p @ '':'') @ name @ '' ''"

section \<open>The name of a document\<close>

function doc_name_loop :: "string \<Rightarrow> nat \<Rightarrow> (string option \<times> string option \<times> string option) option option" where
  "doc_name_loop buf cur =
     (if cur < length buf then
        (case strchr buf cur CHR ''<'' of None \<Rightarrow> Some None
         | Some tf \<Rightarrow>
           (case strchr buf (tf + 1) CHR ''>'' of None \<Rightarrow> Some None
            | Some tag_rear \<Rightarrow>
              if buf ! (tag_rear - 1) = CHR ''/'' then
                map_option Some (parse_tag (sub_str buf (tf + 1) (tag_rear - 1)))
              else
                (case parse_tag (sub_str buf (tf + 1) tag_rear) of
                   Some (prefix, Some name, uri) \<Rightarrow>
                     if xml_strstr buf (tag_rear + 1) (end_tag1 prefix name) \<noteq> None
                        \<or> xml_strstr buf (tag_rear + 1) (end_tag2 prefix name) \<noteq> None
                     then Some (Some (prefix, Some name, uri))
                     else doc_name_loop buf (tag_rear + 1)
                 | _ \<Rightarrow> None)))
      else Some None)"
  by pat_completeness auto

termination
proof (relation "measure (\<lambda>(buf, cur). length buf - cur)", goal_cases)
  case (2 buf cur tf tag_rear)
  then have "cur \<le> tf" "tf + 1 \<le> tag_rear" using strchr_Some by blast+
  with 2(1) show ?case by simp
qed simp

text \<open>The result of \<open>xml_doc_name\<close> is the return value \<open>-1\<close>, or \<open>0\<close> with the three strings.\<close>

definition xml_doc_name :: "string \<Rightarrow> (int \<times> (string option \<times> string option \<times> string option) option) option" where
  "xml_doc_name doc = map_option (\<lambda>r. (if r = None then -1 else 0, r)) (doc_name_loop doc 0)"

section \<open>Parsing the content of an element\<close>

definition parse_text :: "xml \<Rightarrow> string \<Rightarrow> nat \<Rightarrow> nat \<Rightarrow> (xml \<times> nat) option" where
  "parse_text st buf cur root =
     (if root \<noteq> 0 then do {
        n \<leftarrow> nodes st root;
        if n_child n = 0 \<and> length (drop cur buf) > 0 then do {
          (st, node) \<leftarrow> xml_new_text st (drop cur buf);
          st \<leftarrow> xml_add_child st root node;
          Some (st, root)
        } else Some (st, root)
      } else Some (st, root))"

definition find_end :: "string \<Rightarrow> nat \<Rightarrow> string option \<Rightarrow> string \<Rightarrow> nat option" where
  "find_end buf doc_front prefix name =
     (case xml_strstr buf doc_front (end_tag1 prefix name) of
        Some r \<Rightarrow> Some r | None \<Rightarrow> xml_strstr buf doc_front (end_tag2 prefix name))"

lemma find_end_ge: "find_end buf i prefix name = Some k \<Longrightarrow> i \<le> k"
  using xml_strstr_ge by (auto simp: find_end_def split: option.splits)

text \<open>\<open>_xml_parse_doc\<close> from position \<open>cur\<close> on; \<open>root\<close> may be null.\<close>

function parse_loop :: "xml \<Rightarrow> string \<Rightarrow> nat \<Rightarrow> nat \<Rightarrow> (xml \<times> nat) option" where
  "parse_loop st buf cur root =
     (if cur < length buf then
        (case strchr buf cur CHR ''<'' of None \<Rightarrow> parse_text st buf cur root
         | Some tf \<Rightarrow>
           (case strchr buf (tf + 1) CHR ''>'' of None \<Rightarrow> parse_text st buf cur root
            | Some tag_rear \<Rightarrow>
              if buf ! (tag_rear - 1) = CHR ''/'' then
                (case parse_tag_attr (sub_str buf (tf + 1) (tag_rear - 1)) of None \<Rightarrow> None
                 | Some (prefix, name, uri, attr) \<Rightarrow>
                   (case xml_new_element_attr st prefix name uri attr of None \<Rightarrow> None
                    | Some (st, node) \<Rightarrow>
                      if root \<noteq> 0 then
                        (case xml_add_child st root node of None \<Rightarrow> None
                         | Some st \<Rightarrow> parse_loop st buf (tag_rear + 1) root)
                      else Some (st, node)))
              else
                (case parse_tag_attr (sub_str buf (tf + 1) tag_rear) of
                   Some (prefix, Some name, uri, attr) \<Rightarrow>
                     (case find_end buf (tag_rear + 1) prefix name of
                        None \<Rightarrow> parse_loop st buf (tag_rear + 1) root
                      | Some doc_rear \<Rightarrow>
                        (case xml_new_element_attr st prefix (Some name) uri attr of None \<Rightarrow> None
                         | Some (st, node) \<Rightarrow>
                           if root \<noteq> 0 then
                             (case xml_add_child st root node of None \<Rightarrow> None
                              | Some st \<Rightarrow>
                                (case parse_loop st (sub_str buf (tag_rear + 1) doc_rear) 0 node of None \<Rightarrow> None
                                 | Some (st, _) \<Rightarrow>
                                   (case strchr buf doc_rear CHR ''>'' of None \<Rightarrow> None
                                    | Some e \<Rightarrow> parse_loop st buf (e + 1) root)))
                           else
                             (case parse_loop st (sub_str buf (tag_rear + 1) doc_rear) 0 node of None \<Rightarrow> None
                              | Some (st, _) \<Rightarrow> Some (st, node))))
                 | _ \<Rightarrow> None)))
      else Some (st, root))"
  by pat_completeness auto

termination
proof (relation "inv_image (less_than <*lex*> less_than) (\<lambda>(st, buf, cur, root). (length buf, length buf - cur))", goal_cases)
  case 1
  show ?case by (simp add: wf_inv_image wf_lex_prod)
next
  case (2 st buf cur root tf tag_rear)
  then have "cur \<le> tf" "tf + 1 \<le> tag_rear" using strchr_Some by blast+
  with 2(1) show ?case by simp
next
  case (3 st buf cur root tf tag_rear)
  then have "cur \<le> tf" "tf + 1 \<le> tag_rear" using strchr_Some by blast+
  with 3(1) show ?case by simp
next
  case (4 st buf cur root tf tag_rear)
  then have "cur \<le> tf" "tf + 1 \<le> tag_rear" using strchr_Some by blast+
  with 4(1) show ?case by (simp add: min_def) linarith
next
  case 5
  show ?case
    using 5(1) strchr_Some [OF 5(2)] strchr_Some [OF 5(3)] find_end_ge [OF 5(10)] strchr_Some [OF 5(17)]
    by simp linarith
qed auto

declare doc_name_loop.simps [simp del] parse_loop.simps [simp del]

definition xml_parse_doc_buf :: "xml \<Rightarrow> string \<Rightarrow> nat \<Rightarrow> (xml \<times> nat) option" where
  "xml_parse_doc_buf st doc root = parse_loop st doc 0 root"

section \<open>Parsing a document\<close>

text \<open>The root tags that \<open>xml_parse_doc\<close> looks for.\<close>

definition root_start :: "string option \<Rightarrow> string \<Rightarrow> string option \<Rightarrow> string \<Rightarrow> string" where
  "root_start doc_prefix doc_name doc_uri close =
     (case (doc_prefix, doc_uri) of
        (Some p, Some u) \<Rightarrow> ''<'' @ p @ '':'' @ doc_name @ '' xmlns:'' @ p @ [CHR ''='', CHR 0x22] @ u @ [CHR 0x22] @ close
      | (Some p, None) \<Rightarrow> ''<'' @ p @ '':'' @ doc_name @ close
      | (None, Some u) \<Rightarrow> ''<'' @ doc_name @ '' xmlns'' @ [CHR ''='', CHR 0x22] @ u @ [CHR 0x22] @ close
      | (None, None) \<Rightarrow> ''<'' @ doc_name @ close)"

definition xml_parse_doc ::
    "xml \<Rightarrow> string \<Rightarrow> string option \<Rightarrow> string \<Rightarrow> string option \<Rightarrow> (xml \<times> nat) option" where
  "xml_parse_doc st doc doc_prefix doc_name doc_uri = (
     let start_tag = root_start doc_prefix doc_name doc_uri ''>'';
         empty_tag = root_start doc_prefix doc_name doc_uri ''/>'';
         end_tag = end_tag1 doc_prefix doc_name
     in case xml_strstr doc 0 start_tag of
          Some p \<Rightarrow>
            let front = p + length start_tag
            in (case xml_strstr doc front end_tag of
                  Some rear \<Rightarrow> do {
                    (st, root) \<leftarrow> xml_new_element st doc_prefix (Some doc_name) doc_uri;
                    (st, _) \<leftarrow> xml_parse_doc_buf st (sub_str doc front rear) root;
                    Some (st, root)
                  }
                | None \<Rightarrow> Some (st, 0))
        | None \<Rightarrow>
            (case xml_strstr doc 0 empty_tag of
               Some _ \<Rightarrow> xml_new_element st doc_prefix (Some doc_name) doc_uri
             | None \<Rightarrow> Some (st, 0)))"

text \<open>The loops over the prolog; \<open>found\<close> is the variable that the loop sets, not initialised at first. \<open>doc\<close>
  is the zero-terminated document, \<open>n\<close> the length given.\<close>

function skip_prolog :: "string \<Rightarrow> string \<Rightarrow> nat \<Rightarrow> nat \<Rightarrow> nat option \<Rightarrow> nat option" where
  "skip_prolog pat doc n pos found =
     (if pos < n then
        (case xml_strstr doc pos pat of
           Some p \<Rightarrow> (case strchr doc p CHR ''>'' of None \<Rightarrow> None | Some q \<Rightarrow> skip_prolog pat doc n (q + 1) (Some p))
         | None \<Rightarrow> Some pos)
      else found)"
  by pat_completeness auto

termination
proof (relation "measure (\<lambda>(pat, doc, n, pos, found). n - pos)", goal_cases)
  case (2 pat doc n pos found p q)
  then have "pos \<le> p" "p \<le> q" using xml_strstr_ge strchr_Some by blast+
  with 2(1) show ?case by simp
qed simp

declare skip_prolog.simps [simp del]

definition xml_parse :: "xml \<Rightarrow> string \<Rightarrow> nat \<Rightarrow> (xml \<times> nat) option" where
  "xml_parse st doc doc_len = do {
     proc_inst \<leftarrow> skip_prolog ''<?'' doc doc_len 0 None;
     comment \<leftarrow> skip_prolog ''<!'' doc doc_len 0 None;
     let prolog_end = (if proc_inst > comment then proc_inst else comment);
     if prolog_end \<le> doc_len \<and> doc_len \<le> length doc
     then xml_parse_doc_buf st (sub_str doc prolog_end doc_len) 0
     else None
   }"

end
