(* ===== verification/XmlFind.thy ===== *)
theory XmlFind
  imports XmlTree
begin

text \<open>
  The operations of \<open>xml.c\<close> that only read a tree: counting and finding elements and paths, the size of
  the text of a tree and the text itself. All of them walk a list of siblings in the same way; the
  locale \<open>sibling_loop\<close> states the walk and proves once that it folds over the children.
\<close>

locale sibling_loop =
  fixes st :: xml
    and loop :: "nat \<Rightarrow> 'b \<Rightarrow> 'b option"
    and body :: "xml_node \<Rightarrow> nat \<Rightarrow> 'b \<Rightarrow> 'b option"
  assumes loop_step: "loop p acc = (if p \<noteq> 0 then do {
       n \<leftarrow> nodes st p;
       acc \<leftarrow> body n p acc;
       loop (n_next n) acc
     } else Some acc)"
begin

lemma loop_fold:
  assumes "seg st par prv 0 ks"
    and "\<And>k acc prv nxt. k \<in> set ks \<Longrightarrow> rep st par prv nxt k \<Longrightarrow> ok (g k acc)
      \<Longrightarrow> body (node_of par prv nxt k) (addr k) acc = Some (g k acc)"
    and mono: "\<And>k acc. ok (g k acc) \<Longrightarrow> ok acc"
    and "ok (fold g ks acc)"
  shows "loop (first ks) acc = Some (fold g ks acc)"
  using assms(1,2,4)
proof (induction ks arbitrary: prv acc)
  case Nil
  then show ?case by (subst loop_step) simp
next
  case (Cons k ks)
  have okm: "ok (fold g js a) \<Longrightarrow> ok a" for js a by (induction js arbitrary: a) (auto dest: mono)
  define nxt where "nxt = first ks"
  have k: "rep st par prv nxt k" "seg st par (addr k) 0 ks"
  proof -
    have "rep st par prv (if ks = [] then 0 else first ks) k" using Cons.prems(1) unfolding seg.simps by blast
    then show "rep st par prv nxt k" by (cases ks) (simp_all add: nxt_def)
    show "seg st par (addr k) 0 ks" using Cons.prems(1) unfolding seg.simps by blast
  qed
  have n: "nodes st (addr k) = Some (node_of par prv nxt k)" "addr k \<noteq> 0" using rep_node [OF k(1)] by auto
  have x: "n_next (node_of par prv nxt k) = first ks" by (cases k) (simp_all add: nxt_def)
  have "ok (g k acc)" using okm Cons.prems(3) by simp
  then have b: "body (node_of par prv nxt k) (addr k) acc = Some (g k acc)"
    using Cons.prems(2) [OF _ k(1)] by simp
  have "loop (first ks) (g k acc) = Some (fold g ks (g k acc))"
    using Cons.IH [OF k(2)] Cons.prems(2,3) by simp
  then show ?case using n b x by (subst loop_step) simp
qed

end

section \<open>Elements by name\<close>

interpretation element_count: sibling_loop st "\<lambda>p count. element_count True st p name count"
    "\<lambda>n p count. element_count False st p name count" for st name
proof
  fix p acc
  show "element_count True st p name acc = (if p \<noteq> 0 then do {
       n \<leftarrow> nodes st p;
       acc \<leftarrow> element_count False st p name acc;
       element_count True st (n_next n) name acc
     } else Some acc)"
    by (subst element_count.simps, cases "nodes st p") (auto split: bind_splits)
qed

interpretation find_element: sibling_loop st "\<lambda>p found. find_element True cap st p name found"
    "\<lambda>n p found. find_element False cap st p name found" for st cap name
proof
  fix p acc
  show "find_element True cap st p name acc = (if p \<noteq> 0 then do {
       n \<leftarrow> nodes st p;
       acc \<leftarrow> find_element False cap st p name acc;
       find_element True cap st (n_next n) name acc
     } else Some acc)"
    by (subst find_element.simps, cases "nodes st p") (auto split: bind_splits)
qed

text \<open>The elements with the name, in document order.\<close>

fun elems :: "string \<Rightarrow> xtree \<Rightarrow> nat list" where
  "elems name (XText a s) = []"
| "elems name (XElem a pf nm ur at ks) = (if nm = name then [a] else []) @ concat (map (elems name) ks)"

lemma fold_add: "fold (\<lambda>k c. c + length (f k)) ks c = c + length (concat (map f ks))"
  by (induction ks arbitrary: c) auto

lemma fold_app: "fold (\<lambda>k c. c @ f k) ks c = c @ concat (map f ks)"
  by (induction ks arbitrary: c) auto

lemma kinds [simp]:
  "is_element (node_of par prv nxt (XText a s)) = False" "is_text (node_of par prv nxt (XText a s)) = True"
  "is_element (node_of par prv nxt (XElem a pf nm ur at ks)) = True"
  "is_text (node_of par prv nxt (XElem a pf nm ur at ks)) = False"
  by (simp_all add: is_element_def is_text_def)

lemma element_count_tree:
  "rep st par prv nxt t \<Longrightarrow> element_count False st (addr t) name c = Some (c + length (elems name t))"
proof (induction t arbitrary: par prv nxt c)
  case (XText a s)
  then show ?case by (subst element_count.simps) (simp del: node_of.simps)
next
  case (XElem a pf nm ur at ks)
  note r = XElem.prems [unfolded rep_parts]
  have "element_count True st (first ks) name d = Some (fold (\<lambda>k c. c + length (elems name k)) ks d)" for d
    by (rule element_count.loop_fold [OF r [THEN conjunct2, THEN conjunct2], of "\<lambda>_. True"]) (use XElem.IH in auto)
  then have "element_count True st (first ks) name d = Some (d + length (concat (map (elems name) ks)))" for d
    by (simp only: fold_add)
  then show ?case using r by (subst element_count.simps) (simp add: is_element_def)
qed

lemma find_element_tree:
  "rep st par prv nxt t \<Longrightarrow> length (c @ elems name t) \<le> cap \<Longrightarrow>
   find_element False cap st (addr t) name c = Some (c @ elems name t)"
proof (induction t arbitrary: par prv nxt c)
  case (XText a s)
  then show ?case by (subst find_element.simps) (simp del: node_of.simps)
next
  case (XElem a pf nm ur at ks)
  note r = XElem.prems(1) [unfolded rep_parts]
  have l: "find_element True cap st (first ks) name d = Some (d @ concat (map (elems name) ks))"
    if d: "length (d @ concat (map (elems name) ks)) \<le> cap" for d
  proof -
    have "find_element True cap st (first ks) name d = Some (fold (\<lambda>k c. c @ elems name k) ks d)"
      by (rule find_element.loop_fold [OF r [THEN conjunct2, THEN conjunct2], of "\<lambda>c. length c \<le> cap"])
        (use XElem.IH d in \<open>auto simp: fold_app\<close>)
    then show ?thesis by (simp only: fold_app)
  qed
  show ?case using r XElem.prems(2) l by (subst find_element.simps) (auto simp: is_element_def add_node_def)
qed

lemma find_element_rep:
  "rep st par prv nxt t \<Longrightarrow> xml_find_element st (addr t) name = Some (elems name t)"
  unfolding xml_find_element_def xml_element_count_def
  using find_element_tree [of st par prv nxt t "[]"] by (simp add: element_count_tree)

section \<open>Paths\<close>

interpretation path_count: sibling_loop st "\<lambda>p count. path_count True st p path count"
    "\<lambda>n p count. path_count False st p path count" for st path
proof
  fix p acc
  show "path_count True st p path acc = (if p \<noteq> 0 then do {
       n \<leftarrow> nodes st p;
       acc \<leftarrow> path_count False st p path acc;
       path_count True st (n_next n) path acc
     } else Some acc)"
    by (subst path_count.simps, cases "nodes st p"; cases "path_count False st p path acc") simp_all
qed

interpretation find_path: sibling_loop st "\<lambda>p found. find_path True cap st p path found"
    "\<lambda>n p found. find_path False cap st p path found" for st cap path
proof
  fix p acc
  show "find_path True cap st p path acc = (if p \<noteq> 0 then do {
       n \<leftarrow> nodes st p;
       acc \<leftarrow> find_path False cap st p path acc;
       find_path True cap st (n_next n) path acc
     } else Some acc)"
    by (subst find_path.simps, cases "nodes st p"; cases "find_path False cap st p path acc") simp_all
qed

text \<open>The nodes a path leads to.\<close>

fun paths :: "string \<Rightarrow> xtree \<Rightarrow> nat list" where
  "paths path (XText a s) = []"
| "paths path (XElem a pf nm ur at ks) =
    (case path_step path of None \<Rightarrow> []
     | Some (prefix, name, rear) \<Rightarrow>
       if pf = prefix \<and> nm = name then
         (case rear of None \<Rightarrow> [a] | Some rest \<Rightarrow> concat (map (paths rest) ks))
       else [])"

lemma path_count_tree:
  "rep st par prv nxt t \<Longrightarrow> path_count False st (addr t) path c = Some (c + length (paths path t))"
proof (induction t arbitrary: par prv nxt path c)
  case (XText a s)
  then show ?case by (subst path_count.simps) (simp del: node_of.simps)
next
  case (XElem a pf nm ur at ks)
  note r = XElem.prems [unfolded rep_parts]
  have "path_count True st (first ks) rest d = Some (fold (\<lambda>k c. c + length (paths rest k)) ks d)" for rest d
    by (rule path_count.loop_fold [OF r [THEN conjunct2, THEN conjunct2], of "\<lambda>_. True"]) (use XElem.IH in auto)
  then have "path_count True st (first ks) rest d = Some (d + length (concat (map (paths rest) ks)))" for rest d
    by (simp only: fold_add)
  then show ?case using r
    by (subst path_count.simps) (simp add: is_element_def step_matches_def split: option.split)
qed

lemma find_path_tree:
  "rep st par prv nxt t \<Longrightarrow> length (c @ paths path t) \<le> cap \<Longrightarrow>
   find_path False cap st (addr t) path c = Some (c @ paths path t)"
proof (induction t arbitrary: par prv nxt path c)
  case (XText a s)
  then show ?case by (subst find_path.simps) (simp del: node_of.simps)
next
  case (XElem a pf nm ur at ks)
  note r = XElem.prems(1) [unfolded rep_parts]
  have l: "find_path True cap st (first ks) rest d = Some (d @ concat (map (paths rest) ks))"
    if d: "length (d @ concat (map (paths rest) ks)) \<le> cap" for rest d
  proof -
    have "find_path True cap st (first ks) rest d = Some (fold (\<lambda>k c. c @ paths rest k) ks d)"
      by (rule find_path.loop_fold [OF r [THEN conjunct2, THEN conjunct2], of "\<lambda>c. length c \<le> cap"])
        (use XElem.IH d in \<open>auto simp: fold_app\<close>)
    then show ?thesis by (simp only: fold_app)
  qed
  show ?case using r XElem.prems(2) l
    by (subst find_path.simps)
      (auto simp: is_element_def step_matches_def add_node_def split: option.splits)
qed

lemma find_path_rep:
  "rep st par prv nxt t \<Longrightarrow> xml_find_path st (addr t) path = Some (paths path t)"
  unfolding xml_find_path_def xml_path_count_def
  using find_path_tree [of st par prv nxt t "[]"] by (simp add: path_count_tree)

text \<open>A path written from its steps, and the nodes reached along them.\<close>

definition step_text :: "string option \<times> string \<Rightarrow> string" where
  "step_text s = ''/'' @ (case fst s of None \<Rightarrow> '''' | Some p \<Rightarrow> p @ '':'') @ snd s"

definition step_ok :: "string option \<times> string \<Rightarrow> bool" where
  "step_ok s \<longleftrightarrow> (\<forall>x \<in> {snd s} \<union> set_option (fst s). CHR ''/'' \<notin> set x \<and> CHR '':'' \<notin> set x)"

fun along :: "(string option \<times> string) list \<Rightarrow> xtree \<Rightarrow> nat list" where
  "along [] t = []"
| "along (s # ss) (XText a x) = []"
| "along (s # ss) (XElem a pf nm ur at ks) =
    (if s = (pf, nm) then (if ss = [] then [a] else concat (map (along ss) ks)) else [])"

lemma path_step_text:
  assumes s: "step_ok s" and r: "r = [] \<or> (\<exists>r'. r = CHR ''/'' # r')"
  shows "path_step (step_text s @ r) = Some (fst s, snd s, if r = [] then None else Some r)"
proof -
  obtain pf nm where e: "s = (pf, nm)" by (cases s)
  have nm: "CHR ''/'' \<notin> set nm" "CHR '':'' \<notin> set nm" using s by (auto simp: step_ok_def e)
  have pf: "CHR ''/'' \<notin> set p" "CHR '':'' \<notin> set p" if "pf = Some p" for p using s that by (auto simp: step_ok_def e)
  have z: "strchr (CHR ''/'' # w) 0 CHR ''/'' = Some 0" for w by (simp add: strchr_def)
  have i: "index_of c (u @ v) = (if c \<in> set u then index_of c u else map_option ((+) (length u)) (index_of c v))" for c u v
  proof (induction u)
    case Nil
    show ?case by (cases "index_of c v") simp_all
  qed (auto simp: option.map_comp o_def)
  show ?thesis
  proof (cases pf)
    case None
    show ?thesis
    proof (cases "r = []")
      case True
      then show ?thesis using nm None z
        by (simp add: path_step_def e step_text_def strchr_def index_of_None [THEN iffD2])
    next
      case False
      then obtain r' where r': "r = CHR ''/'' # r'" using r by blast
      have f: "strchr (CHR ''/'' # nm @ r) 1 CHR ''/'' = Some (1 + length nm)"
        using nm by (simp add: strchr_def r' index_of_append)
      have "1 + length nm \<le> p" if "strchr (CHR ''/'' # nm @ r) 1 CHR '':'' = Some p" for p
        using that nm by (auto simp: strchr_def i)
      then show ?thesis using None z f r'
        by (auto simp: path_step_def e step_text_def split: option.split)
    qed
  next
    case (Some p)
    note np = pf [OF Some]
    have c: "strchr (CHR ''/'' # p @ CHR '':'' # nm @ r) 1 CHR '':'' = Some (1 + length p)"
      using np by (simp add: strchr_def index_of_append)
    have f: "strchr (CHR ''/'' # p @ CHR '':'' # nm @ r) 1 CHR ''/''
      = (if r = [] then None else Some (2 + length p + length nm))"
    proof (cases "r = []")
      case False
      then obtain r' where r': "r = CHR ''/'' # r'" using r by blast
      have "index_of CHR ''/'' ((p @ CHR '':'' # nm) @ CHR ''/'' # r') = Some (length (p @ CHR '':'' # nm))"
        by (rule index_of_append) (use np nm in auto)
      then show ?thesis by (simp add: strchr_def r')
    qed (use np nm in \<open>simp add: strchr_def index_of_None\<close>)
    show ?thesis using Some z c f by (simp add: path_step_def e step_text_def)
  qed
qed

lemma paths_along:
  "ss \<noteq> [] \<Longrightarrow> list_all step_ok ss \<Longrightarrow> paths (concat (map step_text ss)) t = along ss t"
proof (induction ss arbitrary: t)
  case (Cons s ss)
  have "path_step (concat (map step_text (s # ss)))
    = Some (fst s, snd s, if concat (map step_text ss) = [] then None else Some (concat (map step_text ss)))"
    unfolding list.map concat.simps
  proof (rule path_step_text)
    show "step_ok s" using Cons.prems by simp
    show "concat (map step_text ss) = [] \<or> (\<exists>r'. concat (map step_text ss) = CHR ''/'' # r')"
      by (cases ss) (auto simp: step_text_def)
  qed
  moreover have "concat (map step_text ss) = [] \<longleftrightarrow> ss = []" by (cases ss) (auto simp: step_text_def)
  ultimately show ?case using Cons by (cases t) (auto cong: map_cong)
qed simp

section \<open>The text of a tree\<close>

fun is_elem :: "xtree \<Rightarrow> bool" where
  "is_elem (XText a s) = False"
| "is_elem (XElem a pf nm ur at ks) = True"

definition brk_text :: "int \<Rightarrow> int \<Rightarrow> string" where
  "brk_text level space = [CHR 0x0A] @ concat (replicate (nat level) (replicate (nat space) CHR '' ''))"

definition start_text :: "xtree \<Rightarrow> string" where
  "start_text t = concat (start_tag (node_of 0 0 0 t))"

definition end_text :: "xtree \<Rightarrow> string" where
  "end_text t = concat (end_tag (node_of 0 0 0 t))"

fun text_of :: "int \<Rightarrow> int \<Rightarrow> xtree \<Rightarrow> string" where
  "text_of level space (XText a s) = s"
| "text_of level space (XElem a pf nm ur at ks) =
     start_text (XElem a pf nm ur at ks)
     @ concat (map (\<lambda>k. (if is_elem k \<and> level \<noteq> 0 then brk_text level space else [])
          @ text_of (next_level level) space k) ks)
     @ (if ks \<noteq> [] \<and> is_elem (last ks) \<and> level \<noteq> 0 then brk_text (level - 1) space else [])
     @ end_text (XElem a pf nm ur at ks)"

interpretation tree_size: sibling_loop st "\<lambda>p acc. tree_size True st p level space acc"
    "\<lambda>n p acc. do {
       r \<leftarrow> tree_size False st p (next_level level) space (0, False);
       Some (fst acc + (if is_element n \<and> level \<noteq> 0 then 1 + level * space else 0) + fst r, is_element n)
     }" for st level space
proof
  fix p acc
  show "tree_size True st p level space acc = (if p \<noteq> 0 then do {
       n \<leftarrow> nodes st p;
       acc \<leftarrow> do {
         r \<leftarrow> tree_size False st p (next_level level) space (0, False);
         Some (fst acc + (if is_element n \<and> level \<noteq> 0 then 1 + level * space else 0) + fst r, is_element n)
       };
       tree_size True st (n_next n) level space acc
     } else Some acc)"
    by (subst tree_size.simps, cases "nodes st p"; cases "tree_size False st p (next_level level) space (0, False)")
      (simp_all add: Let_def)
qed

interpretation dump: sibling_loop st "\<lambda>p acc. dump_rec True cap st p level space acc"
    "\<lambda>n p acc. do {
       buf \<leftarrow> (if is_element n \<and> level \<noteq> 0 then indent cap (fst acc) (nat level) space else Some (fst acc));
       r \<leftarrow> dump_rec False cap st p (next_level level) space (buf, False);
       Some (fst r, is_element n)
     }" for st cap level space
proof
  fix p acc
  show "dump_rec True cap st p level space acc = (if p \<noteq> 0 then do {
       n \<leftarrow> nodes st p;
       acc \<leftarrow> do {
         buf \<leftarrow> (if is_element n \<and> level \<noteq> 0 then indent cap (fst acc) (nat level) space else Some (fst acc));
         r \<leftarrow> dump_rec False cap st p (next_level level) space (buf, False);
         Some (fst r, is_element n)
       };
       dump_rec True cap st (n_next n) level space acc
     } else Some acc)"
    by (subst dump_rec.simps, cases "nodes st p") (simp_all add: Let_def)
qed

lemma tag_links [simp]:
  "concat (start_tag (node_of par prv nxt t)) = start_text t"
  "concat (end_tag (node_of par prv nxt t)) = end_text t"
  by (cases t; simp add: start_text_def end_text_def start_tag_def end_tag_def)+

lemma start_size_length:
  "start_size (node_of par prv nxt (XElem a pf nm ur at ks)) = int (length (start_text (XElem a pf nm ur at ks)))"
  by (cases pf; cases at) (simp_all add: start_size_def start_text_def start_tag_def opt_len_def opt_str_def)

lemma end_size_length:
  "end_size (node_of par prv nxt (XElem a pf nm ur at ks)) = int (length (end_text (XElem a pf nm ur at ks)))"
  by (cases pf) (simp_all add: end_size_def end_text_def end_tag_def opt_len_def opt_str_def)

lemma n_child_node_of [simp]: "n_child (node_of par prv nxt t) = first (kids t)"
  by (cases t) simp_all

lemma length_brk_text: "0 \<le> level \<Longrightarrow> 0 \<le> space \<Longrightarrow> int (length (brk_text level space)) = 1 + level * space"
  by (simp add: brk_text_def length_concat sum_list_replicate)

lemma is_element_elem [simp]: "is_element (node_of par prv nxt t) = is_elem t"
  by (cases t) (simp_all del: node_of.simps)

definition size_step :: "int \<Rightarrow> int \<Rightarrow> xtree \<Rightarrow> int \<times> bool \<Rightarrow> int \<times> bool" where
  "size_step level space k acc = (fst acc + (if is_elem k \<and> level \<noteq> 0 then 1 + level * space else 0)
     + int (length (text_of (next_level level) space k)), is_elem k)"

lemma size_fold:
  assumes "0 \<le> level" "0 \<le> space"
  shows "fold (size_step level space) ks (c, b) = (c + int (length (concat (map (\<lambda>k.
       (if is_elem k \<and> level \<noteq> 0 then brk_text level space else []) @ text_of (next_level level) space k) ks))),
     if ks = [] then b else is_elem (last ks))"
  by (induction ks arbitrary: c b) (auto simp: size_step_def length_brk_text assms)

lemma tree_size_tree:
  "rep st par prv nxt t \<Longrightarrow> 0 \<le> level \<Longrightarrow> 0 \<le> space \<Longrightarrow>
   tree_size False st (addr t) level space acc = Some (int (length (text_of level space t)), False)"
proof (induction t arbitrary: par prv nxt level acc)
  case (XText a s)
  then show ?case by (subst tree_size.simps) (simp add: is_text_def opt_len_def)
next
  case (XElem a pf nm ur at ks)
  note r = XElem.prems(1) [unfolded rep_parts]
  have nl: "0 \<le> next_level level" using XElem.prems(2) by (simp add: next_level_def)
  have "tree_size True st (first ks) level space d = Some (fold (size_step level space) ks d)" for d
    by (rule tree_size.loop_fold [OF r [THEN conjunct2, THEN conjunct2], of "\<lambda>_. True"])
      (use XElem.IH nl XElem.prems in \<open>auto simp: size_step_def\<close>)
  moreover have "level \<noteq> 0 \<Longrightarrow> int (length (brk_text (level - 1) space)) = 1 + (level - 1) * space"
    using XElem.prems(2,3) by (intro length_brk_text) auto
  ultimately show ?case using r XElem.prems(2,3)
    by (subst tree_size.simps) (auto simp del: node_of.simps simp: size_fold start_size_length end_size_length)
qed

lemma tree_size_rep:
  "rep st par prv nxt t \<Longrightarrow> 0 \<le> level \<Longrightarrow> 0 \<le> space \<Longrightarrow>
   xml_tree_size st (addr t) level space = Some (int (length (text_of level space t)))"
  by (simp add: xml_tree_size_def tree_size_tree)

lemma strcats_eq:
  "length buf + length (concat ss) < cap \<Longrightarrow> strcats cap buf ss = Some (buf @ concat ss)"
  by (induction ss arbitrary: buf) (auto simp: strcat_def)

lemma indent_eq:
  assumes "0 \<le> space" "space \<le> 10" "length (buf @ brk_text level space) < cap"
  shows "indent cap buf (nat level) space = Some (buf @ brk_text level space)"
  using assms by (simp add: indent_def strcat_def brk_text_def strcats_eq)

definition dump_step :: "int \<Rightarrow> int \<Rightarrow> xtree \<Rightarrow> string \<times> bool \<Rightarrow> string \<times> bool" where
  "dump_step level space k acc = (fst acc @ (if is_elem k \<and> level \<noteq> 0 then brk_text level space else [])
     @ text_of (next_level level) space k, is_elem k)"

lemma dump_fold:
  "fold (dump_step level space) ks (c, b) = (c @ concat (map (\<lambda>k.
       (if is_elem k \<and> level \<noteq> 0 then brk_text level space else []) @ text_of (next_level level) space k) ks),
     if ks = [] then b else is_elem (last ks))"
  by (induction ks arbitrary: c b) (auto simp: dump_step_def)

lemma dump_tree:
  "rep st par prv nxt t \<Longrightarrow> 0 \<le> space \<Longrightarrow> space \<le> 10 \<Longrightarrow> length (buf @ text_of level space t) < cap \<Longrightarrow>
   dump_rec False cap st (addr t) level space (buf, b) = Some (buf @ text_of level space t, False)"
proof (induction t arbitrary: par prv nxt level buf b)
  case (XText a s)
  then show ?case by (subst dump_rec.simps) (simp add: is_text_def strcat_def opt_str_def)
next
  case (XElem a pf nm ur at ks)
  let ?t = "XElem a pf nm ur at ks"
  note r = XElem.prems(1) [unfolded rep_parts]
  define kt where "kt = concat (map (\<lambda>k. (if is_elem k \<and> level \<noteq> 0 then brk_text level space else [])
       @ text_of (next_level level) space k) ks)"
  define et where "et = (if ks \<noteq> [] \<and> is_elem (last ks) \<and> level \<noteq> 0 then brk_text (level - 1) space else [])"
  have tx: "text_of level space ?t = start_text ?t @ kt @ et @ end_text ?t" by (simp add: kt_def et_def)
  have len: "length buf + length (start_text ?t) + length kt + length et + length (end_text ?t) < cap"
    using XElem.prems(4) unfolding tx by simp
  have s: "strcats cap buf (start_tag (node_of par prv nxt ?t)) = Some (buf @ start_text ?t)"
    using strcats_eq [of buf "start_tag (node_of par prv nxt ?t)" cap] len by (simp del: node_of.simps)
  have "dump_rec True cap st (first ks) level space (buf @ start_text ?t, False)
      = Some (fold (dump_step level space) ks (buf @ start_text ?t, False))"
  proof (rule dump.loop_fold [OF r [THEN conjunct2, THEN conjunct2], of "\<lambda>acc. length (fst acc) < cap"])
    show "length (fst (dump_step level space k acc)) < cap \<Longrightarrow> length (fst acc) < cap" for k acc
      by (simp add: dump_step_def)
    show "length (fst (fold (dump_step level space) ks (buf @ start_text ?t, False))) < cap"
      using len by (simp add: dump_fold kt_def)
    fix k acc prv nxt assume k: "k \<in> set ks" "rep st a prv nxt k" "length (fst (dump_step level space k acc)) < cap"
    have i: "(if is_elem k \<and> level \<noteq> 0 then indent cap (fst acc) (nat level) space else Some (fst acc))
        = Some (fst acc @ (if is_elem k \<and> level \<noteq> 0 then brk_text level space else []))"
      using indent_eq [OF XElem.prems(2,3), of "fst acc" level cap] k(3) by (auto simp: dump_step_def)
    show "do {
        buf \<leftarrow> (if is_element (node_of a prv nxt k) \<and> level \<noteq> 0 then indent cap (fst acc) (nat level) space else Some (fst acc));
        r \<leftarrow> dump_rec False cap st (addr k) (next_level level) space (buf, False);
        Some (fst r, is_element (node_of a prv nxt k))
      } = Some (dump_step level space k acc)"
      using XElem.IH [OF k(1,2) XElem.prems(2,3)] k(3) unfolding is_element_elem i by (simp add: dump_step_def)
  qed
  then have l: "dump_rec True cap st (first ks) level space (buf @ start_text ?t, False)
      = Some ((buf @ start_text ?t) @ kt, ks \<noteq> [] \<and> is_elem (last ks))"
    unfolding dump_fold kt_def by simp
  have e: "(if (ks \<noteq> [] \<and> is_elem (last ks)) \<and> level \<noteq> 0 then indent cap ((buf @ start_text ?t) @ kt) (nat (level - 1)) space
       else Some ((buf @ start_text ?t) @ kt)) = Some ((buf @ start_text ?t) @ kt @ et)"
    using indent_eq [OF XElem.prems(2,3), of "(buf @ start_text ?t) @ kt" "level - 1" cap] len by (auto simp: et_def)
  have z: "strcats cap ((buf @ start_text ?t) @ kt @ et) (end_tag (node_of par prv nxt ?t))
      = Some (((buf @ start_text ?t) @ kt @ et) @ end_text ?t)"
    using strcats_eq [of "(buf @ start_text ?t) @ kt @ et" "end_tag (node_of par prv nxt ?t)" cap] len by (simp del: node_of.simps)
  have nd: "nodes st (addr ?t) = Some (node_of par prv nxt ?t)" using r by (simp del: node_of.simps)
  have k: "is_text (node_of par prv nxt ?t) = False" "is_element (node_of par prv nxt ?t) = True"
    "n_child (node_of par prv nxt ?t) = first ks" by (simp_all del: node_of.simps)
  show ?case unfolding tx
    by (subst dump_rec.simps)
      (simp only: nd k s l e z Option.bind.bind_lunit if_False if_True fst_conv case_prod_conv option.map,
       simp only: append_assoc)
qed

lemma dump_tree_rep:
  assumes "rep st par prv nxt t"
  shows "xml_dump_tree st (addr t) = Some (text_of 0 0 t)"
  using tree_size_rep [OF assms, of 0 0] dump_tree [OF assms, of 0 "[]"]
  by (simp add: xml_dump_tree_def)

lemma concat_length_le:
  "(\<And>k. k \<in> set ks \<Longrightarrow> length (f k) \<le> length (g k)) \<Longrightarrow> length (concat (map f ks)) \<le> length (concat (map g ks))"
  by (induction ks) (auto intro: add_mono)

lemma text_of_flat_le: "length (text_of 0 space t) \<le> length (text_of level space t)"
proof (induction t arbitrary: level)
  case (XElem a pf nm ur at ks)
  have "length (concat (map (text_of 0 space) ks)) \<le> length (concat (map (\<lambda>k.
      (if is_elem k \<and> level \<noteq> 0 then brk_text level space else []) @ text_of (next_level level) space k) ks))"
    by (rule concat_length_le) (simp add: XElem trans_le_add2)
  then show ?case by (simp add: next_level_def)
qed simp

lemma text_of_flat_space: "text_of 0 space t = text_of 0 0 t"
  by (induction t) (simp_all add: next_level_def cong: map_cong)

text \<open>The text that \<open>xml_dump_tree_ex\<close> writes after the prolog fits for the two sensible values of
  \<open>new_line\<close>.\<close>

lemma dump_tree_ex_rep:
  assumes r: "rep st par prv nxt t" and s: "0 \<le> space" and n: "new_line = 0 \<or> new_line = 1"
  shows "xml_dump_tree_ex st (addr t) prolog new_line space
    = Some ((case prolog of None \<Rightarrow> '''' | Some p \<Rightarrow> p @ (if new_line \<noteq> 0 then [CHR 0x0A] else '''')) @ text_of new_line (min space 10) t)"
proof -
  let ?s = "if space > 10 then 10 else space"
  have s': "?s = min space 10" "0 \<le> min space 10" "min space 10 \<le> 10" using s by auto
  note z = tree_size_rep [OF r _ s'(2), of 1]
  have le: "length (text_of new_line (min space 10) t) \<le> length (text_of 1 (min space 10) t)"
    using n text_of_flat_le by auto
  have d: "dump_rec False cap st (addr t) new_line (min space 10) (buf, False) = Some (buf @ text_of new_line (min space 10) t, False)"
    if "length buf + length (text_of 1 (min space 10) t) < cap" for buf cap
    using dump_tree [OF r s'(2,3), of buf new_line cap False] that le by simp
  show ?thesis
  proof (cases prolog)
    case None
    then show ?thesis using z d [of "[]"] le unfolding xml_dump_tree_ex_def s' by simp
  next
    case (Some p)
    let ?z = "length (text_of 1 (min space 10) t)"
    have c: "nat (int (length p) + int ?z + 2) = length p + ?z + 2" "nat (int (length p) + int ?z + 1) = length p + ?z + 1"
      by linarith+
    show ?thesis
    proof (cases "new_line = 0")
      case True
      then show ?thesis using z d [of p "length p + ?z + 1"] unfolding xml_dump_tree_ex_def s'
        by (simp add: Some c strcat_def)
    next
      case False
      then show ?thesis using z d [of "p @ [CHR 0x0A]" "length p + ?z + 2"] unfolding xml_dump_tree_ex_def s'
        by (simp add: Some c strcat_def)
    qed
  qed
qed

end
