(* ===== verification/XmlRound.thy ===== *)
theory XmlRound
  imports XmlParse XmlFind
begin

text \<open>
  Writing a tree and parsing the text gives a tree of the same shape, for the trees whose text the parser
  can read: \<open>simple\<close> says which. The main restriction is the parser's search for the first end tag:
  no element may have the name of an element around it.
\<close>

definition qname :: "string option \<Rightarrow> string \<Rightarrow> string" where
  "qname pf nm = (case pf of None \<Rightarrow> '''' | Some p \<Rightarrow> p @ '':'') @ nm"

definition tag_text :: "string option \<Rightarrow> string \<Rightarrow> string option \<Rightarrow> string" where
  "tag_text pf nm at = qname pf nm @ (case at of None \<Rightarrow> '''' | Some a \<Rightarrow> '' '' @ a)"

text \<open>The attributes of a tag as one text, without angle brackets, without a blank at its ends and without a slash at its
  end. The namespace of the element is the one it declares first, and it has none when it declares none; a declaration is
  \<open>xmlns="..."\<close>, with a colon and the prefix behind \<open>xmlns\<close> where the element has one.\<close>

definition ns_mark :: "string option \<Rightarrow> string" where
  "ns_mark pf = '' xmlns'' @ (case pf of None \<Rightarrow> '''' | Some p \<Rightarrow> '':'' @ p)"

definition ns_ok :: "string option \<Rightarrow> string option \<Rightarrow> string \<Rightarrow> bool" where
  "ns_ok pf ur a = (case ur of
       None \<Rightarrow> (\<forall>k < Suc (length a). \<not> occurs_at (CHR '' '' # a) (ns_mark pf) k)
     | Some u \<Rightarrow> (let d = ns_mark pf @ [CHR ''='', CHR 0x22] @ u @ [CHR 0x22] in
         take (length d) (CHR '' '' # a) = d \<and> CHR 0x22 \<notin> set u \<and> {CHR ''='', CHR 0x22} \<inter> set (ns_mark pf) = {}))"

definition attr_text_ok :: "string \<Rightarrow> bool" where
  "attr_text_ok a \<longleftrightarrow> a \<noteq> [] \<and> hd a \<noteq> CHR '' '' \<and> last a \<notin> {CHR '' '', CHR ''/''} \<and> set a \<inter> {CHR ''<'', CHR ''>''} = {}"

text \<open>A tag whose names have no blank, colon, slash or angle bracket, that does not look like a part of the prolog.\<close>

definition tag_ok :: "string option \<Rightarrow> string \<Rightarrow> string option \<Rightarrow> string option \<Rightarrow> bool" where
  "tag_ok pf nm ur at \<longleftrightarrow> plain nm \<and> (case pf of None \<Rightarrow> True | Some p \<Rightarrow> plain p)
     \<and> hd (qname pf nm) \<notin> {CHR ''?'', CHR ''!''}
     \<and> (case at of None \<Rightarrow> ur = None | Some a \<Rightarrow> attr_text_ok a \<and> ns_ok pf ur a)"

text \<open>Such a tag is read back as it was written.\<close>

lemma scan_behind: "c \<notin> set q \<Longrightarrow> strstr_scan (q @ s) (c # p) = map_option ((+) (length q)) (strstr_scan s (c # p))"
proof (induction q)
  case Nil
  then show ?case by (cases "strstr_scan s (c # p)") simp_all
next
  case (Cons x q)
  then show ?case by (cases "strstr_scan s (c # p)") auto
qed

lemma trim_attr: "attr_text_ok a \<Longrightarrow> trim (CHR '' '' # a) = a"
proof -
  assume a: "attr_text_ok a"
  have "dropWhile (\<lambda>c. c = CHR '' '') xs = xs" if "xs \<noteq> []" "hd xs \<noteq> CHR '' ''" for xs
    using that by (cases xs) auto
  moreover have "hd (rev a) \<noteq> CHR '' ''" using a by (simp add: attr_text_ok_def hd_rev)
  ultimately show ?thesis using a by (simp add: trim_def attr_text_ok_def)
qed

lemma strip_attr: "attr_text_ok a \<Longrightarrow> i = length q \<Longrightarrow> n = Suc (length a) \<Longrightarrow> str_strip (q @ CHR '' '' # a) i n = Some a"
  by (simp add: str_strip_trim trim_attr) (simp add: attr_text_ok_def)

lemma ns_none:
  assumes "ns_ok pf None a"
  shows "strstr_scan (CHR '' '' # a) (ns_mark pf) = None"
proof -
  have ne: "ns_mark pf \<noteq> []" by (simp add: ns_mark_def)
  have "\<not> occurs_at (CHR '' '' # a) (ns_mark pf) k" for k
  proof (cases "k < Suc (length a)")
    case True
    then show ?thesis using assms by (simp add: ns_ok_def)
  next
    case False
    then show ?thesis using ne by (auto simp: occurs_at_def)
  qed
  then show ?thesis using strstr_scan_None [OF ne] by blast
qed

lemma ns_some:
  assumes "ns_ok pf (Some u) a"
  shows "strstr_scan (CHR '' '' # a) (ns_mark pf) = Some 0"
    "ns_value (q @ CHR '' '' # a) (length q) = Some u"
proof -
  let ?m = "ns_mark pf"
  obtain r where r: "CHR '' '' # a = ?m @ CHR ''='' # CHR 0x22 # u @ CHR 0x22 # r"
    using assms append_take_drop_id [of "length (?m @ [CHR ''='', CHR 0x22] @ u @ [CHR 0x22])" "CHR '' '' # a"]
    by (simp add: ns_ok_def Let_def) (metis append_Cons)
  have n: "CHR 0x22 \<notin> set u" "CHR ''='' \<notin> set ?m" "CHR 0x22 \<notin> set ?m" using assms by (auto simp: ns_ok_def Let_def)
  have ne: "?m \<noteq> []" by (simp add: ns_mark_def)
  show "strstr_scan (CHR '' '' # a) ?m = Some 0"
    unfolding strstr_scan_Some [OF ne] r by (simp add: occurs_at_def)
  let ?t = "q @ CHR '' '' # a"
  have t: "?t = q @ ?m @ CHR ''='' # CHR 0x22 # u @ CHR 0x22 # r" using r by simp
  have 1: "strchr ?t (length q) CHR ''='' = Some (length q + length ?m)"
    unfolding t using strchr_at [of "length q" q "CHR ''=''" ?m] n(2) by simp
  have 2: "strchr ?t (length q) CHR 0x22 = Some (length q + Suc (length ?m))"
    unfolding t using strchr_at [of "length q" q "CHR 0x22" "?m @ ''=''"] n(3) by simp
  have 3: "strchr ?t (length q + Suc (Suc (length ?m))) CHR 0x22 = Some (length q + Suc (Suc (length ?m)) + length u)"
    unfolding t using strchr_at [of "length q + Suc (Suc (length ?m))" "q @ ?m @ [CHR ''='', CHR 0x22]" "CHR 0x22" u] n(1) by simp
  have 4: "char_at ?t (Suc (length q + length ?m)) = CHR 0x22"
    unfolding t by (simp add: char_at_def nth_append)
  have 5: "take (length u) (drop (length q + Suc (Suc (length ?m))) ?t) = u"
    unfolding t by simp
  show "ns_value ?t (length q) = Some u"
    unfolding ns_value_def using 1 2 3 4 5 by simp
qed

lemma tag_back:
  assumes ok: "tag_ok pf nm ur at"
  shows "parse_tag_attr (tag_text pf nm at) = Some (pf, Some nm, ur, at)"
proof (cases at)
  case None
  then show ?thesis using ok parse_tag_plain parse_tag_prefixed
    by (cases pf) (simp_all add: tag_ok_def tag_text_def qname_def)
next
  case (Some a)
  have n: "plain nm" "attr_text_ok a" "ns_ok pf ur a" using ok Some by (simp_all add: tag_ok_def)
  let ?q = "qname pf nm" and ?t = "tag_text pf nm at"
  have t: "?t = ?q @ CHR '' '' # a" using Some by (simp add: tag_text_def)
  have q: "CHR '' '' \<notin> set ?q" using ok plainD(2) by (auto simp: qname_def tag_ok_def split: option.splits)
  have sp: "strchr ?t 0 CHR '' '' = Some (length ?q)" unfolding t using strchr_at [of 0 "[]" "CHR '' ''" ?q a] q by simp
  have at: "str_strip ?t (length ?q) (length ?t - length ?q) = Some a" unfolding t by (rule strip_attr) (use n in simp_all)
  obtain p' where m: "ns_mark pf = CHR '' '' # p'" by (simp add: ns_mark_def)
  have ns: "xml_strstr ?t 0 (ns_mark pf) = (if ur = None then None else Some (length ?q))"
    "ur = Some u \<Longrightarrow> ns_value ?t (length ?q) = Some u" for u
    using scan_behind [OF q, of "CHR '' '' # a" p'] ns_none [of pf a] ns_some [of pf _ a] n(3) unfolding t
    by (cases ur; simp add: xml_strstr_def m)+
  show ?thesis
  proof (cases pf)
    case None
    have nm: "?q = nm" "ns_mark pf = '' xmlns''" using None by (simp_all add: qname_def ns_mark_def)
    have nc: "case strchr ?t 0 CHR '':'' of None \<Rightarrow> True | Some k \<Rightarrow> length nm < k"
    proof (cases "strchr ?t 0 CHR '':''")
      case (Some k)
      then have k: "k < length ?t" "?t ! k = CHR '':''" using strchr_Some [OF Some] by simp_all
      have "\<not> k < length nm"
      proof
        assume "k < length nm"
        then have "nm ! k = CHR '':''" using k(2) unfolding t nm(1) by (simp add: nth_append)
        then show False using \<open>k < length nm\<close> plainD(3) [OF n(1)] by (metis nth_mem)
      qed
      moreover have "k \<noteq> length nm" using k(2) unfolding t nm(1) by auto
      ultimately show ?thesis using Some by simp
    qed simp
    have st: "str_strip ?t 0 (length nm) = Some nm" unfolding t nm(1) using strip_plain [OF n(1), of "[]"] by simp
    show ?thesis
      unfolding parse_tag_attr_def using nc sp at ns st None Some unfolding nm
      by (cases "strchr ?t 0 CHR '':''"; cases ur) (simp_all add: Let_def)
  next
    case (Some p)
    have p: "plain p" using ok Some by (simp add: tag_ok_def)
    have nm: "?q = p @ CHR '':'' # nm" "ns_mark pf = '' xmlns:'' @ p" using Some by (simp_all add: qname_def ns_mark_def)
    have c: "strchr ?t 0 CHR '':'' = Some (length p)"
      unfolding t nm(1) using strchr_at [of 0 "[]" "CHR '':''" p] plainD(3) [OF p] by simp
    have sp2: "strchr ?t (Suc (length p)) CHR '' '' = Some (length ?q)"
      unfolding t nm(1) using strchr_at [of "Suc (length p)" "p @ '':''" "CHR '' ''" nm a] plainD(2) [OF n(1)] by simp
    have s1: "str_strip ?t 0 (length p) = Some p" unfolding t nm(1) using strip_plain [OF p, of "[]"] by simp
    have s2: "str_strip ?t (Suc (length p)) (length ?q - Suc (length p)) = Some nm"
      unfolding t nm(1) using strip_plain [OF n(1), of "p @ '':''"] by simp
    have l: "length p < length ?q" by (simp add: nm(1))
    show ?thesis
      unfolding parse_tag_attr_def using c sp sp2 at ns s1 s2 l Some \<open>at = Some a\<close> unfolding nm(2)
      by (cases ur) (simp_all add: Let_def)
  qed
qed

fun qnames :: "xtree \<Rightarrow> string list" where
  "qnames (XText a s) = []"
| "qnames (XElem a pf nm ur at ks) = qname pf nm # concat (map qnames ks)"

fun simple :: "xtree \<Rightarrow> bool" where
  "simple (XText a s) \<longleftrightarrow> s \<noteq> [] \<and> CHR ''<'' \<notin> set s"
| "simple (XElem a pf nm ur at ks) \<longleftrightarrow> tag_ok pf nm ur at \<and> list_all simple ks
     \<and> (list_all is_elem ks \<or> length ks = 1)
     \<and> qname pf nm \<notin> set (concat (map qnames ks))"

abbreviation "texts ks \<equiv> concat (map (text_of 0 0) ks)"

lemma text_of_elem: "text_of 0 0 (XElem a pf nm ur at ks)
    = ''<'' @ tag_text pf nm at @ ''>'' @ texts ks @ ''</'' @ qname pf nm @ ''>''"
  by (cases pf; cases at) (simp_all add: start_text_def end_text_def start_tag_def end_tag_def opt_str_def
      tag_text_def qname_def next_level_def)

lemma end_tag1_qname: "end_tag1 pf nm = ''</'' @ qname pf nm @ ''>''"
  by (simp add: end_tag1_def qname_def)

section \<open>Where end tags stand\<close>

lemma skip_no_lt:
  assumes "u @ v = x @ CHR ''<'' # r" "CHR ''<'' \<notin> set u"
  shows "\<exists>x'. x = u @ x' \<and> v = x' @ CHR ''<'' # r"
  using assms
proof (induction u arbitrary: x)
  case (Cons a u)
  then show ?case by (cases x) auto
qed simp

lemma same_name:
  assumes "q @ CHR ''>'' # R = q' @ CHR ''>'' # r" "CHR ''>'' \<notin> set q" "CHR ''>'' \<notin> set q'"
  shows "q = q'"
  using assms
proof (induction q arbitrary: q')
  case Nil
  then show ?case by (cases q') auto
next
  case (Cons a q)
  then show ?case by (cases q') auto
qed

lemma tag_okD:
  assumes ok: "tag_ok pf nm ur at"
  shows "CHR ''<'' \<notin> set (qname pf nm)" "CHR ''>'' \<notin> set (qname pf nm)"
    "CHR ''<'' \<notin> set (tag_text pf nm at)" "CHR ''>'' \<notin> set (tag_text pf nm at)"
    "tag_text pf nm at \<noteq> []" "hd (tag_text pf nm at) = hd (qname pf nm)"
    "qname pf nm \<noteq> []" "hd (qname pf nm) \<notin> {CHR ''/'', CHR ''?'', CHR ''!''}"
    "last (tag_text pf nm at) \<noteq> CHR ''/''"
proof -
  have n: "plain nm" "\<And>p. pf = Some p \<Longrightarrow> plain p" using ok by (auto simp: tag_ok_def)
  show q: "CHR ''<'' \<notin> set (qname pf nm)" "CHR ''>'' \<notin> set (qname pf nm)"
    using plainD [OF n(1)] plainD [OF n(2)] by (auto simp: qname_def split: option.splits)
  show "CHR ''<'' \<notin> set (tag_text pf nm at)" "CHR ''>'' \<notin> set (tag_text pf nm at)"
    using ok q by (auto simp: tag_ok_def tag_text_def attr_text_ok_def split: option.splits)
  show ne: "qname pf nm \<noteq> []" using plainD(1) [OF n(1)] by (simp add: qname_def)
  then show "tag_text pf nm at \<noteq> []" "hd (tag_text pf nm at) = hd (qname pf nm)" by (simp_all add: tag_text_def)
  have sl: "CHR ''/'' \<notin> set (qname pf nm)"
    using plainD(6) [OF n(1)] plainD(6) [OF n(2)] by (auto simp: qname_def split: option.splits)
  then have "hd (qname pf nm) \<noteq> CHR ''/''" using ne by (metis hd_in_set)
  then show "hd (qname pf nm) \<notin> {CHR ''/'', CHR ''?'', CHR ''!''}" using ok by (auto simp: tag_ok_def)
  have "last (qname pf nm) \<noteq> CHR ''/''" using sl ne by (metis last_in_set)
  then show "last (tag_text pf nm at) \<noteq> CHR ''/''"
    using ok by (auto simp: tag_text_def tag_ok_def attr_text_ok_def split: option.splits)
qed

text \<open>A position inside the text of a list of trees lies in the text of one of them.\<close>

lemma in_texts:
  assumes "\<And>j S y. j \<in> set ks \<Longrightarrow> text_of 0 0 j @ S = y @ P \<Longrightarrow> length y < length (text_of 0 0 j) \<Longrightarrow> Q j"
    and "texts ks @ S = y @ P" "length y < length (texts ks)"
  shows "\<exists>j\<in>set ks. Q j"
  using assms
proof (induction ks arbitrary: y)
  case (Cons j js)
  have e: "text_of 0 0 j @ (texts js @ S) = y @ P" using Cons.prems(2) by simp
  show ?case
  proof (cases "length y < length (text_of 0 0 j)")
    case True
    then show ?thesis using Cons.prems(1) [OF _ e] by simp
  next
    case False
    define y' where "y' = drop (length (text_of 0 0 j)) y"
    have "take (length (text_of 0 0 j)) (y @ P) = text_of 0 0 j" unfolding e [symmetric] by simp
    then have y: "y = text_of 0 0 j @ y'" using False by (simp add: y'_def) (metis append_take_drop_id)
    then have "texts js @ S = y' @ P" using e by simp
    moreover have "length y' < length (texts js)" using Cons.prems(3) y by simp
    ultimately have "\<exists>j\<in>set js. Q j" using Cons.IH [of y'] Cons.prems(1) by auto
    then show ?thesis by simp
  qed
qed simp

lemma end_tag_in_text:
  "simple t \<Longrightarrow> text_of 0 0 t @ R = x @ ''</'' @ q @ ''>'' @ r \<Longrightarrow> length x < length (text_of 0 0 t)
    \<Longrightarrow> CHR ''>'' \<notin> set q \<Longrightarrow> q \<in> set (qnames t)"
proof (induction t arbitrary: R x)
  case (XText a s)
  then obtain x' where "x = s @ x'" using skip_no_lt [of s R x] by auto
  then show ?case using XText.prems(3) by simp
next
  case (XElem a pf nm ur at ks)
  have ok: "tag_ok pf nm ur at" using XElem.prems(1) by simp
  note o = tag_okD [OF ok]
  let ?q = "qname pf nm"
  have e: "''<'' @ tag_text pf nm at @ ''>'' @ texts ks @ ''</'' @ ?q @ ''>'' @ R = x @ ''</'' @ q @ ''>'' @ r"
    using XElem.prems(2) unfolding text_of_elem by simp
  obtain x1 where x1: "x = CHR ''<'' # x1"
  proof (cases x)
    case Nil
    then have "tag_text pf nm at @ ''>'' @ texts ks @ ''</'' @ ?q @ ''>'' @ R = CHR ''/'' # q @ ''>'' @ r" using e by simp
    then have "hd (tag_text pf nm at) = CHR ''/''" using o(5) by (metis hd_append2 list.sel(1))
    then show thesis using o(6,8) by simp
  qed (use e that in auto)
  have "(tag_text pf nm at @ ''>'') @ (texts ks @ ''</'' @ ?q @ ''>'' @ R) = x1 @ CHR ''<'' # (''/'' @ q @ ''>'' @ r)"
    using e x1 by simp
  moreover have "CHR ''<'' \<notin> set (tag_text pf nm at @ ''>'')" using o(3) by simp
  ultimately obtain x2 where x2: "x1 = (tag_text pf nm at @ ''>'') @ x2"
      "texts ks @ ''</'' @ ?q @ ''>'' @ R = x2 @ CHR ''<'' # (''/'' @ q @ ''>'' @ r)"
    using skip_no_lt by blast
  show ?case
  proof (cases "length x2 < length (texts ks)")
    case True
    have "\<exists>k\<in>set ks. q \<in> set (qnames k)"
    proof (rule in_texts [OF _ x2(2) True])
      show "q \<in> set (qnames j)" if "j \<in> set ks" "text_of 0 0 j @ S = y @ CHR ''<'' # ''/'' @ q @ ''>'' @ r"
          "length y < length (text_of 0 0 j)" for j S y
        by (rule XElem.IH [of j S y]) (use that XElem.prems in \<open>auto simp: list_all_iff\<close>)
    qed
    then show ?thesis by simp
  next
    case False
    define x3 where "x3 = drop (length (texts ks)) x2"
    have "take (length (texts ks)) (x2 @ CHR ''<'' # (''/'' @ q @ ''>'' @ r)) = texts ks"
      unfolding x2(2) [symmetric] by simp
    then have y: "x2 = texts ks @ x3" using False by (simp add: x3_def) (metis append_take_drop_id)
    then have f: "''</'' @ ?q @ ''>'' @ R = x3 @ CHR ''<'' # (''/'' @ q @ ''>'' @ r)" using x2(2) by simp
    have "x3 = []"
    proof (rule ccontr)
      assume "x3 \<noteq> []"
      then obtain x4 where x4: "x3 = CHR ''<'' # x4" using f by (cases x3) auto
      have "(''/'' @ ?q @ ''>'') @ R = x4 @ CHR ''<'' # (''/'' @ q @ ''>'' @ r)" using f x4 by simp
      moreover have "CHR ''<'' \<notin> set (''/'' @ ?q @ ''>'')" using o(1) by simp
      ultimately obtain x5 where "x4 = (''/'' @ ?q @ ''>'') @ x5" using skip_no_lt by blast
      then show False using XElem.prems(3) x1 x2(1) y x4 unfolding text_of_elem by simp
    qed
    then have "?q @ CHR ''>'' # R = q @ CHR ''>'' # r" using f by simp
    then have "?q = q" using same_name o(2) XElem.prems(4) by blast
    then show ?thesis by simp
  qed
qed

lemma strstr_at:
  assumes p: "p \<noteq> []" and d: "drop i buf = K @ p @ R"
    and first: "\<And>x r. K @ p @ R = x @ p @ r \<Longrightarrow> length x < length K \<Longrightarrow> False"
  shows "xml_strstr buf i p = Some (i + length K)"
proof -
  have "occurs_at (K @ p @ R) p (length K)" by (simp add: occurs_at_def)
  moreover have "\<not> occurs_at (K @ p @ R) p j" if j: "j < length K" for j
  proof
    assume o: "occurs_at (K @ p @ R) p j"
    let ?s = "K @ p @ R"
    have "?s = take j ?s @ take (length p) (drop j ?s) @ drop (length p) (drop j ?s)"
      by (simp only: append_take_drop_id)
    then have "?s = take j ?s @ p @ drop (length p) (drop j ?s)" using o by (simp only: occurs_at_def)
    then show False by (rule first) (use j in simp)
  qed
  ultimately have "strstr_scan (K @ p @ R) p = Some (length K)" using strstr_scan_Some [OF p] by blast
  then show ?thesis using p d by (simp add: xml_strstr_def)
qed

lemma find_end_texts:
  assumes "list_all simple ks" "qname pf nm \<notin> set (concat (map qnames ks))" "CHR ''>'' \<notin> set (qname pf nm)"
    and d: "drop i buf = texts ks @ ''</'' @ qname pf nm @ ''>'' @ R"
  shows "find_end buf i pf nm = Some (i + length (texts ks))"
proof -
  let ?p = "''</'' @ qname pf nm @ ''>''"
  have "xml_strstr buf i ?p = Some (i + length (texts ks))"
  proof (rule strstr_at)
    show "drop i buf = texts ks @ ?p @ R" using d by simp
    fix x r assume x: "texts ks @ ?p @ R = x @ ?p @ r" "length x < length (texts ks)"
    have "\<exists>k\<in>set ks. qname pf nm \<in> set (qnames k)"
    proof (rule in_texts [of ks "?p @ r"])
      show "texts ks @ ?p @ R = x @ ?p @ r" "length x < length (texts ks)" by (rule x)+
      fix k S y assume "k \<in> set ks" "text_of 0 0 k @ S = y @ ?p @ r" "length y < length (text_of 0 0 k)"
      then show "qname pf nm \<in> set (qnames k)"
        using end_tag_in_text [of k S y "qname pf nm" r] assms(1,3) by (auto simp: list_all_iff)
    qed
    then show False using assms(2) by auto
  qed simp
  then show ?thesis unfolding find_end_def end_tag1_qname by (simp only: option.case)
qed

section \<open>Parsing the text of a tree\<close>

lemma strchr_drop: "drop i s = u @ c # v \<Longrightarrow> c \<notin> set u \<Longrightarrow> strchr s i c = Some (i + length u)"
  by (simp add: strchr_def index_of_append)

lemma drop_step: "drop i s = u @ v \<Longrightarrow> drop (i + length u) s = v"
  by (metis add.commute append_eq_conv_conj drop_drop)

text \<open>The positions in a buffer where the text of an element starts at \<open>cur\<close>.\<close>

lemma element_positions:
  assumes ok: "tag_ok pf nm ur at" and n: "qname pf nm \<notin> set (concat (map qnames ks))" and s: "list_all simple ks"
    and d: "drop cur buf = text_of 0 0 (XElem a pf nm ur at ks) @ S"
  defines "tag \<equiv> tag_text pf nm at"
  shows "cur < length buf" "strchr buf cur CHR ''<'' = Some cur"
    "strchr buf (cur + 1) CHR ''>'' = Some (cur + 1 + length tag)"
    "buf ! (cur + 1 + length tag - 1) \<noteq> CHR ''/''"
    "take (cur + 1 + length tag - (cur + 1)) (drop (cur + 1) buf) = tag"
    "find_end buf (cur + 1 + length tag + 1) pf nm = Some (cur + 1 + length tag + 1 + length (texts ks))"
    "take (cur + 1 + length tag + 1 + length (texts ks) - (cur + 1 + length tag + 1)) (drop (cur + 1 + length tag + 1) buf) = texts ks"
    "strchr buf (cur + 1 + length tag + 1 + length (texts ks)) CHR ''>''
      = Some (cur + length (text_of 0 0 (XElem a pf nm ur at ks)) - 1)"
proof -
  note o = tag_okD [OF ok, folded tag_def]
  have d0: "drop cur buf = [] @ CHR ''<'' # tag @ ''>'' @ texts ks @ ''</'' @ qname pf nm @ ''>'' @ S"
    using d unfolding text_of_elem tag_def by simp
  have d1: "drop (cur + 1) buf = tag @ CHR ''>'' # texts ks @ ''</'' @ qname pf nm @ ''>'' @ S"
    using drop_step [of cur buf "''<''" "tag @ ''>'' @ texts ks @ ''</'' @ qname pf nm @ ''>'' @ S"] d0 by simp
  have d2: "drop (cur + 1 + length tag + 1) buf = texts ks @ ''</'' @ qname pf nm @ ''>'' @ S"
    using drop_step [of "cur + 1" buf "tag @ ''>''" "texts ks @ ''</'' @ qname pf nm @ ''>'' @ S"] d1 by (simp add: add.assoc)
  have d3: "drop (cur + 1 + length tag + 1 + length (texts ks)) buf = (''</'' @ qname pf nm) @ CHR ''>'' # S"
    using drop_step [OF d2] by simp
  show "cur < length buf" using d0 by (metis drop_eq_Nil append_Nil list.distinct(1) not_le)
  show "strchr buf cur CHR ''<'' = Some cur" using strchr_drop [OF d0] by simp
  show "strchr buf (cur + 1) CHR ''>'' = Some (cur + 1 + length tag)" using strchr_drop [OF d1 o(4)] by simp
  show "take (cur + 1 + length tag - (cur + 1)) (drop (cur + 1) buf) = tag" unfolding d1 by simp
  show "buf ! (cur + 1 + length tag - 1) \<noteq> CHR ''/''"
  proof -
    have l: "0 < length tag" using o(5) by simp
    have "cur + 1 \<le> length buf" using d0 \<open>cur < length buf\<close> by simp
    then have "buf ! (cur + 1 + (length tag - 1)) = drop (cur + 1) buf ! (length tag - 1)" by simp
    also have "\<dots> = last tag" unfolding d1 using l by (simp add: nth_append last_conv_nth)
    finally have "buf ! (cur + 1 + (length tag - 1)) = last tag" .
    moreover have "cur + 1 + length tag - 1 = cur + 1 + (length tag - 1)" using l by simp
    moreover have "last tag \<noteq> CHR ''/''" using tag_okD(9) [OF ok] by (simp add: tag_def)
    ultimately show ?thesis by metis
  qed
  show "find_end buf (cur + 1 + length tag + 1) pf nm = Some (cur + 1 + length tag + 1 + length (texts ks))"
    by (rule find_end_texts [OF s n o(2) d2])
  show "take (cur + 1 + length tag + 1 + length (texts ks) - (cur + 1 + length tag + 1)) (drop (cur + 1 + length tag + 1) buf) = texts ks"
    unfolding d2 by simp
  have "CHR ''>'' \<notin> set (''</'' @ qname pf nm)" using o(2) by simp
  from strchr_drop [OF d3 this]
  show "strchr buf (cur + 1 + length tag + 1 + length (texts ks)) CHR ''>''
      = Some (cur + length (text_of 0 0 (XElem a pf nm ur at ks)) - 1)"
    unfolding text_of_elem tag_def by simp
qed

lemma parse_element_step:
  assumes ok: "tag_ok pf nm ur at" and n: "qname pf nm \<notin> set (concat (map qnames ks))" and s: "list_all simple ks"
    and d: "drop cur buf = text_of 0 0 (XElem a pf nm ur at ks) @ S" and c: "c \<noteq> 0"
    and e: "xml_add_child (alloc_node st (node_of 0 0 0 (XElem (brk st) pf nm ur at []))) c (brk st) = Some st2"
    and i: "parse_loop st2 (texts ks) 0 (brk st) = Some (st3, r)"
  shows "parse_loop st buf cur c = parse_loop st3 buf (cur + length (text_of 0 0 (XElem a pf nm ur at ks))) c"
proof -
  note p = element_positions [OF ok n s d]
  have l: "cur + length (text_of 0 0 (XElem a pf nm ur at ks)) - 1 + 1 = cur + length (text_of 0 0 (XElem a pf nm ur at ks))"
    unfolding text_of_elem by simp
  note pt = tag_back [OF ok]
  show ?thesis
    unfolding parse_loop.simps [of st buf cur]
    using p(1) p(4) c
    by (simp only: p(2,3,5,6,7,8) pt new_element_eq e i l if_True if_False option.case prod.case not_False_eq_True)
qed

text \<open>The content of an element that has no children yet.\<close>

definition parses :: "xtree list \<Rightarrow> bool" where
  "parses ks \<longleftrightarrow> (\<forall>st par prv nxt c pf nm ur at. rep st par prv nxt (XElem c pf nm ur at []) \<longrightarrow> store_ok st \<longrightarrow>
     (\<exists>st'. parse_loop st (texts ks) 0 c = Some (st', c) \<and> copied st st' (par, prv, nxt) (XElem c pf nm ur at) [] ks))"

lemma parses_text: "simple (XText a s) \<Longrightarrow> parses [XText a s]"
  unfolding parses_def
proof (intro allI impI)
  fix st par prv nxt c pf nm ur at
  assume s: "simple (XText a s)" and r: "rep st par prv nxt (XElem c pf nm ur at [])" and ok: "store_ok st"
  let ?t = "XText (brk st) s"
  let ?st = "alloc_node st (node_of 0 0 0 ?t)"
  have l: "x < brk st" if "x \<in> set (addrs (XElem c pf nm ur at []))" for x using rep_below [OF r ok that] .
  have b: "0 < brk st" using ok by (simp add: store_ok_def)
  have "rep ?st par prv nxt (XElem c pf nm ur at []) = rep st par prv nxt (XElem c pf nm ur at [])"
    by (rule rep_cong(1)) (use l in fastforce)
  then have d: "rep ?st par prv nxt (XElem c pf nm ur at [])" using r by simp
  obtain st' where s': "xml_add_child ?st c (addr ?t) = Some st'" "copied st st' (par, prv, nxt) (XElem c pf nm ur at) [] [XText a s]"
    using link_copy [of ?st par prv nxt c pf nm ur at "[]" ?t "brk st" "XText a s" st] store_ok_alloc [OF ok] d l b by auto
  have "strchr s 0 CHR ''<'' = None" using s by (simp add: strchr_None)
  then have "parse_loop st (texts [XText a s]) 0 c = Some (st', c)"
    using s r s'(1) by (subst parse_loop.simps) (simp add: parse_text_def new_text_eq)
  then show "\<exists>st'. parse_loop st (texts [XText a s]) 0 c = Some (st', c)
      \<and> copied st st' (par, prv, nxt) (XElem c pf nm ur at) [] [XText a s]" using s'(2) by blast
qed

text \<open>A new element under \<open>c\<close> whose content is then parsed.\<close>

lemma grow_child:
  fixes pf' nm' ur' at'
  assumes r: "rep st par prv nxt (XElem c pf nm ur at js)" and dd: "distinct (addrs (XElem c pf nm ur at js))" and ok: "store_ok st"
    and C: "parses ks"
  defines "N \<equiv> XElem (brk st) pf' nm' ur' at'"
  shows "\<exists>st2 st3. xml_add_child (alloc_node st (node_of 0 0 0 (N []))) c (brk st) = Some st2
    \<and> parse_loop st2 (texts ks) 0 (brk st) = Some (st3, brk st)
    \<and> copied st st3 (par, prv, nxt) (XElem c pf nm ur at) js [XElem a pf' nm' ur' at' ks]"
proof -
  let ?D = "XElem c pf nm ur at"
  let ?st1 = "alloc_node st (node_of 0 0 0 (N []))"
  have l: "x < brk st" if "x \<in> set (addrs (?D js))" for x using rep_below [OF r ok that] .
  have b: "0 < brk st" using ok by (simp add: store_ok_def)
  have "rep ?st1 par prv nxt (?D js) = rep st par prv nxt (?D js)" by (rule rep_cong(1)) (use l in fastforce)
  then have r1: "rep ?st1 par prv nxt (?D js)" using r by simp
  have n1: "rep ?st1 0 0 0 (N [])" using b by (simp add: N_def)
  have d1: "distinct (addrs (?D (js @ [N []])))" using dd l by (fastforce simp: N_def)
  obtain st2 where s2: "xml_add_child ?st1 c (brk st) = Some st2" "rep st2 par prv nxt (?D (js @ [N []]))"
      "\<And>x. x \<notin> set (addrs (?D (js @ [N []]))) \<Longrightarrow> nodes st2 x = nodes ?st1 x" "brk st2 = brk ?st1"
    using add_child_rep [OF r1 n1 d1] by (auto simp: N_def)
  have "copied st st2 (par, prv, nxt) ?D js [XElem a pf' nm' ur' at' []]"
    using link_copy [of ?st1 par prv nxt c pf nm ur at js "N []" "brk st" "XElem a pf' nm' ur' at' []" st]
      store_ok_alloc [OF ok] r1 dd n1 l b s2(1) by (auto simp: N_def)
  then have ok2: "store_ok st2" by (auto simp: copied_def)
  define P where "P = (if js = [] then 0 else addr (last js))"
  note p2 = s2(2) [unfolded rep_parts]
  have seg2: "seg st2 c 0 (brk st) js" "rep st2 c P 0 (N [])"
    using p2 by (simp_all add: seg_append P_def N_def)
  obtain st3 where s3: "parse_loop st2 (texts ks) 0 (brk st) = Some (st3, brk st)" "copied st2 st3 (c, P, 0) N [] ks"
    using C seg2(2) ok2 unfolding parses_def N_def by blast
  obtain ks' where k: "rep st3 c P 0 (N ks')" "map erase ks' = map erase ks" "distinct (addrs (N ks'))"
      "set (concat (map addrs ks')) \<subseteq> {brk st2..<brk st3}" "store_ok st3" "brk st2 \<le> brk st3"
      "\<forall>x. x < brk st2 \<longrightarrow> x \<notin> set (addrs (N [])) \<longrightarrow> nodes st3 x = nodes st2 x"
    using s3(2) by (auto simp: copied_def)
  have b2: "brk st2 = brk st + 1" using s2(4) by simp
  have same: "nodes st3 x = nodes st2 x" if "x < brk st" for x using k(7) that b2 by (auto simp: N_def)
  have "seg st3 c 0 (brk st) js = seg st2 c 0 (brk st) js"
    by (rule seg_cong, rule same) (use l in auto)
  then have "seg st3 c 0 0 (js @ [N ks'])" using seg2(1) k(1) by (simp add: seg_append P_def N_def)
  moreover have "nodes st3 c = Some (node_of par prv nxt (?D (js @ [N ks'])))"
  proof -
    have "nodes st3 c = nodes st2 c" using same l by simp
    then show ?thesis using p2 by (cases js) (simp_all add: N_def)
  qed
  ultimately have r3: "rep st3 par prv nxt (?D (js @ [N ks']))" using p2 unfolding rep_parts by blast
  have sub: "set (addrs (N ks')) \<subseteq> {brk st..<brk st3}" using k(4,6) b2 by (fastforce simp: N_def)
  have dd3: "distinct (addrs (?D (js @ [N ks'])))"
  proof -
    have "set (addrs (?D js)) \<inter> set (addrs (N ks')) = {}" using sub l by fastforce
    then show ?thesis using dd k(3) by auto
  qed
  have "nodes st3 x = nodes st x" if x: "x < brk st" "x \<notin> set (addrs (?D js))" for x
  proof -
    have "x \<notin> set (addrs (?D (js @ [N []])))" using x by (auto simp: N_def)
    then show ?thesis using same [OF x(1)] s2(3) x(1) by simp
  qed
  then have "copied st st3 (par, prv, nxt) ?D js [XElem a pf' nm' ur' at' ks]"
    unfolding copied_def fst_conv snd_conv
    using r3 dd3 sub k(2,5,6) b2 by (intro exI [of _ "[N ks']"]) (simp add: N_def)
  then show ?thesis using s2(1) s3(1) by blast
qed

text \<open>The loop over the elements of a content.\<close>

lemma parse_elements:
  assumes "\<And>k. k \<in> set ks \<Longrightarrow> simple k \<and> is_elem k \<and> parses (kids k)"
    and "drop cur buf = texts ks" "cur \<le> length buf"
    and "rep st par prv nxt (XElem c pf nm ur at js)" "distinct (addrs (XElem c pf nm ur at js))" "store_ok st"
  shows "\<exists>st'. parse_loop st buf cur c = Some (st', c) \<and> copied st st' (par, prv, nxt) (XElem c pf nm ur at) js ks"
  using assms
proof (induction ks arbitrary: st cur js)
  case Nil
  then have "cur = length buf" by simp
  then have "parse_loop st buf cur c = Some (st, c)" by (subst parse_loop.simps) simp
  then show ?case using copied_Nil Nil.prems by blast
next
  case (Cons k ks)
  let ?D = "XElem c pf nm ur at"
  obtain a pf' nm' ur' at' ks0 where k: "k = XElem a pf' nm' ur' at' ks0" using Cons.prems(1) [of k] by (cases k) auto
  have sk: "tag_ok pf' nm' ur' at'" "list_all simple ks0" "qname pf' nm' \<notin> set (concat (map qnames ks0))" "parses ks0"
    using Cons.prems(1) [of k] by (simp_all add: k)
  have c: "c \<noteq> 0" using rep_node [OF Cons.prems(4)] by simp
  have d: "drop cur buf = text_of 0 0 (XElem a pf' nm' ur' at' ks0) @ texts ks" using Cons.prems(2) k by simp
  obtain st2 st3 where g: "xml_add_child (alloc_node st (node_of 0 0 0 (XElem (brk st) pf' nm' ur' at' []))) c (brk st) = Some st2"
      "parse_loop st2 (texts ks0) 0 (brk st) = Some (st3, brk st)"
      "copied st st3 (par, prv, nxt) ?D js [k]"
    using grow_child [OF Cons.prems(4,5,6) sk(4), of pf' nm' ur' at' a] unfolding k by blast
  have step: "parse_loop st buf cur c = parse_loop st3 buf (cur + length (text_of 0 0 k)) c"
    unfolding k by (rule parse_element_step [OF sk(1,3,2) d c g(1,2)])
  have d': "drop (cur + length (text_of 0 0 k)) buf = texts ks" using drop_step [of cur buf "text_of 0 0 k" "texts ks"] d k by simp
  have l': "cur + length (text_of 0 0 k) \<le> length buf"
  proof -
    have "length (drop cur buf) = length (text_of 0 0 k) + length (texts ks)" using d k by simp
    then show ?thesis using Cons.prems(3) by simp
  qed
  have ok3: "store_ok st3" using g(3) by (auto simp: copied_def)
  have IH: "\<exists>st'. parse_loop st3 buf (cur + length (text_of 0 0 k)) c = Some (st', c)
      \<and> copied st3 st' (par, prv, nxt) ?D (js @ [k']) ks"
    if "rep st3 par prv nxt (?D (js @ [k']))" "distinct (addrs (?D (js @ [k'])))" for k'
    by (rule Cons.IH [OF _ d' l' that ok3]) (use Cons.prems(1) in auto)
  obtain ks1 where "rep st3 par prv nxt (?D (js @ ks1))" "map erase ks1 = map erase [k]" "distinct (addrs (?D (js @ ks1)))"
    using g(3) by (auto simp: copied_def)
  then obtain k0 where k0: "rep st3 par prv nxt (?D (js @ [k0]))" "distinct (addrs (?D (js @ [k0])))" by auto
  obtain st' where s': "parse_loop st3 buf (cur + length (text_of 0 0 k)) c = Some (st', c)" using IH [OF k0] by blast
  have "copied st st' (par, prv, nxt) ?D js (k # ks)"
    by (rule copied_trans [OF g(3)]) (use IH s' in auto)
  then show ?case using step s' by auto
qed

lemma parses_kids: "simple t \<Longrightarrow> parses (kids t)"
proof (induction t)
  case (XText a s)
  show ?case unfolding parses_def
  proof (intro allI impI)
    fix st par prv nxt c pf nm ur at
    assume "rep st par prv nxt (XElem c pf nm ur at [])" "store_ok st"
    then show "\<exists>st'. parse_loop st (texts (kids (XText a s))) 0 c = Some (st', c)
      \<and> copied st st' (par, prv, nxt) (XElem c pf nm ur at) [] (kids (XText a s))"
      using parse_elements [of "kids (XText a s)" 0 "[]" st par prv nxt c pf nm ur at "[]"] by simp
  qed
next
  case (XElem a pf nm ur at ks)
  have s: "list_all simple ks" "list_all is_elem ks \<or> length ks = 1" using XElem.prems by simp_all
  show ?case
  proof (cases "list_all is_elem ks")
    case True
    show ?thesis unfolding parses_def
    proof (intro allI impI)
      fix st par prv nxt c pf' nm' ur' at'
      assume r: "rep st par prv nxt (XElem c pf' nm' ur' at' [])" and o: "store_ok st"
      have "\<exists>st'. parse_loop st (texts ks) 0 c = Some (st', c)
        \<and> copied st st' (par, prv, nxt) (XElem c pf' nm' ur' at') [] ks"
        by (rule parse_elements [OF _ _ _ r _ o]) (use XElem.IH s(1) True in \<open>auto simp: list_all_iff\<close>)
      then show "\<exists>st'. parse_loop st (texts (kids (XElem a pf nm ur at ks))) 0 c = Some (st', c)
        \<and> copied st st' (par, prv, nxt) (XElem c pf' nm' ur' at') [] (kids (XElem a pf nm ur at ks))" by simp
    qed
  next
    case False
    then obtain k where "ks = [k]" "\<not> is_elem k" using s(2) by (auto simp: length_Suc_conv)
    then obtain b x where "ks = [XText b x]" by (cases k) auto
    then show ?thesis using parses_text [of b x] s(1) by simp
  qed
qed

text \<open>A whole document.\<close>

lemma parse_doc_text:
  assumes t: "simple t" "is_elem t" and ok: "store_ok st"
  shows "\<exists>st' t'. xml_parse_doc_buf st (text_of 0 0 t) 0 = Some (st', addr t') \<and> tree_at st' t' \<and> erase t' = erase t
    \<and> set (addrs t') \<subseteq> {brk st..<brk st'} \<and> store_ok st' \<and> (\<forall>x<brk st. nodes st' x = nodes st x)"
proof -
  obtain a pf nm ur at ks where e: "t = XElem a pf nm ur at ks" using t(2) by (cases t) auto
  let ?N = "XElem (brk st) pf nm ur at"
  let ?st1 = "alloc_node st (node_of 0 0 0 (?N []))"
  have s: "tag_ok pf nm ur at" "list_all simple ks" "qname pf nm \<notin> set (concat (map qnames ks))"
    using t(1) by (simp_all add: e)
  have b: "0 < brk st" using ok by (simp add: store_ok_def)
  have n1: "rep ?st1 0 0 0 (?N [])" using b by simp
  have "parses ks" using parses_kids [OF t(1)] by (simp add: e)
  then obtain st2 where p: "parse_loop ?st1 (texts ks) 0 (brk st) = Some (st2, brk st)" "copied ?st1 st2 (0, 0, 0) ?N [] ks"
    using n1 store_ok_alloc [OF ok] unfolding parses_def by blast
  obtain ks' where k: "rep st2 0 0 0 (?N ks')" "map erase ks' = map erase ks" "distinct (addrs (?N ks'))"
      "set (concat (map addrs ks')) \<subseteq> {brk ?st1..<brk st2}" "store_ok st2" "brk ?st1 \<le> brk st2"
      "\<forall>x. x < brk ?st1 \<longrightarrow> x \<notin> set (addrs (?N [])) \<longrightarrow> nodes st2 x = nodes ?st1 x"
    using p(2) by (auto simp: copied_def)
  have d: "drop 0 (text_of 0 0 t) = text_of 0 0 (XElem a pf nm ur at ks) @ []" by (simp add: e)
  note q = element_positions [OF s(1,3,2) d]
  note pt = tag_back [OF s(1)]
  have l: "parse_loop st (text_of 0 0 t) 0 0 = Some (st2, brk st)"
    unfolding parse_loop.simps [of st "text_of 0 0 t" 0 0]
    using q(1) q(4)
    by (simp only: q(2,3,5,6,7,8) pt new_element_eq p(1) if_True if_False option.case prod.case not_True_eq_False simp_thms)
  have "addr (?N ks') = brk st" by simp
  moreover have "set (addrs (?N ks')) \<subseteq> {brk st..<brk st2}" using k(4,6) by auto
  moreover have "nodes st2 x = nodes st x" if "x < brk st" for x using k(7) that by auto
  ultimately show ?thesis using l k unfolding xml_parse_doc_buf_def tree_at_def
    by (intro exI [of _ st2] exI [of _ "?N ks'"]) (simp only: e erase.simps, blast)
qed

section \<open>No prolog in the text of a tree\<close>

lemma append_cases:
  assumes "u @ v = x @ w" "\<not> length x < length u"
  shows "\<exists>x'. x = u @ x' \<and> v = x' @ w"
  using assms by (auto simp: append_eq_append_conv2)

lemma lt_in_text:
  "simple t \<Longrightarrow> text_of 0 0 t @ R = x @ CHR ''<'' # d # r \<Longrightarrow> length x < length (text_of 0 0 t)
    \<Longrightarrow> d \<notin> {CHR ''?'', CHR ''!''}"
proof (induction t arbitrary: R x)
  case (XText a s)
  then obtain x' where "x = s @ x'" using skip_no_lt [of s R x "d # r"] by auto
  then show ?case using XText.prems(3) by simp
next
  case (XElem a pf nm ur at ks)
  have ok: "tag_ok pf nm ur at" using XElem.prems(1) by simp
  note o = tag_okD [OF ok]
  let ?q = "qname pf nm" and ?t = "tag_text pf nm at"
  have e: "CHR ''<'' # ?t @ ''>'' @ texts ks @ ''</'' @ ?q @ ''>'' @ R = x @ CHR ''<'' # d # r"
    using XElem.prems(2) unfolding text_of_elem by simp
  show ?case
  proof (cases x)
    case Nil
    then have "hd ?t = d" using e o(5) by (metis append_Nil hd_append2 list.inject list.sel(1))
    then show ?thesis using o(6,8) by auto
  next
    case (Cons y x1)
    have "(?t @ ''>'') @ (texts ks @ ''</'' @ ?q @ ''>'' @ R) = x1 @ CHR ''<'' # d # r" using e Cons by auto
    moreover have "CHR ''<'' \<notin> set (?t @ ''>'')" using o(3) by simp
    ultimately obtain x2 where x2: "x1 = (?t @ ''>'') @ x2" "texts ks @ ''</'' @ ?q @ ''>'' @ R = x2 @ CHR ''<'' # d # r"
      using skip_no_lt by blast
    show ?thesis
    proof (cases "length x2 < length (texts ks)")
      case True
      have "\<exists>k\<in>set ks. d \<notin> {CHR ''?'', CHR ''!''}"
      proof (rule in_texts [OF _ x2(2) True])
        fix k S y assume "k \<in> set ks" "text_of 0 0 k @ S = y @ CHR ''<'' # d # r" "length y < length (text_of 0 0 k)"
        then show "d \<notin> {CHR ''?'', CHR ''!''}" using XElem.IH [of k S y] XElem.prems(1) by (auto simp: list_all_iff)
      qed
      then show ?thesis by blast
    next
      case False
      obtain x3 where x3: "x2 = texts ks @ x3" "''</'' @ ?q @ ''>'' @ R = x3 @ CHR ''<'' # d # r"
        using append_cases [OF x2(2) False] by blast
      show ?thesis
      proof (cases x3)
        case Nil
        then show ?thesis using x3(2) by auto
      next
        case (Cons z x4)
        then have "(''/'' @ ?q @ ''>'') @ R = x4 @ CHR ''<'' # d # r" using x3(2) by simp
        moreover have "CHR ''<'' \<notin> set (''/'' @ ?q @ ''>'')" using o(1) by simp
        ultimately obtain x5 where "x4 = (''/'' @ ?q @ ''>'') @ x5" using skip_no_lt by blast
        then have False using XElem.prems(3) \<open>x = y # x1\<close> x2(1) x3(1) Cons unfolding text_of_elem by simp
        then show ?thesis ..
      qed
    qed
  qed
qed

lemma skip_prolog_none:
  assumes t: "simple t" "text_of 0 0 t \<noteq> []" and d: "d \<in> {CHR ''?'', CHR ''!''}"
  shows "skip_prolog [CHR ''<'', d] (text_of 0 0 t) (length (text_of 0 0 t)) 0 None = Some 0"
proof -
  let ?s = "text_of 0 0 t"
  have "\<not> occurs_at ?s [CHR ''<'', d] j" for j
  proof
    assume o: "occurs_at ?s [CHR ''<'', d] j"
    have "?s = take j ?s @ take (Suc (Suc 0)) (drop j ?s) @ drop (Suc (Suc 0)) (drop j ?s)" by (simp only: append_take_drop_id)
    then have e: "?s @ [] = take j ?s @ CHR ''<'' # d # drop (Suc (Suc 0)) (drop j ?s)" using o by (simp add: occurs_at_def)
    have "j < length ?s" using o by (metis append_take_drop_id drop_all list.distinct(1) not_le occurs_at_def take_Nil)
    then show False using lt_in_text [OF t(1) e] d by simp
  qed
  then have "strstr_scan ?s [CHR ''<'', d] = None" by (subst strstr_scan_None) auto
  then show ?thesis using t(2) by (subst skip_prolog.simps) (simp add: xml_strstr_def)
qed

lemma parse_text_doc:
  assumes "simple t" "is_elem t" "store_ok st"
  shows "\<exists>st' t'. xml_parse st (text_of 0 0 t) (length (text_of 0 0 t)) = Some (st', addr t') \<and> tree_at st' t'
    \<and> erase t' = erase t \<and> set (addrs t') \<subseteq> {brk st..<brk st'} \<and> store_ok st' \<and> (\<forall>x<brk st. nodes st' x = nodes st x)"
proof -
  have "text_of 0 0 t \<noteq> []" using assms(2) by (cases t) (simp_all add: text_of_elem del: text_of.simps)
  then have "xml_parse st (text_of 0 0 t) (length (text_of 0 0 t)) = xml_parse_doc_buf st (text_of 0 0 t) 0"
    using skip_prolog_none [OF assms(1)] by (simp add: xml_parse_def)
  then show ?thesis using parse_doc_text [OF assms] by simp
qed

end
