(* ===== verification/XmlAttr.thy ===== *)
theory XmlAttr
  imports Xml
begin

text \<open>Attributes: what \<open>xml_get_attribute\<close> finds after \<open>xml_set_attribute\<close>.\<close>

definition attr_pat :: "string \<Rightarrow> char \<Rightarrow> string" where
  "attr_pat attr q = '' '' @ attr @ [CHR ''='', q]"

definition quote_for :: "string \<Rightarrow> char" where
  "quote_for val = (if CHR 0x22 \<in> set val then CHR 0x27 else CHR 0x22)"

text \<open>A name and a value that the quoting can express: the name has no blank and no quote, the value not both
  kinds of quotes, and it does not itself contain what looks like the attribute.\<close>

definition attr_ok :: "string \<Rightarrow> string \<Rightarrow> bool" where
  "attr_ok attr val \<longleftrightarrow> CHR '' '' \<notin> set attr \<and> CHR 0x22 \<notin> set attr \<and> CHR 0x27 \<notin> set attr
     \<and> quote_for val \<notin> set val \<and> strstr_scan val ('' '' @ attr @ ''='') = None"

lemma new_attr_text_eq: "new_attr_text attr val = attr @ [CHR ''='', quote_for val] @ val @ [quote_for val]"
  by (simp add: new_attr_text_def quote_for_def strchr_def index_of_None)

lemma occurs_split: "occurs_at s p j \<longleftrightarrow> (\<exists>x r. s = x @ p @ r \<and> length x = j)"
proof
  assume o: "occurs_at s p j"
  have "s = take j s @ take (length p) (drop j s) @ drop (length p) (drop j s)" by (simp only: append_take_drop_id)
  then have "s = take j s @ p @ drop (length p) (drop j s)" using o by (simp only: occurs_at_def)
  moreover have "length (take j s) = j" using o by (simp add: occurs_at_def)
  ultimately show "\<exists>x r. s = x @ p @ r \<and> length x = j" by blast
qed (auto simp: occurs_at_def)

lemma strstr_None: "p \<noteq> [] \<Longrightarrow> xml_strstr s 0 p = None \<longleftrightarrow> (\<forall>x r. s \<noteq> x @ p @ r)"
  unfolding xml_strstr_def by (auto simp: strstr_scan_None occurs_split)

lemma strstr_Some:
  assumes "p \<noteq> []"
  shows "xml_strstr s 0 p = Some k \<longleftrightarrow>
    (\<exists>x r. s = x @ p @ r \<and> length x = k) \<and> (\<forall>x r. s = x @ p @ r \<longrightarrow> k \<le> length x)"
proof -
  have "xml_strstr s 0 p = Some k \<longleftrightarrow> occurs_at s p k \<and> (\<forall>j. occurs_at s p j \<longrightarrow> k \<le> j)"
    using assms unfolding xml_strstr_def by (auto simp: strstr_scan_Some not_less [symmetric])
  then show ?thesis unfolding occurs_split by blast
qed

lemma strstr_zero: "p \<noteq> [] \<Longrightarrow> xml_strstr s 0 p = Some 0 \<longleftrightarrow> (\<exists>r. s = p @ r)"
  by (auto simp: strstr_Some)

lemma skip_blank:
  assumes "u @ v = x @ CHR '' '' # r" "CHR '' '' \<notin> set u"
  shows "\<exists>x'. x = u @ x' \<and> v = x' @ CHR '' '' # r"
  using assms
proof (induction u arbitrary: x)
  case (Cons a u)
  then show ?case by (cases x) auto
qed simp

lemma append_cases':
  assumes "u @ v = x @ w" "\<not> length x < length u"
  shows "\<exists>x'. x = u @ x' \<and> v = x' @ w"
  using assms by (auto simp: append_eq_append_conv2)

lemma no_pat_in_new:
  assumes ok: "attr_ok attr val" and e: "new_attr_text attr val = x @ attr_pat attr q @ r"
  shows False
proof -
  let ?q = "quote_for val"
  have b: "CHR '' '' \<notin> set (attr @ [CHR ''='', ?q])" using ok by (auto simp: attr_ok_def quote_for_def)
  have "(attr @ [CHR ''='', ?q]) @ (val @ [?q]) = x @ CHR '' '' # (attr @ [CHR ''='', q] @ r)"
    using e by (simp add: new_attr_text_eq attr_pat_def)
  then obtain x' where x': "val @ [?q] = x' @ CHR '' '' # attr @ [CHR ''='', q] @ r" using skip_blank b by blast
  let ?p = "'' '' @ attr @ ''=''"
  have "val @ [?q] = (x' @ ?p) @ q # r" using x' by simp
  moreover have "length (x' @ ?p) \<le> length val" using arg_cong [OF x', of length] by simp
  ultimately have "take (length (x' @ ?p)) val = x' @ ?p" by (metis append_eq_append_conv_if)
  then have "val = x' @ ?p @ drop (length (x' @ ?p)) val" by (metis append.assoc append_take_drop_id)
  then have "occurs_at val ?p (length x')" unfolding occurs_split by blast
  then show False using ok by (simp add: attr_ok_def strstr_scan_None)
qed

text \<open>The pattern of an attribute, in a string to which a new attribute has been appended.\<close>

lemma pat_in_appended:
  assumes ok: "attr_ok attr val" and q: "q = CHR 0x22 \<or> q = CHR 0x27"
    and e: "a @ '' '' @ new_attr_text attr val = x @ attr_pat attr q @ r" and no: "\<forall>x r. a \<noteq> x @ attr_pat attr q @ r"
  shows "length x = length a \<and> q = quote_for val"
proof (cases "length x < length a")
  case True
  have b: "CHR '' '' \<notin> set (attr @ [CHR ''='', q])" using ok q by (auto simp: attr_ok_def)
  obtain a' where a': "a = x @ a'" "a' \<noteq> []" "a' @ '' '' @ new_attr_text attr val = attr_pat attr q @ r"
  proof
    have "x = take (length x) a" using arg_cong [OF e, of "take (length x)"] True by simp
    then show a: "a = x @ drop (length x) a" by (metis append_take_drop_id)
    show "drop (length x) a \<noteq> []" using True by simp
    show "drop (length x) a @ '' '' @ new_attr_text attr val = attr_pat attr q @ r"
      using e a by (metis append.assoc same_append_eq)
  qed
  then obtain a2 where a2: "a' = CHR '' '' # a2" "a2 @ CHR '' '' # new_attr_text attr val = (attr @ [CHR ''='', q]) @ r"
    by (cases a') (auto simp: attr_pat_def)
  from skip_blank [OF a2(2) [symmetric] b] obtain x' where "a2 = (attr @ [CHR ''='', q]) @ x'" by blast
  then have "a = x @ attr_pat attr q @ x'" using a'(1) a2(1) by (simp add: attr_pat_def)
  then show ?thesis using no by blast
next
  case False
  then obtain x' where x': "x = a @ x'" "'' '' @ new_attr_text attr val = x' @ attr_pat attr q @ r"
    using append_cases' [OF e] by blast
  show ?thesis
  proof (cases x')
    case Nil
    then have "attr @ [CHR ''='', quote_for val] @ val @ [quote_for val] = attr @ [CHR ''='', q] @ r"
      using x'(2) by (auto simp: attr_pat_def new_attr_text_eq)
    then show ?thesis using x'(1) Nil by auto
  next
    case (Cons y x2)
    then show ?thesis using x'(2) no_pat_in_new [OF ok, of x2 q r] by simp
  qed
qed

lemma attr_at_appended:
  assumes ok: "attr_ok attr val" and q: "q = CHR 0x22 \<or> q = CHR 0x27" and no: "attr_at a (attr_pat attr q) = None"
  shows "attr_at (a @ '' '' @ new_attr_text attr val) (attr_pat attr q) =
    (if q = quote_for val then Some (Some (length a), length a + length attr + 3) else None)"
proof -
  have np: "attr_pat attr q \<noteq> []" "tl (attr_pat attr q) \<noteq> []" by (simp_all add: attr_pat_def)
  have no1: "\<forall>x r. a \<noteq> x @ attr_pat attr q @ r" using no np by (auto simp: attr_at_def strstr_None split: option.splits)
  have no2: "\<forall>r. a \<noteq> tl (attr_pat attr q) @ r" using no np by (auto simp: attr_at_def strstr_zero split: option.splits)
  have b: "CHR '' '' \<notin> set (attr @ [CHR ''='', q])" using ok q by (auto simp: attr_ok_def)
  let ?s = "a @ '' '' @ new_attr_text attr val"
  show ?thesis
  proof (cases "q = quote_for val")
    case True
    have "?s = a @ attr_pat attr q @ val @ [q]" using True by (simp add: attr_pat_def new_attr_text_eq)
    moreover have "length x = length a" if "?s = x @ attr_pat attr q @ r" for x r
      using pat_in_appended [OF ok q that no1] ..
    ultimately have "xml_strstr ?s 0 (attr_pat attr q) = Some (length a)"
      unfolding strstr_Some [OF np(1)] by (metis order_refl)
    then show ?thesis using True by (simp add: attr_at_def attr_pat_def)
  next
    case False
    have "\<forall>x r. ?s \<noteq> x @ attr_pat attr q @ r" using pat_in_appended [OF ok q _ no1] False by blast
    then have 1: "xml_strstr ?s 0 (attr_pat attr q) = None" using np by (simp add: strstr_None)
    have "?s \<noteq> tl (attr_pat attr q) @ r" for r
    proof
      assume "?s = tl (attr_pat attr q) @ r"
      then have "(attr @ [CHR ''='', q]) @ r = a @ CHR '' '' # new_attr_text attr val" by (simp add: attr_pat_def)
      from skip_blank [OF this b] no2 show False by (auto simp: attr_pat_def)
    qed
    then have "xml_strstr ?s 0 (tl (attr_pat attr q)) \<noteq> Some 0" using np by (simp add: strstr_zero)
    then show ?thesis using 1 False by (simp add: attr_at_def)
  qed
qed

lemma attr_at_new:
  assumes ok: "attr_ok attr val" and q: "q = CHR 0x22 \<or> q = CHR 0x27"
  shows "attr_at (new_attr_text attr val) (attr_pat attr q) = (if q = quote_for val then Some (None, length attr + 2) else None)"
proof -
  have np: "attr_pat attr q \<noteq> []" "tl (attr_pat attr q) \<noteq> []" by (simp_all add: attr_pat_def)
  have "xml_strstr (new_attr_text attr val) 0 (attr_pat attr q) = None"
    using no_pat_in_new [OF ok] by (subst strstr_None [OF np(1)]) blast
  moreover have "xml_strstr (new_attr_text attr val) 0 (tl (attr_pat attr q)) = Some 0 \<longleftrightarrow> q = quote_for val"
    by (subst strstr_zero [OF np(2)]) (auto simp: attr_pat_def new_attr_text_eq)
  ultimately show ?thesis by (simp add: attr_at_def attr_pat_def)
qed

lemma quote_for_cases: "quote_for val = CHR 0x22 \<or> quote_for val = CHR 0x27"
  by (simp add: quote_for_def)

lemma str_strip_nothing: "str_strip s i 0 = None"
  by (simp add: str_strip_def)

section \<open>Reading back\<close>

lemma take_middle: "f = length u \<Longrightarrow> n = f + length v \<Longrightarrow> take (n - f) (drop f (u @ v @ w)) = v"
  by simp

definition attr_value :: "string \<Rightarrow> string \<Rightarrow> string option option" where
  "attr_value a attr =
     (case attr_at a (attr_pat attr CHR 0x27) of
        Some (_, front) \<Rightarrow> map_option (\<lambda>rear. Some (take (rear - front) (drop front a))) (strchr a front CHR 0x27)
      | None \<Rightarrow>
        (case attr_at a (attr_pat attr CHR 0x22) of
           Some (_, front) \<Rightarrow> map_option (\<lambda>rear. Some (take (rear - front) (drop front a))) (strchr a front CHR 0x22)
         | None \<Rightarrow> Some None))"

lemma get_attribute_value:
  "nodes st node = Some n \<Longrightarrow> xml_get_attribute st node attr =
     (case n_attr n of None \<Rightarrow> Some None | Some a \<Rightarrow> attr_value a attr)"
  by (auto simp: xml_get_attribute_def attr_value_def attr_pat_def map_option_case Option.bind_eq_None_conv
      split: option.splits intro!: arg_cong2 [of _ _ _ _ Option.bind])

lemma attr_value_absent:
  "attr_value a attr = Some None \<Longrightarrow> q = CHR 0x22 \<or> q = CHR 0x27 \<Longrightarrow> attr_at a (attr_pat attr q) = None"
  by (auto simp: attr_value_def split: option.splits)

lemma attr_value_appended:
  assumes ok: "attr_ok attr val" and no: "attr_value a attr = Some None"
  shows "attr_value (a @ '' '' @ new_attr_text attr val) attr = Some (Some val)"
proof -
  let ?q = "quote_for val"
  let ?s = "a @ '' '' @ new_attr_text attr val" and ?f = "length a + length attr + 3"
  note at = attr_at_appended [OF ok _ attr_value_absent [OF no]]
  have s: "?s = (a @ '' '' @ attr @ [CHR ''='', ?q]) @ val @ ?q # []" by (simp add: new_attr_text_eq)
  have "?q \<notin> set val" using ok by (simp add: attr_ok_def)
  then have "strchr ?s ?f ?q = Some (?f + length val)" unfolding s by (subst strchr_at) simp_all
  moreover have "take (?f + length val - ?f) (drop ?f ?s) = val" unfolding s by (rule take_middle) simp_all
  ultimately show ?thesis using quote_for_cases [of val] at [of "CHR 0x22"] at [of "CHR 0x27"]
    by (auto simp: attr_value_def)
qed

lemma attr_value_new:
  assumes ok: "attr_ok attr val"
  shows "attr_value (new_attr_text attr val) attr = Some (Some val)"
proof -
  let ?q = "quote_for val"
  let ?s = "new_attr_text attr val" and ?f = "length attr + 2"
  note at = attr_at_new [OF ok]
  have s: "?s = (attr @ [CHR ''='', ?q]) @ val @ ?q # []" by (simp add: new_attr_text_eq)
  have "?q \<notin> set val" using ok by (simp add: attr_ok_def)
  then have "strchr ?s ?f ?q = Some (?f + length val)" unfolding s by (subst strchr_at) simp_all
  moreover have "take (?f + length val - ?f) (drop ?f ?s) = val" unfolding s by (rule take_middle) simp_all
  ultimately show ?thesis using quote_for_cases [of val] at [of "CHR 0x22"] at [of "CHR 0x27"]
    by (auto simp: attr_value_def)
qed

lemma replace_attr_absent:
  "attr_value a attr = Some None \<Longrightarrow> replace_attr a attr new = Some (a @ '' '' @ new)"
  using attr_value_absent [of a attr "CHR 0x22"] attr_value_absent [of a attr "CHR 0x27"]
  by (simp add: replace_attr_def attr_pat_def)

lemma replace_attr_sole:
  assumes ok: "attr_ok attr val"
  shows "replace_attr (new_attr_text attr val) attr new = Some new"
proof -
  let ?q = "quote_for val"
  let ?s = "new_attr_text attr val" and ?f = "length attr + 2"
  note at = attr_at_new [OF ok]
  have s: "?s = (attr @ [CHR ''='', ?q]) @ val @ ?q # []" by (simp add: new_attr_text_eq)
  have "?q \<notin> set val" using ok by (simp add: attr_ok_def)
  then have "strchr ?s ?f ?q = Some (?f + length val)" unfolding s by (subst strchr_at) simp_all
  moreover have "length ?s = Suc (?f + length val)" unfolding s by simp
  ultimately have "attr_around ?s None ?f ?q = Some (None, None)" by (simp add: attr_around_def str_strip_nothing)
  then show ?thesis using quote_for_cases [of val] at [of "CHR 0x22"] at [of "CHR 0x27"]
    by (auto simp: replace_attr_def attr_pat_def)
qed

end
