(* ===== verification/XmlProps.thy ===== *)
theory XmlProps
  imports XmlRound XmlAttr
begin

text \<open>
  The properties of \<open>common/utilities/xml.c\<close>. \<open>rep st par prv nxt t\<close> reads: the nodes of the store \<open>st\<close> from
  \<open>addr t\<close> on are linked as the tree \<open>t\<close>, whose root has the parent \<open>par\<close> and the siblings \<open>prv\<close> and \<open>nxt\<close>.
\<close>

declare last_child.simps [code] delete_rec.simps [code] copy_rec.simps [code] element_count.simps [code]
  find_element.simps [code] path_count.simps [code] find_path.simps [code] tree_size.simps [code] dump_rec.simps [code]

section \<open>A sample document\<close>

fun layout :: "nat \<Rightarrow> nat \<Rightarrow> nat \<Rightarrow> xtree \<Rightarrow> (nat \<times> xml_node) list"
  and layouts :: "nat \<Rightarrow> nat \<Rightarrow> xtree list \<Rightarrow> (nat \<times> xml_node) list" where
  "layout par prv nxt (XText a s) = [(a, node_of par prv nxt (XText a s))]"
| "layout par prv nxt (XElem a pf nm ur at ks) = (a, node_of par prv nxt (XElem a pf nm ur at ks)) # layouts a 0 ks"
| "layouts par prv [] = []"
| "layouts par prv (k # ks) = layout par prv (first ks) k @ layouts par (addr k) ks"

definition store_of :: "nat \<Rightarrow> xtree list \<Rightarrow> xml" where
  "store_of b ts = \<lparr>nodes = map_of (concat (map (layout 0 0 0) ts)), brk = b\<rparr>"

definition doc_r :: xtree where
  "doc_r = XElem 1 (Some ''p'') ''r'' None (Some ''x=\"1\"'') [
     XElem 2 None ''b'' None None [XText 3 ''hi''], XElem 4 None ''b'' None None []]"

definition doc_c :: xtree where
  "doc_c = XElem 5 None ''c'' None None []"

definition sample :: xml where
  "sample = store_of 6 [doc_r, doc_c]"

lemma sample_rep: "rep sample 0 0 0 doc_r" "rep sample 0 0 0 doc_c"
  by (simp_all add: sample_def store_of_def doc_r_def doc_c_def first_def)

lemma sample_ok: "store_ok sample" "distinct (addrs doc_r)"
  by (auto simp: sample_def store_of_def doc_r_def doc_c_def store_ok_def split: if_splits)

section \<open>Building, deleting and copying trees\<close>

text \<open>\<open>xml_add_child\<close> on an element appends the tree as its last child: afterwards the nodes are linked as
  the element with the longer list of children, every pointer in both directions, and no node
  outside of the two trees has changed.\<close>

theorem xml_add_child_appends:
  assumes "rep st par prv nxt (XElem a pf nm ur at ks)" and "rep st 0 0 0 c"
    and "distinct (addrs (XElem a pf nm ur at (ks @ [c])))"
  shows "\<exists>st'. xml_add_child st a (addr c) = Some st' \<and> rep st' par prv nxt (XElem a pf nm ur at (ks @ [c]))
    \<and> (\<forall>x. x \<notin> set (addrs (XElem a pf nm ur at (ks @ [c]))) \<longrightarrow> nodes st' x = nodes st x) \<and> brk st' = brk st"
  by (rule add_child_rep [OF assms])

theorem xml_add_child_appends_witness:
  "\<exists>st'. xml_add_child sample 1 5 = Some st' \<and> rep st' 0 0 0 (XElem 1 (Some ''p'') ''r'' None (Some ''x=\"1\"'') (kids doc_r @ [doc_c]))"
  using xml_add_child_appends [of sample 0 0 0 1 "Some ''p''" "''r''" None "Some ''x=\"1\"''" "kids doc_r" doc_c] sample_rep
  by (auto simp: doc_r_def doc_c_def)

text \<open>C26: \<open>xml_delete_tree\<close> on a child of an element frees every node of its subtree and closes the gap: the
  parent keeps the other children in order, with their links to each other restored, and no other
  node has changed. The recursion ends.\<close>

theorem xml_delete_child_exact:
  assumes "rep st par prv nxt (XElem a pf nm ur at (ks @ t # ls))"
    and "distinct (addrs (XElem a pf nm ur at (ks @ t # ls)))"
  shows "\<exists>st'. xml_delete_tree st (addr t) = Some st' \<and> rep st' par prv nxt (XElem a pf nm ur at (ks @ ls))
     \<and> (\<forall>x\<in>set (addrs t). nodes st' x = None) \<and> brk st' = brk st
     \<and> (\<forall>x. x \<notin> set (addrs (XElem a pf nm ur at (ks @ t # ls))) \<longrightarrow> nodes st' x = nodes st x)"
  by (rule delete_child_rep [OF assms])

theorem xml_delete_child_exact_witness:
  "\<exists>st'. xml_delete_tree sample 2 = Some st'
     \<and> rep st' 0 0 0 (XElem 1 (Some ''p'') ''r'' None (Some ''x=\"1\"'') [XElem 4 None ''b'' None None []])
     \<and> nodes st' 2 = None \<and> nodes st' 3 = None"
  using xml_delete_child_exact [of sample 0 0 0 1 "Some ''p''" "''r''" None "Some ''x=\"1\"''" "[]"
      "XElem 2 None ''b'' None None [XText 3 ''hi'']" "[XElem 4 None ''b'' None None []]"] sample_rep(1) sample_ok(2)
  by (auto simp: doc_r_def)

text \<open>C27: \<open>xml_copy_tree\<close> makes a tree of the same shape, names, texts and attributes out of nodes that were not
  in use before; its root is linked to nothing, wherever the original stands, and no existing node
  has changed.\<close>

theorem xml_copy_tree_fresh:
  assumes "rep st par prv nxt t" and "store_ok st"
  shows "\<exists>st' t'. xml_copy_tree st (addr t) = Some (st', addr t') \<and> tree_at st' t' \<and> erase t' = erase t
    \<and> set (addrs t') \<subseteq> {brk st..<brk st'} \<and> store_ok st' \<and> (\<forall>x<brk st. nodes st' x = nodes st x)"
  by (rule copy_tree_rep [OF assms])

theorem xml_copy_tree_fresh_witness:
  "\<exists>st' t'. xml_copy_tree sample 1 = Some (st', addr t') \<and> tree_at st' t' \<and> erase t' = erase doc_r"
  using xml_copy_tree_fresh [OF sample_rep(1) sample_ok(1)] by (auto simp: doc_r_def)

section \<open>Searching\<close>

text \<open>\<open>xml_find_element\<close> finds every element of the tree with the given name, the root included and
  whatever its prefix, in document order; the array that \<open>xml_new_set\<close> allocates for the counted
  elements is exactly filled, never overrun.\<close>

theorem xml_find_element_all:
  assumes "rep st par prv nxt t"
  shows "xml_find_element st (addr t) name = Some (elems name t) \<and> xml_element_count st (addr t) name = Some (length (elems name t))"
  using find_element_rep [OF assms] element_count_tree [OF assms, of name 0] by (simp add: xml_element_count_def)

theorem xml_find_element_all_witness: "xml_find_element sample 1 ''b'' = Some [2, 4]"
  using xml_find_element_all [OF sample_rep(1), of "''b''"] by (simp add: doc_r_def)

text \<open>\<open>xml_find_path\<close> with the path \<open>/p1:n1/.../nk\<close> finds the elements that are reached from the root over
  children that match one step each, prefix included, in document order.\<close>

theorem xml_find_path_along:
  assumes "rep st par prv nxt t" and "ss \<noteq> []" and "list_all step_ok ss"
  shows "xml_find_path st (addr t) (concat (map step_text ss)) = Some (along ss t)"
  using find_path_rep [OF assms(1)] paths_along [OF assms(2,3)] by simp

theorem xml_find_path_along_witness: "xml_find_path sample 1 ''/p:r/b'' = Some [2, 4]"
  using xml_find_path_along [OF sample_rep(1), of "[(Some ''p'', ''r''), (None, ''b'')]"]
  by (simp add: doc_r_def step_ok_def step_text_def)

section \<open>Writing and parsing\<close>

text \<open>C28: \<open>xml_dump_tree_ex\<close> with \<open>new_line\<close> 0 or 1 and any number of blanks writes the prolog and the indented
  text of the tree, and the buffer whose size \<open>xml_tree_size\<close> has computed holds it with its final
  zero: no \<open>strcat\<close> goes past its end.\<close>

theorem xml_dump_tree_ex_fits:
  assumes "rep st par prv nxt t" and "0 \<le> space" and "new_line = 0 \<or> new_line = 1"
  shows "xml_dump_tree_ex st (addr t) prolog new_line space
    = Some ((case prolog of None \<Rightarrow> '''' | Some p \<Rightarrow> p @ (if new_line \<noteq> 0 then [CHR 0x0A] else ''''))
        @ text_of new_line (min space 10) t)"
  by (rule dump_tree_ex_rep [OF assms])

theorem xml_dump_tree_ex_fits_witness:
  "xml_dump_tree_ex sample 1 None 1 2 = Some (''<p:r x=\"1\">'' @ [CHR 0x0A] @ ''  <b>hi</b>'' @ [CHR 0x0A] @ ''  <b></b>''
     @ [CHR 0x0A] @ ''</p:r>'')"
  using xml_dump_tree_ex_fits [OF sample_rep(1), of 2 1 None]
  by (simp add: doc_r_def start_text_def end_text_def start_tag_def end_tag_def brk_text_def opt_str_def next_level_def numeral_2_eq_2)

text \<open>With \<open>new_line\<close> 2 the size is still computed for the level 1, but the text is indented from the level 2
  on, and the buffer overflows.\<close>

theorem xml_dump_tree_ex_overflows: "xml_dump_tree_ex sample 1 None 2 2 = None"
  by code_simp

text \<open>C25: \<open>xml_parse\<close> undoes \<open>xml_dump_tree\<close>: the text of a document is
  written completely, and parsing it gives a new tree of fresh nodes with the same names, namespaces, attributes and texts, and
  leaves the old one as it is. The document is one the parser can read (\<open>simple\<close>): the children of an element are all
  elements, or one text, which is not empty and has no \<open><\<close>; no element is within one of the same prefix and name; names and prefixes are not empty,
  have no blank, colon, slash or angle bracket, and a tag does not begin with a question or exclamation mark; the attributes of an element that has any are one
  text that is not empty, has no angle bracket, no blank at its ends and no slash at its end. If the element has a namespace \<open>u\<close>, the attributes begin with
  its declaration \<open>xmlns="u"\<close>, or \<open>xmlns:p="u"\<close> for an element with the prefix \<open>p\<close> (\<open>u\<close> has no double quote, \<open>p\<close> neither that nor an equals sign);
  if it has none, the attributes with a blank in front do not contain \<open> xmlns\<close>, or \<open> xmlns:p\<close>, at all.\<close>

theorem xml_parse_dump_roundtrip:
  assumes "tree_at st t" and "simple t" and "is_elem t" and "store_ok st"
  shows "\<exists>doc st' t'. xml_dump_tree st (addr t) = Some doc \<and> xml_parse st doc (length doc) = Some (st', addr t')
    \<and> tree_at st' t' \<and> erase t' = erase t \<and> set (addrs t') \<subseteq> {brk st..<brk st'} \<and> tree_at st' t"
proof -
  have r: "rep st 0 0 0 t" and d: "distinct (addrs t)" using assms(1) by (simp_all add: tree_at_def)
  obtain st' t' where p: "xml_parse st (text_of 0 0 t) (length (text_of 0 0 t)) = Some (st', addr t')" "tree_at st' t'"
      "erase t' = erase t" "set (addrs t') \<subseteq> {brk st..<brk st'}" "\<forall>x<brk st. nodes st' x = nodes st x"
    using parse_text_doc [OF assms(2-4)] by blast
  have "rep st' 0 0 0 t" using p(5) rep_below [OF r assms(4)] by (subst rep_cong(1) [of _ st' st]) (auto simp: r)
  then show ?thesis using p dump_tree_rep [OF r] d by (auto simp: tree_at_def)
qed

theorem xml_parse_dump_roundtrip_witness:
  "\<exists>doc st' t'. xml_dump_tree sample 1 = Some doc \<and> xml_parse sample doc (length doc) = Some (st', addr t')
    \<and> erase t' = erase doc_r"
proof -
  have "\<not> occurs_at '' x=\"1\"'' (ns_mark (Some ''p'')) k" if "k < Suc (length ''x=\"1\"'')" for k
    using that by (auto simp: ns_mark_def occurs_at_def less_Suc_eq)
  then have "simple doc_r"
    by (simp add: doc_r_def tag_ok_def plain_def attr_text_ok_def ns_ok_def qname_def)
  moreover have "is_elem doc_r" by (simp add: doc_r_def)
  moreover have "tree_at sample doc_r" using sample_rep(1) sample_ok(2) by (simp add: tree_at_def)
  ultimately show ?thesis using xml_parse_dump_roundtrip [of sample doc_r] sample_ok(1) by (auto simp: doc_r_def)
qed

text \<open>An element within one of the same name is not read back: the outer element is ended by the end tag of
  the inner one, and the document has one element fewer.\<close>

theorem xml_parse_nested_name:
  "(do { (st, root) \<leftarrow> xml_parse sample ''<a><a></a></a>'' 14; xml_dump_tree st root }) = Some ''<a></a>''"
  by code_simp

section \<open>Attributes\<close>

text \<open>After \<open>xml_set_attribute\<close> of an attribute the element did not have, \<open>xml_get_attribute\<close> gives back the
  value, whatever other attributes there are, and setting it again on an element without other
  attributes replaces the value. Name and value are those that the quoting can express,
  and the value does not contain a blank, the name and an equals sign (\<open>attr_ok\<close>): the search for an attribute also looks
  inside the values.\<close>

theorem xml_set_get_attribute:
  assumes n: "nodes st node = Some n" and ok: "attr_ok attr val" "attr_ok attr val2"
    and absent: "xml_get_attribute st node attr = Some None"
  shows "\<exists>st'. xml_set_attribute st node attr val = Some st' \<and> xml_get_attribute st' node attr = Some (Some val)
     \<and> (\<forall>x. x \<noteq> node \<longrightarrow> nodes st' x = nodes st x)
     \<and> (n_attr n = None \<longrightarrow> (\<exists>st''. xml_set_attribute st' node attr val2 = Some st''
           \<and> xml_get_attribute st'' node attr = Some (Some val2)))"
proof -
  have set: "\<exists>st' n'. xml_set_attribute st node attr v = Some st' \<and> nodes st' node = Some n' \<and> n_attr n' = Some a'
       \<and> (\<forall>x. x \<noteq> node \<longrightarrow> nodes st' x = nodes st x)"
    if "nodes st node = Some n"
      and "case n_attr n of None \<Rightarrow> a' = new_attr_text attr v | Some a \<Rightarrow> replace_attr a attr (new_attr_text attr v) = Some a'"
    for st n v a'
    using that by (auto simp: xml_set_attribute_def upd_Some Let_def split: option.splits)
  let ?a = "case n_attr n of None \<Rightarrow> new_attr_text attr val | Some a \<Rightarrow> a @ '' '' @ new_attr_text attr val"
  have a: "attr_value ?a attr = Some (Some val)"
    using absent attr_value_new [OF ok(1)] attr_value_appended [OF ok(1)]
    by (auto simp: get_attribute_value [OF n] split: option.splits)
  obtain st' n' where s1: "xml_set_attribute st node attr val = Some st'" "nodes st' node = Some n'" "n_attr n' = Some ?a"
      "\<forall>x. x \<noteq> node \<longrightarrow> nodes st' x = nodes st x"
    using set [OF n, of ?a val] absent replace_attr_absent by (auto simp: get_attribute_value [OF n] split: option.splits)
  have g1: "xml_get_attribute st' node attr = Some (Some val)" using s1(3) a by (simp add: get_attribute_value [OF s1(2)])
  have "\<exists>st''. xml_set_attribute st' node attr val2 = Some st'' \<and> xml_get_attribute st'' node attr = Some (Some val2)"
    if none: "n_attr n = None"
  proof -
    obtain st'' n'' where s2: "xml_set_attribute st' node attr val2 = Some st''" "nodes st'' node = Some n''"
        "n_attr n'' = Some (new_attr_text attr val2)"
      using set [OF s1(2), of "new_attr_text attr val2" val2] none s1(3) replace_attr_sole [OF ok(1)] by auto
    then show ?thesis using attr_value_new [OF ok(2)] by (simp add: get_attribute_value [OF s2(2)])
  qed
  then show ?thesis by (intro exI [of _ st'] conjI s1(1,4) g1) simp
qed

theorem xml_set_get_attribute_witness:
  "\<exists>st'. xml_set_attribute sample 1 ''y'' ''a \"b\"'' = Some st' \<and> xml_get_attribute st' 1 ''y'' = Some (Some ''a \"b\"'')"
proof -
  have "attr_ok ''y'' ''a \"b\"''" "xml_get_attribute sample 1 ''y'' = Some None" "nodes sample 1 \<noteq> None" by code_simp+
  then show ?thesis using xml_set_get_attribute [of sample 1] by blast
qed

text \<open>\<open>xml_strstr\<close> finds the first occurrence of a non-empty pattern from a position on, and nothing exactly
  when there is none.\<close>

theorem xml_strstr_first:
  assumes "p \<noteq> []"
  shows "xml_strstr s i p = Some k \<longleftrightarrow> i \<le> k \<and> occurs_at s p k \<and> (\<forall>j. i \<le> j \<and> j < k \<longrightarrow> \<not> occurs_at s p j)"
proof -
  have o: "occurs_at (drop i s) p j \<longleftrightarrow> occurs_at s p (i + j)" for j
  proof -
    have "take (length p) (drop (i + j) s) = p \<Longrightarrow> i + j \<le> length s" using assms by (cases "i + j \<le> length s") auto
    then show ?thesis by (auto simp: occurs_at_def add.commute)
  qed
  show ?thesis
  proof (cases "i \<le> k")
    case True
    then obtain z where k: "k = i + z" using le_Suc_ex by blast
    have "(\<forall>j<z. \<not> occurs_at s p (i + j)) \<longleftrightarrow> (\<forall>j. i \<le> j \<and> j < i + z \<longrightarrow> \<not> occurs_at s p j)"
      by (metis add_less_cancel_left le_Suc_ex le_add1)
    then show ?thesis using assms by (simp add: xml_strstr_def strstr_scan_Some o k)
  next
    case False
    then show ?thesis using assms by (auto simp: xml_strstr_def)
  qed
qed

theorem xml_strstr_first_witness: "xml_strstr ''abcabc'' 1 ''bc'' = Some 1"
  using xml_strstr_first [of "''bc''" "''abcabc''" 1 1] by (simp add: occurs_at_def)

end
