(* ===== verification/Flash.thy ===== *)
theory Flash
  imports Bytes
begin

text \<open>
  The flash driver of \<open>mbed/targets/hal/rtl8195a/flash_api.c\<close>: words and byte streams on the memory-mapped
  SPI flash. An address is the offset that is given to the driver (below \<open>2 ^ 32\<close>, with the wrap-around of
  its arithmetic), the flash a function from it to bytes, and a word is read and written little-endian.
  What the chip does when a byte is programmed or a sector erased is not in the repository and is
  the parameter \<open>nor\<close>; \<open>nor_ok\<close> states what the data sheet of a NOR flash promises. The set-up of
  the SPI controller and the waiting for its busy flags are left out.
\<close>

type_synonym flash = "nat \<Rightarrow> u8"

text \<open>\<open>FLASH_SYSTEM_DATA_ADDR\<close>: the first word of this sector is the address of the image that was updated last.\<close>

abbreviation (input) "OFFSET_DATA \<equiv> 0x9000 :: nat"

record nor =
  program :: "u8 \<Rightarrow> u8 \<Rightarrow> u8"
  erase :: "nat \<Rightarrow> flash \<Rightarrow> flash"

text \<open>Bytes programmed from \<open>a\<close> on.\<close>

definition programmed :: "nor \<Rightarrow> flash \<Rightarrow> nat \<Rightarrow> buf \<Rightarrow> flash" where
  "programmed d f a bs = (\<lambda>x. if a \<le> x \<and> x < a + length bs then program d (f x) (bs ! (x - a)) else f x)"

definition bytes_at :: "flash \<Rightarrow> nat \<Rightarrow> nat \<Rightarrow> buf" where
  "bytes_at f a n = map f [a..<a + n]"

definition HAL_READ32 :: "flash \<Rightarrow> nat \<Rightarrow> 32 word" where
  "HAL_READ32 f a = word_of (bytes_at f a 4)"

definition HAL_WRITE32 :: "nor \<Rightarrow> flash \<Rightarrow> nat \<Rightarrow> 32 word \<Rightarrow> flash" where
  "HAL_WRITE32 d f a w = programmed d f a (bytes_of w)"

definition flash_erase_sector :: "nor \<Rightarrow> flash \<Rightarrow> nat \<Rightarrow> flash" where
  "flash_erase_sector d f address = erase d address f"

definition flash_read_word :: "flash \<Rightarrow> nat \<Rightarrow> 32 word" where
  "flash_read_word f address = HAL_READ32 f address"

definition flash_write_word :: "nor \<Rightarrow> flash \<Rightarrow> nat \<Rightarrow> 32 word \<Rightarrow> flash" where
  "flash_write_word d f address w = HAL_WRITE32 d f address w"

text \<open>\<open>address = (((address-1) >> 2) + 1) << 2\<close>.\<close>

definition next_word :: "nat \<Rightarrow> nat" where
  "next_word address = (sub32 address 1 div 4 + 1) * 4 mod 2 ^ 32"

section \<open>Writing a stream\<close>

text \<open>The loop over the bytes of the first word; \<open>w\<close> are the bytes of \<open>write_word\<close>, \<open>k\<close> the one that is
  written next, \<open>p\<close> the position of \<open>pbuf\<close>. \<open>len\<close> is unsigned.\<close>

fun head_write :: "nat \<Rightarrow> buf \<Rightarrow> nat \<Rightarrow> buf \<Rightarrow> nat \<Rightarrow> nat \<Rightarrow> (buf \<times> nat \<times> nat) option" where
  "head_write 0 w k data p len = Some (w, p, len)"
| "head_write (Suc n) w k data p len = do {
     b \<leftarrow> rd data p;
     let w = w[k := b];
     let len = sub32 len 1;
     if len = 0 then Some (w, p + 1, len) else head_write n w (k + 1) data (p + 1) len
   }"

text \<open>The loop over whole words. The two versions of it, for an aligned \<open>pbuf\<close> and for another one, form the same
  word.\<close>

fun write_words :: "nor \<Rightarrow> flash \<Rightarrow> nat \<Rightarrow> buf \<Rightarrow> nat \<Rightarrow> nat \<Rightarrow> (flash \<times> nat \<times> nat \<times> nat) option" where
  "write_words d f address data p len =
     (if len \<ge> 4 then do {
        bs \<leftarrow> rdn data p 4;
        write_words d (HAL_WRITE32 d f address (word_of bs)) (add32 address 4) data (p + 4) (len - 4)
      } else Some (f, address, p, len))"

definition flash_stream_write :: "nor \<Rightarrow> flash \<Rightarrow> nat \<Rightarrow> nat \<Rightarrow> buf \<Rightarrow> flash option" where
  "flash_stream_write d f address len data = do {
     let offset_to_align = address mod 4;
     (f, p, len) \<leftarrow> (if offset_to_align \<noteq> 0 then do {
          let align_addr = address - offset_to_align;
          (w, p, len) \<leftarrow> head_write (4 - offset_to_align) (bytes_of (HAL_READ32 f align_addr)) offset_to_align data 0 len;
          Some (HAL_WRITE32 d f align_addr (word_of w), p, len)
        } else Some (f, 0, len));
     (f, address, p, len) \<leftarrow> write_words d f (next_word address) data p len;
     if len > 0 then do {
       bs \<leftarrow> rdn data p len;
       Some (HAL_WRITE32 d f address (word_of (bs @ drop len (bytes_of (HAL_READ32 f address)))))
     } else Some f
   }"

section \<open>Reading a stream\<close>

text \<open>\<open>out\<close> are the bytes stored so far in the caller's buffer of \<open>cap\<close> bytes.\<close>

definition put :: "nat \<Rightarrow> buf \<Rightarrow> buf \<Rightarrow> buf option" where
  "put cap out bs = (if length out + length bs \<le> cap then Some (out @ bs) else None)"

fun head_read :: "nat \<Rightarrow> nat \<Rightarrow> buf \<Rightarrow> nat \<Rightarrow> buf \<Rightarrow> nat \<Rightarrow> (buf \<times> nat) option" where
  "head_read cap 0 w k out len = Some (out, len)"
| "head_read cap (Suc n) w k out len = do {
     out \<leftarrow> put cap out [w ! k];
     let len = sub32 len 1;
     if len = 0 then Some (out, len) else head_read cap n w (k + 1) out len
   }"

fun read_words :: "nat \<Rightarrow> flash \<Rightarrow> nat \<Rightarrow> buf \<Rightarrow> nat \<Rightarrow> (nat \<times> buf \<times> nat) option" where
  "read_words cap f address out len =
     (if len \<ge> 4 then do {
        out \<leftarrow> put cap out (bytes_of (HAL_READ32 f address));
        read_words cap f (add32 address 4) out (len - 4)
      } else Some (address, out, len))"

definition flash_stream_read :: "nat \<Rightarrow> flash \<Rightarrow> nat \<Rightarrow> nat \<Rightarrow> buf option" where
  "flash_stream_read cap f address len = do {
     let offset_to_align = address mod 4;
     (out, len) \<leftarrow> (if offset_to_align \<noteq> 0
       then head_read cap (4 - offset_to_align) (bytes_of (HAL_READ32 f (address - offset_to_align))) offset_to_align [] len
       else Some ([], len));
     (address, out, len) \<leftarrow> read_words cap f (next_word address) out len;
     if len > 0 then put cap out (take len (bytes_of (HAL_READ32 f address))) else Some out
   }"

declare write_words.simps [simp del] read_words.simps [simp del]

section \<open>Programming bytes\<close>

text \<open>What a NOR flash promises: erased bytes take any value, writing the value a byte has does nothing, and
  erasing sets the 4 KB sector around an address to all ones.\<close>

definition nor_ok :: "nor \<Rightarrow> bool" where
  "nor_ok d \<longleftrightarrow> (\<forall>x. program d x x = x) \<and> (\<forall>x. program d 0xFF x = x)
     \<and> (\<forall>a f x. erase d a f x = (if x div 4096 = a div 4096 then 0xFF else f x))"

definition erased :: "flash \<Rightarrow> nat \<Rightarrow> nat \<Rightarrow> bool" where
  "erased f a n \<longleftrightarrow> (\<forall>x. a \<le> x \<and> x < a + n \<longrightarrow> f x = 0xFF)"

lemma programmed_append:
  "programmed d f a (xs @ ys) = programmed d (programmed d f a xs) (a + length xs) ys"
  by (rule ext) (auto simp: programmed_def nth_append)

lemma programmed_Nil [simp]: "programmed d f a [] = f"
  by (rule ext) (auto simp: programmed_def)

lemma programmed_same: "nor_ok d \<Longrightarrow> programmed d f a (bytes_at f a n) = f"
  by (rule ext) (auto simp: programmed_def bytes_at_def nor_ok_def)

lemma length_bytes_at [simp]: "length (bytes_at f a n) = n"
  by (simp add: bytes_at_def)

lemma bytes_at_cong: "(\<And>x. a \<le> x \<Longrightarrow> x < a + n \<Longrightarrow> f x = g x) \<Longrightarrow> bytes_at f a n = bytes_at g a n"
  by (simp add: bytes_at_def)

lemma bytes_at_add: "bytes_at f a (m + n) = bytes_at f a m @ bytes_at f (a + m) n"
  by (simp add: bytes_at_def upt_add_eq_append [of a "a + m" n, simplified] add.assoc [symmetric])

lemma bytes_at_programmed: "nor_ok d \<Longrightarrow> erased f a (length bs) \<Longrightarrow> bytes_at (programmed d f a bs) a (length bs) = bs"
  by (rule nth_equalityI) (auto simp: bytes_at_def programmed_def erased_def nor_ok_def)

text \<open>A word is read, some of its bytes are replaced, and it is written back: only these bytes are programmed.\<close>

lemma program_part:
  assumes "nor_ok d" "m + length bs + n = 4"
  shows "HAL_WRITE32 d f a (word_of (bytes_at f a m @ bs @ bytes_at f (a + m + length bs) n)) = programmed d f (a + m) bs"
proof -
  have e: "programmed d f (a + m) bs = programmed d (programmed d f (a + m) bs) (a + m + length bs) (bytes_at f (a + m + length bs) n)"
    using programmed_same [OF assms(1), of "programmed d f (a + m) bs" "a + m + length bs" n]
    by (subst bytes_at_cong [of _ _ f "programmed d f (a + m) bs"]) (auto simp: programmed_def)
  show ?thesis using assms
    by (simp add: HAL_WRITE32_def bytes_of_word_of programmed_append programmed_same e [symmetric])
qed

section \<open>The loops\<close>

lemma head_write_eq:
  "0 < len \<Longrightarrow> len < 2 ^ 32 \<Longrightarrow> k + n = length w \<Longrightarrow> p + min n len \<le> length data \<Longrightarrow>
   head_write n w k data p len = Some (take k w @ take (min n len) (drop p data) @ drop (k + min n len) w,
     p + min n len, len - min n len)"
proof (induction n arbitrary: w k p len)
  case (Suc n)
  have b: "rd data p = Some (data ! p)" using Suc.prems by (simp add: rd_def)
  have d: "drop p data = data ! p # drop (Suc p) data" using Suc.prems by (intro Cons_nth_drop_Suc [symmetric]) auto
  show ?case
  proof (cases "len = 1")
    case True
    then show ?thesis using Suc.prems by (simp add: b d upd_conv_take_nth_drop)
  next
    case False
    have "head_write n (w[k := data ! p]) (k + 1) data (p + 1) (len - 1)
      = Some (take (k + 1) (w[k := data ! p]) @ take (min n (len - 1)) (drop (p + 1) data) @ drop (k + 1 + min n (len - 1)) (w[k := data ! p]),
          p + 1 + min n (len - 1), len - 1 - min n (len - 1))"
      using Suc.prems False by (intro Suc.IH) auto
    moreover have "take (k + 1) (w[k := data ! p]) = take k w @ [data ! p]"
      using Suc.prems by (simp add: take_Suc_conv_app_nth)
    moreover have "min (Suc n) len = Suc (min n (len - 1))" using Suc.prems(1) by simp
    ultimately show ?thesis using Suc.prems False by (simp add: b d)
  qed
qed simp

lemma write_words_eq:
  "p + len \<le> length data \<Longrightarrow> a + len < 2 ^ 32 \<Longrightarrow>
   write_words d f a data p len = Some (programmed d f a (take (4 * (len div 4)) (drop p data)),
     a + 4 * (len div 4), p + 4 * (len div 4), len mod 4)"
proof (induction len arbitrary: f a p rule: less_induct)
  case (less len)
  show ?case
  proof (cases "4 \<le> len")
    case True
    let ?bs = "take 4 (drop p data)"
    have r: "rdn data p 4 = Some ?bs" "length ?bs = 4" using less.prems True by (simp_all add: rdn_def)
    have l: "len div 4 = Suc ((len - 4) div 4)" "len mod 4 = (len - 4) mod 4" using True by (simp_all add: le_div_geq le_mod_geq)
    have "take (4 * (len div 4)) (drop p data) = ?bs @ take (4 * ((len - 4) div 4)) (drop (p + 4) data)"
      by (simp only: l(1) mult_Suc_right take_add drop_drop add.commute)
    moreover have "write_words d f a data p len = write_words d (programmed d f a ?bs) (a + 4) data (p + 4) (len - 4)"
      using True less.prems r by (subst write_words.simps) (simp add: HAL_WRITE32_def bytes_of_word_of)
    ultimately show ?thesis using less.IH [of "len - 4" "p + 4" "a + 4" "programmed d f a ?bs"] less.prems True
      by (simp add: l programmed_append r(2))
  next
    case False
    then show ?thesis by (subst write_words.simps) simp
  qed
qed

lemma next_word_aligned:
  assumes "a < 2 ^ 32" "a mod 4 = 0"
  shows "next_word a = a"
proof -
  obtain k where k: "a = 4 * k" using assms(2) by (auto simp: dvd_eq_mod_eq_0 [symmetric])
  show ?thesis
  proof (cases k)
    case 0
    then show ?thesis by (simp add: k next_word_def sub32_def)
  next
    case (Suc l)
    have "sub32 a 1 = 4 * l + 3" using assms(1) by (simp add: k Suc)
    then show ?thesis using assms(1) by (simp add: next_word_def k Suc)
  qed
qed

lemma next_word_up:
  assumes "0 < j" "j < 4" "b mod 4 = 0" "b + 4 < 2 ^ 32"
  shows "next_word (b + j) = b + 4"
proof -
  obtain k where k: "b = 4 * k" using assms(3) by (auto simp: dvd_eq_mod_eq_0 [symmetric])
  have "sub32 (b + j) 1 = 4 * k + (j - 1)" using assms by (simp add: k)
  then show ?thesis using assms by (simp add: next_word_def k)
qed

text \<open>The bytes of a word, cut out of the flash.\<close>

lemma bytes_of_READ32: "bytes_of (HAL_READ32 f a) = bytes_at f a 4"
  by (simp add: HAL_READ32_def bytes_of_word_of)

lemma take_bytes_at: "k \<le> n \<Longrightarrow> take k (bytes_at f a n) = bytes_at f a k"
  by (simp add: bytes_at_def take_map)

lemma drop_bytes_at: "k \<le> n \<Longrightarrow> drop k (bytes_at f a n) = bytes_at f (a + k) (n - k)"
  by (simp add: bytes_at_def drop_map)

lemma write_rest:
  assumes ok: "nor_ok d" and n: "p + n \<le> length data" "a + n < 2 ^ 32"
  shows "(do { (f, address, p, len) \<leftarrow> write_words d f a data p n;
       if len > 0 then do {
         bs \<leftarrow> rdn data p len;
         Some (HAL_WRITE32 d f address (word_of (bs @ drop len (bytes_of (HAL_READ32 f address)))))
       } else Some f }) = Some (programmed d f a (take n (drop p data)))"
  proof -
  define q r where "q = 4 * (n div 4)" and "r = n mod 4"
  note e = write_words_eq [OF n, of d f, folded q_def r_def]
  have qr: "q + r = n" "r \<le> 4" by (simp_all add: q_def r_def less_imp_le)
  let ?f = "programmed d f a (take q (drop p data))" and ?R = "take r (drop (p + q) data)"
  have s: "take n (drop p data) = take q (drop p data) @ ?R"
    unfolding qr(1) [symmetric] take_add drop_drop by (simp only: add.commute)
  have rd: "rdn data (p + q) r = Some ?R" using n qr by (simp add: rdn_def)
  have l: "length ?R = r" "length (take q (drop p data)) = q" using n qr by simp_all
  have "HAL_WRITE32 d ?f (a + q) (word_of (?R @ drop r (bytes_of (HAL_READ32 ?f (a + q))))) = programmed d ?f (a + q) ?R"
    using program_part [OF ok, of 0 ?R "4 - r" ?f "a + q"] l(1) qr(2)
    by (simp add: bytes_of_READ32 drop_bytes_at bytes_at_def [of _ _ 0])
  then show ?thesis using l by (simp add: e rd s programmed_append)
qed

theorem stream_write_eq:
  assumes ok: "nor_ok d" and len: "len \<le> length data" "address + len + 4 < 2 ^ 32" and pos: "0 < len \<or> address mod 4 = 0"
  shows "flash_stream_write d f address len data = Some (programmed d f address (take len data))"
proof -
  show ?thesis
  proof (cases "address mod 4 = 0")
    case True
    then show ?thesis using write_rest [OF ok, of 0 len data address f] len by (simp add: flash_stream_write_def next_word_aligned)
  next
    case False
    obtain b j where a: "address = b + j" "b mod 4 = 0" "0 < j" "j < 4"
    proof
      show "address = (address - address mod 4) + address mod 4" "(address - address mod 4) mod 4 = 0"
        by (simp_all add: minus_mod_eq_mult_div)
    qed (use False in simp_all)
    have mb: "(b + j) mod 4 = j" using a(2,4) by (simp add: mod_add_eq [of b 4 j, symmetric])
    obtain m where m: "m = min (4 - j) len" "m \<le> len" "j + m \<le> 4" "len \<noteq> m \<Longrightarrow> j + m = 4"
      using a(4) by fastforce
    have n: "next_word (b + j) = b + 4" using next_word_up [of j b] a len by simp
    have h: "head_write (4 - j) (bytes_of (HAL_READ32 f b)) j data 0 len
      = Some (bytes_at f b j @ take m data @ bytes_at f (b + (j + m)) (4 - (j + m)), m, len - m)"
      using head_write_eq [of len j "4 - j" "bytes_of (HAL_READ32 f b)" 0 data, folded m(1)] len pos a m(2,3) mb
      by (simp add: bytes_of_READ32 take_bytes_at drop_bytes_at)
    have lm: "length (take m data) = m" using len(1) m(2) by simp
    have w: "HAL_WRITE32 d f b (word_of (bytes_at f b j @ take m data @ bytes_at f (b + (j + m)) (4 - (j + m))))
      = programmed d f (b + j) (take m data)"
      using program_part [OF ok, of j "take m data" "4 - (j + m)" f b] m(3) lm by (simp add: add.assoc)
    have t: "programmed d (programmed d f (b + j) (take m data)) (b + 4) (take (len - m) (drop m data))
      = programmed d f (b + j) (take len data)"
    proof (cases "len = m")
      case False
      have "take len data = take m data @ take (len - m) (drop m data)" using m(2) by (metis le_add_diff_inverse take_add)
      moreover have "b + 4 = b + j + m" using m(4) False by simp
      ultimately show ?thesis using lm by (simp only: programmed_append)
    qed simp
    have "flash_stream_write d f (b + j) len data = Some (programmed d f (b + j) (take len data))"
      unfolding flash_stream_write_def Let_def mb
      using a(3) write_rest [OF ok, of m "len - m" data "b + 4" "programmed d f (b + j) (take m data)"] len a(1) m(2)
      by (simp add: h w n t)
    then show ?thesis by (simp only: a(1))
  qed
qed

section \<open>Reading\<close>

lemma head_read_eq:
  "0 < len \<Longrightarrow> len < 2 ^ 32 \<Longrightarrow> k + n = length w \<Longrightarrow> length out + min n len \<le> cap \<Longrightarrow>
   head_read cap n w k out len = Some (out @ take (min n len) (drop k w), len - min n len)"
proof (induction n arbitrary: k out len)
  case (Suc n)
  have d: "drop k w = w ! k # drop (Suc k) w" using Suc.prems by (intro Cons_nth_drop_Suc [symmetric]) auto
  show ?case
  proof (cases "len = 1")
    case True
    then show ?thesis using Suc.prems by (simp add: put_def d)
  next
    case False
    have "head_read cap n w (k + 1) (out @ [w ! k]) (len - 1)
      = Some ((out @ [w ! k]) @ take (min n (len - 1)) (drop (k + 1) w), len - 1 - min n (len - 1))"
      using Suc.prems False by (intro Suc.IH) auto
    moreover have "min (Suc n) len = Suc (min n (len - 1))" using Suc.prems(1) by simp
    ultimately show ?thesis using Suc.prems False by (simp add: put_def d)
  qed
qed simp

lemma read_words_eq:
  "length out + len \<le> cap \<Longrightarrow> a + len < 2 ^ 32 \<Longrightarrow>
   read_words cap f a out len = Some (a + 4 * (len div 4), out @ bytes_at f a (4 * (len div 4)), len mod 4)"
proof (induction len arbitrary: a out rule: less_induct)
  case (less len)
  show ?case
  proof (cases "4 \<le> len")
    case True
    have l: "len div 4 = Suc ((len - 4) div 4)" "len mod 4 = (len - 4) mod 4" using True by (simp_all add: le_div_geq le_mod_geq)
    have "bytes_at f a (4 * (len div 4)) = bytes_at f a 4 @ bytes_at f (a + 4) (4 * ((len - 4) div 4))"
      by (simp only: l(1) mult_Suc_right bytes_at_add)
    moreover have "read_words cap f a out len = read_words cap f (a + 4) (out @ bytes_at f a 4) (len - 4)"
      using True less.prems by (subst read_words.simps) (simp add: bytes_of_READ32 put_def)
    ultimately show ?thesis using less.IH [of "len - 4" "out @ bytes_at f a 4" "a + 4"] less.prems True by (simp add: l)
  next
    case False
    then show ?thesis by (subst read_words.simps) (simp add: bytes_at_def)
  qed
qed

lemma read_rest:
  assumes n: "length out + n \<le> cap" "a + n < 2 ^ 32"
  shows "(do { (address, out, len) \<leftarrow> read_words cap f a out n;
       if len > 0 then put cap out (take len (bytes_of (HAL_READ32 f address))) else Some out }) = Some (out @ bytes_at f a n)"
proof -
  define q r where "q = 4 * (n div 4)" and "r = n mod 4"
  note e = read_words_eq [OF n, of f, folded q_def r_def]
  have qr: "q + r = n" "r \<le> 4" by (simp_all add: q_def r_def less_imp_le)
  have "put cap (out @ bytes_at f a q) (bytes_at f (a + q) r) = Some (out @ bytes_at f a q @ bytes_at f (a + q) r)"
    using n(1) qr by (simp add: put_def)
  then show ?thesis using qr(2) unfolding qr(1) [symmetric] bytes_at_add
    by (simp add: e [unfolded qr(1) [symmetric]] bytes_of_READ32 take_bytes_at bytes_at_def [of _ _ 0])
qed

lemma split_address:
  assumes "a mod 4 \<noteq> 0"
  obtains b j :: nat where "a = b + j" "b mod 4 = 0" "0 < j" "j < 4" "(b + j) mod 4 = j"
proof
  show "a = (a - a mod 4) + a mod 4" "(a - a mod 4) mod 4 = 0" "(a - a mod 4 + a mod 4) mod 4 = a mod 4"
    by (simp_all add: minus_mod_eq_mult_div)
qed (use assms in simp_all)

lemma stream_read_eq:
  assumes len: "len \<le> cap" "address + len + 4 < 2 ^ 32" and pos: "0 < len \<or> address mod 4 = 0"
  shows "flash_stream_read cap f address len = Some (bytes_at f address len)"
proof (cases "address mod 4 = 0")
  case True
  then show ?thesis using read_rest [of "[]" len cap address f] len by (simp add: flash_stream_read_def next_word_aligned)
next
  case False
  then obtain b j where a: "address = b + j" "b mod 4 = 0" "0 < j" "j < 4" and mb: "(b + j) mod 4 = j" by (rule split_address)
  obtain m where m: "m = min (4 - j) len" "m \<le> len" "j + m \<le> 4" "len \<noteq> m \<Longrightarrow> j + m = 4"
    using a(4) by fastforce
  have n: "next_word (b + j) = b + 4" using next_word_up [of j b] a len by simp
  have h: "head_read cap (4 - j) (bytes_of (HAL_READ32 f b)) j [] len = Some (bytes_at f (b + j) m, len - m)"
    using head_read_eq [of len j "4 - j" "bytes_of (HAL_READ32 f b)" "[]" cap, folded m(1)] len pos a m(2,3) mb
    by (simp add: bytes_of_READ32 drop_bytes_at take_bytes_at)
  have t: "bytes_at f (b + j) m @ bytes_at f (b + 4) (len - m) = bytes_at f (b + j) len"
  proof (cases "len = m")
    case False
    then have "b + 4 = b + j + m" "len = m + (len - m)" using m(2,4) by simp_all
    then show ?thesis by (metis bytes_at_add)
  qed (simp add: bytes_at_def)
  have "flash_stream_read cap f (b + j) len = Some (bytes_at f (b + j) len)"
    unfolding flash_stream_read_def Let_def mb
    using a(3) read_rest [of "bytes_at f (b + j) m" "len - m" cap "b + 4" f] len a(1) m(2) by (simp add: h n t)
  then show ?thesis by (simp only: a(1))
qed

section \<open>A length of zero\<close>

lemma write_words_short:
  "length data < p + len \<Longrightarrow> (do { (f, address, p, len) \<leftarrow> write_words d f a data p len;
       if len > 0 then do {
         bs \<leftarrow> rdn data p len;
         Some (HAL_WRITE32 d f address (word_of (bs @ drop len (bytes_of (HAL_READ32 f address)))))
       } else Some f }) = None \<or> len = 0"
proof (induction len arbitrary: f a p rule: less_induct)
  case (less len)
  show ?case
  proof (cases "4 \<le> len \<and> p + 4 \<le> length data")
    case True
    then have "len - 4 \<noteq> 0" using less.prems by simp
    then show ?thesis using True less.IH [of "len - 4" "p + 4"] less.prems
      by (subst write_words.simps) (simp add: rdn_def)
  next
    case False
    then show ?thesis using less.prems by (subst write_words.simps) (auto simp: rdn_def)
  qed
qed

lemma head_write_zero:
  "length w = 4 \<Longrightarrow> 0 < n \<Longrightarrow> n < 4 \<Longrightarrow> head_write n w k data p 0 = Some (w', p', len') \<Longrightarrow> p' \<le> p + 4 \<and> 2 ^ 32 - 4 \<le> len'"
proof -
  have step: "head_write n w k data p len = Some (w', p', len') \<Longrightarrow> n < len \<Longrightarrow> len < 2 ^ 32 \<Longrightarrow> p' = p + n \<and> len' = len - n"
    for n w k p len
    by (induction n arbitrary: w k p len) (fastforce split: bind_splits if_splits)+
  assume h: "head_write n w k data p 0 = Some (w', p', len')" and n: "0 < n" "n < 4"
  obtain l where l: "n = Suc l" using n(1) by (cases n) auto
  have "sub32 0 1 = 2 ^ 32 - 1" by (simp add: sub32_def)
  then obtain b where "head_write l (w[k := b]) (k + 1) data (p + 1) (2 ^ 32 - 1) = Some (w', p', len')"
    using h by (auto simp: l split: bind_splits)
  from step [OF this] show ?thesis using n(2) l by simp
qed


section \<open>Properties\<close>

definition nor_and :: nor where
  "nor_and = \<lparr>program = (\<lambda>old new. old AND new), erase = (\<lambda>a f x. if x div 4096 = a div 4096 then 0xFF else f x)\<rparr>"

lemma nor_and_ok: "nor_ok nor_and"
proof -
  have "(0xFF :: u8) = - 1" by simp
  then have "(0xFF :: u8) AND x = x" for x by (simp only: and.left_neutral)
  then show ?thesis unfolding nor_ok_def nor_and_def by simp
qed

text \<open>C29: What \<open>flash_stream_write\<close> writes to an erased area is what \<open>flash_stream_read\<close> reads back, at any
  address, aligned to words or not, and of any length but zero, as long as the address plus the length plus 4 stays below \<open>2 ^ 32\<close>; no other byte of the flash changes, also
  not those that share a word with the first or the last byte.\<close>

theorem flash_write_read_roundtrip:
  assumes "nor_ok d" and "erased f address (length data)" and "data \<noteq> []" and "address + length data + 4 < 2 ^ 32"
  shows "\<exists>f'. flash_stream_write d f address (length data) data = Some f'
    \<and> flash_stream_read (length data) f' address (length data) = Some data
    \<and> (\<forall>x. x < address \<or> address + length data \<le> x \<longrightarrow> f' x = f x)"
proof -
  let ?f = "programmed d f address data"
  have "flash_stream_write d f address (length data) data = Some ?f"
    using stream_write_eq [of d "length data" data address f] assms by simp
  moreover have "flash_stream_read (length data) ?f address (length data) = Some data"
    using stream_read_eq [of "length data" "length data" address ?f] bytes_at_programmed [OF assms(1,2)] assms(3,4) by simp
  ultimately show ?thesis by (intro exI [of _ ?f]) (auto simp: programmed_def)
qed

theorem flash_write_read_roundtrip_witness:
  "\<exists>f'. flash_stream_write nor_and (\<lambda>_. 0xFF) 5 7 [1, 2, 3, 4, 5, 6, 7] = Some f'
    \<and> flash_stream_read 7 f' 5 7 = Some [1, 2, 3, 4, 5, 6, 7]"
proof -
  let ?d = "[1, 2, 3, 4, 5, 6, 7] :: u8 list"
  have l: "length ?d = 7" by simp
  have "erased (\<lambda>_. 0xFF) 5 7" by (simp add: erased_def)
  then show ?thesis using flash_write_read_roundtrip [of nor_and "\<lambda>_. 0xFF" 5 ?d, unfolded l, OF nor_and_ok] by auto
qed

text \<open>\<open>flash_stream_write\<close> of no bytes to an address that is not aligned reads past the end of every buffer:
  \<open>len\<close> goes from 0 to its largest value before it is compared to 0.\<close>

theorem flash_write_empty_unaligned:
  assumes "address mod 4 \<noteq> 0" and "length data + 8 < 2 ^ 32"
  shows "flash_stream_write d f address 0 data = None"
proof -
  obtain b j where a: "address = b + j" "b mod 4 = 0" "0 < j" "j < 4" "(b + j) mod 4 = j" using assms(1) by (rule split_address)
  show ?thesis
  proof (cases "head_write (4 - j) (bytes_of (HAL_READ32 f b)) j data 0 0")
    case None
    then show ?thesis unfolding a(1) flash_stream_write_def Let_def a(5) using a(3) by simp
  next
    case (Some r)
    obtain w p len where r: "r = (w, p, len)" by (cases r)
    have l: "p \<le> 4" "2 ^ 32 - 4 \<le> len" using head_write_zero [OF _ _ _ Some [unfolded r]] a(3,4) by simp_all
    then show ?thesis unfolding a(1) flash_stream_write_def Let_def a(5) using a(3) assms(2)
      write_words_short [of data p len d "HAL_WRITE32 d f b (word_of w)" "next_word (b + j)"]
      by (simp add: Some r)
  qed
qed

theorem flash_write_empty_unaligned_witness: "flash_stream_write nor_and (\<lambda>_. 0xFF) 5 0 [1, 2, 3] = None"
  using flash_write_empty_unaligned [of 5 "[1, 2, 3]" nor_and "\<lambda>_. 0xFF"] by simp

end
