(* ===== verification/Ymodem.thy ===== *)
theory Ymodem
  imports Flash
begin

text \<open>
  The firmware update over the serial line, \<open>common/utilities/uart_ymodem.c\<close>: the receive interrupt that
  fills a buffer, and the thread that takes a packet out of it when the line has been quiet, checks
  it, writes its data to the flash and answers. The state is the structure \<open>uart_ymodem_t\<close> with the
  static variables of the file, the local variables of the thread that live across packets, the
  clock, the flash and the bytes sent. Unsigned numbers are below \<open>2 ^ 32\<close> and wrap around; a read outside a
  buffer gives \<open>None\<close>.

  The file name is written through a pointer to a local array of \<open>uart_ymodem_init\<close>, which does not
  exist any more then; the model keeps the name in a field of its own.
\<close>

datatype phase = Waiting | Running | Exited nat bool

record ym =
  uart_rcv_buf :: buf
  uart_irq_buf :: buf
  uart_rx_sema :: nat
  image_address :: nat
  tick_last_update :: nat
  uart_recv_index :: nat
  uart_recv_buf_index :: nat
  modemtype :: nat
  crc_mode :: nat
  nxt_num :: nat
  cur_num :: nat
  len :: nat
  rec_err :: nat
  filelen :: nat
  filename :: buf
  offset :: nat
  flags :: nat
  first_time :: bool
  can_counter :: nat
  eot_counter :: nat
  send_count :: nat
  phase :: phase
  tick :: nat
  fmem :: flash
  sent :: buf

abbreviation (input) "RCV_BUF_SIZE \<equiv> 1029 :: nat"
abbreviation (input) "MAX_SEMA_COUNT \<equiv> 32 :: nat"
abbreviation (input) "IMAGE_TWO \<equiv> 0x80000 :: nat"
abbreviation (input) "MODEM_SOH \<equiv> 0x01 :: u8"
abbreviation (input) "MODEM_STX \<equiv> 0x02 :: u8"
abbreviation (input) "MODEM_EOT \<equiv> 0x04 :: u8"
abbreviation (input) "MODEM_ACK \<equiv> 0x06 :: u8"
abbreviation (input) "MODEM_NAK \<equiv> 0x15 :: u8"
abbreviation (input) "MODEM_CAN \<equiv> 0x18 :: u8"
abbreviation (input) "MODEM_C \<equiv> 0x43 :: u8"
abbreviation (input) "MODEM_CAN_COUNT \<equiv> 3 :: nat"
abbreviation (input) "MODEM_EOT_COUNT \<equiv> 1 :: nat"

section \<open>The serial line\<close>

text \<open>A byte \<open>b\<close> has been received.\<close>

definition uarty_irq :: "u8 \<Rightarrow> ym \<Rightarrow> ym option" where
  "uarty_irq b st = (
     let st = (if uart_recv_index st = 0 then st\<lparr>uart_rx_sema := min (uart_rx_sema st + 1) MAX_SEMA_COUNT\<rparr> else st);
         st = (if uart_recv_index st = RCV_BUF_SIZE then st\<lparr>uart_recv_index := 0\<rparr> else st)
     in if uart_recv_index st < length (uart_irq_buf st)
        then Some (st\<lparr>uart_irq_buf := (uart_irq_buf st)[uart_recv_index st := b],
               uart_recv_index := add32 (uart_recv_index st) 1, tick_last_update := tick st\<rparr>)
        else None)"

definition uart_sendbyte :: "u8 \<Rightarrow> ym \<Rightarrow> ym" where
  "uart_sendbyte b st = st\<lparr>sent := sent st @ [b]\<rparr>"

definition uart_recvbytetimeout :: "ym \<Rightarrow> (ym \<times> u8) option" where
  "uart_recvbytetimeout st = do {
     b \<leftarrow> rd (uart_irq_buf st) (uart_recv_buf_index st);
     let st = st\<lparr>uart_recv_buf_index := add32 (uart_recv_buf_index st) 1\<rparr>;
     Some (if uart_recv_buf_index st = RCV_BUF_SIZE then st\<lparr>uart_recv_buf_index := 0\<rparr> else st, b)
   }"

definition uart_rxempty :: "ym \<Rightarrow> ym" where
  "uart_rxempty st = st\<lparr>uart_irq_buf := replicate RCV_BUF_SIZE 0, uart_rcv_buf := replicate RCV_BUF_SIZE 0,
     uart_recv_buf_index := 0, uart_recv_index := 0\<rparr>"

definition uart_init :: "ym \<Rightarrow> ym" where
  "uart_init st = st\<lparr>uart_rx_sema := 0\<rparr>"

section \<open>Writing to the flash\<close>

text \<open>\<open>ymodem_flashwrite\<close>: the length is rounded up to words; each word is read from the buffer.\<close>

fun flashwrite_loop :: "nor \<Rightarrow> flash \<Rightarrow> nat \<Rightarrow> buf \<Rightarrow> nat \<Rightarrow> flash option" where
  "flashwrite_loop d f flashadd pbuf 0 = Some f"
| "flashwrite_loop d f flashadd pbuf (Suc n) = do {
     w \<leftarrow> rdn pbuf 0 4;
     flashwrite_loop d (flash_write_word d f flashadd (word_of w)) (add32 flashadd 4) (drop 4 pbuf) n
   }"

definition ymodem_flashwrite :: "nor \<Rightarrow> flash \<Rightarrow> nat \<Rightarrow> buf \<Rightarrow> nat \<Rightarrow> (flash \<times> int) option" where
  "ymodem_flashwrite d f flashadd pbuf n =
     (if n = 0 then Some (f, - 1)
      else let n = n + (4 - (if n mod 4 = 0 then 4 else n mod 4))
           in map_option (\<lambda>f. (f, 0)) (flashwrite_loop d f flashadd pbuf (n div 4)))"

definition data_write_to_flash :: "nor \<Rightarrow> ym \<Rightarrow> ym option" where
  "data_write_to_flash d st = do {
     let data = flash_read_word (fmem st) OFFSET_DATA;
     let st = (if data = - 1
       then st\<lparr>fmem := flash_write_word d (fmem st) OFFSET_DATA (word_of_nat (image_address st))\<rparr> else st);
     let st = (if offset st = 0 \<or> offset st mod 4096 = 0
       then st\<lparr>fmem := flash_erase_sector d (fmem st) (add32 (image_address st) (offset st))\<rparr> else st);
     let st = (if flags st = 0
       then let f = flash_write_word d (fmem st) (image_address st) (word_of_nat (filelen st));
                f = flash_write_word d f (add32 (image_address st) 4) 0x10004000
            in st\<lparr>fmem := f, flags := 1\<rparr> else st);
     f \<leftarrow> flash_stream_write d (fmem st) (add32 (image_address st) (offset st)) (len st) (uart_rcv_buf st);
     Some (st\<lparr>fmem := f, offset := add32 (offset st) (len st)\<rparr>)
   }"

section \<open>Start of a transfer\<close>

definition uart_ymodem_init :: "ym \<Rightarrow> ym" where
  "uart_ymodem_init st = st\<lparr>cur_num := 0, filelen := 0, filename := [0], len := 0, nxt_num := 0, modemtype := 2, rec_err := 0,
     crc_mode := 1, uart_recv_buf_index := 0, uart_recv_index := 0, image_address := IMAGE_TWO\<rparr>"

text \<open>\<open>uart_ymodem\<close>: the structure is allocated and the thread created, with its local variables.\<close>

definition uart_ymodem :: "ym \<Rightarrow> ym" where
  "uart_ymodem st = (uart_init (uart_ymodem_init st))\<lparr>can_counter := 0, eot_counter := 0, send_count := 0, phase := Waiting\<rparr>"

section \<open>The file length\<close>

text \<open>One turn of the loop over the digits, base \<open>datatype\<close>, on the character \<open>c\<close>: the loop goes on with a new
  result or ends. In the loop the list is the memory from the pointer to the end of the receive
  buffer.\<close>

definition file_digit :: "nat \<Rightarrow> int \<Rightarrow> u8 \<Rightarrow> int option" where
  "file_digit base result c =
     (if c = 0 then None
      else if 0x30 \<le> c \<and> c \<le> 0x39 then Some (wrap32 (result * int base + uint c - 48))
      else if base = 10 then None
      else if 0x41 \<le> c \<and> c \<le> 0x46 then Some (wrap32 (result * 16 + uint c - 55))
      else if 0x61 \<le> c \<and> c \<le> 0x66 then Some (wrap32 (result * 16 + uint c - 87))
      else None)"

fun filelen_loop :: "nat \<Rightarrow> int \<Rightarrow> buf \<Rightarrow> int option" where
  "filelen_loop base result [] = None"
| "filelen_loop base result (c # cs) =
     (case file_digit base result c of None \<Rightarrow> Some result | Some r \<Rightarrow> filelen_loop base r cs)"

definition buf_filelen :: "buf \<Rightarrow> nat option" where
  "buf_filelen cs = do {
     c0 \<leftarrow> rd cs 0;
     hex \<leftarrow> (if c0 = 0x30 then do { c1 \<leftarrow> rd cs 1; Some (c1 = 0x78 \<and> c1 = 0x58) } else Some False);
     map_option u32 (if hex then filelen_loop 16 0 (drop 2 cs) else filelen_loop 10 0 cs)
   }"

fun copy_name :: "buf \<Rightarrow> (buf \<times> buf) option" where
  "copy_name [] = None"
| "copy_name (c # cs) = (if c = 0 then Some ([], cs) else map_option (apfst ((#) c)) (copy_name cs))"

fun skip_blanks :: "buf \<Rightarrow> buf option" where
  "skip_blanks [] = None"
| "skip_blanks (c # cs) = (if c = 0x20 then skip_blanks cs else Some (c # cs))"

definition calc_file_name_size :: "ym \<Rightarrow> ym option" where
  "calc_file_name_size st = do {
     (name, rest) \<leftarrow> copy_name (drop 3 (uart_irq_buf st));
     rest \<leftarrow> skip_blanks rest;
     n \<leftarrow> buf_filelen rest;
     Some (st\<lparr>filename := name @ [0], filelen := n\<rparr>)
   }"

section \<open>Answers and checks\<close>

definition modem_cancle :: "ym \<Rightarrow> ym" where
  "modem_cancle st = (uart_sendbyte MODEM_CAN \<circ> uart_sendbyte MODEM_CAN \<circ> uart_sendbyte MODEM_CAN
     \<circ> uart_sendbyte MODEM_CAN \<circ> uart_sendbyte MODEM_CAN) st"

text \<open>What is sent at the start of a round.\<close>

definition answer_round :: "ym \<Rightarrow> ym" where
  "answer_round st =
     (if nxt_num st = 0 then uart_sendbyte (if crc_mode st \<noteq> 0 then MODEM_C else MODEM_NAK) st
      else if rec_err st \<noteq> 0 then uart_sendbyte MODEM_NAK st
      else if nxt_num st = 1 then
        (if crc_mode st \<noteq> 0 then uart_sendbyte MODEM_C (uart_sendbyte MODEM_ACK st) else uart_sendbyte MODEM_NAK st)
      else uart_sendbyte MODEM_ACK st)"

definition start_next_round :: "ym \<Rightarrow> ym \<times> int" where
  "start_next_round st = (let (st, ret) = (if rec_err st = 0 then (uart_rxempty st, 0) else (st, - 1)) in (answer_round st, ret))"

definition block_num_check :: "ym \<Rightarrow> (ym \<times> int) option" where
  "block_num_check st = do {
     (st, blk) \<leftarrow> uart_recvbytetimeout st;
     (st, cblk) \<leftarrow> uart_recvbytetimeout st;
     Some (st, if unat blk + unat cblk \<noteq> 0xff then - 1 else 0)
   }"

definition crc_shift :: "32 word \<Rightarrow> 32 word" where
  "crc_shift cksum = (if cksum AND 0x8000 \<noteq> 0 then push_bit 1 cksum XOR 0x1021 else push_bit 1 cksum)"

definition crc_byte :: "u8 \<Rightarrow> 32 word \<Rightarrow> 32 word" where
  "crc_byte b cksum = (crc_shift ^^ 8) (cksum XOR push_bit 8 (ucast b))"

text \<open>The comparison of the data in \<open>uart_rcv_buf\<close> with the two bytes that came behind them.\<close>

definition crc_verdict :: "u8 \<Rightarrow> u8 \<Rightarrow> ym \<Rightarrow> (ym \<times> nat) option" where
  "crc_verdict crch crcl st = do {
     data \<leftarrow> rdn (uart_rcv_buf st) 0 (len st);
     let cksum = fold (\<lambda>b s. s + ucast b) data (0 :: 32 word);
     Some (if cksum = 0 then (st, 2)
       else if crc_mode st \<noteq> 0 then
         (if fold crc_byte data 0 AND 0xffff \<noteq> push_bit 8 (ucast crch) OR ucast crcl then (st\<lparr>rec_err := 1\<rparr>, 1) else (st, 0))
       else
         (if fold (\<lambda>b s. s + ucast b) data cksum AND 0xff \<noteq> ucast crch then (st\<lparr>rec_err := 1\<rparr>, 1) else (st, 0)))
   }"

definition crc_check :: "ym \<Rightarrow> (ym \<times> nat) option" where
  "crc_check st = do {
     (st, crch) \<leftarrow> uart_recvbytetimeout st;
     (st, crcl) \<leftarrow> (if crc_mode st \<noteq> 0 then uart_recvbytetimeout st else Some (st, 0));
     crc_verdict crch crcl st
   }"

section \<open>End of a transfer\<close>

definition set_signature :: "nor \<Rightarrow> ym \<Rightarrow> ym" where
  "set_signature d st = (
     let oldimg2addr = (unat (flash_read_word (fmem st) 0x18) mod 65536) * 1024;
         f = flash_write_word d (fmem st) (oldimg2addr + 8) 0x35393130
     in st\<lparr>fmem := flash_write_word d f (oldimg2addr + 12) 0x31313738\<rparr>)"

text \<open>The label \<open>exit\<close>.\<close>

definition exit_thread :: "nor \<Rightarrow> nat \<Rightarrow> bool \<Rightarrow> ym \<Rightarrow> ym" where
  "exit_thread d error_bit transfer_over st = (
     let st = (if error_bit = 0 \<and> transfer_over then set_signature d st else st)
     in st\<lparr>first_time := True, phase := Exited error_bit transfer_over\<rparr>)"

section \<open>Turns of the thread\<close>

text \<open>What the turns do when no byte arrives in them; \<open>YmodemThread\<close> has the thread action by action.\<close>

text \<open>One turn of the first loop, which calls for a sender: the semaphore is only tested.\<close>

definition ymodem_wait :: "nor \<Rightarrow> ym \<Rightarrow> ym" where
  "ymodem_wait d st =
     (if send_count st \<ge> 2 * 60 * 10 then exit_thread d 6 False st
      else let st = uart_sendbyte (if crc_mode st \<noteq> 0 then MODEM_C else MODEM_NAK) st;
               st = st\<lparr>send_count := send_count st + 1\<rparr>
           in if uart_rx_sema st > 0 then st\<lparr>phase := Running\<rparr> else st)"

text \<open>The loop that moves the data of the packet to \<open>uart_rcv_buf\<close>, from index \<open>i\<close> on.\<close>

fun copy_data :: "nat \<Rightarrow> nat \<Rightarrow> ym \<Rightarrow> ym option" where
  "copy_data 0 i st = Some st"
| "copy_data (Suc n) i st = do {
     (st, b) \<leftarrow> uart_recvbytetimeout st;
     if i < length (uart_rcv_buf st) then copy_data n (i + 1) (st\<lparr>uart_rcv_buf := (uart_rcv_buf st)[i := b]\<rparr>) else None
   }"

text \<open>The rest of a turn, when the packet starts with \<open>SOH\<close>, \<open>STX\<close> or one of the first two \<open>CAN\<close>.\<close>

definition ymodem_block :: "nor \<Rightarrow> ym \<Rightarrow> ym option" where
  "ymodem_block d st = do {
     (st, r) \<leftarrow> block_num_check st;
     if r \<noteq> 0 then Some (exit_thread d 2 False st)
     else do {
       st \<leftarrow> (if nxt_num st = 0 \<and> first_time st then calc_file_name_size st else Some st);
       st \<leftarrow> copy_data (len st) 0 st;
       st \<leftarrow> (if nxt_num st \<noteq> 0 \<or> \<not> first_time st
              then map_option (first_time_update (\<lambda>_. False)) (data_write_to_flash d st) else Some st);
       (st, ret) \<leftarrow> crc_check st;
       if ret = 1 then Some (exit_thread d 4 False st)
       else if ret = 2 \<and> nxt_num st = 0xff then Some (exit_thread d 0 True st)
       else let (st, r) = start_next_round (st\<lparr>nxt_num := add32 (nxt_num st) 1, rec_err := 0\<rparr>)
            in Some (if r \<noteq> 0 then exit_thread d 5 False st else st)
     }
   }"

text \<open>A turn of the main loop, after the semaphore has been taken and the line is quiet.\<close>

definition ymodem_round :: "nor \<Rightarrow> ym \<Rightarrow> ym option" where
  "ymodem_round d st = do {
     (st, ch) \<leftarrow> uart_recvbytetimeout (st\<lparr>uart_rx_sema := uart_rx_sema st - 1\<rparr>);
     if ch = MODEM_SOH then ymodem_block d (st\<lparr>len := 128\<rparr>)
     else if ch = MODEM_STX then ymodem_block d (st\<lparr>len := 1024\<rparr>)
     else if ch = MODEM_CAN then
       let st = st\<lparr>can_counter := can_counter st + 1\<rparr>
       in if can_counter st \<ge> MODEM_CAN_COUNT then Some (exit_thread d 1 False st) else ymodem_block d st
     else if ch = MODEM_EOT then
       let st = st\<lparr>eot_counter := eot_counter st + 1\<rparr>
       in Some (if eot_counter st \<ge> MODEM_EOT_COUNT then
            let st = uart_sendbyte MODEM_ACK st;
                st = (if modemtype st = 2
                  then modem_cancle (uart_sendbyte MODEM_C (uart_sendbyte MODEM_ACK (uart_sendbyte MODEM_C st))) else st)
            in exit_thread d 0 True st
          else uart_sendbyte MODEM_C (uart_sendbyte MODEM_ACK st))
     else Some (exit_thread d 1 False st)
   }"

end
