(* ===== verification/YmodemCrc.thy ===== *)
theory YmodemCrc
  imports Ymodem
begin

text \<open>
  The checksum of a packet: the loop of \<open>crc_check\<close> on 32-bit words computes the 16-bit CRC with the
  polynomial 0x1021, which the reference \<open>crc16\<close> states on 16-bit words, and every change of one byte
  of the data changes it.
\<close>

definition crc16_shift :: "u16 \<Rightarrow> u16" where
  "crc16_shift c = (if bit c 15 then push_bit 1 c XOR 0x1021 else push_bit 1 c)"

definition crc16_byte :: "u8 \<Rightarrow> u16 \<Rightarrow> u16" where
  "crc16_byte b c = (crc16_shift ^^ 8) (c XOR push_bit 8 (ucast b))"

definition crc16 :: "buf \<Rightarrow> u16" where
  "crc16 data = fold crc16_byte data 0"

lemma and_bit15: "(x :: 32 word) AND 0x8000 \<noteq> 0 \<longleftrightarrow> bit x 15"
proof -
  have "(0x8000 :: 32 word) = push_bit 15 1" by simp
  then have "x AND 0x8000 = 0 \<longleftrightarrow> \<not> bit x 15" by (simp only: and_exp_eq_0_iff_not_bit push_bit_of_1)
  then show ?thesis by blast
qed

lemma low_shift: "ucast (crc_shift x) = crc16_shift (ucast x)"
proof -
  have p: "(ucast (push_bit 1 x) :: u16) = push_bit 1 (ucast x)"
    by (rule bit_word_eqI) (auto simp: bit_simps simp del: push_bit_Suc)
  have "(ucast (push_bit 1 x XOR 0x1021) :: u16) = ucast (push_bit 1 x) XOR 0x1021"
    by (rule bit_word_eqI) (auto simp: bit_simps)
  moreover have "bit (ucast x :: u16) 15 = bit x 15" by (simp add: bit_simps)
  ultimately show ?thesis unfolding crc_shift_def crc16_shift_def and_bit15 by (simp only: p split: if_split) simp
qed

lemma low_byte: "ucast (crc_byte b x) = crc16_byte b (ucast x)"
proof -
  have "ucast ((crc_shift ^^ n) y) = (crc16_shift ^^ n) (ucast y)" for n y by (induction n) (simp_all add: low_shift)
  moreover have "(ucast (x XOR push_bit 8 (ucast b)) :: u16) = ucast x XOR push_bit 8 (ucast b)"
    by (rule bit_word_eqI) (auto simp: bit_simps)
  ultimately show ?thesis by (simp add: crc_byte_def crc16_byte_def)
qed

lemma low_crc: "ucast (fold crc_byte data x) = fold crc16_byte data (ucast x)"
  by (induction data arbitrary: x) (simp_all add: low_byte)

lemma and_ffff: "(x :: 32 word) AND 0xffff = ucast (y :: u16) \<longleftrightarrow> ucast x = y"
proof -
  have m: "(0xffff :: 32 word) = mask 16" by (simp add: mask_eq_exp_minus_1)
  have "x AND 0xffff = ucast (ucast x :: u16)"
    unfolding m by (rule bit_word_eqI) (auto simp: bit_simps)
  moreover have "(ucast (ucast x :: u16) :: 32 word) = ucast y \<longleftrightarrow> ucast x = y" 
  proof -
    have "(ucast (ucast z :: 32 word) :: u16) = z" for z :: u16 by (rule bit_word_eqI) (auto simp: bit_simps)
    then show ?thesis by metis
  qed
  ultimately show ?thesis by simp
qed

definition crc_word :: "u8 \<Rightarrow> u8 \<Rightarrow> u16" where
  "crc_word crch crcl = push_bit 8 (ucast crch) OR ucast crcl"

lemma crc_loop: "(fold crc_byte data 0 AND 0xffff = push_bit 8 (ucast crch) OR ucast crcl) \<longleftrightarrow> crc16 data = crc_word crch crcl"
proof -
  have "(push_bit 8 (ucast crch) OR ucast crcl :: 32 word) = ucast (crc_word crch crcl)"
    unfolding crc_word_def by (rule bit_word_eqI) (auto simp: bit_simps dest: bit_imp_le_length)
  then show ?thesis by (simp only: and_ffff low_crc crc16_def) simp
qed

section \<open>The sum of the bytes\<close>

lemma sum_bytes:
  fixes data :: buf
  shows "length data \<le> 2 ^ 20 \<Longrightarrow> unat (fold (\<lambda>b s. s + ucast b) data (0 :: 32 word)) = sum_list (map unat data)"
proof -
  have b: "unat (x :: u8) \<le> 255" for x using unsigned_less [of x, where 'a = nat] by simp
  have s: "sum_list (map unat (data :: buf)) \<le> 255 * length data" for data by (induction data) (use b in \<open>auto intro: add_mono\<close>)
  have "fold (\<lambda>b s. s + ucast b) data w = w + word_of_nat (sum_list (map unat data))" for w :: "32 word" and data :: buf
    by (induction data arbitrary: w) (simp_all add: add.assoc)
  moreover assume "length data \<le> 2 ^ 20"
  then have "sum_list (map unat data) < 2 ^ 32" using s [of data] by simp
  ultimately show ?thesis by (simp add: unat_of_nat)
qed

lemma sum_zero:
  fixes data :: buf
  assumes "length data \<le> 2 ^ 20"
  shows "fold (\<lambda>b s. s + ucast b) data (0 :: 32 word) = 0 \<longleftrightarrow> set data \<subseteq> {0}"
proof -
  have "fold (\<lambda>b s. s + ucast b) data (0 :: 32 word) = 0 \<longleftrightarrow> sum_list (map unat data) = 0"
    by (subst sum_bytes [OF assms, symmetric]) (simp only: unsigned_eq_0_iff)
  also have "\<dots> \<longleftrightarrow> set data \<subseteq> {0}" by (induction data) (simp_all add: unsigned_eq_0_iff)
  finally show ?thesis .
qed

section \<open>A changed byte changes the checksum\<close>

lemma xor_cancel: "(x :: u16) XOR z = y XOR z \<longleftrightarrow> x = y"
proof
  assume e: "x XOR z = y XOR z"
  have "bit x n = bit y n" for n using arg_cong [OF e, of "\<lambda>w. bit w n"] by (auto simp: bit_simps)
  then show "x = y" by (intro bit_word_eqI) simp
qed simp

lemma crc16_shift_inj: "crc16_shift c = crc16_shift d \<Longrightarrow> c = d"
proof -
  assume e: "crc16_shift c = crc16_shift d"
  have z: "bit (crc16_shift x) 0 \<longleftrightarrow> bit x 15" for x 
    by (simp add: crc16_shift_def bit_simps del: push_bit_Suc)
  have top: "bit c 15 \<longleftrightarrow> bit d 15" using e z by metis
  then have p: "push_bit 1 c = push_bit 1 d" using e xor_cancel by (cases "bit c 15") (simp_all only: crc16_shift_def if_True if_False simp_thms)
  show ?thesis
  proof (rule bit_word_eqI)
    fix n assume n: "n < LENGTH(16)"
    show "bit c n = bit d n"
    proof (cases "n = 15")
      case False
      have "bit (push_bit 1 c) (Suc n) = bit (push_bit 1 d) (Suc n)" using p by simp
      then show ?thesis using n False by (simp add: bit_simps del: push_bit_Suc)
    qed (simp add: top)
  qed
qed

lemma crc16_byte_inj: "crc16_byte b c = crc16_byte b' d \<longleftrightarrow> c XOR push_bit 8 (ucast b) = d XOR push_bit 8 (ucast b')"
proof -
  have "(crc16_shift ^^ n) x = (crc16_shift ^^ n) y \<Longrightarrow> x = y" for n x y
    by (induction n arbitrary: x y) (auto dest: crc16_shift_inj)
  then show ?thesis by (auto simp: crc16_byte_def)
qed

lemma crc_fold_inj: "fold crc16_byte data c = fold crc16_byte data d \<longleftrightarrow> c = d"
  by (induction data arbitrary: c d) (simp_all only: fold_simps crc16_byte_inj xor_cancel)

lemma crc16_detects: "b \<noteq> b' \<Longrightarrow> crc16 (xs @ b # ys) \<noteq> crc16 (xs @ b' # ys)"
proof
  assume "b \<noteq> b'" "crc16 (xs @ b # ys) = crc16 (xs @ b' # ys)"
  then have e: "push_bit 8 (ucast b) = (push_bit 8 (ucast b') :: u16)"
    by (simp add: crc16_def crc_fold_inj crc16_byte_inj) (metis xor_cancel xor.commute)
  have "bit b n = bit b' n" if "n < 8" for n
  proof -
    have "bit (push_bit 8 (ucast b) :: u16) (8 + n) = bit (push_bit 8 (ucast b') :: u16) (8 + n)" by (simp only: e)
    then show ?thesis using that by (simp add: bit_simps)
  qed
  then have "b = b'" by (intro bit_word_eqI) simp
  then show False using \<open>b \<noteq> b'\<close> by blast
qed

end
