(* ===== verification/YmodemThread.thy ===== *)
theory YmodemThread
  imports YmodemCrc
begin

text \<open>
  The thread \<open>uart_ymodem_thread\<close> action by action, so that a byte may arrive between any two of them. An action
  touches what the thread shares with the interrupt (the receive buffer and its index, the semaphore and the time of the last byte)
  once at most (a byte that a condition of the code names twice is read once); what only the thread uses goes with the action before. A position of the program, with
  the local variables that live there, is a constructor of \<open>ypc\<close>. Without bytes between, the actions of a turn are
  \<open>ymodem_wait\<close> and \<open>ymodem_round\<close>.
\<close>

datatype ypc = Calling | Testing | Giving | Taking | Polling nat | Header | Blk | Cblk u8
  | Name nat buf | Blanks nat | Size nat | Size_x nat | Digits nat int nat
  | Copy nat | Write | Crch | Crcl u8 | Round | Clear nat | Restart | Answer
  | Free_sema | Free_serial | Gone

text \<open>A jump to the label \<open>exit\<close>.\<close>

definition leave :: "nor \<Rightarrow> nat \<Rightarrow> bool \<Rightarrow> ym \<Rightarrow> ypc \<times> ym" where
  "leave d error_bit transfer_over st = (Free_sema, exit_thread d error_bit transfer_over st)"

text \<open>The next action. \<open>Testing\<close> and \<open>Giving\<close> are the two calls with which the first loop looks at the semaphore;
  a thread that waits for the semaphore, or is gone, stays where it is.\<close>

fun yturn :: "nor \<Rightarrow> ypc \<Rightarrow> ym \<Rightarrow> (ypc \<times> ym) option" where
  "yturn d Calling st = Some
     (if send_count st \<ge> 2 * 60 * 10 then leave d 6 False st
      else let st = uart_sendbyte (if crc_mode st \<noteq> 0 then MODEM_C else MODEM_NAK) st
           in (Testing, st\<lparr>send_count := send_count st + 1\<rparr>))"
| "yturn d Testing st = Some (if uart_rx_sema st > 0 then (Giving, st\<lparr>uart_rx_sema := uart_rx_sema st - 1\<rparr>) else (Calling, st))"
| "yturn d Giving st = Some (Taking, st\<lparr>uart_rx_sema := min (uart_rx_sema st + 1) MAX_SEMA_COUNT, phase := Running\<rparr>)"
| "yturn d Taking st = Some
     (if uart_rx_sema st > 0 then (Polling (tick st), st\<lparr>uart_rx_sema := uart_rx_sema st - 1\<rparr>) else (Taking, st))"
| "yturn d (Polling tick_current) st = Some
     (if s32 (sub32 tick_current (tick_last_update st)) < 50 then (Polling (tick st), st) else (Header, st))"
| "yturn d Header st = do {
     (st, ch) \<leftarrow> uart_recvbytetimeout st;
     Some (if ch = MODEM_SOH then (Blk, st\<lparr>len := 128\<rparr>)
       else if ch = MODEM_STX then (Blk, st\<lparr>len := 1024\<rparr>)
       else if ch = MODEM_CAN then
         let st = st\<lparr>can_counter := can_counter st + 1\<rparr>
         in if can_counter st \<ge> MODEM_CAN_COUNT then leave d 1 False st else (Blk, st)
       else if ch = MODEM_EOT then
         let st = st\<lparr>eot_counter := eot_counter st + 1\<rparr>
         in (if eot_counter st \<ge> MODEM_EOT_COUNT then
              let st = uart_sendbyte MODEM_ACK st;
                  st = (if modemtype st = 2
                    then modem_cancle (uart_sendbyte MODEM_C (uart_sendbyte MODEM_ACK (uart_sendbyte MODEM_C st))) else st)
              in leave d 0 True st
            else (Taking, uart_sendbyte MODEM_C (uart_sendbyte MODEM_ACK st)))
       else leave d 1 False st)
   }"
| "yturn d Blk st = map_option (\<lambda>(st, blk). (Cblk blk, st)) (uart_recvbytetimeout st)"
| "yturn d (Cblk blk) st = do {
     (st, cblk) \<leftarrow> uart_recvbytetimeout st;
     Some (if unat blk + unat cblk \<noteq> 0xff then leave d 2 False st
       else if nxt_num st = 0 \<and> first_time st then (Name 3 [], st) else (Copy 0, st))
   }"
| "yturn d (Name i name) st = do {
     c \<leftarrow> rd (uart_irq_buf st) i;
     Some (if c = 0 then (Blanks (i + 1), st\<lparr>filename := name @ [0]\<rparr>) else (Name (i + 1) (name @ [c]), st))
   }"
| "yturn d (Blanks i) st = do {
     c \<leftarrow> rd (uart_irq_buf st) i;
     Some (if c = 0x20 then (Blanks (i + 1), st) else (Size i, st))
   }"
| "yturn d (Size i) st = do {
     c \<leftarrow> rd (uart_irq_buf st) i;
     Some (if c = 0x30 then Size_x i else Digits 10 0 i, st)
   }"
| "yturn d (Size_x i) st = do {
     c \<leftarrow> rd (uart_irq_buf st) (i + 1);
     Some (if c = 0x78 \<and> c = 0x58 then Digits 16 0 (i + 2) else Digits 10 0 i, st)
   }"
| "yturn d (Digits base result i) st = do {
     c \<leftarrow> rd (uart_irq_buf st) i;
     Some (case file_digit base result c of
         Some r \<Rightarrow> (Digits base r (i + 1), st)
       | None \<Rightarrow> (Copy 0, st\<lparr>filelen := u32 result\<rparr>))
   }"
| "yturn d (Copy i) st =
     (if i < len st then do {
        (st, b) \<leftarrow> uart_recvbytetimeout st;
        if i < length (uart_rcv_buf st) then Some (Copy (i + 1), st\<lparr>uart_rcv_buf := (uart_rcv_buf st)[i := b]\<rparr>) else None
      }
      else Some (Write, st))"
| "yturn d Write st =
     (if nxt_num st \<noteq> 0 \<or> \<not> first_time st
      then map_option (\<lambda>st. (Crch, st\<lparr>first_time := False\<rparr>)) (data_write_to_flash d st) else Some (Crch, st))"
| "yturn d Crch st = map_option (\<lambda>(st, crch). (Crcl crch, st)) (uart_recvbytetimeout st)"
| "yturn d (Crcl crch) st = do {
     (st, crcl) \<leftarrow> (if crc_mode st \<noteq> 0 then uart_recvbytetimeout st else Some (st, 0));
     (st, ret) \<leftarrow> crc_verdict crch crcl st;
     Some (if ret = 1 then leave d 4 False st
       else if ret = 2 \<and> nxt_num st = 0xff then leave d 0 True st
       else (Round, st\<lparr>nxt_num := add32 (nxt_num st) 1, rec_err := 0\<rparr>))
   }"
| "yturn d Round st = Some (if rec_err st = 0 then Clear 0 else Answer, st)"
| "yturn d (Clear i) st = Some
     (if i < RCV_BUF_SIZE then (Clear (i + 1), st\<lparr>uart_irq_buf := (uart_irq_buf st)[i := 0]\<rparr>) else (Restart, st))"
| "yturn d Restart st = Some
     (Answer, st\<lparr>uart_rcv_buf := replicate RCV_BUF_SIZE 0, uart_recv_buf_index := 0, uart_recv_index := 0\<rparr>)"
| "yturn d Answer st = Some (if rec_err st \<noteq> 0 then leave d 5 False (answer_round st) else (Taking, answer_round st))"
| "yturn d Free_sema st = Some (Free_serial, st)"
| "yturn d Free_serial st = Some (Gone, st)"
| "yturn d Gone st = Some (Gone, st)"

text \<open>\<open>uart_ymodem_deinit\<close> deletes the semaphore first; the interrupt comes until \<open>serial_free\<close> has switched it off. At
  \<open>Free_serial\<close> an interrupt that gives the semaphore gives one that is not there any more.\<close>

definition yirq :: "u8 \<Rightarrow> ypc \<Rightarrow> ym \<Rightarrow> ym option" where
  "yirq b pc st = (if pc = Free_serial \<and> uart_recv_index st = 0 then None else uarty_irq b st)"

text \<open>The steps of the system: a byte from the line, a tick of the clock, and an action of the thread.\<close>

inductive ystep :: "nor \<Rightarrow> ypc \<times> ym \<Rightarrow> ypc \<times> ym \<Rightarrow> bool" for d where
  rx: "pc \<noteq> Gone \<Longrightarrow> yirq b pc st = Some st' \<Longrightarrow> ystep d (pc, st) (pc, st')"
| tick: "ystep d (pc, st) (pc, st\<lparr>tick := add32 (tick st) 1\<rparr>)"
| turn: "yturn d pc st = Some s' \<Longrightarrow> ystep d (pc, st) s'"

inductive_cases ystepE: "ystep d (pc, st) s'"

section \<open>A turn without bytes\<close>

abbreviation yreach :: "nor \<Rightarrow> ypc \<times> ym \<Rightarrow> ypc \<times> ym \<Rightarrow> bool" where
  "yreach d \<equiv> (ystep d)\<^sup>*\<^sup>*"

lemma yreach_turn: "yturn d pc st = Some s1 \<Longrightarrow> yreach d s1 s2 \<Longrightarrow> yreach d (pc, st) s2"
  by (meson converse_rtranclp_into_rtranclp ystep.turn)

lemma yreach_turn1: "yturn d pc st = Some s1 \<Longrightarrow> yreach d (pc, st) s1"
  by (rule yreach_turn [OF _ rtranclp.rtrancl_refl])

lemma yreach_copy:
  "i + n = len st \<Longrightarrow> copy_data n i st = Some st' \<Longrightarrow> yreach d (Copy i, st) (Write, st')"
proof (induction n arbitrary: i st)
  case 0
  then show ?case by (intro yreach_turn1) simp
next
  case (Suc n)
  obtain s b where r: "uart_recvbytetimeout st = Some (s, b)" "i < length (uart_rcv_buf s)"
    "copy_data n (i + 1) (s\<lparr>uart_rcv_buf := (uart_rcv_buf s)[i := b]\<rparr>) = Some st'"
    using Suc.prems(2) by (auto split: bind_splits if_splits)
  have l: "len s = len st" using r(1) by (auto simp: uart_recvbytetimeout_def Let_def split: bind_splits if_splits)
  have "yreach d (Copy (i + 1), s\<lparr>uart_rcv_buf := (uart_rcv_buf s)[i := b]\<rparr>) (Write, st')"
    using Suc.prems(1) l by (intro Suc.IH r(3)) simp
  then show ?case using Suc.prems(1) r(1,2) by (intro yreach_turn [of d "Copy i" st]) simp_all
qed

lemma yreach_clear:
  "i + n = 1029 \<Longrightarrow> length (uart_irq_buf st) = 1029 \<Longrightarrow>
   yreach d (Clear i, st) (Restart, st\<lparr>uart_irq_buf := take i (uart_irq_buf st) @ replicate n 0\<rparr>)"
proof (induction n arbitrary: i st)
  case 0
  then show ?case by (intro yreach_turn1) simp
next
  case (Suc n)
  let ?s = "st\<lparr>uart_irq_buf := (uart_irq_buf st)[i := 0]\<rparr>"
  have "take (i + 1) ((uart_irq_buf st)[i := 0]) = take i (uart_irq_buf st) @ [0]"
    using Suc.prems by (simp add: take_Suc_conv_app_nth)
  then have "yreach d (Clear (i + 1), ?s) (Restart, st\<lparr>uart_irq_buf := take i (uart_irq_buf st) @ replicate (Suc n) 0\<rparr>)"
    using Suc.IH [of "i + 1" ?s] Suc.prems by simp
  then show ?case using Suc.prems by (intro yreach_turn [of d "Clear i" st]) simp_all
qed

text \<open>Reading the name and the length.\<close>

lemma rd_drop: "drop i xs = c # cs \<Longrightarrow> rd xs i = Some c \<and> drop (Suc i) xs = cs"
  by (metis drop_Suc drop_eq_Nil2 list.distinct(1) list.sel(3) not_le_imp_less nth_via_drop rd_def tl_drop)

lemma yreach_name:
  "copy_name cs = Some (nm, rest) \<Longrightarrow> drop i (uart_irq_buf st) = cs \<Longrightarrow>
   \<exists>j. drop j (uart_irq_buf st) = rest \<and> yreach d (Name i acc, st) (Blanks j, st\<lparr>filename := acc @ nm @ [0]\<rparr>)"
proof (induction cs arbitrary: i acc nm)
  case (Cons c cs)
  note r = rd_drop [OF Cons.prems(2)]
  show ?case
  proof (cases "c = 0")
    case True
    then have "yreach d (Name i acc, st) (Blanks (i + 1), st\<lparr>filename := acc @ nm @ [0]\<rparr>)"
      using r Cons.prems(1) by (intro yreach_turn1) simp
    then show ?thesis using r True Cons.prems(1) by (intro exI [of _ "i + 1"]) simp
  next
    case False
    then obtain nm' where n: "nm = c # nm'" "copy_name cs = Some (nm', rest)" using Cons.prems(1) by auto
    obtain j where j: "drop j (uart_irq_buf st) = rest"
      "yreach d (Name (i + 1) (acc @ [c]), st) (Blanks j, st\<lparr>filename := (acc @ [c]) @ nm' @ [0]\<rparr>)"
      using Cons.IH [OF n(2), of "i + 1" "acc @ [c]"] r by auto
    have "yreach d (Name i acc, st) (Blanks j, st\<lparr>filename := (acc @ [c]) @ nm' @ [0]\<rparr>)"
      using r False by (intro yreach_turn [OF _ j(2)]) simp
    then show ?thesis using j(1) n(1) by auto
  qed
qed simp

lemma yreach_blanks:
  "skip_blanks cs = Some rest \<Longrightarrow> drop i (uart_irq_buf st) = cs \<Longrightarrow>
   \<exists>j. drop j (uart_irq_buf st) = rest \<and> yreach d (Blanks i, st) (Size j, st)"
proof (induction cs arbitrary: i)
  case (Cons c cs)
  note r = rd_drop [OF Cons.prems(2)]
  show ?case
  proof (cases "c = 0x20")
    case True
    then obtain j where "drop j (uart_irq_buf st) = rest" "yreach d (Blanks (i + 1), st) (Size j, st)"
      using Cons.IH [of "i + 1"] Cons.prems(1) r by auto
    then show ?thesis using r True by (intro exI [of _ j] conjI yreach_turn [of d "Blanks i" st]) simp_all
  next
    case False
    then show ?thesis using r Cons.prems by (intro exI [of _ i] conjI yreach_turn1) simp_all
  qed
qed simp

lemma yreach_digits:
  "filelen_loop base r cs = Some n \<Longrightarrow> drop i (uart_irq_buf st) = cs \<Longrightarrow>
   yreach d (Digits base r i, st) (Copy 0, st\<lparr>filelen := u32 n\<rparr>)"
proof (induction base r cs arbitrary: i rule: filelen_loop.induct)
  case (2 base r c cs)
  note rd = rd_drop [OF "2.prems"(2)]
  show ?case
  proof (cases "file_digit base r c")
    case None
    then show ?thesis using rd 2 by (intro yreach_turn1) simp
  next
    case (Some r')
    then have "yreach d (Digits base r' (i + 1), st) (Copy 0, st\<lparr>filelen := u32 n\<rparr>)" using 2 rd by auto
    then show ?thesis using rd Some by (intro yreach_turn [of d "Digits base r i" st]) simp_all
  qed
qed simp

lemma yreach_file:
  assumes "calc_file_name_size st = Some st'"
  shows "yreach d (Name 3 [], st) (Copy 0, st')"
proof -
  obtain nm rest rest' n where c: "copy_name (drop 3 (uart_irq_buf st)) = Some (nm, rest)" "skip_blanks rest = Some rest'"
    "buf_filelen rest' = Some n" "st' = st\<lparr>filename := nm @ [0], filelen := n\<rparr>"
    using assms by (auto simp: calc_file_name_size_def split: bind_splits)
  let ?s = "st\<lparr>filename := nm @ [0]\<rparr>"
  obtain j where j: "drop j (uart_irq_buf st) = rest" "yreach d (Name 3 [], st) (Blanks j, ?s)"
    using yreach_name [OF c(1) refl, where acc = "[]" and d = d] by auto
  obtain k where k: "drop k (uart_irq_buf st) = rest'" "yreach d (Blanks j, ?s) (Size k, ?s)"
    using yreach_blanks [OF c(2), where i = j and st = ?s and d = d] j(1) by auto
  obtain c0 cs where cs: "rest' = c0 # cs" using c(3) by (cases rest') (auto simp: buf_filelen_def rd_def)
  note r0 = rd_drop [OF k(1) [unfolded cs]]
  have "yreach d (Size k, ?s) (Copy 0, ?s\<lparr>filelen := n\<rparr>)"
  proof (cases "c0 = 0x30")
    case True
    then obtain c1 ds where c1: "cs = c1 # ds" using c(3) cs by (cases cs) (auto simp: buf_filelen_def rd_def)
    have "c1 = 0x78 \<Longrightarrow> c1 \<noteq> 0x58" by simp
    then obtain m where m: "filelen_loop 10 0 rest' = Some m" "n = u32 m"
      using c(3) cs c1 True by (auto simp: buf_filelen_def rd_def split: if_splits)
    have dg: "yreach d (Digits 10 0 k, ?s) (Copy 0, ?s\<lparr>filelen := n\<rparr>)" using yreach_digits [OF m(1), where i = k and st = ?s and d = d] k(1) m(2) by simp
    have "rd (uart_irq_buf st) (k + 1) = Some c1" using rd_drop [of "Suc k" "uart_irq_buf st" c1 ds] r0 c1 by simp
    then have "yreach d (Size_x k, ?s) (Copy 0, ?s\<lparr>filelen := n\<rparr>)" using \<open>c1 = 0x78 \<Longrightarrow> c1 \<noteq> 0x58\<close> by (intro yreach_turn [OF _ dg]) auto
    then show ?thesis using r0 True by (intro yreach_turn [of d "Size k" ?s]) simp_all
  next
    case False
    then obtain m where m: "filelen_loop 10 0 rest' = Some m" "n = u32 m" using c(3) cs by (auto simp: buf_filelen_def rd_def)
    have dg: "yreach d (Digits 10 0 k, ?s) (Copy 0, ?s\<lparr>filelen := n\<rparr>)" using yreach_digits [OF m(1), where i = k and st = ?s and d = d] k(1) m(2) by simp
    then show ?thesis using r0 False by (intro yreach_turn [OF _ dg]) simp
  qed
  then show ?thesis using j(2) k(2) c(4) by (metis rtranclp_trans)
qed

text \<open>What the parts of a turn leave alone.\<close>

definition line_same :: "ym \<Rightarrow> ym \<Rightarrow> bool" where
  "line_same st s \<longleftrightarrow> phase s = phase st \<and> length (uart_irq_buf s) = length (uart_irq_buf st)"

lemma line_same_refl [simp]: "line_same st st"
  by (simp add: line_same_def)

lemma recv_same: "uart_recvbytetimeout st = Some (s, b) \<Longrightarrow> line_same st s"
  by (auto simp: uart_recvbytetimeout_def line_same_def Let_def split: bind_splits if_splits)

lemma file_same: "calc_file_name_size st = Some s \<Longrightarrow> line_same st s"
  by (auto simp: calc_file_name_size_def line_same_def split: bind_splits)

lemma copy_same: "copy_data n i st = Some s \<Longrightarrow> line_same st s"
proof (induction n arbitrary: i st)
  case (Suc n)
  then obtain t b where t: "uart_recvbytetimeout st = Some (t, b)"
    "copy_data n (i + 1) (t\<lparr>uart_rcv_buf := (uart_rcv_buf t)[i := b]\<rparr>) = Some s"
    by (auto split: bind_splits if_splits)
  then show ?case using Suc.IH [OF t(2)] recv_same [OF t(1)] by (simp add: line_same_def)
qed simp

lemma write_same: "data_write_to_flash d st = Some s \<Longrightarrow> line_same st s"
proof -
  assume w: "data_write_to_flash d st = Some s"
  define s1 where "s1 = (if flash_read_word (fmem st) OFFSET_DATA = - 1
       then st\<lparr>fmem := flash_write_word d (fmem st) OFFSET_DATA (word_of_nat (image_address st))\<rparr> else st)"
  define s2 where "s2 = (if offset s1 = 0 \<or> offset s1 mod 4096 = 0
       then s1\<lparr>fmem := flash_erase_sector d (fmem s1) (add32 (image_address s1) (offset s1))\<rparr> else s1)"
  define s3 where "s3 = (if flags s2 = 0
       then s2\<lparr>fmem := flash_write_word d (flash_write_word d (fmem s2) (image_address s2) (word_of_nat (filelen s2)))
              (add32 (image_address s2) 4) 0x10004000, flags := 1\<rparr> else s2)"
  have "data_write_to_flash d st = do { f \<leftarrow> flash_stream_write d (fmem s3) (add32 (image_address s3) (offset s3)) (len s3) (uart_rcv_buf s3);
      Some (s3\<lparr>fmem := f, offset := add32 (offset s3) (len s3)\<rparr>) }"
    by (simp only: data_write_to_flash_def Let_def s1_def s2_def s3_def)
  then have "line_same s3 s" using w by (auto simp: line_same_def split: bind_splits)
  moreover have "line_same st s1" "line_same s1 s2" "line_same s2 s3" by (simp_all add: line_same_def s1_def s2_def s3_def)
  ultimately show ?thesis by (simp add: line_same_def)
qed

lemma verdict_same: "crc_verdict a b st = Some (s, r) \<Longrightarrow> line_same st s"
  by (auto simp: crc_verdict_def line_same_def Let_def split: bind_splits if_splits)

text \<open>The next turn, or the end.\<close>

definition resume :: "ym \<Rightarrow> ypc \<times> ym" where
  "resume st = (if phase st = Running then Taking else Free_sema, st)"

lemma leave_resume: "leave d e t st = resume (exit_thread d e t st)"
  by (simp add: leave_def resume_def exit_thread_def Let_def)

lemma answer_same: "line_same st (answer_round st)"
  by (simp add: answer_round_def uart_sendbyte_def line_same_def)

lemma yreach_next:
  assumes st: "phase st = Running" "length (uart_irq_buf st) = 1029" and r: "rec_err st = 0"
  shows "yreach d (Round, st) (resume (fst (start_next_round st))) \<and> snd (start_next_round st) = 0"
proof -
  let ?e = "st\<lparr>uart_irq_buf := replicate 1029 0\<rparr>"
  have n: "start_next_round st = (answer_round (uart_rxempty st), 0)" using r by (simp add: start_next_round_def)
  have ph: "phase (answer_round (uart_rxempty st)) = Running"
    using answer_same [of "uart_rxempty st"] st(1) by (simp add: line_same_def uart_rxempty_def)
  have a: "yreach d (Answer, uart_rxempty st) (resume (answer_round (uart_rxempty st)))"
    using r ph by (intro yreach_turn1) (simp add: resume_def uart_rxempty_def)
  have b: "yreach d (Restart, ?e) (resume (answer_round (uart_rxempty st)))"
    by (rule yreach_turn [OF _ a]) (simp add: uart_rxempty_def)
  have c: "yreach d (Clear 0, st) (Restart, ?e)" using yreach_clear [of 0 1029 st d] st(2) by simp
  have "yreach d (Round, st) (resume (answer_round (uart_rxempty st)))"
    by (rule yreach_turn [OF _ rtranclp_trans [OF c b]]) (simp add: r)
  then show ?thesis by (simp add: n)
qed

lemma yreach_block:
  assumes b: "ymodem_block d st = Some st'" and st: "phase st = Running" "length (uart_irq_buf st) = 1029"
  shows "yreach d (Blk, st) (resume st')"
proof -
  obtain s1 blk s2 cblk where r: "uart_recvbytetimeout st = Some (s1, blk)" "uart_recvbytetimeout s1 = Some (s2, cblk)"
    using b by (auto simp: ymodem_block_def block_num_check_def split: bind_splits)
  have e: "block_num_check st = Some (s2, if unat blk + unat cblk \<noteq> 0xff then - 1 else 0)" using r by (simp add: block_num_check_def)
  have l2: "line_same st s2" using recv_same [OF r(1)] recv_same [OF r(2)] by (simp add: line_same_def)
  have go: "yreach d (Blk, st) s" if "yreach d (Cblk blk, s1) s" for s using r(1) that by (intro yreach_turn [of d Blk st]) simp_all
  show ?thesis
  proof (cases "unat blk + unat cblk = 0xff")
    case False
    then have "st' = exit_thread d 2 False s2" using b e by (simp add: ymodem_block_def)
    then show ?thesis using r(2) False by (intro go yreach_turn1) (simp add: leave_resume)
  next
    case True
    obtain s3 where s3: "(if nxt_num s2 = 0 \<and> first_time s2 then calc_file_name_size s2 else Some s2) = Some s3"
      using b e True by (auto simp: ymodem_block_def split: bind_splits)
    obtain s4 where s4: "copy_data (len s3) 0 s3 = Some s4"
      using b e True s3 by (auto simp: ymodem_block_def split: bind_splits)
    obtain s5 where s5: "(if nxt_num s4 \<noteq> 0 \<or> \<not> first_time s4
        then map_option (first_time_update (\<lambda>_. False)) (data_write_to_flash d s4) else Some s4) = Some s5"
      using b e True s3 s4 by (auto simp: ymodem_block_def split: bind_splits)
    obtain s6 ret where s6: "crc_check s5 = Some (s6, ret)"
      using b e True s3 s4 s5 by (auto simp: ymodem_block_def split: bind_splits)
    let ?n = "s6\<lparr>nxt_num := add32 (nxt_num s6) 1, rec_err := 0\<rparr>"
    have st': "st' = (if ret = 1 then exit_thread d 4 False s6
       else if ret = 2 \<and> nxt_num s6 = 0xff then exit_thread d 0 True s6
       else fst (start_next_round ?n))"
    proof -
      have "Some st' = (if ret = 1 then Some (exit_thread d 4 False s6)
         else if ret = 2 \<and> nxt_num s6 = 0xff then Some (exit_thread d 0 True s6)
         else let (st, r) = start_next_round ?n in Some (if r \<noteq> 0 then exit_thread d 5 False st else st))"
        unfolding b [symmetric] ymodem_block_def e
        by (simp only: Option.bind_lunit prod.case True simp_thms if_False if_True s3 s4 s5 s6)
      moreover have "snd (start_next_round ?n) = 0" by (simp add: start_next_round_def)
      ultimately show ?thesis by (auto simp: split_beta split: if_splits)
    qed
    have l3: "line_same st s3" using s3 file_same l2 by (fastforce simp: line_same_def split: if_splits)
    have l4: "line_same st s4" using copy_same [OF s4] l3 by (simp add: line_same_def)
    have l5: "line_same st s5" using s5 write_same l4 by (fastforce simp: line_same_def split: if_splits)
    obtain s7 crch s8 crcl where c: "uart_recvbytetimeout s5 = Some (s7, crch)"
      "(if crc_mode s7 \<noteq> 0 then uart_recvbytetimeout s7 else Some (s7, 0)) = Some (s8, crcl)" "crc_verdict crch crcl s8 = Some (s6, ret)"
      using s6 by (auto simp: crc_check_def split: bind_splits)
    have l8: "line_same st s8" using l5 recv_same [OF c(1)] recv_same [of s7 s8 crcl] c(2) by (auto simp: line_same_def split: if_splits)
    have l6: "line_same st s6" using verdict_same [OF c(3)] l8 by (simp add: line_same_def)
    have nx: "yreach d (Round, ?n) (resume (fst (start_next_round ?n)))"
      using yreach_next [of ?n d] l6 st by (simp add: line_same_def)
    have cl: "yreach d (Crcl crch, s7) (resume st')"
    proof (cases "ret = 1 \<or> ret = 2 \<and> nxt_num s6 = 0xff")
      case True
      then show ?thesis using c(2,3) by (intro yreach_turn1) (auto simp: leave_resume st')
    next
      case False
      then have x: "st' = fst (start_next_round ?n)" unfolding st' by auto
      show ?thesis unfolding x using False c(2,3) by (intro yreach_turn [OF _ nx]) auto
    qed
    have ch: "yreach d (Crch, s5) (resume st')" using c(1) by (intro yreach_turn [OF _ cl]) simp
    have wr: "yreach d (Write, s4) (resume st')" using s5 by (intro yreach_turn [OF _ ch]) (auto split: if_splits)
    have cp: "yreach d (Copy 0, s3) (resume st')" using rtranclp_trans [OF yreach_copy [OF _ s4] wr] by simp
    have nm: "yreach d (if nxt_num s2 = 0 \<and> first_time s2 then (Name 3 [], s2) else (Copy 0, s2)) (resume st')"
      using s3 cp yreach_file [of s2 s3 d] by (auto intro: rtranclp_trans)
    show ?thesis using r(2) True by (intro go yreach_turn [OF _ nm]) simp
  qed
qed

text \<open>Between two bytes far enough from each other the thread does what \<open>ymodem_round\<close> says.\<close>

lemma yreach_round:
  assumes t: "ymodem_round d st = Some st'" and st: "phase st = Running" "length (uart_irq_buf st) = 1029"
    and g: "0 < uart_rx_sema st" "50 \<le> s32 (sub32 (tick st) (tick_last_update st))"
  shows "yreach d (Taking, st) (resume st')"
proof -
  let ?s = "st\<lparr>uart_rx_sema := uart_rx_sema st - 1\<rparr>"
  obtain s ch where r: "uart_recvbytetimeout ?s = Some (s, ch)" using t by (auto simp: ymodem_round_def split: bind_splits)
  have l: "phase s = Running" "length (uart_irq_buf s) = 1029" using recv_same [OF r] st by (simp_all add: line_same_def)
  have go: "yreach d (Taking, st) z" if "yreach d (Header, ?s) z" for z
  proof -
    have "yreach d (Polling (tick st), ?s) z" using g(2) by (intro yreach_turn [OF _ that]) simp
    then show ?thesis using g(1) by (intro yreach_turn [of d Taking st]) simp_all
  qed
  have bl: "yreach d (Taking, st) (resume st')" if "ymodem_block d x = Some st'" "yturn d Header ?s = Some (Blk, x)" "line_same s x" for x
    using yreach_block [OF that(1)] l that(3) by (intro go yreach_turn [OF that(2)]) (simp_all add: line_same_def)
  note def = ymodem_round_def r Option.bind_lunit prod.case Let_def
  consider "ch = MODEM_SOH" | "ch = MODEM_STX" | "ch = MODEM_CAN" "can_counter s + 1 \<ge> 3" | "ch = MODEM_CAN" "\<not> can_counter s + 1 \<ge> 3"
    | "ch \<notin> {MODEM_SOH, MODEM_STX, MODEM_CAN}" by blast
  then show ?thesis
  proof cases
    case 1
    then show ?thesis using t r by (intro bl [of "s\<lparr>len := 128\<rparr>"]) (simp_all add: ymodem_round_def line_same_def)
  next
    case 2
    then show ?thesis using t r by (intro bl [of "s\<lparr>len := 1024\<rparr>"]) (simp_all add: ymodem_round_def line_same_def)
  next
    case 3
    then have "st' = exit_thread d 1 False (s\<lparr>can_counter := can_counter s + 1\<rparr>)" using t r by (simp add: ymodem_round_def Let_def)
    then show ?thesis using 3 r by (intro go yreach_turn1) (simp add: leave_resume Let_def)
  next
    case 4
    then show ?thesis using t r by (intro bl [of "s\<lparr>can_counter := can_counter s + 1\<rparr>"]) (simp_all add: ymodem_round_def line_same_def Let_def)
  next
    case 5
    then show ?thesis using t r l(1)
      by (intro go yreach_turn1)
        (auto simp: ymodem_round_def leave_resume resume_def Let_def exit_thread_def uart_sendbyte_def split: if_splits)
  qed
qed

text \<open>And so it is for a turn of the first loop.\<close>

lemma yreach_wait:
  assumes "phase st = Waiting" "uart_rx_sema st \<le> 32"
  shows "yreach d (Calling, st) (if phase (ymodem_wait d st) = Waiting then (Calling, ymodem_wait d st) else resume (ymodem_wait d st))"
proof (cases "send_count st \<ge> 2 * 60 * 10")
  case True
  then have w: "ymodem_wait d st = exit_thread d 6 False st" by (simp add: ymodem_wait_def)
  have "phase (exit_thread d 6 False st) \<noteq> Waiting" by (simp add: exit_thread_def)
  then show ?thesis unfolding w using True by (intro yreach_turn1) (simp add: leave_resume)
next
  case False
  let ?s = "uart_sendbyte (if crc_mode st \<noteq> 0 then MODEM_C else MODEM_NAK) st"
  let ?t = "?s\<lparr>send_count := send_count st + 1\<rparr>"
  have s: "uart_rx_sema ?t = uart_rx_sema st" "phase ?t = Waiting" "send_count ?s = send_count st" using assms(1) by (simp_all add: uart_sendbyte_def)
  have 1: "yturn d Calling st = Some (Testing, ?t)" using False s(3) by (simp add: Let_def)
  have w: "ymodem_wait d st = (if uart_rx_sema st > 0 then ?t\<lparr>phase := Running\<rparr> else ?t)"
    using False s unfolding ymodem_wait_def Let_def by simp
  show ?thesis
  proof (cases "uart_rx_sema st > 0")
    case True
    have "yreach d (Giving, ?t\<lparr>uart_rx_sema := uart_rx_sema ?t - 1\<rparr>) (Taking, ?t\<lparr>phase := Running\<rparr>)"
      using True assms(2) s(1) by (intro yreach_turn1) (simp add: min_def uart_sendbyte_def)
    then have "yreach d (Testing, ?t) (Taking, ?t\<lparr>phase := Running\<rparr>)" using True s(1) by (intro yreach_turn [of d Testing ?t]) simp_all
    from yreach_turn [OF 1 this] show ?thesis using True w by (simp add: resume_def)
  next
    case no: False
    have "yreach d (Testing, ?t) (Calling, ?t)" using no s(1) by (intro yreach_turn1) simp
    from yreach_turn [OF 1 this] show ?thesis using no w s(2) by simp
  qed
qed

end
