(* ===== verification/YmodemProps.thy ===== *)
theory YmodemProps
  imports YmodemThread
begin

text \<open>
  Packets on the line: what the receive interrupt leaves in the buffer, one turn of the thread on a packet,
  and the properties of the update.
\<close>

section \<open>Receiving\<close>

lemma recv_byte:
  assumes "length (uart_irq_buf st) = 1029" "uart_recv_buf_index st < 1029"
  shows "uart_recvbytetimeout st = Some (st\<lparr>uart_recv_buf_index := (uart_recv_buf_index st + 1) mod 1029\<rparr>,
    uart_irq_buf st ! uart_recv_buf_index st)"
  using assms by (auto simp: uart_recvbytetimeout_def rd_def mod_if)

lemma irq_eq:
  "uarty_irq b st = (let i = (if uart_recv_index st = 1029 then 0 else uart_recv_index st) in
     if i < length (uart_irq_buf st)
     then Some (st\<lparr>uart_rx_sema := (if uart_recv_index st = 0 then min (uart_rx_sema st + 1) 32 else uart_rx_sema st),
            uart_irq_buf := (uart_irq_buf st)[i := b], uart_recv_index := add32 i 1, tick_last_update := tick st\<rparr>)
     else None)"
  by (cases "uart_recv_index st = 0"; cases "uart_recv_index st = 1029") (simp_all add: uarty_irq_def Let_def)


fun uart_feed :: "buf \<Rightarrow> ym \<Rightarrow> ym option" where
  "uart_feed [] st = Some st"
| "uart_feed (b # bs) st = do { st \<leftarrow> uarty_irq b st; uart_feed bs st }"

lemma uart_feed_more:
  "length (uart_irq_buf st) = 1029 \<Longrightarrow> 0 < uart_recv_index st \<Longrightarrow> uart_recv_index st + length bs \<le> 1029 \<Longrightarrow> tick_last_update st = tick st \<Longrightarrow>
   uart_feed bs st = Some (st\<lparr>uart_irq_buf := take (uart_recv_index st) (uart_irq_buf st) @ bs
       @ drop (uart_recv_index st + length bs) (uart_irq_buf st), uart_recv_index := uart_recv_index st + length bs\<rparr>)"
proof (induction bs arbitrary: st)
  case (Cons b bs)
  let ?i = "uart_recv_index st"
  let ?st = "st\<lparr>uart_irq_buf := (uart_irq_buf st)[?i := b], uart_recv_index := ?i + 1, tick_last_update := tick st\<rparr>"
  have "uarty_irq b st = Some ?st" using Cons.prems by (simp add: uarty_irq_def)
  moreover have "take (?i + 1) ((uart_irq_buf st)[?i := b]) = take ?i (uart_irq_buf st) @ [b]"
    using Cons.prems by (simp add: take_Suc_conv_app_nth)
  ultimately show ?case using Cons.IH [of ?st] Cons.prems by simp
qed simp

lemma uart_feed_eq:
  assumes "length (uart_irq_buf st) = 1029" "uart_recv_index st = 0" "bs \<noteq> []" "length bs \<le> 1029"
  shows "uart_feed bs st = Some (st\<lparr>uart_irq_buf := bs @ drop (length bs) (uart_irq_buf st),
    uart_recv_index := length bs, tick_last_update := tick st, uart_rx_sema := min (uart_rx_sema st + 1) 32\<rparr>)"
proof -
  obtain b bs' where bs: "bs = b # bs'" using assms(3) by (cases bs) auto
  let ?st = "st\<lparr>uart_irq_buf := (uart_irq_buf st)[0 := b], uart_recv_index := 1, tick_last_update := tick st,
    uart_rx_sema := min (uart_rx_sema st + 1) 32\<rparr>"
  have u: "uarty_irq b st = Some ?st" using assms by (simp add: uarty_irq_def)
  have "take 1 ((uart_irq_buf st)[0 := b]) = [b]" using assms(1) by (cases "uart_irq_buf st") auto
  then show ?thesis using uart_feed_more [of ?st bs'] assms by (simp add: bs u)
qed

section \<open>Moving the data\<close>

lemma copy_data_eq:
  "length (uart_irq_buf st) = 1029 \<Longrightarrow> uart_recv_buf_index st + n < 1029 \<Longrightarrow> i + n \<le> length (uart_rcv_buf st) \<Longrightarrow>
   copy_data n i st = Some (st\<lparr>uart_rcv_buf := take i (uart_rcv_buf st) @ take n (drop (uart_recv_buf_index st) (uart_irq_buf st))
       @ drop (i + n) (uart_rcv_buf st), uart_recv_buf_index := uart_recv_buf_index st + n\<rparr>)"
proof (induction n arbitrary: i st)
  case (Suc n)
  let ?r = "uart_recv_buf_index st"
  have "drop ?r (uart_irq_buf st) = uart_irq_buf st ! ?r # drop (Suc ?r) (uart_irq_buf st)"
    using Suc.prems by (intro Cons_nth_drop_Suc [symmetric]) simp
  then show ?case using Suc.prems
    by (simp add: recv_byte Suc.IH take_Suc_conv_app_nth)
qed simp

section \<open>Writing a block\<close>

text \<open>The rest of the sector in which the next block will be written is erased.\<close>

definition frontier :: "ym \<Rightarrow> bool" where
  "frontier st \<longleftrightarrow> erased (fmem st) (image_address st + offset st) ((4096 - offset st mod 4096) mod 4096)"

definition image_ok :: "ym \<Rightarrow> nat \<Rightarrow> bool" where
  "image_ok st n \<longleftrightarrow> image_address st mod 4096 = 0 \<and> 0xA000 \<le> image_address st \<and> image_address st + offset st + n + 8192 < 2 ^ 32
     \<and> offset st mod 1024 = 0 \<and> flags st = 1"

lemma sector_room:
  assumes "(n::nat) mod 1024 = 0" "n mod 4096 \<noteq> 0"
  shows "(4096 - n mod 4096) mod 4096 = 4096 - n mod 4096" "1024 \<le> 4096 - n mod 4096"
    "(4096 - (n + 1024) mod 4096) mod 4096 + 1024 = 4096 - n mod 4096"
proof -
  obtain k where k: "n = 1024 * k" using assms(1) by (auto simp: dvd_eq_mod_eq_0 [symmetric])
  then have e: "n mod 4096 = 1024 * (k mod 4)" using mult_mod_right [of 1024 k 4] by simp
  moreover have "k mod 4 \<noteq> 0" using e assms(2) by simp
  moreover have "k mod 4 < 4" by simp
  then have "k mod 4 = 0 \<or> k mod 4 = 1 \<or> k mod 4 = 2 \<or> k mod 4 = 3" by linarith
  ultimately have "n mod 4096 = 1024 \<or> n mod 4096 = 2048 \<or> n mod 4096 = 3072" by auto
  moreover from this have "(n + 1024) mod 4096 = (n mod 4096 + 1024) mod 4096" by (simp add: mod_add_left_eq)
  ultimately show "(4096 - n mod 4096) mod 4096 = 4096 - n mod 4096" "1024 \<le> 4096 - n mod 4096"
    "(4096 - (n + 1024) mod 4096) mod 4096 + 1024 = 4096 - n mod 4096" by auto
qed

lemma data_write_eq:
  assumes "flags st = 1"
  shows "data_write_to_flash d st = (
    let f1 = (if flash_read_word (fmem st) OFFSET_DATA = - 1
           then flash_write_word d (fmem st) OFFSET_DATA (word_of_nat (image_address st)) else fmem st);
        a = add32 (image_address st) (offset st);
        f2 = (if offset st = 0 \<or> offset st mod 4096 = 0 then flash_erase_sector d f1 a else f1)
    in do { f \<leftarrow> flash_stream_write d f2 a (len st) (uart_rcv_buf st);
            Some (st\<lparr>fmem := f, offset := add32 (offset st) (len st)\<rparr>) })"
  using assms unfolding data_write_to_flash_def Let_def
  by (cases "flash_read_word (fmem st) OFFSET_DATA = - 1"; cases "offset st = 0 \<or> offset st mod 4096 = 0") simp_all

lemma write_block:
  assumes d: "nor_ok d" and img: "image_ok st 1024" and fr: "frontier st" and l: "len st = 1024" "1024 \<le> length (uart_rcv_buf st)"
  shows "\<exists>f. data_write_to_flash d st = Some (st\<lparr>fmem := f, offset := offset st + 1024\<rparr>)
    \<and> bytes_at f (image_address st + offset st) 1024 = take 1024 (uart_rcv_buf st)
    \<and> (\<forall>x. image_address st \<le> x \<and> x < image_address st + offset st \<longrightarrow> f x = fmem st x)
    \<and> frontier (st\<lparr>fmem := f, offset := offset st + 1024\<rparr>)"
proof -
  let ?a = "image_address st + offset st" and ?data = "take 1024 (uart_rcv_buf st)"
  have b: "image_address st mod 4096 = 0" "0xA000 \<le> image_address st" "offset st mod 1024 = 0" "?a + 1024 + 8192 < 2 ^ 32" "flags st = 1"
    using img by (simp_all add: image_ok_def)
  define f1 where "f1 = (if flash_read_word (fmem st) OFFSET_DATA = - 1
     then flash_write_word d (fmem st) OFFSET_DATA (word_of_nat (image_address st)) else fmem st)"
  have f1: "f1 x = fmem st x" if "0xA000 \<le> x" for x
    using that by (simp add: f1_def flash_write_word_def HAL_WRITE32_def programmed_def)
  define f2 where "f2 = (if offset st = 0 \<or> offset st mod 4096 = 0 then flash_erase_sector d f1 ?a else f1)"
  have sec: "x div 4096 = ?a div 4096 \<longleftrightarrow> ?a \<le> x \<and> x < ?a + 4096" if "offset st mod 4096 = 0" for x
  proof -
    have "4096 dvd ?a" using b(1) that by (simp add: dvd_eq_mod_eq_0 [symmetric])
    then obtain m where m: "?a = 4096 * m" by auto
    have "x div 4096 = m \<longleftrightarrow> 4096 * m \<le> x \<and> x < 4096 * m + 4096"
    proof
      assume "x div 4096 = m"
      then show "4096 * m \<le> x \<and> x < 4096 * m + 4096"
        using div_times_less_eq_dividend [of x 4096] dividend_less_div_times [of 4096 x] by (auto simp: mult.commute add.commute)
    qed (auto intro: div_nat_eqI)
    then show ?thesis by (simp add: m)
  qed
  have f2: "f2 x = fmem st x" if "image_address st \<le> x" "x < ?a" for x
    using that b f1 [of x] sec d by (auto simp: f2_def flash_erase_sector_def nor_ok_def)
  have room: "erased f2 ?a (1024 + (4096 - (offset st + 1024) mod 4096) mod 4096)"
  proof (cases "offset st mod 4096 = 0")
    case True
    then have "(offset st + 1024) mod 4096 = 1024" by (metis add_0 mod_add_left_eq mod_less numeral_less_iff semiring_norm(76,78))
    then show ?thesis using True sec d by (auto simp: erased_def f2_def flash_erase_sector_def nor_ok_def)
  next
    case False
    have n: "offset st \<noteq> 0" using False by auto
    note r = sector_room [OF b(3) False]
    have "erased (fmem st) ?a (1024 + (4096 - (offset st + 1024) mod 4096) mod 4096)"
      using fr r by (simp add: frontier_def add.commute)
    then show ?thesis using f1 b(2) False n by (auto simp: erased_def f2_def)
  qed
  let ?f = "programmed d f2 ?a ?data"
  have "flash_stream_write d f2 ?a 1024 (uart_rcv_buf st) = Some ?f"
    using l b(4) by (intro stream_write_eq [OF d]) simp_all
  moreover have a: "add32 (image_address st) (offset st) = ?a" "add32 (offset st) 1024 = offset st + 1024" using b(4) by simp_all
  ultimately have w: "data_write_to_flash d st = Some (st\<lparr>fmem := ?f, offset := offset st + 1024\<rparr>)"
    unfolding data_write_eq [OF b(5)] Let_def a l(1) f1_def [symmetric] f2_def [symmetric] by simp
  have "bytes_at ?f ?a 1024 = ?data"
    using bytes_at_programmed [OF d, of f2 ?a ?data] room l(2) by (simp add: erased_def)
  moreover have "?f x = fmem st x" if "image_address st \<le> x" "x < ?a" for x using f2 [OF that] that(2) by (simp add: programmed_def)
  moreover have "frontier (st\<lparr>fmem := ?f, offset := offset st + 1024\<rparr>)"
    using room l(2) by (auto simp: frontier_def erased_def programmed_def)
  ultimately show ?thesis using w by blast
qed

section \<open>One packet\<close>

definition ymodem_packet :: "u8 \<Rightarrow> buf \<Rightarrow> u8 \<Rightarrow> u8 \<Rightarrow> buf" where
  "ymodem_packet n data crch crcl = [MODEM_STX, n, NOT n] @ data @ [crch, crcl]"

text \<open>The receiver waits for a data packet (the first packet, with the file name, has been taken).\<close>

definition ready :: "ym \<Rightarrow> bool" where
  "ready st \<longleftrightarrow> phase st = Running \<and> length (uart_irq_buf st) = 1029 \<and> length (uart_rcv_buf st) = 1029 \<and> uart_recv_index st = 0
     \<and> uart_recv_buf_index st = 0 \<and> uart_rx_sema st = 0 \<and> rec_err st = 0 \<and> crc_mode st = 1 \<and> nxt_num st \<noteq> 0"

text \<open>The state when the data of a packet has been written.\<close>

definition stored :: "flash \<Rightarrow> buf \<Rightarrow> ym \<Rightarrow> ym" where
  "stored f data st = st\<lparr>uart_rx_sema := uart_rx_sema st - 1, len := 1024,
     uart_rcv_buf := data @ drop 1024 (uart_rcv_buf st), fmem := f, offset := offset st + 1024, first_time := False,
     uart_recv_buf_index := 0\<rparr>"

definition next_block :: "ym \<Rightarrow> ym" where
  "next_block st = fst (start_next_round (st\<lparr>nxt_num := add32 (nxt_num st) 1, rec_err := 0\<rparr>))"

lemma not_byte: "unat (n :: u8) + unat (NOT n) = 255"
proof -
  have "unat n \<le> 255" using unsigned_less [of n, where 'a = nat] by simp
  moreover have "NOT n = 255 - n" by (simp add: not_eq_complement)
  moreover have "n \<le> (255 :: u8)" using \<open>unat n \<le> 255\<close> by (simp add: word_le_nat_alt)
  ultimately show ?thesis by (simp add: unat_sub)
qed

lemma round_block:
  assumes d: "nor_ok d" and img: "image_ok st 1024" and fr: "frontier st" and data: "length data = 1024"
    and st: "length (uart_irq_buf st) = 1029" "length (uart_rcv_buf st) = 1029" "uart_recv_buf_index st = 0" "crc_mode st = 1" "nxt_num st \<noteq> 0"
    and pkt: "uart_irq_buf st = ymodem_packet n data crch crcl"
  obtains f where "bytes_at f (image_address st + offset st) 1024 = data"
    "\<And>x. image_address st \<le> x \<Longrightarrow> x < image_address st + offset st \<Longrightarrow> f x = fmem st x"
    "frontier (st\<lparr>fmem := f, offset := offset st + 1024\<rparr>)"
    "ymodem_round d st = Some (
       if set data \<subseteq> {0} then if nxt_num st = 255 then exit_thread d 0 True (stored f data st) else next_block (stored f data st)
       else if crc16 data = crc_word crch crcl then next_block (stored f data st)
       else exit_thread d 4 False ((stored f data st)\<lparr>rec_err := 1\<rparr>))"
proof -
  let ?s1 = "st\<lparr>uart_rx_sema := uart_rx_sema st - 1, uart_recv_buf_index := 1, len := 1024\<rparr>"
  let ?s2 = "st\<lparr>uart_rx_sema := uart_rx_sema st - 1, len := 1024, uart_recv_buf_index := 3\<rparr>"
  let ?s3 = "st\<lparr>uart_rx_sema := uart_rx_sema st - 1, len := 1024, uart_rcv_buf := data @ drop 1024 (uart_rcv_buf st), uart_recv_buf_index := 1027\<rparr>"
  note nth = pkt ymodem_packet_def
  have r1: "uart_recvbytetimeout (st\<lparr>uart_rx_sema := uart_rx_sema st - 1\<rparr>)
    = Some (st\<lparr>uart_rx_sema := uart_rx_sema st - 1, uart_recv_buf_index := 1\<rparr>, MODEM_STX)"
    using st by (simp add: recv_byte) (simp add: nth)
  have b: "block_num_check ?s1 = Some (?s2, 0)"
    using st by (simp add: block_num_check_def recv_byte) (simp add: nth not_byte)
  have "take 1024 (drop 3 (uart_irq_buf st)) = data" using data by (simp add: nth)
  then have c: "copy_data 1024 0 ?s2 = Some ?s3" using st by (subst copy_data_eq) simp_all
  have "image_ok ?s3 1024" "frontier ?s3" using img fr by (simp_all add: image_ok_def frontier_def)
  then obtain f where f: "data_write_to_flash d ?s3 = Some (?s3\<lparr>fmem := f, offset := offset st + 1024\<rparr>)"
      "bytes_at f (image_address st + offset st) 1024 = data"
      "\<forall>x. image_address st \<le> x \<and> x < image_address st + offset st \<longrightarrow> f x = fmem st x"
      "frontier (?s3\<lparr>fmem := f, offset := offset st + 1024\<rparr>)"
    using write_block [OF d, of ?s3] data by auto
  let ?s4 = "?s3\<lparr>fmem := f, offset := offset st + 1024, first_time := False\<rparr>"
  have l: "length data \<le> 2 ^ 20" using data by simp
  have i: "uart_irq_buf st ! 1027 = crch" "uart_irq_buf st ! 1028 = crcl"
    using data by (simp_all add: nth nth_append)
  have "uart_recvbytetimeout ?s4 = Some (?s4\<lparr>uart_recv_buf_index := 1028\<rparr>, crch)"
    "uart_recvbytetimeout (?s4\<lparr>uart_recv_buf_index := 1028\<rparr>) = Some (?s4\<lparr>uart_recv_buf_index := 0\<rparr>, crcl)"
    using st i by (simp_all add: recv_byte)
  then have k: "crc_check ?s4 = Some (if set data \<subseteq> {0} then (stored f data st, 2)
      else if crc16 data = crc_word crch crcl then (stored f data st, 0) else ((stored f data st)\<lparr>rec_err := 1\<rparr>, 1))"
    using st data unfolding crc_check_def crc_verdict_def by (simp add: stored_def rdn_def sum_zero [OF l] crc_loop)
  have n: "nxt_num (stored f data st) = nxt_num st" by (simp add: stored_def)
  have t: "snd (start_next_round (st'\<lparr>nxt_num := m, rec_err := 0\<rparr>)) = 0" for st' m
    by (simp add: start_next_round_def split_beta)
  have "ymodem_round d st = ymodem_block d ?s1" unfolding ymodem_round_def r1 by simp
  also have "\<dots> = Some (
       if set data \<subseteq> {0} then if nxt_num st = 255 then exit_thread d 0 True (stored f data st) else next_block (stored f data st)
       else if crc16 data = crc_word crch crcl then next_block (stored f data st)
       else exit_thread d 4 False ((stored f data st)\<lparr>rec_err := 1\<rparr>))"
    unfolding ymodem_block_def b
    using st(5) by (simp add: c f(1) k n t next_block_def split_beta del: One_nat_def)
  finally have r: "ymodem_round d st = \<dots>" .
  show ?thesis using that [OF f(2) _ _ r] f(3,4) by (simp add: frontier_def)
qed

section \<open>A sequence of packets\<close>

text \<open>The bytes of a packet arrive, the line is quiet for 50 ticks, and the thread takes its turn.\<close>

definition deliver :: "nor \<Rightarrow> buf \<Rightarrow> ym \<Rightarrow> ym option" where
  "deliver d packet st = do {
     st \<leftarrow> uart_feed packet st;
     ymodem_round d (st\<lparr>tick := add32 (tick st) 50\<rparr>)
   }"

fun deliver_all :: "nor \<Rightarrow> buf list \<Rightarrow> ym \<Rightarrow> ym option" where
  "deliver_all d [] st = Some st"
| "deliver_all d (p # ps) st = do { st \<leftarrow> deliver d p st; deliver_all d ps st }"





lemma tick_steps: "(ystep d)\<^sup>*\<^sup>* (pc, st) (pc, st\<lparr>tick := add32 (tick st) n\<rparr>) \<or> n = 0"
proof (induction n)
  case (Suc n)
  let ?st = "st\<lparr>tick := add32 (tick st) n\<rparr>"
  have "add32 (add32 (tick st) n) 1 = add32 (tick st) (Suc n)"
    unfolding add32_def by (metis Suc_eq_plus1 add.assoc mod_add_left_eq)
  then have "?st\<lparr>tick := add32 (tick ?st) 1\<rparr> = st\<lparr>tick := add32 (tick st) (Suc n)\<rparr>" by simp
  then have "ystep d (pc, ?st) (pc, st\<lparr>tick := add32 (tick st) (Suc n)\<rparr>)" using ystep.tick [of d pc ?st] by simp
  moreover have "ystep d (pc, st) (pc, st\<lparr>tick := add32 (tick st) (Suc n)\<rparr>)" if "n = 0"
    using that ystep.tick [of d pc st] by simp
  ultimately show ?case using Suc.IH by (meson r_into_rtranclp rtranclp.rtrancl_into_rtrancl)
qed simp




definition image_bytes :: "ym \<Rightarrow> nat \<Rightarrow> nat \<Rightarrow> buf" where
  "image_bytes st i n = bytes_at (fmem st) (image_address st + i) n"

text \<open>The state in which the thread finds a packet, at the time \<open>u\<close> when the last byte came at the time \<open>t\<close>.\<close>

definition arrived :: "buf \<Rightarrow> nat \<Rightarrow> nat \<Rightarrow> ym \<Rightarrow> ym" where
  "arrived p t u st = st\<lparr>uart_irq_buf := p, uart_recv_index := 1029, tick_last_update := t, uart_rx_sema := 1, tick := u\<rparr>"


lemma round_arrived:
  assumes d: "nor_ok d" and st: "ready st" "image_ok st 1024" "frontier st"
    and data: "length data = 1024" and n: "nxt_num st + 1 < 2 ^ 32"
  obtains f st2 where
    "ymodem_round d (arrived (ymodem_packet k data crch crcl) t u st) = Some (
       if set data \<subseteq> {0} then if nxt_num st = 255 then exit_thread d 0 True st2 else next_block st2
       else if crc16 data = crc_word crch crcl then next_block st2
       else exit_thread d 4 False (st2\<lparr>rec_err := 1\<rparr>))"
    "st2 = stored f data (arrived (ymodem_packet k data crch crcl) t u st)"
    "bytes_at f (image_address st + offset st) 1024 = data"
    "\<And>x. image_address st \<le> x \<Longrightarrow> x < image_address st + offset st \<Longrightarrow> f x = fmem st x"
    "frontier (st\<lparr>fmem := f, offset := offset st + 1024\<rparr>)"
proof -
  let ?s = "arrived (ymodem_packet k data crch crcl) t u st"
  have l: "length (ymodem_packet k data crch crcl) = 1029" using data by (simp add: ymodem_packet_def)
  have "image_ok ?s 1024" "frontier ?s" using st by (simp_all add: image_ok_def frontier_def arrived_def)
  then obtain f where f: "bytes_at f (image_address ?s + offset ?s) 1024 = data"
    "\<And>x. image_address ?s \<le> x \<Longrightarrow> x < image_address ?s + offset ?s \<Longrightarrow> f x = fmem ?s x"
    "frontier (?s\<lparr>fmem := f, offset := offset ?s + 1024\<rparr>)"
    "ymodem_round d ?s = Some (
       if set data \<subseteq> {0} then if nxt_num ?s = 255 then exit_thread d 0 True (stored f data ?s) else next_block (stored f data ?s)
       else if crc16 data = crc_word crch crcl then next_block (stored f data ?s)
       else exit_thread d 4 False ((stored f data ?s)\<lparr>rec_err := 1\<rparr>))"
    using round_block [OF d, of ?s data k crch crcl] st(1) l data by (auto simp: ready_def arrived_def)
  show ?thesis
    by (rule that [of "stored f data ?s" f]) (use f in \<open>simp_all add: frontier_def arrived_def\<close>)
qed

lemma fed_packet:
  assumes "ready st" "length p = 1029"
  shows "uart_feed p st = Some (arrived p (tick st) (tick st) st)"
proof -
  have "p \<noteq> []" using assms(2) by auto
  then show ?thesis using uart_feed_eq [of st p] assms by (simp add: ready_def arrived_def)
qed

lemma deliver_block:
  assumes d: "nor_ok d" and st: "ready st" "image_ok st 1024" "frontier st" and t: "tick st < 2 ^ 32"
    and data: "length data = 1024" and n: "nxt_num st + 1 < 2 ^ 32"
  obtains f st2 where
    "deliver d (ymodem_packet k data crch crcl) st = Some (
       if set data \<subseteq> {0} then if nxt_num st = 255 then exit_thread d 0 True st2 else next_block st2
       else if crc16 data = crc_word crch crcl then next_block st2
       else exit_thread d 4 False (st2\<lparr>rec_err := 1\<rparr>))"
    "st2 = stored f data (arrived (ymodem_packet k data crch crcl) (tick st) (add32 (tick st) 50) st)"
    "bytes_at f (image_address st + offset st) 1024 = data"
proof -
  have l: "length (ymodem_packet k data crch crcl) = 1029" using data by (simp add: ymodem_packet_def)
  have "deliver d (ymodem_packet k data crch crcl) st
      = ymodem_round d (arrived (ymodem_packet k data crch crcl) (tick st) (add32 (tick st) 50) st)"
    unfolding deliver_def fed_packet [OF st(1) l] by (simp add: arrived_def)
  note dl = this
  obtain f st2 where
    r: "ymodem_round d (arrived (ymodem_packet k data crch crcl) (tick st) (add32 (tick st) 50) st) = Some (
       if set data \<subseteq> {0} then if nxt_num st = 255 then exit_thread d 0 True st2 else next_block st2
       else if crc16 data = crc_word crch crcl then next_block st2
       else exit_thread d 4 False (st2\<lparr>rec_err := 1\<rparr>))"
    "st2 = stored f data (arrived (ymodem_packet k data crch crcl) (tick st) (add32 (tick st) 50) st)"
    "bytes_at f (image_address st + offset st) 1024 = data"
    by (rule round_arrived [OF d st data n])
  then show ?thesis using that [of st2 f] unfolding dl by blast
qed

section \<open>A whole transfer\<close>

definition crc_hi :: "u16 \<Rightarrow> u8" where "crc_hi c = ucast (drop_bit 8 c)"
definition crc_lo :: "u16 \<Rightarrow> u8" where "crc_lo c = ucast c"

lemma crc_bytes: "crc_word (crc_hi c) (crc_lo c) = c"
  unfolding crc_word_def crc_hi_def crc_lo_def by (rule bit_word_eqI) (auto simp: bit_simps)





text \<open>A receiver at the start of an image, whose flash is erased.\<close>

definition sample :: ym where
  "sample = \<lparr>uart_rcv_buf = replicate 1029 0, uart_irq_buf = replicate 1029 0, uart_rx_sema = 0, image_address = IMAGE_TWO,
     tick_last_update = 0, uart_recv_index = 0, uart_recv_buf_index = 0, modemtype = 2, crc_mode = 1, nxt_num = 1, cur_num = 0,
     len = 0, rec_err = 0, filelen = 0, filename = [0], offset = 0, flags = 1, first_time = True, can_counter = 0,
     eot_counter = 0, send_count = 0, phase = Running, tick = 0, fmem = (\<lambda>_. 0xFF), sent = []\<rparr>"

lemma sample_ready: "ready sample" "image_ok sample 2048" "frontier sample" "tick sample = 0" "nxt_num sample = 1"
  by (simp_all add: ready_def sample_def image_ok_def frontier_def erased_def)


section \<open>Damaged packets\<close>

text \<open>C31: A packet in which one byte of the data has been changed on the way is not acknowledged: the update stops with
  an error. (Only if the change makes all bytes zero the checksum is not compared.)\<close>

theorem ymodem_corrupt_byte_rejected:
  assumes "nor_ok d" and "ready st" and "image_ok st 1024" and "frontier st" and "tick st < 2 ^ 32" and "nxt_num st + 1 < 2 ^ 32"
    and "length (xs @ b # ys) = 1024" and "b' \<noteq> b" and "\<not> set (xs @ b' # ys) \<subseteq> {0}"
  shows "\<exists>st'. deliver d (ymodem_packet n (xs @ b' # ys) (crc_hi (crc16 (xs @ b # ys))) (crc_lo (crc16 (xs @ b # ys)))) st = Some st'
    \<and> phase st' = Exited 4 False \<and> sent st' = sent st"
proof -
  let ?c = "crc16 (xs @ b # ys)" and ?data = "xs @ b' # ys"
  have l: "length ?data = 1024" using assms(7) by simp
  have bad: "crc16 ?data \<noteq> crc_word (crc_hi ?c) (crc_lo ?c)" unfolding crc_bytes using crc16_detects [OF assms(8)] by blast
  obtain f st2 where "deliver d (ymodem_packet n ?data (crc_hi ?c) (crc_lo ?c)) st = Some (exit_thread d 4 False (st2\<lparr>rec_err := 1\<rparr>))"
      "st2 = stored f ?data (arrived (ymodem_packet n ?data (crc_hi ?c) (crc_lo ?c)) (tick st) (add32 (tick st) 50) st)"
    using deliver_block [OF assms(1-5) l assms(6), of n "crc_hi ?c" "crc_lo ?c"]
    unfolding if_not_P [OF bad] if_not_P [OF assms(9)] by blast
  then show ?thesis by (simp add: exit_thread_def stored_def arrived_def)
qed

theorem ymodem_corrupt_byte_rejected_witness:
  "\<exists>st'. deliver nor_and (ymodem_packet 1 ([] @ 5 # replicate 1023 7) (crc_hi (crc16 ([] @ 4 # replicate 1023 7)))
       (crc_lo (crc16 ([] @ 4 # replicate 1023 7)))) sample = Some st' \<and> phase st' = Exited 4 False"
proof -
  have "image_ok sample 1024" by (simp add: sample_def image_ok_def)
  then show ?thesis
    using ymodem_corrupt_byte_rejected [of nor_and sample "[]" 4 "replicate 1023 7" 5 1] nor_and_ok sample_ready by auto
qed

text \<open>The data of a packet is written to the flash before its checksum is compared: when the packet is refused, the
  image already holds the damaged data, and the place where it was is erased or overwritten.\<close>

theorem ymodem_bad_block_written:
  assumes "nor_ok d" and "ready st" and "image_ok st 1024" and "frontier st" and "tick st < 2 ^ 32" and "nxt_num st + 1 < 2 ^ 32"
    and "length data = 1024" and "\<not> set data \<subseteq> {0}" and "crc16 data \<noteq> crc_word crch crcl"
  shows "\<exists>st'. deliver d (ymodem_packet n data crch crcl) st = Some st' \<and> phase st' = Exited 4 False
    \<and> bytes_at (fmem st') (image_address st + offset st) 1024 = data"
proof -
  obtain f st2 where "deliver d (ymodem_packet n data crch crcl) st = Some (exit_thread d 4 False (st2\<lparr>rec_err := 1\<rparr>))"
      "st2 = stored f data (arrived (ymodem_packet n data crch crcl) (tick st) (add32 (tick st) 50) st)"
      "bytes_at f (image_address st + offset st) 1024 = data"
    using deliver_block [OF assms(1-5,7,6), of n crch crcl] unfolding if_not_P [OF assms(8)] if_not_P [OF assms(9)] by blast
  then show ?thesis by (simp add: exit_thread_def stored_def arrived_def)
qed

lemma crc16_seven: "crc16 (replicate 1024 7) \<noteq> crc_word (crc_hi (crc16 (8 # replicate 1023 7))) (crc_lo (crc16 (8 # replicate 1023 7)))"
proof -
  have "replicate 1024 (7::u8) = 7 # replicate 1023 7" by (simp add: replicate_Suc [symmetric] del: replicate_Suc)
  then show ?thesis using crc16_detects [of 7 8 "[]" "replicate 1023 7"] by (simp only: crc_bytes) simp
qed

theorem ymodem_bad_block_written_witness:
  "\<exists>st' h l. deliver nor_and (ymodem_packet 1 (replicate 1024 7) h l) sample = Some st' \<and> phase st' = Exited 4 False
     \<and> bytes_at (fmem st') (image_address sample + offset sample) 1024 = replicate 1024 7"
proof -
  have "image_ok sample 1024" by (simp add: sample_def image_ok_def)
  moreover have "\<not> set (replicate 1024 (7::u8)) \<subseteq> {0}" by simp
  ultimately show ?thesis
    using ymodem_bad_block_written [OF nor_and_ok sample_ready(1) _ sample_ready(3) _ _ _ _ crc16_seven, of 1] sample_ready(4,5) by auto
qed

text \<open>A data packet of zeros that is number 255 ends the update as if the file were complete, whatever its checksum is:
  the thread reports success and writes the boot signature, and the rest of the file is never received.\<close>

theorem ymodem_zero_block_ends:
  assumes "nor_ok d" and "ready st" and "image_ok st 1024" and "frontier st" and "tick st < 2 ^ 32" and "nxt_num st = 255"
  shows "\<exists>st'. deliver d (ymodem_packet n (replicate 1024 0) crch crcl) st = Some st' \<and> phase st' = Exited 0 True \<and> sent st' = sent st"
proof -
  have z: "set (replicate 1024 (0 :: u8)) \<subseteq> {0}" "length (replicate 1024 (0 :: u8)) = 1024" "nxt_num st + 1 < 2 ^ 32"
    using assms(6) by simp_all
  obtain f st2 where "deliver d (ymodem_packet n (replicate 1024 0) crch crcl) st = Some (exit_thread d 0 True st2)"
      "st2 = stored f (replicate 1024 0) (arrived (ymodem_packet n (replicate 1024 0) crch crcl) (tick st) (add32 (tick st) 50) st)"
    using deliver_block [OF assms(1-5) z(2,3), of n crch crcl] unfolding if_P [OF z(1)] if_P [OF assms(6)] by blast
  then show ?thesis by (simp add: exit_thread_def set_signature_def stored_def arrived_def Let_def)
qed

theorem ymodem_zero_block_ends_witness:
  "\<exists>st'. deliver nor_and (ymodem_packet 255 (replicate 1024 0) 1 2) (sample\<lparr>nxt_num := 255\<rparr>) = Some st' \<and> phase st' = Exited 0 True"
proof -
  let ?s = "sample\<lparr>nxt_num := 255\<rparr>"
  have "ready ?s" "image_ok ?s 1024" "frontier ?s" "tick ?s < 2 ^ 32" "nxt_num ?s = 255"
    by (simp_all add: ready_def sample_def image_ok_def frontier_def erased_def)
  then show ?thesis using ymodem_zero_block_ends [OF nor_and_ok, of ?s 255 1 2] by blast
qed

section \<open>The buffers\<close>

definition ybuf_ok :: "ym \<Rightarrow> bool" where
  "ybuf_ok st \<longleftrightarrow> length (uart_irq_buf st) = 1029 \<and> length (uart_rcv_buf st) = 1029 \<and> uart_recv_index st \<le> 1029
     \<and> uart_recv_buf_index st < 1029 \<and> len st \<in> {0, 128, 1024} \<and> image_address st mod 4 = 0 \<and> offset st mod 4 = 0"

lemma write_words_defined: "p + n \<le> length data \<Longrightarrow>
  \<exists>f' a' p' n'. write_words d f a data p n = Some (f', a', p', n') \<and> p' + n' \<le> length data"
proof (induction n arbitrary: f a p rule: less_induct)
  case (less n)
  show ?case
  proof (cases "4 \<le> n")
    case True
    then show ?thesis using less.prems less.IH [of "n - 4" "p + 4"] by (subst write_words.simps) (simp add: rdn_def)
  qed (subst write_words.simps, use less.prems in simp)
qed

lemma stream_write_defined: "address mod 4 = 0 \<Longrightarrow> n \<le> length data \<Longrightarrow> flash_stream_write d f address n data \<noteq> None"
  using write_words_defined [of 0 n data d f "next_word address"] by (auto simp: flash_stream_write_def rdn_def)

lemma recv_ok:
  assumes "ybuf_ok st"
  shows "\<exists>i b. uart_recvbytetimeout st = Some (st\<lparr>uart_recv_buf_index := i\<rparr>, b) \<and> i < 1029"
  using assms by (auto simp: recv_byte ybuf_ok_def)

lemma ybuf_index: "ybuf_ok st \<Longrightarrow> i < 1029 \<Longrightarrow> ybuf_ok (st\<lparr>uart_recv_buf_index := i\<rparr>)"
  by (simp add: ybuf_ok_def)

lemma irq_ok: "ybuf_ok st \<Longrightarrow> \<exists>st'. uarty_irq b st = Some st' \<and> ybuf_ok st' \<and> phase st' = phase st"
  by (auto simp: uarty_irq_def ybuf_ok_def Let_def)

lemma block_num_ok: "ybuf_ok st \<Longrightarrow> \<exists>i r. block_num_check st = Some (st\<lparr>uart_recv_buf_index := i\<rparr>, r) \<and> i < 1029"
proof -
  assume ok: "ybuf_ok st"
  obtain i b where 1: "uart_recvbytetimeout st = Some (st\<lparr>uart_recv_buf_index := i\<rparr>, b)" "i < 1029" using recv_ok [OF ok] by blast
  then obtain j c where "uart_recvbytetimeout (st\<lparr>uart_recv_buf_index := i\<rparr>) = Some (st\<lparr>uart_recv_buf_index := j\<rparr>, c)" "j < 1029"
    using recv_ok [OF ybuf_index [OF ok]] by fastforce
  then show ?thesis using 1 by (simp add: block_num_check_def) blast
qed

lemma copy_ok: "ybuf_ok st \<Longrightarrow> i + n \<le> 1029 \<Longrightarrow> \<exists>st'. copy_data n i st = Some st' \<and> ybuf_ok st' \<and> len st' = len st
    \<and> nxt_num st' = nxt_num st \<and> first_time st' = first_time st \<and> phase st' = phase st"
proof (induction n arbitrary: i st)
  case (Suc n)
  obtain j b where r: "uart_recvbytetimeout st = Some (st\<lparr>uart_recv_buf_index := j\<rparr>, b)" "j < 1029" using recv_ok Suc.prems by blast
  let ?s = "st\<lparr>uart_recv_buf_index := j, uart_rcv_buf := (uart_rcv_buf st)[i := b]\<rparr>"
  have "ybuf_ok ?s" "i < length (uart_rcv_buf st)" using Suc.prems r(2) by (simp_all add: ybuf_ok_def)
  then show ?case using Suc.IH [of ?s "i + 1"] Suc.prems r by simp
qed simp

lemma add32_mod4: "a mod 4 = 0 \<Longrightarrow> b mod 4 = 0 \<Longrightarrow> add32 a b mod 4 = 0"
proof -
  assume "a mod 4 = 0" "b mod 4 = 0"
  then have "(a + b) mod 4 = 0" by (simp add: mod_add_eq [of a 4 b, symmetric])
  then show ?thesis unfolding add32_def by (simp add: mod_mod_cancel)
qed

definition same_turn :: "ym \<Rightarrow> ym \<Rightarrow> bool" where
  "same_turn st st' \<longleftrightarrow> nxt_num st' = nxt_num st \<and> first_time st' = first_time st \<and> phase st' = phase st \<and> len st' = len st"

definition same_write :: "ym \<Rightarrow> ym \<Rightarrow> bool" where
  "same_write st s \<longleftrightarrow> image_address s = image_address st \<and> offset s = offset st \<and> uart_rcv_buf s = uart_rcv_buf st
     \<and> ybuf_ok s \<and> same_turn st s"

lemma same_write_if: "same_write st s \<Longrightarrow> same_write st (if b then s\<lparr>fmem := f\<rparr> else s)"
  "same_write st s \<Longrightarrow> same_write st (if b then s\<lparr>fmem := f, flags := 1\<rparr> else s)"
  by (auto simp: same_write_def same_turn_def ybuf_ok_def)

lemma data_write_ok:
  assumes ok: "ybuf_ok st"
  shows "\<exists>st'. data_write_to_flash d st = Some st' \<and> ybuf_ok st' \<and> same_turn st st'"
proof -
  define s1 where "s1 = (if flash_read_word (fmem st) OFFSET_DATA = - 1
       then st\<lparr>fmem := flash_write_word d (fmem st) OFFSET_DATA (word_of_nat (image_address st))\<rparr> else st)"
  define s2 where "s2 = (if offset s1 = 0 \<or> offset s1 mod 4096 = 0
       then s1\<lparr>fmem := flash_erase_sector d (fmem s1) (add32 (image_address s1) (offset s1))\<rparr> else s1)"
  define s where "s = (if flags s2 = 0
       then s2\<lparr>fmem := flash_write_word d (flash_write_word d (fmem s2) (image_address s2) (word_of_nat (filelen s2)))
              (add32 (image_address s2) 4) 0x10004000, flags := 1\<rparr> else s2)"
  have e: "data_write_to_flash d st = do { f \<leftarrow> flash_stream_write d (fmem s) (add32 (image_address s) (offset s)) (len s) (uart_rcv_buf s);
      Some (s\<lparr>fmem := f, offset := add32 (offset s) (len s)\<rparr>) }"
    by (simp only: data_write_to_flash_def Let_def s1_def s2_def s_def)
  have "same_write st st" using ok by (simp add: same_write_def same_turn_def)
  then have "same_write st s1" unfolding s1_def by (rule same_write_if)
  then have "same_write st s2" unfolding s2_def by (rule same_write_if)
  then have s: "same_write st s" unfolding s_def by (rule same_write_if)
  then have a: "add32 (image_address s) (offset s) mod 4 = 0" "len s \<le> length (uart_rcv_buf s)" "len s mod 4 = 0" "offset s mod 4 = 0"
    by (auto simp: same_write_def ybuf_ok_def add32_mod4)
  obtain f where "flash_stream_write d (fmem s) (add32 (image_address s) (offset s)) (len s) (uart_rcv_buf s) = Some f"
    using stream_write_defined [OF a(1,2), of d "fmem s"] by auto
  then show ?thesis using s add32_mod4 [OF a(4,3)] by (auto simp: e same_write_def ybuf_ok_def same_turn_def)
qed

lemma crc_verdict_ok:
  assumes ok: "ybuf_ok st"
  shows "\<exists>st' r. crc_verdict h l st = Some (st', r) \<and> ybuf_ok st' \<and> same_turn st st'"
proof -
  have "rdn (uart_rcv_buf st) 0 (len st) \<noteq> None" using ok by (auto simp: rdn_def ybuf_ok_def)
  then obtain data where "rdn (uart_rcv_buf st) 0 (len st) = Some data" by blast
  then show ?thesis using ok by (simp add: crc_verdict_def Let_def) (auto simp: ybuf_ok_def same_turn_def)
qed

lemma crc_check_ok:
  assumes ok: "ybuf_ok st"
  shows "\<exists>st' r. crc_check st = Some (st', r) \<and> ybuf_ok st' \<and> same_turn st st'"
proof -
  obtain i b where 1: "uart_recvbytetimeout st = Some (st\<lparr>uart_recv_buf_index := i\<rparr>, b)" "i < 1029" using recv_ok [OF ok] by blast
  then obtain j c where 2: "uart_recvbytetimeout (st\<lparr>uart_recv_buf_index := i\<rparr>) = Some (st\<lparr>uart_recv_buf_index := j\<rparr>, c)" "j < 1029"
    using recv_ok [OF ybuf_index [OF ok]] by fastforce
  have "rdn (uart_rcv_buf st) 0 (len st) \<noteq> None" using ok by (auto simp: rdn_def ybuf_ok_def)
  then obtain data where "rdn (uart_rcv_buf st) 0 (len st) = Some data" by blast
  then show ?thesis using ok 1 2 by (simp add: crc_check_def crc_verdict_def Let_def) (auto simp: ybuf_ok_def same_turn_def)
qed

lemma name_reads: "uart_irq_buf st' = uart_irq_buf st \<Longrightarrow> calc_file_name_size st' = None \<longleftrightarrow> calc_file_name_size st = None"
  by (simp add: calc_file_name_size_def Option.bind_eq_None_conv split_beta)

lemma name_ok: "calc_file_name_size st = Some st' \<Longrightarrow> ybuf_ok st \<Longrightarrow> ybuf_ok st' \<and> same_turn st st'"
  by (auto simp: calc_file_name_size_def ybuf_ok_def same_turn_def split: bind_splits)

lemma next_ok: "ybuf_ok st \<Longrightarrow> ybuf_ok (fst (start_next_round st))"
  by (simp add: start_next_round_def answer_round_def ybuf_ok_def uart_rxempty_def uart_sendbyte_def Let_def)

lemma exit_ok: "ybuf_ok st \<Longrightarrow> ybuf_ok (exit_thread d e t st)"
  by (simp add: exit_thread_def ybuf_ok_def set_signature_def Let_def)

lemma block_ok:
  assumes ok: "ybuf_ok st"
  shows "(case ymodem_block d st of Some st' \<Rightarrow> ybuf_ok st' | None \<Rightarrow> nxt_num st = 0 \<and> first_time st \<and> calc_file_name_size st = None)"
proof -
  obtain i r where b: "block_num_check st = Some (st\<lparr>uart_recv_buf_index := i\<rparr>, r)" "i < 1029" using block_num_ok [OF ok] by blast
  let ?s = "st\<lparr>uart_recv_buf_index := i\<rparr>"
  have s: "ybuf_ok ?s" using ybuf_index ok b(2) by simp
  show ?thesis
  proof (cases "r \<noteq> 0 \<or> nxt_num ?s = 0 \<and> first_time ?s \<and> calc_file_name_size ?s = None")
    case True
    then show ?thesis using s exit_ok name_reads [of ?s st] unfolding ymodem_block_def b(1) by auto
  next
    case False
    then obtain s1 where s1: "(if nxt_num ?s = 0 \<and> first_time ?s then calc_file_name_size ?s else Some ?s) = Some s1"
        "ybuf_ok s1"
      using s name_ok by (cases "nxt_num ?s = 0 \<and> first_time ?s") auto
    then obtain s2 where s2: "copy_data (len s1) 0 s1 = Some s2" "ybuf_ok s2" using copy_ok [of s1 0 "len s1"] by (auto simp: ybuf_ok_def)
    have "\<exists>s3. (if nxt_num s2 \<noteq> 0 \<or> \<not> first_time s2
              then map_option (first_time_update (\<lambda>_. False)) (data_write_to_flash d s2) else Some s2) = Some s3 \<and> ybuf_ok s3"
      using data_write_ok [OF s2(2), of d] s2(2) by (auto simp: ybuf_ok_def)
    then obtain s3 where s3: "(if nxt_num s2 \<noteq> 0 \<or> \<not> first_time s2
              then map_option (first_time_update (\<lambda>_. False)) (data_write_to_flash d s2) else Some s2) = Some s3" "ybuf_ok s3" by blast
    obtain s4 k where s4: "crc_check s3 = Some (s4, k)" "ybuf_ok s4" using crc_check_ok [OF s3(2)] by blast
    have "ybuf_ok (s4\<lparr>nxt_num := add32 (nxt_num s4) 1, rec_err := 0\<rparr>)" using s4(2) by (simp add: ybuf_ok_def)
    note n = next_ok [OF this]
    have r: "r = 0" using False by simp
    have "ymodem_block d st = (if k = 1 then Some (exit_thread d 4 False s4)
       else if k = 2 \<and> nxt_num s4 = 0xff then Some (exit_thread d 0 True s4)
       else let (st, r) = start_next_round (s4\<lparr>nxt_num := add32 (nxt_num s4) 1, rec_err := 0\<rparr>)
            in Some (if r \<noteq> 0 then exit_thread d 5 False st else st))"
      unfolding ymodem_block_def b(1)
      by (simp only: Option.bind_lunit prod.case r simp_thms if_False s1(1) s2(1) s3(1) s4(1))
    then show ?thesis using s4(2) n exit_ok by (simp add: split_beta)
  qed
qed

lemma round_ok:
  assumes ok: "ybuf_ok st"
  shows "(case ymodem_round d st of Some st' \<Rightarrow> ybuf_ok st' | None \<Rightarrow> nxt_num st = 0 \<and> first_time st \<and> calc_file_name_size st = None)"
proof -
  let ?s = "st\<lparr>uart_rx_sema := uart_rx_sema st - 1\<rparr>"
  have s: "ybuf_ok ?s" using ok by (simp add: ybuf_ok_def)
  obtain i ch where r: "uart_recvbytetimeout ?s = Some (?s\<lparr>uart_recv_buf_index := i\<rparr>, ch)" "i < 1029" using recv_ok [OF s] by blast
  let ?t = "?s\<lparr>uart_recv_buf_index := i\<rparr>"
  have t: "ybuf_ok ?t" by (rule ybuf_index [OF s r(2)])
  have name: "calc_file_name_size s' = None \<longleftrightarrow> calc_file_name_size st = None" if "uart_irq_buf s' = uart_irq_buf st" for s'
    by (rule name_reads [OF that])
  have bl: "(case ymodem_block d s' of Some st' \<Rightarrow> ybuf_ok st' | None \<Rightarrow> nxt_num st = 0 \<and> first_time st \<and> calc_file_name_size st = None)"
    if "ybuf_ok s'" "uart_irq_buf s' = uart_irq_buf st" "nxt_num s' = nxt_num st" "first_time s' = first_time st" for s'
    using block_ok [OF that(1), of d] name [OF that(2)] that(3,4) by (auto split: option.splits)
  have send: "ybuf_ok (uart_sendbyte b s')" if "ybuf_ok s'" for b s' using that by (simp add: ybuf_ok_def uart_sendbyte_def)
  have "ybuf_ok (?t\<lparr>len := 128\<rparr>)" "ybuf_ok (?t\<lparr>len := 1024\<rparr>)" "ybuf_ok (?t\<lparr>can_counter := x\<rparr>)" "ybuf_ok (?t\<lparr>eot_counter := x\<rparr>)" for x
    using t by (simp_all add: ybuf_ok_def)
  moreover note t
  ultimately show ?thesis unfolding ymodem_round_def r(1) Option.bind_lunit prod.case Let_def
    by (auto simp: bl exit_ok send modem_cancle_def)
qed

lemma wait_ok: "ybuf_ok st \<Longrightarrow> ybuf_ok (ymodem_wait d st)"
  by (auto simp: ymodem_wait_def exit_ok Let_def) (auto simp: ybuf_ok_def uart_sendbyte_def)

text \<open>The thread at a position of the program: in the copying loop the index is within the block. Where the name of the file
  and its length are read, the index is not bounded.\<close>

fun position_ok :: "ypc \<Rightarrow> ym \<Rightarrow> bool" where
  "position_ok (Copy i) st \<longleftrightarrow> i \<le> len st"
| "position_ok pc st \<longleftrightarrow> True"

definition reads_at :: "ypc \<Rightarrow> nat option" where
  "reads_at pc = (case pc of Name i name \<Rightarrow> Some i | Blanks i \<Rightarrow> Some i | Size i \<Rightarrow> Some i | Size_x i \<Rightarrow> Some (i + 1)
     | Digits base result i \<Rightarrow> Some i | _ \<Rightarrow> None)"

definition turn_ok :: "ypc \<Rightarrow> (ypc \<times> ym) option \<Rightarrow> bool" where
  "turn_ok pc r \<longleftrightarrow> (case r of None \<Rightarrow> \<exists>i. reads_at pc = Some i \<and> 1029 \<le> i
     | Some (pc', st') \<Rightarrow> ybuf_ok st' \<and> position_ok pc' st' \<and> (\<forall>i. reads_at pc = Some i \<longrightarrow> i < 1029))"

lemma turn_okI: "ybuf_ok st' \<Longrightarrow> position_ok pc' st' \<Longrightarrow> reads_at pc = None \<Longrightarrow> turn_ok pc (Some (pc', st'))"
  by (simp add: turn_ok_def)

lemma leave_ok: "ybuf_ok st \<Longrightarrow> reads_at pc = None \<Longrightarrow> turn_ok pc (Some (leave d e t st))"
  by (simp add: leave_def turn_okI exit_ok)

lemma send_ok: "ybuf_ok (uart_sendbyte b st) \<longleftrightarrow> ybuf_ok st"
  by (simp add: ybuf_ok_def uart_sendbyte_def)

lemma answer_ok: "ybuf_ok st \<Longrightarrow> ybuf_ok (answer_round st)"
  by (simp add: answer_round_def send_ok)

lemma read_ok:
  assumes "ybuf_ok st" "reads_at pc = Some i"
    and "\<And>c. i < 1029 \<Longrightarrow> ybuf_ok (snd (k c)) \<and> position_ok (fst (k c)) (snd (k c))"
  shows "turn_ok pc (do { c \<leftarrow> rd (uart_irq_buf st) i; Some (k c) })"
proof (cases "i < 1029")
  case True
  have "rd (uart_irq_buf st) i = Some (uart_irq_buf st ! i)" using assms(1) True by (simp add: rd_def ybuf_ok_def)
  then show ?thesis using assms(2) assms(3) [OF True, of "uart_irq_buf st ! i"] True by (cases "k (uart_irq_buf st ! i)") (simp add: turn_ok_def)
next
  case False
  then have "rd (uart_irq_buf st) i = None" using assms(1) by (simp add: rd_def ybuf_ok_def)
  then show ?thesis using assms(2) False by (simp add: turn_ok_def)
qed

lemma recv_turn:
  assumes "ybuf_ok st" "\<And>i b. i < 1029 \<Longrightarrow> turn_ok pc (k (st\<lparr>uart_recv_buf_index := i\<rparr>, b))"
  shows "turn_ok pc (Option.bind (uart_recvbytetimeout st) k)"
  using recv_ok [OF assms(1)] assms(2) by auto

lemma yturn_ok:
  assumes ok: "ybuf_ok st" and pos: "position_ok pc st"
  shows "turn_ok pc (yturn d pc st)"
proof -
  have r: "ybuf_ok (st\<lparr>uart_recv_buf_index := i\<rparr>)" if "i < 1029" for i using ybuf_index [OF ok that] .
  have r2: "turn_ok pc (map_option f (uart_recvbytetimeout st))"
    if "\<And>i b. i < 1029 \<Longrightarrow> turn_ok pc (Some (f (st\<lparr>uart_recv_buf_index := i\<rparr>, b)))" for f
    using recv_ok [OF ok] that by auto
  note keep = ok [unfolded ybuf_ok_def]
  show ?thesis
  proof (cases pc)
    case Calling
    have "ybuf_ok ((uart_sendbyte b st)\<lparr>send_count := n\<rparr>)" for b n using keep by (auto simp: ybuf_ok_def uart_sendbyte_def)
    then show ?thesis using Calling ok by (simp add: Let_def turn_ok_def reads_at_def leave_def exit_ok)
  next
    case Testing
    then show ?thesis using keep by (auto simp: turn_ok_def reads_at_def ybuf_ok_def)
  next
    case Giving
    then show ?thesis using keep by (auto simp: turn_ok_def reads_at_def ybuf_ok_def)
  next
    case Taking
    then show ?thesis using keep by (auto simp: turn_ok_def reads_at_def ybuf_ok_def)
  next
    case (Polling t)
    then show ?thesis using ok by (auto simp: turn_ok_def reads_at_def)
  next
    case Header
    have x: "ybuf_ok (st\<lparr>uart_recv_buf_index := i, len := n\<rparr>)" "ybuf_ok (st\<lparr>uart_recv_buf_index := i, can_counter := m\<rparr>)"
      "ybuf_ok (st\<lparr>uart_recv_buf_index := i, eot_counter := m\<rparr>)" if "i < 1029" "n \<in> {128, 1024}" for i n m
      using that keep by (auto simp: ybuf_ok_def)
    have n: "reads_at pc = None" using Header by (simp add: reads_at_def)
    show ?thesis unfolding Header yturn.simps
    proof (rule recv_turn [OF ok])
      fix i b assume i: "i < (1029 :: nat)"
      note y = x [OF i, of 1024] x(1) [OF i, of 128]
      show "turn_ok Header (case (st\<lparr>uart_recv_buf_index := i\<rparr>, b) of (st, ch) \<Rightarrow>
          Some (if ch = MODEM_SOH then (Blk, st\<lparr>len := 128\<rparr>)
            else if ch = MODEM_STX then (Blk, st\<lparr>len := 1024\<rparr>)
            else if ch = MODEM_CAN then
              let st = st\<lparr>can_counter := can_counter st + 1\<rparr>
              in if can_counter st \<ge> MODEM_CAN_COUNT then leave d 1 False st else (Blk, st)
            else if ch = MODEM_EOT then
              let st = st\<lparr>eot_counter := eot_counter st + 1\<rparr>
              in (if eot_counter st \<ge> MODEM_EOT_COUNT then
                   let st = uart_sendbyte MODEM_ACK st;
                       st = (if modemtype st = 2
                         then modem_cancle (uart_sendbyte MODEM_C (uart_sendbyte MODEM_ACK (uart_sendbyte MODEM_C st))) else st)
                   in leave d 0 True st
                 else (Taking, uart_sendbyte MODEM_C (uart_sendbyte MODEM_ACK st)))
            else leave d 1 False st))"
        unfolding prod.case Let_def using y r [OF i] Header
        by (auto simp: turn_ok_def reads_at_def leave_def exit_ok send_ok modem_cancle_def)
    qed
  next
    case Blk
    then show ?thesis using r2 r by (simp add: turn_ok_def reads_at_def)
  next
    case (Cblk blk)
    have "turn_ok pc (Option.bind (uart_recvbytetimeout st) (\<lambda>(st, cblk). Some (if unat blk + unat cblk \<noteq> 0xff then leave d 2 False st
       else if nxt_num st = 0 \<and> first_time st then (Name 3 [], st) else (Copy 0, st))))"
      using r Cblk by (intro recv_turn [OF ok]) (auto simp: turn_ok_def reads_at_def leave_def exit_ok)
    then show ?thesis using Cblk by simp
  next
    case (Name i nm)
    then show ?thesis using read_ok [OF ok, of pc i "\<lambda>c. if c = 0 then (Blanks (i + 1), st\<lparr>filename := nm @ [0]\<rparr>) else (Name (i + 1) (nm @ [c]), st)"] keep
      by (simp add: reads_at_def ybuf_ok_def)
  next
    case (Blanks i)
    then show ?thesis using read_ok [OF ok, of pc i "\<lambda>c. if c = 0x20 then (Blanks (i + 1), st) else (Size i, st)"] ok by (simp add: reads_at_def)
  next
    case (Size i)
    then show ?thesis using read_ok [OF ok, of pc i "\<lambda>c. (if c = 0x30 then Size_x i else Digits 10 0 i, st)"] ok by (simp add: reads_at_def)
  next
    case (Size_x i)
    then show ?thesis
      using read_ok [OF ok, of pc "i + 1" "\<lambda>c. (if c = 0x78 \<and> c = 0x58 then Digits 16 0 (i + 2) else Digits 10 0 i, st)"] ok
      by (simp add: reads_at_def)
  next
    case (Digits base result i)
    have "ybuf_ok (st\<lparr>filelen := n\<rparr>)" for n using keep by (simp add: ybuf_ok_def)
    then have "ybuf_ok (snd (case x of Some r \<Rightarrow> (Digits base r (i + 1), st) | None \<Rightarrow> (Copy 0, st\<lparr>filelen := u32 result\<rparr>)))
        \<and> position_ok (fst (case x of Some r \<Rightarrow> (Digits base r (i + 1), st) | None \<Rightarrow> (Copy 0, st\<lparr>filelen := u32 result\<rparr>)))
            (snd (case x of Some r \<Rightarrow> (Digits base r (i + 1), st) | None \<Rightarrow> (Copy 0, st\<lparr>filelen := u32 result\<rparr>)))" for x
      using ok by (cases x) simp_all
    then show ?thesis unfolding Digits yturn.simps by (intro read_ok [OF ok]) (simp_all add: reads_at_def)
  next
    case (Copy i)
    have l: "len st \<le> 1024" using keep by auto
    show ?thesis
    proof (cases "i < len st")
      case True
      obtain j b where j: "uart_recvbytetimeout st = Some (st\<lparr>uart_recv_buf_index := j\<rparr>, b)" "j < 1029" using recv_ok [OF ok] by blast
      show ?thesis using Copy True l j keep by (simp add: turn_ok_def reads_at_def ybuf_ok_def)
    next
      case False
      then show ?thesis using Copy ok by (simp add: turn_ok_def reads_at_def)
    qed
  next
    case Write
    obtain s where s: "data_write_to_flash d st = Some s" "ybuf_ok s" using data_write_ok [OF ok] by blast
    have "ybuf_ok (s\<lparr>first_time := False\<rparr>)" using s(2) by (simp add: ybuf_ok_def)
    then show ?thesis using Write s ok by (simp add: turn_ok_def reads_at_def)
  next
    case Crch
    then show ?thesis using r2 r by (simp add: turn_ok_def reads_at_def)
  next
    case (Crcl crch)
    obtain s b where s: "(if crc_mode st \<noteq> 0 then uart_recvbytetimeout st else Some (st, 0)) = Some (s, b)" "ybuf_ok s"
      using recv_ok [OF ok] r ok by (cases "crc_mode st = 0") auto
    obtain s' k where v: "crc_verdict crch b s = Some (s', k)" "ybuf_ok s'" using crc_verdict_ok [OF s(2)] by blast
    have "ybuf_ok (s'\<lparr>nxt_num := n, rec_err := 0\<rparr>)" for n using v(2) by (simp add: ybuf_ok_def)
    then show ?thesis unfolding Crcl yturn.simps s(1) Option.bind_lunit prod.case v(1)
      using v(2) by (auto simp: turn_ok_def reads_at_def leave_def exit_ok)
  next
    case Round
    then show ?thesis using ok by (simp add: turn_ok_def reads_at_def)
  next
    case (Clear i)
    then show ?thesis using keep by (auto simp: turn_ok_def reads_at_def ybuf_ok_def)
  next
    case Restart
    then show ?thesis using keep by (auto simp: turn_ok_def reads_at_def ybuf_ok_def)
  next
    case Answer
    then show ?thesis using answer_ok [OF ok] by (simp add: turn_ok_def reads_at_def leave_def exit_ok)
  qed (use ok in \<open>simp_all add: turn_ok_def reads_at_def\<close>)
qed

lemma steps_ok:
  assumes "yreach d s s'" "ybuf_ok (snd s)" "position_ok (fst s) (snd s)"
  shows "ybuf_ok (snd s') \<and> position_ok (fst s') (snd s')"
  using assms
proof (induction rule: rtranclp_induct)
  case (step y z)
  obtain pc st where y: "y = (pc, st)" by (cases y)
  have ok: "ybuf_ok st" "position_ok pc st" using step.IH step.prems y by simp_all
  from step.hyps(2) show ?case
  proof (cases rule: ystep.cases)
    case (rx pc' b st0 st')
    then have z: "z = (pc, st')" and i: "uarty_irq b st = Some st'" using y by (auto simp: yirq_def split: if_splits)
    then have "len st' = len st" by (auto simp: irq_eq Let_def split: if_splits)
    then have "position_ok pc st'" using ok(2) by (cases pc) simp_all
    then show ?thesis using irq_ok [OF ok(1), of b] i z by simp
  next
    case (tick pc' st0)
    then have z: "z = (pc, st\<lparr>tick := add32 (tick st) 1\<rparr>)" using y by simp
    have "position_ok pc (st\<lparr>tick := add32 (tick st) 1\<rparr>)" using ok(2) by (cases pc) simp_all
    then show ?thesis using ok(1) z by (simp add: ybuf_ok_def)
  next
    case (turn pc' st0)
    then show ?thesis using yturn_ok [OF ok, of d] y by (cases z) (simp add: turn_ok_def)
  qed
qed simp

text \<open>C32: Whatever bytes arrive and whenever, between any two actions of the thread, the interrupt and the thread stay within the two buffers, the length of
  a block never exceeds them, and the flash driver is called with complete blocks at aligned addresses. There are two exceptions, and the
  theorem says exactly when they happen: while the thread reads the file name, or the blanks or digits behind it, out of the
  first packet, it runs off the receive buffer if they do not end there; and between the deletion of the semaphore and the
  end of the interrupts, when the thread ends, a byte that would give the semaphore gives the deleted one. (The static offset is a multiple of four when the
  update starts.)\<close>

theorem ymodem_buffers_safe:
  assumes "yreach d (Calling, uart_ymodem st0) (pc, st)" and "length (uart_irq_buf st0) = 1029" and "length (uart_rcv_buf st0) = 1029"
    and "offset st0 mod 4 = 0"
  shows "ybuf_ok st \<and> (yirq b pc st = None \<longleftrightarrow> pc = Free_serial \<and> uart_recv_index st = 0)
    \<and> (yturn d pc st = None \<longleftrightarrow> (\<exists>i. reads_at pc = Some i \<and> 1029 \<le> i))"
proof -
  have "ybuf_ok (uart_ymodem st0)" using assms(2-4) by (simp add: ybuf_ok_def uart_ymodem_def uart_init_def uart_ymodem_init_def)
  then have s: "ybuf_ok st" "position_ok pc st" using steps_ok [OF assms(1)] by simp_all
  have "yirq b pc st = None \<longleftrightarrow> pc = Free_serial \<and> uart_recv_index st = 0"
    using irq_ok [OF s(1), of b] by (auto simp: yirq_def)
  then show ?thesis using s(1) yturn_ok [OF s, of d] by (auto simp: turn_ok_def split: option.splits)
qed

text \<open>A run: three bytes arrive while the thread calls, it leaves its first loop, and after 50 ticks it takes a whole turn.\<close>

theorem ymodem_buffers_safe_witness:
  "\<exists>st'. yreach nor_and (Calling, uart_ymodem sample) (resume st')
    \<and> ybuf_ok st' \<and> yirq 1 (fst (resume st')) st' \<noteq> None"
proof -
  let ?s0 = "uart_ymodem sample"
  define s1 where "s1 = ?s0\<lparr>uart_irq_buf := (uart_irq_buf ?s0)[0 := 2], uart_recv_index := 1, tick_last_update := 0, uart_rx_sema := 1\<rparr>"
  define s2 where "s2 = s1\<lparr>uart_irq_buf := (uart_irq_buf s1)[1 := 0], uart_recv_index := 2\<rparr>"
  define s3 where "s3 = s2\<lparr>uart_irq_buf := (uart_irq_buf s2)[2 := 0xFF], uart_recv_index := 3\<rparr>"
  have i: "uarty_irq 2 ?s0 = Some s1" "uarty_irq 0 s1 = Some s2" "uarty_irq 0xFF s2 = Some s3"
    by (simp_all add: irq_eq s1_def s2_def s3_def uart_ymodem_def uart_init_def uart_ymodem_init_def sample_def)
  have rx: "ystep nor_and (Calling, a) (Calling, b)" if "uarty_irq x a = Some b" for x a b
    using that by (intro ystep.rx) (auto simp: yirq_def)
  have 1: "yreach nor_and (Calling, ?s0) (Calling, s3)"
    using rx [OF i(1)] rx [OF i(2)] rx [OF i(3)] by (meson r_into_rtranclp rtranclp_trans)
  have p: "phase s3 = Waiting" "uart_rx_sema s3 = 1" "send_count s3 = 0" "tick s3 = 0" "tick_last_update s3 = 0" "length (uart_irq_buf s3) = 1029"
    by (simp_all add: s3_def s2_def s1_def uart_ymodem_def uart_init_def uart_ymodem_init_def sample_def)
  define s4 where "s4 = ymodem_wait nor_and s3"
  have q: "phase s4 = Running" "uart_rx_sema s4 = 1" "tick s4 = 0" "tick_last_update s4 = 0" "uart_irq_buf s4 = uart_irq_buf s3"
    using p by (simp_all add: s4_def ymodem_wait_def uart_sendbyte_def Let_def)
  have 2: "yreach nor_and (Calling, s3) (Taking, s4)"
    using yreach_wait [of s3 nor_and] p(1,2) q(1) by (simp add: s4_def [symmetric] resume_def)
  let ?s5 = "s4\<lparr>tick := add32 (tick s4) 50\<rparr>"
  have 3: "yreach nor_and (Taking, s4) (Taking, ?s5)" using tick_steps [of nor_and Taking s4 50] by simp
  have run: "yreach nor_and (Calling, ?s0) (Taking, ?s5)" using 1 2 3 by (meson rtranclp_trans)
  have l0: "length (uart_irq_buf sample) = 1029" "length (uart_rcv_buf sample) = 1029" "offset sample mod 4 = 0"
    by (simp_all add: sample_def)
  have ok5: "ybuf_ok ?s5" using ymodem_buffers_safe [OF run l0, of 1] by blast
  have irq5: "drop 3 (uart_irq_buf ?s5) = replicate 1026 0"
    using q(5) by (simp add: s3_def s2_def s1_def uart_ymodem_def uart_init_def uart_ymodem_init_def sample_def)
  have "replicate 1026 (0 :: u8) = 0 # 0 # replicate 1024 0" by (simp add: numeral_eq_Suc)
  then have "calc_file_name_size ?s5 \<noteq> None"
    unfolding calc_file_name_size_def irq5 by (simp add: buf_filelen_def rd_def file_digit_def)
  then obtain st' where st': "ymodem_round nor_and ?s5 = Some st'" using round_ok [OF ok5, of nor_and] by (auto split: option.splits)
  have "yreach nor_and (Taking, ?s5) (resume st')"
    using st' q p(6) by (intro yreach_round) simp_all
  then have r: "yreach nor_and (Calling, ?s0) (resume st')" using run by (meson rtranclp_trans)
  have "fst (resume st') \<noteq> Free_serial" by (simp add: resume_def)
  moreover have "yreach nor_and (Calling, ?s0) (fst (resume st'), st')" using r by (simp add: resume_def)
  ultimately have "ybuf_ok st'" "yirq 1 (fst (resume st')) st' \<noteq> None" using ymodem_buffers_safe [OF _ l0, of nor_and "fst (resume st')" st' 1] by blast+
  then show ?thesis using r by blast
qed

end
