(* ===== verification/Printf.thy ===== *)
theory Printf
  imports XmlStr
begin

text \<open>
  The formatted output of \<open>common/api/platform/stdlib_patch.c\<close>: \<open>VSprintfPatch\<close> with its callers and
  \<open>DiagSnPrintfPatch\<close>. The format is a string, its final zero left out; the variable arguments,
  which the code walks as an array of words, are a list. What C leaves undefined gives \<open>None\<close>: a
  write outside the buffer or outside \<open>tmp[20]\<close>, a shift by more than 31 bits, the negation of the
  least integer, a missing argument, and a format that ends within a conversion (the loop steps over the final zero).
\<close>

datatype arg = Word "32 word" | Ptr string

fun pop_word :: "arg list \<Rightarrow> (32 word \<times> arg list) option" where
  "pop_word (Word w # args) = Some (w, args)"
| "pop_word _ = None"

fun pop_ptr :: "arg list \<Rightarrow> (string \<times> arg list) option" where
  "pop_ptr (Ptr s # args) = Some (s, args)"
| "pop_ptr _ = None"

text \<open>The value of \<open>shift\<close> by the size of the next argument, a signed \<open>long\<close>. Where there is none the value is not
  used.\<close>

definition value_shift :: "int \<Rightarrow> int" where
  "value_shift v =
     (if v < 0x10 then 0 else if v < 0x100 then 4 else if v < 0x1000 then 8 else if v < 0x10000 then 12
      else if v < 0x100000 then 16 else if v < 0x1000000 then 20 else if v < 0x10000000 then 24 else 28)"

definition first_shift :: "arg list \<Rightarrow> int" where
  "first_shift args = (case args of Word w # _ \<Rightarrow> value_shift (sint w) | _ \<Rightarrow> 0)"

definition is_digit :: "char \<Rightarrow> bool" where
  "is_digit c \<longleftrightarrow> 48 \<le> (of_char c :: nat) \<and> (of_char c :: nat) \<le> 57"

fun width_loop :: "int \<Rightarrow> string \<Rightarrow> int \<times> string" where
  "width_loop w [] = (w, [])"
| "width_loop w (c # cs) = (if is_digit c then width_loop (w * 10 + of_char c - 48) cs else (w, c # cs))"

section \<open>Hexadecimal\<close>

fun hex_count :: "nat \<Rightarrow> nat" where
  "hex_count h = (if h = 0 then 0 else (if h mod 16 \<noteq> 0 then 1 else 0) + hex_count (h div 16))"

text \<open>\<open>c | ncase\<close>, where \<open>ncase\<close> is bit 5 of the conversion character.\<close>

definition or_case :: "char \<Rightarrow> char \<Rightarrow> char" where
  "or_case x c = char_of ((of_char c :: nat) OR ((of_char x :: nat) AND 0x20))"

definition hex_char :: "char \<Rightarrow> 32 word \<Rightarrow> nat \<Rightarrow> char" where
  "hex_char x h shift = or_case x (''0123456789ABCDEF'' ! unat (signed_drop_bit shift h AND 0xF))"

fun emit_hex :: "char \<Rightarrow> 32 word \<Rightarrow> nat \<Rightarrow> string" where
  "emit_hex x h 0 = [hex_char x h 0]"
| "emit_hex x h (Suc k) = hex_char x h (4 * Suc k) # emit_hex x h k"

definition item_hex :: "char \<Rightarrow> int \<Rightarrow> 32 word \<Rightarrow> string option" where
  "item_hex x shift h = (
     let alt = (if x = CHR ''p'' \<or> x = CHR ''P'' then [CHR ''0'', or_case x CHR ''X''] else []);
         n = 4 * (int (hex_count (unat h)) - 1);
         shift = (if shift < n then n else shift)
     in if shift \<ge> 32 then None
        else Some (alt @ (if shift \<ge> 0 then emit_hex x h (nat shift div 4) else [])))"

section \<open>Decimal\<close>

fun dec_digits :: "nat \<Rightarrow> string" where
  "dec_digits i = char_of (48 + i mod 10) # (if i div 10 = 0 then [] else dec_digits (i div 10))"

fun pad_loop :: "nat \<Rightarrow> int \<Rightarrow> string" where
  "pad_loop 0 digit_space = []"
| "pad_loop (Suc k) digit_space = (if digit_space > 0 then [] else [CHR ''0'']) @ pad_loop k (digit_space - 1)"

text \<open>The digits are written backwards, then the zeros, and both are reversed in place.\<close>

definition item_dec :: "int \<Rightarrow> 32 word \<Rightarrow> string option" where
  "item_dec shift w = (
     let i = sint w; sign = (if i < 0 then ''-'' else []); digits = dec_digits (nat (abs i));
         slots = (if shift \<ge> 0 then nat shift div 4 + 1 else 0)
     in if i = - (2 ^ 31) then None
        else Some (sign @ rev (digits @ pad_loop slots (int (length sign + length digits)))))"

section \<open>A conversion\<close>

definition fmt_item :: "string \<Rightarrow> arg list \<Rightarrow> (string \<times> string \<times> arg list) option" where
  "fmt_item f args = (
     let (shift, f) = (if f \<noteq> [] \<and> is_digit (hd f)
           then let (width, g) = width_loop 0 f in ((width - 1) * 4, g) else (first_shift args, f))
     in case f of [] \<Rightarrow> None
        | x # rest \<Rightarrow> do {
            (item, args) \<leftarrow>
              (if x \<in> {CHR ''x'', CHR ''X'', CHR ''p'', CHR ''P''} then do {
                 (h, args) \<leftarrow> pop_word args;
                 item \<leftarrow> item_hex x shift h;
                 Some (item, args)
               } else if x = CHR ''d'' then do {
                 (i, args) \<leftarrow> pop_word args;
                 item \<leftarrow> item_dec shift i;
                 Some (item, args)
               } else if x = CHR ''c'' then do {
                 (c, args) \<leftarrow> pop_word args;
                 Some ([char_of (unat c)], args)
               } else Some ([x], args));
            if length item \<le> 20 then Some (item, rest, args) else None
          })"

lemma width_loop_length: "width_loop w f = (w', g) \<Longrightarrow> length g \<le> length f"
  by (induction f arbitrary: w) (auto split: if_splits intro: le_SucI)

lemma fmt_item_length: "fmt_item f args = Some (item, rest, args') \<Longrightarrow> length rest < length f"
  unfolding fmt_item_def Let_def using width_loop_length [of 0 f]
  by (auto split: if_splits list.splits bind_splits prod.splits)

section \<open>VSprintfPatch\<close>

text \<open>The buffer, if there is one, with its capacity, and the characters sent to the serial line.\<close>

record pr =
  bufr :: string
  line :: string

definition put_char :: "nat option \<Rightarrow> char \<Rightarrow> pr \<Rightarrow> pr option" where
  "put_char buf c st = (case buf of
       Some cap \<Rightarrow> if length (bufr st) < cap then Some (st\<lparr>bufr := bufr st @ [c]\<rparr>) else None
     | None \<Rightarrow> Some (st\<lparr>line := line st @ [c]\<rparr>))"

fun put_string :: "nat option \<Rightarrow> string \<Rightarrow> pr \<Rightarrow> pr option" where
  "put_string buf [] st = Some st"
| "put_string buf (c # cs) st = do { st \<leftarrow> put_char buf c st; put_string buf cs st }"

fun put_item :: "nat option \<Rightarrow> string \<Rightarrow> pr \<Rightarrow> pr option" where
  "put_item buf [] st = Some st"
| "put_item buf (c # cs) st = do {
     st \<leftarrow> put_char buf c st;
     put_item buf cs (if c = CHR 0x0A then st\<lparr>line := line st @ [CHR 0x0D]\<rparr> else st)
   }"

function vs_loop :: "nat option \<Rightarrow> string \<Rightarrow> arg list \<Rightarrow> pr \<Rightarrow> pr option" where
  "vs_loop buf [] args st = Some st"
| "vs_loop buf (c # f) args st =
     (if c \<noteq> CHR ''%'' then
        (case put_char buf c st of None \<Rightarrow> None | Some st \<Rightarrow> vs_loop buf f args st)
      else if f \<noteq> [] \<and> hd f = CHR ''s'' then
        (case pop_ptr args of None \<Rightarrow> None
         | Some (p, args) \<Rightarrow> (case put_string buf p st of None \<Rightarrow> None | Some st \<Rightarrow> vs_loop buf (tl f) args st))
      else
        (case fmt_item f args of None \<Rightarrow> None
         | Some (item, rest, args) \<Rightarrow> (case put_item buf item st of None \<Rightarrow> None | Some st \<Rightarrow> vs_loop buf rest args st)))"
  by pat_completeness auto
termination by (relation "measure (\<lambda>(buf, f, args, st). length f)") (auto dest: fmt_item_length)

definition VSprintfPatch :: "nat option \<Rightarrow> string \<Rightarrow> arg list \<Rightarrow> string \<Rightarrow> (pr \<times> nat) option" where
  "VSprintfPatch buf fmt dp l = do {
     st \<leftarrow> vs_loop buf fmt dp \<lparr>bufr = [], line = l\<rparr>;
     (case buf of
        Some cap \<Rightarrow> if length (bufr st) < cap then Some (st, length (bufr st)) else None
      | None \<Rightarrow> Some (st, 0))
   }"

definition DiagPrintfPatch :: "string \<Rightarrow> arg list \<Rightarrow> string \<Rightarrow> (pr \<times> nat) option" where
  "DiagPrintfPatch fmt args l = map_option (\<lambda>(st, _). (st, 1)) (VSprintfPatch None fmt args l)"

definition DiagSPrintfPatch :: "nat \<Rightarrow> string \<Rightarrow> arg list \<Rightarrow> string \<Rightarrow> (pr \<times> nat) option" where
  "DiagSPrintfPatch cap fmt args l = map_option (\<lambda>(st, _). (st, 1)) (VSprintfPatch (Some cap) fmt args l)"

section \<open>DiagSnPrintfPatch\<close>

text \<open>Characters into a buffer of \<open>cap\<close> bytes, up to \<open>sz\<close> (\<open>size\<close>) of them (0: no limit); the flag is the jump to
  \<open>Exit\<close>.\<close>

fun sn_put :: "nat \<Rightarrow> nat \<Rightarrow> string \<Rightarrow> string \<Rightarrow> (string \<times> bool) option" where
  "sn_put cap sz [] s = Some (s, False)"
| "sn_put cap sz (c # cs) s =
     (if length s < cap then
        let s = s @ [c] in if sz \<noteq> 0 \<and> length s \<ge> sz then Some (s, True) else sn_put cap sz cs s
      else None)"

function sn_loop :: "nat \<Rightarrow> nat \<Rightarrow> string \<Rightarrow> arg list \<Rightarrow> string \<Rightarrow> string option" where
  "sn_loop cap sz [] args s = Some s"
| "sn_loop cap sz (c # f) args s =
     (if c \<noteq> CHR ''%'' then
        (case sn_put cap sz [c] s of None \<Rightarrow> None
         | Some (s, ex) \<Rightarrow> if ex then Some s else sn_loop cap sz f args s)
      else if f \<noteq> [] \<and> hd f = CHR ''s'' then
        (case pop_ptr args of None \<Rightarrow> None
         | Some (p, args) \<Rightarrow> (case sn_put cap sz p s of None \<Rightarrow> None
             | Some (s, ex) \<Rightarrow> if ex then Some s else sn_loop cap sz (tl f) args s))
      else
        (case fmt_item f args of None \<Rightarrow> None
         | Some (item, rest, args) \<Rightarrow> (case sn_put cap sz item s of None \<Rightarrow> None
             | Some (s, ex) \<Rightarrow> if ex then Some s else sn_loop cap sz rest args s)))"
  by pat_completeness auto
termination by (relation "measure (\<lambda>(cap, sz, f, args, s). length f)") (auto dest: fmt_item_length)

text \<open>\<open>buf\<close> is the null pointer or a buffer with its real capacity; the result is what the buffer holds up to the zero,
  and the value returned.\<close>

definition DiagSnPrintfPatch :: "nat option \<Rightarrow> nat \<Rightarrow> string \<Rightarrow> arg list \<Rightarrow> (string \<times> nat) option" where
  "DiagSnPrintfPatch buf sz fmt args = (case buf of None \<Rightarrow> Some ([], 0)
     | Some cap \<Rightarrow> do {
         s \<leftarrow> sn_loop cap sz fmt args [];
         if length s < cap then Some (s, length s) else None
       })"

declare hex_count.simps [simp del] dec_digits.simps [simp del]

end
