(* ===== verification/Scanf.thy ===== *)
theory Scanf
  imports Printf
begin

text \<open>
  The scanning half of \<open>common/api/platform/stdlib_patch.c\<close>: \<open>DiagStrtokPatch\<close>, \<open>DiagStrstrPatch\<close> and
  \<open>DiagSscanfPatch\<close>.

  The scanned memory is the list of its bytes, the zeros included, and a pointer into it an index; a format, which
  is only read, is the list of its characters before the zero. A read or write outside memory, and a write behind the 20
  bytes of \<open>str_store\<close>, is the result \<open>None\<close>. \<open>_parse_integer\<close>, \<open>_parse_integer_fixup_radix\<close>,
  \<open>skip_spaces\<close> and \<open>skip_atoi\<close> are in the boot ROM and are parameters.
\<close>

definition nul :: char where "nul = CHR 0x00"

definition rd :: "char list \<Rightarrow> nat \<Rightarrow> char option" where
  "rd mem i = (if i < length mem then Some (mem ! i) else None)"

section \<open>DiagStrtokPatch\<close>

text \<open>The outer loop, at position \<open>b\<close>: the token starts at \<open>ret\<close>; the result is the token, the memory and
  \<open>_buffer\<close>. A delimiter is looked up in the inner loop: after a match the byte is zero and cannot match again.\<close>

function strtok_loop :: "string \<Rightarrow> char list \<Rightarrow> nat \<Rightarrow> nat \<Rightarrow> nat \<Rightarrow> (nat \<times> char list \<times> nat) option" where
  "strtok_loop delim mem ret b buffer =
     (if b \<ge> length mem then None
      else if mem ! b = nul then Some (ret, mem, buffer)
      else if mem ! b \<in> set delim then
        (let mem = mem[b := nul] in
         if b = ret then strtok_loop delim mem (ret + 1) (b + 1) (b + 1) else Some (ret, mem, b + 1))
      else strtok_loop delim mem ret (b + 1) buffer)"
  by pat_completeness auto
termination by (relation "measure (\<lambda>(delim, mem, ret, b, buffer). length mem - b)") auto

declare strtok_loop.simps [simp del]

text \<open>\<open>_buffer\<close> is \<open>None\<close> until the first call; the result is the pointer returned, the memory and
  \<open>_buffer\<close>.\<close>

definition DiagStrtokPatch ::
  "nat option \<Rightarrow> string \<Rightarrow> char list \<Rightarrow> nat option \<Rightarrow> (nat option \<times> char list \<times> nat option) option" where
  "DiagStrtokPatch str delim mem buffer = do {
     b \<leftarrow> (if str \<noteq> None then str else buffer);
     c \<leftarrow> rd mem b;
     if c = nul then Some (None, mem, Some b)
     else do { (ret, mem, b) \<leftarrow> strtok_loop delim mem b b b; Some (Some ret, mem, Some b) }
   }"

section \<open>DiagStrstrPatch\<close>

text \<open>The comparison from a position on: whether the substring ends before a difference; the end of the string is a
  difference, too.\<close>

fun match_at :: "string \<Rightarrow> string \<Rightarrow> bool" where
  "match_at a [] = True"
| "match_at [] (b # bs) = False"
| "match_at (a # as) (b # bs) = (if a \<noteq> b then False else match_at as bs)"

fun find_sub :: "string \<Rightarrow> string \<Rightarrow> nat option" where
  "find_sub [] sub = None"
| "find_sub (c # s) sub =
     (if c \<noteq> hd sub then map_option Suc (find_sub s sub)
      else if match_at (c # s) sub then Some 0
      else map_option Suc (find_sub s sub))"

definition DiagStrstrPatch :: "string \<Rightarrow> string \<Rightarrow> nat option" where
  "DiagStrstrPatch s sub = (if sub = [] then Some 0 else find_sub s sub)"

section \<open>DiagSscanfPatch\<close>

text \<open>The ROM routines: how many characters \<open>skip_spaces\<close> steps over; the value \<open>skip_atoi\<close> reads and the
  characters it takes; the value \<open>_parse_integer\<close> stores; the characters of a prefix such as \<open>0x\<close> and the base.\<close>

record rom =
  skip_spaces :: "char list \<Rightarrow> nat"
  skip_atoi :: "char list \<Rightarrow> int \<times> nat"
  parse_integer :: "char list \<Rightarrow> nat \<Rightarrow> 64 word"
  fixup_radix :: "char list \<Rightarrow> nat \<Rightarrow> nat \<times> nat"

text \<open>What a conversion stores: an integer of a width in bits, or characters.\<close>

datatype scanned = Int_of nat "64 word" | Chars string

definition is_space :: "char \<Rightarrow> bool" where
  "is_space c \<longleftrightarrow> c \<in> {CHR '' '', CHR 0x0C, CHR 0x0A, CHR 0x0D, CHR 0x09, CHR 0x0B, CHR '',''}"

definition is_xdigit :: "char \<Rightarrow> bool" where
  "is_xdigit c \<longleftrightarrow> is_digit c \<or> c \<in> set ''abcdefABCDEF''"

text \<open>\<open>_tolower\<close> sets bit 5, so that it is the letter exactly for its two cases.\<close>

definition is_l :: "char \<Rightarrow> bool" where "is_l c \<longleftrightarrow> c \<in> set ''lL''"
definition is_z :: "char \<Rightarrow> bool" where "is_z c \<longleftrightarrow> c \<in> set ''zZ''"

definition simple_strtoull_patch :: "rom \<Rightarrow> char list \<Rightarrow> nat \<Rightarrow> 64 word" where
  "simple_strtoull_patch R cp base = (let (k, base) = fixup_radix R cp base in parse_integer R (drop k cp) base)"

definition simple_strtoll_patch :: "rom \<Rightarrow> char list \<Rightarrow> nat \<Rightarrow> 64 word" where
  "simple_strtoll_patch R cp base =
     (if hd cp = CHR ''-'' then - simple_strtoull_patch R (tl cp) base else simple_strtoull_patch R cp base)"

definition simple_strtoul_patch :: "rom \<Rightarrow> char list \<Rightarrow> nat \<Rightarrow> 32 word" where
  "simple_strtoul_patch R cp base = ucast (simple_strtoull_patch R cp base)"

definition simple_strtol_patch :: "rom \<Rightarrow> char list \<Rightarrow> nat \<Rightarrow> 32 word" where
  "simple_strtol_patch R cp base =
     (if hd cp = CHR ''-'' then - simple_strtoul_patch R (tl cp) base else simple_strtoul_patch R cp base)"

function judge_digit_width :: "char list \<Rightarrow> nat \<Rightarrow> nat option" where
  "judge_digit_width mem i =
     (if i \<ge> length mem then None
      else if is_digit (mem ! i) then map_option Suc (judge_digit_width mem (i + 1)) else Some 0)"
  by pat_completeness auto
termination by (relation "measure (\<lambda>(mem, i). length mem - i)") auto

declare judge_digit_width.simps [simp del]

text \<open>\<open>%c\<close>, with \<open>field_width\<close> positive: at least one character, none behind the end of the text.\<close>

fun copy_chars :: "char list \<Rightarrow> nat \<Rightarrow> nat \<Rightarrow> (string \<times> nat) option" where
  "copy_chars mem i 0 = Some ([], i)"
| "copy_chars mem i (Suc w) = do {
     c \<leftarrow> rd mem i;
     if w = 0 then Some ([c], i + 1) else do {
       c' \<leftarrow> rd mem (i + 1);
       if c' = nul then Some ([c], i + 1)
       else do { (s, j) \<leftarrow> copy_chars mem (i + 1) w; Some (c # s, j) }
     }
   }"

text \<open>\<open>%s\<close>: up to a space, the end or the width.\<close>

fun copy_word :: "char list \<Rightarrow> nat \<Rightarrow> nat \<Rightarrow> (string \<times> nat) option" where
  "copy_word mem i 0 = do { c \<leftarrow> rd mem i; Some ([], i) }"
| "copy_word mem i (Suc w) = do {
     c \<leftarrow> rd mem i;
     if c = nul \<or> is_space c then Some ([], i)
     else do { (s, j) \<leftarrow> copy_word mem (i + 1) w; Some (c # s, j) }
   }"

text \<open>An integer conversion: the outer \<open>None\<close> is undefined behaviour, the inner one leaves the loop. The text of the
  number is copied to \<open>str_store\<close>, which holds zeros before and after, and read from there; the loop on
  \<open>next - str > field_width\<close> never runs, for \<open>next\<close> is \<open>str + field_width\<close>. Twenty bytes without a zero
  are not a string.\<close>

definition s16 :: "int \<Rightarrow> int" where "s16 v = sint (word_of_int v :: 16 word)"

definition bad_digit :: "nat \<Rightarrow> char \<Rightarrow> bool" where
  "bad_digit base digit \<longleftrightarrow> digit = nul \<or> (base = 16 \<and> \<not> is_xdigit digit) \<or> (base = 10 \<and> \<not> is_digit digit)
     \<or> (base = 8 \<and> (\<not> is_digit digit \<or> of_char digit > (55 :: nat))) \<or> (base = 0 \<and> \<not> is_digit digit)"

definition scan_value :: "rom \<Rightarrow> bool \<Rightarrow> char \<Rightarrow> char list \<Rightarrow> nat \<Rightarrow> 64 word" where
  "scan_value R is_sign qualifier str_store base =
     (if is_sign then
        (if qualifier \<noteq> CHR ''L'' then scast (simple_strtol_patch R str_store base) else simple_strtoll_patch R str_store base)
      else (if qualifier \<noteq> CHR ''L'' then ucast (simple_strtoul_patch R str_store base) else simple_strtoull_patch R str_store base))"

definition stored_bits :: "char \<Rightarrow> nat" where
  "stored_bits qualifier = (if qualifier = CHR ''H'' then 8 else if qualifier = CHR ''h'' then 16
     else if qualifier = CHR ''L'' then 64 else 32)"

type_synonym scan_step = "(nat \<times> nat \<times> scanned list) option"

definition scan_int :: "rom \<Rightarrow> char list \<Rightarrow> nat \<Rightarrow> bool \<Rightarrow> nat \<Rightarrow> int \<Rightarrow> char \<Rightarrow> scan_step option" where
  "scan_int R mem i is_sign base field_width qualifier = do {
     let i = i + skip_spaces R (drop i mem);
     d \<leftarrow> rd mem i;
     digit \<leftarrow> (if is_sign \<and> d = CHR ''-'' then rd mem (i + 1) else Some d);
     if bad_digit base digit then Some None
     else do {
       w \<leftarrow> (if field_width \<le> 0 then map_option (\<lambda>n. s16 (int n)) (judge_digit_width mem i) else Some field_width);
       let str_store = take (nat w) (drop i mem) @ replicate (20 - nat w) nul;
       if w > 20 \<or> i + nat w > length mem \<or> int i + w < 0 \<or> nul \<notin> set str_store then None
       else Some (Some (nat (int i + w), 1,
              [Int_of (stored_bits qualifier) (take_bit (stored_bits qualifier) (scan_value R is_sign qualifier str_store base))]))
     }
   }"

definition scan_type :: "rom \<Rightarrow> char list \<Rightarrow> char \<Rightarrow> nat \<Rightarrow> int \<Rightarrow> char \<Rightarrow> scan_step option" where
  "scan_type R mem c i field_width qualifier =
     (if c = CHR ''c'' then do {
        (s, j) \<leftarrow> copy_chars mem i (nat (if field_width = -1 then 1 else field_width));
        Some (Some (j, 1, [Chars s]))
      }
      else if c = CHR ''s'' then do {
        let i = i + skip_spaces R (drop i mem);
        (s, j) \<leftarrow> copy_word mem i (nat (if field_width = -1 then 32767 else field_width));
        Some (Some (j, 1, [Chars s]))
      }
      else if c = CHR ''o'' then scan_int R mem i False 8 field_width qualifier
      else if c = CHR ''x'' \<or> c = CHR ''X'' then scan_int R mem i False 16 field_width qualifier
      else if c = CHR ''i'' then scan_int R mem i True 0 field_width qualifier
      else if c = CHR ''d'' then scan_int R mem i True 10 field_width qualifier
      else if c = CHR ''u'' then scan_int R mem i False 10 field_width qualifier
      else if c = CHR ''%'' then do {
        x \<leftarrow> rd mem i;
        if x \<noteq> CHR ''%'' then Some None else Some (Some (i + 1, 0, []))
      }
      else Some None)"

definition scan_qualifier :: "string \<Rightarrow> char \<times> string" where
  "scan_qualifier fmt = (case fmt of [] \<Rightarrow> (CHR 0xFF, [])
     | q # f \<Rightarrow>
         if q = CHR ''h'' \<or> is_l q \<or> is_z q then
           (if f \<noteq> [] \<and> hd f = q then
              (if q = CHR ''h'' then (CHR ''H'', tl f) else if q = CHR ''l'' then (CHR ''L'', tl f) else (q, f))
            else (q, f))
         else (CHR 0xFF, fmt))"

function skip_word :: "char list \<Rightarrow> nat \<Rightarrow> nat option" where
  "skip_word mem i =
     (if i \<ge> length mem then None
      else if is_space (mem ! i) \<or> mem ! i = nul then Some i else skip_word mem (i + 1))"
  by pat_completeness auto
termination by (relation "measure (\<lambda>(mem, i). length mem - i)") auto

declare skip_word.simps [simp del]

text \<open>A conversion, with the format behind its \<open>%\<close>.\<close>

definition scan_conv :: "rom \<Rightarrow> char list \<Rightarrow> string \<Rightarrow> nat \<Rightarrow> (string \<times> nat \<times> nat \<times> scanned list) option option" where
  "scan_conv R mem fmt i =
     (if fmt \<noteq> [] \<and> hd fmt = CHR ''*'' then do {
        x \<leftarrow> rd mem i;
        if x = nul then Some None
        else do {
          j \<leftarrow> skip_word mem i;
          Some (Some (dropWhile (\<lambda>c. \<not> is_space c \<and> c \<noteq> CHR ''%'') fmt, j, 0, []))
        }
      }
      else
        let field = fmt \<noteq> [] \<and> is_digit (hd fmt);
            (v, k) = skip_atoi R (fmt @ [nul]);
            field_width = (if field then s16 v else -1);
            (qualifier, fmt) = scan_qualifier (if field then drop k fmt else fmt)
        in if field \<and> field_width \<le> 0 then Some None
           else if fmt = [] then Some None
           else if hd fmt = CHR ''n'' then Some (Some (tl fmt, i, 0, [Int_of 32 (of_nat i)]))
           else do {
             x \<leftarrow> rd mem i;
             if x = nul then Some None else map_option (map_option (Pair (tl fmt))) (scan_type R mem (hd fmt) i field_width qualifier)
           })"

lemma scan_qualifier_length: "scan_qualifier f = (q, g) \<Longrightarrow> length g \<le> length f"
  by (auto simp: scan_qualifier_def split: list.splits if_splits)

lemma scan_conv_length:
  assumes "scan_conv R mem f i = Some (Some (g, r))"
  shows "length g \<le> length f"
proof (cases "f \<noteq> [] \<and> hd f = CHR ''*''")
  case True
  then show ?thesis using assms by (auto simp: scan_conv_def length_dropWhile_le split: bind_splits if_splits)
next
  case False
  obtain v k where a: "skip_atoi R (f @ [nul]) = (v, k)" by fastforce
  obtain q h where h: "scan_qualifier (if f \<noteq> [] \<and> is_digit (hd f) then drop k f else f) = (q, h)" by fastforce
  have "length g \<le> length h" using assms unfolding scan_conv_def if_not_P [OF False] a Let_def prod.case h
    by (auto split: bind_splits if_splits)
  moreover have "length h \<le> length f" using scan_qualifier_length [OF h] by (auto split: if_splits)
  ultimately show ?thesis by simp
qed

lemma length_shorter:
  assumes "c # f = (if fmt \<noteq> [] \<and> p then drop k (tl fmt) else fmt)"
  shows "length f < length fmt"
proof -
  have "length (drop k (tl fmt)) \<le> length fmt" by simp
  then have "length (c # f) \<le> length fmt" unfolding assms by (simp split: if_split)
  then show ?thesis by simp
qed

text \<open>The loop over the format: the number of conversions and what they store.\<close>

function scan_loop :: "rom \<Rightarrow> char list \<Rightarrow> string \<Rightarrow> nat \<Rightarrow> nat \<Rightarrow> scanned list \<Rightarrow> (nat \<times> scanned list) option" where
  "scan_loop R mem fmt i num outs =
     (let space = fmt \<noteq> [] \<and> is_space (hd fmt);
          i = (if space then i + skip_spaces R (drop i mem) else i)
      in case (if space then drop (skip_spaces R (tl fmt @ [nul])) (tl fmt) else fmt) of
           [] \<Rightarrow> Some (num, outs)
         | c # f \<Rightarrow>
             if c \<noteq> CHR ''%'' then
               (case rd mem i of None \<Rightarrow> None
                | Some x \<Rightarrow> if c \<noteq> x then Some (num, outs) else scan_loop R mem f (i + 1) num outs)
             else
               (case scan_conv R mem f i of None \<Rightarrow> None
                | Some None \<Rightarrow> Some (num, outs)
                | Some (Some (f, j, n, s)) \<Rightarrow> scan_loop R mem f j (num + n) (outs @ s)))"
  by pat_completeness auto
termination
  by (relation "measure (\<lambda>(R, mem, fmt, i, num, outs). length fmt)")
     (auto dest: length_shorter [OF sym] dest!: scan_conv_length)

declare scan_loop.simps [simp del]

definition DiagSscanfPatch :: "rom \<Rightarrow> char list \<Rightarrow> string \<Rightarrow> (nat \<times> scanned list) option" where
  "DiagSscanfPatch R buf fmt = scan_loop R buf fmt 0 0 []"

end
