(* ===== verification/PrintfProps.thy ===== *)
theory PrintfProps
  imports Printf
begin

text \<open>
  What the formatted output prints: numbers as text that reads back as the number, and the bounded version as a
  prefix of the unbounded one.
\<close>

section \<open>Reading a number\<close>

definition digit_value :: "char \<Rightarrow> nat" where
  "digit_value c = (if is_digit c then of_char c - 48 else if of_char c < (97 :: nat) then of_char c - 55 else of_char c - 87)"

definition num_value :: "nat \<Rightarrow> string \<Rightarrow> nat" where
  "num_value base s = foldl (\<lambda>n c. n * base + digit_value c) 0 s"

definition dec_value :: "string \<Rightarrow> int" where
  "dec_value s = (case s of c # cs \<Rightarrow> if c = CHR ''-'' then - int (num_value 10 cs) else int (num_value 10 s) | [] \<Rightarrow> 0)"

lemma num_value_append: "num_value b (s @ [c]) = num_value b s * b + digit_value c"
  by (simp add: num_value_def)

lemma digit_char: "d < 10 \<Longrightarrow> is_digit (char_of (48 + d)) \<and> digit_value (char_of (48 + d)) = d"
  by (simp add: is_digit_def digit_value_def)

lemma dec_digits_value: "num_value 10 (rev (dec_digits n)) = n"
proof (induction n rule: dec_digits.induct)
  case (1 i)
  show ?case
  proof (cases "i div 10 = 0")
    case True
    then show ?thesis using digit_char [of "i mod 10"]
      by (subst dec_digits.simps) (simp add: num_value_def)
  next
    case False
    then show ?thesis using 1 digit_char [of "i mod 10"]
      by (subst dec_digits.simps) (simp add: num_value_append)
  qed
qed

lemma dec_digits_digits: "c \<in> set (dec_digits n) \<Longrightarrow> is_digit c"
proof (induction n rule: dec_digits.induct)
  case (1 i)
  then show ?case using digit_char [of "i mod 10"] by (subst (asm) (2) dec_digits.simps) (auto split: if_splits)
qed

lemma dec_digits_length: "10 ^ k \<le> n \<Longrightarrow> k < length (dec_digits n)"
proof (induction k arbitrary: n)
  case 0
  show ?case by (subst dec_digits.simps) simp
next
  case (Suc k)
  then have "10 ^ k \<le> n div 10" by (simp add: less_eq_div_iff_mult_less_eq mult.commute)
  moreover from this have "n div 10 \<noteq> 0" by (metis le_zero_eq power_not_zero zero_neq_numeral)
  ultimately show ?case using Suc.IH [of "n div 10"] by (subst dec_digits.simps) simp
qed

lemma dec_digits_length_le: "n < 10 ^ k \<Longrightarrow> 0 < k \<Longrightarrow> length (dec_digits n) \<le> k"
proof (induction k arbitrary: n)
  case (Suc k)
  show ?case
  proof (cases "n div 10 = 0")
    case False
    then have "0 < k" using Suc.prems(1) by (cases k) auto
    moreover have "n div 10 < 10 ^ k" using Suc.prems(1) by (simp add: less_mult_imp_div_less mult.commute)
    ultimately show ?thesis using Suc.IH [of "n div 10"] by (subst dec_digits.simps) simp
  qed (subst dec_digits.simps, simp)
qed simp

lemma pad_loop_eq: "0 \<le> d \<Longrightarrow> pad_loop k d = replicate (k - nat d) CHR ''0''"
proof (induction k arbitrary: d)
  case (Suc k)
  show ?case
  proof (cases "d = 0")
    case True
    have "pad_loop k (- 1) = replicate k CHR ''0''"
    proof -
      have "pad_loop k e = replicate k CHR ''0''" if "e \<le> 0" for e using that by (induction k arbitrary: e) simp_all
      then show ?thesis by simp
    qed
    then show ?thesis using True by simp
  next
    case False
    then have "nat d = Suc (nat (d - 1))" using Suc.prems by simp
    then show ?thesis using Suc False by simp
  qed
qed simp

section \<open>Decimal\<close>

text \<open>The number of hexadecimal digits, which fixes the least width, is not more than that of decimal digits.\<close>

lemma value_shift_slots:
  assumes "0 \<le> v" "v < 2 ^ 31"
  shows "nat (value_shift v) div 4 + 1 \<le> length (dec_digits (nat v))"
proof -
  have "value_shift v = 4 * int k \<Longrightarrow> 10 ^ k \<le> nat v \<or> k = 0 \<Longrightarrow> ?thesis" for k
  proof -
    assume k: "value_shift v = 4 * int k" "10 ^ k \<le> nat v \<or> k = 0"
    have "0 < length (dec_digits (nat v))" by (subst dec_digits.simps) simp
    then have "k < length (dec_digits (nat v))" using k(2) dec_digits_length [of k "nat v"] by auto
    moreover have "nat (value_shift v) div 4 = k" using k(1) by simp
    ultimately show ?thesis by simp
  qed
  from this [of 0] this [of 1] this [of 2] this [of 3] this [of 4] this [of 5] this [of 6] this [of 7]
  show ?thesis using assms by (auto simp: value_shift_def split: if_splits)
qed

lemma item_dec_plain:
  assumes "sint w \<noteq> - (2 ^ 31)"
  shows "item_dec (value_shift (sint w)) w = Some ((if sint w < 0 then ''-'' else []) @ rev (dec_digits (nat (abs (sint w)))))"
proof -
  have b: "sint w < 2 ^ 31" using sint_lt [of w] by simp
  have "pad_loop (if value_shift (sint w) \<ge> 0 then nat (value_shift (sint w)) div 4 + 1 else 0)
      (int (length (if sint w < 0 then ''-'' else []) + length (dec_digits (nat (abs (sint w)))))) = []"
  proof (cases "sint w < 0")
    case True
    then show ?thesis by (simp add: value_shift_def pad_loop_eq)
  next
    case False
    then have "nat (value_shift (sint w)) div 4 + 1 \<le> length (dec_digits (nat (sint w)))" using b value_shift_slots by simp
    then show ?thesis using False by (simp add: pad_loop_eq del: of_nat_add)
  qed
  then show ?thesis using assms unfolding item_dec_def Let_def by simp
qed

lemma item_dec_pad:
  assumes "sint w \<noteq> - (2 ^ 31)" "0 \<le> shift"
  shows "item_dec shift w = Some ((if sint w < 0 then ''-'' else [])
     @ replicate (nat shift div 4 + 1 - length ((if sint w < 0 then ''-'' else []) @ dec_digits (nat (abs (sint w))))) CHR ''0''
     @ rev (dec_digits (nat (abs (sint w)))))"
  using assms unfolding item_dec_def Let_def by (simp add: pad_loop_eq del: of_nat_add pad_loop.simps)

lemma num_value_zeros: "num_value 10 (replicate k CHR ''0'' @ s) = num_value 10 s"
proof -
  have "foldl (\<lambda>n c. n * 10 + digit_value c) 0 (replicate k CHR ''0'') = 0"
    by (induction k) (simp_all add: digit_value_def is_digit_def)
  then show ?thesis by (simp add: num_value_def)
qed

lemma digits_no_minus: "set s \<subseteq> {c. is_digit c} \<Longrightarrow> s \<noteq> [] \<Longrightarrow> dec_value s = int (num_value 10 s)"
  by (cases s) (auto simp: dec_value_def is_digit_def)

lemma dec_value_item:
  "dec_value ((if sint w < 0 then ''-'' else []) @ replicate k CHR ''0'' @ rev (dec_digits (nat (abs (sint w))))) = sint w"
proof -
  let ?d = "replicate k CHR ''0'' @ rev (dec_digits (nat (abs (sint w))))"
  have "num_value 10 ?d = nat (abs (sint w))" by (simp add: num_value_zeros dec_digits_value)
  moreover have "set ?d \<subseteq> {c. is_digit c}" using dec_digits_digits by (auto simp: is_digit_def)
  moreover have "?d \<noteq> []" by (subst dec_digits.simps) simp
  ultimately have d: "dec_value ?d = abs (sint w)" "num_value 10 ?d = nat (abs (sint w))" using digits_no_minus [of ?d] by simp_all
  show ?thesis
  proof (cases "sint w < 0")
    case True
    then show ?thesis using d(2) by (simp add: dec_value_def)
  next
    case False
    then show ?thesis using d(1) by simp
  qed
qed

lemma put_item_eq:
  "CHR 0x0A \<notin> set s \<Longrightarrow> length (bufr st) + length s \<le> cap \<Longrightarrow> put_item (Some cap) s st = Some (st\<lparr>bufr := bufr st @ s\<rparr>)"
  by (induction s arbitrary: st) (auto simp: put_char_def)

lemma print_item:
  assumes "fmt_item f args = Some (item, [], [])" "CHR 0x0A \<notin> set item" "length item < cap" "hd f \<noteq> CHR ''s''"
  shows "VSprintfPatch (Some cap) (CHR ''%'' # f) args l = Some (\<lparr>bufr = item, line = l\<rparr>, length item)"
  using assms put_item_eq [of item "\<lparr>bufr = [], line = l\<rparr>" cap] by (simp add: VSprintfPatch_def)

lemma digit_facts: "is_digit c \<Longrightarrow> c \<noteq> CHR 0x0A \<and> c \<noteq> CHR ''%'' \<and> c \<noteq> CHR ''s'' \<and> c \<noteq> CHR ''d''"
  by (auto simp: is_digit_def)

lemma width_loop_digits:
  "set s \<subseteq> {c. is_digit c} \<Longrightarrow> \<not> is_digit x \<Longrightarrow> width_loop n (s @ x # r) = (foldl (\<lambda>n c. n * 10 + int (digit_value c)) n s, x # r)"
proof (induction s arbitrary: n)
  case (Cons c s)
  have "int (of_char c) = of_char c" by (cases c) simp
  then have "int (digit_value c) = of_char c - 48" using Cons.prems(1) by (auto simp: digit_value_def is_digit_def)
  then show ?case using Cons by (simp add: add_diff_eq)
qed simp

lemma width_text: "width_loop 0 (rev (dec_digits n) @ CHR ''d'' # r) = (int n, CHR ''d'' # r)"
proof -
  have "foldl (\<lambda>n c. n * 10 + int (digit_value c)) (int k) s = int (foldl (\<lambda>n c. n * 10 + digit_value c) k s)" for k s
  proof (induction s arbitrary: k)
    case (Cons c s)
    show ?case using Cons.IH [of "k * 10 + digit_value c"] by simp
  qed simp
  from this [of 0 "rev (dec_digits n)"] have "foldl (\<lambda>n c. n * 10 + int (digit_value c)) 0 (rev (dec_digits n)) = int n"
    using dec_digits_value [of n] by (simp add: num_value_def)
  moreover have "\<not> is_digit CHR ''d''" by (simp add: is_digit_def)
  ultimately show ?thesis using width_loop_digits [of "rev (dec_digits n)" "CHR ''d''" 0 r] dec_digits_digits by auto
qed

text \<open>C33: \<open>%d\<close> prints a number as decimal text without needless zeros, and \<open>%nd\<close> the same text with leading zeros up to
  \<open>n\<close> characters, the sign included; the text reads back as the number. (The least integer cannot be negated, and
  fields wider than 20 overflow \<open>tmp\<close>.)\<close>

theorem printf_decimal:
  assumes "sint w \<noteq> - (2 ^ 31)" and "1 \<le> n" and "n \<le> 20" and "20 < cap"
  shows "\<exists>s t. VSprintfPatch (Some cap) ''%d'' [Word w] l = Some (\<lparr>bufr = s, line = l\<rparr>, length s) \<and> dec_value s = sint w
    \<and> s = (if sint w < 0 then ''-'' else []) @ rev (dec_digits (nat (abs (sint w))))
    \<and> VSprintfPatch (Some cap) (''%'' @ rev (dec_digits n) @ ''d'') [Word w] l = Some (\<lparr>bufr = t, line = l\<rparr>, length t)
    \<and> dec_value t = sint w \<and> length t = max n (length s)"
proof -
  let ?sg = "if sint w < 0 then ''-'' else []" and ?ds = "rev (dec_digits (nat (abs (sint w))))"
  let ?s = "?sg @ ?ds" and ?t = "?sg @ replicate (n - length (?sg @ ?ds)) CHR ''0'' @ ?ds"
  have b: "- (2 ^ 31) \<le> sint w" "sint w < 2 ^ 31" using sint_ge [of w] sint_lt [of w] by simp_all
  have "nat (abs (sint w)) < 10 ^ 10" using b by simp
  then have l: "length ?ds \<le> 10" using dec_digits_length_le [of _ 10] by simp
  have "length ?sg \<le> 1" by simp
  then have ls: "length ?s \<le> 20" using l unfolding length_append by linarith
  have nl: "CHR 0x0A \<notin> set ?s" "CHR 0x0A \<notin> set ?t" using dec_digits_digits digit_facts by fastforce+
  have "fmt_item ''d'' [Word w] = Some (?s, [], [])"
    using ls item_dec_plain [OF assms(1)] unfolding fmt_item_def
    by (simp add: is_digit_def first_shift_def split del: if_split)
  then have 1: "VSprintfPatch (Some cap) ''%d'' [Word w] l = Some (\<lparr>bufr = ?s, line = l\<rparr>, length ?s)"
    using nl(1) ls assms(4) by (intro print_item) auto
  obtain c cs where n: "rev (dec_digits n) = c # cs" by (cases "rev (dec_digits n)") (subst (asm) dec_digits.simps, auto)
  then have c: "is_digit c" using dec_digits_digits [of c n] by (metis list.set_intros(1) set_rev)
  have sh: "item_dec ((int n - 1) * 4) w = Some ?t"
  proof -
    have "nat ((int n - 1) * 4) div 4 + 1 = n" using assms(2) by (simp add: nat_mult_distrib)
    then show ?thesis using item_dec_pad [OF assms(1), of "(int n - 1) * 4"] assms(2) by simp
  qed
  have "length (u @ replicate (n - length (u @ v)) c @ v) = max n (length (u @ v))" for u v :: string and c by auto
  then have lt: "length ?t = max n (length ?s)" by blast
  then have lt2: "length ?t \<le> 20" using ls assms(3) by linarith
  have "fmt_item (rev (dec_digits n) @ ''d'') [Word w] = Some (?t, [], [])"
  proof -
    obtain t where t: "t = ?t" by blast
    have "(int n - 1) * 4 = int n * 4 - 4" by simp
    then have s: "item_dec (int n * 4 - 4) w = Some t" using sh t by simp
    show ?thesis using c width_text [of n "[]"] lt2 unfolding fmt_item_def n t [symmetric] by (simp add: s)
  qed
  then have 2: "VSprintfPatch (Some cap) (''%'' @ rev (dec_digits n) @ ''d'') [Word w] l = Some (\<lparr>bufr = ?t, line = l\<rparr>, length ?t)"
    using nl(2) lt2 assms(4) digit_facts [OF c] print_item [of "rev (dec_digits n) @ ''d''" "[Word w]" ?t cap l] by (simp add: n)
  have "dec_value ?s = sint w" using dec_value_item [of w 0] by (simp only: replicate_0 append_Nil)
  moreover have "dec_value ?t = sint w" by (rule dec_value_item)
  ultimately show ?thesis using 1 2 lt by blast
qed

theorem printf_decimal_witness:
  "\<exists>s. VSprintfPatch (Some 30) ''%d'' [Word (- 42)] [] = Some (\<lparr>bufr = s, line = []\<rparr>, length s) \<and> dec_value s = - 42"
proof -
  have "sint (- 42 :: 32 word) = - 42" by simp
  then show ?thesis using printf_decimal [of "- 42" 5 30 "[]"] by auto
qed

section \<open>Hexadecimal\<close>

lemma nibble:
  assumes "k \<le> 7"
  shows "unat (signed_drop_bit (4 * k) (h :: 32 word) AND 0xF) = unat h div 16 ^ k mod 16"
proof -
  have f: "(0xF :: 32 word) = mask 4" by (simp add: mask_eq_exp_minus_1)
  have "signed_drop_bit (4 * k) h AND 0xF = take_bit 4 (drop_bit (4 * k) h)"
    unfolding f using assms by (intro bit_word_eqI) (auto simp: bit_simps)
  then have "unat (signed_drop_bit (4 * k) h AND 0xF) = take_bit 4 (drop_bit (4 * k) (unat h))"
    using unsigned_less [of h, where 'a = nat]
    by (simp only: unsigned_take_bit_eq unsigned_drop_bit_eq) (simp add: take_bit_nat_eq_self)
  also have "\<dots> = unat h div 16 ^ k mod 16"
    by (simp add: take_bit_eq_mod drop_bit_eq_div power_mult)
  finally show ?thesis .
qed

lemma hex_digit:
  assumes "x = CHR ''x'' \<or> x = CHR ''X''" "d < 16"
  shows "digit_value (or_case x (''0123456789ABCDEF'' ! d)) = d" "or_case x (''0123456789ABCDEF'' ! d) = CHR ''0'' \<longleftrightarrow> d = 0"
    "or_case x (''0123456789ABCDEF'' ! d) \<noteq> CHR 0x0A"
proof -
  have e: "c = CHR ''0'' \<longleftrightarrow> of_char c = (48 :: nat)" "c = CHR 0x0A \<longleftrightarrow> of_char c = (10 :: nat)" for c
    using of_char_eq_iff [of c "CHR ''0''", where 'a = nat] of_char_eq_iff [of c "CHR 0x0A", where 'a = nat] by simp_all
  have d: "d = 0 \<or> d = 1 \<or> d = 2 \<or> d = 3 \<or> d = 4 \<or> d = 5 \<or> d = 6 \<or> d = 7 \<or> d = 8 \<or> d = 9 \<or> d = 10
      \<or> d = 11 \<or> d = 12 \<or> d = 13 \<or> d = 14 \<or> d = 15" using assms(2) by presburger
  show "digit_value (or_case x (''0123456789ABCDEF'' ! d)) = d"
    using assms(1) d by (elim disjE) (simp_all add: or_case_def digit_value_def is_digit_def)
  show "or_case x (''0123456789ABCDEF'' ! d) = CHR ''0'' \<longleftrightarrow> d = 0" "or_case x (''0123456789ABCDEF'' ! d) \<noteq> CHR 0x0A"
    unfolding e using assms(1) d by (elim disjE; simp add: or_case_def)+
qed

lemma num_value_Cons: "num_value b (c # s) = digit_value c * b ^ length s + num_value b s"
proof -
  have "foldl (\<lambda>n c. n * b + digit_value c) k s = k * b ^ length s + num_value b s" for k
    by (induction s rule: rev_induct) (simp_all add: num_value_def algebra_simps)
  from this [of "digit_value c"] show ?thesis by (simp add: num_value_def)
qed

lemma emit_hex_facts:
  assumes x: "x = CHR ''x'' \<or> x = CHR ''X''"
  shows "k \<le> 7 \<Longrightarrow> length (emit_hex x h k) = Suc k \<and> num_value 16 (emit_hex x h k) = unat h mod 16 ^ Suc k
    \<and> (hd (emit_hex x h k) = CHR ''0'' \<longleftrightarrow> unat h div 16 ^ k mod 16 = 0) \<and> CHR 0x0A \<notin> set (emit_hex x h k)"
proof (induction k)
  case 0
  show ?case using hex_digit [OF x, of "unat h mod 16"] nibble [of 0 h]
    by (simp add: hex_char_def num_value_def)
next
  case (Suc k)
  let ?d = "unat h div 16 ^ Suc k mod 16"
  have c: "hex_char x h (4 * Suc k) = or_case x (''0123456789ABCDEF'' ! ?d)"
    using nibble [of "Suc k" h] Suc.prems by (simp only: hex_char_def)
  have d: "?d < 16" by simp
  have "num_value 16 (emit_hex x h (Suc k)) = ?d * 16 ^ Suc k + unat h mod 16 ^ Suc k"
    using Suc hex_digit(1) [OF x d] by (simp only: emit_hex.simps num_value_Cons c)
  also have "\<dots> = unat h mod 16 ^ Suc (Suc k)"
    by (simp only: power_Suc2 [of 16 "Suc k"] mod_mult2_eq) simp
  finally have v: "num_value 16 (emit_hex x h (Suc k)) = unat h mod 16 ^ Suc (Suc k)" .
  moreover have "length (emit_hex x h (Suc k)) = Suc (Suc k)" "CHR 0x0A \<notin> set (emit_hex x h (Suc k))"
    using Suc hex_digit(3) [OF x d] by (simp_all only: emit_hex.simps c) auto
  moreover have "hd (emit_hex x h (Suc k)) = CHR ''0'' \<longleftrightarrow> ?d = 0"
    using hex_digit(2) [OF x d] by (simp only: emit_hex.simps c list.sel)
  ultimately show ?case by blast
qed

lemma hex_count_le: "h < 16 ^ k \<Longrightarrow> hex_count h \<le> k"
proof (induction k arbitrary: h)
  case 0
  then show ?case by (simp add: hex_count.simps)
next
  case (Suc k)
  show ?case
  proof (cases "h = 0")
    case False
    have "h div 16 < 16 ^ k" using Suc.prems by (simp add: less_mult_imp_div_less mult.commute)
    then show ?thesis using Suc.IH [of "h div 16"] False by (subst hex_count.simps) simp
  qed (simp add: hex_count.simps)
qed

lemma value_shift_hex:
  assumes "0 \<le> v" "v < 2 ^ 31"
  obtains k where "value_shift v = 4 * int k" "k \<le> 7" "nat v < 16 ^ Suc k" "16 ^ k \<le> nat v \<or> k = 0"
proof -
  have "\<exists>k\<in>{0..7}. value_shift v = 4 * int k \<and> nat v < 16 ^ Suc k \<and> (16 ^ k \<le> nat v \<or> k = 0)"
  proof -
    have s: "{0..7} = {0,1,2,3,4,5,6,7::nat}" by auto
    show ?thesis unfolding s using assms by (auto simp: value_shift_def)
  qed
  then show ?thesis using that by auto
qed

lemma item_hex_eq:
  assumes x: "x = CHR ''x'' \<or> x = CHR ''X''" and k: "k \<le> 7" "unat h < 16 ^ Suc k"
  shows "item_hex x (4 * int k) h = Some (emit_hex x h k)"
  using x k(1) hex_count_le [OF k(2)] by (auto simp: item_hex_def Let_def nat_mult_distrib)

text \<open>\<open>%x\<close> and \<open>%X\<close> print a value below \<open>2 ^ 31\<close> as hexadecimal text without needless zeros, and \<open>%0nx\<close> with exactly
  \<open>n\<close> digits (up to 8) a value that fits in them; the text reads back as the value.\<close>

theorem printf_hex:
  assumes "0 \<le> sint w" and "x = CHR ''x'' \<or> x = CHR ''X''" and "1 \<le> n" and "n \<le> 8" and "unat w < 16 ^ n" and "20 < cap"
  shows "\<exists>s t. VSprintfPatch (Some cap) [CHR ''%'', x] [Word w] l = Some (\<lparr>bufr = s, line = l\<rparr>, length s) \<and> num_value 16 s = unat w
    \<and> (hd s = CHR ''0'' \<longrightarrow> s = ''0'')
    \<and> VSprintfPatch (Some cap) [CHR ''%'', CHR ''0'', char_of (48 + n), x] [Word w] l = Some (\<lparr>bufr = t, line = l\<rparr>, length t)
    \<and> num_value 16 t = unat w \<and> length t = n"
proof -
  have b: "sint w < 2 ^ 31" using sint_lt [of w] by simp
  have "uint w = sint w" using assms(1) b uint_sint [of w] by (simp add: take_bit_int_eq_self)
  then have b2: "nat (sint w) = unat w" by (metis unat_eq_nat_uint)
  obtain k where k: "value_shift (sint w) = 4 * int k" "k \<le> 7" "unat w < 16 ^ Suc k" "16 ^ k \<le> unat w \<or> k = 0"
    using value_shift_hex [OF assms(1) b] b2 by metis
  note e = emit_hex_facts [OF assms(2) k(2), of w]
  have nd: "\<not> is_digit x" "x \<noteq> CHR ''s''" "x \<noteq> CHR ''d''" using assms(2) by (auto simp: is_digit_def)
  have "fmt_item [x] [Word w] = Some (emit_hex x w k, [], [])"
    using item_hex_eq [OF assms(2) k(2,3)] assms(2) nd(1) e k(2) by (auto simp: fmt_item_def first_shift_def k(1))
  then have 1: "VSprintfPatch (Some cap) [CHR ''%'', x] [Word w] l = Some (\<lparr>bufr = emit_hex x w k, line = l\<rparr>, length (emit_hex x w k))"
    using e k(2) nd(2) assms(6) by (intro print_item) auto
  have z: "s = ''0''" if "hd s = CHR ''0''" "s = emit_hex x w k" for s
  proof -
    have "unat w div 16 ^ k mod 16 = 0" using that e by simp
    moreover have "unat w div 16 ^ k < 16" using k(3) by (simp add: less_mult_imp_div_less mult.commute)
    ultimately have "k = 0" using k(4) by (metis div_greater_zero_iff less_numeral_extra(3) mod_less zero_less_numeral zero_less_power)
    then show ?thesis using that by simp
  qed
  obtain m where m: "n = Suc m" using assms(3) by (cases n) auto
  have m7: "m \<le> 7" "unat w < 16 ^ Suc m" using assms(4,5) m by simp_all
  note e2 = emit_hex_facts [OF assms(2) m7(1), of w]
  have d: "is_digit (char_of (48 + n))" "digit_value (char_of (48 + n)) = n" using digit_char [of n] assms(4) by simp_all
  have c0: "is_digit CHR ''0''" "digit_value CHR ''0'' = 0" by (simp_all add: is_digit_def digit_value_def)
  have "width_loop 0 ([CHR ''0'', char_of (48 + n)] @ x # []) = (int n, [x])"
    using width_loop_digits [of "[CHR ''0'', char_of (48 + n)]" x 0 "[]"] d nd(1) c0 by simp
  then have wl: "width_loop 0 [CHR ''0'', char_of (48 + n), x] = (int n, [x])" by (simp only: append.simps)
  have "(int n - 1) * 4 = 4 * int m" using m by simp
  then have "item_hex x ((int n - 1) * 4) w = Some (emit_hex x w m)" using item_hex_eq [OF assms(2) m7] by (simp only:)
  then have "fmt_item [CHR ''0'', char_of (48 + n), x] [Word w] = Some (emit_hex x w m, [], [])"
    using e2 m7(1) c0(1) assms(2) unfolding fmt_item_def wl Let_def by (simp del: width_loop.simps) blast
  then have 2: "VSprintfPatch (Some cap) [CHR ''%'', CHR ''0'', char_of (48 + n), x] [Word w] l
      = Some (\<lparr>bufr = emit_hex x w m, line = l\<rparr>, length (emit_hex x w m))"
    using e2 m7 assms(6) by (intro print_item) auto
  have "num_value 16 (emit_hex x w k) = unat w" "num_value 16 (emit_hex x w m) = unat w" "length (emit_hex x w m) = n"
    using e e2 k(3) m7(2) m by simp_all
  then show ?thesis using 1 2 z by blast
qed

theorem printf_hex_witness:
  "\<exists>s t. VSprintfPatch (Some 30) ''%x'' [Word 10] [] = Some (\<lparr>bufr = s, line = []\<rparr>, length s) \<and> num_value 16 s = 10
     \<and> VSprintfPatch (Some 30) [CHR ''%'', CHR ''0'', char_of (48 + (2::nat)), CHR ''x''] [Word 10] [] = Some (\<lparr>bufr = t, line = []\<rparr>, length t) \<and> length t = 2"
  using printf_hex [of 10 "CHR ''x''" 2 30 "[]"] by auto

text \<open>A value that does not fit in the field, or is not below \<open>2 ^ 31\<close>, loses its upper digits when some of them are zero: the
  digits that make the field wider are counted without the zeros among them.\<close>

theorem printf_hex_truncates:
  "map_option (\<lambda>(st, _). bufr st) (VSprintfPatch (Some 30) ''%02x'' [Word 0x100] []) = Some ''00''
    \<and> map_option (\<lambda>(st, _). bufr st) (VSprintfPatch (Some 30) ''%x'' [Word 0x80000000] []) = Some ''0''"
proof -
  have c: "char_of (48 :: nat) = CHR ''0''" using char_of_char [of "CHR ''0''", where 'a = nat] by simp
  have h: "hex_count 256 = 1" "hex_count 2147483648 = 1" by (simp_all add: hex_count.simps)
  show ?thesis by (simp add: c h VSprintfPatch_def fmt_item_def item_hex_def put_char_def is_digit_def or_case_def
      hex_char_def first_shift_def value_shift_def)
qed

section \<open>The bounded version\<close>

lemma put_string_bufr: "put_string (Some c) p st = Some st' \<Longrightarrow> bufr st' = bufr st @ p"
  by (induction p arbitrary: st) (auto simp: put_char_def split: bind_splits if_splits)

lemma put_item_bufr: "put_item (Some c) p st = Some st' \<Longrightarrow> bufr st' = bufr st @ p"
proof (induction p arbitrary: st)
  case (Cons x p)
  obtain s1 where s1: "put_char (Some c) x st = Some s1" using Cons.prems by (cases "put_char (Some c) x st") auto
  then have "bufr s1 = bufr st @ [x]" by (auto simp: put_char_def split: if_splits)
  then show ?case using Cons.prems Cons.IH s1 by (auto split: if_splits)
qed simp

lemma sn_put_eq:
  "length s < sz \<Longrightarrow> min sz (length s + length p) \<le> cap \<Longrightarrow> sn_put cap sz p s =
     (if length s + length p < sz then Some (s @ p, False) else Some (take sz (s @ p), True))"
proof (induction p arbitrary: s)
  case (Cons c p)
  show ?case
  proof (cases "sz \<le> Suc (length s)")
    case True
    then have "sz = Suc (length s)" using Cons.prems(1) by simp
    then show ?thesis using Cons.prems by simp
  next
    case False
    then show ?thesis using Cons.prems Cons.IH [of "s @ [c]"] by simp
  qed
qed simp

lemma vs_loop_prefix: "vs_loop (Some c) f args st = Some st' \<Longrightarrow> \<exists>u. bufr st' = bufr st @ u"
proof (induction "Some c" f args st rule: vs_loop.induct)
  case (2 x f args st)
  show ?case
  proof (cases "x \<noteq> CHR ''%''")
    case True
    then obtain s1 where "put_char (Some c) x st = Some s1" "vs_loop (Some c) f args s1 = Some st'" using 2(4) by (auto split: option.splits)
    then show ?thesis using 2(1) [OF True] by (auto simp: put_char_def split: if_splits)
  next
    case False
    show ?thesis
    proof (cases "f \<noteq> [] \<and> hd f = CHR ''s''")
      case True
      then obtain p args' s1 where s: "pop_ptr args = Some (p, args')" "put_string (Some c) p st = Some s1" "vs_loop (Some c) (tl f) args' s1 = Some st'"
        using 2(4) False by (auto split: option.splits)
      then show ?thesis using 2(2) [OF _ True s(1) refl s(2,3)] False put_string_bufr [OF s(2)] by auto
    next
      case ns: False
      then obtain item rest args' s1 where s: "fmt_item f args = Some (item, rest, args')" "put_item (Some c) item st = Some s1" "vs_loop (Some c) rest args' s1 = Some st'"
        using 2(4) False by (auto split: option.splits)
      then show ?thesis using 2(3) [OF _ ns s(1) refl refl s(2,3)] False put_item_bufr [OF s(2)] by auto
    qed
  qed
qed auto

lemma sn_step:
  assumes "length s < sz" "min sz (length t) < cap" "t = (s @ p) @ u"
    and "length (s @ p) < sz \<Longrightarrow> sn_loop cap sz rest args' (s @ p) = Some (take sz t)"
  shows "(case sn_put cap sz p s of None \<Rightarrow> None | Some (s, ex) \<Rightarrow> if ex then Some s else sn_loop cap sz rest args' s) = Some (take sz t)"
proof (cases "length s + length p < sz")
  case True
  then show ?thesis using assms sn_put_eq [of s sz p cap] by (simp add: min_def split: if_splits)
next
  case False
  have "take sz t = take sz (s @ p)" using False assms(3) by simp
  then show ?thesis using False assms(1-3) sn_put_eq [of s sz p cap] by (simp add: min_def split: if_splits)
qed

lemma sn_loop_eq:
  "vs_loop (Some c) f args st = Some st' \<Longrightarrow> length (bufr st) < sz \<Longrightarrow> min sz (length (bufr st')) < cap
   \<Longrightarrow> sn_loop cap sz f args (bufr st) = Some (take sz (bufr st'))"
proof (induction "Some c" f args st rule: vs_loop.induct)
  case (2 x f args st)
  show ?case
  proof (cases "x \<noteq> CHR ''%''")
    case True
    then obtain s1 where s: "put_char (Some c) x st = Some s1" "vs_loop (Some c) f args s1 = Some st'" using 2(4) by (auto split: option.splits)
    then have b: "bufr s1 = bufr st @ [x]" by (auto simp: put_char_def split: if_splits)
    obtain u where u: "bufr st' = (bufr st @ [x]) @ u" using vs_loop_prefix [OF s(2)] b by auto
    show ?thesis unfolding sn_loop.simps if_P [OF True]
      using 2(1) [OF True s(1,2)] 2(5,6) b u by (intro sn_step) auto
  next
    case False
    show ?thesis
    proof (cases "f \<noteq> [] \<and> hd f = CHR ''s''")
      case True
      then obtain p args' s1 where s: "pop_ptr args = Some (p, args')" "put_string (Some c) p st = Some s1" "vs_loop (Some c) (tl f) args' s1 = Some st'"
        using 2(4) False by (auto split: option.splits)
      note b = put_string_bufr [OF s(2)]
      obtain u where u: "bufr st' = (bufr st @ p) @ u" using vs_loop_prefix [OF s(3)] b by auto
      have "sn_loop cap sz (x # f) args (bufr st) = (case sn_put cap sz p (bufr st) of None \<Rightarrow> None
           | Some (s, ex) \<Rightarrow> if ex then Some s else sn_loop cap sz (tl f) args' s)"
        using False True s(1) by simp
      also have "\<dots> = Some (take sz (bufr st'))"
        using 2(2) [OF _ True s(1) refl s(2,3)] False 2(5,6) b u by (intro sn_step) auto
      finally show ?thesis .
    next
      case ns: False
      then obtain item rest args' s1 where s: "fmt_item f args = Some (item, rest, args')" "put_item (Some c) item st = Some s1" "vs_loop (Some c) rest args' s1 = Some st'"
        using 2(4) False by (auto split: option.splits)
      note b = put_item_bufr [OF s(2)]
      obtain u where u: "bufr st' = (bufr st @ item) @ u" using vs_loop_prefix [OF s(3)] b by auto
      have "sn_loop cap sz (x # f) args (bufr st) = (case sn_put cap sz item (bufr st) of None \<Rightarrow> None
           | Some (s, ex) \<Rightarrow> if ex then Some s else sn_loop cap sz rest args' s)"
        unfolding sn_loop.simps if_not_P [OF False] if_not_P [OF ns] s(1) by simp
      also have "\<dots> = Some (take sz (bufr st'))"
        using 2(3) [OF _ ns s(1) refl refl s(2,3)] False 2(5,6) b u by (intro sn_step) auto
      finally show ?thesis .
    qed
  qed
qed simp

lemma sn_put_mono: "sn_put cap sz p s = Some r \<Longrightarrow> cap \<le> cap' \<Longrightarrow> sn_put cap' sz p s = Some r"
  by (induction p arbitrary: s) (auto simp: Let_def split: if_splits)

lemma sn_loop_mono: "sn_loop cap sz f args s = Some t \<Longrightarrow> cap \<le> cap' \<Longrightarrow> sn_loop cap' sz f args s = Some t"
proof (induction cap sz f args s rule: sn_loop.induct)
  case (2 cap sz c f args s)
  have step: "(case sn_put cap' sz p s of None \<Rightarrow> None | Some (s, ex) \<Rightarrow> if ex then Some s else g' s) = Some t"
    if "(case sn_put cap sz p s of None \<Rightarrow> None | Some (s, ex) \<Rightarrow> if ex then Some s else g s) = Some t"
      "\<And>s'. sn_put cap sz p s = Some (s', False) \<Longrightarrow> g s' = Some t \<Longrightarrow> g' s' = Some t" for p g g'
  proof (cases "sn_put cap sz p s")
    case (Some r)
    then show ?thesis using that sn_put_mono [OF Some 2(5)] by (cases r) (auto split: if_splits)
  qed (use that(1) in simp)
  show ?case
  proof (cases "c \<noteq> CHR ''%''")
    case True
    show ?thesis using 2(4) unfolding sn_loop.simps if_P [OF True] by (rule step) (use 2(1) [OF True _ refl] 2(5) in blast)
  next
    case False
    show ?thesis
    proof (cases "f \<noteq> [] \<and> hd f = CHR ''s''")
      case True
      then obtain p args' where p: "pop_ptr args = Some (p, args')" using 2(4) False by (auto split: option.splits)
      show ?thesis using 2(4) unfolding sn_loop.simps if_not_P [OF False] if_P [OF True] p option.case prod.case
        by (rule step) (use 2(2) [OF False True p refl _ refl] 2(5) in blast)
    next
      case ns: False
      then obtain item rest args' where p: "fmt_item f args = Some (item, rest, args')" using 2(4) False by (auto split: option.splits)
      show ?thesis using 2(4) unfolding sn_loop.simps if_not_P [OF False] if_not_P [OF ns] p option.case prod.case
        by (rule step) (use 2(3) [OF False ns p refl refl _ refl] 2(5) in blast)
    qed
  qed
qed simp

text \<open>C34: \<open>DiagSnPrintfPatch\<close> prints what \<open>VSprintfPatch\<close> prints, cut after \<open>size\<close> characters, and returns the number of
  characters stored. But the final zero comes behind them: when the text has \<open>size\<close> characters or more, a buffer of
  exactly \<open>size\<close> bytes is overrun by one.\<close>

theorem snprintf_cut:
  assumes "VSprintfPatch (Some c) fmt dp l = Some (st, n)" and "0 < sz"
  shows "(min sz n < cap \<longrightarrow> DiagSnPrintfPatch (Some cap) sz fmt dp = Some (take sz (bufr st), min sz n))
    \<and> (sz \<le> n \<longrightarrow> DiagSnPrintfPatch (Some sz) sz fmt dp = None)"
proof -
  have v: "vs_loop (Some c) fmt dp \<lparr>bufr = [], line = l\<rparr> = Some st" "n = length (bufr st)"
    using assms(1) by (auto simp: VSprintfPatch_def split: bind_splits if_splits)
  note e = sn_loop_eq [OF v(1), of sz]
  have "DiagSnPrintfPatch (Some cap) sz fmt dp = Some (take sz (bufr st), min sz n)" if "min sz n < cap" for cap
    using e [of cap] assms(2) that by (simp add: DiagSnPrintfPatch_def v(2) min.commute)
  moreover have "DiagSnPrintfPatch (Some sz) sz fmt dp = None" if n: "sz \<le> n"
  proof (cases "sn_loop sz sz fmt dp []")
    case (Some s)
    have "sn_loop (Suc sz) sz fmt dp [] = Some (take sz (bufr st))" using e [of "Suc sz"] assms(2) by simp
    then have "s = take sz (bufr st)" using sn_loop_mono [OF Some, of "Suc sz"] by simp
    then show ?thesis using Some n v(2) by (simp add: DiagSnPrintfPatch_def)
  qed (simp add: DiagSnPrintfPatch_def)
  ultimately show ?thesis by blast
qed

theorem snprintf_cut_witness:
  "DiagSnPrintfPatch (Some 9) 3 ''a%db'' [Word 12] = Some (''a12'', 3) \<and> DiagSnPrintfPatch (Some 3) 3 ''a%db'' [Word 12] = None"
proof -
  have "VSprintfPatch (Some 20) ''a%db'' [Word 12] [] = Some (\<lparr>bufr = ''a12b'', line = []\<rparr>, 4)"
    by code_simp
  from snprintf_cut [OF this, of 3 9] show ?thesis by simp
qed

end
