(* ===== verification/ScanfProps.thy ===== *)
theory ScanfProps
  imports Scanf PrintfProps
begin

text \<open>
  What the scanning functions read: the tokens of a text, the first place of a substring, and numbers, against
  the numbers that \<open>VSprintfPatch\<close> prints.
\<close>

section \<open>The ROM routines\<close>

text \<open>The documented behaviour of the four routines, which are those of the Linux kernel.\<close>

definition std_space :: "char \<Rightarrow> bool" where
  "std_space c \<longleftrightarrow> c \<in> {CHR '' '', CHR 0x0C, CHR 0x0A, CHR 0x0D, CHR 0x09, CHR 0x0B}"

definition base_digits :: "nat \<Rightarrow> char list \<Rightarrow> char list" where
  "base_digits b s = takeWhile (\<lambda>c. is_xdigit c \<and> digit_value c < b) s"

definition hex_prefix :: "char list \<Rightarrow> bool" where
  "hex_prefix s \<longleftrightarrow> take 1 s = ''0'' \<and> (take 1 (drop 1 s) = ''x'' \<or> take 1 (drop 1 s) = ''X'')"

definition radix_of :: "char list \<Rightarrow> nat \<Rightarrow> nat \<times> nat" where
  "radix_of s b =
     (let b = (if b = 0 then (if take 1 s = ''0''
                 then (if hex_prefix s \<and> (\<exists>c \<in> set (take 1 (drop 2 s)). is_xdigit c) then 16 else 8) else 10) else b)
      in (if b = 16 \<and> hex_prefix s then 2 else 0, b))"

definition linux_rom :: rom where
  "linux_rom = \<lparr>skip_spaces = \<lambda>s. length (takeWhile std_space s),
     skip_atoi = \<lambda>s. (int (num_value 10 (takeWhile is_digit s)), length (takeWhile is_digit s)),
     parse_integer = \<lambda>s b. of_nat (num_value b (base_digits b s)), fixup_radix = radix_of\<rparr>"

definition rom_ok :: "rom \<Rightarrow> bool" where
  "rom_ok R \<longleftrightarrow> (\<forall>s. skip_spaces R s = length (takeWhile std_space s))
     \<and> (\<forall>s. skip_atoi R s = (int (num_value 10 (takeWhile is_digit s)), length (takeWhile is_digit s)))
     \<and> (\<forall>s b. parse_integer R s b = of_nat (num_value b (base_digits b s)))
     \<and> (\<forall>s b. fixup_radix R s b = radix_of s b)"

lemma linux_rom_ok: "rom_ok linux_rom"
  by (simp add: rom_ok_def linux_rom_def)

section \<open>Tokens\<close>

lemma strtok_skip:
  "set ds \<subseteq> set delim \<Longrightarrow> nul \<notin> set ds \<Longrightarrow>
   strtok_loop delim (pre @ ds @ u) (length pre) (length pre) (length pre) =
   strtok_loop delim (pre @ replicate (length ds) nul @ u) (length pre + length ds) (length pre + length ds) (length pre + length ds)"
proof (induction ds arbitrary: pre)
  case (Cons d ds)
  have "strtok_loop delim (pre @ (d # ds) @ u) (length pre) (length pre) (length pre) =
      strtok_loop delim ((pre @ [nul]) @ ds @ u) (length (pre @ [nul])) (length (pre @ [nul])) (length (pre @ [nul]))"
    using Cons.prems by (subst strtok_loop.simps) auto
  then show ?case using Cons.IH [of "pre @ [nul]"] Cons.prems by simp
qed simp

lemma strtok_word:
  "set t \<inter> set delim = {} \<Longrightarrow> nul \<notin> set t \<Longrightarrow>
   strtok_loop delim (pre @ t @ u) ret (length pre) b = strtok_loop delim (pre @ t @ u) ret (length pre + length t) b"
proof (induction t arbitrary: pre)
  case (Cons c t)
  have "strtok_loop delim (pre @ (c # t) @ u) ret (length pre) b =
      strtok_loop delim ((pre @ [c]) @ t @ u) ret (length (pre @ [c])) b"
    using Cons.prems by (subst strtok_loop.simps) auto
  then show ?case using Cons.IH [of "pre @ [c]"] Cons.prems by simp
qed simp

lemma strtok_token:
  assumes "set ds \<subseteq> set delim" "set t \<inter> set delim = {}" "nul \<notin> set ds \<union> set t"
  shows "strtok_loop delim (pre @ ds @ t @ u) (length pre) (length pre) (length pre) =
     (let q = length pre + length ds in
      strtok_loop delim (pre @ replicate (length ds) nul @ t @ u) q (q + length t) q)"
  using assms strtok_skip [of ds delim pre "t @ u"] strtok_word [of t delim "pre @ replicate (length ds) nul" u "length pre + length ds" "length pre + length ds"]
  by (simp add: Let_def)

text \<open>A call of \<open>DiagStrtokPatch\<close> on a text finds its first token: it skips the delimiters in front, returns
  the position of the token, ends the token with a zero, and remembers the byte behind it for the next call.\<close>

theorem strtok_finds_token:
  assumes "set ds \<subseteq> set delim" and "set t \<inter> set delim = {}" and "nul \<notin> set ds \<union> set t" and "t \<noteq> []"
    and "d \<in> set delim" and "d \<noteq> nul"
  shows "DiagStrtokPatch (Some (length pre)) delim (pre @ ds @ t @ d # u) buffer =
      Some (Some (length pre + length ds), pre @ replicate (length ds) nul @ t @ nul # u, Some (length pre + length ds + length t + 1))
    \<and> DiagStrtokPatch None delim (pre @ ds @ t @ d # u) (Some (length pre)) =
      Some (Some (length pre + length ds), pre @ replicate (length ds) nul @ t @ nul # u, Some (length pre + length ds + length t + 1))"
proof -
  let ?q = "length pre + length ds"
  have r: "rd (pre @ ds @ t @ d # u) (length pre) = Some (hd (ds @ t))" "hd (ds @ t) \<noteq> nul"
    using assms(3,4) by (cases ds; cases t; auto simp: rd_def nth_append)+
  have "strtok_loop delim (pre @ replicate (length ds) nul @ t @ d # u) ?q (?q + length t) ?q
      = Some (?q, pre @ replicate (length ds) nul @ t @ nul # u, ?q + length t + 1)"
    using assms(4-6) by (subst strtok_loop.simps) (simp add: nth_append list_update_append)
  then show ?thesis using r strtok_token [OF assms(1-3), of pre "d # u"] by (simp add: DiagStrtokPatch_def Let_def)
qed

theorem strtok_finds_token_witness:
  "DiagStrtokPatch (Some 0) '',;'' ('',ab;c'' @ [nul]) None = Some (Some 1, nul # ''ab'' @ nul # ''c'' @ [nul], Some 4)"
  using strtok_finds_token [of "'',''" "'',;''" "''ab''" "CHR '';''" "[]" "''c'' @ [nul]" None] by (simp add: nul_def)

text \<open>C36: The last token is returned for ever: when a text ends with a token and not with a delimiter, the call that
  finds this token leaves \<open>_buffer\<close> on it, and any number of further calls with a null pointer returns it again and
  never null, so that a loop over the tokens of a text does not end.\<close>

theorem strtok_last_token_repeats:
  assumes "set ds \<subseteq> set delim" and "set t \<inter> set delim = {}" and "nul \<notin> set ds \<union> set t" and "t \<noteq> []"
  shows "\<exists>mem. DiagStrtokPatch (Some (length pre)) delim (pre @ ds @ t @ nul # u) buffer = Some (Some (length pre + length ds), mem, Some (length pre + length ds))
    \<and> ((\<lambda>s. Option.bind s (\<lambda>(_, mem, b). DiagStrtokPatch None delim mem b)) ^^ n) (Some (Some (length pre + length ds), mem, Some (length pre + length ds)))
      = Some (Some (length pre + length ds), mem, Some (length pre + length ds))"
proof -
  let ?q = "length pre + length ds" and ?m = "pre @ replicate (length ds) nul @ t @ nul # u"
  have e: "strtok_loop delim ?m ?q (?q + length t) ?q = Some (?q, ?m, ?q)"
    by (subst strtok_loop.simps) (simp add: nth_append)
  have "rd (pre @ ds @ t @ nul # u) (length pre) = Some (hd (ds @ t))" "hd (ds @ t) \<noteq> nul"
    using assms(3,4) by (cases ds; cases t; auto simp: rd_def nth_append)+
  then have 1: "DiagStrtokPatch (Some (length pre)) delim (pre @ ds @ t @ nul # u) buffer = Some (Some ?q, ?m, Some ?q)"
    using e strtok_token [OF assms(1-3), of pre "nul # u"] by (simp add: DiagStrtokPatch_def Let_def)
  have "rd ?m ?q = Some (hd t)" "hd t \<noteq> nul" using assms(3,4) by (cases t; auto simp: rd_def nth_append)+
  moreover have "strtok_loop delim ?m ?q ?q ?q = Some (?q, ?m, ?q)"
    using e assms strtok_token [of "[]" delim t "pre @ replicate (length ds) nul" "nul # u"] by (simp add: Let_def)
  ultimately have "DiagStrtokPatch None delim ?m (Some ?q) = Some (Some ?q, ?m, Some ?q)"
    by (simp add: DiagStrtokPatch_def)
  then have "((\<lambda>s. Option.bind s (\<lambda>(_, mem, b). DiagStrtokPatch None delim mem b)) ^^ n) (Some (Some ?q, ?m, Some ?q)) = Some (Some ?q, ?m, Some ?q)"
    by (induction n) simp_all
  then show ?thesis using 1 by blast
qed

theorem strtok_last_token_repeats_witness:
  "\<exists>mem. DiagStrtokPatch (Some 0) '','' ('',ab'' @ [nul]) None = Some (Some (Suc 0), mem, Some (Suc 0))
    \<and> ((\<lambda>s. Option.bind s (\<lambda>(_, mem, b). DiagStrtokPatch None '','' mem b)) ^^ 1000) (Some (Some (Suc 0), mem, Some (Suc 0))) = Some (Some (Suc 0), mem, Some (Suc 0))"
  using strtok_last_token_repeats [of "'',''" "'',''" "''ab''" "[]" "[]" None 1000] by (simp add: nul_def)

section \<open>Substrings\<close>

lemma match_at_eq: "match_at a b = strstr_match a b"
  by (induction a b rule: match_at.induct) auto

text \<open>\<open>DiagStrstrPatch\<close> is \<open>xml_strstr\<close> from the start of the string.\<close>

lemma strstr_is_xml_strstr: "DiagStrstrPatch s sub = xml_strstr s 0 sub"
proof -
  have "find_sub s sub = strstr_scan s sub" by (induction s sub rule: find_sub.induct) (auto simp: match_at_eq)
  then show ?thesis by (cases "strstr_scan s sub") (simp_all add: DiagStrstrPatch_def xml_strstr_def)
qed

lemma strstr_first: "sub \<noteq> [] \<Longrightarrow> DiagStrstrPatch s sub = Some k \<longleftrightarrow> occurs_at s sub k \<and> (\<forall>j<k. \<not> occurs_at s sub j)"
  by (simp add: strstr_is_xml_strstr xml_strstr_def strstr_scan_Some)

section \<open>Numbers\<close>

lemma digit_value_lt: "is_digit c \<Longrightarrow> digit_value c < 10"
  by (auto simp: is_digit_def digit_value_def)

lemma nul_facts: "\<not> is_digit nul" "\<not> is_xdigit nul" "nul \<noteq> CHR ''-''" "nul \<noteq> CHR ''%''"
  by (simp_all add: nul_def is_digit_def is_xdigit_def)

lemma base_digits_text: "set s \<subseteq> {c. is_digit c} \<Longrightarrow> base_digits 10 (s @ replicate k nul) = s"
proof (induction s)
  case Nil
  show ?case using nul_facts(2) by (cases k) (simp_all add: base_digits_def)
next
  case (Cons c s)
  then show ?case by (simp add: base_digits_def is_xdigit_def digit_value_lt)
qed

lemma judge_digits:
  "set s \<subseteq> {c. is_digit c} \<Longrightarrow> \<not> is_digit x \<Longrightarrow> judge_digit_width (pre @ s @ x # r) (length pre) = Some (length s)"
proof (induction s arbitrary: pre)
  case Nil
  then show ?case by (subst judge_digit_width.simps) (simp add: nth_append)
next
  case (Cons c s)
  then show ?case using Cons.IH [of "pre @ [c]"] by (subst judge_digit_width.simps) (simp add: nth_append)
qed

lemma digit_not_minus: "is_digit c \<Longrightarrow> c \<noteq> CHR ''-'' \<and> c \<noteq> nul \<and> \<not> std_space c \<and> \<not> is_space c"
  by (auto simp: is_digit_def nul_def std_space_def is_space_def)

lemma strtol_digits:
  assumes "rom_ok R" "set s \<subseteq> {c. is_digit c}" "0 < k"
  shows "simple_strtol_patch R (s @ replicate k nul) 10 = of_nat (num_value 10 s)"
proof -
  have h: "hd (s @ replicate k nul) \<noteq> CHR ''-''"
    using assms(2,3) nul_facts(3) digit_not_minus by (cases s; cases k) auto
  have "of_nat n = (ucast (of_nat n :: 64 word) :: 32 word)" for n by (intro bit_word_eqI) (simp add: bit_simps)
  then show ?thesis using assms h base_digits_text [OF assms(2)]
    by (auto simp: simple_strtol_patch_def simple_strtoul_patch_def simple_strtoull_patch_def rom_ok_def radix_of_def)
qed

lemma take_bit_scast: "take_bit 32 (scast (x :: 32 word) :: 64 word) = ucast x"
proof (intro bit_word_eqI)
  fix n :: nat
  consider "n < 31" | "n = 31" | "32 \<le> n" by linarith
  then show "bit (take_bit 32 (scast x :: 64 word)) n = bit (ucast x :: 64 word) n" if "n < LENGTH(64)"
    using that bit_imp_le_length [of x n] by cases (auto simp: bit_simps min_def)
qed

lemma s16_small: "- 32768 \<le> v \<Longrightarrow> v < 32768 \<Longrightarrow> s16 v = v"
  unfolding s16_def sint_sbintrunc' by (simp add: signed_take_bit_int_eq_self)

lemma scan_int_digits:
  assumes "rom_ok R" "set s \<subseteq> {c. is_digit c}" "s \<noteq> []" "length s < 20" "\<not> is_digit x"
  shows "scan_int R (pre @ s @ x # r) (length pre) True 10 (- 1) (CHR 0xFF)
     = Some (Some (length pre + length s, 1, [Int_of 32 (ucast (of_nat (num_value 10 s) :: 32 word))]))"
proof -
  let ?m = "pre @ s @ x # r"
  obtain c t where s: "s = c # t" using assms(3) by (cases s) auto
  have c: "is_digit c" using assms(2) s by simp
  have sk: "skip_spaces R (drop (length pre) ?m) = 0"
    using assms(1) digit_not_minus [OF c] s by (simp add: rom_ok_def)
  have d: "rd ?m (length pre) = Some c" using s by (simp add: rd_def nth_append)
  have b: "\<not> bad_digit 10 c" using c digit_not_minus [OF c] by (simp add: bad_digit_def)
  have "s16 (int (length s)) = int (length s)"
    using assms(4) by (intro s16_small) simp_all
  note w = this judge_digits [OF assms(2,5), of pre r]
  have st: "take (nat (int (length s))) (drop (length pre) ?m) @ replicate (20 - nat (int (length s))) nul = s @ replicate (20 - length s) nul"
    by simp
  have v: "scan_value R True (CHR 0xFF) (s @ replicate (20 - length s) nul) 10 = scast (of_nat (num_value 10 s) :: 32 word)"
    using strtol_digits [OF assms(1,2)] assms(4) by (simp add: scan_value_def)
  have sb: "stored_bits (CHR 0xFF) = 32" by (simp add: stored_bits_def)
  have z: "nul \<in> set (s @ replicate (20 - length s) nul)" using assms(4) by simp
  show ?thesis unfolding scan_int_def Let_def sk add_0_right d Option.bind.bind_lunit
    using b v z digit_not_minus [OF c] assms(4) by (simp add: w take_bit_scast sb nat_add_distrib)
qed

lemma scan_conv_d: "scan_conv R mem (CHR ''d'' # f) i = do {
    x \<leftarrow> rd mem i;
    if x = nul then Some None else map_option (map_option (Pair f)) (scan_int R mem i True 10 (- 1) (CHR 0xFF)) }"
proof -
  obtain v k where a: "skip_atoi R (CHR ''d'' # f @ [nul]) = (v, k)" by fastforce
  show ?thesis by (simp add: scan_conv_def scan_type_def scan_qualifier_def is_digit_def is_l_def is_z_def a cong del: if_weak_cong)
qed

lemma scan_loop_d:
  "scan_loop R mem (CHR ''%'' # CHR ''d'' # f) i num outs =
     (case scan_conv R mem (CHR ''d'' # f) i of None \<Rightarrow> None | Some None \<Rightarrow> Some (num, outs)
      | Some (Some (f, j, n, s)) \<Rightarrow> scan_loop R mem f j (num + n) (outs @ s))"
  by (subst scan_loop.simps) (simp add: is_space_def Let_def)

lemma scan_loop_sep:
  assumes "\<not> is_space c" "c \<noteq> CHR ''%''" "rd mem i = Some c"
  shows "scan_loop R mem (c # f) i num outs = scan_loop R mem f (i + 1) num outs"
  using assms by (subst scan_loop.simps) simp

lemma scan_digits_step:
  assumes "rom_ok R" "set s \<subseteq> {c. is_digit c}" "s \<noteq> []" "length s < 20" "\<not> is_digit x" "mem = pre @ s @ x # r"
  shows "scan_loop R mem (CHR ''%'' # CHR ''d'' # f) (length pre) num outs =
    scan_loop R mem f (length pre + length s) (num + 1) (outs @ [Int_of 32 (ucast (of_nat (num_value 10 s) :: 32 word))])"
proof -
  obtain c t where s: "s = c # t" using assms(3) by (cases s) auto
  then have "rd mem (length pre) = Some c" "c \<noteq> nul" using assms(2,6) digit_not_minus [of c] by (auto simp: rd_def nth_append)
  then show ?thesis unfolding scan_loop_d scan_conv_d using scan_int_digits [OF assms(1-5), of pre r] assms(6) by simp
qed

text \<open>A text of fields between separators.\<close>

fun fields :: "char \<Rightarrow> string list \<Rightarrow> string" where
  "fields sep [] = []"
| "fields sep [s] = s"
| "fields sep (s # t # ss) = s @ sep # fields sep (t # ss)"

lemma scan_fields:
  assumes "rom_ok R" "\<not> is_space sep" "sep \<noteq> CHR ''%''" "\<not> is_digit sep" "\<not> is_digit x"
  shows "\<forall>s \<in> set ss. s \<noteq> [] \<and> set s \<subseteq> {c. is_digit c} \<and> length s < 20 \<Longrightarrow>
    scan_loop R (pre @ fields sep ss @ x # r) (fields sep (replicate (length ss) ''%d'')) (length pre) num outs
      = Some (num + length ss, outs @ map (\<lambda>s. Int_of 32 (ucast (of_nat (num_value 10 s) :: 32 word))) ss)"
proof (induction ss arbitrary: pre num outs rule: induct_list012)
  case 1
  show ?case by (subst scan_loop.simps) simp
next
  case (2 s)
  then show ?case using scan_digits_step [OF assms(1) _ _ _ assms(5), of s "pre @ s @ x # r" pre r "[]" num outs]
    by (simp add: scan_loop.simps [of _ _ "[]"])
next
  case (3 s t ss)
  let ?v = "\<lambda>s. Int_of 32 (ucast (of_nat (num_value 10 s) :: 32 word))"
  let ?m = "pre @ fields sep (s # t # ss) @ x # r" and ?f = "fields sep (replicate (length (t # ss)) ''%d'')"
  have m: "?m = pre @ s @ sep # fields sep (t # ss) @ x # r" "?m = (pre @ s @ [sep]) @ fields sep (t # ss) @ x # r" by simp_all
  have "scan_loop R ?m (fields sep (replicate (length (s # t # ss)) ''%d'')) (length pre) num outs
      = scan_loop R ?m (sep # ?f) (length pre + length s) (num + 1) (outs @ [?v s])"
    using scan_digits_step [OF assms(1) _ _ _ assms(4) m(1), of "sep # ?f" num outs] 3(3) by simp
  also have "\<dots> = scan_loop R ?m ?f (length (pre @ s @ [sep])) (num + 1) (outs @ [?v s])"
    using assms(2,3) by (subst scan_loop_sep) (simp_all add: rd_def nth_append)
  also have "\<dots> = Some (num + length (s # t # ss), outs @ map ?v (s # t # ss))"
    unfolding m(2) using 3(2) [of "pre @ s @ [sep]" "num + 1" "outs @ [?v s]"] 3(3) by simp
  finally show ?case .
qed

text \<open>\<open>DiagSscanfPatch\<close> with a format of \<open>%d\<close>s between separators, as in \<open>%d.%d.%d.%d\<close>, reads the decimal numbers
  of a text of this form, as many as there are, each as its value modulo 2 to the 32. The separator is neither a digit nor a percent sign
  nor one of the characters that the code's \<open>isspace\<close> takes, which are the white space and the comma; no number has 20 digits or more. The functions of the ROM (\<open>skip_spaces\<close>, \<open>skip_atoi\<close>, \<open>_parse_integer\<close>) do what the Linux functions of these names do (\<open>rom_ok\<close>).\<close>

theorem sscanf_reads_fields:
  assumes "rom_ok R" and "\<not> is_space sep" and "sep \<noteq> CHR ''%''" and "\<not> is_digit sep"
    and "\<forall>s \<in> set ss. s \<noteq> [] \<and> set s \<subseteq> {c. is_digit c} \<and> length s < 20"
  shows "DiagSscanfPatch R (fields sep ss @ nul # r) (fields sep (replicate (length ss) ''%d''))
    = Some (length ss, map (\<lambda>s. Int_of 32 (ucast (of_nat (num_value 10 s) :: 32 word))) ss)"
  using scan_fields [OF assms(1-4) nul_facts(1) assms(5), of "[]" r 0 "[]"] by (simp add: DiagSscanfPatch_def)

theorem sscanf_reads_fields_witness:
  "DiagSscanfPatch linux_rom (''192.168.1'' @ [nul]) ''%d.%d.%d'' = Some (3, [Int_of 32 192, Int_of 32 168, Int_of 32 1])"
  using sscanf_reads_fields [OF linux_rom_ok, of "CHR ''.''" "[''192'', ''168'', ''1'']" "[]"]
  by (simp add: is_space_def is_digit_def num_value_def digit_value_def numeral_3_eq_3)

text \<open>A comma is a space to \<open>isspace\<close> and ends the fields: of two numbers with a comma between them only the first is read.\<close>

lemma sscanf_comma: "DiagSscanfPatch linux_rom (''12,34'' @ [nul]) ''%d,%d'' = Some (1, [Int_of 32 12])"
  by code_simp

lemma scan_minus:
  assumes "rom_ok R" "set s \<subseteq> {c. is_digit c}" "s \<noteq> []"
  shows "scan_loop R (CHR ''-'' # s @ nul # r) ''%d'' 0 0 [] = Some (1, [Int_of 32 0])"
proof -
  let ?m = "CHR ''-'' # s @ nul # r"
  have c: "is_digit (hd s)" using assms(2,3) by (cases s) auto
  have rd: "rd ?m 0 = Some CHR ''-''" "rd ?m 1 = Some (hd s)" using assms(3) by (auto simp: rd_def nth_append hd_conv_nth)
  have sk: "skip_spaces R ?m = 0" using assms(1) by (simp add: rom_ok_def std_space_def)
  have j: "judge_digit_width ?m 0 = Some 0" by (subst judge_digit_width.simps) (simp add: is_digit_def)
  have v: "scan_value R True (CHR 0xFF) (replicate 20 nul) 10 = 0"
    using strtol_digits [OF assms(1), of "[]" 20] by (simp add: scan_value_def num_value_def)
  have "scan_int R ?m 0 True 10 (- 1) (CHR 0xFF) = Some (Some (0, 1, [Int_of 32 0]))"
    unfolding scan_int_def Let_def using rd c sk j v digit_not_minus [OF c] s16_small [of 0]
    by (simp add: bad_digit_def stored_bits_def)
  then show ?thesis unfolding scan_loop_d scan_conv_d using rd(1) nul_facts(3) by (simp add: scan_loop.simps [of _ _ "[]"])
qed

text \<open>C35: What \<open>VSprintfPatch\<close> prints with \<open>%d\<close> reads back with \<open>%d\<close> as the same number if it is not negative. A negative
  number is read as 0: the width is the number of decimal digits at the start of the text, and the minus sign is none.\<close>

theorem printf_scanf_roundtrip:
  assumes "rom_ok R" and "VSprintfPatch (Some cap) ''%d'' [Word w] l = Some (st, n)"
  shows "DiagSscanfPatch R (bufr st @ nul # r) ''%d'' = Some (1, [Int_of 32 (if 0 \<le> sint w then ucast w else 0)])"
proof -
  let ?ds = "rev (dec_digits (nat (abs (sint w))))"
  have m: "sint w \<noteq> - (2 ^ 31)"
  proof
    assume "sint w = - (2 ^ 31)"
    then show False using assms(2) by (simp add: VSprintfPatch_def fmt_item_def item_dec_def is_digit_def)
  qed
  have b: "bufr st = (if sint w < 0 then ''-'' else []) @ ?ds"
    using assms(2) item_dec_plain [OF m] unfolding VSprintfPatch_def
    by (auto simp: fmt_item_def is_digit_def first_shift_def put_char_def dest!: put_item_bufr split: bind_splits if_splits option.splits)
  have d: "set ?ds \<subseteq> {c. is_digit c}" "?ds \<noteq> []" using dec_digits_digits by (auto, subst (asm) dec_digits.simps, simp)
  have "nat (abs (sint w)) < 10 ^ 10" using sint_ge [of w] sint_lt [of w] by simp
  then have l: "length ?ds < 20" using dec_digits_length_le [of _ 10] by fastforce
  show ?thesis
  proof (cases "0 \<le> sint w")
    case True
    have "of_nat (nat (sint w)) = w" using True by simp
    then show ?thesis using True b scan_digits_step [OF assms(1) d l nul_facts(1) refl, of "[]" r "[]" 0 "[]"]
      by (simp add: DiagSscanfPatch_def dec_digits_value scan_loop.simps [of _ _ "[]"])
  next
    case False
    then have "bufr st @ nul # r = CHR ''-'' # ?ds @ nul # r" using b by simp
    then show ?thesis using False scan_minus [OF assms(1) d] by (simp add: DiagSscanfPatch_def)
  qed
qed

theorem printf_scanf_roundtrip_witness:
  "VSprintfPatch (Some 30) ''%d'' [Word 42] [] = Some (\<lparr>bufr = ''42'', line = []\<rparr>, 2)
    \<and> DiagSscanfPatch linux_rom (''42'' @ [nul]) ''%d'' = Some (1, [Int_of 32 42])"
proof -
  have p: "VSprintfPatch (Some 30) ''%d'' [Word 42] [] = Some (\<lparr>bufr = ''42'', line = []\<rparr>, 2)" by code_simp
  have "DiagSscanfPatch linux_rom (''42'' @ [nul]) ''%d'' = Some (1, [Int_of 32 42])"
    using printf_scanf_roundtrip [OF linux_rom_ok p, of "[]"] by simp
  then show ?thesis using p by blast
qed

text \<open>A decimal number of 20 digits or more is undefined behaviour: more than 20 are copied past the end of
  \<open>str_store\<close>, and exactly 20 leave no zero in it.\<close>

theorem sscanf_long_number:
  assumes "rom_ok R" and "set s \<subseteq> {c. is_digit c}" and "20 \<le> length s" and "length s < 32768" and "\<not> is_digit x"
  shows "DiagSscanfPatch R (s @ x # r) ''%d'' = None"
proof -
  obtain c t where s: "s = c # t" using assms(3) by (cases s) auto
  then have c: "is_digit c" using assms(2) by simp
  have rd: "rd (s @ x # r) 0 = Some c" using s by (simp add: rd_def)
  have sk: "skip_spaces R (s @ x # r) = 0" using assms(1) s digit_not_minus [OF c] by (simp add: rom_ok_def)
  have j: "judge_digit_width (s @ x # r) 0 = Some (length s)" using judge_digits [OF assms(2,5), of "[]"] by simp
  have w: "s16 (int (length s)) = int (length s)" using assms(4) by (intro s16_small) simp_all
  have n: "nul \<notin> set s" using assms(2) nul_facts(1) by auto
  have "scan_int R (s @ x # r) 0 True 10 (- 1) (CHR 0xFF) = None"
    unfolding scan_int_def Let_def using rd c sk j w n assms(3) digit_not_minus [OF c]
    by (simp add: bad_digit_def)
  then show ?thesis unfolding DiagSscanfPatch_def scan_loop_d scan_conv_d using rd digit_not_minus [OF c] by simp
qed

theorem sscanf_long_number_witness: "DiagSscanfPatch linux_rom (replicate 25 (CHR ''7'') @ [nul]) ''%d'' = None"
  by (rule sscanf_long_number [OF linux_rom_ok]) (simp_all add: is_digit_def nul_def)

end
