(* ===== verification/Ota.thy ===== *)
theory Ota
  imports Flash
begin

text \<open>
  The firmware update over TCP, \<open>common/utilities/update.c\<close>, as it is compiled for the RTL8195A with a server in the
  local network (\<open>SERVER_LOCAL\<close>, \<open>WRITE_OTA_ADDR\<close>, \<open>CONFIG_CUSTOM_SIGNATURE\<close>; no swapping of images). It works on
  the flash of \<open>Flash\<close>. The connection is the list of what \<open>read\<close> finds on the socket; a call takes at most as
  many bytes as it asks for and leaves the rest, and at the end of the list the server has closed the connection.
  A 32-bit address is a number below \<open>2 ^ 32\<close>. A result \<open>None\<close> is undefined behaviour.
\<close>

abbreviation (input) "BACKUP_SECTOR \<equiv> 0x8000 :: nat"
abbreviation (input) "IMAGE_2 \<equiv> 0xB000 :: nat"
abbreviation (input) "BUF_SIZE \<equiv> 512 :: nat"

text \<open>\<open>cus_sig\<close>: the text and the zeros behind it, 32 bytes.\<close>

definition custom_sig :: buf where
  "custom_sig = map of_char ''Customer Signature-modelxxx'' @ replicate 5 0"

section \<open>The socket\<close>

datatype rx = Data buf | Rx_error

fun sock_read :: "nat \<Rightarrow> rx list \<Rightarrow> buf option \<times> rx list" where
  "sock_read n [] = (Some [], [])"
| "sock_read n (Rx_error # es) = (None, es)"
| "sock_read n (Data bs # es) = (Some (take n bs), if length bs \<le> n then es else Data (drop n bs) # es)"

section \<open>The address of the image\<close>

text \<open>The loops over the words of a sector: to the backup sector, the first word replaced, and back.\<close>

fun backup_words :: "nor \<Rightarrow> 32 word \<Rightarrow> nat \<Rightarrow> nat \<Rightarrow> flash \<Rightarrow> flash" where
  "backup_words d ota_addr 0 i f = f"
| "backup_words d ota_addr (Suc n) i f =
     (let data = flash_read_word f (OFFSET_DATA + i);
          data = (if i = 0 then ota_addr else data)
      in backup_words d ota_addr n (i + 4) (flash_write_word d f (BACKUP_SECTOR + i) data))"

fun restore_words :: "nor \<Rightarrow> nat \<Rightarrow> nat \<Rightarrow> flash \<Rightarrow> flash" where
  "restore_words d 0 i f = f"
| "restore_words d (Suc n) i f =
     restore_words d n (i + 4) (flash_write_word d f (OFFSET_DATA + i) (flash_read_word f (BACKUP_SECTOR + i)))"

definition write_ota_addr_to_system_data :: "nor \<Rightarrow> flash \<Rightarrow> 32 word \<Rightarrow> flash" where
  "write_ota_addr_to_system_data d f ota_addr =
     (let data = flash_read_word f OFFSET_DATA in
      if data = - 1 then flash_write_word d f OFFSET_DATA ota_addr
      else let f = flash_erase_sector d f BACKUP_SECTOR;
               f = backup_words d ota_addr 1024 0 f;
               f = flash_erase_sector d f OFFSET_DATA;
               f = restore_words d 1024 0 f
           in flash_erase_sector d f BACKUP_SECTOR)"

text \<open>The image that is in use: image 3 if there is one, otherwise image 2, with its length.\<close>

definition find_image :: "flash \<Rightarrow> nat \<times> nat" where
  "find_image f =
     (let Img2Len = unat (flash_read_word f IMAGE_2);
          IMAGE_x = add32 (add32 IMAGE_2 Img2Len) 0x10;
          ImgxLen = unat (flash_read_word f IMAGE_x);
          ImgxAddr = flash_read_word f (add32 IMAGE_x 4)
      in if ImgxAddr = 0x30000000 then (IMAGE_x, ImgxLen) else (IMAGE_2, Img2Len))"

definition illegal_addr :: "nat \<Rightarrow> nat \<Rightarrow> nat \<Rightarrow> bool" where
  "illegal_addr a IMAGE_x ImgxLen \<longleftrightarrow>
     (a > IMAGE_x \<and> a < add32 IMAGE_x ImgxLen) \<or> a < IMAGE_x \<or> a mod 0x1000 \<noteq> 0 \<or> a = 2 ^ 32 - 1"

section \<open>Receiving the image\<close>

definition byte_sum :: "buf \<Rightarrow> 32 word" where
  "byte_sum bs = sum_list (map ucast bs)"

fun erase_blocks :: "nor \<Rightarrow> nat \<Rightarrow> nat \<Rightarrow> nat \<Rightarrow> flash \<Rightarrow> flash" where
  "erase_blocks d a 0 i f = f"
| "erase_blocks d a (Suc n) i f = erase_blocks d a n (i + 1) (flash_erase_sector d f (add32 a (i * 4096)))"

text \<open>The loop that receives: \<open>size\<close> bytes so far, their checksum without the last four, which are
  \<open>file_checksum\<close>. The inner \<open>None\<close> is the jump to \<open>update_ota_exit\<close>. Of a piece shorter than four bytes the code
  reads bytes before the buffer.\<close>

fun rx_size :: "rx \<Rightarrow> nat" where
  "rx_size (Data bs) = Suc (length bs)"
| "rx_size Rx_error = 1"

lemma sock_read_less:
  "sock_read n es = (Some bs, es') \<Longrightarrow> bs \<noteq> [] \<Longrightarrow> sum_list (map rx_size es') < sum_list (map rx_size es)"
  by (induction n es rule: sock_read.induct) (auto split: if_splits)

function recv_image :: "nor \<Rightarrow> nat \<Rightarrow> nat \<Rightarrow> rx list \<Rightarrow> flash \<Rightarrow> nat \<Rightarrow> 32 word \<Rightarrow> buf
    \<Rightarrow> (flash \<times> (nat \<times> 32 word \<times> buf) option) option" where
  "recv_image d NewImg2Len address es f sz checksum file_checksum =
     (case sock_read BUF_SIZE es of
        (None, es) \<Rightarrow> Some (f, None)
      | (Some bs, es) \<Rightarrow>
          if bs = [] then Some (f, Some (sz, checksum, file_checksum))
          else (case flash_stream_write d f (add32 address sz) (length bs) (bs @ replicate (BUF_SIZE - length bs) 0) of
            None \<Rightarrow> None
          | Some f \<Rightarrow>
              let checksum = checksum + byte_sum file_checksum + byte_sum (take (length bs - 4) bs);
                  sz = sz + length bs
              in if length bs < 4 \<or> sz \<ge> 2 ^ 31 then None
                 else let file_checksum = drop (length bs - 4) bs
                      in if sz = NewImg2Len then Some (f, Some (sz, checksum, file_checksum))
                         else recv_image d NewImg2Len address es f sz checksum file_checksum))"
  by pat_completeness auto
termination
proof (relation "measure (\<lambda>(d, n, a, es, f, s, c, fc). sum_list (map rx_size es))", goal_cases)
  case 1
  show ?case by simp
next
  case 2
  then show ?case by (auto dest: sock_read_less [OF sym])
qed

declare recv_image.simps [simp del]

text \<open>The checksum over what is in the flash, in pieces of \<open>BUF_SIZE\<close> bytes; \<open>n\<close> is \<open>size - 4\<close>, or 0 where that is
  negative.\<close>

function flash_checksum :: "flash \<Rightarrow> nat \<Rightarrow> nat \<Rightarrow> nat \<Rightarrow> 32 word \<Rightarrow> 32 word option" where
  "flash_checksum f address n i acc =
     (if i < n then
        case flash_stream_read BUF_SIZE f (add32 address i) (min BUF_SIZE (n - i)) of
          None \<Rightarrow> None
        | Some bs \<Rightarrow> flash_checksum f address n (i + BUF_SIZE) (acc + byte_sum bs)
      else Some acc)"
  by pat_completeness auto
termination by (relation "measure (\<lambda>(f, a, n, i, acc). n - i)") auto

declare flash_checksum.simps [simp del]

text \<open>\<open>strcmp\<close> returning 0; a text without a zero that ends is undefined, which does not happen before the zero of
  \<open>custom_sig\<close>.\<close>

fun strcmp_equal :: "buf \<Rightarrow> buf \<Rightarrow> bool" where
  "strcmp_equal (x # xs) (y # ys) = (x = y \<and> (x = 0 \<or> strcmp_equal xs ys))"
| "strcmp_equal _ _ = False"

definition read_custom_sig :: "flash \<Rightarrow> nat \<Rightarrow> buf" where
  "read_custom_sig f address =
     concat (map (\<lambda>i. bytes_of (flash_read_word f (add32 address (0x28 + i * 4)))) [0..<8])"

section \<open>The task\<close>

text \<open>What the task does besides writing to the flash, in order; \<open>Reset\<close> restarts the chip.\<close>

datatype ota_event = Free_buf | Close_socket | Free_param | Reset

text \<open>The announcement of the file, three words; the third one is the size. Then the rest, with the address of the image; the result is the flash and whether
  \<open>ret\<close> is 0.\<close>

definition read_info :: "rx list \<Rightarrow> nat \<times> rx list" where
  "read_info es =
     (let (r, es) = sock_read 12 es;
          info = (case r of Some bs \<Rightarrow> bs | None \<Rightarrow> [])
      in (unat (word_of (drop 8 (info @ replicate (12 - length info) 0))), es))"

definition receive_and_check :: "nor \<Rightarrow> nat \<Rightarrow> rx list \<Rightarrow> flash \<Rightarrow> (flash \<times> bool) option" where
  "receive_and_check d NewImg2Addr es f =
     (let (NewImg2Len, es) = read_info es
      in if NewImg2Len = 0 \<or> \<not> NewImg2Len < 2 ^ 31 then Some (f, False)
         else let f = erase_blocks d NewImg2Addr ((NewImg2Len - 1) div 4096 + 1) 0 f
              in if NewImg2Addr = 2 ^ 32 - 1 then Some (f, False)
                 else do {
                   (f, r) \<leftarrow> recv_image d NewImg2Len NewImg2Addr es f 0 0 [0, 0, 0, 0];
                   (case r of None \<Rightarrow> Some (f, False)
                    | Some (sz, checksum, file_checksum) \<Rightarrow> do {
                        fc \<leftarrow> flash_checksum f NewImg2Addr (sz - 4) 0 0;
                        if word_of file_checksum = checksum \<and> word_of file_checksum = fc
                             \<and> strcmp_equal (read_custom_sig f NewImg2Addr) custom_sig then
                          let f = flash_write_word d f (add32 NewImg2Addr 8) 0x35393138;
                              f = flash_write_word d f (add32 NewImg2Addr 12) 0x31313738
                          in Some (f, True)
                        else Some (f, False)
                      })
                 })"

text \<open>The task with what its surroundings answer: whether \<open>update_malloc\<close>, \<open>socket\<close> and \<open>connect\<close> succeed. Without a
  buffer it goes on to compare \<open>server_socket\<close>, which has no value yet.\<close>

definition update_ota_local_task :: "nor \<Rightarrow> bool \<Rightarrow> bool \<Rightarrow> bool \<Rightarrow> rx list \<Rightarrow> flash \<Rightarrow> (flash \<times> ota_event list) option" where
  "update_ota_local_task d malloc_ok socket_ok connect_ok es f =
     (if \<not> malloc_ok then None
      else if \<not> socket_ok then Some (f, [Free_buf, Free_param])
      else if \<not> connect_ok then Some (f, [Free_buf, Close_socket, Free_param])
      else let (IMAGE_x, ImgxLen) = find_image f in
           if illegal_addr 0x80000 IMAGE_x ImgxLen then Some (f, [Free_buf, Close_socket, Free_param])
           else let f = write_ota_addr_to_system_data d f 0x80000;
                    NewImg2Addr = unat (flash_read_word f OFFSET_DATA)
                in if illegal_addr NewImg2Addr IMAGE_x ImgxLen then Some (f, [Free_buf, Close_socket, Free_param])
                   else do {
                     (f, success) \<leftarrow> receive_and_check d NewImg2Addr es f;
                     Some (f, [Free_buf, Close_socket, Free_param] @ (if success then [Reset] else []))
                   })"

text \<open>\<open>update_ota_local\<close>: \<open>TaskOTA\<close> says whether a task runs; the result is what it returns, \<open>TaskOTA\<close>, and whether
  the parameter block is held by a task.\<close>

definition update_ota_local :: "bool \<Rightarrow> bool \<Rightarrow> bool \<Rightarrow> int \<times> bool \<times> bool" where
  "update_ota_local malloc_ok create_ok TaskOTA =
     (if TaskOTA then (0, TaskOTA, False)
      else if \<not> malloc_ok then (-1, TaskOTA, False)
      else if create_ok then (0, True, True) else (0, TaskOTA, False))"

definition cmd_update :: "nat \<Rightarrow> bool \<Rightarrow> bool \<Rightarrow> bool \<Rightarrow> bool \<times> bool" where
  "cmd_update argc malloc_ok create_ok TaskOTA =
     (if argc \<noteq> 3 then (TaskOTA, False) else snd (update_ota_local malloc_ok create_ok TaskOTA))"

section \<open>Choosing the image\<close>

definition cmd_ota_image :: "nor \<Rightarrow> bool \<Rightarrow> bool \<Rightarrow> flash \<Rightarrow> flash option" where
  "cmd_ota_image d cmd malloc_ok f =
     (let Part2Addr = flash_read_word f OFFSET_DATA in
      if Part2Addr = - 1 then Some f
      else if \<not> malloc_ok then Some f
      else do {
        pbuf \<leftarrow> flash_stream_read 0x1000 f (unat Part2Addr) 0x1000;
        pbuf \<leftarrow> wrn pbuf 8 (map of_char (if cmd then ''81958711'' else ''01958711''));
        let f = flash_erase_sector d f (unat Part2Addr);
        flash_stream_write d f (unat Part2Addr) 0x1000 pbuf
      })"

end
