(* ===== verification/OtaProps.thy ===== *)
theory OtaProps
  imports Ota
begin

text \<open>
  What the update over TCP leaves in the flash: the sector with the address of the image, and the image, whatever
  pieces the network delivers it in.
\<close>

section \<open>Words and sectors\<close>

lemma sector_iff:
  assumes "(a::nat) mod 4096 = 0"
  shows "x div 4096 = a div 4096 \<longleftrightarrow> a \<le> x \<and> x < a + 4096"
proof -
  obtain m where m: "a = 4096 * m" using assms by (auto simp: dvd_eq_mod_eq_0 [symmetric])
  have "x div 4096 = m \<longleftrightarrow> 4096 * m \<le> x \<and> x < 4096 * m + 4096"
    using div_times_less_eq_dividend [of x 4096] dividend_less_div_times [of 4096 x]
    by (auto simp: mult.commute add.commute intro: div_nat_eqI)
  then show ?thesis by (simp add: m)
qed

lemma erase_apply:
  "nor_ok d \<Longrightarrow> a mod 4096 = 0 \<Longrightarrow> flash_erase_sector d f a x = (if a \<le> x \<and> x < a + 4096 then 0xFF else f x)"
  by (simp add: flash_erase_sector_def nor_ok_def sector_iff)

lemma write_word_eq: "flash_write_word d f a w = programmed d f a (bytes_of w)"
  by (simp add: flash_write_word_def HAL_WRITE32_def)

lemma bytes_of_read_word: "bytes_of (flash_read_word f a) = bytes_at f a 4"
  by (simp add: flash_read_word_def bytes_of_READ32)

lemma bytes_at_programmed_other:
  "b + n \<le> a \<or> a + length bs \<le> b \<Longrightarrow> bytes_at (programmed d f a bs) b n = bytes_at f b n"
  by (rule bytes_at_cong) (auto simp: programmed_def)

lemma programmed_other: "x < a \<or> a + length bs \<le> x \<Longrightarrow> programmed d f a bs x = f x"
  by (auto simp: programmed_def)

lemma bytes_at_nth: "k < n \<Longrightarrow> bytes_at f a n ! k = f (a + k)"
  by (simp add: bytes_at_def)

lemma bytes_at_eqI: "length bs = n \<Longrightarrow> (\<And>k. k < n \<Longrightarrow> f (a + k) = bs ! k) \<Longrightarrow> bytes_at f a n = bs"
  by (rule nth_equalityI) (simp_all add: bytes_at_nth)

lemma read_word_eq: "bytes_at f a 4 = bytes_of w \<Longrightarrow> flash_read_word f a = w"
  by (simp add: flash_read_word_def HAL_READ32_def)

section \<open>The address of the image\<close>

lemma backup_words_eq:
  "0 < i \<Longrightarrow> i + 4 * n \<le> 4096 \<Longrightarrow> backup_words d w n i f = programmed d f (0x8000 + i) (bytes_at f (0x9000 + i) (4 * n))"
proof (induction n arbitrary: i f)
  case (Suc n)
  let ?f = "programmed d f (0x8000 + i) (bytes_at f (0x9000 + i) 4)"
  have "bytes_at f (0x9000 + i) (4 * Suc n) = bytes_at f (0x9000 + i) 4 @ bytes_at f (0x9000 + (i + 4)) (4 * n)"
    by (simp only: mult_Suc_right bytes_at_add add.assoc)
  moreover have "bytes_at ?f (0x9000 + (i + 4)) (4 * n) = bytes_at f (0x9000 + (i + 4)) (4 * n)"
    using Suc.prems by (intro bytes_at_programmed_other) simp
  ultimately show ?case using Suc.IH [of "i + 4" ?f] Suc.prems
    by (simp add: write_word_eq bytes_of_read_word programmed_append add.assoc)
qed (simp add: bytes_at_def)

lemma backup_words_all:
  "backup_words d w 1024 0 f = programmed d f 0x8000 (bytes_of w @ bytes_at f 0x9004 4092)"
proof -
  have s: "1024 = Suc 1023" by simp
  let ?f = "programmed d f 0x8000 (bytes_of w)"
  have "backup_words d w 1024 0 f = backup_words d w 1023 4 ?f"
    unfolding s backup_words.simps by (simp add: write_word_eq Let_def)
  also have "\<dots> = programmed d ?f 0x8004 (bytes_at f 0x9004 4092)"
    using backup_words_eq [of 4 1023 d w ?f] bytes_at_programmed_other [of "0x9004" 4092 "0x8000" "bytes_of w" d f] by simp
  finally show ?thesis by (simp add: programmed_append)
qed

lemma restore_words_eq:
  "i + 4 * n \<le> 4096 \<Longrightarrow> restore_words d n i f = programmed d f (0x9000 + i) (bytes_at f (0x8000 + i) (4 * n))"
proof (induction n arbitrary: i f)
  case (Suc n)
  let ?f = "programmed d f (0x9000 + i) (bytes_at f (0x8000 + i) 4)"
  have "bytes_at f (0x8000 + i) (4 * Suc n) = bytes_at f (0x8000 + i) 4 @ bytes_at f (0x8000 + (i + 4)) (4 * n)"
    by (simp only: mult_Suc_right bytes_at_add add.assoc)
  moreover have "bytes_at ?f (0x8000 + (i + 4)) (4 * n) = bytes_at f (0x8000 + (i + 4)) (4 * n)"
    using Suc.prems by (intro bytes_at_programmed_other) simp
  ultimately show ?case using Suc.IH [of "i + 4" ?f] Suc.prems
    by (simp add: write_word_eq bytes_of_read_word programmed_append add.assoc)
qed (simp add: bytes_at_def)

lemma ota_addr_cases:
  assumes d: "nor_ok d"
  shows "bytes_at (write_ota_addr_to_system_data d f w) 0x9000 4 = bytes_of w"
    and "0x9004 \<le> x \<and> x < 0xA000 \<or> x < 0x8000 \<or> 0xA000 \<le> x \<Longrightarrow> write_ota_addr_to_system_data d f w x = f x"
proof -
  let ?g = "write_ota_addr_to_system_data d f w"
  have "bytes_at ?g 0x9000 4 = bytes_of w \<and> (0x9004 \<le> x \<and> x < 0xA000 \<or> x < 0x8000 \<or> 0xA000 \<le> x \<longrightarrow> ?g x = f x)"
  proof (cases "flash_read_word f OFFSET_DATA = - 1")
    case True
    have "bytes_of (- 1) = replicate 4 0xFF" by code_simp
    then have "bytes_at f 0x9000 4 = replicate 4 0xFF" using bytes_of_read_word [of f "0x9000"] True by simp
    then have e: "f (0x9000 + k) = 0xFF" if "k < 4" for k using that bytes_at_nth [of k 4 f "0x9000"] by simp
    have "f y = 0xFF" if "0x9000 \<le> y" "y < 0x9004" for y using e [of "y - 0x9000"] that by simp
    then have "erased f 0x9000 4" by (simp add: erased_def)
    then have "bytes_at (programmed d f 0x9000 (bytes_of w)) 0x9000 4 = bytes_of w"
      using bytes_at_programmed [OF d, of f "0x9000" "bytes_of w"] by simp
    then show ?thesis using True by (simp add: write_ota_addr_to_system_data_def write_word_eq programmed_other)
  next
    case False
    define f1 where "f1 = flash_erase_sector d f 0x8000"
    define b where "b = bytes_of w @ bytes_at f1 0x9004 4092"
    define f2 where "f2 = programmed d f1 0x8000 b"
    define f3 where "f3 = flash_erase_sector d f2 0x9000"
    define f4 where "f4 = programmed d f3 0x9000 (bytes_at f3 0x8000 4096)"
    have g: "?g = flash_erase_sector d f4 0x8000"
      using False unfolding write_ota_addr_to_system_data_def Let_def backup_words_all f1_def f2_def b_def f3_def f4_def
      by (simp add: restore_words_eq)
    have lb: "length b = 4096" by (simp add: b_def)
    have "erased f1 0x8000 (length b)" using d by (simp add: erased_def f1_def erase_apply lb)
    then have "bytes_at f2 0x8000 4096 = b" using bytes_at_programmed [OF d, of f1 "0x8000" b] by (simp add: f2_def lb)
    moreover have "bytes_at f3 0x8000 4096 = bytes_at f2 0x8000 4096" using d by (intro bytes_at_cong) (simp add: f3_def erase_apply)
    ultimately have f4: "f4 = programmed d f3 0x9000 b" by (simp add: f4_def)
    have "erased f3 0x9000 (length b)" using d by (simp add: erased_def f3_def erase_apply lb)
    then have "bytes_at f4 0x9000 4096 = b" using bytes_at_programmed [OF d, of f3 "0x9000" b] by (simp add: f4 lb)
    moreover have "bytes_at ?g 0x9000 4096 = bytes_at f4 0x9000 4096" using d by (intro bytes_at_cong) (simp add: g erase_apply)
    ultimately have 1: "bytes_at ?g 0x9000 4096 = b" by simp
    then have "bytes_at ?g 0x9000 4 = take 4 b" using take_bytes_at [of 4 4096 ?g "0x9000"] by simp
    then have 2: "bytes_at ?g 0x9000 4 = bytes_of w" by (simp add: b_def)
    have "?g x = f x" if "0x9004 \<le> x" "x < 0xA000"
    proof -
      define k where "k = x - 0x9004"
      have k: "x = 0x9000 + (4 + k)" "k < 4092" using that by (simp_all add: k_def)
      have "?g x = b ! (4 + k)" using bytes_at_nth [of "4 + k" 4096 ?g "0x9000"] 1 k by simp
      also have "\<dots> = f1 (0x9004 + k)" using k(2) by (simp add: b_def nth_append bytes_at_nth)
      finally show ?thesis using d k by (simp add: f1_def erase_apply)
    qed
    moreover have "?g x = f x" if "x < 0x8000 \<or> 0xA000 \<le> x"
      using that d lb by (auto simp: g erase_apply f4 programmed_other f3_def f2_def f1_def)
    ultimately show ?thesis using 2 by blast
  qed
  then show "bytes_at ?g 0x9000 4 = bytes_of w"
    and "0x9004 \<le> x \<and> x < 0xA000 \<or> x < 0x8000 \<or> 0xA000 \<le> x \<Longrightarrow> ?g x = f x" by blast+
qed

text \<open>C38: \<open>write_ota_addr_to_system_data\<close> sets the first word of the system data to the address of the image and leaves
  the rest of this sector as it was, although the sector is erased on the way; outside of it and of the backup
  sector no byte of the flash changes.\<close>

theorem ota_addr_written:
  assumes "nor_ok d"
  shows "flash_read_word (write_ota_addr_to_system_data d f ota_addr) OFFSET_DATA = ota_addr
    \<and> (\<forall>x. OFFSET_DATA + 4 \<le> x \<and> x < OFFSET_DATA + 0x1000 \<longrightarrow> write_ota_addr_to_system_data d f ota_addr x = f x)
    \<and> (\<forall>x. x < BACKUP_SECTOR \<or> OFFSET_DATA + 0x1000 \<le> x \<longrightarrow> write_ota_addr_to_system_data d f ota_addr x = f x)"
  using ota_addr_cases [OF assms] by (simp add: read_word_eq)

theorem ota_addr_written_witness:
  "flash_read_word (write_ota_addr_to_system_data nor_and (\<lambda>x. of_nat x) 0x80000) OFFSET_DATA = 0x80000
    \<and> write_ota_addr_to_system_data nor_and (\<lambda>x. of_nat x) 0x80000 0x9010 = 0x10"
  using ota_addr_written [OF nor_and_ok, of "\<lambda>x. of_nat x" "0x80000"] by simp

section \<open>Receiving\<close>

lemma byte_sum_append [simp]: "byte_sum (xs @ ys) = byte_sum xs + byte_sum ys"
  by (simp add: byte_sum_def)

lemma byte_sum_Nil [simp]: "byte_sum [] = 0"
  by (simp add: byte_sum_def)

lemma byte_sum_split: "byte_sum (take n bs) + byte_sum (drop n bs) = byte_sum bs"
  by (simp add: byte_sum_append [symmetric] del: byte_sum_append)

lemma recv_piece:
  assumes d: "nor_ok d" and c: "4 \<le> length c" "length c \<le> 512" and a: "address + sz + length c + 4 < 2 ^ 32" "sz + length c < 2 ^ 31"
  shows "recv_image d n address (Data c # es) f sz cs fc =
    (let f = programmed d f (address + sz) c; cs = cs + byte_sum fc + byte_sum (take (length c - 4) c); sz = sz + length c
     in if sz = n then Some (f, Some (sz, cs, drop (length c - 4) c))
        else recv_image d n address es f sz cs (drop (length c - 4) c))"
proof -
  have "flash_stream_write d f (address + sz) (length c) (c @ replicate (512 - length c) 0) = Some (programmed d f (address + sz) c)"
    using stream_write_eq [OF d, of "length c" "c @ replicate (512 - length c) 0" "address + sz" f] c a by force
  moreover have "add32 address sz = address + sz" using a by simp
  moreover have "c \<noteq> []" "\<not> length c < 4" "\<not> sz + length c \<ge> 2 ^ 31" using c a by auto
  ultimately show ?thesis using c(2) by (subst recv_image.simps) (simp add: Let_def split del: if_split)
qed

lemma recv_pieces:
  assumes d: "nor_ok d" and a: "address + n + 4 < 2 ^ 32" "n < 2 ^ 31"
  shows "cs \<noteq> [] \<Longrightarrow> \<forall>c \<in> set cs. 4 \<le> length c \<and> length c \<le> 512 \<Longrightarrow> sz + length (concat cs) = n \<Longrightarrow>
    recv_image d n address (map Data cs @ es) f sz sm fc = Some (programmed d f (address + sz) (concat cs),
      Some (n, sm + byte_sum fc + byte_sum (take (length (concat cs) - 4) (concat cs)), drop (length (concat cs) - 4) (concat cs)))"
proof (induction cs arbitrary: f sz sm fc)
  case (Cons c cs)
  have c: "4 \<le> length c" "length c \<le> 512" "address + sz + length c + 4 < 2 ^ 32" "sz + length c < 2 ^ 31"
    using Cons.prems a by auto
  show ?case
  proof (cases "cs = []")
    case True
    then show ?thesis using Cons.prems(3) by (simp add: recv_piece [OF d c] Let_def)
  next
    case False
    then obtain b bs where cs: "cs = b # bs" by (cases cs) auto
    have l: "4 \<le> length (concat cs)" using Cons.prems(2) by (simp add: cs)
    have ne: "sz + length c \<noteq> n" using l Cons.prems(3) by simp
    have t: "take (length (concat (c # cs)) - 4) (concat (c # cs)) = c @ take (length (concat cs) - 4) (concat cs)"
      "drop (length (concat (c # cs)) - 4) (concat (c # cs)) = drop (length (concat cs) - 4) (concat cs)"
      using l by simp_all
    have "recv_image d n address (map Data (c # cs) @ es) f sz sm fc = recv_image d n address (map Data cs @ es)
        (programmed d f (address + sz) c) (sz + length c) (sm + byte_sum fc + byte_sum (take (length c - 4) c)) (drop (length c - 4) c)"
      using ne by (simp add: recv_piece [OF d c] Let_def)
    also have "\<dots> = Some (programmed d (programmed d f (address + sz) c) (address + (sz + length c)) (concat cs),
        Some (n, sm + byte_sum fc + byte_sum (take (length c - 4) c) + byte_sum (drop (length c - 4) c)
          + byte_sum (take (length (concat cs) - 4) (concat cs)), drop (length (concat cs) - 4) (concat cs)))"
      using Cons.IH [OF False, of "sz + length c"] Cons.prems by simp
    also have "\<dots> = Some (programmed d f (address + sz) (concat (c # cs)),
        Some (n, sm + byte_sum fc + byte_sum (take (length (concat (c # cs)) - 4) (concat (c # cs))), drop (length (concat (c # cs)) - 4) (concat (c # cs))))"
      unfolding t by (simp add: programmed_append add.assoc byte_sum_split [of "length c - 4" c, symmetric])
    finally show ?thesis .
  qed
qed simp

lemma flash_checksum_eq:
  "address + n + 4 < 2 ^ 32 \<Longrightarrow> i \<le> n \<Longrightarrow> flash_checksum f address n i acc = Some (acc + byte_sum (bytes_at f (address + i) (n - i)))"
proof (induction "n - i" arbitrary: i acc rule: less_induct)
  case less
  show ?case
  proof (cases "i < n")
    case True
    let ?r = "min 512 (n - i)"
    have r: "flash_stream_read 512 f (add32 address i) ?r = Some (bytes_at f (address + i) ?r)"
      using stream_read_eq [of ?r 512 "address + i" f] True less.prems(1) by simp
    show ?thesis
    proof (cases "512 \<le> n - i")
      case ge: True
      then have "n - i = 512 + (n - (i + 512))" by simp
      then have "bytes_at f (address + i) (n - i) = bytes_at f (address + i) 512 @ bytes_at f (address + (i + 512)) (n - (i + 512))"
        by (metis add.assoc bytes_at_add)
      then show ?thesis using r ge True less.hyps [of "i + 512" "acc + byte_sum (bytes_at f (address + i) 512)"] less.prems
        by (subst flash_checksum.simps) (simp add: add.assoc)
    next
      case False
      then have m: "?r = n - i" by simp
      have "flash_checksum f address n (i + 512) b = Some b" for b
      proof -
        have "\<not> i + 512 < n" using False by linarith
        then show ?thesis by (subst flash_checksum.simps) simp
      qed
      then show ?thesis using r True unfolding m by (subst flash_checksum.simps) (simp add: m)
    qed
  next
    case False
    then show ?thesis using less.prems by (subst flash_checksum.simps) (simp add: bytes_at_def)
  qed
qed

lemma erase_blocks_apply:
  "nor_ok d \<Longrightarrow> a mod 4096 = 0 \<Longrightarrow> a + (i + n) * 4096 < 2 ^ 32 \<Longrightarrow>
   erase_blocks d a n i f x = (if a + i * 4096 \<le> x \<and> x < a + (i + n) * 4096 then 0xFF else f x)"
proof (induction n arbitrary: i f)
  case (Suc n)
  have "add32 a (i * 4096) = a + i * 4096" using Suc.prems(3) by simp
  then have "erase_blocks d a (Suc n) i f x = (if a + (i + 1) * 4096 \<le> x \<and> x < a + (i + 1 + n) * 4096 then 0xFF
      else flash_erase_sector d f (a + i * 4096) x)"
    using Suc.IH [of "i + 1"] Suc.prems by simp
  also have "flash_erase_sector d f (a + i * 4096) x = (if a + i * 4096 \<le> x \<and> x < a + i * 4096 + 4096 then 0xFF else f x)"
    using Suc.prems(1,2) by (intro erase_apply) simp_all
  finally show ?case by auto
qed auto

lemma read_custom_sig_eq:
  assumes "a + 72 < 2 ^ 32"
  shows "read_custom_sig f a = bytes_at f (a + 0x28) 32"
proof -
  have "concat (map (\<lambda>i. bytes_of (flash_read_word f (add32 a (0x28 + i * 4)))) [0..<k]) = bytes_at f (a + 0x28) (4 * k)" if "k \<le> 8" for k
    using that
  proof (induction k)
    case (Suc k)
    have "add32 a (0x28 + k * 4) = a + 0x28 + 4 * k" using assms Suc.prems by simp
    then show ?case using Suc by (simp add: bytes_of_read_word bytes_at_add [symmetric] add.commute [of 4] del: mult_Suc)
  qed (simp add: bytes_at_def)
  from this [of 8] show ?thesis by (simp add: read_custom_sig_def)
qed

section \<open>The update\<close>

text \<open>A file is an image with its checksum behind it; it is accepted when the sum is right and the image has the
  customer's signature at 0x28.\<close>

definition ota_file_ok :: "buf \<Rightarrow> bool" where
  "ota_file_ok img \<longleftrightarrow> word_of (drop (length img - 4) img) = byte_sum (take (length img - 4) img)
     \<and> strcmp_equal (take 32 (drop 0x28 img)) custom_sig"

definition ota_header :: "buf \<Rightarrow> nat \<Rightarrow> buf" where
  "ota_header h n = h @ bytes_of (of_nat n)"

text \<open>What is in the flash at the address of the image.\<close>

definition activated :: "buf \<Rightarrow> buf" where
  "activated img = take 8 img @ map of_char ''81958711'' @ drop 16 img"

lemma signature_words: "bytes_of 0x35393138 @ bytes_of 0x31313738 = map of_char ''81958711''"
  by code_simp

lemma receive_file:
  assumes d: "nor_ok d" and a: "a mod 4096 = 0" "a + length img + 8192 < 2 ^ 32" and n: "length img < 2 ^ 31" "72 \<le> length img"
    and cs: "concat cs = img" "\<forall>c \<in> set cs. 4 \<le> length c \<and> length c \<le> 512" and h: "length h = 8"
    and ff: "take 8 (drop 8 img) = replicate 8 0xFF"
  shows "\<exists>g. receive_and_check d a (Data (ota_header h (length img)) # map Data cs @ es) f = Some (g, ota_file_ok img)
    \<and> bytes_at g a (length img) = (if ota_file_ok img then activated img else img) \<and> (\<forall>x < a. g x = f x)"
proof -
  let ?n = "length img"
  define f1 where "f1 = erase_blocks d a ((?n - 1) div 4096 + 1) 0 f"
  have blk: "?n \<le> ((?n - 1) div 4096 + 1) * 4096" "((?n - 1) div 4096 + 1) * 4096 < ?n + 4096" using n(2) div_times_less_eq_dividend [of "?n - 1" 4096] dividend_less_div_times [of 4096 "?n - 1"] by simp_all
  have f1: "f1 x = (if a \<le> x \<and> x < a + ((?n - 1) div 4096 + 1) * 4096 then 0xFF else f x)" for x
    unfolding f1_def using erase_blocks_apply [OF d a(1), of 0 "(?n - 1) div 4096 + 1" f x] blk a(2) by simp
  define f2 where "f2 = programmed d f1 a img"
  have "erased f1 a ?n" using blk by (simp add: erased_def f1)
  then have f2: "bytes_at f2 a ?n = img" using bytes_at_programmed [OF d, of f1 a img] by (simp add: f2_def)
  have head: "unat (word_of (drop 8 (ota_header h ?n @ replicate (12 - length (ota_header h ?n)) 0))) = ?n"
    using h n(1) by (simp add: ota_header_def unsigned_of_nat take_bit_nat_eq_self)
  have rd: "sock_read 12 (Data (ota_header h ?n) # map Data cs @ es) = (Some (ota_header h ?n), map Data cs @ es)"
    using h by (simp add: ota_header_def)
  have info: "read_info (Data (ota_header h ?n) # map Data cs @ es) = (?n, map Data cs @ es)"
    unfolding read_info_def Let_def rd prod.case option.case head ..
  have ne: "cs \<noteq> []" using cs(1) n(2) by auto
  have z: "byte_sum [0, 0, 0, 0] = 0" by (simp add: byte_sum_def)
  have recv: "recv_image d ?n a (map Data cs @ es) f1 0 0 [0, 0, 0, 0]
      = Some (f2, Some (?n, byte_sum (take (?n - 4) img), drop (?n - 4) img))"
    using recv_pieces [OF d _ n(1) ne cs(2), of a 0 es f1 0 "[0, 0, 0, 0]"] cs(1) a(2) by (simp add: z f2_def)
  have fc: "flash_checksum f2 a (?n - 4) 0 0 = Some (byte_sum (take (?n - 4) img))"
    using flash_checksum_eq [of a "?n - 4" 0 f2 0] a(2) take_bytes_at [of "?n - 4" ?n f2 a] by (simp add: f2)
  have sg: "read_custom_sig f2 a = take 32 (drop 0x28 img)"
    using read_custom_sig_eq [of a f2] a(2) n(2) take_bytes_at [of 32 "?n - 40" f2 "a + 40"] drop_bytes_at [of 40 ?n f2 a] by (simp add: f2)
  define f3 where "f3 = programmed d f2 (a + 8) (map of_char ''81958711'')"
  have w: "flash_write_word d (flash_write_word d f2 (add32 a 8) 0x35393138) (add32 a 12) 0x31313738 = f3"
  proof -
    have "add32 a 8 = a + 8" "add32 a 12 = a + 8 + length (bytes_of 0x35393138)" using a(2) by simp_all
    then show ?thesis unfolding f3_def signature_words [symmetric] programmed_append by (simp add: write_word_eq)
  qed
  have r: "receive_and_check d a (Data (ota_header h ?n) # map Data cs @ es) f
      = Some (if ota_file_ok img then f3 else f2, ota_file_ok img)"
  proof -
    have "?n \<noteq> 0" "?n < 2 ^ 31" "a \<noteq> 2 ^ 32 - 1" using n a(2) by auto
    then show ?thesis unfolding receive_and_check_def Let_def info prod.case
      by (simp add: f1_def [symmetric, simplified] recv fc sg w) (auto simp: ota_file_ok_def)
  qed
  have low: "f2 x = f x" "f3 x = f x" if "x < a" for x using that by (simp_all add: f3_def f2_def f1 programmed_other)
  have f3: "bytes_at f3 a ?n = activated img"
  proof -
    have b: "f2 (a + k) = img ! k" if "k < ?n" for k using f2 bytes_at_nth [OF that, of f2 a] by simp
    have i: "img ! (8 + j) = 0xFF" if "j < 8" for j
    proof -
      have "take 8 (drop 8 img) ! j = img ! (8 + j)" using that n(2) by simp
      then show ?thesis using ff that by simp
    qed
    have "f2 y = 0xFF" if "a + 8 \<le> y" "y < a + 16" for y
    proof -
      have "f2 (a + (8 + (y - (a + 8)))) = img ! (8 + (y - (a + 8)))" using that n(2) by (intro b) simp
      then show ?thesis using i [of "y - (a + 8)"] that by simp
    qed
    then have e: "erased f2 (a + 8) 8" by (simp add: erased_def)
    have l: "length (map of_char ''81958711'' :: buf) = 8" "length (activated img) = ?n" using n(2) by (simp_all add: activated_def)
    have m: "bytes_at f3 (a + 8) 8 = map of_char ''81958711''" unfolding f3_def
      by (rule bytes_at_programmed [OF d, of f2 "a + 8" "map of_char ''81958711''", unfolded l(1), OF e])
    have s1: "bytes_at f3 a 8 = take 8 img" using f2 take_bytes_at [of 8 ?n f2 a] n(2) bytes_at_programmed_other [of a 8 "a + 8"] by (simp add: f3_def)
    have s2: "bytes_at f3 (a + 16) (?n - 16) = drop 16 img" using f2 drop_bytes_at [of 16 ?n f2 a] n(2) bytes_at_programmed_other [of "a + 16" "?n - 16" "a + 8"] by (simp add: f3_def)
    have "bytes_at f3 a ?n = bytes_at f3 a 8 @ bytes_at f3 (a + 8) 8 @ bytes_at f3 (a + 16) (?n - 16)"
      using bytes_at_add [of f3 a 8 "?n - 8"] bytes_at_add [of f3 "a + 8" 8 "?n - 16"] n(2) by (simp add: add.assoc)
    then show ?thesis by (simp add: s1 s2 m activated_def)
  qed
  show ?thesis using r low f3 f2 by auto
qed

text \<open>C37: The update over TCP, from the connection to the restart. Memory and the connection are there. The file has at least 72 bytes and fewer than \<open>2 ^ 31\<close>, its bytes 8 to 15 are
  \<open>0xFF\<close> (where the signature goes), the check of the address passes (the image in use begins at 0x80000 or below, and when it begins below, it ends there at the latest), and the network delivers the header in one
  piece and the file in pieces of 4 to 512 bytes, cut anywhere. Then the flash at 0x80000 holds the file. If its checksum and the customer's signature are
  right, the boot signature is set in it and the chip restarts; otherwise the image is not activated and the chip
  does not restart. The system data point to the image, and the flash from 0xA000 up to 0x80000, with the image in use when it lies there, is unchanged.\<close>

theorem ota_update:
  assumes "nor_ok d" and "find_image f = (IMAGE_x, ImgxLen)" and "\<not> illegal_addr 0x80000 IMAGE_x ImgxLen"
    and "concat pieces = img" and "\<forall>c \<in> set pieces. 4 \<le> length c \<and> length c \<le> 512"
    and "72 \<le> length img" and "length img < 2 ^ 31" and "take 8 (drop 8 img) = replicate 8 0xFF" and "length h = 8"
  shows "\<exists>f'. update_ota_local_task d True True True (Data (ota_header h (length img)) # map Data pieces @ es) f
      = Some (f', [Free_buf, Close_socket, Free_param] @ (if ota_file_ok img then [Reset] else []))
    \<and> bytes_at f' 0x80000 (length img) = (if ota_file_ok img then activated img else img)
    \<and> flash_read_word f' OFFSET_DATA = 0x80000 \<and> (\<forall>x. 0xA000 \<le> x \<and> x < 0x80000 \<longrightarrow> f' x = f x)"
proof -
  define f1 where "f1 = write_ota_addr_to_system_data d f 0x80000"
  have b: "bytes_at f1 0x9000 4 = bytes_of 0x80000" unfolding f1_def by (rule ota_addr_cases(1) [OF assms(1)])
  have o: "f1 x = f x" if "0xA000 \<le> x" for x unfolding f1_def using that by (intro ota_addr_cases(2) [OF assms(1)]) simp
  have w: "unat (flash_read_word f1 OFFSET_DATA) = 0x80000" using read_word_eq [OF b] by simp
  obtain g where g: "receive_and_check d 0x80000 (Data (ota_header h (length img)) # map Data pieces @ es) f1 = Some (g, ota_file_ok img)"
    "bytes_at g 0x80000 (length img) = (if ota_file_ok img then activated img else img)" "\<forall>x < 0x80000. g x = f1 x"
    using receive_file [OF assms(1), of "0x80000" img pieces h es f1] assms(4-9) by auto
  have "flash_read_word g OFFSET_DATA = 0x80000"
    using b g(3) by (intro read_word_eq) (simp add: bytes_at_cong [of "0x9000" 4 g f1])
  then show ?thesis using g o assms(2,3) w
    unfolding update_ota_local_task_def Let_def f1_def [symmetric] by auto
qed

lemma sample_file_ok:
  "let body = replicate 40 0xFF @ custom_sig in ota_file_ok (body @ bytes_of (byte_sum body))"
  by code_simp

theorem ota_update_witness:
  "\<exists>f'. update_ota_local_task nor_and True True True
       [Data (ota_header (replicate 8 0) 76), Data (replicate 40 0xFF),
          Data (custom_sig @ bytes_of (byte_sum (replicate 40 0xFF @ custom_sig)))] (\<lambda>_. 0)
     = Some (f', [Free_buf, Close_socket, Free_param, Reset])"
proof -
  let ?img = "replicate 40 0xFF @ custom_sig @ bytes_of (byte_sum (replicate 40 0xFF @ custom_sig))"
  have l: "length ?img = 76" by (simp add: custom_sig_def)
  have ok: "ota_file_ok ?img" using sample_file_ok by (simp add: Let_def)
  have t: "take 8 (drop 8 ?img) = replicate 8 0xFF" by simp
  have i: "find_image (\<lambda>_. 0) = (0xB000, 0)"
    by (simp add: find_image_def flash_read_word_def HAL_READ32_def bytes_at_def word_of_def)
  have g: "\<not> illegal_addr 0x80000 0xB000 0" by (simp add: illegal_addr_def)
  from ota_update [OF nor_and_ok i g, of "[replicate 40 0xFF, custom_sig @ bytes_of (byte_sum (replicate 40 0xFF @ custom_sig))]" ?img "replicate 8 0" "[]"] l ok t
  show ?thesis by auto
qed

section \<open>What the loop does not check\<close>

text \<open>Of a piece of one to three bytes, the loop reads bytes in front of the buffer.\<close>

lemma ota_short_piece:
  assumes d: "nor_ok d" and c: "c \<noteq> []" "length c < 4" and a: "address + sz + length c + 4 < 2 ^ 32"
  shows "recv_image d n address (Data c # es) f sz cs fc = None"
proof -
  have "flash_stream_write d f (address + sz) (length c) (c @ replicate (512 - length c) 0) = Some (programmed d f (address + sz) c)"
    using stream_write_eq [OF d, of "length c" "c @ replicate (512 - length c) 0" "address + sz" f] c a by force
  then show ?thesis using c a by (subst recv_image.simps) (simp add: Let_def)
qed

text \<open>A piece that goes past the announced length is written whole, behind the sectors that were erased.\<close>

lemma ota_overrun:
  assumes d: "nor_ok d" and c: "4 \<le> length c" "length c \<le> 512" and a: "address + sz + length c + 4 < 2 ^ 32" "sz + length c < 2 ^ 31"
    and o: "n < sz + length c"
  shows "\<exists>r. recv_image d n address [Data c] f sz cs fc = Some (programmed d f (address + sz) c, Some (sz + length c, r))"
proof -
  have e: "recv_image d n address [] f sz cs fc = Some (f, Some (sz, cs, fc))" for f sz cs fc
    by (subst recv_image.simps) simp
  show ?thesis using o by (simp add: recv_piece [OF d c a] e Let_def)
qed

section \<open>Choosing the image\<close>

definition with_sig :: "bool \<Rightarrow> buf \<Rightarrow> buf" where
  "with_sig cmd old = take 8 old @ map of_char (if cmd then ''81958711'' else ''01958711'') @ drop 16 old"

lemma length_sig [simp]: "length (if cmd then ''81958711'' else ''01958711'') = 8"
  by simp

lemma with_sig_length: "16 \<le> length old \<Longrightarrow> length (with_sig cmd old) = length old"
  by (simp add: with_sig_def split del: if_split)

lemma with_sig_again: "16 \<le> length old \<Longrightarrow> with_sig c (with_sig b old) = with_sig c old"
  by (simp add: with_sig_def)

lemma with_sig_nth: "k < 8 \<or> 16 \<le> k \<Longrightarrow> k < length old \<Longrightarrow> 16 \<le> length old \<Longrightarrow> with_sig c old ! k = old ! k"
  by (cases c) (auto simp: with_sig_def nth_append nth_Cons')

lemma cmd_ota_image_eq:
  assumes d: "nor_ok d" and p: "unat (flash_read_word f OFFSET_DATA) = p" "p mod 4096 = 0" "p + 8192 < 2 ^ 32"
  shows "cmd_ota_image d cmd True f =
    Some (\<lambda>x. if p \<le> x \<and> x < p + 4096 then with_sig cmd (bytes_at f p 4096) ! (x - p) else f x)"
proof -
  let ?old = "bytes_at f p 4096" and ?new = "with_sig cmd (bytes_at f p 4096)"
  have ne: "flash_read_word f OFFSET_DATA \<noteq> - 1"
  proof
    assume "flash_read_word f OFFSET_DATA = - 1"
    then show False using p(1,3) by (simp add: unsigned_minus_1_eq_mask mask_eq_exp_minus_1)
  qed
  have r: "flash_stream_read 4096 f p 4096 = Some ?old" using p(3) by (intro stream_read_eq) simp_all
  have w: "wrn ?old 8 (map of_char (if cmd then ''81958711'' else ''01958711'')) = Some ?new"
    by (simp add: wrn_def with_sig_def)
  have l: "length ?new = 4096" by (simp add: with_sig_length)
  define g where "g = flash_erase_sector d f p"
  have g: "g x = (if p \<le> x \<and> x < p + 4096 then 0xFF else f x)" for x unfolding g_def by (rule erase_apply [OF d p(2)])
  have s: "flash_stream_write d g p 4096 ?new = Some (programmed d g p ?new)"
    using stream_write_eq [OF d, of 4096 ?new p g] p(3) l by simp
  have "programmed d g p ?new = (\<lambda>x. if p \<le> x \<and> x < p + 4096 then ?new ! (x - p) else f x)"
    using d by (auto simp: programmed_def g l nor_ok_def)
  then show ?thesis using ne unfolding cmd_ota_image_def Let_def p(1) by (simp add: r w s g_def [symmetric])
qed

text \<open>\<open>cmd_ota_image\<close> changes nothing in the flash but the boot signature of the updated image, although it erases
  and rewrites the whole sector, and a later choice replaces an earlier one, as if that had not been made.\<close>

theorem ota_image_choice:
  assumes "nor_ok d" and "unat (flash_read_word f OFFSET_DATA) = p" and "p mod 4096 = 0" and "0xA000 \<le> p" and "p + 8192 < 2 ^ 32"
  shows "\<exists>f'. cmd_ota_image d cmd True f = Some f' \<and> bytes_at f' p 4096 = with_sig cmd (bytes_at f p 4096)
    \<and> (\<forall>x. x < p + 8 \<or> p + 16 \<le> x \<longrightarrow> f' x = f x)
    \<and> cmd_ota_image d cmd' True f' = cmd_ota_image d cmd' True f"
proof -
  let ?old = "bytes_at f p 4096" and ?f = "\<lambda>x. if p \<le> x \<and> x < p + 4096 then with_sig cmd (bytes_at f p 4096) ! (x - p) else f x"
  have l: "length (with_sig c ?old) = 4096" for c by (simp add: with_sig_length)
  have b: "bytes_at ?f p 4096 = with_sig cmd ?old" by (rule bytes_at_eqI) (simp_all add: l)
  have "flash_read_word ?f OFFSET_DATA = flash_read_word f OFFSET_DATA"
    using assms(4) by (auto simp: flash_read_word_def HAL_READ32_def intro!: arg_cong [of _ _ word_of] bytes_at_cong)
  then have "cmd_ota_image d cmd' True ?f = cmd_ota_image d cmd' True f"
    using cmd_ota_image_eq [OF assms(1) _ assms(3,5), of ?f cmd'] cmd_ota_image_eq [OF assms(1,2,3,5), of cmd'] assms(2)
    by (simp only: b with_sig_again length_bytes_at) (auto simp: l)
  moreover have "?f x = f x" if "x < p + 8 \<or> p + 16 \<le> x" for x
  proof (cases "p \<le> x \<and> x < p + 4096")
    case True
    then have "with_sig cmd ?old ! (x - p) = ?old ! (x - p)"
      using that by (intro with_sig_nth) auto
    then show ?thesis using True bytes_at_nth [of "x - p" 4096 f p] by auto
  qed auto
  ultimately show ?thesis using b cmd_ota_image_eq [OF assms(1,2,3,5), of cmd] by blast
qed

theorem ota_image_choice_witness:
  "\<exists>f'. cmd_ota_image nor_and False True (\<lambda>x. if x = 0x9002 then 8 else 0) = Some f'
    \<and> cmd_ota_image nor_and True True f' = cmd_ota_image nor_and True True (\<lambda>x. if x = 0x9002 then 8 else 0)"
proof -
  have "unat (flash_read_word (\<lambda>x. if x = 0x9002 then 8 else 0) OFFSET_DATA) = 0x80000"
    by (simp add: flash_read_word_def HAL_READ32_def bytes_at_def word_of_def upt_conv_Cons)
  from ota_image_choice [OF nor_and_ok this, of False True] show ?thesis by simp blast
qed

end
