(* ===== verification/Log.thy ===== *)
theory Log
  imports Scanf
begin

text \<open>
  The command service \<open>common/api/at_cmd/log_service.c\<close>: the table of commands by their hash, the dispatch of a line,
  and the splitting of parameters, in the configuration of the repository: no interactive mode, no history, and
  \<open>LOG_SERVICE_BUFLEN\<close> 1600, which \<open>platform_opts.h\<close> sets for the example of AT commands over the UART.
  The service holds a lock (\<open>CONFIG_LOG_SERVICE_LOCK\<close> is 1) for the length of one line; a line is one step here, so the
  lock and its release are left out.

  A bucket is the list of its entries in the order of the linked list; an action is a value of a type \<open>'a\<close>, for
  the commands themselves are in other files. A line is a string without its zero. \<open>parse_param\<close> changes the
  text it splits and may leave it, so it works on the memory with the zeros; undefined behaviour is \<open>None\<close>.
\<close>

abbreviation (input) "ATC_INDEX_NUM \<equiv> 32 :: nat"
abbreviation (input) "LOG_SERVICE_BUFLEN \<equiv> 1600 :: nat"
abbreviation (input) "MAX_ARGC \<equiv> 12 :: nat"

section \<open>The table\<close>

record 'a log_item =
  log_cmd :: string
  at_act :: 'a

type_synonym 'a log_hash = "'a log_item list list"

fun hash_loop :: "32 word \<Rightarrow> string \<Rightarrow> 32 word" where
  "hash_loop hash [] = hash"
| "hash_loop hash (c # cs) = hash_loop (hash * 131 + of_char c) cs"

definition hash_index :: "string \<Rightarrow> nat" where
  "hash_index s = unat (hash_loop 0 s AND 0x7FFFFFFF)"

definition log_add_new_command :: "'a log_item \<Rightarrow> 'a log_hash \<Rightarrow> 'a log_hash" where
  "log_add_new_command new h = (let index = hash_index (log_cmd new) mod ATC_INDEX_NUM in h[index := new # h ! index])"

fun log_service_add_table :: "'a log_item list \<Rightarrow> 'a log_hash \<Rightarrow> 'a log_hash" where
  "log_service_add_table [] h = h"
| "log_service_add_table (item # tbl) h = log_service_add_table tbl (log_add_new_command item h)"

text \<open>The buckets are emptied; then each initialization function adds its table.\<close>

definition log_service_init :: "'a log_item list list \<Rightarrow> 'a log_hash" where
  "log_service_init tables = fold log_service_add_table tables (replicate ATC_INDEX_NUM [])"

fun search_bucket :: "string \<Rightarrow> 'a log_item list \<Rightarrow> 'a option" where
  "search_bucket cmd [] = None"
| "search_bucket cmd (item # items) = (if log_cmd item = cmd then Some (at_act item) else search_bucket cmd items)"

definition log_action :: "string \<Rightarrow> 'a log_hash \<Rightarrow> 'a option" where
  "log_action cmd h = search_bucket cmd (h ! (hash_index cmd mod ATC_INDEX_NUM))"

section \<open>The dispatch of a line\<close>

text \<open>\<open>_strsep\<close> at the first \<open>=\<close>: the text before it and the text behind it, which is a null pointer where there
  is none.\<close>

definition strsep_eq :: "string \<Rightarrow> string \<times> string option" where
  "strsep_eq s = (takeWhile (\<lambda>c. c \<noteq> CHR ''='') s,
     if CHR ''='' \<in> set s then Some (tl (dropWhile (\<lambda>c. c \<noteq> CHR ''='') s)) else None)"

text \<open>The action that is called, with its parameter, or \<open>None\<close> for a null result.\<close>

definition log_handler :: "'a log_hash \<Rightarrow> string \<Rightarrow> ('a \<times> string option) option" where
  "log_handler h cmd =
     (let buf = take (LOG_SERVICE_BUFLEN - 1) cmd;
          (token, param) = strsep_eq buf
      in if length token \<le> 4 then map_option (\<lambda>action. (action, param)) (log_action token h) else None)"

text \<open>\<open>strtok(buf, " ")\<close>, the comparison of \<open>buf\<close>, which starts with a space if the line does, and \<open>strtok(NULL, "")\<close>:
  the argument for the driver, a null pointer if nothing is left.\<close>

definition mp_commnad_handler :: "string \<Rightarrow> string option option" where
  "mp_commnad_handler cmd =
     (let buf = take 63 cmd in
      if takeWhile (\<lambda>c. c \<noteq> CHR '' '') buf = ''iwpriv''
      then (let rest = drop 7 buf in Some (if rest = [] then None else Some rest)) else None)"

definition print_help_handler :: "string \<Rightarrow> bool" where
  "print_help_handler cmd = (cmd = ''help'')"

datatype 'a log_result = Command 'a "string option" | Iwpriv "string option" | Help | Unknown string

text \<open>One turn of the service on \<open>log_buf\<close>; it ends with an empty line.\<close>

definition log_service :: "'a log_hash \<Rightarrow> string \<Rightarrow> 'a log_result \<times> string" where
  "log_service h log_buf =
     ((case log_handler h log_buf of
         Some (action, param) \<Rightarrow> Command action param
       | None \<Rightarrow> (case mp_commnad_handler log_buf of
           Some arg \<Rightarrow> Iwpriv arg
         | None \<Rightarrow> if print_help_handler log_buf then Help else Unknown log_buf)), [])"

section \<open>The parameters\<close>

text \<open>The entries of \<open>argv\<close> from 1 on, \<open>None\<close> a null pointer; \<open>argc\<close> is their number plus 1.\<close>

type_synonym argv = "nat option list"

definition is_delim :: "char \<Rightarrow> bool" where
  "is_delim c \<longleftrightarrow> c = CHR '','' \<or> c = CHR ''['' \<or> c = CHR '']''"

definition push_arg :: "nat option \<Rightarrow> argv \<Rightarrow> argv option" where
  "push_arg a argv = (if length argv + 1 < MAX_ARGC then Some (argv @ [a]) else None)"

function skip_delims :: "char list \<Rightarrow> nat \<Rightarrow> argv \<Rightarrow> (char list \<times> nat \<times> argv) option" where
  "skip_delims mem i argv =
     (if i \<ge> length mem then None
      else if is_delim (mem ! i) then
        (case (if mem ! i = CHR '','' then
                 (case rd mem (i + 1) of None \<Rightarrow> None
                  | Some c \<Rightarrow> if c = CHR '','' then push_arg None argv else Some argv)
               else Some argv) of
           None \<Rightarrow> None
         | Some argv \<Rightarrow> skip_delims (mem[i := nul]) (i + 1) argv)
      else Some (mem, i, argv))"
  by pat_completeness auto
termination by (relation "measure (\<lambda>(mem, i, argv). length mem - i)") auto

text \<open>The text in quotes, from behind the first one, into \<open>str_buf\<close>; a backslash takes the next character as it
  is. The result is where it ends, \<open>str_buf\<close> and \<open>buf_cnt\<close>.\<close>

function quoted :: "char list \<Rightarrow> nat \<Rightarrow> string \<Rightarrow> nat \<Rightarrow> (nat \<times> string \<times> nat) option" where
  "quoted mem i str buf_cnt =
     (if i \<ge> length mem then None
      else if mem ! i = CHR 0x22 \<or> mem ! i = nul then Some (i, str, buf_cnt)
      else
        let (i, buf_cnt) = (if mem ! i = CHR 0x5C then (i + 1, buf_cnt + 1) else (i, buf_cnt))
        in if i \<ge> length mem \<or> length str \<ge> LOG_SERVICE_BUFLEN then None
           else quoted mem (i + 1) (str @ [mem ! i]) (buf_cnt + 1))"
  by pat_completeness auto
termination by (relation "measure (\<lambda>(mem, i, str, cnt). length mem - i)") (auto split: if_splits)

function skip_arg :: "char list \<Rightarrow> nat \<Rightarrow> nat option" where
  "skip_arg mem i =
     (if i \<ge> length mem then None
      else if is_delim (mem ! i) \<or> mem ! i = nul then Some i else skip_arg mem (i + 1))"
  by pat_completeness auto
termination by (relation "measure (\<lambda>(mem, i). length mem - i)") auto

declare skip_delims.simps [simp del] quoted.simps [simp del] skip_arg.simps [simp del]

text \<open>\<open>memcpy(buf - buf_cnt, str_buf, buf_cnt)\<close> at the end of a quoted text.\<close>

definition copy_back :: "char list \<Rightarrow> nat \<Rightarrow> string \<Rightarrow> nat \<Rightarrow> char list option" where
  "copy_back mem i str cnt =
     (if cnt \<le> LOG_SERVICE_BUFLEN \<and> cnt \<le> i then
        Some (take (i - cnt) mem @ take cnt (str @ replicate (LOG_SERVICE_BUFLEN - length str) nul) @ drop i mem)
      else None)"

text \<open>One parameter at \<open>i\<close>, which is no delimiter and not the end; the result is where it ends, or
  \<open>None\<close> where the loop is left.\<close>

definition one_param :: "char list \<Rightarrow> nat \<Rightarrow> argv \<Rightarrow> (char list \<times> argv \<times> nat option) option" where
  "one_param mem i argv =
     (if mem ! i = CHR 0x22 then do {
        let mem = mem[i := nul];
        let i = i + 1;
        c \<leftarrow> rd mem i;
        if c = nul then Some (mem, argv, None)
        else do {
          (j, str, cnt) \<leftarrow> quoted mem i [] 0;
          mem \<leftarrow> copy_back (mem[j := nul]) j str cnt;
          argv \<leftarrow> push_arg (Some i) argv;
          j \<leftarrow> skip_arg mem (j + 1);
          Some (mem, argv, Some j)
        }
      }
      else do {
        argv \<leftarrow> push_arg (Some i) argv;
        j \<leftarrow> skip_arg mem (i + 1);
        Some (mem, argv, Some j)
      })"

lemma skip_delims_facts:
  "skip_delims mem i argv = Some (mem', j, argv') \<Longrightarrow> i \<le> j \<and> j < length mem' \<and> length mem' = length mem"
proof (induction mem i argv rule: skip_delims.induct)
  case (1 mem i argv)
  from 1(2) show ?case using 1(1)
    by (subst (asm) skip_delims.simps) (fastforce split: if_splits option.splits)
qed

lemma quoted_facts: "quoted mem i str cnt = Some (j, str', cnt') \<Longrightarrow> i \<le> j \<and> j < length mem"
proof (induction mem i str cnt rule: quoted.induct)
  case (1 mem i str cnt)
  from 1(2) show ?case using 1(1)
    by (subst (asm) quoted.simps) (fastforce split: if_splits)
qed

lemma skip_arg_facts: "skip_arg mem i = Some j \<Longrightarrow> i \<le> j \<and> j < length mem"
proof (induction mem i rule: skip_arg.induct)
  case (1 mem i)
  from 1(2) show ?case using 1(1) by (subst (asm) skip_arg.simps) (fastforce split: if_splits)
qed

lemma copy_back_length: "copy_back mem i str cnt = Some mem' \<Longrightarrow> i \<le> length mem \<Longrightarrow> length mem' = length mem"
  by (auto simp: copy_back_def split: if_splits)

lemma one_param_facts:
  assumes "one_param mem i argv = Some (mem', argv', r)" "i < length mem"
  shows "length mem' = length mem" "r = Some j \<Longrightarrow> i < j"
proof -
  have "length mem' = length mem \<and> (r = Some j \<longrightarrow> i < j)"
  proof (cases "mem ! i = CHR 0x22")
    case True
    let ?m = "mem[i := nul]"
    obtain c where c: "rd ?m (i + 1) = Some c" using assms(1) True by (cases "rd ?m (i + 1)") (simp_all add: one_param_def)
    show ?thesis
    proof (cases "c = nul")
      case False
      obtain k str cnt m2 l where q: "quoted ?m (i + 1) [] 0 = Some (k, str, cnt)" "copy_back (?m[k := nul]) k str cnt = Some m2"
        "skip_arg m2 (k + 1) = Some l" "mem' = m2" "r = Some l"
        using assms(1) True False c by (auto simp: one_param_def Let_def Option.bind_eq_Some_conv)
      then show ?thesis using quoted_facts [OF q(1)] copy_back_length [OF q(2)] skip_arg_facts [OF q(3)] by simp
    qed (use assms(1) True c in \<open>auto simp: one_param_def\<close>)
  next
    case False
    then show ?thesis using assms(1) by (auto simp: one_param_def dest: skip_arg_facts split: bind_splits)
  qed
  then show "length mem' = length mem" "r = Some j \<Longrightarrow> i < j" by auto
qed

lemma one_param_less:
  "one_param mem i argv = Some (mem', argv', Some j) \<Longrightarrow> length mem = n \<Longrightarrow> i < n \<Longrightarrow> k \<le> i \<Longrightarrow> length mem' - j < n - k"
  using one_param_facts [of mem i argv mem' argv' "Some j"] by auto

function parse_loop :: "char list \<Rightarrow> nat \<Rightarrow> argv \<Rightarrow> (char list \<times> argv) option" where
  "parse_loop mem i argv =
     (if \<not> length argv + 1 < MAX_ARGC then Some (mem, argv)
      else if i \<ge> length mem then None
      else if mem ! i = nul then Some (mem, argv)
      else (case skip_delims mem i argv of None \<Rightarrow> None
        | Some (mem, i, argv) \<Rightarrow>
            if mem ! i = nul then Some (mem, argv)
            else (case one_param mem i argv of None \<Rightarrow> None
              | Some (mem, argv, None) \<Rightarrow> Some (mem, argv)
              | Some (mem, argv, Some j) \<Rightarrow> parse_loop mem j argv)))"
  by pat_completeness auto
termination
  by (relation "measure (\<lambda>(mem, i, argv). length mem - i)")
     (auto dest!: skip_delims_facts intro: one_param_less)

declare parse_loop.simps [simp del]

text \<open>\<open>buf\<close> is an index into the memory, or a null pointer; the result is the memory and \<open>argv\<close>.\<close>

definition parse_param :: "char list \<Rightarrow> nat option \<Rightarrow> (char list \<times> argv) option" where
  "parse_param mem buf = (case buf of None \<Rightarrow> Some (mem, []) | Some i \<Rightarrow> parse_loop mem i [])"

end
