(* ===== verification/LogProps.thy ===== *)
theory LogProps
  imports Log
begin

text \<open>
  The table of commands as a map, through an interface that says what looking up gives after adding, the dispatch of a line,
  and the parameters as the inverse of writing them with quotes and escapes.
\<close>

section \<open>The interface of a table\<close>

locale command_table =
  fixes add :: "'i \<Rightarrow> 't \<Rightarrow> 't" and lookup :: "string \<Rightarrow> 't \<Rightarrow> 'a option" and key :: "'i \<Rightarrow> string" and val :: "'i \<Rightarrow> 'a"
    and ok :: "'t \<Rightarrow> bool"
  assumes add_ok: "ok t \<Longrightarrow> ok (add i t)"
    and lookup_add: "ok t \<Longrightarrow> lookup c (add i t) = (if c = key i then Some (val i) else lookup c t)"
begin

definition items_map :: "'i list \<Rightarrow> string \<Rightarrow> 'a option" where
  "items_map is = map_of (rev (map (\<lambda>i. (key i, val i)) is))"

lemma fold_ok: "ok t \<Longrightarrow> ok (fold add is t)"
  by (induction "is" arbitrary: t) (simp_all add: add_ok)

lemma lookup_fold:
  "ok t \<Longrightarrow> lookup c (fold add is t) = (case items_map is c of Some a \<Rightarrow> Some a | None \<Rightarrow> lookup c t)"
proof (induction "is" arbitrary: t)
  case (Cons i "is")
  then show ?case by (auto simp: items_map_def lookup_add add_ok map_add_def split: option.splits)
qed (simp add: items_map_def)

end

definition table_ok :: "'a log_hash \<Rightarrow> bool" where
  "table_ok h \<longleftrightarrow> length h = 32"

lemma hash_bucket: "hash_index c mod 32 < 32"
  by simp

interpretation commands: command_table log_add_new_command log_action log_cmd at_act table_ok
proof unfold_locales
  show "table_ok (log_add_new_command i t)" if "table_ok t" for i and t :: "'a log_hash"
    using that by (simp add: table_ok_def log_add_new_command_def Let_def)
  show "log_action c (log_add_new_command i t) = (if c = log_cmd i then Some (at_act i) else log_action c t)"
    if "table_ok t" for c i and t :: "'a log_hash"
    using that hash_bucket by (auto simp: table_ok_def log_add_new_command_def log_action_def Let_def nth_list_update)
qed

lemma add_table_fold: "log_service_add_table tbl h = fold log_add_new_command tbl h"
  by (induction tbl h rule: log_service_add_table.induct) simp_all

lemma init_fold: "log_service_init tables = fold log_add_new_command (concat tables) (replicate 32 [])"
proof -
  have "fold log_service_add_table tables h = fold log_add_new_command (concat tables) h" for h :: "'a log_hash"
    by (induction tables arbitrary: h) (simp_all add: add_table_fold)
  then show ?thesis by (simp add: log_service_init_def)
qed

lemma empty_table: "table_ok (replicate 32 [])" "log_action c (replicate 32 []) = None"
  by (simp_all add: table_ok_def log_action_def)

lemma init_lookup:
  "log_action cmd (log_service_init tables) = map_of (rev (map (\<lambda>i. (log_cmd i, at_act i)) (concat tables))) cmd"
  using commands.lookup_fold [OF empty_table(1), of cmd "concat tables"]
  by (simp add: init_fold empty_table(2) commands.items_map_def split: option.splits)

text \<open>C39: The table of commands is the map of all commands that were added, whatever buckets they hash to: a name
  gives the action that was added for it last, and a name that was never added gives none.\<close>

theorem log_table_map:
  "log_action cmd (log_service_init tables) = map_of (rev (map (\<lambda>i. (log_cmd i, at_act i)) (concat tables))) cmd"
  by (rule init_lookup)

section \<open>The dispatch\<close>

lemma no_iwpriv:
  assumes "length name \<le> 4" "rest = [] \<or> hd rest = CHR ''=''"
  shows "mp_commnad_handler (name @ rest) = None"
proof -
  have "takeWhile (\<lambda>c. c \<noteq> CHR '' '') (take 63 (name @ rest)) \<noteq> ''iwpriv''" (is "?w \<noteq> _")
  proof
    assume w: "?w = ''iwpriv''"
    show False
    proof (cases rest)
      case Nil
      then have "length ?w \<le> 4"
        using le_trans [OF length_takeWhile_le, of "take 63 name" 4 "\<lambda>c. c \<noteq> CHR '' ''"] assms(1) by simp
      then show ?thesis using w by simp
    next
      case (Cons c cs)
      have l: "length name < length ?w" using w assms(1) by simp
      then have "?w ! length name = CHR ''=''"
        using assms Cons takeWhile_nth [OF l] by (simp add: nth_append take_Cons')
      then have "CHR ''='' \<in> set ''iwpriv''" using l w by (metis nth_mem)
      then show ?thesis by simp
    qed
  qed
  then show ?thesis by (simp add: mp_commnad_handler_def Let_def)
qed

lemma iwpriv_arg: "arg \<noteq> [] \<Longrightarrow> mp_commnad_handler (''iwpriv '' @ arg) = Some (Some (take 56 arg))"
  by (simp add: mp_commnad_handler_def)

lemma iwpriv_no_command: "log_handler h (''iwpriv '' @ arg) = None"
proof -
  have "takeWhile (\<lambda>c. c \<noteq> CHR ''='') (take 1599 (''iwpriv '' @ arg)) = ''iwpriv '' @ takeWhile (\<lambda>c. c \<noteq> CHR ''='') (take 1592 arg)"
    by simp
  then show ?thesis by (simp add: log_handler_def strsep_eq_def)
qed

text \<open>Take a name of at most four letters without an equals sign, and a parameter such that both and the equals
  sign fit into the 1599 characters that the service copies. The line of the name, an equals sign and the parameter calls
  the action of the name with this parameter, the line of the name alone calls it with a null pointer; a line that starts with
  iwpriv and a space and goes on gives the driver the next 56 characters at most. Where the name has no action, the line of the name
  alone is answered by the help if the name is help, and every other one of these lines is reported as unknown. In all cases the service
  is ready for the next line with an empty buffer.\<close>

theorem log_line_dispatched:
  assumes "length name \<le> 4" and "CHR ''='' \<notin> set name" and "length name + length param < 1599"
  shows "log_service h (name @ CHR ''='' # param)
       = (case log_action name h of Some action \<Rightarrow> Command action (Some param) | None \<Rightarrow> Unknown (name @ CHR ''='' # param), [])
    \<and> log_service h name = (case log_action name h of Some action \<Rightarrow> Command action None
         | None \<Rightarrow> if name = ''help'' then Help else Unknown name, [])
    \<and> (\<forall>arg. arg \<noteq> [] \<longrightarrow> log_service h (''iwpriv '' @ arg) = (Iwpriv (Some (take 56 arg)), []))"
proof -
  have t: "takeWhile (\<lambda>c. c \<noteq> CHR ''='') name = name" "takeWhile (\<lambda>c. c \<noteq> CHR ''='') (name @ CHR ''='' # param) = name"
    using assms(2) by (auto simp: takeWhile_eq_all_conv takeWhile_append)
  have d: "dropWhile (\<lambda>c. c \<noteq> CHR ''='') (name @ CHR ''='' # param) = CHR ''='' # param"
    using assms(2) by (auto simp: dropWhile_append)
  have 1: "log_handler h (name @ CHR ''='' # param) = map_option (\<lambda>a. (a, Some param)) (log_action name h)"
    using assms t d by (simp add: log_handler_def strsep_eq_def)
  have 2: "log_handler h name = map_option (\<lambda>a. (a, None)) (log_action name h)"
    using assms t by (simp add: log_handler_def strsep_eq_def del: takeWhile_eq_all_conv)
  have 3: "mp_commnad_handler (name @ CHR ''='' # param) = None" "mp_commnad_handler name = None"
    using no_iwpriv [of name "CHR ''='' # param"] no_iwpriv [of name "[]"] assms(1) by simp_all
  have 4: "log_service h (''iwpriv '' @ arg) = (Iwpriv (Some (take 56 arg)), [])" if "arg \<noteq> []" for arg
    by (simp only: log_service_def iwpriv_no_command iwpriv_arg [OF that] option.case)
  have 5: "name @ CHR ''='' # param \<noteq> ''help''"
  proof
    assume "name @ CHR ''='' # param = ''help''"
    then have "CHR ''='' \<in> set (''help'')" by (metis in_set_conv_decomp)
    then show False by simp
  qed
  have "log_service h (name @ CHR ''='' # param)
      = (case log_action name h of Some action \<Rightarrow> Command action (Some param) | None \<Rightarrow> Unknown (name @ CHR ''='' # param), [])"
    unfolding log_service_def 1 3 print_help_handler_def using 5 by (simp split: option.split)
  moreover have "log_service h name = (case log_action name h of Some action \<Rightarrow> Command action None
      | None \<Rightarrow> if name = ''help'' then Help else Unknown name, [])"
    unfolding log_service_def 2 3 print_help_handler_def by (simp split: option.split)
  ultimately show ?thesis using 4 by blast
qed

theorem log_line_dispatched_witness:
  "log_service (log_service_init [[\<lparr>log_cmd = ''ATWC'', at_act = (7 :: nat)\<rparr>]]) ''ATWC=x'' = (Command 7 (Some ''x''), [])
   \<and> log_service (log_service_init [[\<lparr>log_cmd = ''ATWC'', at_act = (7 :: nat)\<rparr>]]) ''iwpriv x=y'' = (Iwpriv (Some ''x=y''), [])"
proof -
  let ?h = "log_service_init [[\<lparr>log_cmd = ''ATWC'', at_act = (7 :: nat)\<rparr>]]"
  have a: "log_action ''ATWC'' ?h = Some 7" by (simp add: init_lookup)
  note l = log_line_dispatched [of "''ATWC''" "''x''" ?h]
  have "log_service ?h (''iwpriv '' @ ''x=y'') = (Iwpriv (Some (take 56 ''x=y'')), [])" using l by simp
  then show ?thesis using l a by simp
qed

section \<open>Parameters in quotes\<close>

definition escape :: "string \<Rightarrow> string" where
  "escape s = concat (map (\<lambda>c. if c = CHR 0x22 \<or> c = CHR 0x5C then [CHR 0x5C, c] else [c]) s)"

definition quote :: "string \<Rightarrow> string" where
  "quote s = CHR 0x22 # escape s @ [CHR 0x22]"

fun params :: "string list \<Rightarrow> string" where
  "params [] = []"
| "params [f] = quote f"
| "params (f # g # fs) = quote f @ CHR '','' # params (g # fs)"

text \<open>What \<open>parse_param\<close> leaves of the text, and where the parameters are.\<close>

definition unquoted :: "string \<Rightarrow> string" where
  "unquoted s = nul # s @ replicate (length (escape s) - length s) nul @ [nul]"

fun unparsed :: "string list \<Rightarrow> string" where
  "unparsed [] = []"
| "unparsed [f] = unquoted f"
| "unparsed (f # g # fs) = unquoted f @ nul # unparsed (g # fs)"

fun starts :: "nat \<Rightarrow> string list \<Rightarrow> nat list" where
  "starts i [] = []"
| "starts i (f # fs) = (i + 1) # starts (i + length (quote f) + 1) fs"

lemma escape_simps [simp]:
  "escape [] = []"
  "escape (c # s) = (if c = CHR 0x22 \<or> c = CHR 0x5C then [CHR 0x5C, c] else [c]) @ escape s"
  by (simp_all add: escape_def)

lemma escape_length: "length s \<le> length (escape s)"
  by (induction s) auto

lemma unquoted_length: "length (unquoted s) = length (quote s)"
  using escape_length [of s] by (simp add: unquoted_def quote_def)

lemma quoted_escape:
  "nul \<notin> set s \<Longrightarrow> length str + length s \<le> 1600 \<Longrightarrow>
   quoted (pre @ escape s @ CHR 0x22 # u) (length pre) str cnt = Some (length pre + length (escape s), str @ s, cnt + length (escape s))"
proof (induction s arbitrary: pre str cnt)
  case Nil
  show ?case by (subst quoted.simps) simp
next
  case (Cons c s)
  show ?case
  proof (cases "c = CHR 0x22 \<or> c = CHR 0x5C")
    case True
    have "quoted (pre @ escape (c # s) @ CHR 0x22 # u) (length pre) str cnt
        = quoted ((pre @ [CHR 0x5C, c]) @ escape s @ CHR 0x22 # u) (length (pre @ [CHR 0x5C, c])) (str @ [c]) (cnt + 2)"
      using True Cons.prems by (subst quoted.simps) (simp add: nth_append nul_def)
    then show ?thesis using Cons.IH [of "str @ [c]" "pre @ [CHR 0x5C, c]" "cnt + 2"] Cons.prems True by auto
  next
    case False
    have "quoted (pre @ escape (c # s) @ CHR 0x22 # u) (length pre) str cnt
        = quoted ((pre @ [c]) @ escape s @ CHR 0x22 # u) (length (pre @ [c])) (str @ [c]) (cnt + 1)"
      using False Cons.prems by (subst quoted.simps) (auto simp: nth_append)
    then show ?thesis using Cons.IH [of "str @ [c]" "pre @ [c]" "cnt + 1"] Cons.prems False by auto
  qed
qed

lemma one_quoted:
  assumes s: "nul \<notin> set s" "length (escape s) \<le> 1600" and a: "length argv + 1 < 12" and x: "is_delim x \<or> x = nul"
  shows "one_param (pre @ quote s @ x # u) (length pre) argv
    = Some (pre @ unquoted s @ x # u, argv @ [Some (length pre + 1)], Some (length pre + length (quote s)))"
proof -
  let ?m = "pre @ nul # escape s @ CHR 0x22 # x # u"
  have m: "(pre @ quote s @ x # u)[length pre := nul] = ?m" by (simp add: quote_def list_update_append)
  have l: "length s \<le> 1600" using escape_length [of s] s(2) by simp
  have c: "\<exists>c. rd ?m (length pre + 1) = Some c \<and> c \<noteq> nul"
    using s(1) by (cases s) (auto simp: rd_def nth_append nul_def)
  let ?j = "length pre + 1 + length (escape s)"
  have q: "quoted ?m (length pre + 1) [] 0 = Some (?j, s, length (escape s))"
    using quoted_escape [OF s(1), of "[]" "pre @ [nul]" "x # u" 0] l by simp
  have t: "take (length (escape s)) (s @ replicate (1600 - length s) nul) = s @ replicate (length (escape s) - length s) nul"
    using s(2) escape_length [of s] by simp
  have b: "copy_back (?m[?j := nul]) ?j s (length (escape s)) = Some (pre @ unquoted s @ x # u)"
    using s(2) unfolding copy_back_def t by (simp add: unquoted_def list_update_append nth_append)
  have k: "skip_arg (pre @ unquoted s @ x # u) (?j + 1) = Some (length pre + length (quote s))"
    using x unquoted_length [of s] by (subst skip_arg.simps) (auto simp: quote_def nth_append)
  have h: "(pre @ quote s @ x # u) ! length pre = CHR 0x22" by (simp add: quote_def)
  obtain c where "rd ?m (length pre + 1) = Some c" "c \<noteq> nul" using c by blast
  then show ?thesis using a unfolding one_param_def if_P [OF h] Let_def m
    by (simp add: q [simplified] b [simplified] k [simplified] push_arg_def)
qed

lemma params_head: "fs \<noteq> [] \<Longrightarrow> \<exists>u. params fs = CHR 0x22 # u"
  by (cases fs rule: params.cases) (auto simp: quote_def)

lemma at_quote: "skip_delims (pre @ CHR 0x22 # u) (length pre) argv = Some (pre @ CHR 0x22 # u, length pre, argv)"
  by (subst skip_delims.simps) (simp add: is_delim_def)

lemma at_comma:
  assumes "length argv + 1 < 12"
  shows "parse_loop (pre @ CHR '','' # CHR 0x22 # u) (length pre) argv = parse_loop (pre @ nul # CHR 0x22 # u) (length pre + 1) argv"
proof -
  have 1: "skip_delims (pre @ nul # CHR 0x22 # u) (length pre + 1) argv = Some (pre @ nul # CHR 0x22 # u, length pre + 1, argv)"
    using at_quote [of "pre @ [nul]" u argv] by simp
  have 2: "skip_delims (pre @ CHR '','' # CHR 0x22 # u) (length pre) argv = Some (pre @ nul # CHR 0x22 # u, length pre + 1, argv)"
    using 1 by (subst skip_delims.simps) (simp add: is_delim_def rd_def nth_append list_update_append)
  have n: "CHR '','' \<noteq> nul" "CHR 0x22 \<noteq> nul" by (simp_all add: nul_def)
  show ?thesis using assms n 1 2
    by (subst parse_loop.simps, subst (2) parse_loop.simps) (simp add: nth_append)
qed

lemma parse_params:
  "fs \<noteq> [] \<Longrightarrow> \<forall>f \<in> set fs. nul \<notin> set f \<and> length (escape f) \<le> 1600 \<Longrightarrow> length argv + length fs \<le> 11 \<Longrightarrow>
   parse_loop (pre @ params fs @ nul # r) (length pre) argv = Some (pre @ unparsed fs @ nul # r, argv @ map Some (starts (length pre) fs))"
proof (induction fs arbitrary: pre argv rule: induct_list012)
  case (2 f)
  have o: "one_param (pre @ quote f @ nul # r) (length pre) argv
      = Some (pre @ unquoted f @ nul # r, argv @ [Some (length pre + 1)], Some (length pre + length (quote f)))"
    using 2 by (intro one_quoted) simp_all
  have s: "skip_delims (pre @ quote f @ nul # r) (length pre) argv = Some (pre @ quote f @ nul # r, length pre, argv)"
    using at_quote [of pre "escape f @ [CHR 0x22] @ nul # r"] by (simp add: quote_def)
  have e: "parse_loop (pre @ unquoted f @ nul # r) (length pre + length (quote f)) a = Some (pre @ unquoted f @ nul # r, a)" for a
    by (subst parse_loop.simps) (simp add: nth_append unquoted_length)
  show ?case using 2 o s e by (subst parse_loop.simps) (simp add: quote_def nul_def nth_append)
next
  case (3 f g fs)
  obtain u where u: "params (g # fs) = CHR 0x22 # u" using params_head [of "g # fs"] by auto
  let ?rest = "params (g # fs) @ nul # r" and ?a = "argv @ [Some (length pre + 1)]"
  have o: "one_param (pre @ quote f @ CHR '','' # ?rest) (length pre) argv
      = Some (pre @ unquoted f @ CHR '','' # ?rest, ?a, Some (length pre + length (quote f)))"
    using 3 by (intro one_quoted) (simp_all add: is_delim_def)
  have s: "skip_delims (pre @ quote f @ CHR '','' # ?rest) (length pre) argv = Some (pre @ quote f @ CHR '','' # ?rest, length pre, argv)"
    using at_quote [of pre "escape f @ [CHR 0x22] @ CHR '','' # ?rest"] by (simp add: quote_def)
  have "parse_loop (pre @ params (f # g # fs) @ nul # r) (length pre) argv
      = parse_loop ((pre @ unquoted f) @ CHR '','' # ?rest) (length (pre @ unquoted f)) ?a"
    using 3(5) o s unquoted_length [of f] by (subst parse_loop.simps) (simp add: quote_def nul_def nth_append)
  also have "\<dots> = parse_loop ((pre @ unquoted f @ [nul]) @ ?rest) (length (pre @ unquoted f @ [nul])) ?a"
    using at_comma [of ?a "pre @ unquoted f" "u @ nul # r"] 3(5) by (simp add: u)
  also have "\<dots> = Some ((pre @ unquoted f @ [nul]) @ unparsed (g # fs) @ nul # r,
      ?a @ map Some (starts (length (pre @ unquoted f @ [nul])) (g # fs)))"
    using 3(3-5) by (intro 3(2)) simp_all
  finally show ?case by (simp add: unquoted_length)
qed simp

lemma params_at:
  "k < length fs \<Longrightarrow> \<forall>f \<in> set fs. nul \<notin> set f \<Longrightarrow> pre_length = length pre \<Longrightarrow>
   takeWhile (\<lambda>c. c \<noteq> nul) (drop (starts pre_length fs ! k) (pre @ unparsed fs @ nul # r)) = fs ! k"
proof (induction fs arbitrary: k pre pre_length rule: induct_list012)
  case (2 f)
  then show ?case by (auto simp: unquoted_def takeWhile_append)
next
  case (3 f g fs)
  show ?case
  proof (cases k)
    case 0
    then show ?thesis using 3(4,5) by (auto simp: unquoted_def takeWhile_append)
  next
    case (Suc j)
    then show ?thesis using 3(2) [of j "pre_length + length (quote f) + 1" "pre @ unquoted f @ [nul]"] 3(3-5)
      by (simp add: unquoted_length)
  qed
qed simp

lemma starts_length [simp]: "length (starts i fs) = length fs"
  by (induction i fs rule: starts.induct) simp_all

text \<open>\<open>parse_param\<close> undoes writing parameters in quotes, with a backslash before each quote and backslash, and with
  commas between them: it finds as many parameters, up to eleven, and each pointer in \<open>argv\<close> is to its text.\<close>

theorem parse_param_quoted:
  assumes "fs \<noteq> []" and "length fs \<le> 11" and "\<forall>f \<in> set fs. nul \<notin> set f \<and> length (escape f) \<le> 1600"
  shows "\<exists>mem argv. parse_param (params fs @ nul # r) (Some 0) = Some (mem, argv) \<and> length argv = length fs
    \<and> (\<forall>k < length fs. \<exists>p. argv ! k = Some p \<and> takeWhile (\<lambda>c. c \<noteq> nul) (drop p mem) = fs ! k)"
proof -
  let ?m = "unparsed fs @ nul # r" and ?a = "map Some (starts 0 fs)"
  have "parse_param (params fs @ nul # r) (Some 0) = Some (?m, ?a)"
    using parse_params [OF assms(1,3), of "[]" "[]" r] assms(2) by (simp add: parse_param_def)
  moreover have "takeWhile (\<lambda>c. c \<noteq> nul) (drop (starts 0 fs ! k) ?m) = fs ! k" if "k < length fs" for k
    using params_at [OF that, of 0 "[]" r] assms(3) by simp
  ultimately show ?thesis by (intro exI [of _ ?m] exI [of _ ?a]) simp
qed

theorem parse_param_quoted_witness:
  "\<exists>mem argv. parse_param (params [''a,b'', [CHR 0x22]] @ [nul]) (Some 0) = Some (mem, argv) \<and> length argv = 2"
  using parse_param_quoted [of "[''a,b'', [CHR 0x22]]" "[]"] by (auto simp: nul_def)

section \<open>Parameters that leave their buffers\<close>

lemma skip_commas:
  "length argv \<le> 11 \<Longrightarrow> 12 \<le> length argv + n \<Longrightarrow> skip_delims (pre @ replicate (Suc n) CHR '','' @ u) (length pre) argv = None"
proof (induction n arbitrary: pre argv)
  case (Suc n)
  let ?m = "pre @ replicate (Suc (Suc n)) CHR '','' @ u"
  have r: "rd ?m (length pre + 1) = Some CHR '',''" by (simp add: rd_def nth_append)
  show ?case
  proof (cases "length argv = 11")
    case True
    then show ?thesis using r by (subst skip_delims.simps) (simp add: is_delim_def push_arg_def)
  next
    case False
    have "skip_delims ((pre @ [nul]) @ replicate (Suc n) CHR '','' @ u) (length (pre @ [nul])) (argv @ [None]) = None"
      using Suc.prems False by (intro Suc.IH) simp_all
    then show ?thesis using r False Suc.prems
      by (subst skip_delims.simps) (simp add: is_delim_def push_arg_def list_update_append)
  qed
qed simp

text \<open>Thirteen commas in a row, which fit into a line, overflow \<open>argv\<close>: between commas \<open>parse_param\<close> stores null pointers
  without comparing \<open>argc\<close> to \<open>MAX_ARGC\<close>. And a parameter whose closing quote is missing is read beyond the zero
  at the end of the line.\<close>

theorem parse_param_overruns:
  assumes "13 \<le> n" and "s \<noteq> []" and "set s \<inter> {CHR 0x22, CHR 0x5C, nul} = {}" and "length s \<le> 1598"
  shows "parse_param (replicate n CHR '','' @ nul # r) (Some 0) = None
    \<and> parse_param (CHR 0x22 # s @ [nul]) (Some 0) = None"
proof -
  obtain m where m: "n = Suc m" "12 \<le> m" using assms(1) by (cases n) auto
  have "skip_delims (replicate n CHR '','' @ nul # r) 0 [] = None"
    using skip_commas [of "[]" m "[]" "nul # r"] m by simp
  then have 1: "parse_param (replicate n CHR '','' @ nul # r) (Some 0) = None"
    unfolding parse_param_def m(1) by (subst parse_loop.simps) (simp add: nul_def)
  have q: "quoted (pre @ s @ [nul]) (length pre) str cnt = Some (length pre + length s, str @ s, cnt + length s)"
    if "set s \<inter> {CHR 0x22, CHR 0x5C, nul} = {}" "length str + length s \<le> 1598" for pre str cnt s
    using that
  proof (induction s arbitrary: pre str cnt)
    case Nil
    show ?case by (subst quoted.simps) simp
  next
    case (Cons c s)
    have "quoted (pre @ (c # s) @ [nul]) (length pre) str cnt = quoted ((pre @ [c]) @ s @ [nul]) (length (pre @ [c])) (str @ [c]) (cnt + 1)"
      using Cons.prems by (subst quoted.simps) (auto simp: nth_append)
    then show ?case using Cons.IH [of "str @ [c]" "pre @ [c]" "cnt + 1"] Cons.prems by auto
  qed
  have q0: "quoted (nul # s @ [nul]) 1 [] 0 = Some (1 + length s, s, length s)"
    using q [OF assms(3), of "[]" "[nul]" 0] assms(4) by simp
  have rd: "rd (nul # s @ [nul]) 1 = Some (hd s)" "hd s \<noteq> nul"
    using assms(2,3) by (cases s; auto simp: rd_def)+
  have sk: "skip_arg mem (Suc (1 + length s)) = None" if "length mem = length s + 2" for mem
    using that by (subst skip_arg.simps) simp
  have cb: "copy_back (nul # s @ [nul]) (Suc (length s)) s (length s) = Some (nul # s @ [nul])"
    using assms(4) by (simp add: copy_back_def)
  have "one_param (CHR 0x22 # s @ [nul]) 0 [] = None"
    using rd q0 sk cb by (simp add: one_param_def Let_def push_arg_def)
  then have "parse_param (CHR 0x22 # s @ [nul]) (Some 0) = None"
    using at_quote [of "[]" "s @ [nul]" "[]"] unfolding parse_param_def by (subst parse_loop.simps) (simp add: nul_def)
  then show ?thesis using 1 by blast
qed

theorem parse_param_overruns_witness:
  "parse_param (replicate 20 CHR '','' @ [nul]) (Some 0) = None \<and> parse_param (CHR 0x22 # ''abc'' @ [nul]) (Some 0) = None"
  using parse_param_overruns [of 20 "''abc''" "[]"] by (simp add: nul_def)

end
