(* ===== verification/Pmu.thy ===== *)
theory Pmu
  imports Prelude
begin

text \<open>
  Power management, \<open>os/freertos/freertos_pmu.c\<close>: the wakelocks that keep the system from sleeping, the events that
  wake it, the callbacks around a sleep, and the kernel ticks that have passed meanwhile, with
  \<open>vTaskStepTick\<close> of the kernel. Statistics (\<open>configGENERATE_RUN_TIME_STATS\<close>) are off in this configuration. The microsecond timer and
  the state of the SDRAM are what the environment of a sleep answers. Bits of a lock are tasks of their own, so a
  word is a set.
\<close>

type_synonym u32w = "32 word"

text \<open>\<open>'c\<close> is the type of the callbacks.\<close>

record 'c pmu =
  wakelock :: u32w
  wakeup_event :: u32w
  pre_sleep_callback :: "'c option list"
  post_sleep_callback :: "'c option list"
  reserve_pll :: u8
  missing_tick :: u32w
  xTickCount :: nat

datatype 'c pmu_event = Callback 'c u32w | Sleep u32w u32w u8 bool

definition SLEEP_WAKEUP_BY_STIMER :: u32w where "SLEEP_WAKEUP_BY_STIMER = 1"

definition freertos_ready_to_sleep :: "'c pmu \<Rightarrow> bool" where
  "freertos_ready_to_sleep st \<longleftrightarrow> wakelock st = 0"

definition acquire_wakelock :: "u32w \<Rightarrow> 'c pmu \<Rightarrow> 'c pmu" where
  "acquire_wakelock lock_id st = st\<lparr>wakelock := wakelock st OR lock_id\<rparr>"

definition release_wakelock :: "u32w \<Rightarrow> 'c pmu \<Rightarrow> 'c pmu" where
  "release_wakelock lock_id st = st\<lparr>wakelock := wakelock st AND NOT lock_id\<rparr>"

definition get_wakelock_status :: "'c pmu \<Rightarrow> u32w" where
  "get_wakelock_status st = wakelock st"

definition add_wakeup_event :: "u32w \<Rightarrow> 'c pmu \<Rightarrow> 'c pmu" where
  "add_wakeup_event event st = st\<lparr>wakeup_event := wakeup_event st OR event\<rparr>"

definition del_wakeup_event :: "u32w \<Rightarrow> 'c pmu \<Rightarrow> 'c pmu" where
  "del_wakeup_event event st = st\<lparr>wakeup_event := (wakeup_event st AND NOT event) OR SLEEP_WAKEUP_BY_STIMER\<rparr>"

text \<open>The loop over the 32 modules.\<close>

definition set_callbacks :: "'c option \<Rightarrow> u32w \<Rightarrow> 'c option list \<Rightarrow> 'c option list" where
  "set_callbacks sleep_cb module cbs = map (\<lambda>i. if bit module i then sleep_cb else cbs ! i) [0..<32]"

definition register_sleep_callback_by_module :: "bool \<Rightarrow> 'c option \<Rightarrow> u32w \<Rightarrow> 'c pmu \<Rightarrow> 'c pmu" where
  "register_sleep_callback_by_module is_pre_sleep sleep_cb module st =
     (if is_pre_sleep then st\<lparr>pre_sleep_callback := set_callbacks sleep_cb module (pre_sleep_callback st)\<rparr>
      else st\<lparr>post_sleep_callback := set_callbacks sleep_cb module (post_sleep_callback st)\<rparr>)"

definition register_pre_sleep_callback :: "'c option \<Rightarrow> 'c pmu \<Rightarrow> 'c pmu" where
  "register_pre_sleep_callback pre_sleep_cb = register_sleep_callback_by_module True pre_sleep_cb 0x00008000"

definition register_post_sleep_callback :: "'c option \<Rightarrow> 'c pmu \<Rightarrow> 'c pmu" where
  "register_post_sleep_callback post_sleep_cb = register_sleep_callback_by_module False post_sleep_cb 0x00008000"

definition set_pll_reserved :: "u8 \<Rightarrow> 'c pmu \<Rightarrow> 'c pmu" where
  "set_pll_reserved reserve st = st\<lparr>reserve_pll := reserve\<rparr>"

section \<open>A sleep\<close>

definition vTaskStepTick :: "nat \<Rightarrow> 'c pmu \<Rightarrow> 'c pmu" where
  "vTaskStepTick xTicksToJump st = st\<lparr>xTickCount := add32 (xTickCount st) xTicksToJump\<rparr>"

text \<open>The time that passed, in microseconds.\<close>

definition tick_passed :: "u32w \<Rightarrow> u32w \<Rightarrow> u32w" where
  "tick_passed before after = (if after > before then after - before else (0xffffffff - before) + after)"

text \<open>The whole ticks that passed, and what remains for the next time.\<close>

definition step_ticks :: "u32w \<Rightarrow> u32w \<Rightarrow> u32w \<Rightarrow> u32w \<times> u32w" where
  "step_ticks passed missing stime =
     (let tick_passed = passed + missing in
      if tick_passed > stime * 1000 then (stime * 1000 div 1000, tick_passed - stime * 1000)
      else (tick_passed div 1000, tick_passed mod 1000))"

text \<open>\<open>freertos_pre_sleep_processing\<close>, with the readings of the timer and whether the SDRAM is on; the result is the
  state, what happened, and the idle time left for the kernel's own sleep function.\<close>

definition freertos_pre_sleep_processing :: "u32w \<Rightarrow> u32w \<Rightarrow> bool \<Rightarrow> u32w \<Rightarrow> 'c pmu \<Rightarrow> 'c pmu \<times> 'c pmu_event list \<times> u32w" where
  "freertos_pre_sleep_processing before after IsDramOn expected_idle_time st =
     (let stime = expected_idle_time;
          pre = map (\<lambda>c. Callback c stime) (List.map_filter id (pre_sleep_callback st));
          sleep = [Sleep (wakeup_event st) stime (reserve_pll st) IsDramOn];
          (step, missing) = step_ticks (tick_passed before after) (missing_tick st) stime;
          st = vTaskStepTick (unat step) (st\<lparr>missing_tick := missing\<rparr>);
          post = map (\<lambda>c. Callback c stime) (List.map_filter id (post_sleep_callback st))
      in (st, pre @ sleep @ post, 0))"

section \<open>Ticks\<close>

lemma tick_passed_wrap: "after \<noteq> before \<Longrightarrow> unat (tick_passed before after) =
    (if unat before < unat after then unat after - unat before else 2 ^ 32 - 1 - unat before + unat after)"
proof -
  assume ne: "after \<noteq> before"
  have m: "unat (0xffffffff :: u32w) = 2 ^ 32 - 1" by simp
  have b: "unat before < 2 ^ 32" "unat after < 2 ^ 32" using unsigned_less [of before, where 'a = nat] unsigned_less [of after, where 'a = nat] by simp_all
  have le: "before \<le> 0xffffffff" using b(1) by (simp add: word_le_nat_alt)
  show ?thesis
  proof (cases "after > before")
    case True
    then show ?thesis by (simp add: tick_passed_def unat_sub word_less_nat_alt order_less_imp_le word_le_nat_alt)
  next
    case False
    then have lt: "unat after < unat before" using ne by (metis linorder_neqE_nat word_less_nat_alt word_unat_eq_iff)
    then have "unat (0xffffffff - before) + unat after < 2 ^ 32" using b le by (simp add: unat_sub)
    then have "unat (0xffffffff - before + after) = unat (0xffffffff - before) + unat after" by (simp add: unat_plus_if_size size_word_def)
    then show ?thesis using False lt le by (simp add: tick_passed_def unat_sub)
  qed
qed

lemma step_ticks_sum:
  assumes p: "unat passed + unat missing < 2 ^ 32" and s: "unat stime * 1000 < 2 ^ 32" and st: "step_ticks passed missing stime = (step, rest)"
  shows "unat step * 1000 + unat rest = unat passed + unat missing" "unat step \<le> unat stime"
    "unat passed + unat missing \<le> unat stime * 1000 \<Longrightarrow> unat rest < 1000"
proof -
  have 1: "unat (passed + missing) = unat passed + unat missing" using p by (simp add: unat_plus_if_size size_word_def)
  have k: "unat (1000 :: u32w) = 1000" by simp
  have 2: "unat (stime * 1000) = unat stime * 1000" using s k by (subst unat_mult_lem [THEN iffD1]) simp_all
  have 3: "unat (stime * 1000 div 1000) = unat stime" by (simp add: unat_div 2)
  have "unat step * 1000 + unat rest = unat passed + unat missing \<and> unat step \<le> unat stime
    \<and> (unat passed + unat missing \<le> unat stime * 1000 \<longrightarrow> unat rest < 1000)"
  proof (cases "passed + missing > stime * 1000")
    case True
    then have "unat (passed + missing - stime * 1000) = unat passed + unat missing - unat stime * 1000"
      by (simp add: unat_sub order_less_imp_le 1 2)
    moreover have "unat stime * 1000 < unat passed + unat missing" using True by (simp add: word_less_nat_alt 1 2)
    moreover have "step = stime * 1000 div 1000" "rest = passed + missing - stime * 1000"
      using st True by (simp_all add: step_ticks_def Let_def)
    ultimately show ?thesis using 3 by simp
  next
    case False
    then have le: "unat passed + unat missing \<le> unat stime * 1000" by (simp add: word_less_nat_alt 1 2)
    have "step = (passed + missing) div 1000" "rest = (passed + missing) mod 1000"
      using st False by (simp_all add: step_ticks_def Let_def)
    then have "unat step = (unat passed + unat missing) div 1000" "unat rest = (unat passed + unat missing) mod 1000"
      by (simp_all add: unat_div unat_mod 1)
    then show ?thesis using le by simp
  qed
  then show "unat step * 1000 + unat rest = unat passed + unat missing" "unat step \<le> unat stime"
    "unat passed + unat missing \<le> unat stime * 1000 \<Longrightarrow> unat rest < 1000" by blast+
qed

text \<open>C40: No time is lost over a sleep whose timer readings before and after differ, but for one microsecond when the timer wraps around: the ticks that the kernel is
  advanced by and the remainder that is kept are the time that the timer measured and the remainder from before; and the kernel is never advanced past
  the time it wanted to sleep. (The wanted time in microseconds, and the measured time with the remainder, are below \<open>2 ^ 32\<close>. Equal readings are taken
  for a whole turn of the timer, \<open>pmu_empty_sleep\<close>.)\<close>

theorem pmu_time_kept:
  fixes before after stime :: u32w
  assumes "after \<noteq> before" and "unat stime * 1000 < 2 ^ 32"
    and "elapsed = (if unat before < unat after then unat after - unat before else unat after + 2 ^ 32 - unat before)"
    and "elapsed + unat (missing_tick st) < 2 ^ 32"
    and "freertos_pre_sleep_processing before after dram stime st = (st', events, idle)"
  shows "\<exists>ticks. xTickCount st' = add32 (xTickCount st) ticks \<and> ticks \<le> unat stime
    \<and> ticks * 1000 + unat (missing_tick st') = unat (missing_tick st) + (if unat before < unat after then elapsed else elapsed - 1)
    \<and> Sleep (wakeup_event st) stime (reserve_pll st) dram \<in> set events \<and> idle = 0"
proof -
  obtain step rest where sr: "step_ticks (tick_passed before after) (missing_tick st) stime = (step, rest)" by fastforce
  have p: "unat (tick_passed before after) = (if unat before < unat after then elapsed else elapsed - 1)"
    using tick_passed_wrap [OF assms(1)] assms(3) unsigned_less [of before, where 'a = nat] by simp
  then have "unat (tick_passed before after) + unat (missing_tick st) < 2 ^ 32" using assms(4) by (cases "unat before < unat after") auto
  note s = step_ticks_sum [OF this assms(2) sr]
  have "xTickCount st' = add32 (xTickCount st) (unat step)" "missing_tick st' = rest" "idle = 0"
    "Sleep (wakeup_event st) stime (reserve_pll st) dram \<in> set events"
    using assms(5) sr by (auto simp: freertos_pre_sleep_processing_def Let_def vTaskStepTick_def)
  then show ?thesis using s(1,2) p by (intro exI [of _ "unat step"]) simp
qed

definition pmu_start :: "nat pmu" where
  "pmu_start = \<lparr>wakelock = 0, wakeup_event = 1, pre_sleep_callback = replicate 32 None, post_sleep_callback = replicate 32 None,
     reserve_pll = 0, missing_tick = 500, xTickCount = 7\<rparr>"

theorem pmu_time_kept_witness:
  "\<exists>ticks. xTickCount (fst (freertos_pre_sleep_processing 1000 4700 True 80 pmu_start)) = add32 7 ticks
    \<and> ticks * 1000 + unat (missing_tick (fst (freertos_pre_sleep_processing 1000 4700 True 80 pmu_start))) = 4200"
proof -
  obtain st' ev idle where r: "freertos_pre_sleep_processing 1000 4700 True 80 pmu_start = (st', ev, idle)" by (cases "freertos_pre_sleep_processing 1000 4700 True 80 pmu_start")
  from pmu_time_kept [OF _ _ refl _ r] show ?thesis unfolding r by (auto simp: pmu_start_def)
qed

text \<open>A sleep that is over within the microsecond in which it began is taken for a whole turn of the timer, and the
  kernel is advanced by all the time it wanted to sleep.\<close>

lemma pmu_empty_sleep:
  assumes "missing_tick st = 0" "0 < unat stime" "unat stime * 1000 < 2 ^ 32 - 1"
  shows "xTickCount (fst (freertos_pre_sleep_processing t t dram stime st)) = add32 (xTickCount st) (unat stime)"
proof -
  have "tick_passed t t = 0xffffffff" by (simp add: tick_passed_def)
  moreover have "unat (stime * 1000) = unat stime * 1000" using assms(3) by (subst unat_mult_lem [THEN iffD1]) simp_all
  moreover from this have "stime * 1000 < 0xffffffff" "unat (stime * 1000 div 1000) = unat stime"
    using assms(3) by (simp_all add: word_less_nat_alt unat_div)
  ultimately show ?thesis using assms(1)
    by (simp add: freertos_pre_sleep_processing_def Let_def step_ticks_def vTaskStepTick_def)
qed

section \<open>Wakelocks\<close>

datatype lock_op = Acquire u32w | Release u32w

fun lock_step :: "lock_op \<Rightarrow> 'c pmu \<Rightarrow> 'c pmu" where
  "lock_step (Acquire l) = acquire_wakelock l"
| "lock_step (Release l) = release_wakelock l"

definition locks :: "u32w \<Rightarrow> nat set" where
  "locks w = {i. bit w i}"

fun hold :: "lock_op \<Rightarrow> nat set \<Rightarrow> nat set" where
  "hold (Acquire l) H = H \<union> locks l"
| "hold (Release l) H = H - locks l"

text \<open>The system is ready to sleep exactly when every wakelock that was acquired has been released since: after any
  sequence of operations the wakelock is the set of the modules that hold it, and it is ready when this set is empty.\<close>

theorem pmu_wakelock_set:
  "locks (wakelock (fold lock_step ops st)) = fold hold ops (locks (wakelock st))
    \<and> (freertos_ready_to_sleep (fold lock_step ops st) \<longleftrightarrow> fold hold ops (locks (wakelock st)) = {})"
proof -
  have 1: "locks (wakelock (lock_step x st)) = hold x (locks (wakelock st))" for x and st :: "'a pmu"
    by (cases x) (auto simp: locks_def acquire_wakelock_def release_wakelock_def bit_simps dest: bit_imp_le_length)
  have 2: "locks (wakelock (fold lock_step ops st)) = fold hold ops (locks (wakelock st))"
    by (induction ops arbitrary: st) (simp_all add: 1)
  have "w = 0 \<longleftrightarrow> locks w = {}" for w
    by (auto simp: locks_def intro!: bit_word_eqI)
  then show ?thesis using 2 by (simp add: freertos_ready_to_sleep_def)
qed

end
