(* ===== verification/Queue.thy ===== *)
theory Queue
  imports Bytes
begin

text \<open>
  The message queues of the RTOS, \<open>os/freertos/freertos_v8.1.2/Source/queue.c\<close>, as the vendor
  configures them (no queue sets): the ring buffer that holds the items, the lists of the tasks that wait, and
  the lock counts. Each definition is one critical section of the source or a function called in one;
  \<open>QueueTasks\<close> has the loops of \<open>xQueueGenericSend\<close> and \<open>xQueueGenericReceive\<close> around
  them. Mutexes, which keep their holder in \<open>pcTail\<close>, are not modelled.

  The storage area is a list of bytes and the pointers into it are offsets from \<open>pcHead\<close>; a copy that
  leaves it gives \<open>None\<close>. \<open>pcReadFrom\<close> may point in front of it for a moment, so it is an integer. The
  parameter \<open>higher\<close> says which tasks have a priority above the running one.
\<close>

type_synonym task = nat

datatype position = queueSEND_TO_BACK | queueSEND_TO_FRONT | queueOVERWRITE

record queue =
  pcHead :: buf
  pcTail :: nat
  pcWriteTo :: nat
  pcReadFrom :: int
  xTasksWaitingToSend :: "task list"
  xTasksWaitingToReceive :: "task list"
  uxMessagesWaiting :: nat
  uxLength :: nat
  uxItemSize :: nat
  xRxLock :: int
  xTxLock :: int

abbreviation queueUNLOCKED :: int where "queueUNLOCKED \<equiv> -1"
abbreviation queueLOCKED_UNMODIFIED :: int where "queueLOCKED_UNMODIFIED \<equiv> 0"

section \<open>Copying items\<close>

text \<open>A write of the \<open>memcpy\<close> calls, at an offset that may be in front of the storage area.\<close>

definition store_item :: "queue \<Rightarrow> int \<Rightarrow> buf \<Rightarrow> queue option" where
  "store_item q i item =
     (if i < 0 then None
      else do {
        data \<leftarrow> rdn item 0 (uxItemSize q);
        st \<leftarrow> wrn (pcHead q) (nat i) data;
        Some (q\<lparr>pcHead := st\<rparr>) })"

definition prvCopyDataToQueue :: "queue \<Rightarrow> buf \<Rightarrow> position \<Rightarrow> queue option" where
  "prvCopyDataToQueue q item pos = do {
     q1 \<leftarrow>
       (if uxItemSize q = 0 then Some q
        else if pos = queueSEND_TO_BACK then do {
          q1 \<leftarrow> store_item q (int (pcWriteTo q)) item;
          let w = pcWriteTo q + uxItemSize q;
          Some (q1\<lparr>pcWriteTo := (if pcTail q \<le> w then 0 else w)\<rparr>) }
        else do {
          q1 \<leftarrow> store_item q (pcReadFrom q) item;
          let r = pcReadFrom q - int (uxItemSize q);
          let q2 = q1\<lparr>pcReadFrom := (if r < 0 then int (pcTail q) - int (uxItemSize q) else r)\<rparr>;
          Some (if pos = queueOVERWRITE \<and> 0 < uxMessagesWaiting q
                then q2\<lparr>uxMessagesWaiting := uxMessagesWaiting q - 1\<rparr> else q2) });
     Some (q1\<lparr>uxMessagesWaiting := uxMessagesWaiting q1 + 1\<rparr>) }"

text \<open>The bytes are what lands in the caller's buffer: none when the items have no size.\<close>

definition prvCopyDataFromQueue :: "queue \<Rightarrow> (queue \<times> buf) option" where
  "prvCopyDataFromQueue q =
     (if uxItemSize q = 0 then Some (q, [])
      else let r = pcReadFrom q + int (uxItemSize q);
               r' = (if int (pcTail q) \<le> r then 0 else r)
           in if r' < 0 then None
              else do {
                data \<leftarrow> rdn (pcHead q) (nat r') (uxItemSize q);
                Some (q\<lparr>pcReadFrom := r'\<rparr>, data) })"

section \<open>Waking the tasks that wait\<close>

text \<open>The test for an empty list around each \<open>xTaskRemoveFromEventList\<close>, and that function's effect
  on the list: the first task leaves it. The result says that it should run at once.\<close>

definition wake_receiver :: "(task \<Rightarrow> bool) \<Rightarrow> queue \<Rightarrow> queue \<times> bool" where
  "wake_receiver higher q =
     (case xTasksWaitingToReceive q of
        [] \<Rightarrow> (q, False)
      | t # ts \<Rightarrow> (q\<lparr>xTasksWaitingToReceive := ts\<rparr>, higher t))"

definition wake_sender :: "(task \<Rightarrow> bool) \<Rightarrow> queue \<Rightarrow> queue \<times> bool" where
  "wake_sender higher q =
     (case xTasksWaitingToSend q of
        [] \<Rightarrow> (q, False)
      | t # ts \<Rightarrow> (q\<lparr>xTasksWaitingToSend := ts\<rparr>, higher t))"

text \<open>\<open>vTaskPlaceOnEventList\<close> keeps a list in the order of the priorities, with the tasks of one
  priority in the order of their arrival (\<open>vListInsert\<close>).\<close>

fun vListInsert :: "(task \<Rightarrow> nat) \<Rightarrow> task \<Rightarrow> task list \<Rightarrow> task list" where
  "vListInsert prio t [] = [t]"
| "vListInsert prio t (u # us) = (if prio t \<le> prio u then u # vListInsert prio t us else t # u # us)"

section \<open>Creating and resetting\<close>

text \<open>The products are of \<open>UBaseType_t\<close>, 32 bits wide. The second argument of
  \<open>xQueueGenericReset\<close> is \<open>xNewQueue\<close>.\<close>

definition xQueueGenericReset :: "(task \<Rightarrow> bool) \<Rightarrow> queue \<Rightarrow> bool \<Rightarrow> queue \<times> bool" where
  "xQueueGenericReset higher q xNewQueue =
     (let q1 = q\<lparr>pcTail := (uxLength q * uxItemSize q) mod 2 ^ 32, uxMessagesWaiting := 0, pcWriteTo := 0,
                pcReadFrom := int (((uxLength q - 1) * uxItemSize q) mod 2 ^ 32),
                xRxLock := queueUNLOCKED, xTxLock := queueUNLOCKED\<rparr>
      in if xNewQueue then (q1\<lparr>xTasksWaitingToSend := [], xTasksWaitingToReceive := []\<rparr>, False)
         else wake_sender higher q1)"

text \<open>The two requests to \<open>pvPortMalloc\<close> are parameters: for the structure, which has arbitrary
  contents \<open>q0\<close> when it is given, and for the storage area by its size. The result is \<open>None\<close> for a
  null pointer.\<close>

definition xQueueGenericCreate :: "queue option \<Rightarrow> (nat \<Rightarrow> buf option) \<Rightarrow> nat \<Rightarrow> nat \<Rightarrow> queue option" where
  "xQueueGenericCreate struct malloc n sz =
     (if 0 < n then
        case struct of None \<Rightarrow> None
        | Some q0 \<Rightarrow>
          (case malloc (((n * sz) mod 2 ^ 32 + 1) mod 2 ^ 32) of None \<Rightarrow> None
           | Some b \<Rightarrow> Some (fst (xQueueGenericReset (\<lambda>t. False)
               (q0\<lparr>pcHead := b, uxLength := n, uxItemSize := sz\<rparr>) True)))
      else None)"

definition xQueueCreateCountingSemaphore ::
    "queue option \<Rightarrow> (nat \<Rightarrow> buf option) \<Rightarrow> nat \<Rightarrow> nat \<Rightarrow> queue option" where
  "xQueueCreateCountingSemaphore struct malloc uxMaxCount uxInitialCount =
     map_option (\<lambda>q. q\<lparr>uxMessagesWaiting := uxInitialCount\<rparr>) (xQueueGenericCreate struct malloc uxMaxCount 0)"

section \<open>Sending and receiving\<close>

text \<open>The critical section that begins each turn of \<open>xQueueGenericSend\<close>. The last component says
  that the item was taken; with no time to wait it is the result of the call.\<close>

definition send_section :: "(task \<Rightarrow> bool) \<Rightarrow> queue \<Rightarrow> buf \<Rightarrow> position \<Rightarrow> (queue \<times> bool \<times> bool) option" where
  "send_section higher q item pos =
     (if uxMessagesWaiting q < uxLength q \<or> pos = queueOVERWRITE then do {
        q1 \<leftarrow> prvCopyDataToQueue q item pos;
        let (q2, y) = wake_receiver higher q1;
        Some (q2, y, True) }
      else Some (q, False, False))"

text \<open>The critical section of \<open>xQueueGenericReceive\<close>; a peek puts the read position back and lets
  the next reader have the item as well.\<close>

definition receive_section :: "(task \<Rightarrow> bool) \<Rightarrow> queue \<Rightarrow> bool \<Rightarrow> (queue \<times> bool \<times> buf option) option" where
  "receive_section higher q xJustPeeking =
     (if 0 < uxMessagesWaiting q then do {
        (q1, data) \<leftarrow> prvCopyDataFromQueue q;
        let (q2, y) =
          (if \<not> xJustPeeking then wake_sender higher (q1\<lparr>uxMessagesWaiting := uxMessagesWaiting q1 - 1\<rparr>)
           else wake_receiver higher (q1\<lparr>pcReadFrom := pcReadFrom q\<rparr>));
        Some (q2, y, Some data) }
      else Some (q, False, None))"

text \<open>The variants for interrupts leave the lists of a locked queue alone and count instead. The flag is
  what is written to \<open>pxHigherPriorityTaskWoken\<close>.\<close>

definition xQueueGenericSendFromISR ::
    "(task \<Rightarrow> bool) \<Rightarrow> queue \<Rightarrow> buf \<Rightarrow> position \<Rightarrow> (queue \<times> bool \<times> bool) option" where
  "xQueueGenericSendFromISR higher q item pos =
     (if uxMessagesWaiting q < uxLength q \<or> pos = queueOVERWRITE then do {
        q1 \<leftarrow> prvCopyDataToQueue q item pos;
        let (q2, y) = (if xTxLock q1 = queueUNLOCKED then wake_receiver higher q1
                       else (q1\<lparr>xTxLock := xTxLock q1 + 1\<rparr>, False));
        Some (q2, y, True) }
      else Some (q, False, False))"

definition xQueueReceiveFromISR :: "(task \<Rightarrow> bool) \<Rightarrow> queue \<Rightarrow> (queue \<times> bool \<times> buf option) option" where
  "xQueueReceiveFromISR higher q =
     (if 0 < uxMessagesWaiting q then do {
        (q1, data) \<leftarrow> prvCopyDataFromQueue q;
        let q2 = q1\<lparr>uxMessagesWaiting := uxMessagesWaiting q1 - 1\<rparr>;
        let (q3, y) = (if xRxLock q2 = queueUNLOCKED then wake_sender higher q2
                       else (q2\<lparr>xRxLock := xRxLock q2 + 1\<rparr>, False));
        Some (q3, y, Some data) }
      else Some (q, False, None))"

definition xQueuePeekFromISR :: "queue \<Rightarrow> (queue \<times> buf option) option" where
  "xQueuePeekFromISR q =
     (if 0 < uxMessagesWaiting q then do {
        (q1, data) \<leftarrow> prvCopyDataFromQueue q;
        Some (q1\<lparr>pcReadFrom := pcReadFrom q\<rparr>, Some data) }
      else Some (q, None))"

definition uxQueueMessagesWaiting :: "queue \<Rightarrow> nat" where
  "uxQueueMessagesWaiting q = uxMessagesWaiting q"

definition uxQueueSpacesAvailable :: "queue \<Rightarrow> nat" where
  "uxQueueSpacesAvailable q = (uxLength q + (2 ^ 32 - uxMessagesWaiting q)) mod 2 ^ 32"

definition uxQueueMessagesWaitingFromISR :: "queue \<Rightarrow> nat" where
  "uxQueueMessagesWaitingFromISR q = uxMessagesWaiting q"

definition prvIsQueueEmpty :: "queue \<Rightarrow> bool" where
  "prvIsQueueEmpty q \<longleftrightarrow> uxMessagesWaiting q = 0"

definition prvIsQueueFull :: "queue \<Rightarrow> bool" where
  "prvIsQueueFull q \<longleftrightarrow> uxMessagesWaiting q = uxLength q"

section \<open>The lock\<close>

definition prvLockQueue :: "queue \<Rightarrow> queue" where
  "prvLockQueue q =
     (let q1 = (if xRxLock q = queueUNLOCKED then q\<lparr>xRxLock := queueLOCKED_UNMODIFIED\<rparr> else q)
      in if xTxLock q1 = queueUNLOCKED then q1\<lparr>xTxLock := queueLOCKED_UNMODIFIED\<rparr> else q1)"

text \<open>The two critical sections of \<open>prvUnlockQueue\<close>. The flag is the call of \<open>vTaskMissedYield\<close>.\<close>

function unlock_tx :: "(task \<Rightarrow> bool) \<Rightarrow> queue \<Rightarrow> bool \<Rightarrow> queue \<times> bool" where
  "unlock_tx higher q y =
     (if queueLOCKED_UNMODIFIED < xTxLock q \<and> xTasksWaitingToReceive q \<noteq> [] then
        let (q1, y1) = wake_receiver higher q
        in unlock_tx higher (q1\<lparr>xTxLock := xTxLock q - 1\<rparr>) (y \<or> y1)
      else (q\<lparr>xTxLock := queueUNLOCKED\<rparr>, y))"
  by pat_completeness auto
termination
  by (relation "measure (\<lambda>(h, q, y). nat (xTxLock q))") auto

declare unlock_tx.simps [simp del]

function unlock_rx :: "(task \<Rightarrow> bool) \<Rightarrow> queue \<Rightarrow> bool \<Rightarrow> queue \<times> bool" where
  "unlock_rx higher q y =
     (if queueLOCKED_UNMODIFIED < xRxLock q \<and> xTasksWaitingToSend q \<noteq> [] then
        let (q1, y1) = wake_sender higher q
        in unlock_rx higher (q1\<lparr>xRxLock := xRxLock q - 1\<rparr>) (y \<or> y1)
      else (q\<lparr>xRxLock := queueUNLOCKED\<rparr>, y))"
  by pat_completeness auto
termination
  by (relation "measure (\<lambda>(h, q, y). nat (xRxLock q))") auto

declare unlock_rx.simps [simp del]

definition prvUnlockQueue :: "(task \<Rightarrow> bool) \<Rightarrow> queue \<Rightarrow> queue \<times> bool" where
  "prvUnlockQueue higher q = (let (q1, y1) = unlock_tx higher q False in unlock_rx higher q1 y1)"

section \<open>The ring buffer as a sequence of items\<close>

text \<open>The slot the read position points to, the contents of a slot, and the items from the oldest on.\<close>

definition rdx :: "queue \<Rightarrow> nat" where
  "rdx q = nat (pcReadFrom q) div uxItemSize q"

definition slot :: "queue \<Rightarrow> nat \<Rightarrow> buf" where
  "slot q i = take (uxItemSize q) (drop (uxItemSize q * i) (pcHead q))"

definition items :: "queue \<Rightarrow> buf list" where
  "items q = map (\<lambda>k. slot q ((rdx q + 1 + k) mod uxLength q)) [0..<uxMessagesWaiting q]"

definition ring_ok :: "queue \<Rightarrow> bool" where
  "ring_ok q \<longleftrightarrow> 0 < uxLength q \<and> uxLength q * uxItemSize q < 2 ^ 32 - 1 \<and> uxLength q < 2 ^ 32
     \<and> length (pcHead q) = uxLength q * uxItemSize q + 1 \<and> pcTail q = uxLength q * uxItemSize q
     \<and> uxMessagesWaiting q \<le> uxLength q \<and> rdx q < uxLength q
     \<and> pcReadFrom q = int (uxItemSize q * rdx q)
     \<and> pcWriteTo q = uxItemSize q * ((rdx q + 1 + uxMessagesWaiting q) mod uxLength q)"

text \<open>Everything but the stored items: the lists of waiting tasks, the lock counts and the capacity.\<close>

definition same_control :: "queue \<Rightarrow> queue \<Rightarrow> bool" where
  "same_control q q' \<longleftrightarrow> uxLength q' = uxLength q \<and> uxItemSize q' = uxItemSize q
     \<and> xTasksWaitingToSend q' = xTasksWaitingToSend q \<and> xTasksWaitingToReceive q' = xTasksWaitingToReceive q
     \<and> xRxLock q' = xRxLock q \<and> xTxLock q' = xTxLock q"

lemma length_items [simp]: "length (items q) = uxMessagesWaiting q"
  by (simp add: items_def)

lemma mod_neq: "(k::nat) < m \<Longrightarrow> m < L + k \<Longrightarrow> (a + k) mod L \<noteq> (a + m) mod L"
proof
  assume km: "k < m" "m < L + k" and eq: "(a + k) mod L = (a + m) mod L"
  have "L dvd (a + m) - (a + k)" using eq km by (intro mod_eq_dvd_iff_nat [THEN iffD1]) auto
  with km show False by (auto dest!: dvd_imp_le)
qed

lemma mod_add_mod_left: "((a::nat) mod L + k) mod L = (a + k) mod L"
  by (simp add: mod_simps)

lemma slot_bound: "i < L \<Longrightarrow> (sz::nat) * i + sz \<le> L * sz"
  using mult_le_mono2 [of "Suc i" L sz] by (simp add: mult.commute)

lemma store_item_ok:
  assumes len: "length (pcHead q) = uxLength q * uxItemSize q + 1" and i: "i < uxLength q"
    and item: "uxItemSize q \<le> length item"
  obtains st where "store_item q (int (uxItemSize q * i)) item = Some (q\<lparr>pcHead := st\<rparr>)"
    "length st = length (pcHead q)"
    "\<And>j. slot (q\<lparr>pcHead := st\<rparr>) j = (if j = i then take (uxItemSize q) item else slot q j)"
proof -
  let ?d = "take (uxItemSize q) item"
  have d: "rdn item 0 (uxItemSize q) = Some ?d" using item by (simp add: rdn_def)
  have ln: "length ?d = uxItemSize q" using item by simp
  obtain st where st: "wrn (pcHead q) (uxItemSize q * i) ?d = Some st" "length st = length (pcHead q)"
    using wrn_total [of "uxItemSize q * i" ?d "pcHead q"] slot_bound [OF i, of "uxItemSize q"] ln len
    by auto
  have sl: "take (uxItemSize q) (drop (uxItemSize q * j) st) =
      (if j = i then ?d else slot q j)" for j
  proof (cases "j = i")
    case True
    then show ?thesis using take_drop_wrn(1) [OF st(1)] by (simp only: ln if_True simp_thms)
  next
    case False
    then consider "j < i" | "i < j" by linarith
    then show ?thesis
    proof cases
      case 1
      then have "uxItemSize q * j + uxItemSize q \<le> uxItemSize q * i"
        using slot_bound [of j i "uxItemSize q"] by (simp add: mult.commute)
      then show ?thesis using take_drop_wrn(2) [OF st(1)] False by (simp add: slot_def)
    next
      case 2
      then have "uxItemSize q * i + length ?d \<le> uxItemSize q * j"
        using slot_bound [of i j "uxItemSize q"] ln by (simp add: mult.commute)
      then show ?thesis using take_drop_wrn(3) [OF st(1)] False by (simp add: slot_def)
    qed
  qed
  show ?thesis
    by (rule that [of st]) (use d st sl in \<open>simp_all add: store_item_def slot_def del: of_nat_mult\<close>)
qed


lemma nat_int_mult_div [simp]: "0 < sz \<Longrightarrow> nat (int (sz * r)) div sz = r"
  by (simp del: of_nat_mult)

text \<open>The three ways of adding an item.\<close>

lemma copy_to_back:
  assumes q: "ring_ok q" and room: "uxMessagesWaiting q < uxLength q" and item: "uxItemSize q \<le> length item"
  shows "\<exists>q'. prvCopyDataToQueue q item queueSEND_TO_BACK = Some q' \<and> ring_ok q' \<and> same_control q q'
    \<and> items q' = items q @ [take (uxItemSize q) item]"
proof (cases "uxItemSize q = 0")
  case True
  then show ?thesis using q room
    by (simp add: prvCopyDataToQueue_def ring_ok_def same_control_def items_def rdx_def slot_def)
next
  case False
  define L sz r m where "L = uxLength q" "sz = uxItemSize q" "r = rdx q" "m = uxMessagesWaiting q"
  note d = L_sz_r_m_def
  define i where "i = (r + 1 + m) mod L"
  have L: "0 < L" "i < L" using q by (auto simp: ring_ok_def d i_def)
  obtain st where st: "store_item q (int (sz * i)) item = Some (q\<lparr>pcHead := st\<rparr>)"
    "length st = length (pcHead q)"
    "\<And>j. slot (q\<lparr>pcHead := st\<rparr>) j = (if j = i then take sz item else slot q j)"
    by (rule store_item_ok [of q i item]) (use q item L in \<open>simp_all add: ring_ok_def d\<close>)
  define q' where "q' = q\<lparr>pcHead := st, pcWriteTo := sz * (Suc i mod L), uxMessagesWaiting := Suc m\<rparr>"
  have w: "(if pcTail q \<le> sz * i + sz then 0 else sz * i + sz) = sz * (Suc i mod L)"
  proof (cases "Suc i = L")
    case True then show ?thesis using q by (auto simp: ring_ok_def d [symmetric] algebra_simps)
  next
    case F: False
    then have "sz * i + sz < L * sz"
      using L slot_bound [of "Suc i" L sz] False by (simp add: d mult.commute)
    then show ?thesis using F L q by (simp add: ring_ok_def d [symmetric])
  qed
  have res: "prvCopyDataToQueue q item queueSEND_TO_BACK = Some q'"
  proof -
    have "pcWriteTo q = sz * i" using q by (simp add: ring_ok_def d i_def)
    then show ?thesis using False st(1) w
      by (simp add: prvCopyDataToQueue_def d [symmetric] q'_def del: of_nat_mult)
  qed
  have f: "rdx q' = r" "uxLength q' = L" "uxItemSize q' = sz" "uxMessagesWaiting q' = Suc m"
    "slot q' j = slot (q\<lparr>pcHead := st\<rparr>) j" for j
    by (simp_all add: q'_def rdx_def d slot_def)
  have old: "slot q' ((r + 1 + k) mod L) = slot q ((r + 1 + k) mod L)" if "k < m" for k
  proof -
    have "(r + 1 + k) mod L \<noteq> i"
      unfolding i_def using that room by (intro mod_neq) (auto simp: d)
    then show ?thesis by (simp add: f st(3))
  qed
  have "items q' = items q @ [take sz item]"
    using old by (simp add: items_def f d [symmetric] st(3)) (simp add: i_def)
  moreover have "ring_ok q'"
  proof -
    have "Suc i mod L = (r + 1 + Suc m) mod L" by (simp add: i_def mod_simps)
    then show ?thesis using q room st(2) by (simp add: ring_ok_def f d [symmetric]) (simp add: q'_def)
  qed
  moreover have "same_control q q'" by (simp add: q'_def same_control_def d)
  ultimately show ?thesis using res by (simp add: d)
qed


lemma copy_to_front:
  assumes q: "ring_ok q" and room: "uxMessagesWaiting q < uxLength q" and item: "uxItemSize q \<le> length item"
  shows "\<exists>q'. prvCopyDataToQueue q item queueSEND_TO_FRONT = Some q' \<and> ring_ok q' \<and> same_control q q'
    \<and> items q' = take (uxItemSize q) item # items q"
proof (cases "uxItemSize q = 0")
  case True
  then show ?thesis using q room
    by (simp add: prvCopyDataToQueue_def ring_ok_def same_control_def items_def rdx_def slot_def
        upt_conv_Cons map_replicate_const del: upt_Suc)
next
  case False
  define L sz r m where "L = uxLength q" "sz = uxItemSize q" "r = rdx q" "m = uxMessagesWaiting q"
  note d = L_sz_r_m_def
  define r' where "r' = (if r = 0 then L - 1 else r - 1)"
  have L: "0 < L" "r < L" "r' < L" using q by (auto simp: ring_ok_def d r'_def)
  have turn: "(r' + 1 + k) mod L = (r + k) mod L" for k
    using L by (cases "r = 0") (auto simp: r'_def)
  obtain st where st: "store_item q (int (sz * r)) item = Some (q\<lparr>pcHead := st\<rparr>)"
    "length st = length (pcHead q)"
    "\<And>j. slot (q\<lparr>pcHead := st\<rparr>) j = (if j = r then take sz item else slot q j)"
    by (rule store_item_ok [of q r item]) (use q item L in \<open>simp_all add: ring_ok_def d\<close>)
  define q' where "q' = q\<lparr>pcHead := st, pcReadFrom := int (sz * r'), uxMessagesWaiting := Suc m\<rparr>"
  have w: "(if int (sz * r) - int sz < 0 then int (pcTail q) - int sz else int (sz * r) - int sz) = int (sz * r')"
    using L q False by (cases r; cases L)
      (auto simp: ring_ok_def d [symmetric] r'_def algebra_simps mult_less_0_iff)
  have res: "prvCopyDataToQueue q item queueSEND_TO_FRONT = Some q'"
  proof -
    have "pcReadFrom q = int (sz * r)" using q by (simp add: ring_ok_def d)
    then show ?thesis using False st(1) w
      by (cases "r = 0") (simp_all add: prvCopyDataToQueue_def d [symmetric] q'_def del: of_nat_mult)
  qed
  have f: "uxLength q' = L" "uxItemSize q' = sz" "uxMessagesWaiting q' = Suc m" "pcReadFrom q' = int (sz * r')"
    "slot q' j = slot (q\<lparr>pcHead := st\<rparr>) j" for j
    by (simp_all add: q'_def d slot_def)
  have rdx: "rdx q' = r'" using False by (simp add: rdx_def f d del: of_nat_mult)
  have old: "slot q' ((r + 1 + k) mod L) = slot q ((r + 1 + k) mod L)" if "k < m" for k
  proof -
    have "(r + 0) mod L \<noteq> (r + (1 + k)) mod L"
      using that room by (intro mod_neq) (auto simp: d)
    then show ?thesis using L by (simp add: f st(3))
  qed
  have "items q' = slot q' ((r' + 1) mod L) # map (\<lambda>k. slot q' ((r' + 1 + Suc k) mod L)) [0..<m]"
    by (simp add: items_def f rdx upt_conv_Cons map_Suc_upt [symmetric] del: upt_Suc)
  also have "\<dots> = take sz item # map (\<lambda>k. slot q' ((r + 1 + k) mod L)) [0..<m]"
    using turn [of 0] turn [of "Suc k" for k] L by (simp add: f st(3) add.commute)
  also have "map (\<lambda>k. slot q' ((r + 1 + k) mod L)) [0..<m] = items q"
    using old by (simp add: items_def d [symmetric])
  finally have "items q' = take sz item # items q" .
  moreover have "ring_ok q'"
  proof -
    have "(r + 1 + m) mod L = (r' + 1 + Suc m) mod L" using turn [of "Suc m"] by simp
    then show ?thesis using q room st(2) L by (simp add: ring_ok_def f rdx d [symmetric]) (simp add: q'_def)
  qed
  moreover have "same_control q q'" by (simp add: q'_def same_control_def d)
  ultimately show ?thesis using res by (simp add: d)
qed

lemma copy_overwrite:
  assumes q: "ring_ok q" and one: "uxLength q = 1" and item: "uxItemSize q \<le> length item" and sz: "uxItemSize q \<noteq> 0"
  shows "\<exists>q'. prvCopyDataToQueue q item queueOVERWRITE = Some q' \<and> ring_ok q' \<and> same_control q q'
    \<and> items q' = [take (uxItemSize q) item]"
proof -
  have r: "rdx q = 0" "pcReadFrom q = 0" "uxMessagesWaiting q \<le> 1" using q one by (auto simp: ring_ok_def)
  obtain st where st: "store_item q (int (uxItemSize q * 0)) item = Some (q\<lparr>pcHead := st\<rparr>)"
    "length st = length (pcHead q)"
    "\<And>j. slot (q\<lparr>pcHead := st\<rparr>) j = (if j = 0 then take (uxItemSize q) item else slot q j)"
    by (rule store_item_ok [of q 0 item]) (use q item one in \<open>simp_all add: ring_ok_def\<close>)
  have "take (uxItemSize q) st = take (uxItemSize q) item"
    using st(3) [of 0] by (simp add: slot_def)
  then show ?thesis using st(1,2) q one sz r
    by (intro exI [of _ "q\<lparr>pcHead := st, pcReadFrom := 0, uxMessagesWaiting := 1\<rparr>"])
      (auto simp: prvCopyDataToQueue_def ring_ok_def same_control_def items_def slot_def rdx_def Let_def)
qed

text \<open>Taking the oldest item.\<close>

lemma copy_from:
  assumes q: "ring_ok q" and some: "0 < uxMessagesWaiting q"
  shows "\<exists>q1. prvCopyDataFromQueue q = Some (q1, hd (items q)) \<and> q1 = q\<lparr>pcReadFrom := pcReadFrom q1\<rparr>
    \<and> ring_ok (q1\<lparr>uxMessagesWaiting := uxMessagesWaiting q1 - 1\<rparr>)
    \<and> items (q1\<lparr>uxMessagesWaiting := uxMessagesWaiting q1 - 1\<rparr>) = tl (items q)"
proof (cases "uxItemSize q = 0")
  case True
  then show ?thesis using q some
    by (auto simp: prvCopyDataFromQueue_def ring_ok_def same_control_def items_def rdx_def slot_def
        upt_conv_Cons map_replicate_const simp del: upt_Suc)
next
  case False
  define L sz r m where "L = uxLength q" "sz = uxItemSize q" "r = rdx q" "m = uxMessagesWaiting q"
  note d = L_sz_r_m_def
  define i where "i = Suc r mod L"
  have L: "0 < L" "r < L" "i < L" using q by (auto simp: ring_ok_def d i_def)
  have w: "(if int (pcTail q) \<le> int (sz * r) + int sz then 0 else int (sz * r) + int sz) = int (sz * i)"
  proof (cases "Suc r = L")
    case True then show ?thesis using q by (auto simp: ring_ok_def d [symmetric] i_def algebra_simps)
  next
    case F: False
    then have "sz * r + sz < L * sz"
      using L slot_bound [of "Suc r" L sz] False by (simp add: d mult.commute)
    then show ?thesis using F L q
      by (simp add: ring_ok_def d [symmetric] i_def algebra_simps flip: of_nat_mult of_nat_add)
  qed
  define q1 where "q1 = q\<lparr>pcReadFrom := int (sz * i)\<rparr>"
  have "prvCopyDataFromQueue q = Some (q1, slot q i)"
  proof -
    have "sz * i + sz \<le> length (pcHead q)" using slot_bound [OF L(3), of sz] q by (simp add: ring_ok_def d)
    then have "rdn (pcHead q) (sz * i) sz = Some (slot q i)" by (simp add: rdn_def slot_def d)
    moreover have "pcReadFrom q = int (sz * r)" using q by (simp add: ring_ok_def d)
    ultimately show ?thesis using False w
      by (simp add: prvCopyDataFromQueue_def d [symmetric] q1_def del: of_nat_mult)
  qed
  moreover have "hd (items q) = slot q i" "tl (items q) = map (\<lambda>k. slot q ((i + 1 + k) mod L)) [0..<m - 1]"
  proof -
    have "items q = slot q i # map (\<lambda>k. slot q ((r + 1 + Suc k) mod L)) [0..<m - 1]"
      using some by (cases m) (simp_all add: items_def d [symmetric] i_def upt_conv_Cons map_Suc_upt [symmetric] del: upt_Suc)
    moreover have "(r + 1 + Suc k) mod L = (i + 1 + k) mod L" for k
      using mod_add_mod_left [of "Suc r" L "Suc k"] by (simp add: i_def)
    ultimately show "hd (items q) = slot q i" "tl (items q) = map (\<lambda>k. slot q ((i + 1 + k) mod L)) [0..<m - 1]"
      by simp_all
  qed
  moreover have "rdx q1 = i" using False by (simp add: rdx_def q1_def d del: of_nat_mult)
  moreover have "(r + 1 + m) mod L = (i + 1 + (m - 1)) mod L"
    using some mod_add_mod_left [of "Suc r" L m] by (simp add: i_def d)
  ultimately show ?thesis using q some L
    by (intro exI [of _ q1]) (auto simp: q1_def ring_ok_def items_def rdx_def slot_def d)
qed

section \<open>The contract of a bounded queue\<close>

text \<open>What a caller asks of a queue and what it is told; the sequence of items that the requests and
  answers describe. A request to overwrite is for queues of length one.\<close>

datatype 'a request = Push 'a | PushFront 'a | Overwrite 'a | Pop | Peek

datatype 'a answer = Ack bool | Item "'a option"

fun deque :: "nat \<Rightarrow> 'a list \<Rightarrow> 'a request \<Rightarrow> 'a list \<times> 'a answer" where
  "deque n xs (Push x) = (if length xs < n then (xs @ [x], Ack True) else (xs, Ack False))"
| "deque n xs (PushFront x) = (if length xs < n then (x # xs, Ack True) else (xs, Ack False))"
| "deque n xs (Overwrite x) = ([x], Ack True)"
| "deque n [] Pop = ([], Item None)"
| "deque n (x # xs) Pop = (xs, Item (Some x))"
| "deque n [] Peek = ([], Item None)"
| "deque n (x # xs) Peek = (x # xs, Item (Some x))"

type_synonym 'a event = "'a request \<times> 'a answer"

text \<open>The items after a history of requests with their answers; \<open>None\<close> when a queue would have
  answered differently.\<close>

fun replay :: "nat \<Rightarrow> 'a list \<Rightarrow> 'a event list \<Rightarrow> 'a list option" where
  "replay n xs [] = Some xs"
| "replay n xs ((c, r) # es) = (let (ys, r') = deque n xs c in if r' = r then replay n ys es else None)"

lemma replay_append: "replay n xs (es @ fs) = Option.bind (replay n xs es) (\<lambda>ys. replay n ys fs)"
  by (induction n xs es rule: replay.induct) (auto split: prod.splits)

text \<open>What was put into the queue, and what was taken out of it.\<close>

fun put_of :: "'a event \<Rightarrow> 'a list" where
  "put_of (Push x, Ack True) = [x]"
| "put_of e = []"

fun taken_of :: "'a event \<Rightarrow> 'a list" where
  "taken_of (Pop, Item (Some x)) = [x]"
| "taken_of e = []"

definition put_in :: "'a event list \<Rightarrow> 'a list" where
  "put_in es = concat (map put_of es)"

definition taken_out :: "'a event list \<Rightarrow> 'a list" where
  "taken_out es = concat (map taken_of es)"

fun at_back :: "'a request \<Rightarrow> bool" where
  "at_back (PushFront x) = False"
| "at_back (Overwrite x) = False"
| "at_back c = True"

text \<open>First in, first out: with items added at the back only, the items taken out and those still
  there are the ones that were put in, in that order.\<close>

lemma deque_fifo: "deque n xs c = (ys, r) \<Longrightarrow> at_back c \<Longrightarrow> taken_of (c, r) @ ys = xs @ put_of (c, r)"
  by (cases c; cases xs) (auto split: if_splits)

lemma replay_fifo:
  "replay n xs es = Some ys \<Longrightarrow> list_all (at_back \<circ> fst) es \<Longrightarrow> taken_out es @ ys = xs @ put_in es"
proof (induction es arbitrary: xs)
  case (Cons e es)
  obtain c r where e: "e = (c, r)" by (cases e)
  obtain zs where zs: "deque n xs c = (zs, r)" "replay n zs es = Some ys"
    using Cons.prems(1) unfolding e by (auto split: prod.splits if_splits)
  have "taken_of e @ taken_out es @ ys = (taken_of e @ zs) @ put_in es"
    using Cons.IH [OF zs(2)] Cons.prems(2) by simp
  also have "\<dots> = (xs @ put_of e) @ put_in es"
    using deque_fifo [OF zs(1)] Cons.prems(2) by (simp add: e)
  finally show ?case by (simp add: put_in_def taken_out_def)
qed (simp add: put_in_def taken_out_def)

text \<open>An implementation, and a run of requests on it.\<close>

fun run_requests :: "('s \<Rightarrow> 'a request \<Rightarrow> ('s \<times> 'a answer) option) \<Rightarrow> 's \<Rightarrow> 'a request list
    \<Rightarrow> ('s \<times> 'a event list) option" where
  "run_requests ask s [] = Some (s, [])"
| "run_requests ask s (c # cs) = do {
     (s', r) \<leftarrow> ask s c;
     (s'', es) \<leftarrow> run_requests ask s' cs;
     Some (s'', (c, r) # es) }"

locale bounded_queue =
  fixes ask :: "'s \<Rightarrow> 'a request \<Rightarrow> ('s \<times> 'a answer) option"
    and inv :: "'s \<Rightarrow> bool"
    and content :: "'s \<Rightarrow> 'a list"
    and cap :: "'s \<Rightarrow> nat"
    and allowed :: "'s \<Rightarrow> 'a request \<Rightarrow> bool"
  assumes ask_ok: "inv s \<Longrightarrow> allowed s c \<Longrightarrow> \<exists>s' r. ask s c = Some (s', r) \<and> inv s'
      \<and> deque (cap s) (content s) c = (content s', r) \<and> cap s' = cap s \<and> allowed s' = allowed s"
begin

lemma run_ok:
  "inv s \<Longrightarrow> list_all (allowed s) cs \<Longrightarrow> \<exists>s' es. run_requests ask s cs = Some (s', es) \<and> inv s'
     \<and> map fst es = cs \<and> replay (cap s) (content s) es = Some (content s')"
proof (induction cs arbitrary: s)
  case (Cons c cs)
  then obtain s1 r where s1: "ask s c = Some (s1, r)" "inv s1" "deque (cap s) (content s) c = (content s1, r)"
    "cap s1 = cap s" "allowed s1 = allowed s"
    using ask_ok [of s c] by auto
  then obtain s2 es where "run_requests ask s1 cs = Some (s2, es)" "inv s2" "map fst es = cs"
    "replay (cap s1) (content s1) es = Some (content s2)"
    using Cons.IH [of s1] Cons.prems by auto
  with s1 show ?case by auto
qed simp

lemma run_fifo:
  assumes "inv s" "list_all (allowed s) cs" "list_all at_back cs" "content s = []"
  shows "\<exists>s' es. run_requests ask s cs = Some (s', es) \<and> taken_out es @ content s' = put_in es"
proof -
  obtain s' es where "run_requests ask s cs = Some (s', es)" "map fst es = cs"
    "replay (cap s) (content s) es = Some (content s')"
    using run_ok [OF assms(1,2)] by auto
  with assms(3,4) replay_fifo [of "cap s" "content s" es "content s'"] show ?thesis
    by (auto simp: list_all_iff)
qed

end

section \<open>The operations keep the contract\<close>

text \<open>The requests as calls from a task that does not wait, and from an interrupt.\<close>

fun task_op :: "(task \<Rightarrow> bool) \<Rightarrow> queue \<Rightarrow> buf request \<Rightarrow> (queue \<times> bool \<times> buf answer) option" where
  "task_op higher q (Push x) = map_option (\<lambda>(q', y, b). (q', y, Ack b)) (send_section higher q x queueSEND_TO_BACK)"
| "task_op higher q (PushFront x) =
     map_option (\<lambda>(q', y, b). (q', y, Ack b)) (send_section higher q x queueSEND_TO_FRONT)"
| "task_op higher q (Overwrite x) =
     map_option (\<lambda>(q', y, b). (q', y, Ack b)) (send_section higher q x queueOVERWRITE)"
| "task_op higher q Pop = map_option (\<lambda>(q', y, d). (q', y, Item d)) (receive_section higher q False)"
| "task_op higher q Peek = map_option (\<lambda>(q', y, d). (q', y, Item d)) (receive_section higher q True)"

fun isr_op :: "(task \<Rightarrow> bool) \<Rightarrow> queue \<Rightarrow> buf request \<Rightarrow> (queue \<times> bool \<times> buf answer) option" where
  "isr_op higher q (Push x) =
     map_option (\<lambda>(q', y, b). (q', y, Ack b)) (xQueueGenericSendFromISR higher q x queueSEND_TO_BACK)"
| "isr_op higher q (PushFront x) =
     map_option (\<lambda>(q', y, b). (q', y, Ack b)) (xQueueGenericSendFromISR higher q x queueSEND_TO_FRONT)"
| "isr_op higher q (Overwrite x) =
     map_option (\<lambda>(q', y, b). (q', y, Ack b)) (xQueueGenericSendFromISR higher q x queueOVERWRITE)"
| "isr_op higher q Pop = map_option (\<lambda>(q', y, d). (q', y, Item d)) (xQueueReceiveFromISR higher q)"
| "isr_op higher q Peek = map_option (\<lambda>(q', d). (q', False, Item d)) (xQueuePeekFromISR q)"

fun request_ok :: "nat \<Rightarrow> nat \<Rightarrow> buf request \<Rightarrow> bool" where
  "request_ok L sz (Push x) \<longleftrightarrow> length x = sz"
| "request_ok L sz (PushFront x) \<longleftrightarrow> length x = sz"
| "request_ok L sz (Overwrite x) \<longleftrightarrow> length x = sz \<and> L = 1 \<and> sz \<noteq> 0"
| "request_ok L sz c \<longleftrightarrow> True"

text \<open>The contents, and the pointers, depend on the storage and on the counters only.\<close>

lemma ring_ok_control [simp]:
  "ring_ok (q\<lparr>xTasksWaitingToSend := ts\<rparr>) = ring_ok q" "ring_ok (q\<lparr>xTasksWaitingToReceive := ts\<rparr>) = ring_ok q"
  "ring_ok (q\<lparr>xRxLock := n\<rparr>) = ring_ok q" "ring_ok (q\<lparr>xTxLock := n\<rparr>) = ring_ok q"
  by (simp_all add: ring_ok_def rdx_def)

lemma items_control [simp]:
  "items (q\<lparr>xTasksWaitingToSend := ts\<rparr>) = items q" "items (q\<lparr>xTasksWaitingToReceive := ts\<rparr>) = items q"
  "items (q\<lparr>xRxLock := n\<rparr>) = items q" "items (q\<lparr>xTxLock := n\<rparr>) = items q"
  by (simp_all add: items_def rdx_def slot_def)

text \<open>Which lists an operation may wake a task of: a new item is for a receiver, a free slot for a
  sender, and an item that was only looked at for the next receiver.\<close>

fun for_receiver :: "buf event \<Rightarrow> bool" where
  "for_receiver (Pop, r) = False"
| "for_receiver (Peek, Item (Some x)) = True"
| "for_receiver (Peek, r) = False"
| "for_receiver (c, r) = (r = Ack True)"

fun for_sender :: "buf event \<Rightarrow> bool" where
  "for_sender (Pop, Item (Some x)) = True"
| "for_sender e = False"

definition task_effect :: "queue \<Rightarrow> buf event \<Rightarrow> queue \<Rightarrow> bool" where
  "task_effect q e q' \<longleftrightarrow>
     uxLength q' = uxLength q \<and> uxItemSize q' = uxItemSize q \<and> xTxLock q' = xTxLock q \<and> xRxLock q' = xRxLock q
     \<and> xTasksWaitingToReceive q' = (if for_receiver e then tl (xTasksWaitingToReceive q) else xTasksWaitingToReceive q)
     \<and> xTasksWaitingToSend q' = (if for_sender e then tl (xTasksWaitingToSend q) else xTasksWaitingToSend q)"

text \<open>From an interrupt the same, unless the queue is locked; then the matching count goes up. A peek
  from an interrupt wakes nobody.\<close>

definition isr_effect :: "queue \<Rightarrow> buf event \<Rightarrow> queue \<Rightarrow> bool" where
  "isr_effect q e q' \<longleftrightarrow>
     uxLength q' = uxLength q \<and> uxItemSize q' = uxItemSize q
     \<and> (let post = for_receiver e \<and> fst e \<noteq> Peek in
        xTxLock q' = (if post \<and> xTxLock q \<noteq> -1 then xTxLock q + 1 else xTxLock q)
        \<and> xTasksWaitingToReceive q' = (if post \<and> xTxLock q = -1 then tl (xTasksWaitingToReceive q)
            else xTasksWaitingToReceive q))
     \<and> xRxLock q' = (if for_sender e \<and> xRxLock q \<noteq> -1 then xRxLock q + 1 else xRxLock q)
     \<and> xTasksWaitingToSend q' = (if for_sender e \<and> xRxLock q = -1 then tl (xTasksWaitingToSend q)
            else xTasksWaitingToSend q)"

lemma wake_receiver_eq:
  "wake_receiver higher q = (q\<lparr>xTasksWaitingToReceive := tl (xTasksWaitingToReceive q)\<rparr>,
     xTasksWaitingToReceive q \<noteq> [] \<and> higher (hd (xTasksWaitingToReceive q)))"
  by (cases q) (auto simp: wake_receiver_def split: list.splits)

lemma wake_sender_eq:
  "wake_sender higher q = (q\<lparr>xTasksWaitingToSend := tl (xTasksWaitingToSend q)\<rparr>,
     xTasksWaitingToSend q \<noteq> [] \<and> higher (hd (xTasksWaitingToSend q)))"
  by (cases q) (auto simp: wake_sender_def split: list.splits)

lemma same_controlD:
  assumes "same_control q q'"
  shows "uxLength q' = uxLength q" "uxItemSize q' = uxItemSize q"
    "xTasksWaitingToSend q' = xTasksWaitingToSend q" "xTasksWaitingToReceive q' = xTasksWaitingToReceive q"
    "xRxLock q' = xRxLock q" "xTxLock q' = xTxLock q"
  using assms by (auto simp: same_control_def)

lemma copy_to_queue:
  assumes q: "ring_ok q" and len: "length x = uxItemSize q"
    and room: "uxMessagesWaiting q < uxLength q \<or> pos = queueOVERWRITE"
    and over: "pos = queueOVERWRITE \<Longrightarrow> uxLength q = 1 \<and> uxItemSize q \<noteq> 0"
  obtains q' where "prvCopyDataToQueue q x pos = Some q'" "ring_ok q'" "same_control q q'"
    "items q' = (case pos of queueSEND_TO_BACK \<Rightarrow> items q @ [x] | queueSEND_TO_FRONT \<Rightarrow> x # items q
       | queueOVERWRITE \<Rightarrow> [x])"
proof (cases pos)
  case queueSEND_TO_BACK
  then show ?thesis using copy_to_back [OF q, of x] room len that by auto
next
  case queueSEND_TO_FRONT
  then show ?thesis using copy_to_front [OF q, of x] room len that by auto
next
  case queueOVERWRITE
  then show ?thesis using copy_overwrite [OF q, of x] over len that by auto
qed

lemma receive_sections:
  assumes q: "ring_ok q" and some: "0 < uxMessagesWaiting q"
  obtains q1 where "prvCopyDataFromQueue q = Some (q1, hd (items q))" "q1\<lparr>pcReadFrom := pcReadFrom q\<rparr> = q"
    "ring_ok (q1\<lparr>uxMessagesWaiting := uxMessagesWaiting q1 - 1\<rparr>)" "same_control q q1"
    "items (q1\<lparr>uxMessagesWaiting := uxMessagesWaiting q1 - 1\<rparr>) = tl (items q)"
proof -
  obtain q1 where 1: "prvCopyDataFromQueue q = Some (q1, hd (items q))" "q1 = q\<lparr>pcReadFrom := pcReadFrom q1\<rparr>"
    "ring_ok (q1\<lparr>uxMessagesWaiting := uxMessagesWaiting q1 - 1\<rparr>)"
    "items (q1\<lparr>uxMessagesWaiting := uxMessagesWaiting q1 - 1\<rparr>) = tl (items q)"
    using copy_from [OF q some] by auto
  have "q1\<lparr>pcReadFrom := pcReadFrom q\<rparr> = q" using 1(2) by (cases q1; cases q) simp
  moreover have "same_control q q1" using 1(2) by (cases q1; cases q) (simp add: same_control_def)
  ultimately show ?thesis using 1 that by blast
qed

lemma task_op_ok:
  assumes q: "ring_ok q" and c: "request_ok (uxLength q) (uxItemSize q) c"
  shows "\<exists>q' y r. task_op higher q c = Some (q', y, r) \<and> ring_ok q' \<and> task_effect q (c, r) q'
    \<and> deque (uxLength q) (items q) c = (items q', r)"
proof -
  have send: ?thesis if "c = (case pos of queueSEND_TO_BACK \<Rightarrow> Push x | queueSEND_TO_FRONT \<Rightarrow> PushFront x
      | queueOVERWRITE \<Rightarrow> Overwrite x)" for pos x
  proof (cases "uxMessagesWaiting q < uxLength q \<or> pos = queueOVERWRITE")
    case True
    have pre: "length x = uxItemSize q" "pos = queueOVERWRITE \<Longrightarrow> uxLength q = 1 \<and> uxItemSize q \<noteq> 0"
      using c that by (cases pos; simp)+
    obtain q' where q': "prvCopyDataToQueue q x pos = Some q'" "ring_ok q'" "same_control q q'"
      "items q' = (case pos of queueSEND_TO_BACK \<Rightarrow> items q @ [x] | queueSEND_TO_FRONT \<Rightarrow> x # items q
         | queueOVERWRITE \<Rightarrow> [x])"
      by (rule copy_to_queue [OF q pre(1) True pre(2)])
    then show ?thesis using True that
      by (cases pos) (auto simp: send_section_def wake_receiver_eq task_effect_def same_controlD)
  next
    case False
    then show ?thesis using that q by (cases pos) (auto simp: send_section_def task_effect_def)
  qed
  have receive: ?thesis if p: "c = (if p then Peek else Pop)" for p
  proof (cases "items q")
    case Nil
    then have "uxMessagesWaiting q = 0" using length_items [of q] by simp
    then show ?thesis using p q Nil by (cases p) (auto simp: receive_section_def task_effect_def)
  next
    case (Cons x xs)
    then have "0 < uxMessagesWaiting q" using length_items [of q] by simp
    from receive_sections [OF q this] obtain q1 where
      q1: "prvCopyDataFromQueue q = Some (q1, hd (items q))" "q1\<lparr>pcReadFrom := pcReadFrom q\<rparr> = q"
      "ring_ok (q1\<lparr>uxMessagesWaiting := uxMessagesWaiting q1 - 1\<rparr>)" "same_control q q1"
      "items (q1\<lparr>uxMessagesWaiting := uxMessagesWaiting q1 - 1\<rparr>) = tl (items q)" .
    with \<open>0 < uxMessagesWaiting q\<close> Cons show ?thesis using p q
      by (cases p)
        (auto simp: receive_section_def task_effect_def wake_receiver_eq wake_sender_eq same_controlD)
  qed
  show ?thesis
  proof (cases c)
    case (Push x) then show ?thesis using send [where pos = queueSEND_TO_BACK and x = x] by simp
  next
    case (PushFront x) then show ?thesis using send [where pos = queueSEND_TO_FRONT and x = x] by simp
  next
    case (Overwrite x) then show ?thesis using send [where pos = queueOVERWRITE and x = x] by simp
  qed (use receive [where p = True] receive [where p = False] in auto)
qed

lemma isr_op_ok:
  assumes q: "ring_ok q" and c: "request_ok (uxLength q) (uxItemSize q) c"
  shows "\<exists>q' y r. isr_op higher q c = Some (q', y, r) \<and> ring_ok q' \<and> isr_effect q (c, r) q'
    \<and> deque (uxLength q) (items q) c = (items q', r)"
proof -
  have send: ?thesis if "c = (case pos of queueSEND_TO_BACK \<Rightarrow> Push x | queueSEND_TO_FRONT \<Rightarrow> PushFront x
      | queueOVERWRITE \<Rightarrow> Overwrite x)" for pos x
  proof (cases "uxMessagesWaiting q < uxLength q \<or> pos = queueOVERWRITE")
    case True
    have pre: "length x = uxItemSize q" "pos = queueOVERWRITE \<Longrightarrow> uxLength q = 1 \<and> uxItemSize q \<noteq> 0"
      using c that by (cases pos; simp)+
    obtain q' where q': "prvCopyDataToQueue q x pos = Some q'" "ring_ok q'" "same_control q q'"
      "items q' = (case pos of queueSEND_TO_BACK \<Rightarrow> items q @ [x] | queueSEND_TO_FRONT \<Rightarrow> x # items q
         | queueOVERWRITE \<Rightarrow> [x])"
      by (rule copy_to_queue [OF q pre(1) True pre(2)])
    then show ?thesis using True that
      by (cases pos; cases "xTxLock q = -1")
        (auto simp: xQueueGenericSendFromISR_def wake_receiver_eq isr_effect_def same_controlD)
  next
    case False
    then show ?thesis using that q by (cases pos) (auto simp: xQueueGenericSendFromISR_def isr_effect_def)
  qed
  have receive: ?thesis if p: "c = (if p then Peek else Pop)" for p
  proof (cases "items q")
    case Nil
    then have "uxMessagesWaiting q = 0" using length_items [of q] by simp
    then show ?thesis using p q Nil
      by (cases p) (auto simp: xQueueReceiveFromISR_def xQueuePeekFromISR_def isr_effect_def)
  next
    case (Cons x xs)
    then have "0 < uxMessagesWaiting q" using length_items [of q] by simp
    from receive_sections [OF q this] obtain q1 where
      q1: "prvCopyDataFromQueue q = Some (q1, hd (items q))" "q1\<lparr>pcReadFrom := pcReadFrom q\<rparr> = q"
      "ring_ok (q1\<lparr>uxMessagesWaiting := uxMessagesWaiting q1 - 1\<rparr>)" "same_control q q1"
      "items (q1\<lparr>uxMessagesWaiting := uxMessagesWaiting q1 - 1\<rparr>) = tl (items q)" .
    with \<open>0 < uxMessagesWaiting q\<close> Cons show ?thesis using p q
      by (cases p; cases "xRxLock q = -1")
        (auto simp: xQueueReceiveFromISR_def xQueuePeekFromISR_def isr_effect_def wake_sender_eq same_controlD)
  qed
  show ?thesis
  proof (cases c)
    case (Push x) then show ?thesis using send [where pos = queueSEND_TO_BACK and x = x] by simp
  next
    case (PushFront x) then show ?thesis using send [where pos = queueSEND_TO_FRONT and x = x] by simp
  next
    case (Overwrite x) then show ?thesis using send [where pos = queueOVERWRITE and x = x] by simp
  qed (use receive [where p = True] receive [where p = False] in auto)
qed

text \<open>Both interfaces are bounded queues.\<close>

definition ask_task :: "(task \<Rightarrow> bool) \<Rightarrow> queue \<Rightarrow> buf request \<Rightarrow> (queue \<times> buf answer) option" where
  "ask_task higher q c = map_option (\<lambda>(q', y, r). (q', r)) (task_op higher q c)"

definition ask_isr :: "(task \<Rightarrow> bool) \<Rightarrow> queue \<Rightarrow> buf request \<Rightarrow> (queue \<times> buf answer) option" where
  "ask_isr higher q c = map_option (\<lambda>(q', y, r). (q', r)) (isr_op higher q c)"

definition queue_allows :: "queue \<Rightarrow> buf request \<Rightarrow> bool" where
  "queue_allows q = request_ok (uxLength q) (uxItemSize q)"

interpretation from_task: bounded_queue "ask_task higher" ring_ok items uxLength queue_allows for higher
proof
  fix q c assume "ring_ok q" "queue_allows q c"
  then show "\<exists>q' r. ask_task higher q c = Some (q', r) \<and> ring_ok q' \<and> deque (uxLength q) (items q) c = (items q', r)
      \<and> uxLength q' = uxLength q \<and> queue_allows q' = queue_allows q"
    using task_op_ok [of q c higher] by (auto simp: ask_task_def queue_allows_def task_effect_def)
qed

interpretation from_isr: bounded_queue "ask_isr higher" ring_ok items uxLength queue_allows for higher
proof
  fix q c assume "ring_ok q" "queue_allows q c"
  then show "\<exists>q' r. ask_isr higher q c = Some (q', r) \<and> ring_ok q' \<and> deque (uxLength q) (items q) c = (items q', r)
      \<and> uxLength q' = uxLength q \<and> queue_allows q' = queue_allows q"
    using isr_op_ok [of q c higher] by (auto simp: ask_isr_def queue_allows_def isr_effect_def)
qed

section \<open>New queues\<close>

lemma reset_ring:
  assumes "0 < uxLength q" "uxLength q < 2 ^ 32" "uxLength q * uxItemSize q < 2 ^ 32 - 1"
    "length (pcHead q) = uxLength q * uxItemSize q + 1"
  shows "ring_ok (fst (xQueueGenericReset higher q new)) \<and> items (fst (xQueueGenericReset higher q new)) = []"
proof -
  obtain l where l: "uxLength q = Suc l" using assms(1) by (cases "uxLength q") auto
  have m: "uxItemSize q * l < 2 ^ 32" using assms(3) by (simp add: l mult.commute)
  have "\<exists>r. r < uxLength q \<and> nat (int (l * uxItemSize q)) div uxItemSize q = r
      \<and> l * uxItemSize q = uxItemSize q * r \<and> uxItemSize q * (Suc r mod Suc l) = 0"
    by (cases "uxItemSize q = 0") (simp_all add: l mult.commute del: of_nat_mult)
  then show ?thesis using assms m
    by (auto simp: xQueueGenericReset_def Let_def wake_sender_eq ring_ok_def rdx_def items_def l mult.commute
        simp flip: of_nat_mult)
qed

text \<open>A queue with room is created with nothing in it, if the memory is there.\<close>

lemma create_ring:
  assumes "0 < n" "n < 2 ^ 32" "n * sz < 2 ^ 32 - 1" "malloc (n * sz + 1) = Some b" "length b = n * sz + 1"
  shows "\<exists>q. xQueueGenericCreate (Some q0) malloc n sz = Some q \<and> ring_ok q \<and> items q = []
    \<and> uxLength q = n \<and> uxItemSize q = sz \<and> xTasksWaitingToSend q = [] \<and> xTasksWaitingToReceive q = []
    \<and> xRxLock q = queueUNLOCKED \<and> xTxLock q = queueUNLOCKED"
proof -
  let ?q = "q0\<lparr>pcHead := b, uxLength := n, uxItemSize := sz\<rparr>"
  have "ring_ok (fst (xQueueGenericReset (\<lambda>t. False) ?q True)) \<and> items (fst (xQueueGenericReset (\<lambda>t. False) ?q True)) = []"
    by (rule reset_ring) (use assms in simp_all)
  moreover have "xQueueGenericCreate (Some q0) malloc n sz = Some (fst (xQueueGenericReset (\<lambda>t. False) ?q True))"
    using assms by (simp add: xQueueGenericCreate_def)
  ultimately show ?thesis using assms by (auto simp: xQueueGenericReset_def Let_def)
qed

lemma semaphore_ring:
  assumes "0 < n" "n < 2 ^ 32" "k \<le> n" "malloc 1 = Some b" "length b = 1"
  shows "\<exists>q. xQueueCreateCountingSemaphore (Some q0) malloc n k = Some q \<and> ring_ok q \<and> items q = replicate k []
    \<and> uxLength q = n"
proof -
  obtain q where q: "xQueueGenericCreate (Some q0) malloc n 0 = Some q" "ring_ok q" "uxLength q = n" "uxItemSize q = 0"
    using create_ring [of n 0 malloc b q0] assms by auto
  then have "ring_ok (q\<lparr>uxMessagesWaiting := k\<rparr>) \<and> items (q\<lparr>uxMessagesWaiting := k\<rparr>) = replicate k []"
    using assms by (simp add: ring_ok_def items_def rdx_def slot_def map_replicate_const)
  with q show ?thesis by (auto simp: xQueueCreateCountingSemaphore_def)
qed

text \<open>The product of the two sizes wraps: a queue of \<open>2\<^sup>1\<^sup>6\<close> items of \<open>2\<^sup>1\<^sup>6\<close> bytes is given one byte, and
  the first item written to it leaves that byte.\<close>

lemma create_wraps:
  assumes "malloc 1 = Some [b0]" "length x = 2 ^ 16"
  shows "\<exists>q. xQueueGenericCreate (Some q0) malloc (2 ^ 16) (2 ^ 16) = Some q \<and> uxLength q = 2 ^ 16
    \<and> send_section higher q x queueSEND_TO_BACK = None"
  using assms
  by (auto simp: xQueueGenericCreate_def xQueueGenericReset_def Let_def send_section_def prvCopyDataToQueue_def
      store_item_def rdn_def wrn_def)

end
