(* ===== verification/QueueTasks.thy ===== *)
theory QueueTasks
  imports Queue
begin

text \<open>
  Tasks that wait on one queue: the loops of \<open>xQueueGenericSend\<close> and \<open>xQueueGenericReceive\<close>
  (\<open>queue.c\<close>) with the parts of \<open>tasks.c\<close> they rest on. A task is at a point of the loop; a turn
  runs it over one critical section to the next point, and interrupts, ticks and other tasks come between
  turns. While a task has the scheduler suspended, other tasks do not run, interrupts do. Which of the tasks
  that can run does is left open. Calls with the same request differ in nothing else, so the requests are
  those of the contract of \<open>Queue\<close>.
\<close>

section \<open>Time\<close>

record ticks =
  xTickCount :: "32 word"
  xNumOfOverflows :: "32 word"

record timeout =
  xOverflowCount :: "32 word"
  xTimeOnEntering :: "32 word"

abbreviation portMAX_DELAY :: "32 word" where "portMAX_DELAY \<equiv> 0xffffffff"

definition vTaskSetTimeOutState :: "ticks \<Rightarrow> timeout" where
  "vTaskSetTimeOutState now = \<lparr>xOverflowCount = xNumOfOverflows now, xTimeOnEntering = xTickCount now\<rparr>"

text \<open>The result is whether the time is over, and the two arguments as they are left.\<close>

definition xTaskCheckForTimeOut :: "ticks \<Rightarrow> timeout \<Rightarrow> 32 word \<Rightarrow> bool \<times> timeout \<times> 32 word" where
  "xTaskCheckForTimeOut now to wait =
     (if wait = portMAX_DELAY then (False, to, wait)
      else if xNumOfOverflows now \<noteq> xOverflowCount to \<and> xTimeOnEntering to \<le> xTickCount now then (True, to, wait)
      else if xTickCount now - xTimeOnEntering to < wait
      then (False, vTaskSetTimeOutState now, wait - (xTickCount now - xTimeOnEntering to))
      else (True, to, wait))"

text \<open>The tick count when the scheduler runs (\<open>xTaskIncrementTick\<close>).\<close>

definition tick :: "ticks \<Rightarrow> ticks" where
  "tick now = (let n = xTickCount now + 1
     in \<lparr>xTickCount = n, xNumOfOverflows = (if n = 0 then xNumOfOverflows now + 1 else xNumOfOverflows now)\<rparr>)"

section \<open>The points of a call\<close>

text \<open>The local variables: what is asked for, the ticks left, and the start of the wait once
  \<open>xEntryTimeSet\<close>.\<close>

record call =
  asked :: "buf request"
  xTicksToWait :: "32 word"
  xTimeOut :: "timeout option"

text \<open>How the turn goes on after the queue is unlocked: the task is on an event list, tries again, or
  gives up.\<close>

datatype after = Wait | Again | Expired

datatype point =
    Idle                   \<comment> \<open>not in a call\<close>
  | Try call               \<comment> \<open>at the top of the loop\<close>
  | Check call             \<comment> \<open>left the critical section, before \<open>vTaskSuspendAll\<close>\<close>
  | Suspended call         \<comment> \<open>before \<open>prvLockQueue\<close>\<close>
  | Locked call            \<comment> \<open>before \<open>xTaskCheckForTimeOut\<close>\<close>
  | InTime call            \<comment> \<open>before \<open>prvIsQueueFull\<close> or \<open>prvIsQueueEmpty\<close>\<close>
  | Place call             \<comment> \<open>before \<open>vTaskPlaceOnEventList\<close>\<close>
  | Unlock after call      \<comment> \<open>before \<open>prvUnlockQueue\<close>\<close>
  | UnlockRx after call    \<comment> \<open>between its two critical sections\<close>
  | Resume after call      \<comment> \<open>before \<open>xTaskResumeAll\<close>\<close>

record sys =
  que :: queue
  pc :: "task \<Rightarrow> point"
  suspended :: "task option"
  now :: ticks

fun receives :: "'a request \<Rightarrow> bool" where
  "receives Pop = True"
| "receives Peek = True"
| "receives c = False"

fun succeeded :: "'a answer \<Rightarrow> bool" where
  "succeeded (Ack b) = b"
| "succeeded (Item d) = (d \<noteq> None)"

text \<open>The two event lists, by whether they are for receivers.\<close>

definition waiting :: "sys \<Rightarrow> bool \<Rightarrow> task list" where
  "waiting s recv = (if recv then xTasksWaitingToReceive (que s) else xTasksWaitingToSend (que s))"

text \<open>A task on an event list is blocked until it is taken off; no other task runs while the scheduler is
  suspended.\<close>

definition can_run :: "sys \<Rightarrow> task \<Rightarrow> bool" where
  "can_run s t \<longleftrightarrow> suspended s = Some t
     \<or> suspended s = None \<and> t \<notin> set (waiting s True) \<and> t \<notin> set (waiting s False)"

definition place :: "(task \<Rightarrow> nat) \<Rightarrow> queue \<Rightarrow> task \<Rightarrow> bool \<Rightarrow> queue" where
  "place prio q t recv =
     (if recv then q\<lparr>xTasksWaitingToReceive := vListInsert prio t (xTasksWaitingToReceive q)\<rparr>
      else q\<lparr>xTasksWaitingToSend := vListInsert prio t (xTasksWaitingToSend q)\<rparr>)"

text \<open>The critical section at the top of the loop: done, or out of time at once, or on to wait.\<close>

definition try_turn :: "(task \<Rightarrow> nat) \<Rightarrow> sys \<Rightarrow> task \<Rightarrow> call \<Rightarrow> (sys \<times> buf event list) option" where
  "try_turn prio s t c = do {
     (q, y, r) \<leftarrow> task_op (\<lambda>u. prio t < prio u) (que s) (asked c);
     if succeeded r then Some (s\<lparr>que := q, pc := (pc s)(t := Idle)\<rparr>, [(asked c, r)])
     else if xTicksToWait c = 0 then Some (s\<lparr>pc := (pc s)(t := Idle)\<rparr>, [(asked c, r)])
     else let c' = (if xTimeOut c = None then c\<lparr>xTimeOut := Some (vTaskSetTimeOutState (now s))\<rparr> else c)
          in Some (s\<lparr>pc := (pc s)(t := Check c')\<rparr>, []) }"

definition check_turn :: "sys \<Rightarrow> task \<Rightarrow> call \<Rightarrow> sys option" where
  "check_turn s t c = do {
     to \<leftarrow> xTimeOut c;
     let (over, to', wait) = xTaskCheckForTimeOut (now s) to (xTicksToWait c);
     let c' = c\<lparr>xTimeOut := Some to', xTicksToWait := wait\<rparr>;
     Some (s\<lparr>pc := (pc s)(t := if over then Unlock Expired c' else InTime c')\<rparr>) }"

definition full_turn :: "sys \<Rightarrow> task \<Rightarrow> call \<Rightarrow> sys" where
  "full_turn s t c =
     (let stuck = (if receives (asked c) then prvIsQueueEmpty (que s) else prvIsQueueFull (que s))
      in s\<lparr>pc := (pc s)(t := if stuck then Place c else Unlock Again c)\<rparr>)"

fun loop_turn :: "(task \<Rightarrow> nat) \<Rightarrow> sys \<Rightarrow> task \<Rightarrow> point \<Rightarrow> (sys \<times> buf event list) option" where
  "loop_turn prio s t Idle = None"
| "loop_turn prio s t (Try c) = try_turn prio s t c"
| "loop_turn prio s t (Check c) = Some (s\<lparr>pc := (pc s)(t := Suspended c), suspended := Some t\<rparr>, [])"
| "loop_turn prio s t (Suspended c) = Some (s\<lparr>que := prvLockQueue (que s), pc := (pc s)(t := Locked c)\<rparr>, [])"
| "loop_turn prio s t (Locked c) = map_option (\<lambda>s'. (s', [])) (check_turn s t c)"
| "loop_turn prio s t (InTime c) = Some (full_turn s t c, [])"
| "loop_turn prio s t (Place c) =
     Some (s\<lparr>que := place prio (que s) t (receives (asked c)), pc := (pc s)(t := Unlock Wait c)\<rparr>, [])"
| "loop_turn prio s t (Unlock k c) =
     Some (s\<lparr>que := fst (unlock_tx (\<lambda>u. prio t < prio u) (que s) False), pc := (pc s)(t := UnlockRx k c)\<rparr>, [])"
| "loop_turn prio s t (UnlockRx k c) =
     Some (s\<lparr>que := fst (unlock_rx (\<lambda>u. prio t < prio u) (que s) False), pc := (pc s)(t := Resume k c)\<rparr>, [])"
| "loop_turn prio s t (Resume k c) =
     Some (s\<lparr>pc := (pc s)(t := if k = Expired then Idle else Try c), suspended := None\<rparr>, [])"

definition turn :: "(task \<Rightarrow> nat) \<Rightarrow> sys \<Rightarrow> task \<Rightarrow> (sys \<times> buf event list) option" where
  "turn prio s t = (if can_run s t then loop_turn prio s t (pc s t) else None)"

definition begin_call :: "sys \<Rightarrow> task \<Rightarrow> buf request \<Rightarrow> 32 word \<Rightarrow> sys" where
  "begin_call s t c w = s\<lparr>pc := (pc s)(t := Try \<lparr>asked = c, xTicksToWait = w, xTimeOut = None\<rparr>)\<rparr>"

definition leave_lists :: "sys \<Rightarrow> task \<Rightarrow> sys" where
  "leave_lists s t = s\<lparr>que := (que s)\<lparr>xTasksWaitingToSend := removeAll t (xTasksWaitingToSend (que s)),
     xTasksWaitingToReceive := removeAll t (xTasksWaitingToReceive (que s))\<rparr>\<rparr>"

text \<open>A step, with the requests it completes. A blocked task whose wait is not forever may be woken by the
  tick at any time, which includes the time the kernel has set. A call that gives up completes no request.\<close>

inductive qstep :: "(task \<Rightarrow> nat) \<Rightarrow> sys \<Rightarrow> buf event list \<Rightarrow> sys \<Rightarrow> bool" for prio where
  begin_call: "pc s t = Idle \<Longrightarrow> can_run s t \<Longrightarrow> queue_allows (que s) c \<Longrightarrow>
    qstep prio s [] (begin_call s t c w)"
| turn: "turn prio s t = Some (s', es) \<Longrightarrow> qstep prio s es s'"
| interrupt: "queue_allows (que s) c \<Longrightarrow> isr_op higher (que s) c = Some (q, y, r) \<Longrightarrow>
    qstep prio s [(c, r)] (s\<lparr>que := q\<rparr>)"
| tick: "suspended s = None \<Longrightarrow> qstep prio s [] (s\<lparr>now := tick (now s)\<rparr>)"
| wake_up: "suspended s = None \<Longrightarrow> pc s t = Try c \<Longrightarrow> xTicksToWait c \<noteq> portMAX_DELAY \<Longrightarrow>
    qstep prio s [] (leave_lists s t)"

inductive reaches :: "(task \<Rightarrow> nat) \<Rightarrow> sys \<Rightarrow> buf event list \<Rightarrow> sys \<Rightarrow> bool" for prio where
  reach_start: "reaches prio s [] s"
| reach_step: "reaches prio s es s' \<Longrightarrow> qstep prio s' fs s'' \<Longrightarrow> reaches prio s (es @ fs) s''"

text \<open>The start: a new queue, and no calls.\<close>

definition starts :: "sys \<Rightarrow> bool" where
  "starts s \<longleftrightarrow> ring_ok (que s) \<and> xTasksWaitingToSend (que s) = [] \<and> xTasksWaitingToReceive (que s) = []
     \<and> xRxLock (que s) = queueUNLOCKED \<and> xTxLock (que s) = queueUNLOCKED \<and> pc s = (\<lambda>t. Idle) \<and> suspended s = None"

section \<open>The invariant\<close>

text \<open>The call of a task that will look at the queue again before it gives up.\<close>

fun retry :: "point \<Rightarrow> call option" where
  "retry (Try c) = Some c"
| "retry (Unlock k c) = (if k = Expired then None else Some c)"
| "retry (UnlockRx k c) = (if k = Expired then None else Some c)"
| "retry (Resume k c) = (if k = Expired then None else Some c)"
| "retry p = None"

fun call_of :: "point \<Rightarrow> call option" where
  "call_of Idle = None"
| "call_of (Try c) = Some c" | "call_of (Check c) = Some c" | "call_of (Suspended c) = Some c"
| "call_of (Locked c) = Some c" | "call_of (InTime c) = Some c" | "call_of (Place c) = Some c"
| "call_of (Unlock k c) = Some c" | "call_of (UnlockRx k c) = Some c" | "call_of (Resume k c) = Some c"

text \<open>The tasks on their way to the queue on one side, what is there for them, and what interrupts have
  added while the queue was locked.\<close>

definition eager :: "sys \<Rightarrow> bool \<Rightarrow> task set" where
  "eager s recv = {t. t \<notin> set (waiting s recv) \<and> (\<exists>c. retry (pc s t) = Some c \<and> receives (asked c) = recv)}"

definition avail :: "sys \<Rightarrow> bool \<Rightarrow> nat" where
  "avail s recv = (if recv then uxMessagesWaiting (que s) else uxLength (que s) - uxMessagesWaiting (que s))"

definition lockn :: "sys \<Rightarrow> bool \<Rightarrow> int" where
  "lockn s recv = (if recv then xTxLock (que s) else xRxLock (que s))"

text \<open>No wake-up is lost: while a task waits, everything there is has a task on its way to it or is
  counted in the lock.\<close>

definition side_ok :: "sys \<Rightarrow> bool \<Rightarrow> bool" where
  "side_ok s recv \<longleftrightarrow> (waiting s recv \<noteq> [] \<longrightarrow> avail s recv \<le> card (eager s recv) + nat (lockn s recv))"

fun in_region :: "point \<Rightarrow> bool" where
  "in_region Idle = False" | "in_region (Try c) = False" | "in_region (Check c) = False" | "in_region p = True"

fun locks_at :: "point \<Rightarrow> int \<Rightarrow> int \<Rightarrow> bool" where
  "locks_at (Suspended c) tx rx \<longleftrightarrow> tx = -1 \<and> rx = -1"
| "locks_at (Resume k c) tx rx \<longleftrightarrow> tx = -1 \<and> rx = -1"
| "locks_at (UnlockRx k c) tx rx \<longleftrightarrow> tx = -1 \<and> 0 \<le> rx"
| "locks_at p tx rx \<longleftrightarrow> 0 \<le> tx \<and> 0 \<le> rx"

definition lists_ok :: "(task \<Rightarrow> nat) \<Rightarrow> sys \<Rightarrow> bool" where
  "lists_ok prio s \<longleftrightarrow> (\<forall>b. distinct (waiting s b) \<and> sorted_wrt (\<lambda>t u. prio u \<le> prio t) (waiting s b)
     \<and> (\<forall>t\<in>set (waiting s b). \<exists>c. retry (pc s t) = Some c \<and> receives (asked c) = b))"

definition points_ok :: "sys \<Rightarrow> bool" where
  "points_ok s \<longleftrightarrow> finite {t. pc s t \<noteq> Idle}
     \<and> (\<forall>t c. call_of (pc s t) = Some c \<longrightarrow> queue_allows (que s) (asked c))
     \<and> (\<forall>t c. pc s t = Place c \<longrightarrow> avail s (receives (asked c)) \<le> nat (lockn s (receives (asked c))))
     \<and> (\<forall>t. in_region (pc s t) \<longleftrightarrow> suspended s = Some t)"

definition locks_ok :: "sys \<Rightarrow> bool" where
  "locks_ok s \<longleftrightarrow> (case suspended s of None \<Rightarrow> lockn s True = -1 \<and> lockn s False = -1
     | Some t \<Rightarrow> locks_at (pc s t) (lockn s True) (lockn s False))"

definition sync_ok :: "(task \<Rightarrow> nat) \<Rightarrow> sys \<Rightarrow> bool" where
  "sync_ok prio s \<longleftrightarrow> ring_ok (que s) \<and> lists_ok prio s \<and> points_ok s \<and> locks_ok s \<and> (\<forall>b. side_ok s b)"

lemma starts_ok: "starts s \<Longrightarrow> sync_ok prio s"
  by (auto simp: starts_def sync_ok_def lists_ok_def points_ok_def locks_ok_def side_ok_def waiting_def lockn_def)

text \<open>Counting on one side: some tasks \<open>D\<close> leave, some tasks \<open>N\<close> that waited come.\<close>

lemma finite_eager: "points_ok s \<Longrightarrow> finite (eager s b)"
  by (rule finite_subset [of _ "{t. pc s t \<noteq> Idle}"]) (auto simp: eager_def points_ok_def)

lemma side_okI:
  assumes ok: "side_ok s b" and fin: "finite (eager s b)" "finite (eager s' b)"
    and wait: "waiting s' b \<noteq> [] \<Longrightarrow> waiting s b \<noteq> []"
    and D: "finite D" "eager s b - D \<subseteq> eager s' b"
    and N: "waiting s' b \<noteq> [] \<Longrightarrow> N \<subseteq> eager s' b \<and> N \<inter> eager s b = {} \<and> finite N"
    and le: "waiting s' b \<noteq> [] \<Longrightarrow> avail s' b = 0
      \<or> avail s' b + card D + nat (lockn s b) \<le> avail s b + card N + nat (lockn s' b)"
  shows "side_ok s' b"
  unfolding side_ok_def
proof
  assume w: "waiting s' b \<noteq> []"
  have "card (eager s b) + card N \<le> card (eager s' b) + card D"
  proof -
    have "card (eager s b) \<le> card (eager s b - D) + card D"
      using fin(1) D(1) by (metis Un_Diff_cancel2 card_Un_le card_mono finite_Un le_sup_iff le_trans order_refl sup_ge1)
    moreover have "card (eager s b - D) + card N = card ((eager s b - D) \<union> N)"
      using N [OF w] fin(1) by (subst card_Un_disjoint) auto
    moreover have "\<dots> \<le> card (eager s' b)"
      using N [OF w] D(2) fin(2) by (intro card_mono) auto
    ultimately show ?thesis by linarith
  qed
  moreover have "avail s b \<le> card (eager s b) + nat (lockn s b)"
    using ok wait [OF w] by (simp add: side_ok_def)
  ultimately show "avail s' b \<le> card (eager s' b) + nat (lockn s' b)"
    using le [OF w] by linarith
qed

text \<open>A step that only moves one task that is not going to wait, and changes neither the queue's
  contents nor its lists.\<close>

lemma side_ok_same:
  assumes "side_ok s b" "finite (eager s' b)" "finite (eager s b)" "waiting s' b = waiting s b"
    "eager s b \<subseteq> eager s' b" "avail s' b = avail s b" "nat (lockn s b) \<le> nat (lockn s' b)"
  shows "side_ok s' b"
  by (rule side_okI [of s b s' "{}" "{}"]) (use assms in auto)

text \<open>What the two loops of \<open>prvUnlockQueue\<close> come to.\<close>

lemma unlock_tx_eq:
  "fst (unlock_tx h q y) = q\<lparr>xTasksWaitingToReceive := drop (nat (xTxLock q)) (xTasksWaitingToReceive q),
     xTxLock := -1\<rparr>"
proof (induction h q y rule: unlock_tx.induct)
  case (1 h q y)
  show ?case
  proof (cases "0 < xTxLock q \<and> xTasksWaitingToReceive q \<noteq> []")
    case True
    define q1 where "q1 = q\<lparr>xTasksWaitingToReceive := tl (xTasksWaitingToReceive q), xTxLock := xTxLock q - 1\<rparr>"
    have n: "drop (nat (xTxLock q)) (xTasksWaitingToReceive q) = drop (nat (xTxLock q - 1)) (tl (xTasksWaitingToReceive q))"
      using True by (cases "nat (xTxLock q)") (auto simp: drop_Suc nat_diff_distrib)
    show ?thesis using 1 [OF True wake_receiver_eq [symmetric] refl] True n
      by (subst unlock_tx.simps) (simp add: wake_receiver_eq)
  next
    case False
    then have "drop (nat (xTxLock q)) (xTasksWaitingToReceive q) = xTasksWaitingToReceive q" by auto
    then show ?thesis using False by (subst unlock_tx.simps) (simp add: if_not_P)
  qed
qed

lemma unlock_rx_eq:
  "fst (unlock_rx h q y) = q\<lparr>xTasksWaitingToSend := drop (nat (xRxLock q)) (xTasksWaitingToSend q),
     xRxLock := -1\<rparr>"
proof (induction h q y rule: unlock_rx.induct)
  case (1 h q y)
  show ?case
  proof (cases "0 < xRxLock q \<and> xTasksWaitingToSend q \<noteq> []")
    case True
    have n: "drop (nat (xRxLock q)) (xTasksWaitingToSend q) = drop (nat (xRxLock q - 1)) (tl (xTasksWaitingToSend q))"
      using True by (cases "nat (xRxLock q)") (auto simp: drop_Suc nat_diff_distrib)
    show ?thesis using 1 [OF True wake_sender_eq [symmetric] refl] True n
      by (subst unlock_rx.simps) (simp add: wake_sender_eq)
  next
    case False
    then have "drop (nat (xRxLock q)) (xTasksWaitingToSend q) = xTasksWaitingToSend q" by auto
    then show ?thesis using False by (subst unlock_rx.simps) (simp add: if_not_P)
  qed
qed

lemma set_vListInsert [simp]: "set (vListInsert prio t ts) = insert t (set ts)"
  by (induction ts) auto

lemma distinct_vListInsert [simp]: "distinct (vListInsert prio t ts) \<longleftrightarrow> t \<notin> set ts \<and> distinct ts"
  by (induction ts) auto

lemma sorted_vListInsert:
  "sorted_wrt (\<lambda>t u. prio u \<le> prio t) ts \<Longrightarrow> sorted_wrt (\<lambda>t u. prio u \<le> prio t) (vListInsert prio t ts)"
  by (induction ts) auto

text \<open>The general step: the lists lose some tasks at the front, and only the tasks of \<open>D\<close>, which do not
  wait, change their intention.\<close>

lemma side_drop:
  assumes ok: "side_ok s b" and lists: "lists_ok prio s" and fin: "finite (eager s b)" "finite (eager s' b)"
    and w: "waiting s' b = drop n (waiting s b)"
    and pc: "\<And>u. u \<notin> D \<Longrightarrow> retry (pc s' u) = retry (pc s u)"
    and D: "finite D" "D \<inter> set (waiting s b) = {}"
    and le: "waiting s' b \<noteq> [] \<Longrightarrow> avail s' b = 0
      \<or> avail s' b + card (D \<inter> eager s b) + nat (lockn s b) \<le> avail s b + n + nat (lockn s' b)"
  shows "side_ok s' b"
proof (rule side_okI [of s b s' "D \<inter> eager s b" "set (take n (waiting s b))"])
  have d: "distinct (waiting s b)" using lists by (simp add: lists_ok_def)
  have disj: "set (take n (waiting s b)) \<inter> set (waiting s' b) = {}"
    using d by (simp add: w set_take_disj_set_drop_if_distinct)
  have sub: "set (take n (waiting s b)) \<subseteq> set (waiting s b)" by (rule set_take_subset)
  show "eager s b - D \<inter> eager s b \<subseteq> eager s' b"
    using pc set_drop_subset [of n "waiting s b"] by (auto simp: eager_def w)
  show "set (take n (waiting s b)) \<subseteq> eager s' b \<and> set (take n (waiting s b)) \<inter> eager s b = {}
      \<and> finite (set (take n (waiting s b)))" if "waiting s' b \<noteq> []"
  proof -
    have "u \<in> eager s' b" if u: "u \<in> set (take n (waiting s b))" for u
    proof -
      have "u \<in> set (waiting s b)" using u sub by blast
      then obtain c where "retry (pc s u) = Some c" "receives (asked c) = b"
        using lists by (auto simp: lists_ok_def)
      moreover have "u \<notin> D" using \<open>u \<in> set (waiting s b)\<close> D(2) by blast
      ultimately show ?thesis using pc u disj by (auto simp: eager_def)
    qed
    then show ?thesis using sub by (auto simp: eager_def)
  qed
  show "avail s' b = 0 \<or> avail s' b + card (D \<inter> eager s b) + nat (lockn s b)
      \<le> avail s b + card (set (take n (waiting s b))) + nat (lockn s' b)" if nw: "waiting s' b \<noteq> []"
  proof -
    have "n < length (waiting s b)" using nw by (simp add: w)
    then have "card (set (take n (waiting s b))) = n" using d by (simp add: distinct_card)
    then show ?thesis using le [OF nw] by simp
  qed
qed (use assms w in auto)

lemma lists_drop:
  assumes lists: "lists_ok prio s" and w: "\<And>b. waiting s' b = drop (n b) (waiting s b)"
    and pc: "\<And>u. u \<notin> D \<Longrightarrow> retry (pc s' u) = retry (pc s u)" and D: "\<And>b. D \<inter> set (waiting s b) = {}"
  shows "lists_ok prio s'"
proof -
  have "\<exists>c. retry (pc s' t) = Some c \<and> receives (asked c) = b" if "t \<in> set (waiting s' b)" for t b
  proof -
    have t: "t \<in> set (waiting s b)" using that set_drop_subset [of "n b" "waiting s b"] by (auto simp: w)
    then have "t \<notin> D" using D [of b] by blast
    then show ?thesis using lists pc [of t] t by (auto simp: lists_ok_def)
  qed
  then show ?thesis using lists by (auto simp: lists_ok_def w intro: sorted_wrt_drop)
qed

lemma sync_step:
  assumes ok: "sync_ok prio s" and ring: "ring_ok (que s')" and pts: "points_ok s'" and lk: "locks_ok s'"
    and w: "\<And>b. waiting s' b = drop (n b) (waiting s b)"
    and pc: "\<And>u. u \<notin> D \<Longrightarrow> retry (pc s' u) = retry (pc s u)"
    and D: "finite D" "\<And>b. D \<inter> set (waiting s b) = {}"
    and le: "\<And>b. waiting s' b \<noteq> [] \<Longrightarrow> avail s' b = 0
      \<or> avail s' b + card (D \<inter> eager s b) + nat (lockn s b) \<le> avail s b + n b + nat (lockn s' b)"
  shows "sync_ok prio s'"
proof -
  have s: "lists_ok prio s" "points_ok s" "\<And>b. side_ok s b" using ok by (auto simp: sync_ok_def)
  have "side_ok s' b" for b
    by (rule side_drop [OF s(3) s(1) finite_eager [OF s(2)] finite_eager [OF pts] w pc D(1) D(2) le])
  moreover have "lists_ok prio s'" by (rule lists_drop [OF s(1) w pc D(2)])
  ultimately show ?thesis using ring pts lk by (simp add: sync_ok_def)
qed

text \<open>How the counts move with an answer.\<close>

lemma deque_counts:
  assumes "deque L xs c = (ys, r)" "length xs \<le> L" "request_ok L sz c"
  shows "\<not> succeeded r \<Longrightarrow> ys = xs \<and> (if receives c then length xs = 0 else L \<le> length xs)"
    "succeeded r \<Longrightarrow> \<not> receives c \<Longrightarrow> length ys \<le> Suc (length xs) \<and> (L - length ys = 0 \<or> Suc (L - length ys) \<le> L - length xs)"
    "succeeded r \<Longrightarrow> c = Pop \<Longrightarrow> length xs = Suc (length ys)"
    "c = Peek \<Longrightarrow> ys = xs"
    "for_receiver (c, r) \<longleftrightarrow> succeeded r \<and> c \<noteq> Pop"
    "for_sender (c, r) \<longleftrightarrow> succeeded r \<and> c = Pop"
  using assms by (cases c; cases xs; auto split: if_splits)+

lemma count_cases:
  assumes q0: "ring_ok q0" and c: "request_ok (uxLength q0) (uxItemSize q0) c"
    and dq: "deque (uxLength q0) (items q0) c = (items q, r)"
  obtains (send) "succeeded r" "\<not> receives c" "c \<noteq> Pop" "uxMessagesWaiting q \<le> Suc (uxMessagesWaiting q0)"
      "uxLength q0 \<le> uxMessagesWaiting q
        \<or> Suc (uxLength q0 - uxMessagesWaiting q) \<le> uxLength q0 - uxMessagesWaiting q0"
    | (pop) "succeeded r" "c = Pop" "uxMessagesWaiting q0 = Suc (uxMessagesWaiting q)"
    | (same) "\<not> succeeded r \<or> c = Peek" "uxMessagesWaiting q = uxMessagesWaiting q0"
proof -
  have "length (items q0) \<le> uxLength q0" using q0 by (simp add: ring_ok_def)
  note cnt = deque_counts [OF dq this c, simplified]
  show ?thesis
  proof (cases "succeeded r")
    case True
    show ?thesis
    proof (cases "receives c")
      case False
      moreover from this have "c \<noteq> Pop" by auto
      ultimately show ?thesis using send [OF True] cnt(2) [OF True False] by blast
    next
      case r: True
      then consider "c = Pop" | "c = Peek" by (cases c) auto
      then show ?thesis
      proof cases
        case 1 then show ?thesis using pop [OF True] cnt(3) [OF True] by blast
      next
        case 2
        then have "uxMessagesWaiting q = uxMessagesWaiting q0" using cnt(4) by (metis length_items)
        then show ?thesis using same 2 by blast
      qed
    qed
  next
    case False
    then have "uxMessagesWaiting q = uxMessagesWaiting q0" using cnt(1) by (metis length_items)
    then show ?thesis using same False by blast
  qed
qed

lemma waiting_sel: "waiting s True = xTasksWaitingToReceive (que s)" "waiting s False = xTasksWaitingToSend (que s)"
  by (simp_all add: waiting_def)

lemma avail_sel: "avail s True = uxMessagesWaiting (que s)" "avail s False = uxLength (que s) - uxMessagesWaiting (que s)"
  by (simp_all add: avail_def)

lemma lockn_sel: "lockn s True = xTxLock (que s)" "lockn s False = xRxLock (que s)"
  by (simp_all add: lockn_def)

lemmas side_sels = waiting_sel avail_sel lockn_sel

lemma sync_okD:
  assumes "sync_ok prio s"
  shows "ring_ok (que s)" "points_ok s" "locks_ok s" "lists_ok prio s" "side_ok s b"
  using assms by (auto simp: sync_ok_def)

lemma points_okD:
  assumes "points_ok s"
  shows "finite {t. pc s t \<noteq> Idle}" "call_of (pc s t) = Some c \<Longrightarrow> queue_allows (que s) (asked c)"
    "pc s t = Place c \<Longrightarrow> avail s (receives (asked c)) \<le> nat (lockn s (receives (asked c)))"
    "in_region (pc s t) \<longleftrightarrow> suspended s = Some t"
  using assms by (auto simp: points_ok_def)

lemma ring_le: "ring_ok q \<Longrightarrow> length (items q) \<le> uxLength q"
  by (simp add: ring_ok_def)

lemma finite_upd: "finite {u. pc s u \<noteq> Idle} \<Longrightarrow> finite {u. ((pc s)(t := p)) u \<noteq> Idle}"
  by (rule finite_subset [of _ "insert t {u. pc s u \<noteq> Idle}"]) auto

text \<open>At the top of the loop a task that runs is on no list.\<close>

lemma runs_outside:
  assumes "points_ok s" "can_run s t" "\<not> in_region (pc s t)"
  shows "suspended s = None" "t \<notin> set (waiting s b)"
  using assms points_okD(4) [OF assms(1), of t] by (cases b; auto simp: can_run_def)+

lemma no_place:
  assumes "points_ok s" "suspended s = None" shows "pc s u \<noteq> Place c"
  using points_okD(4) [OF assms(1), of u] assms(2) by auto

lemma try_success:
  assumes ok: "sync_ok prio s" and run: "can_run s t" and pc: "pc s t = Try c"
    and op: "task_op h (que s) (asked c) = Some (q, y, r)" and succ: "succeeded r"
  shows "sync_ok prio (s\<lparr>que := q, pc := (pc s)(t := Idle)\<rparr>)"
proof -
  let ?s = "s\<lparr>que := q, pc := (pc s)(t := Idle)\<rparr>"
  note s = sync_okD [OF ok]
  have out: "suspended s = None" "\<And>b. t \<notin> set (waiting s b)" using runs_outside [OF s(2) run] pc by auto
  have allowed: "request_ok (uxLength (que s)) (uxItemSize (que s)) (asked c)"
    using points_okD(2) [OF s(2), of t c] pc by (simp add: queue_allows_def)
  from task_op_ok [OF s(1) allowed, of h] op
  have q: "ring_ok q" "task_effect (que s) (asked c, r) q" "deque (uxLength (que s)) (items (que s)) (asked c) = (items q, r)"
    by auto
  note cnt = deque_counts [OF q(3) ring_le [OF s(1)] allowed, simplified]
  have eff: "uxLength q = uxLength (que s)" "uxItemSize q = uxItemSize (que s)" "xTxLock q = xTxLock (que s)"
      "xRxLock q = xRxLock (que s)" using q(2) by (auto simp: task_effect_def)
  have pts: "points_ok ?s"
    using s(2) no_place [OF s(2) out(1)] finite_upd [OF points_okD(1) [OF s(2)], of t Idle] out(1)
    by (auto simp: points_ok_def queue_allows_def eff split: if_splits)
  have lk: "locks_ok ?s" using s(3) out(1) by (simp add: locks_ok_def lockn_def eff)
  show ?thesis
  proof (rule sync_step [OF ok _ pts lk, where D = "{t}" and n = "\<lambda>b. if (if b then asked c \<noteq> Pop else asked c = Pop) then 1 else 0"])
    show "waiting ?s b = drop (if (if b then asked c \<noteq> Pop else asked c = Pop) then 1 else 0) (waiting s b)" for b
      using q(2) cnt(5,6) succ by (auto simp: task_effect_def waiting_def drop_Suc)
    have e: "card ({t} \<inter> eager s b) \<le> (if receives (asked c) = b then 1 else 0)" for b
    proof (cases "receives (asked c) = b")
      case True then show ?thesis using card_mono [of "{t}" "{t} \<inter> eager s b"] by simp
    next
      case False
      then have "{t} \<inter> eager s b = {}" using pc by (auto simp: eager_def)
      then show ?thesis by simp
    qed
    show "avail ?s b = 0 \<or> avail ?s b + card ({t} \<inter> eager s b) + nat (lockn s b)
        \<le> avail s b + (if (if b then asked c \<noteq> Pop else asked c = Pop) then 1 else 0) + nat (lockn ?s b)" for b
      using s(1) allowed q(3)
    proof (cases rule: count_cases)
      case send then show ?thesis using e [of b] by (cases b) (simp_all add: side_sels eff, linarith+)
    next
      case pop then show ?thesis using e [of b] by (cases b) (simp_all add: side_sels eff, linarith)
    next
      case same
      then have "asked c = Peek" using succ by simp
      then show ?thesis using same(2) e [of b] by (cases b) (simp_all add: side_sels eff)
    qed
  qed (use q(1) out(2) in auto)
qed

text \<open>A move of one task that is not on a list, to a point where it has less to promise.\<close>

lemma sync_move:
  assumes ok: "sync_ok prio s" and q: "que s' = que s" and pcs: "pc s' = (pc s)(t := p)"
    and out: "\<And>b. t \<notin> set (waiting s b)"
    and pts: "points_ok s'" and lk: "locks_ok s'"
    and le: "\<And>b. t \<in> eager s b \<Longrightarrow> waiting s b \<noteq> [] \<Longrightarrow> avail s b = 0"
  shows "sync_ok prio s'"
proof -
  have same: "waiting s' b = waiting s b" "avail s' b = avail s b" "lockn s' b = lockn s b" for b
    by (simp_all add: waiting_def avail_def lockn_def q)
  show ?thesis
    by (rule sync_step [OF ok _ pts lk, where D = "{t}" and n = "\<lambda>b. 0"])
      (use sync_okD(1) [OF ok] le out in \<open>auto simp: same q pcs\<close>)
qed

lemma not_waiting: "lists_ok prio s \<Longrightarrow> retry (pc s t) = None \<Longrightarrow> t \<notin> set (waiting s b)"
  by (force simp: lists_ok_def)

text \<open>The point of one task changes; it is the only one that can be in the region where the scheduler is
  suspended, before or after.\<close>

lemma points_move:
  assumes s: "points_ok s" and pcs: "pc s' = (pc s)(t := p)"
    and size: "uxLength (que s') = uxLength (que s)" "uxItemSize (que s') = uxItemSize (que s)"
    and call: "\<And>c. call_of p = Some c \<Longrightarrow> queue_allows (que s) (asked c)"
    and region: "suspended s \<in> {None, Some t}" "suspended s' = (if in_region p then Some t else None)"
    and place: "\<And>c. p = Place c \<Longrightarrow> avail s' (receives (asked c)) \<le> nat (lockn s' (receives (asked c)))"
  shows "points_ok s'"
proof -
  have others: "\<not> in_region (pc s u)" if "u \<noteq> t" for u
    using points_okD(4) [OF s, of u] region(1) that by auto
  then have "pc s u \<noteq> Place c" if "u \<noteq> t" for u c using that by force
  then show ?thesis using s others finite_upd [OF points_okD(1) [OF s], of t p] call place region(2)
    by (auto simp: points_ok_def pcs queue_allows_def size)
qed

lemma locks_None: "suspended s = None \<Longrightarrow> locks_ok s \<longleftrightarrow> lockn s True = -1 \<and> lockn s False = -1"
  by (simp add: locks_ok_def)

lemma locks_Some: "suspended s = Some t \<Longrightarrow> locks_ok s \<longleftrightarrow> locks_at (pc s t) (lockn s True) (lockn s False)"
  by (simp add: locks_ok_def)

text \<open>The points in the region: nothing there concerns the event lists but the placing and the unlocking.\<close>

lemma region_move:
  assumes ok: "sync_ok prio s" and t: "suspended s \<in> {None, Some t}"
    and c: "call_of (pc s t) = Some c" "retry (pc s t) = None"
    and p: "call_of p = Some c'" "asked c' = asked c" "in_region p"
    and s': "que s' = que s" "pc s' = (pc s)(t := p)" "suspended s' = Some t"
    and lk: "locks_at p (lockn s True) (lockn s False)"
    and place: "p = Place c' \<Longrightarrow> avail s (receives (asked c')) = 0"
  shows "sync_ok prio s'"
proof (rule sync_move [OF ok s'(1,2)])
  note s = sync_okD [OF ok]
  have same: "avail s' b = avail s b" "lockn s' b = lockn s b" for b
    by (simp_all add: avail_def lockn_def s')
  show "t \<notin> set (waiting s b)" for b by (rule not_waiting [OF s(4) c(2)])
  show "points_ok s'"
    by (rule points_move [OF s(2) s'(2)])
      (use s' t p place points_okD(2) [OF s(2) c(1)] in \<open>auto simp: same\<close>)
  show "locks_ok s'" using lk by (simp add: locks_ok_def s' same)
  show "avail s b = 0" if "t \<in> eager s b" for b using that c(2) by (simp add: eager_def)
qed

lemma lock_ok:
  assumes ok: "sync_ok prio s" and t: "suspended s = Some t" and pc: "pc s t = Suspended c"
  shows "sync_ok prio (s\<lparr>que := prvLockQueue (que s), pc := (pc s)(t := Locked c)\<rparr>)" (is "sync_ok prio ?s")
proof (rule sync_step [OF ok, where D = "{t}" and n = "\<lambda>b. 0"])
  note s = sync_okD [OF ok]
  have lk: "lockn s True = -1" "lockn s False = -1" using s(3) pc by (simp_all add: locks_Some [OF t])
  have q: "prvLockQueue (que s) = que s\<lparr>xRxLock := 0, xTxLock := 0\<rparr>"
    using lk by (simp add: prvLockQueue_def lockn_sel)
  show "ring_ok (que ?s)" using s(1) by (simp add: q)
  show "points_ok ?s"
    by (rule points_move [OF s(2), of _ t "Locked c"])
      (use t points_okD(2) [OF s(2), of t c] pc in \<open>auto simp: q\<close>)
  show "locks_ok ?s" by (simp add: locks_ok_def lockn_def q t)
  show "waiting ?s b = drop 0 (waiting s b)" for b by (simp add: waiting_def q)
  show "{t} \<inter> set (waiting s b) = {}" for b using not_waiting [OF s(4), of t b] pc by simp
  have "{t} \<inter> eager s b = {}" for b using pc by (auto simp: eager_def)
  then show "avail ?s b = 0 \<or> avail ?s b + card ({t} \<inter> eager s b) + nat (lockn s b) \<le> avail s b + 0 + nat (lockn ?s b)" for b
    using lk by (cases b) (simp_all add: side_sels q)
qed simp_all

lemma unlock_step:
  assumes ok: "sync_ok prio s" and t: "suspended s = Some t" and c: "call_of (pc s t) = Some c"
    and q: "ring_ok q" "uxLength q = uxLength (que s)" "uxItemSize q = uxItemSize (que s)"
      "uxMessagesWaiting q = uxMessagesWaiting (que s)"
    and w: "\<And>b. waiting (s\<lparr>que := q\<rparr>) b = drop (n b) (waiting s b)"
    and le: "\<And>b. nat (lockn s b) \<le> n b + nat (lockn (s\<lparr>que := q\<rparr>) b)"
    and p: "call_of p = Some c" "retry p = retry (pc s t)" "in_region p" "\<And>c. p \<noteq> Place c"
    and lk: "locks_at p (lockn (s\<lparr>que := q\<rparr>) True) (lockn (s\<lparr>que := q\<rparr>) False)"
  shows "sync_ok prio (s\<lparr>que := q, pc := (pc s)(t := p)\<rparr>)" (is "sync_ok prio ?s")
proof (rule sync_step [OF ok, where D = "{}" and n = n])
  note s = sync_okD [OF ok]
  have same: "avail ?s b = avail s b" "lockn ?s b = lockn (s\<lparr>que := q\<rparr>) b" "waiting ?s b = waiting (s\<lparr>que := q\<rparr>) b" for b
    using q by (simp_all add: avail_def lockn_def waiting_def)
  show "ring_ok (que ?s)" using q by simp
  show "points_ok ?s"
    by (rule points_move [OF s(2), of _ t p]) (use t points_okD(2) [OF s(2) c] p q in auto)
  show "locks_ok ?s" using lk by (simp add: locks_ok_def t lockn_def)
  show "waiting ?s b = drop (n b) (waiting s b)" for b using w by (simp add: same)
  show "retry (pc ?s u) = retry (pc s u)" if "u \<notin> {}" for u using p by simp
  show "avail ?s b = 0 \<or> avail ?s b + card ({} \<inter> eager s b) + nat (lockn s b) \<le> avail s b + n b + nat (lockn ?s b)" for b
    using le [of b] by (simp add: same)
qed simp_all

lemma unlock_tx_ok:
  assumes ok: "sync_ok prio s" and t: "suspended s = Some t" and pc: "pc s t = Unlock k c"
  shows "sync_ok prio (s\<lparr>que := fst (unlock_tx h (que s) y), pc := (pc s)(t := UnlockRx k c)\<rparr>)"
proof -
  note s = sync_okD [OF ok]
  have lk: "0 \<le> xTxLock (que s)" "0 \<le> xRxLock (que s)" using s(3) pc by (simp_all add: locks_Some [OF t] lockn_sel)
  show ?thesis
    by (rule unlock_step [OF ok t, where n = "\<lambda>b. if b then nat (xTxLock (que s)) else 0" and c = c])
      (use pc s(1) lk in \<open>auto simp: unlock_tx_eq waiting_def lockn_def\<close>)
qed

lemma unlock_rx_ok:
  assumes ok: "sync_ok prio s" and t: "suspended s = Some t" and pc: "pc s t = UnlockRx k c"
  shows "sync_ok prio (s\<lparr>que := fst (unlock_rx h (que s) y), pc := (pc s)(t := Resume k c)\<rparr>)"
proof -
  note s = sync_okD [OF ok]
  have lk: "xTxLock (que s) = -1" "0 \<le> xRxLock (que s)" using s(3) pc by (simp_all add: locks_Some [OF t] lockn_sel)
  show ?thesis
    by (rule unlock_step [OF ok t, where n = "\<lambda>b. if b then 0 else nat (xRxLock (que s))" and c = c])
      (use pc s(1) lk in \<open>auto simp: unlock_rx_eq waiting_def lockn_def\<close>)
qed

lemma resume_ok:
  assumes ok: "sync_ok prio s" and t: "suspended s = Some t" and pc: "pc s t = Resume k c"
  shows "sync_ok prio (s\<lparr>pc := (pc s)(t := if k = Expired then Idle else Try c), suspended := None\<rparr>)"
    (is "sync_ok prio ?s")
proof (rule sync_step [OF ok, where D = "{}" and n = "\<lambda>b. 0"])
  note s = sync_okD [OF ok]
  have same: "avail ?s b = avail s b" "lockn ?s b = lockn s b" "waiting ?s b = waiting s b" for b
    by (simp_all add: avail_def lockn_def waiting_def)
  show "points_ok ?s"
    by (rule points_move [OF s(2), of _ t "if k = Expired then Idle else Try c"])
      (use t points_okD(2) [OF s(2), of t c] pc in \<open>auto split: if_splits\<close>)
  show "locks_ok ?s" using s(3) pc by (simp add: locks_None locks_Some [OF t] same)
qed (use sync_okD(1) [OF ok] pc in \<open>auto simp: avail_def lockn_def waiting_def\<close>)

text \<open>Placing the task on the list: nothing has arrived that the lock does not count.\<close>

lemma place_ok:
  assumes ok: "sync_ok prio s" and t: "suspended s = Some t" and pc: "pc s t = Place c"
  shows "sync_ok prio (s\<lparr>que := place prio (que s) t (receives (asked c)), pc := (pc s)(t := Unlock Wait c)\<rparr>)"
    (is "sync_ok prio ?s")
proof -
  note s = sync_okD [OF ok]
  let ?b = "receives (asked c)"
  have out: "t \<notin> set (waiting s b)" for b using not_waiting [OF s(4), of t b] pc by simp
  have w: "waiting ?s b = (if b = ?b then vListInsert prio t (waiting s b) else waiting s b)" for b
    by (auto simp: waiting_def place_def)
  have same: "avail ?s b = avail s b" "lockn ?s b = lockn s b" for b
    by (auto simp: avail_def lockn_def place_def)
  have q: "ring_ok (place prio (que s) t ?b)" "uxLength (place prio (que s) t ?b) = uxLength (que s)"
    "uxItemSize (place prio (que s) t ?b) = uxItemSize (que s)"
    using s(1) by (auto simp: place_def)
  have pts: "points_ok ?s"
    by (rule points_move [OF s(2), of _ t "Unlock Wait c"])
      (use t points_okD(2) [OF s(2), of t c] pc q in auto)
  have lists: "lists_ok prio ?s"
  proof -
    have "\<exists>c'. retry (pc ?s u) = Some c' \<and> receives (asked c') = b" if "u \<in> set (waiting ?s b)" for u b
      using that s(4) out by (auto simp: w lists_ok_def split: if_splits)
    then show ?thesis using s(4) out by (auto simp: lists_ok_def w sorted_vListInsert)
  qed
  have lk: "locks_ok ?s" using s(3) pc by (simp add: locks_ok_def t same)
  have "side_ok ?s b" for b
  proof (cases "b = ?b")
    case True
    have "avail s ?b \<le> nat (lockn s ?b)" by (rule points_okD(3) [OF s(2) pc])
    then show ?thesis using True by (simp add: side_ok_def same)
  next
    case False
    have "eager s b \<subseteq> eager ?s b" using False pc by (auto simp: eager_def w)
    then show ?thesis
      by (intro side_ok_same [OF s(5) finite_eager [OF pts] finite_eager [OF s(2)]]) (use False in \<open>auto simp: w same\<close>)
  qed
  then show ?thesis using q(1) pts lists lk by (simp add: sync_ok_def)
qed

lemma begin_ok:
  assumes ok: "sync_ok prio s" and pc: "pc s t = Idle" and run: "can_run s t" and c: "queue_allows (que s) r"
  shows "sync_ok prio (begin_call s t r w)"
proof (rule sync_move [OF ok, where t = t])
  note s = sync_okD [OF ok]
  have out: "suspended s = None" using runs_outside [OF s(2) run] pc by auto
  show "points_ok (begin_call s t r w)"
    by (rule points_move [OF s(2), of _ t "Try \<lparr>asked = r, xTicksToWait = w, xTimeOut = None\<rparr>"])
      (use out c in \<open>auto simp: begin_call_def\<close>)
  show "locks_ok (begin_call s t r w)" using s(3) out by (simp add: begin_call_def locks_ok_def lockn_def)
  show "t \<notin> set (waiting s b)" for b by (rule not_waiting [OF s(4)]) (simp add: pc)
qed (use pc in \<open>auto simp: begin_call_def eager_def\<close>)

lemma tick_ok: "sync_ok prio s \<Longrightarrow> sync_ok prio (s\<lparr>now := n\<rparr>)"
proof -
  have sel: "waiting (s\<lparr>now := n\<rparr>) = waiting s" "avail (s\<lparr>now := n\<rparr>) = avail s" "lockn (s\<lparr>now := n\<rparr>) = lockn s"
    by (auto simp: fun_eq_iff waiting_def avail_def lockn_def)
  then have "eager (s\<lparr>now := n\<rparr>) = eager s" by (simp add: fun_eq_iff eager_def)
  then show "sync_ok prio s \<Longrightarrow> sync_ok prio (s\<lparr>now := n\<rparr>)"
    by (cases "suspended s") (simp_all add: sync_ok_def lists_ok_def points_ok_def locks_ok_def side_ok_def sel)
qed

lemma wake_up_ok:
  assumes ok: "sync_ok prio s" and none: "suspended s = None"
  shows "sync_ok prio (leave_lists s t)"
proof -
  note s = sync_okD [OF ok]
  let ?s = "leave_lists s t"
  have same: "avail ?s b = avail s b" "lockn ?s b = lockn s b" "pc ?s = pc s" "suspended ?s = suspended s"
    "ring_ok (que ?s) = ring_ok (que s)" "queue_allows (que ?s) = queue_allows (que s)" for b
    by (auto simp: leave_lists_def avail_def lockn_def queue_allows_def)
  have w: "waiting ?s b = removeAll t (waiting s b)" for b by (simp add: leave_lists_def waiting_def)
  have pts: "points_ok ?s" using s(2) by (simp add: points_ok_def same)
  have "lists_ok prio ?s"
    using s(4) by (auto simp: lists_ok_def w same distinct_removeAll removeAll_filter_not_eq sorted_wrt_filter)
  moreover have "side_ok ?s b" for b
    by (rule side_okI [OF s(5) finite_eager [OF s(2)] finite_eager [OF pts], where D = "{}" and N = "{}"])
      (auto simp: eager_def w same)
  ultimately show ?thesis using s(1,3) pts by (simp add: sync_ok_def same locks_None none)
qed


text \<open>An interrupt: unlocked, it wakes a task itself; locked, it counts.\<close>

lemma interrupt_ok:
  assumes ok: "sync_ok prio s" and c: "queue_allows (que s) c" and op: "isr_op h (que s) c = Some (q, y, r)"
  shows "sync_ok prio (s\<lparr>que := q\<rparr>)"
proof -
  note s = sync_okD [OF ok]
  let ?s = "s\<lparr>que := q\<rparr>"
  have allowed: "request_ok (uxLength (que s)) (uxItemSize (que s)) c" using c by (simp add: queue_allows_def)
  from isr_op_ok [OF s(1) allowed, of h] op
  have q: "ring_ok q" "isr_effect (que s) (c, r) q" "deque (uxLength (que s)) (items (que s)) c = (items q, r)"
    by auto
  note cnt = deque_counts [OF q(3) ring_le [OF s(1)] allowed, simplified]
  let ?post = "\<lambda>b. succeeded r \<and> (if b then \<not> receives c else c = Pop)"
  have lk: "lockn s b = -1 \<or> 0 \<le> lockn s b" for b
  proof (cases "suspended s")
    case None then show ?thesis using s(3) by (cases b) (auto simp: locks_None)
  next
    case (Some t)
    then show ?thesis using s(3) by (cases "pc s t"; cases b) (auto simp: locks_Some)
  qed
  have eff: "uxLength q = uxLength (que s)" "uxItemSize q = uxItemSize (que s)"
      "lockn ?s b = (if ?post b \<and> lockn s b \<noteq> -1 then lockn s b + 1 else lockn s b)"
      "waiting ?s b = drop (if ?post b \<and> lockn s b = -1 then 1 else 0) (waiting s b)" for b
    using q(2) cnt(5,6) by (cases b; cases c; auto simp: isr_effect_def side_sels Let_def drop_Suc)+
  have av: "avail ?s b \<le> avail s b + (if ?post b then 1 else 0) \<or> avail ?s b = 0" for b
    using s(1) allowed q(3)
  proof (cases rule: count_cases)
    case send then show ?thesis by (cases b) (simp_all add: side_sels eff, linarith+)
  next
    case pop then show ?thesis by (cases b) (simp_all add: side_sels eff, linarith+)
  next
    case same then show ?thesis by (cases b) (simp_all add: side_sels eff)
  qed
  have mono: "avail ?s b \<le> nat (lockn ?s b)" if "avail s b \<le> nat (lockn s b)" "lockn s b \<noteq> -1" for b
    using av [of b] that lk [of b] by (auto simp: eff(3) split: if_splits)
  have pts: "points_ok ?s"
  proof -
    have "avail ?s (receives (asked d)) \<le> nat (lockn ?s (receives (asked d)))" if "pc s t = Place d" for t d
    proof (rule mono)
      show "avail s (receives (asked d)) \<le> nat (lockn s (receives (asked d)))" by (rule points_okD(3) [OF s(2) that])
      have "suspended s = Some t" using points_okD(4) [OF s(2), of t] that by simp
      then show "lockn s (receives (asked d)) \<noteq> -1" using s(3) that
        by (cases "receives (asked d)") (auto simp: locks_Some)
    qed
    then show ?thesis using s(2) by (simp add: points_ok_def queue_allows_def eff)
  qed
  have "locks_ok ?s"
  proof (cases "suspended s")
    case None then show ?thesis using s(3) by (auto simp: locks_None eff(3))
  next
    case (Some t)
    then show ?thesis using s(3) by (cases "pc s t") (auto simp: locks_ok_def eff(3))
  qed
  moreover have "avail ?s b = 0 \<or> avail ?s b + card ({} \<inter> eager s b) + nat (lockn s b)
      \<le> avail s b + (if ?post b \<and> lockn s b = -1 then 1 else 0) + nat (lockn ?s b)" for b
    using av [of b] lk [of b] unfolding eff(3) by (cases "lockn s b = -1") (auto simp: nat_add_distrib)
  ultimately show ?thesis
    by (intro sync_step [OF ok _ pts _ eff(4), where D = "{}"]) (use q(1) in auto)
qed

text \<open>The failing critical section: the task leaves the queue as it is, and nothing is there for it.\<close>

lemma try_failed:
  assumes ok: "sync_ok prio s" and run: "can_run s t" and pc: "pc s t = Try c"
    and op: "task_op h (que s) (asked c) = Some (q, y, r)" and fail: "\<not> succeeded r"
    and p: "p = Idle \<or> p = Check c' \<and> asked c' = asked c"
  shows "sync_ok prio (s\<lparr>pc := (pc s)(t := p)\<rparr>)"
proof (rule sync_move [OF ok, where t = t and p = p])
  note s = sync_okD [OF ok]
  have out: "suspended s = None" "\<And>b. t \<notin> set (waiting s b)" using runs_outside [OF s(2) run] pc by auto
  have allowed: "request_ok (uxLength (que s)) (uxItemSize (que s)) (asked c)"
    using points_okD(2) [OF s(2), of t c] pc by (simp add: queue_allows_def)
  have dq: "deque (uxLength (que s)) (items (que s)) (asked c) = (items q, r)"
    using task_op_ok [OF s(1) allowed, of h] op by auto
  show "t \<notin> set (waiting s b)" for b by (rule out(2))
  show "points_ok (s\<lparr>pc := (pc s)(t := p)\<rparr>)"
    by (rule points_move [OF s(2), of _ t p])
      (use p out(1) points_okD(2) [OF s(2), of t c] pc in \<open>auto\<close>)
  show "locks_ok (s\<lparr>pc := (pc s)(t := p)\<rparr>)" using s(3) out(1) by (simp add: locks_ok_def lockn_def)
  show "avail s b = 0" if "t \<in> eager s b" for b
    using that pc deque_counts(1) [OF dq ring_le [OF s(1)] allowed fail]
    by (auto simp: eager_def avail_def split: if_splits)
qed simp_all

lemma turn_ok:
  assumes ok: "sync_ok prio s" and tn: "turn prio s t = Some (s', es)"
  shows "sync_ok prio s'"
proof -
  note s = sync_okD [OF ok]
  have run: "can_run s t" and loop: "loop_turn prio s t (pc s t) = Some (s', es)"
    using tn by (auto simp: turn_def split: if_splits)
  have susp: "suspended s = Some t" if "in_region (pc s t)" using points_okD(4) [OF s(2), of t] that by simp
  show ?thesis
  proof (cases "pc s t")
    case (Try c)
    then obtain q y r where op: "task_op (\<lambda>u. prio t < prio u) (que s) (asked c) = Some (q, y, r)"
      using loop by (auto simp: try_turn_def Option.bind_eq_Some_conv)
    show ?thesis
    proof (cases "succeeded r")
      case True
      then have "s' = s\<lparr>que := q, pc := (pc s)(t := Idle)\<rparr>" using loop Try op by (simp add: try_turn_def)
      then show ?thesis using try_success [OF ok run Try op True] by simp
    next
      case False
      define c' where "c' = (if xTimeOut c = None then c\<lparr>xTimeOut := Some (vTaskSetTimeOutState (now s))\<rparr> else c)"
      have "s' = s\<lparr>pc := (pc s)(t := if xTicksToWait c = 0 then Idle else Check c')\<rparr>" "asked c' = asked c"
        using loop Try op False by (auto simp: try_turn_def Let_def c'_def split: if_splits)
      then show ?thesis using try_failed [OF ok run Try op False] by simp
    qed
  next
    case (Check c)
    have "suspended s = None" using runs_outside [OF s(2) run] Check by simp
    then show ?thesis
      by (intro region_move [OF ok, where p = "Suspended c" and t = t])
        (use Check loop s(3) in \<open>auto simp: locks_None\<close>)
  next
    case (Suspended c)
    then show ?thesis using lock_ok [OF ok susp Suspended] loop by auto
  next
    case (Locked c)
    then obtain to where to: "xTimeOut c = Some to" using loop by (auto simp: check_turn_def Option.bind_eq_Some_conv)
    obtain e a b where "xTaskCheckForTimeOut (now s) to (xTicksToWait c) = (e, a, b)" by (metis prod_cases3)
    moreover define c' where "c' = c\<lparr>xTimeOut := Some a, xTicksToWait := b\<rparr>"
    ultimately have c': "asked c' = asked c"
      "s' = s\<lparr>pc := (pc s)(t := if e then Unlock Expired c' else InTime c')\<rparr>"
      using loop Locked to by (auto simp: check_turn_def)
    show ?thesis
      by (rule region_move [OF ok, where p = "if e then Unlock Expired c' else InTime c'" and t = t and c = c and c' = c'])
        (use Locked c' susp s(3) in \<open>auto simp: locks_Some split: if_splits\<close>)
  next
    case (InTime c)
    define e where "e = (if receives (asked c) then prvIsQueueEmpty (que s) else prvIsQueueFull (que s))"
    have s': "s' = s\<lparr>pc := (pc s)(t := if e then Place c else Unlock Again c)\<rparr>"
      using loop InTime by (simp add: full_turn_def e_def)
    have none: "e \<Longrightarrow> avail s (receives (asked c)) = 0"
      by (auto simp: e_def avail_def prvIsQueueEmpty_def prvIsQueueFull_def split: if_splits)
    show ?thesis
    proof (cases e)
      case True
      then show ?thesis
        by (intro region_move [OF ok, where p = "Place c" and t = t])
          (use InTime s' susp s(3) none in \<open>auto simp: locks_Some\<close>)
    next
      case False
      have "\<And>b. t \<notin> set (waiting s b)" using not_waiting [OF s(4), of t] InTime by simp
      then show ?thesis
        by (intro sync_move [OF ok, where p = "Unlock Again c" and t = t] points_move [OF s(2), of _ t "Unlock Again c"])
          (use InTime s' susp s(3) False points_okD(2) [OF s(2), of t c] in
            \<open>auto simp: locks_Some locks_ok_def lockn_def eager_def\<close>)
    qed
  next
    case (Place c)
    then show ?thesis using place_ok [OF ok susp Place] loop by auto
  next
    case (Unlock k c)
    then show ?thesis using unlock_tx_ok [OF ok susp Unlock] loop by auto
  next
    case (UnlockRx k c)
    then show ?thesis using unlock_rx_ok [OF ok susp UnlockRx] loop by auto
  next
    case (Resume k c)
    then show ?thesis using resume_ok [OF ok susp Resume] loop by auto
  qed (use loop in simp)
qed

theorem qstep_ok: "qstep prio s es s' \<Longrightarrow> sync_ok prio s \<Longrightarrow> sync_ok prio s'"
  by (induction rule: qstep.induct) (auto intro: begin_ok turn_ok interrupt_ok tick_ok wake_up_ok)

theorem reaches_ok: "reaches prio s es s' \<Longrightarrow> sync_ok prio s \<Longrightarrow> sync_ok prio s'"
  by (induction rule: reaches.induct) (auto intro: qstep_ok)

section \<open>The steps and the contract of the queue\<close>

text \<open>Each step answers its requests as the sequence of items does; all others leave the items alone.\<close>

lemma try_turn_refines:
  assumes ok: "sync_ok prio s" and pc: "pc s t = Try c" and tn: "try_turn prio s t c = Some (s', es)"
  shows "replay (uxLength (que s)) (items (que s)) es = Some (items (que s')) \<and> uxLength (que s') = uxLength (que s)"
proof -
  note s = sync_okD [OF ok]
  have allowed: "request_ok (uxLength (que s)) (uxItemSize (que s)) (asked c)"
    using points_okD(2) [OF s(2), of t c] pc by (simp add: queue_allows_def)
  obtain q y r where q: "task_op (\<lambda>u. prio t < prio u) (que s) (asked c) = Some (q, y, r)"
    "task_effect (que s) (asked c, r) q" "deque (uxLength (que s)) (items (que s)) (asked c) = (items q, r)"
    using task_op_ok [OF s(1) allowed] by blast
  show ?thesis
  proof (cases "succeeded r")
    case True
    then show ?thesis using tn q by (auto simp: try_turn_def task_effect_def)
  next
    case False
    then have "items q = items (que s)" using deque_counts(1) [OF q(3) ring_le [OF s(1)] allowed] by simp
    then show ?thesis using tn q(1,3) False by (auto simp: try_turn_def Let_def split: if_splits)
  qed
qed

lemma check_turnD:
  assumes "check_turn s t c = Some s'"
  obtains e to wait where "xTimeOut c \<noteq> None"
    "s' = s\<lparr>pc := (pc s)(t := if e then Unlock Expired (c\<lparr>xTimeOut := Some to, xTicksToWait := wait\<rparr>)
        else InTime (c\<lparr>xTimeOut := Some to, xTicksToWait := wait\<rparr>))\<rparr>"
proof -
  obtain to0 where to0: "xTimeOut c = Some to0" using assms by (auto simp: check_turn_def Option.bind_eq_Some_conv)
  obtain e to wait where "xTaskCheckForTimeOut (now s) to0 (xTicksToWait c) = (e, to, wait)" by (metis prod_cases3)
  then have "s' = s\<lparr>pc := (pc s)(t := if e then Unlock Expired (c\<lparr>xTimeOut := Some to, xTicksToWait := wait\<rparr>)
        else InTime (c\<lparr>xTimeOut := Some to, xTicksToWait := wait\<rparr>))\<rparr>"
    using assms to0 by (auto simp: check_turn_def Let_def split: if_splits)
  then show ?thesis using that to0 by simp
qed

lemma turn_refines:
  assumes ok: "sync_ok prio s" and tn: "turn prio s t = Some (s', es)"
  shows "replay (uxLength (que s)) (items (que s)) es = Some (items (que s')) \<and> uxLength (que s') = uxLength (que s)"
proof (cases "\<exists>c. pc s t = Try c")
  case True
  then show ?thesis using try_turn_refines [OF ok] tn by (auto simp: turn_def split: if_splits)
next
  case False
  then show ?thesis using tn
    by (cases "pc s t") (auto simp: turn_def full_turn_def place_def prvLockQueue_def Let_def
        unlock_tx_eq unlock_rx_eq elim!: check_turnD split: if_splits)
qed

lemma qstep_refines:
  assumes "qstep prio s es s'" "sync_ok prio s"
  shows "replay (uxLength (que s)) (items (que s)) es = Some (items (que s')) \<and> uxLength (que s') = uxLength (que s)"
  using assms(1)
proof cases
  case (turn t)
  then show ?thesis using turn_refines [OF assms(2)] by simp
next
  case (interrupt c higher q y r)
  then have "request_ok (uxLength (que s)) (uxItemSize (que s)) c" by (simp add: queue_allows_def)
  from isr_op_ok [OF sync_okD(1) [OF assms(2)] this, of higher] interrupt show ?thesis
    by (auto simp: isr_effect_def)
qed (auto simp: begin_call_def leave_lists_def)

lemma reaches_refines:
  "reaches prio s es s' \<Longrightarrow> sync_ok prio s \<Longrightarrow>
     replay (uxLength (que s)) (items (que s)) es = Some (items (que s')) \<and> uxLength (que s') = uxLength (que s)"
proof (induction rule: reaches.induct)
  case (reach_step s es s' fs s'')
  then have "sync_ok prio s'" using reaches_ok by blast
  then show ?case using reach_step qstep_refines [OF reach_step.hyps(2)] by (simp add: replay_append)
qed simp

text \<open>No step is stuck: a copy never leaves the storage area, and the start of the wait is always known.\<close>

fun timed :: "point \<Rightarrow> bool" where
  "timed Idle = True"
| "timed (Try c) = True"
| "timed (Check c) = (xTimeOut c \<noteq> None)"
| "timed (Suspended c) = (xTimeOut c \<noteq> None)"
| "timed (Locked c) = (xTimeOut c \<noteq> None)"
| "timed p = True"

lemma turn_timed:
  assumes "turn prio s t = Some (s', es)" "\<forall>u. timed (pc s u)"
  shows "timed (pc s' u)"
proof -
  have "\<exists>p. pc s' = (pc s)(t := p) \<and> timed p"
  proof (cases "pc s t")
    case (Try c)
    then show ?thesis using assms(1)
      by (auto simp: turn_def try_turn_def Let_def Option.bind_eq_Some_conv split: if_splits intro: exI [of _ Idle]
          exI [of _ "Check c"] exI [of _ "Check (c\<lparr>xTimeOut := Some (vTaskSetTimeOutState (now s))\<rparr>)"])
  next
    case (Locked c)
    then show ?thesis using assms(1) by (auto simp: turn_def elim!: check_turnD split: if_splits)
  next
    case (Check c)
    then have "timed (Suspended c)" using assms(2) by (metis timed.simps(3,4))
    then show ?thesis using Check assms(1) by (intro exI [of _ "Suspended c"]) (auto simp: turn_def split: if_splits)
  next
    case (Suspended c)
    then have "timed (Locked c)" using assms(2) by (metis timed.simps(4,5))
    then show ?thesis using Suspended assms(1) by (intro exI [of _ "Locked c"]) (auto simp: turn_def split: if_splits)
  qed (use assms in \<open>auto simp: turn_def full_turn_def Let_def dest: spec [of _ t] split: if_splits\<close>)
  then show ?thesis using assms(2) by auto
qed

lemma reaches_timed: "reaches prio s es s' \<Longrightarrow> \<forall>u. timed (pc s u) \<Longrightarrow> \<forall>u. timed (pc s' u)"
proof (induction rule: reaches.induct)
  case (reach_step s es s' fs s'')
  then have t: "\<forall>u. timed (pc s' u)" by simp
  from reach_step.hyps(2) show ?case
  proof cases
    case (turn t)
    then show ?thesis using turn_timed t by blast
  qed (use t in \<open>auto simp: begin_call_def leave_lists_def\<close>)
qed

lemma turn_total:
  assumes ok: "sync_ok prio s" and run: "can_run s t" and pc: "pc s t \<noteq> Idle" and tm: "timed (pc s t)"
  shows "\<exists>s' es. turn prio s t = Some (s', es)"
proof (cases "pc s t")
  case (Try c)
  note s = sync_okD [OF ok]
  have allowed: "request_ok (uxLength (que s)) (uxItemSize (que s)) (asked c)"
    using points_okD(2) [OF s(2), of t c] Try by (simp add: queue_allows_def)
  obtain q y r where "task_op (\<lambda>u. prio t < prio u) (que s) (asked c) = Some (q, y, r)"
    using task_op_ok [OF s(1) allowed] by blast
  then show ?thesis using run Try by (auto simp: turn_def try_turn_def Let_def)
next
  case (Locked c)
  then obtain to where "xTimeOut c = Some to" using tm by auto
  then show ?thesis using run Locked
    by (cases "xTaskCheckForTimeOut (now s) to (xTicksToWait c)") (simp add: turn_def check_turn_def Let_def)
qed (use run pc in \<open>auto simp: turn_def\<close>)

section \<open>Runs as lists of actions\<close>

datatype action = Call task "buf request" "32 word" | Turn task | Irq "buf request" | Tick | Timeout task

fun act :: "(task \<Rightarrow> nat) \<Rightarrow> sys \<Rightarrow> action \<Rightarrow> (sys \<times> buf event list) option" where
  "act prio s (Call t c w) =
     (if pc s t = Idle \<and> can_run s t \<and> queue_allows (que s) c then Some (begin_call s t c w, []) else None)"
| "act prio s (Turn t) = turn prio s t"
| "act prio s (Irq c) =
     (if queue_allows (que s) c
      then map_option (\<lambda>(q, y, r). (s\<lparr>que := q\<rparr>, [(c, r)])) (isr_op (\<lambda>u. False) (que s) c) else None)"
| "act prio s Tick = (if suspended s = None then Some (s\<lparr>now := tick (now s)\<rparr>, []) else None)"
| "act prio s (Timeout t) =
     (case pc s t of Try c \<Rightarrow> if suspended s = None \<and> xTicksToWait c \<noteq> portMAX_DELAY
        then Some (leave_lists s t, []) else None | _ \<Rightarrow> None)"

fun schedule :: "(task \<Rightarrow> nat) \<Rightarrow> sys \<Rightarrow> action list \<Rightarrow> (sys \<times> buf event list) option" where
  "schedule prio s [] = Some (s, [])"
| "schedule prio s (a # as) = do {
     (s', es) \<leftarrow> act prio s a;
     (s'', fs) \<leftarrow> schedule prio s' as;
     Some (s'', es @ fs) }"

lemma act_qstep: "act prio s a = Some (s', es) \<Longrightarrow> qstep prio s es s'"
  by (cases a) (auto split: if_splits point.splits intro: qstep.intros)

lemma schedule_reaches:
  "schedule prio s as = Some (s', es) \<Longrightarrow> reaches prio s0 es0 s \<Longrightarrow> reaches prio s0 (es0 @ es) s'"
proof (induction as arbitrary: s es es0)
  case (Cons a as)
  then obtain s1 es1 es2 where a: "act prio s a = Some (s1, es1)" "schedule prio s1 as = Some (s', es2)" "es = es1 @ es2"
    by (auto simp: Option.bind_eq_Some_conv)
  have "reaches prio s0 (es0 @ es1) s1" by (rule reach_step [OF Cons.prems(2) act_qstep [OF a(1)]])
  from Cons.IH [OF a(2) this] show ?case by (simp add: a(3))
qed simp

lemma schedule_run: "schedule prio s as = Some (s', es) \<Longrightarrow> reaches prio s es s'"
  using schedule_reaches [of prio s as s' es s "[]"] reach_start by simp

end
