(* ===== verification/Mailbox.thy ===== *)
theory Mailbox
  imports QueueTasks
begin

text \<open>
  The mailboxes of \<open>os/os_dep/mailbox.c\<close>: queues of message blocks found by a number, each with a
  semaphore that is given when a message arrives. The structures and the queues are in stores by their
  addresses (a use of one that is not there gives \<open>None\<close>); the linked list of the mailboxes is the list of
  their addresses. The list mutex is not modelled.
\<close>

record rtl_mailbox =
  mbox_hdl :: nat
  pWakeSema :: "nat option"
  mbox_id :: u8

record mbox_root =
  isInitialed :: bool
  mbox_list :: "nat list"
  boxes :: "nat \<rightharpoonup> rtl_mailbox"
  queues :: "nat \<rightharpoonup> queue"

definition sizeof_MSG_BLK :: nat where
  "sizeof_MSG_BLK = 12"

definition MBOX_WAIT_NO_TIMEOUT :: "32 word" where
  "MBOX_WAIT_NO_TIMEOUT = 0xffffffff"

definition MBOX_WAIT_NONE :: "32 word" where
  "MBOX_WAIT_NONE = 0"

definition portTICK_RATE_MS :: "32 word" where
  "portTICK_RATE_MS = 1000 div 1000"

text \<open>The conversion that each operation repeats.\<close>

definition wait_ticks :: "32 word \<Rightarrow> 32 word" where
  "wait_ticks MSToWait =
     (if MSToWait = MBOX_WAIT_NO_TIMEOUT then portMAX_DELAY
      else if MSToWait = MBOX_WAIT_NONE then 0
      else if 0 < MSToWait div portTICK_RATE_MS then MSToWait div portTICK_RATE_MS else 1)"

fun find_box :: "(nat \<rightharpoonup> rtl_mailbox) \<Rightarrow> nat list \<Rightarrow> u8 \<Rightarrow> nat option" where
  "find_box m [] n = Some 0"
| "find_box m (a # as) n =
     (case m a of None \<Rightarrow> None | Some b \<Rightarrow> if n = mbox_id b then Some a else find_box m as n)"

definition init_root :: "mbox_root \<Rightarrow> mbox_root" where
  "init_root s = (if isInitialed s then s else s\<lparr>isInitialed := True, mbox_list := []\<rparr>)"

definition RtlMBoxIdToHdl :: "mbox_root \<Rightarrow> u8 \<Rightarrow> (mbox_root \<times> nat) option" where
  "RtlMBoxIdToHdl s n = (let s1 = init_root s in map_option (\<lambda>a. (s1, a)) (find_box (boxes s1) (mbox_list s1) n))"

text \<open>The memory is a parameter: the address \<open>a\<close> of a new structure (0 for none), and for the queue its
  address \<open>h\<close> and what \<open>xQueueGenericCreate\<close> is given. The result is the new mailbox, or 0.\<close>

definition RtlMailboxCreate :: "nat \<Rightarrow> nat \<Rightarrow> queue option \<Rightarrow> (nat \<Rightarrow> buf option) \<Rightarrow> mbox_root \<Rightarrow> u8 \<Rightarrow> nat \<Rightarrow> nat option
    \<Rightarrow> (mbox_root \<times> nat) option" where
  "RtlMailboxCreate a h struct malloc s MboxID MboxSize sema = do {
     (s1, p) \<leftarrow> RtlMBoxIdToHdl (init_root s) MboxID;
     if p \<noteq> 0 then Some (s1, 0)
     else if a = 0 then Some (s1, 0)
     else case xQueueGenericCreate struct malloc MboxSize sizeof_MSG_BLK of
       None \<Rightarrow> Some (s1, 0)
     | Some q \<Rightarrow> Some (s1\<lparr>boxes := (boxes s1)(a \<mapsto> \<lparr>mbox_hdl = h, pWakeSema = sema, mbox_id = MboxID\<rparr>),
           queues := (queues s1)(h \<mapsto> q), mbox_list := mbox_list s1 @ [a]\<rparr>, a) }"

definition RtlMailboxDel :: "mbox_root \<Rightarrow> nat \<Rightarrow> mbox_root option" where
  "RtlMailboxDel s a =
     (if a = 0 then Some s
      else do {
        b \<leftarrow> boxes s a;
        q \<leftarrow> queues s (mbox_hdl b);
        Some (s\<lparr>mbox_list := remove1 a (mbox_list s), queues := (queues s)(mbox_hdl b := None),
                boxes := (boxes s)(a := None)\<rparr>) })"

text \<open>\<open>RtlUpSema\<close> is \<open>xSemaphoreGive\<close>, a send of an item without size that does not wait.\<close>

definition RtlUpSema :: "(task \<Rightarrow> bool) \<Rightarrow> mbox_root \<Rightarrow> nat \<Rightarrow> mbox_root option" where
  "RtlUpSema higher s h = do {
     q \<leftarrow> queues s h;
     (q', y, ok) \<leftarrow> send_section higher q [] queueSEND_TO_BACK;
     Some (s\<lparr>queues := (queues s)(h \<mapsto> q')\<rparr>) }"

text \<open>How a call ends: with \<open>_SUCCESS\<close> or \<open>_FAIL\<close> and the message if one was read, or by waiting on its
  queue for some ticks, from where it goes on as in \<open>QueueTasks\<close>.\<close>

datatype outcome = Returned bool "buf option" | Waits nat "32 word"

text \<open>The end of the two send operations.\<close>

definition mbox_sent :: "(task \<Rightarrow> bool) \<Rightarrow> mbox_root \<Rightarrow> rtl_mailbox \<Rightarrow> bool \<Rightarrow> (mbox_root \<times> outcome) option" where
  "mbox_sent higher s b ok =
     (if \<not> ok then Some (s, Returned False None)
      else case pWakeSema b of
        None \<Rightarrow> Some (s, Returned True None)
      | Some h \<Rightarrow> map_option (\<lambda>s'. (s', Returned True None)) (RtlUpSema higher s h))"

definition mbox_send :: "(task \<Rightarrow> bool) \<Rightarrow> mbox_root \<Rightarrow> u8 \<Rightarrow> buf \<Rightarrow> 32 word \<Rightarrow> bool \<Rightarrow> position
    \<Rightarrow> (mbox_root \<times> outcome) option" where
  "mbox_send higher s MboxID msg MSToWait IsFromISR pos = do {
     (s1, a) \<leftarrow> RtlMBoxIdToHdl s MboxID;
     if a = 0 then Some (s1, Returned False None)
     else do {
       b \<leftarrow> boxes s1 a;
       q \<leftarrow> queues s1 (mbox_hdl b);
       (q', y, ok) \<leftarrow> (if IsFromISR then xQueueGenericSendFromISR higher q msg pos
                        else send_section higher q msg pos);
       let s2 = s1\<lparr>queues := (queues s1)(mbox_hdl b \<mapsto> q')\<rparr>;
       if \<not> ok \<and> \<not> IsFromISR \<and> wait_ticks MSToWait \<noteq> 0 then Some (s2, Waits (mbox_hdl b) (wait_ticks MSToWait))
       else mbox_sent higher s2 b ok } }"

definition RtlMailboxSendToBack where
  "RtlMailboxSendToBack higher s MboxID msg MSToWait IsFromISR =
     mbox_send higher s MboxID msg MSToWait IsFromISR queueSEND_TO_BACK"

definition RtlMailboxSendToFront where
  "RtlMailboxSendToFront higher s MboxID msg MSToWait IsFromISR =
     mbox_send higher s MboxID msg MSToWait IsFromISR queueSEND_TO_FRONT"

definition mbox_read :: "(task \<Rightarrow> bool) \<Rightarrow> mbox_root \<Rightarrow> rtl_mailbox \<Rightarrow> bool \<Rightarrow> 32 word
    \<Rightarrow> (mbox_root \<times> outcome) option" where
  "mbox_read higher s b xJustPeeking ticks = do {
     q \<leftarrow> queues s (mbox_hdl b);
     (q', y, data) \<leftarrow> receive_section higher q xJustPeeking;
     let s' = s\<lparr>queues := (queues s)(mbox_hdl b \<mapsto> q')\<rparr>;
     Some (s', if data = None \<and> ticks \<noteq> 0 then Waits (mbox_hdl b) ticks else Returned (data \<noteq> None) data) }"

definition RtlMailboxReceive :: "(task \<Rightarrow> bool) \<Rightarrow> mbox_root \<Rightarrow> u8 \<Rightarrow> 32 word \<Rightarrow> bool
    \<Rightarrow> (mbox_root \<times> outcome) option" where
  "RtlMailboxReceive higher s MboxID MSToWait IsFromISR = do {
     (s1, a) \<leftarrow> RtlMBoxIdToHdl s MboxID;
     if a = 0 then Some (s1, Returned False None)
     else do {
       b \<leftarrow> boxes s1 a;
       if IsFromISR then do {
         q \<leftarrow> queues s1 (mbox_hdl b);
         (q', y, data) \<leftarrow> xQueueReceiveFromISR higher q;
         Some (s1\<lparr>queues := (queues s1)(mbox_hdl b \<mapsto> q')\<rparr>, Returned (data \<noteq> None) data) }
       else mbox_read higher s1 b False (wait_ticks MSToWait) } }"

definition RtlMailboxPeek :: "(task \<Rightarrow> bool) \<Rightarrow> mbox_root \<Rightarrow> u8 \<Rightarrow> 32 word \<Rightarrow> bool
    \<Rightarrow> (mbox_root \<times> outcome) option" where
  "RtlMailboxPeek higher s MboxID MSToWait IsFromISR = do {
     (s1, a) \<leftarrow> RtlMBoxIdToHdl s MboxID;
     if a = 0 then Some (s1, Returned False None)
     else do {
       b \<leftarrow> boxes s1 a;
       if IsFromISR then Some (s1, Returned False None)
       else mbox_read higher s1 b True (wait_ticks MSToWait) } }"

definition RtlMailboxMsgWaiting :: "mbox_root \<Rightarrow> u8 \<Rightarrow> bool \<Rightarrow> (mbox_root \<times> nat) option" where
  "RtlMailboxMsgWaiting s MboxID IsFromISR = do {
     (s1, a) \<leftarrow> RtlMBoxIdToHdl s MboxID;
     if a = 0 then Some (s1, 0)
     else do {
       b \<leftarrow> boxes s1 a;
       q \<leftarrow> queues s1 (mbox_hdl b);
       Some (s1, if IsFromISR then uxQueueMessagesWaitingFromISR q else uxQueueMessagesWaiting q) } }"

section \<open>The mailboxes as a map from numbers to sequences of messages\<close>

definition box_ok :: "mbox_root \<Rightarrow> nat \<Rightarrow> bool" where
  "box_ok s a \<longleftrightarrow> a \<noteq> 0 \<and> (case boxes s a of None \<Rightarrow> False | Some b \<Rightarrow>
     (case queues s (mbox_hdl b) of None \<Rightarrow> False | Some q \<Rightarrow> ring_ok q \<and> uxItemSize q = sizeof_MSG_BLK)
     \<and> (case pWakeSema b of None \<Rightarrow> True | Some h \<Rightarrow>
          (case queues s h of None \<Rightarrow> False | Some q \<Rightarrow> ring_ok q \<and> uxItemSize q = 0)))"

definition mboxes_ok :: "mbox_root \<Rightarrow> bool" where
  "mboxes_ok s \<longleftrightarrow> isInitialed s \<and> list_all (box_ok s) (mbox_list s)
     \<and> distinct (map (\<lambda>a. map_option mbox_id (boxes s a)) (mbox_list s))
     \<and> distinct (map (\<lambda>a. map_option mbox_hdl (boxes s a)) (mbox_list s))"

definition mbox_queue :: "mbox_root \<Rightarrow> u8 \<Rightarrow> queue option" where
  "mbox_queue s n = do {
     (s1, a) \<leftarrow> RtlMBoxIdToHdl s n;
     b \<leftarrow> boxes s1 a;
     if a = 0 then None else queues s1 (mbox_hdl b) }"

definition content :: "mbox_root \<Rightarrow> u8 \<Rightarrow> buf list option" where
  "content s n = map_option items (mbox_queue s n)"

text \<open>A mailbox of the list, by its number.\<close>

definition box_at :: "mbox_root \<Rightarrow> u8 \<Rightarrow> nat \<Rightarrow> rtl_mailbox \<Rightarrow> bool" where
  "box_at s n a b \<longleftrightarrow> a \<in> set (mbox_list s) \<and> boxes s a = Some b \<and> mbox_id b = n"

lemma init_id [simp]: "isInitialed s \<Longrightarrow> init_root s = s"
  by (simp add: init_root_def)

lemma box_ok_iff:
  "box_ok s a \<longleftrightarrow> a \<noteq> 0 \<and> (\<exists>b q. boxes s a = Some b \<and> queues s (mbox_hdl b) = Some q \<and> ring_ok q
     \<and> uxItemSize q = sizeof_MSG_BLK
     \<and> (\<forall>h. pWakeSema b = Some h \<longrightarrow> (\<exists>r. queues s h = Some r \<and> ring_ok r \<and> uxItemSize r = 0)))"
  unfolding box_ok_def by (cases "boxes s a") (auto split: option.splits)

lemma find_box_cases:
  assumes "list_all (box_ok s) as"
  shows "(\<exists>a b. find_box (boxes s) as n = Some a \<and> a \<in> set as \<and> boxes s a = Some b \<and> mbox_id b = n)
    \<or> find_box (boxes s) as n = Some 0 \<and> (\<forall>a\<in>set as. \<forall>b. boxes s a = Some b \<longrightarrow> mbox_id b \<noteq> n)"
  using assms
proof (induction as)
  case (Cons a as)
  then obtain b where b: "boxes s a = Some b" by (auto simp: box_ok_iff)
  show ?case
  proof (cases "n = mbox_id b")
    case True
    then show ?thesis using b by (intro disjI1 exI [of _ a] exI [of _ b]) simp
  next
    case False
    have "list_all (box_ok s) as" using Cons.prems by simp
    from Cons.IH [OF this] show ?thesis using b False by (elim disjE) auto
  qed
qed simp

lemma box_okD:
  assumes "mboxes_ok s" "a \<in> set (mbox_list s)"
  obtains b q where "a \<noteq> 0" "boxes s a = Some b" "queues s (mbox_hdl b) = Some q" "ring_ok q"
    "uxItemSize q = sizeof_MSG_BLK"
proof -
  have "box_ok s a" using assms by (simp add: mboxes_ok_def list_all_iff)
  then show ?thesis using that unfolding box_ok_iff by blast
qed

lemma lookup_cases:
  assumes ok: "mboxes_ok s"
  obtains (found) a b q where "RtlMBoxIdToHdl s n = Some (s, a)" "box_at s n a b" "a \<noteq> 0"
      "queues s (mbox_hdl b) = Some q" "ring_ok q" "uxItemSize q = sizeof_MSG_BLK" "mbox_queue s n = Some q"
    | (none) "RtlMBoxIdToHdl s n = Some (s, 0)" "\<And>a b. \<not> box_at s n a b" "mbox_queue s n = None"
proof -
  have l: "list_all (box_ok s) (mbox_list s)" and i: "isInitialed s" using ok by (auto simp: mboxes_ok_def)
  from find_box_cases [OF l, of n] show ?thesis
  proof
    assume "\<exists>a b. find_box (boxes s) (mbox_list s) n = Some a \<and> a \<in> set (mbox_list s) \<and> boxes s a = Some b \<and> mbox_id b = n"
    then obtain a b where a: "find_box (boxes s) (mbox_list s) n = Some a" "box_at s n a b"
      by (auto simp: box_at_def)
    from a(2) obtain q where "a \<noteq> 0" "queues s (mbox_hdl b) = Some q" "ring_ok q" "uxItemSize q = sizeof_MSG_BLK"
      using box_okD [OF ok, of a] by (auto simp: box_at_def)
    moreover from this have "mbox_queue s n = Some q" using a i by (simp add: mbox_queue_def RtlMBoxIdToHdl_def box_at_def)
    ultimately show ?thesis using found a i by (simp add: RtlMBoxIdToHdl_def)
  next
    assume "find_box (boxes s) (mbox_list s) n = Some 0 \<and> (\<forall>a\<in>set (mbox_list s). \<forall>b. boxes s a = Some b \<longrightarrow> mbox_id b \<noteq> n)"
    then show ?thesis using none i
      by (auto simp: RtlMBoxIdToHdl_def mbox_queue_def box_at_def Option.bind_eq_None_conv split: option.splits)
  qed
qed

lemma distinct_mapD: "distinct (map f xs) \<Longrightarrow> x \<in> set xs \<Longrightarrow> y \<in> set xs \<Longrightarrow> f x = f y \<Longrightarrow> x = y"
  by (auto simp: distinct_map dest: inj_onD)

lemma box_at_unique:
  assumes "mboxes_ok s" "box_at s n a b" "box_at s n a' b'"
  shows "a' = a \<and> b' = b"
proof -
  have "a' = a"
    by (rule distinct_mapD [of "\<lambda>a. map_option mbox_id (boxes s a)" "mbox_list s"])
      (use assms in \<open>simp_all add: mboxes_ok_def box_at_def\<close>)
  then show ?thesis using assms by (simp add: box_at_def)
qed

lemma hdl_unique:
  assumes "mboxes_ok s" "box_at s n a b" "box_at s n' a' b'" "mbox_hdl b' = mbox_hdl b"
  shows "n' = n"
proof -
  have "a' = a"
    by (rule distinct_mapD [of "\<lambda>a. map_option mbox_hdl (boxes s a)" "mbox_list s"])
      (use assms in \<open>simp_all add: mboxes_ok_def box_at_def\<close>)
  then show ?thesis using assms by (simp add: box_at_def)
qed

lemma mbox_queueI:
  assumes ok: "mboxes_ok s" and at: "box_at s n a b"
  shows "mbox_queue s n = queues s (mbox_hdl b)"
  using ok
proof (cases rule: lookup_cases [of s n])
  case (found a' b' q)
  then have "b' = b" using box_at_unique [OF ok at] by blast
  with found show ?thesis by simp
qed (use at in blast)

lemma mbox_queue_None: "mboxes_ok s \<Longrightarrow> (\<And>a b. \<not> box_at s n a b) \<Longrightarrow> mbox_queue s n = None"
  by (erule lookup_cases [of s n]) blast+

text \<open>Replacing a queue by one of the same kind.\<close>

lemma put_queue:
  assumes ok: "mboxes_ok s" and q: "queues s h = Some q" and q': "ring_ok q'" "uxItemSize q' = uxItemSize q"
  shows "mboxes_ok (s\<lparr>queues := (queues s)(h \<mapsto> q')\<rparr>)"
proof -
  have "box_ok (s\<lparr>queues := (queues s)(h \<mapsto> q')\<rparr>) a" if "box_ok s a" for a
  proof -
    from that obtain b r where b: "a \<noteq> 0" "boxes s a = Some b" "queues s (mbox_hdl b) = Some r" "ring_ok r"
      "uxItemSize r = sizeof_MSG_BLK"
      "\<And>h. pWakeSema b = Some h \<Longrightarrow> \<exists>r. queues s h = Some r \<and> ring_ok r \<and> uxItemSize r = 0"
      unfolding box_ok_iff by blast
    have repl: "\<exists>r. ((queues s)(h \<mapsto> q')) k = Some r \<and> ring_ok r \<and> uxItemSize r = n"
      if "queues s k = Some r" "ring_ok r" "uxItemSize r = n" for k r n
      using that q q' by (cases "k = h") auto
    have "ring_ok r \<longrightarrow> (\<exists>r'. ((queues s)(h \<mapsto> q')) (mbox_hdl b) = Some r' \<and> ring_ok r' \<and> uxItemSize r' = sizeof_MSG_BLK)"
      using repl [OF b(3) b(4) b(5)] by blast
    moreover have "\<exists>r. ((queues s)(h \<mapsto> q')) k = Some r \<and> ring_ok r \<and> uxItemSize r = 0" if "pWakeSema b = Some k" for k
      using b(6) [OF that] repl by blast
    ultimately show ?thesis using b(1,2,4) unfolding box_ok_iff by auto
  qed
  then show ?thesis using ok by (auto simp: mboxes_ok_def list_all_iff)
qed

lemma put_queue_content:
  assumes ok: "mboxes_ok s" and at: "box_at s n a b" and q: "queues s (mbox_hdl b) = Some q"
    and q': "ring_ok q'" "uxItemSize q' = uxItemSize q"
  shows "mbox_queue (s\<lparr>queues := (queues s)(mbox_hdl b \<mapsto> q')\<rparr>) = (mbox_queue s)(n \<mapsto> q')"
proof
  fix m
  let ?s = "s\<lparr>queues := (queues s)(mbox_hdl b \<mapsto> q')\<rparr>"
  have ok': "mboxes_ok ?s" by (rule put_queue [OF ok q q'])
  have same: "box_at ?s k c d \<longleftrightarrow> box_at s k c d" for k c d by (simp add: box_at_def)
  show "mbox_queue ?s m = ((mbox_queue s)(n \<mapsto> q')) m"
  proof (cases "\<exists>c d. box_at s m c d")
    case True
    then obtain c d where cd: "box_at s m c d" by blast
    then have m: "mbox_queue ?s m = queues ?s (mbox_hdl d)" "mbox_queue s m = queues s (mbox_hdl d)"
      using mbox_queueI [OF ok' cd [folded same]] mbox_queueI [OF ok cd] by simp_all
    show ?thesis
    proof (cases "m = n")
      case True
      then have "d = b" using box_at_unique [OF ok at] cd by blast
      then show ?thesis using m True by simp
    next
      case False
      then have "mbox_hdl d \<noteq> mbox_hdl b" using hdl_unique [OF ok at cd] by blast
      then show ?thesis using m False by simp
    qed
  next
    case False
    then have "m \<noteq> n" using at by blast
    then show ?thesis using False mbox_queue_None [OF ok] mbox_queue_None [OF ok'] by (simp add: same)
  qed
qed

lemma put_sema_content:
  assumes ok: "mboxes_ok s" and q: "queues s h = Some q" "uxItemSize q = 0"
    and q': "ring_ok q'" "uxItemSize q' = 0"
  shows "mbox_queue (s\<lparr>queues := (queues s)(h \<mapsto> q')\<rparr>) = mbox_queue s"
proof
  fix m
  let ?s = "s\<lparr>queues := (queues s)(h \<mapsto> q')\<rparr>"
  have ok': "mboxes_ok ?s" by (rule put_queue [OF ok q(1)]) (use q q' in simp_all)
  have same: "box_at ?s k c d \<longleftrightarrow> box_at s k c d" for k c d by (simp add: box_at_def)
  show "mbox_queue ?s m = mbox_queue s m"
  proof (cases "\<exists>c d. box_at s m c d")
    case True
    then obtain c d where cd: "box_at s m c d" by blast
    have m: "mbox_queue ?s m = queues ?s (mbox_hdl d)" "mbox_queue s m = queues s (mbox_hdl d)"
      using cd mbox_queueI [OF ok' cd [folded same]] mbox_queueI [OF ok cd] by simp_all
    have "c \<in> set (mbox_list s)" "boxes s c = Some d" using cd by (simp_all add: box_at_def)
    then have "\<exists>r. queues s (mbox_hdl d) = Some r \<and> uxItemSize r = sizeof_MSG_BLK"
      using box_okD [OF ok, of c] by (metis option.inject)
    then have "mbox_hdl d \<noteq> h" using q by (auto simp: sizeof_MSG_BLK_def)
    with m show ?thesis by simp
  next
    case False
    then show ?thesis using mbox_queue_None [OF ok] mbox_queue_None [OF ok'] by (simp add: same)
  qed
qed

section \<open>The operations on the map\<close>

text \<open>A request to the mailbox of a number, with the arguments \<open>MSToWait\<close> and \<open>IsFromISR\<close>, and the
  answer of a call that returns.\<close>

fun mbox_op :: "(task \<Rightarrow> bool) \<Rightarrow> bool \<Rightarrow> 32 word \<Rightarrow> mbox_root \<Rightarrow> u8 \<Rightarrow> buf request \<Rightarrow> (mbox_root \<times> outcome) option" where
  "mbox_op higher isr ms s n (Push x) = RtlMailboxSendToBack higher s n x ms isr"
| "mbox_op higher isr ms s n (PushFront x) = RtlMailboxSendToFront higher s n x ms isr"
| "mbox_op higher isr ms s n (Overwrite x) = None"
| "mbox_op higher isr ms s n Pop = RtlMailboxReceive higher s n ms isr"
| "mbox_op higher isr ms s n Peek = RtlMailboxPeek higher s n ms isr"

fun answer_of :: "'a request \<Rightarrow> bool \<Rightarrow> buf option \<Rightarrow> buf answer" where
  "answer_of Pop b d = Item d"
| "answer_of Peek b d = Item d"
| "answer_of c b d = Ack b"

text \<open>Requests of the right size; a peek from an interrupt is refused by the code.\<close>

fun message_ok :: "bool \<Rightarrow> buf request \<Rightarrow> bool" where
  "message_ok isr (Push x) \<longleftrightarrow> length x = sizeof_MSG_BLK"
| "message_ok isr (PushFront x) \<longleftrightarrow> length x = sizeof_MSG_BLK"
| "message_ok isr (Overwrite x) \<longleftrightarrow> False"
| "message_ok isr Pop \<longleftrightarrow> True"
| "message_ok isr Peek \<longleftrightarrow> \<not> isr"

lemma up_sema_ok:
  assumes ok: "mboxes_ok s" and q: "queues s h = Some q" "ring_ok q" "uxItemSize q = 0"
  shows "\<exists>s'. RtlUpSema higher s h = Some s' \<and> mboxes_ok s' \<and> mbox_queue s' = mbox_queue s"
proof -
  have "request_ok (uxLength q) (uxItemSize q) (Push [])" using q by simp
  from task_op_ok [OF q(2) this, of higher] obtain q' y r where
    "send_section higher q [] queueSEND_TO_BACK = Some (q', y, r)" "ring_ok q'" "uxItemSize q' = 0"
    using q(3) by (auto simp: task_effect_def)
  then show ?thesis using q put_queue [OF ok q(1), of q'] put_sema_content [OF ok q(1,3), of q']
    by (auto simp: RtlUpSema_def)
qed

lemma sent_ok:
  assumes ok: "mboxes_ok s" and at: "box_at s n a b"
  shows "\<exists>s'. mbox_sent higher s b r = Some (s', Returned r None) \<and> mboxes_ok s' \<and> mbox_queue s' = mbox_queue s"
proof (cases "r \<and> pWakeSema b \<noteq> None")
  case True
  then obtain h where h: "pWakeSema b = Some h" by auto
  have "box_ok s a" "boxes s a = Some b" using ok at by (auto simp: mboxes_ok_def list_all_iff box_at_def)
  then obtain q where "queues s h = Some q" "ring_ok q" "uxItemSize q = 0" using h unfolding box_ok_iff by auto
  from up_sema_ok [OF ok this, of higher] show ?thesis using True h by (auto simp: mbox_sent_def)
next
  case False
  then show ?thesis using ok by (auto simp: mbox_sent_def)
qed

text \<open>One request to a mailbox that exists.\<close>

lemma box_at_put [simp]: "box_at (s\<lparr>queues := qs\<rparr>) n a b = box_at s n a b"
  by (simp add: box_at_def)

lemma mbox_send_step:
  assumes ok: "mboxes_ok s" and at: "box_at s n a b" and lk: "RtlMBoxIdToHdl s n = Some (s, a)" "a \<noteq> 0"
    and q: "queues s (mbox_hdl b) = Some q" "mbox_queue s n = Some q"
    and op: "(if isr then xQueueGenericSendFromISR higher q x pos else send_section higher q x pos) = Some (q', y, r)"
    and q': "ring_ok q'" "uxItemSize q' = uxItemSize q"
  shows "\<exists>s' out. mbox_send higher s n x ms isr pos = Some (s', out) \<and> mboxes_ok s'
    \<and> mbox_queue s' = (mbox_queue s)(n \<mapsto> q')
    \<and> out = (if \<not> r \<and> \<not> isr \<and> wait_ticks ms \<noteq> 0 then Waits (mbox_hdl b) (wait_ticks ms) else Returned r None)"
proof -
  let ?s = "s\<lparr>queues := (queues s)(mbox_hdl b \<mapsto> q')\<rparr>"
  have put: "mboxes_ok ?s" "mbox_queue ?s = (mbox_queue s)(n \<mapsto> q')"
    by (rule put_queue [OF ok q(1) q']) (rule put_queue_content [OF ok at q(1) q'])
  have "boxes s a = Some b" using at by (simp add: box_at_def)
  then have send: "mbox_send higher s n x ms isr pos =
      (if \<not> r \<and> \<not> isr \<and> wait_ticks ms \<noteq> 0 then Some (?s, Waits (mbox_hdl b) (wait_ticks ms))
       else mbox_sent higher ?s b r)"
    unfolding mbox_send_def using lk q(1) op by simp
  show ?thesis
  proof (cases "\<not> r \<and> \<not> isr \<and> wait_ticks ms \<noteq> 0")
    case True then show ?thesis using send put by auto
  next
    case False
    then show ?thesis using send sent_ok [OF put(1), of n a b higher r] at put(2) by auto
  qed
qed

lemma mbox_read_step:
  assumes ok: "mboxes_ok s" and at: "box_at s n a b"
    and q: "queues s (mbox_hdl b) = Some q" "mbox_queue s n = Some q"
    and op: "receive_section higher q p = Some (q', y, d)" and q': "ring_ok q'" "uxItemSize q' = uxItemSize q"
  shows "\<exists>s'. mbox_read higher s b p w = Some (s', if d = None \<and> w \<noteq> 0 then Waits (mbox_hdl b) w else Returned (d \<noteq> None) d)
    \<and> mboxes_ok s' \<and> mbox_queue s' = (mbox_queue s)(n \<mapsto> q')"
  using put_queue [OF ok q(1) q'] put_queue_content [OF ok at q(1) q'] q(1) op by (simp add: mbox_read_def)

text \<open>The contents after a request are those of the sequence, for this number; the others keep theirs. The
  call returns the sequence's answer, or waits where the sequence would refuse.\<close>

lemma mbox_op_refines:
  assumes ok: "mboxes_ok s" and q: "mbox_queue s n = Some q" and c: "message_ok isr c"
  shows "\<exists>s' out q'. mbox_op higher isr ms s n c = Some (s', out) \<and> mboxes_ok s'
    \<and> mbox_queue s' = (mbox_queue s)(n \<mapsto> q') \<and> uxLength q' = uxLength q
    \<and> (\<exists>r. deque (uxLength q) (items q) c = (items q', r)
       \<and> (if \<not> succeeded r \<and> \<not> isr \<and> wait_ticks ms \<noteq> 0 then \<exists>h. out = Waits h (wait_ticks ms)
          else \<exists>d. out = Returned (succeeded r) d \<and> answer_of c (succeeded r) d = r))"
  using ok
proof (cases rule: lookup_cases [of s n])
  case (found a b q0)
  then have q0: "q0 = q" using q by simp
  have allowed: "request_ok (uxLength q) (uxItemSize q) c" using c found(6) q0 by (cases c) auto
  note ring = found(5) [unfolded q0]
  have bx: "boxes s a = Some b" using found(2) by (simp add: box_at_def)
  obtain q1 y1 r1 where t: "task_op higher q c = Some (q1, y1, r1)" "ring_ok q1" "uxLength q1 = uxLength q"
    "uxItemSize q1 = uxItemSize q" "deque (uxLength q) (items q) c = (items q1, r1)"
    using task_op_ok [OF ring allowed, of higher] by (auto simp: task_effect_def)
  obtain q2 y2 r2 where i: "isr_op higher q c = Some (q2, y2, r2)" "ring_ok q2" "uxLength q2 = uxLength q"
    "uxItemSize q2 = uxItemSize q" "deque (uxLength q) (items q) c = (items q2, r2)"
    using isr_op_ok [OF ring allowed, of higher] by (auto simp: isr_effect_def)
  define q' r where "q' = (if isr then q2 else q1)" "r = (if isr then r2 else r1)"
  have eff: "ring_ok q'" "uxLength q' = uxLength q" "uxItemSize q' = uxItemSize q"
    "deque (uxLength q) (items q) c = (items q', r)" using t i by (simp_all add: q'_r_def)
  have send: ?thesis if p: "pos \<noteq> queueOVERWRITE" "c = (if pos = queueSEND_TO_BACK then Push x else PushFront x)" for pos x
  proof -
    obtain y b' where o: "(if isr then xQueueGenericSendFromISR higher q x pos else send_section higher q x pos)
        = Some (q', y, b')" "r = Ack b'"
      using t(1) i(1) p by (cases pos; cases isr) (auto simp: q'_r_def)
    from mbox_send_step [OF ok found(2) found(1,3) found(4) [unfolded q0] q o(1) eff(1,3), of ms]
    obtain s' out where s': "mbox_send higher s n x ms isr pos = Some (s', out)" "mboxes_ok s'"
      "mbox_queue s' = (mbox_queue s)(n \<mapsto> q')"
      "out = (if \<not> b' \<and> \<not> isr \<and> wait_ticks ms \<noteq> 0 then Waits (mbox_hdl b) (wait_ticks ms) else Returned b' None)"
      by blast
    have "mbox_op higher isr ms s n c = Some (s', out)" using s'(1) p
      by (cases pos) (simp_all add: RtlMailboxSendToBack_def RtlMailboxSendToFront_def)
    moreover have "answer_of c b' None = Ack b'" using p by auto
    ultimately show ?thesis using s' eff o(2) by (intro exI [of _ s'] exI [of _ out] exI [of _ q']) auto
  qed
  have read: ?thesis if p: "c = (if p then Peek else Pop)" "\<not> isr" for p
  proof -
    obtain d where d: "receive_section higher q p = Some (q1, y1, d)" "r1 = Item d"
      using t(1) p by (cases p) auto
    from mbox_read_step [OF ok found(2) found(4) [unfolded q0] q d(1) t(2,4), of "wait_ticks ms"]
    obtain s' where "mbox_read higher s b p (wait_ticks ms) = Some (s', if d = None \<and> wait_ticks ms \<noteq> 0
        then Waits (mbox_hdl b) (wait_ticks ms) else Returned (d \<noteq> None) d)"
      "mboxes_ok s'" "mbox_queue s' = (mbox_queue s)(n \<mapsto> q1)" by blast
    moreover have "mbox_op higher isr ms s n c = mbox_read higher s b p (wait_ticks ms)"
      using p found(1,3) bx by (cases p) (simp_all add: RtlMailboxReceive_def RtlMailboxPeek_def)
    ultimately show ?thesis using t(3,5) d(2) p by (cases p) auto
  qed
  have isr: ?thesis if p: "c = Pop" "isr"
  proof -
    obtain d where d: "xQueueReceiveFromISR higher q = Some (q2, y2, d)" "r2 = Item d"
      using i(1) p by auto
    let ?s = "s\<lparr>queues := (queues s)(mbox_hdl b \<mapsto> q2)\<rparr>"
    have "mbox_op higher isr ms s n c = Some (?s, Returned (d \<noteq> None) d)"
      using p found(1,3) bx found(4) q0 d(1) by (simp add: RtlMailboxReceive_def)
    then show ?thesis using put_queue [OF ok found(4) [unfolded q0] i(2,4)]
      put_queue_content [OF ok found(2) found(4) [unfolded q0] i(2,4)] i(3,5) d(2) p by auto
  qed
  show ?thesis
  proof (cases c)
    case (Push x) then show ?thesis using send [where pos = queueSEND_TO_BACK and x = x] by simp
  next
    case (PushFront x) then show ?thesis using send [where pos = queueSEND_TO_FRONT and x = x] by simp
  next
    case (Overwrite x) then show ?thesis using c by simp
  next
    case Pop
    then show ?thesis using isr read [of False] by (cases isr) auto
  next
    case Peek
    then show ?thesis using read [of True] c by auto
  qed
qed (use q in simp)

section \<open>Creating and deleting\<close>

lemma box_ok_grow:
  assumes "box_ok s a" "a' \<noteq> a" "queues s h = None"
  shows "box_ok (s\<lparr>boxes := (boxes s)(a' := x), queues := (queues s)(h \<mapsto> q), mbox_list := l\<rparr>) a"
proof -
  from assms(1) obtain b r where b: "a \<noteq> 0" "boxes s a = Some b" "queues s (mbox_hdl b) = Some r" "ring_ok r"
      "uxItemSize r = sizeof_MSG_BLK"
      "\<And>h. pWakeSema b = Some h \<Longrightarrow> \<exists>r. queues s h = Some r \<and> ring_ok r \<and> uxItemSize r = 0"
    unfolding box_ok_iff by blast
  have keep: "((queues s)(h \<mapsto> q)) k = queues s k" if "queues s k \<noteq> None" for k
    using that assms(3) by (cases "k = h") auto
  have "\<exists>r. ((queues s)(h \<mapsto> q)) k = Some r \<and> ring_ok r \<and> uxItemSize r = 0" if "pWakeSema b = Some k" for k
    using b(6) [OF that] keep [of k] by auto
  moreover have "((queues s)(h \<mapsto> q)) (mbox_hdl b) = Some r" using keep [of "mbox_hdl b"] b(3) by simp
  ultimately show ?thesis using b(1,2,4,5) assms(2) unfolding box_ok_iff by simp
qed

lemma map_cong_same: "(\<And>x. x \<in> set xs \<Longrightarrow> f x = g x) \<Longrightarrow> distinct (map f xs) = distinct (map g xs)"
  by (metis map_cong)

lemma distinct_map_snoc:
  "distinct (map f xs) \<Longrightarrow> f a = y \<Longrightarrow> (\<And>x. x \<in> set xs \<Longrightarrow> f x \<noteq> y) \<Longrightarrow> distinct (map f (xs @ [a]))"
  by force

text \<open>A new mailbox is empty and the others are as before; a number is given once.\<close>

lemma create_ok:
  assumes ok: "mboxes_ok s" and free: "mbox_queue s n = None" and a: "a \<noteq> 0" "a \<notin> set (mbox_list s)"
    and h: "queues s h = None" and len: "0 < len" "len * sizeof_MSG_BLK < 2 ^ 32 - 1"
    and mem: "malloc (len * sizeof_MSG_BLK + 1) = Some st" "length st = len * sizeof_MSG_BLK + 1"
    and sema: "\<And>k. sema = Some k \<Longrightarrow> \<exists>r. queues s k = Some r \<and> ring_ok r \<and> uxItemSize r = 0"
  shows "\<exists>s' q. RtlMailboxCreate a h (Some q0) malloc s n len sema = Some (s', a) \<and> mboxes_ok s'
    \<and> mbox_queue s' = (mbox_queue s)(n \<mapsto> q) \<and> items q = [] \<and> uxLength q = len
    \<and> box_at s' n a \<lparr>mbox_hdl = h, pWakeSema = sema, mbox_id = n\<rparr> \<and> (\<forall>k. k \<noteq> h \<longrightarrow> queues s' k = queues s k)"
proof -
  obtain q where q: "xQueueGenericCreate (Some q0) malloc len sizeof_MSG_BLK = Some q" "ring_ok q" "items q = []"
    "uxLength q = len" "uxItemSize q = sizeof_MSG_BLK"
    using create_ring [of len sizeof_MSG_BLK malloc st q0] len mem by (auto simp: sizeof_MSG_BLK_def)
  have none: "RtlMBoxIdToHdl s n = Some (s, 0)" "\<And>a b. \<not> box_at s n a b"
    by (rule lookup_cases [OF ok, of n]; use free in auto)+
  have i: "isInitialed s" using ok by (simp add: mboxes_ok_def)
  define b where "b = \<lparr>mbox_hdl = h, pWakeSema = sema, mbox_id = n\<rparr>"
  define s' where "s' = s\<lparr>boxes := (boxes s)(a \<mapsto> b), queues := (queues s)(h \<mapsto> q), mbox_list := mbox_list s @ [a]\<rparr>"
  have res: "RtlMailboxCreate a h (Some q0) malloc s n len sema = Some (s', a)"
    using none(1) i a(1) q(1) by (simp add: RtlMailboxCreate_def s'_def b_def)
  have old: "box_ok s' c" "boxes s' c = boxes s c" if "c \<in> set (mbox_list s)" for c
  proof -
    have "box_ok s c" using ok that by (simp add: mboxes_ok_def list_all_iff)
    then show "box_ok s' c" "boxes s' c = boxes s c" using box_ok_grow [where s = s and a = c and a' = a and h = h and x = "Some b" and q = q and l = "mbox_list s @ [a]"] that a(2) h
      by (auto simp: s'_def)
  qed
  have new: "box_ok s' a"
  proof -
    have "\<exists>r. queues s' k = Some r \<and> ring_ok r \<and> uxItemSize r = 0" if "sema = Some k" for k
      using sema [OF that] h by (auto simp: s'_def)
    then show ?thesis using a(1) q unfolding box_ok_iff by (simp add: s'_def b_def)
  qed
  have used: "\<exists>d r. boxes s c = Some d \<and> queues s (mbox_hdl d) = Some r" if "c \<in> set (mbox_list s)" for c
    using box_okD [OF ok that] by blast
  have l: "mbox_list s' = mbox_list s @ [a]" "boxes s' a = Some b" by (simp_all add: s'_def)
  have ok': "mboxes_ok s'"
  proof -
    have "distinct (map (\<lambda>c. map_option mbox_id (boxes s' c)) (mbox_list s'))"
      unfolding l(1)
    proof (rule distinct_map_snoc)
      show "distinct (map (\<lambda>c. map_option mbox_id (boxes s' c)) (mbox_list s))"
        using ok old(2) map_cong_same [of "mbox_list s" "\<lambda>c. map_option mbox_id (boxes s' c)" "\<lambda>c. map_option mbox_id (boxes s c)"]
        by (simp add: mboxes_ok_def)
      show "map_option mbox_id (boxes s' c) \<noteq> Some n" if "c \<in> set (mbox_list s)" for c
        using that old(2) none(2) [of c] by (auto simp: box_at_def)
    qed (simp add: l b_def)
    moreover have "distinct (map (\<lambda>c. map_option mbox_hdl (boxes s' c)) (mbox_list s'))"
      unfolding l(1)
    proof (rule distinct_map_snoc)
      show "distinct (map (\<lambda>c. map_option mbox_hdl (boxes s' c)) (mbox_list s))"
        using ok old(2) map_cong_same [of "mbox_list s" "\<lambda>c. map_option mbox_hdl (boxes s' c)" "\<lambda>c. map_option mbox_hdl (boxes s c)"]
        by (simp add: mboxes_ok_def)
      show "map_option mbox_hdl (boxes s' c) \<noteq> Some h" if "c \<in> set (mbox_list s)" for c
        using used [OF that] old(2) [OF that] h by auto
    qed (simp add: l b_def)
    moreover have "isInitialed s'" using i by (simp add: s'_def)
    ultimately show ?thesis using old(1) new by (auto simp: mboxes_ok_def list_all_iff l(1))
  qed
  have "mbox_queue s' m = ((mbox_queue s)(n \<mapsto> q)) m" for m
  proof (cases "\<exists>c d. box_at s m c d")
    case True
    then obtain c d where cd: "box_at s m c d" by blast
    then have "box_at s' m c d" using old(2) [of c] by (auto simp: box_at_def s'_def)
    moreover have "m \<noteq> n" using none(2) cd by blast
    moreover have "queues s' (mbox_hdl d) = queues s (mbox_hdl d)"
      using used [of c] cd h by (auto simp: box_at_def s'_def)
    ultimately show ?thesis using mbox_queueI [OF ok cd] mbox_queueI [OF ok'] by simp
  next
    case False
    show ?thesis
    proof (cases "m = n")
      case True
      have "box_at s' n a b" by (simp add: box_at_def s'_def b_def)
      then show ?thesis using mbox_queueI [OF ok'] True by (simp add: s'_def b_def)
    next
      case mn: False
      have "\<not> box_at s' m c d" for c d
        using False mn old(2) [of c] by (auto simp: box_at_def s'_def b_def)
      then show ?thesis using mbox_queue_None [OF ok'] mbox_queue_None [OF ok] False mn by simp
    qed
  qed
  moreover have "box_at s' n a b" "\<forall>k. k \<noteq> h \<longrightarrow> queues s' k = queues s k" by (simp_all add: box_at_def s'_def b_def)
  ultimately show ?thesis using res ok' q by (intro exI [of _ s'] exI [of _ q]) (auto simp: fun_eq_iff b_def)
qed

lemma create_taken: "mboxes_ok s \<Longrightarrow> mbox_queue s n \<noteq> None \<Longrightarrow> RtlMailboxCreate a h struct malloc s n len sema = Some (s, 0)"
  by (rule lookup_cases [of s n]) (auto simp: RtlMailboxCreate_def mboxes_ok_def)

lemma distinct_map_forget:
  assumes "distinct (map (\<lambda>c. map_option f (m c)) xs)"
  shows "distinct (map (\<lambda>c. map_option f ((m(a := None)) c)) (remove1 a xs))"
proof -
  have "distinct xs" using assms by (simp add: distinct_map)
  then have "set (remove1 a xs) = set xs - {a}" by simp
  then have "distinct (map (\<lambda>c. map_option f ((m(a := None)) c)) (remove1 a xs))
      = distinct (map (\<lambda>c. map_option f (m c)) (remove1 a xs))"
    by (intro map_cong_same) auto
  moreover have "distinct (map (\<lambda>c. map_option f (m c)) (remove1 a xs))"
    using assms \<open>distinct xs\<close> by (auto simp: distinct_map intro: inj_on_subset set_remove1_subset)
  ultimately show ?thesis by simp
qed

text \<open>A deleted mailbox is gone, with its queue; the others are as before.\<close>

lemma del_ok:
  assumes ok: "mboxes_ok s" and at: "box_at s n a b"
  shows "\<exists>s'. RtlMailboxDel s a = Some s' \<and> mboxes_ok s' \<and> mbox_queue s' = (mbox_queue s)(n := None)
    \<and> queues s' (mbox_hdl b) = None"
proof -
  have m: "a \<in> set (mbox_list s)" "boxes s a = Some b" "mbox_id b = n" using at by (auto simp: box_at_def)
  obtain q where q: "a \<noteq> 0" "queues s (mbox_hdl b) = Some q" "uxItemSize q = sizeof_MSG_BLK"
    using box_okD [OF ok m(1)] m(2) by (metis option.inject)
  define s' where "s' = s\<lparr>mbox_list := remove1 a (mbox_list s), queues := (queues s)(mbox_hdl b := None),
     boxes := (boxes s)(a := None)\<rparr>"
  have d: "distinct (map (\<lambda>a. map_option mbox_id (boxes s a)) (mbox_list s))" using ok by (simp add: mboxes_ok_def)
  have mem: "c \<in> set (mbox_list s') \<longleftrightarrow> c \<in> set (mbox_list s) \<and> c \<noteq> a" for c
    using d by (simp add: s'_def distinct_map)
  have same: "boxes s' c = boxes s c" if "c \<noteq> a" for c using that by (simp add: s'_def)
  have hdl: "queues s' (mbox_hdl e) = queues s (mbox_hdl e)" if "box_at s k c e" "c \<noteq> a" for k c e
  proof -
    have "k \<noteq> n" using that box_at_unique [OF ok at] by blast
    then show ?thesis using hdl_unique [OF ok at that(1)] by (auto simp: s'_def)
  qed
  have other: "box_ok s' c" if c: "c \<in> set (mbox_list s)" "c \<noteq> a" for c
  proof -
    have "box_ok s c" using ok c by (simp add: mboxes_ok_def list_all_iff)
    then obtain e r where e: "c \<noteq> 0" "boxes s c = Some e" "queues s (mbox_hdl e) = Some r" "ring_ok r"
      "uxItemSize r = sizeof_MSG_BLK"
      "\<And>h. pWakeSema e = Some h \<Longrightarrow> \<exists>r. queues s h = Some r \<and> ring_ok r \<and> uxItemSize r = 0"
      unfolding box_ok_iff by blast
    have "queues s' (mbox_hdl e) = Some r" using hdl [of "mbox_id e" c e] c e by (simp add: box_at_def)
    moreover have "\<exists>r. queues s' k = Some r \<and> ring_ok r \<and> uxItemSize r = 0" if "pWakeSema e = Some k" for k
      using e(6) [OF that] q by (auto simp: s'_def sizeof_MSG_BLK_def)
    ultimately show ?thesis using e c(2) same unfolding box_ok_iff by auto
  qed
  have ok': "mboxes_ok s'"
  proof -
    have "distinct (map (\<lambda>c. map_option mbox_id (boxes s' c)) (mbox_list s'))"
      "distinct (map (\<lambda>c. map_option mbox_hdl (boxes s' c)) (mbox_list s'))"
      using ok distinct_map_forget [of mbox_id "boxes s" "mbox_list s" a]
        distinct_map_forget [of mbox_hdl "boxes s" "mbox_list s" a] by (simp_all add: mboxes_ok_def s'_def)
    moreover have "isInitialed s'" using ok by (simp add: mboxes_ok_def s'_def)
    ultimately show ?thesis using other mem by (simp add: mboxes_ok_def list_all_iff)
  qed
  have keep: "box_at s' k c e \<longleftrightarrow> box_at s k c e \<and> k \<noteq> n" for k c e
    using mem [of c] same [of c] at box_at_unique [OF ok at, of c e] by (auto simp: box_at_def)
  have "mbox_queue s' k = ((mbox_queue s)(n := None)) k" for k
  proof (cases "\<exists>c e. box_at s k c e \<and> k \<noteq> n")
    case True
    then obtain c e where c: "box_at s k c e" "k \<noteq> n" by blast
    moreover have "c \<noteq> a" using c m by (auto simp: box_at_def)
    ultimately show ?thesis using mbox_queueI [OF ok c(1)] mbox_queueI [OF ok', of k c e] keep hdl [OF c(1)] by simp
  next
    case False
    have "mbox_queue s' k = None" by (rule mbox_queue_None [OF ok']) (use False keep in \<open>simp, blast\<close>)
    moreover have "mbox_queue s k = None" if "k \<noteq> n"
      by (rule mbox_queue_None [OF ok]) (use False that in \<open>simp, blast?\<close>)
    ultimately show ?thesis by simp
  qed
  moreover have "RtlMailboxDel s a = Some s'" using q m by (simp add: RtlMailboxDel_def s'_def)
  ultimately show ?thesis using ok' by (intro exI [of _ s']) (auto simp: fun_eq_iff s'_def)
qed

section \<open>A mailbox is a bounded queue\<close>

text \<open>The requests of a task that does not wait, to the mailbox of one number.\<close>

definition ask_mbox :: "(task \<Rightarrow> bool) \<Rightarrow> u8 \<Rightarrow> mbox_root \<Rightarrow> buf request \<Rightarrow> (mbox_root \<times> buf answer) option" where
  "ask_mbox higher n s c = do {
     (s', out) \<leftarrow> mbox_op higher False MBOX_WAIT_NONE s n c;
     case out of Returned b d \<Rightarrow> Some (s', answer_of c b d) | Waits h w \<Rightarrow> None }"

definition mbox_live :: "u8 \<Rightarrow> mbox_root \<Rightarrow> bool" where
  "mbox_live n s \<longleftrightarrow> mboxes_ok s \<and> mbox_queue s n \<noteq> None"

definition mbox_items :: "u8 \<Rightarrow> mbox_root \<Rightarrow> buf list" where
  "mbox_items n s = (case mbox_queue s n of None \<Rightarrow> [] | Some q \<Rightarrow> items q)"

definition mbox_cap :: "u8 \<Rightarrow> mbox_root \<Rightarrow> nat" where
  "mbox_cap n s = (case mbox_queue s n of None \<Rightarrow> 0 | Some q \<Rightarrow> uxLength q)"

lemma wait_none [simp]: "wait_ticks MBOX_WAIT_NONE = 0"
  by (simp add: wait_ticks_def MBOX_WAIT_NONE_def MBOX_WAIT_NO_TIMEOUT_def)

interpretation mbox: bounded_queue "ask_mbox higher n" "mbox_live n" "mbox_items n" "mbox_cap n" "\<lambda>s. message_ok False"
  for higher n
proof
  fix s c assume s: "mbox_live n s" and c: "message_ok False c"
  then obtain q where q: "mboxes_ok s" "mbox_queue s n = Some q" by (auto simp: mbox_live_def)
  from mbox_op_refines [OF q c, of higher MBOX_WAIT_NONE]
  obtain s' q' r d where "mbox_op higher False MBOX_WAIT_NONE s n c = Some (s', Returned (succeeded r) d)" "mboxes_ok s'"
    "mbox_queue s' = (mbox_queue s)(n \<mapsto> q')" "uxLength q' = uxLength q"
    "deque (uxLength q) (items q) c = (items q', r)" "answer_of c (succeeded r) d = r"
    by auto
  then show "\<exists>s' r. ask_mbox higher n s c = Some (s', r) \<and> mbox_live n s'
      \<and> deque (mbox_cap n s) (mbox_items n s) c = (mbox_items n s', r) \<and> mbox_cap n s' = mbox_cap n s
      \<and> message_ok False = message_ok False"
    using q by (auto simp: ask_mbox_def mbox_live_def mbox_items_def mbox_cap_def)
qed

text \<open>What a request from a task does to the queues: it gives the semaphore of the mailbox once for each message
  that is taken in, and touches no queue but the mailbox's own and that semaphore.\<close>

lemma up_sema_count:
  assumes q: "queues s k = Some q" "ring_ok q" "uxItemSize q = 0" and r: "RtlUpSema higher s k = Some s'"
  shows "boxes s' = boxes s \<and> mbox_list s' = mbox_list s \<and> (\<forall>h. h \<noteq> k \<longrightarrow> queues s' h = queues s h)
    \<and> (\<exists>q'. queues s' k = Some q' \<and> uxLength q' = uxLength q
        \<and> uxMessagesWaiting q' = min (uxLength q) (uxMessagesWaiting q + 1))"
proof -
  have "request_ok (uxLength q) (uxItemSize q) (Push [])" using q by simp
  from task_op_ok [OF q(2) this, of higher] obtain q' y b where
    t: "send_section higher q [] queueSEND_TO_BACK = Some (q', y, b)" "ring_ok q'" "uxLength q' = uxLength q"
    "deque (uxLength q) (items q) (Push []) = (items q', Ack b)"
    by (auto simp: task_effect_def)
  have "uxMessagesWaiting q \<le> uxLength q" using q(2) by (simp add: ring_ok_def)
  moreover have "items q' = (if uxMessagesWaiting q < uxLength q then items q @ [[]] else items q)"
    using t(4) by (simp split: if_splits)
  ultimately have "uxMessagesWaiting q' = min (uxLength q) (uxMessagesWaiting q + 1)"
    using length_items [of q'] by (auto split: if_splits)
  then show ?thesis using r q(1) t(1,3) by (auto simp: RtlUpSema_def)
qed

lemma sent_count:
  assumes w: "\<And>k. pWakeSema b = Some k \<Longrightarrow> \<exists>q. queues s k = Some q \<and> ring_ok q \<and> uxItemSize q = 0"
    and r: "mbox_sent higher s b ok = Some (s', out)"
  shows "boxes s' = boxes s \<and> mbox_list s' = mbox_list s \<and> out = Returned ok None
    \<and> (\<forall>h. pWakeSema b \<noteq> Some h \<longrightarrow> queues s' h = queues s h)
    \<and> (\<forall>k q. pWakeSema b = Some k \<longrightarrow> queues s k = Some q \<longrightarrow>
        (\<exists>q'. queues s' k = Some q' \<and> uxLength q' = uxLength q
          \<and> uxMessagesWaiting q' = min (uxLength q) (uxMessagesWaiting q + (if ok then 1 else 0))))"
proof (cases "ok \<and> pWakeSema b \<noteq> None")
  case True
  then obtain k where k: "pWakeSema b = Some k" by auto
  obtain q where q: "queues s k = Some q" "ring_ok q" "uxItemSize q = 0" using w [OF k] by blast
  have "RtlUpSema higher s k = Some s'" "out = Returned ok None" using r True k by (auto simp: mbox_sent_def)
  then show ?thesis using up_sema_count [OF q] True k q(1) by auto
next
  case False
  then have "s' = s \<and> out = Returned ok None" using r by (auto simp: mbox_sent_def split: if_splits option.splits)
  moreover have "\<exists>q'. queues s k = Some q' \<and> uxLength q' = uxLength q
      \<and> uxMessagesWaiting q' = min (uxLength q) (uxMessagesWaiting q + (if ok then 1 else 0))"
    if "pWakeSema b = Some k" "queues s k = Some q" for k q
    using w [OF that(1)] that False by (auto simp: ring_ok_def)
  ultimately show ?thesis by blast
qed

lemma ask_mbox_effect:
  assumes ok: "mboxes_ok s" and at: "box_at s n a b" and c: "message_ok False c" "at_back c"
    and r: "ask_mbox higher n s c = Some (s', e)"
  shows "boxes s' = boxes s \<and> mbox_list s' = mbox_list s
    \<and> (\<forall>h. h \<noteq> mbox_hdl b \<and> pWakeSema b \<noteq> Some h \<longrightarrow> queues s' h = queues s h)
    \<and> (\<forall>k q. pWakeSema b = Some k \<longrightarrow> queues s k = Some q \<longrightarrow>
        (\<exists>q'. queues s' k = Some q' \<and> uxLength q' = uxLength q
          \<and> uxMessagesWaiting q' = min (uxLength q) (uxMessagesWaiting q + length (put_of (c, e)))))"
  using ok
proof (cases rule: lookup_cases [of s n])
  case (found a' b' q)
  then have ab: "a' = a" "b' = b" using box_at_unique [OF ok at] by blast+
  note f = found [unfolded ab]
  have bx: "boxes s a = Some b" using at by (simp add: box_at_def)
  have "box_ok s a" using ok at by (auto simp: mboxes_ok_def list_all_iff box_at_def)
  then have w: "\<exists>q. queues s k = Some q \<and> ring_ok q \<and> uxItemSize q = 0" if "pWakeSema b = Some k" for k
    using that bx unfolding box_ok_iff by auto
  then have ne: "k \<noteq> mbox_hdl b" "\<And>q. queues s k = Some q \<Longrightarrow> uxMessagesWaiting q \<le> uxLength q" if "pWakeSema b = Some k" for k
    using that f(4,6) by (auto simp: sizeof_MSG_BLK_def ring_ok_def)
  have same: ?thesis if "\<exists>q'. s' = s\<lparr>queues := (queues s)(mbox_hdl b \<mapsto> q')\<rparr>" "put_of (c, e) = []"
    using that ne by auto
  show ?thesis
  proof (cases c)
    case (Push x)
    obtain q' y okk where op: "send_section higher q x queueSEND_TO_BACK = Some (q', y, okk)"
      using r Push f(1,3,4) bx
      by (auto simp: ask_mbox_def RtlMailboxSendToBack_def mbox_send_def Option.bind_eq_Some_conv)
    let ?s = "s\<lparr>queues := (queues s)(mbox_hdl b \<mapsto> q')\<rparr>"
    have "mbox_send higher s n x MBOX_WAIT_NONE False queueSEND_TO_BACK = mbox_sent higher ?s b okk"
      using f(1,3,4) bx op by (simp add: mbox_send_def)
    then obtain d x where m: "mbox_sent higher ?s b okk = Some (s', Returned d x)" "e = Ack d"
    proof -
      obtain t out where t: "mbox_sent higher ?s b okk = Some (t, out)"
        "(case out of Returned d x \<Rightarrow> Some (t, Ack d) | Waits h w \<Rightarrow> None) = Some (s', e)"
        using r Push by (auto simp: ask_mbox_def RtlMailboxSendToBack_def \<open>mbox_send _ _ _ _ _ _ _ = _\<close> Option.bind_eq_Some_conv)
      then show ?thesis using that Push by (cases out) auto
    qed
    have w': "\<exists>q. queues ?s k = Some q \<and> ring_ok q \<and> uxItemSize q = 0" if "pWakeSema b = Some k" for k
      using w [OF that] ne [OF that] by simp
    note s = sent_count [OF w' m(1)]
    then have "length (put_of (c, e)) = (if okk then 1 else 0)" using m(2) Push by (cases okk) auto
    then show ?thesis using s ne by auto
  next
    case Pop
    have "\<exists>q'. s' = s\<lparr>queues := (queues s)(mbox_hdl b \<mapsto> q')\<rparr>"
      using r Pop f(1,3,4) bx
      by (auto simp: ask_mbox_def RtlMailboxReceive_def mbox_read_def Option.bind_eq_Some_conv Let_def split: outcome.splits)
    then show ?thesis by (rule same) (use Pop in \<open>cases e; simp\<close>)
  next
    case Peek
    have "\<exists>q'. s' = s\<lparr>queues := (queues s)(mbox_hdl b \<mapsto> q')\<rparr>"
      using r Peek f(1,3,4) bx
      by (auto simp: ask_mbox_def RtlMailboxPeek_def mbox_read_def Option.bind_eq_Some_conv Let_def split: outcome.splits)
    then show ?thesis by (rule same) (use Peek in \<open>cases e; simp\<close>)
  qed (use c in auto)
qed (use at in blast)

lemma run_mbox_effect:
  "mbox_live n s \<Longrightarrow> box_at s n a b \<Longrightarrow> list_all (message_ok False) cs \<Longrightarrow> list_all at_back cs \<Longrightarrow>
   run_requests (ask_mbox higher n) s cs = Some (s', es) \<Longrightarrow>
   (\<forall>h. h \<noteq> mbox_hdl b \<and> pWakeSema b \<noteq> Some h \<longrightarrow> queues s' h = queues s h)
   \<and> (\<forall>k q. pWakeSema b = Some k \<longrightarrow> queues s k = Some q \<longrightarrow>
        (\<exists>q'. queues s' k = Some q' \<and> uxLength q' = uxLength q
          \<and> uxMessagesWaiting q' = min (uxLength q) (uxMessagesWaiting q + length (put_in es))))"
proof (induction cs arbitrary: s es)
  case Nil
  have "uxMessagesWaiting q \<le> uxLength q" if "pWakeSema b = Some k" "queues s k = Some q" for k q
  proof -
    have "box_ok s a" "boxes s a = Some b" using Nil(1,2) by (auto simp: mbox_live_def mboxes_ok_def list_all_iff box_at_def)
    then show ?thesis using that unfolding box_ok_iff by (auto simp: ring_ok_def)
  qed
  then show ?case using Nil by (auto simp: put_in_def)
next
  case (Cons c cs)
  obtain s1 e es' where r: "ask_mbox higher n s c = Some (s1, e)" "run_requests (ask_mbox higher n) s1 cs = Some (s', es')"
    "es = (c, e) # es'" using Cons.prems(5) by (auto simp: Option.bind_eq_Some_conv)
  have c: "message_ok False c" "at_back c" "list_all (message_ok False) cs" "list_all at_back cs" using Cons.prems(3,4) by simp_all
  have ok: "mboxes_ok s" using Cons.prems(1) by (simp add: mbox_live_def)
  note e = ask_mbox_effect [OF ok Cons.prems(2) c(1,2) r(1)]
  have at: "box_at s1 n a b" using e Cons.prems(2) by (simp add: box_at_def)
  have live: "mbox_live n s1" using mbox.ask_ok [OF Cons.prems(1) c(1), of higher] r(1) by auto
  note IH = Cons.IH [OF live at c(3,4) r(2)]
  have p: "length (put_in es) = length (put_of (c, e)) + length (put_in es')" by (simp add: r(3) put_in_def)
  have "\<exists>q'. queues s' k = Some q' \<and> uxLength q' = uxLength q
      \<and> uxMessagesWaiting q' = min (uxLength q) (uxMessagesWaiting q + length (put_in es))"
    if k: "pWakeSema b = Some k" "queues s k = Some q" for k q
  proof -
    obtain q1 where q1: "queues s1 k = Some q1" "uxLength q1 = uxLength q"
      "uxMessagesWaiting q1 = min (uxLength q) (uxMessagesWaiting q + length (put_of (c, e)))" using e k by blast
    then show ?thesis using IH k(1) p by fastforce
  qed
  then show ?case using e IH by auto
qed

end
