(* ===== verification/QueueProps.thy ===== *)
theory QueueProps
  imports QueueTasks
begin

text \<open>
  What the queues promise: the items of all tasks and interrupts come out as from one sequence, no task
  sleeps while there is something for it, every call can always go on, and a wait ends when its time is over.
  Resetting a queue breaks the second promise.
\<close>

text \<open>A queue for one byte.\<close>

definition byte_queue :: queue where
  "byte_queue = \<lparr>pcHead = [0, 0], pcTail = 1, pcWriteTo = 0, pcReadFrom = 0, xTasksWaitingToSend = [],
     xTasksWaitingToReceive = [], uxMessagesWaiting = 0, uxLength = 1, uxItemSize = 1, xRxLock = -1, xTxLock = -1\<rparr>"

definition byte_sys :: sys where
  "byte_sys = \<lparr>que = byte_queue, pc = \<lambda>t. Idle, suspended = None, now = \<lparr>xTickCount = 0, xNumOfOverflows = 0\<rparr>\<rparr>"

lemma byte_sys_starts: "starts byte_sys"
  by (simp add: starts_def byte_sys_def byte_queue_def ring_ok_def rdx_def)

definition sched_ex :: "action list" where
  "sched_ex = [Call 1 Pop 10, Turn 1, Turn 1, Turn 1, Turn 1, Turn 1, Turn 1, Turn 1, Turn 1, Turn 1,
     Call 2 Pop 10, Turn 2, Turn 2, Turn 2, Turn 2, Turn 2, Irq (Push [7]), Turn 2, Turn 2, Turn 2, Turn 2, Turn 1]"

lemmas run_defs = turn_def can_run_def waiting_def try_turn_def check_turn_def full_turn_def place_def
  receive_section_def send_section_def wake_receiver_def wake_sender_def prvCopyDataFromQueue_def
  prvCopyDataToQueue_def store_item_def rdn_def wrn_def xQueueGenericSendFromISR_def xQueueReceiveFromISR_def
  prvLockQueue_def unlock_tx_eq unlock_rx_eq prvIsQueueEmpty_def prvIsQueueFull_def begin_call_def queue_allows_def
  leave_lists_def vTaskSetTimeOutState_def xTaskCheckForTimeOut_def tick_def

lemma sched_ex_run:
  "\<exists>s. schedule (\<lambda>t. 0) byte_sys sched_ex = Some (s, [(Push [7], Ack True), (Pop, Item (Some [7]))])
     \<and> xTasksWaitingToReceive (que s) = [2] \<and> (\<forall>t. pc s t \<noteq> Idle \<longrightarrow> \<not> can_run s t) \<and> queue_allows (que s) (Push [3])"
  by (simp add: sched_ex_def byte_sys_def byte_queue_def run_defs Let_def)

section \<open>The items\<close>

text \<open>C16: tasks and interrupts that use one queue at the same time see one bounded sequence of items: in every
  run from a new queue the answers are those of the sequence, one request after the other, and if items are
  only added at the back they are received in the order in which they were sent, none lost or doubled.\<close>

theorem queue_linear:
  assumes "starts s0" "reaches prio s0 es s"
  shows "replay (uxLength (que s0)) (items (que s0)) es = Some (items (que s))
    \<and> (list_all (at_back \<circ> fst) es \<longrightarrow> taken_out es @ items (que s) = items (que s0) @ put_in es)"
  using reaches_refines [OF assms(2) starts_ok [OF assms(1)]] replay_fifo by blast

theorem queue_linear_witness:
  "\<exists>s. reaches (\<lambda>t. 0) byte_sys [(Push [7], Ack True), (Pop, Item (Some [7]))] s \<and> items (que s) = []"
proof -
  obtain s where s: "reaches (\<lambda>t. 0) byte_sys [(Push [7], Ack True), (Pop, Item (Some [7]))] s"
    using sched_ex_run schedule_run by blast
  have "items (que byte_sys) = []" by (simp add: byte_sys_def byte_queue_def items_def)
  then show ?thesis using queue_linear [OF byte_sys_starts s] s
    by (intro exI [of _ s]) (simp add: put_in_def taken_out_def)
qed

section \<open>The tasks\<close>

text \<open>When no task in a call can run, no task is in the region where the scheduler is suspended, and all
  others in a call are on a list.\<close>

lemma stop_none:
  assumes pts: "points_ok s" and stop: "\<forall>t. pc s t \<noteq> Idle \<longrightarrow> \<not> can_run s t"
  shows "suspended s = None"
proof (rule ccontr)
  assume "suspended s \<noteq> None"
  then obtain t where t: "suspended s = Some t" by auto
  then have "pc s t \<noteq> Idle" using points_okD(4) [OF pts, of t] by auto
  with stop t show False by (auto simp: can_run_def)
qed

lemma sync_stop:
  assumes ok: "sync_ok prio s" and stop: "\<forall>t. pc s t \<noteq> Idle \<longrightarrow> \<not> can_run s t"
  shows "(xTasksWaitingToReceive (que s) \<noteq> [] \<longrightarrow> uxMessagesWaiting (que s) = 0)
    \<and> (xTasksWaitingToSend (que s) \<noteq> [] \<longrightarrow> uxMessagesWaiting (que s) = uxLength (que s))"
proof -
  note s = sync_okD [OF ok]
  have none: "suspended s = None" by (rule stop_none [OF s(2) stop])
  have lk: "nat (lockn s b) = 0" for b using s(3) by (cases b) (simp_all add: locks_None [OF none])
  have "eager s b = {}" for b
  proof -
    have False if t: "t \<notin> set (waiting s b)" "retry (pc s t) = Some c" "receives (asked c) = b" for t c
    proof -
      have pc: "pc s t = Try c" using t(2) points_okD(4) [OF s(2), of t] none by (cases "pc s t") auto
      then have "t \<in> set (waiting s (\<not> b))" using stop [rule_format, of t] none t(1) pc by (cases b) (auto simp: can_run_def)
      then show False using s(4) pc t(3) by (force simp: lists_ok_def)
    qed
    then show ?thesis by (auto simp: eager_def)
  qed
  then have "waiting s b \<noteq> [] \<longrightarrow> avail s b = 0" for b using s(5) [of b] lk [of b] by (simp add: side_ok_def)
  from this [of True] this [of False] s(1) show ?thesis by (auto simp: side_sels ring_ok_def)
qed

text \<open>C15: no wake-up is lost. In every run from a new queue, if no task in a call can run, then the tasks that
  wait to receive wait on an empty queue and those that wait to send on a full one, whatever interrupts came
  between the steps with which a task puts itself on a list.\<close>

theorem queue_no_lost_wakeup:
  assumes "starts s0" "reaches prio s0 es s" "\<forall>t. pc s t \<noteq> Idle \<longrightarrow> \<not> can_run s t"
  shows "(xTasksWaitingToReceive (que s) \<noteq> [] \<longrightarrow> uxMessagesWaiting (que s) = 0)
    \<and> (xTasksWaitingToSend (que s) \<noteq> [] \<longrightarrow> uxMessagesWaiting (que s) = uxLength (que s))"
  by (rule sync_stop [OF reaches_ok [OF assms(2) starts_ok [OF assms(1)]] assms(3)])

theorem queue_no_lost_wakeup_witness:
  "\<exists>es s. reaches (\<lambda>t. 0) byte_sys es s \<and> xTasksWaitingToReceive (que s) = [2] \<and> uxMessagesWaiting (que s) = 0"
proof -
  obtain s where s: "schedule (\<lambda>t. 0) byte_sys sched_ex = Some (s, [(Push [7], Ack True), (Pop, Item (Some [7]))])"
    "xTasksWaitingToReceive (que s) = [2]" "\<forall>t. pc s t \<noteq> Idle \<longrightarrow> \<not> can_run s t"
    using sched_ex_run by blast
  then show ?thesis using queue_no_lost_wakeup [OF byte_sys_starts schedule_run [OF s(1)] s(3)] schedule_run [OF s(1)]
    by auto
qed

text \<open>C17: every call can go on. In every run from a new queue a task in a call that may run has a next step, and
  an interrupt is always answered: no copy leaves the storage area, and the lists hold the waiting tasks in
  the order of their priorities.\<close>

theorem queue_calls_go_on:
  assumes start: "starts s0" and run: "reaches prio s0 es s"
  shows "(\<forall>t. pc s t \<noteq> Idle \<longrightarrow> can_run s t \<longrightarrow> turn prio s t \<noteq> None)
    \<and> (\<forall>c h. queue_allows (que s) c \<longrightarrow> isr_op h (que s) c \<noteq> None)
    \<and> sorted_wrt (\<lambda>t u. prio u \<le> prio t) (xTasksWaitingToReceive (que s))
    \<and> sorted_wrt (\<lambda>t u. prio u \<le> prio t) (xTasksWaitingToSend (que s))"
proof -
  have ok: "sync_ok prio s" by (rule reaches_ok [OF run starts_ok [OF start]])
  have "\<forall>t. timed (pc s t)" using reaches_timed [OF run] start by (simp add: starts_def)
  then have "turn prio s t \<noteq> None" if "pc s t \<noteq> Idle" "can_run s t" for t
    using turn_total [OF ok that(2,1)] by auto
  moreover have "isr_op h (que s) c \<noteq> None" if "queue_allows (que s) c" for c h
    using isr_op_ok [OF sync_okD(1) [OF ok], of c h] that by (auto simp: queue_allows_def)
  moreover have "sorted_wrt (\<lambda>t u. prio u \<le> prio t) (waiting s b)" for b
    using sync_okD(4) [OF ok] by (simp add: lists_ok_def)
  from this [of True] this [of False] have "sorted_wrt (\<lambda>t u. prio u \<le> prio t) (xTasksWaitingToReceive (que s))"
    "sorted_wrt (\<lambda>t u. prio u \<le> prio t) (xTasksWaitingToSend (que s))" by (simp_all add: waiting_sel)
  ultimately show ?thesis by blast
qed

theorem queue_calls_go_on_witness:
  "\<exists>es s. reaches (\<lambda>t. 0) byte_sys es s \<and> xTasksWaitingToReceive (que s) = [2]
     \<and> isr_op (\<lambda>t. False) (que s) (Push [3]) \<noteq> None"
proof -
  obtain s where s: "schedule (\<lambda>t. 0) byte_sys sched_ex = Some (s, [(Push [7], Ack True), (Pop, Item (Some [7]))])"
    "xTasksWaitingToReceive (que s) = [2]" "queue_allows (que s) (Push [3])" using sched_ex_run by blast
  note r = schedule_run [OF s(1)]
  show ?thesis using queue_calls_go_on [OF byte_sys_starts r] r s(2,3) by blast
qed

section \<open>Time\<close>

lemma unat_32: "unat (w :: 32 word) < 2 ^ 32"
  using unsigned_less [of w] by simp

lemma tick_pow:
  "xTickCount ((tick ^^ n) t) = xTickCount t + of_nat n"
  "xNumOfOverflows ((tick ^^ n) t) = xNumOfOverflows t + of_nat ((unat (xTickCount t) + n) div 2 ^ 32)"
proof -
  have "xTickCount ((tick ^^ n) t) = xTickCount t + of_nat n
    \<and> xNumOfOverflows ((tick ^^ n) t) = xNumOfOverflows t + of_nat ((unat (xTickCount t) + n) div 2 ^ 32)"
  proof (induction n)
    case 0
    show ?case using unat_32 [of "xTickCount t"] by simp
  next
    case (Suc n)
    let ?m = "unat (xTickCount t) + n"
    have z: "xTickCount t + of_nat n + 1 = 0 \<longleftrightarrow> 2 ^ 32 dvd Suc ?m"
    proof -
      have "xTickCount t + of_nat n + 1 = of_nat (Suc ?m)" by simp
      then show ?thesis by (simp only: word_of_nat_eq_0_iff) simp
    qed
    have d: "Suc ?m div 2 ^ 32 = (if 2 ^ 32 dvd Suc ?m then Suc (?m div 2 ^ 32) else ?m div 2 ^ 32)"
      by (simp add: div_Suc dvd_eq_mod_eq_0)
    show ?case using Suc z d by (simp add: tick_def Let_def)
  qed
  then show "xTickCount ((tick ^^ n) t) = xTickCount t + of_nat n"
    "xNumOfOverflows ((tick ^^ n) t) = xNumOfOverflows t + of_nat ((unat (xTickCount t) + n) div 2 ^ 32)" by auto
qed

text \<open>C18: a wait ends exactly when its ticks are over. However the tick count wraps, \<open>xTaskCheckForTimeOut\<close>,
  asked \<open>n < 2\<^sup>3\<^sup>2\<close> ticks after the wait began, reports the end if and only if the wait is not forever and is
  for at most \<open>n\<close> ticks; before that it leaves the rest of the wait, counted from now.\<close>

theorem queue_timeout_exact:
  assumes "n < 2 ^ 32"
  shows "xTaskCheckForTimeOut ((tick ^^ n) t) (vTaskSetTimeOutState t) w =
    (if w = portMAX_DELAY then (False, vTaskSetTimeOutState t, w)
     else if unat w \<le> n then (True, vTaskSetTimeOutState t, w)
     else (False, vTaskSetTimeOutState ((tick ^^ n) t), w - of_nat n))"
proof -
  let ?k = "unat (xTickCount t)" and ?t' = "(tick ^^ n) t"
  have n: "unat (of_nat n :: 32 word) = n" using assms by (simp add: unsigned_of_nat take_bit_nat_eq_self)
  have elapsed: "xTickCount ?t' - xTickCount t = of_nat n" by (simp add: tick_pow)
  have once: "\<not> (xNumOfOverflows ?t' \<noteq> xNumOfOverflows t \<and> xTickCount t \<le> xTickCount ?t')"
  proof
    assume o: "xNumOfOverflows ?t' \<noteq> xNumOfOverflows t \<and> xTickCount t \<le> xTickCount ?t'"
    have "(?k + n) div 2 ^ 32 \<noteq> 0"
    proof
      assume "(?k + n) div 2 ^ 32 = 0"
      then have "xNumOfOverflows ?t' = xNumOfOverflows t" by (simp add: tick_pow(2))
      with o show False by simp
    qed
    then have wrap: "2 ^ 32 \<le> ?k + n" by (metis div_less not_le)
    have "unat (xTickCount ?t') = (?k + n) mod 2 ^ 32" by (simp add: tick_pow unat_word_ariths n)
    also have "\<dots> = ?k + n - 2 ^ 32"
      using wrap assms unat_32 [of "xTickCount t"] by (simp add: mod_if)
    finally have "unat (xTickCount ?t') < ?k" using wrap assms by linarith
    with o show False by (simp add: word_le_nat_alt)
  qed
  show ?thesis using once n
    by (auto simp: xTaskCheckForTimeOut_def vTaskSetTimeOutState_def elapsed word_less_nat_alt)
qed

theorem queue_timeout_exact_witness:
  "xTaskCheckForTimeOut ((tick ^^ 20) \<lparr>xTickCount = 0xfffffff6, xNumOfOverflows = 0\<rparr>)
     (vTaskSetTimeOutState \<lparr>xTickCount = 0xfffffff6, xNumOfOverflows = 0\<rparr>) 20
   = (True, vTaskSetTimeOutState \<lparr>xTickCount = 0xfffffff6, xNumOfOverflows = 0\<rparr>, 20)"
  using queue_timeout_exact [of 20 "\<lparr>xTickCount = 0xfffffff6, xNumOfOverflows = 0\<rparr>" 20] by simp

section \<open>Resetting\<close>

lemma deque_first: "deque n [] c = (ys, r) \<Longrightarrow> 0 < n \<Longrightarrow> \<not> receives c \<Longrightarrow> r = Ack True \<and> length ys = 1"
  by (cases c) auto

text \<open>C19: a reset wakes only one of the senders it makes room for. If two tasks are blocked because the queue
  (of at least two items) is full and nothing else is running, then after \<open>xQueueGenericReset\<close> and the
  call of the woken task nothing can run, the other task is still blocked, and the queue has room for it.\<close>

theorem queue_reset_strands:
  assumes start: "starts s0" and run: "reaches prio s0 es s"
    and stop: "\<forall>v. pc s v \<noteq> Idle \<longrightarrow> \<not> can_run s v"
    and w: "xTasksWaitingToSend (que s) = t # u # us" and len: "2 \<le> uxLength (que s)"
  shows "\<exists>s2 x. turn prio (s\<lparr>que := fst (xQueueGenericReset h (que s) False)\<rparr>) t = Some (s2, [(x, Ack True)])
    \<and> (\<forall>v. pc s2 v \<noteq> Idle \<longrightarrow> \<not> can_run s2 v) \<and> u \<in> set (xTasksWaitingToSend (que s2))
    \<and> uxMessagesWaiting (que s2) = 1 \<and> pc s2 u = pc s u"
proof -
  have ok: "sync_ok prio s" by (rule reaches_ok [OF run starts_ok [OF start]])
  note s = sync_okD [OF ok]
  define q0 where "q0 = fst (xQueueGenericReset h (que s) False)"
  let ?s = "s\<lparr>que := q0\<rparr>"
  have wr: "xTasksWaitingToReceive (que s) = []"
    using sync_stop [OF ok stop] w len by auto
  have none: "suspended s = None" using stop_none [OF s(2) stop] .
  have ts: "distinct (t # u # us)" "t \<in> set (waiting s False)" using s(4) w by (auto simp: lists_ok_def waiting_sel all_bool_eq)
  then obtain c where c: "retry (pc s t) = Some c" "\<not> receives (asked c)" using s(4) by (force simp: lists_ok_def)
  then have pc: "pc s t = Try c" using points_okD(4) [OF s(2), of t] none by (cases "pc s t") auto
  have ring: "ring_ok q0" "items q0 = []"
    unfolding q0_def using reset_ring [of "que s" h False] s(1) by (auto simp: ring_ok_def)
  have sel: "uxLength q0 = uxLength (que s)" "uxItemSize q0 = uxItemSize (que s)" "xTasksWaitingToSend q0 = u # us"
    "xTasksWaitingToReceive q0 = []"
    unfolding q0_def using w wr by (auto simp: xQueueGenericReset_def Let_def wake_sender_eq)
  have allowed: "request_ok (uxLength q0) (uxItemSize q0) (asked c)"
    using points_okD(2) [OF s(2), of t c] pc sel by (simp add: queue_allows_def)
  obtain q y r where q: "task_op (\<lambda>u. prio t < prio u) q0 (asked c) = Some (q, y, r)" "ring_ok q"
    "task_effect q0 (asked c, r) q" "deque (uxLength q0) (items q0) (asked c) = (items q, r)"
    using task_op_ok [OF ring(1) allowed, of "\<lambda>u. prio t < prio u"] by blast
  have r: "r = Ack True" "length (items q) = 1"
    using deque_first [OF q(4) [unfolded ring(2)] _ c(2)] len sel(1) by auto
  let ?s2 = "s\<lparr>que := q, pc := (pc s)(t := Idle)\<rparr>"
  have q2: "xTasksWaitingToSend q = u # us" "xTasksWaitingToReceive q = []"
    using q(3) sel r by (auto simp: task_effect_def)
  have run1: "can_run ?s t" using none ts sel by (auto simp: can_run_def waiting_sel)
  have "turn prio ?s t = Some (?s2, [(asked c, Ack True)])"
    using run1 pc q(1) r(1) by (simp add: turn_def try_turn_def)
  moreover have "\<not> can_run ?s2 v" if "pc ?s2 v \<noteq> Idle" for v
    using that stop none w wr q2 by (auto simp: can_run_def waiting_sel split: if_splits)
  ultimately show ?thesis unfolding q0_def [symmetric] using q2 r(2) ts(1) by (intro exI [of _ ?s2] exI [of _ "asked c"]) auto
qed


definition pair_queue :: queue where
  "pair_queue = \<lparr>pcHead = [0, 0, 0], pcTail = 2, pcWriteTo = 0, pcReadFrom = 1, xTasksWaitingToSend = [],
     xTasksWaitingToReceive = [], uxMessagesWaiting = 0, uxLength = 2, uxItemSize = 1, xRxLock = -1, xTxLock = -1\<rparr>"

definition pair_sys :: sys where
  "pair_sys = byte_sys\<lparr>que := pair_queue\<rparr>"

definition reset_ex :: "action list" where
  "reset_ex = [Irq (Push [1]), Irq (Push [2]),
     Call 1 (Push [3]) 10, Turn 1, Turn 1, Turn 1, Turn 1, Turn 1, Turn 1, Turn 1, Turn 1, Turn 1,
     Call 2 (Push [4]) 10, Turn 2, Turn 2, Turn 2, Turn 2, Turn 2, Turn 2, Turn 2, Turn 2, Turn 2]"

lemma reset_ex_run:
  "\<exists>s es. schedule (\<lambda>t. 0) pair_sys reset_ex = Some (s, es) \<and> xTasksWaitingToSend (que s) = [1, 2]
     \<and> uxLength (que s) = 2 \<and> (\<forall>t. pc s t \<noteq> Idle \<longrightarrow> \<not> can_run s t)"
  by (simp add: reset_ex_def pair_sys_def byte_sys_def pair_queue_def run_defs Let_def)

lemma pair_sys_starts: "starts pair_sys"
  by (simp add: starts_def pair_sys_def byte_sys_def pair_queue_def ring_ok_def rdx_def)

theorem queue_reset_strands_witness:
  "\<exists>es s s2 x. reaches (\<lambda>t. 0) pair_sys es s \<and> xTasksWaitingToSend (que s) = [1, 2]
    \<and> turn (\<lambda>t. 0) (s\<lparr>que := fst (xQueueGenericReset (\<lambda>t. False) (que s) False)\<rparr>) 1 = Some (s2, [(x, Ack True)])
    \<and> 2 \<in> set (xTasksWaitingToSend (que s2)) \<and> uxMessagesWaiting (que s2) = 1"
proof -
  obtain s es where s: "schedule (\<lambda>t. 0) pair_sys reset_ex = Some (s, es)" "xTasksWaitingToSend (que s) = [1, 2]"
    "uxLength (que s) = 2" "\<forall>t. pc s t \<noteq> Idle \<longrightarrow> \<not> can_run s t" using reset_ex_run by blast
  note r = schedule_run [OF s(1)]
  show ?thesis
    using queue_reset_strands [OF pair_sys_starts r s(4), of 1 2 "[]" "\<lambda>t. False"] r s(2,3) by auto
qed

end
