(* ===== verification/MailboxProps.thy ===== *)
theory MailboxProps
  imports Mailbox QueueProps
begin

text \<open>
  What the mailboxes promise, and what giving the semaphore from an interrupt breaks.
\<close>

text \<open>A run on one mailbox leaves the others alone.\<close>

lemma run_mbox_others:
  "mbox_live n s \<Longrightarrow> list_all (message_ok False) cs \<Longrightarrow> run_requests (ask_mbox higher n) s cs = Some (s', es) \<Longrightarrow>
     \<exists>q. mbox_queue s' = (mbox_queue s)(n \<mapsto> q)"
proof (induction cs arbitrary: s es)
  case Nil
  have s': "s' = s" using Nil.prems(3) by simp
  obtain q where "mbox_queue s n = Some q" using Nil.prems(1) by (auto simp: mbox_live_def)
  then have "mbox_queue s = (mbox_queue s)(n \<mapsto> q)" by (metis fun_upd_triv)
  then show ?case unfolding s' by blast
next
  case (Cons c cs)
  then obtain q where q: "mboxes_ok s" "mbox_queue s n = Some q" by (auto simp: mbox_live_def)
  have c: "message_ok False c" using Cons.prems(2) by simp
  from mbox_op_refines [OF q c, of higher MBOX_WAIT_NONE] obtain s1 q1 r where
    s1: "ask_mbox higher n s c = Some (s1, r)" "mboxes_ok s1" "mbox_queue s1 = (mbox_queue s)(n \<mapsto> q1)"
    by (auto simp: ask_mbox_def)
  then obtain es' where run: "run_requests (ask_mbox higher n) s1 cs = Some (s', es')"
    using Cons.prems(3) by (auto simp: Option.bind_eq_Some_conv)
  have "mbox_live n s1" "list_all (message_ok False) cs" using s1 Cons.prems(2) by (simp_all add: mbox_live_def)
  from Cons.IH [OF this run] obtain q' where "mbox_queue s' = (mbox_queue s1)(n \<mapsto> q')" by blast
  then show ?case using s1(3) by (intro exI [of _ q']) simp
qed

text \<open>C20: A mailbox keeps its messages in order and wakes its reader. If the number and the two handles are free, the length is positive and there is memory for as many messages (their bytes counted below \<open>2 ^ 32\<close>),
  \<open>RtlMailboxCreate\<close> makes a mailbox, with a semaphore to wake its reader or without one, and whatever is then sent to its back,
  received and peeked at, by calls from tasks that do not wait, each with a message of the 12 bytes of \<open>MSG_BLK\<close>, comes out in the order in which it went in. The semaphore is given once for each message that the mailbox
  takes in, up to its largest count; the mailboxes of other numbers keep their contents, and no other queue changes.\<close>

theorem mailbox_fifo:
  assumes ok: "mboxes_ok s" and free: "content s n = None" and a: "a \<noteq> 0" "a \<notin> set (mbox_list s)"
    and h: "queues s h = None" and len: "0 < len" "len * sizeof_MSG_BLK < 2 ^ 32 - 1"
    and mem: "malloc (len * sizeof_MSG_BLK + 1) = Some st" "length st = len * sizeof_MSG_BLK + 1"
    and cs: "list_all (message_ok False) cs" "list_all at_back cs"
    and sema: "\<And>k. sema = Some k \<Longrightarrow> \<exists>r. queues s k = Some r \<and> ring_ok r \<and> uxItemSize r = 0"
  shows "\<exists>s1 s2 es. RtlMailboxCreate a h (Some q0) malloc s n len sema = Some (s1, a) \<and> content s1 = (content s)(n \<mapsto> [])
    \<and> run_requests (ask_mbox higher n) s1 cs = Some (s2, es)
    \<and> (\<exists>ys. content s2 = (content s)(n \<mapsto> ys) \<and> taken_out es @ ys = put_in es)
    \<and> (\<forall>k r. sema = Some k \<and> queues s k = Some r \<longrightarrow> (\<exists>r2. queues s2 k = Some r2
         \<and> uxMessagesWaiting r2 = min (uxLength r) (uxMessagesWaiting r + length (put_in es))))
    \<and> (\<forall>k. k \<noteq> h \<and> sema \<noteq> Some k \<longrightarrow> queues s2 k = queues s k)"
proof -
  have n: "mbox_queue s n = None" using free by (simp add: content_def)
  let ?b = "\<lparr>mbox_hdl = h, pWakeSema = sema, mbox_id = n\<rparr>"
  from create_ok [where malloc = malloc and sema = sema and ?q0.0 = q0, OF ok n a h len mem sema] obtain s1 q where
    s1: "RtlMailboxCreate a h (Some q0) malloc s n len sema = Some (s1, a)" "mboxes_ok s1"
      "mbox_queue s1 = (mbox_queue s)(n \<mapsto> q)" "items q = []" and b: "box_at s1 n a ?b" "\<forall>k. k \<noteq> h \<longrightarrow> queues s1 k = queues s k"
    by auto
  have c1: "content s1 = (content s)(n \<mapsto> [])" using s1(3,4) by (auto simp: content_def fun_eq_iff)
  have live: "mbox_live n s1" and "mbox_items n s1 = []" using s1 by (simp_all add: mbox_live_def mbox_items_def)
  from mbox.run_fifo [OF this(1) cs this(2), of higher] obtain s2 es where
    s2: "run_requests (ask_mbox higher n) s1 cs = Some (s2, es)" "taken_out es @ mbox_items n s2 = put_in es" by auto
  obtain q2 where q2: "mbox_queue s2 = (mbox_queue s1)(n \<mapsto> q2)" using run_mbox_others [OF live cs(1) s2(1)] by blast
  have c2: "content s2 = (content s)(n \<mapsto> items q2)" "mbox_items n s2 = items q2"
    using s1(3) q2 by (auto simp: content_def mbox_items_def fun_eq_iff)
  note e = run_mbox_effect [OF live b(1) cs s2(1)]
  have "\<exists>r2. queues s2 k = Some r2 \<and> uxMessagesWaiting r2 = min (uxLength r) (uxMessagesWaiting r + length (put_in es))"
    if "sema = Some k" "queues s k = Some r" for k r
  proof -
    have "queues s1 k = Some r" using that h b(2) by (cases "k = h") auto
    then show ?thesis using e that by auto
  qed
  moreover have "queues s2 k = queues s k" if "k \<noteq> h" "sema \<noteq> Some k" for k using e that b(2) by simp
  ultimately show ?thesis using s1(1) c1 s2 c2 by (intro exI [of _ s1] exI [of _ s2] exI [of _ es]) auto
qed

definition no_mboxes :: mbox_root where
  "no_mboxes = \<lparr>isInitialed = True, mbox_list = [], boxes = (\<lambda>a. None), queues = (\<lambda>h. None)\<rparr>"

definition msg_ex :: "u8 \<Rightarrow> buf" where
  "msg_ex k = [k, 0, 0, 0, 0, 0, 0, 0, 0, 0, 0, 0]"

text \<open>A semaphore is a queue of its own (\<open>MAX_SEMA_COUNT\<close> is 32).\<close>

definition sema_queue :: queue where
  "sema_queue = \<lparr>pcHead = [0], pcTail = 0, pcWriteTo = 0, pcReadFrom = 0, xTasksWaitingToSend = [],
     xTasksWaitingToReceive = [], uxMessagesWaiting = 0, uxLength = 32, uxItemSize = 0, xRxLock = -1, xTxLock = -1\<rparr>"

theorem mailbox_fifo_witness:
  "\<exists>s1 s2 es r2. RtlMailboxCreate 100 200 (Some byte_queue) (\<lambda>k. Some (replicate k 0)) (no_mboxes\<lparr>queues := [300 \<mapsto> sema_queue]\<rparr>) 5 2 (Some 300)
      = Some (s1, 100)
    \<and> run_requests (ask_mbox (\<lambda>t. False) 5) s1 [Push (msg_ex 1), Push (msg_ex 2), Pop] = Some (s2, es)
    \<and> queues s2 300 = Some r2 \<and> uxMessagesWaiting r2 = min 32 (length (put_in es))"
proof -
  let ?s = "no_mboxes\<lparr>queues := [300 \<mapsto> sema_queue]\<rparr>"
  have s: "mboxes_ok ?s" "content ?s 5 = None"
    by (simp_all add: mboxes_ok_def no_mboxes_def content_def mbox_queue_def RtlMBoxIdToHdl_def init_root_def)
  have "ring_ok sema_queue" "uxItemSize sema_queue = 0" "uxLength sema_queue = 32" "uxMessagesWaiting sema_queue = 0"
    by (simp_all add: ring_ok_def sema_queue_def rdx_def)
  then show ?thesis
    using mailbox_fifo [of ?s 5 100 200 2 "\<lambda>k. Some (replicate k 0)" "replicate 25 0"
      "[Push (msg_ex 1), Push (msg_ex 2), Pop]" "Some 300" byte_queue "\<lambda>t. False"] s
    by (auto simp: no_mboxes_def sizeof_MSG_BLK_def msg_ex_def)
qed

section \<open>The semaphore of a mailbox\<close>

text \<open>A task that waits for messages takes the semaphore of its mailbox without a limit of time; the
  mailbox points to it.\<close>

definition sema_sys :: sys where
  "sema_sys = byte_sys\<lparr>que := sema_queue\<rparr>"

definition box_queue :: queue where
  "box_queue = \<lparr>pcHead = replicate 13 0, pcTail = 12, pcWriteTo = 0, pcReadFrom = 0, xTasksWaitingToSend = [],
     xTasksWaitingToReceive = [], uxMessagesWaiting = 0, uxLength = 1, uxItemSize = 12, xRxLock = -1, xTxLock = -1\<rparr>"

definition wake_root :: "queue \<Rightarrow> mbox_root" where
  "wake_root sq = \<lparr>isInitialed = True, mbox_list = [100],
     boxes = [100 \<mapsto> \<lparr>mbox_hdl = 200, pWakeSema = Some 300, mbox_id = 5\<rparr>], queues = [200 \<mapsto> box_queue, 300 \<mapsto> sq]\<rparr>"

text \<open>A message sent from an interrupt can be slept through. \<open>RtlMailboxSendToBack\<close> gives the semaphore
  with \<open>RtlUpSema\<close>, the call for tasks, also from an interrupt; it does not see that the semaphore is locked
  by a task that is just putting itself on its list. Task 1 takes the semaphore and is interrupted at that
  point: the send succeeds, the message is in the mailbox and the semaphore is given, but the task goes to sleep
  and nothing can run.\<close>

theorem mailbox_isr_wakeup_lost:
  "\<exists>s s2 r2 q. schedule (\<lambda>t. 0) sema_sys [Call 1 Pop portMAX_DELAY, Turn 1, Turn 1, Turn 1, Turn 1, Turn 1] = Some (s, [])
    \<and> RtlMailboxSendToBack (\<lambda>t. False) (wake_root (que s)) 5 (msg_ex 9) MBOX_WAIT_NONE True = Some (r2, Returned True None)
    \<and> queues r2 300 = Some q
    \<and> schedule (\<lambda>t. 0) (s\<lparr>que := q\<rparr>) [Turn 1, Turn 1, Turn 1, Turn 1] = Some (s2, [])
    \<and> content r2 5 = Some [msg_ex 9] \<and> uxMessagesWaiting (que s2) = 1
    \<and> xTasksWaitingToReceive (que s2) = [1] \<and> \<not> (\<exists>t. pc s2 t \<noteq> Idle \<and> can_run s2 t)"
  by (simp add: sema_sys_def byte_sys_def sema_queue_def wake_root_def box_queue_def run_defs Let_def
      RtlMailboxSendToBack_def mbox_send_def RtlMBoxIdToHdl_def mbox_sent_def RtlUpSema_def msg_ex_def
      content_def mbox_queue_def items_def slot_def rdx_def)


end
