(* ===== verification/Klist.thy ===== *)
theory Klist
  imports Prelude
begin

text \<open>
  The lists of the kernel (\<open>list.c\<close>, \<open>list.h\<close>): rings of items linked in both directions, with an end
  marker of the largest value, an index that walks the ring and a count. The lists and the items of a
  system are named by types; a node of a ring is the end marker of a list or an item, and the fields of the
  nodes are functions on them. Memory that the lists do not own is not touched, so nothing else of it is kept.
  The theorems say what each operation does to the \<^emph>\<open>line\<close> of a list: its items in the order in which
  \<open>listGET_OWNER_OF_NEXT_ENTRY\<close> returns them.
\<close>

section \<open>The structures\<close>

datatype ('l, 'i) node = End 'l | Item 'i

record ('l, 'i) kmem =
  xItemValue :: "('l, 'i) node \<Rightarrow> 32 word"
  pxNext :: "('l, 'i) node \<Rightarrow> ('l, 'i) node"
  pxPrevious :: "('l, 'i) node \<Rightarrow> ('l, 'i) node"
  pvContainer :: "'i \<Rightarrow> 'l option"
  pxIndex :: "'l \<Rightarrow> ('l, 'i) node"
  uxNumberOfItems :: "'l \<Rightarrow> 32 word"

abbreviation portMAX_DELAY :: "32 word" where "portMAX_DELAY \<equiv> 0xffffffff"

section \<open>The operations\<close>

definition vListInitialise :: "'l \<Rightarrow> ('l, 'i) kmem \<Rightarrow> ('l, 'i) kmem" where
  "vListInitialise l m =
     m\<lparr>pxIndex := (pxIndex m)(l := End l),
       xItemValue := (xItemValue m)(End l := portMAX_DELAY),
       pxNext := (pxNext m)(End l := End l),
       pxPrevious := (pxPrevious m)(End l := End l),
       uxNumberOfItems := (uxNumberOfItems m)(l := 0)\<rparr>"

definition vListInitialiseItem :: "'i \<Rightarrow> ('l, 'i) kmem \<Rightarrow> ('l, 'i) kmem" where
  "vListInitialiseItem i m = m\<lparr>pvContainer := (pvContainer m)(i := None)\<rparr>"

definition listSET_LIST_ITEM_VALUE :: "'i \<Rightarrow> 32 word \<Rightarrow> ('l, 'i) kmem \<Rightarrow> ('l, 'i) kmem" where
  "listSET_LIST_ITEM_VALUE i v m = m\<lparr>xItemValue := (xItemValue m)(Item i := v)\<rparr>"

definition listLIST_IS_EMPTY :: "'l \<Rightarrow> ('l, 'i) kmem \<Rightarrow> bool" where
  "listLIST_IS_EMPTY l m \<longleftrightarrow> uxNumberOfItems m l = 0"

definition listIS_CONTAINED_WITHIN :: "'l option \<Rightarrow> 'i \<Rightarrow> ('l, 'i) kmem \<Rightarrow> bool" where
  "listIS_CONTAINED_WITHIN l i m \<longleftrightarrow> pvContainer m i = l"

definition vListInsertEnd :: "'l \<Rightarrow> 'i \<Rightarrow> ('l, 'i) kmem \<Rightarrow> ('l, 'i) kmem" where
  "vListInsertEnd l i m =
     (let index = pxIndex m l;
          m = m\<lparr>pxNext := (pxNext m)(Item i := index)\<rparr>;
          m = m\<lparr>pxPrevious := (pxPrevious m)(Item i := pxPrevious m index)\<rparr>;
          m = m\<lparr>pxNext := (pxNext m)(pxPrevious m index := Item i)\<rparr>;
          m = m\<lparr>pxPrevious := (pxPrevious m)(index := Item i)\<rparr>;
          m = m\<lparr>pvContainer := (pvContainer m)(i := Some l)\<rparr>
      in m\<lparr>uxNumberOfItems := (uxNumberOfItems m)(l := uxNumberOfItems m l + 1)\<rparr>)"

text \<open>The loop of \<open>vListInsert\<close> goes on for ever when no value is larger.\<close>

partial_function (option) insert_position ::
    "('l, 'i) kmem \<Rightarrow> 32 word \<Rightarrow> ('l, 'i) node \<Rightarrow> ('l, 'i) node option" where
  "insert_position m v iterator =
     (if xItemValue m (pxNext m iterator) \<le> v then insert_position m v (pxNext m iterator) else Some iterator)"

definition link_after :: "('l, 'i) node \<Rightarrow> 'l \<Rightarrow> 'i \<Rightarrow> ('l, 'i) kmem \<Rightarrow> ('l, 'i) kmem" where
  "link_after iterator l i m =
     (let m = m\<lparr>pxNext := (pxNext m)(Item i := pxNext m iterator)\<rparr>;
          m = m\<lparr>pxPrevious := (pxPrevious m)(pxNext m (Item i) := Item i)\<rparr>;
          m = m\<lparr>pxPrevious := (pxPrevious m)(Item i := iterator)\<rparr>;
          m = m\<lparr>pxNext := (pxNext m)(iterator := Item i)\<rparr>;
          m = m\<lparr>pvContainer := (pvContainer m)(i := Some l)\<rparr>
      in m\<lparr>uxNumberOfItems := (uxNumberOfItems m)(l := uxNumberOfItems m l + 1)\<rparr>)"

definition vListInsert :: "'l \<Rightarrow> 'i \<Rightarrow> ('l, 'i) kmem \<Rightarrow> ('l, 'i) kmem option" where
  "vListInsert l i m =
     (let v = xItemValue m (Item i) in
      do {
        iterator \<leftarrow> (if v = portMAX_DELAY then Some (pxPrevious m (End l)) else insert_position m v (End l));
        Some (link_after iterator l i m)
      })"

text \<open>The result is the number of items left. An item that is on no list has no list to count down.\<close>

definition uxListRemove :: "'i \<Rightarrow> ('l, 'i) kmem \<Rightarrow> (32 word \<times> ('l, 'i) kmem) option" where
  "uxListRemove i m =
     do {
       l \<leftarrow> pvContainer m i;
       let m = m\<lparr>pxPrevious := (pxPrevious m)(pxNext m (Item i) := pxPrevious m (Item i))\<rparr>;
       let m = m\<lparr>pxNext := (pxNext m)(pxPrevious m (Item i) := pxNext m (Item i))\<rparr>;
       let m = (if pxIndex m l = Item i then m\<lparr>pxIndex := (pxIndex m)(l := pxPrevious m (Item i))\<rparr> else m);
       let m = m\<lparr>pvContainer := (pvContainer m)(i := None)\<rparr>;
       let m = m\<lparr>uxNumberOfItems := (uxNumberOfItems m)(l := uxNumberOfItems m l - 1)\<rparr>;
       Some (uxNumberOfItems m l, m)
     }"

text \<open>The owner of an item is read from the item; the end marker has none.\<close>

fun pvOwner :: "('l, 'i) node \<Rightarrow> 'i option" where
  "pvOwner (Item i) = Some i"
| "pvOwner (End l) = None"

definition listGET_OWNER_OF_HEAD_ENTRY :: "'l \<Rightarrow> ('l, 'i) kmem \<Rightarrow> 'i option" where
  "listGET_OWNER_OF_HEAD_ENTRY l m = pvOwner (pxNext m (End l))"

definition listGET_OWNER_OF_NEXT_ENTRY :: "'l \<Rightarrow> ('l, 'i) kmem \<Rightarrow> ('i \<times> ('l, 'i) kmem) option" where
  "listGET_OWNER_OF_NEXT_ENTRY l m =
     (let m = m\<lparr>pxIndex := (pxIndex m)(l := pxNext m (pxIndex m l))\<rparr>;
          m = (if pxIndex m l = End l then m\<lparr>pxIndex := (pxIndex m)(l := pxNext m (pxIndex m l))\<rparr> else m)
      in map_option (\<lambda>i. (i, m)) (pvOwner (pxIndex m l)))"

section \<open>Rings\<close>

fun items_of :: "('l, 'i) node list \<Rightarrow> 'i list" where
  "items_of [] = []"
| "items_of (Item i # ns) = i # items_of ns"
| "items_of (End l # ns) = items_of ns"

lemma items_of_append [simp]: "items_of (ns @ ms) = items_of ns @ items_of ms"
  by (induction ns rule: items_of.induct) auto

lemma items_of_map [simp]: "items_of (map Item is) = is"
  by (induction "is") auto

lemma set_items_of: "i \<in> set (items_of ns) \<longleftrightarrow> Item i \<in> set ns"
  by (induction ns rule: items_of.induct) auto

lemma distinct_items_of: "distinct ns \<Longrightarrow> distinct (items_of ns)"
  by (induction ns rule: items_of.induct) (auto simp: set_items_of)

lemma items_of_remove: "distinct ns \<Longrightarrow> items_of (remove1 (Item i) ns) = remove1 i (items_of ns)"
  by (induction ns rule: items_of.induct) auto

text \<open>The walk along the ring, and the line of a list.\<close>

fun walk :: "(('l, 'i) node \<Rightarrow> ('l, 'i) node) \<Rightarrow> nat \<Rightarrow> ('l, 'i) node \<Rightarrow> ('l, 'i) node list" where
  "walk nx 0 a = []"
| "walk nx (Suc n) a = nx a # walk nx n (nx a)"

definition line :: "('l, 'i) kmem \<Rightarrow> 'l \<Rightarrow> 'i list" where
  "line m l = items_of (walk (pxNext m) (Suc (unat (uxNumberOfItems m l))) (pxIndex m l))"

fun linked :: "(('l, 'i) node \<Rightarrow> ('l, 'i) node) \<Rightarrow> (('l, 'i) node \<Rightarrow> ('l, 'i) node)
    \<Rightarrow> ('l, 'i) node \<Rightarrow> ('l, 'i) node list \<Rightarrow> ('l, 'i) node \<Rightarrow> bool" where
  "linked nx pv a [] b \<longleftrightarrow> nx a = b \<and> pv b = a"
| "linked nx pv a (n # ns) b \<longleftrightarrow> nx a = n \<and> pv n = a \<and> linked nx pv n ns b"

text \<open>A list whose ring is the index followed by \<open>ns\<close>.\<close>

definition ring :: "('l, 'i) kmem \<Rightarrow> 'l \<Rightarrow> ('l, 'i) node list \<Rightarrow> bool" where
  "ring m l ns \<longleftrightarrow>
     linked (pxNext m) (pxPrevious m) (pxIndex m l) ns (pxIndex m l) \<and>
     distinct (pxIndex m l # ns) \<and>
     set (pxIndex m l # ns) = insert (End l) (Item ` {i. pvContainer m i = Some l})"

definition list_ok :: "('l, 'i) kmem \<Rightarrow> 'l \<Rightarrow> bool" where
  "list_ok m l \<longleftrightarrow>
     (\<exists>ns. ring m l ns \<and> length ns < 2 ^ 32 \<and> uxNumberOfItems m l = word_of_nat (length ns)) \<and>
     xItemValue m (End l) = portMAX_DELAY"

definition lists_ok :: "('l, 'i) kmem \<Rightarrow> bool" where
  "lists_ok m \<longleftrightarrow> (\<forall>l. list_ok m l)"

lemma linked_append [simp]:
  "linked nx pv a (ns @ n # ms) b \<longleftrightarrow> linked nx pv a ns n \<and> linked nx pv n ms b"
  by (induction ns arbitrary: a) auto

lemma linked_cong:
  assumes "nx' a = nx a" "pv' b = pv b" "\<And>n. n \<in> set ns \<Longrightarrow> nx' n = nx n \<and> pv' n = pv n"
  shows "linked nx' pv' a ns b = linked nx pv a ns b"
  using assms by (induction ns arbitrary: a) auto

lemma linked_change:
  assumes "linked nx pv a ns b"
    "nx' a = nx a" "pv' b = pv b" "\<And>n. n \<in> set ns \<Longrightarrow> nx' n = nx n \<and> pv' n = pv n"
  shows "linked nx' pv' a ns b"
  using linked_cong[of nx' a nx pv' b pv ns] assms by blast

lemma linked_next: "linked nx pv a ns b \<Longrightarrow> nx a = hd (ns @ [b])"
  by (cases ns) auto

lemma linked_previous: "linked nx pv a ns b \<Longrightarrow> pv b = last (a # ns)"
  by (induction ns arbitrary: a) auto

lemma walk_linked: "linked nx pv a ns b \<Longrightarrow> walk nx (Suc (length ns)) a = ns @ [b]"
  by (induction ns arbitrary: a) auto

lemma line_ring:
  assumes "ring m l ns" "length ns < 2 ^ 32" "uxNumberOfItems m l = word_of_nat (length ns)"
  shows "line m l = items_of (ns @ [pxIndex m l])"
proof -
  have "unat (uxNumberOfItems m l) = length ns"
    using assms(2,3) by (simp add: unsigned_of_nat take_bit_nat_eq_self)
  moreover have "walk (pxNext m) (Suc (length ns)) (pxIndex m l) = ns @ [pxIndex m l]"
    using assms(1) by (auto simp: ring_def intro: walk_linked simp del: walk.simps)
  ultimately show ?thesis by (simp only: line_def)
qed

lemma linked_rotate: "linked nx pv a (xs @ n # ys) a \<longleftrightarrow> linked nx pv n (ys @ a # xs) n"
  by auto

lemma linked_insert:
  assumes "linked nx pv a (xs @ ys) b" "it = last (a # xs)" "new \<notin> set (a # b # xs @ ys)"
    "distinct (a # xs @ ys)" "b \<notin> set (xs @ ys)"
  shows "linked (nx(new := nx it, it := new)) (pv(nx it := new, new := it)) a (xs @ new # ys) b"
proof -
  let ?nx = "nx(new := nx it, it := new)" and ?pv = "pv(nx it := new, new := it)"
  have l: "linked nx pv it ys b" using assms(1,2) by (cases xs rule: rev_cases) simp_all
  have q: "nx it = hd (ys @ [b])" using linked_next[OF l] .
  have it: "it \<in> set (a # xs)" using assms(2) by (simp only: last_in_set list.distinct simp_thms)
  have "nx it \<in> set (ys @ [b])" using q by (cases ys) auto
  then have it2: "it \<noteq> new" "nx it \<noteq> new" using assms(3) it by auto
  have tail: "linked ?nx ?pv new ys b"
  proof (cases ys)
    case Nil
    then show ?thesis using q it2 by simp
  next
    case (Cons y zs)
    have l': "linked nx pv y zs b" and q': "nx it = y" using l q Cons by simp_all
    have "it \<notin> set (y # zs)" "y \<notin> set zs" "y \<noteq> b" "new \<notin> set (b # y # zs)"
      using assms(3-5) it(1) Cons by auto
    then have "linked ?nx ?pv y zs b" unfolding q'
      by (intro linked_change[OF l']) auto
    then show ?thesis using q it2 Cons by simp
  qed
  show ?thesis
  proof (cases xs rule: rev_cases)
    case Nil
    then show ?thesis using tail assms(2) it2 by simp
  next
    case (snoc us u)
    have u: "u = it" using assms(2) snoc by simp
    have l': "linked nx pv a us it" using assms(1) snoc u by simp
    have "it \<notin> set (a # us)" "new \<notin> set (it # a # us)" using assms(3,4) u snoc by auto
    moreover have "nx it \<notin> set (us @ [it])" using assms(4,5) u snoc q by (cases ys) auto
    ultimately have "linked ?nx ?pv a us it"
      by (intro linked_change[OF l']) auto
    then show ?thesis using tail it2 u snoc by simp
  qed
qed

lemma linked_remove:
  assumes "linked nx pv a (xs @ n # ys) b" "distinct (a # xs @ n # ys)" "b \<notin> set (xs @ n # ys)"
  shows "linked (nx(pv n := nx n)) (pv(nx n := pv n)) a (xs @ ys) b"
proof -
  let ?nx = "nx(pv n := nx n)" and ?pv = "pv(nx n := pv n)"
  have l: "linked nx pv a xs n" "linked nx pv n ys b" using assms(1) by simp_all
  have p: "pv n = last (a # xs)" and q: "nx n = hd (ys @ [b])"
    using linked_previous[OF l(1)] linked_next[OF l(2)] by simp_all
  have tail: "linked ?nx ?pv u ys b" if u: "?nx u = nx n" "?pv (nx n) = u" "pv n = u" for u
  proof (cases ys)
    case Nil
    then show ?thesis using u q by simp
  next
    case (Cons y zs)
    have l': "linked nx pv y zs b" and q': "nx n = y" using l(2) q Cons by simp_all
    have "u \<in> set (a # xs)" using p u(3) by (simp only: last_in_set list.distinct simp_thms)
    then have "u \<notin> set (y # zs)" "y \<notin> set zs" "y \<noteq> b" using assms(2,3) Cons by auto
    then have "linked ?nx ?pv y zs b" unfolding q' u(3)
      by (intro linked_change[OF l']) auto
    then show ?thesis using u q Cons by simp
  qed
  show ?thesis
  proof (cases xs rule: rev_cases)
    case Nil
    then show ?thesis using tail[of a] p by simp
  next
    case (snoc us u)
    have l': "linked nx pv a us u" and p': "pv n = u" using l(1) p snoc by simp_all
    have "u \<notin> set (a # us)" using assms(2) snoc by auto
    moreover have "nx n \<notin> set (us @ [u])" using assms(2,3) snoc q by (cases ys) auto
    ultimately have "linked ?nx ?pv a us u" unfolding p'
      by (intro linked_change[OF l']) auto
    then show ?thesis using tail[of u] p snoc by simp
  qed
qed

definition nodes :: "('l, 'i) kmem \<Rightarrow> 'l \<Rightarrow> ('l, 'i) node set" where
  "nodes m l = insert (End l) (Item ` {i. pvContainer m i = Some l})"

lemma ring_nodes: "ring m l ns \<Longrightarrow> set (pxIndex m l # ns) = nodes m l"
  by (simp add: ring_def nodes_def)

lemma nodes_apart: "l' \<noteq> l \<Longrightarrow> nodes m l' \<inter> nodes m l = {}"
  by (auto simp: nodes_def)

lemma ring_closed:
  assumes "ring m l ns" "n \<in> nodes m l"
  shows "pxNext m n \<in> nodes m l" "pxPrevious m n \<in> nodes m l"
proof -
  let ?a = "pxIndex m l"
  have l: "linked (pxNext m) (pxPrevious m) ?a ns ?a" and s: "set (?a # ns) = nodes m l"
    using assms(1) ring_nodes[OF assms(1)] by (simp_all add: ring_def)
  have "\<exists>xs. linked (pxNext m) (pxPrevious m) n xs n \<and> set xs \<subseteq> nodes m l"
  proof (cases "n = ?a")
    case True
    then show ?thesis using l s by auto
  next
    case False
    then obtain xs ys where "ns = xs @ n # ys" using assms(2) s by (metis set_ConsD split_list)
    then have "linked (pxNext m) (pxPrevious m) n (ys @ ?a # xs) n \<and> set (ys @ ?a # xs) \<subseteq> nodes m l"
      using l s by auto
    then show ?thesis by blast
  qed
  then obtain xs where xs: "linked (pxNext m) (pxPrevious m) n xs n" "set xs \<subseteq> nodes m l" by blast
  show "pxNext m n \<in> nodes m l"
    using linked_next[OF xs(1)] xs(2) assms(2) by (cases xs) auto
  show "pxPrevious m n \<in> nodes m l"
    using linked_previous[OF xs(1)] xs(2) assms(2) by (cases xs rule: rev_cases) auto
qed

lemma list_okE:
  assumes "list_ok m l"
  obtains ns where "ring m l ns" "length ns < 2 ^ 32" "uxNumberOfItems m l = word_of_nat (length ns)"
    "line m l = items_of (ns @ [pxIndex m l])" "xItemValue m (End l) = portMAX_DELAY"
proof -
  obtain ns where ns: "ring m l ns" "length ns < 2 ^ 32" "uxNumberOfItems m l = word_of_nat (length ns)"
    using assms unfolding list_ok_def by blast
  show ?thesis using that[OF ns line_ring[OF ns]] assms unfolding list_ok_def by blast
qed

lemma ring_length: "ring m l ns \<Longrightarrow> length (items_of (ns @ [pxIndex m l])) = length ns"
proof -
  assume r: "ring m l ns"
  let ?ns = "ns @ [pxIndex m l]" and ?I = "{i. pvContainer m i = Some l}"
  have s: "set ?ns = insert (End l) (Item ` ?I)" and d: "distinct ?ns"
    using r by (simp_all add: ring_def)
  have i: "set (items_of ?ns) = ?I"
    unfolding set_eq_iff set_items_of s by auto
  then have f: "finite ?I" by (metis List.finite_set)
  have "Suc (length ns) = card (insert (End l) (Item ` ?I))"
    using distinct_card[OF d] s by simp
  also have "\<dots> = Suc (card (Item ` ?I :: ('a, 'b) node set))"
    using f by (subst card_insert_disjoint) auto
  also have "card (Item ` ?I :: ('a, 'b) node set) = card ?I"
    by (intro card_image inj_onI) simp
  also have "card ?I = length (items_of ?ns)"
    using distinct_card[OF distinct_items_of[OF d]] unfolding i by simp
  finally show ?thesis by (simp del: items_of_append)
qed

lemma line_facts:
  assumes "list_ok m l"
  shows set_line: "set (line m l) = {i. pvContainer m i = Some l}"
    and distinct_line: "distinct (line m l)"
    and length_line: "length (line m l) = unat (uxNumberOfItems m l)"
    and empty_line: "listLIST_IS_EMPTY l m \<longleftrightarrow> line m l = []"
proof -
  obtain ns where ns: "ring m l ns" "length ns < 2 ^ 32" "uxNumberOfItems m l = word_of_nat (length ns)"
    "line m l = items_of (ns @ [pxIndex m l])" using assms by (rule list_okE)
  show "set (line m l) = {i. pvContainer m i = Some l}"
  proof -
    have "set (ns @ [pxIndex m l]) = nodes m l" using ring_nodes[OF ns(1)] by simp
    then show ?thesis unfolding ns(4) set_eq_iff set_items_of nodes_def by auto
  qed
  show "distinct (line m l)"
    using ns(1) unfolding ns(4) by (intro distinct_items_of) (auto simp: ring_def)
  show len: "length (line m l) = unat (uxNumberOfItems m l)"
    using ring_length[OF ns(1)] ns(2-4) by (simp add: unsigned_of_nat take_bit_nat_eq_self)
  have "unat (uxNumberOfItems m l) = 0 \<longleftrightarrow> uxNumberOfItems m l = 0" by (simp add: unsigned_eq_0_iff)
  then show "listLIST_IS_EMPTY l m \<longleftrightarrow> line m l = []"
    unfolding listLIST_IS_EMPTY_def len[symmetric] by simp
qed

lemma list_okI:
  assumes "ring m l ns" "length ns < 2 ^ 32" "uxNumberOfItems m l = word_of_nat (length ns)"
    "xItemValue m (End l) = portMAX_DELAY"
  shows "list_ok m l" "line m l = items_of (ns @ [pxIndex m l])"
  subgoal using assms unfolding list_ok_def by blast
  subgoal by (rule line_ring[OF assms(1-3)])
  done

text \<open>A list that an operation on another list leaves alone.\<close>

lemma list_frame:
  assumes "list_ok m l" "pxIndex m' l = pxIndex m l" "uxNumberOfItems m' l = uxNumberOfItems m l"
    "xItemValue m' (End l) = xItemValue m (End l)"
    "\<And>i. pvContainer m' i = Some l \<longleftrightarrow> pvContainer m i = Some l"
    "\<And>n. n \<in> nodes m l \<Longrightarrow> pxNext m' n = pxNext m n \<and> pxPrevious m' n = pxPrevious m n"
  shows "list_ok m' l" "line m' l = line m l"
proof -
  obtain ns where ns: "ring m l ns" "length ns < 2 ^ 32" "uxNumberOfItems m l = word_of_nat (length ns)"
    "line m l = items_of (ns @ [pxIndex m l])" "xItemValue m (End l) = portMAX_DELAY"
    using assms(1) by (rule list_okE)
  have "linked (pxNext m') (pxPrevious m') (pxIndex m l) ns (pxIndex m l)"
    by (rule linked_change[of "pxNext m" "pxPrevious m"])
      (use ns(1) assms(6) ring_nodes[OF ns(1)] in \<open>auto simp: ring_def\<close>)
  then have r: "ring m' l ns" using ns(1) assms(2,5) by (simp add: ring_def)
  show "list_ok m' l" "line m' l = line m l"
    using list_okI[OF r] ns assms(2-4) by auto
qed

lemma lists_okD: "lists_ok m \<Longrightarrow> list_ok m l"
  by (simp add: lists_ok_def)

lemma lists_change:
  assumes "lists_ok m" "list_ok m' l" "line m' l = q"
    "\<And>k. k \<noteq> l \<Longrightarrow> pxIndex m' k = pxIndex m k \<and> uxNumberOfItems m' k = uxNumberOfItems m k"
    "\<And>k. k \<noteq> l \<Longrightarrow> xItemValue m' (End k) = xItemValue m (End k)"
    "\<And>k i. k \<noteq> l \<Longrightarrow> pvContainer m' i = Some k \<longleftrightarrow> pvContainer m i = Some k"
    "\<And>n. n \<notin> nodes m' l \<union> nodes m l \<Longrightarrow> pxNext m' n = pxNext m n \<and> pxPrevious m' n = pxPrevious m n"
  shows "lists_ok m'" "line m' = (line m)(l := q)"
proof -
  have k: "list_ok m' k \<and> line m' k = line m k" if "k \<noteq> l" for k
  proof -
    have "nodes m' k = nodes m k" using assms(6)[OF that] by (simp add: nodes_def)
    then have "n \<notin> nodes m' l \<union> nodes m l" if "n \<in> nodes m k" for n
      using that nodes_apart[OF \<open>k \<noteq> l\<close>, of m'] nodes_apart[OF \<open>k \<noteq> l\<close>, of m] by auto
    then show ?thesis
      using list_frame[OF lists_okD[OF assms(1), of k], of m'] that assms(4-7) by blast
  qed
  show "lists_ok m'" unfolding lists_ok_def using k assms(2) by metis
  show "line m' = (line m)(l := q)" using k assms(3) by auto
qed

section \<open>What the operations do to the lines\<close>

lemma vListInsertEnd_fields [simp]:
  "pvContainer (vListInsertEnd l i m) = (pvContainer m)(i := Some l)"
  "xItemValue (vListInsertEnd l i m) = xItemValue m"
  "pxIndex (vListInsertEnd l i m) = pxIndex m"
  by (simp_all add: vListInsertEnd_def Let_def)

lemma link_after_fields [simp]:
  "pvContainer (link_after n l i m) = (pvContainer m)(i := Some l)"
  "xItemValue (link_after n l i m) = xItemValue m"
  "pxIndex (link_after n l i m) = pxIndex m"
  by (simp_all add: link_after_def Let_def)

text \<open>Both insertions link the item in after a node of the ring.\<close>

lemma link_after_ring:
  assumes "lists_ok m" "pvContainer m i = None" "Suc (length (line m l)) < 2 ^ 32"
    and r: "ring m l (xs @ ys)" and it: "n = last (pxIndex m l # xs)"
    and m': "pxNext m' = (pxNext m)(Item i := pxNext m n, n := Item i)"
      "pxPrevious m' = (pxPrevious m)(pxNext m n := Item i, Item i := n)"
      "pvContainer m' = (pvContainer m)(i := Some l)" "xItemValue m' = xItemValue m" "pxIndex m' = pxIndex m"
      "uxNumberOfItems m' = (uxNumberOfItems m)(l := uxNumberOfItems m l + 1)"
  shows "lists_ok m'" "line m' = (line m)(l := items_of (xs @ Item i # ys @ [pxIndex m l]))"
proof -
  obtain ns where ns: "ring m l ns" "length ns < 2 ^ 32" "uxNumberOfItems m l = word_of_nat (length ns)"
    "line m l = items_of (ns @ [pxIndex m l])" "xItemValue m (End l) = portMAX_DELAY"
    using lists_okD[OF assms(1)] by (rule list_okE)
  have len: "length (xs @ ys) = length (line m l)"
  proof -
    have "card (set (pxIndex m l # xs @ ys)) = card (set (pxIndex m l # ns))"
      unfolding ring_nodes[OF r] ring_nodes[OF ns(1)] ..
    then have "length (xs @ ys) = length ns"
      using r ns(1) by (metis distinct_card length_Cons nat.inject ring_def)
    then show ?thesis using ring_length[OF ns(1)] ns(4) by simp
  qed
  have i: "Item i \<notin> nodes m l" using assms(2) by (auto simp: nodes_def)
  have l: "linked (pxNext m) (pxPrevious m) (pxIndex m l) (xs @ ys) (pxIndex m l)"
    "distinct (pxIndex m l # xs @ ys)" "set (pxIndex m l # xs @ ys) = nodes m l"
    using r ring_nodes[OF r] by (simp_all add: ring_def)
  have r': "ring m' l (xs @ Item i # ys)"
    unfolding ring_def m'(5)
  proof (intro conjI)
    show "linked (pxNext m') (pxPrevious m') (pxIndex m l) (xs @ Item i # ys) (pxIndex m l)"
      unfolding m'(1,2) by (rule linked_insert[OF l(1) it]) (use i l in auto)
    show "distinct (pxIndex m l # xs @ Item i # ys)" using l(2,3) i by auto
    show "set (pxIndex m l # xs @ Item i # ys) = insert (End l) (Item ` {j. pvContainer m' j = Some l})"
      using l(3) unfolding m'(3) by (auto simp: nodes_def)
  qed
  have c: "uxNumberOfItems m' l = word_of_nat (length (xs @ Item i # ys))"
    unfolding m'(6) using ns(3) ring_length[OF ns(1)] ns(4) len by simp
  have ok: "list_ok m' l" and li: "line m' l = items_of (xs @ Item i # ys @ [pxIndex m l])"
    using list_okI[OF r' _ c] len assms(3) ns(5) m'(4,5) by simp_all
  have n: "n \<in> nodes m l" using it l(3) by (metis last_in_set list.distinct(1) set_append Un_iff append_Cons)
  then have n': "pxNext m n \<in> nodes m l" using ring_closed(1)[OF r] by blast
  have out: "pxNext m' k = pxNext m k \<and> pxPrevious m' k = pxPrevious m k" if "k \<notin> nodes m' l \<union> nodes m l" for k
    using that n n' unfolding m'(1,2) by (auto simp: nodes_def m'(3))
  show "lists_ok m'" "line m' = (line m)(l := items_of (xs @ Item i # ys @ [pxIndex m l]))"
    using lists_change[OF assms(1) ok li _ _ _ out] assms(2) m'(3-6) by auto
qed

text \<open>\<open>vListInsertEnd\<close> puts the item behind all others but the one returned last.\<close>

definition joined :: "('l, 'i) kmem \<Rightarrow> 'l \<Rightarrow> 'i \<Rightarrow> 'i list" where
  "joined m l i = (case pxIndex m l of End k \<Rightarrow> line m l @ [i] | Item j \<Rightarrow> butlast (line m l) @ [i, j])"

lemma vListInsertEnd_line:
  assumes "lists_ok m" "pvContainer m i = None" "Suc (length (line m l)) < 2 ^ 32"
  shows "lists_ok (vListInsertEnd l i m)"
    "line (vListInsertEnd l i m) = (line m)(l := joined m l i)"
proof -
  let ?m = "vListInsertEnd l i m"
  obtain ns where ns: "ring m l ns" "length ns < 2 ^ 32" "uxNumberOfItems m l = word_of_nat (length ns)"
    "line m l = items_of (ns @ [pxIndex m l])" "xItemValue m (End l) = portMAX_DELAY"
    using lists_okD[OF assms(1)] by (rule list_okE)
  let ?n = "last (pxIndex m l # ns)"
  have l: "linked (pxNext m) (pxPrevious m) (pxIndex m l) ns (pxIndex m l)"
    "set (pxIndex m l # ns) = nodes m l"
    using ns(1) ring_nodes[OF ns(1)] by (simp_all add: ring_def)
  have p: "pxPrevious m (pxIndex m l) = ?n" using linked_previous[OF l(1)] .
  have q: "pxNext m ?n = pxIndex m l"
    using l(1) by (cases ns rule: rev_cases) auto
  have "pxIndex m l \<in> nodes m l" using l(2) by auto
  then have i: "Item i \<noteq> pxIndex m l" using assms(2) by (auto simp: nodes_def)
  have f: "pxNext ?m = (pxNext m)(Item i := pxNext m ?n, ?n := Item i)"
      "pxPrevious ?m = (pxPrevious m)(pxNext m ?n := Item i, Item i := ?n)"
      "uxNumberOfItems ?m = (uxNumberOfItems m)(l := uxNumberOfItems m l + 1)"
    unfolding q using i by (simp_all add: vListInsertEnd_def Let_def p fun_upd_twist del: last.simps)
  have "joined m l i = items_of (ns @ Item i # [] @ [pxIndex m l])"
    unfolding joined_def ns(4) by (cases "pxIndex m l") (simp_all add: butlast_append)
  then show "lists_ok ?m" "line ?m = (line m)(l := joined m l i)"
    using link_after_ring[OF assms(1-3), of ns "[]" ?n ?m] ns(1) f by simp_all
qed


text \<open>\<open>vListInsert\<close> keeps the order of the values; it is used on lists whose index does not move.\<close>

definition inserted :: "('l, 'i) kmem \<Rightarrow> 'l \<Rightarrow> 'i \<Rightarrow> 'i list" where
  "inserted m l i = (let p = (\<lambda>j. xItemValue m (Item j) \<le> xItemValue m (Item i))
     in takeWhile p (line m l) @ i # dropWhile p (line m l))"

lemma max_delay_ge [simp]: "v \<le> portMAX_DELAY"
  using unsigned_less[of v, where 'a=nat] by (simp add: word_le_nat_alt)

lemma insert_position_linked:
  assumes "linked (pxNext m) pv a (map Item q) (End l)" "v < xItemValue m (End l)"
  shows "insert_position m v a = Some (last (a # map Item (takeWhile (\<lambda>j. xItemValue m (Item j) \<le> v) q)))"
  using assms(1)
proof (induction q arbitrary: a)
  case Nil
  then show ?case using assms(2) by (subst insert_position.simps) auto
next
  case (Cons j q)
  then show ?case by (subst insert_position.simps) auto
qed

lemma ring_end:
  assumes "ring m l ns" "pxIndex m l = End l"
  shows "ns = map Item (items_of ns)"
proof -
  have "End l \<notin> set ns" "insert (End l) (set ns) = insert (End l) (Item ` {i. pvContainer m i = Some l})"
    using assms by (simp_all add: ring_def)
  then have "set ns = Item ` {i. pvContainer m i = Some l}"
    using insert_ident[of "End l" "set ns" "Item ` {i. pvContainer m i = Some l}"] by auto
  then have "set ns \<subseteq> range Item" by blast
  then show ?thesis by (induction ns rule: items_of.induct) auto
qed

lemma vListInsert_line:
  assumes "lists_ok m" "pvContainer m i = None" "Suc (length (line m l)) < 2 ^ 32" "pxIndex m l = End l"
  obtains m' where "vListInsert l i m = Some m'" "lists_ok m'" "line m' = (line m)(l := inserted m l i)"
    "pvContainer m' = (pvContainer m)(i := Some l)" "xItemValue m' = xItemValue m" "pxIndex m' = pxIndex m"
proof -
  obtain ns where ns: "ring m l ns" "length ns < 2 ^ 32" "uxNumberOfItems m l = word_of_nat (length ns)"
    "line m l = items_of (ns @ [pxIndex m l])" "xItemValue m (End l) = portMAX_DELAY"
    using lists_okD[OF assms(1)] by (rule list_okE)
  let ?p = "\<lambda>j. xItemValue m (Item j) \<le> xItemValue m (Item i)"
  let ?xs = "takeWhile ?p (line m l)" and ?ys = "dropWhile ?p (line m l)"
  let ?n = "last (End l # map Item ?xs)"
  have q: "ns = map Item (line m l)" using ring_end[OF ns(1) assms(4)] ns(4) assms(4) by simp
  have split: "map Item ?xs @ map Item ?ys = map Item (line m l)"
    by (metis map_append takeWhile_dropWhile_id)
  have l: "linked (pxNext m) (pxPrevious m) (End l) (map Item (line m l)) (End l)"
    using ns(1) q assms(4) by (simp add: ring_def)
  have all: "?xs = line m l" if "xItemValue m (Item i) = portMAX_DELAY"
    using that by (simp only: takeWhile_eq_all_conv max_delay_ge simp_thms ball_triv)
  have it: "(if xItemValue m (Item i) = portMAX_DELAY then Some (pxPrevious m (End l))
      else insert_position m (xItemValue m (Item i)) (End l)) = Some ?n"
  proof (cases "xItemValue m (Item i) = portMAX_DELAY")
    case True
    then show ?thesis using linked_previous[OF l] unfolding all[OF True] by (simp add: True)
  next
    case False
    then have "xItemValue m (Item i) < xItemValue m (End l)"
      using ns(5) max_delay_ge[of "xItemValue m (Item i)"] by (metis order_le_less)
    then show ?thesis using insert_position_linked[OF l] False by simp
  qed
  let ?m = "link_after ?n l i m"
  have n: "?n \<in> nodes m l" 
    using set_takeWhileD[of _ ?p "line m l"] set_line[OF lists_okD[OF assms(1)], of l]
    by (cases ?xs rule: rev_cases) (auto simp: nodes_def)
  then have n': "?n \<noteq> Item i" "pxNext m ?n \<noteq> Item i"
    using assms(2) ring_closed(1)[OF ns(1) n] by (auto simp: nodes_def)
  have r: "ring m l (map Item ?xs @ map Item ?ys)" using ns(1) unfolding split q[symmetric] .
  have f: "pxNext ?m = (pxNext m)(Item i := pxNext m ?n, ?n := Item i)"
      "pxPrevious ?m = (pxPrevious m)(pxNext m ?n := Item i, Item i := ?n)"
      "uxNumberOfItems ?m = (uxNumberOfItems m)(l := uxNumberOfItems m l + 1)"
    using n' by (simp_all add: link_after_def Let_def del: last.simps)
  have "items_of (map Item ?xs @ Item i # map Item ?ys @ [pxIndex m l]) = inserted m l i"
    unfolding inserted_def Let_def assms(4) by simp
  then have "lists_ok ?m" "line ?m = (line m)(l := inserted m l i)"
    using link_after_ring[OF assms(1-3) r, of ?n ?m] f assms(4) by simp_all
  moreover have "vListInsert l i m = Some ?m"
    unfolding vListInsert_def Let_def it by simp
  ultimately show ?thesis using that[of ?m] by simp
qed

lemma butlast_not_last: "distinct (xs @ [x]) \<Longrightarrow> remove1 x (xs @ [x]) = xs"
  by (induction xs) auto

lemma uxListRemove_line:
  assumes "lists_ok m" "pvContainer m i = Some l"
  obtains m' where "uxListRemove i m = Some (word_of_nat (length (line m l) - 1), m')" "lists_ok m'"
    "line m' = (line m)(l := remove1 i (line m l))"
    "pvContainer m' = (pvContainer m)(i := None)" "xItemValue m' = xItemValue m"
    "\<And>k. pxIndex m k = End k \<Longrightarrow> pxIndex m' k = End k"
proof -
  obtain ns where ns: "ring m l ns" "length ns < 2 ^ 32" "uxNumberOfItems m l = word_of_nat (length ns)"
    "line m l = items_of (ns @ [pxIndex m l])" "xItemValue m (End l) = portMAX_DELAY"
    using lists_okD[OF assms(1)] by (rule list_okE)
  let ?a = "pxIndex m l" and ?nx = "pxNext m" and ?pv = "pxPrevious m" and ?i = "Item i :: ('a, 'b) node"
  let ?nx' = "?nx(?pv ?i := ?nx ?i)" and ?pv' = "?pv(?nx ?i := ?pv ?i)"
  have l: "linked ?nx ?pv ?a ns ?a" "distinct (?a # ns)" "set (?a # ns) = nodes m l"
    using ns(1) ring_nodes[OF ns(1)] by (simp_all add: ring_def)
  have i: "?i \<in> nodes m l" and e: "End l \<in> nodes m l" using assms(2) by (auto simp: nodes_def)
  have neq: "?nx ?i \<noteq> ?i"
  proof
    assume *: "?nx ?i = ?i"
    show False
    proof (cases "?i = ?a")
      case True
      then have "ns = []" using * l(1,2) by (cases ns) auto
      then show False using e[folded l(3)] by (simp flip: True)
    next
      case False
      then obtain xs ys where ys: "ns = xs @ ?i # ys" using i l(3) by (metis set_ConsD split_list)
      then have "linked ?nx ?pv ?i ys ?a" using l(1) by simp
      then show False using * False l(2) ys by (cases ys) auto
    qed
  qed
  obtain b ms where b: "linked ?nx' ?pv' b ms b" "distinct (b # ms)" "set (b # ms) = nodes m l - {?i}"
    "b = (if ?a = ?i then ?pv ?i else ?a)" "items_of (ms @ [b]) = remove1 i (line m l)" "Suc (length ms) = length ns"
  proof (cases "?a = ?i")
    case True
    have "ns \<noteq> []" using e[folded l(3)] by (auto simp: True)
    then obtain ms p where p: "ns = ms @ [p]" by (cases ns rule: rev_cases) auto
    have pv: "?pv ?i = p" using l(1) p True by simp
    have r: "linked ?nx ?pv p (?i # ms) p" using l(1) p True by simp
    have d: "distinct (p # ?i # ms)" using l(2) p True by auto
    have 1: "linked ?nx' ?pv' p ms p" using linked_remove[of ?nx ?pv p "[]" ?i ms p] r d by simp
    have 2: "set (p # ms) = nodes m l - {?i}" using l(2,3) p True by auto
    have 3: "items_of (ms @ [p]) = remove1 i (line m l)"
    proof -
      have d: "distinct (ns @ [?i])" using l(2) True by auto
      have "items_of ns = remove1 i (line m l)"
        using items_of_remove[OF d, of i] unfolding butlast_not_last[OF d] ns(4) True .
      then show ?thesis using p by simp
    qed
    show ?thesis
      by (rule that[OF 1 _ 2 _ 3]) (use d True pv p in simp_all)
  next
    case False
    then obtain xs ys where ys: "ns = xs @ ?i # ys" using i l(3) by (metis set_ConsD split_list)
    have 1: "linked ?nx' ?pv' ?a (xs @ ys) ?a"
      by (rule linked_remove) (use l ys in auto)
    have 2: "set (?a # xs @ ys) = nodes m l - {?i}" using l(2,3) ys False by auto
    have 3: "items_of ((xs @ ys) @ [?a]) = remove1 i (line m l)"
    proof -
      have "remove1 ?i (ns @ [?a]) = (xs @ ys) @ [?a]" using l(2) ys by (simp add: remove1_append)
      then show ?thesis using items_of_remove[of "ns @ [?a]" i] l(2) ns(4) by simp
    qed
    show ?thesis
      by (rule that[OF 1 _ 2 _ 3]) (use l(2) False ys in simp_all)
  qed
  define m' where "m' = m\<lparr>pxPrevious := ?pv', pxNext := ?nx',
    pxIndex := (pxIndex m)(l := b), pvContainer := (pvContainer m)(i := None),
    uxNumberOfItems := (uxNumberOfItems m)(l := uxNumberOfItems m l - 1)\<rparr>"
  have "ring m' l ms"
    using b(1-3) unfolding ring_def m'_def nodes_def by (auto simp: set_eq_iff)
  moreover have c: "uxNumberOfItems m' l = word_of_nat (length ms)"
    unfolding m'_def using ns(3) b(6)[symmetric] by simp
  ultimately have ok: "list_ok m' l" "line m' l = remove1 i (line m l)"
    using list_okI[of m' l ms] ns(2,5) b(5,6) by (simp_all add: m'_def)
  have "?pv ?i \<in> nodes m l" "?nx ?i \<in> nodes m l" using ring_closed[OF ns(1) i] by auto
  then have m': "lists_ok m'" "line m' = (line m)(l := remove1 i (line m l))"
    using assms(2) by (intro lists_change[OF assms(1) ok]; auto simp: m'_def)+
  have r: "uxListRemove i m = Some (uxNumberOfItems m' l, m')"
    using assms(2) neq b(4) unfolding uxListRemove_def m'_def by (auto simp: Let_def fun_upd_idem)
  have len: "length ms = length (line m l) - 1" using ring_length[OF ns(1)] ns(4) b(6) by simp
  have a: "pxIndex m k = End k \<Longrightarrow> pxIndex m' k = End k" for k
    using b(4) by (cases "k = l") (simp_all add: m'_def)
  show ?thesis
    using that[OF _ m'] r c len a by (simp add: m'_def)
qed

lemma rotate_index:
  assumes "linked nx pv a (n # ns) a" "distinct (a # n # ns)"
  shows "linked nx pv n (ns @ [a]) n"
  using linked_rotate[of nx pv a "[]" n ns] assms(1) by simp

lemma listGET_OWNER_OF_NEXT_ENTRY_line:
  assumes "lists_ok m" "line m l \<noteq> []"
  obtains m' where "listGET_OWNER_OF_NEXT_ENTRY l m = Some (hd (line m l), m')" "lists_ok m'"
    "line m' = (line m)(l := rotate1 (line m l))"
    "pvContainer m' = pvContainer m" "xItemValue m' = xItemValue m"
    "pxIndex m' = (pxIndex m)(l := Item (hd (line m l)))"
proof -
  obtain ns where ns: "ring m l ns" "length ns < 2 ^ 32" "uxNumberOfItems m l = word_of_nat (length ns)"
    "line m l = items_of (ns @ [pxIndex m l])" "xItemValue m (End l) = portMAX_DELAY"
    using lists_okD[OF assms(1)] by (rule list_okE)
  let ?a = "pxIndex m l" and ?nx = "pxNext m" and ?pv = "pxPrevious m"
  have l: "linked ?nx ?pv ?a ns ?a" "distinct (?a # ns)" "set (?a # ns) = nodes m l"
    using ns(1) ring_nodes[OF ns(1)] by (simp_all add: ring_def)
  have ends: "n = End l" if "n \<in> set (?a # ns)" "\<And>j. n \<noteq> Item j" for n
    using that unfolding l(3) by (auto simp: nodes_def)
  obtain n ms where n: "ns = n # ms"
    using ns(4) assms(2) ends l(3) by (cases ns; cases ?a) (auto simp: nodes_def)
  define i where "i = hd (line m l)"
  define b where "b = (if n = End l then ?nx n else n)"
  obtain ks where ks: "b = Item i" "linked ?nx ?pv b ks b" "distinct (b # ks)" "set (b # ks) = nodes m l"
    "items_of (ks @ [b]) = rotate1 (line m l)" "length ks = length ns"
  proof (cases "n = End l")
    case True
    have e: "?a \<noteq> End l" using l(2) n True by auto
    then obtain j where j: "?a = Item j" using ends by (cases ?a) auto
    have r: "linked ?nx ?pv n (ms @ [?a]) n" using rotate_index l(1,2) n by metis
    obtain k zs where k: "ms @ [?a] = k # zs" by (cases ms) auto
    have b: "b = k" using r k True by (simp add: b_def)
    have "k \<noteq> End l" "k \<in> set (?a # ns)" using k l(2) n True by (cases ms; auto)+
    then obtain i' where i': "k = Item i'" using ends by (cases k) auto
    have "linked ?nx ?pv k (zs @ [n]) k" using rotate_index[of ?nx ?pv n k zs] r k l(2) n by auto
    moreover have li: "line m l = i' # items_of zs" using ns(4) n True k i' by simp
    moreover have "set (k # zs @ [n]) = nodes m l" "distinct (k # zs @ [n])" "length (zs @ [n]) = length ns"
      using l(2,3) n k by (metis Un_insert_right append.right_neutral append_Cons list.simps(15) set_append,
        metis append_Cons distinct1_rotate rotate1.simps(2),
        metis length_append_singleton length_Cons)
    ultimately show ?thesis using that[of "zs @ [n]"] b i' True by (simp add: i_def)
  next
    case False
    have b: "b = n" using False by (simp add: b_def)
    obtain i' where i': "n = Item i'" using ends[of n] n False by (cases n) auto
    have li: "line m l = i' # items_of (ms @ [?a])" using ns(4) n i' by simp
    have 1: "linked ?nx ?pv n (ms @ [?a]) n" using rotate_index l(1,2) n by metis
    show ?thesis
    proof (rule that[of "ms @ [?a]"])
      show "b = Item i" using b i' li by (simp add: i_def)
      show "linked ?nx ?pv b (ms @ [?a]) b" using 1 b by simp
      show "distinct (b # ms @ [?a])" using l(2) n b by auto
      show "set (b # ms @ [?a]) = nodes m l" using l(3) n b by auto
      show "items_of ((ms @ [?a]) @ [b]) = rotate1 (line m l)"
        unfolding items_of_append li b i' by simp
      show "length (ms @ [?a]) = length ns" using n by simp
    qed
  qed
  define m' where "m' = m\<lparr>pxIndex := (pxIndex m)(l := b)\<rparr>"
  have "ring m' l ks" using ks(2-4) by (simp add: ring_def m'_def nodes_def)
  then have ok: "list_ok m' l" "line m' l = rotate1 (line m l)"
    using list_okI[of m' l ks] ks(5,6) ns(2,3,5) by (simp_all add: m'_def)
  have "lists_ok m'" "line m' = (line m)(l := rotate1 (line m l))"
    by (intro lists_change[OF assms(1) ok]; simp add: m'_def)+
  moreover have "listGET_OWNER_OF_NEXT_ENTRY l m = Some (i, m')"
    using ks(1) l(1) n unfolding listGET_OWNER_OF_NEXT_ENTRY_def m'_def b_def by (auto simp: Let_def)
  moreover have "pxIndex m' = (pxIndex m)(l := Item i)" using ks(1) by (simp add: m'_def)
  ultimately show ?thesis using that[of m'] by (simp add: i_def m'_def)
qed

lemma listGET_OWNER_OF_HEAD_ENTRY_line:
  assumes "lists_ok m" "pxIndex m l = End l"
  shows "listGET_OWNER_OF_HEAD_ENTRY l m = (case line m l of [] \<Rightarrow> None | i # is \<Rightarrow> Some i)"
proof -
  obtain ns where ns: "ring m l ns" "length ns < 2 ^ 32" "uxNumberOfItems m l = word_of_nat (length ns)"
    "line m l = items_of (ns @ [pxIndex m l])" "xItemValue m (End l) = portMAX_DELAY"
    using lists_okD[OF assms(1)] by (rule list_okE)
  have q: "ns = map Item (line m l)" using ring_end[OF ns(1) assms(2)] ns(4) assms(2) by simp
  have "linked (pxNext m) (pxPrevious m) (End l) (map Item (line m l)) (End l)"
    using ns(1) q assms(2) by (simp add: ring_def)
  then show ?thesis
    by (cases "line m l") (auto simp: listGET_OWNER_OF_HEAD_ENTRY_def)
qed

lemma vListInitialise_line:
  assumes "\<And>i. pvContainer m i \<noteq> Some l"
  shows "list_ok (vListInitialise l m) l" "line (vListInitialise l m) l = []"
    "k \<noteq> l \<Longrightarrow> list_ok m k \<Longrightarrow> list_ok (vListInitialise l m) k"
    "k \<noteq> l \<Longrightarrow> list_ok m k \<Longrightarrow> line (vListInitialise l m) k = line m k"
proof -
  have "ring (vListInitialise l m) l []" using assms by (auto simp: ring_def vListInitialise_def)
  then show "list_ok (vListInitialise l m) l" "line (vListInitialise l m) l = []"
    using list_okI[of "vListInitialise l m" l "[]"] by (simp_all add: vListInitialise_def)
  show "list_ok (vListInitialise l m) k" "line (vListInitialise l m) k = line m k"
    if "k \<noteq> l" "list_ok m k"
    by (intro list_frame[OF that(2)]; use that(1) in \<open>auto simp: vListInitialise_def nodes_def\<close>)+
qed

lemma vListInitialiseItem_line:
  assumes "lists_ok m" "pvContainer m i = None"
  shows "vListInitialiseItem i m = m"
  using assms by (simp add: vListInitialiseItem_def fun_upd_idem)

lemma listSET_LIST_ITEM_VALUE_line:
  assumes "lists_ok m"
  shows "lists_ok (listSET_LIST_ITEM_VALUE i v m)" "line (listSET_LIST_ITEM_VALUE i v m) = line m"
proof -
  have "list_ok (listSET_LIST_ITEM_VALUE i v m) l \<and> line (listSET_LIST_ITEM_VALUE i v m) l = line m l" for l
    using list_frame[OF lists_okD[OF assms, of l], of "listSET_LIST_ITEM_VALUE i v m"]
    by (simp add: listSET_LIST_ITEM_VALUE_def)
  then show "lists_ok (listSET_LIST_ITEM_VALUE i v m)" "line (listSET_LIST_ITEM_VALUE i v m) = line m"
    by (auto simp: lists_ok_def)
qed

lemma listSET_LIST_ITEM_VALUE_fields [simp]:
  "pvContainer (listSET_LIST_ITEM_VALUE i v m) = pvContainer m"
  "xItemValue (listSET_LIST_ITEM_VALUE i v m) = (xItemValue m)(Item i := v)"
  "pxIndex (listSET_LIST_ITEM_VALUE i v m) = pxIndex m"
  by (simp_all add: listSET_LIST_ITEM_VALUE_def)

end
