(* ===== verification/Sched.thy ===== *)
theory Sched
  imports Klist
begin

text \<open>
  The scheduler (\<open>tasks.c\<close> with the lists of \<open>Klist\<close> and the interrupts of \<open>port.c\<close>), as the firmware
  configures it: preemption and time slicing, eleven priorities, a bit map of the ready lists, mutexes, no
  \<open>configASSERT\<close>. A task is the address of its control block, with the fields of the blocks as functions
  of the address. A critical section is one step. Of the port, the bit that requests \<open>PendSV\<close> is kept; saved
  registers, stacks and names of tasks are not.
\<close>

section \<open>The state\<close>

type_synonym tcb = "32 word"

abbreviation NULL :: tcb where "NULL \<equiv> 0"

datatype list_id =
    pxReadyTasksLists "32 word"
  | xDelayedTaskList1 | xDelayedTaskList2
  | xPendingReadyList | xSuspendedTaskList | xTasksWaitingTermination
  | EventList nat

text \<open>The two list items of a control block. Their \<open>pvOwner\<close> is the block.\<close>

datatype item = xGenericListItem (owner: tcb) | xEventListItem (owner: tcb)

record sched =
  lists :: "(list_id, item) kmem"
  uxPriority :: "tcb \<Rightarrow> 32 word"
  uxBasePriority :: "tcb \<Rightarrow> 32 word"
  uxMutexesHeld :: "tcb \<Rightarrow> 32 word"
  allocated :: "tcb set"
  pxCurrentTCB :: tcb
  pxDelayedTaskList :: list_id
  pxOverflowDelayedTaskList :: list_id
  uxCurrentNumberOfTasks :: "32 word"
  xTickCount :: "32 word"
  uxTopReadyPriority :: "32 word"
  xSchedulerRunning :: bool
  uxPendedTicks :: "32 word"
  xYieldPending :: bool
  xNumOfOverflows :: "32 word"
  uxTaskNumber :: "32 word"
  xNextTaskUnblockTime :: "32 word"
  uxSchedulerSuspended :: "32 word"
  uxTasksDeleted :: "32 word"
  PENDSVSET :: bool

abbreviation configMAX_PRIORITIES :: "32 word" where "configMAX_PRIORITIES \<equiv> 11"
abbreviation tskIDLE_PRIORITY :: "32 word" where "tskIDLE_PRIORITY \<equiv> 0"

abbreviation taskEVENT_LIST_ITEM_VALUE_IN_USE :: "32 word" where
  "taskEVENT_LIST_ITEM_VALUE_IN_USE \<equiv> 0x80000000"

text \<open>The operations of \<open>list.c\<close> on the lists of the kernel.\<close>

definition list_remove :: "item \<Rightarrow> sched \<Rightarrow> (32 word \<times> sched) option" where
  "list_remove i s = map_option (\<lambda>(n, m). (n, s\<lparr>lists := m\<rparr>)) (uxListRemove i (lists s))"

definition list_insert :: "list_id \<Rightarrow> item \<Rightarrow> sched \<Rightarrow> sched option" where
  "list_insert l i s = map_option (\<lambda>m. s\<lparr>lists := m\<rparr>) (vListInsert l i (lists s))"

definition list_insert_end :: "list_id \<Rightarrow> item \<Rightarrow> sched \<Rightarrow> sched" where
  "list_insert_end l i s = s\<lparr>lists := vListInsertEnd l i (lists s)\<rparr>"

definition set_item_value :: "item \<Rightarrow> 32 word \<Rightarrow> sched \<Rightarrow> sched" where
  "set_item_value i v s = s\<lparr>lists := listSET_LIST_ITEM_VALUE i v (lists s)\<rparr>"

abbreviation list_empty :: "list_id \<Rightarrow> sched \<Rightarrow> bool" where
  "list_empty l s \<equiv> listLIST_IS_EMPTY l (lists s)"

abbreviation list_length :: "list_id \<Rightarrow> sched \<Rightarrow> 32 word" where
  "list_length l s \<equiv> uxNumberOfItems (lists s) l"

abbreviation container :: "item \<Rightarrow> sched \<Rightarrow> list_id option" where
  "container i s \<equiv> pvContainer (lists s) i"

abbreviation item_value :: "item \<Rightarrow> sched \<Rightarrow> 32 word" where
  "item_value i s \<equiv> xItemValue (lists s) (Item i)"

abbreviation head_entry :: "list_id \<Rightarrow> sched \<Rightarrow> tcb option" where
  "head_entry l s \<equiv> map_option owner (listGET_OWNER_OF_HEAD_ENTRY l (lists s))"

text \<open>The removal of an event item that may be on no list.\<close>

definition leave_event_list :: "tcb \<Rightarrow> sched \<Rightarrow> sched option" where
  "leave_event_list t s =
     (if container (xEventListItem t) s \<noteq> None then map_option snd (list_remove (xEventListItem t) s) else Some s)"

section \<open>The ready lists\<close>

definition portRECORD_READY_PRIORITY :: "32 word \<Rightarrow> sched \<Rightarrow> sched" where
  "portRECORD_READY_PRIORITY p s = s\<lparr>uxTopReadyPriority := uxTopReadyPriority s OR push_bit (unat p) 1\<rparr>"

definition portRESET_READY_PRIORITY :: "32 word \<Rightarrow> sched \<Rightarrow> sched" where
  "portRESET_READY_PRIORITY p s = s\<lparr>uxTopReadyPriority := uxTopReadyPriority s AND NOT (push_bit (unat p) 1)\<rparr>"

definition ucPortCountLeadingZeros :: "32 word \<Rightarrow> nat" where
  "ucPortCountLeadingZeros ulBitmap = length (takeWhile (\<lambda>n. \<not> bit ulBitmap n) (rev [0..<32]))"

definition portGET_HIGHEST_PRIORITY :: "32 word \<Rightarrow> 32 word" where
  "portGET_HIGHEST_PRIORITY uxReadyPriorities = 31 - word_of_nat (ucPortCountLeadingZeros uxReadyPriorities)"

definition taskRESET_READY_PRIORITY :: "32 word \<Rightarrow> sched \<Rightarrow> sched" where
  "taskRESET_READY_PRIORITY p s =
     (if list_length (pxReadyTasksLists p) s = 0 then portRESET_READY_PRIORITY p s else s)"

definition prvAddTaskToReadyList :: "tcb \<Rightarrow> sched \<Rightarrow> sched" where
  "prvAddTaskToReadyList t s =
     list_insert_end (pxReadyTasksLists (uxPriority s t)) (xGenericListItem t)
       (portRECORD_READY_PRIORITY (uxPriority s t) s)"

definition taskSELECT_HIGHEST_PRIORITY_TASK :: "sched \<Rightarrow> sched option" where
  "taskSELECT_HIGHEST_PRIORITY_TASK s =
     (let uxTopPriority = portGET_HIGHEST_PRIORITY (uxTopReadyPriority s) in
      map_option (\<lambda>(i, m). s\<lparr>lists := m, pxCurrentTCB := owner i\<rparr>)
        (listGET_OWNER_OF_NEXT_ENTRY (pxReadyTasksLists uxTopPriority) (lists s)))"

text \<open>\<open>portYIELD\<close> requests the interrupt in which \<open>vTaskSwitchContext\<close> runs.\<close>

definition portYIELD_WITHIN_API :: "sched \<Rightarrow> sched" where
  "portYIELD_WITHIN_API s = s\<lparr>PENDSVSET := True\<rparr>"

definition vTaskSwitchContext :: "sched \<Rightarrow> sched option" where
  "vTaskSwitchContext s =
     (if uxSchedulerSuspended s \<noteq> 0 then Some (s\<lparr>xYieldPending := True\<rparr>)
      else taskSELECT_HIGHEST_PRIORITY_TASK (s\<lparr>xYieldPending := False\<rparr>))"

definition xPortPendSVHandler :: "sched \<Rightarrow> sched option" where
  "xPortPendSVHandler s = vTaskSwitchContext (s\<lparr>PENDSVSET := False\<rparr>)"

definition prvGetTCBFromHandle :: "tcb \<Rightarrow> sched \<Rightarrow> tcb" where
  "prvGetTCBFromHandle h s = (if h = NULL then pxCurrentTCB s else h)"

section \<open>Time\<close>

definition prvResetNextTaskUnblockTime :: "sched \<Rightarrow> sched option" where
  "prvResetNextTaskUnblockTime s =
     (if list_empty (pxDelayedTaskList s) s then Some (s\<lparr>xNextTaskUnblockTime := portMAX_DELAY\<rparr>)
      else do {
        t \<leftarrow> head_entry (pxDelayedTaskList s) s;
        Some (s\<lparr>xNextTaskUnblockTime := item_value (xGenericListItem t) s\<rparr>)
      })"

definition taskSWITCH_DELAYED_LISTS :: "sched \<Rightarrow> sched option" where
  "taskSWITCH_DELAYED_LISTS s = prvResetNextTaskUnblockTime
     (s\<lparr>pxDelayedTaskList := pxOverflowDelayedTaskList s, pxOverflowDelayedTaskList := pxDelayedTaskList s,
        xNumOfOverflows := xNumOfOverflows s + 1\<rparr>)"

text \<open>One turn of the loop of \<open>xTaskIncrementTick\<close>: the loop ends, or a task is readied.\<close>

definition unblock_head :: "sched \<Rightarrow> (sched \<times> tcb option) option" where
  "unblock_head s =
     (if list_empty (pxDelayedTaskList s) s then Some (s\<lparr>xNextTaskUnblockTime := portMAX_DELAY\<rparr>, None)
      else do {
        t \<leftarrow> head_entry (pxDelayedTaskList s) s;
        if xTickCount s < item_value (xGenericListItem t) s
        then Some (s\<lparr>xNextTaskUnblockTime := item_value (xGenericListItem t) s\<rparr>, None)
        else do {
          (n, s) \<leftarrow> list_remove (xGenericListItem t) s;
          s \<leftarrow> leave_event_list t s;
          Some (prvAddTaskToReadyList t s, Some t)
        }
      })"

partial_function (option) unblock_expired :: "sched \<Rightarrow> bool \<Rightarrow> (sched \<times> bool) option" where
  "unblock_expired s xSwitchRequired =
     do {
       r \<leftarrow> unblock_head s;
       case r of
         (s, None) \<Rightarrow> Some (s, xSwitchRequired)
       | (s, Some t) \<Rightarrow> unblock_expired s (xSwitchRequired \<or> uxPriority s (pxCurrentTCB s) \<le> uxPriority s t)
     }"

definition xTaskIncrementTick :: "sched \<Rightarrow> (sched \<times> bool) option" where
  "xTaskIncrementTick s =
     (if uxSchedulerSuspended s = 0 then do {
        let s = s\<lparr>xTickCount := xTickCount s + 1\<rparr>;
        s \<leftarrow> (if xTickCount s = 0 then taskSWITCH_DELAYED_LISTS s else Some s);
        (s, xSwitchRequired) \<leftarrow>
          (if xNextTaskUnblockTime s \<le> xTickCount s then unblock_expired s False else Some (s, False));
        let xSwitchRequired =
          (xSwitchRequired \<or> 1 < list_length (pxReadyTasksLists (uxPriority s (pxCurrentTCB s))) s);
        Some (s, xSwitchRequired \<or> xYieldPending s)
      }
      else Some (s\<lparr>uxPendedTicks := uxPendedTicks s + 1\<rparr>, xYieldPending s))"

definition xPortSysTickHandler :: "sched \<Rightarrow> sched option" where
  "xPortSysTickHandler s =
     do { (s, switch) \<leftarrow> xTaskIncrementTick s; Some (if switch then portYIELD_WITHIN_API s else s) }"

definition vTaskStepTick :: "32 word \<Rightarrow> sched \<Rightarrow> sched" where
  "vTaskStepTick xTicksToJump s = s\<lparr>xTickCount := xTickCount s + xTicksToJump\<rparr>"

definition prvGetExpectedIdleTime :: "sched \<Rightarrow> 32 word" where
  "prvGetExpectedIdleTime s =
     (if tskIDLE_PRIORITY < uxPriority s (pxCurrentTCB s) then 0
      else if 1 < list_length (pxReadyTasksLists tskIDLE_PRIORITY) s then 0
      else xNextTaskUnblockTime s - xTickCount s)"

section \<open>Suspending the scheduler\<close>

definition vTaskSuspendAll :: "sched \<Rightarrow> sched" where
  "vTaskSuspendAll s = s\<lparr>uxSchedulerSuspended := uxSchedulerSuspended s + 1\<rparr>"

partial_function (option) move_pending :: "sched \<Rightarrow> sched option" where
  "move_pending s =
     (if list_empty xPendingReadyList s then Some s
      else do {
        t \<leftarrow> head_entry xPendingReadyList s;
        r \<leftarrow> list_remove (xEventListItem t) s;
        r \<leftarrow> list_remove (xGenericListItem t) (snd r);
        move_pending ((prvAddTaskToReadyList t (snd r))\<lparr>xYieldPending :=
          (xYieldPending (snd r) \<or> uxPriority (snd r) (pxCurrentTCB (snd r)) \<le> uxPriority (snd r) t)\<rparr>)
      })"

partial_function (option) run_pended_ticks :: "sched \<Rightarrow> sched option" where
  "run_pended_ticks s =
     (if 0 < uxPendedTicks s then do {
        r \<leftarrow> xTaskIncrementTick s;
        run_pended_ticks ((fst r)\<lparr>xYieldPending := (snd r \<or> xYieldPending (fst r)),
          uxPendedTicks := uxPendedTicks (fst r) - 1\<rparr>)
      }
      else Some s)"

text \<open>The result says whether a yield was requested.\<close>

definition xTaskResumeAll :: "sched \<Rightarrow> (sched \<times> bool) option" where
  "xTaskResumeAll s =
     (let s = s\<lparr>uxSchedulerSuspended := uxSchedulerSuspended s - 1\<rparr> in
      if uxSchedulerSuspended s = 0 \<and> 0 < uxCurrentNumberOfTasks s then do {
        s \<leftarrow> move_pending s;
        s \<leftarrow> run_pended_ticks s;
        if xYieldPending s then Some (portYIELD_WITHIN_API s, True) else Some (s, False)
      }
      else Some (s, False))"

text \<open>How the calls that block go on after their task is off the ready list.\<close>

definition resume_and_yield :: "sched \<Rightarrow> sched option" where
  "resume_and_yield s =
     do { (s, xAlreadyYielded) \<leftarrow> xTaskResumeAll s; Some (if xAlreadyYielded then s else portYIELD_WITHIN_API s) }"

section \<open>Blocking\<close>

definition prvAddCurrentTaskToDelayedList :: "32 word \<Rightarrow> sched \<Rightarrow> sched option" where
  "prvAddCurrentTaskToDelayedList xTimeToWake s =
     (let i = xGenericListItem (pxCurrentTCB s); s = set_item_value i xTimeToWake s in
      if xTimeToWake < xTickCount s then list_insert (pxOverflowDelayedTaskList s) i s
      else do {
        s \<leftarrow> list_insert (pxDelayedTaskList s) i s;
        Some (if xTimeToWake < xNextTaskUnblockTime s then s\<lparr>xNextTaskUnblockTime := xTimeToWake\<rparr> else s)
      })"

definition leave_ready_list :: "sched \<Rightarrow> sched option" where
  "leave_ready_list s =
     do {
       (n, s) \<leftarrow> list_remove (xGenericListItem (pxCurrentTCB s)) s;
       Some (if n = 0 then portRESET_READY_PRIORITY (uxPriority s (pxCurrentTCB s)) s else s)
     }"

text \<open>What \<open>vTaskDelay\<close> and \<open>vTaskDelayUntil\<close> do while the scheduler is suspended.\<close>

definition sleep_until :: "32 word \<Rightarrow> sched \<Rightarrow> sched option" where
  "sleep_until xTimeToWake s = do { s \<leftarrow> leave_ready_list s; prvAddCurrentTaskToDelayedList xTimeToWake s }"

definition vTaskDelay :: "32 word \<Rightarrow> sched \<Rightarrow> sched option" where
  "vTaskDelay xTicksToDelay s =
     (if 0 < xTicksToDelay then do {
        let s = vTaskSuspendAll s;
        s \<leftarrow> sleep_until (xTickCount s + xTicksToDelay) s;
        resume_and_yield s
      }
      else Some (portYIELD_WITHIN_API s))"

definition xShouldDelay :: "32 word \<Rightarrow> 32 word \<Rightarrow> 32 word \<Rightarrow> bool" where
  "xShouldDelay xConstTickCount previous xTimeToWake =
     (if xConstTickCount < previous then xTimeToWake < previous \<and> xConstTickCount < xTimeToWake
      else xTimeToWake < previous \<or> xConstTickCount < xTimeToWake)"

text \<open>The first argument is \<open>*pxPreviousWakeTime\<close>, and the first result what is left there.\<close>

definition vTaskDelayUntil :: "32 word \<Rightarrow> 32 word \<Rightarrow> sched \<Rightarrow> (32 word \<times> sched) option" where
  "vTaskDelayUntil previous xTimeIncrement s =
     do {
       let s = vTaskSuspendAll s;
       let xTimeToWake = previous + xTimeIncrement;
       s \<leftarrow> (if xShouldDelay (xTickCount s) previous xTimeToWake then sleep_until xTimeToWake s else Some s);
       s \<leftarrow> resume_and_yield s;
       Some (xTimeToWake, s)
     }"

text \<open>The wait for an event, without a limit when \<open>xTicksToWait\<close> is \<open>portMAX_DELAY\<close>.\<close>

definition suspend_or_delay :: "32 word \<Rightarrow> sched \<Rightarrow> sched option" where
  "suspend_or_delay xTicksToWait s =
     (if xTicksToWait = portMAX_DELAY
      then Some (list_insert_end xSuspendedTaskList (xGenericListItem (pxCurrentTCB s)) s)
      else prvAddCurrentTaskToDelayedList (xTickCount s + xTicksToWait) s)"

definition vTaskPlaceOnEventList :: "nat \<Rightarrow> 32 word \<Rightarrow> sched \<Rightarrow> sched option" where
  "vTaskPlaceOnEventList e xTicksToWait s =
     do {
       s \<leftarrow> list_insert (EventList e) (xEventListItem (pxCurrentTCB s)) s;
       s \<leftarrow> leave_ready_list s;
       suspend_or_delay xTicksToWait s
     }"

definition vTaskPlaceOnUnorderedEventList :: "nat \<Rightarrow> 32 word \<Rightarrow> 32 word \<Rightarrow> sched \<Rightarrow> sched option" where
  "vTaskPlaceOnUnorderedEventList e v xTicksToWait s =
     (let i = xEventListItem (pxCurrentTCB s);
          s = set_item_value i (v OR taskEVENT_LIST_ITEM_VALUE_IN_USE) s;
          s = list_insert_end (EventList e) i s
      in do { s \<leftarrow> leave_ready_list s; suspend_or_delay xTicksToWait s })"

definition vTaskPlaceOnEventListRestricted :: "nat \<Rightarrow> 32 word \<Rightarrow> sched \<Rightarrow> sched option" where
  "vTaskPlaceOnEventListRestricted e xTicksToWait s =
     do {
       s \<leftarrow> leave_ready_list (list_insert_end (EventList e) (xEventListItem (pxCurrentTCB s)) s);
       prvAddCurrentTaskToDelayedList (xTickCount s + xTicksToWait) s
     }"

section \<open>Waking\<close>

text \<open>The result says that the task that was woken has a higher priority than the current one.\<close>

definition xTaskRemoveFromEventList :: "nat \<Rightarrow> sched \<Rightarrow> (sched \<times> bool) option" where
  "xTaskRemoveFromEventList e s =
     do {
       t \<leftarrow> head_entry (EventList e) s;
       (n, s) \<leftarrow> list_remove (xEventListItem t) s;
       s \<leftarrow> (if uxSchedulerSuspended s = 0
            then do { (n, s) \<leftarrow> list_remove (xGenericListItem t) s; Some (prvAddTaskToReadyList t s) }
            else Some (list_insert_end xPendingReadyList (xEventListItem t) s));
       Some (if uxPriority s (pxCurrentTCB s) < uxPriority s t then (s\<lparr>xYieldPending := True\<rparr>, True) else (s, False))
     }"

definition xTaskRemoveFromUnorderedEventList :: "item \<Rightarrow> 32 word \<Rightarrow> sched \<Rightarrow> (sched \<times> bool) option" where
  "xTaskRemoveFromUnorderedEventList i v s =
     do {
       let s = set_item_value i (v OR taskEVENT_LIST_ITEM_VALUE_IN_USE) s;
       let t = owner i;
       (n, s) \<leftarrow> list_remove i s;
       (n, s) \<leftarrow> list_remove (xGenericListItem t) s;
       let s = prvAddTaskToReadyList t s;
       Some (if uxPriority s (pxCurrentTCB s) < uxPriority s t then (s\<lparr>xYieldPending := True\<rparr>, True) else (s, False))
     }"

definition vTaskMissedYield :: "sched \<Rightarrow> sched" where
  "vTaskMissedYield s = s\<lparr>xYieldPending := True\<rparr>"

section \<open>Suspending and resuming tasks\<close>

definition vTaskSuspend :: "tcb \<Rightarrow> sched \<Rightarrow> sched option" where
  "vTaskSuspend xTaskToSuspend s =
     do {
       let t = prvGetTCBFromHandle xTaskToSuspend s;
       (n, s) \<leftarrow> list_remove (xGenericListItem t) s;
       let s = (if n = 0 then taskRESET_READY_PRIORITY (uxPriority s t) s else s);
       s \<leftarrow> leave_event_list t s;
       let s = list_insert_end xSuspendedTaskList (xGenericListItem t) s;
       if t = pxCurrentTCB s then
         if xSchedulerRunning s then Some (portYIELD_WITHIN_API s)
         else if list_length xSuspendedTaskList s = uxCurrentNumberOfTasks s then Some (s\<lparr>pxCurrentTCB := NULL\<rparr>)
         else vTaskSwitchContext s
       else if xSchedulerRunning s then prvResetNextTaskUnblockTime s
       else Some s
     }"

definition prvTaskIsTaskSuspended :: "tcb \<Rightarrow> sched \<Rightarrow> bool" where
  "prvTaskIsTaskSuspended t s \<longleftrightarrow>
     container (xGenericListItem t) s = Some xSuspendedTaskList \<and>
     container (xEventListItem t) s \<noteq> Some xPendingReadyList \<and>
     container (xEventListItem t) s = None"

definition vTaskResume :: "tcb \<Rightarrow> sched \<Rightarrow> sched option" where
  "vTaskResume t s =
     (if t \<noteq> NULL \<and> t \<noteq> pxCurrentTCB s \<and> prvTaskIsTaskSuspended t s then do {
        (n, s) \<leftarrow> list_remove (xGenericListItem t) s;
        let s = prvAddTaskToReadyList t s;
        Some (if uxPriority s (pxCurrentTCB s) \<le> uxPriority s t then portYIELD_WITHIN_API s else s)
      }
      else Some s)"

definition xTaskResumeFromISR :: "tcb \<Rightarrow> sched \<Rightarrow> (sched \<times> bool) option" where
  "xTaskResumeFromISR t s =
     (if prvTaskIsTaskSuspended t s then
        if uxSchedulerSuspended s = 0 then do {
          let xYieldRequired = (uxPriority s (pxCurrentTCB s) \<le> uxPriority s t);
          (n, s) \<leftarrow> list_remove (xGenericListItem t) s;
          Some (prvAddTaskToReadyList t s, xYieldRequired)
        }
        else Some (list_insert_end xPendingReadyList (xEventListItem t) s, False)
      else Some (s, False))"

section \<open>Priorities\<close>

definition event_value_in_use :: "tcb \<Rightarrow> sched \<Rightarrow> bool" where
  "event_value_in_use t s \<longleftrightarrow> item_value (xEventListItem t) s AND taskEVENT_LIST_ITEM_VALUE_IN_USE \<noteq> 0"

definition set_event_priority :: "tcb \<Rightarrow> 32 word \<Rightarrow> sched \<Rightarrow> sched" where
  "set_event_priority t p s =
     (if event_value_in_use t s then s else set_item_value (xEventListItem t) (configMAX_PRIORITIES - p) s)"

definition set_priority :: "tcb \<Rightarrow> 32 word \<Rightarrow> sched \<Rightarrow> sched" where
  "set_priority t p s = s\<lparr>uxPriority := (uxPriority s)(t := p)\<rparr>"

definition vTaskPrioritySet :: "tcb \<Rightarrow> 32 word \<Rightarrow> sched \<Rightarrow> sched option" where
  "vTaskPrioritySet xTask uxNewPriority s =
     (let new = (if configMAX_PRIORITIES \<le> uxNewPriority then configMAX_PRIORITIES - 1 else uxNewPriority);
          t = prvGetTCBFromHandle xTask s;
          base = uxBasePriority s t
      in if base = new then Some s
         else do {
           let xYieldRequired =
             (if base < new then t \<noteq> pxCurrentTCB s \<and> uxPriority s (pxCurrentTCB s) \<le> new
              else t = pxCurrentTCB s);
           let uxPriorityUsedOnEntry = uxPriority s t;
           let s = (if base = uxPriority s t then set_priority t new s else s);
           let s = s\<lparr>uxBasePriority := (uxBasePriority s)(t := new)\<rparr>;
           let s = set_event_priority t new s;
           s \<leftarrow> (if container (xGenericListItem t) s = Some (pxReadyTasksLists uxPriorityUsedOnEntry) then do {
                  (n, s) \<leftarrow> list_remove (xGenericListItem t) s;
                  let s = (if n = 0 then portRESET_READY_PRIORITY uxPriorityUsedOnEntry s else s);
                  Some (prvAddTaskToReadyList t s)
                }
                else Some s);
           Some (if xYieldRequired then portYIELD_WITHIN_API s else s)
         })"

definition vTaskPriorityInherit :: "tcb \<Rightarrow> sched \<Rightarrow> sched option" where
  "vTaskPriorityInherit t s =
     (if t \<noteq> NULL \<and> uxPriority s t < uxPriority s (pxCurrentTCB s) then do {
        let s = set_event_priority t (uxPriority s (pxCurrentTCB s)) s;
        if container (xGenericListItem t) s = Some (pxReadyTasksLists (uxPriority s t)) then do {
          (n, s) \<leftarrow> list_remove (xGenericListItem t) s;
          let s = (if n = 0 then taskRESET_READY_PRIORITY (uxPriority s t) s else s);
          let s = set_priority t (uxPriority s (pxCurrentTCB s)) s;
          Some (prvAddTaskToReadyList t s)
        }
        else Some (set_priority t (uxPriority s (pxCurrentTCB s)) s)
      }
      else Some s)"

definition xTaskPriorityDisinherit :: "tcb \<Rightarrow> sched \<Rightarrow> (sched \<times> bool) option" where
  "xTaskPriorityDisinherit t s =
     (if t \<noteq> NULL then
        let s = s\<lparr>uxMutexesHeld := (uxMutexesHeld s)(t := uxMutexesHeld s t - 1)\<rparr> in
        if uxPriority s t \<noteq> uxBasePriority s t \<and> uxMutexesHeld s t = 0 then do {
          (n, s) \<leftarrow> list_remove (xGenericListItem t) s;
          let s = (if n = 0 then taskRESET_READY_PRIORITY (uxPriority s t) s else s);
          let s = set_priority t (uxBasePriority s t) s;
          let s = set_item_value (xEventListItem t) (configMAX_PRIORITIES - uxPriority s t) s;
          Some (prvAddTaskToReadyList t s, True)
        }
        else Some (s, False)
      else Some (s, False))"

definition pvTaskIncrementMutexHeldCount :: "sched \<Rightarrow> sched \<times> tcb" where
  "pvTaskIncrementMutexHeldCount s =
     (let c = pxCurrentTCB s in
      (if c \<noteq> NULL then s\<lparr>uxMutexesHeld := (uxMutexesHeld s)(c := uxMutexesHeld s c + 1)\<rparr> else s, c))"

section \<open>Creating and deleting tasks\<close>

definition prvInitialiseTCBVariables :: "tcb \<Rightarrow> 32 word \<Rightarrow> sched \<Rightarrow> sched" where
  "prvInitialiseTCBVariables t uxPriority' s =
     (let p = (if configMAX_PRIORITIES \<le> uxPriority' then configMAX_PRIORITIES - 1 else uxPriority');
          s = set_priority t p s;
          s = s\<lparr>uxBasePriority := (uxBasePriority s)(t := p), uxMutexesHeld := (uxMutexesHeld s)(t := 0),
            lists := vListInitialiseItem (xEventListItem t) (vListInitialiseItem (xGenericListItem t) (lists s))\<rparr>
      in set_item_value (xEventListItem t) (configMAX_PRIORITIES - p) s)"

definition prvInitialiseTaskLists :: "sched \<Rightarrow> sched" where
  "prvInitialiseTaskLists s =
     (let m = fold (\<lambda>n. vListInitialise (pxReadyTasksLists (word_of_nat n))) [0..<11] (lists s);
          m = vListInitialise xDelayedTaskList1 m;
          m = vListInitialise xDelayedTaskList2 m;
          m = vListInitialise xPendingReadyList m;
          m = vListInitialise xTasksWaitingTermination m;
          m = vListInitialise xSuspendedTaskList m
      in s\<lparr>lists := m, pxDelayedTaskList := xDelayedTaskList1, pxOverflowDelayedTaskList := xDelayedTaskList2\<rparr>)"

text \<open>The first argument is the control block that \<open>prvAllocateTCBAndStack\<close> gives, or \<open>NULL\<close>.\<close>

definition xTaskGenericCreate :: "tcb \<Rightarrow> 32 word \<Rightarrow> sched \<Rightarrow> sched \<times> bool" where
  "xTaskGenericCreate new uxPriority' s =
     (if new = NULL then (s, False)
      else
        let s = s\<lparr>allocated := insert new (allocated s)\<rparr>;
            s = prvInitialiseTCBVariables new uxPriority' s;
            s = s\<lparr>uxCurrentNumberOfTasks := uxCurrentNumberOfTasks s + 1\<rparr>;
            s = (if pxCurrentTCB s = NULL then
                   let s = s\<lparr>pxCurrentTCB := new\<rparr> in
                   if uxCurrentNumberOfTasks s = 1 then prvInitialiseTaskLists s else s
                 else if \<not> xSchedulerRunning s \<and> uxPriority s (pxCurrentTCB s) \<le> uxPriority'
                 then s\<lparr>pxCurrentTCB := new\<rparr> else s);
            s = s\<lparr>uxTaskNumber := uxTaskNumber s + 1\<rparr>;
            s = prvAddTaskToReadyList new s
        in (if xSchedulerRunning s \<and> uxPriority s (pxCurrentTCB s) < uxPriority' then portYIELD_WITHIN_API s else s,
            True))"

definition vTaskDelete :: "tcb \<Rightarrow> sched \<Rightarrow> sched option" where
  "vTaskDelete xTaskToDelete s =
     do {
       let t = prvGetTCBFromHandle xTaskToDelete s;
       (n, s) \<leftarrow> list_remove (xGenericListItem t) s;
       let s = (if n = 0 then taskRESET_READY_PRIORITY (uxPriority s t) s else s);
       s \<leftarrow> leave_event_list t s;
       let s = list_insert_end xTasksWaitingTermination (xGenericListItem t) s;
       let s = s\<lparr>uxTasksDeleted := uxTasksDeleted s + 1, uxTaskNumber := uxTaskNumber s + 1\<rparr>;
       if xSchedulerRunning s then
         if t = pxCurrentTCB s then Some (portYIELD_WITHIN_API s) else prvResetNextTaskUnblockTime s
       else Some s
     }"

text \<open>The idle task frees what was deleted. \<open>prvDeleteTCB\<close> gives the control block back to the allocator.\<close>

definition prvDeleteTCB :: "tcb \<Rightarrow> sched \<Rightarrow> sched" where
  "prvDeleteTCB t s = s\<lparr>allocated := allocated s - {t}\<rparr>"

partial_function (option) prvCheckTasksWaitingTermination :: "sched \<Rightarrow> sched option" where
  "prvCheckTasksWaitingTermination s =
     (if 0 < uxTasksDeleted s then do {
        r \<leftarrow> xTaskResumeAll (vTaskSuspendAll s);
        if list_empty xTasksWaitingTermination (vTaskSuspendAll s) then prvCheckTasksWaitingTermination (fst r)
        else do {
          t \<leftarrow> head_entry xTasksWaitingTermination (fst r);
          q \<leftarrow> list_remove (xGenericListItem t) (fst r);
          prvCheckTasksWaitingTermination (prvDeleteTCB t ((snd q)\<lparr>
            uxCurrentNumberOfTasks := uxCurrentNumberOfTasks (snd q) - 1,
            uxTasksDeleted := uxTasksDeleted (snd q) - 1\<rparr>))
        }
      }
      else Some s)"

text \<open>The scheduler starts with the idle task and, when its queue exists, the task of the timers.\<close>

definition vTaskStartScheduler :: "tcb \<Rightarrow> bool \<Rightarrow> tcb \<Rightarrow> sched \<Rightarrow> sched" where
  "vTaskStartScheduler idle xTimerQueue timer s =
     (let (s, xReturn) = xTaskGenericCreate idle tskIDLE_PRIORITY s;
          (s, xReturn) = (if xReturn then if xTimerQueue then xTaskGenericCreate timer (1 + 4) s else (s, False)
                          else (s, False))
      in if xReturn then s\<lparr>xSchedulerRunning := True, xTickCount := 0\<rparr> else s)"

end
