(* ===== verification/SchedInv.thy ===== *)
theory SchedInv
  imports Sched
begin

text \<open>
  The invariant of the scheduler. \<open>core\<close> says how the lists, the control blocks and the bit map belong
  together, with a set of tasks whose items are on the move between two lists; \<open>kernel_ok\<close> adds the time,
  the counters and the idle task. The lemmas here say what each move does; \<open>SchedSteps\<close> composes them.
\<close>

section \<open>The core\<close>

fun state_list :: "list_id \<Rightarrow> bool" where
  "state_list xPendingReadyList = False"
| "state_list (EventList e) = False"
| "state_list l = True"

text \<open>The lists that a task can be on: an item on an event list belongs to a task that is blocked.\<close>

definition task_ok :: "sched \<Rightarrow> tcb \<Rightarrow> bool" where
  "task_ok s t =
     (case container (xGenericListItem t) s of
        None \<Rightarrow> False
      | Some (pxReadyTasksLists p) \<Rightarrow> p = uxPriority s t \<and> container (xEventListItem t) s = None
      | Some xTasksWaitingTermination \<Rightarrow> container (xEventListItem t) s = None
      | Some l \<Rightarrow> True)"

definition placed :: "sched \<Rightarrow> bool" where
  "placed s \<longleftrightarrow>
     (\<forall>t l. container (xGenericListItem t) s = Some l \<longrightarrow> state_list l \<and> t \<in> allocated s) \<and>
     (\<forall>t l. container (xEventListItem t) s = Some l \<longrightarrow> \<not> state_list l \<and> t \<in> allocated s)"

definition bits_ok :: "sched \<Rightarrow> bool" where
  "bits_ok s \<longleftrightarrow>
     (\<forall>p. line (lists s) (pxReadyTasksLists p) \<noteq> [] \<longleftrightarrow> p < 11 \<and> bit (uxTopReadyPriority s) (unat p)) \<and>
     (\<forall>n. bit (uxTopReadyPriority s) n \<longrightarrow> n < 11)"

definition index_ok :: "(list_id, item) kmem \<Rightarrow> bool" where
  "index_ok m \<longleftrightarrow> (\<forall>l. (\<forall>p. l \<noteq> pxReadyTasksLists p) \<longrightarrow> pxIndex m l = End l)"

definition core :: "tcb set \<Rightarrow> sched \<Rightarrow> bool" where
  "core H s \<longleftrightarrow>
     lists_ok (lists s) \<and>
     index_ok (lists s) \<and>
     placed s \<and> NULL \<notin> allocated s \<and>
     (\<forall>t \<in> allocated s - H. task_ok s t) \<and>
     (\<forall>t \<in> allocated s. uxPriority s t < 11 \<and> uxBasePriority s t < 11) \<and>
     bits_ok s"

lemma coreD:
  assumes "core H s"
  shows core_lists: "lists_ok (lists s)"
    and core_index: "index_ok (lists s)"
    and core_placed: "placed s"
    and core_null: "NULL \<notin> allocated s"
    and core_task: "t \<in> allocated s \<Longrightarrow> t \<notin> H \<Longrightarrow> task_ok s t"
    and core_priority: "t \<in> allocated s \<Longrightarrow> uxPriority s t < 11"
    and core_base: "t \<in> allocated s \<Longrightarrow> uxBasePriority s t < 11"
    and core_bits: "bits_ok s"
  using assms by (auto simp: core_def)

lemma core_mono: "core H s \<Longrightarrow> H \<subseteq> H' \<Longrightarrow> core H' s"
  unfolding core_def by blast

lemma core_settled: "core H s \<Longrightarrow> (\<And>t. t \<in> H - H' \<Longrightarrow> task_ok s t) \<Longrightarrow> core H' s"
  unfolding core_def by blast

lemma line_set: "core H s \<Longrightarrow> i \<in> set (line (lists s) l) \<longleftrightarrow> container i s = Some l"
  using set_line[OF lists_okD[OF core_lists]] by auto

lemma line_distinct: "core H s \<Longrightarrow> distinct (line (lists s) l)"
  by (rule distinct_line[OF lists_okD[OF core_lists]])

lemma placedD:
  assumes "placed s"
  shows "container (xGenericListItem t) s = Some l \<Longrightarrow> state_list l \<and> t \<in> allocated s"
    and "container (xEventListItem t) s = Some l \<Longrightarrow> \<not> state_list l \<and> t \<in> allocated s"
  using assms by (auto simp: placed_def)

lemma line_owners:
  assumes "core H s"
  shows "inj_on owner (set (line (lists s) l))" "owner ` set (line (lists s) l) \<subseteq> allocated s"
proof -
  have k: "(\<exists>t. i = xGenericListItem t \<and> state_list l \<and> t \<in> allocated s) \<or>
      (\<exists>t. i = xEventListItem t \<and> \<not> state_list l \<and> t \<in> allocated s)" if "i \<in> set (line (lists s) l)" for i
    using that placedD[OF core_placed[OF assms]] unfolding line_set[OF assms] by (cases i) blast+
  show "inj_on owner (set (line (lists s) l))"
  proof (rule inj_onI)
    fix i j
    assume "i \<in> set (line (lists s) l)" "j \<in> set (line (lists s) l)" "owner i = owner j"
    then show "i = j" using k[of i] k[of j] by auto
  qed
  show "owner ` set (line (lists s) l) \<subseteq> allocated s" using k by fastforce
qed

text \<open>The addresses of 32 bits leave room in every list.\<close>

lemma line_room:
  assumes "core H s" "owner i \<in> allocated s" "container i s = None" "state_list l = (\<exists>t. i = xGenericListItem t)"
  shows "Suc (length (line (lists s) l)) < 2 ^ 32"
proof -
  have "owner i \<notin> owner ` set (line (lists s) l)"
  proof
    assume "owner i \<in> owner ` set (line (lists s) l)"
    then obtain j where j: "j \<in> set (line (lists s) l)" "owner i = owner j" by auto
    then have c: "container j s = Some l" using line_set[OF assms(1)] by simp
    then show False using assms(3,4) j(2) placedD[OF core_placed[OF assms(1)]] by (cases i; cases j; auto)
  qed
  moreover have "NULL \<notin> owner ` set (line (lists s) l)"
    using line_owners(2)[OF assms(1), of l] core_null[OF assms(1)] by blast
  ultimately have "owner ` set (line (lists s) l) \<subseteq> UNIV - {NULL, owner i}"
    by (simp only: subset_Diff_insert Diff_empty subset_UNIV) simp
  then have "card (owner ` set (line (lists s) l)) \<le> card (UNIV - {NULL, owner i})"
    by (intro card_mono) auto
  moreover have "card (owner ` set (line (lists s) l)) = length (line (lists s) l)"
    using card_image[OF line_owners(1)[OF assms(1)]] distinct_card[OF line_distinct[OF assms(1)]] by metis
  moreover have "owner i \<noteq> NULL" using assms(2) core_null[OF assms(1)] by metis
  then have "card (UNIV - {NULL, owner i}) = 2 ^ 32 - 2"
    by (subst card_Diff_subset) (auto simp: card_word)
  ultimately show ?thesis by simp
qed

section \<open>The moves\<close>

lemma empty_list: "core H s \<Longrightarrow> list_empty l s \<longleftrightarrow> line (lists s) l = []"
  by (rule empty_line[OF lists_okD[OF core_lists]])

lemma length_zero: "core H s \<Longrightarrow> list_length l s = 0 \<longleftrightarrow> line (lists s) l = []"
  using empty_list by (simp add: listLIST_IS_EMPTY_def)

lemma length_unat: "core H s \<Longrightarrow> unat (list_length l s) = length (line (lists s) l)"
  using length_line[OF lists_okD[OF core_lists]] by metis

lemma head_list:
  assumes "core H s" "\<And>p. l \<noteq> pxReadyTasksLists p"
  shows "head_entry l s = (case line (lists s) l of [] \<Rightarrow> None | i # is \<Rightarrow> Some (owner i))"
  using listGET_OWNER_OF_HEAD_ENTRY_line[OF core_lists[OF assms(1)], of l] core_index[OF assms(1)] assms(2)
  unfolding index_ok_def
  by (simp split: list.split)

lemma list_remove_core:
  assumes "core H s" "container i s = Some l"
  obtains n m where "list_remove i s = Some (n, s\<lparr>lists := m\<rparr>)" "lists_ok m"
    "line m = (line (lists s))(l := remove1 i (line (lists s) l))"
    "pvContainer m = (pvContainer (lists s))(i := None)" "xItemValue m = xItemValue (lists s)"
    "index_ok m"
    "n = 0 \<longleftrightarrow> remove1 i (line (lists s) l) = []" "uxNumberOfItems m l = n"
proof -
  obtain m where m: "uxListRemove i (lists s) = Some (word_of_nat (length (line (lists s) l) - 1), m)"
    "lists_ok m" "line m = (line (lists s))(l := remove1 i (line (lists s) l))"
    "pvContainer m = (pvContainer (lists s))(i := None)" "xItemValue m = xItemValue (lists s)"
    "\<And>k. pxIndex (lists s) k = End k \<Longrightarrow> pxIndex m k = End k"
    using uxListRemove_line[OF core_lists[OF assms(1)] assms(2)] by metis
  let ?n = "word_of_nat (length (line (lists s) l) - 1) :: 32 word"
  have i: "i \<in> set (line (lists s) l)" using line_set[OF assms(1)] assms(2) by simp
  have "length (line m l) = length (line (lists s) l) - 1" using i m(3) by (simp add: length_remove1)
  then have "uxNumberOfItems m l = ?n"
    using length_line[OF lists_okD[OF m(2)], of l] by (metis of_nat_unat ucast_id)
  moreover have "?n = 0 \<longleftrightarrow> remove1 i (line (lists s) l) = []"
    using calculation empty_line[OF lists_okD[OF m(2)], of l] m(3) by (simp add: listLIST_IS_EMPTY_def)
  ultimately show ?thesis
    using that[of ?n m] m core_index[OF assms(1)] by (simp add: list_remove_def index_ok_def)
qed

lemma bit_set_word: "p < 11 \<Longrightarrow> bit (b OR push_bit (unat p) 1) n \<longleftrightarrow> bit b n \<or> n = unat p"
  for b p :: "32 word"
  by (auto simp: bit_simps word_less_nat_alt)

lemma bit_clear_word: "bit (b AND NOT (push_bit (unat p) 1)) n \<longleftrightarrow> bit b n \<and> n \<noteq> unat p"
  for b p :: "32 word"
  by (auto simp: bit_simps dest: bit_imp_le_length)

lemma unat_eq [simp]: "unat p = unat q \<longleftrightarrow> p = q"
  by (metis unsigned_word_eqI)

lemmas bit_set_clear = bit_set_word bit_clear_word bit_set_word[simplified] bit_clear_word[simplified]

lemma bits_okD:
  assumes "bits_ok s"
  shows "line (lists s) (pxReadyTasksLists p) \<noteq> [] \<longleftrightarrow> p < 11 \<and> bit (uxTopReadyPriority s) (unat p)"
    and "bit (uxTopReadyPriority s) n \<Longrightarrow> n < 11"
  using assms unfolding bits_ok_def by blast+

lemma core_taskRESET [simp]: "core H s \<Longrightarrow> taskRESET_READY_PRIORITY p s = s"
proof -
  assume c: "core H s"
  show ?thesis
  proof (cases "line (lists s) (pxReadyTasksLists p) = []")
    case True
    have "\<not> bit (uxTopReadyPriority s) (unat p)"
    proof
      assume b: "bit (uxTopReadyPriority s) (unat p)"
      then have "p < 11" using bits_okD(2)[OF core_bits[OF c]] by (auto simp: word_less_nat_alt)
      then show False using bits_okD(1)[OF core_bits[OF c], of p] b True by simp
    qed
    then have "uxTopReadyPriority s AND NOT (push_bit (unat p) 1) = uxTopReadyPriority s"
      by (intro bit_eqI) (auto simp: bit_set_clear)
    then show ?thesis by (simp add: taskRESET_READY_PRIORITY_def portRESET_READY_PRIORITY_def)
  next
    case False
    then show ?thesis using length_zero[OF c] by (simp add: taskRESET_READY_PRIORITY_def)
  qed
qed

lemma task_ok_frame:
  assumes "task_ok s t" "container (xGenericListItem t) s' = container (xGenericListItem t) s"
    "container (xEventListItem t) s' = container (xEventListItem t) s \<or> container (xEventListItem t) s' = None"
    "uxPriority s' t = uxPriority s t"
  shows "task_ok s' t"
  using assms by (auto simp: task_ok_def split: option.splits list_id.splits)

text \<open>A task leaves the list of its state.\<close>

lemma take_off:
  assumes c: "core H s" and w: "container (xGenericListItem t) s = Some l"
  obtains n m where "list_remove (xGenericListItem t) s = Some (n, s\<lparr>lists := m\<rparr>)"
    "line m = (line (lists s))(l := remove1 (xGenericListItem t) (line (lists s) l))"
    "pvContainer m = (pvContainer (lists s))(xGenericListItem t := None)" "xItemValue m = xItemValue (lists s)"
    "(\<And>p. l \<noteq> pxReadyTasksLists p) \<Longrightarrow> core (insert t H) (s\<lparr>lists := m\<rparr>)"
    "\<And>p. l = pxReadyTasksLists p \<Longrightarrow>
      core (insert t H) (if n = 0 then portRESET_READY_PRIORITY p (s\<lparr>lists := m\<rparr>) else s\<lparr>lists := m\<rparr>)"
    "uxNumberOfItems m l = n"
proof -
  let ?i = "xGenericListItem t"
  obtain n m where m: "list_remove ?i s = Some (n, s\<lparr>lists := m\<rparr>)" "lists_ok m"
    "line m = (line (lists s))(l := remove1 ?i (line (lists s) l))"
    "pvContainer m = (pvContainer (lists s))(?i := None)" "xItemValue m = xItemValue (lists s)"
    "index_ok m"
    "n = 0 \<longleftrightarrow> remove1 ?i (line (lists s) l) = []" "uxNumberOfItems m l = n"
    by (rule list_remove_core[OF c w])
  have rest: "core (insert t H) s'" if s': "s' = s\<lparr>lists := m, uxTopReadyPriority := b\<rparr>" and b: "bits_ok s'" for s' b
    unfolding core_def
  proof (intro conjI ballI)
    show "placed s'" using core_placed[OF c] m(4) s' by (auto simp: placed_def)
    show "task_ok s' u" if "u \<in> allocated s' - insert t H" for u
      by (rule task_ok_frame[of s]) (use that core_task[OF c] m(4) s' in auto)
  qed (use m(2,6) core_null[OF c] core_priority[OF c] core_base[OF c] b s' in auto)
  show ?thesis
  proof (rule that[OF m(1,3,4,5) _ _ m(8)])
    assume l: "\<And>p. l \<noteq> pxReadyTasksLists p"
    have "bits_ok (s\<lparr>lists := m\<rparr>)" using core_bits[OF c] l m(3) by (auto simp: bits_ok_def)
    then show "core (insert t H) (s\<lparr>lists := m\<rparr>)" using rest[of _ "uxTopReadyPriority s"] by simp
  next
    fix p assume l: "l = pxReadyTasksLists p"
    let ?b = "if n = 0 then uxTopReadyPriority s AND NOT (push_bit (unat p) 1) else uxTopReadyPriority s"
    have i: "line (lists s) l \<noteq> []" using line_set[OF c, of ?i l] w by auto
    have "bits_ok (s\<lparr>lists := m, uxTopReadyPriority := ?b\<rparr>)"
      unfolding bits_ok_def
    proof (intro conjI allI)
      fix q
      show "line (lists (s\<lparr>lists := m, uxTopReadyPriority := ?b\<rparr>)) (pxReadyTasksLists q) \<noteq> [] \<longleftrightarrow>
          q < 11 \<and> bit (uxTopReadyPriority (s\<lparr>lists := m, uxTopReadyPriority := ?b\<rparr>)) (unat q)"
        using bits_okD(1)[OF core_bits[OF c], of q] m(3,7) i l
        by (cases "q = p") (auto simp: bit_set_clear)
    next
      fix k
      show "bit (uxTopReadyPriority (s\<lparr>lists := m, uxTopReadyPriority := ?b\<rparr>)) k \<longrightarrow> k < 11"
        using bits_okD(2)[OF core_bits[OF c], of k] by (auto simp: bit_set_clear)
    qed
    then show "core (insert t H) (if n = 0 then portRESET_READY_PRIORITY p (s\<lparr>lists := m\<rparr>) else s\<lparr>lists := m\<rparr>)"
      using rest[of _ ?b] by (cases "n = 0") (simp_all add: portRESET_READY_PRIORITY_def)
  qed
qed

lemma ready_fields [simp]:
  "uxPriority (prvAddTaskToReadyList t s) = uxPriority s"
  "uxBasePriority (prvAddTaskToReadyList t s) = uxBasePriority s"
  "uxMutexesHeld (prvAddTaskToReadyList t s) = uxMutexesHeld s"
  "allocated (prvAddTaskToReadyList t s) = allocated s"
  "pxCurrentTCB (prvAddTaskToReadyList t s) = pxCurrentTCB s"
  "pxDelayedTaskList (prvAddTaskToReadyList t s) = pxDelayedTaskList s"
  "pxOverflowDelayedTaskList (prvAddTaskToReadyList t s) = pxOverflowDelayedTaskList s"
  "uxCurrentNumberOfTasks (prvAddTaskToReadyList t s) = uxCurrentNumberOfTasks s"
  "xTickCount (prvAddTaskToReadyList t s) = xTickCount s"
  "xSchedulerRunning (prvAddTaskToReadyList t s) = xSchedulerRunning s"
  "uxPendedTicks (prvAddTaskToReadyList t s) = uxPendedTicks s"
  "xYieldPending (prvAddTaskToReadyList t s) = xYieldPending s"
  "xNumOfOverflows (prvAddTaskToReadyList t s) = xNumOfOverflows s"
  "uxTaskNumber (prvAddTaskToReadyList t s) = uxTaskNumber s"
  "xNextTaskUnblockTime (prvAddTaskToReadyList t s) = xNextTaskUnblockTime s"
  "uxSchedulerSuspended (prvAddTaskToReadyList t s) = uxSchedulerSuspended s"
  "uxTasksDeleted (prvAddTaskToReadyList t s) = uxTasksDeleted s"
  "PENDSVSET (prvAddTaskToReadyList t s) = PENDSVSET s"
  "pvContainer (lists (prvAddTaskToReadyList t s)) =
     (pvContainer (lists s))(xGenericListItem t := Some (pxReadyTasksLists (uxPriority s t)))"
  "xItemValue (lists (prvAddTaskToReadyList t s)) = xItemValue (lists s)"
  by (simp_all add: prvAddTaskToReadyList_def portRECORD_READY_PRIORITY_def list_insert_end_def)

lemma joined_facts:
  assumes "lists_ok m"
  shows "joined m l i \<noteq> []" "set (joined m l i) = insert i (set (line m l))"
proof -
  obtain ns where ns: "ring m l ns" "line m l = items_of (ns @ [pxIndex m l])"
    using lists_okD[OF assms] by (rule list_okE)
  show "joined m l i \<noteq> []" "set (joined m l i) = insert i (set (line m l))"
    unfolding joined_def ns(2) by (cases "pxIndex m l"; auto simp: butlast_append)+
qed

text \<open>A task goes to its ready list.\<close>

lemma add_ready:
  assumes c: "core H s" and t: "t \<in> allocated s"
    and f: "container (xGenericListItem t) s = None" "container (xEventListItem t) s = None"
  shows "core (H - {t}) (prvAddTaskToReadyList t s)"
    "line (lists (prvAddTaskToReadyList t s)) = (line (lists s))(pxReadyTasksLists (uxPriority s t) :=
       joined (lists s) (pxReadyTasksLists (uxPriority s t)) (xGenericListItem t))"
proof -
  let ?s = "prvAddTaskToReadyList t s" and ?i = "xGenericListItem t" and ?p = "uxPriority s t"
  let ?l = "pxReadyTasksLists ?p"
  have p: "?p < 11" using core_priority[OF c t] .
  have m: "lists ?s = vListInsertEnd ?l ?i (lists s)"
    by (simp add: prvAddTaskToReadyList_def list_insert_end_def portRECORD_READY_PRIORITY_def)
  have b: "uxTopReadyPriority ?s = uxTopReadyPriority s OR push_bit (unat ?p) 1"
    by (simp add: prvAddTaskToReadyList_def list_insert_end_def portRECORD_READY_PRIORITY_def)
  have r: "Suc (length (line (lists s) ?l)) < 2 ^ 32"
    by (rule line_room[OF c _ f(1)]) (use t in simp_all)
  have l: "lists_ok (lists ?s)" "line (lists ?s) = (line (lists s))(?l := joined (lists s) ?l ?i)"
    unfolding m by (fact vListInsertEnd_line[OF core_lists[OF c] f(1) r])+
  then show "line (lists ?s) = (line (lists s))(?l := joined (lists s) ?l ?i)" by simp
  show "core (H - {t}) ?s"
    unfolding core_def
  proof (intro conjI ballI)
    show "lists_ok (lists ?s)" by (fact l(1))
    show "index_ok (lists ?s)" using core_index[OF c] by (simp add: index_ok_def m)
    show "placed ?s" using core_placed[OF c] t by (auto simp: placed_def)
    show "NULL \<notin> allocated ?s" using core_null[OF c] by simp
    show "task_ok ?s u" if "u \<in> allocated ?s - (H - {t})" for u
    proof (cases "u = t")
      case True
      then show ?thesis using f by (simp add: task_ok_def)
    next
      case False
      then have "task_ok s u" using that core_task[OF c, of u] by simp
      then show ?thesis by (rule task_ok_frame) (simp_all add: False)
    qed
    show "uxPriority ?s u < 11" "uxBasePriority ?s u < 11" if "u \<in> allocated ?s" for u
      using core_priority[OF c] core_base[OF c] that by simp_all
    show "bits_ok ?s"
      unfolding bits_ok_def
    proof (intro conjI allI)
      fix q
      show "line (lists ?s) (pxReadyTasksLists q) \<noteq> [] \<longleftrightarrow> q < 11 \<and> bit (uxTopReadyPriority ?s) (unat q)"
        using bits_okD(1)[OF core_bits[OF c], of q] joined_facts(1)[OF core_lists[OF c], of ?l ?i] p
        unfolding l(2) b by (cases "q = ?p") (auto simp: bit_set_clear)
    next
      fix n
      show "bit (uxTopReadyPriority ?s) n \<longrightarrow> n < 11"
        using bits_okD(2)[OF core_bits[OF c], of n] p unfolding b
        by (auto simp: bit_set_clear word_less_nat_alt)
    qed
  qed
qed

text \<open>A task goes to another list of its state.\<close>

lemma core_lists_change:
  assumes c: "core H s" and m: "lists_ok m" "index_ok m"
    and w: "placed (s\<lparr>lists := m\<rparr>)" "\<And>t. t \<in> allocated s - H' \<Longrightarrow> task_ok (s\<lparr>lists := m\<rparr>) t"
    and l: "\<And>p. line m (pxReadyTasksLists p) = line (lists s) (pxReadyTasksLists p)"
  shows "core H' (s\<lparr>lists := m\<rparr>)"
  using assms core_null[OF c] core_priority[OF c] core_base[OF c] core_bits[OF c]
  by (simp add: core_def bits_ok_def)

definition blocked_list :: "list_id \<Rightarrow> bool" where
  "blocked_list l \<longleftrightarrow> l \<in> {xDelayedTaskList1, xDelayedTaskList2, xSuspendedTaskList}"

lemma put_end:
  assumes c: "core H s" and t: "t \<in> allocated s"
    and f: "container (xGenericListItem t) s = None"
    and l: "blocked_list l \<or> l = xTasksWaitingTermination \<and> container (xEventListItem t) s = None"
  obtains m where "list_insert_end l (xGenericListItem t) s = s\<lparr>lists := m\<rparr>" "core (H - {t}) (s\<lparr>lists := m\<rparr>)"
    "line m = (line (lists s))(l := line (lists s) l @ [xGenericListItem t])"
    "pvContainer m = (pvContainer (lists s))(xGenericListItem t := Some l)" "xItemValue m = xItemValue (lists s)"
proof -
  let ?i = "xGenericListItem t" and ?m = "vListInsertEnd l (xGenericListItem t) (lists s)"
  have sl: "state_list l" and nr: "l \<noteq> pxReadyTasksLists p" for p using l by (auto simp: blocked_list_def)
  have j: "joined (lists s) l ?i = line (lists s) l @ [?i]"
    using core_index[OF c] nr by (simp add: joined_def index_ok_def)
  have r: "Suc (length (line (lists s) l)) < 2 ^ 32"
    by (rule line_room[OF c _ f]) (use t sl in simp_all)
  have m: "lists_ok ?m" "line ?m = (line (lists s))(l := line (lists s) l @ [?i])"
    using vListInsertEnd_line[OF core_lists[OF c] f r] unfolding j .
  have "core (H - {t}) (s\<lparr>lists := ?m\<rparr>)"
  proof (rule core_lists_change[OF c m(1)])
    show "index_ok ?m" using core_index[OF c] by (simp add: index_ok_def)
    show "placed (s\<lparr>lists := ?m\<rparr>)" using core_placed[OF c] t sl by (auto simp: placed_def)
    show "task_ok (s\<lparr>lists := ?m\<rparr>) u" if "u \<in> allocated s - (H - {t})" for u
    proof (cases "u = t")
      case True
      then show ?thesis using l by (auto simp: task_ok_def blocked_list_def)
    next
      case False
      then have "task_ok s u" using that core_task[OF c, of u] by simp
      then show ?thesis by (rule task_ok_frame) (simp_all add: False)
    qed
    show "line ?m (pxReadyTasksLists p) = line (lists s) (pxReadyTasksLists p)" for p using m(2) nr[of p] by auto
  qed
  then show ?thesis using that[of ?m] m(2) by (simp add: list_insert_end_def)
qed

lemma put_sorted:
  assumes c: "core H s" and t: "t \<in> allocated s"
    and f: "container (xGenericListItem t) s = None" and l: "blocked_list l"
  obtains m where "list_insert l (xGenericListItem t) s = Some (s\<lparr>lists := m\<rparr>)" "core (H - {t}) (s\<lparr>lists := m\<rparr>)"
    "line m = (line (lists s))(l := inserted (lists s) l (xGenericListItem t))"
    "pvContainer m = (pvContainer (lists s))(xGenericListItem t := Some l)" "xItemValue m = xItemValue (lists s)"
proof -
  let ?i = "xGenericListItem t"
  have sl: "state_list l" and nr: "l \<noteq> pxReadyTasksLists p" for p using l by (auto simp: blocked_list_def)
  have e: "pxIndex (lists s) l = End l" using core_index[OF c] nr by (simp add: index_ok_def)
  have r: "Suc (length (line (lists s) l)) < 2 ^ 32"
    by (rule line_room[OF c _ f]) (use t sl in simp_all)
  obtain m where m: "vListInsert l ?i (lists s) = Some m" "lists_ok m"
    "line m = (line (lists s))(l := inserted (lists s) l ?i)"
    "pvContainer m = (pvContainer (lists s))(?i := Some l)" "xItemValue m = xItemValue (lists s)"
    "pxIndex m = pxIndex (lists s)"
    by (rule vListInsert_line[OF core_lists[OF c] f r e])
  have "core (H - {t}) (s\<lparr>lists := m\<rparr>)"
  proof (rule core_lists_change[OF c m(2)])
    show "index_ok m" using core_index[OF c] m(6) by (simp add: index_ok_def)
    show "placed (s\<lparr>lists := m\<rparr>)" using core_placed[OF c] t sl m(4) by (auto simp: placed_def)
    show "task_ok (s\<lparr>lists := m\<rparr>) u" if "u \<in> allocated s - (H - {t})" for u
    proof (cases "u = t")
      case True
      then show ?thesis using l m(4) by (auto simp: task_ok_def blocked_list_def)
    next
      case False
      then have "task_ok s u" using that core_task[OF c, of u] by simp
      then show ?thesis by (rule task_ok_frame) (simp_all add: False m(4))
    qed
    show "line m (pxReadyTasksLists p) = line (lists s) (pxReadyTasksLists p)" for p using m(3) nr[of p] by auto
  qed
  then show ?thesis using that[of m] m by (simp add: list_insert_def)
qed

text \<open>An event item leaves its list, and goes to one.\<close>

lemma take_event:
  assumes c: "core H s" and w: "container (xEventListItem t) s = Some l"
  obtains n m where "list_remove (xEventListItem t) s = Some (n, s\<lparr>lists := m\<rparr>)" "core H (s\<lparr>lists := m\<rparr>)"
    "line m = (line (lists s))(l := remove1 (xEventListItem t) (line (lists s) l))"
    "pvContainer m = (pvContainer (lists s))(xEventListItem t := None)" "xItemValue m = xItemValue (lists s)"
proof -
  obtain n m where m: "list_remove (xEventListItem t) s = Some (n, s\<lparr>lists := m\<rparr>)" "lists_ok m"
    "line m = (line (lists s))(l := remove1 (xEventListItem t) (line (lists s) l))"
    "pvContainer m = (pvContainer (lists s))(xEventListItem t := None)" "xItemValue m = xItemValue (lists s)"
    "index_ok m" "n = 0 \<longleftrightarrow> remove1 (xEventListItem t) (line (lists s) l) = []" "uxNumberOfItems m l = n"
    by (rule list_remove_core[OF c w])
  have nr: "l \<noteq> pxReadyTasksLists p" for p using placedD(2)[OF core_placed[OF c] w] by auto
  have "core H (s\<lparr>lists := m\<rparr>)"
  proof (rule core_lists_change[OF c m(2,6)])
    show "placed (s\<lparr>lists := m\<rparr>)" using core_placed[OF c] m(4) by (auto simp: placed_def)
    show "task_ok (s\<lparr>lists := m\<rparr>) u" if "u \<in> allocated s - H" for u
    proof -
      have "task_ok s u" using that core_task[OF c, of u] by simp
      then show ?thesis by (rule task_ok_frame) (simp_all add: m(4))
    qed
    show "line m (pxReadyTasksLists p) = line (lists s) (pxReadyTasksLists p)" for p using m(3) nr[of p] by auto
  qed
  then show ?thesis using that m by blast
qed

lemma leave_event:
  assumes c: "core H s"
  obtains m where "leave_event_list t s = Some (s\<lparr>lists := m\<rparr>)" "core H (s\<lparr>lists := m\<rparr>)"
    "\<And>l. line m l = remove1 (xEventListItem t) (line (lists s) l)"
    "pvContainer m = (pvContainer (lists s))(xEventListItem t := None)" "xItemValue m = xItemValue (lists s)"
proof (cases "container (xEventListItem t) s")
  case None
  have "remove1 (xEventListItem t) (line (lists s) l) = line (lists s) l" for l
    using line_set[OF c, of "xEventListItem t" l] None by (intro remove1_idem) simp
  then show ?thesis
    using that[of "lists s"] c None by (simp add: leave_event_list_def fun_upd_idem)
next
  case (Some k)
  obtain n m where m: "list_remove (xEventListItem t) s = Some (n, s\<lparr>lists := m\<rparr>)" "core H (s\<lparr>lists := m\<rparr>)"
    "line m = (line (lists s))(k := remove1 (xEventListItem t) (line (lists s) k))"
    "pvContainer m = (pvContainer (lists s))(xEventListItem t := None)" "xItemValue m = xItemValue (lists s)"
    by (rule take_event[OF c Some])
  have "line m l = remove1 (xEventListItem t) (line (lists s) l)" for l
  proof (cases "l = k")
    case False
    then have "xEventListItem t \<notin> set (line (lists s) l)" using line_set[OF c] Some by simp
    then show ?thesis using m(3) False by (simp add: remove1_idem)
  qed (simp add: m(3))
  then show ?thesis
    using that[of m] m Some by (simp add: leave_event_list_def)
qed

lemma put_event_placed:
  assumes c: "core H s" and t: "t \<in> allocated s"
    and l: "\<not> state_list l" and m: "lists_ok m" "index_ok m" "line m = (line (lists s))(l := q)"
    "pvContainer m = (pvContainer (lists s))(xEventListItem t := Some l)"
  shows "core (insert t H) (s\<lparr>lists := m\<rparr>)"
proof (rule core_lists_change[OF c m(1,2)])
  show "placed (s\<lparr>lists := m\<rparr>)" using core_placed[OF c] t l m(4) by (auto simp: placed_def)
  show "task_ok (s\<lparr>lists := m\<rparr>) u" if "u \<in> allocated s - insert t H" for u
  proof -
    have "task_ok s u" using that core_task[OF c, of u] by simp
    then show ?thesis by (rule task_ok_frame) (use that m(4) in auto)
  qed
  show "line m (pxReadyTasksLists p) = line (lists s) (pxReadyTasksLists p)" for p using m(3) l by auto
qed

lemma put_event_end:
  assumes c: "core H s" and t: "t \<in> allocated s"
    and f: "container (xEventListItem t) s = None" and l: "\<not> state_list l"
  obtains m where "list_insert_end l (xEventListItem t) s = s\<lparr>lists := m\<rparr>" "core (insert t H) (s\<lparr>lists := m\<rparr>)"
    "line m = (line (lists s))(l := line (lists s) l @ [xEventListItem t])"
    "pvContainer m = (pvContainer (lists s))(xEventListItem t := Some l)" "xItemValue m = xItemValue (lists s)"
proof -
  let ?i = "xEventListItem t" and ?m = "vListInsertEnd l (xEventListItem t) (lists s)"
  have nr: "l \<noteq> pxReadyTasksLists p" for p using l by auto
  have j: "joined (lists s) l ?i = line (lists s) l @ [?i]"
    using core_index[OF c] nr by (simp add: joined_def index_ok_def)
  have r: "Suc (length (line (lists s) l)) < 2 ^ 32"
    by (rule line_room[OF c _ f]) (use t l in simp_all)
  have m: "lists_ok ?m" "line ?m = (line (lists s))(l := line (lists s) l @ [?i])"
    using vListInsertEnd_line[OF core_lists[OF c] f r] unfolding j .
  have "core (insert t H) (s\<lparr>lists := ?m\<rparr>)"
    by (rule put_event_placed[OF c t l m(1) _ m(2)]) (use core_index[OF c] in \<open>simp_all add: index_ok_def\<close>)
  then show ?thesis using that[of ?m] m(2) by (simp add: list_insert_end_def)
qed

lemma put_event_sorted:
  assumes c: "core H s" and t: "t \<in> allocated s"
    and f: "container (xEventListItem t) s = None" and l: "\<not> state_list l"
  obtains m where "list_insert l (xEventListItem t) s = Some (s\<lparr>lists := m\<rparr>)" "core (insert t H) (s\<lparr>lists := m\<rparr>)"
    "line m = (line (lists s))(l := inserted (lists s) l (xEventListItem t))"
    "pvContainer m = (pvContainer (lists s))(xEventListItem t := Some l)" "xItemValue m = xItemValue (lists s)"
proof -
  let ?i = "xEventListItem t"
  have nr: "l \<noteq> pxReadyTasksLists p" for p using l by auto
  have e: "pxIndex (lists s) l = End l" using core_index[OF c] nr by (simp add: index_ok_def)
  have r: "Suc (length (line (lists s) l)) < 2 ^ 32"
    by (rule line_room[OF c _ f]) (use t l in simp_all)
  obtain m where m: "vListInsert l ?i (lists s) = Some m" "lists_ok m"
    "line m = (line (lists s))(l := inserted (lists s) l ?i)"
    "pvContainer m = (pvContainer (lists s))(?i := Some l)" "xItemValue m = xItemValue (lists s)"
    "pxIndex m = pxIndex (lists s)"
    by (rule vListInsert_line[OF core_lists[OF c] f r e])
  have "core (insert t H) (s\<lparr>lists := m\<rparr>)"
    by (rule put_event_placed[OF c t l m(2) _ m(3,4)]) (use core_index[OF c] m(6) in \<open>simp add: index_ok_def\<close>)
  then show ?thesis using that[of m] m by (simp add: list_insert_def)
qed

text \<open>Fields that the core does not read, and the values of the items.\<close>

lemma core_same:
  assumes "lists s' = lists s" "uxPriority s' = uxPriority s" "uxBasePriority s' = uxBasePriority s"
    "allocated s' = allocated s" "uxTopReadyPriority s' = uxTopReadyPriority s"
  shows "core H s' = core H s"
proof -
  have "task_ok s' = task_ok s" by (rule ext) (unfold task_ok_def assms, rule refl)
  then show ?thesis using assms by (simp add: core_def placed_def bits_ok_def)
qed

lemma core_fields [simp]:
  "core H (s\<lparr>uxMutexesHeld := a\<rparr>) = core H s" "core H (s\<lparr>pxCurrentTCB := b\<rparr>) = core H s"
  "core H (s\<lparr>pxDelayedTaskList := c\<rparr>) = core H s" "core H (s\<lparr>pxOverflowDelayedTaskList := c\<rparr>) = core H s"
  "core H (s\<lparr>uxCurrentNumberOfTasks := d\<rparr>) = core H s" "core H (s\<lparr>xTickCount := d\<rparr>) = core H s"
  "core H (s\<lparr>xSchedulerRunning := e\<rparr>) = core H s" "core H (s\<lparr>uxPendedTicks := d\<rparr>) = core H s"
  "core H (s\<lparr>xYieldPending := e\<rparr>) = core H s" "core H (s\<lparr>xNumOfOverflows := d\<rparr>) = core H s"
  "core H (s\<lparr>uxTaskNumber := d\<rparr>) = core H s" "core H (s\<lparr>xNextTaskUnblockTime := d\<rparr>) = core H s"
  "core H (s\<lparr>uxSchedulerSuspended := d\<rparr>) = core H s" "core H (s\<lparr>uxTasksDeleted := d\<rparr>) = core H s"
  "core H (s\<lparr>PENDSVSET := e\<rparr>) = core H s"
  by (rule core_same; simp)+

lemma set_item_value_fields [simp]:
  "lists (set_item_value i v s) = listSET_LIST_ITEM_VALUE i v (lists s)"
  "set_item_value i v s = s\<lparr>lists := listSET_LIST_ITEM_VALUE i v (lists s)\<rparr>"
  by (simp_all add: set_item_value_def)

lemma core_value:
  assumes c: "core H s"
  shows "core H (s\<lparr>lists := listSET_LIST_ITEM_VALUE i v (lists s)\<rparr>)"
proof (rule core_lists_change[OF c])
  show "task_ok (s\<lparr>lists := listSET_LIST_ITEM_VALUE i v (lists s)\<rparr>) t" if "t \<in> allocated s - H" for t
  proof -
    have "task_ok s t" using that core_task[OF c, of t] by simp
    then show ?thesis by (rule task_ok_frame) simp_all
  qed
qed (use listSET_LIST_ITEM_VALUE_line[OF core_lists[OF c]] core_index[OF c] core_placed[OF c]
  in \<open>simp_all add: index_ok_def placed_def\<close>)

lemma core_set_priority:
  assumes c: "core H s" and p: "p < 11"
  shows "core (insert t H) (set_priority t p s)"
  unfolding core_def
proof (intro conjI ballI)
  show "task_ok (set_priority t p s) u" if "u \<in> allocated (set_priority t p s) - insert t H" for u
  proof -
    have "task_ok s u" using that core_task[OF c, of u] by (simp add: set_priority_def)
    then show ?thesis by (rule task_ok_frame) (use that in \<open>simp_all add: set_priority_def\<close>)
  qed
  show "placed (set_priority t p s)" using core_placed[OF c] by (simp add: placed_def set_priority_def)
  show "bits_ok (set_priority t p s)" using core_bits[OF c] by (simp add: bits_ok_def set_priority_def)
qed (use c p in \<open>auto simp: core_def set_priority_def\<close>)

lemma core_set_base:
  assumes c: "core H s" and p: "p < 11"
  shows "core H (s\<lparr>uxBasePriority := (uxBasePriority s)(t := p)\<rparr>)"
proof -
  let ?s = "s\<lparr>uxBasePriority := (uxBasePriority s)(t := p)\<rparr>"
  have "lists ?s = lists s" "uxPriority ?s = uxPriority s" by simp_all
  then have "task_ok ?s = task_ok s" by (intro ext) (unfold task_ok_def, simp only:)
  then show ?thesis using assms by (simp add: core_def placed_def bits_ok_def)
qed

end
