(* ===== verification/SchedTick.thy ===== *)
theory SchedTick
  imports SchedInv
begin

text \<open>
  The whole invariant of the scheduler, and what a tick does to it: exactly the tasks whose time has come
  are readied, also when the tick count goes round.
\<close>

section \<open>The invariant\<close>

abbreviation ready :: "sched \<Rightarrow> tcb \<Rightarrow> bool" where
  "ready s t \<equiv> container (xGenericListItem t) s = Some (pxReadyTasksLists (uxPriority s t))"

abbreviation wake_time :: "sched \<Rightarrow> tcb \<Rightarrow> 32 word" where
  "wake_time s t \<equiv> item_value (xGenericListItem t) s"

definition delayed :: "sched \<Rightarrow> tcb \<Rightarrow> bool" where
  "delayed s t \<longleftrightarrow> container (xGenericListItem t) s \<in> {Some xDelayedTaskList1, Some xDelayedTaskList2}"

definition in_time_order :: "sched \<Rightarrow> list_id \<Rightarrow> bool" where
  "in_time_order s l \<longleftrightarrow> sorted (map (\<lambda>i. item_value i s) (line (lists s) l))"

definition delay_lists :: "sched \<Rightarrow> bool" where
  "delay_lists s \<longleftrightarrow>
     (pxDelayedTaskList s, pxOverflowDelayedTaskList s) \<in>
       {(xDelayedTaskList1, xDelayedTaskList2), (xDelayedTaskList2, xDelayedTaskList1)}"

definition delays_ok :: "sched \<Rightarrow> bool" where
  "delays_ok s \<longleftrightarrow>
     delay_lists s \<and> in_time_order s (pxDelayedTaskList s) \<and> in_time_order s (pxOverflowDelayedTaskList s) \<and>
     (\<forall>t. container (xGenericListItem t) s = Some (pxDelayedTaskList s) \<longrightarrow>
        xTickCount s < wake_time s t \<and> xNextTaskUnblockTime s \<le> wake_time s t) \<and>
     (\<forall>t. container (xGenericListItem t) s = Some (pxOverflowDelayedTaskList s) \<longrightarrow> wake_time s t < xTickCount s) \<and>
     (xTickCount s < xNextTaskUnblockTime s \<or> xNextTaskUnblockTime s = portMAX_DELAY)"

definition running_ok :: "tcb \<Rightarrow> sched \<Rightarrow> bool" where
  "running_ok idle s \<longleftrightarrow>
     core {} s \<and> delays_ok s \<and> pxCurrentTCB s \<in> allocated s \<and> ready s idle \<and> xSchedulerRunning s \<and>
     uxCurrentNumberOfTasks s = word_of_nat (card (allocated s)) \<and>
     unat (uxTasksDeleted s) = length (line (lists s) xTasksWaitingTermination)"

definition kernel_ok :: "tcb \<Rightarrow> sched \<Rightarrow> bool" where
  "kernel_ok idle s \<longleftrightarrow> running_ok idle s \<and>
     (uxSchedulerSuspended s = 0 \<longrightarrow> uxPendedTicks s = 0 \<and> line (lists s) xPendingReadyList = [])"

section \<open>The loop of a tick\<close>

lemma delay_lists_not_ready:
  assumes "delay_lists s"
  shows "pxDelayedTaskList s \<noteq> pxReadyTasksLists p" "pxOverflowDelayedTaskList s \<noteq> pxReadyTasksLists p"
    "state_list (pxDelayedTaskList s)" "state_list (pxOverflowDelayedTaskList s)"
    "pxDelayedTaskList s \<noteq> pxOverflowDelayedTaskList s"
    "pxDelayedTaskList s \<noteq> xTasksWaitingTermination" "pxOverflowDelayedTaskList s \<noteq> xTasksWaitingTermination"
    "pxDelayedTaskList s \<noteq> xSuspendedTaskList" "pxOverflowDelayedTaskList s \<noteq> xSuspendedTaskList"
    "pxDelayedTaskList s \<noteq> xPendingReadyList" "pxOverflowDelayedTaskList s \<noteq> xPendingReadyList"
    "blocked_list (pxDelayedTaskList s)" "blocked_list (pxOverflowDelayedTaskList s)"
  using assms by (auto simp: delay_lists_def blocked_list_def)

lemma delayed_iff:
  assumes "delay_lists s"
  shows "delayed s t \<longleftrightarrow> container (xGenericListItem t) s = Some (pxDelayedTaskList s) \<or>
    container (xGenericListItem t) s = Some (pxOverflowDelayedTaskList s)"
  using assms by (auto simp: delayed_def delay_lists_def)

lemma state_line_generic:
  assumes "core H s" "state_list l" "i \<in> set (line (lists s) l)"
  obtains t where "i = xGenericListItem t" "container (xGenericListItem t) s = Some l" "t \<in> allocated s"
  using assms line_set[OF assms(1)] placedD[OF core_placed[OF assms(1)]] by (cases i) auto

lemma event_line_event:
  assumes "core H s" "\<not> state_list l" "i \<in> set (line (lists s) l)"
  obtains t where "i = xEventListItem t" "container (xEventListItem t) s = Some l" "t \<in> allocated s"
  using assms line_set[OF assms(1)] placedD[OF core_placed[OF assms(1)]] by (cases i) auto

text \<open>What the loop leaves: \<open>due\<close> are the tasks it readies.\<close>

definition woken :: "sched \<Rightarrow> (tcb \<Rightarrow> bool) \<Rightarrow> sched \<Rightarrow> bool" where
  "woken s due s' \<longleftrightarrow>
     xItemValue (lists s') = xItemValue (lists s) \<and>
     (\<forall>t. container (xGenericListItem t) s' =
        (if due t then Some (pxReadyTasksLists (uxPriority s t)) else container (xGenericListItem t) s)) \<and>
     (\<forall>t. container (xEventListItem t) s' = (if due t then None else container (xEventListItem t) s)) \<and>
     (\<forall>l. state_list l \<longrightarrow> (\<forall>p. l \<noteq> pxReadyTasksLists p) \<longrightarrow>
        line (lists s') l = filter (\<lambda>i. \<not> due (owner i)) (line (lists s) l)) \<and>
     (line (lists s) xPendingReadyList = [] \<longrightarrow> line (lists s') xPendingReadyList = [])"

lemma woken_none: "woken s (\<lambda>t. False) s"
  by (simp add: woken_def)

lemma woken_trans:
  assumes "woken s due s'" "woken s' due' s''" "uxPriority s' = uxPriority s"
  shows "woken s (\<lambda>t. due t \<or> due' t) s''"
  using assms by (auto simp: woken_def intro!: filter_cong)

lemma unblock_one:
  assumes c: "core {} s" and d: "delay_lists s"
    and h: "line (lists s) (pxDelayedTaskList s) = xGenericListItem t # q" and v: "\<not> xTickCount s < wake_time s t"
  obtains m b where "unblock_head s = Some (s\<lparr>lists := m, uxTopReadyPriority := b\<rparr>, Some t)"
    "core {} (s\<lparr>lists := m, uxTopReadyPriority := b\<rparr>)" "woken s (\<lambda>u. u = t) (s\<lparr>lists := m, uxTopReadyPriority := b\<rparr>)"
proof -
  let ?l = "pxDelayedTaskList s" and ?i = "xGenericListItem t"
  note nr = delay_lists_not_ready[OF d]
  have w: "container ?i s = Some ?l" using line_set[OF c, of ?i ?l] h by simp
  have t: "t \<in> allocated s" using placedD(1)[OF core_placed[OF c] w] by simp
  obtain n m where m: "list_remove ?i s = Some (n, s\<lparr>lists := m\<rparr>)"
    "line m = (line (lists s))(?l := remove1 ?i (line (lists s) ?l))"
    "pvContainer m = (pvContainer (lists s))(?i := None)" "xItemValue m = xItemValue (lists s)"
    "core (insert t {}) (s\<lparr>lists := m\<rparr>)"
    using take_off[OF c w] nr(1) by metis
  obtain m2 where m2: "leave_event_list t (s\<lparr>lists := m\<rparr>) = Some (s\<lparr>lists := m2\<rparr>)" "core {t} (s\<lparr>lists := m2\<rparr>)"
    "\<And>l. line m2 l = remove1 (xEventListItem t) (line m l)"
    "pvContainer m2 = (pvContainer m)(xEventListItem t := None)" "xItemValue m2 = xItemValue m"
    using leave_event[OF m(5), of t] by auto
  let ?s2 = "s\<lparr>lists := m2\<rparr>"
  have r: "core {} (prvAddTaskToReadyList t ?s2)"
    "line (lists (prvAddTaskToReadyList t ?s2)) = (line m2)(pxReadyTasksLists (uxPriority s t) :=
       joined m2 (pxReadyTasksLists (uxPriority s t)) ?i)"
    using add_ready[OF m2(2), of t] t m(3) m2(4) by auto
  let ?s3 = "prvAddTaskToReadyList t ?s2"
  have s3: "?s3 = s\<lparr>lists := lists ?s3, uxTopReadyPriority := uxTopReadyPriority ?s3\<rparr>"
    by (simp add: prvAddTaskToReadyList_def list_insert_end_def portRECORD_READY_PRIORITY_def)
  have u: "unblock_head s = Some (?s3, Some t)"
    unfolding unblock_head_def head_list[OF c, of ?l, OF nr(1)]
    using h v m(1) m2(1) empty_list[OF c] by simp
  have "woken s (\<lambda>u. u = t) ?s3"
    unfolding woken_def
  proof (intro conjI allI impI)
    fix l assume l: "state_list l" "\<forall>p. l \<noteq> pxReadyTasksLists p"
    have ne: "xEventListItem t \<notin> set (line m l)"
      using line_set[OF m(5), of _ l] placedD(2)[OF core_placed[OF m(5)], of t] l(1) by auto
    have own: "owner i = t \<longleftrightarrow> i = ?i" if i: "i \<in> set (line (lists s) l)" for i
      by (rule state_line_generic[OF c l(1) i]) auto
    have "line (lists ?s3) l = line m l" using r(2) m2(3) l(2) ne by (simp add: remove1_idem)
    also have "\<dots> = remove1 ?i (line (lists s) l)"
      using m(2) line_set[OF c, of ?i l] w by (auto simp: remove1_idem)
    also have "\<dots> = filter (\<lambda>i. \<not> owner i = t) (line (lists s) l)"
      unfolding distinct_remove1_removeAll[OF line_distinct[OF c]] removeAll_filter_not_eq
      by (rule filter_cong) (auto simp only: own)
    finally show "line (lists ?s3) l = filter (\<lambda>i. \<not> owner i = t) (line (lists s) l)" .
  next
    assume p: "line (lists s) xPendingReadyList = []"
    then show "line (lists ?s3) xPendingReadyList = []" using r(2) m2(3) m(2) nr(10) by simp
  qed (use m(3,4) m2(4,5) in auto)
  then show ?thesis using that[of "uxTopReadyPriority ?s3" "lists ?s3"] u r(1) s3 by metis
qed


text \<open>The loop readies the tasks at the head of the list whose time has come, and no others.\<close>

definition due_now :: "sched \<Rightarrow> tcb \<Rightarrow> bool" where
  "due_now s t \<longleftrightarrow> container (xGenericListItem t) s = Some (pxDelayedTaskList s) \<and> wake_time s t \<le> xTickCount s"

definition first_time :: "(list_id, item) kmem \<Rightarrow> list_id \<Rightarrow> 32 word" where
  "first_time m l = (case line m l of [] \<Rightarrow> portMAX_DELAY | i # is \<Rightarrow> xItemValue m (Item i))"

lemma unblock_expired_ok:
  assumes "core {} s" "delay_lists s" "in_time_order s (pxDelayedTaskList s)"
  obtains m b where
    "unblock_expired s sw = Some (s\<lparr>lists := m, uxTopReadyPriority := b,
       xNextTaskUnblockTime := first_time m (pxDelayedTaskList s)\<rparr>,
       sw \<or> (\<exists>t. due_now s t \<and> uxPriority s (pxCurrentTCB s) \<le> uxPriority s t))"
    "core {} (s\<lparr>lists := m, uxTopReadyPriority := b\<rparr>)" "woken s (due_now s) (s\<lparr>lists := m\<rparr>)"
  using assms
proof (induction "length (line (lists s) (pxDelayedTaskList s))" arbitrary: s sw thesis rule: less_induct)
  case less
  let ?l = "pxDelayedTaskList s"
  note c = less.prems(2) and d = less.prems(3) and o = less.prems(4)
  note nr = delay_lists_not_ready[OF d]
  have st: "container (xGenericListItem t) s = Some ?l \<longleftrightarrow> xGenericListItem t \<in> set (line (lists s) ?l)" for t
    using line_set[OF c] by simp
  consider "line (lists s) ?l = []"
    | t q where "line (lists s) ?l = xGenericListItem t # q" "xTickCount s < wake_time s t"
    | t q where "line (lists s) ?l = xGenericListItem t # q" "\<not> xTickCount s < wake_time s t"
  proof (cases "line (lists s) ?l")
    case (Cons i q)
    then obtain t where "i = xGenericListItem t" using state_line_generic[OF c nr(3), of i] by auto
    then show ?thesis using that(2,3) Cons by blast
  qed (use that in blast)
  then show ?case
  proof cases
    case 1
    then have "\<not> due_now s t" for t using st by (simp add: due_now_def)
    then have n: "due_now s = (\<lambda>t. False)" by auto
    have u: "unblock_head s = Some (s\<lparr>xNextTaskUnblockTime := portMAX_DELAY\<rparr>, None)"
      using 1 empty_list[OF c] by (simp add: unblock_head_def)
    have "unblock_expired s sw = Some (s\<lparr>xNextTaskUnblockTime := portMAX_DELAY\<rparr>, sw)"
      by (subst unblock_expired.simps) (simp add: u)
    then show ?thesis
      using less.prems(1)[of "lists s" "uxTopReadyPriority s"] c n woken_none[of s] 1 by (simp add: first_time_def)
  next
    case (2 t q)
    have "\<not> due_now s u" for u
    proof
      assume "due_now s u"
      then have "xGenericListItem u \<in> set (line (lists s) ?l)" "wake_time s u \<le> xTickCount s"
        using st by (simp_all add: due_now_def)
      then show False using o 2 by (auto simp: in_time_order_def)
    qed
    then have n: "due_now s = (\<lambda>t. False)" by auto
    have u: "unblock_head s = Some (s\<lparr>xNextTaskUnblockTime := wake_time s t\<rparr>, None)"
      unfolding unblock_head_def head_list[OF c, of ?l, OF nr(1)] using 2 empty_list[OF c] by simp
    have "unblock_expired s sw = Some (s\<lparr>xNextTaskUnblockTime := wake_time s t\<rparr>, sw)"
      by (subst unblock_expired.simps) (simp add: u)
    then show ?thesis
      using less.prems(1)[of "lists s" "uxTopReadyPriority s"] c n woken_none[of s] 2 by (simp add: first_time_def)
  next
    case (3 t q)
    obtain m b where s1: "unblock_head s = Some (s\<lparr>lists := m, uxTopReadyPriority := b\<rparr>, Some t)"
      "core {} (s\<lparr>lists := m, uxTopReadyPriority := b\<rparr>)"
      "woken s (\<lambda>u. u = t) (s\<lparr>lists := m, uxTopReadyPriority := b\<rparr>)"
      by (rule unblock_one[OF c d 3])
    let ?s = "s\<lparr>lists := m, uxTopReadyPriority := b\<rparr>"
    have dt: "distinct (line (lists s) ?l)" by (rule line_distinct[OF c])
    have "line m ?l = filter (\<lambda>i. \<not> owner i = t) (line (lists s) ?l)"
      using s1(3) nr(1,3) by (simp add: woken_def)
    also have "\<dots> = q"
    proof -
      have "owner i \<noteq> t" if i: "i \<in> set q" for i
      proof -
        have "i \<in> set (line (lists s) ?l)" "i \<noteq> xGenericListItem t" using i dt 3(1) by auto
        then show ?thesis by (elim state_line_generic[OF c nr(3)]) auto
      qed
      then show ?thesis using 3(1) by (simp add: filter_id_conv)
    qed
    finally have q: "line m ?l = q" .
    have v: "xItemValue m = xItemValue (lists s)" using s1(3) by (simp add: woken_def)
    have o': "in_time_order ?s (pxDelayedTaskList ?s)"
      using o q v 3(1) by (simp add: in_time_order_def)
    have d': "delay_lists ?s" using d by (simp add: delay_lists_def)
    obtain m' b' where s2: "unblock_expired ?s (sw \<or> uxPriority s (pxCurrentTCB s) \<le> uxPriority s t) =
        Some (?s\<lparr>lists := m', uxTopReadyPriority := b', xNextTaskUnblockTime := first_time m' (pxDelayedTaskList ?s)\<rparr>,
          (sw \<or> uxPriority s (pxCurrentTCB s) \<le> uxPriority s t) \<or>
          (\<exists>t. due_now ?s t \<and> uxPriority ?s (pxCurrentTCB ?s) \<le> uxPriority ?s t))"
      "core {} (?s\<lparr>lists := m', uxTopReadyPriority := b'\<rparr>)" "woken ?s (due_now ?s) (?s\<lparr>lists := m'\<rparr>)"
      by (rule less.hyps[OF _ _ s1(2) d' o', of "sw \<or> uxPriority s (pxCurrentTCB s) \<le> uxPriority s t"])
        (use q 3(1) in auto)
    have wt: "container (xGenericListItem t) s = Some ?l" using st 3(1) by simp
    have due: "due_now s = (\<lambda>u. u = t \<or> due_now ?s u)"
    proof
      fix u
      show "due_now s u = (u = t \<or> due_now ?s u)"
        using s1(3) wt 3(2) v nr(1) by (auto simp: due_now_def woken_def)
    qed
    have w: "woken s (due_now s) (?s\<lparr>lists := m'\<rparr>)"
      unfolding due by (rule woken_trans[OF s1(3) s2(3)]) simp
    have "unblock_expired s sw = unblock_expired ?s (sw \<or> uxPriority s (pxCurrentTCB s) \<le> uxPriority s t)"
      by (subst unblock_expired.simps) (simp add: s1(1))
    also have "\<dots> = Some (s\<lparr>lists := m', uxTopReadyPriority := b', xNextTaskUnblockTime := first_time m' (pxDelayedTaskList s)\<rparr>,
          sw \<or> (\<exists>t. due_now s t \<and> uxPriority s (pxCurrentTCB s) \<le> uxPriority s t))"
      unfolding s2(1) due by auto
    finally show ?thesis
      using less.prems(1)[of m' b'] s2(2) w by (simp add: woken_def)
  qed
qed

section \<open>A tick\<close>

lemma delays_okD:
  assumes "delays_ok s"
  shows delays_lists: "delay_lists s"
    and delays_order: "in_time_order s (pxDelayedTaskList s)" "in_time_order s (pxOverflowDelayedTaskList s)"
    and delays_current: "container (xGenericListItem t) s = Some (pxDelayedTaskList s) \<Longrightarrow>
      xTickCount s < wake_time s t \<and> xNextTaskUnblockTime s \<le> wake_time s t"
    and delays_overflow: "container (xGenericListItem t) s = Some (pxOverflowDelayedTaskList s) \<Longrightarrow>
      wake_time s t < xTickCount s"
    and delays_next: "xTickCount s < xNextTaskUnblockTime s \<or> xNextTaskUnblockTime s = portMAX_DELAY"
  using assms by (auto simp: delays_ok_def)

lemma first_time_least:
  assumes "core H s" "in_time_order s l" "container (xGenericListItem t) s = Some l"
  shows "first_time (lists s) l \<le> wake_time s t"
proof -
  have "xGenericListItem t \<in> set (line (lists s) l)" using line_set[OF assms(1)] assms(3) by simp
  then show ?thesis using assms(2) by (cases "line (lists s) l") (auto simp: in_time_order_def first_time_def)
qed

lemma first_time_head:
  assumes "core H s" "state_list l"
  shows "first_time (lists s) l = portMAX_DELAY \<or>
    (\<exists>t. container (xGenericListItem t) s = Some l \<and> first_time (lists s) l = wake_time s t)"
proof (cases "line (lists s) l")
  case (Cons i q)
  obtain t where "i = xGenericListItem t" "container (xGenericListItem t) s = Some l"
    by (rule state_line_generic[OF assms, of i]) (use Cons in auto)
  then show ?thesis using Cons by (auto simp: first_time_def)
qed (simp add: first_time_def)

lemma in_time_order_filter:
  assumes "in_time_order s l" "line (lists s') l = filter f (line (lists s) l)" "xItemValue (lists s') = xItemValue (lists s)"
  shows "in_time_order s' l"
  using assms by (simp add: in_time_order_def sorted_map sorted_wrt_filter)

lemma tick_loop:
  assumes c: "core {} s" and d: "delay_lists s"
    and o: "in_time_order s (pxDelayedTaskList s)" "in_time_order s (pxOverflowDelayedTaskList s)"
    and a: "\<And>t. container (xGenericListItem t) s = Some (pxDelayedTaskList s) \<Longrightarrow> xNextTaskUnblockTime s \<le> wake_time s t"
    and b: "\<And>t. container (xGenericListItem t) s = Some (pxOverflowDelayedTaskList s) \<Longrightarrow> wake_time s t < xTickCount s"
  obtains m k x where
    "(if xNextTaskUnblockTime s \<le> xTickCount s then unblock_expired s False else Some (s, False)) =
       Some (s\<lparr>lists := m, uxTopReadyPriority := k, xNextTaskUnblockTime := x\<rparr>,
         \<exists>t. due_now s t \<and> uxPriority s (pxCurrentTCB s) \<le> uxPriority s t)"
    "core {} (s\<lparr>lists := m, uxTopReadyPriority := k, xNextTaskUnblockTime := x\<rparr>)"
    "delays_ok (s\<lparr>lists := m, uxTopReadyPriority := k, xNextTaskUnblockTime := x\<rparr>)"
    "woken s (due_now s) (s\<lparr>lists := m\<rparr>)"
proof (cases "xNextTaskUnblockTime s \<le> xTickCount s")
  case False
  have n: "\<not> due_now s t" for t using a[of t] False by (auto simp: due_now_def)
  then have n': "due_now s = (\<lambda>t. False)" by auto
  have "xTickCount s < wake_time s t" if "container (xGenericListItem t) s = Some (pxDelayedTaskList s)" for t
    using a[OF that] False by simp
  then have "delays_ok s"
    unfolding delays_ok_def using d o a b False by auto
  then show ?thesis
    using that[of "xNextTaskUnblockTime s" "uxTopReadyPriority s" "lists s"] c n woken_none[of s] False
    by (simp add: n')
next
  case True
  obtain m k where m: "unblock_expired s False = Some (s\<lparr>lists := m, uxTopReadyPriority := k,
       xNextTaskUnblockTime := first_time m (pxDelayedTaskList s)\<rparr>,
       False \<or> (\<exists>t. due_now s t \<and> uxPriority s (pxCurrentTCB s) \<le> uxPriority s t))"
    "core {} (s\<lparr>lists := m, uxTopReadyPriority := k\<rparr>)" "woken s (due_now s) (s\<lparr>lists := m\<rparr>)"
    by (rule unblock_expired_ok[OF c d o(1)])
  let ?l = "pxDelayedTaskList s" and ?k = "pxOverflowDelayedTaskList s"
  let ?s = "s\<lparr>lists := m, uxTopReadyPriority := k, xNextTaskUnblockTime := first_time m ?l\<rparr>"
  note nr = delay_lists_not_ready[OF d]
  have cs: "core {} ?s" using m(2) by simp
  have v: "xItemValue m = xItemValue (lists s)" using m(3) by (simp add: woken_def)
  have li: "line m ?l = filter (\<lambda>i. \<not> due_now s (owner i)) (line (lists s) ?l)"
    "line m ?k = filter (\<lambda>i. \<not> due_now s (owner i)) (line (lists s) ?k)"
    using m(3) nr(1-4) by (simp_all add: woken_def)
  have w: "pvContainer m (xGenericListItem t) = Some l \<longleftrightarrow>
      container (xGenericListItem t) s = Some l \<and> \<not> due_now s t" if "l = ?l \<or> l = ?k" for t l
    using m(3) that by (auto simp: woken_def nr(1,2)[symmetric])
  have ord: "in_time_order ?s ?l" "in_time_order ?s ?k"
    using in_time_order_filter[OF o(1), of ?s] in_time_order_filter[OF o(2), of ?s] li v by simp_all
  have due: "xTickCount s < wake_time s t" if "pvContainer m (xGenericListItem t) = Some ?l" for t
    using that w[of ?l t] by (auto simp: due_now_def)
  have "first_time m ?l = portMAX_DELAY \<or> xTickCount s < first_time m ?l"
    using first_time_head[OF cs, of ?l] nr(3) due v by auto
  moreover have "first_time m ?l \<le> wake_time s t" if "pvContainer m (xGenericListItem t) = Some ?l" for t
    using first_time_least[OF cs ord(1)] that v by simp
  ultimately have "delays_ok ?s"
    unfolding delays_ok_def using d ord due b w[of ?k] v by (auto simp: delay_lists_def)
  then show ?thesis
    using that[of "first_time m ?l" k m] m(1,3) cs True by simp
qed


definition due_next :: "sched \<Rightarrow> tcb \<Rightarrow> bool" where
  "due_next s t \<longleftrightarrow> delayed s t \<and> wake_time s t = xTickCount s + 1"

text \<open>What a tick may change besides the lists.\<close>

definition ticked :: "sched \<Rightarrow> sched \<Rightarrow> bool" where
  "ticked s s' \<longleftrightarrow> s' = s\<lparr>lists := lists s', uxTopReadyPriority := uxTopReadyPriority s',
     xNextTaskUnblockTime := xNextTaskUnblockTime s', xTickCount := xTickCount s + 1,
     pxDelayedTaskList := pxDelayedTaskList s', pxOverflowDelayedTaskList := pxOverflowDelayedTaskList s',
     xNumOfOverflows := xNumOfOverflows s + (if xTickCount s + 1 = 0 then 1 else 0)\<rparr>"

lemma tickedD:
  assumes "ticked s s'"
  shows "uxPriority s' = uxPriority s" "uxBasePriority s' = uxBasePriority s" "uxMutexesHeld s' = uxMutexesHeld s"
    "allocated s' = allocated s" "pxCurrentTCB s' = pxCurrentTCB s"
    "uxCurrentNumberOfTasks s' = uxCurrentNumberOfTasks s" "xTickCount s' = xTickCount s + 1"
    "xSchedulerRunning s' = xSchedulerRunning s" "uxPendedTicks s' = uxPendedTicks s"
    "xYieldPending s' = xYieldPending s" "uxTaskNumber s' = uxTaskNumber s"
    "uxSchedulerSuspended s' = uxSchedulerSuspended s" "uxTasksDeleted s' = uxTasksDeleted s"
    "PENDSVSET s' = PENDSVSET s"
    "xNumOfOverflows s' = xNumOfOverflows s + (if xTickCount s + 1 = 0 then 1 else 0)"
  by (subst assms[unfolded ticked_def], simp)+

lemma reset_next:
  assumes c: "core H s" and d: "delay_lists s"
  shows "prvResetNextTaskUnblockTime s =
    Some (s\<lparr>xNextTaskUnblockTime := first_time (lists s) (pxDelayedTaskList s)\<rparr>)"
proof (cases "line (lists s) (pxDelayedTaskList s)")
  case Nil
  then show ?thesis using empty_list[OF c] by (simp add: prvResetNextTaskUnblockTime_def first_time_def)
next
  case (Cons i q)
  obtain t where "i = xGenericListItem t"
    by (rule state_line_generic[OF c delay_lists_not_ready(3)[OF d], of i]) (use Cons in auto)
  then show ?thesis
    unfolding prvResetNextTaskUnblockTime_def
      head_list[OF c, of "pxDelayedTaskList s", OF delay_lists_not_ready(1)[OF d]]
    using Cons empty_list[OF c] by (simp add: first_time_def)
qed

lemma next_tick: "(n :: 32 word) + 1 \<noteq> 0 \<Longrightarrow> n < n + 1"
  using unatSuc[of n] by (simp add: word_less_nat_alt add.commute)

lemma last_tick: "(n :: 32 word) + 1 = 0 \<Longrightarrow> n = portMAX_DELAY"
proof -
  assume "n + 1 = 0"
  then have "n = - 1" by (simp add: eq_neg_iff_add_eq_0)
  then show ?thesis by simp
qed

lemma increment_core:
  assumes c: "core {} s" and d: "delays_ok s" and sus: "uxSchedulerSuspended s = 0"
  obtains s' b where "xTaskIncrementTick s = Some (s', b)" "core {} s'" "delays_ok s'" "woken s (due_next s) s'"
    "ticked s s'"
    "b \<longleftrightarrow> (\<exists>t. due_next s t \<and> uxPriority s (pxCurrentTCB s) \<le> uxPriority s t) \<or>
       1 < length (line (lists s') (pxReadyTasksLists (uxPriority s (pxCurrentTCB s)))) \<or> xYieldPending s"
proof -
  let ?T = "xTickCount s + 1" and ?l = "pxDelayedTaskList s" and ?k = "pxOverflowDelayedTaskList s"
  note dl = delays_lists[OF d] and nr = delay_lists_not_ready[OF delays_lists[OF d]]
  obtain s1 where s1: "(if ?T = 0 then taskSWITCH_DELAYED_LISTS (s\<lparr>xTickCount := ?T\<rparr>)
        else Some (s\<lparr>xTickCount := ?T\<rparr>)) = Some s1"
      "core {} s1" "delay_lists s1" "lists s1 = lists s" "due_now s1 = due_next s"
      "in_time_order s1 (pxDelayedTaskList s1)" "in_time_order s1 (pxOverflowDelayedTaskList s1)"
      "\<And>t. container (xGenericListItem t) s1 = Some (pxDelayedTaskList s1) \<Longrightarrow> xNextTaskUnblockTime s1 \<le> wake_time s1 t"
      "\<And>t. container (xGenericListItem t) s1 = Some (pxOverflowDelayedTaskList s1) \<Longrightarrow> wake_time s1 t < xTickCount s1"
      "ticked s s1"
  proof (cases "?T = 0")
    case False
    let ?s = "s\<lparr>xTickCount := ?T\<rparr>"
    have lt: "xTickCount s < ?T" using False by (rule next_tick)
    have cur: "?T \<le> wake_time s t" if "container (xGenericListItem t) s = Some ?l" for t
      using delays_current[OF d that] inc_le by blast
    have due: "due_now ?s = due_next s"
    proof
      fix t
      show "due_now ?s t = due_next s t"
        using cur[of t] delays_overflow[OF d, of t] lt nr(5) unfolding due_now_def due_next_def delayed_iff[OF dl]
        by auto
    qed
    have ov: "wake_time s t < ?T" if "container (xGenericListItem t) s = Some ?k" for t
      using delays_overflow[OF d that] lt by simp
    show ?thesis
      by (rule that[of ?s])
        (use c False due ov delays_order[OF d] delays_current[OF d] dl in
          \<open>auto simp: in_time_order_def delay_lists_def ticked_def\<close>)
  next
    case True
    then have mx: "xTickCount s = portMAX_DELAY" by (rule last_tick)
    have none: "container (xGenericListItem t) s \<noteq> Some ?l" for t
      using delays_current[OF d, of t] mx max_delay_ge[of "wake_time s t"] by (metis leD)
    let ?r = "s\<lparr>xTickCount := ?T, pxDelayedTaskList := ?k, pxOverflowDelayedTaskList := ?l,
        xNumOfOverflows := xNumOfOverflows s + 1\<rparr>"
    let ?s = "?r\<lparr>xNextTaskUnblockTime := first_time (lists s) ?k\<rparr>"
    have c0: "core {} ?r" and d0: "delay_lists ?r" using c dl by (auto simp: delay_lists_def)
    have sw: "taskSWITCH_DELAYED_LISTS (s\<lparr>xTickCount := ?T\<rparr>) = Some ?s"
      using reset_next[OF c0 d0] by (simp add: taskSWITCH_DELAYED_LISTS_def)
    have due: "due_now ?s = due_next s"
    proof
      fix t
      show "due_now ?s t = due_next s t"
        using none[of t] True unfolding due_now_def due_next_def delayed_iff[OF dl] by (auto simp: word_le_nat_alt unsigned_eq_0_iff)
    qed
    have fi: "first_time (lists s) ?k \<le> wake_time s t" if "container (xGenericListItem t) s = Some ?k" for t
      using first_time_least[OF c delays_order(2)[OF d] that] .
    show ?thesis
      by (rule that[of ?s])
        (use c True sw due fi none delays_order[OF d] d0 in
          \<open>auto simp: in_time_order_def delay_lists_def ticked_def\<close>)
  qed
  obtain m k x where m: "(if xNextTaskUnblockTime s1 \<le> xTickCount s1 then unblock_expired s1 False else Some (s1, False)) =
       Some (s1\<lparr>lists := m, uxTopReadyPriority := k, xNextTaskUnblockTime := x\<rparr>,
         \<exists>t. due_now s1 t \<and> uxPriority s1 (pxCurrentTCB s1) \<le> uxPriority s1 t)"
    "core {} (s1\<lparr>lists := m, uxTopReadyPriority := k, xNextTaskUnblockTime := x\<rparr>)"
    "delays_ok (s1\<lparr>lists := m, uxTopReadyPriority := k, xNextTaskUnblockTime := x\<rparr>)"
    "woken s1 (due_now s1) (s1\<lparr>lists := m\<rparr>)"
    by (rule tick_loop[OF s1(2,3,6,7,8,9)])
  let ?s = "s1\<lparr>lists := m, uxTopReadyPriority := k, xNextTaskUnblockTime := x\<rparr>"
  have f: "uxPriority s1 = uxPriority s" "pxCurrentTCB s1 = pxCurrentTCB s" "xYieldPending s1 = xYieldPending s"
    by (simp_all add: tickedD[OF s1(10)])
  have w: "woken s (due_next s) ?s" using m(4) f s1(4,5) by (simp add: woken_def)
  have t: "ticked s ?s" using s1(10) unfolding ticked_def by (cases s; cases s1) simp
  have len: "1 < list_length l ?s \<longleftrightarrow> 1 < length (line m l)" for l
    using length_unat[OF m(2), of l] by (simp add: word_less_nat_alt)
  show ?thesis
    by (rule that[OF _ m(2,3) w t])
      (use sus m(1) s1(1,5) f len in \<open>simp_all add: xTaskIncrementTick_def Let_def\<close>)
qed

end
