(* ===== verification/SchedMoves.thy ===== *)
theory SchedMoves
  imports SchedTick
begin

text \<open>
  The moves of tasks between the lists under the whole invariant: into and out of the delayed lists, the
  choice of the next task, and the end of a suspension of the scheduler.
\<close>

section \<open>Delayed lists\<close>

lemma in_time_order_sub:
  assumes "core H s" "state_list l" "in_time_order s l" "\<And>t. wake_time s' t = wake_time s t"
    "line (lists s') l = filter f (line (lists s) l)"
  shows "in_time_order s' l"
proof -
  have "map (\<lambda>i. item_value i s') (filter f (line (lists s) l)) = map (\<lambda>i. item_value i s) (filter f (line (lists s) l))"
  proof (rule map_cong[OF refl])
    fix i assume "i \<in> set (filter f (line (lists s) l))"
    then have i: "i \<in> set (line (lists s) l)" by simp
    show "item_value i s' = item_value i s"
      by (rule state_line_generic[OF assms(1,2) i]) (use assms(4) in simp)
  qed
  moreover have "sorted (map (\<lambda>i. item_value i s) (filter f (line (lists s) l)))"
    using assms(3) by (simp add: in_time_order_def sorted_map sorted_wrt_filter)
  ultimately show ?thesis unfolding in_time_order_def assms(5) by metis
qed

text \<open>Tasks leave the delayed lists; the time of the next wake-up may become too early, never too late.\<close>

lemma delays_ok_leave:
  assumes c: "core H s" "core H' s'" and d: "delays_ok s"
    and same: "pxDelayedTaskList s' = pxDelayedTaskList s" "pxOverflowDelayedTaskList s' = pxOverflowDelayedTaskList s"
      "xTickCount s' = xTickCount s" "xNextTaskUnblockTime s' = xNextTaskUnblockTime s"
      "\<And>t. wake_time s' t = wake_time s t"
    and li: "\<And>l. l = xDelayedTaskList1 \<or> l = xDelayedTaskList2 \<Longrightarrow> \<exists>f. line (lists s') l = filter f (line (lists s) l)"
  shows "delays_ok s'"
proof -
  note dl = delays_lists[OF d] and nr = delay_lists_not_ready[OF delays_lists[OF d]]
  have two: "pxDelayedTaskList s = xDelayedTaskList1 \<or> pxDelayedTaskList s = xDelayedTaskList2"
    "pxOverflowDelayedTaskList s = xDelayedTaskList1 \<or> pxOverflowDelayedTaskList s = xDelayedTaskList2"
    using dl by (auto simp: delay_lists_def)
  have sub: "container (xGenericListItem t) s = Some l"
    if l: "l = xDelayedTaskList1 \<or> l = xDelayedTaskList2" and w: "container (xGenericListItem t) s' = Some l" for t l
  proof -
    obtain f where f: "line (lists s') l = filter f (line (lists s) l)" using li[OF l] by blast
    have "xGenericListItem t \<in> set (line (lists s') l)" using line_set[OF c(2)] w by simp
    then show ?thesis using line_set[OF c(1), of "xGenericListItem t" l] f by simp
  qed
  have "in_time_order s' (pxDelayedTaskList s)"
    using li[OF two(1)] in_time_order_sub[OF c(1) nr(3) delays_order(1)[OF d] same(5)] by blast
  moreover have "in_time_order s' (pxOverflowDelayedTaskList s)"
    using li[OF two(2)] in_time_order_sub[OF c(1) nr(4) delays_order(2)[OF d] same(5)] by blast
  ultimately show ?thesis
    unfolding delays_ok_def delay_lists_def same
    using dl sub[OF two(1)] sub[OF two(2)] delays_current[OF d] delays_overflow[OF d] delays_next[OF d]
    by (auto simp: delay_lists_def)
qed

lemma delays_ok_reset:
  assumes c: "core H s" and d: "delays_ok s"
  shows "delays_ok (s\<lparr>xNextTaskUnblockTime := first_time (lists s) (pxDelayedTaskList s)\<rparr>)"
proof -
  note nr = delay_lists_not_ready[OF delays_lists[OF d]]
  have "first_time (lists s) (pxDelayedTaskList s) = portMAX_DELAY \<or>
      xTickCount s < first_time (lists s) (pxDelayedTaskList s)"
    using first_time_head[OF c nr(3)] delays_current[OF d] by auto
  then show ?thesis
    using d first_time_least[OF c delays_order(1)[OF d]] by (auto simp: delays_ok_def delay_lists_def in_time_order_def)
qed

lemma sorted_insert_after:
  assumes "sorted (map f q)"
  shows "sorted (map f (takeWhile (\<lambda>j. f j \<le> f i) q @ i # dropWhile (\<lambda>j. f j \<le> f i) q))"
  using assms
proof (induction q)
  case (Cons j q)
  show ?case
  proof (cases "f j \<le> f i")
    case True
    have "\<forall>k \<in> set (takeWhile (\<lambda>j. f j \<le> f i) q @ i # dropWhile (\<lambda>j. f j \<le> f i) q). f j \<le> f k"
      using Cons.prems True by (auto dest: set_takeWhileD set_dropWhileD)
    moreover have "sorted (map f (takeWhile (\<lambda>j. f j \<le> f i) q @ i # dropWhile (\<lambda>j. f j \<le> f i) q))"
      using Cons by simp
    ultimately show ?thesis using True by (simp only: takeWhile.simps dropWhile.simps if_True append_Cons list.map sorted_simps(2)) auto
  next
    case False
    then show ?thesis using Cons.prems by fastforce
  qed
qed simp


section \<open>The current task blocks\<close>

lemma leave_ready:
  assumes c: "core H s" and r: "ready s (pxCurrentTCB s)"
  obtains m b where "leave_ready_list s = Some (s\<lparr>lists := m, uxTopReadyPriority := b\<rparr>)"
    "core (insert (pxCurrentTCB s) H) (s\<lparr>lists := m, uxTopReadyPriority := b\<rparr>)"
    "pvContainer m = (pvContainer (lists s))(xGenericListItem (pxCurrentTCB s) := None)"
    "xItemValue m = xItemValue (lists s)"
    "\<And>l. (\<And>p. l \<noteq> pxReadyTasksLists p) \<Longrightarrow> line m l = line (lists s) l"
proof -
  let ?c = "pxCurrentTCB s" and ?p = "uxPriority s (pxCurrentTCB s)"
  obtain n m where m: "list_remove (xGenericListItem ?c) s = Some (n, s\<lparr>lists := m\<rparr>)"
    "line m = (line (lists s))(pxReadyTasksLists ?p := remove1 (xGenericListItem ?c) (line (lists s) (pxReadyTasksLists ?p)))"
    "pvContainer m = (pvContainer (lists s))(xGenericListItem ?c := None)" "xItemValue m = xItemValue (lists s)"
    "core (insert ?c H) (if n = 0 then portRESET_READY_PRIORITY ?p (s\<lparr>lists := m\<rparr>) else s\<lparr>lists := m\<rparr>)"
    using take_off[OF c r] by metis
  let ?b = "if n = 0 then uxTopReadyPriority s AND NOT (push_bit (unat ?p) 1) else uxTopReadyPriority s"
  have e: "(if n = 0 then portRESET_READY_PRIORITY ?p (s\<lparr>lists := m\<rparr>) else s\<lparr>lists := m\<rparr>) =
      s\<lparr>lists := m, uxTopReadyPriority := ?b\<rparr>"
    by (simp add: portRESET_READY_PRIORITY_def)
  show ?thesis
  proof (rule that)
    show "leave_ready_list s = Some (s\<lparr>lists := m, uxTopReadyPriority := ?b\<rparr>)"
      using m(1) by (simp add: leave_ready_list_def portRESET_READY_PRIORITY_def)
    show "core (insert ?c H) (s\<lparr>lists := m, uxTopReadyPriority := ?b\<rparr>)" using m(5) unfolding e .
    show "line m l = line (lists s) l" if "\<And>p. l \<noteq> pxReadyTasksLists p" for l using m(2) that by simp
  qed (fact m)+
qed

lemma add_delayed:
  assumes c: "core H s" and d: "delays_ok s" and t: "pxCurrentTCB s \<in> allocated s"
    and f: "container (xGenericListItem (pxCurrentTCB s)) s = None" and w: "xTimeToWake \<noteq> xTickCount s"
  obtains m x l where
    "prvAddCurrentTaskToDelayedList xTimeToWake s = Some (s\<lparr>lists := m, xNextTaskUnblockTime := x\<rparr>)"
    "core (H - {pxCurrentTCB s}) (s\<lparr>lists := m, xNextTaskUnblockTime := x\<rparr>)"
    "delays_ok (s\<lparr>lists := m, xNextTaskUnblockTime := x\<rparr>)"
    "l = xDelayedTaskList1 \<or> l = xDelayedTaskList2"
    "pvContainer m = (pvContainer (lists s))(xGenericListItem (pxCurrentTCB s) := Some l)"
    "xItemValue m = (xItemValue (lists s))(Item (xGenericListItem (pxCurrentTCB s)) := xTimeToWake)"
    "\<And>l. l \<noteq> xDelayedTaskList1 \<Longrightarrow> l \<noteq> xDelayedTaskList2 \<Longrightarrow> line m l = line (lists s) l"
proof -
  let ?c = "pxCurrentTCB s" and ?i = "xGenericListItem (pxCurrentTCB s)"
  let ?m = "listSET_LIST_ITEM_VALUE ?i xTimeToWake (lists s)"
  note dl = delays_lists[OF d] and nr = delay_lists_not_ready[OF delays_lists[OF d]]
  let ?l = "if xTimeToWake < xTickCount s then pxOverflowDelayedTaskList s else pxDelayedTaskList s"
  let ?k = "if xTimeToWake < xTickCount s then pxDelayedTaskList s else pxOverflowDelayedTaskList s"
  let ?x = "if xTimeToWake < xTickCount s \<or> \<not> xTimeToWake < xNextTaskUnblockTime s then xNextTaskUnblockTime s else xTimeToWake"
  have cv: "core H (s\<lparr>lists := ?m\<rparr>)" by (rule core_value[OF c])
  have lv: "line ?m = line (lists s)" by (rule listSET_LIST_ITEM_VALUE_line[OF core_lists[OF c]])
  have b: "blocked_list ?l" using nr(12,13) by simp
  obtain m where m: "list_insert ?l ?i (s\<lparr>lists := ?m\<rparr>) = Some (s\<lparr>lists := m\<rparr>)" "core (H - {?c}) (s\<lparr>lists := m\<rparr>)"
    "line m = (line ?m)(?l := inserted ?m ?l ?i)" "pvContainer m = (pvContainer ?m)(?i := Some ?l)"
    "xItemValue m = xItemValue ?m"
    using put_sorted[OF cv _ _ b, of ?c] t f by auto
  have v: "xItemValue m = (xItemValue (lists s))(Item ?i := xTimeToWake)" using m(5) by simp
  have wt: "xItemValue m (Item (xGenericListItem t)) = (if t = ?c then xTimeToWake else wake_time s t)" for t
    using v by simp
  have mq: "map (\<lambda>j. xItemValue m (Item j)) q = map (\<lambda>j. item_value j s) q" if "?i \<notin> set q" for q
    using that v by (induction q) auto
  have ord0: "sorted (map (\<lambda>j. xItemValue m (Item j)) (line (lists s) l))" if "l = ?l \<or> l = ?k" for l
  proof -
    have n: "?i \<notin> set (line (lists s) l)" using line_set[OF c, of ?i l] f by simp
    have "sorted (map (\<lambda>j. item_value j s) (line (lists s) l))"
      using that delays_order[OF d] by (auto simp: in_time_order_def split: if_splits)
    then show ?thesis unfolding mq[OF n] .
  qed
  let ?p = "\<lambda>j. xItemValue m (Item j) \<le> xItemValue m (Item ?i)"
  have ins: "line m ?l = takeWhile ?p (line (lists s) ?l) @ ?i # dropWhile ?p (line (lists s) ?l)"
    unfolding m(3) by (simp only: inserted_def Let_def m(5)[symmetric] lv fun_upd_same)
  have "sorted (map (\<lambda>j. xItemValue m (Item j)) (line m ?l))"
    unfolding ins by (rule sorted_insert_after[OF ord0]) simp
  moreover have "line m ?k = line (lists s) ?k" using m(3) lv nr(5) by auto
  then have "sorted (map (\<lambda>j. xItemValue m (Item j)) (line m ?k))" using ord0[of ?k] by metis
  ultimately have ord: "in_time_order (s\<lparr>lists := m\<rparr>) (pxDelayedTaskList s)"
    "in_time_order (s\<lparr>lists := m\<rparr>) (pxOverflowDelayedTaskList s)"
    by (auto simp: in_time_order_def split: if_splits)
  have ok: "delays_ok (s\<lparr>lists := m, xNextTaskUnblockTime := ?x\<rparr>)"
    unfolding delays_ok_def
  proof (intro conjI allI impI)
    fix t
    assume *: "container (xGenericListItem t) (s\<lparr>lists := m, xNextTaskUnblockTime := ?x\<rparr>) =
        Some (pxDelayedTaskList (s\<lparr>lists := m, xNextTaskUnblockTime := ?x\<rparr>))"
    show "xTickCount (s\<lparr>lists := m, xNextTaskUnblockTime := ?x\<rparr>) < wake_time (s\<lparr>lists := m, xNextTaskUnblockTime := ?x\<rparr>) t"
      "xNextTaskUnblockTime (s\<lparr>lists := m, xNextTaskUnblockTime := ?x\<rparr>) \<le> wake_time (s\<lparr>lists := m, xNextTaskUnblockTime := ?x\<rparr>) t"
      using * delays_current[OF d, of t] m(4) wt[of t] w nr(5) by (auto split: if_splits)
  next
    fix t
    assume *: "container (xGenericListItem t) (s\<lparr>lists := m, xNextTaskUnblockTime := ?x\<rparr>) =
        Some (pxOverflowDelayedTaskList (s\<lparr>lists := m, xNextTaskUnblockTime := ?x\<rparr>))"
    show "wake_time (s\<lparr>lists := m, xNextTaskUnblockTime := ?x\<rparr>) t < xTickCount (s\<lparr>lists := m, xNextTaskUnblockTime := ?x\<rparr>)"
      using * delays_overflow[OF d, of t] m(4) wt[of t] w nr(5) by (auto split: if_splits)
  next
    show "xTickCount (s\<lparr>lists := m, xNextTaskUnblockTime := ?x\<rparr>) < xNextTaskUnblockTime (s\<lparr>lists := m, xNextTaskUnblockTime := ?x\<rparr>) \<or>
        xNextTaskUnblockTime (s\<lparr>lists := m, xNextTaskUnblockTime := ?x\<rparr>) = portMAX_DELAY"
      using delays_next[OF d] w by auto
  qed (use dl ord in \<open>simp_all add: delay_lists_def in_time_order_def\<close>)
  have run: "prvAddCurrentTaskToDelayedList xTimeToWake s = Some (s\<lparr>lists := m, xNextTaskUnblockTime := ?x\<rparr>)"
    using m(1) by (cases "xTimeToWake < xTickCount s") (simp_all add: prvAddCurrentTaskToDelayedList_def Let_def)
  show ?thesis
    by (rule that[OF run _ ok, of ?l]) (use m(2-4) v lv dl in \<open>auto simp: delay_lists_def\<close>)
qed

text \<open>What a move of tasks may change, and the tasks it leaves alone.\<close>

definition moved :: "sched \<Rightarrow> sched \<Rightarrow> bool" where
  "moved s s' \<longleftrightarrow> s' = s\<lparr>lists := lists s', uxTopReadyPriority := uxTopReadyPriority s',
     xNextTaskUnblockTime := xNextTaskUnblockTime s'\<rparr>"

lemma movedD:
  assumes "moved s s'"
  shows "uxPriority s' = uxPriority s" "uxBasePriority s' = uxBasePriority s" "uxMutexesHeld s' = uxMutexesHeld s"
    "allocated s' = allocated s" "pxCurrentTCB s' = pxCurrentTCB s"
    "pxDelayedTaskList s' = pxDelayedTaskList s" "pxOverflowDelayedTaskList s' = pxOverflowDelayedTaskList s"
    "uxCurrentNumberOfTasks s' = uxCurrentNumberOfTasks s" "xTickCount s' = xTickCount s"
    "xSchedulerRunning s' = xSchedulerRunning s" "uxPendedTicks s' = uxPendedTicks s"
    "xYieldPending s' = xYieldPending s" "uxTaskNumber s' = uxTaskNumber s"
    "uxSchedulerSuspended s' = uxSchedulerSuspended s" "uxTasksDeleted s' = uxTasksDeleted s"
    "PENDSVSET s' = PENDSVSET s" "xNumOfOverflows s' = xNumOfOverflows s"
  by (subst assms[unfolded moved_def], simp)+

lemma moved_trans: "moved s s' \<Longrightarrow> moved s' s'' \<Longrightarrow> moved s s''"
  unfolding moved_def by (cases s; cases s'; cases s'') simp

lemma moved_lists [intro, simp]:
  "moved s s" "moved s (s\<lparr>lists := m\<rparr>)" "moved s (s\<lparr>lists := m, uxTopReadyPriority := b\<rparr>)"
  "moved s (s\<lparr>lists := m, xNextTaskUnblockTime := x\<rparr>)" "moved s (s\<lparr>xNextTaskUnblockTime := x\<rparr>)"
  by (simp_all add: moved_def)

lemma moved_ready [intro]: "moved s s' \<Longrightarrow> moved s (prvAddTaskToReadyList t s')"
  by (rule moved_trans, assumption) (simp add: moved_def prvAddTaskToReadyList_def list_insert_end_def portRECORD_READY_PRIORITY_def)

definition kept :: "sched \<Rightarrow> sched \<Rightarrow> tcb \<Rightarrow> bool" where
  "kept s s' t \<longleftrightarrow> container (xGenericListItem t) s' = container (xGenericListItem t) s \<and>
     container (xEventListItem t) s' = container (xEventListItem t) s \<and> wake_time s' t = wake_time s t"

lemma kept_trans: "kept s s' t \<Longrightarrow> kept s' s'' t \<Longrightarrow> kept s s'' t"
  by (simp add: kept_def)

lemma kept_refl [simp, intro]: "kept s s t"
  by (simp add: kept_def)

lemma running_okD:
  assumes "running_ok idle s"
  shows running_core: "core {} s" and running_delays: "delays_ok s"
    and running_current: "pxCurrentTCB s \<in> allocated s" and running_idle: "ready s idle"
    and running_started: "xSchedulerRunning s"
    and running_number: "uxCurrentNumberOfTasks s = word_of_nat (card (allocated s))"
    and running_deleted: "unat (uxTasksDeleted s) = length (line (lists s) xTasksWaitingTermination)"
  using assms by (simp_all add: running_ok_def)

lemma running_ok_moved:
  assumes "running_ok idle s" "moved s s'" "core {} s'" "delays_ok s'" "ready s' idle"
    "length (line (lists s') xTasksWaitingTermination) = length (line (lists s) xTasksWaitingTermination)"
  shows "running_ok idle s'"
  using assms(1,3-6) by (simp add: running_ok_def movedD[OF assms(2)])

lemma delays_ok_same:
  assumes c: "core H s" "core H' s'" and d: "delays_ok s" and m: "moved s s'"
    "xNextTaskUnblockTime s' = xNextTaskUnblockTime s" "\<And>t. wake_time s' t = wake_time s t"
    and li: "\<And>l. l = xDelayedTaskList1 \<or> l = xDelayedTaskList2 \<Longrightarrow> line (lists s') l = line (lists s) l"
  shows "delays_ok s'"
proof (rule delays_ok_leave[OF c d])
  show "\<exists>f. line (lists s') l = filter f (line (lists s) l)" if "l = xDelayedTaskList1 \<or> l = xDelayedTaskList2" for l
    using li[OF that] by (intro exI[of _ "\<lambda>_. True"]) simp
qed (use m(2,3) movedD[OF m(1)] in simp_all)

text \<open>The end of a blocking call: the current task goes to a delayed list, or to the suspended list.\<close>

lemma suspend_or_delay_ok:
  assumes c: "core H s" and d: "delays_ok s" and t: "pxCurrentTCB s \<in> allocated s"
    and f: "container (xGenericListItem (pxCurrentTCB s)) s = None" and n: "n \<noteq> 0"
  obtains s' where "suspend_or_delay n s = Some s'" "core (H - {pxCurrentTCB s}) s'" "delays_ok s'" "moved s s'"
    "\<And>t. t \<noteq> pxCurrentTCB s \<Longrightarrow> kept s s' t" "\<And>t. container (xEventListItem t) s' = container (xEventListItem t) s"
    "line (lists s') xTasksWaitingTermination = line (lists s) xTasksWaitingTermination"
    "line (lists s') xPendingReadyList = line (lists s) xPendingReadyList"
    "container (xGenericListItem (pxCurrentTCB s)) s' =
       Some xSuspendedTaskList \<and> n = portMAX_DELAY \<or>
     delayed s' (pxCurrentTCB s) \<and> wake_time s' (pxCurrentTCB s) = xTickCount s + n \<and> n \<noteq> portMAX_DELAY"
proof (cases "n = portMAX_DELAY")
  case True
  obtain m where m: "list_insert_end xSuspendedTaskList (xGenericListItem (pxCurrentTCB s)) s = s\<lparr>lists := m\<rparr>"
    "core (H - {pxCurrentTCB s}) (s\<lparr>lists := m\<rparr>)"
    "line m = (line (lists s))(xSuspendedTaskList :=
       line (lists s) xSuspendedTaskList @ [xGenericListItem (pxCurrentTCB s)])"
    "pvContainer m = (pvContainer (lists s))(xGenericListItem (pxCurrentTCB s) := Some xSuspendedTaskList)"
    "xItemValue m = xItemValue (lists s)"
    by (rule put_end[OF c t f, of xSuspendedTaskList]) (auto simp: blocked_list_def)
  have "delays_ok (s\<lparr>lists := m\<rparr>)"
    by (rule delays_ok_same[OF c m(2) d]) (use m(3,5) in auto)
  then show ?thesis
    using that[of "s\<lparr>lists := m\<rparr>"] m True by (simp add: suspend_or_delay_def kept_def)
next
  case False
  have w: "xTickCount s + n \<noteq> xTickCount s" using n by simp
  obtain m x l where m:
    "prvAddCurrentTaskToDelayedList (xTickCount s + n) s = Some (s\<lparr>lists := m, xNextTaskUnblockTime := x\<rparr>)"
    "core (H - {pxCurrentTCB s}) (s\<lparr>lists := m, xNextTaskUnblockTime := x\<rparr>)"
    "delays_ok (s\<lparr>lists := m, xNextTaskUnblockTime := x\<rparr>)"
    "l = xDelayedTaskList1 \<or> l = xDelayedTaskList2"
    "pvContainer m = (pvContainer (lists s))(xGenericListItem (pxCurrentTCB s) := Some l)"
    "xItemValue m = (xItemValue (lists s))(Item (xGenericListItem (pxCurrentTCB s)) := xTickCount s + n)"
    "\<And>l. l \<noteq> xDelayedTaskList1 \<Longrightarrow> l \<noteq> xDelayedTaskList2 \<Longrightarrow> line m l = line (lists s) l"
    by (rule add_delayed[OF c d t f w]) metis
  then show ?thesis
    using that[of "s\<lparr>lists := m, xNextTaskUnblockTime := x\<rparr>"] False
    by (auto simp: suspend_or_delay_def kept_def delayed_def)
qed

text \<open>What a call that blocks the current task does.\<close>

definition blocks :: "sched \<Rightarrow> sched \<Rightarrow> bool" where
  "blocks s s' \<longleftrightarrow> moved s s' \<and> (\<forall>t. t \<noteq> pxCurrentTCB s \<longrightarrow> kept s s' t) \<and>
     line (lists s') xPendingReadyList = line (lists s) xPendingReadyList \<and>
     (\<exists>l. container (xGenericListItem (pxCurrentTCB s)) s' = Some l \<and> blocked_list l)"

lemma off_ready:
  assumes c: "core H s" and d: "delays_ok s" and r: "ready s (pxCurrentTCB s)"
  obtains m b where "leave_ready_list s = Some (s\<lparr>lists := m, uxTopReadyPriority := b\<rparr>)"
    "core (insert (pxCurrentTCB s) H) (s\<lparr>lists := m, uxTopReadyPriority := b\<rparr>)"
    "delays_ok (s\<lparr>lists := m, uxTopReadyPriority := b\<rparr>)"
    "pvContainer m = (pvContainer (lists s))(xGenericListItem (pxCurrentTCB s) := None)"
    "xItemValue m = xItemValue (lists s)"
    "\<And>l. (\<And>p. l \<noteq> pxReadyTasksLists p) \<Longrightarrow> line m l = line (lists s) l"
proof -
  obtain m b where m: "leave_ready_list s = Some (s\<lparr>lists := m, uxTopReadyPriority := b\<rparr>)"
    "core (insert (pxCurrentTCB s) H) (s\<lparr>lists := m, uxTopReadyPriority := b\<rparr>)"
    "pvContainer m = (pvContainer (lists s))(xGenericListItem (pxCurrentTCB s) := None)"
    "xItemValue m = xItemValue (lists s)"
    "\<And>l. (\<And>p. l \<noteq> pxReadyTasksLists p) \<Longrightarrow> line m l = line (lists s) l"
    by (rule leave_ready[OF c r]) metis
  have "delays_ok (s\<lparr>lists := m, uxTopReadyPriority := b\<rparr>)"
    by (rule delays_ok_same[OF c m(2) d]) (use m(4,5) in auto)
  then show ?thesis using that m by blast
qed

lemma running_ok_blocks:
  assumes r: "running_ok idle s" and c: "core {} s'" "delays_ok s'" and b: "blocks s s'" and i: "pxCurrentTCB s \<noteq> idle"
    and t: "line (lists s') xTasksWaitingTermination = line (lists s) xTasksWaitingTermination"
  shows "running_ok idle s'"
proof (rule running_ok_moved[OF r _ c])
  show m: "moved s s'" using b by (simp add: blocks_def)
  have "kept s s' idle" using b i by (auto simp: blocks_def)
  then show "ready s' idle" using running_idle[OF r] by (simp add: kept_def movedD[OF m])
qed (use t in simp)

lemma sleep_until_ok:
  assumes r: "running_ok idle s" and c: "ready s (pxCurrentTCB s)" "pxCurrentTCB s \<noteq> idle" and w: "w \<noteq> xTickCount s"
  obtains s' where "sleep_until w s = Some s'" "running_ok idle s'" "blocks s s'"
    "delayed s' (pxCurrentTCB s)" "wake_time s' (pxCurrentTCB s) = w"
    "\<And>t. container (xEventListItem t) s' = container (xEventListItem t) s"
proof -
  obtain m b where m: "leave_ready_list s = Some (s\<lparr>lists := m, uxTopReadyPriority := b\<rparr>)"
    "core (insert (pxCurrentTCB s) {}) (s\<lparr>lists := m, uxTopReadyPriority := b\<rparr>)"
    "delays_ok (s\<lparr>lists := m, uxTopReadyPriority := b\<rparr>)"
    "pvContainer m = (pvContainer (lists s))(xGenericListItem (pxCurrentTCB s) := None)"
    "xItemValue m = xItemValue (lists s)"
    "\<And>l. (\<And>p. l \<noteq> pxReadyTasksLists p) \<Longrightarrow> line m l = line (lists s) l"
    by (rule off_ready[OF running_core[OF r] running_delays[OF r] c(1)]) metis
  let ?s = "s\<lparr>lists := m, uxTopReadyPriority := b\<rparr>"
  obtain m2 x l where m2: "prvAddCurrentTaskToDelayedList w ?s = Some (?s\<lparr>lists := m2, xNextTaskUnblockTime := x\<rparr>)"
    "core (insert (pxCurrentTCB ?s) {} - {pxCurrentTCB ?s}) (?s\<lparr>lists := m2, xNextTaskUnblockTime := x\<rparr>)"
    "delays_ok (?s\<lparr>lists := m2, xNextTaskUnblockTime := x\<rparr>)"
    "l = xDelayedTaskList1 \<or> l = xDelayedTaskList2"
    "pvContainer m2 = (pvContainer (lists ?s))(xGenericListItem (pxCurrentTCB ?s) := Some l)"
    "xItemValue m2 = (xItemValue (lists ?s))(Item (xGenericListItem (pxCurrentTCB ?s)) := w)"
    "\<And>l. l \<noteq> xDelayedTaskList1 \<Longrightarrow> l \<noteq> xDelayedTaskList2 \<Longrightarrow> line m2 l = line (lists ?s) l"
    by (rule add_delayed[OF m(2,3), of w]) (use m(4) w running_current[OF r] in \<open>simp_all\<close>)
  let ?r = "?s\<lparr>lists := m2, xNextTaskUnblockTime := x\<rparr>"
  have b: "blocks s ?r"
    using m(4,5,6) m2(4-7) by (auto simp: blocks_def kept_def moved_def blocked_list_def)
  have "running_ok idle ?r"
    by (rule running_ok_blocks[OF r _ m2(3) b c(2)]) (use m2(2,7) m(6) in simp_all)
  then show ?thesis
    using that[of ?r] m(1,4) m2 b by (auto simp: sleep_until_def delayed_def)
qed

lemma blocking_ok:
  assumes c: "core H s" "H \<subseteq> {pxCurrentTCB s}" and d: "delays_ok s" and r: "ready s (pxCurrentTCB s)"
    and t: "pxCurrentTCB s \<in> allocated s" and n: "n \<noteq> 0"
  obtains s' where "leave_ready_list s \<bind> suspend_or_delay n = Some s'" "core {} s'" "delays_ok s'" "blocks s s'"
    "\<And>t. container (xEventListItem t) s' = container (xEventListItem t) s"
    "line (lists s') xTasksWaitingTermination = line (lists s) xTasksWaitingTermination"
    "container (xGenericListItem (pxCurrentTCB s)) s' =
       Some xSuspendedTaskList \<and> n = portMAX_DELAY \<or>
     delayed s' (pxCurrentTCB s) \<and> wake_time s' (pxCurrentTCB s) = xTickCount s + n \<and> n \<noteq> portMAX_DELAY"
proof -
  obtain m b where m: "leave_ready_list s = Some (s\<lparr>lists := m, uxTopReadyPriority := b\<rparr>)"
    "core (insert (pxCurrentTCB s) H) (s\<lparr>lists := m, uxTopReadyPriority := b\<rparr>)"
    "delays_ok (s\<lparr>lists := m, uxTopReadyPriority := b\<rparr>)"
    "pvContainer m = (pvContainer (lists s))(xGenericListItem (pxCurrentTCB s) := None)"
    "xItemValue m = xItemValue (lists s)"
    "\<And>l. (\<And>p. l \<noteq> pxReadyTasksLists p) \<Longrightarrow> line m l = line (lists s) l"
    by (rule off_ready[OF c(1) d r]) metis
  let ?s = "s\<lparr>lists := m, uxTopReadyPriority := b\<rparr>"
  obtain s' where s': "suspend_or_delay n ?s = Some s'"
    "core (insert (pxCurrentTCB s) H - {pxCurrentTCB ?s}) s'" "delays_ok s'" "moved ?s s'"
    "\<And>t. t \<noteq> pxCurrentTCB ?s \<Longrightarrow> kept ?s s' t" "\<And>t. container (xEventListItem t) s' = container (xEventListItem t) ?s"
    "line (lists s') xTasksWaitingTermination = line (lists ?s) xTasksWaitingTermination"
    "line (lists s') xPendingReadyList = line (lists ?s) xPendingReadyList"
    "container (xGenericListItem (pxCurrentTCB ?s)) s' =
       Some xSuspendedTaskList \<and> n = portMAX_DELAY \<or>
     delayed s' (pxCurrentTCB ?s) \<and> wake_time s' (pxCurrentTCB ?s) = xTickCount ?s + n \<and> n \<noteq> portMAX_DELAY"
    by (rule suspend_or_delay_ok[OF m(2,3) _ _ n]) (use m(4) t in simp_all)
  have k: "kept s ?s t" if "t \<noteq> pxCurrentTCB s" for t using m(4,5) that by (simp add: kept_def)
  have "moved s s'" using moved_trans[OF _ s'(4)] by simp
  moreover have "kept s s' t" if "t \<noteq> pxCurrentTCB s" for t
    using kept_trans[OF k[OF that]] s'(5) that by simp
  moreover have "\<exists>l. container (xGenericListItem (pxCurrentTCB s)) s' = Some l \<and> blocked_list l"
    using s'(9) by (auto simp: delayed_def blocked_list_def)
  ultimately have "blocks s s'" using s'(8) m(6) by (simp add: blocks_def)
  moreover have "insert (pxCurrentTCB s) H - {pxCurrentTCB ?s} = {}" using c(2) by auto
  then have "core {} s'" using s'(2) by (simp only:)
  ultimately show ?thesis
    using that[of s'] s' m(1,4,6) by simp
qed


text \<open>The calls that wait for an event.\<close>

lemma event_none: "core {} s \<Longrightarrow> t \<in> allocated s \<Longrightarrow> ready s t \<Longrightarrow> container (xEventListItem t) s = None"
  using core_task[of "{}" s t] by (simp add: task_ok_def)

lemma block_on_event:
  assumes r: "running_ok idle s" and c: "ready s (pxCurrentTCB s)" "pxCurrentTCB s \<noteq> idle" and n: "n \<noteq> 0"
    and m: "core (insert (pxCurrentTCB s) {}) (s\<lparr>lists := m\<rparr>)" "line m = (line (lists s))(EventList e := q)"
      "pvContainer m = (pvContainer (lists s))(xEventListItem (pxCurrentTCB s) := Some (EventList e))"
      "\<And>t. xItemValue m (Item (xGenericListItem t)) = wake_time s t"
  obtains s' where "leave_ready_list (s\<lparr>lists := m\<rparr>) \<bind> suspend_or_delay n = Some s'" "running_ok idle s'" "blocks s s'"
    "container (xEventListItem (pxCurrentTCB s)) s' = Some (EventList e)"
    "container (xGenericListItem (pxCurrentTCB s)) s' =
       Some xSuspendedTaskList \<and> n = portMAX_DELAY \<or>
     delayed s' (pxCurrentTCB s) \<and> wake_time s' (pxCurrentTCB s) = xTickCount s + n \<and> n \<noteq> portMAX_DELAY"
proof -
  let ?s = "s\<lparr>lists := m\<rparr>"
  have d: "delays_ok ?s"
    by (rule delays_ok_same[OF running_core[OF r] m(1) running_delays[OF r]]) (use m(2,4) in auto)
  have r': "ready ?s (pxCurrentTCB ?s)" using c(1) m(3) by simp
  obtain s' where s': "leave_ready_list ?s \<bind> suspend_or_delay n = Some s'" "core {} s'" "delays_ok s'" "blocks ?s s'"
    "\<And>t. container (xEventListItem t) s' = container (xEventListItem t) ?s"
    "line (lists s') xTasksWaitingTermination = line (lists ?s) xTasksWaitingTermination"
    "container (xGenericListItem (pxCurrentTCB ?s)) s' =
       Some xSuspendedTaskList \<and> n = portMAX_DELAY \<or>
     delayed s' (pxCurrentTCB ?s) \<and> wake_time s' (pxCurrentTCB ?s) = xTickCount ?s + n \<and> n \<noteq> portMAX_DELAY"
    by (rule blocking_ok[OF m(1) _ d r' _ n]) (use running_current[OF r] in simp_all)
  have "kept s s' t" if "t \<noteq> pxCurrentTCB s" for t
    using s'(4) that m(3,4) by (simp add: blocks_def kept_def)
  moreover have "moved s s'" using s'(4) moved_trans[of s ?s s'] by (simp add: blocks_def)
  ultimately have b: "blocks s s'" using s'(4) m(2) by (simp add: blocks_def)
  have "running_ok idle s'"
    by (rule running_ok_blocks[OF r s'(2,3) b c(2)]) (use s'(6) m(2) in simp)
  then show ?thesis using that[of s'] s' b m(3) by simp
qed

lemma vTaskPlaceOnEventList_ok:
  assumes r: "running_ok idle s" and c: "ready s (pxCurrentTCB s)" "pxCurrentTCB s \<noteq> idle" and n: "n \<noteq> 0"
  obtains s' where "vTaskPlaceOnEventList e n s = Some s'" "running_ok idle s'" "blocks s s'"
    "container (xEventListItem (pxCurrentTCB s)) s' = Some (EventList e)"
    "container (xGenericListItem (pxCurrentTCB s)) s' =
       Some xSuspendedTaskList \<and> n = portMAX_DELAY \<or>
     delayed s' (pxCurrentTCB s) \<and> wake_time s' (pxCurrentTCB s) = xTickCount s + n \<and> n \<noteq> portMAX_DELAY"
proof -
  let ?c = "pxCurrentTCB s"
  obtain m where m: "list_insert (EventList e) (xEventListItem ?c) s = Some (s\<lparr>lists := m\<rparr>)"
    "core (insert ?c {}) (s\<lparr>lists := m\<rparr>)"
    "line m = (line (lists s))(EventList e := inserted (lists s) (EventList e) (xEventListItem ?c))"
    "pvContainer m = (pvContainer (lists s))(xEventListItem ?c := Some (EventList e))"
    "xItemValue m = xItemValue (lists s)"
    by (rule put_event_sorted[OF running_core[OF r] running_current[OF r]
      event_none[OF running_core[OF r] running_current[OF r] c(1)], of "EventList e"]) auto
  obtain s' where "leave_ready_list (s\<lparr>lists := m\<rparr>) \<bind> suspend_or_delay n = Some s'" "running_ok idle s'" "blocks s s'"
    "container (xEventListItem ?c) s' = Some (EventList e)"
    "container (xGenericListItem ?c) s' = Some xSuspendedTaskList \<and> n = portMAX_DELAY \<or>
     delayed s' ?c \<and> wake_time s' ?c = xTickCount s + n \<and> n \<noteq> portMAX_DELAY"
    by (rule block_on_event[OF r c n m(2-4)]) (use m(5) in auto)
  then show ?thesis using that m(1) by (simp add: vTaskPlaceOnEventList_def)
qed

lemma vTaskPlaceOnUnorderedEventList_ok:
  assumes r: "running_ok idle s" and c: "ready s (pxCurrentTCB s)" "pxCurrentTCB s \<noteq> idle" and n: "n \<noteq> 0"
  obtains s' where "vTaskPlaceOnUnorderedEventList e v n s = Some s'" "running_ok idle s'" "blocks s s'"
    "container (xEventListItem (pxCurrentTCB s)) s' = Some (EventList e)"
    "container (xGenericListItem (pxCurrentTCB s)) s' =
       Some xSuspendedTaskList \<and> n = portMAX_DELAY \<or>
     delayed s' (pxCurrentTCB s) \<and> wake_time s' (pxCurrentTCB s) = xTickCount s + n \<and> n \<noteq> portMAX_DELAY"
proof -
  let ?c = "pxCurrentTCB s" and ?i = "xEventListItem (pxCurrentTCB s)"
  let ?k = "listSET_LIST_ITEM_VALUE ?i (v OR taskEVENT_LIST_ITEM_VALUE_IN_USE) (lists s)"
  have k: "core {} (s\<lparr>lists := ?k\<rparr>)" "line ?k = line (lists s)"
    using core_value[OF running_core[OF r]] listSET_LIST_ITEM_VALUE_line[OF core_lists[OF running_core[OF r]]] by auto
  obtain m where m: "list_insert_end (EventList e) ?i (s\<lparr>lists := ?k\<rparr>) = s\<lparr>lists := m\<rparr>"
    "core (insert ?c {}) (s\<lparr>lists := m\<rparr>)"
    "line m = (line ?k)(EventList e := line ?k (EventList e) @ [?i])"
    "pvContainer m = (pvContainer ?k)(?i := Some (EventList e))" "xItemValue m = xItemValue ?k"
    using put_event_end[OF k(1), of ?c "EventList e"] running_current[OF r]
      event_none[OF running_core[OF r] running_current[OF r] c(1)] by auto
  obtain s' where "leave_ready_list (s\<lparr>lists := m\<rparr>) \<bind> suspend_or_delay n = Some s'" "running_ok idle s'" "blocks s s'"
    "container (xEventListItem ?c) s' = Some (EventList e)"
    "container (xGenericListItem ?c) s' = Some xSuspendedTaskList \<and> n = portMAX_DELAY \<or>
     delayed s' ?c \<and> wake_time s' ?c = xTickCount s + n \<and> n \<noteq> portMAX_DELAY"
    by (rule block_on_event[OF r c n m(2), of e "line ?k (EventList e) @ [?i]"]) (use m(3-5) k(2) in auto)
  then show ?thesis using that m(1) by (simp add: vTaskPlaceOnUnorderedEventList_def Let_def)
qed


lemma vTaskPlaceOnEventListRestricted_ok:
  assumes r: "running_ok idle s" and c: "ready s (pxCurrentTCB s)" "pxCurrentTCB s \<noteq> idle"
    and n: "n \<noteq> 0" "n \<noteq> portMAX_DELAY"
  obtains s' where "vTaskPlaceOnEventListRestricted e n s = Some s'" "running_ok idle s'" "blocks s s'"
    "container (xEventListItem (pxCurrentTCB s)) s' = Some (EventList e)"
    "delayed s' (pxCurrentTCB s)" "wake_time s' (pxCurrentTCB s) = xTickCount s + n"
proof -
  let ?c = "pxCurrentTCB s" and ?i = "xEventListItem (pxCurrentTCB s)"
  obtain m where m: "list_insert_end (EventList e) ?i s = s\<lparr>lists := m\<rparr>"
    "core (insert ?c {}) (s\<lparr>lists := m\<rparr>)"
    "line m = (line (lists s))(EventList e := line (lists s) (EventList e) @ [?i])"
    "pvContainer m = (pvContainer (lists s))(?i := Some (EventList e))" "xItemValue m = xItemValue (lists s)"
    by (rule put_event_end[OF running_core[OF r] running_current[OF r]
      event_none[OF running_core[OF r] running_current[OF r] c(1)], of "EventList e"]) auto
  obtain s' where s': "leave_ready_list (s\<lparr>lists := m\<rparr>) \<bind> suspend_or_delay n = Some s'" "running_ok idle s'" "blocks s s'"
    "container (xEventListItem ?c) s' = Some (EventList e)"
    "container (xGenericListItem ?c) s' = Some xSuspendedTaskList \<and> n = portMAX_DELAY \<or>
     delayed s' ?c \<and> wake_time s' ?c = xTickCount s + n \<and> n \<noteq> portMAX_DELAY"
    by (rule block_on_event[OF r c n(1) m(2-4)]) (use m(5) in auto)
  have "(\<lambda>s. prvAddCurrentTaskToDelayedList (xTickCount s + n) s) = suspend_or_delay n"
    using n(2) by (simp add: suspend_or_delay_def fun_eq_iff)
  then show ?thesis using that s' m(1) n(2) by (simp add: vTaskPlaceOnEventListRestricted_def)
qed

section \<open>The choice of the next task\<close>

lemma highest_bit:
  assumes "bit b k"
  shows "bit b (unat (portGET_HIGHEST_PRIORITY b))" "\<And>j. bit b j \<Longrightarrow> j \<le> unat (portGET_HIGHEST_PRIORITY b)"
proof -
  let ?xs = "rev [0..<32] :: nat list" and ?n = "ucPortCountLeadingZeros b"
  have nth: "?xs ! i = 31 - i" if "i < 32" for i using that by (simp add: rev_nth)
  have k: "k < 32" using assms bit_imp_le_length by force
  have "dropWhile (\<lambda>n. \<not> bit b n) ?xs \<noteq> []" using assms k by auto
  then have "0 < length (dropWhile (\<lambda>n. \<not> bit b n) ?xs)" by (simp only: length_greater_0_conv not_False_eq_True)
  moreover have "?n + length (dropWhile (\<lambda>n. \<not> bit b n) ?xs) = 32"
    unfolding ucPortCountLeadingZeros_def length_append[symmetric] takeWhile_dropWhile_id by simp
  ultimately have "?n < 32" by linarith
  then have n: "?n < 32" "bit b (?xs ! ?n)"
    using nth_length_takeWhile[of "\<lambda>n. \<not> bit b n" ?xs] by (auto simp: ucPortCountLeadingZeros_def)
  have p: "unat (portGET_HIGHEST_PRIORITY b) = 31 - ?n"
  proof -
    have "(word_of_nat ?n :: 32 word) \<le> 31" using n(1) by (simp add: word_le_nat_alt unsigned_of_nat take_bit_nat_eq_self)
    then show ?thesis
      using n(1) by (simp add: portGET_HIGHEST_PRIORITY_def unat_sub unsigned_of_nat take_bit_nat_eq_self)
  qed
  show "bit b (unat (portGET_HIGHEST_PRIORITY b))" using n nth p by simp
  fix j assume j: "bit b j"
  then have j32: "j < 32" using bit_imp_le_length by force
  show "j \<le> unat (portGET_HIGHEST_PRIORITY b)"
  proof (rule ccontr)
    assume "\<not> j \<le> unat (portGET_HIGHEST_PRIORITY b)"
    then have "31 - j < ?n" using p j32 n(1) by simp
    then have "\<not> bit b (?xs ! (31 - j))"
      using nth_mem[of "31 - j" "takeWhile (\<lambda>n. \<not> bit b n) ?xs"] takeWhile_nth[of "31 - j" "\<lambda>n. \<not> bit b n" ?xs]
      by (auto simp: ucPortCountLeadingZeros_def dest!: set_takeWhileD)
    then show False using j j32 nth[of "31 - j"] by simp
  qed
qed

lemma ready_priority: "core {} s \<Longrightarrow> container (xGenericListItem t) s = Some (pxReadyTasksLists p) \<Longrightarrow> p = uxPriority s t"
  using core_task[of "{}" s t] placedD(1)[OF core_placed, of "{}" s t] by (auto simp: task_ok_def)

lemma ready_line:
  assumes "core {} s"
  shows "i \<in> set (line (lists s) (pxReadyTasksLists p)) \<longleftrightarrow>
    (\<exists>t. i = xGenericListItem t \<and> ready s t \<and> uxPriority s t = p)"
proof
  assume i: "i \<in> set (line (lists s) (pxReadyTasksLists p))"
  show "\<exists>t. i = xGenericListItem t \<and> ready s t \<and> uxPriority s t = p"
    by (rule state_line_generic[OF assms _ i]) (use ready_priority[OF assms] in auto)
qed (use line_set[OF assms] in auto)

definition top_priority :: "sched \<Rightarrow> 32 word" where
  "top_priority s = portGET_HIGHEST_PRIORITY (uxTopReadyPriority s)"

lemma top_priority:
  assumes c: "core {} s" and i: "ready s t"
  shows "line (lists s) (pxReadyTasksLists (top_priority s)) \<noteq> []" "uxPriority s t \<le> top_priority s"
proof -
  have b: "uxPriority s u < 11 \<and> bit (uxTopReadyPriority s) (unat (uxPriority s u))" if "ready s u" for u
  proof -
    have "xGenericListItem u \<in> set (line (lists s) (pxReadyTasksLists (uxPriority s u)))"
      using line_set[OF c] that by simp
    then show ?thesis using bits_okD(1)[OF core_bits[OF c], of "uxPriority s u"] by force
  qed
  note h = highest_bit[of "uxTopReadyPriority s", OF b[OF i, THEN conjunct2]]
  have "unat (top_priority s) < 11" using bits_okD(2)[OF core_bits[OF c] h(1)] by (simp add: top_priority_def)
  then have "top_priority s < 11" by (simp add: word_less_nat_alt)
  then show "line (lists s) (pxReadyTasksLists (top_priority s)) \<noteq> []"
    using bits_okD(1)[OF core_bits[OF c]] h(1) by (simp add: top_priority_def)
  show "uxPriority s t \<le> top_priority s"
    using h(2)[OF b[OF i, THEN conjunct2]] by (simp add: top_priority_def word_le_nat_alt)
qed

text \<open>The next task is the first in line among those of the highest priority, and goes to the end of the line.\<close>

lemma vTaskSwitchContext_ok:
  assumes c: "core {} s" and i: "ready s t" and sus: "uxSchedulerSuspended s = 0"
  obtains m u where
    "vTaskSwitchContext s = Some (s\<lparr>xYieldPending := False, lists := m, pxCurrentTCB := u\<rparr>)"
    "hd (line (lists s) (pxReadyTasksLists (top_priority s))) = xGenericListItem u"
    "ready s u" "uxPriority s u = top_priority s" "core {} (s\<lparr>lists := m\<rparr>)"
    "line m = (line (lists s))(pxReadyTasksLists (top_priority s) :=
       rotate1 (line (lists s) (pxReadyTasksLists (top_priority s))))"
    "pvContainer m = pvContainer (lists s)" "xItemValue m = xItemValue (lists s)"
proof -
  let ?l = "pxReadyTasksLists (top_priority s)"
  have ne: "line (lists s) ?l \<noteq> []" by (rule top_priority(1)[OF c i])
  obtain m where m: "listGET_OWNER_OF_NEXT_ENTRY ?l (lists s) = Some (hd (line (lists s) ?l), m)" "lists_ok m"
    "line m = (line (lists s))(?l := rotate1 (line (lists s) ?l))"
    "pvContainer m = pvContainer (lists s)" "xItemValue m = xItemValue (lists s)"
    "pxIndex m = (pxIndex (lists s))(?l := Item (hd (line (lists s) ?l)))"
    by (rule listGET_OWNER_OF_NEXT_ENTRY_line[OF core_lists[OF c] ne])
  obtain u where u: "hd (line (lists s) ?l) = xGenericListItem u" "ready s u" "uxPriority s u = top_priority s"
    using ready_line[OF c, of "hd (line (lists s) ?l)" "top_priority s"] ne by auto
  have "core {} (s\<lparr>lists := m\<rparr>)"
    unfolding core_def
  proof (intro conjI ballI)
    show "index_ok (lists (s\<lparr>lists := m\<rparr>))" using core_index[OF c] m(6) by (simp add: index_ok_def)
    show "placed (s\<lparr>lists := m\<rparr>)" using core_placed[OF c] m(4) by (simp add: placed_def)
    show "task_ok (s\<lparr>lists := m\<rparr>) v" if "v \<in> allocated (s\<lparr>lists := m\<rparr>) - {}" for v
    proof -
      have "task_ok s v" using that core_task[OF c, of v] by simp
      then show ?thesis by (rule task_ok_frame) (simp_all add: m(4))
    qed
    show "bits_ok (s\<lparr>lists := m\<rparr>)" using core_bits[OF c] m(3) by (simp add: bits_ok_def)
  qed (use m(2) core_null[OF c] core_priority[OF c] core_base[OF c] in simp_all)
  moreover have "vTaskSwitchContext s = Some (s\<lparr>xYieldPending := False, lists := m, pxCurrentTCB := u\<rparr>)"
    using sus m(1) u(1) by (simp add: vTaskSwitchContext_def taskSELECT_HIGHEST_PRIORITY_TASK_def top_priority_def)
  ultimately show ?thesis using that u m(3-5) by blast
qed

section \<open>Ticks and the end of a suspension\<close>

lemma termination_kept:
  assumes c: "core {} s" and w: "woken s due s'" and d: "\<And>t. due t \<Longrightarrow> delayed s t"
  shows "line (lists s') xTasksWaitingTermination = line (lists s) xTasksWaitingTermination"
proof -
  have "\<not> due (owner i)" if i: "i \<in> set (line (lists s) xTasksWaitingTermination)" for i
  proof -
    obtain t where "i = xGenericListItem t" "container (xGenericListItem t) s = Some xTasksWaitingTermination"
      by (rule state_line_generic[OF c _ i]) auto
    then show ?thesis using d[of t] by (auto simp: delayed_def)
  qed
  then show ?thesis using w by (simp add: woken_def filter_id_conv)
qed

lemma tick_running:
  assumes r: "running_ok idle s" and sus: "uxSchedulerSuspended s = 0"
  obtains s' b where "xTaskIncrementTick s = Some (s', b)" "running_ok idle s'" "woken s (due_next s) s'" "ticked s s'"
    "b \<longleftrightarrow> (\<exists>t. due_next s t \<and> uxPriority s (pxCurrentTCB s) \<le> uxPriority s t) \<or>
       1 < length (line (lists s') (pxReadyTasksLists (uxPriority s (pxCurrentTCB s)))) \<or> xYieldPending s"
proof -
  obtain s' b where s': "xTaskIncrementTick s = Some (s', b)" "core {} s'" "delays_ok s'" "woken s (due_next s) s'"
    "ticked s s'"
    "b \<longleftrightarrow> (\<exists>t. due_next s t \<and> uxPriority s (pxCurrentTCB s) \<le> uxPriority s t) \<or>
       1 < length (line (lists s') (pxReadyTasksLists (uxPriority s (pxCurrentTCB s)))) \<or> xYieldPending s"
    by (rule increment_core[OF running_core[OF r] running_delays[OF r] sus])
  have "line (lists s') xTasksWaitingTermination = line (lists s) xTasksWaitingTermination"
    by (rule termination_kept[OF running_core[OF r] s'(4)]) (simp add: due_next_def)
  then have "running_ok idle s'"
    using r s'(2-4) by (auto simp: running_ok_def tickedD[OF s'(5)] woken_def)
  then show ?thesis using that s' by blast
qed

text \<open>A task that an interrupt woke while the scheduler was suspended.\<close>

definition pending :: "sched \<Rightarrow> tcb \<Rightarrow> bool" where
  "pending s t \<longleftrightarrow> container (xEventListItem t) s = Some xPendingReadyList"

lemma pending_blocked:
  assumes "core {} s" "pending s t"
  shows "t \<in> allocated s" "\<exists>l. container (xGenericListItem t) s = Some l \<and> blocked_list l"
proof -
  show t: "t \<in> allocated s" using placedD(2)[OF core_placed[OF assms(1)]] assms(2) by (simp add: pending_def)
  show "\<exists>l. container (xGenericListItem t) s = Some l \<and> blocked_list l"
    using core_task[OF assms(1) t] placedD(1)[OF core_placed[OF assms(1)], of t] assms(2)
    by (auto simp: task_ok_def pending_def blocked_list_def split: option.splits list_id.splits)
qed

text \<open>A blocked task is readied.\<close>

lemma ready_blocked:
  assumes r: "running_ok idle s" and w: "container (xGenericListItem t) s = Some l" "blocked_list l"
    and e: "container (xEventListItem t) s = None"
  obtains n m where "list_remove (xGenericListItem t) s = Some (n, s\<lparr>lists := m\<rparr>)"
    "running_ok idle (prvAddTaskToReadyList t (s\<lparr>lists := m\<rparr>))"
    "moved s (prvAddTaskToReadyList t (s\<lparr>lists := m\<rparr>))"
    "ready (prvAddTaskToReadyList t (s\<lparr>lists := m\<rparr>)) t"
    "\<And>u. u \<noteq> t \<Longrightarrow> kept s (prvAddTaskToReadyList t (s\<lparr>lists := m\<rparr>)) u"
    "\<And>u. container (xEventListItem u) (prvAddTaskToReadyList t (s\<lparr>lists := m\<rparr>)) = container (xEventListItem u) s"
    "\<And>k. (\<And>p. k \<noteq> pxReadyTasksLists p) \<Longrightarrow> k \<noteq> l \<Longrightarrow>
       line (lists (prvAddTaskToReadyList t (s\<lparr>lists := m\<rparr>))) k = line (lists s) k"
    "xNextTaskUnblockTime (prvAddTaskToReadyList t (s\<lparr>lists := m\<rparr>)) = xNextTaskUnblockTime s"
proof -
  note c = running_core[OF r]
  have nr: "l \<noteq> pxReadyTasksLists p" "l \<noteq> xTasksWaitingTermination" "l \<noteq> xPendingReadyList" for p
    using w(2) by (auto simp: blocked_list_def)
  have t: "t \<in> allocated s" using placedD(1)[OF core_placed[OF c] w(1)] by simp
  obtain n m where m: "list_remove (xGenericListItem t) s = Some (n, s\<lparr>lists := m\<rparr>)"
    "line m = (line (lists s))(l := remove1 (xGenericListItem t) (line (lists s) l))"
    "pvContainer m = (pvContainer (lists s))(xGenericListItem t := None)" "xItemValue m = xItemValue (lists s)"
    "core (insert t {}) (s\<lparr>lists := m\<rparr>)"
    using take_off[OF c w(1)] nr(1) by metis
  let ?s = "prvAddTaskToReadyList t (s\<lparr>lists := m\<rparr>)"
  have a: "core (insert t {} - {t}) ?s"
    "line (lists ?s) = (line m)(pxReadyTasksLists (uxPriority s t) :=
       joined m (pxReadyTasksLists (uxPriority s t)) (xGenericListItem t))"
    using add_ready[OF m(5), of t] t m(3) e by auto
  have c': "core {} ?s" using a(1) by simp
  have d: "delays_ok ?s"
  proof (rule delays_ok_leave[OF c c' running_delays[OF r]])
    show "\<exists>f. line (lists ?s) k = filter f (line (lists s) k)" if "k = xDelayedTaskList1 \<or> k = xDelayedTaskList2" for k
    proof (cases "k = l")
      case True
      then show ?thesis
        using a(2) m(2) that distinct_remove1_removeAll[OF line_distinct[OF c]]
        by (auto simp: removeAll_filter_not_eq)
    next
      case False
      then show ?thesis using a(2) m(2) that by (intro exI[of _ "\<lambda>_. True"]) auto
    qed
  qed (use m(4) in simp_all)
  have i: "ready ?s idle" using running_idle[OF r] m(3) by auto
  have "running_ok idle ?s"
    by (rule running_ok_moved[OF r _ c' d i]) (use a(2) m(2) nr(2) in \<open>auto\<close>)
  then show ?thesis
    using that[of n m] m(1-4) a(2) nr by (auto simp: kept_def)
qed


text \<open>The event item of a task leaves its list.\<close>

lemma event_taken:
  assumes r: "running_ok idle s" and w: "container (xEventListItem t) s = Some l"
  obtains n m where "list_remove (xEventListItem t) s = Some (n, s\<lparr>lists := m\<rparr>)" "running_ok idle (s\<lparr>lists := m\<rparr>)"
    "line m = (line (lists s))(l := remove1 (xEventListItem t) (line (lists s) l))"
    "pvContainer m = (pvContainer (lists s))(xEventListItem t := None)" "xItemValue m = xItemValue (lists s)"
    "\<not> state_list l"
proof -
  note c = running_core[OF r]
  have l: "\<not> state_list l" using placedD(2)[OF core_placed[OF c] w] by simp
  obtain n m where m: "list_remove (xEventListItem t) s = Some (n, s\<lparr>lists := m\<rparr>)" "core {} (s\<lparr>lists := m\<rparr>)"
    "line m = (line (lists s))(l := remove1 (xEventListItem t) (line (lists s) l))"
    "pvContainer m = (pvContainer (lists s))(xEventListItem t := None)" "xItemValue m = xItemValue (lists s)"
    by (rule take_event[OF c w])
  have d: "delays_ok (s\<lparr>lists := m\<rparr>)"
    by (rule delays_ok_same[OF c m(2) running_delays[OF r]]) (use m(3,5) l in auto)
  have "running_ok idle (s\<lparr>lists := m\<rparr>)"
    by (rule running_ok_moved[OF r _ m(2) d]) (use m(3,4) l running_idle[OF r] in auto)
  then show ?thesis using that m l by blast
qed

text \<open>The tasks that were woken while the scheduler was suspended are readied.\<close>

definition released :: "sched \<Rightarrow> sched \<Rightarrow> bool" where
  "released s s' \<longleftrightarrow> moved (s\<lparr>xYieldPending := xYieldPending s'\<rparr>) s' \<and>
     (\<forall>t. pending s t \<longrightarrow> ready s' t \<and> container (xEventListItem t) s' = None) \<and>
     (\<forall>t. \<not> pending s t \<longrightarrow> kept s s' t) \<and>
     line (lists s') xPendingReadyList = [] \<and>
     (xYieldPending s' \<longleftrightarrow> xYieldPending s \<or>
        (\<exists>t. pending s t \<and> uxPriority s (pxCurrentTCB s) \<le> uxPriority s t))"

lemma running_ok_yield [simp]: "running_ok idle (s\<lparr>xYieldPending := b\<rparr>) = running_ok idle s"
  by (simp add: running_ok_def delays_ok_def delay_lists_def in_time_order_def)

lemma moved_yield: "moved s u \<Longrightarrow> moved (s\<lparr>xYieldPending := y\<rparr>) (u\<lparr>xYieldPending := y\<rparr>)"
  unfolding moved_def by (cases s; cases u) simp

lemma move_pending_ok:
  assumes "running_ok idle s"
  obtains s' where "move_pending s = Some s'" "running_ok idle s'" "released s s'"
  using assms
proof (induction "length (line (lists s) xPendingReadyList)" arbitrary: s thesis rule: less_induct)
  case less
  note r = less.prems(2) and c = running_core[OF less.prems(2)]
  have pend: "pending s t \<longleftrightarrow> xEventListItem t \<in> set (line (lists s) xPendingReadyList)" for t
    using line_set[OF c] by (simp add: pending_def)
  show ?case
  proof (cases "line (lists s) xPendingReadyList")
    case Nil
    have "move_pending s = Some s" using Nil empty_list[OF c] by (subst move_pending.simps) simp
    moreover have "released s s" using Nil pend by (simp add: released_def)
    ultimately show ?thesis using less.prems(1) r by blast
  next
    case (Cons i q)
    obtain t where t: "i = xEventListItem t" "container (xEventListItem t) s = Some xPendingReadyList"
      by (rule event_line_event[OF c, of xPendingReadyList i]) (use Cons in auto)
    have pt: "pending s t" using t(2) by (simp add: pending_def)
    obtain l where l: "container (xGenericListItem t) s = Some l" "blocked_list l"
      using pending_blocked(2)[OF c pt] by blast
    obtain n m where m: "list_remove (xEventListItem t) s = Some (n, s\<lparr>lists := m\<rparr>)" "running_ok idle (s\<lparr>lists := m\<rparr>)"
      "line m = (line (lists s))(xPendingReadyList := remove1 (xEventListItem t) (line (lists s) xPendingReadyList))"
      "pvContainer m = (pvContainer (lists s))(xEventListItem t := None)" "xItemValue m = xItemValue (lists s)"
      by (rule event_taken[OF r t(2)])
    have l': "container (xGenericListItem t) (s\<lparr>lists := m\<rparr>) = Some l" using l(1) m(4) by simp
    have e': "container (xEventListItem t) (s\<lparr>lists := m\<rparr>) = None" using m(4) by simp
    obtain k m2 where m2: "list_remove (xGenericListItem t) (s\<lparr>lists := m\<rparr>) = Some (k, (s\<lparr>lists := m\<rparr>)\<lparr>lists := m2\<rparr>)"
      "running_ok idle (prvAddTaskToReadyList t ((s\<lparr>lists := m\<rparr>)\<lparr>lists := m2\<rparr>))"
      "moved (s\<lparr>lists := m\<rparr>) (prvAddTaskToReadyList t ((s\<lparr>lists := m\<rparr>)\<lparr>lists := m2\<rparr>))"
      "ready (prvAddTaskToReadyList t ((s\<lparr>lists := m\<rparr>)\<lparr>lists := m2\<rparr>)) t"
      "\<And>u. u \<noteq> t \<Longrightarrow> kept (s\<lparr>lists := m\<rparr>) (prvAddTaskToReadyList t ((s\<lparr>lists := m\<rparr>)\<lparr>lists := m2\<rparr>)) u"
      "\<And>u. container (xEventListItem u) (prvAddTaskToReadyList t ((s\<lparr>lists := m\<rparr>)\<lparr>lists := m2\<rparr>)) =
         container (xEventListItem u) (s\<lparr>lists := m\<rparr>)"
      "\<And>k. (\<And>p. k \<noteq> pxReadyTasksLists p) \<Longrightarrow> k \<noteq> l \<Longrightarrow>
         line (lists (prvAddTaskToReadyList t ((s\<lparr>lists := m\<rparr>)\<lparr>lists := m2\<rparr>))) k = line (lists (s\<lparr>lists := m\<rparr>)) k"
      by (rule ready_blocked[OF m(2) l' l(2) e']) metis
    let ?u = "prvAddTaskToReadyList t (s\<lparr>lists := m2\<rparr>)"
    let ?y = "xYieldPending s \<or> uxPriority s (pxCurrentTCB s) \<le> uxPriority s t"
    let ?s = "?u\<lparr>xYieldPending := ?y\<rparr>"
    have q: "line (lists ?s) xPendingReadyList = q"
      using m2(7)[of xPendingReadyList] l(2) m(3) Cons t(1) by (auto simp: blocked_list_def)
    have step: "move_pending s = move_pending ?s"
      using m(1) m2(1) Cons t(1) empty_list[OF c] head_list[OF c, of xPendingReadyList]
      by (subst move_pending.simps) (simp del: map_option_eq_Some)
    obtain s' where s': "move_pending ?s = Some s'" "running_ok idle s'" "released ?s s'"
      by (rule less.hyps[of ?s]) (use q Cons m2(2) in simp_all)
    have u: "uxPriority ?u = uxPriority s" "pxCurrentTCB ?u = pxCurrentTCB s" by simp_all
    have mv: "moved s ?u" using moved_trans[OF _ m2(3), of s] by simp
    have k: "kept s ?u v" if "v \<noteq> t" for v
      using m2(5)[OF that] m(4,5) that by (simp add: kept_def)
    have pn: "pending ?s v \<longleftrightarrow> pending s v \<and> v \<noteq> t" for v
      using m2(6)[of v] m(4) by (simp add: pending_def)
    have e: "?s\<lparr>xYieldPending := xYieldPending s'\<rparr> = ?u\<lparr>xYieldPending := xYieldPending s'\<rparr>" by simp
    have mvs: "moved (s\<lparr>xYieldPending := xYieldPending s'\<rparr>) s'"
      by (rule moved_trans[OF moved_yield[OF mv]]) (use conjunct1[OF s'(3)[unfolded released_def]] e in metis)
    have rel: "ready s' v \<and> container (xEventListItem v) s' = None" if "pending ?s v" for v
      using s'(3) that unfolding released_def by blast
    have kp: "kept ?s s' v" if "\<not> pending ?s v" for v
      using s'(3) that unfolding released_def by blast
    have pr: "uxPriority s' = uxPriority s" using movedD(1)[OF mvs] by simp
    have kt: "kept ?u s' v" if "\<not> pending ?s v" for v using kp[OF that] by (simp add: kept_def)
    have pv: "\<not> pending ?s t" using pn by simp
    have "released s s'"
      unfolding released_def
    proof (intro conjI allI impI)
      show "moved (s\<lparr>xYieldPending := xYieldPending s'\<rparr>) s'" by (fact mvs)
      show "ready s' v" if "pending s v" for v
      proof (cases "v = t")
        case True
        then show ?thesis using kt[OF pv] m2(4) pr by (simp add: kept_def)
      next
        case False
        then show ?thesis using rel[of v] pn[of v] that by simp
      qed
      show "container (xEventListItem v) s' = None" if "pending s v" for v
      proof (cases "v = t")
        case True
        then show ?thesis using kt[OF pv] m2(6)[of t] m(4) by (simp add: kept_def)
      next
        case False
        then show ?thesis using rel[of v] pn[of v] that by simp
      qed
      show "kept s s' v" if "\<not> pending s v" for v
        using kept_trans[OF k[of v] kt[of v]] pn[of v] that pt by blast
      show "line (lists s') xPendingReadyList = []" using s'(3) by (simp add: released_def)
      have "xYieldPending s' \<longleftrightarrow> ?y \<or> (\<exists>v. pending ?s v \<and> uxPriority s (pxCurrentTCB s) \<le> uxPriority s v)"
        using s'(3) by (simp add: released_def)
      then show "xYieldPending s' \<longleftrightarrow> xYieldPending s \<or> (\<exists>t. pending s t \<and> uxPriority s (pxCurrentTCB s) \<le> uxPriority s t)"
        unfolding pn using pt by blast
    qed
    then show ?thesis using less.prems(1) s' step by metis
  qed
qed

end
