(* ===== verification/SchedCalls.thy ===== *)
theory SchedCalls
  imports SchedMoves
begin

text \<open>
  The calls of the kernel under the invariant: none of them can fault, and each keeps the invariant. First the
  ticks that were counted while the scheduler was suspended, then one lemma per call.
\<close>

section \<open>Pended ticks\<close>

text \<open>The ticks that a delayed task still has to wait.\<close>

definition remaining :: "sched \<Rightarrow> tcb \<Rightarrow> nat" where
  "remaining s t = unat (wake_time s t - xTickCount s)"

lemma delayed_time:
  assumes "delays_ok s" "delayed s t"
  shows "wake_time s t \<noteq> xTickCount s" "0 < remaining s t"
proof -
  show n: "wake_time s t \<noteq> xTickCount s"
    using delayed_iff[OF delays_lists[OF assms(1)], of t] assms delays_current[OF assms(1), of t]
      delays_overflow[OF assms(1), of t] by auto
  then show "0 < remaining s t" by (simp add: remaining_def unat_gt_0)
qed

lemma unat_minus_one_more: "(w :: 32 word) \<noteq> n \<Longrightarrow> unat (w - (n + 1)) = unat (w - n) - 1"
proof -
  assume "w \<noteq> n"
  then have "w - n \<noteq> 0" by simp
  then have "unat (w - n - 1) = unat (w - n) - 1" by (rule unat_minus_one)
  then show ?thesis by (simp add: algebra_simps)
qed

text \<open>What is left when a number of ticks has been counted.\<close>

definition passed :: "nat \<Rightarrow> sched \<Rightarrow> sched \<Rightarrow> bool" where
  "passed k s s' \<longleftrightarrow>
     (\<forall>t. if delayed s t \<and> remaining s t \<le> k then ready s' t \<and> container (xEventListItem t) s' = None
       else kept s s' t) \<and>
     uxPriority s' = uxPriority s \<and> uxBasePriority s' = uxBasePriority s \<and> uxMutexesHeld s' = uxMutexesHeld s \<and>
     allocated s' = allocated s \<and> pxCurrentTCB s' = pxCurrentTCB s \<and>
     uxSchedulerSuspended s' = uxSchedulerSuspended s \<and> uxTasksDeleted s' = uxTasksDeleted s \<and>
     xTickCount s' = xTickCount s + word_of_nat k \<and>
     (line (lists s) xPendingReadyList = [] \<longrightarrow> line (lists s') xPendingReadyList = [])"

lemma passed_fields:
  assumes "passed k s s'"
  shows "uxPriority s' = uxPriority s" "pxCurrentTCB s' = pxCurrentTCB s" "allocated s' = allocated s"
    "uxSchedulerSuspended s' = uxSchedulerSuspended s" "xTickCount s' = xTickCount s + word_of_nat k"
    "uxTasksDeleted s' = uxTasksDeleted s" "uxBasePriority s' = uxBasePriority s"
    "uxMutexesHeld s' = uxMutexesHeld s"
  using assms by (simp_all add: passed_def)

lemma passed_ready:
  assumes "passed k s s'" "ready s t" "delays_ok s"
  shows "ready s' t"
proof -
  have "\<not> delayed s t" using assms(2) by (auto simp: delayed_def)
  then have "kept s s' t" using assms(1) by (auto simp: passed_def)
  then show ?thesis using assms(1,2) by (simp add: kept_def passed_def)
qed

lemma passed_woken:
  assumes "passed k s s'" "delayed s t" "remaining s t \<le> k"
  shows "ready s' t" "container (xEventListItem t) s' = None"
  using assms unfolding passed_def by metis+

lemma passed_kept:
  assumes "passed k s s'" "\<not> (delayed s t \<and> remaining s t \<le> k)"
  shows "kept s s' t"
  using assms unfolding passed_def by metis

lemma passed_none: "delays_ok s \<Longrightarrow> passed 0 s s"
  using delayed_time(2) by (force simp: passed_def)

lemma passed_one:
  assumes d: "delays_ok s" and w: "woken s (due_next s) s'" and t: "ticked s s'"
  shows "passed 1 s s'"
proof -
  have due: "due_next s t \<longleftrightarrow> delayed s t \<and> remaining s t \<le> 1" for t
  proof (cases "delayed s t")
    case True
    have "remaining s t \<le> 1 \<longleftrightarrow> remaining s t = 1" using delayed_time(2)[OF d True] by linarith
    also have "\<dots> \<longleftrightarrow> wake_time s t - xTickCount s = 1"
      unfolding remaining_def using unat_eq[of "wake_time s t - xTickCount s" 1] by simp
    also have "\<dots> \<longleftrightarrow> wake_time s t = xTickCount s + 1" by (auto simp: algebra_simps)
    finally show ?thesis using True by (simp add: due_next_def)
  qed (simp add: due_next_def)
  show ?thesis
    unfolding passed_def due[symmetric] using w by (auto simp: woken_def kept_def tickedD[OF t])
qed

lemma passed_trans:
  assumes p: "passed 1 s s'" "passed k s' s''" and d: "delays_ok s"
  shows "passed (Suc k) s s''"
  unfolding passed_def
proof (intro conjI allI)
  fix t
  have pr: "uxPriority s'' = uxPriority s" "uxPriority s' = uxPriority s"
    using passed_fields[OF p(1)] passed_fields[OF p(2)] by simp_all
  show "if delayed s t \<and> remaining s t \<le> Suc k then ready s'' t \<and> container (xEventListItem t) s'' = None else kept s s'' t"
  proof (cases "delayed s t \<and> remaining s t \<le> 1")
    case True
    then have "ready s' t" "container (xEventListItem t) s' = None" using passed_woken[OF p(1)] by auto
    moreover from this have "kept s' s'' t" using passed_kept[OF p(2), of t] by (auto simp: delayed_def)
    ultimately show ?thesis using True pr by (simp add: kept_def)
  next
    case False
    then have k: "kept s s' t" by (rule passed_kept[OF p(1)])
    then have dl: "delayed s' t = delayed s t" by (simp add: kept_def delayed_def)
    have rm: "remaining s' t = remaining s t - 1" if "delayed s t"
      using k unat_minus_one_more[OF delayed_time(1)[OF d that]] passed_fields(5)[OF p(1)]
      by (simp add: remaining_def kept_def)
    show ?thesis
    proof (cases "delayed s t \<and> remaining s t \<le> Suc k")
      case True
      then have "delayed s' t" "remaining s' t \<le> k" using dl rm by auto
      then show ?thesis using passed_woken[OF p(2), of t] True by simp
    next
      case f: False
      then have "\<not> (delayed s' t \<and> remaining s' t \<le> k)" using dl rm False by auto
      then have "kept s s'' t" using kept_trans[OF k passed_kept[OF p(2)]] by blast
      then show ?thesis using f by auto
    qed
  qed
qed (use p in \<open>auto simp: passed_def algebra_simps\<close>)

lemma running_ok_pended [simp]: "running_ok idle (s\<lparr>uxPendedTicks := b\<rparr>) = running_ok idle s"
  by (simp add: running_ok_def delays_ok_def delay_lists_def in_time_order_def)

lemma run_pended_ticks_ok:
  assumes "running_ok idle s" "uxSchedulerSuspended s = 0" "line (lists s) xPendingReadyList = []"
  obtains s' where "run_pended_ticks s = Some s'" "running_ok idle s'" "passed (unat (uxPendedTicks s)) s s'"
    "uxPendedTicks s' = 0" "line (lists s') xPendingReadyList = []" "xYieldPending s \<Longrightarrow> xYieldPending s'"
    "\<And>t. ready s' t \<Longrightarrow> \<not> ready s t \<Longrightarrow> uxPriority s (pxCurrentTCB s) \<le> uxPriority s t \<Longrightarrow> xYieldPending s'"
    "PENDSVSET s' = PENDSVSET s"
  using assms
proof (induction "unat (uxPendedTicks s)" arbitrary: s thesis)
  case 0
  then have z: "uxPendedTicks s = 0" by (simp add: unsigned_eq_0_iff)
  then have "run_pended_ticks s = Some s" by (subst run_pended_ticks.simps) simp
  then show ?case using "0.prems"(1)[of s] "0.prems"(2,4) passed_none[OF running_delays[OF "0.prems"(2)]] z by simp
next
  case (Suc k)
  note r = Suc.prems(2)
  have nz: "0 < uxPendedTicks s" using Suc.hyps(2) by (simp add: word_less_nat_alt)
  obtain s1 b where s1: "xTaskIncrementTick s = Some (s1, b)" "running_ok idle s1" "woken s (due_next s) s1" "ticked s s1"
    "b \<longleftrightarrow> (\<exists>t. due_next s t \<and> uxPriority s (pxCurrentTCB s) \<le> uxPriority s t) \<or>
       1 < length (line (lists s1) (pxReadyTasksLists (uxPriority s (pxCurrentTCB s)))) \<or> xYieldPending s"
    by (rule tick_running[OF r Suc.prems(3)])
  let ?s = "s1\<lparr>xYieldPending := (b \<or> xYieldPending s1), uxPendedTicks := uxPendedTicks s1 - 1\<rparr>"
  have one: "passed 1 s ?s"
    using passed_one[OF running_delays[OF r] s1(3,4)] unfolding passed_def kept_def by simp
  have k: "k = unat (uxPendedTicks ?s)"
    using Suc.hyps(2) nz unat_minus_one[of "uxPendedTicks s"] by (simp add: tickedD[OF s1(4)])
  have p: "line (lists ?s) xPendingReadyList = []" using s1(3) Suc.prems(4) by (simp add: woken_def)
  have su: "uxSchedulerSuspended ?s = 0" using Suc.prems(3) by (simp add: tickedD[OF s1(4)])
  obtain s' where s': "run_pended_ticks ?s = Some s'" "running_ok idle s'" "passed (unat (uxPendedTicks ?s)) ?s s'"
    "uxPendedTicks s' = 0" "line (lists s') xPendingReadyList = []" "xYieldPending ?s \<Longrightarrow> xYieldPending s'"
    "\<And>t. ready s' t \<Longrightarrow> \<not> ready ?s t \<Longrightarrow> uxPriority ?s (pxCurrentTCB ?s) \<le> uxPriority ?s t \<Longrightarrow> xYieldPending s'"
    "PENDSVSET s' = PENDSVSET ?s"
    using Suc.hyps(1)[OF k _ _ su p] s1(2) by auto
  have "passed (Suc k) s s'" by (rule passed_trans[OF one _ running_delays[OF r]]) (use s'(3) k in simp)
  moreover have "run_pended_ticks s = Some s'"
    using s'(1) nz s1(1) by (subst run_pended_ticks.simps) simp
  moreover have "xYieldPending s'" if "xYieldPending s" using s'(6) s1(5) that by simp
  moreover have "xYieldPending s'"
    if "ready s' t" "\<not> ready s t" "uxPriority s (pxCurrentTCB s) \<le> uxPriority s t" for t
  proof (cases "ready ?s t")
    case True
    then have "due_next s t" using s1(3) that(2) by (auto simp: woken_def tickedD[OF s1(4)] split: if_splits)
    then show ?thesis using s'(6) s1(5) that(3) by auto
  next
    case False
    then show ?thesis using s'(7)[of t] that passed_fields[OF one] by simp
  qed
  ultimately show ?case using Suc.prems(1)[of s'] s' Suc.hyps(2) tickedD(14)[OF s1(4)] by simp
qed

section \<open>The end of a suspension of the scheduler\<close>

lemma allocated_card:
  assumes "core H s"
  shows "finite (allocated s)" "card (allocated s) < 2 ^ 32"
proof -
  show f: "finite (allocated s)" by (rule finite_subset[OF subset_UNIV]) (rule finite)
  have "allocated s \<subset> UNIV" using core_null[OF assms] by auto
  then have "card (allocated s) < card (UNIV :: tcb set)" by (intro psubset_card_mono) simp_all
  then show "card (allocated s) < 2 ^ 32" by (simp add: card_word)
qed

lemma some_tasks: "running_ok idle s \<Longrightarrow> 0 < uxCurrentNumberOfTasks s"
proof -
  assume r: "running_ok idle s"
  note f = allocated_card[OF running_core[OF r]]
  have "card (allocated s) \<noteq> 0" using running_current[OF r] f(1) by auto
  then have "unat (word_of_nat (card (allocated s)) :: 32 word) \<noteq> 0"
    using f(2) by (simp add: unsigned_of_nat take_bit_nat_eq_self)
  then show ?thesis using running_number[OF r] by (simp add: word_less_nat_alt)
qed

lemma running_ok_fields [simp]:
  "running_ok idle (s\<lparr>uxSchedulerSuspended := n\<rparr>) = running_ok idle s"
  "running_ok idle (s\<lparr>PENDSVSET := b\<rparr>) = running_ok idle s"
  "running_ok idle (s\<lparr>uxMutexesHeld := f\<rparr>) = running_ok idle s"
  "running_ok idle (s\<lparr>uxTaskNumber := n\<rparr>) = running_ok idle s"
  by (simp_all add: running_ok_def delays_ok_def delay_lists_def in_time_order_def)

text \<open>What the end of a suspension does: the tasks that were woken, and those whose time came, are readied.\<close>

definition comes_ready :: "sched \<Rightarrow> tcb \<Rightarrow> bool" where
  "comes_ready s t \<longleftrightarrow> pending s t \<or> delayed s t \<and> remaining s t \<le> unat (uxPendedTicks s)"

definition resumed :: "sched \<Rightarrow> sched \<Rightarrow> bool" where
  "resumed s s' \<longleftrightarrow>
     (\<forall>t. if comes_ready s t then ready s' t \<and> container (xEventListItem t) s' = None else kept s s' t) \<and>
     uxPriority s' = uxPriority s \<and> uxBasePriority s' = uxBasePriority s \<and> uxMutexesHeld s' = uxMutexesHeld s \<and>
     allocated s' = allocated s \<and> pxCurrentTCB s' = pxCurrentTCB s \<and> uxTasksDeleted s' = uxTasksDeleted s \<and>
     uxSchedulerSuspended s' = 0 \<and> uxPendedTicks s' = 0 \<and> xTickCount s' = xTickCount s + uxPendedTicks s \<and>
     (xYieldPending s \<longrightarrow> xYieldPending s') \<and> PENDSVSET s' = (PENDSVSET s \<or> xYieldPending s') \<and>
     (\<forall>t. comes_ready s t \<longrightarrow> uxPriority s (pxCurrentTCB s) \<le> uxPriority s t \<longrightarrow> xYieldPending s')"

lemma releasedD:
  assumes "released s s'"
  shows "moved (s\<lparr>xYieldPending := xYieldPending s'\<rparr>) s'"
    "pending s t \<Longrightarrow> ready s' t" "pending s t \<Longrightarrow> container (xEventListItem t) s' = None"
    "\<not> pending s t \<Longrightarrow> kept s s' t" "line (lists s') xPendingReadyList = []"
    "xYieldPending s' \<longleftrightarrow> xYieldPending s \<or>
       (\<exists>t. pending s t \<and> uxPriority s (pxCurrentTCB s) \<le> uxPriority s t)"
  using assms unfolding released_def by blast+

lemma resumed_parts:
  assumes d: "delays_ok s" and c: "core {} s" and r: "released s s1" and p: "passed (unat (uxPendedTicks s)) s1 s2"
  shows "if comes_ready s t then ready s2 t \<and> container (xEventListItem t) s2 = None else kept s s2 t"
proof (cases "pending s t")
  case True
  note m = releasedD(1)[OF r]
  have o: "ready s1 t" "container (xEventListItem t) s1 = None" using releasedD(2,3)[OF r True] by simp_all
  then have "\<not> delayed s1 t" by (auto simp: delayed_def)
  then have "kept s1 s2 t" by (intro passed_kept[OF p]) simp
  then show ?thesis using True o passed_fields(1)[OF p] by (simp add: comes_ready_def kept_def)
next
  case False
  note m = releasedD(1)[OF r]
  have k: "kept s s1 t" using releasedD(4)[OF r False] .
  have dr: "delayed s1 t = delayed s t" "remaining s1 t = remaining s t"
    using k movedD(9)[OF m] by (simp_all add: kept_def delayed_def remaining_def)
  show ?thesis
  proof (cases "delayed s t \<and> remaining s t \<le> unat (uxPendedTicks s)")
    case True
    then show ?thesis using passed_woken[OF p, of t] dr False by (simp add: comes_ready_def)
  next
    case f: False
    then have "kept s1 s2 t" using dr by (intro passed_kept[OF p]) simp
    then show ?thesis using kept_trans[OF k] f False by (auto simp: comes_ready_def)
  qed
qed

lemma xTaskResumeAll_last:
  assumes r: "running_ok idle s" and n: "uxSchedulerSuspended s = 1"
  obtains s' where "xTaskResumeAll s = Some (s', xYieldPending s')" "running_ok idle s'" "resumed s s'"
    "line (lists s') xPendingReadyList = []"
proof -
  let ?s = "s\<lparr>uxSchedulerSuspended := 0\<rparr>"
  have r0: "running_ok idle ?s" using r by simp
  obtain s1 where s1: "move_pending ?s = Some s1" "running_ok idle s1" "released ?s s1"
    by (rule move_pending_ok[OF r0])
  note m = releasedD(1)[OF s1(3)] and e = releasedD(5)[OF s1(3)]
  have y1: "xYieldPending s1 \<longleftrightarrow> xYieldPending s \<or> (\<exists>t. pending s t \<and> uxPriority s (pxCurrentTCB s) \<le> uxPriority s t)"
    using releasedD(6)[OF s1(3)] by (simp add: pending_def)
  have su: "uxSchedulerSuspended s1 = 0" using movedD(14)[OF m] by simp
  obtain s2 where s2: "run_pended_ticks s1 = Some s2" "running_ok idle s2" "passed (unat (uxPendedTicks s1)) s1 s2"
    "uxPendedTicks s2 = 0" "line (lists s2) xPendingReadyList = []" "xYieldPending s1 \<Longrightarrow> xYieldPending s2"
    "\<And>t. ready s2 t \<Longrightarrow> \<not> ready s1 t \<Longrightarrow> uxPriority s1 (pxCurrentTCB s1) \<le> uxPriority s1 t \<Longrightarrow> xYieldPending s2"
    "PENDSVSET s2 = PENDSVSET s1"
    by (rule run_pended_ticks_ok[OF s1(2) su e]) metis
  have pt: "uxPendedTicks s1 = uxPendedTicks s" using movedD(11)[OF m] by simp
  note f1 = movedD[OF m] and f2 = passed_fields[OF s2(3)]
  let ?r = "if xYieldPending s2 then portYIELD_WITHIN_API s2 else s2"
  have run: "xTaskResumeAll s = Some (?r, xYieldPending ?r)"
    using n some_tasks[OF r] s1(1) s2(1) by (simp add: xTaskResumeAll_def Let_def portYIELD_WITHIN_API_def)
  have pa: "if comes_ready s t then ready s2 t \<and> container (xEventListItem t) s2 = None else kept s s2 t" for t
  proof -
    have "passed (unat (uxPendedTicks ?s)) s1 s2" using s2(3) pt by simp
    then have "if comes_ready ?s t then ready s2 t \<and> container (xEventListItem t) s2 = None else kept ?s s2 t"
      by (intro resumed_parts[OF running_delays[OF r0] running_core[OF r0] s1(3)])
    moreover have "comes_ready ?s t = comes_ready s t" "kept ?s s2 t = kept s s2 t"
      by (simp_all add: comes_ready_def pending_def delayed_def remaining_def kept_def)
    ultimately show ?thesis by metis
  qed
  have yp: "xYieldPending s2" if "comes_ready s t" "uxPriority s (pxCurrentTCB s) \<le> uxPriority s t" for t
  proof (cases "pending s t")
    case True
    then show ?thesis using y1 that(2) s2(6) by blast
  next
    case False
    then have d: "delayed s t" and rd: "ready s2 t" using that(1) pa[of t] by (simp_all add: comes_ready_def)
    have "kept s s1 t" using releasedD(4)[OF s1(3), of t] False by (simp add: pending_def kept_def)
    then have "\<not> ready s1 t" using d by (auto simp: kept_def delayed_def)
    then show ?thesis using s2(7)[OF rd] that(2) f1(1,5) by simp
  qed
  have pr: "if comes_ready s t then ready ?r t \<and> container (xEventListItem t) ?r = None else kept s ?r t" for t
    using pa[of t] by (cases "comes_ready s t") (simp_all add: portYIELD_WITHIN_API_def kept_def)
  have "xYieldPending ?r = xYieldPending s2" by (simp add: portYIELD_WITHIN_API_def)
  then have "resumed s ?r"
    unfolding resumed_def using pr yp y1 s2(4,6,8) f1 f2 su pt
    by (intro conjI allI impI) (simp_all add: portYIELD_WITHIN_API_def)
  then show ?thesis
    using that[OF run] s2(2,5) by (simp add: portYIELD_WITHIN_API_def)
qed

lemma xTaskResumeAll_nested:
  assumes "1 < uxSchedulerSuspended s"
  shows "xTaskResumeAll s = Some (s\<lparr>uxSchedulerSuspended := uxSchedulerSuspended s - 1\<rparr>, False)"
proof -
  have "uxSchedulerSuspended s - 1 \<noteq> 0" using assms by auto
  then show ?thesis by (simp add: xTaskResumeAll_def Let_def)
qed

section \<open>What every call keeps\<close>

text \<open>No ready task has a higher priority than the current one, unless a switch is on its way.\<close>

definition top_ok :: "sched \<Rightarrow> bool" where
  "top_ok s \<longleftrightarrow> PENDSVSET s \<or> xYieldPending s \<or>
     (\<forall>t. ready s t \<longrightarrow> uxPriority s t \<le> uxPriority s (pxCurrentTCB s))"

text \<open>
  A call that gives \<open>s'\<close>, and asks its caller for a yield when \<open>y\<close> holds: it keeps the invariant, keeps the
  order of the priorities if the caller yields, and leaves the tasks alone that sleep, except those in \<open>T\<close>.
\<close>

definition call_ok :: "tcb \<Rightarrow> tcb set \<Rightarrow> sched \<Rightarrow> sched \<Rightarrow> bool \<Rightarrow> bool" where
  "call_ok idle T s s' y \<longleftrightarrow>
     kernel_ok idle s' \<and> (top_ok s \<longrightarrow> y \<or> top_ok s') \<and>
     (\<forall>t. t \<notin> T \<longrightarrow> delayed s t \<longrightarrow> container (xEventListItem t) s = None \<longrightarrow> kept s s' t) \<and>
     xTickCount s' = xTickCount s \<and> uxPendedTicks s' = uxPendedTicks s"

lemma kernel_okD:
  assumes "kernel_ok idle s"
  shows "running_ok idle s" "uxSchedulerSuspended s = 0 \<Longrightarrow> uxPendedTicks s = 0"
    "uxSchedulerSuspended s = 0 \<Longrightarrow> line (lists s) xPendingReadyList = []"
  using assms by (auto simp: kernel_ok_def)

lemma top_ok_step:
  assumes "top_ok s" "uxPriority s' = uxPriority s" "pxCurrentTCB s' = pxCurrentTCB s"
    "PENDSVSET s \<Longrightarrow> PENDSVSET s'" "xYieldPending s \<Longrightarrow> xYieldPending s'"
    "\<And>t. ready s' t \<Longrightarrow> \<not> ready s t \<Longrightarrow> uxPriority s (pxCurrentTCB s) < uxPriority s t \<Longrightarrow>
      PENDSVSET s' \<or> xYieldPending s'"
  shows "top_ok s'"
  using assms unfolding top_ok_def by (metis linorder_not_less)

lemma call_ok_moved:
  assumes k: "kernel_ok idle s" and r: "running_ok idle s'" and m: "moved s s'"
    and p: "line (lists s) xPendingReadyList = [] \<Longrightarrow> uxSchedulerSuspended s = 0 \<Longrightarrow> line (lists s') xPendingReadyList = []"
    and t: "\<And>t. t \<notin> T \<Longrightarrow> delayed s t \<Longrightarrow> container (xEventListItem t) s = None \<Longrightarrow> kept s s' t"
    and o: "\<And>t. ready s' t \<Longrightarrow> \<not> ready s t \<Longrightarrow> uxPriority s (pxCurrentTCB s) < uxPriority s t \<Longrightarrow>
      PENDSVSET s \<or> xYieldPending s \<or> y"
  shows "call_ok idle T s s' y"
proof -
  have "top_ok s'" if "top_ok s" "\<not> y"
    by (rule top_ok_step[OF that(1)]) (use o that(2) in \<open>auto simp: movedD[OF m]\<close>)
  moreover have "kernel_ok idle s'"
    using k r p by (auto simp: kernel_ok_def movedD[OF m])
  ultimately show ?thesis using t by (auto simp: call_ok_def movedD[OF m])
qed

lemma kernel_ok_fields [simp]:
  "kernel_ok idle (s\<lparr>PENDSVSET := b\<rparr>) = kernel_ok idle s" "kernel_ok idle (s\<lparr>xYieldPending := b\<rparr>) = kernel_ok idle s"
  "kernel_ok idle (s\<lparr>uxMutexesHeld := f\<rparr>) = kernel_ok idle s" "kernel_ok idle (s\<lparr>uxTaskNumber := n\<rparr>) = kernel_ok idle s"
  by (simp_all add: kernel_ok_def)

lemma call_ok_yield: "call_ok idle T s s' y \<Longrightarrow> call_ok idle T s (portYIELD_WITHIN_API s') y'"
  unfolding call_ok_def kept_def by (simp add: portYIELD_WITHIN_API_def top_ok_def)

lemma call_ok_pending: "call_ok idle T s s' y \<Longrightarrow> call_ok idle T s (s'\<lparr>xYieldPending := True\<rparr>) y'"
  unfolding call_ok_def kept_def by (simp add: top_ok_def)

lemma call_ok_same: "kernel_ok idle s \<Longrightarrow> call_ok idle T s s y"
  by (simp add: call_ok_def)

section \<open>Interrupts\<close>

lemma tick_counted:
  assumes k: "kernel_ok idle s" and sus: "uxSchedulerSuspended s = 0"
  obtains s' where "xPortSysTickHandler s = Some s'" "kernel_ok idle s'" "passed 1 s s'" "uxPendedTicks s' = 0"
    "top_ok s \<Longrightarrow> PENDSVSET s' \<or> (\<forall>t. ready s' t \<longrightarrow> uxPriority s t \<le> uxPriority s (pxCurrentTCB s))"
    "xYieldPending s \<Longrightarrow> PENDSVSET s'"
proof -
  note r = kernel_okD(1)[OF k]
  obtain s1 b where s1: "xTaskIncrementTick s = Some (s1, b)" "running_ok idle s1" "woken s (due_next s) s1" "ticked s s1"
    "b \<longleftrightarrow> (\<exists>t. due_next s t \<and> uxPriority s (pxCurrentTCB s) \<le> uxPriority s t) \<or>
       1 < length (line (lists s1) (pxReadyTasksLists (uxPriority s (pxCurrentTCB s)))) \<or> xYieldPending s"
    by (rule tick_running[OF r sus])
  let ?s = "if b then portYIELD_WITHIN_API s1 else s1"
  have run: "xPortSysTickHandler s = Some ?s" using s1(1) by (simp add: xPortSysTickHandler_def)
  have f: "lists ?s = lists s1" "uxPriority ?s = uxPriority s" "PENDSVSET ?s = (PENDSVSET s \<or> b)"
    "xYieldPending ?s = xYieldPending s" "pxCurrentTCB ?s = pxCurrentTCB s" "uxPendedTicks ?s = uxPendedTicks s"
    by (simp_all add: portYIELD_WITHIN_API_def tickedD[OF s1(4)])
  have "line (lists s1) xPendingReadyList = []" using s1(3) kernel_okD(3)[OF k sus] by (simp add: woken_def)
  moreover have "uxPendedTicks s1 = 0" using kernel_okD(2)[OF k sus] by (simp add: tickedD[OF s1(4)])
  ultimately have ko: "kernel_ok idle ?s" using s1(2) by (simp add: kernel_ok_def portYIELD_WITHIN_API_def)
  have "passed 1 s s1" by (rule passed_one[OF running_delays[OF r] s1(3,4)])
  then have p: "passed 1 s ?s"
    unfolding passed_def kept_def by (simp add: portYIELD_WITHIN_API_def)
  have new: "b" if "ready ?s t" "\<not> ready s t" "uxPriority s (pxCurrentTCB s) \<le> uxPriority s t" for t
  proof -
    have "due_next s t" using that(1,2) s1(3) f by (auto simp: woken_def split: if_splits)
    then show ?thesis using s1(5) that(3) by blast
  qed
  have o: "PENDSVSET ?s \<or> (\<forall>t. ready ?s t \<longrightarrow> uxPriority s t \<le> uxPriority s (pxCurrentTCB s))" if "top_ok s"
  proof (cases "PENDSVSET ?s")
    case False
    then have "\<not> b" "\<not> PENDSVSET s" "\<not> xYieldPending s" using f(3) s1(5) by auto
    then show ?thesis using that new unfolding top_ok_def by (metis linorder_linear)
  qed simp
  show ?thesis
    by (rule that[OF run ko p]) (use kernel_okD(2)[OF k sus] f o s1(5) in auto)
qed

lemma tick_pended:
  assumes k: "kernel_ok idle s" and sus: "uxSchedulerSuspended s \<noteq> 0"
  shows "xPortSysTickHandler s =
    Some (s\<lparr>uxPendedTicks := uxPendedTicks s + 1, PENDSVSET := PENDSVSET s \<or> xYieldPending s\<rparr>)"
    "kernel_ok idle (s\<lparr>uxPendedTicks := uxPendedTicks s + 1, PENDSVSET := PENDSVSET s \<or> xYieldPending s\<rparr>)"
  using assms by (auto simp: xPortSysTickHandler_def xTaskIncrementTick_def portYIELD_WITHIN_API_def kernel_ok_def)

lemma switch_held:
  assumes k: "kernel_ok idle s" and sus: "uxSchedulerSuspended s \<noteq> 0"
  shows "xPortPendSVHandler s = Some (s\<lparr>PENDSVSET := False, xYieldPending := True\<rparr>)"
    "call_ok idle T s (s\<lparr>PENDSVSET := False, xYieldPending := True\<rparr>) y"
proof -
  show "xPortPendSVHandler s = Some (s\<lparr>PENDSVSET := False, xYieldPending := True\<rparr>)"
    using sus by (simp add: xPortPendSVHandler_def vTaskSwitchContext_def)
  show "call_ok idle T s (s\<lparr>PENDSVSET := False, xYieldPending := True\<rparr>) y"
    using k by (simp add: call_ok_def top_ok_def kept_def)
qed

lemma switch_ok:
  assumes k: "kernel_ok idle s" and sus: "uxSchedulerSuspended s = 0"
  obtains m u where
    "xPortPendSVHandler s = Some (s\<lparr>PENDSVSET := False, xYieldPending := False, lists := m, pxCurrentTCB := u\<rparr>)"
    "hd (line (lists s) (pxReadyTasksLists (top_priority s))) = xGenericListItem u"
    "ready s u" "uxPriority s u = top_priority s"
    "kernel_ok idle (s\<lparr>PENDSVSET := False, xYieldPending := False, lists := m, pxCurrentTCB := u\<rparr>)"
    "line m = (line (lists s))(pxReadyTasksLists (top_priority s) :=
       rotate1 (line (lists s) (pxReadyTasksLists (top_priority s))))"
    "pvContainer m = pvContainer (lists s)" "xItemValue m = xItemValue (lists s)"
proof -
  note r = kernel_okD(1)[OF k]
  let ?s = "s\<lparr>PENDSVSET := False\<rparr>"
  obtain m u where m: "vTaskSwitchContext ?s = Some (?s\<lparr>xYieldPending := False, lists := m, pxCurrentTCB := u\<rparr>)"
    "hd (line (lists ?s) (pxReadyTasksLists (top_priority ?s))) = xGenericListItem u"
    "ready ?s u" "uxPriority ?s u = top_priority ?s" "core {} (?s\<lparr>lists := m\<rparr>)"
    "line m = (line (lists ?s))(pxReadyTasksLists (top_priority ?s) :=
       rotate1 (line (lists ?s) (pxReadyTasksLists (top_priority ?s))))"
    "pvContainer m = pvContainer (lists ?s)" "xItemValue m = xItemValue (lists ?s)"
    by (rule vTaskSwitchContext_ok[of ?s idle]) (use running_core[OF r] running_idle[OF r] sus in auto)
  have tp: "top_priority ?s = top_priority s" by (simp add: top_priority_def)
  let ?r = "s\<lparr>PENDSVSET := False, xYieldPending := False, lists := m, pxCurrentTCB := u\<rparr>"
  have c: "core {} ?r"
  proof -
    have "core {} (?s\<lparr>lists := m\<rparr>)" by fact
    then show ?thesis by (rule iffD1[OF core_same, rotated -1]) simp_all
  qed
  have c0: "core {} (s\<lparr>lists := m\<rparr>)" using m(5) by (rule iffD1[OF core_same, rotated -1]) simp_all
  have "delays_ok (s\<lparr>lists := m\<rparr>)"
    by (rule delays_ok_same[OF running_core[OF r] c0 running_delays[OF r]]) (use m(6,8) in auto)
  then have d: "delays_ok ?r" by (simp add: delays_ok_def delay_lists_def in_time_order_def)
  have u: "u \<in> allocated s" using placedD(1)[OF core_placed[OF running_core[OF r]], of u] m(3) by simp
  have "kernel_ok idle ?r"
    using k c d u m(6,7) by (auto simp: kernel_ok_def running_ok_def)
  moreover have "xPortPendSVHandler s = Some ?r" using m(1) by (simp add: xPortPendSVHandler_def)
  ultimately show ?thesis using that[of u m] m tp by simp
qed

section \<open>The scheduler suspended and resumed\<close>

lemma vTaskSuspendAll_ok:
  assumes "kernel_ok idle s" "uxSchedulerSuspended s + 1 \<noteq> 0"
  shows "call_ok idle T s (vTaskSuspendAll s) y"
  using assms by (auto simp: call_ok_def vTaskSuspendAll_def kernel_ok_def top_ok_def kept_def)

text \<open>At the end of a suspension the ticks that were held back are counted at once.\<close>

definition resume_ok :: "tcb \<Rightarrow> sched \<Rightarrow> sched \<Rightarrow> bool" where
  "resume_ok idle s s' \<longleftrightarrow> kernel_ok idle s' \<and> (top_ok s \<longrightarrow> top_ok s') \<and>
     (if uxSchedulerSuspended s = 1 then resumed s s'
      else (\<forall>t. kept s s' t) \<and> xTickCount s' = xTickCount s \<and> uxPendedTicks s' = uxPendedTicks s \<and>
        pxCurrentTCB s' = pxCurrentTCB s \<and> uxPriority s' = uxPriority s \<and>
        uxSchedulerSuspended s' = uxSchedulerSuspended s - 1)"

lemma top_ok_resumed:
  assumes "top_ok s" "resumed s s'"
  shows "top_ok s'"
proof -
  have s': "uxPriority s' = uxPriority s" "pxCurrentTCB s' = pxCurrentTCB s"
    "PENDSVSET s' = (PENDSVSET s \<or> xYieldPending s')" "xYieldPending s \<Longrightarrow> xYieldPending s'"
    "\<And>t. comes_ready s t \<Longrightarrow> uxPriority s (pxCurrentTCB s) \<le> uxPriority s t \<Longrightarrow> xYieldPending s'"
    "\<And>t. \<not> comes_ready s t \<Longrightarrow> kept s s' t"
    using assms(2) unfolding resumed_def by metis+
  show ?thesis
  proof (rule top_ok_step[OF assms(1) s'(1,2)])
    fix t
    assume t: "ready s' t" "\<not> ready s t" "uxPriority s (pxCurrentTCB s) < uxPriority s t"
    have "comes_ready s t"
    proof (rule ccontr)
      assume "\<not> comes_ready s t"
      then have "kept s s' t" by (rule s'(6))
      then show False using t s'(1) by (simp add: kept_def)
    qed
    then show "PENDSVSET s' \<or> xYieldPending s'" using s'(5) t(3) by simp
  qed (use s'(3,4) in auto)
qed

lemma xTaskResumeAll_ok:
  assumes k: "kernel_ok idle s" and n: "uxSchedulerSuspended s \<noteq> 0"
  obtains s' b where "xTaskResumeAll s = Some (s', b)" "resume_ok idle s s'"
proof (cases "uxSchedulerSuspended s = 1")
  case True
  obtain s' where s': "xTaskResumeAll s = Some (s', xYieldPending s')" "running_ok idle s'" "resumed s s'"
    "line (lists s') xPendingReadyList = []"
    by (rule xTaskResumeAll_last[OF kernel_okD(1)[OF k] True])
  have "uxPendedTicks s' = 0" using s'(3) by (simp add: resumed_def)
  then have "resume_ok idle s s'"
    using s' True top_ok_resumed by (simp add: resume_ok_def kernel_ok_def)
  then show ?thesis using that s'(1) by blast
next
  case False
  then have "1 < uxSchedulerSuspended s" using n by (simp add: word_less_nat_alt unat_gt_0) (metis One_nat_def Suc_lessI unat_1 unat_eq unat_gt_0)
  then have "xTaskResumeAll s = Some (s\<lparr>uxSchedulerSuspended := uxSchedulerSuspended s - 1\<rparr>, False)"
    by (rule xTaskResumeAll_nested)
  moreover have "resume_ok idle s (s\<lparr>uxSchedulerSuspended := uxSchedulerSuspended s - 1\<rparr>)"
    using k False by (auto simp: resume_ok_def kernel_ok_def top_ok_def kept_def)
  ultimately show ?thesis using that by blast
qed

section \<open>Blocking\<close>

lemma call_ok_blocks:
  assumes k: "kernel_ok idle s" and r: "running_ok idle s'" and b: "blocks s s'" and c: "ready s (pxCurrentTCB s)"
  shows "call_ok idle T s s' y"
proof (rule call_ok_moved[OF k r])
  show m: "moved s s'" using b by (simp add: blocks_def)
  have k: "kept s s' t" if "t \<noteq> pxCurrentTCB s" for t using b that by (simp add: blocks_def)
  show "kept s s' t" if "delayed s t" for t
  proof (rule k)
    show "t \<noteq> pxCurrentTCB s" using that c by (auto simp: delayed_def)
  qed
  show "PENDSVSET s \<or> xYieldPending s \<or> y" if "ready s' t" "\<not> ready s t" for t
  proof -
    have "t \<noteq> pxCurrentTCB s" using that c by auto
    then have "kept s s' t" by (rule k)
    then show ?thesis using that movedD(1)[OF m] by (simp add: kept_def)
  qed
  show "line (lists s') xPendingReadyList = []" if "line (lists s) xPendingReadyList = []"
    using b that by (simp add: blocks_def)
qed

section \<open>Waking\<close>

lemma waiting_blocked:
  assumes c: "core {} s" and e: "container (xEventListItem t) s = Some l"
  obtains k where "t \<in> allocated s" "container (xGenericListItem t) s = Some k" "blocked_list k"
proof -
  have t: "t \<in> allocated s" using placedD(2)[OF core_placed[OF c] e] by simp
  have "\<exists>k. container (xGenericListItem t) s = Some k \<and> blocked_list k"
    using core_task[OF c t] placedD(1)[OF core_placed[OF c], of t] e
    by (auto simp: task_ok_def blocked_list_def split: option.splits list_id.splits)
  then show ?thesis using that t by blast
qed

lemma running_value:
  assumes "running_ok idle s"
  shows "running_ok idle (s\<lparr>lists := listSET_LIST_ITEM_VALUE (xEventListItem t) v (lists s)\<rparr>)"
proof -
  let ?s = "s\<lparr>lists := listSET_LIST_ITEM_VALUE (xEventListItem t) v (lists s)\<rparr>"
  note c = running_core[OF assms]
  have li: "line (lists ?s) = line (lists s)" using listSET_LIST_ITEM_VALUE_line[OF core_lists[OF c]] by simp
  have d: "delays_ok ?s"
    by (rule delays_ok_same[OF c core_value[OF c] running_delays[OF assms]]) (use li in auto)
  show ?thesis
    by (rule running_ok_moved[OF assms _ core_value[OF c] d]) (use li running_idle[OF assms] in auto)
qed

text \<open>A task whose event item has been taken off its list, on its way to the ready list.\<close>

lemma wake_taken:
  assumes r: "running_ok idle s" and m: "moved s u" "running_ok idle u" "container (xEventListItem t) u = None"
      "container (xGenericListItem t) u = Some l" "blocked_list l" "\<And>v. v \<noteq> t \<Longrightarrow> kept s u v"
      "line (lists s) xPendingReadyList = [] \<Longrightarrow> line (lists u) xPendingReadyList = []"
  obtains n q where "list_remove (xGenericListItem t) u = Some (n, q)"
    "running_ok idle (prvAddTaskToReadyList t q)" "moved s (prvAddTaskToReadyList t q)"
    "ready (prvAddTaskToReadyList t q) t" "container (xEventListItem t) (prvAddTaskToReadyList t q) = None"
    "\<And>v. v \<noteq> t \<Longrightarrow> kept s (prvAddTaskToReadyList t q) v"
    "line (lists s) xPendingReadyList = [] \<Longrightarrow> line (lists (prvAddTaskToReadyList t q)) xPendingReadyList = []"
proof -
  obtain n m2 where m2: "list_remove (xGenericListItem t) u = Some (n, u\<lparr>lists := m2\<rparr>)"
    "running_ok idle (prvAddTaskToReadyList t (u\<lparr>lists := m2\<rparr>))"
    "moved u (prvAddTaskToReadyList t (u\<lparr>lists := m2\<rparr>))"
    "ready (prvAddTaskToReadyList t (u\<lparr>lists := m2\<rparr>)) t"
    "\<And>v. v \<noteq> t \<Longrightarrow> kept u (prvAddTaskToReadyList t (u\<lparr>lists := m2\<rparr>)) v"
    "\<And>v. container (xEventListItem v) (prvAddTaskToReadyList t (u\<lparr>lists := m2\<rparr>)) = container (xEventListItem v) u"
    "\<And>k. (\<And>p. k \<noteq> pxReadyTasksLists p) \<Longrightarrow> k \<noteq> l \<Longrightarrow>
       line (lists (prvAddTaskToReadyList t (u\<lparr>lists := m2\<rparr>))) k = line (lists u) k"
    by (rule ready_blocked[OF m(2,4,5,3)]) metis
  have "kept s (prvAddTaskToReadyList t (u\<lparr>lists := m2\<rparr>)) v" if "v \<noteq> t" for v
    using kept_trans[OF m(6)[OF that] m2(5)[OF that]] .
  moreover have "line (lists (prvAddTaskToReadyList t (u\<lparr>lists := m2\<rparr>))) xPendingReadyList = line (lists u) xPendingReadyList"
    using m(5) by (intro m2(7)) (auto simp: blocked_list_def)
  ultimately show ?thesis
    using that[OF m2(1,2) moved_trans[OF m(1) m2(3)] m2(4)] m2(6)[of t] m(3,7) by simp
qed

text \<open>The readied task is the only one that is not left where it is.\<close>

lemma call_ok_wake:
  assumes k: "kernel_ok idle s" and r: "running_ok idle s'" and m: "moved s s'"
    and t: "\<And>v. v \<noteq> t \<Longrightarrow> kept s s' v" and nd: "delayed s t \<Longrightarrow> container (xEventListItem t) s \<noteq> None"
    and p: "line (lists s) xPendingReadyList = [] \<Longrightarrow> uxSchedulerSuspended s = 0 \<Longrightarrow> line (lists s') xPendingReadyList = []"
  shows "call_ok idle T s s' (uxPriority s (pxCurrentTCB s) < uxPriority s t)"
proof (rule call_ok_moved[OF k r m])
  show "kept s s' v" if "delayed s v" "container (xEventListItem v) s = None" for v
    using t nd that by metis
  show "PENDSVSET s \<or> xYieldPending s \<or> uxPriority s (pxCurrentTCB s) < uxPriority s t"
    if "ready s' v" "\<not> ready s v" "uxPriority s (pxCurrentTCB s) < uxPriority s v" for v
  proof (cases "v = t")
    case False
    then have "kept s s' v" by (rule t)
    then show ?thesis using that movedD(1)[OF m] by (simp add: kept_def)
  qed (use that in simp)
qed (use p in simp)

lemma xTaskRemoveFromEventList_ok:
  assumes k: "kernel_ok idle s" and e: "line (lists s) (EventList e) \<noteq> []"
  obtains s' y t where "xTaskRemoveFromEventList e s = Some (s', y)" "call_ok idle T s s' y'"
    "hd (line (lists s) (EventList e)) = xEventListItem t"
    "y \<longleftrightarrow> uxPriority s (pxCurrentTCB s) < uxPriority s t"
    "if uxSchedulerSuspended s = 0 then ready s' t \<and> container (xEventListItem t) s' = None else pending s' t"
    "\<And>v. v \<noteq> t \<Longrightarrow> kept s s' v" "uxSchedulerSuspended s' = uxSchedulerSuspended s"
    "PENDSVSET s' = PENDSVSET s" "uxPriority s' = uxPriority s" "pxCurrentTCB s' = pxCurrentTCB s"
    "xYieldPending s' = (xYieldPending s \<or> y)"
proof -
  note r = kernel_okD(1)[OF k] and c = running_core[OF kernel_okD(1)[OF k]]
  obtain i q where iq: "line (lists s) (EventList e) = i # q" using e by (cases "line (lists s) (EventList e)") auto
  obtain t where t: "i = xEventListItem t" "container (xEventListItem t) s = Some (EventList e)"
    by (rule event_line_event[OF c, of "EventList e" i]) (use iq in auto)
  obtain l where l: "t \<in> allocated s" "container (xGenericListItem t) s = Some l" "blocked_list l"
    by (rule waiting_blocked[OF c t(2)])
  obtain n m where m: "list_remove (xEventListItem t) s = Some (n, s\<lparr>lists := m\<rparr>)" "running_ok idle (s\<lparr>lists := m\<rparr>)"
    "line m = (line (lists s))(EventList e := remove1 (xEventListItem t) (line (lists s) (EventList e)))"
    "pvContainer m = (pvContainer (lists s))(xEventListItem t := None)" "xItemValue m = xItemValue (lists s)"
    by (rule event_taken[OF r t(2)])
  have h: "head_entry (EventList e) s = Some t" using head_list[OF c, of "EventList e"] iq t(1) by simp
  have k1: "kept s (s\<lparr>lists := m\<rparr>) v" if "v \<noteq> t" for v using m(4,5) that by (simp add: kept_def)
  have g: "container (xGenericListItem t) (s\<lparr>lists := m\<rparr>) = Some l" using m(4) l(2) by simp
  let ?y = "uxPriority s (pxCurrentTCB s) < uxPriority s t"
  obtain u where u: "(if uxSchedulerSuspended (s\<lparr>lists := m\<rparr>) = 0
        then do { (n, s) \<leftarrow> list_remove (xGenericListItem t) (s\<lparr>lists := m\<rparr>); Some (prvAddTaskToReadyList t s) }
        else Some (list_insert_end xPendingReadyList (xEventListItem t) (s\<lparr>lists := m\<rparr>))) = Some u"
      "running_ok idle u" "moved s u" "\<And>v. v \<noteq> t \<Longrightarrow> kept s u v"
      "line (lists s) xPendingReadyList = [] \<Longrightarrow> uxSchedulerSuspended s = 0 \<Longrightarrow> line (lists u) xPendingReadyList = []"
      "if uxSchedulerSuspended s = 0 then ready u t \<and> container (xEventListItem t) u = None else pending u t"
  proof (cases "uxSchedulerSuspended s = 0")
    case True
    obtain n q where q: "list_remove (xGenericListItem t) (s\<lparr>lists := m\<rparr>) = Some (n, q)"
      "running_ok idle (prvAddTaskToReadyList t q)" "moved s (prvAddTaskToReadyList t q)"
      "ready (prvAddTaskToReadyList t q) t" "container (xEventListItem t) (prvAddTaskToReadyList t q) = None"
      "\<And>v. v \<noteq> t \<Longrightarrow> kept s (prvAddTaskToReadyList t q) v"
      "line (lists s) xPendingReadyList = [] \<Longrightarrow> line (lists (prvAddTaskToReadyList t q)) xPendingReadyList = []"
      by (rule wake_taken[OF r _ m(2) _ g l(3) k1]) (use m(3,4) in auto)
    then show ?thesis using that[of "prvAddTaskToReadyList t q"] True by simp
  next
    case False
    obtain m2 where m2: "list_insert_end xPendingReadyList (xEventListItem t) (s\<lparr>lists := m\<rparr>) = s\<lparr>lists := m2\<rparr>"
      "core (insert t {}) (s\<lparr>lists := m2\<rparr>)"
      "line m2 = (line m)(xPendingReadyList := line m xPendingReadyList @ [xEventListItem t])"
      "pvContainer m2 = (pvContainer m)(xEventListItem t := Some xPendingReadyList)" "xItemValue m2 = xItemValue m"
      using put_event_end[OF running_core[OF m(2)], of t xPendingReadyList] l(1) m(4) by auto
    have c2: "core {} (s\<lparr>lists := m2\<rparr>)"
      by (rule core_settled[OF m2(2)]) (use l m(4) m2(4) in \<open>auto simp: task_ok_def blocked_list_def\<close>)
    have d2: "delays_ok (s\<lparr>lists := m2\<rparr>)"
      by (rule delays_ok_same[OF c c2 running_delays[OF r]]) (use m m2 in auto)
    have "running_ok idle (s\<lparr>lists := m2\<rparr>)"
      by (rule running_ok_moved[OF r _ c2 d2]) (use m m2 running_idle[OF r] in auto)
    then show ?thesis
      using that[of "s\<lparr>lists := m2\<rparr>"] m2 m False by (simp add: kept_def pending_def)
  qed
  have ev: "container (xEventListItem t) s \<noteq> None" using t(2) by simp
  have f: "uxPriority u = uxPriority s" "pxCurrentTCB u = pxCurrentTCB s" by (simp_all add: movedD[OF u(3)])
  let ?s = "if ?y then u\<lparr>xYieldPending := True\<rparr> else u"
  have ce: "call_ok idle T s u ?y"
    by (rule call_ok_wake[OF k u(2,3,4) _ u(5)]) (use ev in auto)
  have "call_ok idle T s ?s y'"
  proof (cases ?y)
    case True
    then show ?thesis using call_ok_pending[OF ce] by simp
  next
    case False
    then show ?thesis using ce by (simp add: call_ok_def)
  qed
  moreover have "xTaskRemoveFromEventList e s = Some (?s, ?y)"
    unfolding xTaskRemoveFromEventList_def h using m(1) u(1) f by simp
  moreover obtain x where x: "x = ?s" by simp
  moreover have "lists x = lists u" "uxPriority x = uxPriority s" "pxCurrentTCB x = pxCurrentTCB s"
    "PENDSVSET x = PENDSVSET s" "xYieldPending x = (xYieldPending s \<or> ?y)"
    "uxSchedulerSuspended x = uxSchedulerSuspended s"
    unfolding x by (simp_all add: movedD[OF u(3)])
  ultimately show ?thesis
    using that[of x ?y t] iq t(1) u(4,6) f(1) unfolding x[symmetric] kept_def pending_def by simp
qed

lemma xTaskRemoveFromUnorderedEventList_ok:
  assumes k: "kernel_ok idle s" and e: "container (xEventListItem t) s = Some (EventList e)"
  obtains s' y where "xTaskRemoveFromUnorderedEventList (xEventListItem t) v s = Some (s', y)" "call_ok idle T s s' y'"
    "y \<longleftrightarrow> uxPriority s (pxCurrentTCB s) < uxPriority s t" "ready s' t"
proof -
  note r = kernel_okD(1)[OF k]
  let ?v = "v OR taskEVENT_LIST_ITEM_VALUE_IN_USE"
  let ?u = "s\<lparr>lists := listSET_LIST_ITEM_VALUE (xEventListItem t) ?v (lists s)\<rparr>"
  have ru: "running_ok idle ?u" by (rule running_value[OF r])
  have lu: "line (lists ?u) = line (lists s)"
    using listSET_LIST_ITEM_VALUE_line[OF core_lists[OF running_core[OF r]]] by simp
  obtain l where l: "t \<in> allocated s" "container (xGenericListItem t) s = Some l" "blocked_list l"
    by (rule waiting_blocked[OF running_core[OF r] e])
  have eu: "container (xEventListItem t) ?u = Some (EventList e)" using e by simp
  obtain n m where m: "list_remove (xEventListItem t) ?u = Some (n, ?u\<lparr>lists := m\<rparr>)" "running_ok idle (?u\<lparr>lists := m\<rparr>)"
    "line m = (line (lists ?u))(EventList e := remove1 (xEventListItem t) (line (lists ?u) (EventList e)))"
    "pvContainer m = (pvContainer (lists ?u))(xEventListItem t := None)" "xItemValue m = xItemValue (lists ?u)"
    by (rule event_taken[OF ru eu])
  have m': "running_ok idle (s\<lparr>lists := m\<rparr>)" using m(2) by simp
  have g: "container (xGenericListItem t) (s\<lparr>lists := m\<rparr>) = Some l" using m(4) l(2) by simp
  have k1: "kept s (s\<lparr>lists := m\<rparr>) v" if "v \<noteq> t" for v using m(4,5) that by (simp add: kept_def)
  obtain n' q where q: "list_remove (xGenericListItem t) (s\<lparr>lists := m\<rparr>) = Some (n', q)"
    "running_ok idle (prvAddTaskToReadyList t q)" "moved s (prvAddTaskToReadyList t q)"
    "ready (prvAddTaskToReadyList t q) t" "container (xEventListItem t) (prvAddTaskToReadyList t q) = None"
    "\<And>v. v \<noteq> t \<Longrightarrow> kept s (prvAddTaskToReadyList t q) v"
    "line (lists s) xPendingReadyList = [] \<Longrightarrow> line (lists (prvAddTaskToReadyList t q)) xPendingReadyList = []"
    by (rule wake_taken[OF r _ m' _ g l(3) k1]) (use m(3,4) lu in auto)
  let ?y = "uxPriority s (pxCurrentTCB s) < uxPriority s t" and ?p = "prvAddTaskToReadyList t q"
  let ?s = "if ?y then ?p\<lparr>xYieldPending := True\<rparr> else ?p"
  have f: "uxPriority q = uxPriority s" "pxCurrentTCB q = pxCurrentTCB s"
    using movedD(1,5)[OF q(3)] by simp_all
  have ce: "call_ok idle T s ?p ?y"
    by (rule call_ok_wake[OF k q(2,3,6) _ q(7)]) (use e in auto)
  have "call_ok idle T s ?s y'"
  proof (cases ?y)
    case True
    then show ?thesis using call_ok_pending[OF ce] by simp
  next
    case False
    then show ?thesis using ce by (simp add: call_ok_def)
  qed
  moreover have "xTaskRemoveFromUnorderedEventList (xEventListItem t) v s = Some (?s, ?y)"
    using m(1) q(1) f by (simp add: xTaskRemoveFromUnorderedEventList_def Let_def)
  moreover have "ready ?s t" using q(4) by simp
  ultimately show ?thesis using that[of ?s ?y] by blast
qed

section \<open>Suspending and deleting tasks\<close>

text \<open>The tasks that a handle may name: those that were created and not deleted.\<close>

definition live :: "sched \<Rightarrow> tcb \<Rightarrow> bool" where
  "live s t \<longleftrightarrow> t \<in> allocated s \<and> container (xGenericListItem t) s \<noteq> Some xTasksWaitingTermination"

lemma live_container:
  assumes "core {} s" "live s t"
  obtains l where "container (xGenericListItem t) s = Some l" "state_list l" "l \<noteq> xTasksWaitingTermination"
proof (cases "container (xGenericListItem t) s")
  case None
  then show ?thesis using assms core_task[of "{}" s t] by (simp add: live_def task_ok_def)
next
  case (Some l)
  then show ?thesis using that assms placedD(1)[OF core_placed[OF assms(1)]] by (simp add: live_def)
qed

lemma filter_others:
  assumes c: "core H s" and l: "state_list l"
  shows "filter (\<lambda>i. owner i \<noteq> t) (line (lists s) l) = remove1 (xGenericListItem t) (line (lists s) l)"
proof -
  have "owner i \<noteq> t \<longleftrightarrow> i \<noteq> xGenericListItem t" if "i \<in> set (line (lists s) l)" for i
    by (rule state_line_generic[OF c l that]) auto
  then have "filter (\<lambda>i. owner i \<noteq> t) (line (lists s) l) = filter (\<lambda>i. i \<noteq> xGenericListItem t) (line (lists s) l)"
    by (rule filter_cong[OF refl])
  then show ?thesis
    using distinct_remove1_removeAll[OF line_distinct[OF c]] by (auto simp: removeAll_filter_not_eq intro: filter_cong)
qed

text \<open>A task leaves the list of its state, and the list of the event it may wait for.\<close>

lemma taken_out:
  assumes r: "running_ok idle s" and t: "live s t"
  obtains n m b k where "list_remove (xGenericListItem t) s = Some (n, s\<lparr>lists := m\<rparr>)"
    "(if n = 0 then taskRESET_READY_PRIORITY (uxPriority s t) (s\<lparr>lists := m\<rparr>) else s\<lparr>lists := m\<rparr>) =
       s\<lparr>lists := m, uxTopReadyPriority := b\<rparr>"
    "leave_event_list t (s\<lparr>lists := m, uxTopReadyPriority := b\<rparr>) = Some (s\<lparr>lists := k, uxTopReadyPriority := b\<rparr>)"
    "core {t} (s\<lparr>lists := k, uxTopReadyPriority := b\<rparr>)" "delays_ok (s\<lparr>lists := k, uxTopReadyPriority := b\<rparr>)"
    "pvContainer k = (pvContainer (lists s))(xGenericListItem t := None, xEventListItem t := None)"
    "xItemValue k = xItemValue (lists s)" "line k xTasksWaitingTermination = line (lists s) xTasksWaitingTermination"
    "line (lists s) xPendingReadyList = [] \<Longrightarrow> line k xPendingReadyList = []"
proof -
  note c = running_core[OF r]
  let ?i = "xGenericListItem t"
  obtain l where l: "container ?i s = Some l" "state_list l" "l \<noteq> xTasksWaitingTermination"
    by (rule live_container[OF c t])
  obtain n m where m: "list_remove ?i s = Some (n, s\<lparr>lists := m\<rparr>)"
    "line m = (line (lists s))(l := remove1 ?i (line (lists s) l))"
    "pvContainer m = (pvContainer (lists s))(?i := None)" "xItemValue m = xItemValue (lists s)"
    "(\<And>p. l \<noteq> pxReadyTasksLists p) \<Longrightarrow> core (insert t {}) (s\<lparr>lists := m\<rparr>)"
    "\<And>p. l = pxReadyTasksLists p \<Longrightarrow>
      core (insert t {}) (if n = 0 then portRESET_READY_PRIORITY p (s\<lparr>lists := m\<rparr>) else s\<lparr>lists := m\<rparr>)"
    "uxNumberOfItems m l = n"
    by (rule take_off[OF c l(1)]) metis
  obtain b where b: "(if n = 0 then taskRESET_READY_PRIORITY (uxPriority s t) (s\<lparr>lists := m\<rparr>) else s\<lparr>lists := m\<rparr>) =
       s\<lparr>lists := m, uxTopReadyPriority := b\<rparr>" "core {t} (s\<lparr>lists := m, uxTopReadyPriority := b\<rparr>)"
  proof (cases "\<exists>p. l = pxReadyTasksLists p")
    case True
    then have p: "l = pxReadyTasksLists (uxPriority s t)" using l(1) ready_priority[OF c] by blast
    show ?thesis
    proof (cases "n = 0")
      case n: True
      then show ?thesis
        using that[of "uxTopReadyPriority s AND NOT (push_bit (unat (uxPriority s t)) 1)"] m(6)[OF p] m(7) p
        by (simp add: taskRESET_READY_PRIORITY_def portRESET_READY_PRIORITY_def)
    next
      case False
      then show ?thesis using that[of "uxTopReadyPriority s"] m(6)[OF p] by simp
    qed
  next
    case False
    then have "core {t} (s\<lparr>lists := m\<rparr>)" using m(5) by simp
    then show ?thesis using that[of "uxTopReadyPriority s"] by simp
  qed
  let ?s = "s\<lparr>lists := m, uxTopReadyPriority := b\<rparr>"
  obtain k where k: "leave_event_list t ?s = Some (?s\<lparr>lists := k\<rparr>)" "core {t} (?s\<lparr>lists := k\<rparr>)"
    "\<And>l. line k l = remove1 (xEventListItem t) (line (lists ?s) l)"
    "pvContainer k = (pvContainer (lists ?s))(xEventListItem t := None)" "xItemValue k = xItemValue (lists ?s)"
    by (rule leave_event[OF b(2)]) blast
  have ck: "core {t} (s\<lparr>lists := k, uxTopReadyPriority := b\<rparr>)"
    using k(2) by (rule iffD1[OF core_same, rotated -1]) simp_all
  have ne: "xEventListItem t \<notin> set (line m j)" if "state_list j" for j
    using line_set[OF b(2), of "xEventListItem t" j] placedD(2)[OF core_placed[OF b(2)], of t j] that by auto
  have lk: "line k j = filter (\<lambda>i. owner i \<noteq> t) (line (lists s) j)"
    if "state_list j" for j
  proof -
    have "line k j = line m j" using k(3) ne[OF that] by (simp add: remove1_idem)
    also have "\<dots> = remove1 ?i (line (lists s) j)"
    proof (cases "j = l")
      case False
      then have "?i \<notin> set (line (lists s) j)" using line_set[OF c, of ?i j] l(1) by simp
      then show ?thesis using m(2) False by (simp add: remove1_idem)
    qed (simp add: m(2))
    also have "\<dots> = filter (\<lambda>i. owner i \<noteq> t) (line (lists s) j)" using filter_others[OF c that] by simp
    finally show ?thesis .
  qed
  have d: "delays_ok (s\<lparr>lists := k, uxTopReadyPriority := b\<rparr>)"
  proof (rule delays_ok_leave[OF c ck running_delays[OF r]])
    show "\<exists>f. line (lists (s\<lparr>lists := k, uxTopReadyPriority := b\<rparr>)) j = filter f (line (lists s) j)"
      if "j = xDelayedTaskList1 \<or> j = xDelayedTaskList2" for j
      using lk[of j] that by auto
  qed (use m(4) k(5) in auto)
  have w: "line k xTasksWaitingTermination = line (lists s) xTasksWaitingTermination"
    using k(3)[of xTasksWaitingTermination] ne[of xTasksWaitingTermination] m(2) l(3) by (simp add: remove1_idem)
  have "line k xPendingReadyList = []" if "line (lists s) xPendingReadyList = []"
    using k(3)[of xPendingReadyList] m(2) l(2) that by auto
  then show ?thesis
    using that[of n m b k] m(1,3,4) b(1) k(1,4,5) ck d w by (simp add: fun_upd_twist)
qed

text \<open>The task is put at the end of a list that is not searched by the scheduler.\<close>

lemma put_away:
  assumes r: "running_ok idle s" and t: "live s t" "t \<noteq> idle" and l: "l = xSuspendedTaskList \<or> l = xTasksWaitingTermination"
  obtains n m b k k2 where "list_remove (xGenericListItem t) s = Some (n, s\<lparr>lists := m\<rparr>)"
    "(if n = 0 then taskRESET_READY_PRIORITY (uxPriority s t) (s\<lparr>lists := m\<rparr>) else s\<lparr>lists := m\<rparr>) =
       s\<lparr>lists := m, uxTopReadyPriority := b\<rparr>"
    "leave_event_list t (s\<lparr>lists := m, uxTopReadyPriority := b\<rparr>) = Some (s\<lparr>lists := k, uxTopReadyPriority := b\<rparr>)"
    "list_insert_end l (xGenericListItem t) (s\<lparr>lists := k, uxTopReadyPriority := b\<rparr>) =
       s\<lparr>lists := k2, uxTopReadyPriority := b\<rparr>"
    "core {} (s\<lparr>lists := k2, uxTopReadyPriority := b\<rparr>)" "delays_ok (s\<lparr>lists := k2, uxTopReadyPriority := b\<rparr>)"
    "ready (s\<lparr>lists := k2, uxTopReadyPriority := b\<rparr>) idle"
    "pvContainer k2 = (pvContainer (lists s))(xGenericListItem t := Some l, xEventListItem t := None)"
    "xItemValue k2 = xItemValue (lists s)"
    "line k2 xTasksWaitingTermination = line (lists s) xTasksWaitingTermination @
       (if l = xTasksWaitingTermination then [xGenericListItem t] else [])"
    "Suc (length (line (lists s) xTasksWaitingTermination)) < 2 ^ 32"
    "line (lists s) xPendingReadyList = [] \<Longrightarrow> line k2 xPendingReadyList = []"
proof -
  obtain n m b k where k: "list_remove (xGenericListItem t) s = Some (n, s\<lparr>lists := m\<rparr>)"
    "(if n = 0 then taskRESET_READY_PRIORITY (uxPriority s t) (s\<lparr>lists := m\<rparr>) else s\<lparr>lists := m\<rparr>) =
       s\<lparr>lists := m, uxTopReadyPriority := b\<rparr>"
    "leave_event_list t (s\<lparr>lists := m, uxTopReadyPriority := b\<rparr>) = Some (s\<lparr>lists := k, uxTopReadyPriority := b\<rparr>)"
    "core {t} (s\<lparr>lists := k, uxTopReadyPriority := b\<rparr>)" "delays_ok (s\<lparr>lists := k, uxTopReadyPriority := b\<rparr>)"
    "pvContainer k = (pvContainer (lists s))(xGenericListItem t := None, xEventListItem t := None)"
    "xItemValue k = xItemValue (lists s)" "line k xTasksWaitingTermination = line (lists s) xTasksWaitingTermination"
    "line (lists s) xPendingReadyList = [] \<Longrightarrow> line k xPendingReadyList = []"
    by (rule taken_out[OF r t(1)]) metis
  let ?s = "s\<lparr>lists := k, uxTopReadyPriority := b\<rparr>"
  have a: "t \<in> allocated s" using t(1) by (simp add: live_def)
  obtain k2 where k2: "list_insert_end l (xGenericListItem t) ?s = ?s\<lparr>lists := k2\<rparr>" "core ({t} - {t}) (?s\<lparr>lists := k2\<rparr>)"
    "line k2 = (line (lists ?s))(l := line (lists ?s) l @ [xGenericListItem t])"
    "pvContainer k2 = (pvContainer (lists ?s))(xGenericListItem t := Some l)" "xItemValue k2 = xItemValue (lists ?s)"
    by (rule put_end[OF k(4), of t l]) (use a k(6) l in \<open>auto simp: blocked_list_def\<close>)
  have room: "Suc (length (line k xTasksWaitingTermination)) < 2 ^ 32"
    using line_room[OF k(4), of "xGenericListItem t" xTasksWaitingTermination] a k(6) by simp
  have "core {} (?s\<lparr>lists := k2\<rparr>)" using k2(2) by simp
  then have c2: "core {} (s\<lparr>lists := k2, uxTopReadyPriority := b\<rparr>)"
    by (rule iffD1[OF core_same, rotated -1]) simp_all
  have d: "delays_ok (s\<lparr>lists := k2, uxTopReadyPriority := b\<rparr>)"
    by (rule delays_ok_same[OF k(4) c2 k(5)]) (use k2(3,5) l in \<open>auto simp: moved_def\<close>)
  show ?thesis
    by (rule that[OF k(1-3) _ c2 d])
      (use k2 k(6-9) room l t(2) running_idle[OF r] in \<open>auto simp: fun_upd_twist\<close>)
qed

lemma away_kept:
  assumes "pvContainer m = (pvContainer (lists s))(xGenericListItem t := Some l, xEventListItem t := None)"
    "xItemValue m = xItemValue (lists s)" "lists s' = m" "u \<noteq> t"
  shows "kept s s' u"
  using assms by (simp add: kept_def)

lemma vTaskSuspend_ok:
  assumes k: "kernel_ok idle s" and t: "live s (prvGetTCBFromHandle h s)" "prvGetTCBFromHandle h s \<noteq> idle"
  obtains s' where "vTaskSuspend h s = Some s'" "call_ok idle {prvGetTCBFromHandle h s} s s' y"
    "container (xGenericListItem (prvGetTCBFromHandle h s)) s' = Some xSuspendedTaskList"
    "container (xEventListItem (prvGetTCBFromHandle h s)) s' = None"
    "prvGetTCBFromHandle h s = pxCurrentTCB s \<Longrightarrow> PENDSVSET s'"
proof -
  note r = kernel_okD(1)[OF k]
  let ?t = "prvGetTCBFromHandle h s"
  obtain n m b q m2 where m: "list_remove (xGenericListItem ?t) s = Some (n, s\<lparr>lists := m\<rparr>)"
    "(if n = 0 then taskRESET_READY_PRIORITY (uxPriority s ?t) (s\<lparr>lists := m\<rparr>) else s\<lparr>lists := m\<rparr>) =
       s\<lparr>lists := m, uxTopReadyPriority := b\<rparr>"
    "leave_event_list ?t (s\<lparr>lists := m, uxTopReadyPriority := b\<rparr>) = Some (s\<lparr>lists := q, uxTopReadyPriority := b\<rparr>)"
    "list_insert_end xSuspendedTaskList (xGenericListItem ?t) (s\<lparr>lists := q, uxTopReadyPriority := b\<rparr>) =
       s\<lparr>lists := m2, uxTopReadyPriority := b\<rparr>"
    "core {} (s\<lparr>lists := m2, uxTopReadyPriority := b\<rparr>)" "delays_ok (s\<lparr>lists := m2, uxTopReadyPriority := b\<rparr>)"
    "ready (s\<lparr>lists := m2, uxTopReadyPriority := b\<rparr>) idle"
    "pvContainer m2 = (pvContainer (lists s))(xGenericListItem ?t := Some xSuspendedTaskList, xEventListItem ?t := None)"
    "xItemValue m2 = xItemValue (lists s)"
    "line m2 xTasksWaitingTermination = line (lists s) xTasksWaitingTermination @
       (if xSuspendedTaskList = xTasksWaitingTermination then [xGenericListItem ?t] else [])"
    "Suc (length (line (lists s) xTasksWaitingTermination)) < 2 ^ 32"
    "line (lists s) xPendingReadyList = [] \<Longrightarrow> line m2 xPendingReadyList = []"
    by (rule put_away[OF r t, of xSuspendedTaskList]) simp_all
  let ?u = "s\<lparr>lists := m2, uxTopReadyPriority := b\<rparr>"
  let ?x = "?u\<lparr>xNextTaskUnblockTime := first_time m2 (pxDelayedTaskList s)\<rparr>"
  have mv: "moved s ?u" "moved s ?x" by (simp_all add: moved_def)
  have ru: "running_ok idle ?u" by (rule running_ok_moved[OF r mv(1) m(5-7)]) (use m(10) in simp)
  have dx: "delays_ok ?x" using delays_ok_reset[OF m(5,6)] by simp
  have cx: "core {} ?x" using m(5) by simp
  have rx: "running_ok idle ?x"
    by (rule running_ok_moved[OF r mv(2) cx dx]) (use m(7,10) in simp_all)
  have kp: "kept s s' v" if "lists s' = m2" "v \<noteq> ?t" for s' v by (rule away_kept[OF m(8,9) that])
  have nr: "v \<noteq> ?t" if "pvContainer m2 (xGenericListItem v) = Some (pxReadyTasksLists p)" for v p
    using that m(8) by auto
  have co: "call_ok idle {?t} s s' y" if "running_ok idle s'" "moved s s'" "lists s' = m2" for s' y
  proof (rule call_ok_moved[OF k that(1,2)])
    show "PENDSVSET s \<or> xYieldPending s \<or> y" if "ready s' v" "\<not> ready s v" for v
      using kp[OF \<open>lists s' = m2\<close>, of v] nr that \<open>lists s' = m2\<close> movedD(1)[OF \<open>moved s s'\<close>] by (simp add: kept_def)
  qed (use kp m(12) that in auto)
  have run: "vTaskSuspend h s = Some (if ?t = pxCurrentTCB s then portYIELD_WITHIN_API ?u else ?x)"
  proof -
    have pm: "uxPriority (s\<lparr>lists := m\<rparr>) = uxPriority s" by simp
    have "vTaskSuspend h s = (let s = ?u in if ?t = pxCurrentTCB s then
         if xSchedulerRunning s then Some (portYIELD_WITHIN_API s)
         else if list_length xSuspendedTaskList s = uxCurrentNumberOfTasks s then Some (s\<lparr>pxCurrentTCB := NULL\<rparr>)
         else vTaskSwitchContext s
       else if xSchedulerRunning s then prvResetNextTaskUnblockTime s
       else Some s)"
      by (simp only: vTaskSuspend_def Let_def m(1-4) pm Option.bind.bind_lunit prod.case)
    then show ?thesis
      using running_started[OF r] reset_next[OF m(5) delays_lists[OF m(6)]] by simp
  qed
  show ?thesis
  proof (cases "?t = pxCurrentTCB s")
    case True
    have "call_ok idle {?t} s (portYIELD_WITHIN_API ?u) y" by (rule call_ok_yield[OF co[OF ru mv(1)]]) simp
    then show ?thesis
      using that[of "portYIELD_WITHIN_API ?u"] run True m(8) by (simp add: portYIELD_WITHIN_API_def)
  next
    case False
    then show ?thesis using that[of ?x] run co[OF rx mv(2), of y] m(8) by simp
  qed
qed

lemma vTaskDelete_ok:
  assumes k: "kernel_ok idle s" and t: "live s (prvGetTCBFromHandle h s)" "prvGetTCBFromHandle h s \<noteq> idle"
  obtains s' where "vTaskDelete h s = Some s'" "call_ok idle {prvGetTCBFromHandle h s} s s' y"
    "\<not> live s' (prvGetTCBFromHandle h s)" "prvGetTCBFromHandle h s = pxCurrentTCB s \<Longrightarrow> PENDSVSET s'"
proof -
  note r = kernel_okD(1)[OF k]
  let ?t = "prvGetTCBFromHandle h s"
  obtain n m b q m2 where m: "list_remove (xGenericListItem ?t) s = Some (n, s\<lparr>lists := m\<rparr>)"
    "(if n = 0 then taskRESET_READY_PRIORITY (uxPriority s ?t) (s\<lparr>lists := m\<rparr>) else s\<lparr>lists := m\<rparr>) =
       s\<lparr>lists := m, uxTopReadyPriority := b\<rparr>"
    "leave_event_list ?t (s\<lparr>lists := m, uxTopReadyPriority := b\<rparr>) = Some (s\<lparr>lists := q, uxTopReadyPriority := b\<rparr>)"
    "list_insert_end xTasksWaitingTermination (xGenericListItem ?t) (s\<lparr>lists := q, uxTopReadyPriority := b\<rparr>) =
       s\<lparr>lists := m2, uxTopReadyPriority := b\<rparr>"
    "core {} (s\<lparr>lists := m2, uxTopReadyPriority := b\<rparr>)" "delays_ok (s\<lparr>lists := m2, uxTopReadyPriority := b\<rparr>)"
    "ready (s\<lparr>lists := m2, uxTopReadyPriority := b\<rparr>) idle"
    "pvContainer m2 = (pvContainer (lists s))(xGenericListItem ?t := Some xTasksWaitingTermination, xEventListItem ?t := None)"
    "xItemValue m2 = xItemValue (lists s)"
    "line m2 xTasksWaitingTermination = line (lists s) xTasksWaitingTermination @
       (if xTasksWaitingTermination = xTasksWaitingTermination then [xGenericListItem ?t] else [])"
    "Suc (length (line (lists s) xTasksWaitingTermination)) < 2 ^ 32"
    "line (lists s) xPendingReadyList = [] \<Longrightarrow> line m2 xPendingReadyList = []"
    by (rule put_away[OF r t, of xTasksWaitingTermination]) simp_all
  let ?u = "s\<lparr>lists := m2, uxTopReadyPriority := b, uxTasksDeleted := uxTasksDeleted s + 1, uxTaskNumber := uxTaskNumber s + 1\<rparr>"
  let ?x = "?u\<lparr>xNextTaskUnblockTime := first_time m2 (pxDelayedTaskList s)\<rparr>"
  have cu: "core {} ?u" using m(5) by simp
  have du: "delays_ok ?u" using m(6) by (simp add: delays_ok_def delay_lists_def in_time_order_def)
  have un: "unat (uxTasksDeleted s + 1) = Suc (length (line (lists s) xTasksWaitingTermination))"
    using running_deleted[OF r] m(11) unat_plus_if'[of "uxTasksDeleted s" 1] by simp
  have ku: "kernel_ok idle ?u"
    using k cu du m(7,10,12) un by (auto simp: kernel_ok_def running_ok_def)
  have dx: "delays_ok ?x" using delays_ok_reset[OF cu du] by simp
  have kx: "kernel_ok idle ?x"
    using ku dx by (auto simp: kernel_ok_def running_ok_def)
  have kp: "kept s s' v" if "lists s' = m2" "v \<noteq> ?t" for s' v by (rule away_kept[OF m(8,9) that])
  have nr: "v \<noteq> ?t" if "pvContainer m2 (xGenericListItem v) = Some (pxReadyTasksLists p)" for v p
    using that m(8) by auto
  have co: "call_ok idle {?t} s s' y"
    if "kernel_ok idle s'" "lists s' = m2" "uxPriority s' = uxPriority s" "pxCurrentTCB s' = pxCurrentTCB s"
      "PENDSVSET s' = PENDSVSET s" "xYieldPending s' = xYieldPending s" "xTickCount s' = xTickCount s"
      "uxPendedTicks s' = uxPendedTicks s" for s' y
  proof -
    have "top_ok s'" if t: "top_ok s"
    proof (rule top_ok_step[OF t \<open>uxPriority s' = _\<close> \<open>pxCurrentTCB s' = _\<close>])
      show "PENDSVSET s' \<or> xYieldPending s'" if "ready s' v" "\<not> ready s v" for v
        using kp[OF \<open>lists s' = m2\<close>, of v] nr that \<open>lists s' = m2\<close> \<open>uxPriority s' = _\<close> by (simp add: kept_def)
    qed (use \<open>PENDSVSET s' = _\<close> \<open>xYieldPending s' = _\<close> in simp_all)
    then show ?thesis using that kp by (simp add: call_ok_def)
  qed
  have run: "vTaskDelete h s = Some (if ?t = pxCurrentTCB s then portYIELD_WITHIN_API ?u else ?x)"
  proof -
    have pm: "uxPriority (s\<lparr>lists := m\<rparr>) = uxPriority s" by simp
    have "vTaskDelete h s = (let s = s\<lparr>lists := m2, uxTopReadyPriority := b\<rparr>;
         s = s\<lparr>uxTasksDeleted := uxTasksDeleted s + 1, uxTaskNumber := uxTaskNumber s + 1\<rparr>
       in if xSchedulerRunning s then
            if ?t = pxCurrentTCB s then Some (portYIELD_WITHIN_API s) else prvResetNextTaskUnblockTime s
          else Some s)"
      by (simp only: vTaskDelete_def Let_def m(1-4) pm Option.bind.bind_lunit prod.case)
    then show ?thesis
      using running_started[OF r] reset_next[OF cu delays_lists[OF du]] by simp
  qed
  show ?thesis
  proof (cases "?t = pxCurrentTCB s")
    case True
    have "call_ok idle {?t} s (portYIELD_WITHIN_API ?u) y" by (rule call_ok_yield[OF co[OF ku]]) simp_all
    then show ?thesis
      using that[of "portYIELD_WITHIN_API ?u"] run True m(8) by (simp add: portYIELD_WITHIN_API_def live_def)
  next
    case False
    then show ?thesis using that[of ?x] run co[OF kx, of y] m(8) by (simp add: live_def)
  qed
qed

section \<open>Resuming tasks\<close>

lemma suspendedD:
  assumes "prvTaskIsTaskSuspended t s"
  shows "container (xGenericListItem t) s = Some xSuspendedTaskList" "container (xEventListItem t) s = None"
    "blocked_list xSuspendedTaskList"
  using assms by (auto simp: prvTaskIsTaskSuspended_def blocked_list_def)

lemma resume_task:
  assumes k: "kernel_ok idle s" and t: "prvTaskIsTaskSuspended t s"
  obtains n q where "list_remove (xGenericListItem t) s = Some (n, q)" "running_ok idle (prvAddTaskToReadyList t q)"
    "moved s (prvAddTaskToReadyList t q)" "ready (prvAddTaskToReadyList t q) t"
    "call_ok idle T s (prvAddTaskToReadyList t q) (uxPriority s (pxCurrentTCB s) \<le> uxPriority s t)"
proof -
  note r = kernel_okD(1)[OF k] and st = suspendedD[OF t]
  obtain n m where m: "list_remove (xGenericListItem t) s = Some (n, s\<lparr>lists := m\<rparr>)"
    "running_ok idle (prvAddTaskToReadyList t (s\<lparr>lists := m\<rparr>))"
    "moved s (prvAddTaskToReadyList t (s\<lparr>lists := m\<rparr>))"
    "ready (prvAddTaskToReadyList t (s\<lparr>lists := m\<rparr>)) t"
    "\<And>u. u \<noteq> t \<Longrightarrow> kept s (prvAddTaskToReadyList t (s\<lparr>lists := m\<rparr>)) u"
    "\<And>u. container (xEventListItem u) (prvAddTaskToReadyList t (s\<lparr>lists := m\<rparr>)) = container (xEventListItem u) s"
    "\<And>k. (\<And>p. k \<noteq> pxReadyTasksLists p) \<Longrightarrow> k \<noteq> xSuspendedTaskList \<Longrightarrow>
       line (lists (prvAddTaskToReadyList t (s\<lparr>lists := m\<rparr>))) k = line (lists s) k"
    by (rule ready_blocked[OF r st(1,3,2)]) metis
  let ?u = "prvAddTaskToReadyList t (s\<lparr>lists := m\<rparr>)"
  have nd: "\<not> delayed s t" using st(1) by (simp add: delayed_def)
  have lp: "line (lists ?u) xPendingReadyList = line (lists s) xPendingReadyList" by (rule m(7)) simp_all
  have "call_ok idle T s ?u (uxPriority s (pxCurrentTCB s) < uxPriority s t)"
    by (rule call_ok_wake[OF k m(2,3,5)]) (use nd lp in auto)
  then have "call_ok idle T s ?u (uxPriority s (pxCurrentTCB s) \<le> uxPriority s t)"
    by (auto simp: call_ok_def)
  then show ?thesis using that m by blast
qed

lemma vTaskResume_ok:
  assumes k: "kernel_ok idle s"
  obtains s' where "vTaskResume t s = Some s'" "call_ok idle T s s' y"
    "t \<noteq> NULL \<Longrightarrow> t \<noteq> pxCurrentTCB s \<Longrightarrow> prvTaskIsTaskSuspended t s \<Longrightarrow> ready s' t"
proof (cases "t \<noteq> NULL \<and> t \<noteq> pxCurrentTCB s \<and> prvTaskIsTaskSuspended t s")
  case True
  obtain n q where q: "list_remove (xGenericListItem t) s = Some (n, q)" "running_ok idle (prvAddTaskToReadyList t q)"
    "moved s (prvAddTaskToReadyList t q)" "ready (prvAddTaskToReadyList t q) t"
    "call_ok idle T s (prvAddTaskToReadyList t q) (uxPriority s (pxCurrentTCB s) \<le> uxPriority s t)"
    using resume_task[OF k, of t] True by blast
  let ?p = "prvAddTaskToReadyList t q" and ?y = "uxPriority s (pxCurrentTCB s) \<le> uxPriority s t"
  have f: "uxPriority q = uxPriority s" "pxCurrentTCB q = pxCurrentTCB s" using movedD(1,5)[OF q(3)] by simp_all
  show ?thesis
  proof (cases ?y)
    case y: True
    have "vTaskResume t s = Some (portYIELD_WITHIN_API ?p)" using True q(1) f y by (simp add: vTaskResume_def Let_def)
    moreover have "ready (portYIELD_WITHIN_API ?p) t" using q(4) by (simp add: portYIELD_WITHIN_API_def)
    ultimately show ?thesis using that call_ok_yield[OF q(5)] by blast
  next
    case False
    have "vTaskResume t s = Some ?p" using True q(1) f False by (simp add: vTaskResume_def Let_def)
    moreover have "call_ok idle T s ?p y" using q(5) False by (simp add: call_ok_def)
    ultimately show ?thesis using that q(4) by blast
  qed
next
  case False
  then show ?thesis using that[of s] call_ok_same[OF k] by (auto simp: vTaskResume_def)
qed

lemma xTaskResumeFromISR_ok:
  assumes k: "kernel_ok idle s" and t: "t \<in> allocated s"
  obtains s' y where "xTaskResumeFromISR t s = Some (s', y)" "call_ok idle T s s' y"
proof (cases "prvTaskIsTaskSuspended t s")
  case True
  note r = kernel_okD(1)[OF k] and c = running_core[OF kernel_okD(1)[OF k]] and st = suspendedD[OF True]
  show ?thesis
  proof (cases "uxSchedulerSuspended s = 0")
    case sus: True
    obtain n q where q: "list_remove (xGenericListItem t) s = Some (n, q)" "running_ok idle (prvAddTaskToReadyList t q)"
      "moved s (prvAddTaskToReadyList t q)" "ready (prvAddTaskToReadyList t q) t"
      "call_ok idle T s (prvAddTaskToReadyList t q) (uxPriority s (pxCurrentTCB s) \<le> uxPriority s t)"
      by (rule resume_task[OF k True])
    have "xTaskResumeFromISR t s = Some (prvAddTaskToReadyList t q, uxPriority s (pxCurrentTCB s) \<le> uxPriority s t)"
      using True q(1) sus by (simp add: xTaskResumeFromISR_def Let_def)
    then show ?thesis using that q(5) by blast
  next
    case False
    obtain m where m: "list_insert_end xPendingReadyList (xEventListItem t) s = s\<lparr>lists := m\<rparr>"
      "core (insert t {}) (s\<lparr>lists := m\<rparr>)"
      "line m = (line (lists s))(xPendingReadyList := line (lists s) xPendingReadyList @ [xEventListItem t])"
      "pvContainer m = (pvContainer (lists s))(xEventListItem t := Some xPendingReadyList)"
      "xItemValue m = xItemValue (lists s)"
      by (rule put_event_end[OF c t st(2), of xPendingReadyList]) auto
    have c2: "core {} (s\<lparr>lists := m\<rparr>)"
      by (rule core_settled[OF m(2)]) (use st m(4) in \<open>auto simp: task_ok_def\<close>)
    have d2: "delays_ok (s\<lparr>lists := m\<rparr>)"
      by (rule delays_ok_same[OF c c2 running_delays[OF r]]) (use m in auto)
    have r2: "running_ok idle (s\<lparr>lists := m\<rparr>)"
      by (rule running_ok_moved[OF r _ c2 d2]) (use m running_idle[OF r] in auto)
    have "call_ok idle T s (s\<lparr>lists := m\<rparr>) False"
      by (rule call_ok_moved[OF k r2]) (use m(4,5) False st(1) in \<open>auto simp: kept_def delayed_def\<close>)
    moreover have "xTaskResumeFromISR t s = Some (s\<lparr>lists := m\<rparr>, False)"
      using True False m(1) by (simp add: xTaskResumeFromISR_def)
    ultimately show ?thesis using that by blast
  qed
next
  case False
  then show ?thesis using that[of s False] call_ok_same[OF k] by (simp add: xTaskResumeFromISR_def)
qed

section \<open>Priorities\<close>

text \<open>A ready task is taken off its list to be put on another.\<close>

lemma take_ready:
  assumes c: "core H s" "H \<subseteq> {t}" and w: "container (xGenericListItem t) s = Some (pxReadyTasksLists p)"
  obtains n m b where "list_remove (xGenericListItem t) s = Some (n, s\<lparr>lists := m\<rparr>)"
    "(if n = 0 then portRESET_READY_PRIORITY p (s\<lparr>lists := m\<rparr>) else s\<lparr>lists := m\<rparr>) =
       s\<lparr>lists := m, uxTopReadyPriority := b\<rparr>"
    "(if n = 0 then taskRESET_READY_PRIORITY p (s\<lparr>lists := m\<rparr>) else s\<lparr>lists := m\<rparr>) =
       s\<lparr>lists := m, uxTopReadyPriority := b\<rparr>"
    "core {t} (s\<lparr>lists := m, uxTopReadyPriority := b\<rparr>)"
    "pvContainer m = (pvContainer (lists s))(xGenericListItem t := None)" "xItemValue m = xItemValue (lists s)"
    "\<And>l. (\<And>p. l \<noteq> pxReadyTasksLists p) \<Longrightarrow> line m l = line (lists s) l"
proof -
  obtain n m where m: "list_remove (xGenericListItem t) s = Some (n, s\<lparr>lists := m\<rparr>)"
    "line m = (line (lists s))(pxReadyTasksLists p := remove1 (xGenericListItem t) (line (lists s) (pxReadyTasksLists p)))"
    "pvContainer m = (pvContainer (lists s))(xGenericListItem t := None)" "xItemValue m = xItemValue (lists s)"
    "core (insert t H) (if n = 0 then portRESET_READY_PRIORITY p (s\<lparr>lists := m\<rparr>) else s\<lparr>lists := m\<rparr>)"
    "uxNumberOfItems m (pxReadyTasksLists p) = n"
    using take_off[OF c(1) w] by metis
  let ?b = "if n = 0 then uxTopReadyPriority s AND NOT (push_bit (unat p) 1) else uxTopReadyPriority s"
  have e: "(if n = 0 then portRESET_READY_PRIORITY p (s\<lparr>lists := m\<rparr>) else s\<lparr>lists := m\<rparr>) =
      s\<lparr>lists := m, uxTopReadyPriority := ?b\<rparr>" by (simp add: portRESET_READY_PRIORITY_def)
  moreover have "(if n = 0 then taskRESET_READY_PRIORITY p (s\<lparr>lists := m\<rparr>) else s\<lparr>lists := m\<rparr>) =
      s\<lparr>lists := m, uxTopReadyPriority := ?b\<rparr>"
    using m(6) by (simp add: portRESET_READY_PRIORITY_def taskRESET_READY_PRIORITY_def)
  moreover have h: "insert t H = {t}" using c(2) by auto
  have "core {t} (s\<lparr>lists := m, uxTopReadyPriority := ?b\<rparr>)" using m(5) unfolding e h .
  ultimately show ?thesis using that m(1-4) by simp
qed

text \<open>What a change of priorities may change.\<close>

definition repriced :: "sched \<Rightarrow> tcb \<Rightarrow> 32 word \<Rightarrow> sched \<Rightarrow> bool" where
  "repriced s t p s' \<longleftrightarrow>
     s' = s\<lparr>lists := lists s', uxTopReadyPriority := uxTopReadyPriority s', uxPriority := (uxPriority s)(t := p),
       uxBasePriority := uxBasePriority s', uxMutexesHeld := uxMutexesHeld s'\<rparr> \<and>
     (\<forall>u. ready s' u = ready s u) \<and> (\<forall>u. \<not> ready s u \<longrightarrow> kept s s' u) \<and>
     (\<forall>u. container (xEventListItem u) s' = container (xEventListItem u) s)"

lemma repricedD:
  assumes "repriced s t p s'"
  shows "uxPriority s' = (uxPriority s)(t := p)" "pxCurrentTCB s' = pxCurrentTCB s" "allocated s' = allocated s"
    "PENDSVSET s' = PENDSVSET s" "xYieldPending s' = xYieldPending s" "xTickCount s' = xTickCount s"
    "uxPendedTicks s' = uxPendedTicks s" "uxSchedulerSuspended s' = uxSchedulerSuspended s"
    "xSchedulerRunning s' = xSchedulerRunning s" "uxCurrentNumberOfTasks s' = uxCurrentNumberOfTasks s"
    "uxTasksDeleted s' = uxTasksDeleted s" "pxDelayedTaskList s' = pxDelayedTaskList s"
    "pxOverflowDelayedTaskList s' = pxOverflowDelayedTaskList s" "xNextTaskUnblockTime s' = xNextTaskUnblockTime s"
  by (subst assms[unfolded repriced_def, THEN conjunct1], simp)+

lemma repriced_ready: "repriced s t p s' \<Longrightarrow> ready s' u = ready s u" "repriced s t p s' \<Longrightarrow> \<not> ready s u \<Longrightarrow> kept s s' u"
  unfolding repriced_def by blast+

lemma call_ok_repriced:
  assumes k: "kernel_ok idle s" and c: "core {} s'" and m: "repriced s t p s'"
    and v: "\<And>u. wake_time s' u = wake_time s u"
    and l: "\<And>l. (\<And>p. l \<noteq> pxReadyTasksLists p) \<Longrightarrow> line (lists s') l = line (lists s) l"
    and o: "(\<forall>u. ready s u \<longrightarrow> uxPriority s u \<le> uxPriority s (pxCurrentTCB s)) \<Longrightarrow> \<not> y \<Longrightarrow>
      (\<forall>u. ready s u \<longrightarrow> uxPriority s' u \<le> uxPriority s' (pxCurrentTCB s))"
  shows "call_ok idle T s s' y"
proof -
  note r = kernel_okD(1)[OF k] and f = repricedD[OF m]
  have d: "delays_ok s'"
  proof (rule delays_ok_leave[OF running_core[OF r] c running_delays[OF r]])
    show "\<exists>f. line (lists s') j = filter f (line (lists s) j)" if "j = xDelayedTaskList1 \<or> j = xDelayedTaskList2" for j
      using l[of j] that by (intro exI[of _ "\<lambda>_. True"]) auto
  qed (use f v in simp_all)
  have i: "ready s' idle" using repriced_ready(1)[OF m, of idle] running_idle[OF r] by simp
  have "running_ok idle s'" using r c d i f(2,3,9-11) l by (simp add: running_ok_def)
  then have ko: "kernel_ok idle s'" using k f(7,8) l by (auto simp: kernel_ok_def)
  have "kept s s' u" if "delayed s u" for u
    by (rule repriced_ready(2)[OF m]) (use that in \<open>auto simp: delayed_def\<close>)
  moreover have "top_ok s'" if "top_ok s" "\<not> y"
    using that o f(2,4,5) repriced_ready(1)[OF m] unfolding top_ok_def by metis
  ultimately show ?thesis using ko f(6,7) by (auto simp: call_ok_def)
qed

text \<open>A task goes back to the ready list of its new priority.\<close>

lemma ready_again:
  assumes c: "core {t} s" and t: "t \<in> allocated s"
    and f: "container (xGenericListItem t) s = None" "container (xEventListItem t) s = None"
  shows "core {} (prvAddTaskToReadyList t s)" "ready (prvAddTaskToReadyList t s) t"
    "\<And>l. (\<And>p. l \<noteq> pxReadyTasksLists p) \<Longrightarrow> line (lists (prvAddTaskToReadyList t s)) l = line (lists s) l"
  using add_ready[OF c t f] by auto

lemma set_event_priority_fields:
  "pvContainer (lists (set_event_priority t p s)) = pvContainer (lists s)"
  "xItemValue (lists (set_event_priority t p s)) (Item (xGenericListItem u)) = wake_time s u"
  "set_event_priority t p s = s\<lparr>lists := lists (set_event_priority t p s)\<rparr>"
  by (simp_all add: set_event_priority_def)

lemma set_event_priority_core:
  assumes "core H s"
  shows "core H (set_event_priority t p s)" "line (lists (set_event_priority t p s)) = line (lists s)"
  using assms core_value[OF assms] listSET_LIST_ITEM_VALUE_line[OF core_lists[OF assms]]
  by (simp_all add: set_event_priority_def)

lemma not_ready_ok:
  assumes "task_ok s t" "\<not> ready s t" "pvContainer (lists s') = pvContainer (lists s)"
  shows "task_ok s' t"
  using assms by (auto simp: task_ok_def split: option.splits list_id.splits)

lemma used_bounds:
  "base < new \<Longrightarrow> used \<le> (if base = used then new else used)"
  "\<not> base < new \<Longrightarrow> (if base = used then new else used) \<le> used"
  "new < m \<Longrightarrow> (if base = used then new else used) \<le> m \<or> (if base = used then new else used) \<le> used"
  for used :: "32 word"
  by auto

lemma repriced_top:
  assumes "f' = f(t := p)" "f u \<le> (f c :: 32 word)" "t = c \<Longrightarrow> f c \<le> p" "t \<noteq> c \<Longrightarrow> p \<le> f c \<or> p \<le> f t"
  shows "f' u \<le> f' c"
  using assms by (cases "t = c"; cases "u = t") auto

lemma vTaskPrioritySet_ok:
  assumes k: "kernel_ok idle s" and t: "prvGetTCBFromHandle h s \<in> allocated s"
  obtains s' where "vTaskPrioritySet h p s = Some s'" "call_ok idle T s s' y"
    "uxPriority s' = (uxPriority s)(prvGetTCBFromHandle h s :=
       if uxBasePriority s (prvGetTCBFromHandle h s) = uxPriority s (prvGetTCBFromHandle h s)
       then if configMAX_PRIORITIES \<le> p then configMAX_PRIORITIES - 1 else p
       else uxPriority s (prvGetTCBFromHandle h s))"
    "\<And>l. (\<And>p. l \<noteq> pxReadyTasksLists p) \<Longrightarrow> line (lists s') l = line (lists s) l"
    "uxSchedulerSuspended s' = uxSchedulerSuspended s"
proof -
  let ?t = "prvGetTCBFromHandle h s"
  let ?new = "if configMAX_PRIORITIES \<le> p then configMAX_PRIORITIES - 1 else p"
  let ?base = "uxBasePriority s ?t" and ?used = "uxPriority s ?t"
  note r = kernel_okD(1)[OF k] and c = running_core[OF kernel_okD(1)[OF k]]
  have new: "?new < 11" by (auto simp: word_less_nat_alt word_le_nat_alt)
  show ?thesis
  proof (cases "?base = ?new")
    case True
    then have "vTaskPrioritySet h p s = Some s" by (simp add: vTaskPrioritySet_def Let_def)
    moreover have "(if ?base = ?used then ?new else ?used) = ?used" using True by metis
    then have "uxPriority s = (uxPriority s)(?t := if ?base = ?used then ?new else ?used)"
      by (simp only: fun_upd_triv)
    ultimately show ?thesis by (rule that[OF _ call_ok_same[OF k]]) simp_all
  next
    case False
    let ?pr = "if ?base = ?used then ?new else ?used"
    have pr: "?pr < 11" using new core_priority[OF c t] by simp
    let ?u = "s\<lparr>uxPriority := (uxPriority s)(?t := ?pr), uxBasePriority := (uxBasePriority s)(?t := ?new)\<rparr>"
    let ?v = "set_event_priority ?t ?new ?u"
    let ?y = "if ?base < ?new then ?t \<noteq> pxCurrentTCB s \<and> uxPriority s (pxCurrentTCB s) \<le> ?new else ?t = pxCurrentTCB s"
    have cu: "core {?t} ?u"
      using core_set_base[OF core_set_priority[OF c pr, of ?t] new, of ?t] by (simp add: set_priority_def)
    note cv = set_event_priority_core[OF cu, of ?t ?new] and fv = set_event_priority_fields[of ?t ?new ?u]
    have u: "(if ?base = ?used then set_priority ?t ?new s else s)\<lparr>uxBasePriority :=
        (uxBasePriority (if ?base = ?used then set_priority ?t ?new s else s))(?t := ?new)\<rparr> = ?u"
      by (simp add: set_priority_def)
    have step: "vTaskPrioritySet h p s = (do {
        s \<leftarrow> (if container (xGenericListItem ?t) ?v = Some (pxReadyTasksLists ?used) then do {
                (n, s) \<leftarrow> list_remove (xGenericListItem ?t) ?v;
                let s = (if n = 0 then portRESET_READY_PRIORITY ?used s else s);
                Some (prvAddTaskToReadyList ?t s)
              }
              else Some ?v);
        Some (if ?y then portYIELD_WITHIN_API s else s) })"
      by (simp only: vTaskPrioritySet_def Let_def False if_False u)
    obtain w where w: "(if container (xGenericListItem ?t) ?v = Some (pxReadyTasksLists ?used) then do {
                (n, s) \<leftarrow> list_remove (xGenericListItem ?t) ?v;
                let s = (if n = 0 then portRESET_READY_PRIORITY ?used s else s);
                Some (prvAddTaskToReadyList ?t s)
              }
              else Some ?v) = Some w" "core {} w" "repriced s ?t ?pr w" "\<And>u. wake_time w u = wake_time s u"
        "\<And>l. (\<And>p. l \<noteq> pxReadyTasksLists p) \<Longrightarrow> line (lists w) l = line (lists s) l"
    proof (cases "ready s ?t")
      case rd: True
      have cr: "container (xGenericListItem ?t) ?v = Some (pxReadyTasksLists ?used)" using rd fv(1) by simp
      obtain n m b where m: "list_remove (xGenericListItem ?t) ?v = Some (n, ?v\<lparr>lists := m\<rparr>)"
        "(if n = 0 then portRESET_READY_PRIORITY ?used (?v\<lparr>lists := m\<rparr>) else ?v\<lparr>lists := m\<rparr>) =
           ?v\<lparr>lists := m, uxTopReadyPriority := b\<rparr>"
        "core {?t} (?v\<lparr>lists := m, uxTopReadyPriority := b\<rparr>)"
        "pvContainer m = (pvContainer (lists ?v))(xGenericListItem ?t := None)" "xItemValue m = xItemValue (lists ?v)"
        "\<And>l. (\<And>p. l \<noteq> pxReadyTasksLists p) \<Longrightarrow> line m l = line (lists ?v) l"
        by (rule take_ready[OF cv(1) _ cr]) (simp, metis)
      let ?w = "?v\<lparr>lists := m, uxTopReadyPriority := b\<rparr>"
      have ev: "container (xEventListItem ?t) s = None" by (rule event_none[OF c t rd])
      have al: "allocated ?v = allocated s" by (simp add: set_event_priority_def)
      have up: "uxPriority ?v = (uxPriority s)(?t := ?pr)" by (simp add: set_event_priority_def)
      have w: "core {} (prvAddTaskToReadyList ?t ?w)" "ready (prvAddTaskToReadyList ?t ?w) ?t"
        "\<And>l. (\<And>p. l \<noteq> pxReadyTasksLists p) \<Longrightarrow> line (lists (prvAddTaskToReadyList ?t ?w)) l = line (lists ?w) l"
        using ready_again[OF m(3)] t m(4) ev fv(1) al by auto
      show ?thesis
      proof (rule that)
        show "repriced s ?t ?pr (prvAddTaskToReadyList ?t ?w)"
          unfolding repriced_def kept_def using w(2) m(4,5) fv(1,2) rd ev up
          by (auto simp: prvAddTaskToReadyList_def list_insert_end_def portRECORD_READY_PRIORITY_def set_event_priority_def)
      qed (use cr m(1,2,4,5,6) w fv cv(2) in \<open>simp_all add: Let_def\<close>)
    next
      case nr: False
      have cr: "container (xGenericListItem ?t) ?v \<noteq> Some (pxReadyTasksLists ?used)" using nr fv(1) by simp
      have "task_ok s ?t" using core_task[OF c t] by simp
      then have "task_ok ?v ?t" by (rule not_ready_ok[OF _ nr]) (simp add: fv(1))
      then have c0: "core {} ?v" by (intro core_settled[OF cv(1)]) simp
      have "ready ?v ?t \<longleftrightarrow> ready s ?t"
      proof -
        have "\<not> ready ?v ?t"
          using ready_priority[OF c, of ?t] nr fv(1) by fastforce
        then show ?thesis using nr by simp
      qed
      then have "ready ?v u \<longleftrightarrow> ready s u" for u
        using fv(1) by (cases "u = ?t") (auto simp: set_event_priority_def)
      then have "repriced s ?t ?pr ?v"
        unfolding repriced_def kept_def using fv(1,2) by (auto simp: set_event_priority_def)
      then show ?thesis using that[of ?v] cr c0 fv cv(2) by simp
    qed
    let ?s = "if ?y then portYIELD_WITHIN_API w else w"
    have co: "call_ok idle T s w ?y"
    proof (rule call_ok_repriced[OF k w(2-5)])
      assume le: "\<forall>u. ready s u \<longrightarrow> uxPriority s u \<le> uxPriority s (pxCurrentTCB s)" and y: "\<not> ?y"
      show "\<forall>u. ready s u \<longrightarrow> uxPriority w u \<le> uxPriority w (pxCurrentTCB s)"
      proof (intro allI impI)
        fix u
        assume u: "ready s u"
        then have uc: "uxPriority s u \<le> uxPriority s (pxCurrentTCB s)" using le by blast
        show "uxPriority w u \<le> uxPriority w (pxCurrentTCB s)"
        proof (rule repriced_top[OF repricedD(1)[OF w(3)] uc])
          show "uxPriority s (pxCurrentTCB s) \<le> ?pr" if "?t = pxCurrentTCB s"
          proof -
            have "?base < ?new" using y that by (simp split: if_splits)
            then have "?used \<le> ?pr" by (rule used_bounds(1))
            then show ?thesis unfolding that .
          qed
          show "?pr \<le> uxPriority s (pxCurrentTCB s) \<or> ?pr \<le> ?used" if "?t \<noteq> pxCurrentTCB s"
          proof (cases "?base < ?new")
            case True
            then have "?new < uxPriority s (pxCurrentTCB s)" using y that by (simp split: if_splits)
            then show ?thesis by (rule used_bounds(3))
          next
            case False
            then show ?thesis by (rule disjI2[OF used_bounds(2)])
          qed
        qed
      qed
    qed
    have "call_ok idle T s ?s y"
    proof (cases ?y)
      case True
      then show ?thesis using call_ok_yield[OF co] by simp
    next
      case False
      then show ?thesis using co by (simp add: call_ok_def)
    qed
    moreover have "vTaskPrioritySet h p s = Some ?s" using step w(1) by simp
    moreover have "uxPriority ?s = (uxPriority s)(?t := ?pr)" "lists ?s = lists w"
      "uxSchedulerSuspended ?s = uxSchedulerSuspended s"
      using repricedD(1,8)[OF w(3)] by (simp_all only: portYIELD_WITHIN_API_def split: if_split) simp_all
    ultimately show ?thesis using that w(5) by metis
  qed
qed

lemma kernel_no_null: "kernel_ok idle s \<Longrightarrow> NULL \<notin> allocated s"
  using core_null running_core kernel_okD(1) by blast

text \<open>The owner of a mutex gets the priority of the current task, which wants the mutex.\<close>

lemma vTaskPriorityInherit_ok:
  assumes k: "kernel_ok idle s" and t: "t \<in> allocated s"
  obtains s' where "vTaskPriorityInherit t s = Some s'" "call_ok idle T s s' y"
    "uxPriority s' = (uxPriority s)(t := max (uxPriority s t) (uxPriority s (pxCurrentTCB s)))"
    "\<And>u. ready s' u = ready s u" "uxBasePriority s' = uxBasePriority s"
proof (cases "uxPriority s t < uxPriority s (pxCurrentTCB s)")
  case False
  have "vTaskPriorityInherit t s = Some s" using False by (simp add: vTaskPriorityInherit_def)
  moreover have "uxPriority s = (uxPriority s)(t := max (uxPriority s t) (uxPriority s (pxCurrentTCB s)))"
    using False by (simp add: max_def)
  ultimately show ?thesis using that call_ok_same[OF k] by blast
next
  case lt: True
  note r = kernel_okD(1)[OF k] and c = running_core[OF kernel_okD(1)[OF k]]
  have nn: "t \<noteq> NULL" using t kernel_no_null[OF k] by auto
  let ?p = "uxPriority s (pxCurrentTCB s)"
  have p: "?p < 11" by (rule core_priority[OF c running_current[OF r]])
  have mx: "max (uxPriority s t) ?p = ?p" using lt by simp
  let ?v = "set_event_priority t ?p s"
  note cv = set_event_priority_core[OF c, of t ?p] and fv = set_event_priority_fields[of t ?p s]
  have fs: "uxPriority ?v = uxPriority s" "pxCurrentTCB ?v = pxCurrentTCB s" "allocated ?v = allocated s"
    "uxBasePriority ?v = uxBasePriority s"
    by (simp_all add: set_event_priority_def)
  have step: "vTaskPriorityInherit t s = (if container (xGenericListItem t) ?v = Some (pxReadyTasksLists (uxPriority s t)) then do {
          (n, s) \<leftarrow> list_remove (xGenericListItem t) ?v;
          let s = (if n = 0 then taskRESET_READY_PRIORITY (uxPriority s t) s else s);
          let s = set_priority t (uxPriority s (pxCurrentTCB s)) s;
          Some (prvAddTaskToReadyList t s)
        }
        else Some (set_priority t ?p ?v))"
    by (simp only: vTaskPriorityInherit_def Let_def nn lt fs simp_thms if_True)
  obtain w where w: "vTaskPriorityInherit t s = Some w" "core {} w" "repriced s t ?p w" "\<And>u. wake_time w u = wake_time s u"
      "\<And>l. (\<And>p. l \<noteq> pxReadyTasksLists p) \<Longrightarrow> line (lists w) l = line (lists s) l" "uxBasePriority w = uxBasePriority s"
  proof (cases "ready s t")
    case rd: True
    have cr: "container (xGenericListItem t) ?v = Some (pxReadyTasksLists (uxPriority s t))" using rd fv(1) by simp
    obtain n m b where m: "list_remove (xGenericListItem t) ?v = Some (n, ?v\<lparr>lists := m\<rparr>)"
      "(if n = 0 then taskRESET_READY_PRIORITY (uxPriority s t) (?v\<lparr>lists := m\<rparr>) else ?v\<lparr>lists := m\<rparr>) =
         ?v\<lparr>lists := m, uxTopReadyPriority := b\<rparr>"
      "core {t} (?v\<lparr>lists := m, uxTopReadyPriority := b\<rparr>)"
      "pvContainer m = (pvContainer (lists ?v))(xGenericListItem t := None)" "xItemValue m = xItemValue (lists ?v)"
      "\<And>l. (\<And>p. l \<noteq> pxReadyTasksLists p) \<Longrightarrow> line m l = line (lists ?v) l"
      by (rule take_ready[OF cv(1) _ cr]) (simp, metis)
    let ?w = "set_priority t ?p (?v\<lparr>lists := m, uxTopReadyPriority := b\<rparr>)"
    have ev: "container (xEventListItem t) s = None" by (rule event_none[OF c t rd])
    have cw: "core {t} ?w" using core_set_priority[OF m(3) p, of t] by simp
    have w: "core {} (prvAddTaskToReadyList t ?w)" "ready (prvAddTaskToReadyList t ?w) t"
      "\<And>l. (\<And>p. l \<noteq> pxReadyTasksLists p) \<Longrightarrow> line (lists (prvAddTaskToReadyList t ?w)) l = line (lists ?w) l"
      using ready_again[OF cw] t m(4) ev fv(1) fs by (auto simp: set_priority_def)
    show ?thesis
    proof (rule that)
      have pm: "uxPriority (?v\<lparr>lists := m\<rparr>) = uxPriority s"
        "uxPriority (?v\<lparr>lists := m, uxTopReadyPriority := b\<rparr>) (pxCurrentTCB (?v\<lparr>lists := m, uxTopReadyPriority := b\<rparr>)) = ?p"
        using fs by simp_all
      show "vTaskPriorityInherit t s = Some (prvAddTaskToReadyList t ?w)"
        by (simp only: step cr simp_thms if_True m(1,2) pm Let_def Option.bind.bind_lunit prod.case)
      show "repriced s t ?p (prvAddTaskToReadyList t ?w)"
        unfolding repriced_def kept_def using w(2) m(4,5) fv(1,2) rd ev fs
        by (auto simp: prvAddTaskToReadyList_def list_insert_end_def portRECORD_READY_PRIORITY_def set_event_priority_def
          set_priority_def)
    qed (use m(4,5,6) w fv fs cv(2) in \<open>simp_all add: set_priority_def\<close>)
  next
    case nr: False
    have cr: "container (xGenericListItem t) ?v \<noteq> Some (pxReadyTasksLists (uxPriority s t))" using nr fv(1) by simp
    let ?w = "set_priority t ?p ?v"
    have cw: "core {t} ?w" by (rule core_set_priority[OF cv(1) p])
    have "task_ok s t" using core_task[OF c t] by simp
    then have "task_ok ?w t" by (rule not_ready_ok[OF _ nr]) (simp add: fv(1) set_priority_def)
    then have c0: "core {} ?w" by (intro core_settled[OF cw]) simp
    have "\<not> ready ?w t" using ready_priority[OF c, of t] nr fv(1) by (fastforce simp: set_priority_def)
    then have "ready ?w u \<longleftrightarrow> ready s u" for u
      using fv(1) nr fs by (cases "u = t") (auto simp: set_priority_def)
    then have "repriced s t ?p ?w"
      unfolding repriced_def kept_def using fv(1,2) by (auto simp: set_event_priority_def set_priority_def)
    then show ?thesis using that[of ?w] step cr c0 fv cv(2) fs by (simp add: set_priority_def)
  qed
  have "call_ok idle T s w y"
  proof (rule call_ok_repriced[OF k w(2-5)])
    assume le: "\<forall>u. ready s u \<longrightarrow> uxPriority s u \<le> uxPriority s (pxCurrentTCB s)"
    show "\<forall>u. ready s u \<longrightarrow> uxPriority w u \<le> uxPriority w (pxCurrentTCB s)"
      using le repricedD(1)[OF w(3)] by auto
  qed
  then show ?thesis using that[OF w(1)] repricedD(1)[OF w(3)] repriced_ready(1)[OF w(3)] w(6) mx by simp
qed

text \<open>The current task gives back the last mutex it holds, and its own priority with it.\<close>

lemma xTaskPriorityDisinherit_ok:
  assumes k: "kernel_ok idle s" and t: "t = NULL \<or> t = pxCurrentTCB s \<and> ready s t"
  obtains s' y where "xTaskPriorityDisinherit t s = Some (s', y)" "call_ok idle T s s' y"
    "y \<longleftrightarrow> t \<noteq> NULL \<and> uxPriority s t \<noteq> uxBasePriority s t \<and> uxMutexesHeld s t = 1"
    "uxPriority s' = (if y then (uxPriority s)(t := uxBasePriority s t) else uxPriority s)"
    "\<And>u. ready s' u = ready s u" "PENDSVSET s' = PENDSVSET s" "xYieldPending s' = xYieldPending s"
    "pxCurrentTCB s' = pxCurrentTCB s" "uxSchedulerSuspended s' = uxSchedulerSuspended s"
    "\<And>u. container (xEventListItem u) s' = container (xEventListItem u) s"
    "\<And>l. (\<And>p. l \<noteq> pxReadyTasksLists p) \<Longrightarrow> line (lists s') l = line (lists s) l"
proof (cases "t = NULL")
  case True
  then have "xTaskPriorityDisinherit t s = Some (s, False)" by (simp add: xTaskPriorityDisinherit_def)
  then show ?thesis by (rule that[OF _ call_ok_same[OF k]]) (use True in simp_all)
next
  case nn: False
  let ?h = "s\<lparr>uxMutexesHeld := (uxMutexesHeld s)(t := uxMutexesHeld s t - 1)\<rparr>"
  note r = kernel_okD(1)[OF k] and c = running_core[OF kernel_okD(1)[OF k]]
  have rd: "ready s t" and tc: "t = pxCurrentTCB s" using t nn by blast+
  have ta: "t \<in> allocated s" using running_current[OF r] tc by simp
  have hz: "uxMutexesHeld ?h t = 0 \<longleftrightarrow> uxMutexesHeld s t = 1" by simp
  show ?thesis
  proof (cases "uxPriority s t \<noteq> uxBasePriority s t \<and> uxMutexesHeld s t = 1")
    case False
    then have "xTaskPriorityDisinherit t s = Some (?h, False)" using nn by (auto simp: xTaskPriorityDisinherit_def Let_def)
    moreover have "call_ok idle T s ?h False" using k by (simp add: call_ok_def top_ok_def kept_def)
    ultimately show ?thesis using that[of ?h False] False nn by auto
  next
    case True
    let ?p = "uxBasePriority s t"
    have p: "?p < 11" by (rule core_base[OF c ta])
    have ch: "core {} ?h" using c by simp
    have rh: "container (xGenericListItem t) ?h = Some (pxReadyTasksLists (uxPriority s t))" using rd by simp
    obtain n m b where m: "list_remove (xGenericListItem t) ?h = Some (n, ?h\<lparr>lists := m\<rparr>)"
      "(if n = 0 then taskRESET_READY_PRIORITY (uxPriority s t) (?h\<lparr>lists := m\<rparr>) else ?h\<lparr>lists := m\<rparr>) =
         ?h\<lparr>lists := m, uxTopReadyPriority := b\<rparr>"
      "core {t} (?h\<lparr>lists := m, uxTopReadyPriority := b\<rparr>)"
      "pvContainer m = (pvContainer (lists ?h))(xGenericListItem t := None)" "xItemValue m = xItemValue (lists ?h)"
      "\<And>l. (\<And>p. l \<noteq> pxReadyTasksLists p) \<Longrightarrow> line m l = line (lists ?h) l"
      by (rule take_ready[OF ch _ rh]) (simp, metis)
    let ?v = "set_priority t ?p (?h\<lparr>lists := m, uxTopReadyPriority := b\<rparr>)"
    let ?w = "set_item_value (xEventListItem t) (configMAX_PRIORITIES - ?p) ?v"
    have ev: "container (xEventListItem t) s = None" by (rule event_none[OF c ta rd])
    have cv: "core {t} ?v" using core_set_priority[OF m(3) p, of t] by simp
    have cw: "core {t} ?w" "line (lists ?w) = line (lists ?v)"
      using core_value[OF cv] listSET_LIST_ITEM_VALUE_line[OF core_lists[OF cv]] by simp_all
    have w: "core {} (prvAddTaskToReadyList t ?w)" "ready (prvAddTaskToReadyList t ?w) t"
      "\<And>l. (\<And>p. l \<noteq> pxReadyTasksLists p) \<Longrightarrow> line (lists (prvAddTaskToReadyList t ?w)) l = line (lists ?w) l"
      using ready_again[OF cw(1)] ta m(4) ev by (auto simp: set_priority_def)
    have pm: "uxPriority (?h\<lparr>lists := m\<rparr>) = uxPriority s" "uxBasePriority (?h\<lparr>lists := m, uxTopReadyPriority := b\<rparr>) = uxBasePriority s"
      "uxPriority ?v t = ?p"
      by (simp_all add: set_priority_def)
    have cnd: "(uxPriority ?h t \<noteq> uxBasePriority ?h t \<and> uxMutexesHeld ?h t = 0) = True" using True by simp
    have run: "xTaskPriorityDisinherit t s = Some (prvAddTaskToReadyList t ?w, True)"
      by (simp only: xTaskPriorityDisinherit_def nn pm Let_def cnd m(1,2) if_True simp_thms Option.bind.bind_lunit prod.case)
    have re: "repriced s t ?p (prvAddTaskToReadyList t ?w)"
      unfolding repriced_def kept_def using w(2) m(4,5) rd ev
      by (auto simp: prvAddTaskToReadyList_def list_insert_end_def portRECORD_READY_PRIORITY_def set_priority_def)
    have ln: "line (lists (prvAddTaskToReadyList t ?w)) l = line (lists s) l" if "\<And>p. l \<noteq> pxReadyTasksLists p" for l
      using w(3)[OF that] cw(2) m(6)[OF that] by (simp add: set_priority_def)
    have "call_ok idle T s (prvAddTaskToReadyList t ?w) True"
      by (rule call_ok_repriced[OF k w(1) re]) (use m(5) ln in \<open>simp_all add: set_priority_def\<close>)
    then show ?thesis
      using that[OF run] True nn repricedD[OF re] repriced_ready(1)[OF re] ln re[unfolded repriced_def] by simp
  qed
qed

end
