(* ===== verification/SchedTasks.thy ===== *)
theory SchedTasks
  imports SchedCalls
begin

text \<open>Tasks that come and go: their creation, the work of the idle task, and the start of the scheduler.\<close>

section \<open>Creation\<close>

text \<open>The fields of a new control block.\<close>

lemma initialise_fields:
  assumes "container (xGenericListItem t) s = None" "container (xEventListItem t) s = None"
  shows "prvInitialiseTCBVariables t p s = (let q = (if configMAX_PRIORITIES \<le> p then configMAX_PRIORITIES - 1 else p)
    in s\<lparr>uxPriority := (uxPriority s)(t := q), uxBasePriority := (uxBasePriority s)(t := q),
      uxMutexesHeld := (uxMutexesHeld s)(t := 0),
      lists := listSET_LIST_ITEM_VALUE (xEventListItem t) (configMAX_PRIORITIES - q) (lists s)\<rparr>)"
  using assms
  by (simp add: prvInitialiseTCBVariables_def Let_def vListInitialiseItem_def fun_upd_idem set_priority_def)

text \<open>A new control block joins those of the kernel.\<close>

lemma core_new:
  assumes c: "core {} s" and n: "t \<notin> allocated s" "t \<noteq> NULL" and q: "q < 11"
    and f: "lists s' = listSET_LIST_ITEM_VALUE i v (lists s)" "uxPriority s' = (uxPriority s)(t := q)"
      "uxBasePriority s' = (uxBasePriority s)(t := q)" "allocated s' = insert t (allocated s)"
      "uxTopReadyPriority s' = uxTopReadyPriority s"
  shows "core {t} s'"
  unfolding core_def
proof (intro conjI ballI)
  have li: "line (lists s') = line (lists s)" using listSET_LIST_ITEM_VALUE_line[OF core_lists[OF c]] f(1) by simp
  show "lists_ok (lists s')" using listSET_LIST_ITEM_VALUE_line[OF core_lists[OF c]] f(1) by simp
  show "index_ok (lists s')" using core_index[OF c] f(1) by (simp add: index_ok_def)
  show "placed s'" using core_placed[OF c] f(1,4) by (auto simp: placed_def)
  show "NULL \<notin> allocated s'" using core_null[OF c] n(2) f(4) by simp
  show "task_ok s' u" if "u \<in> allocated s' - {t}" for u
  proof -
    have "task_ok s u" using that f(4) core_task[OF c, of u] by simp
    then show ?thesis by (rule task_ok_frame) (use that f in simp_all)
  qed
  show "uxPriority s' u < 11" "uxBasePriority s' u < 11" if "u \<in> allocated s'" for u
    using that f q core_priority[OF c] core_base[OF c] by (auto split: if_splits)
  show "bits_ok s'" using core_bits[OF c] li f(5) by (simp add: bits_ok_def)
qed

lemma fresh_task:
  assumes "core {} s" "t \<notin> allocated s"
  shows "container (xGenericListItem t) s = None" "container (xEventListItem t) s = None"
  using placedD[OF core_placed[OF assms(1)], of t] assms(2)
  by (cases "container (xGenericListItem t) s"; cases "container (xEventListItem t) s"; auto)+


lemma add_new:
  assumes c: "core {} s" and n: "t \<notin> allocated s" "t \<noteq> NULL" and q: "q < 11"
    and f: "lists u = listSET_LIST_ITEM_VALUE (xEventListItem t) v (lists s)" "uxPriority u = (uxPriority s)(t := q)"
      "uxBasePriority u = (uxBasePriority s)(t := q)" "allocated u = insert t (allocated s)"
      "uxTopReadyPriority u = uxTopReadyPriority s"
  shows "core {} (prvAddTaskToReadyList t u)" "ready (prvAddTaskToReadyList t u) t"
    "\<And>w. w \<noteq> t \<Longrightarrow> kept s (prvAddTaskToReadyList t u) w"
    "\<And>w. w \<noteq> t \<Longrightarrow> ready (prvAddTaskToReadyList t u) w = ready s w"
    "\<And>l. (\<And>p. l \<noteq> pxReadyTasksLists p) \<Longrightarrow> line (lists (prvAddTaskToReadyList t u)) l = line (lists s) l"
proof -
  note no = fresh_task[OF c n(1)]
  have cu: "core {t} u" by (rule core_new[OF c n q f])
  have cn: "pvContainer (lists u) = pvContainer (lists s)" using f(1) by simp
  have a: "core ({t} - {t}) (prvAddTaskToReadyList t u)"
    "line (lists (prvAddTaskToReadyList t u)) = (line (lists u))(pxReadyTasksLists (uxPriority u t) :=
       joined (lists u) (pxReadyTasksLists (uxPriority u t)) (xGenericListItem t))"
    using add_ready[OF cu, of t] no cn f(4) by auto
  show "core {} (prvAddTaskToReadyList t u)" using a(1) by simp
  show "ready (prvAddTaskToReadyList t u) t" by simp
  show "kept s (prvAddTaskToReadyList t u) w" "ready (prvAddTaskToReadyList t u) w = ready s w" if "w \<noteq> t" for w
    using that cn f(1,2) by (auto simp: kept_def)
  show "line (lists (prvAddTaskToReadyList t u)) l = line (lists s) l" if "\<And>p. l \<noteq> pxReadyTasksLists p" for l
    using a(2) that listSET_LIST_ITEM_VALUE_line(2)[OF core_lists[OF c]] f(1) by simp
qed

lemma card_new:
  assumes "core {} s" "t \<notin> allocated s" "n = (word_of_nat (card (allocated s)) :: 32 word)"
  shows "n + 1 = word_of_nat (card (insert t (allocated s)))"
  using assms allocated_card(1)[OF assms(1)] by simp

abbreviation clamped :: "32 word \<Rightarrow> 32 word" where
  "clamped p \<equiv> (if configMAX_PRIORITIES \<le> p then configMAX_PRIORITIES - 1 else p)"

lemma clamped: "clamped p < 11" "clamped p \<le> p"
  by (auto simp: word_less_nat_alt word_le_nat_alt)

lemma call_ok_if: "call_ok idle T s u b \<Longrightarrow> call_ok idle T s (if b then portYIELD_WITHIN_API u else u) y"
proof (cases b)
  case True
  assume "call_ok idle T s u b"
  from call_ok_yield[OF this] show ?thesis using True by simp
next
  case False
  assume "call_ok idle T s u b"
  then show ?thesis using False unfolding call_ok_def by simp
qed

lemma xTaskGenericCreate_ok:
  assumes k: "kernel_ok idle s" and n: "t \<notin> allocated s" "t \<noteq> NULL"
  obtains s' where "xTaskGenericCreate t p s = (s', True)" "call_ok idle T s s' y" "ready s' t" "live s' t"
    "uxPriority s' = (uxPriority s)(t := clamped p)"
proof -
  note r = kernel_okD(1)[OF k] and c = running_core[OF kernel_okD(1)[OF k]]
  let ?q = "clamped p"
  let ?m = "listSET_LIST_ITEM_VALUE (xEventListItem t) (configMAX_PRIORITIES - ?q) (lists s)"
  let ?u = "s\<lparr>allocated := insert t (allocated s), uxPriority := (uxPriority s)(t := ?q),
      uxBasePriority := (uxBasePriority s)(t := ?q), uxMutexesHeld := (uxMutexesHeld s)(t := 0), lists := ?m,
      uxCurrentNumberOfTasks := uxCurrentNumberOfTasks s + 1, uxTaskNumber := uxTaskNumber s + 1\<rparr>"
  let ?v = "prvAddTaskToReadyList t ?u"
  let ?s = "if uxPriority ?v (pxCurrentTCB s) < p then portYIELD_WITHIN_API ?v else ?v"
  note no = fresh_task[OF c n(1)]
  have tc: "t \<noteq> pxCurrentTCB s" using n(1) running_current[OF r] by auto
  have cn: "pxCurrentTCB s \<noteq> NULL" using running_current[OF r] core_null[OF c] by auto
  have run: "xTaskGenericCreate t p s = (?s, True)"
    using n(2) cn running_started[OF r] no
    by (simp add: xTaskGenericCreate_def initialise_fields Let_def)
  have a: "core {} ?v" "ready ?v t" "\<And>w. w \<noteq> t \<Longrightarrow> kept s ?v w" "\<And>w. w \<noteq> t \<Longrightarrow> ready ?v w = ready s w"
    "\<And>l. (\<And>p. l \<noteq> pxReadyTasksLists p) \<Longrightarrow> line (lists ?v) l = line (lists s) l"
    using add_new[OF c n clamped(1)[of p], of ?u "configMAX_PRIORITIES - ?q"] by simp_all
  have d: "delays_ok ?v"
  proof (rule delays_ok_leave[OF c a(1) running_delays[OF r]])
    show "\<exists>f. line (lists ?v) j = filter f (line (lists s) j)" if "j = xDelayedTaskList1 \<or> j = xDelayedTaskList2" for j
      using a(5)[of j] that by (intro exI[of _ "\<lambda>_. True"]) auto
  qed simp_all
  have ni: "t \<noteq> idle" using n(1) placedD(1)[OF core_placed[OF c]] running_idle[OF r] by auto
  have nu: "uxCurrentNumberOfTasks s + 1 = word_of_nat (card (insert t (allocated s)))"
    by (rule card_new[OF c n(1) running_number[OF r]])
  have rv: "running_ok idle ?v"
    unfolding running_ok_def
    using a(1) d running_current[OF r] a(4)[of idle] ni running_idle[OF r] running_started[OF r] nu
      a(5)[of xTasksWaitingTermination] running_deleted[OF r] by simp
  have kv: "kernel_ok idle ?v" using k rv a(5)[of xPendingReadyList] by (simp add: kernel_ok_def)
  have pr: "uxPriority ?v = (uxPriority s)(t := ?q)" by simp
  have tp: "top_ok ?v" if "top_ok s" "\<not> uxPriority s (pxCurrentTCB s) < p"
  proof -
    have "?q \<le> uxPriority s (pxCurrentTCB s)" using that(2) clamped(2)[of p] by (meson not_less order_trans)
    moreover have "uxPriority ?v w \<le> uxPriority s (pxCurrentTCB s)"
      if "\<forall>t. ready s t \<longrightarrow> uxPriority s t \<le> uxPriority s (pxCurrentTCB s)" "ready ?v w" for w
    proof (cases "w = t")
      case True
      then show ?thesis using calculation pr by simp
    next
      case False
      then show ?thesis using a(4)[OF False] that pr by simp
    qed
    moreover have "PENDSVSET ?v = PENDSVSET s" "xYieldPending ?v = xYieldPending s"
      "uxPriority ?v (pxCurrentTCB ?v) = uxPriority s (pxCurrentTCB s)"
      using tc pr by simp_all
    ultimately show ?thesis using that(1) unfolding top_ok_def by (elim disjE) (blast | metis)+
  qed
  have kp: "kept s ?v w" if "delayed s w" for w
    by (rule a(3)) (use that no in \<open>auto simp: delayed_def\<close>)
  have "call_ok idle T s ?v (uxPriority s (pxCurrentTCB s) < p)"
    unfolding call_ok_def
  proof (intro conjI)
    show "top_ok s \<longrightarrow> uxPriority s (pxCurrentTCB s) < p \<or> top_ok ?v" using tp by blast
    show "\<forall>w. w \<notin> T \<longrightarrow> delayed s w \<longrightarrow> container (xEventListItem w) s = None \<longrightarrow> kept s ?v w" using kp by blast
  qed (use kv in simp_all)
  then have "call_ok idle T s (if uxPriority s (pxCurrentTCB s) < p then portYIELD_WITHIN_API ?v else ?v) y"
    by (rule call_ok_if)
  moreover have "uxPriority ?v (pxCurrentTCB s) = uxPriority s (pxCurrentTCB s)" using tc pr by simp
  ultimately have "call_ok idle T s ?s y" by (simp only:)
  moreover have "ready ?s t" "uxPriority ?s = (uxPriority s)(t := ?q)" by (simp_all add: portYIELD_WITHIN_API_def)
  moreover have "live ?s t" by (simp add: live_def portYIELD_WITHIN_API_def)
  ultimately show ?thesis using that[OF run] by blast
qed

section \<open>The work of the idle task\<close>

lemma resumedD:
  assumes "resumed s s'"
  shows "comes_ready s t \<Longrightarrow> ready s' t" "comes_ready s t \<Longrightarrow> container (xEventListItem t) s' = None"
    "\<not> comes_ready s t \<Longrightarrow> kept s s' t"
    "uxPriority s' = uxPriority s" "allocated s' = allocated s" "pxCurrentTCB s' = pxCurrentTCB s"
    "uxTasksDeleted s' = uxTasksDeleted s" "uxSchedulerSuspended s' = 0" "uxPendedTicks s' = 0"
    "xTickCount s' = xTickCount s + uxPendedTicks s"
  using assms unfolding resumed_def by metis+

lemma nothing_comes:
  assumes k: "kernel_ok idle s" and sus: "uxSchedulerSuspended s = 0"
  shows "\<not> comes_ready s t"
proof -
  note r = kernel_okD(1)[OF k]
  have "\<not> pending s t"
    using line_set[OF running_core[OF r], of "xEventListItem t" xPendingReadyList] kernel_okD(3)[OF k sus]
    by (simp add: pending_def)
  moreover have "\<not> remaining s t \<le> unat (uxPendedTicks s)" if "delayed s t"
    using delayed_time(2)[OF running_delays[OF r] that] kernel_okD(2)[OF k sus] by simp
  ultimately show ?thesis by (simp add: comes_ready_def)
qed

text \<open>A suspension with nothing between its start and its end.\<close>

lemma suspend_resume:
  assumes k: "kernel_ok idle s" and sus: "uxSchedulerSuspended s = 0"
  obtains s' b where "xTaskResumeAll (vTaskSuspendAll s) = Some (s', b)" "kernel_ok idle s'" "top_ok s \<Longrightarrow> top_ok s'"
    "\<And>t. kept s s' t" "uxPriority s' = uxPriority s" "allocated s' = allocated s" "pxCurrentTCB s' = pxCurrentTCB s"
    "uxTasksDeleted s' = uxTasksDeleted s" "uxSchedulerSuspended s' = 0" "uxPendedTicks s' = uxPendedTicks s"
    "xTickCount s' = xTickCount s"
proof -
  let ?s = "vTaskSuspendAll s"
  have s: "call_ok idle {} s ?s False" by (rule vTaskSuspendAll_ok[OF k]) (use sus in simp)
  have ks: "kernel_ok idle ?s" using s by (simp add: call_ok_def)
  have ns: "uxSchedulerSuspended ?s = 1" using sus by (simp add: vTaskSuspendAll_def)
  obtain s' b where s': "xTaskResumeAll ?s = Some (s', b)" "resume_ok idle ?s s'"
    by (rule xTaskResumeAll_ok[OF ks]) (use ns in simp)
  have re: "resumed ?s s'" using s'(2) ns by (simp add: resume_ok_def)
  have nc: "\<not> comes_ready ?s t" for t
    using nothing_comes[OF k sus, of t]
    by (simp add: vTaskSuspendAll_def comes_ready_def pending_def delayed_def remaining_def)
  have "kept s s' t" for t
    using resumedD(3)[OF re nc[of t]] by (simp add: kept_def vTaskSuspendAll_def)
  moreover have "top_ok s'" if "top_ok s"
    using s s'(2) that by (simp add: call_ok_def resume_ok_def)
  ultimately show ?thesis
    using that[OF s'(1)] s'(2) resumedD(4-10)[OF re] kernel_okD(2)[OF k sus]
    by (simp add: resume_ok_def vTaskSuspendAll_def)
qed

text \<open>The block of a deleted task is freed.\<close>

lemma free_task:
  assumes k: "kernel_ok idle s" and c: "ready s (pxCurrentTCB s)"
    and l: "line (lists s) xTasksWaitingTermination = xGenericListItem t # q"
  obtains n m where "list_remove (xGenericListItem t) s = Some (n, s\<lparr>lists := m\<rparr>)"
    "kernel_ok idle (prvDeleteTCB t (s\<lparr>lists := m, uxCurrentNumberOfTasks := uxCurrentNumberOfTasks s - 1,
       uxTasksDeleted := uxTasksDeleted s - 1\<rparr>))"
    "line m = (line (lists s))(xTasksWaitingTermination := q)"
    "pvContainer m = (pvContainer (lists s))(xGenericListItem t := None)" "xItemValue m = xItemValue (lists s)"
proof -
  note r = kernel_okD(1)[OF k] and co = running_core[OF kernel_okD(1)[OF k]]
  let ?l = xTasksWaitingTermination
  have w: "container (xGenericListItem t) s = Some ?l" using line_set[OF co, of "xGenericListItem t" ?l] l by simp
  have t: "t \<in> allocated s" using placedD(1)[OF core_placed[OF co] w] by simp
  have e: "container (xEventListItem t) s = None" using core_task[OF co t] w by (simp add: task_ok_def)
  have ne: "t \<noteq> pxCurrentTCB s" "t \<noteq> idle" using w c running_idle[OF r] by auto
  obtain n m where m: "list_remove (xGenericListItem t) s = Some (n, s\<lparr>lists := m\<rparr>)"
    "line m = (line (lists s))(?l := remove1 (xGenericListItem t) (line (lists s) ?l))"
    "pvContainer m = (pvContainer (lists s))(xGenericListItem t := None)" "xItemValue m = xItemValue (lists s)"
    "core (insert t {}) (s\<lparr>lists := m\<rparr>)"
    by (rule take_off[OF co w]) auto
  have lm: "line m = (line (lists s))(?l := q)" using m(2) l by simp
  let ?s = "prvDeleteTCB t (s\<lparr>lists := m, uxCurrentNumberOfTasks := uxCurrentNumberOfTasks s - 1,
       uxTasksDeleted := uxTasksDeleted s - 1\<rparr>)"
  have cs: "core {} ?s"
    unfolding core_def
  proof (intro conjI ballI)
    show "lists_ok (lists ?s)" "index_ok (lists ?s)"
      using core_lists[OF m(5)] core_index[OF m(5)] by (simp_all add: prvDeleteTCB_def)
    show "placed ?s" using core_placed[OF co] m(3) e by (auto simp: placed_def prvDeleteTCB_def)
    show "NULL \<notin> allocated ?s" using core_null[OF co] by (simp add: prvDeleteTCB_def)
    show "task_ok ?s u" if "u \<in> allocated ?s - {}" for u
    proof -
      have "task_ok (s\<lparr>lists := m\<rparr>) u" using that core_task[OF m(5), of u] by (simp add: prvDeleteTCB_def)
      then show ?thesis by (rule task_ok_frame) (simp_all add: prvDeleteTCB_def)
    qed
    show "uxPriority ?s u < 11" "uxBasePriority ?s u < 11" if "u \<in> allocated ?s" for u
      using that core_priority[OF co] core_base[OF co] by (auto simp: prvDeleteTCB_def)
    show "bits_ok ?s" using core_bits[OF co] lm by (simp add: bits_ok_def prvDeleteTCB_def)
  qed
  have ds: "delays_ok ?s"
  proof (rule delays_ok_leave[OF co cs running_delays[OF r]])
    show "\<exists>f. line (lists ?s) j = filter f (line (lists s) j)" if "j = xDelayedTaskList1 \<or> j = xDelayedTaskList2" for j
      using lm that by (intro exI[of _ "\<lambda>_. True"]) (auto simp: prvDeleteTCB_def)
  qed (simp_all add: prvDeleteTCB_def m(4))
  have nz: "unat (uxTasksDeleted s) = Suc (length q)" using running_deleted[OF r] l by simp
  then have "uxTasksDeleted s \<noteq> 0" by (metis unat_0 nat.distinct(1))
  then have dn: "unat (uxTasksDeleted s - 1) = length q" using unat_minus_one[of "uxTasksDeleted s"] nz by simp
  have cd: "card (allocated s) = Suc (card (allocated s - {t}))"
    by (rule card.remove[OF allocated_card(1)[OF co] t])
  have "uxCurrentNumberOfTasks s - 1 = word_of_nat (card (allocated s - {t}))"
    unfolding running_number[OF r] cd by simp
  then have "running_ok idle ?s"
    using r cs ds ne m(3) lm dn by (simp add: running_ok_def prvDeleteTCB_def)
  then have "kernel_ok idle ?s" using k lm by (simp add: kernel_ok_def prvDeleteTCB_def)
  then show ?thesis using that[OF m(1) _ lm m(3,4)] by blast
qed

lemma prvCheckTasksWaitingTermination_ok:
  assumes "kernel_ok idle s" "uxSchedulerSuspended s = 0" "ready s (pxCurrentTCB s)"
  obtains s' where "prvCheckTasksWaitingTermination s = Some s'" "kernel_ok idle s'" "top_ok s \<Longrightarrow> top_ok s'"
    "\<And>t. live s t \<Longrightarrow> kept s s' t" "\<And>t. t \<in> allocated s' \<longleftrightarrow> live s t" "pxCurrentTCB s' = pxCurrentTCB s"
    "uxPriority s' = uxPriority s" "uxPendedTicks s' = uxPendedTicks s" "xTickCount s' = xTickCount s"
    "uxTasksDeleted s' = 0"
  using assms
proof (induction "unat (uxTasksDeleted s)" arbitrary: s thesis)
  case 0
  then have z: "uxTasksDeleted s = 0" by (simp add: unsigned_eq_0_iff)
  note co = running_core[OF kernel_okD(1)[OF "0.prems"(2)]]
  have "line (lists s) xTasksWaitingTermination = []"
    using running_deleted[OF kernel_okD(1)[OF "0.prems"(2)]] z by simp
  then have lv: "t \<in> allocated s \<longleftrightarrow> live s t" for t
    using line_set[OF co, of "xGenericListItem t" xTasksWaitingTermination] by (simp add: live_def)
  have "prvCheckTasksWaitingTermination s = Some s" using z by (subst prvCheckTasksWaitingTermination.simps) simp
  then show ?case by (rule "0.prems"(1)) (use "0.prems"(2) lv z in auto)
next
  case (Suc k)
  note ks = Suc.prems(2)
  obtain s1 b where s1: "xTaskResumeAll (vTaskSuspendAll s) = Some (s1, b)" "kernel_ok idle s1" "top_ok s \<Longrightarrow> top_ok s1"
    "\<And>t. kept s s1 t" "uxPriority s1 = uxPriority s" "allocated s1 = allocated s" "pxCurrentTCB s1 = pxCurrentTCB s"
    "uxTasksDeleted s1 = uxTasksDeleted s" "uxSchedulerSuspended s1 = 0" "uxPendedTicks s1 = uxPendedTicks s"
    "xTickCount s1 = xTickCount s"
    by (rule suspend_resume[OF ks Suc.prems(3)]) blast
  note c1 = running_core[OF kernel_okD(1)[OF s1(2)]]
  have rd: "ready s1 (pxCurrentTCB s1)" using s1(4)[of "pxCurrentTCB s"] Suc.prems(4) s1(5,7) by (simp add: kept_def)
  have ln: "length (line (lists s1) xTasksWaitingTermination) = Suc k"
    using running_deleted[OF kernel_okD(1)[OF s1(2)]] s1(8) Suc.hyps(2) by simp
  then obtain i q where iq: "line (lists s1) xTasksWaitingTermination = i # q"
    by (cases "line (lists s1) xTasksWaitingTermination") auto
  obtain t where t: "i = xGenericListItem t"
    by (rule state_line_generic[OF c1, of xTasksWaitingTermination i]) (use iq in auto)
  obtain n m where m: "list_remove (xGenericListItem t) s1 = Some (n, s1\<lparr>lists := m\<rparr>)"
    "kernel_ok idle (prvDeleteTCB t (s1\<lparr>lists := m, uxCurrentNumberOfTasks := uxCurrentNumberOfTasks s1 - 1,
       uxTasksDeleted := uxTasksDeleted s1 - 1\<rparr>))"
    "line m = (line (lists s1))(xTasksWaitingTermination := q)"
    "pvContainer m = (pvContainer (lists s1))(xGenericListItem t := None)" "xItemValue m = xItemValue (lists s1)"
    by (rule free_task[OF s1(2) rd iq[unfolded t]])
  let ?s = "prvDeleteTCB t (s1\<lparr>lists := m, uxCurrentNumberOfTasks := uxCurrentNumberOfTasks s1 - 1,
       uxTasksDeleted := uxTasksDeleted s1 - 1\<rparr>)"
  have f: "lists ?s = m" "uxPriority ?s = uxPriority s" "pxCurrentTCB ?s = pxCurrentTCB s"
    "allocated ?s = allocated s - {t}" "uxTasksDeleted ?s = uxTasksDeleted s - 1" "uxSchedulerSuspended ?s = 0"
    "uxPendedTicks ?s = uxPendedTicks s" "xTickCount ?s = xTickCount s" "PENDSVSET ?s = PENDSVSET s1"
    "xYieldPending ?s = xYieldPending s1"
    using s1 by (simp_all add: prvDeleteTCB_def)
  have w: "container (xGenericListItem t) s1 = Some xTasksWaitingTermination"
    using line_set[OF c1, of "xGenericListItem t" xTasksWaitingTermination] iq t by simp
  have kp: "kept s ?s u" if "u \<noteq> t" for u
    using s1(4)[of u] m(4,5) f(1) that by (simp add: kept_def)
  have nl: "\<not> live s t" using w s1(4)[of t] by (simp add: live_def kept_def)
  have lv: "live ?s u \<longleftrightarrow> live s u" for u
    using kp[of u] nl f(4) by (cases "u = t") (auto simp: live_def kept_def)
  have top: "top_ok ?s" if "top_ok s"
  proof (rule top_ok_step[OF s1(3)[OF that]])
    show "PENDSVSET ?s \<or> xYieldPending ?s" if "ready ?s u" "\<not> ready s1 u" for u
    proof -
      have "u \<noteq> t" using that(1) m(4) f(1) by auto
      then have "container (xGenericListItem u) ?s = container (xGenericListItem u) s1" using m(4) f(1) by simp
      then show ?thesis using that f(2) s1(5) by simp
    qed
  qed (use f s1(5,7) in simp_all)
  have rd': "ready ?s (pxCurrentTCB ?s)" 
  proof -
    have "pxCurrentTCB s \<noteq> t" using rd w s1(7) by auto
    then show ?thesis using rd m(4) f(1-3) s1(5,7) by simp
  qed
  have hk: "k = unat (uxTasksDeleted ?s)"
  proof -
    have "uxTasksDeleted s \<noteq> 0" using Suc.hyps(2) by auto
    then show ?thesis using Suc.hyps(2) f(5) unat_minus_one[of "uxTasksDeleted s"] by simp
  qed
  obtain s' where s': "prvCheckTasksWaitingTermination ?s = Some s'" "kernel_ok idle s'" "top_ok ?s \<Longrightarrow> top_ok s'"
    "\<And>t. live ?s t \<Longrightarrow> kept ?s s' t" "\<And>t. t \<in> allocated s' \<longleftrightarrow> live ?s t" "pxCurrentTCB s' = pxCurrentTCB ?s"
    "uxPriority s' = uxPriority ?s" "uxPendedTicks s' = uxPendedTicks ?s" "xTickCount s' = xTickCount ?s"
    "uxTasksDeleted s' = 0"
    by (rule Suc.hyps(1)[OF hk _ m(2) f(6) rd']) blast
  have ne: "\<not> list_empty xTasksWaitingTermination (vTaskSuspendAll s)"
  proof -
    have "unat (uxTasksDeleted s) = length (line (lists s) xTasksWaitingTermination)"
      by (rule running_deleted[OF kernel_okD(1)[OF ks]])
    then have "line (lists s) xTasksWaitingTermination \<noteq> []" using Suc.hyps(2) by auto
    then show ?thesis
      using empty_list[OF running_core[OF kernel_okD(1)[OF ks]]] by (simp add: vTaskSuspendAll_def)
  qed
  have h: "head_entry xTasksWaitingTermination s1 = Some t" using head_list[OF c1, of xTasksWaitingTermination] iq t by simp
  have pos: "0 < uxTasksDeleted s" using Suc.hyps(2) by (simp add: word_less_nat_alt)
  have "prvCheckTasksWaitingTermination s = prvCheckTasksWaitingTermination ?s"
    by (subst prvCheckTasksWaitingTermination.simps) (use pos s1(1) ne h m(1) in \<open>simp del: map_option_eq_Some\<close>)
  then have run: "prvCheckTasksWaitingTermination s = Some s'" using s'(1) by simp
  show ?case
  proof (rule Suc.prems(1)[OF run s'(2)])
    show "kept s s' u" if "live s u" for u
    proof -
      have ne: "u \<noteq> t" using nl that by auto
      then show ?thesis by (rule kept_trans[OF kp s'(4)]) (use lv[of u] that in simp)
    qed
  qed (use s' f lv top in simp_all)
qed

section \<open>The start\<close>

text \<open>A list that is set up and empty.\<close>

definition fresh_list :: "(list_id, item) kmem \<Rightarrow> list_id \<Rightarrow> bool" where
  "fresh_list m l \<longleftrightarrow> list_ok m l \<and> line m l = [] \<and> pxIndex m l = End l"

lemma fresh_initialise:
  assumes "\<And>i. pvContainer m i = None" "l \<noteq> k \<Longrightarrow> fresh_list m l"
  shows "fresh_list (vListInitialise k m) l" "pvContainer (vListInitialise k m) i = None"
proof -
  have c: "pvContainer m i \<noteq> Some k" for i using assms(1) by simp
  show "fresh_list (vListInitialise k m) l"
  proof (cases "l = k")
    case True
    then show ?thesis using vListInitialise_line(1,2)[of m k, OF c] by (simp add: fresh_list_def vListInitialise_def)
  next
    case False
    then show ?thesis
      using vListInitialise_line(3,4)[of m k l, OF c] assms(2) by (simp add: fresh_list_def vListInitialise_def)
  qed
  show "pvContainer (vListInitialise k m) i = None" using assms(1) by (simp add: vListInitialise_def)
qed

lemma fresh_fold:
  assumes "\<And>i. pvContainer m i = None" "l \<notin> f ` set ns \<Longrightarrow> fresh_list m l"
  shows "fresh_list (fold (\<lambda>n. vListInitialise (f n)) ns m) l \<and> pvContainer (fold (\<lambda>n. vListInitialise (f n)) ns m) i = None"
  using assms
proof (induction ns arbitrary: m)
  case (Cons n ns)
  have "fresh_list (vListInitialise (f n) m) l" if "l \<notin> f ` set ns"
    by (rule fresh_initialise(1)[OF Cons.prems(1)]) (use Cons.prems(2) that in auto)
  then show ?case using Cons.IH[of "vListInitialise (f n) m"] fresh_initialise(2)[OF Cons.prems(1)] Cons.prems(1)
    by (simp add: vListInitialise_def)
qed simp

text \<open>The lists that \<open>prvInitialiseTaskLists\<close> sets up; the other lists are set up by their owners.\<close>

definition kernel_list :: "list_id \<Rightarrow> bool" where
  "kernel_list l \<longleftrightarrow> (\<exists>p < 11. l = pxReadyTasksLists p) \<or>
     l \<in> {xDelayedTaskList1, xDelayedTaskList2, xPendingReadyList, xTasksWaitingTermination, xSuspendedTaskList}"

lemma prvInitialiseTaskLists_fresh:
  assumes n: "\<And>i. container i s = None" and o: "\<And>l. \<not> kernel_list l \<Longrightarrow> fresh_list (lists s) l"
  shows "fresh_list (lists (prvInitialiseTaskLists s)) l" "container i (prvInitialiseTaskLists s) = None"
proof -
  let ?f = "\<lambda>n. pxReadyTasksLists (word_of_nat n)"
  let ?m = "fold (\<lambda>n. vListInitialise (?f n)) [0..<11] (lists s)"
  have m0: "l \<in> ?f ` set [0..<11] \<or> \<not> (\<exists>p < 11. l = pxReadyTasksLists p)" for l
  proof (cases "\<exists>p < 11. l = pxReadyTasksLists p")
    case True
    then obtain p where p: "p < 11" "l = pxReadyTasksLists p" by blast
    then have "unat p \<in> set [0..<11]" "l = ?f (unat p)" by (simp_all add: word_less_nat_alt)
    then show ?thesis by blast
  qed simp
  have m: "fresh_list ?m l \<and> pvContainer ?m i = None"
    if "l \<notin> {xDelayedTaskList1, xDelayedTaskList2, xPendingReadyList, xTasksWaitingTermination, xSuspendedTaskList}" for l i
    by (rule fresh_fold[OF n]) (use m0[of l] that o[of l] in \<open>auto simp: kernel_list_def\<close>)
  have mn: "pvContainer ?m i = None" for i using m[of "EventList 0"] by simp
  let ?b = "vListInitialise xDelayedTaskList1 ?m"
  let ?c = "vListInitialise xDelayedTaskList2 ?b"
  let ?d = "vListInitialise xPendingReadyList ?c"
  let ?e = "vListInitialise xTasksWaitingTermination ?d"
  let ?g = "vListInitialise xSuspendedTaskList ?e"
  have nb: "pvContainer ?b i = None" "pvContainer ?c i = None" "pvContainer ?d i = None" "pvContainer ?e i = None"
    "pvContainer ?g i = None" for i
    using mn by (simp_all add: vListInitialise_def)
  have "fresh_list ?g l"
  proof (rule fresh_initialise(1)[OF nb(4)])
    assume l1: "l \<noteq> xSuspendedTaskList"
    show "fresh_list ?e l"
    proof (rule fresh_initialise(1)[OF nb(3)])
      assume l2: "l \<noteq> xTasksWaitingTermination"
      show "fresh_list ?d l"
      proof (rule fresh_initialise(1)[OF nb(2)])
        assume l3: "l \<noteq> xPendingReadyList"
        show "fresh_list ?c l"
        proof (rule fresh_initialise(1)[OF nb(1)])
          assume l4: "l \<noteq> xDelayedTaskList2"
          show "fresh_list ?b l"
            by (rule fresh_initialise(1)[OF mn]) (use m[of l] l1 l2 l3 l4 in simp)
        qed
      qed
    qed
  qed
  then show "fresh_list (lists (prvInitialiseTaskLists s)) l" "container i (prvInitialiseTaskLists s) = None"
    using nb(5) by (simp_all add: prvInitialiseTaskLists_def Let_def)
qed

text \<open>Before the first task is created; the memory of the kernel's lists may hold anything.\<close>

definition boot :: "sched \<Rightarrow> bool" where
  "boot s \<longleftrightarrow>
     (\<forall>i. container i s = None) \<and> (\<forall>l. \<not> kernel_list l \<longrightarrow> fresh_list (lists s) l) \<and> allocated s = {} \<and>
     pxCurrentTCB s = NULL \<and> uxCurrentNumberOfTasks s = 0 \<and> xTickCount s = 0 \<and> uxTopReadyPriority s = 0 \<and>
     \<not> xSchedulerRunning s \<and> uxPendedTicks s = 0 \<and> \<not> xYieldPending s \<and> xNextTaskUnblockTime s = portMAX_DELAY \<and>
     uxSchedulerSuspended s = 0 \<and> uxTasksDeleted s = 0 \<and> \<not> PENDSVSET s"

text \<open>Tasks have been created, the scheduler has not been started.\<close>

definition starting :: "sched \<Rightarrow> bool" where
  "starting s \<longleftrightarrow>
     core {} s \<and> delays_ok s \<and> (\<forall>l. (\<forall>p. l \<noteq> pxReadyTasksLists p) \<longrightarrow> line (lists s) l = []) \<and>
     pxCurrentTCB s \<in> allocated s \<and> ready s (pxCurrentTCB s) \<and>
     (\<forall>t. ready s t \<longrightarrow> uxPriority s t \<le> uxPriority s (pxCurrentTCB s)) \<and>
     uxCurrentNumberOfTasks s = word_of_nat (card (allocated s)) \<and> xTickCount s = 0 \<and>
     \<not> xSchedulerRunning s \<and> uxPendedTicks s = 0 \<and> \<not> xYieldPending s \<and>
     uxSchedulerSuspended s = 0 \<and> uxTasksDeleted s = 0 \<and> \<not> PENDSVSET s"

lemma first_core:
  assumes b: "boot s"
  shows "core {} (prvInitialiseTaskLists s)" "line (lists (prvInitialiseTaskLists s)) l = []"
proof -
  let ?s = "prvInitialiseTaskLists s"
  have n: "container i s = None" and o: "\<not> kernel_list l \<Longrightarrow> fresh_list (lists s) l" for i l
    using b by (simp_all add: boot_def)
  note p = prvInitialiseTaskLists_fresh[OF n o]
  have f: "allocated ?s = {}" "uxTopReadyPriority ?s = 0"
    using b by (simp_all add: boot_def prvInitialiseTaskLists_def Let_def)
  show l: "line (lists ?s) l = []" for l using p(1)[of l] by (simp add: fresh_list_def)
  show "core {} ?s"
    using p l f by (simp add: core_def lists_ok_def fresh_list_def index_ok_def placed_def bits_ok_def)
qed

lemma initialise_value:
  "vListInitialise k (listSET_LIST_ITEM_VALUE i v m) = listSET_LIST_ITEM_VALUE i v (vListInitialise k m)"
  by (simp add: vListInitialise_def listSET_LIST_ITEM_VALUE_def fun_upd_twist)

lemma fold_value:
  "fold (\<lambda>n. vListInitialise (f n)) ns (listSET_LIST_ITEM_VALUE i v m) =
     listSET_LIST_ITEM_VALUE i v (fold (\<lambda>n. vListInitialise (f n)) ns m)"
  by (induction ns arbitrary: m) (simp_all add: initialise_value)

lemma lists_value:
  "lists s' = listSET_LIST_ITEM_VALUE i v (lists s) \<Longrightarrow>
     lists (prvInitialiseTaskLists s') = listSET_LIST_ITEM_VALUE i v (lists (prvInitialiseTaskLists s))"
  by (simp add: prvInitialiseTaskLists_def Let_def fold_value initialise_value del: upt_rec_numeral)

lemma no_delays:
  assumes "delay_lists s" "\<And>t. \<not> delayed s t" "line (lists s) xDelayedTaskList1 = []" "line (lists s) xDelayedTaskList2 = []"
    "xNextTaskUnblockTime s = portMAX_DELAY"
  shows "delays_ok s"
  using assms delayed_iff[OF assms(1)] by (auto simp: delays_ok_def delay_lists_def in_time_order_def)

text \<open>The first task.\<close>

lemma create_first:
  assumes b: "boot s" and n: "t \<noteq> NULL"
  obtains s' where "xTaskGenericCreate t p s = (s', True)" "starting s'" "allocated s' = {t}"
    "uxPriority s' t = clamped p"
proof -
  let ?q = "clamped p" and ?i = "prvInitialiseTaskLists s"
  let ?v = "configMAX_PRIORITIES - ?q"
  have bn: "container i s = None" for i using b by (simp add: boot_def)
  have bf: "allocated s = {}" "pxCurrentTCB s = NULL" "uxCurrentNumberOfTasks s = 0" "xTickCount s = 0"
    "\<not> xSchedulerRunning s" "uxPendedTicks s = 0" "\<not> xYieldPending s" "xNextTaskUnblockTime s = portMAX_DELAY"
    "uxSchedulerSuspended s = 0" "uxTasksDeleted s = 0" "\<not> PENDSVSET s"
    using b by (simp_all add: boot_def)
  let ?c = "s\<lparr>allocated := insert t (allocated s), uxPriority := (uxPriority s)(t := ?q),
      uxBasePriority := (uxBasePriority s)(t := ?q), uxMutexesHeld := (uxMutexesHeld s)(t := 0),
      lists := listSET_LIST_ITEM_VALUE (xEventListItem t) ?v (lists s), uxCurrentNumberOfTasks := 1, pxCurrentTCB := t\<rparr>"
  let ?u = "(prvInitialiseTaskLists ?c)\<lparr>uxTaskNumber := uxTaskNumber s + 1\<rparr>"
  let ?s = "prvAddTaskToReadyList t ?u"
  have run: "xTaskGenericCreate t p s = (?s, True)"
    using n bf bn by (simp add: xTaskGenericCreate_def initialise_fields Let_def prvInitialiseTaskLists_def)
  have fi: "uxPriority ?i = uxPriority s" "uxBasePriority ?i = uxBasePriority s" "allocated ?i = {}"
    "uxTopReadyPriority ?i = uxTopReadyPriority s"
    using bf by (simp_all add: prvInitialiseTaskLists_def Let_def)
  have fu: "uxPriority ?u = (uxPriority s)(t := ?q)" "uxBasePriority ?u = (uxBasePriority s)(t := ?q)"
    "allocated ?u = {t}" "uxTopReadyPriority ?u = uxTopReadyPriority s" "pxCurrentTCB ?u = t"
    "uxCurrentNumberOfTasks ?u = 1" "xTickCount ?u = 0" "\<not> xSchedulerRunning ?u" "uxPendedTicks ?u = 0"
    "\<not> xYieldPending ?u" "xNextTaskUnblockTime ?u = portMAX_DELAY" "uxSchedulerSuspended ?u = 0"
    "uxTasksDeleted ?u = 0" "\<not> PENDSVSET ?u" "delay_lists ?u"
    using bf by (simp_all add: prvInitialiseTaskLists_def Let_def delay_lists_def)
  have lu: "lists ?u = listSET_LIST_ITEM_VALUE (xEventListItem t) ?v (lists ?i)"
    using lists_value[of ?c "xEventListItem t" ?v s] by simp
  note ci = first_core[OF b]
  note a = add_new[OF ci(1) _ n clamped(1)[of p], of ?u ?v, OF _ lu]
  have a1: "core {} ?s" "ready ?s t" "\<And>w. w \<noteq> t \<Longrightarrow> kept ?i ?s w" "\<And>w. w \<noteq> t \<Longrightarrow> ready ?s w = ready ?i w"
    "\<And>l. (\<And>p. l \<noteq> pxReadyTasksLists p) \<Longrightarrow> line (lists ?s) l = line (lists ?i) l"
    using a fi fu by simp_all
  have le: "line (lists ?s) l = []" if "\<forall>p. l \<noteq> pxReadyTasksLists p" for l
    using a1(5)[of l] that ci(2)[of l] by simp
  have nd: "\<not> delayed ?s w" for w
    using line_set[OF a1(1), of "xGenericListItem w" xDelayedTaskList1] line_set[OF a1(1), of "xGenericListItem w" xDelayedTaskList2]
      le[of xDelayedTaskList1] le[of xDelayedTaskList2] by (auto simp: delayed_def)
  have d: "delays_ok ?s"
    by (rule no_delays[OF _ nd]) (use le fu in \<open>simp_all add: delay_lists_def\<close>)
  have tp: "w = t" if "ready ?s w" for w
  proof (rule ccontr)
    assume ne: "w \<noteq> t"
    have "ready ?i w" using that unfolding a1(4)[OF ne] .
    then have "xGenericListItem w \<in> set (line (lists ?i) (pxReadyTasksLists (uxPriority ?i w)))"
      using line_set[OF ci(1)] by blast
    then show False unfolding ci(2) by simp
  qed
  obtain s' where s': "s' = ?s" by simp
  have fs: "uxPriority s' = (uxPriority s)(t := ?q)" "allocated s' = {t}" "pxCurrentTCB s' = t"
    "uxCurrentNumberOfTasks s' = 1" "xTickCount s' = 0" "\<not> xSchedulerRunning s'" "uxPendedTicks s' = 0"
    "\<not> xYieldPending s'" "uxSchedulerSuspended s' = 0" "uxTasksDeleted s' = 0" "\<not> PENDSVSET s'"
    unfolding s' using bf by (simp_all add: prvInitialiseTaskLists_def Let_def)
  have "uxPriority s' w \<le> uxPriority s' t" if "ready s' w" for w using tp[folded s', OF that] by simp
  then have "starting s'"
    unfolding starting_def using a1(1,2)[folded s'] d[folded s'] le[folded s'] fs(2-)
    by (intro conjI allI impI) simp_all
  then show ?thesis by (rule that[OF run[folded s']]) (use fs(1,2) in simp_all)
qed

text \<open>The tasks that follow; the current one is always the last one created with the highest priority.\<close>

lemma create_next:
  assumes s: "starting s" and n: "t \<notin> allocated s" "t \<noteq> NULL"
  obtains s' where "xTaskGenericCreate t p s = (s', True)" "starting s'" "allocated s' = insert t (allocated s)"
    "uxPriority s' = (uxPriority s)(t := clamped p)" "\<And>u. ready s u \<Longrightarrow> ready s' u" "ready s' t"
proof -
  define q where "q = clamped p"
  have q: "q < 11" "q \<le> p" using clamped[of p] by (simp_all only: q_def)
  have qb: "q = (if configMAX_PRIORITIES \<le> p then 10 else p)" by (simp add: q_def)
  let ?v = "configMAX_PRIORITIES - q"
  have sf: "core {} s" "delays_ok s" "\<And>l. (\<And>p. l \<noteq> pxReadyTasksLists p) \<Longrightarrow> line (lists s) l = []"
    "pxCurrentTCB s \<in> allocated s" "ready s (pxCurrentTCB s)"
    "\<And>t. ready s t \<Longrightarrow> uxPriority s t \<le> uxPriority s (pxCurrentTCB s)"
    "uxCurrentNumberOfTasks s = word_of_nat (card (allocated s))" "xTickCount s = 0" "\<not> xSchedulerRunning s"
    "uxPendedTicks s = 0" "\<not> xYieldPending s" "uxSchedulerSuspended s = 0" "uxTasksDeleted s = 0" "\<not> PENDSVSET s"
    using s by (simp_all add: starting_def)
  note no = fresh_task[OF sf(1) n(1)]
  have cn: "pxCurrentTCB s \<noteq> NULL" using sf(4) core_null[OF sf(1)] by auto
  have tc: "pxCurrentTCB s \<noteq> t" using sf(4) n(1) by auto
  let ?u = "s\<lparr>allocated := insert t (allocated s), uxPriority := (uxPriority s)(t := q),
      uxBasePriority := (uxBasePriority s)(t := q), uxMutexesHeld := (uxMutexesHeld s)(t := 0),
      lists := listSET_LIST_ITEM_VALUE (xEventListItem t) ?v (lists s),
      uxCurrentNumberOfTasks := uxCurrentNumberOfTasks s + 1,
      pxCurrentTCB := (if uxPriority s (pxCurrentTCB s) \<le> p then t else pxCurrentTCB s),
      uxTaskNumber := uxTaskNumber s + 1\<rparr>"
  let ?s = "prvAddTaskToReadyList t ?u"
  have run: "xTaskGenericCreate t p s = (?s, True)"
    using n(2) cn sf(9) tc no
    by (cases "uxPriority s (pxCurrentTCB s) \<le> p")
      (simp_all add: xTaskGenericCreate_def initialise_fields Let_def q_def)
  have a: "core {} ?s" "ready ?s t" "\<And>w. w \<noteq> t \<Longrightarrow> kept s ?s w" "\<And>w. w \<noteq> t \<Longrightarrow> ready ?s w = ready s w"
    "\<And>l. (\<And>p. l \<noteq> pxReadyTasksLists p) \<Longrightarrow> line (lists ?s) l = line (lists s) l"
    using add_new[OF sf(1) n q(1), of ?u ?v] by simp_all
  have le: "line (lists ?s) l = []" if "\<And>p. l \<noteq> pxReadyTasksLists p" for l
    using a(5)[OF that] sf(3)[OF that] by simp
  have d: "delays_ok ?s"
  proof (rule delays_ok_leave[OF sf(1) a(1) sf(2)])
    show "\<exists>f. line (lists ?s) j = filter f (line (lists s) j)" if "j = xDelayedTaskList1 \<or> j = xDelayedTaskList2" for j
      using a(5)[of j] that by (intro exI[of _ "\<lambda>_. True"]) auto
  qed simp_all
  have pr: "uxPriority ?s = (uxPriority s)(t := q)" by simp
  have cu: "pxCurrentTCB ?s = (if uxPriority s (pxCurrentTCB s) \<le> p then t else pxCurrentTCB s)" by simp
  have al: "allocated ?s = insert t (allocated s)" by simp
  have rs: "ready ?s u" if "ready s u" for u
    using a(2) a(4)[of u] that by (cases "u = t") simp_all
  obtain s' where s': "s' = ?s" by simp
  note fs = pr[folded s'] cu[folded s'] a(4)[folded s'] rs[folded s']
  have top: "uxPriority s' w \<le> uxPriority s' (pxCurrentTCB s')" if w: "ready s' w" for w
  proof (cases "w = t")
    case True
    then show ?thesis
      using fs(1,2) q(2) tc by (cases "uxPriority s (pxCurrentTCB s) \<le> p") simp_all
  next
    case False
    then have wc: "uxPriority s w \<le> uxPriority s (pxCurrentTCB s)" using fs(3)[OF False] w sf(6) by simp
    have "uxPriority s (pxCurrentTCB s) \<le> 10"
      using core_priority[OF sf(1,4)] by (simp add: word_less_nat_alt word_le_nat_alt)
    then have "uxPriority s w \<le> q" if "uxPriority s (pxCurrentTCB s) \<le> p"
      using that wc unfolding qb by (cases "configMAX_PRIORITIES \<le> p") auto
    then show ?thesis using fs(1,2) wc tc False by (cases "uxPriority s (pxCurrentTCB s) \<le> p") simp_all
  qed
  have nu: "uxCurrentNumberOfTasks s' = word_of_nat (card (allocated s'))"
    using card_new[OF sf(1) n(1) sf(7)] by (simp add: s')
  have rc: "ready s' (pxCurrentTCB s')"
    using a(2)[folded s'] fs(4)[OF sf(5)] fs(2) by (cases "uxPriority s (pxCurrentTCB s) \<le> p") simp_all
  have ca: "pxCurrentTCB s' \<in> allocated s'" using sf(4) by (simp add: s')
  have "starting s'"
    unfolding starting_def using a(1)[folded s'] d[folded s'] le[folded s'] ca rc top nu
    by (intro conjI allI impI) (simp_all add: s' sf)
  then show ?thesis
    by (rule that[OF run[folded s'] _ al[folded s'] pr[folded s', unfolded q_def] rs[folded s'] a(2)[folded s']])
qed

lemma started_kernel:
  assumes s: "starting s" and i: "ready s idle"
  shows "kernel_ok idle (s\<lparr>xSchedulerRunning := True, xTickCount := 0\<rparr>)" (is "kernel_ok idle ?s")
    "top_ok (s\<lparr>xSchedulerRunning := True, xTickCount := 0\<rparr>)"
proof -
  have "delays_ok s" and z: "xTickCount s = 0" using s by (simp_all add: starting_def)
  then have d: "delays_ok ?s" unfolding delays_ok_def z by (simp add: delay_lists_def in_time_order_def)
  show "kernel_ok idle ?s" using s i d by (simp add: starting_def kernel_ok_def running_ok_def)
  show "top_ok ?s" using s by (simp add: starting_def top_ok_def)
qed

lemma vTaskStartScheduler_ok:
  assumes s: "boot s \<or> starting s" and i: "idle \<notin> allocated s" "idle \<noteq> NULL"
    and t: "timer \<notin> allocated s" "timer \<noteq> NULL" "timer \<noteq> idle"
  shows "kernel_ok idle (vTaskStartScheduler idle True timer s)" "top_ok (vTaskStartScheduler idle True timer s)"
proof -
  obtain s1 where s1: "xTaskGenericCreate idle 0 s = (s1, True)" "starting s1" "allocated s1 = insert idle (allocated s)"
    "ready s1 idle"
  proof (cases "boot s")
    case True
    obtain s1 where c: "xTaskGenericCreate idle 0 s = (s1, True)" "starting s1" "allocated s1 = {idle}"
      by (rule create_first[OF True i(2)])
    have "allocated s = {}" using True by (simp add: boot_def)
    moreover have "pxCurrentTCB s1 = idle" using c(2,3) by (simp add: starting_def)
    ultimately show ?thesis using that[OF c(1,2)] c(2,3) by (simp add: starting_def)
  next
    case False
    then have "starting s" using s by simp
    then show ?thesis using create_next[of s idle 0] i that by metis
  qed
  obtain s2 where s2: "xTaskGenericCreate timer 5 s1 = (s2, True)" "starting s2" "ready s2 idle"
    using create_next[OF s1(2), of timer 5] t s1(3,4) by (metis insert_iff)
  have "vTaskStartScheduler idle True timer s = s2\<lparr>xSchedulerRunning := True, xTickCount := 0\<rparr>"
    using s1(1) s2(1) by (simp add: vTaskStartScheduler_def)
  then show "kernel_ok idle (vTaskStartScheduler idle True timer s)" "top_ok (vTaskStartScheduler idle True timer s)"
    using started_kernel[OF s2(2,3)] by simp_all
qed

section \<open>Small calls\<close>

lemma vTaskStepTick_ok:
  assumes k: "kernel_ok idle s" and n: "n < xNextTaskUnblockTime s - xTickCount s"
  shows "kernel_ok idle (vTaskStepTick n s)" "top_ok (vTaskStepTick n s) = top_ok s"
proof -
  let ?s = "vTaskStepTick n s"
  note r = kernel_okD(1)[OF k] and d = running_delays[OF kernel_okD(1)[OF k]]
  have lt: "xTickCount s \<le> xNextTaskUnblockTime s" using delays_next[OF d] by (auto simp: max_delay_ge)
  then have nn: "unat (xNextTaskUnblockTime s - xTickCount s) = unat (xNextTaskUnblockTime s) - unat (xTickCount s)"
    by (rule unat_sub)
  have "unat (xTickCount s) + unat n < unat (xNextTaskUnblockTime s)"
    using n nn by (simp add: word_less_nat_alt) 
  moreover have "unat (xNextTaskUnblockTime s) < 4294967296"
    by (rule order.strict_trans2[OF unsigned_less]) simp
  ultimately have "unat (xTickCount s) + unat n < unat (xNextTaskUnblockTime s)"
    "unat (xTickCount s + n) = unat (xTickCount s) + unat n"
    using unat_plus_if'[of "xTickCount s" n] by auto
  then have le: "xTickCount s \<le> xTickCount s + n" and lx: "xTickCount s + n < xNextTaskUnblockTime s"
    by (simp_all add: word_less_nat_alt word_le_nat_alt)
  have "delays_ok ?s"
    unfolding delays_ok_def
  proof (intro conjI allI impI)
    fix t
    show "xTickCount ?s < wake_time ?s t" "xNextTaskUnblockTime ?s \<le> wake_time ?s t"
      if "container (xGenericListItem t) ?s = Some (pxDelayedTaskList ?s)"
      using that delays_current[OF d, of t] lx by (auto simp: vTaskStepTick_def)
    show "wake_time ?s t < xTickCount ?s" if "container (xGenericListItem t) ?s = Some (pxOverflowDelayedTaskList ?s)"
      using that delays_overflow[OF d, of t] le by (auto simp: vTaskStepTick_def)
  qed (use d lx in \<open>auto simp: delays_ok_def vTaskStepTick_def delay_lists_def in_time_order_def\<close>)
  then show "kernel_ok idle ?s" using k by (simp add: kernel_ok_def running_ok_def vTaskStepTick_def)
  show "top_ok ?s = top_ok s" by (simp add: top_ok_def vTaskStepTick_def)
qed

end
