(* ===== verification/SchedActs.thy ===== *)
theory SchedActs
  imports SchedTasks
begin

text \<open>
  The scheduler as a system of steps: the interrupts, and one step for each critical section that a task or an
  interrupt handler may run, in any order.
\<close>

section \<open>The steps\<close>

datatype action =
    Tick | Switch | Yield | MissedYield
  | SuspendAll | ResumeAll
  | Sleep "32 word"
  | Wait nat "32 word" | WaitUnordered nat "32 word" "32 word" | WaitRestricted nat "32 word"
  | Wake nat | WakeUnordered tcb "32 word"
  | Suspend tcb | Resume tcb | ResumeFromISR tcb
  | PrioritySet tcb "32 word" | Inherit tcb | TakeMutex | Disinherit
  | Create tcb "32 word" | Delete tcb | Reap
  | StepTick "32 word"

text \<open>A step gives the new state, and whether it asks its caller to yield.\<close>

definition quiet :: "sched option \<Rightarrow> (sched \<times> bool) option" where
  "quiet = map_option (\<lambda>s. (s, False))"

fun act :: "action \<Rightarrow> sched \<Rightarrow> (sched \<times> bool) option" where
  "act Tick s = quiet (xPortSysTickHandler s)"
| "act Switch s = quiet (xPortPendSVHandler s)"
| "act Yield s = Some (portYIELD_WITHIN_API s, False)"
| "act MissedYield s = Some (vTaskMissedYield s, False)"
| "act SuspendAll s = Some (vTaskSuspendAll s, False)"
| "act ResumeAll s = quiet (map_option fst (xTaskResumeAll s))"
| "act (Sleep w) s = quiet (sleep_until w s)"
| "act (Wait e n) s = quiet (vTaskPlaceOnEventList e n s)"
| "act (WaitUnordered e v n) s = quiet (vTaskPlaceOnUnorderedEventList e v n s)"
| "act (WaitRestricted e n) s = quiet (vTaskPlaceOnEventListRestricted e n s)"
| "act (Wake e) s = xTaskRemoveFromEventList e s"
| "act (WakeUnordered t v) s = xTaskRemoveFromUnorderedEventList (xEventListItem t) v s"
| "act (Suspend h) s = quiet (vTaskSuspend h s)"
| "act (Resume t) s = quiet (vTaskResume t s)"
| "act (ResumeFromISR t) s = xTaskResumeFromISR t s"
| "act (PrioritySet h p) s = quiet (vTaskPrioritySet h p s)"
| "act (Inherit t) s = quiet (vTaskPriorityInherit t s)"
| "act TakeMutex s = Some (fst (pvTaskIncrementMutexHeldCount s), False)"
| "act Disinherit s = xTaskPriorityDisinherit (pxCurrentTCB s) s"
| "act (Create t p) s = Some (fst (xTaskGenericCreate t p s), False)"
| "act (Delete h) s = quiet (vTaskDelete h s)"
| "act Reap s = quiet (prvCheckTasksWaitingTermination s)"
| "act (StepTick n) s = Some (vTaskStepTick n s, False)"

text \<open>What the kernel expects of its callers.\<close>

abbreviation may_block :: "tcb \<Rightarrow> sched \<Rightarrow> bool" where
  "may_block idle s \<equiv> ready s (pxCurrentTCB s) \<and> pxCurrentTCB s \<noteq> idle"

fun allowed :: "tcb \<Rightarrow> action \<Rightarrow> sched \<Rightarrow> bool" where
  "allowed idle Tick s = (uxSchedulerSuspended s = 0 \<or> uxPendedTicks s + 1 \<noteq> 0)"
| "allowed idle Switch s = PENDSVSET s"
| "allowed idle SuspendAll s = (uxSchedulerSuspended s + 1 \<noteq> 0)"
| "allowed idle ResumeAll s = (uxSchedulerSuspended s \<noteq> 0)"
| "allowed idle (Sleep w) s = (may_block idle s \<and> w \<noteq> xTickCount s)"
| "allowed idle (Wait e n) s = (may_block idle s \<and> n \<noteq> 0)"
| "allowed idle (WaitUnordered e v n) s = (may_block idle s \<and> n \<noteq> 0)"
| "allowed idle (WaitRestricted e n) s = (may_block idle s \<and> n \<noteq> 0 \<and> n \<noteq> portMAX_DELAY)"
| "allowed idle (Wake e) s = (\<not> list_empty (EventList e) s)"
| "allowed idle (WakeUnordered t v) s = (case container (xEventListItem t) s of Some (EventList e) \<Rightarrow> True | _ \<Rightarrow> False)"
| "allowed idle (Suspend h) s = (live s (prvGetTCBFromHandle h s) \<and> prvGetTCBFromHandle h s \<noteq> idle)"
| "allowed idle (ResumeFromISR t) s = (t \<in> allocated s)"
| "allowed idle (PrioritySet h p) s = (prvGetTCBFromHandle h s \<in> allocated s)"
| "allowed idle (Inherit t) s = (t \<in> allocated s)"
| "allowed idle Disinherit s = ready s (pxCurrentTCB s)"
| "allowed idle (Create t p) s = (t \<notin> allocated s)"
| "allowed idle (Delete h) s = (live s (prvGetTCBFromHandle h s) \<and> prvGetTCBFromHandle h s \<noteq> idle)"
| "allowed idle Reap s = (pxCurrentTCB s = idle \<and> uxSchedulerSuspended s = 0)"
| "allowed idle (StepTick n) s = (n < xNextTaskUnblockTime s - xTickCount s)"
| "allowed idle _ s = True"

text \<open>The tasks that a step takes out of their sleep by name, and the time it takes.\<close>

fun targets :: "action \<Rightarrow> sched \<Rightarrow> tcb set" where
  "targets (Suspend h) s = {prvGetTCBFromHandle h s}"
| "targets (Delete h) s = {prvGetTCBFromHandle h s}"
| "targets _ s = {}"

fun elapsed :: "action \<Rightarrow> nat" where
  "elapsed Tick = 1"
| "elapsed (StepTick n) = unat n"
| "elapsed _ = 0"

section \<open>Sleep\<close>

definition asleep :: "sched \<Rightarrow> tcb \<Rightarrow> bool" where
  "asleep s t \<longleftrightarrow> delayed s t \<and> container (xEventListItem t) s = None"

text \<open>The ticks until the time has come, less those that were held back.\<close>

definition to_go :: "sched \<Rightarrow> tcb \<Rightarrow> int" where
  "to_go s t = int (remaining s t) - int (unat (uxPendedTicks s))"

definition sleeps_on :: "nat \<Rightarrow> sched \<Rightarrow> sched \<Rightarrow> tcb \<Rightarrow> bool" where
  "sleeps_on k s s' t \<longleftrightarrow>
     asleep s' t \<and> to_go s' t = to_go s t - int k \<or>
     ready s' t \<and> uxSchedulerSuspended s' = 0 \<and> to_go s t \<le> int k"

definition act_ok :: "tcb \<Rightarrow> action \<Rightarrow> sched \<Rightarrow> sched \<Rightarrow> bool \<Rightarrow> bool" where
  "act_ok idle a s s' y \<longleftrightarrow>
     kernel_ok idle s' \<and> (top_ok s \<longrightarrow> y \<or> top_ok s') \<and>
     (\<forall>t. t \<notin> targets a s \<longrightarrow> asleep s t \<longrightarrow> sleeps_on (elapsed a) s s' t)"

lemma sleeps_on_kept:
  assumes "asleep s t" "kept s s' t" "xTickCount s' = xTickCount s" "uxPendedTicks s' = uxPendedTicks s"
  shows "sleeps_on 0 s s' t"
  using assms by (simp add: sleeps_on_def asleep_def to_go_def remaining_def kept_def delayed_def)

lemma act_ok_call:
  assumes "call_ok idle T s s' y" "elapsed a = 0" "T \<subseteq> targets a s"
  shows "act_ok idle a s s' y"
  using assms sleeps_on_kept[of s _ s'] unfolding act_ok_def call_ok_def asleep_def by (metis subsetD)

lemma asleep_remaining: "kernel_ok idle s \<Longrightarrow> asleep s t \<Longrightarrow> 0 < remaining s t \<and> \<not> pending s t"
  using delayed_time(2)[OF running_delays[OF kernel_okD(1)]] by (simp add: asleep_def pending_def)

lemma sleeps_tick:
  assumes k: "kernel_ok idle s" and sus: "uxSchedulerSuspended s = 0" and p: "passed 1 s s'" "uxPendedTicks s' = 0"
    and t: "asleep s t"
  shows "sleeps_on 1 s s' t"
proof (cases "remaining s t \<le> 1")
  case True
  then have "ready s' t" using passed_woken(1)[OF p(1), of t] t by (simp add: asleep_def)
  then show ?thesis
    using True sus kernel_okD(2)[OF k sus] passed_fields(4)[OF p(1)] by (simp add: sleeps_on_def to_go_def)
next
  case False
  then have kp: "kept s s' t" by (intro passed_kept[OF p(1)]) simp
  have "wake_time s t \<noteq> xTickCount s"
    using delayed_time(1)[OF running_delays[OF kernel_okD(1)[OF k]]] t by (simp add: asleep_def)
  then have "remaining s' t = remaining s t - 1"
    using unat_minus_one_more[of "wake_time s t" "xTickCount s"] kp passed_fields(5)[OF p(1)]
    by (simp add: remaining_def kept_def)
  then show ?thesis
    using False kp t p(2) kernel_okD(2)[OF k sus]
    by (simp add: sleeps_on_def to_go_def asleep_def kept_def delayed_def)
qed

lemma sleeps_resume:
  assumes k: "kernel_ok idle s" and r: "resume_ok idle s s'" and t: "asleep s t"
  shows "sleeps_on 0 s s' t"
proof (cases "uxSchedulerSuspended s = 1")
  case False
  then show ?thesis using r t by (intro sleeps_on_kept) (simp_all add: resume_ok_def)
next
  case True
  then have re: "resumed s s'" using r by (simp add: resume_ok_def)
  have np: "\<not> pending s t" using asleep_remaining[OF k t] by simp
  show ?thesis
  proof (cases "remaining s t \<le> unat (uxPendedTicks s)")
    case True
    then have "comes_ready s t" using t by (simp add: comes_ready_def asleep_def)
    moreover have "int (remaining s t) \<le> int (unat (uxPendedTicks s))" using True by (simp only: of_nat_le_iff)
    ultimately show ?thesis using resumedD(1,8)[OF re] by (simp add: sleeps_on_def to_go_def)
  next
    case False
    then have "\<not> comes_ready s t" using np by (simp add: comes_ready_def)
    then have kp: "kept s s' t" by (rule resumedD(3)[OF re])
    have "remaining s' t = unat ((wake_time s t - xTickCount s) - uxPendedTicks s)"
      using kp resumedD(10)[OF re] by (simp add: remaining_def kept_def algebra_simps)
    also have "\<dots> = remaining s t - unat (uxPendedTicks s)"
      using False by (simp add: remaining_def unat_sub word_le_nat_alt)
    finally show ?thesis
      using False kp t resumedD(9)[OF re] by (simp add: sleeps_on_def to_go_def asleep_def kept_def delayed_def)
  qed
qed

section \<open>Every step keeps the invariant\<close>

lemma act_call:
  assumes "call_ok idle (targets a s) s s' y" "elapsed a = 0" "act a s = Some (s', y)"
  shows "\<exists>s' y. act a s = Some (s', y) \<and> act_ok idle a s s' y"
  using act_ok_call[OF assms(1,2) subset_refl] assms(3) by blast

lemma call_ok_strong: "call_ok idle T s s' False \<Longrightarrow> call_ok idle T s s' y"
  by (simp add: call_ok_def)

lemma quiet_Some [simp]: "quiet (Some s) = Some (s, False)"
  by (simp add: quiet_def)

lemma act_Tick:
  assumes k: "kernel_ok idle s" and a: "allowed idle Tick s"
  shows "\<exists>s' y. act Tick s = Some (s', y) \<and> act_ok idle Tick s s' y"
proof (cases "uxSchedulerSuspended s = 0")
  case True
  obtain s' where s': "xPortSysTickHandler s = Some s'" "kernel_ok idle s'" "passed 1 s s'" "uxPendedTicks s' = 0"
    "top_ok s \<Longrightarrow> PENDSVSET s' \<or> (\<forall>t. ready s' t \<longrightarrow> uxPriority s t \<le> uxPriority s (pxCurrentTCB s))"
    by (rule tick_counted[OF k True]) blast
  have "top_ok s'" if "top_ok s" using s'(5)[OF that] passed_fields(1,2)[OF s'(3)] by (auto simp: top_ok_def)
  then show ?thesis using s' sleeps_tick[OF k True s'(3,4)]
    by (intro exI[of _ s'] exI[of _ False]) (simp add: act_ok_def)
next
  case False
  let ?s = "s\<lparr>uxPendedTicks := uxPendedTicks s + 1, PENDSVSET := PENDSVSET s \<or> xYieldPending s\<rparr>"
  have n: "unat (uxPendedTicks s + 1) = unat (uxPendedTicks s) + 1"
    using a False unatSuc[of "uxPendedTicks s"] by (simp add: add.commute)
  have "int (unat (uxPendedTicks s + 1)) = int (unat (uxPendedTicks s)) + 1" unfolding n by simp
  then have "sleeps_on 1 s ?s t" if "asleep s t" for t
    using that by (simp add: sleeps_on_def to_go_def asleep_def delayed_def remaining_def)
  moreover have "top_ok s \<Longrightarrow> top_ok ?s" by (auto simp: top_ok_def)
  ultimately show ?thesis using tick_pended[OF k False]
    by (intro exI[of _ ?s] exI[of _ False]) (simp add: act_ok_def)
qed

lemma act_Switch:
  assumes k: "kernel_ok idle s"
  shows "\<exists>s' y. act Switch s = Some (s', y) \<and> act_ok idle Switch s s' y"
proof (cases "uxSchedulerSuspended s = 0")
  case False
  show ?thesis by (rule act_call[OF switch_held(2)[OF k False], where y = False]) (simp_all add: switch_held(1)[OF k False])
next
  case True
  obtain m u where m:
    "xPortPendSVHandler s = Some (s\<lparr>PENDSVSET := False, xYieldPending := False, lists := m, pxCurrentTCB := u\<rparr>)"
    "hd (line (lists s) (pxReadyTasksLists (top_priority s))) = xGenericListItem u"
    "ready s u" "uxPriority s u = top_priority s"
    "kernel_ok idle (s\<lparr>PENDSVSET := False, xYieldPending := False, lists := m, pxCurrentTCB := u\<rparr>)"
    "line m = (line (lists s))(pxReadyTasksLists (top_priority s) :=
       rotate1 (line (lists s) (pxReadyTasksLists (top_priority s))))"
    "pvContainer m = pvContainer (lists s)" "xItemValue m = xItemValue (lists s)"
    by (rule switch_ok[OF k True])
  let ?s = "s\<lparr>PENDSVSET := False, xYieldPending := False, lists := m, pxCurrentTCB := u\<rparr>"
  have "top_ok ?s"
    using top_priority(2)[OF running_core[OF kernel_okD(1)[OF k]]] m(4,7) by (simp add: top_ok_def)
  moreover have "sleeps_on 0 s ?s t" if "asleep s t" for t
    by (rule sleeps_on_kept[OF that]) (use m(7,8) in \<open>simp_all add: kept_def\<close>)
  ultimately show ?thesis using m(1,5) by (intro exI[of _ ?s] exI[of _ False]) (simp add: act_ok_def)
qed

lemma act_ResumeAll:
  assumes k: "kernel_ok idle s" and a: "allowed idle ResumeAll s"
  shows "\<exists>s' y. act ResumeAll s = Some (s', y) \<and> act_ok idle ResumeAll s s' y"
proof -
  obtain s' b where s': "xTaskResumeAll s = Some (s', b)" "resume_ok idle s s'"
    by (rule xTaskResumeAll_ok[OF k]) (use a in auto)
  then show ?thesis using sleeps_resume[OF k s'(2)]
    by (intro exI[of _ s'] exI[of _ False]) (simp add: act_ok_def resume_ok_def)
qed

lemma act_Block:
  assumes k: "kernel_ok idle s" and b: "may_block idle s"
  shows "w \<noteq> xTickCount s \<Longrightarrow> \<exists>s' y. act (Sleep w) s = Some (s', y) \<and> act_ok idle (Sleep w) s s' y"
    and "n \<noteq> 0 \<Longrightarrow> \<exists>s' y. act (Wait e n) s = Some (s', y) \<and> act_ok idle (Wait e n) s s' y"
    and "n \<noteq> 0 \<Longrightarrow> \<exists>s' y. act (WaitUnordered e v n) s = Some (s', y) \<and> act_ok idle (WaitUnordered e v n) s s' y"
    and "n \<noteq> 0 \<Longrightarrow> n \<noteq> portMAX_DELAY \<Longrightarrow>
      \<exists>s' y. act (WaitRestricted e n) s = Some (s', y) \<and> act_ok idle (WaitRestricted e n) s s' y"
proof -
  note r = kernel_okD(1)[OF k] and bc = conjunct1[OF b] and bi = conjunct2[OF b]
  show "\<exists>s' y. act (Sleep w) s = Some (s', y) \<and> act_ok idle (Sleep w) s s' y" if w: "w \<noteq> xTickCount s"
  proof -
    obtain s' where s': "sleep_until w s = Some s'" "running_ok idle s'" "blocks s s'"
      by (rule sleep_until_ok[OF r bc bi w])
    show ?thesis by (rule act_call[OF call_ok_blocks[OF k s'(2,3) bc], where y = False]) (simp_all add: s'(1))
  qed
  show "\<exists>s' y. act (Wait e n) s = Some (s', y) \<and> act_ok idle (Wait e n) s s' y" if n: "n \<noteq> 0"
  proof -
    obtain s' where s': "vTaskPlaceOnEventList e n s = Some s'" "running_ok idle s'" "blocks s s'"
      by (rule vTaskPlaceOnEventList_ok[OF r bc bi n])
    show ?thesis by (rule act_call[OF call_ok_blocks[OF k s'(2,3) bc], where y = False]) (simp_all add: s'(1))
  qed
  show "\<exists>s' y. act (WaitUnordered e v n) s = Some (s', y) \<and> act_ok idle (WaitUnordered e v n) s s' y" if n: "n \<noteq> 0"
  proof -
    obtain s' where s': "vTaskPlaceOnUnorderedEventList e v n s = Some s'" "running_ok idle s'" "blocks s s'"
      by (rule vTaskPlaceOnUnorderedEventList_ok[OF r bc bi n])
    show ?thesis by (rule act_call[OF call_ok_blocks[OF k s'(2,3) bc], where y = False]) (simp_all add: s'(1))
  qed
  show "\<exists>s' y. act (WaitRestricted e n) s = Some (s', y) \<and> act_ok idle (WaitRestricted e n) s s' y"
    if n: "n \<noteq> 0" "n \<noteq> portMAX_DELAY"
  proof -
    obtain s' where s': "vTaskPlaceOnEventListRestricted e n s = Some s'" "running_ok idle s'" "blocks s s'"
      by (rule vTaskPlaceOnEventListRestricted_ok[OF r bc bi n])
    show ?thesis by (rule act_call[OF call_ok_blocks[OF k s'(2,3) bc], where y = False]) (simp_all add: s'(1))
  qed
qed

lemma act_Wake:
  assumes k: "kernel_ok idle s" and a: "allowed idle (Wake e) s"
  shows "\<exists>s' y. act (Wake e) s = Some (s', y) \<and> act_ok idle (Wake e) s s' y"
proof -
  have e: "line (lists s) (EventList e) \<noteq> []" using a empty_list[OF running_core[OF kernel_okD(1)[OF k]]] by simp
  obtain s' y where s': "xTaskRemoveFromEventList e s = Some (s', y)" "call_ok idle {} s s' y"
    by (rule xTaskRemoveFromEventList_ok[OF k e, where T = "{}" and y' = False]) (rule that, assumption, erule call_ok_strong)
  show ?thesis by (rule act_call[of _ _ _ s' y]) (use s' in simp_all)
qed

lemma act_WakeUnordered:
  assumes k: "kernel_ok idle s" and a: "allowed idle (WakeUnordered t v) s"
  shows "\<exists>s' y. act (WakeUnordered t v) s = Some (s', y) \<and> act_ok idle (WakeUnordered t v) s s' y"
proof -
  obtain e where e: "container (xEventListItem t) s = Some (EventList e)"
    using a by (auto split: option.splits list_id.splits)
  obtain s' y where s': "xTaskRemoveFromUnorderedEventList (xEventListItem t) v s = Some (s', y)" "call_ok idle {} s s' y"
    by (rule xTaskRemoveFromUnorderedEventList_ok[OF k e, where T = "{}" and y' = False]) (rule that, assumption, erule call_ok_strong)
  show ?thesis by (rule act_call[of _ _ _ s' y]) (use s' in simp_all)
qed

lemma act_Tasks:
  assumes k: "kernel_ok idle s"
  shows "allowed idle (Suspend h) s \<Longrightarrow> \<exists>s' y. act (Suspend h) s = Some (s', y) \<and> act_ok idle (Suspend h) s s' y"
    and "allowed idle (Delete h) s \<Longrightarrow> \<exists>s' y. act (Delete h) s = Some (s', y) \<and> act_ok idle (Delete h) s s' y"
    and "\<exists>s' y. act (Resume t) s = Some (s', y) \<and> act_ok idle (Resume t) s s' y"
    and "allowed idle (ResumeFromISR t) s \<Longrightarrow>
      \<exists>s' y. act (ResumeFromISR t) s = Some (s', y) \<and> act_ok idle (ResumeFromISR t) s s' y"
    and "allowed idle (Create t p) s \<Longrightarrow> \<exists>s' y. act (Create t p) s = Some (s', y) \<and> act_ok idle (Create t p) s s' y"
proof -
  show "\<exists>s' y. act (Suspend h) s = Some (s', y) \<and> act_ok idle (Suspend h) s s' y" if a: "allowed idle (Suspend h) s"
  proof -
    obtain s' where s': "vTaskSuspend h s = Some s'" "call_ok idle {prvGetTCBFromHandle h s} s s' False"
      by (rule vTaskSuspend_ok[OF k, of h]) (use a in auto)
    show ?thesis by (rule act_call[of _ _ _ s' False]) (use s' in simp_all)
  qed
  show "\<exists>s' y. act (Delete h) s = Some (s', y) \<and> act_ok idle (Delete h) s s' y" if a: "allowed idle (Delete h) s"
  proof -
    obtain s' where s': "vTaskDelete h s = Some s'" "call_ok idle {prvGetTCBFromHandle h s} s s' False"
      by (rule vTaskDelete_ok[OF k, of h]) (use a in auto)
    show ?thesis by (rule act_call[of _ _ _ s' False]) (use s' in simp_all)
  qed
  show "\<exists>s' y. act (Resume t) s = Some (s', y) \<and> act_ok idle (Resume t) s s' y"
  proof -
    obtain s' where s': "vTaskResume t s = Some s'" "call_ok idle {} s s' False" by (rule vTaskResume_ok[OF k])
    show ?thesis by (rule act_call[of _ _ _ s' False]) (use s' in simp_all)
  qed
  show "\<exists>s' y. act (ResumeFromISR t) s = Some (s', y) \<and> act_ok idle (ResumeFromISR t) s s' y"
    if a: "allowed idle (ResumeFromISR t) s"
  proof -
    obtain s' y where s': "xTaskResumeFromISR t s = Some (s', y)" "call_ok idle {} s s' y"
      by (rule xTaskResumeFromISR_ok[OF k, of t]) (use a in auto)
    show ?thesis by (rule act_call[of _ _ _ s' y]) (use s' in simp_all)
  qed
  show "\<exists>s' y. act (Create t p) s = Some (s', y) \<and> act_ok idle (Create t p) s s' y" if a: "allowed idle (Create t p) s"
  proof (cases "t = NULL")
    case True
    show ?thesis
      by (rule act_call[OF call_ok_same[OF k], where y = False]) (use True in \<open>simp_all add: xTaskGenericCreate_def\<close>)
  next
    case False
    obtain s' where s': "xTaskGenericCreate t p s = (s', True)" "call_ok idle {} s s' False"
      by (rule xTaskGenericCreate_ok[OF k _ False]) (use a in auto)
    show ?thesis by (rule act_call[of _ _ _ s' False]) (use s' in simp_all)
  qed
qed

lemma act_Priorities:
  assumes k: "kernel_ok idle s"
  shows "allowed idle (PrioritySet h p) s \<Longrightarrow>
      \<exists>s' y. act (PrioritySet h p) s = Some (s', y) \<and> act_ok idle (PrioritySet h p) s s' y"
    and "allowed idle (Inherit t) s \<Longrightarrow> \<exists>s' y. act (Inherit t) s = Some (s', y) \<and> act_ok idle (Inherit t) s s' y"
    and "\<exists>s' y. act TakeMutex s = Some (s', y) \<and> act_ok idle TakeMutex s s' y"
    and "allowed idle Disinherit s \<Longrightarrow> \<exists>s' y. act Disinherit s = Some (s', y) \<and> act_ok idle Disinherit s s' y"
proof -
  show "\<exists>s' y. act (PrioritySet h p) s = Some (s', y) \<and> act_ok idle (PrioritySet h p) s s' y"
    if a: "allowed idle (PrioritySet h p) s"
  proof -
    obtain s' where s': "vTaskPrioritySet h p s = Some s'" "call_ok idle {} s s' False"
      by (rule vTaskPrioritySet_ok[OF k, of h]) (use a in auto)
    show ?thesis by (rule act_call[of _ _ _ s' False]) (use s' in simp_all)
  qed
  show "\<exists>s' y. act (Inherit t) s = Some (s', y) \<and> act_ok idle (Inherit t) s s' y" if a: "allowed idle (Inherit t) s"
  proof -
    obtain s' where s': "vTaskPriorityInherit t s = Some s'" "call_ok idle {} s s' False"
      by (rule vTaskPriorityInherit_ok[OF k, of t]) (use a in auto)
    show ?thesis by (rule act_call[of _ _ _ s' False]) (use s' in simp_all)
  qed
  show "\<exists>s' y. act TakeMutex s = Some (s', y) \<and> act_ok idle TakeMutex s s' y"
  proof (rule act_call)
    show "call_ok idle (targets TakeMutex s) s (fst (pvTaskIncrementMutexHeldCount s)) False"
      using k by (simp add: pvTaskIncrementMutexHeldCount_def Let_def call_ok_def top_ok_def kept_def)
  qed simp_all
  show "\<exists>s' y. act Disinherit s = Some (s', y) \<and> act_ok idle Disinherit s s' y" if a: "allowed idle Disinherit s"
  proof -
    obtain s' y where s': "xTaskPriorityDisinherit (pxCurrentTCB s) s = Some (s', y)" "call_ok idle {} s s' y"
      by (rule xTaskPriorityDisinherit_ok[OF k, of "pxCurrentTCB s"]) (use a in auto)
    show ?thesis by (rule act_call[of _ _ _ s' y]) (use s' in simp_all)
  qed
qed

lemma act_Small:
  assumes k: "kernel_ok idle s"
  shows "\<exists>s' y. act Yield s = Some (s', y) \<and> act_ok idle Yield s s' y"
    and "\<exists>s' y. act MissedYield s = Some (s', y) \<and> act_ok idle MissedYield s s' y"
    and "allowed idle SuspendAll s \<Longrightarrow> \<exists>s' y. act SuspendAll s = Some (s', y) \<and> act_ok idle SuspendAll s s' y"
    and "allowed idle Reap s \<Longrightarrow> \<exists>s' y. act Reap s = Some (s', y) \<and> act_ok idle Reap s s' y"
    and "allowed idle (StepTick n) s \<Longrightarrow>
      \<exists>s' y. act (StepTick n) s = Some (s', y) \<and> act_ok idle (StepTick n) s s' y"
proof -
  show "\<exists>s' y. act Yield s = Some (s', y) \<and> act_ok idle Yield s s' y"
    by (rule act_call[OF call_ok_yield[OF call_ok_same[OF k]], where y = False]) simp_all
  show "\<exists>s' y. act MissedYield s = Some (s', y) \<and> act_ok idle MissedYield s s' y"
    by (rule act_call[OF call_ok_pending[OF call_ok_same[OF k]], where y = False]) (simp_all add: vTaskMissedYield_def)
  show "\<exists>s' y. act SuspendAll s = Some (s', y) \<and> act_ok idle SuspendAll s s' y" if "allowed idle SuspendAll s"
    by (rule act_call[OF vTaskSuspendAll_ok[OF k], where y = False]) (use that in simp_all)
  show "\<exists>s' y. act Reap s = Some (s', y) \<and> act_ok idle Reap s s' y" if a: "allowed idle Reap s"
  proof -
    have sus: "uxSchedulerSuspended s = 0" and c: "ready s (pxCurrentTCB s)"
      using a running_idle[OF kernel_okD(1)[OF k]] by simp_all
    obtain s' where s': "prvCheckTasksWaitingTermination s = Some s'" "kernel_ok idle s'" "top_ok s \<Longrightarrow> top_ok s'"
      "\<And>t. live s t \<Longrightarrow> kept s s' t" "\<And>t. t \<in> allocated s' \<longleftrightarrow> live s t" "pxCurrentTCB s' = pxCurrentTCB s"
      "uxPriority s' = uxPriority s" "uxPendedTicks s' = uxPendedTicks s" "xTickCount s' = xTickCount s"
      "uxTasksDeleted s' = 0"
      by (rule prvCheckTasksWaitingTermination_ok[OF k sus c]) blast
    have "sleeps_on 0 s s' t" if t: "asleep s t" for t
    proof (rule sleeps_on_kept[OF t s'(4)])
      show "live s t"
        using t placedD(1)[OF core_placed[OF running_core[OF kernel_okD(1)[OF k]]], of t]
        by (auto simp: asleep_def delayed_def live_def)
    qed (use s' in simp_all)
    then show ?thesis using s'(1-3) by (intro exI[of _ s'] exI[of _ False]) (simp add: act_ok_def)
  qed
  show "\<exists>s' y. act (StepTick n) s = Some (s', y) \<and> act_ok idle (StepTick n) s s' y" if a: "allowed idle (StepTick n) s"
  proof -
    note d = running_delays[OF kernel_okD(1)[OF k]]
    have n: "n < xNextTaskUnblockTime s - xTickCount s" using a by simp
    have "sleeps_on (unat n) s (vTaskStepTick n s) t" if t: "asleep s t" for t
    proof -
      have le: "xTickCount s \<le> xNextTaskUnblockTime s" using delays_next[OF d] by (auto simp: max_delay_ge)
      have lt: "n < wake_time s t - xTickCount s"
      proof (cases "container (xGenericListItem t) s = Some (pxDelayedTaskList s)")
        case True
        then have "xNextTaskUnblockTime s \<le> wake_time s t" "xTickCount s < wake_time s t"
          using delays_current[OF d] by blast+
        then have "xNextTaskUnblockTime s - xTickCount s \<le> wake_time s t - xTickCount s"
          using le by (simp add: word_le_nat_alt word_less_nat_alt unat_sub)
        then show ?thesis using n by simp
      next
        case False
        then have w: "wake_time s t < xTickCount s"
          using delays_overflow[OF d, of t] t delayed_iff[OF delays_lists[OF d], of t] by (auto simp: asleep_def)
        have u: "unat (x :: 32 word) < 4294967296" for x by (rule order.strict_trans2[OF unsigned_less]) simp
        have "unat (wake_time s t - xTickCount s) = 4294967296 + unat (wake_time s t) - unat (xTickCount s)"
          using w unat_sub_if'[of "wake_time s t" "xTickCount s"] by (simp add: word_less_nat_alt)
        moreover have "unat (xNextTaskUnblockTime s - xTickCount s) = unat (xNextTaskUnblockTime s) - unat (xTickCount s)"
          using le by (rule unat_sub)
        ultimately show ?thesis
          using n u[of "xNextTaskUnblockTime s"] u[of "xTickCount s"] by (simp add: word_less_nat_alt)
      qed
      have "remaining (vTaskStepTick n s) t = unat ((wake_time s t - xTickCount s) - n)"
        by (simp add: remaining_def vTaskStepTick_def algebra_simps)
      also have "\<dots> = remaining s t - unat n" using lt by (simp add: unat_sub remaining_def)
      finally have "remaining (vTaskStepTick n s) t = remaining s t - unat n" .
      moreover have "unat n \<le> remaining s t" using lt by (simp add: remaining_def word_less_nat_alt)
      ultimately have "int (remaining (vTaskStepTick n s) t) = int (remaining s t) - int (unat n)" by linarith
      then show ?thesis
        using t by (simp add: sleeps_on_def to_go_def asleep_def delayed_def vTaskStepTick_def)
    qed
    then show ?thesis using vTaskStepTick_ok[OF k n]
      by (intro exI[of _ "vTaskStepTick n s"] exI[of _ False]) (simp add: act_ok_def)
  qed
qed

lemma act_safe:
  assumes k: "kernel_ok idle s" and a: "allowed idle a s"
  obtains s' y where "act a s = Some (s', y)" "act_ok idle a s s' y"
proof -
  have "\<exists>s' y. act a s = Some (s', y) \<and> act_ok idle a s s' y"
  proof (cases a)
    case Tick
    show ?thesis using a unfolding Tick by (rule act_Tick[OF k])
  next
    case Switch
    show ?thesis unfolding Switch by (rule act_Switch[OF k])
  next
    case Yield
    show ?thesis unfolding Yield by (rule act_Small(1)[OF k])
  next
    case MissedYield
    show ?thesis unfolding MissedYield by (rule act_Small(2)[OF k])
  next
    case SuspendAll
    show ?thesis using a unfolding SuspendAll by (rule act_Small(3)[OF k])
  next
    case ResumeAll
    show ?thesis using a unfolding ResumeAll by (rule act_ResumeAll[OF k])
  next
    case (Wake e)
    show ?thesis using a unfolding Wake by (rule act_Wake[OF k])
  next
    case (WakeUnordered t v)
    show ?thesis using a unfolding WakeUnordered by (rule act_WakeUnordered[OF k])
  next
    case (Suspend h)
    show ?thesis using a unfolding Suspend by (rule act_Tasks(1)[OF k])
  next
    case (Resume t)
    show ?thesis unfolding Resume by (rule act_Tasks(3)[OF k])
  next
    case (ResumeFromISR t)
    show ?thesis using a unfolding ResumeFromISR by (rule act_Tasks(4)[OF k])
  next
    case (PrioritySet h p)
    show ?thesis using a unfolding PrioritySet by (rule act_Priorities(1)[OF k])
  next
    case (Inherit t)
    show ?thesis using a unfolding Inherit by (rule act_Priorities(2)[OF k])
  next
    case TakeMutex
    show ?thesis unfolding TakeMutex by (rule act_Priorities(3)[OF k])
  next
    case Disinherit
    show ?thesis using a unfolding Disinherit by (rule act_Priorities(4)[OF k])
  next
    case (Create t p)
    show ?thesis using a unfolding Create by (rule act_Tasks(5)[OF k])
  next
    case (Delete h)
    show ?thesis using a unfolding Delete by (rule act_Tasks(2)[OF k])
  next
    case Reap
    show ?thesis using a unfolding Reap by (rule act_Small(4)[OF k])
  next
    case (StepTick n)
    show ?thesis using a unfolding StepTick by (rule act_Small(5)[OF k])
  next
    case (Sleep w)
    then show ?thesis using act_Block(1)[OF k, of w] a by simp
  next
    case (Wait e n)
    then show ?thesis using act_Block(2)[OF k, of n e] a by simp
  next
    case (WaitUnordered e v n)
    then show ?thesis using act_Block(3)[OF k, of n e v] a by simp
  next
    case (WaitRestricted e n)
    then show ?thesis using act_Block(4)[OF k, of n e] a by simp
  qed
  then show ?thesis using that by blast
qed

section \<open>The states that can be reached\<close>

text \<open>Tasks are created before the scheduler starts, in any number.\<close>

inductive set_up :: "sched \<Rightarrow> bool" where
  boot: "boot s \<Longrightarrow> set_up s"
| create: "set_up s \<Longrightarrow> t \<notin> allocated s \<Longrightarrow> set_up (fst (xTaskGenericCreate t p s))"

text \<open>
  With \<open>obey\<close>, callers yield when a call tells them to; without it they may. They may yield at any time.
\<close>

inductive reachable :: "tcb \<Rightarrow> bool \<Rightarrow> sched \<Rightarrow> bool" for idle obey where
  start: "set_up s \<Longrightarrow> idle \<notin> allocated s \<Longrightarrow> timer \<notin> allocated s \<Longrightarrow> idle \<noteq> NULL \<Longrightarrow> timer \<noteq> NULL \<Longrightarrow>
    timer \<noteq> idle \<Longrightarrow> reachable idle obey (vTaskStartScheduler idle True timer s)"
| step: "reachable idle obey s \<Longrightarrow> allowed idle a s \<Longrightarrow> act a s = Some (s', y) \<Longrightarrow> (y \<and> obey \<longrightarrow> b) \<Longrightarrow>
    reachable idle obey (if b then portYIELD_WITHIN_API s' else s')"

lemma set_up_ok: "set_up s \<Longrightarrow> boot s \<or> starting s"
proof (induction rule: set_up.induct)
  case (create s t p)
  show ?case
  proof (cases "t = NULL")
    case True
    then show ?thesis using create.IH by (simp add: xTaskGenericCreate_def)
  next
    case False
    from create.IH show ?thesis
    proof
      assume "boot s"
      then show ?thesis using create_first[OF _ False] by (metis fst_conv)
    next
      assume "starting s"
      then show ?thesis using create_next[OF _ create.hyps(2) False] by (metis fst_conv)
    qed
  qed
qed simp

lemma reachable_ok: "reachable idle obey s \<Longrightarrow> kernel_ok idle s \<and> (obey \<longrightarrow> top_ok s)"
proof (induction rule: reachable.induct)
  case (start s timer)
  then show ?case using vTaskStartScheduler_ok[OF set_up_ok[OF start(1)]] by simp
next
  case (step s a s' y b)
  obtain s1 y1 where s1: "act a s = Some (s1, y1)" "act_ok idle a s s1 y1"
    by (rule act_safe[OF conjunct1[OF step.IH] step.hyps(2)])
  then have e: "s1 = s'" "y1 = y" using step.hyps(3) by simp_all
  have "kernel_ok idle s'" "obey \<longrightarrow> y \<or> top_ok s'" using s1(2) step.IH unfolding e act_ok_def by blast+
  then show ?case using step.hyps(4) by (auto simp: portYIELD_WITHIN_API_def top_ok_def)
qed

end
