(* ===== verification/SchedProps.thy ===== *)
theory SchedProps
  imports SchedActs
begin

section \<open>A concrete start\<close>

definition boot_state :: sched where
  "boot_state = \<lparr>lists = \<lparr>xItemValue = \<lambda>_. portMAX_DELAY, pxNext = \<lambda>n. n, pxPrevious = \<lambda>n. n,
       pvContainer = \<lambda>_. None, pxIndex = End, uxNumberOfItems = \<lambda>_. 0\<rparr>,
     uxPriority = \<lambda>_. 0, uxBasePriority = \<lambda>_. 0, uxMutexesHeld = \<lambda>_. 0, allocated = {}, pxCurrentTCB = NULL,
     pxDelayedTaskList = xDelayedTaskList1, pxOverflowDelayedTaskList = xDelayedTaskList2,
     uxCurrentNumberOfTasks = 0, xTickCount = 0, uxTopReadyPriority = 0, xSchedulerRunning = False,
     uxPendedTicks = 0, xYieldPending = False, xNumOfOverflows = 0, uxTaskNumber = 0,
     xNextTaskUnblockTime = portMAX_DELAY, uxSchedulerSuspended = 0, uxTasksDeleted = 0, PENDSVSET = False\<rparr>"

lemma boot_state: "boot boot_state"
proof -
  have r: "ring (lists boot_state) l []" for l by (simp add: ring_def boot_state_def)
  have "fresh_list (lists boot_state) l" for l
    using list_okI[OF r[of l]] by (simp add: fresh_list_def boot_state_def)
  then show ?thesis by (simp add: boot_def boot_state_def)
qed

definition started_state :: sched where
  "started_state = vTaskStartScheduler 1 True 2 boot_state"

lemma started_reachable: "reachable 1 obey started_state"
  unfolding started_state_def
  by (rule reachable.start[OF set_up.boot[OF boot_state]]) (simp_all add: boot_state_def)

lemma started_fields:
  "pxCurrentTCB started_state = 2" "uxPriority started_state 2 = 5" "uxPriority started_state 1 = 0"
  "ready started_state 2" "ready started_state 1" "uxSchedulerSuspended started_state = 0" "xTickCount started_state = 0"
  "allocated started_state = {1, 2}" "uxPendedTicks started_state = 0"
proof -
  obtain s1 where s1: "xTaskGenericCreate 1 0 boot_state = (s1, True)" "starting s1" "allocated s1 = {1}"
    "uxPriority s1 1 = clamped 0"
    by (rule create_first[OF boot_state, of 1 0]) simp_all
  have c1: "pxCurrentTCB s1 = 1" "ready s1 1" using s1(2,3) by (auto simp: starting_def)
  obtain s2 where s2: "xTaskGenericCreate 2 5 s1 = (s2, True)" "starting s2" "allocated s2 = insert 2 (allocated s1)"
    "uxPriority s2 = (uxPriority s1)(2 := clamped 5)" "\<And>u. ready s1 u \<Longrightarrow> ready s2 u" "ready s2 2"
    by (rule create_next[OF s1(2), of 2 5]) (use s1(3) in auto)
  have p: "uxPriority s2 2 = 5" "uxPriority s2 1 = 0" using s2(4) s1(4) by simp_all
  have "uxPriority s2 2 \<le> uxPriority s2 (pxCurrentTCB s2)" "pxCurrentTCB s2 \<in> {1, 2}"
    using s2(2,3,6) s1(3) unfolding starting_def by blast+
  then have c: "pxCurrentTCB s2 = 2" using p by auto
  have e: "started_state = s2\<lparr>xSchedulerRunning := True, xTickCount := 0\<rparr>"
    using s1(1) s2(1) by (simp add: started_state_def vTaskStartScheduler_def)
  show "pxCurrentTCB started_state = 2" "uxPriority started_state 2 = 5" "uxPriority started_state 1 = 0"
    "ready started_state 2" "ready started_state 1" "uxSchedulerSuspended started_state = 0" "xTickCount started_state = 0"
    "allocated started_state = {1, 2}" "uxPendedTicks started_state = 0"
    unfolding e using c p s2(6) s2(5)[OF c1(2)] s2(2,3) s1(3) by (auto simp: starting_def)
qed

section \<open>No step faults\<close>

text \<open>C9: The kernel neither faults nor hangs. Tasks are created, the scheduler starts with the idle task and the
  task of the timers (both are allocated, at two addresses not in use), and then tasks and interrupts act in any order and number; a delay is
  the suspension of the scheduler, the step \<open>Sleep\<close>, its resumption and a yield. Then every call that keeps the rules of the
  interface returns (all list walks end, no list is asked for an item it does not hold), and the invariant of the kernel holds
  after it. The rules are \<open>allowed\<close>: neither the count of held-back ticks nor the nesting of suspensions overflows; the switch runs
  when it was requested; \<open>xTaskResumeAll\<close> matches a suspension; a task that blocks is ready and is not the idle task, its
  wait is not zero, and not without limit in \<open>vTaskPlaceOnEventListRestricted\<close>; a task is woken from an event list
  that holds one; suspended and deleted are only tasks that exist, are not deleted and are not the idle task; the priority of a task is set,
  inherited, or the task resumed from an interrupt, while it is allocated; the priority is disinherited by the current task when it is
  ready; a task is created at an address not in use (or there is no memory for it); the idle task frees deleted tasks while the scheduler runs; and the ticks
  stepped over are fewer than those to the next wake time.\<close>

theorem kernel_steps_on:
  assumes "reachable idle obey s" "allowed idle a s"
  shows "\<exists>s' y. act a s = Some (s', y) \<and> kernel_ok idle s'"
  using act_safe[OF conjunct1[OF reachable_ok[OF assms(1)]] assms(2)] by (metis act_ok_def)

lemma kernel_steps_on_witness: "\<exists>s' y. act (Suspend 2) started_state = Some (s', y) \<and> kernel_ok 1 s'"
  by (rule kernel_steps_on[OF started_reachable[of False]])
    (use started_fields in \<open>auto simp: live_def prvGetTCBFromHandle_def\<close>)

text \<open>The data type of the kernel: what its lists and its bit map mean.\<close>

definition kernel_typed :: "sched \<Rightarrow> bool" where
  "kernel_typed s \<longleftrightarrow>
     (\<forall>l. list_ok (lists s) l \<and> distinct (line (lists s) l)) \<and>
     (\<forall>t \<in> allocated s. \<exists>!l. state_list l \<and> xGenericListItem t \<in> set (line (lists s) l)) \<and>
     (\<forall>t p. xGenericListItem t \<in> set (line (lists s) (pxReadyTasksLists p)) \<longrightarrow> uxPriority s t = p \<and> p < 11) \<and>
     (\<forall>t l. xEventListItem t \<in> set (line (lists s) l) \<longrightarrow> \<not> state_list l \<and>
        (\<exists>k \<in> {xDelayedTaskList1, xDelayedTaskList2, xSuspendedTaskList}. xGenericListItem t \<in> set (line (lists s) k))) \<and>
     (\<forall>p. line (lists s) (pxReadyTasksLists p) \<noteq> [] \<longleftrightarrow> p < 11 \<and> bit (uxTopReadyPriority s) (unat p)) \<and>
     sorted (map (\<lambda>i. item_value i s) (line (lists s) (pxDelayedTaskList s))) \<and>
     (\<forall>t. xGenericListItem t \<in> set (line (lists s) (pxDelayedTaskList s)) \<longrightarrow> xTickCount s < wake_time s t)"

text \<open>C10: In every state the kernel reaches by steps that keep the rules of \<open>allowed\<close> (the property \<open>kernel_steps_on\<close> has them), its
  lists are well formed: each list is a ring with the right
  count and no item twice; each task that was created and not freed is on exactly one list of states; the tasks of
  a ready list have its priority; a task whose event item is on a list is blocked, and that list is an event list or
  the list of tasks woken while the scheduler was suspended; a bit of \<open>uxTopReadyPriority\<close> is set exactly when the
  ready list of that priority is not empty; the delayed list is in the order of wake times, all of them to come.\<close>

theorem kernel_lists_typed:
  assumes "reachable idle obey s"
  shows "kernel_typed s"
  unfolding kernel_typed_def
proof (intro conjI allI ballI impI)
  note r = kernel_okD(1)[OF conjunct1[OF reachable_ok[OF assms]]]
  note c = running_core[OF r] and d = running_delays[OF r]
  note on = line_set[OF c]
  show "list_ok (lists s) l" "distinct (line (lists s) l)" for l
    using lists_okD[OF core_lists[OF c]] line_distinct[OF c] by blast+
  show "\<exists>!l. state_list l \<and> xGenericListItem t \<in> set (line (lists s) l)" if t: "t \<in> allocated s" for t
  proof -
    obtain l where l: "container (xGenericListItem t) s = Some l"
      using core_task[OF c t] by (auto simp: task_ok_def split: option.splits)
    then show ?thesis using placedD(1)[OF core_placed[OF c] l] unfolding on by auto
  qed
  show "uxPriority s t = p" "p < 11" if w: "xGenericListItem t \<in> set (line (lists s) (pxReadyTasksLists p))" for t p
    using ready_priority[OF c, of t p] core_priority[OF c, of t] placedD(1)[OF core_placed[OF c], of t] w
    unfolding on by simp_all
  show "\<not> state_list l"
    "\<exists>k \<in> {xDelayedTaskList1, xDelayedTaskList2, xSuspendedTaskList}. xGenericListItem t \<in> set (line (lists s) k)"
    if w: "xEventListItem t \<in> set (line (lists s) l)" for t l
  proof -
    have e: "container (xEventListItem t) s = Some l" using w unfolding on .
    then show "\<not> state_list l" using placedD(2)[OF core_placed[OF c]] by simp
    obtain k where "container (xGenericListItem t) s = Some k" "blocked_list k" by (rule waiting_blocked[OF c e])
    then show "\<exists>k \<in> {xDelayedTaskList1, xDelayedTaskList2, xSuspendedTaskList}. xGenericListItem t \<in> set (line (lists s) k)"
      unfolding on blocked_list_def by auto
  qed
  show "line (lists s) (pxReadyTasksLists p) \<noteq> [] \<longleftrightarrow> p < 11 \<and> bit (uxTopReadyPriority s) (unat p)" for p
    by (rule bits_okD(1)[OF core_bits[OF c]])
  show "sorted (map (\<lambda>i. item_value i s) (line (lists s) (pxDelayedTaskList s)))"
    using delays_order(1)[OF d] by (simp add: in_time_order_def)
  show "xTickCount s < wake_time s t" if "xGenericListItem t \<in> set (line (lists s) (pxDelayedTaskList s))" for t
    using delays_current[OF d, of t] that unfolding on by simp
qed

lemma kernel_lists_typed_witness: "kernel_typed started_state"
  by (rule kernel_lists_typed[OF started_reachable[of False]])

section \<open>Priorities\<close>

text \<open>C11: The scheduler is preemptive. In states reached by steps that keep the rules of \<open>allowed\<close>, and while callers yield when a call
  returns that they should, a task of a higher priority than
  the current one is never ready unless a switch is pending (\<open>PENDSVSET\<close>) or noted (\<open>xYieldPending\<close>), and after a tick that comes
  while the scheduler is not suspended the switch has been requested from the processor.\<close>

theorem kernel_preempts:
  assumes "reachable idle True s" "allowed idle a s" "act a s = Some (s', y)" "y \<longrightarrow> b"
    "s'' = (if b then portYIELD_WITHIN_API s' else s')"
  shows "(PENDSVSET s'' \<or> xYieldPending s'' \<or> (\<forall>t. ready s'' t \<longrightarrow> uxPriority s'' t \<le> uxPriority s'' (pxCurrentTCB s''))) \<and>
    (a = Tick \<longrightarrow> uxSchedulerSuspended s = 0 \<longrightarrow>
       PENDSVSET s'' \<or> (\<forall>t. ready s'' t \<longrightarrow> uxPriority s'' t \<le> uxPriority s'' (pxCurrentTCB s'')))"
proof -
  have "reachable idle True s''" unfolding assms(5) by (rule reachable.step[OF assms(1-3)]) (use assms(4) in simp)
  then have "top_ok s''" using reachable_ok by blast
  moreover have "PENDSVSET s'' \<or> (\<forall>t. ready s'' t \<longrightarrow> uxPriority s'' t \<le> uxPriority s'' (pxCurrentTCB s''))"
    if a: "a = Tick" "uxSchedulerSuspended s = 0"
  proof -
    note k = reachable_ok[OF assms(1)]
    obtain u where u: "xPortSysTickHandler s = Some u" "passed 1 s u"
      "top_ok s \<Longrightarrow> PENDSVSET u \<or> (\<forall>t. ready u t \<longrightarrow> uxPriority s t \<le> uxPriority s (pxCurrentTCB s))"
      by (rule tick_counted[OF conjunct1[OF k] a(2)]) blast
    have e: "u = s'" using assms(3) a(1) u(1) by simp
    show ?thesis
    proof (cases b)
      case True
      then show ?thesis using assms(5) by (simp add: portYIELD_WITHIN_API_def)
    next
      case False
      then show ?thesis using u(3) k passed_fields(1,2)[OF u(2)] assms(5) unfolding e by simp
    qed
  qed
  ultimately show ?thesis unfolding top_ok_def by blast
qed

lemma kernel_preempts_witness:
  "\<exists>s'. act Tick started_state = Some (s', False) \<and>
     (PENDSVSET s' \<or> (\<forall>t. ready s' t \<longrightarrow> uxPriority s' t \<le> uxPriority s' (pxCurrentTCB s')))"
proof -
  note r = started_reachable[of True]
  have a: "allowed 1 Tick started_state" using started_fields by simp
  obtain s' y where s': "act Tick started_state = Some (s', y)"
    by (rule act_safe[OF conjunct1[OF reachable_ok[OF r]] a])
  then have y: "\<not> y" by (auto simp: quiet_def)
  show ?thesis
    using kernel_preempts[OF r a s', of False s'] s' y started_fields(6) by (intro exI[of _ s']) simp
qed

text \<open>A supply that hands out the items of a line in turn.\<close>

fun repeated :: "('s \<Rightarrow> 's option) \<Rightarrow> nat \<Rightarrow> 's \<Rightarrow> 's option" where
  "repeated f 0 s = Some s"
| "repeated f (Suc k) s = repeated f k s \<bind> f"

locale turns =
  fixes ok :: "'s \<Rightarrow> bool" and take_next :: "'s \<Rightarrow> 's option" and taken :: "'s \<Rightarrow> 'i" and queue :: "'s \<Rightarrow> 'i list"
  assumes turn: "ok s \<Longrightarrow> \<exists>s'. take_next s = Some s' \<and> ok s' \<and> taken s' = hd (queue s) \<and> queue s' = rotate1 (queue s)"
begin

lemma rotates: "ok s \<Longrightarrow> \<exists>s'. repeated take_next k s = Some s' \<and> ok s' \<and> queue s' = rotate k (queue s)"
proof (induction k)
  case (Suc k)
  then obtain s1 where s1: "repeated take_next k s = Some s1" "ok s1" "queue s1 = rotate k (queue s)" by blast
  then show ?case using turn[OF s1(2)] by auto
qed simp

lemma taken_in_turn:
  assumes "ok s" "queue s \<noteq> []"
  shows "\<exists>s'. repeated take_next (Suc k) s = Some s' \<and> taken s' = queue s ! (k mod length (queue s))"
proof -
  obtain s1 where s1: "repeated take_next k s = Some s1" "ok s1" "queue s1 = rotate k (queue s)"
    using rotates[OF assms(1)] by blast
  then show ?thesis using turn[OF s1(2)] hd_rotate_conv_nth[OF assms(2), of k] by auto
qed

end

text \<open>A switch hands the processor to the ready tasks of the highest priority in turn.\<close>

definition switch_ready :: "tcb \<Rightarrow> 32 word \<Rightarrow> sched \<Rightarrow> bool" where
  "switch_ready idle p s \<longleftrightarrow> kernel_ok idle s \<and> uxSchedulerSuspended s = 0 \<and> top_priority s = p"

interpretation switching: turns "switch_ready idle p" xPortPendSVHandler "\<lambda>s. xGenericListItem (pxCurrentTCB s)"
  "\<lambda>s. line (lists s) (pxReadyTasksLists p)" for idle p
proof unfold_locales
  fix s
  assume "switch_ready idle p s"
  then have k: "kernel_ok idle s" "uxSchedulerSuspended s = 0" "top_priority s = p" by (simp_all add: switch_ready_def)
  obtain m u where m:
    "xPortPendSVHandler s = Some (s\<lparr>PENDSVSET := False, xYieldPending := False, lists := m, pxCurrentTCB := u\<rparr>)"
    "hd (line (lists s) (pxReadyTasksLists (top_priority s))) = xGenericListItem u"
    "kernel_ok idle (s\<lparr>PENDSVSET := False, xYieldPending := False, lists := m, pxCurrentTCB := u\<rparr>)"
    "line m = (line (lists s))(pxReadyTasksLists (top_priority s) :=
       rotate1 (line (lists s) (pxReadyTasksLists (top_priority s))))"
    by (rule switch_ok[OF k(1,2)]) blast
  show "\<exists>s'. xPortPendSVHandler s = Some s' \<and> switch_ready idle p s' \<and>
    xGenericListItem (pxCurrentTCB s') = hd (line (lists s) (pxReadyTasksLists p)) \<and>
    line (lists s') (pxReadyTasksLists p) = rotate1 (line (lists s) (pxReadyTasksLists p))"
    using m k by (simp add: switch_ready_def top_priority_def)
qed

text \<open>C13: In a state that the kernel reaches by steps that keep the rules of \<open>allowed\<close>, with the scheduler not suspended, there is a ready
  task of the highest priority of all that are ready; and when switches follow each other
  with nothing in between, the tasks of this priority take turns: the first switch takes the one that comes next behind the one
  taken last from this list, each further one the next, so that \<open>n\<close> such tasks are each taken by one of any \<open>n\<close> switches.\<close>

theorem kernel_round_robin:
  assumes "reachable idle obey s" "uxSchedulerSuspended s = 0" "q = line (lists s) (pxReadyTasksLists (top_priority s))"
  shows "q \<noteq> [] \<and> (\<forall>t. xGenericListItem t \<in> set q \<longleftrightarrow> ready s t \<and> (\<forall>u. ready s u \<longrightarrow> uxPriority s u \<le> uxPriority s t)) \<and>
    (\<exists>s'. repeated xPortPendSVHandler (Suc k) s = Some s' \<and> xGenericListItem (pxCurrentTCB s') = q ! (k mod length q))"
proof -
  note k = conjunct1[OF reachable_ok[OF assms(1)]]
  note c = running_core[OF kernel_okD(1)[OF k]] and i = running_idle[OF kernel_okD(1)[OF k]]
  note le = top_priority(2)[OF c]
  have ne: "q \<noteq> []" using top_priority(1)[OF c i] assms(3) by simp
  have "switch_ready idle (top_priority s) s" using k assms(2) by (simp add: switch_ready_def)
  then have sw: "\<exists>s'. repeated xPortPendSVHandler (Suc k) s = Some s' \<and> xGenericListItem (pxCurrentTCB s') = q ! (k mod length q)"
    using switching.taken_in_turn ne unfolding assms(3) by blast
  have on: "xGenericListItem t \<in> set q \<longleftrightarrow> ready s t \<and> uxPriority s t = top_priority s" for t
    using ready_line[OF c, of "xGenericListItem t" "top_priority s"] assms(3) by auto
  obtain t0 where t0: "ready s t0" "uxPriority s t0 = top_priority s"
    using ready_line[OF c, of "hd q" "top_priority s"] ne assms(3) by auto
  have "ready s t \<and> uxPriority s t = top_priority s \<longleftrightarrow> ready s t \<and> (\<forall>u. ready s u \<longrightarrow> uxPriority s u \<le> uxPriority s t)" for t
    using le t0 by (metis order_antisym)
  then show ?thesis using ne on sw by blast
qed

lemma kernel_round_robin_witness:
  "\<exists>s'. repeated xPortPendSVHandler (Suc 1) started_state = Some s' \<and>
     xGenericListItem (pxCurrentTCB s') =
       (let q = line (lists started_state) (pxReadyTasksLists (top_priority started_state)) in q ! (1 mod length q))"
  using kernel_round_robin[OF started_reachable[of False] started_fields(6) refl, of 1]
  unfolding Let_def by blast

section \<open>Time\<close>

text \<open>Steps while the task \<open>t\<close> sleeps, none of which suspends or deletes it, with the time they take.\<close>

inductive passes :: "tcb \<Rightarrow> tcb \<Rightarrow> nat \<Rightarrow> sched \<Rightarrow> sched \<Rightarrow> bool" for idle t where
  none: "passes idle t 0 s s"
| more: "passes idle t k s s' \<Longrightarrow> asleep s' t \<Longrightarrow> allowed idle a s' \<Longrightarrow> t \<notin> targets a s' \<Longrightarrow> act a s' = Some (u, y) \<Longrightarrow>
    passes idle t (k + elapsed a) s (if b then portYIELD_WITHIN_API u else u)"

lemma yield_fields [simp]:
  "asleep (portYIELD_WITHIN_API s) = asleep s" "to_go (portYIELD_WITHIN_API s) = to_go s"
  "uxSchedulerSuspended (portYIELD_WITHIN_API s) = uxSchedulerSuspended s" "lists (portYIELD_WITHIN_API s) = lists s"
  "uxPriority (portYIELD_WITHIN_API s) = uxPriority s" "kernel_ok idle (portYIELD_WITHIN_API s) = kernel_ok idle s"
  by (simp_all add: portYIELD_WITHIN_API_def asleep_def delayed_def to_go_def remaining_def fun_eq_iff)

lemma passes_sleep:
  assumes "passes idle t k s s'" "kernel_ok idle s" "asleep s t"
  shows "kernel_ok idle s' \<and> (asleep s' t \<and> to_go s' t = to_go s t - int k \<or>
    ready s' t \<and> uxSchedulerSuspended s' = 0 \<and> to_go s t \<le> int k)"
  using assms
proof (induction rule: passes.induct)
  case (more k s s' a u y b)
  have k: "kernel_ok idle s'" and z: "to_go s' t = to_go s t - int k"
  proof -
    note ih = more.IH[OF more.prems]
    show "kernel_ok idle s'" using ih by blast
    have "\<not> ready s' t" using more.hyps(2) by (auto simp: asleep_def delayed_def)
    then show "to_go s' t = to_go s t - int k" using ih by blast
  qed
  obtain u1 y1 where u1: "act a s' = Some (u1, y1)" "act_ok idle a s' u1 y1" by (rule act_safe[OF k more.hyps(3)])
  then have e: "u1 = u" using more.hyps(5) by simp
  have "sleeps_on (elapsed a) s' u t" "kernel_ok idle u"
    using u1(2) more.hyps(2,4) unfolding e act_ok_def by blast+
  then show ?case using z by (auto simp: sleeps_on_def)
qed simp

text \<open>C12: A delay ends exactly when its time has come. In a state that the kernel reaches by steps that keep the rules of \<open>allowed\<close>, a ready task
  other than the idle task goes to sleep for \<open>d\<close> ticks, \<open>d\<close> not 0 (the step of \<open>vTaskDelay\<close> and \<open>vTaskDelayUntil\<close> that takes it off
  its ready list). It sleeps through anything that other tasks and
  interrupts do by the same rules, short of suspending or deleting it, also across the overflow of the tick count and over ticks that are
  held back or stepped over; it is ready as soon as \<open>d\<close> ticks have come (those held back before it went to sleep count) and the scheduler is not suspended, and
  not before.\<close>

theorem kernel_delay_exact:
  assumes "reachable idle obey s" "allowed idle (Sleep (xTickCount s + d)) s" "act (Sleep (xTickCount s + d)) s = Some (u, y)"
    and "passes idle (pxCurrentTCB s) k u s'"
  shows "(if unat d \<le> k + unat (uxPendedTicks s) \<and> uxSchedulerSuspended s' = 0 then ready s' (pxCurrentTCB s)
    else asleep s' (pxCurrentTCB s))"
proof -
  let ?t = "pxCurrentTCB s"
  note ks = conjunct1[OF reachable_ok[OF assms(1)]]
  have b: "ready s ?t" "?t \<noteq> idle" "xTickCount s + d \<noteq> xTickCount s" using assms(2) by simp_all
  obtain u1 where u1: "sleep_until (xTickCount s + d) s = Some u1" "running_ok idle u1" "blocks s u1"
    "delayed u1 ?t" "wake_time u1 ?t = xTickCount s + d"
    "\<And>t. container (xEventListItem t) u1 = container (xEventListItem t) s"
    by (rule sleep_until_ok[OF kernel_okD(1)[OF ks] b]) metis
  have e: "u1 = u" using u1(1) assms(3) by simp
  have ku: "kernel_ok idle u"
    using call_ok_blocks[OF ks u1(2,3) b(1), of "{}" False] unfolding e call_ok_def by blast
  have ev: "container (xEventListItem ?t) u = None"
  proof -
    have "container (xEventListItem ?t) s = None"
      by (rule event_none[OF running_core[OF kernel_okD(1)[OF ks]] running_current[OF kernel_okD(1)[OF ks]] b(1)])
    then show ?thesis using u1(6) unfolding e by simp
  qed
  have as: "asleep u ?t" using u1(4) ev unfolding e by (simp add: asleep_def)
  have m: "moved s u" using u1(3) unfolding e by (simp add: blocks_def)
  have "to_go u ?t = int (unat d) - int (unat (uxPendedTicks s))"
    using u1(5) movedD[OF m] unfolding e by (simp add: to_go_def remaining_def)
  then have "kernel_ok idle s' \<and> (asleep s' ?t \<and> to_go s' ?t = int (unat d) - int (unat (uxPendedTicks s)) - int k \<or>
    ready s' ?t \<and> uxSchedulerSuspended s' = 0 \<and> int (unat d) - int (unat (uxPendedTicks s)) \<le> int k)"
    using passes_sleep[OF assms(4) ku as] by simp
  moreover have "0 < to_go s' ?t" if "kernel_ok idle s'" "asleep s' ?t" "uxSchedulerSuspended s' = 0"
    using asleep_remaining[OF that(1,2)] kernel_okD(2)[OF that(1,3)] by (simp add: to_go_def)
  ultimately show ?thesis by (auto simp del: of_nat_unat)
qed


lemma kernel_delay_exact_witness:
  "\<exists>u s'. act (Sleep (xTickCount started_state + 1)) started_state = Some (u, False) \<and> act Tick u = Some (s', False) \<and>
     asleep u 2 \<and> ready s' 2"
proof -
  note r = started_reachable[of False] and f = started_fields
  have a: "allowed 1 (Sleep (xTickCount started_state + 1)) started_state" using f by simp
  obtain u where u: "sleep_until (xTickCount started_state + 1) started_state = Some u" "running_ok 1 u" "blocks started_state u"
    by (rule sleep_until_ok[of 1 started_state "xTickCount started_state + 1"])
      (use kernel_okD(1)[OF conjunct1[OF reachable_ok[OF r]]] f in simp_all)
  have au: "act (Sleep (xTickCount started_state + 1)) started_state = Some (u, False)" using u(1) by simp
  note k = kernel_delay_exact[OF r a au]
  have as: "asleep u 2" using k[OF passes.none] f by simp
  have su: "uxSchedulerSuspended u = 0" using u(3) f(6) movedD(14)[of started_state u] by (simp add: blocks_def)
  have at: "allowed 1 Tick u" using su by simp
  have ku: "kernel_ok 1 u"
    using call_ok_blocks[OF conjunct1[OF reachable_ok[OF r]] u(2,3), of "{}" False] f by (simp add: call_ok_def)
  obtain s' where s': "xPortSysTickHandler u = Some s'" "kernel_ok 1 s'" "passed 1 u s'"
    by (rule tick_counted[OF ku su])
  have at': "act Tick u = Some (s', False)" using s'(1) by simp
  have "passes 1 2 (0 + elapsed Tick) u (if False then portYIELD_WITHIN_API s' else s')"
    by (rule passes.more[OF passes.none as at _ at']) simp
  then have "ready s' 2" using k[of 1 s'] f su passed_fields(4)[OF s'(3)] by simp
  then show ?thesis using au at' as by blast
qed

lemma xShouldDelay_iff: "xShouldDelay now previous (previous + increment) \<longleftrightarrow> now - previous < increment"
proof -
  have u: "unat (x :: 32 word) < 4294967296" for x by (rule order.strict_trans2[OF unsigned_less]) simp
  show ?thesis
    using u[of now] u[of previous] u[of increment] unat_sub_if'[of now previous] unat_plus_if'[of previous increment]
    by (auto simp: xShouldDelay_def word_less_nat_alt word_le_nat_alt split: if_splits)
qed

text \<open>\<open>vTaskDelayUntil\<close> keeps a period whatever the phase of the tick count: the task sleeps until its last wake
  time plus the increment exactly when less than the increment has passed since then, counted modulo \<open>2 ^ 32\<close>; otherwise
  it only yields. Either way the next reference time is the last one plus the increment.\<close>

theorem kernel_delay_until:
  assumes "reachable idle obey s" "may_block idle s" "uxSchedulerSuspended s = 0"
  shows "\<exists>s'. vTaskDelayUntil previous increment s = Some (previous + increment, s') \<and> PENDSVSET s' \<and>
    (if xTickCount s - previous < increment
     then asleep s' (pxCurrentTCB s) \<and> wake_time s' (pxCurrentTCB s) = previous + increment
     else ready s' (pxCurrentTCB s))"
proof -
  let ?t = "pxCurrentTCB s" and ?s = "vTaskSuspendAll s" and ?w = "previous + increment"
  note ks = conjunct1[OF reachable_ok[OF assms(1)]]
  have should: "xShouldDelay now previous ?w \<longleftrightarrow> now - previous < increment" for now
    by (rule xShouldDelay_iff)
  have k1: "kernel_ok idle ?s" and n1: "uxSchedulerSuspended ?s = 1"
    using vTaskSuspendAll_ok[OF ks, of "{}" False] assms(3) by (simp_all add: call_ok_def vTaskSuspendAll_def)
  have f1: "pxCurrentTCB ?s = ?t" "xTickCount ?s = xTickCount s" "ready ?s ?t" "uxPendedTicks ?s = 0"
    "line (lists ?s) xPendingReadyList = []" "uxPriority ?s = uxPriority s"
    using assms(2,3) kernel_okD(2,3)[OF ks assms(3)] by (simp_all add: vTaskSuspendAll_def)
  obtain u where u: "(if xShouldDelay (xTickCount ?s) previous ?w then sleep_until ?w ?s else Some ?s) = Some u"
    "running_ok idle u" "uxSchedulerSuspended u = 1" "uxPendedTicks u = 0" "line (lists u) xPendingReadyList = []"
    "uxPriority u = uxPriority s"
    "if xTickCount s - previous < increment then asleep u ?t \<and> wake_time u ?t = ?w else ready u ?t"
  proof (cases "xShouldDelay (xTickCount ?s) previous ?w")
    case True
    then have lt: "xTickCount s - previous < increment" using should f1(2) by simp
    have w: "?w \<noteq> xTickCount ?s"
    proof
      assume "?w = xTickCount ?s"
      then have "xTickCount s - previous = increment" using f1(2) by (metis add_diff_cancel_left')
      then show False using lt by simp
    qed
    have b1: "ready ?s (pxCurrentTCB ?s)" "pxCurrentTCB ?s \<noteq> idle" using f1 assms(2) by simp_all
    obtain u where u: "sleep_until ?w ?s = Some u" "running_ok idle u" "blocks ?s u"
      "delayed u (pxCurrentTCB ?s)" "wake_time u (pxCurrentTCB ?s) = ?w"
      "\<And>t. container (xEventListItem t) u = container (xEventListItem t) ?s"
      by (rule sleep_until_ok[OF kernel_okD(1)[OF k1] b1 w]) metis
    have "container (xEventListItem ?t) u = None"
      using u(6) event_none[OF running_core[OF kernel_okD(1)[OF k1]] running_current[OF kernel_okD(1)[OF k1]] b1(1)] f1(1) by simp
    moreover have m: "moved ?s u" "line (lists u) xPendingReadyList = line (lists ?s) xPendingReadyList"
      using u(3) by (simp_all add: blocks_def)
    ultimately show ?thesis
      using that[of u] True lt u(1,2,4,5) f1 n1 movedD[OF m(1)] by (simp add: asleep_def)
  next
    case False
    then have "\<not> xTickCount s - previous < increment" using should f1(2) by simp
    then show ?thesis using that[of ?s] False kernel_okD(1)[OF k1] n1 f1 by simp
  qed
  obtain s' where s': "xTaskResumeAll u = Some (s', xYieldPending s')" "running_ok idle s'" "resumed u s'"
    by (rule xTaskResumeAll_last[OF u(2,3)])
  have np: "\<not> pending u ?t"
    using line_set[OF running_core[OF u(2)], of "xEventListItem ?t" xPendingReadyList] u(5) by (simp add: pending_def)
  have nc: "\<not> comes_ready u ?t"
    using np delayed_time(2)[OF running_delays[OF u(2)], of ?t] u(4) by (auto simp: comes_ready_def)
  have kp: "kept u s' ?t" by (rule resumedD(3)[OF s'(3) nc])
  let ?r = "if xYieldPending s' then s' else portYIELD_WITHIN_API s'"
  have pe: "PENDSVSET ?r" using s'(3) by (simp add: portYIELD_WITHIN_API_def resumed_def)
  have li: "lists ?r = lists s'" "uxPriority ?r = uxPriority s'" by simp_all
  have run: "vTaskDelayUntil previous increment s = Some (?w, ?r)"
    using u(1) s'(1) by (simp add: vTaskDelayUntil_def Let_def resume_and_yield_def)
  show ?thesis
    using run pe u(6,7) kp li resumedD(4)[OF s'(3)]
    by (intro exI[of _ ?r] conjI) (simp_all only: asleep_def delayed_def kept_def split: if_split)
qed


lemma kernel_delay_until_witness:
  "\<exists>s'. vTaskDelayUntil 0xFFFFFFFE 5 started_state = Some (0xFFFFFFFE + 5, s') \<and> asleep s' 2 \<and>
     wake_time s' 2 = 0xFFFFFFFE + 5"
proof -
  have b: "may_block 1 started_state" using started_fields by simp
  have lt: "xTickCount started_state - 0xFFFFFFFE < 5" using started_fields by simp
  show ?thesis
    using kernel_delay_until[OF started_reachable[of False] b started_fields(6), of "0xFFFFFFFE" 5] lt started_fields(1)
    by (simp only: if_True) blast
qed

section \<open>A mutex is given\<close>

text \<open>
  The calls into the scheduler with which \<open>xQueueGenericSend\<close> gives a mutex that the current task holds: in
  \<open>prvCopyDataToQueue\<close> the priority is disinherited, then a task that waits for the mutex is woken, and only when
  there is none does the result of the first call count.
\<close>

definition give_mutex :: "nat \<Rightarrow> tcb \<Rightarrow> sched \<Rightarrow> sched option" where
  "give_mutex xTasksWaitingToReceive pxMutexHolder s =
     do {
       (s, xYieldRequired) \<leftarrow> xTaskPriorityDisinherit pxMutexHolder s;
       if \<not> list_empty (EventList xTasksWaitingToReceive) s then do {
         (s, woken) \<leftarrow> xTaskRemoveFromEventList xTasksWaitingToReceive s;
         Some (if woken then portYIELD_WITHIN_API s else s)
       }
       else Some (if xYieldRequired then portYIELD_WITHIN_API s else s)
     }"

text \<open>C14: A mutex may be given without the switch that it calls for. In a state with the invariant of the kernel, the scheduler not suspended and no
  switch pending or noted, the current task, ready and with an inherited priority above its own, gives the last mutex it holds; the first task that
  waits for this mutex has a priority not above the giver's own, and some other ready task has a higher one. The giver falls back to
  its own priority, but no switch is requested, and none noted for the next tick: the result of \<open>xTaskPriorityDisinherit\<close> is
  dropped when a waiting task is woken, and the giver goes on running below the ready task of the higher priority.\<close>

theorem mutex_given_no_switch:
  assumes "kernel_ok idle s" "uxSchedulerSuspended s = 0" "\<not> PENDSVSET s" "\<not> xYieldPending s"
    and t: "t = pxCurrentTCB s" "ready s t" "uxMutexesHeld s t = 1" "uxBasePriority s t < uxPriority s t"
    and w: "line (lists s) (EventList e) = xEventListItem w # q" "uxPriority s w \<le> uxBasePriority s t"
    and h: "ready s h" "h \<noteq> t" "uxBasePriority s t < uxPriority s h"
  shows "\<exists>s'. give_mutex e t s = Some s' \<and> pxCurrentTCB s' = t \<and> \<not> PENDSVSET s' \<and> \<not> xYieldPending s' \<and>
    ready s' h \<and> uxPriority s' t < uxPriority s' h"
proof -
  note k = assms(1) and c = running_core[OF kernel_okD(1)[OF assms(1)]]
  have tn: "t \<noteq> NULL" using t(1) running_current[OF kernel_okD(1)[OF k]] core_null[OF c] by auto
  have wt: "w \<noteq> t"
  proof
    assume "w = t"
    then have "container (xEventListItem t) s = Some (EventList e)"
      using w(1) line_set[OF c, of "xEventListItem t" "EventList e"] by simp
    then show False
      using event_none[OF c _ t(2)] t(1) running_current[OF kernel_okD(1)[OF k]] by simp
  qed
  have di: "t = NULL \<or> t = pxCurrentTCB s \<and> ready s t" using t by simp
  obtain s1 y where s1: "xTaskPriorityDisinherit t s = Some (s1, y)" "call_ok idle {} s s1 y"
    "y \<longleftrightarrow> t \<noteq> NULL \<and> uxPriority s t \<noteq> uxBasePriority s t \<and> uxMutexesHeld s t = 1"
    "uxPriority s1 = (if y then (uxPriority s)(t := uxBasePriority s t) else uxPriority s)"
    "\<And>u. ready s1 u = ready s u" "PENDSVSET s1 = PENDSVSET s" "xYieldPending s1 = xYieldPending s"
    "pxCurrentTCB s1 = pxCurrentTCB s" "uxSchedulerSuspended s1 = uxSchedulerSuspended s"
    "\<And>u. container (xEventListItem u) s1 = container (xEventListItem u) s"
    "\<And>l. (\<And>p. l \<noteq> pxReadyTasksLists p) \<Longrightarrow> line (lists s1) l = line (lists s) l"
    by (rule xTaskPriorityDisinherit_ok[OF k di]) blast
  have y: y using s1(3) tn t(3,4) by auto
  have pr: "uxPriority s1 = (uxPriority s)(t := uxBasePriority s t)" using s1(4) y by simp
  have k1: "kernel_ok idle s1" using s1(2) by (simp add: call_ok_def)
  have l1: "line (lists s1) (EventList e) = xEventListItem w # q" using s1(11)[of "EventList e"] w(1) by simp
  have ne: "line (lists s1) (EventList e) \<noteq> []" using l1 by simp
  obtain s2 z v where s2: "xTaskRemoveFromEventList e s1 = Some (s2, z)"
    "hd (line (lists s1) (EventList e)) = xEventListItem v"
    "z \<longleftrightarrow> uxPriority s1 (pxCurrentTCB s1) < uxPriority s1 v"
    "\<And>u. u \<noteq> v \<Longrightarrow> kept s1 s2 u" "PENDSVSET s2 = PENDSVSET s1" "uxPriority s2 = uxPriority s1"
    "pxCurrentTCB s2 = pxCurrentTCB s1" "xYieldPending s2 = (xYieldPending s1 \<or> z)"
    by (rule xTaskRemoveFromEventList_ok[OF k1 ne, where T = "{}" and y' = False]) blast
  have v: "v = w" using s2(2) l1 by simp
  have z: "\<not> z" using s2(3) v wt w(2) pr s1(8) t(1) by simp
  have emp: "\<not> list_empty (EventList e) s1" using empty_list[OF running_core[OF kernel_okD(1)[OF k1]]] ne by simp
  have hw: "h \<noteq> w"
  proof
    assume "h = w"
    then have "container (xEventListItem h) s = Some (EventList e)"
      using w(1) line_set[OF c, of "xEventListItem h" "EventList e"] by simp
    then show False using waiting_blocked[OF c, of h] h(1) by (auto simp: blocked_list_def)
  qed
  have "kept s1 s2 h" by (rule s2(4)) (use hw v in simp)
  then have "ready s2 h" using s1(5)[of h] h(1) s2(6) by (simp add: kept_def)
  moreover have "give_mutex e t s = Some s2" using s1(1) s2(1) z emp by (simp add: give_mutex_def)
  ultimately show ?thesis
    using s1(6-8) s2(5-8) z assms(3,4) t(1) h(2,3) pr by auto
qed

text \<open>Lists that are filled one after the other.\<close>

definition filled :: "(list_id \<times> item) list \<Rightarrow> (list_id, item) kmem" where
  "filled ps = fold (\<lambda>(l, i). vListInsertEnd l i) ps (lists boot_state)"

lemma filled:
  assumes "distinct (map snd ps)" "length ps < 100"
  shows "lists_ok (filled ps) \<and> pxIndex (filled ps) = End \<and> pvContainer (filled ps) i = map_of (map prod.swap ps) i \<and>
    line (filled ps) l = map snd (filter (\<lambda>p. fst p = l) ps)"
  using assms
proof (induction ps arbitrary: i l rule: rev_induct)
  case Nil
  have f: "fresh_list (lists boot_state) l" for l
  proof -
    have r: "ring (lists boot_state) l []" by (simp add: ring_def boot_state_def)
    show ?thesis using list_okI[OF r] by (simp add: fresh_list_def boot_state_def)
  qed
  then show ?case by (simp add: filled_def lists_ok_def fresh_list_def) (simp add: boot_state_def fun_eq_iff)
next
  case (snoc p ps)
  obtain k j where p: "p = (k, j)" by (cases p)
  have ih: "lists_ok (filled ps)" "pxIndex (filled ps) = End" "pvContainer (filled ps) i = map_of (map prod.swap ps) i"
    "line (filled ps) l = map snd (filter (\<lambda>p. fst p = l) ps)" for i l
    using snoc by simp_all
  have n: "j \<notin> snd ` set ps" using snoc.prems(1) p by auto
  have jn: "pvContainer (filled ps) j = None" using n ih(3)[of j] by (force simp: map_of_eq_None_iff)
  have "length ps < 100" using snoc.prems(2) by simp
  from le_less_trans[OF length_filter_le this, of "\<lambda>p. fst p = k"]
  have "length (line (filled ps) k) < 100" using ih(4)[of k] by simp
  then have r: "Suc (length (line (filled ps) k)) < 2 ^ 32" by simp
  have e: "filled (ps @ [p]) = vListInsertEnd k j (filled ps)" using p by (simp add: filled_def)
  have q: "joined (filled ps) k j = line (filled ps) k @ [j]" using ih(2) by (simp add: joined_def)
  have m: "map_of (map prod.swap (ps @ [p])) i = (if i = j then Some k else map_of (map prod.swap ps) i)"
  proof (cases "i = j")
    case True
    then have "map_of (map prod.swap ps) i = None" using jn ih(3)[of j] by simp
    then show ?thesis using True p by (simp add: map_add_def)
  qed (simp add: p map_add_def split: option.split)
  show ?case
    using vListInsertEnd_line[OF ih(1) jn r] ih(2,4) m ih(3)[of i] unfolding e q by (simp add: p)
qed

text \<open>
  Task 2 holds its last mutex with the priority 3 inherited from task 3, which is ready; task 4, with the
  priority 2 had before, and task 5, with a lower one, wait for the mutex; task 1 is the idle task.
\<close>

definition inversion_state :: sched where
  "inversion_state = boot_state\<lparr>
     lists := filled [(pxReadyTasksLists 0, xGenericListItem 1), (pxReadyTasksLists 3, xGenericListItem 2),
       (pxReadyTasksLists 3, xGenericListItem 3), (EventList 0, xEventListItem 4), (xSuspendedTaskList, xGenericListItem 4),
       (EventList 0, xEventListItem 5), (xSuspendedTaskList, xGenericListItem 5)],
     uxPriority := (\<lambda>t. if t = 2 \<or> t = 3 then 3 else if t = 4 then 1 else 0),
     uxBasePriority := (\<lambda>t. if t = 3 then 3 else if t = 2 \<or> t = 4 then 1 else 0),
     uxMutexesHeld := (\<lambda>t. if t = 2 then 1 else 0), allocated := {1, 2, 3, 4, 5}, pxCurrentTCB := 2,
     uxCurrentNumberOfTasks := 5, uxTopReadyPriority := 9, xSchedulerRunning := True\<rparr>"

lemma inversion_lists:
  "lists_ok (lists inversion_state)" "pxIndex (lists inversion_state) = End"
  "container i inversion_state = map_of [(xGenericListItem 1, pxReadyTasksLists 0), (xGenericListItem 2, pxReadyTasksLists 3),
     (xGenericListItem 3, pxReadyTasksLists 3), (xEventListItem 4, EventList 0), (xGenericListItem 4, xSuspendedTaskList),
     (xEventListItem 5, EventList 0), (xGenericListItem 5, xSuspendedTaskList)] i"
  "line (lists inversion_state) l = map snd (filter (\<lambda>p. fst p = l)
     [(pxReadyTasksLists 0, xGenericListItem 1), (pxReadyTasksLists 3, xGenericListItem 2),
       (pxReadyTasksLists 3, xGenericListItem 3), (EventList 0, xEventListItem 4), (xSuspendedTaskList, xGenericListItem 4),
       (EventList 0, xEventListItem 5), (xSuspendedTaskList, xGenericListItem 5)])"
proof -
  let ?ps = "[(pxReadyTasksLists 0, xGenericListItem 1), (pxReadyTasksLists 3, xGenericListItem 2),
       (pxReadyTasksLists 3, xGenericListItem 3), (EventList 0, xEventListItem 4), (xSuspendedTaskList, xGenericListItem 4),
       (EventList 0, xEventListItem 5), (xSuspendedTaskList, xGenericListItem 5)]"
  have "distinct (map snd ?ps)" "length ?ps < 100" by simp_all
  note f = filled[OF this]
  have l: "lists inversion_state = filled ?ps" by (simp add: inversion_state_def)
  show "lists_ok (lists inversion_state)" "pxIndex (lists inversion_state) = End"
    "container i inversion_state = map_of [(xGenericListItem 1, pxReadyTasksLists 0), (xGenericListItem 2, pxReadyTasksLists 3),
     (xGenericListItem 3, pxReadyTasksLists 3), (xEventListItem 4, EventList 0), (xGenericListItem 4, xSuspendedTaskList),
     (xEventListItem 5, EventList 0), (xGenericListItem 5, xSuspendedTaskList)] i"
    "line (lists inversion_state) l = map snd (filter (\<lambda>p. fst p = l) ?ps)"
    unfolding l using f[of i l] by (simp_all only: list.map prod.swap fst_conv snd_conv prod.case swap_simp)
qed

lemma inversion_kernel: "kernel_ok 1 inversion_state"
proof -
  note il = inversion_lists
  let ?s = inversion_state
  have f: "uxPriority ?s = (\<lambda>t. if t = 2 \<or> t = 3 then 3 else if t = 4 then 1 else 0)"
    "uxBasePriority ?s = (\<lambda>t. if t = 3 then 3 else if t = 2 \<or> t = 4 then 1 else 0)"
    "allocated ?s = {1, 2, 3, 4, 5}" "uxTopReadyPriority ?s = 9" "pxCurrentTCB ?s = 2" "xSchedulerRunning ?s"
    "uxCurrentNumberOfTasks ?s = 5" "uxTasksDeleted ?s = 0" "uxPendedTicks ?s = 0" "delay_lists ?s"
    "xNextTaskUnblockTime ?s = portMAX_DELAY"
    by (simp_all add: inversion_state_def boot_state_def delay_lists_def)
  have b9: "bit (9 :: 32 word) n \<longleftrightarrow> n = 0 \<or> n = 3" for n
    by (auto simp: bit_numeral_rec bit_1_iff split: nat.splits)
  have bits: "bits_ok ?s"
    unfolding bits_ok_def
  proof (intro conjI allI impI)
    fix p :: "32 word"
    have "unat p = 0 \<longleftrightarrow> p = 0" "unat p = 3 \<longleftrightarrow> p = 3"
      using unat_eq[of p 0] unat_eq[of p 3] by simp_all
    then show "line (lists ?s) (pxReadyTasksLists p) \<noteq> [] \<longleftrightarrow> p < 11 \<and> bit (uxTopReadyPriority ?s) (unat p)"
      unfolding il(4) f(4) b9 by auto
  next
    show "n < 11" if "bit (uxTopReadyPriority ?s) n" for n using that unfolding f(4) b9 by auto
  qed
  have pl: "placed ?s" unfolding placed_def il(3) f(3) by auto
  have tk: "task_ok ?s t" if "t \<in> allocated ?s - {}" for t
    using that unfolding task_ok_def il(3) f(1,3) by auto
  have core: "core {} ?s"
    unfolding core_def using il(1,2) pl bits tk f(1-3) by (auto simp: index_ok_def)
  have nd: "\<not> delayed ?s t" for t unfolding delayed_def il(3) by auto
  have d: "delays_ok ?s"
    by (rule no_delays[OF f(10) nd _ _ f(11)]) (simp_all add: il(4))
  have "card (allocated ?s) = 5" unfolding f(3) by simp
  then have "running_ok 1 ?s"
    unfolding running_ok_def using core d f il(3)[of "xGenericListItem 1"] by (simp add: il(4))
  then show ?thesis using f(9) by (simp add: kernel_ok_def il(4))
qed

lemma mutex_given_no_switch_witness:
  "\<exists>s'. give_mutex 0 2 inversion_state = Some s' \<and> pxCurrentTCB s' = 2 \<and> \<not> PENDSVSET s' \<and> \<not> xYieldPending s' \<and>
    ready s' 3 \<and> uxPriority s' 2 < uxPriority s' 3"
proof (rule mutex_given_no_switch[OF inversion_kernel, where w = 4 and q = "[xEventListItem 5]"])
qed (simp_all add: inversion_lists, simp_all add: inversion_state_def boot_state_def)

section \<open>Priorities that change while a task waits\<close>

text \<open>\<open>vTaskPrioritySet\<close> leaves a waiting task where it is in the order of an event list: raised above the task
  that is first in line, it is still woken after it, although the list is meant to be in the order of priorities.\<close>

theorem raised_waiter_woken_last:
  assumes k: "kernel_ok idle s" and l: "line (lists s) (EventList e) = xEventListItem a # xEventListItem b # q"
    and p: "uxBasePriority s b = uxPriority s b" "uxPriority s a < p" "p < configMAX_PRIORITIES"
  shows "\<exists>s1 s2 y. vTaskPrioritySet b p s = Some s1 \<and> uxPriority s1 a < uxPriority s1 b \<and>
    xTaskRemoveFromEventList e s1 = Some (s2, y) \<and> xEventListItem b \<in> set (line (lists s2) (EventList e)) \<and>
    xEventListItem a \<notin> set (line (lists s2) (EventList e))"
proof -
  note c = running_core[OF kernel_okD(1)[OF k]]
  have on: "container (xEventListItem a) s = Some (EventList e)" "container (xEventListItem b) s = Some (EventList e)"
    using line_set[OF c, of _ "EventList e"] l by (metis list.set_intros(1), metis list.set_intros(1,2))
  have ba: "b \<in> allocated s" using placedD(2)[OF core_placed[OF c] on(2)] by simp
  have bn: "b \<noteq> NULL" using ba core_null[OF c] by auto
  have ab: "a \<noteq> b" using line_distinct[OF c, of "EventList e"] l by auto
  have h: "prvGetTCBFromHandle b s = b" using bn by (simp add: prvGetTCBFromHandle_def)
  have np: "\<not> configMAX_PRIORITIES \<le> p" using p(3) by simp
  obtain s1 where s1: "vTaskPrioritySet b p s = Some s1" "call_ok idle {} s s1 False"
    "uxPriority s1 = (uxPriority s)(prvGetTCBFromHandle b s :=
       if uxBasePriority s (prvGetTCBFromHandle b s) = uxPriority s (prvGetTCBFromHandle b s)
       then if configMAX_PRIORITIES \<le> p then configMAX_PRIORITIES - 1 else p
       else uxPriority s (prvGetTCBFromHandle b s))"
    "\<And>l. (\<And>p. l \<noteq> pxReadyTasksLists p) \<Longrightarrow> line (lists s1) l = line (lists s) l"
    using vTaskPrioritySet_ok[OF k, of b p] h ba by metis
  have pr: "uxPriority s1 = (uxPriority s)(b := p)" using s1(3) np p(1) unfolding h by simp
  have k1: "kernel_ok idle s1" using s1(2) by (simp add: call_ok_def)
  have l1: "line (lists s1) (EventList e) = xEventListItem a # xEventListItem b # q" using s1(4) l by simp
  have ne: "line (lists s1) (EventList e) \<noteq> []" using l1 by simp
  note c1 = running_core[OF kernel_okD(1)[OF k1]]
  obtain s2 y v where s2: "xTaskRemoveFromEventList e s1 = Some (s2, y)" "call_ok idle {} s1 s2 False"
    "hd (line (lists s1) (EventList e)) = xEventListItem v"
    "if uxSchedulerSuspended s1 = 0 then ready s2 v \<and> container (xEventListItem v) s2 = None else pending s2 v"
    "\<And>u. u \<noteq> v \<Longrightarrow> kept s1 s2 u"
    by (rule xTaskRemoveFromEventList_ok[OF k1 ne, where T = "{}" and y' = False]) blast
  have v: "v = a" using s2(3) l1 by simp
  have k2: "kernel_ok idle s2" using s2(2) by (simp add: call_ok_def)
  note on2 = line_set[OF running_core[OF kernel_okD(1)[OF k2]]]
  have "container (xEventListItem b) s2 = Some (EventList e)"
    using s2(5)[of b] ab v line_set[OF c1, of "xEventListItem b" "EventList e"] l1 by (simp add: kept_def)
  moreover have "container (xEventListItem a) s2 \<noteq> Some (EventList e)"
    using s2(4) v by (auto simp: pending_def split: if_splits)
  ultimately show ?thesis using s1(1) s2(1) pr p(2) ab on2 by auto
qed

lemma raised_waiter_woken_last_witness:
  "\<exists>s1 s2 y. vTaskPrioritySet 5 2 inversion_state = Some s1 \<and> uxPriority s1 4 < uxPriority s1 5 \<and>
    xTaskRemoveFromEventList 0 s1 = Some (s2, y) \<and> xEventListItem 5 \<in> set (line (lists s2) (EventList 0)) \<and>
    xEventListItem 4 \<notin> set (line (lists s2) (EventList 0))"
proof (rule raised_waiter_woken_last[OF inversion_kernel, where q = "[]"])
qed (simp_all add: inversion_lists, simp_all add: inversion_state_def)

section \<open>The lists\<close>

text \<open>\<open>vListInsert\<close> puts an item into a list that is in order: its walk over the ring ends, the list is in order
  after it, the new item comes after those of the same value, and the other lists are as they were.\<close>

theorem list_insert_in_order:
  assumes "lists_ok m" "pxIndex m l = End l" "pvContainer m i = None" "Suc (length (line m l)) < 2 ^ 32"
    and "sorted (map (\<lambda>j. xItemValue m (Item j)) (line m l))"
  shows "\<exists>m' p q. vListInsert l i m = Some m' \<and> lists_ok m' \<and> line m l = p @ q \<and> line m' = (line m)(l := p @ i # q) \<and>
    sorted (map (\<lambda>j. xItemValue m' (Item j)) (line m' l)) \<and> uxNumberOfItems m' l = uxNumberOfItems m l + 1 \<and>
    (\<forall>j \<in> set p. xItemValue m (Item j) \<le> xItemValue m (Item i)) \<and> (\<forall>j \<in> set q. xItemValue m (Item i) < xItemValue m (Item j))"
proof -
  let ?v = "\<lambda>j. xItemValue m (Item j)"
  let ?P = "\<lambda>j. ?v j \<le> ?v i"
  obtain m' where m': "vListInsert l i m = Some m'" "lists_ok m'" "line m' = (line m)(l := inserted m l i)"
    "xItemValue m' = xItemValue m"
    using vListInsert_line[OF assms(1,3,4,2)] by metis
  let ?p = "takeWhile ?P (line m l)" and ?q = "dropWhile ?P (line m l)"
  have li: "line m' l = ?p @ i # ?q" using m'(3) by (simp add: inserted_def Let_def)
  have so: "sorted (map (\<lambda>j. xItemValue m' (Item j)) (line m' l))"
    unfolding li m'(4) by (rule sorted_insert_after[OF assms(5)])
  have q: "?v i < ?v j" if "j \<in> set ?q" for j
  proof -
    have qn: "?q \<noteq> []"
    proof
      assume "?q = []"
      then show False using that unfolding \<open>?q = []\<close> by simp
    qed
    then obtain x xs where xq: "?q = x # xs" unfolding neq_Nil_conv by blast
    from qn have "\<not> ?P (hd ?q)" by (rule hd_dropWhile)
    then have h: "?v i < ?v x" unfolding xq list.sel by (simp only: not_le)
    have "sorted (map ?v (?p @ ?q))" using assms(5) by (simp only: takeWhile_dropWhile_id)
    then have "sorted (map ?v (x # xs))" unfolding xq map_append sorted_append by blast
    then have "?v x \<le> ?v j" using that unfolding xq by auto
    then show ?thesis using h by simp
  qed
  have num: "uxNumberOfItems m' l = uxNumberOfItems m l + 1"
  proof -
    have "uxNumberOfItems m' l = word_of_nat (length (line m' l))" "uxNumberOfItems m l = word_of_nat (length (line m l))"
      using length_line[OF lists_okD[OF m'(2)]] length_line[OF lists_okD[OF assms(1)]] by simp_all
    moreover have "length (line m' l) = Suc (length (line m l))"
      unfolding li by (metis length_append add_Suc_right length_Cons takeWhile_dropWhile_id)
    ultimately show ?thesis by simp
  qed
  have "line m l = ?p @ ?q" "line m' = (line m)(l := ?p @ i # ?q)" using m'(3) by (simp_all add: inserted_def Let_def)
  moreover have "\<forall>j \<in> set ?p. ?v j \<le> ?v i" by (auto dest: set_takeWhileD)
  ultimately show ?thesis using m'(1,2) so num q by blast
qed

lemma list_insert_in_order_witness:
  "\<exists>m' p q. vListInsert (EventList 0) (xEventListItem 2) (lists inversion_state) = Some m' \<and>
     p @ q = [xEventListItem 4, xEventListItem 5] \<and> line m' (EventList 0) = p @ xEventListItem 2 # q"
proof -
  have l: "line (lists inversion_state) (EventList 0) = [xEventListItem 4, xEventListItem 5]" by (simp add: inversion_lists)
  have v: "xItemValue (lists inversion_state) = (\<lambda>_. portMAX_DELAY)"
    by (simp add: inversion_state_def filled_def boot_state_def)
  have h: "pxIndex (lists inversion_state) (EventList 0) = End (EventList 0)" "container (xEventListItem 2) inversion_state = None"
    "Suc (length (line (lists inversion_state) (EventList 0))) < 2 ^ 32"
    "sorted (map (\<lambda>j. xItemValue (lists inversion_state) (Item j)) (line (lists inversion_state) (EventList 0)))"
    unfolding l v inversion_lists by simp_all
  show ?thesis using list_insert_in_order[OF inversion_lists(1) h] l by (metis fun_upd_same)
qed

end
