(* ===== verification/Spec2Isabelle.thy ===== *)
theory Spec2Isabelle
  imports Heaps DhcpsProps XmlProps YmodemProps ScanfProps OtaProps LogProps Pmu MailboxProps SchedProps
begin

text \<open>
  \<^bold>\<open>A verification library for the RTL8710 SDK firmware\<close>

  The repository is the SDK of a Wi-Fi microcontroller (RTL8195A/RTL8710, a Cortex-M3): FreeRTOS and lwIP
  with the vendor's own code around them under \<open>src/component\<close>, and a small application in Rust
  that calls into it. The library models parts of the vendor's code with logic of their own, and proves
  what makes them correct, or where they are not. Each component has its theories, which read in the order
  of the code; this theory only collects them.

  \<^bold>\<open>Parts of the program and their theories\<close>

  \<^item> The two allocators, which share one address space. \<open>os/os_dep/tcm_heap.c\<close> manages the
    tightly coupled memory as one list of free chunks (\<open>TcmHeap\<close>); \<open>heap_5.c\<close>, changed by
    the vendor, manages several regions for the RTOS (\<open>Heap5\<close>) and passes blocks of the TCM heap back to
    it (\<open>Heaps\<close>). Both keep their lists inside the memory they manage: \<open>Memory\<close> is that memory,
    \<open>FreeList\<close> the linked lists in it. \<open>Allocator\<close> states as a locale what a client may
    rely on: blocks that do not overlap, are within the heap and keep their contents; it is interpreted
    for both, and \<open>tcm_client_safe\<close> and \<open>h5_client_safe\<close> are its conclusions.
  \<^item> The scheduler of the RTOS, \<open>freertos_v8.1.2/Source/tasks.c\<close> and \<open>list.c\<close>, with the macros and handlers of
    the port. \<open>Klist\<close> has the linked rings of items and says what each operation does to the line of a list; \<open>Sched\<close>
    has the state of \<open>tasks.c\<close> and its operations, one critical section a step. \<open>SchedInv\<close> is the part of the invariant
    about lists, priorities and the bit map, \<open>SchedTick\<close> the delayed lists and the tick, \<open>SchedMoves\<close> what moves a task
    between lists, \<open>SchedCalls\<close> and \<open>SchedTasks\<close> the calls of tasks and interrupts and the creation of tasks;
    \<open>SchedActs\<close> makes the steps of a system of them (\<open>act\<close>), with the rules that callers keep (\<open>allowed\<close>) and the states that
    are reached (\<open>reachable\<close>). \<open>SchedProps\<close> says that no step faults, that the lists mean what they should, that
    the task of the highest priority runs and equals take turns (the locale \<open>turns\<close>, interpreted for the switch), and that delays end on time.
  \<^item> The message queues of the RTOS, \<open>freertos_v8.1.2/Source/queue.c\<close>. \<open>Queue\<close> has the ring buffer,
    the lists of waiting tasks and the lock, one definition for each critical section, and relates them to a
    sequence of items (the locale \<open>bounded_queue\<close>, interpreted for calls from tasks and from
    interrupts). \<open>QueueTasks\<close> has the loops with which tasks wait, as a step relation of tasks, interrupts
    and ticks, and its invariant; \<open>QueueProps\<close> says that no item and no wake-up is lost.
  \<^item> The mailboxes \<open>os/os_dep/mailbox.c\<close> on these queues (\<open>Mailbox\<close>, \<open>MailboxProps\<close>): the
    operations act on a map from numbers to sequences of messages, a mailbox is again a
    \<open>bounded_queue\<close>, and the semaphore of its reader counts the messages that were put in.
  \<^item> The DHCP server \<open>common/network/dhcp/dhcps.c\<close>. \<open>Dhcps\<close> has the state of the file,
    the handler of a packet and everything it calls, on byte buffers (\<open>Bytes\<close>); \<open>DhcpsSpec\<close>
    says what a reply contains and what the address table means; \<open>DhcpsProps\<close> states what the server
    answers to DISCOVER and REQUEST, the states it can reach, and the parsing of options.
  \<^item> The XML library \<open>common/utilities/xml.c\<close>. \<open>XmlStr\<close> has the string functions and the
    parsing of a tag, \<open>Xml\<close> the node store and all operations on it, \<open>XmlParse\<close> the parser.
    \<open>XmlTree\<close> relates linked nodes to the datatype \<open>xtree\<close> and shows that adding and deleting
    children refines the operations on trees; \<open>XmlFind\<close> does so for searching and writing (the locale
    \<open>sibling_loop\<close> is the loop over children that six functions share), \<open>XmlCopy\<close> for copying,
    \<open>XmlRound\<close> for parsing what was written, \<open>XmlAttr\<close> for attributes. \<open>XmlProps\<close> has the
    properties.
  \<^item> The flash driver \<open>mbed/targets/hal/rtl8195a/flash_api.c\<close> (\<open>Flash\<close>): streams of bytes on a
    memory of words. The chip is a parameter, \<open>nor_ok\<close> its data sheet.
  \<^item> The firmware update over the serial line \<open>common/utilities/uart_ymodem.c\<close>: \<open>Ymodem\<close> has the
    interrupt and the thread as turns on packets; \<open>YmodemCrc\<close> relates its checksum loop to the 16-bit CRC;
    \<open>YmodemThread\<close> has the thread action by action, the interrupt between any two actions, as the step relation \<open>ystep\<close>,
    and shows that without bytes in between the actions of a turn are the turn; \<open>YmodemProps\<close> composes it with
    \<open>Flash\<close>: what a transfer leaves in the flash, which damage is noticed, and that the buffers hold.
  \<^item> The C library patches \<open>common/api/platform/stdlib_patch.c\<close>: \<open>Printf\<close> has its formatted
    output, \<open>Scanf\<close> its tokenizer, substring search and formatted input (the string functions in ROM
    are a parameter, \<open>rom_ok\<close> what C promises of them); \<open>PrintfProps\<close> and
    \<open>ScanfProps\<close> show what is printed, and that it is read back.
  \<^item> The firmware update over TCP \<open>common/utilities/update.c\<close>: \<open>Ota\<close> has the receiving task
    on the bytes that arrive in pieces, the choice of the image and the system sector; \<open>OtaProps\<close>
    composes it with \<open>Flash\<close>.
  \<^item> The command service \<open>common/api/at_cmd/log_service.c\<close>: \<open>Log\<close> has the hash table of
    commands, the dispatch of a line and the splitting of its arguments. The locale \<open>command_table\<close>
    states what the dispatcher needs of a table; it is interpreted on the hash table, and \<open>LogProps\<close>
    rests on it.
  \<^item> Tickless idle \<open>os/freertos/freertos_pmu.c\<close> (\<open>Pmu\<close>): wake locks, and the time that is
    kept across a sleep.

  \<^bold>\<open>How C is rendered\<close>

  A structure is a record, the static variables of a file the record of its state, a function of the
  source a definition of the same name; where HOL has the name already a suffix is added. Integers that may
  wrap are words or have the wrap-around written out (\<open>Prelude\<close>). What C leaves undefined, a read
  outside a buffer or the use of a null or freed pointer, is the result \<open>None\<close>. A loop is a recursive
  function: structural or with a termination proof where it always ends; where it follows pointers it is
  \<open>partial_function (option)\<close>, and the lemmas show that it returns on well-formed structures. The
  functions of \<open>TcmHeap\<close> and \<open>Heap5\<close> that walk a list take their bound from the length of
  the list, which no step extends. Interrupts and tasks appear as interleavings of steps.
  Constants are those of the build in the repository (\<open>platform_opts.h\<close>, \<open>FreeRTOSConfig.h\<close>); so \<open>LOG_SERVICE_BUFLEN\<close> is 1600.

  \<^bold>\<open>What the lemmas show\<close>

  Each component has its invariant (\<open>heap_ok\<close> and \<open>h5_ok\<close> style predicates for the allocators,
  \<open>kernel_ok\<close> for the scheduler, \<open>sync_ok\<close> for the queues, \<open>store_ok\<close> and \<open>tree_at\<close> for XML, \<open>ready\<close> and \<open>ybuf_ok\<close> for the update), lemmas
  that every operation keeps it, and the properties, numbered C1 on, each with a witness at a concrete
  input. Some properties and lemmas (\<open>tcm_alloc_race\<close>, \<open>xml_parse_nested_name\<close>, \<open>parse_param_overruns\<close>,
  \<open>queue_reset_strands\<close>, \<open>mutex_given_no_switch\<close>, \<open>raised_waiter_woken_last\<close>, \<open>mailbox_isr_wakeup_lost\<close>, \<open>dhcps_end_option_overread\<close>, \<open>xml_dump_tree_ex_overflows\<close> and others) state defects of the
  code, on the code's own model.

  \<^bold>\<open>Not modelled\<close>

  The registers of the chip and the wlan library, which is binary; lwIP, PolarSSL and FatFs, which are
  vendored; printing and statistics; the saved registers and stacks of tasks, and the timers, event groups and
  co-routines of FreeRTOS. The queues and the mailboxes keep of the scheduler only which tasks can run, and the
  critical sections and suspensions that they use, and the theories of the scheduler keep of a queue only its event lists. The locks
  around whole operations (the mutex of the mailbox list, the lock of the command service) are left out: they keep
  other tasks out.
\<close>

end
